(* ===== verification/Prelude.thy ===== *)
theory Prelude
  imports Main "HOL-Library.Sublist"
begin

text \<open>
  Shared vocabulary of the development: the JavaScript values the components read and write
  (decimal numerals, \<open>parseInt\<close>, \<open>String.replace\<close> with a string pattern, \<open>jQuery.trim\<close>, CSS
  class lists), generic lemmas on them, and the interface \<open>numeral_system\<close> that the components
  which print and parse numbers are proved against.

  Conventions. A JavaScript string is a \<^typ>\<open>string\<close> (a list of 8-bit code units). A number that the
  code only ever uses as an integer is an \<^typ>\<open>int\<close> or a \<^typ>\<open>nat\<close>; the models are exact up to
  \<open>2^53\<close>, the range in which a double represents every integer. \<open>NaN\<close> is explicit where the code can
  produce it.
\<close>

named_theorems js_simps \<open>evaluation of the JavaScript string and number helpers\<close>

section \<open>Decimal numerals\<close>

definition digit_char :: "nat \<Rightarrow> char" where
  "digit_char n = char_of (48 + n)"

definition is_digit :: "char \<Rightarrow> bool" where
  "is_digit c \<longleftrightarrow> 48 \<le> (of_char c :: nat) \<and> (of_char c :: nat) \<le> 57"

definition digit_val :: "char \<Rightarrow> nat" where
  "digit_val c = of_char c - 48"

text \<open>\<open>Number.prototype.toString\<close> on a non-negative integer, and \<open>parseInt\<close> on a digit string.\<close>

fun nat_to_string :: "nat \<Rightarrow> string" where
  "nat_to_string n =
     (if n < 10 then [digit_char n] else nat_to_string (n div 10) @ [digit_char (n mod 10)])"

declare nat_to_string.simps [simp del]

definition digits_to_nat :: "string \<Rightarrow> nat" where
  "digits_to_nat s = foldl (\<lambda>a c. 10 * a + digit_val c) 0 s"

definition int_to_string :: "int \<Rightarrow> string" where
  "int_to_string i = (if i < 0 then CHR ''-'' # nat_to_string (nat (- i)) else nat_to_string (nat i))"

lemma is_digit_char [simp]: "n < 10 \<Longrightarrow> is_digit (digit_char n)"
  by (simp add: is_digit_def digit_char_def)

lemma digit_val_char [simp]: "n < 10 \<Longrightarrow> digit_val (digit_char n) = n"
  by (simp add: digit_val_def digit_char_def)

lemma digits_to_nat_Nil [simp]: "digits_to_nat [] = 0"
  by (simp add: digits_to_nat_def)

lemma digits_to_nat_snoc [simp]: "digits_to_nat (s @ [c]) = 10 * digits_to_nat s + digit_val c"
  by (simp add: digits_to_nat_def)

lemma digits_to_nat_nat_to_string [simp]: "digits_to_nat (nat_to_string n) = n"
proof (induction n rule: nat_to_string.induct)
  case (1 n)
  show ?case
  proof (cases "n < 10")
    case True
    then show ?thesis
      using digits_to_nat_snoc [of "[]" "digit_char n"]
      by (simp add: nat_to_string.simps [of n])
  next
    case False
    with "1.IH" show ?thesis by (simp add: nat_to_string.simps [of n])
  qed
qed

lemma nat_to_string_digits: "\<forall>c \<in> set (nat_to_string n). is_digit c"
proof (induction n rule: nat_to_string.induct)
  case (1 n)
  then show ?case
    by (cases "n < 10") (auto simp: nat_to_string.simps [of n])
qed

lemma list_all_nat_to_string [simp]: "list_all is_digit (nat_to_string n)"
  using nat_to_string_digits by (simp add: list_all_iff)

lemma nat_to_string_neq_Nil [simp]: "nat_to_string n \<noteq> []"
  by (subst nat_to_string.simps) simp

lemma inj_nat_to_string: "nat_to_string m = nat_to_string n \<longleftrightarrow> m = n"
  by (metis digits_to_nat_nat_to_string)

lemma length_nat_to_string_less:
  "n < 10 ^ k \<Longrightarrow> 0 < k \<Longrightarrow> length (nat_to_string n) \<le> k"
proof (induction n arbitrary: k rule: nat_to_string.induct)
  case (1 n)
  show ?case
  proof (cases "n < 10")
    case True
    with "1.prems" show ?thesis by (simp add: nat_to_string.simps [of n])
  next
    case False
    from "1.prems" obtain j where j: "k = Suc j"
      by (cases k) auto
    with False "1.prems" have k: "k = Suc j" "0 < j"
      by (cases j; simp)+
    have "n div 10 < 10 ^ j"
      using "1.prems" k by (simp add: less_mult_imp_div_less)
    with False k "1.IH" show ?thesis by (simp add: nat_to_string.simps [of n])
  qed
qed

section \<open>The numeral interface\<close>

text \<open>
  Components that write a number into text and read it back rely on these four laws only; the
  interpretation below provides them for the numerals of JavaScript.
\<close>

locale numeral_system =
  fixes pr :: "nat \<Rightarrow> string" and rd :: "string \<Rightarrow> nat"
  assumes rd_pr: "rd (pr n) = n"
    and pr_digits: "list_all is_digit (pr n)"
    and pr_nonempty: "pr n \<noteq> []"
begin

lemma pr_inject: "pr m = pr n \<longleftrightarrow> m = n"
  by (metis rd_pr)

lemma takeWhile_pr: "(rest = [] \<or> \<not> is_digit (hd rest)) \<Longrightarrow> takeWhile is_digit (pr n @ rest) = pr n"
  using pr_digits [of n] by (cases rest) (auto simp: list_all_iff takeWhile_append2)

lemma dropWhile_pr: "(rest = [] \<or> \<not> is_digit (hd rest)) \<Longrightarrow> dropWhile is_digit (pr n @ rest) = rest"
  using pr_digits [of n] by (cases rest) (auto simp: list_all_iff dropWhile_append2)

end

interpretation decimal: numeral_system nat_to_string digits_to_nat
  by unfold_locales simp_all

text \<open>The same interface stated outside the locale, for the components.\<close>

lemmas takeWhile_numeral = decimal.takeWhile_pr
lemmas dropWhile_numeral = decimal.dropWhile_pr

section \<open>Strings\<close>

text \<open>
  \<open>s.match(/[0-9]+/)\<close>: the leftmost maximal run of digits, \<^const>\<open>None\<close> for the \<open>null\<close> of a failed
  match.
\<close>

definition match_digits :: "string \<Rightarrow> string option" where
  "match_digits s =
     (let d = takeWhile is_digit (dropWhile (\<lambda>c. \<not> is_digit c) s) in if d = [] then None else Some d)"

text \<open>
  \<open>parseInt(m)\<close> for the result \<open>m\<close> of such a match: \<open>null\<close> is read as the string \<open>"null"\<close>, which has no
  leading digit, so the result is \<open>NaN\<close>.
\<close>

datatype js_num = NaN | Num int

definition parse_int_match :: "string option \<Rightarrow> js_num" where
  "parse_int_match m = (case m of None \<Rightarrow> NaN | Some d \<Rightarrow> Num (int (digits_to_nat d)))"

text \<open>What an operation throws when it reads a property of \<open>null\<close> or \<open>undefined\<close>.\<close>

datatype js_error = Type_Error

text \<open>Every comparison with \<open>NaN\<close> is false.\<close>

fun js_greater :: "js_num \<Rightarrow> js_num \<Rightarrow> bool" where
  "js_greater (Num a) (Num b) \<longleftrightarrow> a > b"
| "js_greater _ _ \<longleftrightarrow> False"

text \<open>
  \<open>s.replace(p, r)\<close> with a string pattern: the first occurrence of \<open>p\<close> is replaced, an empty pattern
  matches at the start. (A replacement that contains \<open>$\<close> has further meaning in JavaScript; no
  component passes one.)
\<close>

fun replace_first :: "string \<Rightarrow> string \<Rightarrow> string \<Rightarrow> string" where
  "replace_first p r s =
     (if prefix p s then r @ drop (length p) s
      else case s of [] \<Rightarrow> [] | c # cs \<Rightarrow> c # replace_first p r cs)"

declare replace_first.simps [simp del]

lemma replace_first_prefix: "replace_first p r (p @ s) = r @ s"
  by (simp add: replace_first.simps)

lemma replace_first_empty_pattern: "replace_first [] r s = r @ s"
  by (simp add: replace_first.simps)

lemma replace_first_Cons:
  "\<not> prefix p (c # s) \<Longrightarrow> replace_first p r (c # s) = c # replace_first p r s"
  by (simp add: replace_first.simps [of p r "c # s"])

lemma replace_first_skip:
  assumes "p \<noteq> []" and "list_all is_digit p" and "list_all (\<lambda>c. \<not> is_digit c) u"
  shows "replace_first p r (u @ p @ s) = u @ r @ s"
  using assms(3)
proof (induction u)
  case Nil
  then show ?case by (simp add: replace_first_prefix)
next
  case (Cons c u)
  from assms(1,2) Cons.prems have "\<not> prefix p (c # u @ p @ s)"
    by (cases p) auto
  with Cons show ?case by (simp add: replace_first_Cons)
qed

text \<open>\<open>jQuery.trim\<close>: white space, the byte order mark aside, and the no-break space are cut on both sides.\<close>

definition is_space :: "char \<Rightarrow> bool" where
  "is_space c \<longleftrightarrow> (of_char c :: nat) \<in> {9, 10, 11, 12, 13, 32, 160}"

definition js_trim :: "string \<Rightarrow> string" where
  "js_trim s = rev (dropWhile is_space (rev (dropWhile is_space s)))"

lemma dropWhile_idem_hd: "dropWhile P (dropWhile P xs) = dropWhile P xs"
  by (induction xs) auto

lemma hd_rev_dropWhile_rev:
  "rev (dropWhile P (rev xs)) \<noteq> [] \<Longrightarrow> hd (rev (dropWhile P (rev xs))) = hd xs"
proof -
  assume ne: "rev (dropWhile P (rev xs)) \<noteq> []"
  have "xs = rev (dropWhile P (rev xs)) @ rev (takeWhile P (rev xs))"
    by (metis rev_append rev_rev_ident takeWhile_dropWhile_id)
  with ne show ?thesis by (metis hd_append2)
qed

lemma js_trim_idem: "js_trim (js_trim s) = js_trim s"
proof -
  let ?u = "dropWhile is_space s"
  let ?t = "rev (dropWhile is_space (rev ?u))"
  have "dropWhile is_space ?t = ?t"
  proof (cases "?t = []")
    case False
    have ne: "?u \<noteq> []"
    proof
      assume u: "?u = []"
      from False show False unfolding u by simp
    qed
    then have "\<not> is_space (hd ?u)" by (rule hd_dropWhile)
    with False hd_rev_dropWhile_rev [of is_space ?u] have "\<not> is_space (hd ?t)" by simp
    with False show ?thesis by (cases ?t) auto
  next
    case True
    then show ?thesis by (metis dropWhile.simps(1))
  qed
  then show ?thesis
    by (simp add: js_trim_def dropWhile_idem_hd)
qed

text \<open>\<open>toLowerCase\<close> on the ASCII letters.\<close>

definition lower :: "char \<Rightarrow> char" where
  "lower c = (let n = of_char c :: nat in if 65 \<le> n \<and> n \<le> 90 then char_of (n + 32) else c)"

section \<open>CSS class lists\<close>

text \<open>
  The class attribute of an element is the list of its classes. \<open>addClass\<close> appends a class that is not
  there yet, \<open>removeClass\<close> removes every occurrence.
\<close>

type_synonym css = "string list"

definition add_class :: "string \<Rightarrow> css \<Rightarrow> css" where
  "add_class c cs = (if c \<in> set cs then cs else cs @ [c])"

definition remove_class :: "string \<Rightarrow> css \<Rightarrow> css" where
  "remove_class c cs = filter (\<lambda>d. d \<noteq> c) cs"

definition toggle_class :: "string \<Rightarrow> css \<Rightarrow> css" where
  "toggle_class c cs = (if c \<in> set cs then remove_class c cs else add_class c cs)"

definition has_class :: "string \<Rightarrow> css \<Rightarrow> bool" where
  "has_class c cs \<longleftrightarrow> c \<in> set cs"

named_theorems css_simps \<open>laws of addClass, removeClass and hasClass\<close>

lemma has_add_class [css_simps]: "has_class d (add_class c cs) \<longleftrightarrow> d = c \<or> has_class d cs"
  by (auto simp: has_class_def add_class_def)

lemma has_remove_class [css_simps]: "has_class d (remove_class c cs) \<longleftrightarrow> d \<noteq> c \<and> has_class d cs"
  by (auto simp: has_class_def remove_class_def)

lemma has_toggle_class [css_simps]:
  "has_class d (toggle_class c cs) \<longleftrightarrow> (if d = c then \<not> has_class c cs else has_class d cs)"
  by (auto simp: has_class_def toggle_class_def add_class_def remove_class_def)

lemma set_add_class [simp]: "set (add_class c cs) = insert c (set cs)"
  by (auto simp: add_class_def)

lemma set_remove_class [simp]: "set (remove_class c cs) = set cs - {c}"
  by (auto simp: remove_class_def)

lemma distinct_add_class [simp]: "distinct cs \<Longrightarrow> distinct (add_class c cs)"
  by (simp add: add_class_def)

lemma distinct_remove_class [simp]: "distinct cs \<Longrightarrow> distinct (remove_class c cs)"
  by (simp add: remove_class_def)

lemma remove_add_class: "c \<notin> set cs \<Longrightarrow> remove_class c (add_class c cs) = cs"
  by (auto simp: add_class_def remove_class_def filter_id_conv)

section \<open>Clamping to optional limits\<close>

text \<open>
  \<open>d < min ? min : d\<close> followed by \<open>d > max ? max : d\<close>, each only where the limit is there: what the date
  picker and the value controls do with a value before they keep it. The upper limit is applied last.
\<close>

definition clamp :: "'a::linorder option \<Rightarrow> 'a option \<Rightarrow> 'a \<Rightarrow> 'a" where
  "clamp lo hi x =
     (let y = (case lo of Some l \<Rightarrow> if x < l then l else x | None \<Rightarrow> x) in
        case hi of Some h \<Rightarrow> if h < y then h else y | None \<Rightarrow> y)"

definition in_bounds :: "'a::linorder option \<Rightarrow> 'a option \<Rightarrow> 'a \<Rightarrow> bool" where
  "in_bounds lo hi x \<longleftrightarrow>
     (case lo of Some l \<Rightarrow> l \<le> x | None \<Rightarrow> True) \<and> (case hi of Some h \<Rightarrow> x \<le> h | None \<Rightarrow> True)"

definition limits_ordered :: "'a::linorder option \<Rightarrow> 'a option \<Rightarrow> bool" where
  "limits_ordered lo hi \<longleftrightarrow> (case (lo, hi) of (Some l, Some h) \<Rightarrow> l \<le> h | _ \<Rightarrow> True)"

lemma clamp_within: "limits_ordered lo hi \<Longrightarrow> in_bounds lo hi (clamp lo hi x)"
  by (auto simp: clamp_def in_bounds_def limits_ordered_def Let_def split: option.splits)

lemma clamp_id: "in_bounds lo hi x \<Longrightarrow> clamp lo hi x = x"
  by (auto simp: clamp_def in_bounds_def split: option.splits)

lemma clamp_idem: "limits_ordered lo hi \<Longrightarrow> clamp lo hi (clamp lo hi x) = clamp lo hi x"
  by (rule clamp_id [OF clamp_within])

lemma clamp_upper: "hi = Some h \<Longrightarrow> clamp lo hi x \<le> h"
  by (auto simp: clamp_def Let_def)

lemma clamp_mono: "x \<le> y \<Longrightarrow> clamp lo hi x \<le> clamp lo hi y"
  by (auto simp: clamp_def Let_def split: option.splits)

section \<open>Updating one element of a list\<close>

text \<open>jQuery's \<open>.each\<close> over an indexed collection, and an update at an index that may be out of range.\<close>

definition update_nth :: "nat \<Rightarrow> ('a \<Rightarrow> 'a) \<Rightarrow> 'a list \<Rightarrow> 'a list" where
  "update_nth i f xs = (if i < length xs then xs[i := f (xs ! i)] else xs)"

lemma length_update_nth [simp]: "length (update_nth i f xs) = length xs"
  by (simp add: update_nth_def)

lemma nth_update_nth [simp]:
  "j < length xs \<Longrightarrow> update_nth i f xs ! j = (if j = i then f (xs ! i) else xs ! j)"
  by (simp add: update_nth_def nth_list_update)

end
