(* ===== verification/Page_Cache.thy ===== *)
theory Page_Cache
  imports Prelude "HOL-Library.AList"
begin

text \<open>
  The page cache of Turbolinks, as it is compiled into the deployed script bundle: \<open>cacheCurrentPage\<close>,
  \<open>transitionCacheFor\<close>, \<open>pagesCached\<close> and \<open>constrainPageCacheTo\<close>. The cache is a JavaScript object keyed
  by absolute address, here an association list in insertion order (the order of \<open>Object.keys\<close>, since no
  address is an array index). The lemmas show that the cache never exceeds its limit, which pages an
  eviction keeps, and that a page just stored is found again. The interface \<open>page_store\<close> is what
  navigation relies on.
\<close>

section \<open>The cache\<close>

text \<open>
  A \<open>body\<close> element: its identity (the cache holds the node itself, not a copy), its inner HTML, whether
  it contains an element with \<open>data-no-transition-cache\<close>, its \<open>script\<close> elements in document order and
  the elements that match \<open>input[autofocus], textarea[autofocus]\<close>.
\<close>

record script_tag =
  script_type :: string
  script_html :: string
  eval_disabled :: bool

record page_body =
  body_id :: nat
  body_html :: string
  no_transition :: bool
  body_scripts :: "script_tag list"
  body_autofocus :: "nat list"

record cached_page =
  cp_url :: string
  cp_body :: page_body
  cp_title :: string
  cp_position_y :: int
  cp_position_x :: int
  cached_at :: nat
  transition_cache_disabled :: bool

type_synonym page_cache = "(string \<times> cached_page) list"

datatype cache_event = Page_Expire cached_page

text \<open>\<open>pageCache[url]\<close>: \<^const>\<open>None\<close> is \<open>undefined\<close>.\<close>

definition cache_lookup :: "page_cache \<Rightarrow> string \<Rightarrow> cached_page option" where
  "cache_lookup c url = map_of c url"

definition transition_cache_for :: "page_cache \<Rightarrow> string \<Rightarrow> cached_page option" where
  "transition_cache_for c url =
     (case cache_lookup c url of None \<Rightarrow> None
      | Some p \<Rightarrow> if transition_cache_disabled p then None else Some p)"

text \<open>
  \<open>pagesCached(size)\<close>: \<open>size\<close> is given as the text the regular expression \<open>/^[\d]+$/\<close> is tested on;
  \<^const>\<open>None\<close> is a missing argument, which leaves the size as it is.
\<close>

definition pages_cached :: "string option \<Rightarrow> nat \<Rightarrow> nat" where
  "pages_cached sz cache_size =
     (case sz of None \<Rightarrow> cache_size
      | Some s \<Rightarrow> if s \<noteq> [] \<and> list_all is_digit s then digits_to_nat s else cache_size)"

text \<open>
  \<open>constrainPageCacheTo(limit)\<close>. \<open>cacheTimesRecentFirst[limit]\<close> is \<open>undefined\<close> when there are at most
  \<open>limit\<close> pages; no time is \<open>\<le> undefined\<close>, so nothing is expired then.
\<close>

definition cache_times_recent_first :: "page_cache \<Rightarrow> nat list" where
  "cache_times_recent_first c = rev (sort (map (\<lambda>url. cached_at (the (cache_lookup c url))) (map fst c)))"

definition not_after :: "nat \<Rightarrow> nat option \<Rightarrow> bool" where
  "not_after t bound = (case bound of None \<Rightarrow> False | Some b \<Rightarrow> t \<le> b)"

definition time_bound :: "nat \<Rightarrow> page_cache \<Rightarrow> nat option" where
  "time_bound limit c =
     (let ts = cache_times_recent_first c in if limit < length ts then Some (ts ! limit) else None)"

fun expire_pages :: "nat option \<Rightarrow> string list \<Rightarrow> page_cache \<times> cache_event list \<Rightarrow> page_cache \<times> cache_event list" where
  "expire_pages bound [] (c, evs) = (c, evs)"
| "expire_pages bound (key # keys) (c, evs) =
     (case cache_lookup c key of
        None \<Rightarrow> expire_pages bound keys (c, evs)
      | Some p \<Rightarrow>
          if \<not> not_after (cached_at p) bound then expire_pages bound keys (c, evs)
          else expire_pages bound keys (AList.delete key c, evs @ [Page_Expire p]))"

definition constrain_page_cache_to :: "nat \<Rightarrow> page_cache \<Rightarrow> page_cache \<times> cache_event list" where
  "constrain_page_cache_to limit c = expire_pages (time_bound limit c) (map fst c) (c, [])"

definition cache_page :: "nat \<Rightarrow> string \<Rightarrow> cached_page \<Rightarrow> page_cache \<Rightarrow> page_cache \<times> cache_event list" where
  "cache_page limit url p c = constrain_page_cache_to limit (AList.update url p c)"

section \<open>What an eviction keeps\<close>

definition fresh :: "nat option \<Rightarrow> cached_page \<Rightarrow> bool" where
  "fresh bound p \<longleftrightarrow> \<not> not_after (cached_at p) bound"

text \<open>The loop over the keys deletes one entry at a time; with distinct keys it is a filter.\<close>

lemma expire_pages_filter:
  assumes "distinct (map fst (xs @ ys))" and "\<forall>e \<in> set xs. fresh bound (snd e)"
  shows "expire_pages bound (map fst ys) (xs @ ys, evs) =
           (xs @ filter (\<lambda>e. fresh bound (snd e)) ys,
            evs @ map (\<lambda>e. Page_Expire (snd e)) (filter (\<lambda>e. \<not> fresh bound (snd e)) ys))"
  using assms
proof (induction ys arbitrary: xs evs)
  case Nil
  then show ?case by simp
next
  case (Cons e ys)
  obtain k p where e: "e = (k, p)" by fastforce
  from Cons.prems(1) e have k: "k \<notin> fst ` set xs" "k \<notin> fst ` set ys" by auto
  have look: "cache_lookup (xs @ e # ys) k = Some p"
    using k e by (simp add: cache_lookup_def map_add_def split: option.splits)
      (metis map_of_eq_None_iff option.distinct(1))
  show ?case
  proof (cases "fresh bound p")
    case True
    with Cons.IH [of "xs @ [e]" evs] Cons.prems e look show ?thesis
      by (simp add: fresh_def)
  next
    case False
    have "AList.delete k (xs @ e # ys) = AList.delete k xs @ AList.delete k ys"
      by (simp add: AList.delete_eq e)
    with k have "AList.delete k (xs @ e # ys) = xs @ ys"
      by (simp add: AList.delete_id)
    with False Cons.IH [of xs "evs @ [Page_Expire p]"] Cons.prems e look show ?thesis
      by (simp add: fresh_def)
  qed
qed

lemma constrain_filter:
  assumes "distinct (map fst c)"
  shows "constrain_page_cache_to limit c =
           (filter (\<lambda>e. fresh (time_bound limit c) (snd e)) c,
            map (\<lambda>e. Page_Expire (snd e)) (filter (\<lambda>e. \<not> fresh (time_bound limit c) (snd e)) c))"
  using expire_pages_filter [of "[]" c "time_bound limit c" "[]"] assms
  by (simp add: constrain_page_cache_to_def)

lemma cache_times_eq:
  assumes "distinct (map fst c)"
  shows "cache_times_recent_first c = rev (sort (map (\<lambda>e. cached_at (snd e)) c))"
proof -
  have "map (\<lambda>url. cached_at (the (cache_lookup c url))) (map fst c) = map (\<lambda>e. cached_at (snd e)) c"
    using assms by (auto simp: cache_lookup_def)
  then show ?thesis by (simp only: cache_times_recent_first_def)
qed

text \<open>In a descending list at most \<open>n\<close> elements exceed the element at position \<open>n\<close>.\<close>

lemma greater_than_nth:
  assumes "sorted (rev ts)" and "n < length ts"
  shows "length (filter (\<lambda>t. \<not> t \<le> ts ! n) ts) \<le> (n::nat)"
proof -
  have "\<And>i. n \<le> i \<Longrightarrow> i < length ts \<Longrightarrow> ts ! i \<le> ts ! n"
    using assms(1) sorted_rev_nth_mono by blast
  then have "{i. i < length ts \<and> \<not> ts ! i \<le> ts ! n} \<subseteq> {0..<n}"
    by (auto simp: not_le) (metis leD not_le)
  then have "card {i. i < length ts \<and> \<not> ts ! i \<le> ts ! n} \<le> card {0..<n}"
    by (intro card_mono) auto
  then show ?thesis by (simp add: length_filter_conv_card)
qed

lemma length_fresh:
  assumes "distinct (map fst c)"
  shows "length (filter (\<lambda>e. fresh (time_bound limit c) (snd e)) c) \<le> limit"
proof -
  let ?ts = "map (\<lambda>e. cached_at (snd e)) c"
  let ?rs = "rev (sort ?ts)"
  show ?thesis
  proof (cases "limit < length c")
    case False
    have "length (filter (\<lambda>e. fresh (time_bound limit c) (snd e)) c) \<le> length c" by (rule length_filter_le)
    with False show ?thesis by linarith
  next
    case True
    then have b: "time_bound limit c = Some (?rs ! limit)"
      using cache_times_eq [OF assms] by (simp add: time_bound_def Let_def)
    have "length (filter (\<lambda>e. fresh (time_bound limit c) (snd e)) c)
        = length (filter (\<lambda>t. \<not> t \<le> ?rs ! limit) ?ts)"
      by (simp add: b fresh_def not_after_def filter_map o_def)
    also have "\<dots> = length (filter (\<lambda>t. \<not> t \<le> ?rs ! limit) ?rs)"
      by (simp add: filter_sort flip: rev_filter)
    also have "\<dots> \<le> limit"
      by (rule greater_than_nth) (use True in auto)
    finally show ?thesis .
  qed
qed

section \<open>The interface of navigation\<close>

text \<open>
  A page store holds pages under addresses and a bound: storing a page keeps the store well formed and
  within its limit, never invents a page, and keeps the page just stored when its time is later than all
  others and there is room for one.
\<close>

locale page_store =
  fixes put :: "nat \<Rightarrow> 'k \<Rightarrow> 'p \<Rightarrow> 's \<Rightarrow> 's"
    and get :: "'s \<Rightarrow> 'k \<Rightarrow> 'p option"
    and num_pages :: "'s \<Rightarrow> nat"
    and time_of :: "'p \<Rightarrow> nat"
    and wf_store :: "'s \<Rightarrow> bool"
  assumes put_wf: "wf_store s \<Longrightarrow> wf_store (put n k p s)"
    and put_bound: "wf_store s \<Longrightarrow> num_pages (put n k p s) \<le> n"
    and put_get: "wf_store s \<Longrightarrow> get (put n k p s) j = Some q \<Longrightarrow> (if j = k then q = p else get s j = Some q)"
    and put_newest: "wf_store s \<Longrightarrow> 0 < n \<Longrightarrow> (\<And>j q. get s j = Some q \<Longrightarrow> time_of q < time_of p) \<Longrightarrow>
                       get (put n k p s) k = Some p"
begin

text \<open>Any sequence of stores leaves at most the last limit's number of pages, all of them stored or old.\<close>

fun put_all :: "(nat \<times> 'k \<times> 'p) list \<Rightarrow> 's \<Rightarrow> 's" where
  "put_all [] s = s"
| "put_all ((n, k, p) # xs) s = put_all xs (put n k p s)"

lemma put_all_wf: "wf_store s \<Longrightarrow> wf_store (put_all xs s)"
  by (induction xs s rule: put_all.induct) (simp_all add: put_wf)

lemma put_all_snoc: "put_all (xs @ [(n, k, p)]) s = put n k p (put_all xs s)"
  by (induction xs s rule: put_all.induct) simp_all

lemma put_all_bound: "wf_store s \<Longrightarrow> num_pages (put_all (xs @ [(n, k, p)]) s) \<le> n"
  by (simp add: put_all_snoc put_all_wf put_bound)

lemma put_all_from:
  "wf_store s \<Longrightarrow> get (put_all xs s) j = Some q \<Longrightarrow> (\<exists>n. (n, j, q) \<in> set xs) \<or> get s j = Some q"
proof (induction xs s rule: put_all.induct)
  case (2 n k p xs s)
  then show ?case
    by (cases "j = k") (auto simp: put_wf dest!: put_get [rotated])
qed simp

lemma put_newest_self: "wf_store s \<Longrightarrow> 0 < n \<Longrightarrow> (\<And>j q. get s j = Some q \<Longrightarrow> time_of q < t) \<Longrightarrow>
    time_of p = t \<Longrightarrow> get (put n k p s) k = Some p"
  using put_newest by blast

end

definition put_page :: "nat \<Rightarrow> string \<Rightarrow> cached_page \<Rightarrow> page_cache \<Rightarrow> page_cache" where
  "put_page limit url p c = fst (cache_page limit url p c)"

definition cache_wf :: "page_cache \<Rightarrow> bool" where
  "cache_wf c \<longleftrightarrow> distinct (map fst c)"

lemma cache_wf_update: "cache_wf c \<Longrightarrow> cache_wf (AList.update k p c)"
  unfolding cache_wf_def by (rule AList.distinct_update)

lemma put_page_filter:
  "cache_wf c \<Longrightarrow> put_page limit url p c =
     filter (\<lambda>e. fresh (time_bound limit (AList.update url p c)) (snd e)) (AList.update url p c)"
  using cache_wf_update [of c url p]
  by (simp add: put_page_def cache_page_def constrain_filter cache_wf_def)

lemma map_of_filter_Some: "distinct (map fst c) \<Longrightarrow> map_of (filter P c) k = Some p \<Longrightarrow> map_of c k = Some p"
  by (metis (no_types, lifting) distinct_map_filter map_of_eq_Some_iff mem_Collect_eq set_filter)

lemma map_of_filter_keep:
  "distinct (map fst c) \<Longrightarrow> map_of c k = Some p \<Longrightarrow> P (k, p) \<Longrightarrow> map_of (filter P c) k = Some p"
  by (simp add: distinct_map_filter)

text \<open>A page that is strictly newer than all others stays, as long as the limit is not 0.\<close>

lemma newest_is_fresh:
  assumes "distinct (map fst c)" and "map_of c k = Some p" and "0 < limit"
    and "\<And>j q. j \<noteq> k \<Longrightarrow> map_of c j = Some q \<Longrightarrow> cached_at q < cached_at p"
  shows "fresh (time_bound limit c) p"
proof (cases "limit < length c")
  case False
  then show ?thesis
    using cache_times_eq [OF assms(1)] by (simp add: time_bound_def Let_def fresh_def not_after_def)
next
  case True
  let ?ts = "map (\<lambda>e. cached_at (snd e)) c"
  let ?rs = "rev (sort ?ts)"
  have b: "time_bound limit c = Some (?rs ! limit)"
    using True cache_times_eq [OF assms(1)] by (simp add: time_bound_def Let_def)
  have "?rs ! limit < cached_at p"
  proof (rule ccontr)
    assume "\<not> ?rs ! limit < cached_at p"
    then have ge: "cached_at p \<le> ?rs ! limit" by simp
    have srt: "sorted (rev ?rs)" and len: "limit < length ?rs" using True by simp_all
    have "\<And>i. i \<le> limit \<Longrightarrow> cached_at p \<le> ?rs ! i"
      by (rule le_trans [OF ge sorted_rev_nth_mono [OF srt _ len]])
    then have "{0..limit} \<subseteq> {i. i < length ?rs \<and> cached_at p \<le> ?rs ! i}" using True by auto
    then have "card {0..limit} \<le> card {i. i < length ?rs \<and> cached_at p \<le> ?rs ! i}"
      by (intro card_mono) auto
    then have "2 \<le> length (filter (\<lambda>t. cached_at p \<le> t) ?rs)"
      using assms(3) by (simp add: length_filter_conv_card)
    also have "\<dots> = length (filter (\<lambda>t. cached_at p \<le> t) ?ts)"
      by (simp add: filter_sort flip: rev_filter)
    also have "\<dots> = length (filter (\<lambda>e. cached_at p \<le> cached_at (snd e)) c)"
      by (simp add: filter_map o_def)
    also have "filter (\<lambda>e. cached_at p \<le> cached_at (snd e)) c = filter (\<lambda>e. e = (k, p)) c"
    proof (rule filter_cong [OF refl])
      fix e
      assume e: "e \<in> set c"
      obtain j q where jq: "e = (j, q)" by fastforce
      with e assms(1) have q: "map_of c j = Some q" by simp
      show "cached_at p \<le> cached_at (snd e) \<longleftrightarrow> e = (k, p)"
      proof (cases "j = k")
        case True
        with q assms(2) jq show ?thesis by simp
      next
        case False
        with assms(4) [OF False q] jq show ?thesis by simp
      qed
    qed
    also have "length (filter (\<lambda>e. e = (k, p)) c) \<le> 1"
    proof -
      have "distinct c" using assms(1) by (simp add: distinct_map)
      then have "distinct (filter (\<lambda>e. e = (k, p)) c)" by simp
      then have "length (filter (\<lambda>e. e = (k, p)) c) = card (set (filter (\<lambda>e. e = (k, p)) c))"
        by (rule distinct_card [symmetric])
      also have "\<dots> \<le> card {(k, p)}" by (intro card_mono) auto
      finally show ?thesis by simp
    qed
    finally show False by simp
  qed
  then show ?thesis by (simp add: b fresh_def not_after_def)
qed

interpretation turbolinks_store: page_store put_page cache_lookup length cached_at cache_wf
proof (unfold_locales, goal_cases)
  case (1 s n k p)
  then show ?case
    using cache_wf_update [of s k p] by (simp add: put_page_filter cache_wf_def distinct_map_filter)
next
  case (2 s n k p)
  then show ?case
    using cache_wf_update [of s k p] by (simp add: put_page_filter cache_wf_def length_fresh)
next
  case (3 s n k p j q)
  have d: "distinct (map fst (AList.update k p s))"
    using 3(1) cache_wf_update [of s k p] by (simp add: cache_wf_def)
  from 3(2) have "map_of (AList.update k p s) j = Some q"
    unfolding put_page_filter [OF 3(1)] cache_lookup_def by (rule map_of_filter_Some [OF d])
  then show ?case by (auto simp: update_conv cache_lookup_def split: if_splits)
next
  case (4 s n p k)
  let ?c = "AList.update k p s"
  have d: "distinct (map fst ?c)" using 4(1) cache_wf_update [of s k p] by (simp add: cache_wf_def)
  have k: "map_of ?c k = Some p" by (simp add: update_conv)
  have "fresh (time_bound n ?c) p"
    by (rule newest_is_fresh [OF d k 4(2)]) (use 4(3) in \<open>auto simp: update_conv cache_lookup_def\<close>)
  with 4(1) d k show ?case
    by (simp add: put_page_filter cache_lookup_def map_of_filter_keep)
qed

section \<open>Properties\<close>

text \<open>Storing a page and trimming the cache keeps its addresses distinct and at most \<open>limit\<close> pages; every
  page expired is reported by one event, and is older than every page kept.\<close>

theorem cache_page_bounded:
  assumes "cache_wf c"
  shows "let (c', evs) = cache_page limit url p c in
           cache_wf c' \<and> length c' \<le> limit \<and>
           length c' + length evs = length (AList.update url p c) \<and>
           (\<forall>e \<in> set c'. \<forall>q. Page_Expire q \<in> set evs \<longrightarrow> cached_at q < cached_at (snd e))"
proof -
  let ?c = "AList.update url p c"
  let ?b = "time_bound limit ?c"
  have d: "distinct (map fst ?c)" using cache_wf_update [OF assms] by (simp add: cache_wf_def)
  have "length (filter (\<lambda>e. fresh ?b (snd e)) ?c) + length (filter (\<lambda>e. \<not> fresh ?b (snd e)) ?c) = length ?c"
    by (rule sum_length_filter_compl)
  moreover have "\<And>q r. fresh ?b r \<Longrightarrow> \<not> fresh ?b q \<Longrightarrow> cached_at q < cached_at r"
    by (auto simp: fresh_def not_after_def split: option.splits)
  ultimately show ?thesis
    using d length_fresh [OF d, of limit]
    by (auto simp: cache_page_def constrain_filter cache_wf_def distinct_map_filter)
qed

definition example_body :: "nat \<Rightarrow> page_body" where
  "example_body n = \<lparr>body_id = n, body_html = [], no_transition = False, body_scripts = [], body_autofocus = []\<rparr>"

definition example_cached :: "nat \<Rightarrow> cached_page" where
  "example_cached t =
     \<lparr>cp_url = ''/'', cp_body = example_body t, cp_title = [], cp_position_y = 0, cp_position_x = 0,
      cached_at = t, transition_cache_disabled = False\<rparr>"

definition example_cache :: page_cache where
  "example_cache = [(''http://h/a'', example_cached 1), (''http://h/b'', example_cached 2)]"

theorem cache_page_bounded_witness:
  "length (fst (cache_page 2 ''http://h/c'' (example_cached 3) example_cache)) \<le> 2"
proof -
  have "cache_wf example_cache" by code_simp
  from cache_page_bounded [OF this, of 2 "''http://h/c''" "example_cached 3"] show ?thesis
    by (auto simp: Let_def split: prod.splits)
qed

text \<open>After any sequence of page stores the cache holds no more pages than the limit of the last store,
  and each page in it was stored by one of them or was there at the start: nothing else enters it.\<close>

theorem cache_run_bounded:
  assumes "cache_wf c"
  shows "length (turbolinks_store.put_all (xs @ [(n, k, p)]) c) \<le> n \<and>
         (\<forall>j q. cache_lookup (turbolinks_store.put_all (xs @ [(n, k, p)]) c) j = Some q \<longrightarrow>
            (\<exists>m. (m, j, q) \<in> set (xs @ [(n, k, p)])) \<or> cache_lookup c j = Some q)"
  using turbolinks_store.put_all_bound [OF assms] turbolinks_store.put_all_from [OF assms] by blast

theorem cache_run_bounded_witness:
  "length (turbolinks_store.put_all ([(2, ''http://h/c'', example_cached 3)] @ [(1, ''http://h/d'', example_cached 4)])
             example_cache) \<le> 1"
proof -
  have "cache_wf example_cache" by code_simp
  from cache_run_bounded [OF this] show ?thesis by blast
qed

text \<open>Pages stored at one and the same time are expired together: once their number exceeds the limit
  the cache is emptied, the page that was just stored included.\<close>

theorem equal_times_evict_all:
  assumes "cache_wf c" and "\<forall>e \<in> set (AList.update url p c). cached_at (snd e) = t"
    and "limit < length (AList.update url p c)"
  shows "fst (cache_page limit url p c) = []"
proof -
  let ?c = "AList.update url p c"
  have d: "distinct (map fst ?c)" using cache_wf_update [OF assms(1)] by (simp add: cache_wf_def)
  let ?ts = "cache_times_recent_first ?c"
  have "set ?ts = (\<lambda>e. cached_at (snd e)) ` set ?c" "length ?ts = length ?c"
    using cache_times_eq [OF d] by simp_all
  with assms(2,3) have "?ts ! limit = t" and "limit < length ?ts"
    by (metis (no_types, lifting) image_iff nth_mem)+
  then have "time_bound limit ?c = Some t" by (simp add: time_bound_def Let_def)
  with assms(2) show ?thesis
    using d by (simp add: cache_page_def constrain_filter fresh_def not_after_def filter_empty_conv)
qed

theorem equal_times_evict_all_witness:
  "fst (cache_page 1 ''http://h/b'' (example_cached 5) [(''http://h/a'', example_cached 5)]) = []"
proof -
  have h: "cache_wf [(''http://h/a'', example_cached 5)]"
    and t: "\<forall>e \<in> set (AList.update ''http://h/b'' (example_cached 5) [(''http://h/a'', example_cached 5)]).
              cached_at (snd e) = 5"
    and l: "1 < length (AList.update ''http://h/b'' (example_cached 5) [(''http://h/a'', example_cached 5)])"
    by code_simp+
  show ?thesis by (rule equal_times_evict_all [OF h t l])
qed

end
