(* ===== verification/Component_Url.thy ===== *)
theory Component_Url
  imports Prelude
begin

text \<open>
  Addresses and links of Turbolinks: \<open>ComponentUrl\<close>, \<open>Link\<close> and \<open>Click\<close> of the deployed bundle. Which
  clicks Turbolinks takes over is decided here. The address parser of the browser (what assigning \<open>href\<close>
  of an anchor element makes of a text) is the parameter \<open>resolve\<close>; what the code relies on about it is
  the predicate \<open>resolves_urls\<close>, and the theory \<open>Turbolinks\<close> states it as a hypothesis where it is needed.
  The lemmas show that \<open>withoutHash\<close> removes exactly the fragment and which links are left to the browser.
\<close>

section \<open>ComponentUrl\<close>

text \<open>The fields an anchor element (or \<open>document.location\<close>) reports.\<close>

record url_parts =
  u_href :: string
  u_protocol :: string
  u_host :: string
  u_hostname :: string
  u_port :: string
  u_pathname :: string
  u_search :: string
  u_hash :: string

type_synonym resolver = "string \<Rightarrow> string \<Rightarrow> url_parts"

text \<open>\<open>resolve base text\<close> is the address \<open>text\<close> seen from a document at \<open>base\<close>.\<close>

record component_url =
  original :: string
  href :: string
  protocol :: string
  host :: string
  hostname :: string
  port :: string
  pathname :: string
  search :: string
  hash :: string
  origin :: string
  relative :: string
  absolute :: string

definition parse_url :: "string \<Rightarrow> url_parts \<Rightarrow> component_url" where
  "parse_url orig p =
     \<lparr>original = orig, href = u_href p, protocol = u_protocol p, host = u_host p, hostname = u_hostname p,
      port = u_port p, pathname = u_pathname p, search = u_search p, hash = u_hash p,
      origin = concat [u_protocol p, ''//'', u_hostname p] @ (if u_port p \<noteq> [] then '':'' @ u_port p else []),
      relative = concat [u_pathname p, u_search p, u_hash p],
      absolute = u_href p\<rparr>"

text \<open>The constructor takes no argument (the location is used), a text, or an object it returns as it is.\<close>

datatype url_arg = Url_Missing | Url_Text string | Url_Object component_url

definition new_component_url :: "resolver \<Rightarrow> string \<Rightarrow> url_arg \<Rightarrow> component_url" where
  "new_component_url resolve location a =
     (case a of
        Url_Missing \<Rightarrow> parse_url location (resolve location location)
      | Url_Text t \<Rightarrow> parse_url t (resolve location t)
      | Url_Object u \<Rightarrow> u)"

definition without_hash :: "component_url \<Rightarrow> string" where
  "without_hash u = replace_first (hash u) [] (href u)"

definition without_hash_ie10 :: "component_url \<Rightarrow> string" where
  "without_hash_ie10 u = without_hash u"

definition has_no_hash :: "component_url \<Rightarrow> bool" where
  "has_no_hash u \<longleftrightarrow> length (hash u) = 0"

section \<open>What the code relies on about the address parser\<close>

text \<open>
  The documented behaviour of the parser: the address is a part without \<open>#\<close> followed by the fragment; a
  fragment is empty or starts with \<open>#\<close> and has more, and the address of an empty fragment may still end
  in a bare \<open>#\<close>. Resolving an address that was resolved already gives it back.
\<close>

definition split_at_hash :: "string \<Rightarrow> string \<Rightarrow> bool" where
  "split_at_hash h f \<longleftrightarrow>
     (\<exists>b. CHR ''#'' \<notin> set b \<and>
          ((f = [] \<and> (h = b \<or> h = b @ ''#'')) \<or> (\<exists>g. g \<noteq> [] \<and> f = CHR ''#'' # g \<and> h = b @ f)))"

definition resolves_urls :: "resolver \<Rightarrow> bool" where
  "resolves_urls resolve \<longleftrightarrow>
     (\<forall>base t. split_at_hash (u_href (resolve base t)) (u_hash (resolve base t)) \<and>
               u_href (resolve base t) \<noteq> [] \<and> hd (u_href (resolve base t)) \<noteq> CHR ''#'') \<and>
     (\<forall>base base' t. resolve base' (u_href (resolve base t)) = resolve base t)"

lemma replace_first_suffix:
  assumes "x \<notin> set b"
  shows "replace_first (x # g) r (b @ x # g) = b @ r"
  using assms
proof (induction b)
  case Nil
  show ?case using replace_first_prefix [of "x # g" r "[]"] by simp
next
  case (Cons y b)
  then have "\<not> prefix (x # g) (y # b @ x # g)" by auto
  with Cons show ?case by (simp add: replace_first_Cons)
qed

lemma without_hash_split:
  assumes "split_at_hash (href u) (hash u)"
  shows "href u = without_hash u @ hash u" and "hash u \<noteq> [] \<Longrightarrow> CHR ''#'' \<notin> set (without_hash u)"
  using assms
  by (auto simp: split_at_hash_def without_hash_def replace_first_empty_pattern replace_first_suffix)

lemma href_new [simp]:
  "href (new_component_url resolve loc (Url_Text t)) = u_href (resolve loc t)"
  "hash (new_component_url resolve loc (Url_Text t)) = u_hash (resolve loc t)"
  "absolute (new_component_url resolve loc (Url_Text t)) = u_href (resolve loc t)"
  by (simp_all add: new_component_url_def parse_url_def)

lemma new_component_url_missing:
  "new_component_url resolve loc Url_Missing = new_component_url resolve loc (Url_Text loc)"
  by (simp add: new_component_url_def)

section \<open>Links\<close>

text \<open>
  The elements from an event's target up: an element, or the document at the end. A path that does not end
  in the document belongs to a node that was removed from the page.
\<close>

record element =
  node_name :: string
  el_href :: string
  el_target :: string
  data_no_turbolink :: "string option"

datatype dom_node = Document | Element element

type_synonym dom_path = "dom_node list"

record link =
  link_path :: dom_path
  link_el :: element
  link_url :: component_url

definition is_lower :: "char \<Rightarrow> bool" where
  "is_lower c \<longleftrightarrow> 97 \<le> (of_char c :: nat) \<and> (of_char c :: nat) \<le> 122"

text \<open>\<open>/\.[a-z]+$/\<close> on the path name, and \<open>\.(?:html|...)?$\<close> for the extensions in use (plain words).\<close>

definition has_extension :: "string \<Rightarrow> bool" where
  "has_extension s \<longleftrightarrow>
     (let r = rev s; rest = dropWhile is_lower r in
        takeWhile is_lower r \<noteq> [] \<and> rest \<noteq> [] \<and> hd rest = CHR ''.'')"

definition html_extension :: "string list \<Rightarrow> string \<Rightarrow> bool" where
  "html_extension exts s \<longleftrightarrow> suffix ''.'' s \<or> list_ex (\<lambda>e. suffix (''.'' @ e) s) exts"

definition html_extensions :: "string list" where
  "html_extensions = [''html'']"

definition allow_extensions :: "string list \<Rightarrow> string list \<Rightarrow> string list" where
  "allow_extensions added exts = exts @ added"

definition cross_origin :: "component_url \<Rightarrow> link \<Rightarrow> bool" where
  "cross_origin current l \<longleftrightarrow> origin (link_url l) \<noteq> origin current"

definition anchored :: "component_url \<Rightarrow> link \<Rightarrow> bool" where
  "anchored current l \<longleftrightarrow>
     (if hash (link_url l) = [] then [] else without_hash (link_url l)) = without_hash current \<or>
     href (link_url l) = href current @ ''#''"

definition non_html :: "string list \<Rightarrow> link \<Rightarrow> bool" where
  "non_html exts l \<longleftrightarrow>
     has_extension (pathname (link_url l)) \<and> \<not> html_extension exts (pathname (link_url l))"

text \<open>\<open>_optOut\<close> walks up to the document; leaving the tree before that reads a property of \<open>null\<close>.\<close>

fun opt_out :: "dom_path \<Rightarrow> js_error + bool" where
  "opt_out [] = Inl Type_Error"
| "opt_out (Document # ns) = Inr False"
| "opt_out (Element e # ns) = (if data_no_turbolink e \<noteq> None then Inr True else opt_out ns)"

definition has_target :: "link \<Rightarrow> bool" where
  "has_target l \<longleftrightarrow> length (el_target (link_el l)) \<noteq> 0"

definition should_ignore :: "string list \<Rightarrow> component_url \<Rightarrow> link \<Rightarrow> js_error + bool" where
  "should_ignore exts current l =
     (if cross_origin current l \<or> anchored current l \<or> non_html exts l then Inr True
      else case opt_out (link_path l) of
             Inl e \<Rightarrow> Inl e
           | Inr True \<Rightarrow> Inr True
           | Inr False \<Rightarrow> Inr (has_target l))"

section \<open>Clicks\<close>

record click_event =
  click_path :: dom_path
  which :: nat
  meta_key :: bool
  ctrl_key :: bool
  shift_key :: bool
  alt_key :: bool
  default_prevented :: bool

fun extract_link :: "resolver \<Rightarrow> string \<Rightarrow> dom_path \<Rightarrow> link option" where
  "extract_link resolve location [] = None"
| "extract_link resolve location (Document # ns) = None"
| "extract_link resolve location (Element e # ns) =
     (if node_name e \<noteq> ''A'' then extract_link resolve location ns
      else if length (el_href e) \<noteq> 0
           then Some \<lparr>link_path = Element e # ns, link_el = e,
                      link_url = new_component_url resolve location (Url_Text (el_href e))\<rparr>
           else None)"

definition non_standard_click :: "click_event \<Rightarrow> bool" where
  "non_standard_click ev \<longleftrightarrow> which ev > 1 \<or> meta_key ev \<or> ctrl_key ev \<or> shift_key ev \<or> alt_key ev"

definition valid_for_turbolinks :: "string list \<Rightarrow> component_url \<Rightarrow> link option \<Rightarrow> click_event \<Rightarrow> js_error + bool" where
  "valid_for_turbolinks exts current l ev =
     (case l of
        None \<Rightarrow> Inr False
      | Some k \<Rightarrow>
          (case should_ignore exts current k of
             Inl e \<Rightarrow> Inl e
           | Inr ignored \<Rightarrow> Inr (\<not> (ignored \<or> non_standard_click ev))))"

text \<open>
  What a click leads to: whether the browser's own action is prevented, and the address that is visited.
  \<open>change_prevented\<close> is the answer of the listeners of \<open>page:before-change\<close>.
\<close>

record click_result =
  prevents_default :: bool
  before_change_fired :: bool
  visits :: "string option"

definition no_click_result :: click_result where
  "no_click_result = \<lparr>prevents_default = False, before_change_fired = False, visits = None\<rparr>"

definition click_handle ::
  "resolver \<Rightarrow> string list \<Rightarrow> string \<Rightarrow> bool \<Rightarrow> click_event \<Rightarrow> js_error + click_result" where
  "click_handle resolve exts location change_prevented ev =
     (if default_prevented ev then Inr no_click_result
      else
        let l = extract_link resolve location (click_path ev) in
        (case valid_for_turbolinks exts (new_component_url resolve location Url_Missing) l ev of
           Inl e \<Rightarrow> Inl e
         | Inr False \<Rightarrow> Inr no_click_result
         | Inr True \<Rightarrow>
             Inr \<lparr>prevents_default = True, before_change_fired = True,
                  visits = (if change_prevented then None else map_option (href \<circ> link_url) l)\<rparr>))"

section \<open>Which links are left to the browser\<close>

definition before_hash :: "string \<Rightarrow> string" where
  "before_hash s = takeWhile (\<lambda>c. c \<noteq> CHR ''#'') s"

lemma before_hash_append: "CHR ''#'' \<notin> set b \<Longrightarrow> before_hash (b @ CHR ''#'' # g) = b"
  unfolding before_hash_def by (subst takeWhile_append2) auto

lemma before_hash_id: "CHR ''#'' \<notin> set b \<Longrightarrow> before_hash b = b"
  unfolding before_hash_def by (simp add: takeWhile_eq_all_conv) blast

definition from_hash :: "string \<Rightarrow> string" where
  "from_hash s = dropWhile (\<lambda>c. c \<noteq> CHR ''#'') s"

lemma before_from_hash: "before_hash s @ from_hash s = s"
  by (simp add: before_hash_def from_hash_def)

lemma from_hash_append: "CHR ''#'' \<notin> set b \<Longrightarrow> from_hash (b @ CHR ''#'' # g) = CHR ''#'' # g"
  unfolding from_hash_def by (subst dropWhile_append2) auto

lemma from_hash_Nil: "from_hash s = [] \<longleftrightarrow> CHR ''#'' \<notin> set s"
  unfolding from_hash_def by (simp add: dropWhile_eq_Nil_conv) blast

lemma from_hash_Cons: "from_hash s \<noteq> [] \<Longrightarrow> from_hash s = CHR ''#'' # tl (from_hash s)"
proof -
  assume ne: "from_hash s \<noteq> []"
  then have "hd (from_hash s) = CHR ''#''"
    using hd_dropWhile [of "\<lambda>c. c \<noteq> CHR ''#''" s] by (simp add: from_hash_def)
  with ne show ?thesis by (cases "from_hash s") simp_all
qed

lemma not_in_before_hash: "CHR ''#'' \<notin> set (before_hash s)"
  unfolding before_hash_def by (metis set_takeWhileD)

lemma eq_by_hash: "s = t \<longleftrightarrow> before_hash s = before_hash t \<and> from_hash s = from_hash t"
  by (metis before_from_hash)

lemma before_hash_snoc: "before_hash (s @ ''#'') = before_hash s"
proof (cases "from_hash s = []")
  case True
  then have "CHR ''#'' \<notin> set s" by (simp add: from_hash_Nil)
  then show ?thesis by (simp add: before_hash_append before_hash_id)
next
  case False
  have "s @ ''#'' = before_hash s @ CHR ''#'' # (tl (from_hash s) @ ''#'')"
    by (metis False append_Cons append_assoc before_from_hash from_hash_Cons)
  then show ?thesis by (metis before_hash_append not_in_before_hash)
qed

lemma from_hash_snoc: "from_hash (s @ ''#'') = from_hash s @ ''#''"
proof -
  have "before_hash (s @ ''#'') @ from_hash (s @ ''#'') = before_hash s @ from_hash s @ ''#''"
    by (simp add: before_from_hash flip: append_assoc)
  then show ?thesis by (simp add: before_hash_snoc)
qed

text \<open>So the fragment is what starts at the first \<open>#\<close>, unless that is the bare \<open>#\<close>.\<close>

lemma split_at_hash_from: "split_at_hash h f \<longleftrightarrow> f = (if from_hash h = ''#'' then [] else from_hash h)"
proof
  assume "split_at_hash h f"
  then obtain b where "CHR ''#'' \<notin> set b"
    "(f = [] \<and> (h = b \<or> h = b @ ''#'')) \<or> (\<exists>g. g \<noteq> [] \<and> f = CHR ''#'' # g \<and> h = b @ f)"
    unfolding split_at_hash_def by blast
  then show "f = (if from_hash h = ''#'' then [] else from_hash h)"
    using from_hash_Nil [of b] from_hash_append [of b] by auto
next
  assume f: "f = (if from_hash h = ''#'' then [] else from_hash h)"
  show "split_at_hash h f"
  proof (cases "from_hash h")
    case Nil
    then have "CHR ''#'' \<notin> set h" by (simp add: from_hash_Nil)
    with Nil f show ?thesis by (auto simp: split_at_hash_def)
  next
    case (Cons c g)
    then have c: "c = CHR ''#''" using from_hash_Cons [of h] by simp
    have "h = before_hash h @ from_hash h" by (simp add: before_from_hash)
    with c Cons f not_in_before_hash [of h] show ?thesis unfolding split_at_hash_def by (cases "g = []") auto
  qed
qed

lemma without_hash_cases:
  assumes "split_at_hash (href u) (hash u)"
  shows "without_hash u = (if hash u = [] then href u else before_hash (href u))"
proof (cases "hash u = []")
  case True
  then show ?thesis by (simp add: without_hash_def replace_first_empty_pattern)
next
  case False
  with assms have "hash u = from_hash (href u)" by (simp add: split_at_hash_from split: if_splits)
  with False before_from_hash [of "href u"] without_hash_split(1) [OF assms] show ?thesis
    by (metis append_same_eq)
qed

lemma attached_opt_out: "\<exists>r. opt_out (ns @ [Document]) = Inr r"
proof (induction ns)
  case (Cons n ns)
  then show ?case by (cases n) auto
next
  case Nil
  show ?case by (rule exI [of _ False]) simp
qed

lemma extract_link_suffix:
  "extract_link resolve loc p = Some l \<Longrightarrow>
     \<exists>pre ns. p = pre @ Element (link_el l) # ns \<and> link_path l = Element (link_el l) # ns \<and>
       node_name (link_el l) = ''A'' \<and>
       link_url l = new_component_url resolve loc (Url_Text (el_href (link_el l)))"
proof (induction resolve loc p rule: extract_link.induct)
  case (3 resolve loc e ns)
  show ?case
  proof (cases "node_name e = ''A''")
    case True
    with 3 show ?thesis by (auto split: if_splits)
  next
    case False
    with 3 obtain pre ms where "ns = pre @ Element (link_el l) # ms" "link_path l = Element (link_el l) # ms"
      "node_name (link_el l) = ''A''"
      "link_url l = new_component_url resolve loc (Url_Text (el_href (link_el l)))"
      by auto
    then show ?thesis by (metis append_Cons)
  qed
qed simp_all

lemma extract_link_inner:
  "\<forall>n \<in> set pre. \<exists>e. n = Element e \<and> node_name e \<noteq> ''A'' \<Longrightarrow>
     extract_link resolve loc (pre @ ns) = extract_link resolve loc ns"
  by (induction pre) auto

lemma should_ignore_attached:
  assumes "click_path ev = ns @ [Document]" and "extract_link resolve loc (click_path ev) = Some l"
  shows "\<exists>b. should_ignore exts current l = Inr b"
proof -
  from extract_link_suffix [OF assms(2)] obtain pre ms
    where p: "click_path ev = pre @ Element (link_el l) # ms" and l: "link_path l = Element (link_el l) # ms"
    by blast
  from p assms(1) have "ms \<noteq> [] \<and> last ms = Document" by (metis append_is_Nil_conv dom_node.distinct(1)
        last.simps last_appendR last_snoc list.distinct(1))
  then obtain ks where "ms = ks @ [Document]" by (metis append_butlast_last_id)
  with l attached_opt_out [of "Element (link_el l) # ks"] obtain r where "opt_out (link_path l) = Inr r" by auto
  then show ?thesis by (auto simp: should_ignore_def split: bool.splits)
qed

lemma has_extension_dot:
  assumes "ext \<noteq> []" and "list_all is_lower ext"
  shows "has_extension (p @ ''.'' @ ext)"
proof -
  have "\<not> is_lower (CHR ''.'')" by (simp add: is_lower_def)
  with assms show ?thesis
    by (auto simp: has_extension_def Let_def list_all_iff takeWhile_append dropWhile_append)
qed

lemma suffix_dot:
  assumes "CHR ''.'' \<notin> set ext" and "CHR ''.'' \<notin> set e"
  shows "suffix (''.'' @ e) (p @ ''.'' @ ext) \<longleftrightarrow> e = ext"
proof
  assume "suffix (''.'' @ e) (p @ ''.'' @ ext)"
  then obtain q where "p @ CHR ''.'' # ext = q @ CHR ''.'' # e" by (auto simp: suffix_def)
  then have "rev (p @ CHR ''.'' # ext) = rev (q @ CHR ''.'' # e)" by (rule arg_cong)
  then have "rev ext @ CHR ''.'' # rev p = rev e @ CHR ''.'' # rev q" by simp
  then have "takeWhile (\<lambda>c. c \<noteq> CHR ''.'') (rev ext @ CHR ''.'' # rev p) =
             takeWhile (\<lambda>c. c \<noteq> CHR ''.'') (rev e @ CHR ''.'' # rev q)" by (rule arg_cong)
  moreover have "\<And>x y. CHR ''.'' \<notin> set x \<Longrightarrow> takeWhile (\<lambda>c. c \<noteq> CHR ''.'') (rev x @ CHR ''.'' # y) = rev x"
    by (subst takeWhile_append2) auto
  ultimately have "rev ext = rev e" using assms by simp
  then show "e = ext" by simp
qed (simp add: suffix_def)

section \<open>Properties\<close>

text \<open>\<open>withoutHash\<close> cuts exactly the fragment off an address, and what is left contains no \<open>#\<close> when there
  was a fragment.\<close>

theorem without_hash_cuts_fragment:
  assumes "resolves_urls resolve"
  shows "let u = new_component_url resolve loc (Url_Text t) in
           href u = without_hash u @ hash u \<and>
           (hash u \<noteq> [] \<longrightarrow> CHR ''#'' \<notin> set (without_hash u))"
proof -
  have "split_at_hash (u_href (resolve loc t)) (u_hash (resolve loc t))"
    using assms by (simp add: resolves_urls_def)
  then show ?thesis
    using without_hash_split [of "new_component_url resolve loc (Url_Text t)"] by (simp add: Let_def)
qed

text \<open>A concrete parser, for path names on one host, to evaluate the hypotheses on.\<close>

definition example_resolve :: resolver where
  "example_resolve base t =
     (let body = (if before_hash t = [] then ''/'' else before_hash t) in
        \<lparr>u_href = body @ from_hash t, u_protocol = ''http:'', u_host = ''h'', u_hostname = ''h'', u_port = [],
         u_pathname = body, u_search = [], u_hash = (if from_hash t = ''#'' then [] else from_hash t)\<rparr>)"

lemma before_from_append:
  assumes "CHR ''#'' \<notin> set b"
  shows "before_hash (b @ from_hash t) = b" and "from_hash (b @ from_hash t) = from_hash t"
proof -
  show 1: "before_hash (b @ from_hash t) = b"
  proof (cases "from_hash t = []")
    case False
    then obtain g where "from_hash t = CHR ''#'' # g" using from_hash_Cons by blast
    with assms show ?thesis by (simp add: before_hash_append)
  qed (simp add: assms before_hash_id)
  have "before_hash (b @ from_hash t) @ from_hash (b @ from_hash t) = b @ from_hash t"
    by (rule before_from_hash)
  with 1 show "from_hash (b @ from_hash t) = from_hash t" by simp
qed

lemma example_resolve_ok: "resolves_urls example_resolve"
proof -
  have c: "CHR ''#'' \<notin> set (if before_hash t = [] then ''/'' else before_hash t)" for t
    by (simp add: not_in_before_hash)
  have ne: "(if before_hash t = [] then ''/'' else before_hash t) \<noteq> []" for t by simp
  have idem: "example_resolve base' (u_href (example_resolve base t)) = example_resolve base t" for base base' t
    using ne [of t] by (simp only: example_resolve_def Let_def url_parts.select_convs before_from_append [OF c] if_False)
  have split: "split_at_hash (u_href (example_resolve base t)) (u_hash (example_resolve base t)) \<and>
      u_href (example_resolve base t) \<noteq> []" for base t
    by (simp only: split_at_hash_from example_resolve_def Let_def url_parts.select_convs before_from_append [OF c])
      simp
  have "hd (u_href (example_resolve base t)) \<noteq> CHR ''#''" for base t
  proof (cases "before_hash t")
    case Nil
    then show ?thesis by (simp add: example_resolve_def)
  next
    case (Cons x xs)
    with not_in_before_hash [of t] show ?thesis by (auto simp: example_resolve_def)
  qed
  with split idem show ?thesis unfolding resolves_urls_def by blast
qed

theorem without_hash_cuts_fragment_witness:
  "href (new_component_url example_resolve [] (Url_Text ''/a#b'')) =
     without_hash (new_component_url example_resolve [] (Url_Text ''/a#b'')) @ ''#b''"
proof -
  have "hash (new_component_url example_resolve [] (Url_Text ''/a#b'')) = ''#b''" by code_simp
  with without_hash_cuts_fragment [OF example_resolve_ok, of "[]" "''/a#b''"] show ?thesis
    by (simp add: Let_def del: href_new)
qed

text \<open>A link counts as one within the page exactly when it agrees with the location up to the first \<open>#\<close>
  and either it has a fragment and the location does not end in a bare \<open>#\<close>, or it ends in a bare \<open>#\<close> and
  the location has no \<open>#\<close> at all. (So once the location ends in a bare \<open>#\<close>, links to sections of the page
  are fetched as new pages; only the fragment \<open>##\<close> is not.)\<close>

theorem anchored_exactly:
  assumes "resolves_urls resolve"
    and "link_url l = new_component_url resolve loc (Url_Text t)"
  shows "let current = new_component_url resolve loc Url_Missing; u = link_url l in
           anchored current l \<longleftrightarrow>
             before_hash (href u) = before_hash (href current) \<and>
             (if hash u \<noteq> [] then hash current \<noteq> [] \<or> CHR ''#'' \<notin> set (href current) \<or> hash u = ''##''
              else CHR ''#'' \<in> set (href u) \<and> CHR ''#'' \<notin> set (href current))"
proof -
  define current where "current = new_component_url resolve loc Url_Missing"
  define u where "u = link_url l"
  have su: "split_at_hash (href u) (hash u)" and sc: "split_at_hash (href current) (hash current)"
    and ne: "href current \<noteq> []" "hd (href current) \<noteq> CHR ''#''"
    using assms by (simp_all add: resolves_urls_def u_def current_def new_component_url_missing)
  have "before_hash (href current) \<noteq> []" using ne by (cases "href current") (auto simp: before_hash_def)
  then have nonempty: "without_hash current \<noteq> []"
    using ne(1) by (simp add: without_hash_cases [OF sc])
  have "anchored current l \<longleftrightarrow>
          (hash u \<noteq> [] \<and> before_hash (href u) = without_hash current) \<or> href u = href current @ ''#''"
    using nonempty by (auto simp: anchored_def without_hash_cases [OF su] simp flip: u_def)
  also have "before_hash (href u) = without_hash current \<longleftrightarrow>
      before_hash (href u) = before_hash (href current) \<and> (hash current \<noteq> [] \<or> CHR ''#'' \<notin> set (href current))"
    using before_hash_id [of "href current"] not_in_before_hash [of "href u"]
    by (auto simp: without_hash_cases [OF sc])
  also have "href u = href current @ ''#'' \<longleftrightarrow>
      before_hash (href u) = before_hash (href current) \<and> from_hash (href u) = from_hash (href current) @ ''#''"
    using eq_by_hash [of "href u" "href current @ ''#''"] by (simp only: before_hash_snoc from_hash_snoc)
  finally show ?thesis
    using su sc unfolding split_at_hash_from Let_def u_def [symmetric] current_def [symmetric]
    using from_hash_Nil [of "href u"] from_hash_Nil [of "href current"] by (auto split: if_splits)
qed

definition example_link :: "string \<Rightarrow> string \<Rightarrow> link" where
  "example_link loc t =
     (let e = \<lparr>node_name = ''A'', el_href = t, el_target = [], data_no_turbolink = None\<rparr> in
        \<lparr>link_path = [Element e, Document], link_el = e,
         link_url = new_component_url example_resolve loc (Url_Text t)\<rparr>)"

theorem anchored_exactly_witness:
  "anchored (new_component_url example_resolve ''/p'' Url_Missing) (example_link ''/p'' ''/p#s'') \<and>
   \<not> anchored (new_component_url example_resolve ''/p#'' Url_Missing) (example_link ''/p#'' ''/p#s'')"
proof -
  let ?l = "example_link ''/p'' ''/p#s''" and ?m = "example_link ''/p#'' ''/p#s''"
  have l: "link_url ?l = new_component_url example_resolve ''/p'' (Url_Text ''/p#s'')"
    and m: "link_url ?m = new_component_url example_resolve ''/p#'' (Url_Text ''/p#s'')"
    by (simp_all add: example_link_def Let_def)
  have 1: "before_hash (href (link_url ?l)) = before_hash (href (new_component_url example_resolve ''/p'' Url_Missing))"
    "hash (link_url ?l) \<noteq> []" "CHR ''#'' \<notin> set (href (new_component_url example_resolve ''/p'' Url_Missing))"
    "hash (link_url ?m) \<noteq> []" "hash (link_url ?m) \<noteq> ''##''"
    "hash (new_component_url example_resolve ''/p#'' Url_Missing) = []"
    "CHR ''#'' \<in> set (href (new_component_url example_resolve ''/p#'' Url_Missing))"
    by code_simp+
  from anchored_exactly [OF example_resolve_ok l] anchored_exactly [OF example_resolve_ok m] 1 show ?thesis
    by (simp add: Let_def)
qed

text \<open>A path name that ends in a dot and a lower-case extension is left to the browser exactly when the
  extension is not one of the allowed ones; a path whose last part has no such extension never is.\<close>

theorem non_html_by_extension:
  assumes "list_all (\<lambda>e. CHR ''.'' \<notin> set e) exts"
  shows "(pathname (link_url l) = p @ ''.'' @ ext \<and> ext \<noteq> [] \<and> list_all is_lower ext \<longrightarrow>
            (non_html exts l \<longleftrightarrow> ext \<notin> set exts)) \<and>
         (pathname (link_url l) = p @ [c] \<and> \<not> is_lower c \<longrightarrow> \<not> non_html exts l)"
proof (intro conjI impI)
  assume h: "pathname (link_url l) = p @ ''.'' @ ext \<and> ext \<noteq> [] \<and> list_all is_lower ext"
  then have dot: "CHR ''.'' \<notin> set ext" by (auto simp: list_all_iff is_lower_def)
  have "html_extension exts (p @ ''.'' @ ext) \<longleftrightarrow> suffix (''.'' @ []) (p @ ''.'' @ ext) \<or>
          (\<exists>e \<in> set exts. suffix (''.'' @ e) (p @ ''.'' @ ext))"
    by (simp add: html_extension_def list_ex_iff)
  also have "\<dots> \<longleftrightarrow> [] = ext \<or> (\<exists>e \<in> set exts. e = ext)"
    using assms suffix_dot [OF dot] by (auto simp: list_all_iff)
  finally show "non_html exts l \<longleftrightarrow> ext \<notin> set exts"
    using h has_extension_dot [of ext p] by (auto simp: non_html_def)
next
  assume "pathname (link_url l) = p @ [c] \<and> \<not> is_lower c"
  then show "\<not> non_html exts l" by (simp add: non_html_def has_extension_def Let_def)
qed

theorem non_html_by_extension_witness:
  "non_html html_extensions (example_link ''/'' ''/report.pdf'') \<and>
   \<not> non_html html_extensions (example_link ''/'' ''/report.html'') \<and>
   \<not> non_html html_extensions (example_link ''/'' ''/report.mp3'')"
proof -
  have h: "list_all (\<lambda>e. CHR ''.'' \<notin> set e) html_extensions" by code_simp
  have f: "pathname (link_url (example_link ''/'' ''/report.pdf'')) = ''/report'' @ ''.'' @ ''pdf''"
    "pathname (link_url (example_link ''/'' ''/report.html'')) = ''/report'' @ ''.'' @ ''html''"
    "pathname (link_url (example_link ''/'' ''/report.mp3'')) = ''/report.mp'' @ ''3''"
    "list_all is_lower ''pdf''" "list_all is_lower ''html''" "\<not> is_lower (CHR ''3'')"
    by code_simp+
  have "''pdf'' \<notin> set html_extensions" "''html'' \<in> set html_extensions" by (simp_all add: html_extensions_def)
  with non_html_by_extension [OF h, of "example_link ''/'' ''/report.pdf''" "''/report''" "''pdf''"]
    non_html_by_extension [OF h, of "example_link ''/'' ''/report.html''" "''/report''" "''html''"]
    non_html_by_extension [OF h, of "example_link ''/'' ''/report.mp3''" "''/report.mp''" "[]" "CHR ''3''"] f
  show ?thesis by simp
qed


definition example_click :: "dom_path \<Rightarrow> click_event" where
  "example_click p =
     \<lparr>click_path = p, which = 1, meta_key = False, ctrl_key = False, shift_key = False, alt_key = False,
      default_prevented = False\<rparr>"


end
