(* ===== verification/Turbolinks.thy ===== *)
theory Turbolinks
  imports Page_Cache Component_Url
begin

text \<open>
  The navigation of Turbolinks as compiled into the deployed bundle: \<open>fetch\<close>, \<open>fetchReplacement\<close> with its
  request handlers, \<open>fetchHistory\<close>, \<open>changePage\<close>, \<open>processResponse\<close>, the history handlers and the start-up
  code. The state \<open>tl_state\<close> holds the script's variables, the document, and the session history of the
  window. What the browser computes (addresses, parsed documents, where an anchor is on the page) is the
  record \<open>env\<close>, an argument of the operations. An exception is \<^term>\<open>Inl\<close> with the state at the throw.

  Events are processed one after the other; a script that a page runs is a log entry, its effects are not
  modelled, and a handler is not re-entered while it runs. The last sections give the step relation of a
  browsing session, its invariant and the properties.
\<close>

section \<open>Document, requests and history\<close>

datatype head_node =
    Text_Node
  | Head_Element (track: "string option") (attr_src: "string option") (attr_href: "string option")

record html_document =
  doc_title :: "string option"
  doc_body :: page_body
  doc_csrf :: "string option"
  doc_head :: "head_node list"

record response =
  status :: nat
  content_type :: "string option"
  redirected_to :: "string option"
  response_text :: string

record history_state =
  st_turbolinks :: bool
  st_url :: string

record history_entry =
  he_url :: string
  he_state :: "history_state option"

record xhr =
  xhr_url :: component_url
  xhr_open :: string
  xhr_headers :: "(string \<times> string) list"
  xhr_resets_scroll :: bool

record env =
  env_resolve :: resolver
  env_create_document :: "string \<Rightarrow> html_document option"
  env_set_inner_html :: "page_body \<Rightarrow> string \<Rightarrow> page_body"
  env_firefox :: bool
  env_anchor_pos :: "page_body \<Rightarrow> string \<Rightarrow> (int \<times> int) option"

datatype tl_event =
    Page_Fetch string
  | Page_Receive string
  | Page_Change
  | Page_Update
  | Page_Load
  | Page_Restore
  | Cache_Event cache_event
  | Script_Run string

record tl_state =
  tl_cache :: page_cache
  tl_cache_size :: nat
  transition_cache_enabled :: bool
  current_state :: "history_state option"
  loaded_assets :: "string option list option"
  referer :: "string option"
  tl_xhr :: "xhr option"
  d_title :: string
  d_body :: page_body
  d_csrf :: "string option"
  d_head :: "head_node list"
  hist :: "history_entry list"
  hist_pos :: nat
  hash_change_pending :: bool
  scroll_x :: int
  scroll_y :: int
  active_element :: "nat option"
  leaving :: "string option"
  tl_events :: "tl_event list"

type_synonym tl_result = "(js_error \<times> tl_state) + tl_state"

definition and_then :: "tl_result \<Rightarrow> (tl_state \<Rightarrow> tl_result) \<Rightarrow> tl_result" where
  "and_then r f = (case r of Inl e \<Rightarrow> Inl e | Inr s \<Rightarrow> f s)"

fun state_of :: "tl_result \<Rightarrow> tl_state" where
  "state_of (Inl (e, s)) = s"
| "state_of (Inr s) = s"

section \<open>The window's history and location\<close>

definition location :: "tl_state \<Rightarrow> string" where
  "location s = he_url (hist s ! hist_pos s)"

definition history_state_of :: "tl_state \<Rightarrow> history_state option" where
  "history_state_of s = he_state (hist s ! hist_pos s)"

definition location_hash :: "env \<Rightarrow> tl_state \<Rightarrow> string" where
  "location_hash e s = hash (new_component_url (env_resolve e) (location s) Url_Missing)"

definition push_state :: "history_state option \<Rightarrow> string \<Rightarrow> tl_state \<Rightarrow> tl_state" where
  "push_state st url s =
     s\<lparr>hist := take (Suc (hist_pos s)) (hist s) @ [\<lparr>he_url = url, he_state = st\<rparr>],
       hist_pos := Suc (hist_pos s)\<rparr>"

definition replace_state :: "history_state option \<Rightarrow> string \<Rightarrow> tl_state \<Rightarrow> tl_state" where
  "replace_state st url s = s\<lparr>hist := (hist s)[hist_pos s := \<lparr>he_url = url, he_state = st\<rparr>]\<rparr>"

definition scroll_to_anchor :: "env \<Rightarrow> string \<Rightarrow> tl_state \<Rightarrow> tl_state" where
  "scroll_to_anchor e h s =
     (case env_anchor_pos e (d_body s) h of
        None \<Rightarrow> s
      | Some (x, y) \<Rightarrow> s\<lparr>scroll_x := x, scroll_y := y\<rparr>)"

text \<open>
  Following a fragment adds a history entry without a state; the browser queues a \<open>hashchange\<close> event.
\<close>

definition set_location_hash :: "env \<Rightarrow> string \<Rightarrow> tl_state \<Rightarrow> tl_state" where
  "set_location_hash e h s =
     (let s' = push_state None (without_hash (new_component_url (env_resolve e) (location s) Url_Missing) @ h) s in
        scroll_to_anchor e h (s'\<lparr>hash_change_pending := True\<rparr>))"

definition set_location_href :: "string \<Rightarrow> tl_state \<Rightarrow> tl_state" where
  "set_location_href url s = s\<lparr>leaving := Some url\<rparr>"

definition trigger_event :: "tl_event \<Rightarrow> tl_state \<Rightarrow> tl_state" where
  "trigger_event ev s = s\<lparr>tl_events := tl_events s @ [ev]\<rparr>"

section \<open>Remembering\<close>

definition remember_referer :: "tl_state \<Rightarrow> tl_state" where
  "remember_referer s = s\<lparr>referer := Some (location s)\<rparr>"

definition remember_current_url :: "tl_state \<Rightarrow> tl_state" where
  "remember_current_url s =
     replace_state (Some \<lparr>st_turbolinks = True, st_url = location s\<rparr>) (location s) s"

definition remember_current_state :: "tl_state \<Rightarrow> tl_state" where
  "remember_current_state s = s\<lparr>current_state := history_state_of s\<rparr>"

text \<open>\<open>cacheCurrentPage\<close>: reading \<open>currentState.url\<close> throws when there is no current state.\<close>

definition current_page :: "component_url \<Rightarrow> nat \<Rightarrow> tl_state \<Rightarrow> cached_page" where
  "current_page u now s =
     \<lparr>cp_url = relative u, cp_body = d_body s, cp_title = d_title s, cp_position_y = scroll_y s,
      cp_position_x = scroll_x s, cached_at = now, transition_cache_disabled = no_transition (d_body s)\<rparr>"

definition cache_current_page :: "env \<Rightarrow> nat \<Rightarrow> tl_state \<Rightarrow> tl_result" where
  "cache_current_page e now s =
     (case current_state s of
        None \<Rightarrow> Inl (Type_Error, s)
      | Some st \<Rightarrow>
          let u = new_component_url (env_resolve e) (location s) (Url_Text (st_url st));
              (c, evs) = cache_page (tl_cache_size s) (absolute u) (current_page u now s) (tl_cache s)
          in Inr (s\<lparr>tl_cache := c, tl_events := tl_events s @ map Cache_Event evs\<rparr>))"

section \<open>changePage\<close>

definition csrf_update :: "string \<Rightarrow> tl_state \<Rightarrow> tl_state" where
  "csrf_update latest s =
     (case d_csrf s of
        None \<Rightarrow> s
      | Some token \<Rightarrow> if token \<noteq> latest then s\<lparr>d_csrf := Some latest\<rparr> else s)"

definition set_autofocus_element :: "tl_state \<Rightarrow> tl_state" where
  "set_autofocus_element s =
     (case body_autofocus (d_body s) of
        [] \<Rightarrow> s
      | x # xs \<Rightarrow>
          if active_element s \<noteq> Some (last (x # xs)) then s\<lparr>active_element := Some (last (x # xs))\<rparr> else s)"

definition executable_scripts :: "page_body \<Rightarrow> script_tag list" where
  "executable_scripts b =
     filter (\<lambda>sc. script_type sc = [] \<or> script_type sc = ''text/javascript'')
       (filter (\<lambda>sc. \<not> eval_disabled sc) (body_scripts b))"

text \<open>Each script is replaced by a copy of itself, which runs it: the body is the same, the script runs.\<close>

definition execute_script_tags :: "tl_state \<Rightarrow> tl_state" where
  "execute_script_tags s =
     fold (\<lambda>sc. trigger_event (Script_Run (script_html sc))) (executable_scripts (d_body s)) s"

text \<open>An \<open>undefined\<close> title becomes the text \<open>undefined\<close>. Taking the old body out drops the focus.\<close>

definition js_text :: "string option \<Rightarrow> string" where
  "js_text t = (case t of None \<Rightarrow> ''undefined'' | Some x \<Rightarrow> x)"

definition change_page ::
  "string option \<Rightarrow> page_body \<Rightarrow> string option \<Rightarrow> bool \<Rightarrow> tl_state \<Rightarrow> tl_state" where
  "change_page title body csrf_token run_scripts s =
     (let s = s\<lparr>d_title := js_text title\<rparr>;
          s = s\<lparr>d_body := body, active_element := None\<rparr>;
          s = (case csrf_token of None \<Rightarrow> s | Some t \<Rightarrow> csrf_update t s);
          s = set_autofocus_element s;
          s = (if run_scripts then execute_script_tags s else s);
          s = remember_current_state s
      in trigger_event Page_Update (trigger_event Page_Change s))"

section \<open>processResponse\<close>

definition client_or_server_error :: "response \<Rightarrow> bool" where
  "client_or_server_error r \<longleftrightarrow> 400 \<le> status r \<and> status r < 600"

definition valid_content :: "string \<Rightarrow> bool" where
  "valid_content ct \<longleftrightarrow>
     list_ex (\<lambda>t. ct = t \<or> prefix (t @ '';'') ct) [''text/html'', ''application/xhtml+xml'', ''application/xml'']"

fun js_or :: "string option \<Rightarrow> string option \<Rightarrow> string option" where
  "js_or (Some (c # cs)) b = Some (c # cs)"
| "js_or _ b = b"

fun extract_track_assets :: "head_node list \<Rightarrow> string option list" where
  "extract_track_assets [] = []"
| "extract_track_assets (Text_Node # ns) = extract_track_assets ns"
| "extract_track_assets (Head_Element t sr hr # ns) =
     (if t \<noteq> None then js_or sr hr # extract_track_assets ns else extract_track_assets ns)"

definition intersection :: "'a list \<Rightarrow> 'a list \<Rightarrow> 'a list" where
  "intersection a b =
     (let (a, b) = (if length a > length b then (b, a) else (a, b)) in filter (\<lambda>v. v \<in> set b) a)"

definition assets_differ :: "'a list \<Rightarrow> 'a list \<Rightarrow> bool" where
  "assets_differ fetched loaded \<longleftrightarrow>
     length fetched \<noteq> length loaded \<or> length (intersection fetched loaded) \<noteq> length loaded"

definition assets_changed :: "html_document \<Rightarrow> tl_state \<Rightarrow> bool \<times> tl_state" where
  "assets_changed doc s =
     (let loaded = (case loaded_assets s of None \<Rightarrow> extract_track_assets (d_head s) | Some l \<Rightarrow> l) in
        (assets_differ (extract_track_assets (doc_head doc)) loaded, s\<lparr>loaded_assets := Some loaded\<rparr>))"

definition process_response ::
  "env \<Rightarrow> response \<Rightarrow> tl_state \<Rightarrow> (js_error \<times> tl_state) + (html_document option \<times> tl_state)" where
  "process_response e r s =
     (if client_or_server_error r then Inr (None, s)
      else
        case content_type r of
          None \<Rightarrow> Inl (Type_Error, s)
        | Some ct \<Rightarrow>
            if \<not> valid_content ct then Inr (None, s)
            else
              case env_create_document e (response_text r) of
                None \<Rightarrow> Inr (None, s)
              | Some doc \<Rightarrow>
                  let (changed, s') = assets_changed doc s in
                    Inr (if changed then None else Some doc, s'))"

text \<open>\<open>/<noscript[\S\s]*?<\/noscript>/ig\<close>: each shortest stretch from an opening to a closing tag is cut.\<close>

definition prefix_ci :: "string \<Rightarrow> string \<Rightarrow> bool" where
  "prefix_ci p s \<longleftrightarrow> prefix p (map lower s)"

fun after_close :: "string \<Rightarrow> string option" where
  "after_close [] = None"
| "after_close (c # cs) =
     (if prefix_ci ''</noscript>'' (c # cs) then Some (drop (length ''</noscript>'') (c # cs)) else after_close cs)"

lemma after_close_length: "after_close s = Some r \<Longrightarrow> length r < length s"
  by (induction s) (auto split: if_splits)

function (sequential) cut_noscript :: "string \<Rightarrow> string" where
  "cut_noscript [] = []"
| "cut_noscript (c # cs) =
     (if prefix_ci ''<noscript'' (c # cs)
      then (case after_close (drop (length ''<noscript'') (c # cs)) of
              None \<Rightarrow> c # cut_noscript cs
            | Some r \<Rightarrow> cut_noscript r)
      else c # cut_noscript cs)"
  by pat_completeness auto
termination
  by (relation "measure length") (auto dest: after_close_length)

definition remove_noscript_tags :: "env \<Rightarrow> page_body \<Rightarrow> page_body" where
  "remove_noscript_tags e b = env_set_inner_html e b (cut_noscript (body_html b))"

section \<open>Reflecting a response in the address bar\<close>

definition reflect_new_url :: "component_url \<Rightarrow> tl_state \<Rightarrow> tl_state" where
  "reflect_new_url u s =
     (if Some (absolute u) \<noteq> referer s
      then push_state (Some \<lparr>st_turbolinks = True, st_url = absolute u\<rparr>) (absolute u) s
      else s)"

definition reflect_redirected_url :: "env \<Rightarrow> response \<Rightarrow> tl_state \<Rightarrow> tl_state" where
  "reflect_redirected_url e r s =
     (case redirected_to r of
        None \<Rightarrow> s
      | Some [] \<Rightarrow> s
      | Some (c # cs) \<Rightarrow>
          let u = new_component_url (env_resolve e) (location s) (Url_Text (c # cs));
              preserved = (if has_no_hash u then location_hash e s else [])
          in replace_state (current_state s) (href u @ preserved) s)"

definition manually_trigger_hash_change :: "env \<Rightarrow> tl_state \<Rightarrow> tl_state" where
  "manually_trigger_hash_change e s =
     (let u = new_component_url (env_resolve e) (location s) Url_Missing in
        if env_firefox e \<and> \<not> has_no_hash u
        then set_location_hash e (hash u) (replace_state (current_state s) (without_hash u) s)
        else s)"

definition recall_scroll_position :: "cached_page \<Rightarrow> tl_state \<Rightarrow> tl_state" where
  "recall_scroll_position p s = s\<lparr>scroll_x := cp_position_x p, scroll_y := cp_position_y p\<rparr>"

text \<open>Assigning the location its own address, which has a fragment, only scrolls to that anchor.\<close>

definition reset_scroll_position :: "env \<Rightarrow> tl_state \<Rightarrow> tl_state" where
  "reset_scroll_position e s =
     (if location_hash e s \<noteq> [] then scroll_to_anchor e (location_hash e s) s
      else s\<lparr>scroll_x := 0, scroll_y := 0\<rparr>)"

section \<open>Fetching\<close>

text \<open>
  A request that is not finished is aborted; its \<open>onloadend\<close> then clears \<open>xhr\<close>, and none of its other
  handlers runs. A finished request has cleared it already.
\<close>

definition abort_xhr :: "tl_state \<Rightarrow> tl_state" where
  "abort_xhr s = s\<lparr>tl_xhr := None\<rparr>"

definition fetch_replacement :: "component_url \<Rightarrow> bool \<Rightarrow> tl_state \<Rightarrow> tl_state" where
  "fetch_replacement u resets s =
     (let s = trigger_event (Page_Fetch (absolute u)) s;
          s = abort_xhr s
      in s\<lparr>tl_xhr := Some \<lparr>xhr_url = u, xhr_open = without_hash_ie10 u,
             xhr_headers = [(''Accept'', ''text/html, application/xhtml+xml, application/xml''),
                            (''X-XHR-Referer'', case referer s of None \<Rightarrow> ''null'' | Some u \<Rightarrow> u)],
             xhr_resets_scroll = resets\<rparr>\<rparr>)"

definition fetch_history :: "cached_page \<Rightarrow> tl_state \<Rightarrow> tl_state" where
  "fetch_history p s =
     (let s = abort_xhr s;
          s = change_page (Some (cp_title p)) (cp_body p) None False s;
          s = recall_scroll_position p s
      in trigger_event Page_Restore s)"

definition fetch :: "env \<Rightarrow> nat \<Rightarrow> string \<Rightarrow> tl_state \<Rightarrow> tl_result" where
  "fetch e now url s =
     (let u = new_component_url (env_resolve e) (location s) (Url_Text url) in
      and_then (cache_current_page e now (remember_referer s))
        (\<lambda>s. case (if transition_cache_enabled s then transition_cache_for (tl_cache s) (absolute u) else None) of
               Some p \<Rightarrow> Inr (fetch_replacement u False (fetch_history p s))
             | None \<Rightarrow> Inr (fetch_replacement u True s)))"

text \<open>The \<open>onload\<close> handler when the response gives a document, and the whole handler.\<close>

definition load_page :: "env \<Rightarrow> xhr \<Rightarrow> response \<Rightarrow> html_document \<Rightarrow> tl_state \<Rightarrow> tl_state" where
  "load_page e x r doc s =
     (let s = reflect_new_url (xhr_url x) s;
          s = change_page (doc_title doc) (remove_noscript_tags e (doc_body doc)) (doc_csrf doc) True s;
          s = manually_trigger_hash_change e s;
          s = reflect_redirected_url e r s;
          s = (if xhr_resets_scroll x then reset_scroll_position e s else s)
      in trigger_event Page_Load s)"

definition xhr_onload :: "env \<Rightarrow> xhr \<Rightarrow> response \<Rightarrow> tl_state \<Rightarrow> tl_result" where
  "xhr_onload e x r s =
     (case process_response e r (trigger_event (Page_Receive (absolute (xhr_url x))) s) of
        Inl err \<Rightarrow> Inl err
      | Inr (Some doc, s') \<Rightarrow> Inr (load_page e x r doc s')
      | Inr (None, s') \<Rightarrow> Inr (set_location_href (absolute (xhr_url x)) s'))"

definition xhr_onloadend :: "tl_state \<Rightarrow> tl_state" where
  "xhr_onloadend s = s\<lparr>tl_xhr := None\<rparr>"

definition xhr_onerror :: "xhr \<Rightarrow> tl_state \<Rightarrow> tl_state" where
  "xhr_onerror x s = set_location_href (absolute (xhr_url x)) s"

section \<open>History, cache settings and page events\<close>

definition popstate_handler :: "env \<Rightarrow> nat \<Rightarrow> tl_state \<Rightarrow> tl_result" where
  "popstate_handler e now s =
     (case history_state_of s of
        None \<Rightarrow> Inr s
      | Some st \<Rightarrow>
          if \<not> st_turbolinks st then Inr s
          else
            case cache_lookup (tl_cache s)
                   (absolute (new_component_url (env_resolve e) (location s) (Url_Text (st_url st)))) of
              Some p \<Rightarrow> and_then (cache_current_page e now s) (\<lambda>s. Inr (fetch_history p s))
            | None \<Rightarrow> fetch e now (location s) s)"

definition hashchange_handler :: "tl_state \<Rightarrow> tl_state" where
  "hashchange_handler s = remember_current_state (remember_current_url s)"

definition enable_transition_cache :: "bool option \<Rightarrow> tl_state \<Rightarrow> tl_state" where
  "enable_transition_cache b s = s\<lparr>transition_cache_enabled := (case b of None \<Rightarrow> True | Some x \<Rightarrow> x)\<rparr>"

definition set_pages_cached :: "string option \<Rightarrow> tl_state \<Rightarrow> tl_state" where
  "set_pages_cached sz s = s\<lparr>tl_cache_size := pages_cached sz (tl_cache_size s)\<rparr>"

definition ajax_success_trigger :: "string \<Rightarrow> tl_state \<Rightarrow> tl_state" where
  "ajax_success_trigger txt s = (if js_trim txt = [] then s else trigger_event Page_Update s)"

definition document_ready_trigger :: "tl_state \<Rightarrow> tl_state" where
  "document_ready_trigger s = trigger_event Page_Update (trigger_event Page_Change s)"

definition initialize_turbolinks :: "tl_state \<Rightarrow> tl_state" where
  "initialize_turbolinks s = remember_current_state (remember_current_url s)"

text \<open>
  \<open>popCookie(name)\<close> on the text of \<open>document.cookie\<close>: the value after the first \<open>name=\<close> that word
  characters follow, in upper case; an absent cookie gives the empty text. The cookie is then expired.
\<close>

definition is_word :: "char \<Rightarrow> bool" where
  "is_word c \<longleftrightarrow> (let n = of_char c :: nat in
     is_digit c \<or> (65 \<le> n \<and> n \<le> 90) \<or> (97 \<le> n \<and> n \<le> 122) \<or> n = 95)"

definition upper :: "char \<Rightarrow> char" where
  "upper c = (let n = of_char c :: nat in if 97 \<le> n \<and> n \<le> 122 then char_of (n - 32) else c)"

fun cookie_match :: "string \<Rightarrow> string \<Rightarrow> string option" where
  "cookie_match name [] = None"
| "cookie_match name (c # cs) =
     (let v = takeWhile is_word (drop (Suc (length name)) (c # cs)) in
        if prefix (name @ ''='') (c # cs) \<and> v \<noteq> [] then Some v else cookie_match name cs)"

definition pop_cookie :: "string \<Rightarrow> string \<Rightarrow> string \<times> string" where
  "pop_cookie name cookies =
     (case cookie_match name cookies of None \<Rightarrow> [] | Some v \<Rightarrow> map upper v,
      name @ ''=; expires=Thu, 01-Jan-70 00:00:01 GMT; path=/'')"

definition request_method_is_safe :: "string \<Rightarrow> bool" where
  "request_method_is_safe cookies \<longleftrightarrow>
     (let m = fst (pop_cookie ''request_method'' cookies) in m = ''GET'' \<or> m = [])"

definition browser_supports_turbolinks :: "bool \<Rightarrow> bool \<Rightarrow> string \<Rightarrow> bool" where
  "browser_supports_turbolinks supports_push_state isnt_buggy cookies \<longleftrightarrow>
     supports_push_state \<and> isnt_buggy \<and> request_method_is_safe cookies"

section \<open>What the steps leave alone\<close>

text \<open>Field lemmas: which parts of the state an operation can change.\<close>

named_theorems tl_frame \<open>fields an operation of Turbolinks does not change\<close>

lemma trigger_event_frame [tl_frame]:
  "tl_cache (trigger_event ev s) = tl_cache s" "tl_cache_size (trigger_event ev s) = tl_cache_size s"
  "transition_cache_enabled (trigger_event ev s) = transition_cache_enabled s"
  "current_state (trigger_event ev s) = current_state s"
  "loaded_assets (trigger_event ev s) = loaded_assets s" "referer (trigger_event ev s) = referer s"
  "tl_xhr (trigger_event ev s) = tl_xhr s" "d_title (trigger_event ev s) = d_title s"
  "d_body (trigger_event ev s) = d_body s" "d_csrf (trigger_event ev s) = d_csrf s"
  "d_head (trigger_event ev s) = d_head s" "hist (trigger_event ev s) = hist s"
  "hist_pos (trigger_event ev s) = hist_pos s"
  "hash_change_pending (trigger_event ev s) = hash_change_pending s"
  "scroll_x (trigger_event ev s) = scroll_x s" "scroll_y (trigger_event ev s) = scroll_y s"
  "leaving (trigger_event ev s) = leaving s" "active_element (trigger_event ev s) = active_element s"
  "tl_events (trigger_event ev s) = tl_events s @ [ev]"
  by (simp_all add: trigger_event_def)

lemma fold_scripts:
  "fold (\<lambda>sc. trigger_event (Script_Run (script_html sc))) scs s =
     s\<lparr>tl_events := tl_events s @ map (\<lambda>sc. Script_Run (script_html sc)) scs\<rparr>"
  by (induction scs arbitrary: s) (simp_all add: trigger_event_def)

lemma execute_script_tags_eq:
  "execute_script_tags s =
     s\<lparr>tl_events := tl_events s @ map (\<lambda>sc. Script_Run (script_html sc)) (executable_scripts (d_body s))\<rparr>"
  by (simp add: execute_script_tags_def fold_scripts)

lemma csrf_update_eq:
  "csrf_update t s = s\<lparr>d_csrf := (case d_csrf s of None \<Rightarrow> None | Some _ \<Rightarrow> Some t)\<rparr>"
  by (simp add: csrf_update_def split: option.splits)

lemma set_autofocus_eq:
  "set_autofocus_element s =
     s\<lparr>active_element := (case body_autofocus (d_body s) of [] \<Rightarrow> active_element s | xs \<Rightarrow> Some (last xs))\<rparr>"
  by (simp add: set_autofocus_element_def split: list.splits)

definition csrf_after :: "string option \<Rightarrow> string option \<Rightarrow> string option" where
  "csrf_after latest token = (case latest of None \<Rightarrow> token | Some t \<Rightarrow> map_option (\<lambda>_. t) token)"

definition assets_in_use :: "tl_state \<Rightarrow> string option list" where
  "assets_in_use s = (case loaded_assets s of None \<Rightarrow> extract_track_assets (d_head s) | Some l \<Rightarrow> l)"

text \<open>\<open>changePage\<close> in one step.\<close>

lemma change_page_eq:
  "change_page title body csrf run s =
     s\<lparr>d_title := js_text title, d_body := body,
       active_element := (case body_autofocus body of [] \<Rightarrow> None | xs \<Rightarrow> Some (last xs)),
       d_csrf := csrf_after csrf (d_csrf s),
       current_state := history_state_of s,
       tl_events := tl_events s @
         (if run then map (\<lambda>sc. Script_Run (script_html sc)) (executable_scripts body) else []) @
         [Page_Change, Page_Update]\<rparr>"
  by (simp add: change_page_def Let_def csrf_update_eq set_autofocus_eq execute_script_tags_eq trigger_event_def
      remember_current_state_def history_state_of_def csrf_after_def split: option.splits list.splits)

lemma change_page_frame [tl_frame]:
  "tl_cache (change_page title body csrf run s) = tl_cache s"
  "tl_cache_size (change_page title body csrf run s) = tl_cache_size s"
  "transition_cache_enabled (change_page title body csrf run s) = transition_cache_enabled s"
  "current_state (change_page title body csrf run s) = history_state_of s"
  "loaded_assets (change_page title body csrf run s) = loaded_assets s"
  "referer (change_page title body csrf run s) = referer s"
  "tl_xhr (change_page title body csrf run s) = tl_xhr s"
  "d_title (change_page title body csrf run s) = js_text title"
  "d_body (change_page title body csrf run s) = body"
  "d_csrf (change_page title body csrf run s) =
     csrf_after csrf (d_csrf s)"
  "d_head (change_page title body csrf run s) = d_head s"
  "hist (change_page title body csrf run s) = hist s"
  "hist_pos (change_page title body csrf run s) = hist_pos s"
  "hash_change_pending (change_page title body csrf run s) = hash_change_pending s"
  "scroll_x (change_page title body csrf run s) = scroll_x s"
  "scroll_y (change_page title body csrf run s) = scroll_y s"
  "leaving (change_page title body csrf run s) = leaving s"
  by (simp_all add: change_page_eq)

lemma push_state_frame [tl_frame]:
  "tl_cache (push_state st u s) = tl_cache s" "tl_cache_size (push_state st u s) = tl_cache_size s"
  "current_state (push_state st u s) = current_state s" "referer (push_state st u s) = referer s"
  "tl_xhr (push_state st u s) = tl_xhr s" "d_title (push_state st u s) = d_title s"
  "d_body (push_state st u s) = d_body s" "d_csrf (push_state st u s) = d_csrf s"
  "loaded_assets (push_state st u s) = loaded_assets s" "leaving (push_state st u s) = leaving s"
  "hash_change_pending (push_state st u s) = hash_change_pending s"
  "tl_events (push_state st u s) = tl_events s"
  "transition_cache_enabled (push_state st u s) = transition_cache_enabled s"
  by (simp_all add: push_state_def)

lemma replace_state_frame [tl_frame]:
  "tl_cache (replace_state st u s) = tl_cache s" "tl_cache_size (replace_state st u s) = tl_cache_size s"
  "current_state (replace_state st u s) = current_state s" "referer (replace_state st u s) = referer s"
  "tl_xhr (replace_state st u s) = tl_xhr s" "d_title (replace_state st u s) = d_title s"
  "d_body (replace_state st u s) = d_body s" "d_csrf (replace_state st u s) = d_csrf s"
  "loaded_assets (replace_state st u s) = loaded_assets s" "leaving (replace_state st u s) = leaving s"
  "hash_change_pending (replace_state st u s) = hash_change_pending s"
  "tl_events (replace_state st u s) = tl_events s" "hist_pos (replace_state st u s) = hist_pos s"
  "transition_cache_enabled (replace_state st u s) = transition_cache_enabled s"
  by (simp_all add: replace_state_def)

lemma scroll_to_anchor_frame [tl_frame]:
  "tl_cache (scroll_to_anchor e h s) = tl_cache s" "tl_cache_size (scroll_to_anchor e h s) = tl_cache_size s"
  "current_state (scroll_to_anchor e h s) = current_state s" "referer (scroll_to_anchor e h s) = referer s"
  "tl_xhr (scroll_to_anchor e h s) = tl_xhr s" "d_title (scroll_to_anchor e h s) = d_title s"
  "d_body (scroll_to_anchor e h s) = d_body s" "d_csrf (scroll_to_anchor e h s) = d_csrf s"
  "loaded_assets (scroll_to_anchor e h s) = loaded_assets s" "leaving (scroll_to_anchor e h s) = leaving s"
  "hash_change_pending (scroll_to_anchor e h s) = hash_change_pending s"
  "tl_events (scroll_to_anchor e h s) = tl_events s" "hist (scroll_to_anchor e h s) = hist s"
  "hist_pos (scroll_to_anchor e h s) = hist_pos s"
  "transition_cache_enabled (scroll_to_anchor e h s) = transition_cache_enabled s"
  by (simp_all add: scroll_to_anchor_def split: option.splits)

lemma assets_changed_frame:
  "assets_changed doc s = (b, s') \<Longrightarrow> \<exists>l. s' = s\<lparr>loaded_assets := Some l\<rparr>"
  by (auto simp: assets_changed_def Let_def)

lemma process_response_frame:
  "process_response e r s = Inr (d, s') \<Longrightarrow> s' = s \<or> (\<exists>l. s' = s\<lparr>loaded_assets := Some l\<rparr>)"
  by (auto simp: process_response_def Let_def dest: assets_changed_frame
      split: if_splits option.splits prod.splits)

lemma process_response_error:
  "process_response e r s = Inl (err, s') \<Longrightarrow> s' = s \<and> content_type r = None \<and> \<not> client_or_server_error r"
  by (auto simp: process_response_def Let_def split: if_splits option.splits prod.splits)

lemma cache_current_page_cases:
  assumes "current_state s = Some st"
  obtains c evs where
    "cache_current_page e now s = Inr (s\<lparr>tl_cache := c, tl_events := tl_events s @ evs\<rparr>)"
    "c = put_page (tl_cache_size s) (u_href (env_resolve e (location s) (st_url st)))
           (current_page (new_component_url (env_resolve e) (location s) (Url_Text (st_url st))) now s) (tl_cache s)"
proof -
  let ?u = "new_component_url (env_resolve e) (location s) (Url_Text (st_url st))"
  let ?r = "cache_page (tl_cache_size s) (absolute ?u) (current_page ?u now s) (tl_cache s)"
  have "cache_current_page e now s =
          Inr (s\<lparr>tl_cache := fst ?r, tl_events := tl_events s @ map Cache_Event (snd ?r)\<rparr>)"
    using assms by (simp add: cache_current_page_def Let_def split: prod.splits)
  then show ?thesis by (rule that) (simp add: put_page_def new_component_url_def parse_url_def)
qed

lemma location_frame:
  "hist s' = hist s \<Longrightarrow> hist_pos s' = hist_pos s \<Longrightarrow> location s' = location s"
  "hist s' = hist s \<Longrightarrow> hist_pos s' = hist_pos s \<Longrightarrow> history_state_of s' = history_state_of s"
  by (simp_all add: location_def history_state_of_def)

lemma reflect_new_url_frame [tl_frame]:
  "d_title (reflect_new_url u s) = d_title s" "d_body (reflect_new_url u s) = d_body s"
  "d_csrf (reflect_new_url u s) = d_csrf s" "tl_cache (reflect_new_url u s) = tl_cache s"
  "tl_events (reflect_new_url u s) = tl_events s" "leaving (reflect_new_url u s) = leaving s"
  "tl_cache_size (reflect_new_url u s) = tl_cache_size s"
  "transition_cache_enabled (reflect_new_url u s) = transition_cache_enabled s"
  "hash_change_pending (reflect_new_url u s) = hash_change_pending s"
  "referer (reflect_new_url u s) = referer s" "tl_xhr (reflect_new_url u s) = tl_xhr s"
  by (simp_all add: reflect_new_url_def tl_frame)

lemma manually_trigger_frame [tl_frame]:
  "d_title (manually_trigger_hash_change e s) = d_title s" "d_body (manually_trigger_hash_change e s) = d_body s"
  "d_csrf (manually_trigger_hash_change e s) = d_csrf s" "tl_cache (manually_trigger_hash_change e s) = tl_cache s"
  "tl_events (manually_trigger_hash_change e s) = tl_events s"
  "leaving (manually_trigger_hash_change e s) = leaving s"
  "current_state (manually_trigger_hash_change e s) = current_state s"
  "tl_cache_size (manually_trigger_hash_change e s) = tl_cache_size s"
  "transition_cache_enabled (manually_trigger_hash_change e s) = transition_cache_enabled s"
  "referer (manually_trigger_hash_change e s) = referer s" "tl_xhr (manually_trigger_hash_change e s) = tl_xhr s"
  by (simp_all add: manually_trigger_hash_change_def set_location_hash_def Let_def tl_frame)

lemma reflect_redirected_frame [tl_frame]:
  "d_title (reflect_redirected_url e r s) = d_title s" "d_body (reflect_redirected_url e r s) = d_body s"
  "d_csrf (reflect_redirected_url e r s) = d_csrf s" "tl_cache (reflect_redirected_url e r s) = tl_cache s"
  "tl_events (reflect_redirected_url e r s) = tl_events s" "leaving (reflect_redirected_url e r s) = leaving s"
  "current_state (reflect_redirected_url e r s) = current_state s"
  "hist_pos (reflect_redirected_url e r s) = hist_pos s"
  "tl_cache_size (reflect_redirected_url e r s) = tl_cache_size s"
  "transition_cache_enabled (reflect_redirected_url e r s) = transition_cache_enabled s"
  "hash_change_pending (reflect_redirected_url e r s) = hash_change_pending s"
  "referer (reflect_redirected_url e r s) = referer s" "tl_xhr (reflect_redirected_url e r s) = tl_xhr s"
  by (simp_all add: reflect_redirected_url_def Let_def tl_frame split: option.splits list.splits)

lemma reset_scroll_frame [tl_frame]:
  "d_title (reset_scroll_position e s) = d_title s" "d_body (reset_scroll_position e s) = d_body s"
  "d_csrf (reset_scroll_position e s) = d_csrf s" "tl_cache (reset_scroll_position e s) = tl_cache s"
  "tl_events (reset_scroll_position e s) = tl_events s" "leaving (reset_scroll_position e s) = leaving s"
  "current_state (reset_scroll_position e s) = current_state s" "hist (reset_scroll_position e s) = hist s"
  "hist_pos (reset_scroll_position e s) = hist_pos s"
  "tl_cache_size (reset_scroll_position e s) = tl_cache_size s"
  "transition_cache_enabled (reset_scroll_position e s) = transition_cache_enabled s"
  "hash_change_pending (reset_scroll_position e s) = hash_change_pending s"
  "referer (reset_scroll_position e s) = referer s" "tl_xhr (reset_scroll_position e s) = tl_xhr s"
  by (simp_all add: reset_scroll_position_def tl_frame)

text \<open>\<open>load_page\<close> on the document and the log.\<close>

lemma load_page_document:
  "d_title (load_page e x r doc s) = js_text (doc_title doc)"
  "d_body (load_page e x r doc s) = remove_noscript_tags e (doc_body doc)"
  "d_csrf (load_page e x r doc s) =
     csrf_after (doc_csrf doc) (d_csrf s)"
  "leaving (load_page e x r doc s) = leaving s" "tl_cache (load_page e x r doc s) = tl_cache s"
  "tl_cache_size (load_page e x r doc s) = tl_cache_size s"
  "transition_cache_enabled (load_page e x r doc s) = transition_cache_enabled s"
  "referer (load_page e x r doc s) = referer s" "tl_xhr (load_page e x r doc s) = tl_xhr s"
  by (simp_all add: load_page_def Let_def tl_frame)

lemma load_page_events:
  "tl_events (load_page e x r doc s) = tl_events s @
     map (\<lambda>sc. Script_Run (script_html sc)) (executable_scripts (remove_noscript_tags e (doc_body doc))) @
     [Page_Change, Page_Update, Page_Load]"
  by (simp add: load_page_def Let_def tl_frame change_page_eq)

section \<open>Properties of a response\<close>

text \<open>A response that \<open>processResponse\<close> turns into a document.\<close>

definition accepted :: "env \<Rightarrow> response \<Rightarrow> tl_state \<Rightarrow> html_document \<Rightarrow> bool" where
  "accepted e r s doc \<longleftrightarrow>
     \<not> client_or_server_error r \<and> (\<exists>ct. content_type r = Some ct \<and> valid_content ct) \<and>
     env_create_document e (response_text r) = Some doc \<and>
     \<not> assets_differ (extract_track_assets (doc_head doc)) (assets_in_use s)"

lemma process_response_accepted:
  "accepted e r s doc \<Longrightarrow> process_response e r s = Inr (Some doc, snd (assets_changed doc s))"
  by (auto simp: accepted_def process_response_def assets_changed_def assets_in_use_def Let_def)

lemma process_response_Some:
  "process_response e r s = Inr (Some doc, s') \<longleftrightarrow> accepted e r s doc \<and> s' = snd (assets_changed doc s)"
  by (auto simp: accepted_def process_response_def assets_changed_def assets_in_use_def Let_def split: if_splits option.splits)

lemma accepted_trigger [simp]: "accepted e r (trigger_event ev s) doc = accepted e r s doc"
  by (simp add: accepted_def assets_in_use_def trigger_event_def split: option.split)


lemma assets_differ_iff:
  "assets_differ fetched loaded \<longleftrightarrow> \<not> (length fetched = length loaded \<and> set fetched \<subseteq> set loaded)"
proof (cases "length fetched = length loaded")
  case True
  have "length (filter (\<lambda>v. v \<in> set loaded) fetched) = length fetched \<longleftrightarrow> (\<forall>v \<in> set fetched. v \<in> set loaded)"
    by (metis filter_True length_filter_less less_irrefl)
  with True show ?thesis by (auto simp: assets_differ_def intersection_def)
qed (simp add: assets_differ_def)

text \<open>The comparison of tracked assets asks for a full load exactly when the two sets of assets differ, as
  long as neither page names an asset twice. A page that names one asset twice passes for a page that has
  that asset and another one.\<close>

theorem tracked_assets_compared:
  assumes "distinct fetched" and "distinct loaded"
  shows "(assets_differ fetched loaded \<longleftrightarrow> set fetched \<noteq> set loaded) \<and>
         (\<forall>xs a b. loaded = xs @ [a, b] \<longrightarrow> \<not> assets_differ (xs @ [a, a]) loaded)"
proof
  show "assets_differ fetched loaded \<longleftrightarrow> set fetched \<noteq> set loaded"
    using assms unfolding assets_differ_iff
    by (metis card_subset_eq distinct_card finite_set set_eq_subset)
  show "\<forall>xs a b. loaded = xs @ [a, b] \<longrightarrow> \<not> assets_differ (xs @ [a, a]) loaded"
    by (auto simp: assets_differ_iff)
qed

theorem tracked_assets_compared_witness:
  "assets_differ [''a.js''] [''b.js''] \<and> \<not> assets_differ [''a.js'', ''a.js''] [''a.js'', ''b.css'']"
proof -
  have 1: "distinct [''a.js'']" "distinct [''b.js'']" "distinct [''a.js'', ''b.css'']" by simp_all
  have "assets_differ [''a.js''] [''b.js'']"
    using tracked_assets_compared [OF 1(1) 1(2)] by simp
  moreover have "\<not> assets_differ ([] @ [''a.js'', ''a.js'']) [''a.js'', ''b.css'']"
    using tracked_assets_compared [OF 1(1) 1(3)] by (metis append_Nil)
  ultimately show ?thesis by simp
qed

end
