(* ===== verification/Browsing_Session.thy ===== *)
theory Browsing_Session
  imports Turbolinks
begin

text \<open>
  A browsing session under Turbolinks as a step relation: what the user, the server and the browser do to
  the state of the theory \<open>Turbolinks\<close>, one event at a time, until the browser leaves the page. The
  invariant of the reachable states is proved by rule induction; it gives that no handler ever throws on a
  missing current state, and that going back restores the page that was left.
\<close>

section \<open>Events of a session\<close>

datatype session_input =
    Visit string nat
  | Respond response
  | Network_Failure
  | Traverse nat nat
  | Follow_Fragment string
  | Hash_Changed
  | Set_Pages_Cached "string option"
  | Set_Transition_Cache "bool option"
  | Ajax_Success string
  | User_Scroll int int

text \<open>
  What happens on each event. A finished request first runs its handler and then \<open>onloadend\<close>, whether
  the handler threw or not. \<open>Traverse n\<close> is the browser going to entry \<open>n\<close> of its history; the \<open>now\<close>
  arguments are the time of the event.
\<close>

definition handle_input :: "env \<Rightarrow> session_input \<Rightarrow> tl_state \<Rightarrow> tl_result" where
  "handle_input e i s =
     (case i of
        Visit url now \<Rightarrow> fetch e now url s
      | Respond r \<Rightarrow>
          (case tl_xhr s of
             None \<Rightarrow> Inr s
           | Some x \<Rightarrow>
               (case xhr_onload e x r s of
                  Inl (err, s') \<Rightarrow> Inl (err, xhr_onloadend s')
                | Inr s' \<Rightarrow> Inr (xhr_onloadend s')))
      | Network_Failure \<Rightarrow>
          (case tl_xhr s of None \<Rightarrow> Inr s | Some x \<Rightarrow> Inr (xhr_onloadend (xhr_onerror x s)))
      | Traverse n now \<Rightarrow> popstate_handler e now (s\<lparr>hist_pos := n\<rparr>)
      | Follow_Fragment h \<Rightarrow> Inr (set_location_hash e h s)
      | Hash_Changed \<Rightarrow> Inr (hashchange_handler (s\<lparr>hash_change_pending := False\<rparr>))
      | Set_Pages_Cached sz \<Rightarrow> Inr (set_pages_cached sz s)
      | Set_Transition_Cache b \<Rightarrow> Inr (enable_transition_cache b s)
      | Ajax_Success txt \<Rightarrow> Inr (ajax_success_trigger txt s)
      | User_Scroll x y \<Rightarrow> Inr (s\<lparr>scroll_x := x, scroll_y := y\<rparr>))"

text \<open>
  Which events can come next: none once the browser leaves; a queued \<open>hashchange\<close> is delivered before
  anything else; there is a response only to a request; the browser goes only to entries it has.
\<close>

definition enabled :: "session_input \<Rightarrow> tl_state \<Rightarrow> bool" where
  "enabled i s \<longleftrightarrow>
     leaving s = None \<and>
     (hash_change_pending s \<longleftrightarrow> i = Hash_Changed) \<and>
     (case i of
        Respond r \<Rightarrow> tl_xhr s \<noteq> None
      | Network_Failure \<Rightarrow> tl_xhr s \<noteq> None
      | Traverse n now \<Rightarrow> n < length (hist s)
      | _ \<Rightarrow> True)"

text \<open>A page as the browser loaded it, before and after \<open>initializeTurbolinks\<close>.\<close>

definition opened_page :: "string \<Rightarrow> html_document \<Rightarrow> tl_state" where
  "opened_page url doc =
     \<lparr>tl_cache = [], tl_cache_size = 10, transition_cache_enabled = False, current_state = None,
      loaded_assets = None, referer = None, tl_xhr = None,
      d_title = (case doc_title doc of None \<Rightarrow> [] | Some t \<Rightarrow> t), d_body = doc_body doc,
      d_csrf = doc_csrf doc, d_head = doc_head doc, hist = [\<lparr>he_url = url, he_state = None\<rparr>], hist_pos = 0,
      hash_change_pending = False, scroll_x = 0, scroll_y = 0, active_element = None, leaving = None,
      tl_events = []\<rparr>"

inductive session_step :: "env \<Rightarrow> tl_state \<Rightarrow> tl_state \<Rightarrow> bool" for e where
  handled: "enabled i s \<Longrightarrow> handle_input e i s = Inr s' \<Longrightarrow> session_step e s s'"
| threw: "enabled i s \<Longrightarrow> handle_input e i s = Inl (err, s') \<Longrightarrow> session_step e s s'"

inductive reachable :: "env \<Rightarrow> tl_state \<Rightarrow> bool" for e where
  start: "reachable e (initialize_turbolinks (opened_page url doc))"
| step: "reachable e s \<Longrightarrow> session_step e s s' \<Longrightarrow> reachable e s'"

inductive_cases session_step_cases: "session_step e s s'"

section \<open>The invariant\<close>

text \<open>
  Every history entry has a state written by Turbolinks, except the current one while a \<open>hashchange\<close> is
  queued; there is always a current state; the cache is well formed.
\<close>

definition entry_ok :: "history_entry \<Rightarrow> bool" where
  "entry_ok h \<longleftrightarrow> (\<exists>u. he_state h = Some \<lparr>st_turbolinks = True, st_url = u\<rparr>)"

definition session_inv :: "tl_state \<Rightarrow> bool" where
  "session_inv s \<longleftrightarrow>
     cache_wf (tl_cache s) \<and> hist_pos s < length (hist s) \<and>
     (\<exists>u. current_state s = Some \<lparr>st_turbolinks = True, st_url = u\<rparr>) \<and>
     (\<forall>j < length (hist s). entry_ok (hist s ! j) \<or> (hash_change_pending s \<and> j = hist_pos s))"

lemma session_invI [intro?]:
  assumes "cache_wf (tl_cache s)" and "hist_pos s < length (hist s)"
    and "\<exists>u. current_state s = Some \<lparr>st_turbolinks = True, st_url = u\<rparr>"
    and "\<And>j. j < length (hist s) \<Longrightarrow> entry_ok (hist s ! j) \<or> (hash_change_pending s \<and> j = hist_pos s)"
  shows "session_inv s"
  using assms by (simp add: session_inv_def)

text \<open>The parts of the state the invariant reads: a change elsewhere keeps it.\<close>

lemma session_inv_cong:
  "tl_cache s' = tl_cache s \<Longrightarrow> hist s' = hist s \<Longrightarrow> hist_pos s' = hist_pos s \<Longrightarrow>
   current_state s' = current_state s \<Longrightarrow> hash_change_pending s' = hash_change_pending s \<Longrightarrow>
     session_inv s' = session_inv s"
  by (simp add: session_inv_def)

lemma inv_current: "session_inv s \<Longrightarrow> \<not> hash_change_pending s \<Longrightarrow> \<exists>u. history_state_of s = Some \<lparr>st_turbolinks = True, st_url = u\<rparr>"
  unfolding session_inv_def history_state_of_def entry_ok_def by blast

lemma inv_push:
  assumes "session_inv s" and "\<not> hash_change_pending s"
  shows "session_inv (push_state (Some \<lparr>st_turbolinks = True, st_url = u\<rparr>) v s)"
proof (rule session_invI)
  let ?s = "push_state (Some \<lparr>st_turbolinks = True, st_url = u\<rparr>) v s"
  have len: "length (hist ?s) = Suc (Suc (hist_pos s))"
    using assms(1) by (simp add: push_state_def session_inv_def)
  show "hist_pos ?s < length (hist ?s)" using len by (simp add: push_state_def)
  show "cache_wf (tl_cache ?s)" "\<exists>u. current_state ?s = Some \<lparr>st_turbolinks = True, st_url = u\<rparr>"
    using assms(1) by (simp_all add: session_inv_def push_state_def)
  fix j assume "j < length (hist ?s)"
  with assms len show "entry_ok (hist ?s ! j) \<or> hash_change_pending ?s \<and> j = hist_pos ?s"
    by (cases "j \<le> hist_pos s") (auto simp: push_state_def session_inv_def nth_append entry_ok_def)
qed

lemma inv_replace:
  assumes "session_inv s"
  shows "session_inv (replace_state (Some \<lparr>st_turbolinks = True, st_url = u\<rparr>) v s)"
  using assms by (auto simp: session_inv_def replace_state_def entry_ok_def nth_list_update)

lemma inv_change_page:
  assumes "session_inv s" and "\<not> hash_change_pending s"
  shows "session_inv (change_page t b c r s)"
  using assms inv_current [OF assms] by (simp add: session_inv_def tl_frame)

lemma inv_set_hash:
  assumes "session_inv s" and "\<not> hash_change_pending s"
  shows "session_inv (set_location_hash e h s)"
proof -
  let ?u = "without_hash (new_component_url (env_resolve e) (location s) Url_Missing) @ h"
  let ?s = "(push_state None ?u s)\<lparr>hash_change_pending := True\<rparr>"
  have "session_inv ?s"
  proof (rule session_invI)
    have len: "length (hist ?s) = Suc (Suc (hist_pos s))"
      using assms(1) by (simp add: push_state_def session_inv_def)
    show "hist_pos ?s < length (hist ?s)" using len by (simp add: push_state_def)
    show "cache_wf (tl_cache ?s)" "\<exists>u. current_state ?s = Some \<lparr>st_turbolinks = True, st_url = u\<rparr>"
      using assms(1) by (simp_all add: session_inv_def push_state_def)
    fix j assume "j < length (hist ?s)"
    with assms len show "entry_ok (hist ?s ! j) \<or> hash_change_pending ?s \<and> j = hist_pos ?s"
      by (cases "j \<le> hist_pos s") (auto simp: push_state_def session_inv_def nth_append entry_ok_def)
  qed
  moreover have "session_inv (set_location_hash e h s) = session_inv ?s"
    unfolding set_location_hash_def Let_def by (intro session_inv_cong) (simp_all add: tl_frame)
  ultimately show ?thesis by simp
qed

lemma inv_cache_current_page:
  assumes "session_inv s"
  obtains s' where "cache_current_page e now s = Inr s'" "session_inv s'"
    "hist s' = hist s" "hist_pos s' = hist_pos s" "hash_change_pending s' = hash_change_pending s"
proof -
  from assms obtain st where st: "current_state s = Some st" by (auto simp: session_inv_def)
  from st obtain c evs where
    c: "cache_current_page e now s = Inr (s\<lparr>tl_cache := c, tl_events := tl_events s @ evs\<rparr>)"
      "c = put_page (tl_cache_size s) (u_href (env_resolve e (location s) (st_url st)))
           (current_page (new_component_url (env_resolve e) (location s) (Url_Text (st_url st))) now s) (tl_cache s)"
    by (rule cache_current_page_cases)
  have "cache_wf c" using assms c(2) turbolinks_store.put_wf by (simp add: session_inv_def)
  with assms have "session_inv (s\<lparr>tl_cache := c, tl_events := tl_events s @ evs\<rparr>)"
    by (simp add: session_inv_def)
  with c(1) show ?thesis by (rule that) simp_all
qed

lemma inv_reflect_new_url: "session_inv s \<Longrightarrow> \<not> hash_change_pending s \<Longrightarrow> session_inv (reflect_new_url u s)"
  by (simp add: reflect_new_url_def inv_push)

lemma inv_replace_current: "session_inv s \<Longrightarrow> session_inv (replace_state (current_state s) v s)"
proof -
  assume s: "session_inv s"
  then obtain u where "current_state s = Some \<lparr>st_turbolinks = True, st_url = u\<rparr>" by (auto simp: session_inv_def)
  with inv_replace [OF s] show ?thesis by simp
qed

lemma inv_manually_trigger:
  assumes "session_inv s" and "\<not> hash_change_pending s"
  shows "session_inv (manually_trigger_hash_change e s)"
  using assms inv_replace_current [OF assms(1)]
  by (auto simp: manually_trigger_hash_change_def Let_def tl_frame intro: inv_set_hash)

lemma inv_reflect_redirected: "session_inv s \<Longrightarrow> session_inv (reflect_redirected_url e r s)"
  by (simp add: reflect_redirected_url_def Let_def inv_replace_current split: option.splits list.splits)

lemma inv_trigger [simp]: "session_inv (trigger_event ev s) = session_inv s"
  by (intro session_inv_cong) (simp_all add: tl_frame)

lemma inv_reset_scroll [simp]: "session_inv (reset_scroll_position e s) = session_inv s"
  by (intro session_inv_cong) (simp_all add: tl_frame)

lemma inv_load_page:
  assumes "session_inv s" and "\<not> hash_change_pending s"
  shows "session_inv (load_page e x r doc s)"
proof -
  have 1: "session_inv (reflect_new_url (xhr_url x) s)" "\<not> hash_change_pending (reflect_new_url (xhr_url x) s)"
    using assms inv_reflect_new_url by (simp_all add: tl_frame)
  then have "session_inv (manually_trigger_hash_change e
      (change_page (doc_title doc) (remove_noscript_tags e (doc_body doc)) (doc_csrf doc) True
        (reflect_new_url (xhr_url x) s)))"
    by (intro inv_manually_trigger inv_change_page) (simp_all add: tl_frame)
  then show ?thesis by (simp add: load_page_def Let_def inv_reflect_redirected)
qed

lemma inv_fetch_history:
  assumes "session_inv s" and "\<not> hash_change_pending s"
  shows "session_inv (fetch_history p s)"
proof -
  have "session_inv (abort_xhr s)" using assms(1) by (simp add: session_inv_def abort_xhr_def)
  then have "session_inv (change_page (Some (cp_title p)) (cp_body p) None False (abort_xhr s))"
    using assms(2) by (intro inv_change_page) (simp_all add: abort_xhr_def)
  then show ?thesis
    by (simp add: fetch_history_def Let_def recall_scroll_position_def session_inv_def tl_frame)
qed

lemma inv_fetch_replacement: "session_inv (fetch_replacement u b s) = session_inv s"
  by (simp add: fetch_replacement_def Let_def abort_xhr_def session_inv_def tl_frame)

lemma fetch_after_caching:
  assumes "cache_current_page e now (remember_referer s) = Inr s'"
  shows "fetch e now url s =
    Inr (let u = new_component_url (env_resolve e) (location s) (Url_Text url) in
      case (if transition_cache_enabled s' then transition_cache_for (tl_cache s') (absolute u) else None) of
        Some p \<Rightarrow> fetch_replacement u False (fetch_history p s')
      | None \<Rightarrow> fetch_replacement u True s')"
  using assms by (simp add: fetch_def and_then_def Let_def split: option.splits)

lemma inv_fetch:
  assumes "session_inv s" and "\<not> hash_change_pending s"
  shows "\<exists>s'. fetch e now url s = Inr s' \<and> session_inv s'"
proof -
  have s: "session_inv (remember_referer s)" using assms(1) by (simp add: session_inv_def remember_referer_def)
  from inv_cache_current_page [OF s, of e now] obtain s' where
    s': "cache_current_page e now (remember_referer s) = Inr s'" "session_inv s'"
      "hash_change_pending s' = hash_change_pending (remember_referer s)" by blast
  with assms(2) have "\<not> hash_change_pending s'" by (simp add: remember_referer_def)
  with s' show ?thesis
    by (simp add: fetch_after_caching [OF s'(1)] Let_def inv_fetch_replacement inv_fetch_history
        split: option.split)
qed

lemma inv_popstate:
  assumes "session_inv s" and "\<not> hash_change_pending s"
  shows "\<exists>s'. popstate_handler e now s = Inr s' \<and> session_inv s'"
proof -
  from inv_cache_current_page [OF assms(1), of e now] obtain s' where
    s': "cache_current_page e now s = Inr s'" "session_inv s'"
      "hash_change_pending s' = hash_change_pending s" by blast
  with assms inv_fetch [OF assms, of e now "location s"] inv_fetch_history show ?thesis
    by (auto simp: popstate_handler_def and_then_def split: option.splits)
qed

lemma inv_hashchange:
  assumes "session_inv s"
  shows "session_inv (hashchange_handler (s\<lparr>hash_change_pending := False\<rparr>))"
  using assms
  by (auto simp: hashchange_handler_def remember_current_state_def remember_current_url_def session_inv_def
      replace_state_def history_state_of_def entry_ok_def nth_list_update)

text \<open>A response, whatever it is.\<close>

lemma inv_onload:
  assumes "session_inv s" and "\<not> hash_change_pending s"
  shows "session_inv (state_of (xhr_onload e x r s))"
proof -
  let ?s = "trigger_event (Page_Receive (absolute (xhr_url x))) s"
  show ?thesis
  proof (cases "process_response e r ?s")
    case (Inl er)
    with assms show ?thesis by (cases er) (auto simp: xhr_onload_def dest!: process_response_error)
  next
    case (Inr p)
    obtain d s1 where p: "p = (d, s1)" by fastforce
    from process_response_frame [OF Inr [unfolded p]] assms
    have s1: "session_inv s1" "\<not> hash_change_pending s1" by (auto simp: session_inv_def tl_frame)
    then have "session_inv (set_location_href u s1)" for u by (simp add: session_inv_def set_location_href_def)
    with Inr p s1 inv_load_page [OF s1] show ?thesis by (auto simp: xhr_onload_def split: option.splits)
  qed
qed

lemma inv_onloadend: "session_inv s \<Longrightarrow> session_inv (xhr_onloadend s)"
  by (simp add: session_inv_def xhr_onloadend_def)

lemma handle_respond:
  "tl_xhr s = Some x \<Longrightarrow> state_of (handle_input e (Respond r) s) = xhr_onloadend (state_of (xhr_onload e x r s))"
  by (auto simp: handle_input_def split: sum.splits)

lemma inv_handle_input:
  assumes inv: "session_inv s" and en: "enabled i s"
  shows "session_inv (state_of (handle_input e i s))"
proof (cases "i = Hash_Changed")
  case True
  with inv show ?thesis by (simp add: handle_input_def inv_hashchange)
next
  case False
  with en have np: "\<not> hash_change_pending s" by (simp add: enabled_def)
  show ?thesis
  proof (cases i)
    case (Visit url now)
    with inv_fetch [OF inv np, of e now url] show ?thesis by (auto simp: handle_input_def)
  next
    case (Respond r)
    with en obtain x where x: "tl_xhr s = Some x" by (auto simp: enabled_def)
    show ?thesis unfolding Respond handle_respond [OF x] by (rule inv_onloadend [OF inv_onload [OF inv np]])
  next
    case (Traverse n now)
    with en have n: "n < length (hist s)" by (simp add: enabled_def)
    with inv np have "session_inv (s\<lparr>hist_pos := n\<rparr>)" by (simp add: session_inv_def)
    with np Traverse inv_popstate [of "s\<lparr>hist_pos := n\<rparr>" e now] show ?thesis by (auto simp: handle_input_def)
  next
    case (Follow_Fragment h)
    with inv_set_hash [OF inv np] show ?thesis by (simp add: handle_input_def)
  next
    case Network_Failure
    with inv show ?thesis
      by (auto simp: handle_input_def xhr_onerror_def set_location_href_def session_inv_def xhr_onloadend_def
          split: option.splits)
  qed (use False inv in \<open>auto simp: handle_input_def session_inv_def set_pages_cached_def
      enable_transition_cache_def ajax_success_trigger_def tl_frame\<close>)
qed

lemma inv_start: "session_inv (initialize_turbolinks (opened_page url doc))"
  by (simp add: initialize_turbolinks_def opened_page_def remember_current_state_def remember_current_url_def
      session_inv_def cache_wf_def replace_state_def history_state_of_def entry_ok_def)

lemma reachable_inv: "reachable e s \<Longrightarrow> session_inv s"
proof (induction rule: reachable.induct)
  case (start url doc)
  show ?case by (rule inv_start)
next
  case (step s s')
  from step(2) show ?case
    by (cases rule: session_step.cases) (metis inv_handle_input [OF step.IH] state_of.simps)+
qed

section \<open>Properties\<close>


text \<open>A concrete environment and session, to evaluate hypotheses on.\<close>

definition example_doc :: "nat \<Rightarrow> html_document" where
  "example_doc n =
     \<lparr>doc_title = Some (nat_to_string n), doc_body = example_body n, doc_csrf = None,
      doc_head = [Head_Element (Some []) (Some ''app.js'') None]\<rparr>"

definition example_env :: env where
  "example_env =
     \<lparr>env_resolve = example_resolve, env_create_document = (\<lambda>t. Some (example_doc (length t))),
      env_set_inner_html = (\<lambda>b h. b\<lparr>body_html := h\<rparr>), env_firefox = False,
      env_anchor_pos = (\<lambda>b h. None)\<rparr>"

definition example_response :: "string option \<Rightarrow> response" where
  "example_response ct = \<lparr>status = 200, content_type = ct, redirected_to = None, response_text = ''xx''\<rparr>"

definition example_start :: tl_state where
  "example_start = initialize_turbolinks (opened_page ''/a'' (example_doc 1))"

definition example_fetched :: tl_state where
  "example_fetched = state_of (handle_input example_env (Visit ''/b'' 1) example_start)"

lemma example_fetched_reachable: "reachable example_env example_fetched"
proof (rule reachable.step)
  show "reachable example_env example_start" unfolding example_start_def by (rule reachable.start)
  have "enabled (Visit ''/b'' 1) example_start"
    "handle_input example_env (Visit ''/b'' 1) example_start = Inr example_fetched" by code_simp+
  then show "session_step example_env example_start example_fetched" by (rule session_step.handled)
qed


text \<open>
  A load that is not followed by the Firefox work-around. The entry it adds, when the address is new.
\<close>

lemma load_page_history:
  assumes "\<not> env_firefox e"
  shows "hist_pos (load_page e x r doc s) = hist_pos (reflect_new_url (xhr_url x) s)"
    and "hist (load_page e x r doc s) = hist (reflect_redirected_url e r (remember_current_state (reflect_new_url (xhr_url x) s)))"
    and "current_state (load_page e x r doc s) = history_state_of (reflect_new_url (xhr_url x) s)"
    and "hash_change_pending (load_page e x r doc s) = hash_change_pending s"
proof -
  let ?c = "change_page (doc_title doc) (remove_noscript_tags e (doc_body doc)) (doc_csrf doc) True
              (reflect_new_url (xhr_url x) s)"
  have m: "manually_trigger_hash_change e ?c = ?c"
    using assms by (simp add: manually_trigger_hash_change_def Let_def)
  show "hist_pos (load_page e x r doc s) = hist_pos (reflect_new_url (xhr_url x) s)"
    "current_state (load_page e x r doc s) = history_state_of (reflect_new_url (xhr_url x) s)"
    "hash_change_pending (load_page e x r doc s) = hash_change_pending s"
    by (simp_all add: load_page_def Let_def m tl_frame)
  have "hist (reflect_redirected_url e r ?c) =
          hist (reflect_redirected_url e r (remember_current_state (reflect_new_url (xhr_url x) s)))"
    by (auto simp: reflect_redirected_url_def Let_def replace_state_def location_def location_hash_def
        remember_current_state_def tl_frame history_state_of_def split: option.splits list.splits)
  then show "hist (load_page e x r doc s) = hist (reflect_redirected_url e r (remember_current_state (reflect_new_url (xhr_url x) s)))"
    by (simp add: load_page_def Let_def m tl_frame)
qed

lemma nth_push [simp]:
  "hist_pos s < length (hist s) \<Longrightarrow> hist (push_state st u s) ! hist_pos (push_state st u s) = \<lparr>he_url = u, he_state = st\<rparr>"
  "hist_pos s < length (hist s) \<Longrightarrow> location (push_state st u s) = u"
  "hist_pos s < length (hist s) \<Longrightarrow> history_state_of (push_state st u s) = st"
  by (simp_all add: push_state_def location_def history_state_of_def nth_append)

lemma reflect_redirected_last:
  "hist t = xs @ [a] \<Longrightarrow> hist_pos t = length xs \<Longrightarrow> \<exists>b. hist (reflect_redirected_url e r t) = xs @ [b]"
  by (auto simp: reflect_redirected_url_def Let_def replace_state_def split: option.split list.split)

lemma load_pushes_entry:
  assumes "session_inv s" and "\<not> env_firefox e" and "referer s \<noteq> Some (absolute (xhr_url x))"
  shows "\<exists>entry. hist (load_page e x r doc s) = take (Suc (hist_pos s)) (hist s) @ [entry]"
proof -
  let ?s = "push_state (Some \<lparr>st_turbolinks = True, st_url = absolute (xhr_url x)\<rparr>) (absolute (xhr_url x)) s"
  let ?t = "remember_current_state ?s"
  have "reflect_new_url (xhr_url x) s = ?s" using assms(3) by (auto simp: reflect_new_url_def)
  then have h: "hist (load_page e x r doc s) = hist (reflect_redirected_url e r ?t)"
    by (simp add: load_page_history [OF assms(2)])
  have pos: "hist_pos s < length (hist s)" using assms(1) by (simp add: session_inv_def)
  have "hist ?t = take (Suc (hist_pos s)) (hist s) @
          [\<lparr>he_url = absolute (xhr_url x), he_state = Some \<lparr>st_turbolinks = True, st_url = absolute (xhr_url x)\<rparr>\<rparr>]"
    "hist_pos ?t = length (take (Suc (hist_pos s)) (hist s))"
    using pos by (simp_all add: remember_current_state_def push_state_def)
  then show ?thesis unfolding h by (rule reflect_redirected_last)
qed

text \<open>A page loaded from a new address adds one history entry after the current one and drops the
  entries that were ahead. The entry's state names the requested address, which is also the current state;
  its address is the requested one, or the one the server redirected to, with the requested fragment kept
  when that one has none. A page loaded from the address it was requested from adds no entry.\<close>

theorem load_adds_one_history_entry:
  assumes "session_inv s" and "\<not> env_firefox e"
  shows "let s' = load_page e x r doc s; u = xhr_url x; asked = absolute u;
             named = (\<lambda>t. new_component_url (env_resolve e) asked (Url_Text t));
             entry = \<lparr>he_url = (case redirected_to r of
                                   Some (c # cs) \<Rightarrow> href (named (c # cs)) @
                                     (if has_no_hash (named (c # cs)) then hash (named asked) else [])
                                 | _ \<Rightarrow> asked),
                      he_state = Some \<lparr>st_turbolinks = True, st_url = asked\<rparr>\<rparr>
         in if referer s \<noteq> Some asked
            then hist s' = take (Suc (hist_pos s)) (hist s) @ [entry] \<and> hist_pos s' = Suc (hist_pos s) \<and>
                 current_state s' = he_state entry
            else length (hist s') = length (hist s) \<and> hist_pos s' = hist_pos s"
proof (cases "referer s = Some (absolute (xhr_url x))")
  case True
  then show ?thesis
    by (simp add: Let_def load_page_history [OF assms(2)] reflect_new_url_def reflect_redirected_url_def
        remember_current_state_def replace_state_def split: option.split list.split)
next
  case False
  let ?st = "Some \<lparr>st_turbolinks = True, st_url = absolute (xhr_url x)\<rparr>"
  have n: "reflect_new_url (xhr_url x) s = push_state ?st (absolute (xhr_url x)) s"
    using False by (auto simp: reflect_new_url_def)
  have pos: "hist_pos s < length (hist s)" using assms(1) by (simp add: session_inv_def)
  have h: "hist (remember_current_state (push_state ?st (absolute (xhr_url x)) s)) =
      take (Suc (hist_pos s)) (hist s) @ [\<lparr>he_url = absolute (xhr_url x), he_state = ?st\<rparr>]"
    "hist_pos (remember_current_state (push_state ?st (absolute (xhr_url x)) s)) = Suc (hist_pos s)"
    "location (remember_current_state (push_state ?st (absolute (xhr_url x)) s)) = absolute (xhr_url x)"
    "current_state (remember_current_state (push_state ?st (absolute (xhr_url x)) s)) = ?st"
    using pos by (simp_all add: remember_current_state_def push_state_def location_def history_state_of_def nth_append)
  have len: "length (take (Suc (hist_pos s)) (hist s)) = Suc (hist_pos s)" using pos by simp
  have up: "(take (Suc (hist_pos s)) (hist s) @ [a])[Suc (hist_pos s) := b] = take (Suc (hist_pos s)) (hist s) @ [b]"
    for a b using len by (simp add: list_update_append)
  have pp: "hist_pos (push_state ?st (absolute (xhr_url x)) s) = Suc (hist_pos s)" by (simp add: push_state_def)
  show ?thesis
    using False
    by (simp add: Let_def load_page_history [OF assms(2)] n pos pp reflect_redirected_url_def h replace_state_def up
        location_hash_def new_component_url_missing split: option.split list.split)
qed

theorem load_adds_one_history_entry_witness:
  "hist_pos (load_page example_env (the (tl_xhr example_fetched)) (example_response None) (example_doc 2) example_fetched) = 1"
proof -
  have "session_inv example_fetched" by (rule reachable_inv [OF example_fetched_reachable])
  moreover have "\<not> env_firefox example_env" by (simp add: example_env_def)
  moreover have "referer example_fetched \<noteq> Some (absolute (xhr_url (the (tl_xhr example_fetched))))"
    "hist_pos example_fetched = 0" by code_simp+
  ultimately show ?thesis
    using load_adds_one_history_entry [of example_fetched example_env "the (tl_xhr example_fetched)"
        "example_response None" "example_doc 2"]
    by (simp add: Let_def)
qed

text \<open>The page just stored is found again, whatever else the cache held.\<close>

lemma cached_page_found:
  assumes "cache_wf c" and "0 < limit" and "\<forall>e \<in> set c. cached_at (snd e) < cached_at p"
  shows "cache_lookup (put_page limit k p c) k = Some p"
proof (rule turbolinks_store.put_newest [OF assms(1,2)])
  show "\<And>j q. cache_lookup c j = Some q \<Longrightarrow> cached_at q < cached_at p"
    using assms(3) by (auto simp: cache_lookup_def dest!: map_of_SomeD)
qed

text \<open>The restored page after \<open>fetchHistory\<close>.\<close>

lemma fetch_history_page:
  "d_title (fetch_history p s) = cp_title p" "d_body (fetch_history p s) = cp_body p"
  "scroll_x (fetch_history p s) = cp_position_x p" "scroll_y (fetch_history p s) = cp_position_y p"
  "current_state (fetch_history p s) = history_state_of s" "tl_xhr (fetch_history p s) = None"
  "hist (fetch_history p s) = hist s" "hist_pos (fetch_history p s) = hist_pos s"
  "tl_cache (fetch_history p s) = tl_cache s" "tl_cache_size (fetch_history p s) = tl_cache_size s"
  by (simp_all add: fetch_history_def Let_def tl_frame recall_scroll_position_def abort_xhr_def js_text_def
      history_state_of_def)

lemma popstate_cached:
  assumes "session_inv s" and "history_state_of s = Some \<lparr>st_turbolinks = True, st_url = u\<rparr>"
    and "cache_lookup (tl_cache s) (u_href (env_resolve e (location s) u)) = Some p"
  shows "\<exists>s'. popstate_handler e now s = Inr (fetch_history p s') \<and> hist s' = hist s \<and> hist_pos s' = hist_pos s"
proof -
  from inv_cache_current_page [OF assms(1), of e now] obtain s' where
    s': "cache_current_page e now s = Inr s'" "hist s' = hist s" "hist_pos s' = hist_pos s" by blast
  with assms(2,3) show ?thesis by (auto simp: popstate_handler_def and_then_def)
qed

text \<open>A visit without the transition cache: the page is stored and the request sent.\<close>

lemma visit_stores_page:
  assumes inv: "session_inv s" and off: "\<not> transition_cache_enabled s" and room: "0 < tl_cache_size s"
    and older: "\<forall>c \<in> set (tl_cache s). cached_at (snd c) < now"
    and st: "current_state s = Some \<lparr>st_turbolinks = True, st_url = st\<rparr>"
    and visit: "handle_input e (Visit url now) s = Inr s1"
  shows "cache_lookup (tl_cache s1) (u_href (env_resolve e (location s) st)) =
           Some (current_page (new_component_url (env_resolve e) (location s) (Url_Text st)) now s) \<and>
         hist s1 = hist s \<and> hist_pos s1 = hist_pos s \<and> hash_change_pending s1 = hash_change_pending s \<and>
         referer s1 = Some (location s) \<and> current_state s1 = current_state s \<and> cache_wf (tl_cache s1) \<and>
         (\<exists>xh. tl_xhr s1 = Some xh \<and> xhr_url xh = new_component_url (env_resolve e) (location s) (Url_Text url))"
proof -
  define key where "key = u_href (env_resolve e (location s) st)"
  define pg where "pg = current_page (new_component_url (env_resolve e) (location s) (Url_Text st)) now s"
  have "current_state (remember_referer s) = Some \<lparr>st_turbolinks = True, st_url = st\<rparr>"
    using st by (simp add: remember_referer_def)
  then obtain c evs where c: "cache_current_page e now (remember_referer s) =
      Inr ((remember_referer s)\<lparr>tl_cache := c, tl_events := tl_events (remember_referer s) @ evs\<rparr>)"
    "c = put_page (tl_cache_size s) key pg (tl_cache s)"
    by (rule cache_current_page_cases [where e = e and now = now])
      (auto simp: remember_referer_def location_def key_def pg_def current_page_def)
  have "s1 = fetch_replacement (new_component_url (env_resolve e) (location s) (Url_Text url)) True
      ((remember_referer s)\<lparr>tl_cache := c, tl_events := tl_events (remember_referer s) @ evs\<rparr>)"
    using visit off by (simp add: handle_input_def fetch_after_caching [OF c(1)] remember_referer_def)
  moreover have "cache_lookup c key = Some pg"
    unfolding c(2) by (rule cached_page_found) (use inv room older in \<open>auto simp: session_inv_def pg_def current_page_def\<close>)
  moreover have "cache_wf c" using inv c(2) turbolinks_store.put_wf by (simp add: session_inv_def)
  ultimately show ?thesis
    by (simp add: fetch_replacement_def Let_def tl_frame abort_xhr_def remember_referer_def key_def pg_def)
qed

text \<open>An accepted response.\<close>

lemma respond_loads:
  assumes "tl_xhr s1 = Some xh" and "accepted e r s1 doc" and "handle_input e (Respond r) s1 = Inr s2"
    and "session_inv s1"
  obtains t where "s2 = xhr_onloadend (load_page e xh r doc t)" "session_inv t" "hist t = hist s1"
    "hist_pos t = hist_pos s1" "tl_cache t = tl_cache s1" "referer t = referer s1"
    "hash_change_pending t = hash_change_pending s1"
proof -
  define t where "t = snd (assets_changed doc (trigger_event (Page_Receive (absolute (xhr_url xh))) s1))"
  have "xhr_onload e xh r s1 = Inr (load_page e xh r doc t)"
    using assms(2) process_response_accepted [of e r "trigger_event (Page_Receive (absolute (xhr_url xh))) s1" doc]
    by (simp add: xhr_onload_def t_def)
  with assms(1,3) have "s2 = xhr_onloadend (load_page e xh r doc t)" by (simp add: handle_input_def)
  then show ?thesis
    by (rule that) (use assms(4) in \<open>simp_all add: t_def assets_changed_def Let_def tl_frame session_inv_def\<close>)
qed

text \<open>C3. Going back restores what was left: after a visit to a new address and its page load, any scrolling
  there, and a step back in the history, the title, the body, the scroll position and the current state
  are those of the page at the time of the visit. (The transition cache is off, as it is unless it is
  enabled; the cache may hold at least one page, all stored before the visit.)\<close>

theorem back_restores_page:
  assumes inv: "session_inv s" and ready: "\<not> hash_change_pending s" and off: "\<not> transition_cache_enabled s"
    and nofx: "\<not> env_firefox e" and room: "0 < tl_cache_size s"
    and older: "\<forall>c \<in> set (tl_cache s). cached_at (snd c) < now"
    and shown: "history_state_of s = current_state s"
    and visit: "handle_input e (Visit url now) s = Inr s1"
    and new: "u_href (env_resolve e (location s) url) \<noteq> location s"
    and ok: "accepted e r s1 doc" and resp: "handle_input e (Respond r) s1 = Inr s2"
  shows "\<exists>s3. handle_input e (Traverse (hist_pos s) now') (state_of (handle_input e (User_Scroll x y) s2)) = Inr s3 \<and>
           d_body s2 = remove_noscript_tags e (doc_body doc) \<and>
           d_title s3 = d_title s \<and> d_body s3 = d_body s \<and> scroll_x s3 = scroll_x s \<and>
           scroll_y s3 = scroll_y s \<and> current_state s3 = current_state s \<and> location s3 = location s"
proof -
  from inv obtain st where st: "current_state s = Some \<lparr>st_turbolinks = True, st_url = st\<rparr>"
    and pos: "hist_pos s < length (hist s)" by (auto simp: session_inv_def)
  define pg where "pg = current_page (new_component_url (env_resolve e) (location s) (Url_Text st)) now s"
  from visit_stores_page [OF inv off room older st visit] obtain xh where
    v: "cache_lookup (tl_cache s1) (u_href (env_resolve e (location s) st)) = Some pg" "hist s1 = hist s"
      "hist_pos s1 = hist_pos s" "hash_change_pending s1 = hash_change_pending s" "referer s1 = Some (location s)"
    and xh: "tl_xhr s1 = Some xh" "xhr_url xh = new_component_url (env_resolve e) (location s) (Url_Text url)"
    unfolding pg_def by blast
  have "session_inv s1" using inv_fetch [OF inv ready, of e now url] visit by (auto simp: handle_input_def)
  from respond_loads [OF xh(1) ok resp this] obtain t where
    t: "s2 = xhr_onloadend (load_page e xh r doc t)" "session_inv t" "hist t = hist s" "hist_pos t = hist_pos s"
      "tl_cache t = tl_cache s1" "referer t = Some (location s)" "hash_change_pending t = hash_change_pending s"
    using v by metis
  have "absolute (xhr_url xh) \<noteq> location s" using new xh(2) by simp
  with load_pushes_entry [OF t(2) nofx, of xh r doc] t obtain entry where
    h2: "hist s2 = take (Suc (hist_pos s)) (hist s) @ [entry]" unfolding t(1) xhr_onloadend_def by auto
  define b where "b = s2\<lparr>scroll_x := x, scroll_y := y, hist_pos := hist_pos s\<rparr>"
  have "hist b ! hist_pos b = hist s ! hist_pos s" using pos by (simp add: b_def h2 nth_append)
  then have lb: "location b = location s" "history_state_of b = current_state s"
    using shown by (simp_all add: location_def history_state_of_def)
  have "session_inv s2" "\<not> hash_change_pending s2"
    using inv_load_page [OF t(2)] t(7) ready load_page_history(4) [OF nofx]
    by (simp_all add: t(1) inv_onloadend) (simp add: xhr_onloadend_def)
  then have "session_inv b" using pos h2 unfolding b_def session_inv_def by simp
  moreover have "tl_cache b = tl_cache s1" by (simp add: b_def t(1,5) xhr_onloadend_def load_page_document)
  ultimately obtain s' where
    p: "popstate_handler e now' b = Inr (fetch_history pg s')" "hist s' = hist b" "hist_pos s' = hist_pos b"
    using popstate_cached [of b st e pg now'] lb st v(1) by auto
  have hs: "history_state_of s' = current_state s" and loc: "location (fetch_history pg s') = location s"
    using p(2,3) lb by (simp_all add: history_state_of_def location_def fetch_history_page)
  have d: "d_body s2 = remove_noscript_tags e (doc_body doc)" by (simp add: t(1) xhr_onloadend_def load_page_document)
  have "(state_of (handle_input e (User_Scroll x y) s2))\<lparr>hist_pos := hist_pos s\<rparr> = b"
    by (simp add: handle_input_def b_def)
  with p(1) have "handle_input e (Traverse (hist_pos s) now') (state_of (handle_input e (User_Scroll x y) s2)) =
            Inr (fetch_history pg s')" by (simp add: handle_input_def)
  with hs loc d show ?thesis by (simp add: fetch_history_page pg_def current_page_def)
qed

theorem back_restores_page_witness:
  "\<exists>s3. handle_input example_env (Traverse 0 9)
          (state_of (handle_input example_env (User_Scroll 3 4)
            (state_of (handle_input example_env (Respond (example_response (Some ''text/html''))) example_fetched)))) =
        Inr s3 \<and> d_body s3 = example_body 1"
proof -
  let ?r = "example_response (Some ''text/html'')"
  let ?s2 = "state_of (handle_input example_env (Respond ?r) example_fetched)"
  have i: "session_inv example_start" unfolding example_start_def by (rule inv_start)
  have c: "\<not> hash_change_pending example_start" "\<not> transition_cache_enabled example_start"
    "\<not> env_firefox example_env" "0 < tl_cache_size example_start"
    "\<forall>c \<in> set (tl_cache example_start). cached_at (snd c) < 1"
    "history_state_of example_start = current_state example_start"
    "handle_input example_env (Visit ''/b'' 1) example_start = Inr example_fetched"
    "u_href (env_resolve example_env (location example_start) ''/b'') \<noteq> location example_start"
    by code_simp+
  have a: "accepted example_env ?r example_fetched (example_doc 2)"
    unfolding accepted_def
    by (intro conjI exI [of _ "''text/html''"]) code_simp+
  have r: "handle_input example_env (Respond ?r) example_fetched = Inr ?s2" by code_simp
  have "hist_pos example_start = 0" "d_body example_start = example_body 1" by code_simp+
  with back_restores_page [OF i c a r, of 9 3 4] show ?thesis by auto
qed

text \<open>With the transition cache enabled, a visit that shows a cached page at once keeps the previous
  page's state as the current state until the response arrives. If the user moves on before that, the
  transition page is stored under the address of the page before it, whose own copy it overwrites.\<close>

theorem transition_page_stored_under_old_address:
  assumes inv: "session_inv s" and ready: "\<not> hash_change_pending s" and on: "transition_cache_enabled s"
    and shown: "history_state_of s = current_state s"
    and st: "current_state s = Some \<lparr>st_turbolinks = True, st_url = st\<rparr>"
    and cached: "cache_current_page e now (remember_referer s) = Inr s0"
    and page: "transition_cache_for (tl_cache s0) (u_href (env_resolve e (location s) url)) = Some p"
    and size: "0 < tl_cache_size s" and older: "\<forall>c \<in> set (tl_cache s0). cached_at (snd c) < later"
  shows "\<exists>s1 s2 q. fetch e now url s = Inr s1 \<and> d_body s1 = cp_body p \<and>
           cache_current_page e later s1 = Inr s2 \<and>
           cache_lookup (tl_cache s2) (u_href (env_resolve e (location s) st)) = Some q \<and>
           cp_body q = cp_body p \<and> cp_title q = cp_title p"
proof -
  have "current_state (remember_referer s) = Some \<lparr>st_turbolinks = True, st_url = st\<rparr>"
    using st by (simp add: remember_referer_def)
  then obtain c evs where "cache_current_page e now (remember_referer s) =
      Inr ((remember_referer s)\<lparr>tl_cache := c, tl_events := tl_events (remember_referer s) @ evs\<rparr>)"
    and "c = put_page (tl_cache_size (remember_referer s)) (u_href (env_resolve e (location (remember_referer s)) st))
      (current_page (new_component_url (env_resolve e) (location (remember_referer s)) (Url_Text st)) now
        (remember_referer s)) (tl_cache (remember_referer s))"
    by (rule cache_current_page_cases [where e = e and now = now]) simp
  with cached inv have s0: "hist s0 = hist s" "hist_pos s0 = hist_pos s" "tl_cache_size s0 = tl_cache_size s"
    "transition_cache_enabled s0" "cache_wf (tl_cache s0)"
    using on turbolinks_store.put_wf by (auto simp: remember_referer_def session_inv_def)
  define u where "u = new_component_url (env_resolve e) (location s) (Url_Text url)"
  define s1 where "s1 = fetch_replacement u False (fetch_history p s0)"
  have f: "fetch e now url s = Inr s1"
    using page s0 by (simp add: fetch_after_caching [OF cached] s1_def u_def)
  have hs0: "history_state_of s0 = current_state s" using s0 shown by (simp add: history_state_of_def)
  have s1: "d_body s1 = cp_body p" "d_title s1 = cp_title p" "tl_cache s1 = tl_cache s0"
    "tl_cache_size s1 = tl_cache_size s" "current_state s1 = Some \<lparr>st_turbolinks = True, st_url = st\<rparr>"
    "location s1 = location s"
    using s0 hs0 st by (simp_all add: s1_def fetch_replacement_def Let_def abort_xhr_def tl_frame
        fetch_history_page location_def)
  obtain c2 evs2 where c2: "cache_current_page e later s1 = Inr (s1\<lparr>tl_cache := c2, tl_events := tl_events s1 @ evs2\<rparr>)"
    "c2 = put_page (tl_cache_size s1) (u_href (env_resolve e (location s1) st))
      (current_page (new_component_url (env_resolve e) (location s1) (Url_Text st)) later s1) (tl_cache s1)"
    by (rule cache_current_page_cases [OF s1(5), where e = e and now = later]) simp
  have "cache_lookup c2 (u_href (env_resolve e (location s) st)) =
      Some (current_page (new_component_url (env_resolve e) (location s1) (Url_Text st)) later s1)"
    unfolding c2(2) s1(6) by (rule cached_page_found) (use s0 s1 size older in \<open>auto simp: current_page_def\<close>)
  with f c2(1) s1 show ?thesis by (auto simp: current_page_def)
qed

definition example_second_page :: tl_state where
  "example_second_page =
     \<lparr>tl_cache = [(''/a'', example_cached 1)], tl_cache_size = 10, transition_cache_enabled = True,
      current_state = Some \<lparr>st_turbolinks = True, st_url = ''/b''\<rparr>, loaded_assets = None, referer = None,
      tl_xhr = None, d_title = [], d_body = example_body 2, d_csrf = None, d_head = [],
      hist = [\<lparr>he_url = ''/a'', he_state = Some \<lparr>st_turbolinks = True, st_url = ''/a''\<rparr>\<rparr>,
              \<lparr>he_url = ''/b'', he_state = Some \<lparr>st_turbolinks = True, st_url = ''/b''\<rparr>\<rparr>],
      hist_pos = 1, hash_change_pending = False, scroll_x = 0, scroll_y = 0, active_element = None,
      leaving = None, tl_events = []\<rparr>"

theorem transition_page_stored_under_old_address_witness:
  "\<exists>s1 s2 q. fetch example_env 5 ''/a'' example_second_page = Inr s1 \<and>
     cache_current_page example_env 6 s1 = Inr s2 \<and>
     cache_lookup (tl_cache s2) ''/b'' = Some q \<and> cp_body q = example_body 1"
proof -
  let ?s0 = "state_of (cache_current_page example_env 5 (remember_referer example_second_page))"
  let ?p = "the (cache_lookup (tl_cache ?s0) ''/a'')"
  have i: "session_inv example_second_page"
    by (auto simp: session_inv_def example_second_page_def entry_ok_def cache_wf_def less_Suc_eq)
  have c: "\<not> hash_change_pending example_second_page" "transition_cache_enabled example_second_page"
    "history_state_of example_second_page = current_state example_second_page"
    "current_state example_second_page = Some \<lparr>st_turbolinks = True, st_url = ''/b''\<rparr>"
    "cache_current_page example_env 5 (remember_referer example_second_page) = Inr ?s0"
    "transition_cache_for (tl_cache ?s0) (u_href (env_resolve example_env (location example_second_page) ''/a'')) = Some ?p"
    "0 < tl_cache_size example_second_page"
    "\<forall>c \<in> set (tl_cache ?s0). cached_at (snd c) < 6"
    by code_simp+
  have k: "u_href (env_resolve example_env (location example_second_page) ''/b'') = ''/b''"
    "cp_body ?p = example_body 1" by code_simp+
  from transition_page_stored_under_old_address [OF i c] k show ?thesis by auto
qed

end
