(* ===== verification/Associations.thy ===== *)
theory Associations
  imports Prelude
begin

text \<open>
  The handlers of \<open>remove_association.js\<close>, \<open>add_association.js\<close>, \<open>pagination.js\<close> and
  \<open>add_education.js\<close> under \<open>app/assets/javascripts\<close>. A table of associations (incomes, debts, ...) is a
  list of \<open>tbody\<close> rows in document order; each has a title such as \<open>Income 3\<close>, its visibility and the
  values of its hidden inputs. The lemmas show that removing a row keeps the visible titles numbered
  \<open>1, 2, ..., n\<close> and marks that row, and no other, for destruction. The Ajax handlers are steps that
  append to the list of requests the page has sent.
\<close>

section \<open>Removing an association\<close>

record assoc_row =
  row_title :: string
  row_visible :: bool
  hidden_values :: "string list"

text \<open>
  The body of \<open>$("tbody").each(...)\<close>: a title whose number is greater than the removed one is written
  back with the number replaced by its predecessor. \<open>title_num.toString()\<close> is the canonical numeral.
\<close>

definition renumber_title :: "js_num \<Rightarrow> string \<Rightarrow> string" where
  "renumber_title title_remove_num str =
     (case parse_int_match (match_digits str) of
        NaN \<Rightarrow> str
      | Num title_num \<Rightarrow>
          if js_greater (Num title_num) title_remove_num
          then replace_first (int_to_string title_num) (int_to_string (title_num - 1)) str
          else str)"

text \<open>
  The click handler. \<open>tb\<close> is the index of \<open>$(this).closest("tbody")\<close>; for a link outside every \<open>tbody\<close>
  the collection is empty (\<^const>\<open>None\<close>), its text is the empty string and nothing is renumbered. The
  result is paired with the \<open>false\<close> the handler returns, which cancels the default action.
\<close>

definition remove_association_click :: "nat option \<Rightarrow> assoc_row list \<Rightarrow> assoc_row list \<times> bool" where
  "remove_association_click tb rows =
     (let rows1 = (case tb of None \<Rightarrow> rows
                   | Some k \<Rightarrow> update_nth k (\<lambda>r. r\<lparr>row_visible := False,
                                  hidden_values := map (\<lambda>_. ''true'') (hidden_values r)\<rparr>) rows);
          text = (case tb of None \<Rightarrow> [] | Some k \<Rightarrow> if k < length rows1 then row_title (rows1 ! k) else []);
          title_remove_num = parse_int_match (match_digits text)
      in (map (\<lambda>r. r\<lparr>row_title := renumber_title title_remove_num (row_title r)\<rparr>) rows1, False))"

section \<open>Ajax links and forms\<close>

record request =
  req_method :: string
  req_url :: string
  req_data :: "string option"
  req_data_type :: string

definition get_script :: "string \<Rightarrow> request" where
  "get_script href =
     \<lparr>req_method = ''GET'', req_url = href, req_data = None, req_data_type = ''script''\<rparr>"

record ajax_page =
  pagination_html :: "string list"
  sent :: "request list"
  alerts :: "string list"
  console :: "string list"

definition add_association_click :: "string \<Rightarrow> ajax_page \<Rightarrow> ajax_page \<times> bool" where
  "add_association_click href pg = (pg\<lparr>sent := sent pg @ [get_script href]\<rparr>, False)"

definition pagination_click :: "string \<Rightarrow> ajax_page \<Rightarrow> ajax_page \<times> bool" where
  "pagination_click href pg =
     (let pg1 = pg\<lparr>pagination_html := map (\<lambda>_. ''Page is loading...'') (pagination_html pg)\<rparr>
      in (pg1\<lparr>sent := sent pg1 @ [get_script href]\<rparr>, False))"

text \<open>
  \<open>jQuery.fn.submitWithAjax\<close>: the form's serialisation and its action attribute are inputs; the success
  callback receives the parsed reply, whose \<open>JSON.stringify\<close> is the parameter \<open>json\<close>.
\<close>

definition submit_with_ajax :: "string \<Rightarrow> string \<Rightarrow> ajax_page \<Rightarrow> ajax_page \<times> bool" where
  "submit_with_ajax action values pg =
     (pg\<lparr>sent := sent pg @ [\<lparr>req_method = ''POST'', req_url = action, req_data = Some values,
                             req_data_type = ''JSON''\<rparr>]\<rparr>, False)"

definition submit_with_ajax_success :: "string \<Rightarrow> ajax_page \<Rightarrow> ajax_page" where
  "submit_with_ajax_success json pg =
     pg\<lparr>alerts := alerts pg @ [json], console := console pg @ [''success'', json]\<rparr>"

section \<open>Numbered titles\<close>

definition row_number :: "assoc_row \<Rightarrow> nat option" where
  "row_number r = map_option digits_to_nat (match_digits (row_title r))"

text \<open>
  The views write \<open>Income #{index + 1}\<close>: the number, if there is one, is a canonical numeral (no leading
  zero), since it was printed from an integer.
\<close>

definition canonical_title :: "string \<Rightarrow> bool" where
  "canonical_title t \<longleftrightarrow>
     (case match_digits t of None \<Rightarrow> True | Some d \<Rightarrow> d = nat_to_string (digits_to_nat d))"

definition visible_numbers :: "assoc_row list \<Rightarrow> nat list" where
  "visible_numbers rows =
     concat (map (\<lambda>r. if row_visible r then (case row_number r of None \<Rightarrow> [] | Some n \<Rightarrow> [n]) else []) rows)"

lemma visible_numbers_simps [simp]:
  "visible_numbers [] = []"
  "visible_numbers (r # rows) =
     (if row_visible r then (case row_number r of None \<Rightarrow> [] | Some n \<Rightarrow> [n]) else []) @ visible_numbers rows"
  "visible_numbers (xs @ ys) = visible_numbers xs @ visible_numbers ys"
  by (simp_all add: visible_numbers_def)

text \<open>A title splits into the text before its number, the number, and a rest that starts with no digit.\<close>

lemma match_digits_split:
  assumes "match_digits t = Some d"
  shows "\<exists>u v. t = u @ d @ v \<and> list_all (\<lambda>c. \<not> is_digit c) u \<and> list_all is_digit d \<and> d \<noteq> []
           \<and> (v = [] \<or> \<not> is_digit (hd v))"
proof -
  let ?u = "takeWhile (\<lambda>c. \<not> is_digit c) t"
  let ?w = "dropWhile (\<lambda>c. \<not> is_digit c) t"
  let ?v = "dropWhile is_digit ?w"
  from assms have d: "d = takeWhile is_digit ?w" and "d \<noteq> []"
    by (auto simp: match_digits_def Let_def split: if_splits)
  moreover have "t = ?u @ d @ ?v" using d by simp
  moreover have "list_all (\<lambda>c. \<not> is_digit c) ?u" "list_all is_digit d"
    unfolding d list_all_iff by (auto dest: set_takeWhileD)
  moreover have "?v = [] \<or> \<not> is_digit (hd ?v)" using hd_dropWhile by blast
  ultimately show ?thesis by blast
qed

lemma match_digits_numeral:
  assumes "list_all (\<lambda>c. \<not> is_digit c) u" and "v = [] \<or> \<not> is_digit (hd v)"
  shows "match_digits (u @ nat_to_string n @ v) = Some (nat_to_string n)"
proof -
  have "dropWhile (\<lambda>c. \<not> is_digit c) (u @ nat_to_string n @ v)
      = dropWhile (\<lambda>c. \<not> is_digit c) (nat_to_string n @ v)"
    using assms(1) by (simp add: list_all_iff dropWhile_append2)
  also have "\<dots> = nat_to_string n @ v"
    using nat_to_string_digits [of n] nat_to_string_neq_Nil [of n]
    by (cases "nat_to_string n") auto
  finally show ?thesis
    using takeWhile_numeral [OF assms(2), of n] by (simp add: match_digits_def)
qed

lemma int_to_string_nat: "int_to_string (int n) = nat_to_string n"
  by (simp add: int_to_string_def)

lemma renumber_title_number:
  assumes "canonical_title t" and "map_option digits_to_nat (match_digits t) = Some n"
  shows "map_option digits_to_nat (match_digits (renumber_title (Num (int r)) t))
           = Some (if n > r then n - 1 else n)"
    and "canonical_title (renumber_title (Num (int r)) t)"
proof -
  from assms obtain d where d: "match_digits t = Some d" "digits_to_nat d = n" by auto
  with assms(1) have dn: "d = nat_to_string n" by (simp add: canonical_title_def)
  from match_digits_split [OF d(1)] dn obtain u v where t: "t = u @ nat_to_string n @ v"
    and u: "list_all (\<lambda>c. \<not> is_digit c) u" and v: "v = [] \<or> \<not> is_digit (hd v)" by blast
  have ren: "renumber_title (Num (int r)) t = u @ nat_to_string (if n > r then n - 1 else n) @ v"
  proof (cases "n > r")
    case True
    then have "int n - 1 = int (n - 1)" by simp
    with True d dn show ?thesis
      by (simp add: renumber_title_def parse_int_match_def int_to_string_nat t
          replace_first_skip [OF _ _ u] del: of_nat_diff)
  next
    case False
    with d t show ?thesis by (simp add: renumber_title_def parse_int_match_def)
  qed
  show "map_option digits_to_nat (match_digits (renumber_title (Num (int r)) t))
           = Some (if n > r then n - 1 else n)"
    unfolding ren match_digits_numeral [OF u v] by simp
  show "canonical_title (renumber_title (Num (int r)) t)"
    unfolding canonical_title_def ren match_digits_numeral [OF u v] by simp
qed

lemma renumber_title_none:
  "match_digits t = None \<Longrightarrow> renumber_title r t = t"
  by (simp add: renumber_title_def parse_int_match_def)

section \<open>Renumbering a table\<close>

definition renumber_row :: "js_num \<Rightarrow> assoc_row \<Rightarrow> assoc_row" where
  "renumber_row x r = r\<lparr>row_title := renumber_title x (row_title r)\<rparr>"

lemma renumber_row_fields [simp]:
  "row_visible (renumber_row x r) = row_visible r"
  "hidden_values (renumber_row x r) = hidden_values r"
  "row_title (renumber_row x r) = renumber_title x (row_title r)"
  by (simp_all add: renumber_row_def)

lemma row_number_renumber:
  assumes "canonical_title (row_title r)"
  shows "row_number (renumber_row (Num (int m)) r) = map_option (\<lambda>n. if n > m then n - 1 else n) (row_number r)"
proof (cases "row_number r")
  case None
  then show ?thesis by (simp add: row_number_def renumber_title_none)
next
  case (Some n)
  then have "map_option digits_to_nat (match_digits (row_title r)) = Some n"
    by (simp only: row_number_def)
  from renumber_title_number(1) [OF assms this] Some show ?thesis
    by (simp only: row_number_def renumber_row_fields option.map)
qed

lemma visible_numbers_renumber:
  assumes "\<forall>r \<in> set rows. canonical_title (row_title r)"
  shows "visible_numbers (map (renumber_row (Num (int m))) rows)
           = map (\<lambda>n. if n > m then n - 1 else n) (visible_numbers rows)"
  using assms by (induction rows) (auto simp: row_number_renumber split: option.split)

text \<open>The arithmetic: taking \<open>m\<close> out of \<open>1, ..., n\<close> and closing the gap gives \<open>1, ..., n - 1\<close>.\<close>

lemma upt_split_at:
  assumes "us @ [m] @ vs = [a..<b]"
  shows "us = [a..<m] \<and> vs = [Suc m..<b] \<and> a \<le> m \<and> m < b"
  using assms
proof (induction us arbitrary: a)
  case Nil
  then show ?case by (cases "a < b") (auto simp: upt_rec [of a b] split: if_splits)
next
  case (Cons x us)
  then have ab: "a < b" "x = a" "us @ [m] @ vs = [Suc a..<b]"
    by (auto simp: upt_rec [of a b] split: if_splits)
  from Cons.IH [OF ab(3)] ab(1,2) show ?case
    by (auto simp: upt_conv_Cons)
qed

lemma close_gap:
  assumes "us @ [m] @ vs = [1..<Suc n]"
  shows "map (\<lambda>k. if k > m then k - 1 else k) (us @ vs) = [1..<n]"
proof -
  from upt_split_at [OF assms] have us: "us = [1..<m]" and vs: "vs = [Suc m..<Suc n]" and m: "1 \<le> m" "m < Suc n"
    by auto
  have "map (\<lambda>k. if k > m then k - 1 else k) us = [1..<m]"
    unfolding us by (intro nth_equalityI) auto
  moreover have "map (\<lambda>k. if k > m then k - 1 else k) vs = [m..<n]"
    unfolding vs using m by (intro nth_equalityI) (auto simp del: upt_Suc)
  moreover have "[1..<n] = [1..<m] @ [m..<n]"
    using m upt_add_eq_append [of 1 m "n - m"] by simp
  ultimately show ?thesis by simp
qed

definition mark_removed :: "assoc_row \<Rightarrow> assoc_row" where
  "mark_removed r = r\<lparr>row_visible := False, hidden_values := map (\<lambda>_. ''true'') (hidden_values r)\<rparr>"

lemma mark_removed_fields [simp]:
  "row_visible (mark_removed r) = False"
  "hidden_values (mark_removed r) = map (\<lambda>_. ''true'') (hidden_values r)"
  "row_title (mark_removed r) = row_title r"
  "row_number (mark_removed r) = row_number r"
  by (simp_all add: mark_removed_def row_number_def)

lemma remove_association_click_rows:
  assumes "k < length rows"
  shows "fst (remove_association_click (Some k) rows) =
           map (renumber_row (parse_int_match (match_digits (row_title (rows ! k)))))
             (rows[k := mark_removed (rows ! k)])"
  using assms
  by (simp add: remove_association_click_def Let_def update_nth_def renumber_row_def mark_removed_def)

lemma remove_association_click_number:
  assumes "k < length rows" and "row_number (rows ! k) = Some m"
  shows "fst (remove_association_click (Some k) rows) =
           map (renumber_row (Num (int m))) (take k rows @ mark_removed (rows ! k) # drop (Suc k) rows)"
proof -
  from assms(2) have "parse_int_match (match_digits (row_title (rows ! k))) = Num (int m)"
    by (auto simp: row_number_def parse_int_match_def)
  with assms(1) show ?thesis
    by (simp add: remove_association_click_rows upd_conv_take_nth_drop)
qed

section \<open>Properties\<close>

text \<open>C7. If the visible titles of a table are numbered 1 to n in order, then after the user removes a
  visible numbered row the remaining visible titles are numbered 1 to n - 1 in order, and titles stay
  canonical, so the next removal finds the same situation.\<close>

theorem remove_keeps_numbering:
  assumes "k < length rows" and "row_visible (rows ! k)" and "row_number (rows ! k) = Some m"
    and "\<forall>r \<in> set rows. canonical_title (row_title r)"
    and "visible_numbers rows = [1..<Suc n]"
  shows "visible_numbers (fst (remove_association_click (Some k) rows)) = [1..<n] \<and>
         (\<forall>r \<in> set (fst (remove_association_click (Some k) rows)). canonical_title (row_title r))"
proof
  let ?xs = "take k rows" and ?ys = "drop (Suc k) rows"
  have rows: "rows = ?xs @ rows ! k # ?ys" using assms(1) by (rule id_take_nth_drop)
  have canon: "\<forall>r \<in> set ?xs. canonical_title (row_title r)" "\<forall>r \<in> set ?ys. canonical_title (row_title r)"
    using assms(4) by (auto dest: in_set_takeD in_set_dropD)
  have "visible_numbers ?xs @ [m] @ visible_numbers ?ys = [1..<Suc n]"
    using assms(2,3,5) by (subst (asm) rows) (simp del: upt_Suc)
  from close_gap [OF this] show "visible_numbers (fst (remove_association_click (Some k) rows)) = [1..<n]"
    by (simp add: remove_association_click_number [OF assms(1,3)] visible_numbers_renumber canon)
  show "\<forall>r \<in> set (fst (remove_association_click (Some k) rows)). canonical_title (row_title r)"
  proof -
    have "\<And>r. canonical_title (row_title r) \<Longrightarrow> canonical_title (row_title (renumber_row (Num (int m)) r))"
      subgoal for r
        by (cases "match_digits (row_title r)")
          (auto simp: renumber_title_none intro: renumber_title_number(2))
      done
    then show ?thesis
      using canon assms(1,4) by (auto simp: remove_association_click_number [OF assms(1,3)])
  qed
qed

definition example_rows :: "assoc_row list" where
  "example_rows =
     [\<lparr>row_title = [], row_visible = True, hidden_values = []\<rparr>,
      \<lparr>row_title = ''Income 1'', row_visible = True, hidden_values = [''false'']\<rparr>,
      \<lparr>row_title = ''Income 2'', row_visible = True, hidden_values = [''false'']\<rparr>,
      \<lparr>row_title = ''Income 2'', row_visible = False, hidden_values = [''true'']\<rparr>,
      \<lparr>row_title = ''Income 3'', row_visible = True, hidden_values = [''false'']\<rparr>]"

theorem remove_keeps_numbering_witness:
  "visible_numbers example_rows = [1, 2, 3] \<and>
   visible_numbers (fst (remove_association_click (Some 1) example_rows)) = [1, 2]"
proof -
  have l: "1 < length example_rows" and vis: "row_visible (example_rows ! 1)"
    and num: "row_number (example_rows ! 1) = Some 1"
    and canon: "\<forall>r \<in> set example_rows. canonical_title (row_title r)"
    and v: "visible_numbers example_rows = [1..<Suc 3]"
    by code_simp+
  from remove_keeps_numbering [OF l vis num canon v] have
    "visible_numbers (fst (remove_association_click (Some 1) example_rows)) = [1..<3]" by blast
  with v show ?thesis by (simp add: upt_conv_Cons)
qed

text \<open>A removal marks the clicked row, and only it: that row is hidden and all its hidden inputs become
  \<open>true\<close>, every other row keeps its visibility and its hidden inputs, no row is added or dropped, and the
  link's default action is cancelled.\<close>

theorem remove_marks_only_clicked_row:
  assumes "k < length rows"
  shows "let (rows', follow) = remove_association_click (Some k) rows in
           \<not> follow \<and> length rows' = length rows \<and>
           \<not> row_visible (rows' ! k) \<and>
           hidden_values (rows' ! k) = map (\<lambda>_. ''true'') (hidden_values (rows ! k)) \<and>
           (\<forall>j < length rows. j \<noteq> k \<longrightarrow> row_visible (rows' ! j) = row_visible (rows ! j) \<and>
                                       hidden_values (rows' ! j) = hidden_values (rows ! j))"
proof -
  have "snd (remove_association_click (Some k) rows) = False"
    by (simp add: remove_association_click_def Let_def)
  then have "remove_association_click (Some k) rows =
      (map (renumber_row (parse_int_match (match_digits (row_title (rows ! k)))))
         (rows[k := mark_removed (rows ! k)]), False)"
    using remove_association_click_rows [OF assms] by (metis prod.collapse)
  with assms show ?thesis by simp
qed

theorem remove_marks_only_clicked_row_witness:
  "\<not> row_visible (fst (remove_association_click (Some 4) example_rows) ! 4) \<and>
   hidden_values (fst (remove_association_click (Some 4) example_rows) ! 4) = [''true''] \<and>
   row_visible (fst (remove_association_click (Some 4) example_rows) ! 1)"
proof -
  have l: "4 < length example_rows" and l1: "length example_rows = 5"
    and h: "hidden_values (example_rows ! 4) = [''false'']" and v: "row_visible (example_rows ! 1)"
    by code_simp+
  from remove_marks_only_clicked_row [OF l] l1 h v show ?thesis
    by (auto simp: Let_def split: prod.splits)
qed

end
