(* ===== verification/Protection_Plans.thy ===== *)
theory Protection_Plans
  imports Prelude
begin

text \<open>
  The life-insurance questionnaire of \<open>app/assets/javascripts/protection_plans.js\<close>: the handlers that
  \<open>ready\<close> binds, over the part of the page they read and write. A page is a record: the boxes of
  \<open>.check_life\<close>, the images of \<open>.drop-down\<close>, the sibling \<open>div\<close>s of the question wizard (each with its
  radio group), and the visibility of \<open>#start\<close>, \<open>#question\<close> and \<open>#explanation\<close>. The lemmas relate the
  scoring loop of \<open>#submit\<close> to a table of matches, the recommendation to the best plans of that table,
  and describe what the wizard buttons and the reset do to the page.
\<close>

section \<open>Loose equality with a number\<close>

text \<open>
  \<open>a == n\<close> where \<open>a\<close> is what \<open>.val()\<close> returned: \<open>null\<close> and \<open>undefined\<close> (both \<^const>\<open>None\<close> here) equal no
  number, a string is converted first. The conversion covers the empty string and digit strings, the
  forms a radio value of the questionnaire takes; every other string is \<open>NaN\<close>.
\<close>

definition string_to_number :: "string \<Rightarrow> js_num" where
  "string_to_number s =
     (let t = js_trim s
      in if t = [] then Num 0
         else if list_all is_digit t then Num (int (digits_to_nat t)) else NaN)"

definition loose_eq :: "string option \<Rightarrow> int \<Rightarrow> bool" where
  "loose_eq a n = (case a of None \<Rightarrow> False | Some s \<Rightarrow> string_to_number s = Num n)"

lemma loose_eq_None [simp]: "\<not> loose_eq None n"
  by (simp add: loose_eq_def)

lemma loose_eq_if [simp]: "loose_eq (if b then a else None) n \<longleftrightarrow> b \<and> loose_eq a n"
  by simp

lemma loose_eq_unique: "loose_eq a m \<Longrightarrow> loose_eq a n \<Longrightarrow> m = n"
  by (auto simp: loose_eq_def split: option.splits)

section \<open>The page\<close>

record panel =
  panel_id :: string
  is_question :: bool
  panel_shown :: bool
  radio_name :: string
  radio_values :: "string list"
  radio_checked :: "nat option"

record plan_page =
  check_all_life :: bool
  check_life :: "bool list"
  drop_down_src :: "string list"
  panels :: "panel list"
  start_shown :: bool
  question_shown :: bool
  explanation_shown :: bool
  explanation_html :: string

text \<open>
  \<open>find("input[value=v]").prop("checked", ...)\<close> inside a panel: the last matching button of a radio group
  ends up checked, and checking it clears the others.
\<close>

definition check_value :: "string \<Rightarrow> panel \<Rightarrow> panel" where
  "check_value v p =
     (case filter (\<lambda>i. radio_values p ! i = v) [0..<length (radio_values p)] of
        [] \<Rightarrow> p | is \<Rightarrow> p\<lparr>radio_checked := Some (last is)\<rparr>)"

text \<open>\<open>$("[name=q]:checked").val()\<close>: the value of the first checked button of that name, if any.\<close>

definition panel_answer :: "panel \<Rightarrow> string option" where
  "panel_answer p =
     (case radio_checked p of None \<Rightarrow> None
      | Some i \<Rightarrow> if i < length (radio_values p) then Some (radio_values p ! i) else None)"

definition checked_val :: "plan_page \<Rightarrow> string \<Rightarrow> string option" where
  "checked_val pg q =
     (case filter (\<lambda>p. radio_name p = q \<and> panel_answer p \<noteq> None) (panels pg) of
        [] \<Rightarrow> None | p # _ \<Rightarrow> panel_answer p)"

section \<open>Check boxes, drop-downs and the wizard buttons\<close>

definition check_all_click :: "bool \<Rightarrow> plan_page \<Rightarrow> plan_page" where
  "check_all_click c pg =
     (if c then pg\<lparr>check_all_life := c, check_life := map (\<lambda>_. True) (check_life pg)\<rparr>
      else pg\<lparr>check_all_life := c, check_life := map (\<lambda>_. False) (check_life pg)\<rparr>)"

definition chevron_up :: string where
  "chevron_up = ''/assets/glyphicons-601-chevron-up.png''"

definition chevron_down :: string where
  "chevron_down = ''/assets/glyphicons-602-chevron-down.png''"

definition flip_chevron :: "string \<Rightarrow> string" where
  "flip_chevron src = (if src = chevron_up then chevron_down else chevron_up)"

definition drop_down_click :: "nat \<Rightarrow> plan_page \<Rightarrow> plan_page" where
  "drop_down_click i pg = pg\<lparr>drop_down_src := update_nth i flip_chevron (drop_down_src pg)\<rparr>"

text \<open>
  The button sits in the panel with index \<open>i\<close>. \<open>.next()\<close> and \<open>.prev()\<close> of the outermost panels are empty
  collections, on which \<open>.show()\<close> does nothing.
\<close>

definition next_click :: "nat \<Rightarrow> plan_page \<Rightarrow> plan_page" where
  "next_click i pg =
     pg\<lparr>panels := update_nth (Suc i) (panel_shown_update (\<lambda>_. True))
                    (update_nth i (panel_shown_update (\<lambda>_. False)) (panels pg))\<rparr>"

definition previous_click :: "nat \<Rightarrow> plan_page \<Rightarrow> plan_page" where
  "previous_click i pg =
     (let hidden = update_nth i (panel_shown_update (\<lambda>_. False)) (panels pg)
      in pg\<lparr>panels := (case i of 0 \<Rightarrow> hidden
                        | Suc j \<Rightarrow> update_nth j (panel_shown_update (\<lambda>_. True)) hidden)\<rparr>)"

definition start_click :: "plan_page \<Rightarrow> plan_page" where
  "start_click pg = pg\<lparr>explanation_shown := False, question_shown := True, start_shown := False\<rparr>"

section \<open>Scoring: the loop of the submit handler\<close>

record tally =
  w_life :: nat
  v_life :: nat
  vu_life :: nat
  u_life :: nat
  ui_life :: nat
  t_life :: nat

definition no_tally :: tally where
  "no_tally = \<lparr>w_life = 0, v_life = 0, vu_life = 0, u_life = 0, ui_life = 0, t_life = 0\<rparr>"

text \<open>
  One round of \<open>for(i=0;i<5;i++)\<close>: all five answers are reset to \<open>null\<close>, the one of question \<open>i + 1\<close> is
  read, and the five conditions are tested.
\<close>

definition add_if :: "bool \<Rightarrow> (tally \<Rightarrow> tally) \<Rightarrow> tally \<Rightarrow> tally" where
  "add_if c upd s = (if c then upd s else s)"

definition tally_step :: "(nat \<Rightarrow> string option) \<Rightarrow> nat \<Rightarrow> tally \<Rightarrow> tally" where
  "tally_step ans i s =
     (let a1 = (if i = 0 then ans 1 else None);
          a2 = (if i = 1 then ans 2 else None);
          a3 = (if i = 2 then ans 3 else None);
          a4 = (if i = 3 then ans 4 else None);
          a5 = (if i = 4 then ans 5 else None);
          s1 = add_if (loose_eq a1 3 \<or> loose_eq a2 1 \<or> loose_eq a3 1 \<or> loose_eq a4 1 \<or> loose_eq a5 3)
                 (w_life_update Suc) s;
          s2 = add_if (loose_eq a1 1 \<or> loose_eq a2 1 \<or> loose_eq a3 2 \<or> loose_eq a4 2 \<or> loose_eq a5 1)
                 (v_life_update Suc) s1;
          s3 = add_if (loose_eq a1 1 \<or> loose_eq a2 2 \<or> loose_eq a3 2 \<or> loose_eq a4 2 \<or> loose_eq a5 1)
                 (vu_life_update Suc) s2;
          s4 = add_if (loose_eq a1 3 \<or> loose_eq a2 2 \<or> loose_eq a3 1 \<or> loose_eq a4 3 \<or> loose_eq a5 2)
                 (\<lambda>t. ui_life_update Suc (u_life_update Suc t)) s3
      in add_if (loose_eq a1 2 \<or> loose_eq a2 2 \<or> loose_eq a3 3 \<or> loose_eq a4 4 \<or> loose_eq a5 3)
           (t_life_update Suc) s4)"

definition tally_answers :: "(nat \<Rightarrow> string option) \<Rightarrow> tally" where
  "tally_answers ans = fold (tally_step ans) [0..<5] no_tally"

section \<open>The recommendation\<close>

record plan =
  plan_name :: string
  plan_value :: nat

definition plan_table :: "tally \<Rightarrow> plan list" where
  "plan_table s =
     [\<lparr>plan_name = ''whole life'', plan_value = w_life s\<rparr>,
      \<lparr>plan_name = ''variable life'', plan_value = v_life s\<rparr>,
      \<lparr>plan_name = ''variable universal life'', plan_value = vu_life s\<rparr>,
      \<lparr>plan_name = ''universal life'', plan_value = u_life s\<rparr>,
      \<lparr>plan_name = ''universal index life'', plan_value = ui_life s\<rparr>,
      \<lparr>plan_name = ''term life'', plan_value = t_life s\<rparr>]"

text \<open>
  \<open>array.sort(function(obj1, obj2){return obj2.value-obj1.value;})\<close>: descending by value. The sort of
  JavaScript is stable, as is \<^const>\<open>sort_key\<close>.
\<close>

definition rank_plans :: "plan list \<Rightarrow> plan list" where
  "rank_plans ps = sort_key (\<lambda>p. - int (plan_value p)) ps"

definition plan_recommendation :: "tally \<Rightarrow> string" where
  "plan_recommendation s =
     (let ranked = rank_plans (plan_table s); max1 = ranked ! 0; max2 = ranked ! 1
      in if plan_value max1 = plan_value max2 then plan_name max1 @ '' & '' @ plan_name max2
         else plan_name max1)"

definition reset_question :: "panel \<Rightarrow> panel" where
  "reset_question p = (if is_question p then check_value ''1'' (p\<lparr>panel_shown := False\<rparr>) else p)"

definition show_question1 :: "panel \<Rightarrow> panel" where
  "show_question1 p =
     (if panel_id p = ''question1'' then check_value ''1'' (p\<lparr>panel_shown := True\<rparr>) else p)"

definition question_name :: "nat \<Rightarrow> string" where
  "question_name k = ''question_'' @ nat_to_string k"

definition submit_click :: "plan_page \<Rightarrow> plan_page" where
  "submit_click pg =
     (let name = plan_recommendation (tally_answers (\<lambda>k. checked_val pg (question_name k)));
          pg1 = pg\<lparr>start_shown := True, panels := map show_question1 (panels pg)\<rparr>;
          pg2 = pg1\<lparr>panels := map reset_question (panels pg1)\<rparr>
      in pg2\<lparr>question_shown := False, explanation_shown := True,
             explanation_html := ''We recommends '' @ name\<rparr>)"

section \<open>The scoring table\<close>

text \<open>
  The abstract specification of the scores: a plan has a key, the answer it hopes for in each of the five
  questions, and scores one point for each answer that meets it.
\<close>

definition plan_key :: "string \<Rightarrow> int list" where
  "plan_key n =
     (if n = ''whole life'' then [3, 1, 1, 1, 3]
      else if n = ''variable life'' then [1, 1, 2, 2, 1]
      else if n = ''variable universal life'' then [1, 2, 2, 2, 1]
      else if n = ''universal life'' \<or> n = ''universal index life'' then [3, 2, 1, 3, 2]
      else if n = ''term life'' then [2, 2, 3, 4, 3]
      else [])"

definition score :: "(nat \<Rightarrow> string option) \<Rightarrow> int list \<Rightarrow> nat" where
  "score ans key = length (filter (\<lambda>k. loose_eq (ans (Suc k)) (key ! k)) [0..<length key])"

lemma tally_answers_unfold:
  "tally_answers ans =
     tally_step ans 4 (tally_step ans 3 (tally_step ans 2 (tally_step ans 1 (tally_step ans 0 no_tally))))"
  by (simp add: tally_answers_def upt_conv_Cons eval_nat_numeral)

lemma score_five:
  "score ans [k1, k2, k3, k4, k5] =
     of_bool (loose_eq (ans 1) k1) + of_bool (loose_eq (ans 2) k2) + of_bool (loose_eq (ans 3) k3)
     + of_bool (loose_eq (ans 4) k4) + of_bool (loose_eq (ans 5) k5)"
  by (simp add: score_def upt_conv_Cons eval_nat_numeral)

lemma add_if_fields:
  "w_life (add_if c (w_life_update Suc) s) = w_life s + of_bool c"
  "w_life (add_if c (v_life_update f) s) = w_life s"
  "w_life (add_if c (vu_life_update f) s) = w_life s"
  "w_life (add_if c (\<lambda>t. ui_life_update f (u_life_update g t)) s) = w_life s"
  "w_life (add_if c (t_life_update f) s) = w_life s"
  "v_life (add_if c (w_life_update f) s) = v_life s"
  "v_life (add_if c (v_life_update Suc) s) = v_life s + of_bool c"
  "v_life (add_if c (vu_life_update f) s) = v_life s"
  "v_life (add_if c (\<lambda>t. ui_life_update f (u_life_update g t)) s) = v_life s"
  "v_life (add_if c (t_life_update f) s) = v_life s"
  "vu_life (add_if c (w_life_update f) s) = vu_life s"
  "vu_life (add_if c (v_life_update f) s) = vu_life s"
  "vu_life (add_if c (vu_life_update Suc) s) = vu_life s + of_bool c"
  "vu_life (add_if c (\<lambda>t. ui_life_update f (u_life_update g t)) s) = vu_life s"
  "vu_life (add_if c (t_life_update f) s) = vu_life s"
  "u_life (add_if c (w_life_update f) s) = u_life s"
  "u_life (add_if c (v_life_update f) s) = u_life s"
  "u_life (add_if c (vu_life_update f) s) = u_life s"
  "u_life (add_if c (\<lambda>t. ui_life_update f (u_life_update Suc t)) s) = u_life s + of_bool c"
  "u_life (add_if c (t_life_update f) s) = u_life s"
  "ui_life (add_if c (w_life_update f) s) = ui_life s"
  "ui_life (add_if c (v_life_update f) s) = ui_life s"
  "ui_life (add_if c (vu_life_update f) s) = ui_life s"
  "ui_life (add_if c (\<lambda>t. ui_life_update Suc (u_life_update f t)) s) = ui_life s + of_bool c"
  "ui_life (add_if c (t_life_update f) s) = ui_life s"
  "t_life (add_if c (w_life_update f) s) = t_life s"
  "t_life (add_if c (v_life_update f) s) = t_life s"
  "t_life (add_if c (vu_life_update f) s) = t_life s"
  "t_life (add_if c (\<lambda>t. ui_life_update f (u_life_update g t)) s) = t_life s"
  "t_life (add_if c (t_life_update Suc) s) = t_life s + of_bool c"
  by (simp_all add: add_if_def)

lemma tally_step_fields:
  "w_life (tally_step ans i s) = w_life s + of_bool (i = 0 \<and> loose_eq (ans 1) 3 \<or> i = 1 \<and> loose_eq (ans 2) 1
     \<or> i = 2 \<and> loose_eq (ans 3) 1 \<or> i = 3 \<and> loose_eq (ans 4) 1 \<or> i = 4 \<and> loose_eq (ans 5) 3)"
  "v_life (tally_step ans i s) = v_life s + of_bool (i = 0 \<and> loose_eq (ans 1) 1 \<or> i = 1 \<and> loose_eq (ans 2) 1
     \<or> i = 2 \<and> loose_eq (ans 3) 2 \<or> i = 3 \<and> loose_eq (ans 4) 2 \<or> i = 4 \<and> loose_eq (ans 5) 1)"
  "vu_life (tally_step ans i s) = vu_life s + of_bool (i = 0 \<and> loose_eq (ans 1) 1 \<or> i = 1 \<and> loose_eq (ans 2) 2
     \<or> i = 2 \<and> loose_eq (ans 3) 2 \<or> i = 3 \<and> loose_eq (ans 4) 2 \<or> i = 4 \<and> loose_eq (ans 5) 1)"
  "u_life (tally_step ans i s) = u_life s + of_bool (i = 0 \<and> loose_eq (ans 1) 3 \<or> i = 1 \<and> loose_eq (ans 2) 2
     \<or> i = 2 \<and> loose_eq (ans 3) 1 \<or> i = 3 \<and> loose_eq (ans 4) 3 \<or> i = 4 \<and> loose_eq (ans 5) 2)"
  "ui_life (tally_step ans i s) = ui_life s + of_bool (i = 0 \<and> loose_eq (ans 1) 3 \<or> i = 1 \<and> loose_eq (ans 2) 2
     \<or> i = 2 \<and> loose_eq (ans 3) 1 \<or> i = 3 \<and> loose_eq (ans 4) 3 \<or> i = 4 \<and> loose_eq (ans 5) 2)"
  "t_life (tally_step ans i s) = t_life s + of_bool (i = 0 \<and> loose_eq (ans 1) 2 \<or> i = 1 \<and> loose_eq (ans 2) 2
     \<or> i = 2 \<and> loose_eq (ans 3) 3 \<or> i = 3 \<and> loose_eq (ans 4) 4 \<or> i = 4 \<and> loose_eq (ans 5) 3)"
  by (simp_all only: tally_step_def Let_def add_if_fields loose_eq_if)

lemma tally_answers_fields:
  "w_life (tally_answers ans) = score ans [3, 1, 1, 1, 3]"
  "v_life (tally_answers ans) = score ans [1, 1, 2, 2, 1]"
  "vu_life (tally_answers ans) = score ans [1, 2, 2, 2, 1]"
  "u_life (tally_answers ans) = score ans [3, 2, 1, 3, 2]"
  "ui_life (tally_answers ans) = score ans [3, 2, 1, 3, 2]"
  "t_life (tally_answers ans) = score ans [2, 2, 3, 4, 3]"
  by (simp_all add: tally_answers_unfold tally_step_fields score_five no_tally_def)

section \<open>The ranking\<close>

text \<open>A list that is sorted by a key starts with its elements of least key.\<close>

lemma sorted_key_prefix:
  assumes "sorted (map f xs)" and "\<forall>x \<in> set xs. m \<le> f x"
  shows "xs = filter (\<lambda>x. f x = m) xs @ filter (\<lambda>x. f x \<noteq> m) xs"
  using assms
proof (induction xs)
  case (Cons x xs)
  show ?case
  proof (cases "f x = m")
    case False
    with Cons.prems have "\<forall>y \<in> set xs. f y \<noteq> m" by fastforce
    with False show ?thesis by (auto simp: filter_empty_conv filter_id_conv intro: sym)
  qed (use Cons in auto)
qed simp

lemma sort_key_least_first:
  fixes f :: "'a \<Rightarrow> 'b::linorder"
  assumes "\<forall>x \<in> set xs. m \<le> f x"
  shows "\<exists>rest. sort_key f xs = filter (\<lambda>x. f x = m) xs @ rest \<and> (\<forall>x \<in> set rest. f x \<noteq> m)"
proof -
  have "sort_key f xs = filter (\<lambda>x. f x = m) (sort_key f xs) @ filter (\<lambda>x. f x \<noteq> m) (sort_key f xs)"
    by (rule sorted_key_prefix) (use assms in auto)
  then have "sort_key f xs = filter (\<lambda>x. f x = m) xs @ filter (\<lambda>x. f x \<noteq> m) (sort_key f xs)"
    by (simp add: sort_key_stable)
  then show ?thesis by auto
qed

definition best_value :: "plan list \<Rightarrow> nat" where
  "best_value ps = foldr max (map plan_value ps) 0"

definition best_plans :: "plan list \<Rightarrow> plan list" where
  "best_plans ps = filter (\<lambda>p. plan_value p = best_value ps) ps"

lemma best_value_ge: "p \<in> set ps \<Longrightarrow> plan_value p \<le> best_value ps"
  by (induction ps) (auto simp: best_value_def max_def)

lemma best_value_attained: "ps \<noteq> [] \<Longrightarrow> \<exists>p \<in> set ps. plan_value p = best_value ps"
proof (induction ps)
  case (Cons p ps)
  then show ?case
    by (cases ps) (auto simp: best_value_def max_def)
qed simp

lemma best_plans_nonempty: "ps \<noteq> [] \<Longrightarrow> best_plans ps \<noteq> []"
  using best_value_attained by (force simp: best_plans_def filter_empty_conv)

lemma rank_plans_best_first:
  "\<exists>rest. rank_plans ps = best_plans ps @ rest \<and> (\<forall>p \<in> set rest. plan_value p \<noteq> best_value ps)"
proof -
  let ?f = "\<lambda>p. - int (plan_value p)"
  have "\<forall>p \<in> set ps. - int (best_value ps) \<le> ?f p"
    using best_value_ge by force
  from sort_key_least_first [of ps _ ?f, OF this] show ?thesis
    by (simp add: rank_plans_def best_plans_def)
qed

text \<open>What the two names of a recommendation are: one plan, or the first two of the best in table order.\<close>

fun join_names :: "plan list \<Rightarrow> string" where
  "join_names (p # q # ps) = plan_name p @ '' & '' @ plan_name q"
| "join_names [p] = plan_name p"
| "join_names [] = []"

lemma length_rank_plans [simp]: "length (rank_plans ps) = length ps"
  by (simp add: rank_plans_def)

lemma recommendation_of_ranking:
  assumes "2 \<le> length ps" and "ranked = rank_plans ps"
  shows "(if plan_value (ranked ! 0) = plan_value (ranked ! 1)
          then plan_name (ranked ! 0) @ '' & '' @ plan_name (ranked ! 1)
          else plan_name (ranked ! 0)) = join_names (best_plans ps)"
proof -
  obtain rest where r: "ranked = best_plans ps @ rest"
    and rest: "\<forall>p \<in> set rest. plan_value p \<noteq> best_value ps"
    using rank_plans_best_first [of ps] assms(2) by blast
  have len: "2 \<le> length ranked" using assms by simp
  from assms(1) have "best_plans ps \<noteq> []" by (intro best_plans_nonempty) auto
  moreover have val: "\<And>p. p \<in> set (best_plans ps) \<Longrightarrow> plan_value p = best_value ps"
    by (simp add: best_plans_def)
  ultimately consider (one) p where "best_plans ps = [p]" | (more) p q qs where "best_plans ps = p # q # qs"
    by (cases "best_plans ps" rule: join_names.cases) auto
  then show ?thesis
  proof cases
    case one
    with len r obtain q rest' where q: "rest = q # rest'"
      by (cases rest) auto
    with rest one r val show ?thesis by auto
  next
    case more
    with r val show ?thesis by simp
  qed
qed

lemma recommendation_best: "plan_recommendation s = join_names (best_plans (plan_table s))"
proof -
  have "2 \<le> length (plan_table s)" by (simp add: plan_table_def)
  from recommendation_of_ranking [OF this refl] show ?thesis
    by (simp only: plan_recommendation_def Let_def)
qed

lemma in_best_plans: "p \<in> set (best_plans ps) \<longleftrightarrow> p \<in> set ps \<and> plan_value p = best_value ps"
  by (simp add: best_plans_def)

text \<open>A recommendation that is the name of a single plan: it is the only best one.\<close>

lemma plan_name_no_ampersand: "p \<in> set (plan_table s) \<Longrightarrow> CHR ''&'' \<notin> set (plan_name p)"
  by (auto simp: plan_table_def)

lemma join_names_single:
  assumes "join_names ps = n" and "CHR ''&'' \<notin> set n" and "ps \<noteq> []"
  shows "\<exists>p. ps = [p] \<and> plan_name p = n"
  using assms by (cases ps rule: join_names.cases) auto

lemma recommendation_single:
  assumes "plan_recommendation s = n" and "CHR ''&'' \<notin> set n"
  shows "\<exists>p. best_plans (plan_table s) = [p] \<and> plan_name p = n"
proof -
  have "best_plans (plan_table s) \<noteq> []"
    by (rule best_plans_nonempty) (simp add: plan_table_def)
  with assms show ?thesis
    by (intro join_names_single) (simp_all add: recommendation_best)
qed

section \<open>Reset and wizard\<close>

lemma check_value_fields [simp]:
  "panel_id (check_value v p) = panel_id p"
  "is_question (check_value v p) = is_question p"
  "panel_shown (check_value v p) = panel_shown p"
  "radio_name (check_value v p) = radio_name p"
  "radio_values (check_value v p) = radio_values p"
  by (simp_all add: check_value_def split: list.splits)

lemma panel_answer_check_value:
  assumes "v \<in> set (radio_values p)"
  shows "panel_answer (check_value v p) = Some v"
proof -
  let ?is = "filter (\<lambda>i. radio_values p ! i = v) [0..<length (radio_values p)]"
  from assms obtain i where "i < length (radio_values p)" "radio_values p ! i = v"
    by (auto simp: in_set_conv_nth)
  then have ne: "?is \<noteq> []" by (auto simp: filter_empty_conv)
  then have "last ?is \<in> set ?is" by (rule last_in_set)
  then have l: "last ?is < length (radio_values p)" "radio_values p ! last ?is = v" by auto
  from ne have "radio_checked (check_value v p) = Some (last ?is)"
    by (simp add: check_value_def split: list.split)
  with l show ?thesis by (simp add: panel_answer_def)
qed

definition after_submit :: "panel \<Rightarrow> panel" where
  "after_submit p = reset_question (show_question1 p)"

lemma panels_submit_click: "panels (submit_click pg) = map after_submit (panels pg)"
  by (simp add: submit_click_def after_submit_def Let_def)

lemma after_submit_fields [simp]:
  "radio_name (after_submit p) = radio_name p"
  "radio_values (after_submit p) = radio_values p"
  "is_question (after_submit p) = is_question p"
  by (simp_all add: after_submit_def reset_question_def show_question1_def)

lemma after_submit_question:
  assumes "is_question p"
  shows "\<not> panel_shown (after_submit p)"
    and "v = ''1'' \<Longrightarrow> v \<in> set (radio_values p) \<Longrightarrow> panel_answer (after_submit p) = Some v"
  using assms panel_answer_check_value
  by (simp_all add: after_submit_def reset_question_def show_question1_def)

text \<open>The five questions of the page: each is there and offers the value 1.\<close>

definition questionnaire :: "plan_page \<Rightarrow> bool" where
  "questionnaire pg \<longleftrightarrow>
     list_all (\<lambda>k. list_ex (\<lambda>p. radio_name p = question_name k) (panels pg) \<and>
                   list_all (\<lambda>p. radio_name p = question_name k \<longrightarrow>
                                 is_question p \<and> ''1'' \<in> set (radio_values p)) (panels pg))
       [1, 2, 3, 4, 5]"

lemma checked_val_after_submit:
  assumes "questionnaire pg" and "k \<in> set [1, 2, 3, 4, 5]"
  shows "checked_val (submit_click pg) (question_name k) = Some ''1''"
proof -
  let ?q = "question_name k"
  let ?ps = "map after_submit (panels pg)"
  from assms have ex: "\<exists>p \<in> set (panels pg). radio_name p = ?q"
    and al: "\<And>p. p \<in> set (panels pg) \<Longrightarrow> radio_name p = ?q \<Longrightarrow>
               is_question p \<and> ''1'' \<in> set (radio_values p)"
    unfolding questionnaire_def by (auto simp: list_all_iff list_ex_iff)
  from al have ans: "\<And>p. p \<in> set ?ps \<Longrightarrow> radio_name p = ?q \<Longrightarrow> panel_answer p = Some ''1''"
    using after_submit_question(2) by auto
  let ?f = "filter (\<lambda>p. radio_name p = ?q \<and> panel_answer p \<noteq> None) ?ps"
  from ex ans have "?f \<noteq> []" by (fastforce simp: filter_empty_conv)
  then obtain p r where f: "?f = p # r" unfolding neq_Nil_conv by blast
  have "p \<in> set ?f" unfolding f by simp
  then have "panel_answer p = Some ''1''" using ans by auto
  with f show ?thesis
    by (simp only: checked_val_def panels_submit_click f list.case)
qed

lemma loose_eq_one [simp]: "loose_eq (Some ''1'') n \<longleftrightarrow> n = 1"
  by (auto simp: loose_eq_def string_to_number_def js_trim_def is_space_def is_digit_def
      digits_to_nat_def digit_val_def)

lemma tally_all_ones:
  assumes "\<And>k. k \<in> set [1, 2, 3, 4, 5] \<Longrightarrow> ans k = Some ''1''"
  shows "tally_answers ans =
           \<lparr>w_life = 3, v_life = 3, vu_life = 2, u_life = 1, ui_life = 1, t_life = 0\<rparr>"
proof -
  have "ans 1 = Some ''1''" "ans 2 = Some ''1''" "ans 3 = Some ''1''" "ans 4 = Some ''1''" "ans 5 = Some ''1''"
    by (rule assms, simp)+
  then have "\<And>k1 k2 k3 k4 k5. score ans [k1, k2, k3, k4, k5] =
      of_bool (k1 = 1) + of_bool (k2 = 1) + of_bool (k3 = 1) + of_bool (k4 = 1) + of_bool (k5 = 1)"
    by (simp only: score_five loose_eq_one)
  then show ?thesis
    by (intro tally.equality) (simp_all add: tally_answers_fields)
qed

definition shown_panels :: "plan_page \<Rightarrow> nat list" where
  "shown_panels pg = filter (\<lambda>i. panel_shown (panels pg ! i)) [0..<length (panels pg)]"

lemma filter_singleton:
  assumes "distinct xs" and "\<And>x. x \<in> set xs \<Longrightarrow> P x \<longleftrightarrow> x = a"
  shows "filter P xs = (if a \<in> set xs then [a] else [])"
  using assms by (induction xs) (auto simp: filter_empty_conv)

lemma shown_panels_single:
  assumes "\<And>j. j < length (panels pg) \<Longrightarrow> panel_shown (panels pg ! j) \<longleftrightarrow> j = i"
  shows "shown_panels pg = (if i < length (panels pg) then [i] else [])"
  unfolding shown_panels_def using assms by (subst filter_singleton [where a = i]) auto

lemma shown_panels_single_iff:
  "shown_panels pg = [i] \<Longrightarrow> j < length (panels pg) \<Longrightarrow> panel_shown (panels pg ! j) \<longleftrightarrow> j = i"
proof -
  assume "shown_panels pg = [i]" and j: "j < length (panels pg)"
  then have "set (shown_panels pg) = {i}" by simp
  with j show ?thesis by (auto simp: shown_panels_def)
qed

lemma length_panels_click [simp]:
  "length (panels (next_click i pg)) = length (panels pg)"
  "length (panels (previous_click i pg)) = length (panels pg)"
  by (simp_all add: next_click_def previous_click_def Let_def split: nat.split)

lemma next_click_shown:
  "j < length (panels pg) \<Longrightarrow>
     panel_shown (panels (next_click i pg) ! j) \<longleftrightarrow> j = Suc i \<or> j \<noteq> i \<and> panel_shown (panels pg ! j)"
  by (simp add: next_click_def)

lemma previous_click_shown:
  "j < length (panels pg) \<Longrightarrow>
     panel_shown (panels (previous_click i pg) ! j) \<longleftrightarrow> Suc j = i \<or> j \<noteq> i \<and> panel_shown (panels pg ! j)"
  by (auto simp: previous_click_def Let_def split: nat.split)

section \<open>Properties\<close>

text \<open>C1. The submit loop computes the scoring table: after the five rounds the counter of every plan is
  the number of questions whose answer equals the plan's key, whatever the answers are.\<close>

theorem submit_scores_table:
  "map plan_value (plan_table (tally_answers ans)) =
     map (\<lambda>p. score ans (plan_key (plan_name p))) (plan_table (tally_answers ans))"
  by (simp add: plan_table_def plan_key_def tally_answers_fields)

text \<open>C2. The text shown after a submit names the best plans: the single plan of maximal score, or the
  first two, in the order of the table, of the plans that share it.\<close>

theorem submit_recommends_best:
  "explanation_html (submit_click pg) =
     ''We recommends '' @
     join_names (best_plans (plan_table (tally_answers (\<lambda>k. checked_val pg (question_name k)))))"
  by (simp add: submit_click_def Let_def recommendation_best)

text \<open>The two universal plans are never recommended by themselves: their counters are incremented by
  the same condition, so whenever one is best the other one is too.\<close>

theorem universal_plans_never_alone:
  "plan_recommendation (tally_answers ans) \<noteq> ''universal life'' \<and>
   plan_recommendation (tally_answers ans) \<noteq> ''universal index life''"
proof -
  let ?s = "tally_answers ans"
  let ?u = "\<lparr>plan_name = ''universal life'', plan_value = u_life ?s\<rparr>"
  let ?i = "\<lparr>plan_name = ''universal index life'', plan_value = ui_life ?s\<rparr>"
  have both: "?u \<in> set (best_plans (plan_table ?s)) \<longleftrightarrow> ?i \<in> set (best_plans (plan_table ?s))"
    by (simp add: in_best_plans plan_table_def tally_answers_fields)
  have names: "\<And>p. p \<in> set (plan_table ?s) \<Longrightarrow> plan_name p = ''universal life'' \<Longrightarrow> p = ?u"
      "\<And>p. p \<in> set (plan_table ?s) \<Longrightarrow> plan_name p = ''universal index life'' \<Longrightarrow> p = ?i"
    by (auto simp: plan_table_def)
  have no: "\<And>p. best_plans (plan_table ?s) = [p] \<Longrightarrow> p \<noteq> ?u \<and> p \<noteq> ?i"
    using both by auto
  have inT: "\<And>p. best_plans (plan_table ?s) = [p] \<Longrightarrow> p \<in> set (plan_table ?s)"
    by (metis in_best_plans list.set_intros(1))
  show ?thesis
  proof (intro conjI notI)
    assume "plan_recommendation ?s = ''universal life''"
    from recommendation_single [OF this] obtain p where "best_plans (plan_table ?s) = [p]"
      "plan_name p = ''universal life''" by auto
    with no inT names(1) show False by blast
  next
    assume "plan_recommendation ?s = ''universal index life''"
    from recommendation_single [OF this] obtain p where "best_plans (plan_table ?s) = [p]"
      "plan_name p = ''universal index life''" by auto
    with no inT names(2) show False by blast
  qed
qed

text \<open>Submitting resets the questionnaire, so a submit handler that runs a second time before the
  user answers again always recommends the first two plans of the table, whatever was answered.\<close>

lemma submit_twice_default:
  assumes "questionnaire pg"
  shows "explanation_html (submit_click (submit_click pg)) = ''We recommends whole life & variable life''"
proof -
  have "tally_answers (\<lambda>k. checked_val (submit_click pg) (question_name k)) =
      \<lparr>w_life = 3, v_life = 3, vu_life = 2, u_life = 1, ui_life = 1, t_life = 0\<rparr>"
    using checked_val_after_submit [OF assms] by (intro tally_all_ones) simp
  then show ?thesis
    by (simp add: submit_click_def [of "submit_click pg"] Let_def recommendation_best best_plans_def
        best_value_def plan_table_def)
qed

definition example_page :: plan_page where
  "example_page =
     \<lparr>check_all_life = False, check_life = [], drop_down_src = [],
      panels = map (\<lambda>k. \<lparr>panel_id = ''question'' @ nat_to_string k, is_question = True, panel_shown = (k = 1),
                          radio_name = question_name k, radio_values = [''1'', ''2'', ''3'', ''4''],
                          radio_checked = Some 1\<rparr>) [1, 2, 3, 4, 5],
      start_shown = False, question_shown = True, explanation_shown = False, explanation_html = []\<rparr>"

text \<open>The wizard shows one question at a time: Next moves the single visible panel one further, or hides
  the last one, and Previous on the panel reached takes it back.\<close>

theorem wizard_moves_single_panel:
  assumes "shown_panels pg = [i]"
  shows "shown_panels (next_click i pg) = (if Suc i < length (panels pg) then [Suc i] else []) \<and>
         (Suc i < length (panels pg) \<longrightarrow> shown_panels (previous_click (Suc i) (next_click i pg)) = [i])"
proof (intro conjI impI)
  note one = shown_panels_single_iff [OF assms]
  have i: "i < length (panels pg)"
    using arg_cong [OF assms, of set] by (auto simp: shown_panels_def)
  show "shown_panels (next_click i pg) = (if Suc i < length (panels pg) then [Suc i] else [])"
    by (subst shown_panels_single [where i = "Suc i"]) (auto simp: next_click_shown one)
  show "shown_panels (previous_click (Suc i) (next_click i pg)) = [i]"
    using i by (subst shown_panels_single [where i = i])
      (auto simp: previous_click_shown next_click_shown one)
qed

theorem wizard_moves_single_panel_witness:
  "shown_panels example_page = [0] \<and> shown_panels (next_click 0 example_page) = [1] \<and>
   shown_panels (previous_click 1 (next_click 0 example_page)) = [0]"
proof -
  have h: "shown_panels example_page = [0]" by code_simp
  have l: "length (panels example_page) = 5" by code_simp
  show ?thesis using h l wizard_moves_single_panel [OF h] by simp
qed

end
