(* ===== verification/Turbo_Ready.thy ===== *)
theory Turbo_Ready
  imports Associations Protection_Plans
begin

text \<open>
  \<open>jquery.turbolinks\<close> of the deployed bundle (\<open>$.turbo\<close>): it replaces \<open>$.fn.ready\<close> so that every ready
  callback runs again after each Turbolinks page load. The theory follows the callbacks of the
  application's own files, registered in the order of \<open>application.js\<close>, through a session and shows how
  often each runs, and what that does to the handlers they bind: \<open>remove_association.js\<close> and
  \<open>pagination.js\<close> add a handler to the document on every run, and \<open>protection_plans.js\<close> registers its
  callback for \<open>page:load\<close> a second time.
\<close>

section \<open>The plugin\<close>

text \<open>A handler bound to the document; \<open>Ready\<close> wraps a callback, \<open>Direct\<close> is bound as it is.\<close>

datatype 'cb doc_handler = On_Load | On_Fetch | Ready 'cb | Direct 'cb

record 'cb doc_binding =
  db_event :: string
  db_namespace :: string
  db_handler :: "'cb doc_handler"

record 'cb turbo =
  is_ready :: bool
  bindings :: "'cb doc_binding list"
  dom_ready_queue :: "'cb doc_handler list"
  calls :: "'cb list"

definition no_turbo :: "'cb turbo" where
  "no_turbo = \<lparr>is_ready = False, bindings = [], dom_ready_queue = [], calls = []\<rparr>"

definition handlers_for :: "string \<Rightarrow> 'cb turbo \<Rightarrow> 'cb doc_handler list" where
  "handlers_for ev t = map db_handler (filter (\<lambda>b. db_event b = ev) (bindings t))"

definition call :: "'cb \<Rightarrow> 'cb turbo \<Rightarrow> 'cb turbo" where
  "call cb t = t\<lparr>calls := calls t @ [cb]\<rparr>"

text \<open>
  \<open>turbo:ready\<close> is only ever bound by \<open>addCallback\<close>, so its handlers are ready callbacks; the handlers of
  the other events may trigger it.
\<close>

fun run_ready :: "'cb doc_handler \<Rightarrow> 'cb turbo \<Rightarrow> 'cb turbo" where
  "run_ready (Ready cb) t = call cb t"
| "run_ready (Direct cb) t = call cb t"
| "run_ready _ t = t"

definition trigger_turbo_ready :: "'cb turbo \<Rightarrow> 'cb turbo" where
  "trigger_turbo_ready t = fold run_ready (handlers_for ''turbo:ready'' t) t"

definition turbo_on_load :: "'cb turbo \<Rightarrow> 'cb turbo" where
  "turbo_on_load t = trigger_turbo_ready (t\<lparr>is_ready := True\<rparr>)"

definition turbo_on_fetch :: "'cb turbo \<Rightarrow> 'cb turbo" where
  "turbo_on_fetch t = t\<lparr>is_ready := False\<rparr>"

fun run_handler :: "'cb doc_handler \<Rightarrow> 'cb turbo \<Rightarrow> 'cb turbo" where
  "run_handler On_Load t = turbo_on_load t"
| "run_handler On_Fetch t = turbo_on_fetch t"
| "run_handler (Ready cb) t = call cb t"
| "run_handler (Direct cb) t = call cb t"

definition trigger_doc :: "string \<Rightarrow> 'cb turbo \<Rightarrow> 'cb turbo" where
  "trigger_doc ev t = fold run_handler (handlers_for ev t) t"

definition doc_on :: "string \<Rightarrow> string \<Rightarrow> 'cb doc_handler \<Rightarrow> 'cb turbo \<Rightarrow> 'cb turbo" where
  "doc_on ev ns h t = t\<lparr>bindings := bindings t @ [\<lparr>db_event = ev, db_namespace = ns, db_handler = h\<rparr>]\<rparr>"

definition doc_off_namespace :: "string \<Rightarrow> 'cb turbo \<Rightarrow> 'cb turbo" where
  "doc_off_namespace ns t = t\<lparr>bindings := filter (\<lambda>b. db_namespace b \<noteq> ns) (bindings t)\<rparr>"

definition turbo_use :: "string \<Rightarrow> string \<Rightarrow> 'cb turbo \<Rightarrow> 'cb turbo" where
  "turbo_use load fetch t =
     doc_on fetch ''turbo'' On_Fetch (doc_on load ''turbo'' On_Load (doc_off_namespace ''turbo'' t))"

definition add_callback :: "'cb \<Rightarrow> 'cb turbo \<Rightarrow> 'cb turbo" where
  "add_callback cb t =
     (let t = (if is_ready t then call cb t else t) in doc_on ''turbo:ready'' [] (Ready cb) t)"

text \<open>\<open>register\<close> runs while \<open>$.fn.ready\<close> is still jQuery's own, which queues \<open>onLoad\<close> for the DOM.\<close>

definition turbo_register :: "'cb turbo \<Rightarrow> 'cb turbo" where
  "turbo_register t = t\<lparr>dom_ready_queue := dom_ready_queue t @ [On_Load]\<rparr>"

definition dom_ready :: "'cb turbo \<Rightarrow> 'cb turbo" where
  "dom_ready t = fold run_handler (dom_ready_queue t) (t\<lparr>dom_ready_queue := []\<rparr>)"

definition turbo_boot :: "'cb turbo" where
  "turbo_boot = turbo_use ''page:load'' ''page:fetch'' (turbo_register no_turbo)"

section \<open>The callbacks of the application\<close>

text \<open>The ready callbacks of the application's files, in the order the manifest requires them.\<close>

datatype app_callback = Personal_Profile | Add_Association | Remove_Association | Pagination | Plans_Ready

definition app_boot :: "app_callback turbo" where
  "app_boot =
     (let t = fold add_callback [Personal_Profile, Add_Association, Remove_Association, Pagination] turbo_boot;
          t = add_callback Plans_Ready t
      in doc_on ''page:load'' [] (Direct Plans_Ready) t)"

text \<open>
  How many handlers a click meets: a handler on the document stays when Turbolinks replaces the body, so
  it was bound by every call of the session; a handler on an element of the body was bound by the calls
  since that body was shown.
\<close>

definition document_handlers :: "app_callback \<Rightarrow> app_callback turbo \<Rightarrow> nat" where
  "document_handlers cb t = length (filter (\<lambda>c. c = cb) (calls t))"

definition body_handlers :: "app_callback \<Rightarrow> app_callback turbo \<Rightarrow> app_callback turbo \<Rightarrow> nat" where
  "body_handlers cb before t = document_handlers cb t - document_handlers cb before"

text \<open>A visit fires \<open>page:fetch\<close> and, when its page is shown, \<open>page:load\<close>.\<close>

datatype page_event = Fetch_Started | Page_Shown

definition session_event :: "page_event \<Rightarrow> 'cb turbo \<Rightarrow> 'cb turbo" where
  "session_event ev t =
     (case ev of Fetch_Started \<Rightarrow> trigger_doc ''page:fetch'' t | Page_Shown \<Rightarrow> trigger_doc ''page:load'' t)"

definition app_session :: "page_event list \<Rightarrow> app_callback turbo" where
  "app_session evs = fold session_event evs (dom_ready app_boot)"

section \<open>How often the callbacks run\<close>

lemma fold_call: "fold (\<lambda>cb. call cb) cbs t = t\<lparr>calls := calls t @ cbs\<rparr>"
  by (induction cbs arbitrary: t) (simp_all add: call_def)

lemma app_bindings:
  "handlers_for ''turbo:ready'' app_boot = map Ready [Personal_Profile, Add_Association, Remove_Association, Pagination, Plans_Ready]"
  "handlers_for ''page:load'' app_boot = [On_Load, Direct Plans_Ready]"
  "handlers_for ''page:fetch'' app_boot = [On_Fetch]"
  "dom_ready_queue app_boot = [On_Load]" "calls app_boot = []"
  by code_simp+

text \<open>No event changes the bindings, so each step only appends to the calls.\<close>

lemma handlers_frame:
  "bindings t' = bindings t \<Longrightarrow> handlers_for ev t' = handlers_for ev t"
  by (simp add: handlers_for_def)

lemma trigger_ready_calls:
  assumes "handlers_for ''turbo:ready'' t = map Ready cbs"
  shows "trigger_turbo_ready t = t\<lparr>calls := calls t @ cbs\<rparr>"
proof -
  have "fold run_ready (map Ready cbs) t = fold (\<lambda>cb. call cb) cbs t" for t :: "'a turbo"
    by (induction cbs arbitrary: t) simp_all
  with assms show ?thesis by (simp add: trigger_turbo_ready_def fold_call)
qed

lemma on_load_calls:
  assumes "handlers_for ''turbo:ready'' t = map Ready cbs"
  shows "turbo_on_load t = t\<lparr>is_ready := True, calls := calls t @ cbs\<rparr>"
proof -
  have "handlers_for ''turbo:ready'' (t\<lparr>is_ready := True\<rparr>) = map Ready cbs"
    using assms by (simp add: handlers_for_def)
  from trigger_ready_calls [OF this] show ?thesis by (simp add: turbo_on_load_def)
qed

definition all_callbacks :: "app_callback list" where
  "all_callbacks = [Personal_Profile, Add_Association, Remove_Association, Pagination, Plans_Ready]"

definition shown :: "page_event list \<Rightarrow> nat" where
  "shown evs = length (filter (\<lambda>e. e = Page_Shown) evs)"

lemma session_event_calls:
  assumes "bindings t = bindings app_boot"
  shows "bindings (session_event ev t) = bindings app_boot \<and>
         calls (session_event ev t) =
           calls t @ (case ev of Fetch_Started \<Rightarrow> [] | Page_Shown \<Rightarrow> all_callbacks @ [Plans_Ready])"
proof -
  note h = handlers_frame [OF assms]
  have ready: "handlers_for ''turbo:ready'' t = map Ready all_callbacks"
    by (simp only: h app_bindings all_callbacks_def)
  show ?thesis
    using assms
    by (cases ev) (simp_all add: session_event_def trigger_doc_def h app_bindings turbo_on_fetch_def
        on_load_calls [OF ready] call_def)
qed

lemma app_session_calls:
  "bindings (app_session evs) = bindings app_boot \<and>
   calls (app_session evs) = all_callbacks @ concat (replicate (shown evs) (all_callbacks @ [Plans_Ready]))"
proof (induction evs rule: rev_induct)
  case Nil
  have "handlers_for ''turbo:ready'' (app_boot\<lparr>dom_ready_queue := []\<rparr>) = handlers_for ''turbo:ready'' app_boot"
    by (rule handlers_frame) simp
  then have "handlers_for ''turbo:ready'' (app_boot\<lparr>dom_ready_queue := []\<rparr>) = map Ready all_callbacks"
    by (simp only: app_bindings all_callbacks_def)
  from on_load_calls [OF this] show ?case
    by (simp add: app_session_def dom_ready_def app_bindings shown_def)
next
  case (snoc ev evs)
  then have b: "bindings (app_session evs) = bindings app_boot" by simp
  have app: "app_session (evs @ [ev]) = session_event ev (app_session evs)" by (simp add: app_session_def)
  have "concat (replicate n xs) @ xs = concat (replicate (Suc n) xs)" for n and xs :: "app_callback list"
    by (simp flip: replicate_append_same)
  with session_event_calls [OF b, of ev] snoc show ?case
    unfolding app by (cases ev) (simp_all add: shown_def)
qed

lemma count_concat_replicate:
  "length (filter P (concat (replicate n xs))) = n * length (filter P xs)"
  by (induction n) simp_all

section \<open>A click that meets several handlers\<close>

text \<open>
  Every handler that was bound runs: each returns \<open>false\<close>, which cancels the default action and stops the
  propagation, but not the other handlers of the same element.
\<close>

definition remove_clicks :: "nat \<Rightarrow> nat option \<Rightarrow> assoc_row list \<Rightarrow> assoc_row list" where
  "remove_clicks n tb rows = ((\<lambda>rows. fst (remove_association_click tb rows)) ^^ n) rows"

definition pagination_clicks :: "nat \<Rightarrow> string \<Rightarrow> ajax_page \<Rightarrow> ajax_page" where
  "pagination_clicks n href pg = ((\<lambda>pg. fst (pagination_click href pg)) ^^ n) pg"

definition drop_down_clicks :: "nat \<Rightarrow> nat \<Rightarrow> plan_page \<Rightarrow> plan_page" where
  "drop_down_clicks n i pg = (drop_down_click i ^^ n) pg"

lemma document_handlers_app:
  "document_handlers cb (app_session evs) = (if cb = Plans_Ready then 2 * shown evs + 1 else shown evs + 1)"
proof -
  have c: "length (filter (\<lambda>c. c = cb) all_callbacks) = 1"
    by (cases cb) (simp_all add: all_callbacks_def)
  show ?thesis
    by (simp add: document_handlers_def app_session_calls count_concat_replicate c)
qed

lemma shown_snoc [simp]: "shown (evs @ [e]) = (if e = Page_Shown then Suc (shown evs) else shown evs)"
  by (simp add: shown_def)

text \<open>The numbers after \<open>n\<close> runs of the removal: everything above \<open>m\<close> falls towards \<open>m\<close>.\<close>

definition without_row :: "nat \<Rightarrow> assoc_row list \<Rightarrow> assoc_row list" where
  "without_row k rows = take k rows @ drop (Suc k) rows"

lemma visible_without_hidden:
  assumes "k < length rows" and "\<not> row_visible (rows ! k)"
  shows "visible_numbers (without_row k rows) = visible_numbers rows"
proof -
  have "rows = take k rows @ rows ! k # drop (Suc k) rows" using assms(1) by (rule id_take_nth_drop)
  then have "visible_numbers rows = visible_numbers (take k rows @ rows ! k # drop (Suc k) rows)" by simp
  with assms(2) show ?thesis by (simp add: without_row_def)
qed

lemma canonical_renumber: "canonical_title (row_title r) \<Longrightarrow> canonical_title (row_title (renumber_row (Num (int m)) r))"
  by (cases "match_digits (row_title r)") (auto simp: renumber_title_none intro: renumber_title_number(2))

lemma one_removal:
  assumes "k < length rows" and "row_number (rows ! k) = Some m"
    and "\<forall>r \<in> set rows. canonical_title (row_title r)"
  defines "rows' \<equiv> fst (remove_association_click (Some k) rows)"
  shows "length rows' = length rows" and "\<forall>r \<in> set rows'. canonical_title (row_title r)"
    and "row_number (rows' ! k) = Some m" and "\<not> row_visible (rows' ! k)"
    and "visible_numbers rows' = map (\<lambda>j. if j > m then j - 1 else j) (visible_numbers (without_row k rows))"
proof -
  have r': "rows' = map (renumber_row (Num (int m))) (take k rows @ mark_removed (rows ! k) # drop (Suc k) rows)"
    unfolding rows'_def by (rule remove_association_click_number [OF assms(1,2)])
  have c: "\<forall>r \<in> set (without_row k rows). canonical_title (row_title r)" "canonical_title (row_title (rows ! k))"
    using assms(1,3) by (auto simp: without_row_def dest: in_set_takeD in_set_dropD)
  show "length rows' = length rows" unfolding r' using assms(1) by simp
  show "\<forall>r \<in> set rows'. canonical_title (row_title r)"
    unfolding r' using c canonical_renumber by (auto simp: without_row_def)
  have k: "rows' ! k = renumber_row (Num (int m)) (mark_removed (rows ! k))"
    unfolding r' using assms(1) by (simp add: nth_append)
  show "\<not> row_visible (rows' ! k)" by (simp add: k)
  show "row_number (rows' ! k) = Some m"
    unfolding k using c(2) assms(2) by (subst row_number_renumber) simp_all
  show "visible_numbers rows' = map (\<lambda>j. if j > m then j - 1 else j) (visible_numbers (without_row k rows))"
    using visible_numbers_renumber [OF c(1), of m] unfolding r' by (simp add: without_row_def)
qed

lemma remove_clicks_rows:
  assumes "k < length rows" and "row_number (rows ! k) = Some m"
    and "\<forall>r \<in> set rows. canonical_title (row_title r)"
  shows "length (remove_clicks (Suc n) (Some k) rows) = length rows \<and>
    (\<forall>r \<in> set (remove_clicks (Suc n) (Some k) rows). canonical_title (row_title r)) \<and>
    row_number (remove_clicks (Suc n) (Some k) rows ! k) = Some m \<and>
    \<not> row_visible (remove_clicks (Suc n) (Some k) rows ! k) \<and>
    visible_numbers (remove_clicks (Suc n) (Some k) rows) =
      map (\<lambda>j. if j > m then max m (j - Suc n) else j) (visible_numbers (without_row k rows))"
proof (induction n)
  case 0
  have m1: "(\<lambda>j. if m < j then j - 1 else j) = (\<lambda>j. if m < j then max m (j - Suc 0) else j)" by auto
  show ?case using one_removal [OF assms] by (simp add: remove_clicks_def m1)
next
  case (Suc n)
  let ?r = "remove_clicks (Suc n) (Some k) rows"
  from Suc have h: "k < length ?r" "row_number (?r ! k) = Some m" "\<forall>r \<in> set ?r. canonical_title (row_title r)"
    "\<not> row_visible (?r ! k)" using assms(1) by simp_all
  have step: "remove_clicks (Suc (Suc n)) (Some k) rows = fst (remove_association_click (Some k) ?r)"
    by (simp add: remove_clicks_def)
  have dec: "(\<lambda>j. if m < j then j - 1 else j) \<circ> (\<lambda>j. if m < j then max m (j - Suc n) else j) =
      (\<lambda>j. if m < j then max m (j - Suc (Suc n)) else j)"
    by (rule ext) auto
  have "visible_numbers (fst (remove_association_click (Some k) ?r)) =
      map (\<lambda>j. if m < j then j - 1 else j) (visible_numbers ?r)"
    using one_removal(5) [OF h(1,2,3)] visible_without_hidden [OF h(1,4)] by simp
  then show ?case
    using one_removal(1-4) [OF h(1,2,3)] Suc by (simp add: step dec)
qed

lemma pagination_clicks_sent:
  "sent (pagination_clicks n href pg) = sent pg @ replicate n (get_script href)"
proof (induction n)
  case (Suc n)
  have "pagination_clicks (Suc n) href pg = fst (pagination_click href (pagination_clicks n href pg))"
    by (simp add: pagination_clicks_def)
  with Suc show ?case by (simp add: pagination_click_def Let_def replicate_append_same)
qed (simp add: pagination_clicks_def)

section \<open>Properties\<close>

text \<open>Each ready callback of the application runs once when the page is opened and once for every page
  Turbolinks shows, so the elements of a new page get their handlers; the callback of the questionnaire
  runs twice for every page Turbolinks shows.\<close>

theorem ready_callbacks_rerun:
  "document_handlers cb (app_session evs) = (if cb = Plans_Ready then 2 * shown evs + 1 else shown evs + 1) \<and>
   body_handlers cb (app_session evs) (app_session (evs @ [Page_Shown])) = (if cb = Plans_Ready then 2 else 1)"
  by (simp add: body_handlers_def document_handlers_app)

text \<open>C8. The handlers of the removal and pagination links sit on the document and pile up: after some pages
  shown by Turbolinks, one click runs one handler more than pages were shown. A removal then lowers each
  greater number once per handler, down to the number removed, so from the second page on the titles no
  longer count 1, 2, ... when two or more rows follow; a pagination click sends its request that often.\<close>

theorem delegated_handlers_pile_up:
  assumes "k < length rows" and "row_visible (rows ! k)" and "row_number (rows ! k) = Some m"
    and "\<forall>r \<in> set rows. canonical_title (row_title r)"
    and "visible_numbers rows = [1..<Suc n]"
  shows "visible_numbers (remove_clicks (document_handlers Remove_Association (app_session evs)) (Some k) rows) =
           [1..<m] @ map (\<lambda>j. max m (j - Suc (shown evs))) [Suc m..<Suc n] \<and>
         sent (pagination_clicks (document_handlers Pagination (app_session evs)) href pg) =
           sent pg @ replicate (Suc (shown evs)) (get_script href)"
proof
  let ?xs = "take k rows" and ?ys = "drop (Suc k) rows"
  have rows: "rows = ?xs @ rows ! k # ?ys" using assms(1) by (rule id_take_nth_drop)
  have "visible_numbers ?xs @ [m] @ visible_numbers ?ys = [1..<Suc n]"
    using assms(2,3,5) by (subst (asm) rows) (simp del: upt_Suc)
  from upt_split_at [OF this] have xs: "visible_numbers ?xs = [1..<m]" and ys: "visible_numbers ?ys = [Suc m..<Suc n]"
    by auto
  have "map (\<lambda>j. if j > m then max m (j - Suc (shown evs)) else j) [1..<m] = [1..<m]"
    by (rule map_idI) auto
  moreover have "map (\<lambda>j. if j > m then max m (j - Suc (shown evs)) else j) [Suc m..<Suc n] =
      map (\<lambda>j. max m (j - Suc (shown evs))) [Suc m..<Suc n]"
    by (rule map_cong) auto
  ultimately have "map (\<lambda>j. if j > m then max m (j - Suc (shown evs)) else j) (visible_numbers (without_row k rows)) =
      [1..<m] @ map (\<lambda>j. max m (j - Suc (shown evs))) [Suc m..<Suc n]"
    by (simp only: without_row_def xs ys visible_numbers_simps map_append)
  with remove_clicks_rows [OF assms(1,3,4), of "shown evs"]
  show "visible_numbers (remove_clicks (document_handlers Remove_Association (app_session evs)) (Some k) rows) =
           [1..<m] @ map (\<lambda>j. max m (j - Suc (shown evs))) [Suc m..<Suc n]"
    by (simp add: document_handlers_app)
  show "sent (pagination_clicks (document_handlers Pagination (app_session evs)) href pg) =
           sent pg @ replicate (Suc (shown evs)) (get_script href)"
    by (simp add: document_handlers_app pagination_clicks_sent)
qed

theorem delegated_handlers_pile_up_witness:
  "visible_numbers (remove_clicks (document_handlers Remove_Association (app_session [Fetch_Started, Page_Shown]))
      (Some 1) example_rows) = [1, 1]"
proof -
  have l: "1 < length example_rows" and vis: "row_visible (example_rows ! 1)"
    and num: "row_number (example_rows ! 1) = Some 1"
    and canon: "\<forall>r \<in> set example_rows. canonical_title (row_title r)"
    and v: "visible_numbers example_rows = [1..<Suc 3]"
    by code_simp+
  have "shown [Fetch_Started, Page_Shown] = 1" by (simp add: shown_def)
  with delegated_handlers_pile_up [OF l vis num canon v, of "[Fetch_Started, Page_Shown]"] show ?thesis
    by (simp add: upt_rec)
qed

text \<open>C9. On a page shown by Turbolinks the questionnaire's handlers are bound twice: submitting always
  recommends the first two plans of the table, whatever was answered, and clicking a drop-down leaves its
  icon as it was.\<close>

theorem visit_breaks_questionnaire:
  assumes "questionnaire pg" and "\<forall>src \<in> set (drop_down_src pg). src = chevron_up \<or> src = chevron_down"
    and "n = body_handlers Plans_Ready (app_session evs) (app_session (evs @ [Page_Shown]))"
  shows "explanation_html ((submit_click ^^ n) pg) = ''We recommends whole life & variable life'' \<and>
         drop_down_clicks n i pg = pg"
proof -
  have n: "n = 2" by (simp add: assms(3) body_handlers_def document_handlers_app)
  have flip: "flip_chevron (flip_chevron src) = src" if "src = chevron_up \<or> src = chevron_down" for src
    using that by (auto simp: flip_chevron_def chevron_up_def chevron_down_def)
  have "drop_down_click i (drop_down_click i pg) = pg"
  proof (cases "i < length (drop_down_src pg)")
    case True
    with assms(2) have "flip_chevron (flip_chevron (drop_down_src pg ! i)) = drop_down_src pg ! i"
      by (intro flip) simp
    with True show ?thesis by (simp add: drop_down_click_def update_nth_def)
  qed (simp add: drop_down_click_def update_nth_def)
  then show ?thesis
    using submit_twice_default [OF assms(1)] by (simp add: n numeral_2_eq_2 drop_down_clicks_def)
qed

theorem visit_breaks_questionnaire_witness:
  "explanation_html (submit_click example_page) = ''We recommends variable universal life'' \<and>
   explanation_html ((submit_click ^^ body_handlers Plans_Ready (app_session []) (app_session ([] @ [Page_Shown])))
     example_page) = ''We recommends whole life & variable life''"
proof -
  have "questionnaire example_page" by code_simp
  moreover have "\<forall>src \<in> set (drop_down_src example_page). src = chevron_up \<or> src = chevron_down"
    by (simp add: example_page_def)
  moreover have "explanation_html (submit_click example_page) = ''We recommends variable universal life''" by code_simp
  ultimately show ?thesis using visit_breaks_questionnaire [OF _ _ refl, of example_page "[]"] by blast
qed

end
