(* ===== verification/Callbacks.thy ===== *)
theory Callbacks
  imports Prelude
begin

text \<open>
  jQuery's callback lists (\<open>jQuery.Callbacks\<close> of the deployed bundle), the base of its deferreds and of
  the ready queue. A list may be changed, fired, locked or disabled by the very callbacks it is calling;
  what a callback does to its own list is the parameter \<open>body\<close> (the operations it performs, in order, and
  whether it returns \<open>false\<close>). Firing is a step function iterated by a partial function, since callbacks
  can keep a list firing for ever. The lemmas show that firing never reads outside the list, that a
  removal never makes it skip a callback, and what a list of well-behaved callbacks does.
\<close>

section \<open>Options and state\<close>

record cb_options =
  opt_once :: bool
  opt_memory :: bool
  opt_unique :: bool
  opt_stop_on_false :: bool

text \<open>\<open>options.match(/\S+/g)\<close>: the words of the option string, each of which sets a flag.\<close>

fun words_from :: "string \<Rightarrow> string \<Rightarrow> string list" where
  "words_from w [] = (if w = [] then [] else [rev w])"
| "words_from w (c # cs) =
     (if is_space c then (if w = [] then words_from [] cs else rev w # words_from [] cs)
      else words_from (c # w) cs)"

definition create_options :: "string \<Rightarrow> cb_options" where
  "create_options s =
     (let ws = words_from [] s in
        \<lparr>opt_once = ''once'' \<in> set ws, opt_memory = ''memory'' \<in> set ws,
         opt_unique = ''unique'' \<in> set ws, opt_stop_on_false = ''stopOnFalse'' \<in> set ws\<rparr>)"

text \<open>
  \<open>list\<close>, \<open>stack\<close> and \<open>memory\<close> are \<^const>\<open>None\<close> where the code has \<open>undefined\<close> or \<open>false\<close>; \<open>cb_calls\<close>
  records the calls made.
\<close>

record ('cb, 'd) callbacks =
  cb_opts :: cb_options
  cb_list :: "'cb list option"
  cb_stack :: "'d list option"
  cb_memory :: "'d option"
  cb_fired :: bool
  cb_firing :: bool
  firing_length :: int
  firing_index :: int
  firing_start :: nat
  cb_calls :: "('cb \<times> 'd) list"

definition new_callbacks :: "string \<Rightarrow> ('cb, 'd) callbacks" where
  "new_callbacks options =
     (let opts = create_options options in
        \<lparr>cb_opts = opts, cb_list = Some [], cb_stack = (if opt_once opts then None else Some []),
         cb_memory = None, cb_fired = False, cb_firing = False, firing_length = 0, firing_index = 0,
         firing_start = 0, cb_calls = []\<rparr>)"

section \<open>Operations that call nothing\<close>

text \<open>The arguments of \<open>add\<close>: functions, arrays of arguments, and anything else, which is ignored.\<close>

datatype 'cb cb_arg = Fn 'cb | Args "'cb cb_arg list" | Other

fun flatten_arg :: "'cb cb_arg \<Rightarrow> 'cb list" where
  "flatten_arg (Fn f) = [f]"
| "flatten_arg (Args xs) = concat (map flatten_arg xs)"
| "flatten_arg Other = []"

definition push_callback :: "bool \<Rightarrow> 'cb \<Rightarrow> 'cb list \<Rightarrow> 'cb list" where
  "push_callback uniq f l = (if \<not> uniq \<or> f \<notin> set l then l @ [f] else l)"

definition push_callbacks :: "bool \<Rightarrow> 'cb list \<Rightarrow> 'cb list \<Rightarrow> 'cb list" where
  "push_callbacks uniq fs l = fold (push_callback uniq) fs l"

text \<open>\<open>remove\<close> of one callback: each occurrence found from \<open>index\<close> on is spliced out.\<close>

definition splice_out :: "nat \<Rightarrow> 'cb list \<Rightarrow> 'cb list" where
  "splice_out i l = take i l @ drop (Suc i) l"

definition index_from :: "'cb \<Rightarrow> 'cb list \<Rightarrow> nat \<Rightarrow> nat option" where
  "index_from f l i =
     (case filter (\<lambda>j. l ! j = f) [i..<length l] of [] \<Rightarrow> None | j # _ \<Rightarrow> Some j)"

definition removed_at :: "nat \<Rightarrow> 'cb list \<Rightarrow> ('cb, 'd) callbacks \<Rightarrow> ('cb, 'd) callbacks" where
  "removed_at i l s =
     (let s = s\<lparr>cb_list := Some (splice_out i l)\<rparr> in
        if cb_firing s
        then s\<lparr>firing_length := (if int i \<le> firing_length s then firing_length s - 1 else firing_length s),
               firing_index := (if int i \<le> firing_index s then firing_index s - 1 else firing_index s)\<rparr>
        else s)"

lemma index_from_Some: "index_from f l i = Some j \<Longrightarrow> i \<le> j \<and> j < length l \<and> l ! j = f"
proof -
  assume "index_from f l i = Some j"
  then obtain js where js: "filter (\<lambda>j. l ! j = f) [i..<length l] = j # js"
    by (auto simp: index_from_def split: list.splits)
  have "j \<in> set (filter (\<lambda>j. l ! j = f) [i..<length l])" unfolding js by simp
  then show ?thesis by auto
qed

function (sequential) remove_from :: "'cb \<Rightarrow> nat \<Rightarrow> ('cb, 'd) callbacks \<Rightarrow> ('cb, 'd) callbacks" where
  "remove_from f i s =
     (case cb_list s of
        None \<Rightarrow> s
      | Some l \<Rightarrow>
          (case index_from f l i of
             None \<Rightarrow> s
           | Some j \<Rightarrow> remove_from f j (removed_at j l s)))"
  by pat_completeness auto
termination
  by (relation "measure (\<lambda>(f, i, s). case cb_list s of None \<Rightarrow> 0 | Some l \<Rightarrow> length l)")
    (auto simp: removed_at_def Let_def splice_out_def dest!: index_from_Some)

declare remove_from.simps [simp del]

definition remove_callbacks :: "'cb list \<Rightarrow> ('cb, 'd) callbacks \<Rightarrow> ('cb, 'd) callbacks" where
  "remove_callbacks fs s = (if cb_list s = None then s else fold (\<lambda>f. remove_from f 0) fs s)"

definition has_callback :: "'cb option \<Rightarrow> ('cb, 'd) callbacks \<Rightarrow> bool" where
  "has_callback f s =
     (case f of
        Some g \<Rightarrow> (case cb_list s of None \<Rightarrow> False | Some l \<Rightarrow> g \<in> set l)
      | None \<Rightarrow> (case cb_list s of None \<Rightarrow> False | Some l \<Rightarrow> l \<noteq> []))"

definition empty_callbacks :: "('cb, 'd) callbacks \<Rightarrow> ('cb, 'd) callbacks" where
  "empty_callbacks s = s\<lparr>cb_list := Some [], firing_length := 0\<rparr>"

definition disable :: "('cb, 'd) callbacks \<Rightarrow> ('cb, 'd) callbacks" where
  "disable s = s\<lparr>cb_list := None, cb_stack := None, cb_memory := None\<rparr>"

definition disabled :: "('cb, 'd) callbacks \<Rightarrow> bool" where
  "disabled s \<longleftrightarrow> cb_list s = None"

definition lock :: "('cb, 'd) callbacks \<Rightarrow> ('cb, 'd) callbacks" where
  "lock s = (let s = s\<lparr>cb_stack := None\<rparr> in if cb_memory s = None then disable s else s)"

definition locked :: "('cb, 'd) callbacks \<Rightarrow> bool" where
  "locked s \<longleftrightarrow> cb_stack s = None"

section \<open>Firing\<close>

text \<open>What a callback may do to the list that is calling it. Nothing here fires: the list is firing.\<close>

datatype ('cb, 'd) list_op =
    Op_Add "'cb cb_arg list"
  | Op_Remove "'cb list"
  | Op_Empty
  | Op_Disable
  | Op_Lock
  | Op_Fire 'd

definition may_fire :: "('cb, 'd) callbacks \<Rightarrow> bool" where
  "may_fire s \<longleftrightarrow> cb_list s \<noteq> None \<and> (\<not> cb_fired s \<or> cb_stack s \<noteq> None)"

definition apply_op :: "('cb, 'd) list_op \<Rightarrow> ('cb, 'd) callbacks \<Rightarrow> ('cb, 'd) callbacks" where
  "apply_op op s =
     (case op of
        Op_Add args \<Rightarrow>
          (case cb_list s of
             None \<Rightarrow> s
           | Some l \<Rightarrow>
               let l' = push_callbacks (opt_unique (cb_opts s)) (flatten_arg (Args args)) l in
                 s\<lparr>cb_list := Some l', firing_length := int (length l')\<rparr>)
      | Op_Remove fs \<Rightarrow> remove_callbacks fs s
      | Op_Empty \<Rightarrow> empty_callbacks s
      | Op_Disable \<Rightarrow> disable s
      | Op_Lock \<Rightarrow> lock s
      | Op_Fire d \<Rightarrow>
          if may_fire s then s\<lparr>cb_stack := map_option (\<lambda>st. st @ [d]) (cb_stack s)\<rparr> else s)"

type_synonym ('cb, 'd) cb_body = "'cb \<Rightarrow> 'd \<Rightarrow> ('cb, 'd) list_op list \<times> bool"

text \<open>One call; the result tells whether the callback returned \<open>false\<close>.\<close>

definition invoke ::
  "('cb, 'd) cb_body \<Rightarrow> 'cb \<Rightarrow> 'd \<Rightarrow> ('cb, 'd) callbacks \<Rightarrow> ('cb, 'd) callbacks \<times> bool" where
  "invoke body f d s =
     (fold apply_op (fst (body f d)) (s\<lparr>cb_calls := cb_calls s @ [(f, d)]\<rparr>), snd (body f d))"

definition start_firing :: "'d \<Rightarrow> ('cb, 'd) callbacks \<Rightarrow> ('cb, 'd) callbacks" where
  "start_firing d s =
     s\<lparr>cb_memory := (if opt_memory (cb_opts s) then Some d else None), cb_fired := True,
       firing_index := int (firing_start s), firing_start := 0,
       firing_length := (case cb_list s of None \<Rightarrow> 0 | Some l \<Rightarrow> int (length l)), cb_firing := True\<rparr>"

datatype ('cb, 'd) fire_result = Crashed | Finished "('cb, 'd) callbacks" | Continue 'd "('cb, 'd) callbacks"

text \<open>After the loop: the next entry of the stack is fired, or a list that fires once is closed.\<close>

definition after_loop :: "('cb, 'd) callbacks \<Rightarrow> ('cb, 'd) fire_result" where
  "after_loop s =
     (let s = s\<lparr>cb_firing := False\<rparr> in
        if cb_list s = None then Finished s
        else case cb_stack s of
          Some (d # ds) \<Rightarrow> Continue d (start_firing d (s\<lparr>cb_stack := Some ds\<rparr>))
        | Some [] \<Rightarrow> Finished s
        | None \<Rightarrow> if cb_memory s \<noteq> None then Finished (s\<lparr>cb_list := Some []\<rparr>) else Finished (disable s))"

text \<open>One turn of the loop of \<open>fire\<close>; calling an \<open>undefined\<close> entry of the list would throw.\<close>

definition fire_step :: "('cb, 'd) cb_body \<Rightarrow> 'd \<Rightarrow> ('cb, 'd) callbacks \<Rightarrow> ('cb, 'd) fire_result" where
  "fire_step body d s =
     (case cb_list s of
        None \<Rightarrow> after_loop s
      | Some l \<Rightarrow>
          if \<not> firing_index s < firing_length s then after_loop s
          else if \<not> (0 \<le> firing_index s \<and> firing_index s < int (length l)) then Crashed
          else
            let (s', returned_false) = invoke body (l ! nat (firing_index s)) d s in
              if returned_false \<and> opt_stop_on_false (cb_opts s') then after_loop (s'\<lparr>cb_memory := None\<rparr>)
              else Continue d (s'\<lparr>firing_index := firing_index s' + 1\<rparr>))"

partial_function (option) fire_loop ::
  "('cb, 'd) cb_body \<Rightarrow> 'd \<Rightarrow> ('cb, 'd) callbacks \<Rightarrow> (js_error + ('cb, 'd) callbacks) option" where
  "fire_loop body d s =
     (case fire_step body d s of
        Crashed \<Rightarrow> Some (Inl Type_Error)
      | Finished s' \<Rightarrow> Some (Inr s')
      | Continue d' s' \<Rightarrow> fire_loop body d' s')"

text \<open>\<open>fire\<close>, \<open>add\<close> and \<open>fireWith\<close> on a list that is not firing. The result is \<^const>\<open>None\<close> when firing never ends.\<close>

definition fire :: "('cb, 'd) cb_body \<Rightarrow> 'd \<Rightarrow> ('cb, 'd) callbacks \<Rightarrow> (js_error + ('cb, 'd) callbacks) option" where
  "fire body d s = fire_loop body d (start_firing d s)"

definition add_callbacks ::
  "('cb, 'd) cb_body \<Rightarrow> 'cb cb_arg list \<Rightarrow> ('cb, 'd) callbacks \<Rightarrow> (js_error + ('cb, 'd) callbacks) option" where
  "add_callbacks body args s =
     (case cb_list s of
        None \<Rightarrow> Some (Inr s)
      | Some l \<Rightarrow>
          let s' = s\<lparr>cb_list := Some (push_callbacks (opt_unique (cb_opts s)) (flatten_arg (Args args)) l)\<rparr> in
            case cb_memory s of
              None \<Rightarrow> Some (Inr s')
            | Some d \<Rightarrow> fire body d (s'\<lparr>firing_start := length l\<rparr>))"

definition fire_with ::
  "('cb, 'd) cb_body \<Rightarrow> 'd \<Rightarrow> ('cb, 'd) callbacks \<Rightarrow> (js_error + ('cb, 'd) callbacks) option" where
  "fire_with body d s = (if may_fire s then fire body d s else Some (Inr s))"

section \<open>The firing loop stays inside the list\<close>

text \<open>
  While a list fires, the recorded length is that of the list; between two calls the index is at least 0,
  and during a call, after removals, at least -1.
\<close>

definition firing_ok :: "int \<Rightarrow> ('cb, 'd) callbacks \<Rightarrow> bool" where
  "firing_ok low s \<longleftrightarrow>
     cb_firing s \<and> low \<le> firing_index s \<and>
     (case cb_list s of None \<Rightarrow> True | Some l \<Rightarrow> firing_length s = int (length l))"

lemma remove_from_ok: "firing_ok (- 1) s \<Longrightarrow> firing_ok (- 1) (remove_from f i s)"
proof (induction f i s rule: remove_from.induct)
  case (1 f i s)
  show ?case
  proof (cases "cb_list s")
    case None
    with 1(2) show ?thesis by (simp add: remove_from.simps [of f i s])
  next
    case (Some l)
    show ?thesis
    proof (cases "index_from f l i")
      case None
      with Some 1(2) show ?thesis by (simp add: remove_from.simps [of f i s])
    next
      case (Some j)
      have j: "j < length l" using index_from_Some [OF Some] by simp
      have "firing_ok (- 1) (removed_at j l s)"
        using 1(2) j \<open>cb_list s = Some l\<close> by (auto simp: firing_ok_def removed_at_def Let_def splice_out_def)
      with 1(1) [OF \<open>cb_list s = Some l\<close> Some] Some \<open>cb_list s = Some l\<close> show ?thesis
        by (simp add: remove_from.simps [of f i s])
    qed
  qed
qed

lemma apply_op_ok: "firing_ok (- 1) s \<Longrightarrow> firing_ok (- 1) (apply_op op s)"
proof (cases op)
  case (Op_Remove fs)
  assume "firing_ok (- 1) s"
  then have "firing_ok (- 1) (fold (\<lambda>f. remove_from f 0) fs s)"
    by (induction fs arbitrary: s) (simp_all add: remove_from_ok)
  with Op_Remove \<open>firing_ok (- 1) s\<close> show ?thesis by (simp add: apply_op_def remove_callbacks_def)
qed (auto simp: apply_op_def firing_ok_def empty_callbacks_def disable_def lock_def Let_def split: option.splits)

lemma invoke_ok: "firing_ok 0 s \<Longrightarrow> firing_ok (- 1) (fst (invoke body f d s))"
proof -
  assume "firing_ok 0 s"
  then have "firing_ok (- 1) (s\<lparr>cb_calls := cb_calls s @ [(f, d)]\<rparr>)"
    by (auto simp: firing_ok_def split: option.splits)
  then have "firing_ok (- 1) (fold apply_op ops (s\<lparr>cb_calls := cb_calls s @ [(f, d)]\<rparr>))" for ops
    by (induction ops rule: rev_induct) (simp_all add: apply_op_ok)
  then show ?thesis by (simp add: invoke_def)
qed

lemma after_loop_ok: "after_loop s = Continue d s' \<Longrightarrow> firing_ok 0 s'"
  by (auto simp: after_loop_def Let_def start_firing_def firing_ok_def split: if_splits option.splits list.splits)

lemma fire_step_ok:
  assumes "firing_ok 0 s"
  shows "fire_step body d s \<noteq> Crashed" and "fire_step body d s = Continue d' s' \<Longrightarrow> firing_ok 0 s'"
proof -
  have nc: "after_loop t \<noteq> Crashed" for t :: "('a, 'b) callbacks"
    by (auto simp: after_loop_def Let_def split: option.splits list.splits)
  show "fire_step body d s \<noteq> Crashed"
    using assms nc by (auto simp: fire_step_def firing_ok_def Let_def split: option.splits prod.splits)
  assume c: "fire_step body d s = Continue d' s'"
  show "firing_ok 0 s'"
  proof (cases "\<exists>t. after_loop t = Continue d' s'")
    case True
    then obtain t where "after_loop t = Continue d' s'" by blast
    then show ?thesis by (rule after_loop_ok)
  next
    case False
    with c obtain f s1 b where s1: "invoke body f d s = (s1, b)" "s' = s1\<lparr>firing_index := firing_index s1 + 1\<rparr>"
      by (auto simp: fire_step_def Let_def split: option.splits if_splits prod.splits)
    with invoke_ok [OF assms, of body f d] show ?thesis
      by (auto simp: firing_ok_def split: option.splits)
  qed
qed

lemma fire_loop_ok:
  assumes "fire_loop body d s = Some r" and "firing_ok 0 s"
  shows "r \<noteq> Inl Type_Error"
proof -
  have "firing_ok 0 s \<longrightarrow> r \<noteq> Inl Type_Error"
  proof (rule fire_loop.raw_induct [OF _ assms(1)], rule impI)
    fix loop body r and d :: 'b and s :: "('a, 'b) callbacks"
    assume ih: "\<And>body d s r. loop body d s = Some r \<Longrightarrow> firing_ok 0 s \<longrightarrow> r \<noteq> Inl Type_Error"
      and run: "(case fire_step body d s of
            Crashed \<Rightarrow> Some (Inl Type_Error) | Finished s' \<Rightarrow> Some (Inr s') | Continue d' s' \<Rightarrow> loop body d' s') = Some r"
      and ok: "firing_ok 0 s"
    from fire_step_ok(1) [OF ok, of body d] fire_step_ok(2) [OF ok, of body d] run show "r \<noteq> Inl Type_Error"
      by (cases "fire_step body d s") (auto dest: ih)
  qed
  with assms(2) show ?thesis by blast
qed

lemma start_firing_ok: "firing_ok 0 (start_firing d s)"
  by (simp add: firing_ok_def start_firing_def split: option.split)

section \<open>What is still to be called\<close>

text \<open>During a call, the callbacks after the current one.\<close>

definition pending :: "('cb, 'd) callbacks \<Rightarrow> 'cb list" where
  "pending s = (case cb_list s of None \<Rightarrow> [] | Some l \<Rightarrow> drop (nat (firing_index s + 1)) l)"

lemma filter_splice: "j < length l \<Longrightarrow> \<not> P (l ! j) \<Longrightarrow> filter P (splice_out j l) = filter P l"
  unfolding splice_out_def
  by (subst (3) id_take_nth_drop [of j l]) simp_all

lemma drop_splice: "k \<le> j \<Longrightarrow> drop k (splice_out j l) = splice_out (j - k) (drop k l)"
  by (simp add: splice_out_def drop_take min_def add.commute)

lemma drop_splice_after: "j < length l \<Longrightarrow> j < k \<Longrightarrow> drop k l = drop (k - 1) (splice_out j l)"
  by (cases k) (simp_all add: splice_out_def)

lemma removed_at_pending:
  assumes "firing_ok (- 1) s" and "cb_list s = Some l" and "j < length l" and "l ! j = f"
  shows "filter (\<lambda>c. c \<noteq> f) (pending (removed_at j l s)) = filter (\<lambda>c. c \<noteq> f) (pending s)"
proof (cases "int j \<le> firing_index s")
  case True
  then have "drop (nat (firing_index s + 1)) l = drop (nat (firing_index s + 1) - 1) (splice_out j l)"
    using assms(3) by (intro drop_splice_after) linarith+
  moreover have "nat (firing_index s + 1) - 1 = nat (firing_index s)" using True by linarith
  ultimately show ?thesis
    using True assms(1,2) by (simp add: pending_def removed_at_def Let_def firing_ok_def)
next
  case False
  let ?k = "nat (firing_index s + 1)"
  have k: "?k \<le> j" using False by linarith
  have "drop ?k (splice_out j l) = splice_out (j - ?k) (drop ?k l)" by (rule drop_splice [OF k])
  moreover have "filter (\<lambda>c. c \<noteq> f) (splice_out (j - ?k) (drop ?k l)) = filter (\<lambda>c. c \<noteq> f) (drop ?k l)"
    using k assms(3,4) by (intro filter_splice) auto
  ultimately show ?thesis
    using False assms(1,2) by (simp add: pending_def removed_at_def Let_def firing_ok_def)
qed

lemma index_from_None: "index_from f l i = None \<Longrightarrow> f \<notin> set (drop i l)"
proof
  assume none: "index_from f l i = None" and "f \<in> set (drop i l)"
  then obtain k where "k < length (drop i l)" "drop i l ! k = f" by (auto simp: in_set_conv_nth)
  then have k: "i + k \<in> set (filter (\<lambda>j. l ! j = f) [i..<length l])" by auto
  from none have "filter (\<lambda>j. l ! j = f) [i..<length l] = []" by (auto simp: index_from_def split: list.splits)
  with k show False by (simp only: list.set empty_iff)
qed

lemma index_from_before: "index_from f l i = Some j \<Longrightarrow> f \<notin> set (take i l) \<Longrightarrow> f \<notin> set (take j l)"
proof
  assume j: "index_from f l i = Some j" and pre: "f \<notin> set (take i l)" and "f \<in> set (take j l)"
  then obtain k where k: "k < j" "k < length l" "l ! k = f" by (auto simp: in_set_conv_nth)
  have ik: "i \<le> k"
  proof (rule ccontr)
    assume "\<not> i \<le> k"
    with k have "f \<in> set (take i l)" by (auto simp: in_set_conv_nth)
    with pre show False ..
  qed
  obtain js where js: "filter (\<lambda>j. l ! j = f) [i..<length l] = j # js"
    using j by (auto simp: index_from_def split: list.splits)
  have "sorted (j # js)" unfolding js [symmetric] by (rule sorted_wrt_filter) simp
  moreover have "k \<in> set (filter (\<lambda>j. l ! j = f) [i..<length l])" using k ik by simp
  ultimately have "j \<le> k" unfolding js by auto
  with k(1) show False by simp
qed

lemma remove_from_list:
  assumes "firing_ok (- 1) s" and "cb_list s = Some l" and "f \<notin> set (take i l)"
  shows "\<exists>l'. cb_list (remove_from f i s) = Some l' \<and> f \<notin> set l' \<and>
           pending (remove_from f i s) = filter (\<lambda>c. c \<noteq> f) (pending s)"
  using assms
proof (induction f i s arbitrary: l rule: remove_from.induct)
  case (1 f i s)
  show ?case
  proof (cases "index_from f l i")
    case None
    then have "f \<notin> set l" using 1(4) index_from_None [OF None] by (metis Un_iff append_take_drop_id set_append)
    moreover from this have "filter (\<lambda>c. c \<noteq> f) (drop k l) = drop k l" for k
      by (auto simp: filter_id_conv dest: in_set_dropD)
    ultimately show ?thesis
      using 1(3) None by (simp add: remove_from.simps [of f i s] pending_def)
  next
    case (Some j)
    have j: "j < length l" "l ! j = f" using index_from_Some [OF Some] by simp_all
    let ?t = "removed_at j l s"
    have t: "firing_ok (- 1) ?t" "cb_list ?t = Some (splice_out j l)"
      using 1(2,3) j by (auto simp: firing_ok_def removed_at_def Let_def splice_out_def)
    have "f \<notin> set (take j (splice_out j l))"
      using index_from_before [OF Some 1(4)] j by (simp add: splice_out_def)
    from 1(1) [OF 1(3) Some t this] removed_at_pending [OF 1(2,3) j] Some 1(3) show ?thesis
      by (simp add: remove_from.simps [of f i s])
  qed
qed

lemma remove_all_pending:
  assumes "firing_ok (- 1) s" and "cb_list s = Some l"
  shows "\<exists>l'. cb_list (fold (\<lambda>f. remove_from f 0) fs s) = Some l' \<and>
           pending (fold (\<lambda>f. remove_from f 0) fs s) = filter (\<lambda>c. c \<notin> set fs) (pending s)"
  using assms
proof (induction fs arbitrary: s l)
  case (Cons f fs)
  from remove_from_list [OF Cons.prems, of f 0] obtain l' where
    l': "cb_list (remove_from f 0 s) = Some l'" "pending (remove_from f 0 s) = filter (\<lambda>c. c \<noteq> f) (pending s)"
    by auto
  from Cons.IH [OF remove_from_ok [OF Cons.prems(1)] l'(1)] l'(2) show ?case
    by (simp add: conj_commute)
qed simp

section \<open>Callbacks that leave their list alone\<close>

definition quiet :: "('cb, 'd) cb_body \<Rightarrow> bool" where
  "quiet body \<longleftrightarrow> (\<forall>c d. body c d = ([], False))"

lemma fire_step_quiet:
  assumes "quiet body" and "cb_list s = Some l" and "firing_length s = int (length l)"
    and "firing_index s = int i" and "i < length l"
  shows "fire_step body d s = Continue d (s\<lparr>cb_calls := cb_calls s @ [(l ! i, d)], firing_index := int (Suc i)\<rparr>)"
  using assms by (simp add: fire_step_def invoke_def quiet_def)

definition finish :: "('cb, 'd) callbacks \<Rightarrow> (js_error + ('cb, 'd) callbacks) option" where
  "finish s = (case after_loop s of Finished s' \<Rightarrow> Some (Inr s') | _ \<Rightarrow> None)"

lemma fire_loop_quiet:
  assumes "quiet body" and "cb_list s = Some l" and "firing_length s = int (length l)"
    and "firing_index s = int i" and "i \<le> length l" and "cb_stack s = None \<or> cb_stack s = Some []"
  shows "fire_loop body d s =
           finish (s\<lparr>cb_calls := cb_calls s @ map (\<lambda>c. (c, d)) (drop i l), firing_index := int (length l)\<rparr>)"
  using assms
proof (induction "length l - i" arbitrary: i s)
  case 0
  then have i: "i = length l" by simp
  with 0 have "fire_step body d s = after_loop s" by (simp add: fire_step_def)
  moreover have "\<exists>s'. after_loop s = Finished s'" using 0 by (auto simp: after_loop_def Let_def)
  moreover have "s\<lparr>firing_index := int (length l)\<rparr> = s" using 0 i by simp
  ultimately show ?case using i by (auto simp: fire_loop.simps [of body d s] finish_def)
next
  case (Suc n)
  then have i: "i < length l" by simp
  let ?t = "s\<lparr>cb_calls := cb_calls s @ [(l ! i, d)], firing_index := int (Suc i)\<rparr>"
  have "fire_loop body d s = fire_loop body d ?t"
    using fire_step_quiet [OF Suc.prems(1,2,3,4) i, of d] by (simp add: fire_loop.simps [of body d s])
  also have "\<dots> = finish (?t\<lparr>cb_calls := cb_calls ?t @ map (\<lambda>c. (c, d)) (drop (Suc i) l), firing_index := int (length l)\<rparr>)"
    using Suc.prems i Suc.hyps(2) by (intro Suc.hyps(1)) auto
  finally show ?case using i by (simp add: Cons_nth_drop_Suc [symmetric])
qed

text \<open>Firing such a list calls what it holds from \<open>firingStart\<close> on, once each and in order.\<close>

lemma fire_quiet:
  assumes "quiet body" and "cb_list s = Some l" and "firing_start s \<le> length l"
    and "cb_stack s = None \<or> cb_stack s = Some []"
  shows "\<exists>s'. fire body d s = Some (Inr s') \<and>
     cb_calls s' = cb_calls s @ map (\<lambda>c. (c, d)) (drop (firing_start s) l) \<and>
     cb_fired s' \<and> \<not> cb_firing s' \<and> firing_start s' = 0 \<and> cb_opts s' = cb_opts s \<and> cb_stack s' = cb_stack s \<and>
     cb_memory s' = (if opt_memory (cb_opts s) then Some d else None) \<and>
     cb_list s' = (if cb_stack s = Some [] then Some l else if opt_memory (cb_opts s) then Some [] else None)"
proof -
  have "fire body d s = finish ((start_firing d s)
      \<lparr>cb_calls := cb_calls s @ map (\<lambda>c. (c, d)) (drop (firing_start s) l), firing_index := int (length l)\<rparr>)"
    unfolding fire_def using assms
    by (subst fire_loop_quiet [where i = "firing_start s" and l = l]) (auto simp: start_firing_def)
  then show ?thesis
    using assms(2,4) by (auto simp: finish_def after_loop_def Let_def start_firing_def disable_def)
qed

section \<open>Properties\<close>

text \<open>Firing a list, or adding to one that remembers its last values, never calls an entry outside the
  list, whatever the callbacks do to the list while they run: no call of \<open>undefined\<close> is reached.\<close>

theorem firing_stays_in_list:
  "fire_with body d s \<noteq> Some (Inl Type_Error) \<and> add_callbacks body args s \<noteq> Some (Inl Type_Error)"
proof -
  have "fire body d s \<noteq> Some (Inl Type_Error)" for d and s :: "('a, 'b) callbacks"
    using fire_loop_ok [OF _ start_firing_ok, of body d] unfolding fire_def by blast
  then show ?thesis by (auto simp: fire_with_def add_callbacks_def Let_def split: option.splits)
qed

text \<open>A callback that removes callbacks from the list that is calling it takes exactly those out of what
  is still to be called: no other callback is skipped and none is called again.\<close>

theorem removal_skips_nothing:
  assumes "firing_ok (- 1) s"
  shows "pending (apply_op (Op_Remove fs) s) = filter (\<lambda>c. c \<notin> set fs) (pending s)"
proof (cases "cb_list s")
  case None
  then show ?thesis by (simp add: apply_op_def remove_callbacks_def pending_def)
next
  case (Some l)
  with remove_all_pending [OF assms Some, of fs] show ?thesis
    by (auto simp: apply_op_def remove_callbacks_def)
qed

definition example_firing :: "(nat, nat) callbacks" where
  "example_firing = (start_firing 7 (new_callbacks [])\<lparr>cb_list := Some [1, 2, 3, 2, 4], firing_index := 1, firing_length := 5\<rparr>)"

theorem removal_skips_nothing_witness:
  "pending example_firing = [3, 2, 4] \<and> pending (apply_op (Op_Remove [1, 2]) example_firing) = [3, 4]"
proof -
  have "firing_ok (- 1) example_firing" and p: "pending example_firing = [3, 2, 4]" by code_simp+
  from removal_skips_nothing [OF this(1), of "[1, 2]"] p show ?thesis by simp
qed

end
