(* ===== verification/Deferreds.thy ===== *)
theory Deferreds
  imports Callbacks
begin

text \<open>
  jQuery's deferreds (\<open>jQuery.Deferred\<close> of the deployed bundle): three callback lists wired together, so
  that resolving disables the list of failures and locks the list of progress. The operations here are
  those of the theory \<open>Callbacks\<close> on the three lists. The abstract promise is what a client may rely
  on: it settles once, each callback is called at most once with the settled value, and in the order of
  registration. The refinement says that the wired lists are such a promise for any sequence of
  operations, with callbacks of the client that leave the deferred itself alone. \<open>when\<close> follows.
\<close>

section \<open>The wired lists\<close>

datatype promise_state = Pending | Resolved | Rejected

datatype list_name = Done_List | Fail_List | Progress_List

text \<open>The functions the constructor adds to the lists, and those of the client.\<close>

datatype 'cb deferred_cb = Set_State promise_state | Disable_List list_name | Lock_Progress | User 'cb

type_synonym ('cb, 'd) deferred_list = "('cb deferred_cb, 'd) callbacks"

record ('cb, 'd) deferred =
  d_state :: promise_state
  d_done :: "('cb, 'd) deferred_list"
  d_fail :: "('cb, 'd) deferred_list"
  d_progress :: "('cb, 'd) deferred_list"
  d_log :: "('cb \<times> 'd) list"

type_synonym ('cb, 'd) deferred_result = "(js_error + ('cb, 'd) deferred) option"

fun get_list :: "list_name \<Rightarrow> ('cb, 'd) deferred \<Rightarrow> ('cb, 'd) deferred_list" where
  "get_list Done_List x = d_done x"
| "get_list Fail_List x = d_fail x"
| "get_list Progress_List x = d_progress x"

fun set_list :: "list_name \<Rightarrow> ('cb, 'd) deferred_list \<Rightarrow> ('cb, 'd) deferred \<Rightarrow> ('cb, 'd) deferred" where
  "set_list Done_List l x = x\<lparr>d_done := l\<rparr>"
| "set_list Fail_List l x = x\<lparr>d_fail := l\<rparr>"
| "set_list Progress_List l x = x\<lparr>d_progress := l\<rparr>"

text \<open>What calling an entry of a list does to the deferred; the client's own effects are the log.\<close>

fun cb_effect :: "'cb deferred_cb \<times> 'd \<Rightarrow> ('cb, 'd) deferred \<Rightarrow> ('cb, 'd) deferred" where
  "cb_effect (Set_State st, v) x = x\<lparr>d_state := st\<rparr>"
| "cb_effect (Disable_List w, v) x = set_list w (disable (get_list w x)) x"
| "cb_effect (Lock_Progress, v) x = x\<lparr>d_progress := lock (d_progress x)\<rparr>"
| "cb_effect (User c, v) x = x\<lparr>d_log := d_log x @ [(c, v)]\<rparr>"

definition own_body :: "('cb deferred_cb, 'd) cb_body" where
  "own_body = (\<lambda>c v. ([], False))"

definition on_list ::
  "list_name \<Rightarrow> (('cb, 'd) deferred_list \<Rightarrow> (js_error + ('cb, 'd) deferred_list) option) \<Rightarrow>
     ('cb, 'd) deferred \<Rightarrow> ('cb, 'd) deferred_result" where
  "on_list w f x =
     (case f (get_list w x) of
        None \<Rightarrow> None
      | Some (Inl err) \<Rightarrow> Some (Inl err)
      | Some (Inr l) \<Rightarrow>
          Some (Inr (fold cb_effect (drop (length (cb_calls (get_list w x))) (cb_calls l)) (set_list w l x))))"

definition bind_result ::
  "('cb, 'd) deferred_result \<Rightarrow> (('cb, 'd) deferred \<Rightarrow> ('cb, 'd) deferred_result) \<Rightarrow> ('cb, 'd) deferred_result" where
  "bind_result r f = (case r of None \<Rightarrow> None | Some (Inl err) \<Rightarrow> Some (Inl err) | Some (Inr x) \<Rightarrow> f x)"

definition list_add :: "list_name \<Rightarrow> 'cb deferred_cb list \<Rightarrow> ('cb, 'd) deferred \<Rightarrow> ('cb, 'd) deferred_result" where
  "list_add w fs = on_list w (add_callbacks own_body (map Fn fs))"

definition new_deferred :: "('cb, 'd) deferred_result" where
  "new_deferred =
     bind_result
       (list_add Done_List [Set_State Resolved, Disable_List Fail_List, Lock_Progress]
          \<lparr>d_state = Pending, d_done = new_callbacks ''once memory'', d_fail = new_callbacks ''once memory'',
           d_progress = new_callbacks ''memory'', d_log = []\<rparr>)
       (list_add Fail_List [Set_State Rejected, Disable_List Done_List, Lock_Progress])"

text \<open>The operations of a deferred.\<close>

datatype ('cb, 'd) deferred_op =
    Add_Done 'cb
  | Add_Fail 'cb
  | Add_Progress 'cb
  | Add_Always 'cb
  | Resolve 'd
  | Reject 'd
  | Notify 'd

fun deferred_do :: "('cb, 'd) deferred_op \<Rightarrow> ('cb, 'd) deferred \<Rightarrow> ('cb, 'd) deferred_result" where
  "deferred_do (Add_Done c) x = list_add Done_List [User c] x"
| "deferred_do (Add_Fail c) x = list_add Fail_List [User c] x"
| "deferred_do (Add_Progress c) x = list_add Progress_List [User c] x"
| "deferred_do (Add_Always c) x = bind_result (list_add Done_List [User c] x) (list_add Fail_List [User c])"
| "deferred_do (Resolve v) x = on_list Done_List (fire_with own_body v) x"
| "deferred_do (Reject v) x = on_list Fail_List (fire_with own_body v) x"
| "deferred_do (Notify v) x = on_list Progress_List (fire_with own_body v) x"

fun run_deferred :: "('cb, 'd) deferred_op list \<Rightarrow> ('cb, 'd) deferred \<Rightarrow> ('cb, 'd) deferred_result" where
  "run_deferred [] x = Some (Inr x)"
| "run_deferred (op # ops) x = bind_result (deferred_do op x) (run_deferred ops)"

section \<open>The promise a client sees\<close>

record ('cb, 'd) promise =
  p_state :: promise_state
  p_value :: "'d option"
  p_done :: "'cb list"
  p_fail :: "'cb list"
  p_progress :: "'cb list"
  p_last :: "'d option"
  p_log :: "('cb \<times> 'd) list"

definition new_promise :: "('cb, 'd) promise" where
  "new_promise =
     \<lparr>p_state = Pending, p_value = None, p_done = [], p_fail = [], p_progress = [], p_last = None, p_log = []\<rparr>"

definition tell :: "'cb list \<Rightarrow> 'd option \<Rightarrow> ('cb, 'd) promise \<Rightarrow> ('cb, 'd) promise" where
  "tell cs v p = (case v of None \<Rightarrow> p | Some d \<Rightarrow> p\<lparr>p_log := p_log p @ map (\<lambda>c. (c, d)) cs\<rparr>)"

text \<open>
  A callback registered while the promise is pending waits; one registered for the outcome that came
  is told at once; one for the other outcome is forgotten. Progress callbacks are told the last
  progress, and later progress while the promise is pending.
\<close>

definition promise_done :: "'cb \<Rightarrow> ('cb, 'd) promise \<Rightarrow> ('cb, 'd) promise" where
  "promise_done c p =
     (if p_state p = Pending then p\<lparr>p_done := p_done p @ [c]\<rparr>
      else if p_state p = Resolved then tell [c] (p_value p) p else p)"

definition promise_fail :: "'cb \<Rightarrow> ('cb, 'd) promise \<Rightarrow> ('cb, 'd) promise" where
  "promise_fail c p =
     (if p_state p = Pending then p\<lparr>p_fail := p_fail p @ [c]\<rparr>
      else if p_state p = Rejected then tell [c] (p_value p) p else p)"

fun promise_op :: "('cb, 'd) deferred_op \<Rightarrow> ('cb, 'd) promise \<Rightarrow> ('cb, 'd) promise" where
  "promise_op (Add_Done c) p = promise_done c p"
| "promise_op (Add_Fail c) p = promise_fail c p"
| "promise_op (Add_Progress c) p =
     (if p_state p = Pending then tell [c] (p_last p) (p\<lparr>p_progress := p_progress p @ [c]\<rparr>)
      else tell [c] (p_last p) p)"
| "promise_op (Add_Always c) p = promise_fail c (promise_done c p)"
| "promise_op (Resolve v) p =
     (if p_state p = Pending then tell (p_done p) (Some v) (p\<lparr>p_state := Resolved, p_value := Some v\<rparr>) else p)"
| "promise_op (Reject v) p =
     (if p_state p = Pending then tell (p_fail p) (Some v) (p\<lparr>p_state := Rejected, p_value := Some v\<rparr>) else p)"
| "promise_op (Notify v) p =
     (if p_state p = Pending then tell (p_progress p) (Some v) (p\<lparr>p_last := Some v\<rparr>) else p)"

section \<open>The simulation\<close>

text \<open>A list that still waits to be fired once, one that was fired, one that was disabled.\<close>

definition once_opts :: cb_options where
  "once_opts = \<lparr>opt_once = True, opt_memory = True, opt_unique = False, opt_stop_on_false = False\<rparr>"

definition memory_opts :: cb_options where
  "memory_opts = \<lparr>opt_once = False, opt_memory = True, opt_unique = False, opt_stop_on_false = False\<rparr>"

definition waiting :: "'c list \<Rightarrow> ('c, 'd) callbacks \<Rightarrow> bool" where
  "waiting cs l \<longleftrightarrow>
     cb_opts l = once_opts \<and> cb_list l = Some cs \<and> cb_stack l = None \<and> cb_memory l = None \<and>
     \<not> cb_fired l \<and> firing_start l = 0"

definition fired_once :: "'d \<Rightarrow> ('c, 'd) callbacks \<Rightarrow> bool" where
  "fired_once v l \<longleftrightarrow>
     cb_opts l = once_opts \<and> cb_list l = Some [] \<and> cb_stack l = None \<and> cb_memory l = Some v \<and>
     cb_fired l \<and> firing_start l = 0"

definition progressing :: "'c list \<Rightarrow> 'd option \<Rightarrow> ('c, 'd) callbacks \<Rightarrow> bool" where
  "progressing cs lv l \<longleftrightarrow>
     cb_opts l = memory_opts \<and> cb_list l = Some cs \<and> cb_stack l = Some [] \<and> cb_memory l = lv \<and> firing_start l = 0"

definition locked_with :: "'d option \<Rightarrow> ('c, 'd) callbacks \<Rightarrow> bool" where
  "locked_with lv l \<longleftrightarrow>
     cb_opts l = memory_opts \<and> cb_stack l = None \<and> cb_memory l = lv \<and> firing_start l = 0 \<and>
     (case lv of None \<Rightarrow> cb_list l = None | Some v \<Rightarrow> cb_list l \<noteq> None \<and> cb_fired l)"

definition settle_cbs :: "promise_state \<Rightarrow> list_name \<Rightarrow> 'cb deferred_cb list" where
  "settle_cbs st other = [Set_State st, Disable_List other, Lock_Progress]"

definition simulates :: "('cb, 'd) deferred \<Rightarrow> ('cb, 'd) promise \<Rightarrow> bool" where
  "simulates x p \<longleftrightarrow>
     d_state x = p_state p \<and> d_log x = p_log p \<and>
     (case p_state p of
        Pending \<Rightarrow>
          waiting (settle_cbs Resolved Fail_List @ map User (p_done p)) (d_done x) \<and>
          waiting (settle_cbs Rejected Done_List @ map User (p_fail p)) (d_fail x) \<and>
          progressing (map User (p_progress p)) (p_last p) (d_progress x) \<and>
          (p_last p \<noteq> None \<longrightarrow> cb_fired (d_progress x))
      | Resolved \<Rightarrow>
          (\<exists>v. p_value p = Some v \<and> fired_once v (d_done x)) \<and> cb_list (d_fail x) = None \<and>
          locked_with (p_last p) (d_progress x)
      | Rejected \<Rightarrow>
          (\<exists>v. p_value p = Some v \<and> fired_once v (d_fail x)) \<and> cb_list (d_done x) = None \<and>
          locked_with (p_last p) (d_progress x))"

lemma quiet_own: "quiet own_body"
  by (simp add: quiet_def own_body_def)

lemma flatten_fns [simp]: "flatten_arg (Args (map Fn fs)) = fs"
  by (induction fs) simp_all

lemma push_not_unique [simp]: "push_callbacks False fs l = l @ fs"
  by (induction fs arbitrary: l) (simp_all add: push_callbacks_def push_callback_def)

text \<open>Adding to each kind of list.\<close>

lemma add_waiting:
  assumes "waiting cs l"
  shows "\<exists>l'. add_callbacks own_body (map Fn fs) l = Some (Inr l') \<and> waiting (cs @ fs) l' \<and> cb_calls l' = cb_calls l"
  using assms by (simp add: add_callbacks_def waiting_def once_opts_def del: flatten_arg.simps)

lemma add_with_memory:
  assumes "cb_list l = Some cs" and "cb_memory l = Some v" and "cb_stack l = None \<or> cb_stack l = Some []"
    and "\<not> opt_unique (cb_opts l)" and "opt_memory (cb_opts l)"
  shows "\<exists>l'. add_callbacks own_body (map Fn fs) l = Some (Inr l') \<and>
     cb_calls l' = cb_calls l @ map (\<lambda>c. (c, v)) fs \<and> cb_fired l' \<and> firing_start l' = 0 \<and>
     cb_opts l' = cb_opts l \<and> cb_stack l' = cb_stack l \<and> cb_memory l' = Some v \<and>
     cb_list l' = (if cb_stack l = Some [] then Some (cs @ fs) else Some [])"
proof -
  let ?l = "l\<lparr>cb_list := Some (cs @ fs), firing_start := length cs\<rparr>"
  have "add_callbacks own_body (map Fn fs) l = fire own_body v ?l"
    using assms by (simp add: add_callbacks_def Let_def del: flatten_arg.simps)
  moreover from fire_quiet [OF quiet_own, of ?l "cs @ fs" v] assms(3) obtain l' where
    "fire own_body v ?l = Some (Inr l')" "cb_calls l' = cb_calls l @ map (\<lambda>c. (c, v)) fs"
    "cb_fired l'" "firing_start l' = 0" "cb_opts l' = cb_opts l" "cb_stack l' = cb_stack l"
    "cb_memory l' = Some v" "cb_list l' = (if cb_stack l = Some [] then Some (cs @ fs) else Some [])"
    using assms(5) by auto
  ultimately show ?thesis by simp
qed

lemma fire_waiting:
  assumes "waiting cs l"
  shows "\<exists>l'. fire_with own_body v l = Some (Inr l') \<and> fired_once v l' \<and>
           cb_calls l' = cb_calls l @ map (\<lambda>c. (c, v)) cs"
  using fire_quiet [OF quiet_own, of l cs v] assms
  by (auto simp: fire_with_def may_fire_def waiting_def fired_once_def once_opts_def)

lemma add_fired:
  assumes "fired_once v l"
  shows "\<exists>l'. add_callbacks own_body (map Fn fs) l = Some (Inr l') \<and> fired_once v l' \<and>
           cb_calls l' = cb_calls l @ map (\<lambda>c. (c, v)) fs"
  using add_with_memory [of l "[]" v fs] assms by (auto simp: fired_once_def once_opts_def)

lemma fire_closed:
  assumes "cb_list l = None \<or> (cb_fired l \<and> cb_stack l = None)"
  shows "fire_with own_body v l = Some (Inr l)"
  using assms by (auto simp: fire_with_def may_fire_def)

lemma add_disabled: "cb_list l = None \<Longrightarrow> add_callbacks own_body fs l = Some (Inr l)"
  by (simp add: add_callbacks_def)

lemma fire_progressing:
  assumes "progressing cs lv l"
  shows "\<exists>l'. fire_with own_body v l = Some (Inr l') \<and> progressing cs (Some v) l' \<and> cb_fired l' \<and>
           cb_calls l' = cb_calls l @ map (\<lambda>c. (c, v)) cs"
  using fire_quiet [OF quiet_own, of l cs v] assms
  by (auto simp: fire_with_def may_fire_def progressing_def memory_opts_def)

lemma add_progressing:
  assumes "progressing cs lv l" and "lv \<noteq> None \<longrightarrow> cb_fired l"
  shows "\<exists>l'. add_callbacks own_body (map Fn fs) l = Some (Inr l') \<and> progressing (cs @ fs) lv l' \<and>
           (lv \<noteq> None \<longrightarrow> cb_fired l') \<and>
           cb_calls l' = cb_calls l @ (case lv of None \<Rightarrow> [] | Some v \<Rightarrow> map (\<lambda>c. (c, v)) fs)"
proof (cases lv)
  case None
  with assms show ?thesis
    by (simp add: add_callbacks_def progressing_def memory_opts_def del: flatten_arg.simps)
next
  case (Some v)
  with add_with_memory [of l cs v fs] assms show ?thesis
    by (auto simp: progressing_def memory_opts_def)
qed

lemma add_locked:
  assumes "locked_with lv l"
  shows "\<exists>l'. add_callbacks own_body (map Fn fs) l = Some (Inr l') \<and> locked_with lv l' \<and>
           cb_calls l' = cb_calls l @ (case lv of None \<Rightarrow> [] | Some v \<Rightarrow> map (\<lambda>c. (c, v)) fs)"
proof (cases lv)
  case None
  with assms show ?thesis by (simp add: locked_with_def add_disabled)
next
  case (Some v)
  with assms obtain cs where "cb_list l = Some cs" by (auto simp: locked_with_def)
  with Some assms add_with_memory [of l cs v fs] show ?thesis
    by (auto simp: locked_with_def memory_opts_def)
qed

lemma lock_progressing:
  "progressing cs lv l \<Longrightarrow> lv \<noteq> None \<longrightarrow> cb_fired l \<Longrightarrow> locked_with lv (lock l)"
  by (auto simp: progressing_def locked_with_def lock_def disable_def Let_def split: option.splits)

lemma fold_user: "fold cb_effect (map (\<lambda>c. (User c, v)) cs) x = x\<lparr>d_log := d_log x @ map (\<lambda>c. (c, v)) cs\<rparr>"
  by (induction cs arbitrary: x) simp_all

lemmas list_facts = waiting_def fired_once_def progressing_def locked_with_def

section \<open>Each operation follows the promise\<close>

lemma on_list_Some:
  assumes "f (get_list w x) = Some (Inr l)" and "cb_calls l = cb_calls (get_list w x) @ cs"
  shows "on_list w f x = Some (Inr (fold cb_effect cs (set_list w l x)))"
  using assms by (simp add: on_list_def)

lemma sim_add_done:
  assumes "simulates x p"
  shows "\<exists>x'. list_add Done_List [User c] x = Some (Inr x') \<and> simulates x' (promise_done c p)"
proof (cases "p_state p")
  case Pending
  with assms have "waiting (settle_cbs Resolved Fail_List @ map User (p_done p)) (d_done x)"
    by (simp add: simulates_def)
  from add_waiting [OF this, of "[User c]"] obtain l where l:
    "add_callbacks own_body [Fn (User c)] (d_done x) = Some (Inr l)" "cb_calls l = cb_calls (d_done x)"
    "waiting (settle_cbs Resolved Fail_List @ map User (p_done p @ [c])) l" by auto
  then have "list_add Done_List [User c] x = Some (Inr (set_list Done_List l x))"
    using on_list_Some [of _ Done_List x l "[]"] by (simp add: list_add_def)
  with assms l Pending show ?thesis by (simp add: simulates_def promise_done_def)
next
  case Resolved
  with assms obtain v where v: "p_value p = Some v" "fired_once v (d_done x)" by (auto simp: simulates_def)
  from add_fired [OF v(2), of "[User c]"] obtain l where l:
    "add_callbacks own_body [Fn (User c)] (d_done x) = Some (Inr l)" "fired_once v l"
    "cb_calls l = cb_calls (d_done x) @ [(User c, v)]" by auto
  then have "list_add Done_List [User c] x = Some (Inr (cb_effect (User c, v) (set_list Done_List l x)))"
    using on_list_Some [of _ Done_List x l] by (simp add: list_add_def)
  with assms l v Resolved show ?thesis by (simp add: simulates_def promise_done_def tell_def)
next
  case Rejected
  with assms have "cb_list (d_done x) = None" by (simp add: simulates_def)
  then have "list_add Done_List [User c] x = Some (Inr x)"
    using on_list_Some [of _ Done_List x "d_done x" "[]"] by (simp add: list_add_def add_disabled)
  with assms Rejected show ?thesis by (simp add: promise_done_def)
qed

lemma sim_add_fail:
  assumes "simulates x p"
  shows "\<exists>x'. list_add Fail_List [User c] x = Some (Inr x') \<and> simulates x' (promise_fail c p)"
proof (cases "p_state p")
  case Pending
  with assms have "waiting (settle_cbs Rejected Done_List @ map User (p_fail p)) (d_fail x)"
    by (simp add: simulates_def)
  from add_waiting [OF this, of "[User c]"] obtain l where l:
    "add_callbacks own_body [Fn (User c)] (d_fail x) = Some (Inr l)" "cb_calls l = cb_calls (d_fail x)"
    "waiting (settle_cbs Rejected Done_List @ map User (p_fail p @ [c])) l" by auto
  then have "list_add Fail_List [User c] x = Some (Inr (set_list Fail_List l x))"
    using on_list_Some [of _ Fail_List x l "[]"] by (simp add: list_add_def)
  with assms l Pending show ?thesis by (simp add: simulates_def promise_fail_def)
next
  case Rejected
  with assms obtain v where v: "p_value p = Some v" "fired_once v (d_fail x)" by (auto simp: simulates_def)
  from add_fired [OF v(2), of "[User c]"] obtain l where l:
    "add_callbacks own_body [Fn (User c)] (d_fail x) = Some (Inr l)" "fired_once v l"
    "cb_calls l = cb_calls (d_fail x) @ [(User c, v)]" by auto
  then have "list_add Fail_List [User c] x = Some (Inr (cb_effect (User c, v) (set_list Fail_List l x)))"
    using on_list_Some [of _ Fail_List x l] by (simp add: list_add_def)
  with assms l v Rejected show ?thesis by (simp add: simulates_def promise_fail_def tell_def)
next
  case Resolved
  with assms have "cb_list (d_fail x) = None" by (simp add: simulates_def)
  then have "list_add Fail_List [User c] x = Some (Inr x)"
    using on_list_Some [of _ Fail_List x "d_fail x" "[]"] by (simp add: list_add_def add_disabled)
  with assms Resolved show ?thesis by (simp add: promise_fail_def)
qed

lemma sim_add_progress:
  assumes "simulates x p"
  shows "\<exists>x'. deferred_do (Add_Progress c) x = Some (Inr x') \<and> simulates x' (promise_op (Add_Progress c) p)"
proof -
  let ?told = "case p_last p of None \<Rightarrow> [] | Some v \<Rightarrow> map (\<lambda>c. (c, v)) [User c]"
  have eff: "fold cb_effect ?told y = y\<lparr>d_log := d_log y @ (case p_last p of None \<Rightarrow> [] | Some v \<Rightarrow> [(c, v)])\<rparr>"
    for y :: "('a, 'b) deferred" by (simp split: option.split)
  show ?thesis
  proof (cases "p_state p = Pending")
    case True
    with assms have pr: "progressing (map User (p_progress p)) (p_last p) (d_progress x)"
      "p_last p \<noteq> None \<longrightarrow> cb_fired (d_progress x)" by (simp_all add: simulates_def)
    from add_progressing [OF pr, of "[User c]"] obtain l where l:
      "add_callbacks own_body [Fn (User c)] (d_progress x) = Some (Inr l)"
      "progressing (map User (p_progress p @ [c])) (p_last p) l" "p_last p \<noteq> None \<longrightarrow> cb_fired l"
      "cb_calls l = cb_calls (d_progress x) @ ?told" by auto
    then have "deferred_do (Add_Progress c) x = Some (Inr (fold cb_effect ?told (set_list Progress_List l x)))"
      using on_list_Some [of _ Progress_List x l] by (simp add: list_add_def)
    with assms l True show ?thesis
      unfolding eff by (auto simp: simulates_def tell_def split: option.split)
  next
    case False
    with assms have "locked_with (p_last p) (d_progress x)"
      by (cases "p_state p") (simp_all add: simulates_def)
    from add_locked [OF this, of "[User c]"] obtain l where l:
      "add_callbacks own_body [Fn (User c)] (d_progress x) = Some (Inr l)" "locked_with (p_last p) l"
      "cb_calls l = cb_calls (d_progress x) @ ?told" by auto
    then have "deferred_do (Add_Progress c) x = Some (Inr (fold cb_effect ?told (set_list Progress_List l x)))"
      using on_list_Some [of _ Progress_List x l] by (simp add: list_add_def)
    with assms l False show ?thesis
      unfolding eff by (cases "p_state p") (auto simp: simulates_def tell_def split: option.split)
  qed
qed

lemma sim_settle:
  assumes "simulates x p"
  shows "\<exists>x'. deferred_do (Resolve v) x = Some (Inr x') \<and> simulates x' (promise_op (Resolve v) p)"
    and "\<exists>x'. deferred_do (Reject v) x = Some (Inr x') \<and> simulates x' (promise_op (Reject v) p)"
proof -
  have lockp: "p_state p = Pending \<Longrightarrow> locked_with (p_last p) (lock (d_progress x))"
    using assms by (auto simp: simulates_def intro!: lock_progressing)
  show "\<exists>x'. deferred_do (Resolve v) x = Some (Inr x') \<and> simulates x' (promise_op (Resolve v) p)"
  proof (cases "p_state p = Pending")
    case True
    with assms have "waiting (settle_cbs Resolved Fail_List @ map User (p_done p)) (d_done x)" by (simp add: simulates_def)
    from fire_waiting [OF this, of v] obtain l where l: "fire_with own_body v (d_done x) = Some (Inr l)" "fired_once v l"
      "cb_calls l = cb_calls (d_done x) @ map (\<lambda>c. (c, v)) (settle_cbs Resolved Fail_List @ map User (p_done p))" by blast
    have "deferred_do (Resolve v) x = Some (Inr (fold cb_effect
        (map (\<lambda>c. (c, v)) (settle_cbs Resolved Fail_List @ map User (p_done p))) (set_list Done_List l x)))"
      using on_list_Some [of _ Done_List x l] l by simp
    with assms l True lockp show ?thesis
      by (simp add: simulates_def settle_cbs_def tell_def fold_user disable_def flip: map_map) (simp add: fold_user comp_def)
  next
    case False
    with assms have "cb_list (d_done x) = None \<or> (cb_fired (d_done x) \<and> cb_stack (d_done x) = None)"
      by (cases "p_state p") (auto simp: simulates_def fired_once_def)
    then have "deferred_do (Resolve v) x = Some (Inr x)"
      using on_list_Some [of _ Done_List x "d_done x" "[]"] by (simp add: fire_closed)
    with assms False show ?thesis by simp
  qed
  show "\<exists>x'. deferred_do (Reject v) x = Some (Inr x') \<and> simulates x' (promise_op (Reject v) p)"
  proof (cases "p_state p = Pending")
    case True
    with assms have "waiting (settle_cbs Rejected Done_List @ map User (p_fail p)) (d_fail x)" by (simp add: simulates_def)
    from fire_waiting [OF this, of v] obtain l where l: "fire_with own_body v (d_fail x) = Some (Inr l)" "fired_once v l"
      "cb_calls l = cb_calls (d_fail x) @ map (\<lambda>c. (c, v)) (settle_cbs Rejected Done_List @ map User (p_fail p))" by blast
    have "deferred_do (Reject v) x = Some (Inr (fold cb_effect
        (map (\<lambda>c. (c, v)) (settle_cbs Rejected Done_List @ map User (p_fail p))) (set_list Fail_List l x)))"
      using on_list_Some [of _ Fail_List x l] l by simp
    with assms l True lockp show ?thesis
      by (simp add: simulates_def settle_cbs_def tell_def fold_user disable_def flip: map_map) (simp add: fold_user comp_def)
  next
    case False
    with assms have "cb_list (d_fail x) = None \<or> (cb_fired (d_fail x) \<and> cb_stack (d_fail x) = None)"
      by (cases "p_state p") (auto simp: simulates_def fired_once_def)
    then have "deferred_do (Reject v) x = Some (Inr x)"
      using on_list_Some [of _ Fail_List x "d_fail x" "[]"] by (simp add: fire_closed)
    with assms False show ?thesis by simp
  qed
qed

lemma sim_notify:
  assumes "simulates x p"
  shows "\<exists>x'. deferred_do (Notify v) x = Some (Inr x') \<and> simulates x' (promise_op (Notify v) p)"
proof (cases "p_state p = Pending")
  case True
  with assms have "progressing (map User (p_progress p)) (p_last p) (d_progress x)" by (simp add: simulates_def)
  from fire_progressing [OF this, of v] obtain l where l:
    "fire_with own_body v (d_progress x) = Some (Inr l)" "progressing (map User (p_progress p)) (Some v) l"
    "cb_fired l" "cb_calls l = cb_calls (d_progress x) @ map (\<lambda>c. (c, v)) (map User (p_progress p))" by blast
  have "deferred_do (Notify v) x =
      Some (Inr (fold cb_effect (map (\<lambda>c. (User c, v)) (p_progress p)) (set_list Progress_List l x)))"
    using on_list_Some [of _ Progress_List x l] l by (simp add: comp_def)
  with assms l True show ?thesis by (simp add: simulates_def tell_def fold_user)
next
  case False
  with assms have "locked_with (p_last p) (d_progress x)" by (cases "p_state p") (auto simp: simulates_def)
  then have "cb_list (d_progress x) = None \<or> (cb_fired (d_progress x) \<and> cb_stack (d_progress x) = None)"
    by (auto simp: locked_with_def split: option.splits)
  then have "deferred_do (Notify v) x = Some (Inr x)"
    using on_list_Some [of _ Progress_List x "d_progress x" "[]"] by (simp add: fire_closed)
  with assms False show ?thesis by simp
qed

lemma sim_op:
  assumes "simulates x p"
  shows "\<exists>x'. deferred_do op x = Some (Inr x') \<and> simulates x' (promise_op op p)"
proof (cases op)
  case (Add_Always c)
  from sim_add_done [OF assms, of c] obtain y where
    y: "list_add Done_List [User c] x = Some (Inr y)" "simulates y (promise_done c p)" by blast
  from sim_add_fail [OF y(2), of c] y(1) Add_Always show ?thesis by (auto simp: bind_result_def)
qed (use sim_add_done [OF assms] sim_add_fail [OF assms] sim_add_progress [OF assms] sim_settle [OF assms]
      sim_notify [OF assms] in auto)

lemma sim_run:
  "simulates x p \<Longrightarrow> \<exists>x'. run_deferred ops x = Some (Inr x') \<and> simulates x' (fold promise_op ops p)"
proof (induction ops arbitrary: x p)
  case (Cons op ops)
  from sim_op [OF Cons.prems, of op] obtain y where
    y: "deferred_do op x = Some (Inr y)" "simulates y (promise_op op p)" by blast
  from Cons.IH [OF y(2)] y(1) show ?case by (auto simp: bind_result_def)
qed simp

lemma option_strings: "create_options ''once memory'' = once_opts" "create_options ''memory'' = memory_opts"
  by code_simp+

lemma new_lists:
  "waiting [] (new_callbacks ''once memory'')" "progressing [] None (new_callbacks ''memory'')"
  unfolding new_callbacks_def option_strings
  by (simp_all add: Let_def waiting_def progressing_def once_opts_def memory_opts_def)

lemma sim_new: "\<exists>x. new_deferred = Some (Inr x) \<and> simulates x new_promise"
proof -
  let ?x = "\<lparr>d_state = Pending, d_done = new_callbacks ''once memory'', d_fail = new_callbacks ''once memory'',
           d_progress = new_callbacks ''memory'', d_log = []\<rparr> :: ('a, 'b) deferred"
  have adds: "\<exists>l'. add_callbacks own_body (map Fn fs) l = Some (Inr l') \<and> waiting fs l' \<and> cb_calls l' = cb_calls l"
    if "waiting [] l" for fs :: "'a deferred_cb list" and l :: "('a, 'b) deferred_list"
    using add_waiting [OF that, of fs] by simp
  have w: "waiting [] (new_callbacks ''once memory'' :: ('a, 'b) deferred_list)"
    "progressing [] None (new_callbacks ''memory'' :: ('a, 'b) deferred_list)"
    by (rule new_lists)+
  from adds [OF w(1)] obtain l1 where l1: "waiting (settle_cbs Resolved Fail_List) l1"
    "list_add Done_List (settle_cbs Resolved Fail_List) ?x = Some (Inr (?x\<lparr>d_done := l1\<rparr>))"
    by (fastforce simp: list_add_def on_list_def)
  from adds [OF w(1)] obtain l2 where l2: "waiting (settle_cbs Rejected Done_List) l2"
    "list_add Fail_List (settle_cbs Rejected Done_List) (?x\<lparr>d_done := l1\<rparr>) = Some (Inr (?x\<lparr>d_done := l1, d_fail := l2\<rparr>))"
    by (fastforce simp: list_add_def on_list_def)
  have "new_deferred = Some (Inr (?x\<lparr>d_done := l1, d_fail := l2\<rparr>))"
    unfolding new_deferred_def bind_result_def
    using l1(2) l2(2) by (simp add: settle_cbs_def)
  moreover have "simulates (?x\<lparr>d_done := l1, d_fail := l2\<rparr>) new_promise"
    using l1(1) l2(1) w(2) by (simp add: simulates_def new_promise_def)
  ultimately show ?thesis by blast
qed

section \<open>Properties\<close>

text \<open>C10. A deferred is a promise: for every sequence of operations it neither throws nor hangs, and its
  state and the calls it makes to the client's callbacks, with their values and in their order, are those
  of the abstract promise.\<close>

theorem deferred_refines_promise:
  "\<exists>x y. new_deferred = Some (Inr x) \<and> run_deferred ops x = Some (Inr y) \<and>
     d_state y = p_state (fold promise_op ops new_promise) \<and> d_log y = p_log (fold promise_op ops new_promise)"
proof -
  from sim_new obtain x :: "('a, 'b) deferred" where x: "new_deferred = Some (Inr x)" "simulates x new_promise"
    by blast
  from sim_run [OF x(2), of ops] obtain y where "run_deferred ops x = Some (Inr y)"
    "simulates y (fold promise_op ops new_promise)" by blast
  with x(1) show ?thesis by (auto simp: simulates_def)
qed

text \<open>What a promise promises: once settled it stays so, whatever else is done.\<close>

lemma promise_settled_op:
  "p_state p \<noteq> Pending \<Longrightarrow> p_state (promise_op op p) = p_state p \<and> p_value (promise_op op p) = p_value p"
  by (cases op) (auto simp: promise_done_def promise_fail_def tell_def split: option.splits)

lemma promise_settled_run:
  "p_state p \<noteq> Pending \<Longrightarrow>
     p_state (fold promise_op ops p) = p_state p \<and> p_value (fold promise_op ops p) = p_value p"
  by (induction ops arbitrary: p) (simp_all add: promise_settled_op)

lemma promise_resolved_done:
  "p_state p = Resolved \<Longrightarrow> p_value p = Some v \<Longrightarrow> p_log (promise_op (Add_Done c) p) = p_log p @ [(c, v)]"
  by (simp add: promise_done_def tell_def)

text \<open>The first outcome wins: after a resolve, any further operations leave the deferred resolved, and a
  callback added for success is called at once with the value of that first resolve; one added for failure
  is not called.\<close>

theorem first_resolve_wins:
  assumes "p_state (fold promise_op before new_promise) = Pending"
  shows "\<exists>x y z. new_deferred = Some (Inr x) \<and>
     run_deferred (before @ [Resolve v] @ after) x = Some (Inr y) \<and> d_state y = Resolved \<and>
     deferred_do (Add_Always c) y = Some (Inr z) \<and> d_state z = Resolved \<and> d_log z = d_log y @ [(c, v)]"
proof -
  let ?ops = "before @ [Resolve v] @ after"
  let ?p = "fold promise_op ?ops new_promise"
  from sim_new obtain x :: "('a, 'b) deferred" where x: "new_deferred = Some (Inr x)" "simulates x new_promise"
    by blast
  from sim_run [OF x(2), of ?ops] obtain y where y: "run_deferred ?ops x = Some (Inr y)" "simulates y ?p" by blast
  have "p_state (promise_op (Resolve v) (fold promise_op before new_promise)) = Resolved"
    "p_value (promise_op (Resolve v) (fold promise_op before new_promise)) = Some v"
    using assms by (simp_all add: tell_def)
  then have p: "p_state ?p = Resolved" "p_value ?p = Some v"
    using promise_settled_run [of "promise_op (Resolve v) (fold promise_op before new_promise)" after] by simp_all
  from sim_op [OF y(2), of "Add_Always c"] obtain z where
    z: "deferred_do (Add_Always c) y = Some (Inr z)" "simulates z (promise_op (Add_Always c) ?p)" by blast
  have "p_log (promise_op (Add_Always c) ?p) = p_log ?p @ [(c, v)]" "p_state (promise_op (Add_Always c) ?p) = Resolved"
    using p by (simp_all add: promise_done_def promise_fail_def tell_def)
  with x(1) y z p show ?thesis
    by (auto simp: simulates_def)
qed

theorem first_resolve_wins_witness:
  "\<exists>x y z. (new_deferred :: (nat, nat) deferred_result) = Some (Inr x) \<and>
     run_deferred ([Add_Done 1, Notify 5] @ [Resolve 7] @ [Reject 8, Resolve 9]) x = Some (Inr y) \<and>
     deferred_do (Add_Always 2) y = Some (Inr z) \<and> d_log z = d_log y @ [(2, 7)]"
proof -
  have "p_state (fold promise_op [Add_Done (1::nat), Notify (5::nat)] new_promise) = Pending" by code_simp
  from first_resolve_wins [OF this, of 7 "[Reject 8, Resolve 9]" 2] show ?thesis by blast
qed

section \<open>Waiting for several deferreds\<close>

text \<open>
  \<open>jQuery.when\<close> with any number of arguments: each is a plain value or a deferred. What it does to its
  master deferred is recorded as calls; with a single deferred the master is that deferred itself, and
  its own outcome is passed through (\<open>Single\<close>). A value that is still a deferred is \<^const>\<open>None\<close>.
\<close>

datatype 'v when_arg = Plain 'v | Subordinate

datatype 'v master_call = Resolve_With "'v option list" | Reject_With 'v | Notify_With "'v option list"

record 'v when_state =
  w_single :: bool
  w_remaining :: int
  w_values :: "'v option list"
  w_progress :: "'v option list"
  w_calls :: "'v master_call list"

fun arg_value :: "'v when_arg \<Rightarrow> 'v option" where
  "arg_value (Plain v) = Some v"
| "arg_value Subordinate = None"

fun when_loop :: "'v when_arg list \<Rightarrow> int \<Rightarrow> int" where
  "when_loop [] remaining = remaining"
| "when_loop (Plain v # args) remaining = when_loop args (remaining - 1)"
| "when_loop (Subordinate # args) remaining = when_loop args remaining"

definition when_start :: "'v when_arg list \<Rightarrow> 'v when_state" where
  "when_start args =
     (let n = length args;
          remaining = (if n \<noteq> 1 \<or> args = [Subordinate] then int n else 0);
          remaining = (if n > 1 then when_loop args remaining else remaining);
          values = map arg_value args;
          s = \<lparr>w_single = (args = [Subordinate]), w_remaining = remaining, w_values = values,
               w_progress = replicate n None, w_calls = []\<rparr>
      in if remaining = 0 then s\<lparr>w_calls := [Resolve_With values]\<rparr> else s)"

datatype 'v sub_event = Sub_Done nat 'v | Sub_Fail 'v | Sub_Progress nat 'v

fun when_event :: "'v sub_event \<Rightarrow> 'v when_state \<Rightarrow> 'v when_state" where
  "when_event (Sub_Done i v) s =
     (let s = s\<lparr>w_values := (w_values s)[i := Some v], w_remaining := w_remaining s - 1\<rparr> in
        if w_remaining s = 0 then s\<lparr>w_calls := w_calls s @ [Resolve_With (w_values s)]\<rparr> else s)"
| "when_event (Sub_Fail v) s = s\<lparr>w_calls := w_calls s @ [Reject_With v]\<rparr>"
| "when_event (Sub_Progress i v) s =
     (let s = s\<lparr>w_progress := (w_progress s)[i := Some v]\<rparr> in
        s\<lparr>w_calls := w_calls s @ [Notify_With (w_progress s)]\<rparr>)"

definition subordinates :: "'v when_arg list \<Rightarrow> nat list" where
  "subordinates args = filter (\<lambda>i. args ! i = Subordinate) [0..<length args]"

lemma when_loop_count: "when_loop args r = r - int (length (filter (\<lambda>a. a \<noteq> Subordinate) args))"
  by (induction args r rule: when_loop.induct) simp_all

lemma subordinates_count: "length (subordinates args) + length (filter (\<lambda>a. a \<noteq> Subordinate) args) = length args"
proof -
  have "length (subordinates args) = length (filter (\<lambda>a. a = Subordinate) args)"
    by (auto simp: subordinates_def length_filter_conv_card intro!: arg_cong [where f = card])
  then show ?thesis using sum_length_filter_compl [of "\<lambda>a. a = Subordinate" args] by simp
qed

lemma when_start_remaining:
  "length args \<noteq> 1 \<Longrightarrow> w_remaining (when_start args) = int (length (subordinates args)) \<and>
     w_values (when_start args) = map arg_value args \<and> (subordinates args \<noteq> [] \<longrightarrow> w_calls (when_start args) = [])"
  using subordinates_count [of args] by (auto simp: when_start_def Let_def when_loop_count)

definition value_after :: "(nat \<times> 'v) list \<Rightarrow> 'v option list \<Rightarrow> nat \<Rightarrow> 'v option" where
  "value_after evs vals i = (case map_of evs i of Some v \<Rightarrow> Some v | None \<Rightarrow> vals ! i)"

lemma when_all_done:
  assumes "distinct (map fst evs)" and "w_remaining s = int (length evs)" and "evs \<noteq> []"
    and "\<forall>i \<in> fst ` set evs. i < length (w_values s)"
  shows "w_calls (fold (\<lambda>(i, v). when_event (Sub_Done i v)) evs s) =
           w_calls s @ [Resolve_With (map (value_after evs (w_values s)) [0..<length (w_values s)])]"
  using assms
proof (induction evs arbitrary: s)
  case (Cons e evs)
  obtain i v where e: "e = (i, v)" by fastforce
  let ?s = "s\<lparr>w_values := (w_values s)[i := Some v], w_remaining := w_remaining s - 1\<rparr>"
  have i: "i < length (w_values s)" using Cons.prems e by simp
  show ?case
  proof (cases "evs = []")
    case True
    with Cons.prems e i show ?thesis
      by (auto simp: Let_def value_after_def intro!: nth_equalityI)
  next
    case False
    have step: "when_event (Sub_Done i v) s = ?s" using Cons.prems False by (simp add: Let_def)
    have "w_calls (fold (\<lambda>(i, v). when_event (Sub_Done i v)) evs ?s) = w_calls ?s @
        [Resolve_With (map (value_after evs (w_values ?s)) [0..<length (w_values ?s)])]"
      using Cons.prems e False by (intro Cons.IH) auto
    moreover have "value_after evs (w_values ?s) j = value_after (e # evs) (w_values s) j" if "j < length (w_values s)" for j
    proof (cases "j = i")
      case True
      with Cons.prems e have "map_of evs j = None" by (simp add: map_of_eq_None_iff)
      with True e i show ?thesis by (simp add: value_after_def)
    next
      case False
      with e have "map_of (e # evs) j = map_of evs j" "w_values ?s ! j = w_values s ! j" by simp_all
      then show ?thesis by (simp only: value_after_def)
    qed
    ultimately show ?thesis using step e by (simp cong: map_cong del: when_event.simps)
  qed
qed simp

text \<open>C11. When all the deferreds among the arguments of \<open>when\<close> have succeeded, in whatever order, the master
  is resolved exactly once, with the arguments' values in argument order.\<close>

theorem when_collects_values:
  assumes "length args \<noteq> 1" and "subordinates args \<noteq> []"
    and "distinct (map fst evs)" and "set (map fst evs) = set (subordinates args)"
  shows "w_calls (fold (\<lambda>(i, v). when_event (Sub_Done i v)) evs (when_start args)) =
           [Resolve_With (map (\<lambda>i. case args ! i of Plain v \<Rightarrow> Some v | Subordinate \<Rightarrow> map_of evs i) [0..<length args])]"
proof -
  have ds: "distinct (subordinates args)" by (simp add: subordinates_def)
  have "length evs = length (subordinates args)"
    using distinct_card [OF assms(3)] distinct_card [OF ds] assms(4) by simp
  with assms(1,2) when_start_remaining [OF assms(1)] have s: "w_remaining (when_start args) = int (length evs)"
    "evs \<noteq> []" "w_values (when_start args) = map arg_value args" "w_calls (when_start args) = []" by auto
  have "\<forall>i \<in> fst ` set evs. i < length (w_values (when_start args))"
    using assms(4) s(3) by (auto simp: subordinates_def)
  from when_all_done [OF assms(3) s(1,2) this] have "w_calls (fold (\<lambda>(i, v). when_event (Sub_Done i v)) evs (when_start args)) =
      [Resolve_With (map (value_after evs (map arg_value args)) [0..<length args])]"
    unfolding s by simp
  moreover have "value_after evs (map arg_value args) i =
      (case args ! i of Plain v \<Rightarrow> Some v | Subordinate \<Rightarrow> map_of evs i)" if "i < length args" for i
  proof (cases "args ! i")
    case (Plain v)
    then have "i \<notin> fst ` set evs" using assms(4) by (auto simp: subordinates_def)
    then have "map_of evs i = None" by (simp add: map_of_eq_None_iff)
    with Plain that show ?thesis by (simp add: value_after_def)
  next
    case Subordinate
    with that show ?thesis by (simp add: value_after_def split: option.split)
  qed
  ultimately show ?thesis by (simp cong: map_cong)
qed

theorem when_collects_values_witness:
  "w_calls (fold (\<lambda>(i, v). when_event (Sub_Done i v)) [(2, 30), (0, 10)] (when_start [Subordinate, Plain (20::nat), Subordinate])) =
     [Resolve_With [Some 10, Some 20, Some 30]]"
proof -
  have "length [Subordinate, Plain (20::nat), Subordinate] \<noteq> 1" by simp
  moreover have "subordinates [Subordinate, Plain (20::nat), Subordinate] = [0, 2]" by code_simp
  moreover from this have "subordinates [Subordinate, Plain (20::nat), Subordinate] \<noteq> []" by simp
  moreover have "distinct (map fst [(2::nat, 30::nat), (0, 10)])" by simp
  ultimately show ?thesis
    using when_collects_values [of "[Subordinate, Plain (20::nat), Subordinate]" "[(2, 30), (0, 10)]"]
    by (simp add: upt_rec insert_commute)
qed

end
