(* ===== verification/Calendar.thy ===== *)
theory Calendar
  imports Prelude
begin

text \<open>
  The calendar the date picker of the deployed bundle computes with: JavaScript's \<open>Date\<close> in local time, at
  the precision the date picker uses it. A date is a local day, numbered from 1 January 1970, and an hour
  of that day. The conversions between a day and its year, month and day of the month follow the
  definitions of the language standard (\<open>DayFromYear\<close>, \<open>YearFromTime\<close>, \<open>MonthFromTime\<close>, \<open>DateFromTime\<close>,
  \<open>MakeDay\<close>). Where summer time skips midnight, the browser chooses another hour; this choice is the
  parameter \<open>midnight\<close>. The second half models the helpers of the date picker that are pure calendar
  arithmetic, and shows what \<open>_getDaysInMonth\<close> and \<open>iso8601Week\<close> compute.
\<close>

section \<open>Days and years\<close>

definition leap_year :: "int \<Rightarrow> bool" where
  "leap_year y \<longleftrightarrow> y mod 4 = 0 \<and> (y mod 100 \<noteq> 0 \<or> y mod 400 = 0)"

definition day_from_year :: "int \<Rightarrow> int" where
  "day_from_year y = 365 * (y - 1970) + (y - 1969) div 4 - (y - 1901) div 100 + (y - 1601) div 400"

definition year_from_day :: "int \<Rightarrow> int" where
  "year_from_day n =
     (let y = 1970 + (400 * n) div 146097 in
        if n < day_from_year y then y - 1
        else if day_from_year (y + 1) \<le> n then y + 1
        else y)"

definition days_in_year :: "int \<Rightarrow> int" where
  "days_in_year y = (if leap_year y then 366 else 365)"

lemma div_succ:
  assumes "0 < (k::int)"
  shows "(a + 1) div k = a div k + (if (a + 1) mod k = 0 then 1 else 0)"
proof -
  let ?q = "a div k" and ?r = "a mod k"
  have a: "a = k * ?q + ?r" "0 \<le> ?r" "?r < k" using assms by simp_all
  show ?thesis
  proof (cases "?r + 1 = k")
    case True
    with a(1) have "a + 1 = k * (?q + 1)" unfolding distrib_left by linarith
    with assms show ?thesis by simp
  next
    case False
    with a have "0 \<le> ?r + 1" "?r + 1 < k" "a + 1 = k * ?q + (?r + 1)" by linarith+
    then have "(a + 1) div k = ?q" "(a + 1) mod k = ?r + 1"
      by (metis int_div_pos_eq, metis int_mod_pos_eq)
    with \<open>0 \<le> ?r + 1\<close> a(2) show ?thesis by simp
  qed
qed

lemma mod_shift: "(y - c * k) mod k = y mod (k::int)"
  using mod_mult_self1 [of y "- c" k] by simp

lemma day_from_year_succ: "day_from_year (y + 1) = day_from_year y + days_in_year y"
proof -
  have 4: "(y - 1968) div 4 = (y - 1969) div 4 + (if y mod 4 = 0 then 1 else 0)"
    using div_succ [of 4 "y - 1969"] mod_shift [of y 492 4] by simp
  have 100: "(y - 1900) div 100 = (y - 1901) div 100 + (if y mod 100 = 0 then 1 else 0)"
    using div_succ [of 100 "y - 1901"] mod_shift [of y 19 100] by simp
  have 400: "(y - 1600) div 400 = (y - 1601) div 400 + (if y mod 400 = 0 then 1 else 0)"
    using div_succ [of 400 "y - 1601"] mod_shift [of y 4 400] by simp
  have "y mod 4 = 0" if "y mod 100 = 0"
  proof -
    have "(100::int) dvd y" using that by auto
    then have "4 dvd y" by (rule dvd_trans [rotated]) simp
    then show ?thesis by auto
  qed
  moreover have "y mod 100 = 0" if "y mod 400 = 0"
  proof -
    have "(400::int) dvd y" using that by auto
    then have "100 dvd y" by (rule dvd_trans [rotated]) simp
    then show ?thesis by auto
  qed
  ultimately have "days_in_year y = 365 + (if y mod 4 = 0 then 1 else 0) - (if y mod 100 = 0 then 1 else 0) +
      (if y mod 400 = 0 then 1 else 0)"
    unfolding days_in_year_def leap_year_def
    by (cases "y mod 400 = 0"; cases "y mod 100 = 0"; cases "y mod 4 = 0") simp_all
  moreover have "day_from_year (y + 1) = 365 * (y - 1970) + 365 + (y - 1968) div 4 - (y - 1900) div 100 + (y - 1600) div 400"
  proof -
    have "y + 1 - 1969 = y - 1968" "y + 1 - 1901 = y - 1900" "y + 1 - 1601 = y - 1600" by simp_all
    then show ?thesis unfolding day_from_year_def by (simp only: right_diff_distrib distrib_left)
  qed
  ultimately show ?thesis unfolding 4 100 400 day_from_year_def by (simp only: add.commute add.left_commute)
qed

lemma days_in_year_pos: "365 \<le> days_in_year y" "days_in_year y \<le> 366"
  by (simp_all add: days_in_year_def)

lemma day_from_year_less: "y < z \<Longrightarrow> day_from_year y < day_from_year z"
proof (induction z rule: int_gr_induct [where k = y])
  case base
  then show ?case using days_in_year_pos(1) [of y] by (simp add: day_from_year_succ)
next
  case (step z)
  then show ?case using days_in_year_pos(1) [of z] by (simp add: day_from_year_succ)
qed

lemma day_from_year_mono: "y \<le> z \<Longrightarrow> day_from_year y \<le> day_from_year z"
  using day_from_year_less [of y z] by (cases "y = z") auto

text \<open>The estimate of the year is off by at most one.\<close>

lemma div_bounds:
  assumes "0 < (k::int)"
  shows "k * (a div k) \<le> a" "a < k * (a div k) + k"
  using mult_div_mod_eq [of k a] pos_mod_bound [OF assms, of a] pos_mod_sign [OF assms, of a] by linarith+

lemma day_from_year_bounds:
  "146097 * y - 287811596 \<le> 400 * day_from_year y" "400 * day_from_year y \<le> 146097 * y - 287810501"
proof -
  have "4 * ((y - 1969) div 4) \<le> y - 1969" "y - 1969 < 4 * ((y - 1969) div 4) + 4"
    "100 * ((y - 1901) div 100) \<le> y - 1901" "y - 1901 < 100 * ((y - 1901) div 100) + 100"
    "400 * ((y - 1601) div 400) \<le> y - 1601" "y - 1601 < 400 * ((y - 1601) div 400) + 400"
    by (rule div_bounds, simp)+
  then obtain a b c where abc: "(y - 1969) div 4 = a" "(y - 1901) div 100 = b" "(y - 1601) div 400 = c"
    and b: "4 * a \<le> y - 1969" "y - 1969 < 4 * a + 4" "100 * b \<le> y - 1901" "y - 1901 < 100 * b + 100"
      "400 * c \<le> y - 1601" "y - 1601 < 400 * c + 400" by blast
  have d: "400 * day_from_year y = 146000 * y - 287620000 + 400 * a - 400 * b + 400 * c"
    unfolding day_from_year_def abc by simp
  show "146097 * y - 287811596 \<le> 400 * day_from_year y" using b unfolding d by linarith
  show "400 * day_from_year y \<le> 146097 * y - 287810501" using b unfolding d by linarith
qed

lemma year_from_day_iff: "year_from_day n = y \<longleftrightarrow> day_from_year y \<le> n \<and> n < day_from_year (y + 1)"
proof -
  let ?k = "(400 * n) div 146097"
  let ?y = "1970 + ?k"
  obtain k where k: "?k = k" "146097 * k \<le> 400 * n" "400 * n < 146097 * k + 146097"
    using div_bounds [of 146097 "400 * n", OF zero_less_numeral] by blast
  have e: "146097 * (k + 1969) = 146097 * k + 287664993" "146097 * (k + 1972) = 146097 * k + 288103284"
    by simp_all
  have "day_from_year (k + 1969) \<le> n"
    using k(2,3) day_from_year_bounds(2) [of "k + 1969"] unfolding e by linarith
  moreover have "n < day_from_year (k + 1972)"
    using k(2,3) day_from_year_bounds(1) [of "k + 1972"] unfolding e by linarith
  ultimately have b: "day_from_year (1970 + k - 1) \<le> n" "n < day_from_year (1970 + k + 1 + 1)"
    by (simp_all add: add.commute)
  have spec: "day_from_year (year_from_day n) \<le> n \<and> n < day_from_year (year_from_day n + 1)"
    using b by (auto simp: year_from_day_def Let_def k(1))
  show ?thesis
  proof
    assume "day_from_year y \<le> n \<and> n < day_from_year (y + 1)"
    with spec have "\<not> y + 1 \<le> year_from_day n" "\<not> year_from_day n + 1 \<le> y"
      using day_from_year_mono [of "y + 1" "year_from_day n"] day_from_year_mono [of "year_from_day n + 1" y] by linarith+
    then show "year_from_day n = y" by linarith
  qed (use spec in simp)
qed

section \<open>Months\<close>

definition month_length :: "int \<Rightarrow> int \<Rightarrow> int" where
  "month_length y m =
     (if m = 1 then (if leap_year y then 29 else 28)
      else if m = 3 \<or> m = 5 \<or> m = 8 \<or> m = 10 then 30 else 31)"

text \<open>The day of the year on which a month starts, months being numbered from 0.\<close>

definition month_start :: "int \<Rightarrow> int \<Rightarrow> int" where
  "month_start y m =
     (let l = (if leap_year y then 1 else 0) in
        [0, 31, 59 + l, 90 + l, 120 + l, 151 + l, 181 + l, 212 + l, 243 + l, 273 + l, 304 + l, 334 + l] ! nat m)"

definition month_from_day :: "int \<Rightarrow> int" where
  "month_from_day n =
     (let y = year_from_day n; d = n - day_from_year y in
        int (length (filter (\<lambda>m. month_start y (int m) \<le> d) [0..<12])) - 1)"

definition date_from_day :: "int \<Rightarrow> int" where
  "date_from_day n =
     n - day_from_year (year_from_day n) - month_start (year_from_day n) (month_from_day n) + 1"

text \<open>\<open>MakeDay\<close>: months and days out of range carry over.\<close>

definition make_day :: "int \<Rightarrow> int \<Rightarrow> int \<Rightarrow> int" where
  "make_day y m d = day_from_year (y + m div 12) + month_start (y + m div 12) (m mod 12) + d - 1"

definition week_day :: "int \<Rightarrow> int" where
  "week_day n = (n + 4) mod 7"

definition valid_date :: "int \<Rightarrow> int \<Rightarrow> int \<Rightarrow> bool" where
  "valid_date y m d \<longleftrightarrow> 0 \<le> m \<and> m < 12 \<and> 1 \<le> d \<and> d \<le> month_length y m"

lemma month_cases:
  assumes "0 \<le> m" and "m < (12::int)"
  shows "m \<in> {0, 1, 2, 3, 4, 5, 6, 7, 8, 9, 10, 11}"
  using assms by simp presburger

lemma upt_12: "[0..<12] = [0, 1, 2, 3, 4, 5, 6, 7, 8, 9, 10, 11::nat]"
  by (simp add: upt_rec)

lemma month_length_bounds: "28 \<le> month_length y m" "month_length y m \<le> 31"
  by (simp_all add: month_length_def)

lemma month_start_next:
  assumes "0 \<le> m" and "m < 12"
  shows "m < 11 \<Longrightarrow> month_start y (m + 1) = month_start y m + month_length y m"
    and "m = 11 \<Longrightarrow> month_start y m + month_length y m = days_in_year y"
  using month_cases [OF assms] by (auto simp: month_start_def month_length_def days_in_year_def)

lemma filter_le_upt: "k < n \<Longrightarrow> filter (\<lambda>i. i \<le> k) [0..<n] = [0..<Suc k]"
proof (induction n)
  case (Suc n)
  then show ?case by (cases "k < n") (auto simp: less_Suc_eq filter_id_conv)
qed simp

lemma month_start_mono: "i + j < 12 \<Longrightarrow> month_start y (int i) + (if j = 0 then 0 else month_length y (int i)) \<le> month_start y (int (i + j))"
proof (induction j)
  case (Suc j)
  then have "month_start y (int (i + j) + 1) = month_start y (int (i + j)) + month_length y (int (i + j))"
    by (intro month_start_next(1)) simp_all
  moreover have i: "int (i + Suc j) = int (i + j) + 1" by simp
  moreover have "month_start y (int i) + (if j = 0 then 0 else month_length y (int i)) \<le> month_start y (int (i + j))"
    using Suc by simp
  ultimately show ?case using month_length_bounds(1) [of y "int (i + j)"]
    unfolding i by (cases "j = 0") (simp_all del: of_nat_add)
qed simp

lemma month_of_day_of_year:
  assumes "0 \<le> m" and "m < 12" and "1 \<le> d" and "d \<le> month_length y m"
  shows "int (length (filter (\<lambda>k. month_start y (int k) \<le> month_start y m + d - 1) [0..<12])) - 1 = m"
    and "0 \<le> month_start y m" and "month_start y m + d - 1 < days_in_year y"
proof -
  let ?m = "nat m"
  have m: "int ?m = m" "?m < 12" using assms(1,2) by simp_all
  have "month_start y (int k) \<le> month_start y m + d - 1 \<longleftrightarrow> k \<le> ?m" if "k < 12" for k
  proof (cases "k \<le> ?m")
    case True
    then have "month_start y (int k) \<le> month_start y m"
      using month_start_mono [of k "?m - k" y] m month_length_bounds(1) [of y "int k"] by (cases "k = ?m") simp_all
    with True assms(3) show ?thesis by simp
  next
    case False
    then have "month_start y m + month_length y m \<le> month_start y (int k)"
      using month_start_mono [of ?m "k - ?m" y] m that by simp
    with False assms(4) show ?thesis by simp
  qed
  then have "filter (\<lambda>k. month_start y (int k) \<le> month_start y m + d - 1) [0..<12] = filter (\<lambda>k. k \<le> ?m) [0..<12]"
    by (intro filter_cong) auto
  also have "\<dots> = [0..<Suc ?m]"
    by (rule filter_le_upt [OF m(2)])
  finally show "int (length (filter (\<lambda>k. month_start y (int k) \<le> month_start y m + d - 1) [0..<12])) - 1 = m"
    using m by simp
  have s0: "month_start y 0 = 0" by (simp add: month_start_def)
  with month_start_mono [of 0 ?m y] m month_length_bounds(1) [of y 0] show "0 \<le> month_start y m"
    by (cases "?m = 0") simp_all
  have "month_start y m + month_length y m \<le> days_in_year y"
  proof (cases "m = 11")
    case True
    with month_start_next(2) [OF assms(1,2)] show ?thesis by simp
  next
    case False
    with m have "?m < 11" by linarith
    with m have "month_start y m + month_length y m \<le> month_start y 11"
      using month_start_mono [of ?m "11 - ?m" y] by (simp split: if_splits)
    moreover have "month_start y 11 \<le> days_in_year y" by (simp add: month_start_def days_in_year_def)
    ultimately show ?thesis by simp
  qed
  with assms(4) show "month_start y m + d - 1 < days_in_year y" by simp
qed

lemma month_exists:
  assumes "0 \<le> e" and "e < days_in_year y"
  shows "\<exists>m. 0 \<le> m \<and> m < 12 \<and> month_start y m \<le> e \<and> e < month_start y m + month_length y m"
proof -
  define l :: int where "l = (if leap_year y then 1 else 0)"
  have e: "0 \<le> e" "e < 365 + l" using assms by (simp_all add: l_def days_in_year_def split: if_splits)
  have s: "month_start y 0 = 0" "month_start y 1 = 31" "month_start y 2 = 59 + l" "month_start y 3 = 90 + l"
    "month_start y 4 = 120 + l" "month_start y 5 = 151 + l" "month_start y 6 = 181 + l" "month_start y 7 = 212 + l"
    "month_start y 8 = 243 + l" "month_start y 9 = 273 + l" "month_start y 10 = 304 + l" "month_start y 11 = 334 + l"
    by (simp_all add: month_start_def l_def)
  have t: "month_length y 0 = 31" "month_length y 1 = 28 + l" "month_length y 2 = 31" "month_length y 3 = 30"
    "month_length y 4 = 31" "month_length y 5 = 30" "month_length y 6 = 31" "month_length y 7 = 31"
    "month_length y 8 = 30" "month_length y 9 = 31" "month_length y 10 = 30" "month_length y 11 = 31"
    by (simp_all add: month_length_def l_def)
  consider "e < 31" | "31 \<le> e \<and> e < 59 + l" | "59 + l \<le> e \<and> e < 90 + l" | "90 + l \<le> e \<and> e < 120 + l"
    | "120 + l \<le> e \<and> e < 151 + l" | "151 + l \<le> e \<and> e < 181 + l" | "181 + l \<le> e \<and> e < 212 + l"
    | "212 + l \<le> e \<and> e < 243 + l" | "243 + l \<le> e \<and> e < 273 + l" | "273 + l \<le> e \<and> e < 304 + l"
    | "304 + l \<le> e \<and> e < 334 + l" | "334 + l \<le> e" by linarith
  then show ?thesis
  proof cases
    case 1 with e s(1) t(1) show ?thesis by (intro exI [of _ 0]) simp
  next
    case 2 with s(2) t(2) show ?thesis by (intro exI [of _ 1]) simp
  next
    case 3 with s(3) t(3) show ?thesis by (intro exI [of _ 2]) simp
  next
    case 4 with s(4) t(4) show ?thesis by (intro exI [of _ 3]) simp
  next
    case 5 with s(5) t(5) show ?thesis by (intro exI [of _ 4]) simp
  next
    case 6 with s(6) t(6) show ?thesis by (intro exI [of _ 5]) simp
  next
    case 7 with s(7) t(7) show ?thesis by (intro exI [of _ 6]) simp
  next
    case 8 with s(8) t(8) show ?thesis by (intro exI [of _ 7]) simp
  next
    case 9 with s(9) t(9) show ?thesis by (intro exI [of _ 8]) simp
  next
    case 10 with s(10) t(10) show ?thesis by (intro exI [of _ 9]) simp
  next
    case 11 with s(11) t(11) show ?thesis by (intro exI [of _ 10]) simp
  next
    case 12 with e s(12) t(12) show ?thesis by (intro exI [of _ 11]) simp
  qed
qed

section \<open>Days and dates correspond\<close>

lemma make_day_in_month: "0 \<le> m \<Longrightarrow> m < 12 \<Longrightarrow> make_day y m d = day_from_year y + month_start y m + d - 1"
  by (simp add: make_day_def)

lemma of_make_day:
  assumes "valid_date y m d"
  shows "year_from_day (make_day y m d) = y" "month_from_day (make_day y m d) = m"
    "date_from_day (make_day y m d) = d"
proof -
  from assms have v: "0 \<le> m" "m < 12" "1 \<le> d" "d \<le> month_length y m" by (simp_all add: valid_date_def)
  note mo = month_of_day_of_year [OF v]
  let ?n = "make_day y m d"
  have n: "?n = day_from_year y + month_start y m + d - 1" by (rule make_day_in_month [OF v(1,2)])
  show y: "year_from_day ?n = y"
    unfolding year_from_day_iff day_from_year_succ n using mo(2,3) v(3) by linarith
  have "?n - day_from_year y = month_start y m + d - 1" using n by simp
  with mo(1) show m: "month_from_day ?n = m" by (simp add: month_from_day_def y Let_def)
  have "date_from_day ?n = ?n - day_from_year y - month_start y m + 1" by (simp add: date_from_day_def y m)
  then show "date_from_day ?n = d" unfolding n by simp
qed

lemma make_of_day:
  "valid_date (year_from_day n) (month_from_day n) (date_from_day n)"
  "make_day (year_from_day n) (month_from_day n) (date_from_day n) = n"
proof -
  let ?y = "year_from_day n"
  let ?e = "n - day_from_year ?y"
  have "day_from_year ?y \<le> n \<and> n < day_from_year (?y + 1)" using year_from_day_iff [of n ?y] by blast
  then have "0 \<le> ?e" "?e < days_in_year ?y" by (simp_all add: day_from_year_succ)
  from month_exists [OF this] obtain m where m: "0 \<le> m" "m < 12" "month_start ?y m \<le> ?e"
    "?e < month_start ?y m + month_length ?y m" by blast
  let ?d = "?e - month_start ?y m + 1"
  have v: "valid_date ?y m ?d" using m by (simp add: valid_date_def)
  have n: "make_day ?y m ?d = n" using m by (simp add: make_day_in_month)
  from of_make_day [OF v] n have "month_from_day n = m" "date_from_day n = ?d" by simp_all
  with v n show "valid_date ?y (month_from_day n) (date_from_day n)"
    "make_day ?y (month_from_day n) (date_from_day n) = n" by simp_all
qed

text \<open>
  What the date picker relies on: a calendar builds a day from a year, a month and a day of the month, for
  any numbers, and reads them back. A date is genuine exactly when reading gives what went in.
\<close>

locale calendar =
  fixes mk :: "int \<Rightarrow> int \<Rightarrow> int \<Rightarrow> 'day" and year :: "'day \<Rightarrow> int" and month :: "'day \<Rightarrow> int" and day :: "'day \<Rightarrow> int"
    and genuine :: "int \<Rightarrow> int \<Rightarrow> int \<Rightarrow> bool"
  assumes read_mk: "genuine y m d \<Longrightarrow> year (mk y m d) = y \<and> month (mk y m d) = m \<and> day (mk y m d) = d"
    and read_genuine: "genuine (year x) (month x) (day x)"
    and mk_read: "mk (year x) (month x) (day x) = x"
begin

lemma mk_inject:
  "genuine y m d \<Longrightarrow> genuine y' m' d' \<Longrightarrow> mk y m d = mk y' m' d' \<longleftrightarrow> y = y' \<and> m = m' \<and> d = d'"
  by (metis read_mk)

text \<open>The check that \<open>parseDate\<close> ends with.\<close>

lemma genuine_iff_read_back:
  "genuine y m d \<longleftrightarrow> year (mk y m d) = y \<and> month (mk y m d) = m \<and> day (mk y m d) = d"
  using read_mk [of y m d] read_genuine [of "mk y m d"] by auto

end

interpretation gregorian: calendar make_day year_from_day month_from_day date_from_day valid_date
  by unfold_locales (simp_all add: of_make_day make_of_day)

section \<open>Dates with an hour\<close>

record js_date =
  jd_day :: int
  jd_hour :: int

type_synonym midnights = "int \<Rightarrow> js_date"

text \<open>
  What a browser makes of midnight: the hour 0, or, where summer time skips it, the hour 1 of the same day
  or the hour 23 of the day before.
\<close>

definition sane_midnight :: "midnights \<Rightarrow> bool" where
  "sane_midnight mid \<longleftrightarrow>
     (\<forall>n. mid n \<in> {\<lparr>jd_day = n, jd_hour = 0\<rparr>, \<lparr>jd_day = n, jd_hour = 1\<rparr>, \<lparr>jd_day = n - 1, jd_hour = 23\<rparr>})"

text \<open>\<open>new Date(y, m, d)\<close>; a year from 0 to 99 means the twentieth century.\<close>

definition full_year :: "int \<Rightarrow> int" where
  "full_year y = (if 0 \<le> y \<and> y \<le> 99 then 1900 + y else y)"

definition new_date :: "midnights \<Rightarrow> int \<Rightarrow> int \<Rightarrow> int \<Rightarrow> js_date" where
  "new_date mid y m d = mid (make_day (full_year y) m d)"

definition set_hours :: "midnights \<Rightarrow> int \<Rightarrow> js_date \<Rightarrow> js_date" where
  "set_hours mid h dt =
     (let n = jd_day dt + h div 24 in
        if h mod 24 = 0 then mid n else \<lparr>jd_day = n, jd_hour = h mod 24\<rparr>)"

definition get_full_year :: "js_date \<Rightarrow> int" where
  "get_full_year dt = year_from_day (jd_day dt)"

definition get_month :: "js_date \<Rightarrow> int" where
  "get_month dt = month_from_day (jd_day dt)"

definition get_date :: "js_date \<Rightarrow> int" where
  "get_date dt = date_from_day (jd_day dt)"

definition get_day :: "js_date \<Rightarrow> int" where
  "get_day dt = week_day (jd_day dt)"

section \<open>Helpers of the date picker\<close>

definition daylight_saving_adjust :: "midnights \<Rightarrow> js_date \<Rightarrow> js_date" where
  "daylight_saving_adjust mid dt = set_hours mid (if jd_hour dt > 12 then jd_hour dt + 2 else 0) dt"

definition get_days_in_month :: "midnights \<Rightarrow> int \<Rightarrow> int \<Rightarrow> int" where
  "get_days_in_month mid y m = 32 - get_date (daylight_saving_adjust mid (new_date mid y m 32))"

definition get_first_day_of_month :: "midnights \<Rightarrow> int \<Rightarrow> int \<Rightarrow> int" where
  "get_first_day_of_month mid y m = get_day (new_date mid y m 1)"

definition no_weekends :: "js_date \<Rightarrow> bool" where
  "no_weekends dt \<longleftrightarrow> get_day dt > 0 \<and> get_day dt < 6"

text \<open>
  \<open>iso8601Week\<close>. \<open>shift\<close> is the difference, in hours, that a change of the clock between the two days
  adds to the difference of their times; \<open>Math.round\<close> of a number of hours over 24 is written out.
\<close>

definition week_thursday :: "int \<Rightarrow> int" where
  "week_thursday n = n + 4 - (if week_day n = 0 then 7 else week_day n)"

definition iso8601_week :: "int \<Rightarrow> js_date \<Rightarrow> int" where
  "iso8601_week shift dt =
     (let th = week_thursday (jd_day dt);
          jan1 = make_day (year_from_day th) 0 1;
          rounded = (24 * (th - jan1) + shift + 12) div 24
      in rounded div 7 + 1)"

lemma adjust_new_date:
  assumes "sane_midnight mid"
  shows "jd_day (daylight_saving_adjust mid (mid n)) = n"
proof -
  from assms have "mid n \<in> {\<lparr>jd_day = n, jd_hour = 0\<rparr>, \<lparr>jd_day = n, jd_hour = 1\<rparr>, \<lparr>jd_day = n - 1, jd_hour = 23\<rparr>}"
    by (simp add: sane_midnight_def)
  then show ?thesis by (auto simp: daylight_saving_adjust_def set_hours_def)
qed

text \<open>A day past the end of a month is a day of the next one.\<close>

lemma make_day_overflow:
  assumes "0 \<le> m" and "m < 12"
  shows "make_day y m (month_length y m + d) = make_day y (m + 1) d"
proof (cases "m = 11")
  case True
  have "make_day y (11 + 1) d = day_from_year (y + 1) + month_start (y + 1) 0 + d - 1" by (simp add: make_day_def)
  moreover have "month_start (y + 1) 0 = 0" by (simp add: month_start_def)
  ultimately show ?thesis
    using True month_start_next(2) [OF assms, of y] by (simp add: make_day_in_month day_from_year_succ)
next
  case False
  with assms month_start_next(1) [OF assms, of y] show ?thesis by (simp add: make_day_in_month)
qed

lemma make_day_carry: "make_day y m d = make_day (y + m div 12) (m mod 12) d"
  by (simp add: make_day_def)

lemma make_day_32:
  assumes "0 \<le> m" and "m < 12"
  shows "date_from_day (make_day y m 32) = 32 - month_length y m"
proof -
  let ?d = "32 - month_length y m"
  have d: "1 \<le> ?d" "?d \<le> 4" using month_length_bounds [of y m] by linarith+
  have e: "make_day y m 32 = make_day y (m + 1) ?d" using make_day_overflow [OF assms, of y ?d] by simp
  show ?thesis
  proof (cases "m = 11")
    case True
    have "make_day y (m + 1) ?d = make_day (y + 1) 0 ?d" using True by (subst make_day_carry) simp
    moreover have "valid_date (y + 1) 0 ?d" using d month_length_bounds(1) [of "y + 1" 0] by (simp add: valid_date_def)
    ultimately show ?thesis using e of_make_day(3) by simp
  next
    case False
    with assms d month_length_bounds(1) [of y "m + 1"] have "valid_date y (m + 1) ?d" by (simp add: valid_date_def)
    with e of_make_day(3) show ?thesis by simp
  qed
qed

lemma days_in_month_eq:
  assumes "sane_midnight mid"
  shows "get_days_in_month mid y m = month_length (full_year y + m div 12) (m mod 12)"
proof -
  have "get_date (daylight_saving_adjust mid (new_date mid y m 32)) =
      date_from_day (make_day (full_year y + m div 12) (m mod 12) 32)"
    using adjust_new_date [OF assms] make_day_carry [of "full_year y" m 32] by (simp add: get_date_def new_date_def)
  then show ?thesis by (simp add: get_days_in_month_def make_day_32)
qed

section \<open>Properties\<close>

text \<open>\<open>_getDaysInMonth\<close> gives the length of the Gregorian month for every month number, also one beyond
  the year on either side, whatever the browser makes of a skipped midnight.\<close>

theorem days_in_month_gregorian:
  assumes "sane_midnight mid"
  shows "get_days_in_month mid y m = month_length (full_year y + m div 12) (m mod 12)"
  by (rule days_in_month_eq [OF assms])

text \<open>A browser in a zone that skips midnight on one day, to evaluate hypotheses on.\<close>

definition example_midnight :: midnights where
  "example_midnight n = (if n = 16495 then \<lparr>jd_day = n - 1, jd_hour = 23\<rparr> else \<lparr>jd_day = n, jd_hour = 0\<rparr>)"

lemma example_midnight_sane: "sane_midnight example_midnight"
  by (simp add: sane_midnight_def example_midnight_def)

theorem days_in_month_gregorian_witness:
  "get_days_in_month example_midnight 2015 13 = 29"
proof -
  have "month_length (full_year 2015 + 13 div 12) (13 mod 12) = 29" by code_simp
  with days_in_month_gregorian [OF example_midnight_sane, of 2015 13] show ?thesis by simp
qed

text \<open>The Thursday of a day's week, and the Thursdays of a year.\<close>

lemma week_thursday: "week_day (week_thursday n) = 4" "week_thursday n - 3 \<le> n" "n \<le> week_thursday n + 3"
proof -
  let ?r = "(n + 4) mod 7"
  have r: "0 \<le> ?r" "?r < 7" by simp_all
  have "(n + 4) = 7 * ((n + 4) div 7) + ?r" by simp
  then have n: "n + 4 - ?r = 7 * ((n + 4) div 7)" by linarith
  show "week_thursday n - 3 \<le> n" "n \<le> week_thursday n + 3"
    using r by (auto simp: week_thursday_def week_day_def)
  have four: "(7 * q + 4) mod 7 = (4::int)" for q by simp
  show "week_day (week_thursday n) = 4"
  proof (cases "?r = 0")
    case True
    then have "week_thursday n + 4 = n + 4 - ?r - 7 + 4" by (simp add: week_thursday_def week_day_def)
    also have "\<dots> = 7 * ((n + 4) div 7 - 1) + 4" unfolding n by simp
    finally show ?thesis unfolding week_day_def by (simp only: four)
  next
    case False
    then have "week_thursday n + 4 = n + 4 - ?r + 4" by (simp add: week_thursday_def week_day_def)
    also have "\<dots> = 7 * ((n + 4) div 7) + 4" unfolding n by simp
    finally show ?thesis unfolding week_day_def by (simp only: four)
  qed
qed

lemma div_24: "- 12 \<le> s \<Longrightarrow> s < 12 \<Longrightarrow> (24 * x + s + 12) div 24 = (x::int)"
proof -
  assume s: "- 12 \<le> s" "s < 12"
  have "24 * x + s + 12 = (s + 12) + 24 * x" by simp
  also have "\<dots> div 24 = (s + 12) div 24 + x" by simp
  finally show ?thesis using s by simp
qed

lemma iso_week_eq:
  assumes "- 12 \<le> shift" and "shift < 12"
  shows "iso8601_week shift dt =
    (week_thursday (jd_day dt) - day_from_year (year_from_day (week_thursday (jd_day dt)))) div 7 + 1"
  using assms by (simp add: iso8601_week_def Let_def div_24 make_day_in_month) (simp add: month_start_def)

lemma thursdays_card:
  assumes "a \<le> th" and "week_day th = 4"
  shows "int (card {t. a \<le> t \<and> t \<le> th \<and> week_day t = 4}) = (th - a) div 7 + 1"
proof -
  let ?k = "nat ((th - a) div 7)"
  have k: "int ?k = (th - a) div 7" using assms(1) by simp
  have "{t. a \<le> t \<and> t \<le> th \<and> week_day t = 4} = (\<lambda>j. th - 7 * int j) ` {0..?k}"
  proof (intro set_eqI iffI)
    fix t assume "t \<in> {t. a \<le> t \<and> t \<le> th \<and> week_day t = 4}"
    then have t: "a \<le> t" "t \<le> th" "(t + 4) mod 7 = (th + 4) mod 7" using assms(2) by (simp_all add: week_day_def)
    then have "7 dvd (th + 4) - (t + 4)" by (metis mod_eq_dvd_iff)
    then obtain q where q: "th - t = 7 * q" by auto
    with t have "0 \<le> q" "q \<le> (th - a) div 7" by (simp_all add: zdiv_mono1 [of "7 * q" "th - a" 7, simplified])
    with q k show "t \<in> (\<lambda>j. th - 7 * int j) ` {0..?k}" by (intro image_eqI [of _ _ "nat q"]) auto
  next
    fix t assume "t \<in> (\<lambda>j. th - 7 * int j) ` {0..?k}"
    then obtain j where j: "t = th - 7 * int j" "j \<le> ?k" by auto
    then have "7 * int j \<le> 7 * ((th - a) div 7)" using k by linarith
    also have "\<dots> \<le> th - a" by (rule div_bounds(1)) simp
    finally have "a \<le> t" using j by simp
    moreover have "(t + 4) mod 7 = (th + 4) mod 7"
    proof -
      have "t + 4 = th + 4 - int j * 7" using j(1) by simp
      then show ?thesis by (simp only: mod_shift)
    qed
    ultimately show "t \<in> {t. a \<le> t \<and> t \<le> th \<and> week_day t = 4}" using assms(2) j(1) by (simp add: week_day_def)
  qed
  moreover have "inj_on (\<lambda>j. th - 7 * int j) {0..?k}" by (rule inj_onI) simp
  ultimately show ?thesis using k by (simp add: card_image)
qed

text \<open>\<open>iso8601Week\<close> is the ISO 8601 week: the number of Thursdays in the year, up to the Thursday of the
  date's week, where the year is that of this Thursday; all seven days from Monday to Sunday have the
  same. A change of the clock in between does not matter.\<close>

theorem iso_week_counts_thursdays:
  assumes "- 12 \<le> shift" and "shift < 12"
  shows "let th = week_thursday (jd_day dt); y = year_from_day th in
           week_day th = 4 \<and> th - 3 \<le> jd_day dt \<and> jd_day dt \<le> th + 3 \<and>
           iso8601_week shift dt = int (card {t. year_from_day t = y \<and> t \<le> th \<and> week_day t = 4})"
proof -
  let ?th = "week_thursday (jd_day dt)"
  let ?y = "year_from_day ?th"
  have y: "day_from_year ?y \<le> ?th" "?th < day_from_year (?y + 1)" using year_from_day_iff [of ?th ?y] by auto
  have "{t. year_from_day t = ?y \<and> t \<le> ?th \<and> week_day t = 4} =
      {t. day_from_year ?y \<le> t \<and> t \<le> ?th \<and> week_day t = 4}"
    using y(2) by (auto simp: year_from_day_iff)
  with thursdays_card [OF y(1) week_thursday(1)] week_thursday [of "jd_day dt"] iso_week_eq [OF assms, of dt]
  show ?thesis by (simp add: Let_def)
qed

theorem iso_week_counts_thursdays_witness:
  "int (card {t. year_from_day t = 2015 \<and> t \<le> make_day 2015 11 31 \<and> week_day t = 4}) = 53"
proof -
  let ?dt = "\<lparr>jd_day = make_day 2016 0 1, jd_hour = 0\<rparr>"
  have e: "iso8601_week 0 ?dt = 53" "week_thursday (jd_day ?dt) = make_day 2015 11 31"
    "year_from_day (make_day 2015 11 31) = 2015" by code_simp+
  have "iso8601_week 0 ?dt = int (card {t. year_from_day t = year_from_day (week_thursday (jd_day ?dt)) \<and>
      t \<le> week_thursday (jd_day ?dt) \<and> week_day t = 4})"
    using iso_week_counts_thursdays [of 0 ?dt] by (simp add: Let_def)
  then show ?thesis unfolding e by simp
qed

end
