(* ===== verification/Datepicker_Format.thy ===== *)
theory Datepicker_Format
  imports Calendar
begin

text \<open>
  Reading and writing dates in the date picker of the deployed bundle: \<open>parseDate\<close>, \<open>formatDate\<close> and
  \<open>_possibleChars\<close>. The three loops scan the format character by character with one character of look
  ahead, as the code does; the scanned rest of the format and of the value are lists instead of
  indices, and the position is kept for the error messages. The lemmas show that a parsed date is always
  genuine, that the formats the library names can be read back, and what the two-digit years mean.
\<close>

section \<open>Settings\<close>

datatype year_cutoff = Cutoff_Number int | Cutoff_Offset int

record date_settings =
  short_year_cutoff :: "year_cutoff option"
  day_names_short :: "string list"
  day_names :: "string list"
  month_names_short :: "string list"
  month_names :: "string list"

definition default_settings :: date_settings where
  "default_settings =
     \<lparr>short_year_cutoff = None,
      day_names_short = [''Sun'', ''Mon'', ''Tue'', ''Wed'', ''Thu'', ''Fri'', ''Sat''],
      day_names = [''Sunday'', ''Monday'', ''Tuesday'', ''Wednesday'', ''Thursday'', ''Friday'', ''Saturday''],
      month_names_short = [''Jan'', ''Feb'', ''Mar'', ''Apr'', ''May'', ''Jun'', ''Jul'', ''Aug'', ''Sep'', ''Oct'',
                           ''Nov'', ''Dec''],
      month_names = [''January'', ''February'', ''March'', ''April'', ''May'', ''June'', ''July'', ''August'',
                     ''September'', ''October'', ''November'', ''December'']\<rparr>"

text \<open>A missing cutoff, and the number 0, give way to the default \<open>"+10"\<close>, which counts from the current year.\<close>

definition effective_cutoff :: "int \<Rightarrow> year_cutoff option \<Rightarrow> int" where
  "effective_cutoff this_year c =
     (case c of
        Some (Cutoff_Number n) \<Rightarrow> if n = 0 then this_year mod 100 + 10 else n
      | Some (Cutoff_Offset k) \<Rightarrow> this_year mod 100 + k
      | None \<Rightarrow> this_year mod 100 + 10)"

text \<open>The world a call sees: the browser's midnights, the local day of a time in milliseconds, the year now.\<close>

record date_world =
  w_midnight :: midnights
  w_day_of_time :: "int \<Rightarrow> int"
  w_time_of :: "js_date \<Rightarrow> int"
  w_this_year :: int

definition ticks_to_1970 :: int where
  "ticks_to_1970 = ((1970 - 1) * 365 + 1970 div 4 - 1970 div 100 + 1970 div 400) * 24 * 60 * 60 * 10000000"

section \<open>formatDate\<close>

text \<open>The next character of the format, when it is the given one, is consumed with it.\<close>

definition look_ahead :: "char \<Rightarrow> string \<Rightarrow> bool" where
  "look_ahead c cs \<longleftrightarrow> cs \<noteq> [] \<and> hd cs = c"

definition after_look :: "char \<Rightarrow> string \<Rightarrow> string" where
  "after_look c cs = (if look_ahead c cs then tl cs else cs)"

lemma after_look_length: "length (after_look c cs) \<le> length cs"
  by (simp add: after_look_def)

text \<open>\<open>while (num.length < len) num = "0" + num\<close>.\<close>

definition pad_zeros :: "nat \<Rightarrow> string \<Rightarrow> string" where
  "pad_zeros len num = replicate (len - length num) (CHR ''0'') @ num"

definition format_number :: "bool \<Rightarrow> int \<Rightarrow> nat \<Rightarrow> string" where
  "format_number doubled v len =
     (let num = int_to_string v in if doubled then pad_zeros len num else num)"

definition format_name :: "bool \<Rightarrow> int \<Rightarrow> string list \<Rightarrow> string list \<Rightarrow> string" where
  "format_name doubled v short long = (if doubled then long ! nat v else short ! nat v)"

text \<open>The remainder of JavaScript has the sign of its left argument; \<open>getYear\<close> counts from 1900.\<close>

definition js_rem :: "int \<Rightarrow> int \<Rightarrow> int" where
  "js_rem a b = (if a < 0 then - ((- a) mod b) else a mod b)"

definition short_year :: "int \<Rightarrow> string" where
  "short_year y =
     (let r = js_rem (y - 1900) 100 in (if r < 10 then ''0'' else []) @ int_to_string r)"

definition day_of_year :: "js_date \<Rightarrow> int" where
  "day_of_year dt =
     (let y = full_year (get_full_year dt) in make_day y (get_month dt) (get_date dt) - make_day y 0 0)"

text \<open>What a format letter outside quotes stands for; \<^const>\<open>None\<close> for any other character.\<close>

definition format_field :: "date_world \<Rightarrow> date_settings \<Rightarrow> js_date \<Rightarrow> char \<Rightarrow> bool \<Rightarrow> string option" where
  "format_field w s dt c doubled =
     (if c = CHR ''d'' then Some (format_number doubled (get_date dt) 2)
      else if c = CHR ''D'' then Some (format_name doubled (get_day dt) (day_names_short s) (day_names s))
      else if c = CHR ''o'' then Some (format_number doubled (day_of_year dt) 3)
      else if c = CHR ''m'' then Some (format_number doubled (get_month dt + 1) 2)
      else if c = CHR ''M'' then Some (format_name doubled (get_month dt) (month_names_short s) (month_names s))
      else if c = CHR ''y'' then
        Some (if doubled then int_to_string (get_full_year dt) else short_year (get_full_year dt))
      else None)"

definition quote :: char where
  "quote = CHR 0x27"

function (sequential) format_chars :: "date_world \<Rightarrow> date_settings \<Rightarrow> js_date \<Rightarrow> bool \<Rightarrow> string \<Rightarrow> string" where
  "format_chars w s dt literal [] = []"
| "format_chars w s dt True (c # cs) =
     (if c = quote \<and> \<not> look_ahead quote cs then format_chars w s dt False cs
      else c # format_chars w s dt True (if c = quote then after_look quote cs else cs))"
| "format_chars w s dt False (c # cs) =
     (case format_field w s dt c (look_ahead c cs) of
        Some out \<Rightarrow> out @ format_chars w s dt False (after_look c cs)
      | None \<Rightarrow>
          if c = CHR ''@'' then int_to_string (w_time_of w dt) @ format_chars w s dt False cs
          else if c = CHR ''!'' then
            int_to_string (w_time_of w dt * 10000 + ticks_to_1970) @ format_chars w s dt False cs
          else if c = quote then
            (if look_ahead quote cs then quote # format_chars w s dt False (after_look quote cs)
             else format_chars w s dt True cs)
          else c # format_chars w s dt False cs)"
  by pat_completeness auto
termination
  by (relation "measure (\<lambda>(w, s, dt, l, cs). length cs)") (auto simp: after_look_length le_imp_less_Suc)

definition format_date :: "date_world \<Rightarrow> date_settings \<Rightarrow> string \<Rightarrow> js_date option \<Rightarrow> string" where
  "format_date w s fmt dt = (case dt of None \<Rightarrow> [] | Some d \<Rightarrow> format_chars w s d False fmt)"

section \<open>parseDate\<close>

datatype date_error =
    Invalid_Arguments
  | Missing_Number nat
  | Unknown_Name nat
  | Unexpected_Literal nat
  | Extra_Characters string
  | Invalid_Date

record parse_state =
  ps_rest :: string
  ps_pos :: nat
  ps_year :: int
  ps_month :: int
  ps_day :: int
  ps_doy :: int

definition parse_start :: "string \<Rightarrow> parse_state" where
  "parse_start v = \<lparr>ps_rest = v, ps_pos = 0, ps_year = - 1, ps_month = - 1, ps_day = - 1, ps_doy = - 1\<rparr>"

definition advance :: "nat \<Rightarrow> parse_state \<Rightarrow> parse_state" where
  "advance n st = st\<lparr>ps_rest := drop n (ps_rest st), ps_pos := ps_pos st + n\<rparr>"

definition number_size :: "char \<Rightarrow> bool \<Rightarrow> nat" where
  "number_size c doubled =
     (if c = CHR ''@'' then 14 else if c = CHR ''!'' then 20
      else if c = CHR ''y'' \<and> doubled then 4 else if c = CHR ''o'' then 3 else 2)"

definition get_number :: "char \<Rightarrow> bool \<Rightarrow> parse_state \<Rightarrow> date_error + (int \<times> parse_state)" where
  "get_number c doubled st =
     (let size = number_size c doubled;
          min_size = (if c = CHR ''y'' then size else 1);
          num = takeWhile is_digit (take size (ps_rest st))
      in if length num < min_size then Inl (Missing_Number (ps_pos st))
         else Inr (int (digits_to_nat num), advance (length num) st))"

text \<open>The names are tried from the longest to the shortest, without regard to case.\<close>

definition names_by_length :: "string list \<Rightarrow> (nat \<times> string) list" where
  "names_by_length names = sort_key (\<lambda>p. - int (length (snd p))) (enumerate 0 names)"

definition name_matches :: "string \<Rightarrow> string \<Rightarrow> bool" where
  "name_matches name v \<longleftrightarrow> map lower (take (length name) v) = map lower name"

definition get_name :: "bool \<Rightarrow> string list \<Rightarrow> string list \<Rightarrow> parse_state \<Rightarrow> date_error + (int \<times> parse_state)" where
  "get_name doubled short long st =
     (case find (\<lambda>p. name_matches (snd p) (ps_rest st)) (names_by_length (if doubled then long else short)) of
        None \<Rightarrow> Inl (Unknown_Name (ps_pos st))
      | Some (k, name) \<Rightarrow> Inr (int k + 1, advance (length name) st))"

definition check_literal :: "char \<Rightarrow> parse_state \<Rightarrow> date_error + parse_state" where
  "check_literal c st =
     (if ps_rest st = [] \<or> hd (ps_rest st) \<noteq> c then Inl (Unexpected_Literal (ps_pos st)) else Inr (advance 1 st))"

text \<open>
  \<open>new Date\<close> of a number of milliseconds drops the fraction. A count of ticks is taken as exact here, where
  a double of that size is a multiple of 128.
\<close>

definition js_trunc_div :: "int \<Rightarrow> int \<Rightarrow> int" where
  "js_trunc_div a b = (if a < 0 then - ((- a) div b) else a div b)"

definition set_from_time :: "date_world \<Rightarrow> int \<Rightarrow> parse_state \<Rightarrow> parse_state" where
  "set_from_time w t st =
     (let n = w_day_of_time w t in
        st\<lparr>ps_year := year_from_day n, ps_month := month_from_day n + 1, ps_day := date_from_day n\<rparr>)"

definition map_result :: "('a \<Rightarrow> 'b) \<Rightarrow> 'e + 'a \<Rightarrow> 'e + 'b" where
  "map_result f r = (case r of Inl e \<Rightarrow> Inl e | Inr x \<Rightarrow> Inr (f x))"

text \<open>A format letter outside quotes; \<^const>\<open>None\<close> for any other character.\<close>

definition parse_field ::
  "date_world \<Rightarrow> date_settings \<Rightarrow> char \<Rightarrow> bool \<Rightarrow> parse_state \<Rightarrow> (date_error + parse_state) option" where
  "parse_field w s c doubled st =
     (if c = CHR ''d'' then Some (map_result (\<lambda>(n, st). st\<lparr>ps_day := n\<rparr>) (get_number c doubled st))
      else if c = CHR ''D'' then
        Some (map_result snd (get_name doubled (day_names_short s) (day_names s) st))
      else if c = CHR ''o'' then Some (map_result (\<lambda>(n, st). st\<lparr>ps_doy := n\<rparr>) (get_number c doubled st))
      else if c = CHR ''m'' then Some (map_result (\<lambda>(n, st). st\<lparr>ps_month := n\<rparr>) (get_number c doubled st))
      else if c = CHR ''M'' then
        Some (map_result (\<lambda>(n, st). st\<lparr>ps_month := n\<rparr>) (get_name doubled (month_names_short s) (month_names s) st))
      else if c = CHR ''y'' then Some (map_result (\<lambda>(n, st). st\<lparr>ps_year := n\<rparr>) (get_number c doubled st))
      else if c = CHR ''@'' then Some (map_result (\<lambda>(n, st). set_from_time w n st) (get_number c doubled st))
      else if c = CHR ''!'' then
        Some (map_result (\<lambda>(n, st). set_from_time w (js_trunc_div (n - ticks_to_1970) 10000) st) (get_number c doubled st))
      else None)"

function (sequential) parse_chars ::
  "date_world \<Rightarrow> date_settings \<Rightarrow> bool \<Rightarrow> string \<Rightarrow> parse_state \<Rightarrow> date_error + parse_state" where
  "parse_chars w s literal [] st = Inr st"
| "parse_chars w s True (c # cs) st =
     (if c = quote \<and> \<not> look_ahead quote cs then parse_chars w s False cs st
      else case check_literal c st of
        Inl e \<Rightarrow> Inl e
      | Inr st' \<Rightarrow> parse_chars w s True (if c = quote then after_look quote cs else cs) st')"
| "parse_chars w s False (c # cs) st =
     (case parse_field w s c (look_ahead c cs) st of
        Some (Inl e) \<Rightarrow> Inl e
      | Some (Inr st') \<Rightarrow> parse_chars w s False (after_look c cs) st'
      | None \<Rightarrow>
          if c = quote \<and> \<not> look_ahead quote cs then parse_chars w s True cs st
          else case check_literal c st of
            Inl e \<Rightarrow> Inl e
          | Inr st' \<Rightarrow> parse_chars w s False (if c = quote then after_look quote cs else cs) st')"
  by pat_completeness auto
termination
  by (relation "measure (\<lambda>(w, s, l, cs, st). length cs)") (auto simp: after_look_length le_imp_less_Suc)

text \<open>The year: a missing one is the current year, one below 100 is put into a century.\<close>

definition complete_year :: "int \<Rightarrow> int \<Rightarrow> int \<Rightarrow> int" where
  "complete_year this_year cutoff y =
     (if y = - 1 then this_year
      else if y < 100 then y + (this_year - this_year mod 100 + (if y \<le> cutoff then 0 else - 100))
      else y)"

text \<open>The day of the year is turned into a month and a day, month by month.\<close>

function month_of_doy :: "midnights \<Rightarrow> int \<Rightarrow> int \<Rightarrow> int \<Rightarrow> int \<times> int" where
  "month_of_doy mid y m d =
     (let dim = get_days_in_month mid y (m - 1) in
        if d \<le> dim \<or> dim \<le> 0 then (m, d) else month_of_doy mid y (m + 1) (d - dim))"
  by pat_completeness auto
termination
  by (relation "measure (\<lambda>(mid, y, m, d). nat d)") auto

declare month_of_doy.simps [simp del]

definition finish_date :: "date_world \<Rightarrow> int \<Rightarrow> int \<Rightarrow> int \<Rightarrow> date_error + js_date" where
  "finish_date w y m d =
     (let dt = daylight_saving_adjust (w_midnight w) (new_date (w_midnight w) y (m - 1) d) in
        if get_full_year dt \<noteq> y \<or> get_month dt + 1 \<noteq> m \<or> get_date dt \<noteq> d then Inl Invalid_Date else Inr dt)"

definition check_extra :: "string \<Rightarrow> bool" where
  "check_extra extra \<longleftrightarrow> extra = [] \<or> is_space (hd extra)"

definition parse_date ::
  "date_world \<Rightarrow> date_settings \<Rightarrow> string option \<Rightarrow> string option \<Rightarrow> date_error + js_date option" where
  "parse_date w s fmt v =
     (case (fmt, v) of
        (Some f, Some value) \<Rightarrow>
          if value = [] then Inr None
          else
            (case parse_chars w s False f (parse_start value) of
               Inl e \<Rightarrow> Inl e
             | Inr st \<Rightarrow>
                 if \<not> check_extra (ps_rest st) then Inl (Extra_Characters (ps_rest st))
                 else
                   let y = complete_year (w_this_year w) (effective_cutoff (w_this_year w) (short_year_cutoff s)) (ps_year st);
                       (m, d) = (if ps_doy st > - 1 then month_of_doy (w_midnight w) y 1 (ps_doy st)
                                 else (ps_month st, ps_day st))
                   in map_result Some (finish_date w y m d))
      | _ \<Rightarrow> Inl Invalid_Arguments)"

section \<open>The characters a format can produce\<close>

function (sequential) possible_chars :: "bool \<Rightarrow> string \<Rightarrow> string option" where
  "possible_chars literal [] = Some []"
| "possible_chars True (c # cs) =
     (if c = quote \<and> \<not> look_ahead quote cs then possible_chars False cs
      else map_option (\<lambda>r. c # r) (possible_chars True (if c = quote then after_look quote cs else cs)))"
| "possible_chars False (c # cs) =
     (if c = CHR ''d'' \<or> c = CHR ''m'' \<or> c = CHR ''y'' \<or> c = CHR ''@''
      then map_option (\<lambda>r. ''0123456789'' @ r) (possible_chars False cs)
      else if c = CHR ''D'' \<or> c = CHR ''M'' then None
      else if c = quote then
        (if look_ahead quote cs then map_option (\<lambda>r. quote # r) (possible_chars False (after_look quote cs))
         else possible_chars True cs)
      else map_option (\<lambda>r. c # r) (possible_chars False cs))"
  by pat_completeness auto
termination
  by (relation "measure (\<lambda>(l, cs). length cs)") (auto simp: after_look_length le_imp_less_Suc)

section \<open>Reading back one field\<close>

text \<open>A number that is at most \<open>size\<close> digits long is read whole when no digit follows or none fits.\<close>

lemma int_to_string_nonneg: "0 \<le> v \<Longrightarrow> int_to_string v = nat_to_string (nat v)"
  by (simp add: int_to_string_def)

lemma digits_pad: "digits_to_nat (pad_zeros n num) = digits_to_nat num"
proof -
  have "digits_to_nat (replicate k (CHR ''0'') @ num) = digits_to_nat num" for k
  proof (induction k)
    case (Suc k)
    have "digit_val (CHR ''0'') = 0" by (simp add: digit_val_def)
    then have "foldl (\<lambda>a c. 10 * a + digit_val c) 0 (CHR ''0'' # replicate k (CHR ''0'') @ num) =
        foldl (\<lambda>a c. 10 * a + digit_val c) 0 (replicate k (CHR ''0'') @ num)" by simp
    with Suc show ?case by (simp add: digits_to_nat_def)
  qed simp
  then show ?thesis by (simp add: pad_zeros_def)
qed

lemma pad_zeros_digits: "list_all is_digit num \<Longrightarrow> list_all is_digit (pad_zeros n num)"
proof -
  have "is_digit (CHR ''0'')" by (simp add: is_digit_def)
  then show "list_all is_digit num \<Longrightarrow> list_all is_digit (pad_zeros n num)"
    by (auto simp: pad_zeros_def list_all_iff)
qed

lemma pad_zeros_length: "length (pad_zeros n num) = max n (length num)"
  by (simp add: pad_zeros_def max_def)

definition no_digit_next :: "string \<Rightarrow> bool" where
  "no_digit_next rest \<longleftrightarrow> rest = [] \<or> \<not> is_digit (hd rest)"

lemma takeWhile_take_digits:
  assumes "list_all is_digit num" and "length num \<le> k" and "length num = k \<or> no_digit_next rest"
  shows "takeWhile is_digit (take k (num @ rest)) = num"
proof -
  have all: "\<forall>c \<in> set num. is_digit c" using assms(1) by (simp add: list_all_iff)
  from assms(3) show ?thesis
  proof
    assume "length num = k"
    then have "take k (num @ rest) = num" by simp
    with all show ?thesis by (metis takeWhile_eq_all_conv)
  next
    assume "no_digit_next rest"
    then have "takeWhile is_digit (take (k - length num) rest) = []"
      by (cases rest; cases "k - length num") (auto simp: no_digit_next_def)
    with all assms(2) show ?thesis by (simp add: takeWhile_append2)
  qed
qed

lemma get_number_reads:
  assumes "list_all is_digit num" and "length num \<le> number_size c b"
    and "length num = number_size c b \<or> no_digit_next rest"
    and "(if c = CHR ''y'' then number_size c b else 1) \<le> length num"
    and "ps_rest st = num @ rest"
  shows "get_number c b st = Inr (int (digits_to_nat num), advance (length num) st)"
  using takeWhile_take_digits [OF assms(1-3)] assms(4) by (simp add: get_number_def assms(5))

lemma get_number_format:
  assumes "0 \<le> v" and "v < 10 ^ n" and "0 < n" and "n = number_size c b" and "b \<or> no_digit_next rest"
    and "c \<noteq> CHR ''y''" and "ps_rest st = format_number b v n @ rest"
  shows "get_number c b st = Inr (v, advance (length (format_number b v n)) st)"
proof -
  let ?num = "format_number b v n"
  have d: "list_all is_digit ?num" and v: "int (digits_to_nat ?num) = v"
    using assms(1) by (simp_all add: format_number_def Let_def int_to_string_nonneg digits_pad pad_zeros_digits)
  have l: "length (nat_to_string (nat v)) \<le> n"
    using assms(1-3) by (intro length_nat_to_string_less) (simp_all add: nat_less_iff)
  then have n: "length ?num \<le> n" "b \<Longrightarrow> length ?num = n"
    using assms(1) by (simp_all add: format_number_def Let_def int_to_string_nonneg pad_zeros_length)
  have "?num \<noteq> []"
    using assms(1) by (simp add: format_number_def Let_def int_to_string_nonneg pad_zeros_def)
  then have "length ?num \<le> number_size c b" "length ?num = number_size c b \<or> no_digit_next rest"
    "(if c = CHR ''y'' then number_size c b else 1) \<le> length ?num"
    using assms(4-6) n by (simp, metis, simp add: Suc_le_eq)
  from get_number_reads [OF d this assms(7)] show ?thesis unfolding v .
qed

text \<open>A name is recognised when, regardless of case, none of the names starts another.\<close>

definition prefix_free :: "string list \<Rightarrow> bool" where
  "prefix_free names \<longleftrightarrow>
     (\<forall>i \<in> set [0..<length names]. \<forall>j \<in> set [0..<length names].
        prefix (map lower (names ! i)) (map lower (names ! j)) \<longrightarrow> i = j)"

lemma name_matches_prefix: "name_matches name v \<longleftrightarrow> prefix (map lower name) (map lower v)"
proof
  assume "name_matches name v"
  then have "map lower (take (length name) v) = map lower name" by (simp add: name_matches_def)
  then have "take (length name) (map lower v) = map lower name" by (simp add: take_map)
  then show "prefix (map lower name) (map lower v)" by (metis take_is_prefix)
next
  assume "prefix (map lower name) (map lower v)"
  then obtain u where "map lower v = map lower name @ u" by (auto simp: prefix_def)
  then have "take (length name) (map lower v) = map lower name" by simp
  then show "name_matches name v" by (simp add: name_matches_def take_map)
qed

lemma set_names_by_length: "set (names_by_length names) = set (enumerate 0 names)"
  by (simp add: names_by_length_def)

lemma find_unique:
  assumes "x \<in> set xs" and "P x" and "\<And>y. y \<in> set xs \<Longrightarrow> P y \<Longrightarrow> y = x"
  shows "find P xs = Some x"
proof (cases "find P xs")
  case None
  with assms(1,2) show ?thesis by (auto simp: find_None_iff)
next
  case (Some y)
  then have "y \<in> set xs" "P y" by (auto simp: find_Some_iff)
  then have "y = x" by (rule assms(3))
  with Some show ?thesis by simp
qed

lemma get_name_reads:
  assumes "prefix_free names" and "i < length names" and "names = (if b then long else short)"
    and "ps_rest st = names ! i @ rest"
  shows "get_name b short long st = Inr (int i + 1, advance (length (names ! i)) st)"
proof -
  have "find (\<lambda>p. name_matches (snd p) (ps_rest st)) (names_by_length names) = Some (i, names ! i)"
  proof (rule find_unique)
    show "(i, names ! i) \<in> set (names_by_length names)"
      using assms(2) by (simp add: set_names_by_length in_set_enumerate_eq)
    show "name_matches (snd (i, names ! i)) (ps_rest st)"
      by (simp add: name_matches_prefix assms(4))
    fix p assume "p \<in> set (names_by_length names)" and m: "name_matches (snd p) (ps_rest st)"
    then obtain j where j: "p = (j, names ! j)" "j < length names"
      by (auto simp: set_names_by_length in_set_enumerate_eq) (metis prod.collapse)
    from m have "prefix (map lower (names ! j)) (map lower (names ! i) @ map lower rest)"
      by (simp add: name_matches_prefix j assms(4))
    then have "prefix (map lower (names ! j)) (map lower (names ! i)) \<or>
        prefix (map lower (names ! i)) (map lower (names ! j))"
      by (auto simp: prefix_append)
    moreover have "i \<in> set [0..<length names]" "j \<in> set [0..<length names]" using assms(2) j(2) by simp_all
    ultimately have "j = i" using assms(1) unfolding prefix_free_def by blast
    with j show "p = (i, names ! i)" by simp
  qed
  with assms(3) show ?thesis by (simp add: get_name_def)
qed

lemma check_literal_reads: "ps_rest st = c # rest \<Longrightarrow> check_literal c st = Inr (advance 1 st)"
  by (simp add: check_literal_def)

section \<open>Formats that can be read back\<close>

text \<open>
  A format is readable when every number it writes ends where it is read to end: a day, month or day of the
  year without leading zeros is followed by a character that is neither a digit nor a field, and all years
  are written in the same way (\<open>yy\<close> says which). Time stamps are left out.
\<close>

definition field_char :: "char \<Rightarrow> bool" where
  "field_char c \<longleftrightarrow> c \<in> set ''dDomMy''"

definition plain_next :: "string \<Rightarrow> bool" where
  "plain_next cs \<longleftrightarrow> cs = [] \<or> \<not> (field_char (hd cs) \<or> is_digit (hd cs) \<or> hd cs \<in> {CHR ''@'', CHR ''!'', quote})"

fun readable_field :: "bool \<Rightarrow> char \<Rightarrow> string \<Rightarrow> bool" where
  "readable_field yy c cs \<longleftrightarrow>
     (c \<in> set ''dom'' \<longrightarrow> look_ahead c cs \<or> plain_next cs) \<and> (c = CHR ''y'' \<longrightarrow> look_ahead c cs = yy)"

declare readable_field.simps [simp del]

function (sequential) readable :: "bool \<Rightarrow> bool \<Rightarrow> string \<Rightarrow> bool" where
  "readable yy literal [] = True"
| "readable yy True (c # cs) =
     (if c = quote \<and> \<not> look_ahead quote cs then readable yy False cs
      else readable yy True (if c = quote then after_look quote cs else cs))"
| "readable yy False (c # cs) =
     (if field_char c then readable_field yy c cs \<and> readable yy False (after_look c cs)
      else if c = CHR ''@'' \<or> c = CHR ''!'' then False
      else if c = quote \<and> \<not> look_ahead quote cs then readable yy True cs
      else readable yy False (if c = quote then after_look quote cs else cs))"
  by pat_completeness auto
termination
  by (relation "measure (\<lambda>(yy, l, cs). length cs)") (auto simp: after_look_length le_imp_less_Suc)

text \<open>Whether a field letter occurs outside quotes.\<close>

function (sequential) mentions :: "char \<Rightarrow> bool \<Rightarrow> string \<Rightarrow> bool" where
  "mentions x literal [] = False"
| "mentions x True (c # cs) =
     (if c = quote \<and> \<not> look_ahead quote cs then mentions x False cs
      else mentions x True (if c = quote then after_look quote cs else cs))"
| "mentions x False (c # cs) =
     (if field_char c then c = x \<or> mentions x False (after_look c cs)
      else if c = quote \<and> \<not> look_ahead quote cs then mentions x True cs
      else mentions x False (if c = quote then after_look quote cs else cs))"
  by pat_completeness auto
termination
  by (relation "measure (\<lambda>(x, l, cs). length cs)") (auto simp: after_look_length le_imp_less_Suc)

definition usable_names :: "date_settings \<Rightarrow> bool" where
  "usable_names s \<longleftrightarrow>
     prefix_free (day_names_short s) \<and> prefix_free (day_names s) \<and>
     prefix_free (month_names_short s) \<and> prefix_free (month_names s) \<and>
     length (day_names_short s) = 7 \<and> length (day_names s) = 7 \<and>
     length (month_names_short s) = 12 \<and> length (month_names s) = 12"

definition year_as_read :: "bool \<Rightarrow> js_date \<Rightarrow> int" where
  "year_as_read yy dt = (if yy then get_full_year dt else (get_full_year dt - 1900) mod 100)"

definition readable_year :: "bool \<Rightarrow> js_date \<Rightarrow> bool" where
  "readable_year yy dt \<longleftrightarrow> (if yy then 1000 else 1900) \<le> get_full_year dt \<and> get_full_year dt < 10000"

lemma date_bounds:
  "0 \<le> get_month dt" "get_month dt < 12" "1 \<le> get_date dt" "get_date dt \<le> 31" "0 \<le> get_day dt" "get_day dt < 7"
  using make_of_day(1) [of "jd_day dt"] month_length_bounds(2) [of "year_from_day (jd_day dt)" "month_from_day (jd_day dt)"]
  by (simp_all add: get_month_def get_date_def get_day_def week_day_def valid_date_def)

lemma day_of_year_eq:
  assumes "100 \<le> get_full_year dt"
  shows "day_of_year dt = month_start (get_full_year dt) (get_month dt) + get_date dt"
    and "1 \<le> day_of_year dt" and "day_of_year dt \<le> 366"
proof -
  let ?y = "get_full_year dt"
  have v: "0 \<le> get_month dt" "get_month dt < 12" "1 \<le> get_date dt" "get_date dt \<le> month_length ?y (get_month dt)"
    using make_of_day(1) [of "jd_day dt"]
    by (simp_all add: get_month_def get_date_def get_full_year_def valid_date_def)
  have z: "month_start ?y 0 = 0" by (simp add: month_start_def)
  have "full_year ?y = ?y" using assms by (simp add: full_year_def)
  with v z show e: "day_of_year dt = month_start ?y (get_month dt) + get_date dt"
    by (simp add: day_of_year_def make_day_in_month)
  show "1 \<le> day_of_year dt" "day_of_year dt \<le> 366"
    using month_of_day_of_year(2,3) [OF v] v(3) days_in_year_pos(2) [of ?y] unfolding e by linarith+
qed

lemma year_digits:
  assumes "readable_year yy dt"
  shows "\<exists>num. (if yy then int_to_string (get_full_year dt) else short_year (get_full_year dt)) = num \<and>
    list_all is_digit num \<and> length num = (if yy then 4 else 2) \<and> int (digits_to_nat num) = year_as_read yy dt"
proof (cases yy)
  case True
  define n where "n = nat (get_full_year dt)"
  with True assms have n: "get_full_year dt = int n" "1000 \<le> n" "n < 10000"
    by (simp_all add: readable_year_def nat_less_iff le_nat_iff)
  have "length (nat_to_string n) = 4"
  proof -
    have d: "\<not> n < 10" "\<not> n div 10 < 10" "\<not> n div 100 < 10" "n div 1000 < 10"
      using n(2,3) by simp_all
    then show ?thesis
      by (simp add: nat_to_string.simps [of n] nat_to_string.simps [of "n div 10"]
          nat_to_string.simps [of "n div 100"] nat_to_string.simps [of "n div 1000"] flip: div_mult2_eq)
  qed
  with True n show ?thesis by (simp add: int_to_string_def year_as_read_def)
next
  case False
  let ?r = "(get_full_year dt - 1900) mod 100"
  define k where "k = nat ?r"
  have k: "?r = int k" "k < 100" by (simp_all add: k_def nat_less_iff)
  have y: "\<not> get_full_year dt - 1900 < 0" using assms False by (simp add: readable_year_def)
  have s: "short_year (get_full_year dt) = (if k < 10 then ''0'' else []) @ nat_to_string k"
    using y by (simp add: short_year_def js_rem_def k(1) int_to_string_def)
  have "(if k < 10 then ''0'' else []) @ nat_to_string k = pad_zeros 2 (nat_to_string k)"
    using k(2) by (simp add: pad_zeros_def nat_to_string.simps [of k] nat_to_string.simps [of "k div 10"])
  moreover have "length (pad_zeros 2 (nat_to_string k)) = 2"
    using k(2) length_nat_to_string_less [of k 2] by (simp add: pad_zeros_length)
  ultimately show ?thesis
    using False s k(1) by (simp add: pad_zeros_digits digits_pad year_as_read_def)
qed

text \<open>What reading a field leaves in the state, the rest of the value aside.\<close>

definition field_read :: "bool \<Rightarrow> js_date \<Rightarrow> (char \<Rightarrow> bool) \<Rightarrow> parse_state \<Rightarrow> parse_state \<Rightarrow> bool" where
  "field_read yy dt seen st st' \<longleftrightarrow>
     ps_year st' = (if seen (CHR ''y'') then year_as_read yy dt else ps_year st) \<and>
     ps_month st' = (if seen (CHR ''m'') \<or> seen (CHR ''M'') then get_month dt + 1 else ps_month st) \<and>
     ps_day st' = (if seen (CHR ''d'') then get_date dt else ps_day st) \<and>
     ps_doy st' = (if seen (CHR ''o'') then day_of_year dt else ps_doy st)"

lemma advance_simps [simp]:
  "ps_rest (advance n st) = drop n (ps_rest st)" "ps_year (advance n st) = ps_year st"
  "ps_month (advance n st) = ps_month st" "ps_day (advance n st) = ps_day st" "ps_doy (advance n st) = ps_doy st"
  by (simp_all add: advance_def)

lemma parse_field_reads:
  assumes names: "usable_names s" and year: "readable_year yy dt"
    and out: "format_field w s dt c b = Some out" "ps_rest st = out @ rest"
    and num: "c \<in> set ''dom'' \<Longrightarrow> b \<or> no_digit_next rest" and yb: "c = CHR ''y'' \<Longrightarrow> b = yy"
  shows "\<exists>st'. parse_field w s c b st = Some (Inr st') \<and> ps_rest st' = rest \<and> field_read yy dt (\<lambda>x. x = c) st st'"
proof -
  note b = date_bounds [of dt]
  have y: "100 \<le> get_full_year dt" using year by (cases yy) (simp_all add: readable_year_def)
  note doy = day_of_year_eq [OF y]
  consider "c = CHR ''d''" | "c = CHR ''D''" | "c = CHR ''o''" | "c = CHR ''m''" | "c = CHR ''M''" | "c = CHR ''y''"
    using out(1) by (auto simp: format_field_def split: if_splits)
  then show ?thesis
  proof cases
    case 1
    then have o: "ps_rest st = format_number b (get_date dt) 2 @ rest" using out by (simp add: format_field_def)
    have "get_number c b st = Inr (get_date dt, advance (length (format_number b (get_date dt) 2)) st)"
      using 1 b num by (intro get_number_format [OF _ _ _ _ _ _ o]) (simp_all add: number_size_def)
    with 1 o show ?thesis by (simp add: parse_field_def map_result_def field_read_def)
  next
    case 2
    then have o: "ps_rest st = (if b then day_names s else day_names_short s) ! nat (get_day dt) @ rest"
      using out by (auto simp: format_field_def format_name_def)
    have "get_name b (day_names_short s) (day_names s) st =
      Inr (int (nat (get_day dt)) + 1, advance (length ((if b then day_names s else day_names_short s) ! nat (get_day dt))) st)"
      using b names by (intro get_name_reads [OF _ _ refl o]) (simp_all add: usable_names_def)
    with 2 o show ?thesis by (simp add: parse_field_def map_result_def field_read_def)
  next
    case 3
    then have o: "ps_rest st = format_number b (day_of_year dt) 3 @ rest" using out by (simp add: format_field_def)
    have "get_number c b st = Inr (day_of_year dt, advance (length (format_number b (day_of_year dt) 3)) st)"
      using 3 doy num by (intro get_number_format [OF _ _ _ _ _ _ o]) (simp_all add: number_size_def)
    with 3 o show ?thesis by (simp add: parse_field_def map_result_def field_read_def)
  next
    case 4
    then have o: "ps_rest st = format_number b (get_month dt + 1) 2 @ rest" using out by (simp add: format_field_def)
    have "get_number c b st = Inr (get_month dt + 1, advance (length (format_number b (get_month dt + 1) 2)) st)"
      using 4 b num by (intro get_number_format [OF _ _ _ _ _ _ o]) (simp_all add: number_size_def)
    with 4 o show ?thesis by (simp add: parse_field_def map_result_def field_read_def)
  next
    case 5
    then have o: "ps_rest st = (if b then month_names s else month_names_short s) ! nat (get_month dt) @ rest"
      using out by (auto simp: format_field_def format_name_def)
    have "get_name b (month_names_short s) (month_names s) st =
      Inr (int (nat (get_month dt)) + 1,
        advance (length ((if b then month_names s else month_names_short s) ! nat (get_month dt))) st)"
      using b names by (intro get_name_reads [OF _ _ refl o]) (simp_all add: usable_names_def)
    with 5 o b show ?thesis by (simp add: parse_field_def map_result_def field_read_def)
  next
    case 6
    with yb have byy: "b = yy" by simp
    from year_digits [OF year] obtain num where n:
      "(if yy then int_to_string (get_full_year dt) else short_year (get_full_year dt)) = num"
      "list_all is_digit num" "length num = (if yy then 4 else 2)" "int (digits_to_nat num) = year_as_read yy dt" by blast
    have o: "ps_rest st = num @ rest" using out 6 n(1) byy by (auto simp: format_field_def)
    have "get_number c b st = Inr (year_as_read yy dt, advance (length num) st)"
      using 6 n(3) byy unfolding n(4) [symmetric]
      by (intro get_number_reads [OF n(2) _ _ _ o]) (simp_all add: number_size_def)
    with 6 o show ?thesis by (simp add: parse_field_def map_result_def field_read_def)
  qed
qed

lemma format_field_char: "format_field w s dt c b \<noteq> None \<longleftrightarrow> field_char c"
  by (auto simp: format_field_def field_char_def)

lemma parse_field_None: "\<not> field_char c \<Longrightarrow> c \<noteq> CHR ''@'' \<Longrightarrow> c \<noteq> CHR ''!'' \<Longrightarrow> parse_field w s c b st = None"
  by (auto simp: parse_field_def field_char_def)

lemma quote_not_field: "\<not> field_char quote" "quote \<noteq> CHR ''@''" "quote \<noteq> CHR ''!''"
  by (simp_all add: quote_def field_char_def)

lemma plain_no_digit: "plain_next cs \<Longrightarrow> no_digit_next (format_chars w s dt False cs)"
proof (cases cs)
  case (Cons c cs')
  moreover assume "plain_next cs"
  ultimately have c: "\<not> field_char c" "\<not> is_digit c" "c \<noteq> CHR ''@''" "c \<noteq> CHR ''!''" "c \<noteq> quote"
    by (simp_all add: plain_next_def)
  from c(1) have "format_field w s dt c b = None" for b using format_field_char by blast
  with c Cons show ?thesis by (simp add: no_digit_next_def)
qed (simp add: no_digit_next_def)

lemma field_read_trans:
  "field_read yy dt f st st' \<Longrightarrow> field_read yy dt g st' st'' \<Longrightarrow> field_read yy dt (\<lambda>x. f x \<or> g x) st st''"
  by (auto simp: field_read_def)

lemma field_read_skip: "field_read yy dt f st st' \<Longrightarrow> field_read yy dt f (st\<lparr>ps_rest := r, ps_pos := p\<rparr>) st'"
  by (simp add: field_read_def)

lemma field_read_advance: "field_read yy dt f (advance n st) st' \<Longrightarrow> field_read yy dt f st st'"
  by (simp add: field_read_def)

text \<open>The reader, run on what the writer produced, ends at the end of it with the fields of the format set.\<close>

lemma parse_chars_format_chars:
  assumes names: "usable_names s"
  shows "readable_year yy dt \<Longrightarrow> readable yy literal fmt \<Longrightarrow> ps_rest st = format_chars w s dt literal fmt \<Longrightarrow>
    \<exists>st'. parse_chars w s literal fmt st = Inr st' \<and> ps_rest st' = [] \<and>
      field_read yy dt (\<lambda>x. mentions x literal fmt) st st'"
proof (induction yy literal fmt arbitrary: st rule: readable.induct)
  case (1 yy literal)
  then show ?case by (simp add: field_read_def)
next
  case (2 yy c cs)
  show ?case
  proof (cases "c = quote \<and> \<not> look_ahead quote cs")
    case True
    with 2 show ?thesis by simp
  next
    case False
    let ?cs = "if c = quote then after_look quote cs else cs"
    from 2 False have r: "ps_rest st = c # format_chars w s dt True ?cs" "readable yy True ?cs" by simp_all
    then have "ps_rest (advance 1 st) = format_chars w s dt True ?cs" by simp
    from "2.IH"(2) [OF False "2.prems"(1) r(2) this] obtain st' where
      "parse_chars w s True ?cs (advance 1 st) = Inr st'" "ps_rest st' = []"
      "field_read yy dt (\<lambda>x. mentions x True ?cs) (advance 1 st) st'" by blast
    with False check_literal_reads [OF r(1)] show ?thesis by (auto intro: field_read_advance)
  qed
next
  case (3 yy c cs)
  show ?case
  proof (cases "field_char c")
    case True
    let ?b = "look_ahead c cs" and ?cs = "after_look c cs"
    from True obtain out where out: "format_field w s dt c ?b = Some out" using format_field_char by blast
    then have rest: "ps_rest st = out @ format_chars w s dt False ?cs" using "3.prems"(3) by simp
    from "3.prems"(2) True have r: "readable_field yy c cs" "readable yy False ?cs" by simp_all
    have "?b \<or> no_digit_next (format_chars w s dt False ?cs)" if "c \<in> set ''dom''"
    proof (cases ?b)
      case False
      with r(1) that have "plain_next ?cs" by (auto simp: readable_field.simps after_look_def)
      then show ?thesis by (simp add: plain_no_digit)
    qed simp
    moreover have "?b = yy" if "c = CHR ''y''" using r(1) that by (simp add: readable_field.simps)
    ultimately obtain st1 where st1: "parse_field w s c ?b st = Some (Inr st1)"
      "ps_rest st1 = format_chars w s dt False ?cs" "field_read yy dt (\<lambda>x. x = c) st st1"
      using parse_field_reads [OF names "3.prems"(1) out rest] by blast
    from "3.IH"(1) [OF True "3.prems"(1) r(2) st1(2)] obtain st' where st':
      "parse_chars w s False ?cs st1 = Inr st'" "ps_rest st' = []" "field_read yy dt (\<lambda>x. mentions x False ?cs) st1 st'"
      by blast
    have "(\<lambda>x. x = c \<or> mentions x False ?cs) = (\<lambda>x. mentions x False (c # cs))" using True by (auto simp: fun_eq_iff)
    with field_read_trans [OF st1(3) st'(3)] st1(1) st'(1,2) show ?thesis by simp
  next
    case field: False
    from field "3.prems"(2) have ts: "\<not> (c = CHR ''@'' \<or> c = CHR ''!'')" by (auto split: if_splits)
    from field have nf: "format_field w s dt c b = None" for b using format_field_char by blast
    show ?thesis
    proof (cases "c = quote \<and> \<not> look_ahead quote cs")
      case True
      with 3 field nf ts quote_not_field show ?thesis by (simp add: parse_field_None)
    next
      case False
      let ?cs = "if c = quote then after_look quote cs else cs"
      from field ts False nf "3.prems"(2,3) have r: "ps_rest st = c # format_chars w s dt False ?cs" "readable yy False ?cs"
        by (auto split: if_splits)
      then have "ps_rest (advance 1 st) = format_chars w s dt False ?cs" by simp
      from "3.IH"(3) [OF field ts False "3.prems"(1) r(2) this] obtain st' where
        "parse_chars w s False ?cs (advance 1 st) = Inr st'" "ps_rest st' = []"
        "field_read yy dt (\<lambda>x. mentions x False ?cs) (advance 1 st) st'" by blast
      with field ts False check_literal_reads [OF r(1)] show ?thesis
        by (auto simp: parse_field_None intro: field_read_advance)
    qed
  qed
qed

section \<open>Completing what was read\<close>

text \<open>The day of the year is counted back through the months.\<close>

lemma month_of_doy_step:
  assumes "get_days_in_month mid y k = l" and "0 < l" and "l < e" and "k' = k + 1" and "e' = e - l"
  shows "month_of_doy mid y (k + 1) e = month_of_doy mid y (k' + 1) e'"
proof -
  have "k + 1 - 1 = k" "k + 1 + 1 = k' + 1" using assms(4) by simp_all
  then show ?thesis using assms by (subst month_of_doy.simps) (simp only: Let_def if_False linorder_not_le [symmetric] simp_thms)
qed

lemma month_of_doy_from:
  assumes "sane_midnight mid" and "100 \<le> y" and "m < 12" and "1 \<le> d" and "d \<le> month_length y m"
  shows "j \<le> nat m \<Longrightarrow> 0 \<le> m \<Longrightarrow>
    month_of_doy mid y (m - int j + 1) (month_start y m - month_start y (m - int j) + d) = (m + 1, d)"
proof (induction j)
  case 0
  have "get_days_in_month mid y m = month_length y m"
    using days_in_month_eq [OF assms(1), of y m] assms(2,3) 0 by (simp add: full_year_def)
  with assms(5) show ?case by (simp add: month_of_doy.simps [of mid y "m + 1" d])
next
  case (Suc j)
  let ?k = "m - int (Suc j)"
  have k: "0 \<le> ?k" "?k < 11" "?k + 1 = m - int j" using Suc.prems assms(3) by linarith+
  then have dim: "get_days_in_month mid y ?k = month_length y ?k"
    using days_in_month_eq [OF assms(1), of y ?k] assms(2) by (simp add: full_year_def)
  have s: "month_start y (m - int j) = month_start y ?k + month_length y ?k"
    using month_start_next(1) [of ?k y] k by simp
  have "month_start y (m - int j) \<le> month_start y m"
  proof -
    have "nat (m - int j) + j < 12" "int (nat (m - int j)) = m - int j" "int (nat (m - int j) + j) = m"
      using Suc.prems assms(3) by linarith+
    then show ?thesis using month_start_mono [of "nat (m - int j)" j y] month_length_bounds(1) [of y "m - int j"]
      by (cases "j = 0") (auto split: if_splits)
  qed
  with s assms(4) have less: "month_length y ?k < month_start y m - month_start y ?k + d" by linarith
  have "month_of_doy mid y (?k + 1) (month_start y m - month_start y ?k + d) =
      month_of_doy mid y (m - int j + 1) (month_start y m - month_start y (m - int j) + d)"
    using dim less k(3) s month_length_bounds(1) [of y ?k] by (intro month_of_doy_step [OF dim]) linarith+
  then show ?case using Suc by simp
qed

lemma month_of_doy_correct:
  assumes "sane_midnight mid" and "100 \<le> y" and "valid_date y m d"
  shows "month_of_doy mid y 1 (month_start y m + d) = (m + 1, d)"
proof -
  have "month_start y 0 = 0" by (simp add: month_start_def)
  then show ?thesis
    using month_of_doy_from [OF assms(1,2), of m d "nat m"] assms(3) by (simp add: valid_date_def)
qed

lemma complete_year_window:
  assumes "- 1 \<le> cutoff" and "cutoff < 100" and "0 \<le> y" and "y < 100"
  shows "complete_year now cutoff y = z \<longleftrightarrow>
    z mod 100 = y \<and> now - now mod 100 - 100 + cutoff < z \<and> z \<le> now - now mod 100 + cutoff"
proof -
  obtain q where q: "now - now mod 100 = 100 * q" using minus_mod_eq_mult_div [of now 100] by blast
  have z: "z = 100 * (z div 100) + z mod 100" by simp
  show ?thesis
  proof
    assume c: "complete_year now cutoff y = z"
    then have "z = 100 * (if y \<le> cutoff then q else q - 1) + y"
      using assms(3,4) unfolding complete_year_def q by (auto split: if_splits)
    moreover from this have "z mod 100 = y" using assms(3,4) by simp
    ultimately show "z mod 100 = y \<and> now - now mod 100 - 100 + cutoff < z \<and> z \<le> now - now mod 100 + cutoff"
      using assms unfolding q by (auto split: if_splits)
  next
    assume w: "z mod 100 = y \<and> now - now mod 100 - 100 + cutoff < z \<and> z \<le> now - now mod 100 + cutoff"
    then obtain p where p: "z = 100 * p + y" using z by metis
    from w have b: "100 * q - 100 + cutoff < 100 * p + y" "100 * p + y \<le> 100 * q + cutoff" unfolding q p by simp_all
    have "p = (if y \<le> cutoff then q else q - 1)" using b assms by (auto split: if_splits)
    then show "complete_year now cutoff y = z"
      using assms(3,4) unfolding complete_year_def q p by auto
  qed
qed

lemma finish_date_of:
  assumes "sane_midnight (w_midnight w)" and "100 \<le> y"
  shows "finish_date w y m d =
    (if valid_date y (m - 1) d
     then Inr (daylight_saving_adjust (w_midnight w) (w_midnight w (make_day y (m - 1) d))) else Inl Invalid_Date)"
proof -
  let ?dt = "daylight_saving_adjust (w_midnight w) (w_midnight w (make_day y (m - 1) d))"
  have "jd_day ?dt = make_day y (m - 1) d" by (rule adjust_new_date [OF assms(1)])
  then have "valid_date y (m - 1) d \<longleftrightarrow> get_full_year ?dt = y \<and> get_month ?dt = m - 1 \<and> get_date ?dt = d"
    by (simp add: gregorian.genuine_iff_read_back get_full_year_def get_month_def get_date_def)
  moreover have "full_year y = y" using assms(2) by (simp add: full_year_def)
  ultimately show ?thesis by (auto simp: finish_date_def new_date_def Let_def)
qed

lemma mentions_year_nonempty: "mentions (CHR ''y'') literal fmt \<Longrightarrow> format_chars w s dt literal fmt \<noteq> []"
proof (induction "CHR ''y''" literal fmt rule: mentions.induct)
  case (3 c cs)
  show ?case
  proof (cases "field_char c")
    case True
    then obtain out where "format_field w s dt c (look_ahead c cs) = Some out" using format_field_char by blast
    moreover from this have "out \<noteq> []" if "c = CHR ''y''"
      using that by (auto simp: format_field_def short_year_def int_to_string_def Let_def split: if_splits)
    ultimately show ?thesis using 3 True by auto
  next
    case False
    then have "format_field w s dt c b = None" for b using format_field_char by blast
    with 3 False show ?thesis by (auto simp: int_to_string_def split: if_splits)
  qed
qed (auto split: if_splits)

text \<open>No English name of a day or a month starts another.\<close>

lemmas lower_eval = default_settings_def lower_def char_of_def bit_Suc_0_iff

lemma prefix_free_lower: "prefix_free names \<longleftrightarrow> (let l = map (map lower) names in \<forall>i \<in> set [0..<length l]. \<forall>j \<in> set [0..<length l]. prefix (l ! i) (l ! j) \<longrightarrow> i = j)"
  by (simp add: prefix_free_def Let_def)

lemma default_names_usable: "usable_names default_settings"
proof -
  have "map (map lower) (month_names_short default_settings) = [''jan'', ''feb'', ''mar'', ''apr'', ''may'', ''jun'', ''jul'', ''aug'',
    ''sep'', ''oct'', ''nov'', ''dec'']" by (simp add: lower_eval)
  note e = this
  have 1: "prefix_free (month_names_short default_settings)" unfolding prefix_free_lower e Let_def by (simp add: upt_rec)
  have "map (map lower) (day_names_short default_settings) = [''sun'', ''mon'', ''tue'', ''wed'', ''thu'', ''fri'', ''sat'']"
     by (simp add: lower_eval)
  note e = this
  have 2: "prefix_free (day_names_short default_settings)" unfolding prefix_free_lower e Let_def by (simp add: upt_rec)
  have "map (map lower) (day_names default_settings) = [''sunday'', ''monday'', ''tuesday'', ''wednesday'', ''thursday'', ''friday'', ''saturday'']"
     by (simp add: lower_eval)
  note e = this
  have 3: "prefix_free (day_names default_settings)" unfolding prefix_free_lower e Let_def by (simp add: upt_rec)
  have "map (map lower) (month_names default_settings) = [''january'', ''february'', ''march'', ''april'', ''may'', ''june'', ''july'', ''august'',
                     ''september'', ''october'', ''november'', ''december'']"
    by (simp add: lower_eval)
  note e = this
  have 4: "prefix_free (month_names default_settings)" unfolding prefix_free_lower e Let_def by (simp add: upt_rec)
  from 1 2 3 4 show ?thesis unfolding usable_names_def by (simp add: default_settings_def)
qed

section \<open>Properties\<close>

text \<open>The calendar day a format asks for: a day of the year, or a month and a day of the month.\<close>

definition names_a_day :: "string \<Rightarrow> bool" where
  "names_a_day fmt \<longleftrightarrow> mentions (CHR ''y'') False fmt \<and>
     (mentions (CHR ''o'') False fmt \<or>
      mentions (CHR ''d'') False fmt \<and> (mentions (CHR ''m'') False fmt \<or> mentions (CHR ''M'') False fmt))"

definition recoverable_year :: "date_world \<Rightarrow> date_settings \<Rightarrow> bool \<Rightarrow> int \<Rightarrow> bool" where
  "recoverable_year w s yy y \<longleftrightarrow>
     (let century = w_this_year w - w_this_year w mod 100;
          cutoff = effective_cutoff (w_this_year w) (short_year_cutoff s)
      in if yy then 1000 \<le> y \<and> y < 10000
         else 1900 \<le> y \<and> y < 10000 \<and> - 1 \<le> cutoff \<and> cutoff < 100 \<and> century - 100 + cutoff < y \<and> y \<le> century + cutoff)"

text \<open>C12. A date that the date picker writes in a readable format is read back as the same date, by name or by
  number, by month or by day of the year, whatever surrounds the fields; a year in two digits must lie in
  the hundred years up to the cutoff.\<close>

theorem formatted_date_parses_back:
  assumes "sane_midnight (w_midnight w)" and "usable_names s"
    and "readable yy False fmt" and "names_a_day fmt"
    and "dt = daylight_saving_adjust (w_midnight w) (w_midnight w n)" and "recoverable_year w s yy (get_full_year dt)"
  shows "parse_date w s (Some fmt) (Some (format_date w s fmt (Some dt))) = Inr (Some dt)"
proof -
  let ?out = "format_chars w s dt False fmt" and ?Y = "get_full_year dt"
  have year: "readable_year yy dt" "100 \<le> ?Y"
    using assms(6) by (cases yy; simp add: recoverable_year_def readable_year_def Let_def)+
  have day: "jd_day dt = n" using assms(1,5) adjust_new_date by simp
  have v: "valid_date ?Y (get_month dt) (get_date dt)" and n: "make_day ?Y (get_month dt) (get_date dt) = n"
    using make_of_day [of n] by (simp_all add: get_full_year_def get_month_def get_date_def day)
  have ne: "?out \<noteq> []" using assms(4) mentions_year_nonempty by (simp add: names_a_day_def)
  have "ps_rest (parse_start ?out) = ?out" by (simp add: parse_start_def)
  from parse_chars_format_chars [OF assms(2) year(1) assms(3) this] obtain st where
    st: "parse_chars w s False fmt (parse_start ?out) = Inr st" "ps_rest st = []"
      "field_read yy dt (\<lambda>x. mentions x False fmt) (parse_start ?out) st" by blast
  have y: "complete_year (w_this_year w) (effective_cutoff (w_this_year w) (short_year_cutoff s)) (ps_year st) = ?Y"
  proof (cases yy)
    case True
    with st(3) assms(4) year(2) show ?thesis
      by (simp add: field_read_def names_a_day_def year_as_read_def complete_year_def)
  next
    case False
    then have "ps_year st = ?Y mod 100"
      using st(3) assms(4) mod_shift [of ?Y 19 100] by (simp add: field_read_def names_a_day_def year_as_read_def)
    with False assms(6) show ?thesis
      by (subst complete_year_window) (simp_all add: recoverable_year_def Let_def)
  qed
  have md: "(if ps_doy st > - 1 then month_of_doy (w_midnight w) ?Y 1 (ps_doy st) else (ps_month st, ps_day st)) =
      (get_month dt + 1, get_date dt)"
  proof (cases "mentions (CHR ''o'') False fmt")
    case True
    with st(3) have "ps_doy st = day_of_year dt" by (simp add: field_read_def)
    with day_of_year_eq [OF year(2)] month_of_doy_correct [OF assms(1) year(2) v] show ?thesis by simp
  next
    case False
    with st(3) assms(4) show ?thesis by (auto simp: field_read_def names_a_day_def parse_start_def)
  qed
  have "finish_date w ?Y (get_month dt + 1) (get_date dt) = Inr dt"
    using finish_date_of [OF assms(1) year(2), of "get_month dt + 1" "get_date dt"] v n assms(5) by simp
  then show ?thesis
    using ne st(1,2) y md by (simp add: parse_date_def format_date_def check_extra_def map_result_def Let_def)
qed

text \<open>Midnight is skipped on one day, the year is 2015, and the time of a day is that of its midnight.\<close>

definition example_world :: date_world where
  "example_world =
     \<lparr>w_midnight = example_midnight, w_day_of_time = \<lambda>t. t div 86400000, w_time_of = \<lambda>dt. jd_day dt * 86400000,
      w_this_year = 2015\<rparr>"

theorem formatted_date_parses_back_witness:
  "let dt = \<lparr>jd_day = 16495, jd_hour = 1\<rparr> in
     format_date example_world default_settings ''DD, dd-M-y'' (Some dt) = ''Sunday, 01-Mar-15'' \<and>
     parse_date example_world default_settings (Some ''DD, dd-M-y'')
       (Some (format_date example_world default_settings ''DD, dd-M-y'' (Some dt))) = Inr (Some dt)"
proof -
  let ?dt = "\<lparr>jd_day = 16495, jd_hour = 1\<rparr>"
  have mid: "sane_midnight (w_midnight example_world)" by (simp add: example_world_def example_midnight_sane)
  have names: "usable_names default_settings" by (rule default_names_usable)
  have fmt: "readable False False ''DD, dd-M-y''" by code_simp
  have day: "names_a_day ''DD, dd-M-y''" by code_simp
  have dt: "?dt = daylight_saving_adjust (w_midnight example_world) (w_midnight example_world 16495)" by code_simp
  have year: "recoverable_year example_world default_settings False (get_full_year ?dt)" by code_simp
  have "format_date example_world default_settings ''DD, dd-M-y'' (Some ?dt) = ''Sunday, 01-Mar-15''" by code_simp
  with formatted_date_parses_back [OF mid names fmt day dt year] show ?thesis by (simp add: Let_def)
qed



text \<open>A year in two digits stands for the one year with these last digits in the hundred years that end at
  the cutoff, which is counted in the current century.\<close>

theorem two_digit_years_in_window:
  assumes "- 1 \<le> cutoff" and "cutoff < 100" and "0 \<le> y" and "y < 100"
  shows "complete_year now cutoff y = z \<longleftrightarrow>
    z mod 100 = y \<and> now - now mod 100 - 100 + cutoff < z \<and> z \<le> now - now mod 100 + cutoff"
  by (rule complete_year_window [OF assms])

theorem two_digit_years_in_window_witness:
  "complete_year 2015 (effective_cutoff 2015 None) 25 = 2025 \<and> complete_year 2015 (effective_cutoff 2015 None) 26 = 1926"
proof -
  have "effective_cutoff 2015 None = 25" by code_simp
  then show ?thesis
    using two_digit_years_in_window [of 25 25 2015 2025] two_digit_years_in_window [of 25 26 2015 1926] by simp
qed

text \<open>
  The characters a user may type, against the characters a date is written with. Two cases differ: the code
  of \<open>_possibleChars\<close> has no case for \<open>o\<close> and \<open>!\<close>, so the digits of a day of the year and of ticks
  are not among them.
\<close>

fun no_untypable :: "string \<Rightarrow> bool" where
  "no_untypable cs \<longleftrightarrow> (\<forall>c \<in> set cs. c \<noteq> CHR ''o'' \<and> c \<noteq> CHR ''!'' \<and> c \<noteq> CHR ''D'' \<and> c \<noteq> CHR ''M'')"

declare no_untypable.simps [simp del]

lemma no_untypable_Cons [simp]:
  "no_untypable (c # cs) \<longleftrightarrow> c \<noteq> CHR ''o'' \<and> c \<noteq> CHR ''!'' \<and> c \<noteq> CHR ''D'' \<and> c \<noteq> CHR ''M'' \<and> no_untypable cs"
  by (auto simp: no_untypable.simps)

lemma no_untypable_after: "no_untypable cs \<Longrightarrow> no_untypable (after_look c cs)"
  by (cases cs) (simp_all add: after_look_def)

definition digit_chars :: string where
  "digit_chars = ''0123456789''"

lemma digit_in_chars: "is_digit c \<Longrightarrow> c \<in> set digit_chars"
proof -
  assume "is_digit c"
  then obtain n where n: "c = char_of n" "48 \<le> n" "n \<le> (57::nat)"
    by (metis is_digit_def char_of_char)
  then have "c \<in> char_of ` set [48..<58::nat]" by (simp only: set_upt) (rule image_eqI [of _ _ n]; simp)
  moreover have "list_all (\<lambda>k::nat. char_of k \<in> set digit_chars) [48..<58]" by code_simp
  ultimately show ?thesis by (auto simp: list_all_iff)
qed

lemma digits_in_chars: "list_all is_digit num \<Longrightarrow> set num \<subseteq> set digit_chars"
  using digit_in_chars by (auto simp: list_all_iff)

lemma numeric_field_digits:
  assumes "c = CHR ''d'' \<or> c = CHR ''m'' \<or> c = CHR ''y''" and "1900 \<le> get_full_year dt"
    and "format_field w s dt c b = Some out"
  shows "set out \<subseteq> set digit_chars"
proof -
  note bd = date_bounds [of dt]
  have n: "list_all is_digit (format_number b v k)" if "0 \<le> v" for v k
    using that by (simp add: format_number_def Let_def int_to_string_nonneg pad_zeros_digits)
  have y: "list_all is_digit (short_year (get_full_year dt))" "list_all is_digit (int_to_string (get_full_year dt))"
    using assms(2) by (simp_all add: short_year_def js_rem_def Let_def int_to_string_nonneg is_digit_def)
  show ?thesis
    using assms(1,3) n [of "get_date dt" 2] n [of "get_month dt + 1" 2] y bd
    by (intro digits_in_chars) (auto simp: format_field_def split: if_splits)
qed

lemma possible_after:
  assumes "c = CHR ''d'' \<or> c = CHR ''m'' \<or> c = CHR ''y''" and "possible_chars False cs = Some r"
  shows "\<exists>r'. possible_chars False (after_look c cs) = Some r' \<and> set r' \<subseteq> set r"
proof (cases "look_ahead c cs")
  case True
  then obtain cs' where "cs = c # cs'" by (cases cs) (auto simp: look_ahead_def)
  with assms show ?thesis by (auto simp: after_look_def look_ahead_def)
next
  case False
  with assms(2) show ?thesis by (simp add: after_look_def)
qed

lemma possible_chars_cover_from:
  assumes "1900 \<le> get_full_year dt" and "0 \<le> w_time_of w dt"
  shows "no_untypable fmt \<Longrightarrow>
    \<exists>cs. possible_chars literal fmt = Some cs \<and> set (format_chars w s dt literal fmt) \<subseteq> set cs"
proof (induction "length fmt" arbitrary: literal fmt rule: less_induct)
  case less
  note IH = less.hyps and nt = less.prems
  show ?case
  proof (cases fmt)
    case (Cons c cs)
    have short: "length (after_look q cs) < length fmt" "length cs < length fmt" for q
      using Cons after_look_length [of q cs] by (simp_all add: le_imp_less_Suc)
    have nt': "no_untypable cs" "no_untypable (after_look q cs)" for q
      using nt Cons no_untypable_after by simp_all
    have step1: "\<exists>r. possible_chars l (after_look q cs) = Some r \<and> set (format_chars w s dt l (after_look q cs)) \<subseteq> set r" for q l
      by (rule IH [OF short(1) nt'(2)])
    have step2: "\<exists>r. possible_chars l cs = Some r \<and> set (format_chars w s dt l cs) \<subseteq> set r" for l
      by (rule IH [OF short(2) nt'(1)])
    show ?thesis
    proof (cases literal)
      case True
      with Cons step1 [of True quote] step2 [of True] step2 [of False] show ?thesis by auto
    next
      case False
      consider (num) "c = CHR ''d'' \<or> c = CHR ''m'' \<or> c = CHR ''y''" | (at) "c = CHR ''@''" | (quo) "c = quote"
        | (lit) "\<not> field_char c" "c \<noteq> CHR ''@''" "c \<noteq> CHR ''!''" "c \<noteq> quote"
        using nt Cons by (auto simp: field_char_def)
      then show ?thesis
      proof cases
        case num
        then have "field_char c" by (auto simp: field_char_def)
        then obtain out where out: "format_field w s dt c (look_ahead c cs) = Some out" using format_field_char by blast
        from step2 [of False] obtain r where r: "possible_chars False cs = Some r" by blast
        from possible_after [OF num r] obtain r' where r': "possible_chars False (after_look c cs) = Some r'" "set r' \<subseteq> set r"
          by blast
        from step1 [of False c] r' have "set (format_chars w s dt False (after_look c cs)) \<subseteq> set r" by auto
        moreover have "set out \<subseteq> set digit_chars" by (rule numeric_field_digits [OF num assms(1) out])
        moreover have "possible_chars False (c # cs) = Some (digit_chars @ r)"
        proof -
          have c: "c = CHR ''d'' \<or> c = CHR ''m'' \<or> c = CHR ''y'' \<or> c = CHR ''@''" using num by blast
          show ?thesis by (simp only: possible_chars.simps c if_True r option.map digit_chars_def)
        qed
        ultimately show ?thesis using Cons False out by auto
      next
        case at
        then have "format_field w s dt c b = None" for b by (simp add: format_field_def)
        moreover from step2 [of False] obtain r where
          "possible_chars False cs = Some r" "set (format_chars w s dt False cs) \<subseteq> set r" by blast
        moreover have "set (int_to_string (w_time_of w dt)) \<subseteq> set digit_chars"
          using assms(2) by (intro digits_in_chars) (simp add: int_to_string_nonneg)
        ultimately show ?thesis using Cons False at by (auto simp: digit_chars_def [symmetric])
      next
        case quo
        with quote_not_field have "format_field w s dt c b = None" for b using format_field_char by blast
        moreover have "quote \<noteq> CHR ''d''" "quote \<noteq> CHR ''m''" "quote \<noteq> CHR ''y''" "quote \<noteq> CHR ''D''" "quote \<noteq> CHR ''M''"
          by (simp_all add: quote_def)
        ultimately show ?thesis
          using Cons False quo quote_not_field step1 [of False quote] step2 [of True] by auto
      next
        case lit
        then have "format_field w s dt c b = None" for b using format_field_char by blast
        with lit Cons False step2 [of False] show ?thesis by (auto simp: field_char_def)
      qed
    qed
  qed simp
qed

text \<open>Every character of a written date may be typed into the field: \<open>_possibleChars\<close> covers the output
  of \<open>formatDate\<close> for every format without names, day of the year and ticks, quoted text included.\<close>

theorem written_dates_are_typable:
  assumes "1900 \<le> get_full_year dt" and "0 \<le> w_time_of w dt" and "no_untypable fmt"
  shows "\<exists>cs. possible_chars False fmt = Some cs \<and> set (format_date w s fmt (Some dt)) \<subseteq> set cs"
  using possible_chars_cover_from [OF assms] by (simp add: format_date_def)

theorem written_dates_are_typable_witness:
  "\<exists>cs. possible_chars False ''d 'day' m, yy'' = Some cs \<and>
    set (format_date example_world default_settings ''d 'day' m, yy'' (Some \<lparr>jd_day = 16495, jd_hour = 1\<rparr>)) \<subseteq> set cs"
proof -
  have "1900 \<le> get_full_year \<lparr>jd_day = 16495, jd_hour = 1\<rparr>" "0 \<le> w_time_of example_world \<lparr>jd_day = 16495, jd_hour = 1\<rparr>"
    "no_untypable ''d 'day' m, yy''" by code_simp+
  from written_dates_are_typable [OF this] show ?thesis .
qed

text \<open>The digits of a day of the year are not among the characters of its format.\<close>

lemma day_of_year_not_typable:
  "possible_chars False ''o'' = Some ''o''"
  "format_date example_world default_settings ''o'' (Some \<lparr>jd_day = 16495, jd_hour = 1\<rparr>) = ''60''"
  by code_simp+

end
