(* ===== verification/Datepicker_State.thy ===== *)
theory Datepicker_State
  imports Datepicker_Format
begin

text \<open>
  The state of one date picker of the deployed bundle and the operations on it: the limits and the default
  date (\<open>_determineDate\<close>, \<open>_restrictMinMax\<close>), reading the field, setting a date, and moving by days,
  months and years (\<open>_adjustInstDate\<close>). An instance is a record of the numbers the code keeps; the calls the
  client can observe (month changes, selections, hiding) are a log in the order they are made. A value
  \<open>undefined\<close> of an option is its default. Dates keep hours, not minutes, and stay in the range of
  \<open>Date\<close>. The lemmas show that every move ends on a genuine date within the limits.
\<close>

section \<open>Options, instances and the world\<close>

datatype date_spec =
    No_Date
  | Date_String string
  | Date_Offset int
  | Date_NaN
  | Date_Value js_date

datatype num_months = Months_Default | Months_Number int | Months_Grid int int

record dp_view =
  v_first_day :: int
  v_show_week :: bool
  v_calculate_week :: "js_date \<Rightarrow> int"
  v_before_show_day :: "(js_date \<Rightarrow> bool \<times> string \<times> string) option"
  v_show_other :: bool
  v_select_other :: bool
  v_change_month :: bool
  v_change_year :: bool
  v_month_after_year :: bool
  v_year_suffix :: string
  v_hide_nav :: bool
  v_nav_format :: bool
  v_prev_text :: string
  v_next_text :: string
  v_current_text :: string
  v_close_text :: string
  v_button_panel :: bool
  v_week_header :: string
  v_day_names_min :: "string list"

record dp_options =
  o_format :: string
  o_names :: date_settings
  o_alt_field :: bool
  o_alt_format :: string
  o_min :: date_spec
  o_max :: date_spec
  o_default :: date_spec
  o_goto_current :: bool
  o_show_current_at :: int
  o_step_months :: int
  o_step_big_months :: int
  o_num_months :: num_months
  o_year_range :: string
  o_on_select :: bool
  o_constrain :: bool
  o_rtl :: bool
  o_view :: dp_view

record dp_world = date_world +
  w_now :: js_date

datatype dp_call =
    Changed_Month int int
  | On_Select string
  | Input_Change
  | Hide_Picker
  | Show_Picker

record dp_inst =
  i_sel_day :: int
  i_sel_month :: int
  i_sel_year :: int
  i_cur_day :: int
  i_cur_month :: int
  i_cur_year :: int
  i_draw_month :: int
  i_draw_year :: int
  i_input :: string
  i_inline :: bool
  i_last_val :: "string option"
  i_alt :: string
  i_key_event :: bool
  i_disabled :: bool
  i_log :: "dp_call list"

text \<open>
  The settings every date picker starts from. The week number is that of a browser whose clock did not
  change since January; a change makes no difference to it.
\<close>

definition default_view :: dp_view where
  "default_view =
     \<lparr>v_first_day = 0, v_show_week = False, v_calculate_week = iso8601_week 0, v_before_show_day = None,
      v_show_other = False, v_select_other = False, v_change_month = False, v_change_year = False,
      v_month_after_year = False, v_year_suffix = [], v_hide_nav = False, v_nav_format = False,
      v_prev_text = ''Prev'', v_next_text = ''Next'', v_current_text = ''Today'', v_close_text = ''Done'',
      v_button_panel = False, v_week_header = ''Wk'',
      v_day_names_min = [''Su'', ''Mo'', ''Tu'', ''We'', ''Th'', ''Fr'', ''Sa'']\<rparr>"

definition default_options :: dp_options where
  "default_options =
     \<lparr>o_format = ''mm/dd/yy'', o_names = default_settings, o_alt_field = False, o_alt_format = [],
      o_min = No_Date, o_max = No_Date, o_default = No_Date, o_goto_current = False, o_show_current_at = 0,
      o_step_months = 1, o_step_big_months = 12, o_num_months = Months_Number 1, o_year_range = ''c-10:c+10'',
      o_on_select = False, o_constrain = True, o_rtl = False, o_view = default_view\<rparr>"

text \<open>A fresh instance (\<open>_newInst\<close>).\<close>

definition new_inst :: "bool \<Rightarrow> string \<Rightarrow> dp_inst" where
  "new_inst inline inp =
     \<lparr>i_sel_day = 0, i_sel_month = 0, i_sel_year = 0, i_cur_day = 0, i_cur_month = 0, i_cur_year = 0,
      i_draw_month = 0, i_draw_year = 0, i_input = inp, i_inline = inline, i_last_val = None, i_alt = [], i_key_event = False,
      i_disabled = False, i_log = []\<rparr>"

definition date_before :: "js_date \<Rightarrow> js_date \<Rightarrow> bool" where
  "date_before a b \<longleftrightarrow> jd_day a < jd_day b \<or> jd_day a = jd_day b \<and> jd_hour a < jd_hour b"

text \<open>\<open>setDate\<close> keeps the hour; an hour 0 that does not exist is the browser's choice.\<close>

definition set_date_field :: "midnights \<Rightarrow> int \<Rightarrow> js_date \<Rightarrow> js_date" where
  "set_date_field mid n dt = (if jd_hour dt = 0 then mid n else \<lparr>jd_day = n, jd_hour = jd_hour dt\<rparr>)"

definition midnight_date :: "dp_world \<Rightarrow> int \<Rightarrow> int \<Rightarrow> int \<Rightarrow> js_date" where
  "midnight_date w y m d = daylight_saving_adjust (w_midnight w) (new_date (w_midnight w) y m d)"

definition get_format_config :: "dp_world \<Rightarrow> dp_options \<Rightarrow> date_settings" where
  "get_format_config w opt =
     (let year = w_this_year w mod 100 in
        (o_names opt)\<lparr>short_year_cutoff :=
           Some (Cutoff_Number (case short_year_cutoff (o_names opt) of
              None \<Rightarrow> year + 10 | Some (Cutoff_Offset k) \<Rightarrow> year + k | Some (Cutoff_Number n) \<Rightarrow> n))\<rparr>)"

section \<open>Relative and absolute dates\<close>

text \<open>
  The matches of \<open>/([+\-]?[0-9]+)\s*(d|D|w|W|m|M|y|Y)?/g\<close> in a string, from left to right: a number and its
  unit, a day when none follows.
\<close>

definition number_at :: "string \<Rightarrow> (int \<times> string) option" where
  "number_at s =
     (let (sign, rest) =
        (case s of c # cs \<Rightarrow> if c = CHR ''+'' then (1, cs) else if c = CHR ''-'' then (- 1, cs) else (1, s) | [] \<Rightarrow> (1, []));
        num = takeWhile is_digit rest
      in if num = [] then None else Some (sign * int (digits_to_nat num), dropWhile is_digit rest))"

definition unit_at :: "string \<Rightarrow> char \<times> string" where
  "unit_at s =
     (case dropWhile is_space s of
        c # cs \<Rightarrow> if lower c \<in> set ''dwmy'' then (lower c, cs) else (CHR ''d'', c # cs)
      | [] \<Rightarrow> (CHR ''d'', []))"

lemma number_at_shorter: "number_at s = Some (n, rest) \<Longrightarrow> length rest < length s"
proof -
  assume n: "number_at s = Some (n, rest)"
  obtain sign r where r: "(case s of c # cs \<Rightarrow> if c = CHR ''+'' then (1, cs) else if c = CHR ''-'' then (- 1, cs) else (1, s)
      | [] \<Rightarrow> (1 :: int, [])) = (sign, r)" by fastforce
  then have len: "length r \<le> length s" by (auto split: list.splits if_splits)
  from n r have "takeWhile is_digit r \<noteq> []" "rest = dropWhile is_digit r"
    by (auto simp: number_at_def Let_def split: if_splits)
  moreover have "length (takeWhile is_digit r) + length (dropWhile is_digit r) = length r"
    by (metis length_append takeWhile_dropWhile_id)
  ultimately have "length rest < length r" by (cases "takeWhile is_digit r") auto
  with len show ?thesis by linarith
qed

lemma unit_at_length: "length (snd (unit_at s)) \<le> length s"
  using length_dropWhile_le [of is_space s] by (auto simp: unit_at_def split: list.splits)

function offset_matches :: "string \<Rightarrow> (int \<times> char) list" where
  "offset_matches s =
     (case number_at s of
        Some (n, rest) \<Rightarrow> (n, fst (unit_at rest)) # offset_matches (snd (unit_at rest))
      | None \<Rightarrow> (case s of [] \<Rightarrow> [] | c # cs \<Rightarrow> offset_matches cs))"
  by pat_completeness auto
termination
proof (relation "measure length")
  fix s x n and rest :: string
  assume "number_at s = Some x" "(n, rest) = x"
  with number_at_shorter [of s n rest] unit_at_length [of rest] show "(snd (unit_at rest), s) \<in> measure length" by simp
qed auto

declare offset_matches.simps [simp del]

definition apply_offset :: "dp_world \<Rightarrow> int \<times> char \<Rightarrow> int \<times> int \<times> int \<Rightarrow> int \<times> int \<times> int" where
  "apply_offset w m ymd =
     (let (v, u) = m; (year, month, day) = ymd in
        if u = CHR ''d'' then (year, month, day + v)
        else if u = CHR ''w'' then (year, month, day + v * 7)
        else if u = CHR ''m'' then (year, month + v, min day (get_days_in_month (w_midnight w) year (month + v)))
        else (year + v, month, min day (get_days_in_month (w_midnight w) (year + v) month)))"

definition inst_date :: "dp_world \<Rightarrow> dp_inst \<Rightarrow> js_date option" where
  "inst_date w i =
     (if i_cur_year i = 0 \<or> i_input i = [] then None
      else Some (midnight_date w (i_cur_year i) (i_cur_month i) (i_cur_day i)))"

definition offset_base :: "dp_world \<Rightarrow> dp_inst \<Rightarrow> string \<Rightarrow> js_date" where
  "offset_base w i off =
     (case (if off \<noteq> [] \<and> lower (hd off) = CHR ''c'' then inst_date w i else None) of
        Some d \<Rightarrow> d | None \<Rightarrow> w_now w)"

definition offset_date :: "dp_world \<Rightarrow> dp_inst \<Rightarrow> string \<Rightarrow> js_date" where
  "offset_date w i off =
     (let base = offset_base w i off;
          (year, month, day) =
            fold (apply_offset w) (offset_matches off) (get_full_year base, get_month base, get_date base)
      in new_date (w_midnight w) year month day)"

definition offset_string :: "dp_world \<Rightarrow> dp_options \<Rightarrow> dp_inst \<Rightarrow> string \<Rightarrow> js_date option" where
  "offset_string w opt i off =
     (case parse_date (date_world.truncate w) (get_format_config w opt) (Some (o_format opt)) (Some off) of
        Inr r \<Rightarrow> r
      | Inl e \<Rightarrow> Some (offset_date w i off))"

definition spec_date :: "dp_world \<Rightarrow> dp_options \<Rightarrow> dp_inst \<Rightarrow> date_spec \<Rightarrow> js_date option \<Rightarrow> js_date option" where
  "spec_date w opt i spec dflt =
     (case spec of
        No_Date \<Rightarrow> dflt
      | Date_String s \<Rightarrow> if s = [] then dflt else offset_string w opt i s
      | Date_Offset k \<Rightarrow> Some (set_date_field (w_midnight w) (jd_day (w_now w) + k) (w_now w))
      | Date_NaN \<Rightarrow> dflt
      | Date_Value d \<Rightarrow> Some d)"

definition determine_date :: "dp_world \<Rightarrow> dp_options \<Rightarrow> dp_inst \<Rightarrow> date_spec \<Rightarrow> js_date option \<Rightarrow> js_date option" where
  "determine_date w opt i spec dflt =
     map_option (\<lambda>d. daylight_saving_adjust (w_midnight w) (set_hours (w_midnight w) 0 d)) (spec_date w opt i spec dflt)"

definition min_date :: "dp_world \<Rightarrow> dp_options \<Rightarrow> dp_inst \<Rightarrow> js_date option" where
  "min_date w opt i = determine_date w opt i (o_min opt) None"

definition max_date :: "dp_world \<Rightarrow> dp_options \<Rightarrow> dp_inst \<Rightarrow> js_date option" where
  "max_date w opt i = determine_date w opt i (o_max opt) None"

definition clamp_date :: "js_date option \<Rightarrow> js_date option \<Rightarrow> js_date \<Rightarrow> js_date" where
  "clamp_date lo hi d =
     (let new = (case lo of Some l \<Rightarrow> if date_before d l then l else d | None \<Rightarrow> d) in
        case hi of Some h \<Rightarrow> if date_before h new then h else new | None \<Rightarrow> new)"

definition restrict_min_max :: "dp_world \<Rightarrow> dp_options \<Rightarrow> dp_inst \<Rightarrow> js_date \<Rightarrow> js_date" where
  "restrict_min_max w opt i d = clamp_date (min_date w opt i) (max_date w opt i) d"

text \<open>The default is a date, so the result is one; \<open>parseDate\<close> gives \<open>null\<close> on an empty string only.\<close>

definition determined :: "dp_world \<Rightarrow> dp_options \<Rightarrow> dp_inst \<Rightarrow> date_spec \<Rightarrow> js_date" where
  "determined w opt i spec = (case determine_date w opt i spec (Some (w_now w)) of Some d \<Rightarrow> d | None \<Rightarrow> w_now w)"

definition default_date :: "dp_world \<Rightarrow> dp_options \<Rightarrow> dp_inst \<Rightarrow> js_date" where
  "default_date w opt i = restrict_min_max w opt i (determined w opt i (o_default opt))"

section \<open>Operations\<close>

definition select_fields :: "js_date \<Rightarrow> dp_inst \<Rightarrow> dp_inst" where
  "select_fields d i =
     i\<lparr>i_sel_day := get_date d, i_draw_month := get_month d, i_sel_month := get_month d,
       i_draw_year := get_full_year d, i_sel_year := get_full_year d\<rparr>"

definition notify_change :: "dp_inst \<Rightarrow> dp_inst" where
  "notify_change i = i\<lparr>i_log := i_log i @ [Changed_Month (i_sel_year i) (i_sel_month i + 1)]\<rparr>"

datatype period = Period_Day | Period_Month | Period_Year | Period_None

definition adjust_inst_date :: "dp_world \<Rightarrow> dp_options \<Rightarrow> int \<Rightarrow> period \<Rightarrow> dp_inst \<Rightarrow> dp_inst" where
  "adjust_inst_date w opt offset p i =
     (let year = i_draw_year i + (if p = Period_Year then offset else 0);
          month = i_draw_month i + (if p = Period_Month then offset else 0);
          day = min (i_sel_day i) (get_days_in_month (w_midnight w) year month) + (if p = Period_Day then offset else 0);
          i' = select_fields (restrict_min_max w opt i (midnight_date w year month day)) i
      in if p = Period_Month \<or> p = Period_Year then notify_change i' else i')"

definition inst_format :: "dp_world \<Rightarrow> dp_options \<Rightarrow> string \<Rightarrow> js_date option \<Rightarrow> string" where
  "inst_format w opt fmt d = format_date (date_world.truncate w) (get_format_config w opt) fmt d"

text \<open>\<open>_formatDate\<close> without a day makes the selection current and writes it.\<close>

definition make_current :: "dp_inst \<Rightarrow> dp_inst" where
  "make_current i = i\<lparr>i_cur_day := i_sel_day i, i_cur_month := i_sel_month i, i_cur_year := i_sel_year i\<rparr>"

definition format_current :: "dp_world \<Rightarrow> dp_options \<Rightarrow> dp_inst \<Rightarrow> string" where
  "format_current w opt i =
     inst_format w opt (o_format opt) (Some (midnight_date w (i_cur_year i) (i_cur_month i) (i_cur_day i)))"

definition set_date_selected :: "dp_world \<Rightarrow> dp_options \<Rightarrow> date_spec \<Rightarrow> bool \<Rightarrow> dp_inst \<Rightarrow> dp_inst" where
  "set_date_selected w opt spec no_change i =
     (let d = restrict_min_max w opt i (determined w opt i spec);
          i1 = make_current (select_fields d i)
      in if (i_sel_month i \<noteq> i_sel_month i1 \<or> i_sel_year i \<noteq> i_sel_year i1) \<and> \<not> no_change
         then notify_change i1 else i1)"

definition set_date :: "dp_world \<Rightarrow> dp_options \<Rightarrow> date_spec \<Rightarrow> bool \<Rightarrow> dp_inst \<Rightarrow> dp_inst" where
  "set_date w opt spec no_change i =
     (let clear = (spec = No_Date \<or> spec = Date_String [] \<or> spec = Date_Offset 0 \<or> spec = Date_NaN);
          i3 = adjust_inst_date w opt 0 Period_None (set_date_selected w opt spec no_change i)
      in if clear then i3\<lparr>i_input := []\<rparr>
         else let i4 = make_current i3 in i4\<lparr>i_input := format_current w opt i4\<rparr>)"

text \<open>An unreadable value leaves the default date; whether it counts as empty is \<open>noDefault\<close>.\<close>

definition field_date :: "dp_world \<Rightarrow> dp_options \<Rightarrow> dp_inst \<Rightarrow> bool \<Rightarrow> string \<Rightarrow> js_date \<times> string" where
  "field_date w opt i no_default v =
     (case parse_date (date_world.truncate w) (get_format_config w opt) (Some (o_format opt)) (Some v) of
        Inr (Some d) \<Rightarrow> (d, v)
      | Inr None \<Rightarrow> (default_date w opt i, v)
      | Inl e \<Rightarrow> (default_date w opt i, if no_default then [] else v))"

definition set_date_from_field :: "dp_world \<Rightarrow> dp_options \<Rightarrow> bool \<Rightarrow> dp_inst \<Rightarrow> dp_inst" where
  "set_date_from_field w opt no_default i =
     (if i_last_val i = Some (i_input i) then i
      else
        let (d, dates) = field_date w opt i no_default (i_input i);
            i1 = select_fields d (i\<lparr>i_last_val := Some (i_input i)\<rparr>);
            i2 = (if dates \<noteq> [] then make_current i1 else i1\<lparr>i_cur_day := 0, i_cur_month := 0, i_cur_year := 0\<rparr>)
        in adjust_inst_date w opt 0 Period_None i2)"

definition update_alternate :: "dp_world \<Rightarrow> dp_options \<Rightarrow> dp_inst \<Rightarrow> dp_inst" where
  "update_alternate w opt i =
     (if o_alt_field opt
      then i\<lparr>i_alt := inst_format w opt (if o_alt_format opt \<noteq> [] then o_alt_format opt else o_format opt) (inst_date w i)\<rparr>
      else i)"

section \<open>Midnights and limits\<close>

text \<open>No browser skips two midnights in a row.\<close>

definition sane_clock :: "midnights \<Rightarrow> bool" where
  "sane_clock mid \<longleftrightarrow> sane_midnight mid \<and>
     (\<forall>n. mid n \<noteq> \<lparr>jd_day = n, jd_hour = 0\<rparr> \<longrightarrow> mid (n + 1) = \<lparr>jd_day = n + 1, jd_hour = 0\<rparr>)"

definition midnight_of :: "dp_world \<Rightarrow> int \<Rightarrow> js_date" where
  "midnight_of w n = daylight_saving_adjust (w_midnight w) (w_midnight w n)"

lemma midnight_date_eq: "midnight_date w y m d = midnight_of w (make_day (full_year y) m d)"
  by (simp add: midnight_date_def midnight_of_def new_date_def)

lemma jd_day_midnight [simp]: "sane_clock (w_midnight w) \<Longrightarrow> jd_day (midnight_of w n) = n"
  by (simp add: midnight_of_def adjust_new_date sane_clock_def)

lemma midnight_before [simp]: "sane_clock (w_midnight w) \<Longrightarrow> date_before (midnight_of w a) (midnight_of w b) \<longleftrightarrow> a < b"
  by (auto simp: date_before_def)

lemma midnight_eq [simp]: "sane_clock (w_midnight w) \<Longrightarrow> midnight_of w a = midnight_of w b \<longleftrightarrow> a = b"
  by (metis jd_day_midnight)

lemma determine_date_midnight:
  "determine_date w opt i spec dflt = map_option (\<lambda>d. midnight_of w (jd_day d)) (spec_date w opt i spec dflt)"
  by (simp add: determine_date_def midnight_of_def set_hours_def)

lemma clamp_midnights:
  assumes "sane_clock (w_midnight w)"
  shows "clamp_date (map_option (midnight_of w) lo) (map_option (midnight_of w) hi) (midnight_of w n) =
    midnight_of w (clamp lo hi n)"
  using assms by (cases lo; cases hi) (auto simp: clamp_date_def clamp_def Let_def)

text \<open>A limit is absolute unless it counts from the current date with a leading \<open>c\<close>.\<close>

definition absolute_spec :: "date_spec \<Rightarrow> bool" where
  "absolute_spec spec \<longleftrightarrow> (case spec of Date_String s \<Rightarrow> s \<noteq> [] \<longrightarrow> lower (hd s) \<noteq> CHR ''c'' | _ \<Rightarrow> True)"

lemma spec_date_absolute: "absolute_spec spec \<Longrightarrow> spec_date w opt i spec dflt = spec_date w opt i' spec dflt"
  by (auto simp: spec_date_def absolute_spec_def offset_string_def offset_date_def offset_base_def
      split: date_spec.splits sum.splits)

definition limit_day :: "dp_world \<Rightarrow> dp_options \<Rightarrow> date_spec \<Rightarrow> int option" where
  "limit_day w opt spec = map_option jd_day (spec_date w opt (new_inst False []) spec None)"

lemma limit_date: "absolute_spec spec \<Longrightarrow> determine_date w opt i spec None = map_option (midnight_of w) (limit_day w opt spec)"
  using spec_date_absolute [of spec w opt i None "new_inst False []"]
  by (simp add: determine_date_midnight limit_day_def option.map_comp comp_def)

definition absolute_limits :: "dp_options \<Rightarrow> bool" where
  "absolute_limits opt \<longleftrightarrow> absolute_spec (o_min opt) \<and> absolute_spec (o_max opt)"

definition clamp_day :: "dp_world \<Rightarrow> dp_options \<Rightarrow> int \<Rightarrow> int" where
  "clamp_day w opt n = clamp (limit_day w opt (o_min opt)) (limit_day w opt (o_max opt)) n"

definition day_allowed :: "dp_world \<Rightarrow> dp_options \<Rightarrow> int \<Rightarrow> bool" where
  "day_allowed w opt n \<longleftrightarrow> in_bounds (limit_day w opt (o_min opt)) (limit_day w opt (o_max opt)) n"

definition limits_fit :: "dp_world \<Rightarrow> dp_options \<Rightarrow> bool" where
  "limits_fit w opt \<longleftrightarrow> limits_ordered (limit_day w opt (o_min opt)) (limit_day w opt (o_max opt))"

lemma clamp_day_allowed: "limits_fit w opt \<Longrightarrow> day_allowed w opt (clamp_day w opt n)"
  by (simp add: limits_fit_def day_allowed_def clamp_day_def clamp_within)

lemma clamp_day_id: "day_allowed w opt n \<Longrightarrow> clamp_day w opt n = n"
  by (simp add: day_allowed_def clamp_day_def clamp_id)

lemma restrict_midnight:
  assumes "sane_clock (w_midnight w)" and "absolute_limits opt"
  shows "restrict_min_max w opt i (midnight_of w n) = midnight_of w (clamp_day w opt n)"
  using assms limit_date
  by (simp add: restrict_min_max_def min_date_def max_date_def absolute_limits_def clamp_midnights clamp_day_def)

text \<open>\<open>parseDate\<close> gives \<open>null\<close> on the empty string only, so a default is always met by a date.\<close>

lemma parse_date_null: "v \<noteq> [] \<Longrightarrow> parse_date w s f (Some v) \<noteq> Inr None"
  by (auto simp: parse_date_def map_result_def Let_def split: option.splits sum.splits prod.splits)

lemma spec_date_some: "spec_date w opt i spec (Some d) \<noteq> None"
proof (cases spec)
  case (Date_String s)
  show ?thesis
  proof (cases "parse_date (date_world.truncate w) (get_format_config w opt) (Some (o_format opt)) (Some s)")
    case (Inr r)
    have "(Inr r :: date_error + js_date option) \<noteq> Inr None" if "s \<noteq> []"
      using parse_date_null [OF that] unfolding Inr [symmetric] .
    then have "s \<noteq> [] \<Longrightarrow> r \<noteq> None" by simp
    with Inr Date_String show ?thesis by (simp add: spec_date_def offset_string_def)
  qed (simp add: Date_String spec_date_def offset_string_def)
qed (simp_all add: spec_date_def)

lemma determined_eq: "\<exists>n. determined w opt i spec = midnight_of w n"
  using spec_date_some [of w opt i spec "w_now w"] by (auto simp: determined_def determine_date_midnight)

section \<open>Selections\<close>

definition selected_day :: "dp_inst \<Rightarrow> int" where
  "selected_day i = make_day (i_sel_year i) (i_sel_month i) (i_sel_day i)"

text \<open>The selection is a genuine date within the limits.\<close>

definition selection_ok :: "dp_world \<Rightarrow> dp_options \<Rightarrow> dp_inst \<Rightarrow> bool" where
  "selection_ok w opt i \<longleftrightarrow>
     valid_date (i_sel_year i) (i_sel_month i) (i_sel_day i) \<and> day_allowed w opt (selected_day i)"

lemma select_fields_day: "selected_day (select_fields d i) = jd_day d"
  by (simp add: selected_day_def select_fields_def get_full_year_def get_month_def get_date_def make_of_day)

lemma select_fields_valid:
  "valid_date (i_sel_year (select_fields d i)) (i_sel_month (select_fields d i)) (i_sel_day (select_fields d i))"
  using make_of_day(1) by (simp add: select_fields_def get_full_year_def get_month_def get_date_def)

named_theorems dp_frame \<open>what an operation of the date picker leaves alone\<close>

lemma notify_frame [dp_frame]:
  "i_sel_day (notify_change i) = i_sel_day i" "i_sel_month (notify_change i) = i_sel_month i"
  "i_sel_year (notify_change i) = i_sel_year i" "selected_day (notify_change i) = selected_day i"
  by (simp_all add: notify_change_def selected_day_def)

lemma make_current_frame [dp_frame]:
  "i_sel_day (make_current i) = i_sel_day i" "i_sel_month (make_current i) = i_sel_month i"
  "i_sel_year (make_current i) = i_sel_year i" "selected_day (make_current i) = selected_day i"
  by (simp_all add: make_current_def selected_day_def)

lemma selection_ok_cong:
  "i_sel_day i = i_sel_day j \<Longrightarrow> i_sel_month i = i_sel_month j \<Longrightarrow> i_sel_year i = i_sel_year j \<Longrightarrow>
    selection_ok w opt i = selection_ok w opt j"
  by (simp add: selection_ok_def selected_day_def)

definition target_day :: "dp_world \<Rightarrow> int \<Rightarrow> period \<Rightarrow> dp_inst \<Rightarrow> int" where
  "target_day w offset p i =
     (let year = i_draw_year i + (if p = Period_Year then offset else 0);
          month = i_draw_month i + (if p = Period_Month then offset else 0)
      in make_day (full_year year) month
           (min (i_sel_day i) (get_days_in_month (w_midnight w) year month) + (if p = Period_Day then offset else 0)))"

lemma adjust_inst_date_day:
  assumes "sane_clock (w_midnight w)" and "absolute_limits opt"
  shows "selected_day (adjust_inst_date w opt offset p i) = clamp_day w opt (target_day w offset p i)"
  using assms by (simp add: adjust_inst_date_def Let_def midnight_date_eq restrict_midnight target_day_def
      select_fields_day dp_frame del: of_nat_add)

lemma adjust_inst_date_ok:
  assumes "sane_clock (w_midnight w)" and "absolute_limits opt" and "limits_fit w opt"
  shows "selection_ok w opt (adjust_inst_date w opt offset p i)"
proof -
  have "valid_date (i_sel_year (adjust_inst_date w opt offset p i)) (i_sel_month (adjust_inst_date w opt offset p i))
      (i_sel_day (adjust_inst_date w opt offset p i))"
    using select_fields_valid by (simp add: adjust_inst_date_def Let_def dp_frame)
  then show ?thesis
    using adjust_inst_date_day [OF assms(1,2)] clamp_day_allowed [OF assms(3)] by (simp add: selection_ok_def)
qed

lemma set_date_from_field_ok:
  assumes "sane_clock (w_midnight w)" and "absolute_limits opt" and "limits_fit w opt"
    and "i_last_val i = Some (i_input i) \<Longrightarrow> selection_ok w opt i"
  shows "selection_ok w opt (set_date_from_field w opt no_default i)"
  using assms adjust_inst_date_ok [OF assms(1-3)] by (auto simp: set_date_from_field_def Let_def split: prod.splits)

lemma set_date_ok:
  assumes "sane_clock (w_midnight w)" and "absolute_limits opt" and "limits_fit w opt"
  shows "selection_ok w opt (set_date w opt spec no_change i)"
proof -
  have "selection_ok w opt (j\<lparr>i_input := s\<rparr>) = selection_ok w opt j" for j s
    by (rule selection_ok_cong) simp_all
  moreover have "selection_ok w opt (make_current j) = selection_ok w opt j" for j
    by (rule selection_ok_cong) (simp_all add: dp_frame)
  ultimately show ?thesis
    using adjust_inst_date_ok [OF assms] by (simp add: set_date_def Let_def)
qed

section \<open>Properties\<close>

text \<open>Moving by months keeps the day where the new month has it and takes the last day otherwise: from a
  selection in the month drawn, the new date is that day in the month \<open>k\<close> months on, unless a limit is
  crossed; the change is reported once, with the new month and year.\<close>

theorem month_move_clips_day:
  assumes "sane_clock (w_midnight w)" and "absolute_limits opt"
    and "12 * i_draw_year i + i_draw_month i + k = 12 * y + m" and "0 \<le> m" and "m < 12" and "100 \<le> y" and "100 \<le> i_draw_year i"
    and "1 \<le> i_sel_day i" and "day_allowed w opt (make_day y m (min (i_sel_day i) (month_length y m)))"
  shows "let j = adjust_inst_date w opt k Period_Month i in
    i_sel_year j = y \<and> i_sel_month j = m \<and> i_sel_day j = min (i_sel_day i) (month_length y m) \<and>
    i_draw_year j = y \<and> i_draw_month j = m \<and> i_log j = i_log i @ [Changed_Month y (m + 1)]"
proof -
  let ?d = "min (i_sel_day i) (month_length y m)"
  let ?m = "i_draw_month i + k"
  have carry: "i_draw_year i + ?m div 12 = y" "?m mod 12 = m"
  proof -
    obtain c where c: "c = y - i_draw_year i" by blast
    then have e: "?m = 12 * c + m" using assms(3) by (simp only: right_diff_distrib)
    have "(12 * c + m) div 12 = c" "(12 * c + m) mod 12 = m" using assms(4,5) by simp_all
    then show "i_draw_year i + ?m div 12 = y" "?m mod 12 = m" unfolding e c by simp_all
  qed
  have fy: "full_year (i_draw_year i) = i_draw_year i" using assms(7) by (simp add: full_year_def)
  have dim: "get_days_in_month (w_midnight w) (i_draw_year i) ?m = month_length y m"
    using assms(1) days_in_month_eq [of "w_midnight w" "i_draw_year i" ?m] carry fy by (simp add: sane_clock_def)
  have "target_day w k Period_Month i = make_day (i_draw_year i) ?m ?d"
    by (simp add: target_day_def fy dim)
  also have "\<dots> = make_day y m ?d" using make_day_carry [of "i_draw_year i" ?m ?d] carry by simp
  finally have t: "target_day w k Period_Month i = make_day y m ?d" .
  have v: "valid_date y m ?d" using assms(4,5,8) month_length_bounds(1) [of y m] by (simp add: valid_date_def)
  have "restrict_min_max w opt i (midnight_date w (i_draw_year i) ?m ?d) = midnight_of w (make_day y m ?d)"
    using restrict_midnight [OF assms(1,2)] clamp_day_id [OF assms(9)] make_day_carry [of "i_draw_year i" ?m ?d] carry
    by (simp add: midnight_date_eq fy)
  then have "adjust_inst_date w opt k Period_Month i = notify_change (select_fields (midnight_of w (make_day y m ?d)) i)"
    by (simp add: adjust_inst_date_def Let_def dim)
  then show ?thesis
    using assms(1) of_make_day [OF v]
    by (simp add: Let_def notify_change_def select_fields_def get_full_year_def get_month_def get_date_def)
qed

text \<open>The example clock with a current moment, 3 March 2015 at noon.\<close>

definition example_now :: dp_world where
  "example_now = date_world.extend example_world \<lparr>w_now = \<lparr>jd_day = 16497, jd_hour = 12\<rparr>\<rparr>"

lemma example_now_fields [simp]:
  "w_midnight example_now = example_midnight" "w_this_year example_now = 2015" "w_now example_now = \<lparr>jd_day = 16497, jd_hour = 12\<rparr>"
  by (simp_all add: example_now_def example_world_def date_world.defs)

lemma example_clock_sane: "sane_clock example_midnight"
  by (auto simp: sane_clock_def example_midnight_sane example_midnight_def)

theorem month_move_clips_day_witness:
  "let j = adjust_inst_date example_now default_options 1 Period_Month
       ((new_inst False [])\<lparr>i_sel_day := 31, i_draw_month := 0, i_draw_year := 2016\<rparr>)
   in i_sel_year j = 2016 \<and> i_sel_month j = 1 \<and> i_sel_day j = 29"
proof -
  let ?i = "(new_inst False [])\<lparr>i_sel_day := 31, i_draw_month := 0, i_draw_year := 2016\<rparr>"
  have c: "sane_clock (w_midnight example_now)" by (simp add: example_clock_sane)
  have a: "absolute_limits default_options" by code_simp
  have l: "month_length 2016 1 = 29" by code_simp
  have d: "day_allowed example_now default_options (make_day 2016 1 (min (i_sel_day ?i) (month_length 2016 1)))"
    by code_simp
  show ?thesis
    using month_move_clips_day [OF c a, of ?i 1 2016 1] d l by (simp add: Let_def new_inst_def)
qed

end
