(* ===== verification/Datepicker_Grid.thy ===== *)
theory Datepicker_Grid
  imports Datepicker_State
begin

text \<open>
  Drawing a date picker of the deployed bundle: \<open>_generateHTML\<close> with the month and year header, and the range
  tests behind the links to other months. The markup is a structure (tables, rows, cells with their classes,
  title, click target and content) instead of a string. The loop that moves the first month back until it
  is not past the last date is an option: \<^const>\<open>None\<close> stands for not ending. The lemmas show that it ends,
  that the grid shows consecutive days in whole weeks with every day of the month once, and that only dates
  within the limits can be clicked.
\<close>

section \<open>Ranges of years\<close>

fun split_on :: "char \<Rightarrow> string \<Rightarrow> string list" where
  "split_on d [] = [[]]"
| "split_on d (c # cs) =
     (if c = d then [] # split_on d cs
      else case split_on d cs of [] \<Rightarrow> [[c]] | p # ps \<Rightarrow> (c # p) # ps)"

definition parse_int :: "string \<Rightarrow> js_num" where
  "parse_int s = (case number_at (dropWhile is_space s) of Some (n, rest) \<Rightarrow> Num n | None \<Rightarrow> NaN)"

definition has_sign :: "string \<Rightarrow> bool" where
  "has_sign s \<longleftrightarrow> CHR ''+'' \<in> set s \<or> CHR ''-'' \<in> set s"

text \<open>A bound of \<open>_isInRange\<close>; \<open>NaN\<close> and 0 bound nothing.\<close>

definition year_bound :: "int \<Rightarrow> string \<Rightarrow> int option" where
  "year_bound this_year s =
     (case parse_int s of
        NaN \<Rightarrow> None
      | Num n \<Rightarrow> let b = (if has_sign s then n + this_year else n) in if b = 0 then None else Some b)"

definition in_limits :: "dp_world \<Rightarrow> dp_options \<Rightarrow> dp_inst \<Rightarrow> js_date \<Rightarrow> bool" where
  "in_limits w opt i d \<longleftrightarrow>
     (case min_date w opt i of Some l \<Rightarrow> \<not> date_before d l | None \<Rightarrow> True) \<and>
     (case max_date w opt i of Some h \<Rightarrow> \<not> date_before h d | None \<Rightarrow> True)"

definition is_in_range :: "dp_world \<Rightarrow> dp_options \<Rightarrow> dp_inst \<Rightarrow> js_date \<Rightarrow> js_error + bool" where
  "is_in_range w opt i d =
     (if o_year_range opt = [] then Inr (in_limits w opt i d)
      else case split_on (CHR '':'') (o_year_range opt) of
        a # b # rest \<Rightarrow>
          Inr (in_limits w opt i d \<and> in_bounds (year_bound (w_this_year w) a) (year_bound (w_this_year w) b) (get_full_year d))
      | _ \<Rightarrow> Inl Type_Error)"

definition number_of_months :: "dp_options \<Rightarrow> int \<times> int" where
  "number_of_months opt =
     (case o_num_months opt of Months_Default \<Rightarrow> (1, 1) | Months_Number n \<Rightarrow> (1, n) | Months_Grid r c \<Rightarrow> (r, c))"

definition can_adjust_month :: "dp_world \<Rightarrow> dp_options \<Rightarrow> dp_inst \<Rightarrow> int \<Rightarrow> int \<Rightarrow> int \<Rightarrow> js_error + bool" where
  "can_adjust_month w opt i offset y m =
     (let (rows, cols) = number_of_months opt;
          d = midnight_date w y (m + (if offset < 0 then offset else rows * cols)) 1;
          d' = (if offset < 0
                then set_date_field (w_midnight w)
                  (make_day (get_full_year d) (get_month d)
                     (get_days_in_month (w_midnight w) (get_full_year d) (get_month d))) d
                else d)
      in is_in_range w opt i d')"

section \<open>The first month drawn\<close>

partial_function (option) back_to :: "dp_world \<Rightarrow> js_date \<Rightarrow> int \<Rightarrow> int \<Rightarrow> (int \<times> int) option" where
  [code]: "back_to w max_draw y m =
     (if date_before max_draw (midnight_date w y m 1)
      then (if m - 1 < 0 then back_to w max_draw (y - 1) 11 else back_to w max_draw y (m - 1))
      else Some (y, m))"

definition max_draw :: "dp_world \<Rightarrow> dp_options \<Rightarrow> dp_inst \<Rightarrow> js_date \<Rightarrow> js_date" where
  "max_draw w opt i hi =
     (let (rows, cols) = number_of_months opt;
          d = midnight_date w (get_full_year hi) (get_month hi - rows * cols + 1) (get_date hi)
      in case min_date w opt i of Some l \<Rightarrow> if date_before d l then l else d | None \<Rightarrow> d)"

definition start_month :: "dp_world \<Rightarrow> dp_options \<Rightarrow> dp_inst \<Rightarrow> (int \<times> int) option" where
  "start_month w opt i =
     (let m = i_draw_month i - o_show_current_at opt;
          (y', m') = (if m < 0 then (i_draw_year i - 1, m + 12) else (i_draw_year i, m))
      in case max_date w opt i of
           None \<Rightarrow> Some (y', m')
         | Some hi \<Rightarrow> back_to w (max_draw w opt i hi) y' m')"

section \<open>Cells and rows\<close>

datatype cell_body = Blank_Body | Span_Body int | Link_Body "string list" int

record day_cell =
  c_date :: js_date
  c_classes :: "string list"
  c_title :: "string option"
  c_target :: "(int \<times> int) option"
  c_body :: cell_body

definition today_date :: "dp_world \<Rightarrow> js_date" where
  "today_date w = midnight_date w (get_full_year (w_now w)) (get_month (w_now w)) (get_date (w_now w))"

definition current_date :: "dp_world \<Rightarrow> dp_inst \<Rightarrow> js_date" where
  "current_date w i =
     (if i_cur_day i = 0 then midnight_date w 9999 9 9
      else midnight_date w (i_cur_year i) (i_cur_month i) (i_cur_day i))"

definition day_settings :: "dp_options \<Rightarrow> js_date \<Rightarrow> bool \<times> string \<times> string" where
  "day_settings opt d = (case v_before_show_day (o_view opt) of Some f \<Rightarrow> f d | None \<Rightarrow> (True, [], []))"

definition unselectable :: "dp_world \<Rightarrow> dp_options \<Rightarrow> dp_inst \<Rightarrow> int \<Rightarrow> js_date \<Rightarrow> bool" where
  "unselectable w opt i draw_month d \<longleftrightarrow>
     get_month d \<noteq> draw_month \<and> \<not> v_select_other (o_view opt) \<or> \<not> fst (day_settings opt d) \<or>
     (case min_date w opt i of Some l \<Rightarrow> date_before d l | None \<Rightarrow> False) \<or>
     (case max_date w opt i of Some h \<Rightarrow> date_before h d | None \<Rightarrow> False)"

definition escape_quotes :: "string \<Rightarrow> string" where
  "escape_quotes s = concat (map (\<lambda>c. if c = quote then ''&#39;'' else [c]) s)"

definition week_end_column :: "dp_options \<Rightarrow> int \<Rightarrow> bool" where
  "week_end_column opt dow \<longleftrightarrow> js_rem (dow + v_first_day (o_view opt) + 6) 7 \<ge> 5"

text \<open>The classes of a cell, each under its condition, in the order of the code.\<close>

definition cell_classes ::
  "dp_world \<Rightarrow> dp_options \<Rightarrow> dp_inst \<Rightarrow> int \<Rightarrow> js_date \<Rightarrow> int \<Rightarrow> js_date \<Rightarrow> string list" where
  "cell_classes w opt i draw_month selected dow d =
     (let other = (get_month d \<noteq> draw_month);
          dflt = default_date w opt i
      in (if week_end_column opt dow then [''ui-datepicker-week-end''] else []) @
         (if other then [''ui-datepicker-other-month''] else []) @
         (if d = selected \<and> draw_month = i_sel_month i \<and> i_key_event i \<or> dflt = d \<and> dflt = selected
          then [''ui-datepicker-days-cell-over''] else []) @
         (if unselectable w opt i draw_month d then [''ui-datepicker-unselectable'', ''ui-state-disabled''] else []) @
         (if other \<and> \<not> v_show_other (o_view opt) then []
          else fst (snd (day_settings opt d)) #
            (if d = current_date w i then [''ui-datepicker-current-day''] else []) @
            (if d = today_date w then [''ui-datepicker-today''] else [])))"

definition cell_content :: "dp_world \<Rightarrow> dp_options \<Rightarrow> dp_inst \<Rightarrow> int \<Rightarrow> js_date \<Rightarrow> cell_body" where
  "cell_content w opt i draw_month d =
     (let other = (get_month d \<noteq> draw_month) in
        if other \<and> \<not> v_show_other (o_view opt) then Blank_Body
        else if unselectable w opt i draw_month d then Span_Body (get_date d)
        else Link_Body
          (''ui-state-default'' #
           (if d = today_date w then [''ui-state-highlight''] else []) @
           (if d = current_date w i then [''ui-state-active''] else []) @
           (if other then [''ui-priority-secondary''] else []))
          (get_date d))"

definition draw_cell :: "dp_world \<Rightarrow> dp_options \<Rightarrow> dp_inst \<Rightarrow> int \<Rightarrow> js_date \<Rightarrow> int \<Rightarrow> js_date \<Rightarrow> day_cell" where
  "draw_cell w opt i draw_month selected dow d =
     (let title = snd (snd (day_settings opt d)) in
        \<lparr>c_date = d,
         c_classes = cell_classes w opt i draw_month selected dow d,
         c_title = (if (get_month d = draw_month \<or> v_show_other (o_view opt)) \<and> title \<noteq> []
                    then Some (escape_quotes title) else None),
         c_target = (if unselectable w opt i draw_month d then None else Some (get_month d, get_full_year d)),
         c_body = cell_content w opt i draw_month d\<rparr>)"

definition next_print_date :: "dp_world \<Rightarrow> js_date \<Rightarrow> js_date" where
  "next_print_date w d = daylight_saving_adjust (w_midnight w) (set_date_field (w_midnight w) (jd_day d + 1) d)"

text \<open>The cells from column \<open>dow\<close> on, \<open>n\<close> of them, and the date after the last.\<close>

primrec draw_cells ::
  "dp_world \<Rightarrow> dp_options \<Rightarrow> dp_inst \<Rightarrow> int \<Rightarrow> js_date \<Rightarrow> nat \<Rightarrow> int \<Rightarrow> js_date \<Rightarrow> day_cell list \<times> js_date" where
  "draw_cells w opt i dm sel 0 dow d = ([], d)"
| "draw_cells w opt i dm sel (Suc n) dow d =
     (let (cells, d') = draw_cells w opt i dm sel n (dow + 1) (next_print_date w d)
      in (draw_cell w opt i dm sel dow d # cells, d'))"

record week_row =
  r_week :: "int option"
  r_cells :: "day_cell list"

primrec draw_rows ::
  "dp_world \<Rightarrow> dp_options \<Rightarrow> dp_inst \<Rightarrow> int \<Rightarrow> js_date \<Rightarrow> nat \<Rightarrow> js_date \<Rightarrow> week_row list" where
  "draw_rows w opt i dm sel 0 d = []"
| "draw_rows w opt i dm sel (Suc n) d =
     (let (cells, d') = draw_cells w opt i dm sel 7 0 d;
          week = (if v_show_week (o_view opt) then Some (v_calculate_week (o_view opt) d) else None)
      in \<lparr>r_week = week, r_cells = cells\<rparr> # draw_rows w opt i dm sel n d')"

section \<open>Header of a month\<close>

datatype month_part = Month_Text string | Month_Select "(int \<times> bool \<times> string) list"

datatype year_part = Year_Text int | Year_Select "(int \<times> bool) list"

record month_title =
  tt_month :: month_part
  tt_year :: year_part
  tt_month_after :: bool
  tt_space :: bool
  tt_suffix :: string

definition month_options :: "dp_options \<Rightarrow> js_date option \<Rightarrow> js_date option \<Rightarrow> int \<Rightarrow> int \<Rightarrow> (int \<times> bool \<times> string) list" where
  "month_options opt lo hi dm dy =
     map (\<lambda>m. (m, m = dm, month_names_short (o_names opt) ! nat m))
       (filter (\<lambda>m. (case lo of Some l \<Rightarrow> get_full_year l = dy \<longrightarrow> m \<ge> get_month l | None \<Rightarrow> True) \<and>
                    (case hi of Some h \<Rightarrow> get_full_year h = dy \<longrightarrow> m \<le> get_month h | None \<Rightarrow> True)) [0..11])"

fun has_c_offset :: "string \<Rightarrow> bool" where
  "has_c_offset (a # b # cs) \<longleftrightarrow> a = CHR ''c'' \<and> (b = CHR ''+'' \<or> b = CHR ''-'') \<or> has_c_offset (b # cs)"
| "has_c_offset _ \<longleftrightarrow> False"

definition determine_year :: "int \<Rightarrow> int \<Rightarrow> string \<Rightarrow> int" where
  "determine_year this_year dy s =
     (let (base, num) = (if has_c_offset s then (dy, parse_int (tl s))
                         else if has_sign s then (this_year, parse_int s) else (0, parse_int s))
      in case num of NaN \<Rightarrow> this_year | Num n \<Rightarrow> base + n)"

definition year_options :: "dp_world \<Rightarrow> dp_options \<Rightarrow> js_date option \<Rightarrow> js_date option \<Rightarrow> int \<Rightarrow> (int \<times> bool) list" where
  "year_options w opt lo hi dy =
     (let parts = split_on (CHR '':'') (o_year_range opt);
          year = determine_year (w_this_year w) dy (hd parts);
          end_year = max year (determine_year (w_this_year w) dy (if 1 < length parts then parts ! 1 else []));
          first_year = (case lo of Some l \<Rightarrow> max year (get_full_year l) | None \<Rightarrow> year);
          last_year = (case hi of Some h \<Rightarrow> min end_year (get_full_year h) | None \<Rightarrow> end_year)
      in map (\<lambda>y. (y, y = dy)) [first_year..last_year])"

definition month_year_header ::
  "dp_world \<Rightarrow> dp_options \<Rightarrow> js_date option \<Rightarrow> js_date option \<Rightarrow> bool \<Rightarrow> int \<Rightarrow> int \<Rightarrow> month_title" where
  "month_year_header w opt lo hi secondary dm dy =
     (let v = o_view opt in
        \<lparr>tt_month = (if secondary \<or> \<not> v_change_month v then Month_Text (month_names (o_names opt) ! nat dm)
                     else Month_Select (month_options opt lo hi dm dy)),
         tt_year = (if secondary \<or> \<not> v_change_year v then Year_Text dy else Year_Select (year_options w opt lo hi dy)),
         tt_month_after = v_month_after_year v,
         tt_space = (secondary \<or> \<not> (v_change_month v \<and> v_change_year v)),
         tt_suffix = v_year_suffix v\<rparr>)"

section \<open>The months\<close>

datatype nav_link = Nav_Link string | Nav_Disabled string | Nav_Hidden

record month_table =
  t_group :: "string list option"
  t_corner :: string
  t_left :: "nav_link option"
  t_right :: "nav_link option"
  t_title :: month_title
  t_week_head :: "string option"
  t_heads :: "(bool \<times> string \<times> string) list"
  t_rows :: "week_row list"
  t_break :: bool

definition month_heads :: "dp_options \<Rightarrow> (bool \<times> string \<times> string) list" where
  "month_heads opt =
     map (\<lambda>dow. let day = nat (js_rem (dow + v_first_day (o_view opt)) 7)
                in (week_end_column opt dow, day_names (o_names opt) ! day, v_day_names_min (o_view opt) ! day)) [0..6]"

definition lead_days :: "dp_world \<Rightarrow> dp_options \<Rightarrow> int \<Rightarrow> int \<Rightarrow> int" where
  "lead_days w opt dy dm = js_rem (get_first_day_of_month (w_midnight w) dy dm - v_first_day (o_view opt) + 7) 7"

text \<open>\<open>Math.ceil((leadDays + daysInMonth) / 7)\<close>.\<close>

definition row_count :: "dp_world \<Rightarrow> dp_options \<Rightarrow> int \<Rightarrow> int \<Rightarrow> int" where
  "row_count w opt dy dm = - ((- (lead_days w opt dy dm + get_days_in_month (w_midnight w) dy dm)) div 7)"

definition group_classes :: "dp_options \<Rightarrow> int \<Rightarrow> string list \<times> string" where
  "group_classes opt col =
     (let cols = snd (number_of_months opt); rtl = o_rtl opt in
        if cols > 1 then
          if col = 0 then ([''ui-datepicker-group'', ''ui-datepicker-group-first''], if rtl then ''right'' else ''left'')
          else if col = cols - 1 then ([''ui-datepicker-group'', ''ui-datepicker-group-last''], if rtl then ''left'' else ''right'')
          else ([''ui-datepicker-group'', ''ui-datepicker-group-middle''], [])
        else ([''ui-datepicker-group''], ''all''))"

definition multi_month :: "dp_options \<Rightarrow> bool" where
  "multi_month opt \<longleftrightarrow> number_of_months opt \<noteq> (1, 1)"

definition clip_selected_day :: "int \<Rightarrow> int \<Rightarrow> int \<Rightarrow> dp_inst \<Rightarrow> dp_inst" where
  "clip_selected_day dy dm dim i =
     (if dy = i_sel_year i \<and> dm = i_sel_month i then i\<lparr>i_sel_day := min (i_sel_day i) dim\<rparr> else i)"

definition draw_month ::
  "dp_world \<Rightarrow> dp_options \<Rightarrow> nav_link \<Rightarrow> nav_link \<Rightarrow> int \<Rightarrow> int \<Rightarrow> int \<Rightarrow> int \<Rightarrow> int \<Rightarrow> dp_inst \<Rightarrow>
     month_table \<times> dp_inst \<times> int" where
  "draw_month w opt prev next row col dy dm max_rows i =
     (let selected = midnight_date w dy dm (i_sel_day i);
          i' = clip_selected_day dy dm (get_days_in_month (w_midnight w) dy dm) i;
          cur_rows = row_count w opt dy dm;
          num_rows = (if multi_month opt then (if max_rows > cur_rows then max_rows else cur_rows) else cur_rows);
          print = midnight_date w dy dm (1 - lead_days w opt dy dm);
          (group, corner) = (if multi_month opt then (Some (fst (group_classes opt col)), snd (group_classes opt col))
                             else (None, ''all''))
      in (\<lparr>t_group = group,
           t_corner = corner,
           t_left = (if (corner = ''all'' \<or> corner = ''left'') \<and> row = 0
                     then Some (if o_rtl opt then next else prev) else None),
           t_right = (if (corner = ''all'' \<or> corner = ''right'') \<and> row = 0
                      then Some (if o_rtl opt then prev else next) else None),
           t_title = month_year_header w opt (min_date w opt i) (max_date w opt i) (row > 0 \<or> col > 0) dm dy,
           t_week_head = (if v_show_week (o_view opt) then Some (v_week_header (o_view opt)) else None),
           t_heads = month_heads opt,
           t_rows = draw_rows w opt i' dm selected (nat num_rows) print,
           t_break = (multi_month opt \<and> fst (number_of_months opt) > 0 \<and> col = snd (number_of_months opt) - 1)\<rparr>,
          i', num_rows))"

definition next_month :: "int \<Rightarrow> int \<Rightarrow> int \<times> int" where
  "next_month dy dm = (if dm + 1 > 11 then (dy + 1, 0) else (dy, dm + 1))"

text \<open>\<open>n\<close> months of a row from column \<open>col\<close> on: the tables, the instance and the month that comes next.\<close>

primrec draw_columns ::
  "dp_world \<Rightarrow> dp_options \<Rightarrow> nav_link \<Rightarrow> nav_link \<Rightarrow> int \<Rightarrow> nat \<Rightarrow> int \<Rightarrow> int \<Rightarrow> int \<Rightarrow> int \<Rightarrow> dp_inst \<Rightarrow>
     month_table list \<times> dp_inst \<times> int \<times> int" where
  "draw_columns w opt prev next row 0 col dy dm max_rows i = ([], i, dy, dm)"
| "draw_columns w opt prev next row (Suc n) col dy dm max_rows i =
     (let (t, i', rows) = draw_month w opt prev next row col dy dm max_rows i;
          (dy', dm') = next_month dy dm;
          (ts, rest) = draw_columns w opt prev next row n (col + 1) dy' dm' rows i'
      in (t # ts, rest))"

primrec draw_month_rows ::
  "dp_world \<Rightarrow> dp_options \<Rightarrow> nav_link \<Rightarrow> nav_link \<Rightarrow> nat \<Rightarrow> int \<Rightarrow> int \<Rightarrow> int \<Rightarrow> dp_inst \<Rightarrow>
     month_table list \<times> dp_inst" where
  "draw_month_rows w opt prev next 0 row dy dm i = ([], i)"
| "draw_month_rows w opt prev next (Suc n) row dy dm i =
     (let (ts, i', dy', dm') = draw_columns w opt prev next row (nat (snd (number_of_months opt))) 0 dy dm 4 i;
          (ts', i'') = draw_month_rows w opt prev next n (row + 1) dy' dm' i'
      in (ts @ ts', i''))"

section \<open>The whole picker\<close>

record dp_html =
  h_tables :: "month_table list"
  h_panel :: "(string option \<times> string option \<times> bool) option"

definition nav_text :: "dp_world \<Rightarrow> dp_options \<Rightarrow> string \<Rightarrow> js_date \<Rightarrow> string" where
  "nav_text w opt text d = (if v_nav_format (o_view opt) then inst_format w opt text (Some d) else text)"

definition nav_link_for :: "dp_options \<Rightarrow> bool \<Rightarrow> string \<Rightarrow> nav_link" where
  "nav_link_for opt can text =
     (if can then Nav_Link text else if v_hide_nav (o_view opt) then Nav_Hidden else Nav_Disabled text)"

definition goto_date :: "dp_world \<Rightarrow> dp_options \<Rightarrow> dp_inst \<Rightarrow> js_date" where
  "goto_date w opt i = (if o_goto_current opt \<and> i_cur_day i \<noteq> 0 then current_date w i else today_date w)"

text \<open>The button panel: the text of the button for today, that of the close button, and which comes first.\<close>

definition button_panel :: "dp_world \<Rightarrow> dp_options \<Rightarrow> dp_inst \<Rightarrow> js_error + (string option \<times> string option \<times> bool) option" where
  "button_panel w opt i =
     (if v_button_panel (o_view opt) then
        case is_in_range w opt i (goto_date w opt i) of
          Inl e \<Rightarrow> Inl e
        | Inr can \<Rightarrow> Inr (Some
            (if can then Some (nav_text w opt (v_current_text (o_view opt)) (goto_date w opt i)) else None,
             if i_inline i then None else Some (v_close_text (o_view opt)),
             o_rtl opt))
      else Inr None)"

definition draw_from :: "dp_world \<Rightarrow> dp_options \<Rightarrow> int \<Rightarrow> int \<Rightarrow> dp_inst \<Rightarrow> js_error + (dp_html \<times> dp_inst)" where
  "draw_from w opt dy dm i =
     (let i1 = i\<lparr>i_draw_month := dm, i_draw_year := dy\<rparr>;
          v = o_view opt;
          prev_text = nav_text w opt (v_prev_text v) (midnight_date w dy (dm - o_step_months opt) 1);
          next_text = nav_text w opt (v_next_text v) (midnight_date w dy (dm + o_step_months opt) 1)
      in case can_adjust_month w opt i1 (- 1) dy dm of
           Inl e \<Rightarrow> Inl e
         | Inr can_prev \<Rightarrow>
             (case can_adjust_month w opt i1 1 dy dm of
                Inl e \<Rightarrow> Inl e
              | Inr can_next \<Rightarrow>
                  (case button_panel w opt i1 of
                     Inl e \<Rightarrow> Inl e
                   | Inr panel \<Rightarrow>
                       let (tables, i2) =
                         draw_month_rows w opt (nav_link_for opt can_prev prev_text) (nav_link_for opt can_next next_text)
                           (nat (fst (number_of_months opt))) 0 dy dm i1
                       in Inr (\<lparr>h_tables = tables, h_panel = panel\<rparr>, i2\<lparr>i_key_event := False\<rparr>))))"

definition generate_html :: "dp_world \<Rightarrow> dp_options \<Rightarrow> dp_inst \<Rightarrow> (js_error + (dp_html \<times> dp_inst)) option" where
  "generate_html w opt i = map_option (\<lambda>(dy, dm). draw_from w opt dy dm i) (start_month w opt i)"

section \<open>The first month is found\<close>

text \<open>The first days of the months, numbered in a row, increase.\<close>

definition first_of :: "int \<Rightarrow> int" where
  "first_of k = make_day (k div 12) (k mod 12) 1"

lemma first_of_month: "first_of (12 * y + m) = make_day y m 1"
  by (simp add: first_of_def make_day_def)

lemma first_of_next: "first_of k + 28 \<le> first_of (k + 1)"
proof -
  let ?y = "k div 12" and ?m = "k mod 12"
  have "first_of (k + 1) = make_day ?y (?m + 1) 1"
    using first_of_month [of ?y "?m + 1"] by simp
  also have "\<dots> = make_day ?y ?m (month_length ?y ?m + 1)"
    using make_day_overflow [of ?m ?y 1] by simp
  also have "\<dots> = first_of k + month_length ?y ?m" by (simp add: make_day_def first_of_def)
  finally show ?thesis using month_length_bounds(1) [of ?y ?m] by simp
qed

lemma first_of_less: "k < l \<Longrightarrow> first_of k < first_of l"
proof (induction l rule: int_gr_induct [where k = k])
  case base
  then show ?case using first_of_next [of k] by linarith
next
  case (step l)
  then show ?case using first_of_next [of l] by linarith
qed

definition month_index :: "int \<Rightarrow> int" where
  "month_index n = 12 * year_from_day n + month_from_day n"

lemma first_of_month_index: "first_of (month_index n) \<le> n"
proof -
  have v: "valid_date (year_from_day n) (month_from_day n) (date_from_day n)" by (rule make_of_day(1))
  then have "first_of (month_index n) = make_day (year_from_day n) (month_from_day n) 1"
    by (simp add: month_index_def first_of_month valid_date_def)
  also have "\<dots> \<le> make_day (year_from_day n) (month_from_day n) (date_from_day n)"
    using v by (simp add: make_day_def valid_date_def)
  finally show ?thesis by (simp add: make_of_day)
qed

lemma back_to_in_month:
  assumes "sane_clock (w_midnight w)"
  shows "0 \<le> m \<Longrightarrow> m < 12 \<Longrightarrow> back_to w mx y m \<noteq> None"
proof (induction "nat (12 * y + m + 1 - min 0 (month_index (jd_day mx)))" arbitrary: y m rule: less_induct)
  case less
  show ?case
  proof (cases "date_before mx (midnight_date w y m 1)")
    case True
    have bound: "min 0 (month_index (jd_day mx)) < 12 * y + m + 1"
    proof (cases "0 \<le> y")
      case True
      with less.prems show ?thesis by linarith
    next
      case False
      then have "midnight_date w y m 1 = midnight_of w (make_day y m 1)" by (simp add: midnight_date_eq full_year_def)
      with True assms have "jd_day mx \<le> make_day y m 1" by (auto simp: date_before_def)
      then have "first_of (month_index (jd_day mx)) \<le> first_of (12 * y + m)"
        using first_of_month_index [of "jd_day mx"] first_of_month less.prems by simp
      then have "\<not> 12 * y + m < month_index (jd_day mx)" using first_of_less by fastforce
      then show ?thesis by linarith
    qed
    have "back_to w mx y m = (if m - 1 < 0 then back_to w mx (y - 1) 11 else back_to w mx y (m - 1))"
      using True by (subst back_to.simps) simp
    moreover have "back_to w mx (y - 1) 11 \<noteq> None" if "m - 1 < 0"
      using less.prems that bound by (intro less.hyps) auto
    moreover have "back_to w mx y (m - 1) \<noteq> None" if "\<not> m - 1 < 0"
      using less.prems that bound by (intro less.hyps) auto
    ultimately show ?thesis by simp
  qed (subst back_to.simps, simp)
qed

lemma back_to_returns:
  assumes "sane_clock (w_midnight w)"
  shows "back_to w mx y m \<noteq> None"
proof (induction "nat m" arbitrary: m rule: less_induct)
  case less
  show ?case
  proof (cases "m < 12")
    case True
    show ?thesis
    proof (cases "0 \<le> m")
      case False
      then show ?thesis using back_to_in_month [OF assms, of 11 mx "y - 1"] by (subst back_to.simps) simp
    qed (use True back_to_in_month [OF assms] in blast)
  next
    case False
    then have "back_to w mx y (m - 1) \<noteq> None" by (intro less.hyps) simp
    with False show ?thesis by (subst back_to.simps) simp
  qed
qed

lemma start_month_returns:
  assumes "sane_clock (w_midnight w)"
  shows "\<exists>dy dm. start_month w opt i = Some (dy, dm)"
  using back_to_returns [OF assms] by (auto simp: start_month_def Let_def split: option.splits)

section \<open>What the grid shows\<close>

lemma midnight_hours:
  assumes "sane_clock (w_midnight w)"
  shows "midnight_of w n = \<lparr>jd_day = n, jd_hour = 0\<rparr> \<or>
    midnight_of w n = \<lparr>jd_day = n, jd_hour = 1\<rparr> \<and> w_midnight w (n + 1) = \<lparr>jd_day = n + 1, jd_hour = 0\<rparr>"
proof -
  let ?mid = "w_midnight w"
  from assms have s: "?mid n \<in> {\<lparr>jd_day = n, jd_hour = 0\<rparr>, \<lparr>jd_day = n, jd_hour = 1\<rparr>, \<lparr>jd_day = n - 1, jd_hour = 23\<rparr>}"
    and c: "?mid n \<noteq> \<lparr>jd_day = n, jd_hour = 0\<rparr> \<Longrightarrow> ?mid (n + 1) = \<lparr>jd_day = n + 1, jd_hour = 0\<rparr>"
    by (simp_all add: sane_clock_def sane_midnight_def)
  show ?thesis
  proof (cases "?mid n = \<lparr>jd_day = n, jd_hour = 0\<rparr>")
    case True
    then show ?thesis by (simp add: midnight_of_def daylight_saving_adjust_def set_hours_def)
  next
    case False
    with s c show ?thesis by (auto simp: midnight_of_def daylight_saving_adjust_def set_hours_def)
  qed
qed

lemma next_print_midnight:
  assumes "sane_clock (w_midnight w)"
  shows "next_print_date w (midnight_of w n) = midnight_of w (n + 1)"
  using midnight_hours [OF assms, of n]
proof
  assume "midnight_of w n = \<lparr>jd_day = n, jd_hour = 0\<rparr>"
  then show ?thesis by (simp add: next_print_date_def set_date_field_def midnight_of_def)
next
  assume a: "midnight_of w n = \<lparr>jd_day = n, jd_hour = 1\<rparr> \<and> w_midnight w (n + 1) = \<lparr>jd_day = n + 1, jd_hour = 0\<rparr>"
  then have "next_print_date w (midnight_of w n) = w_midnight w (n + 1)"
    by (simp add: next_print_date_def set_date_field_def daylight_saving_adjust_def set_hours_def)
  also have "\<dots> = midnight_of w (n + 1)"
    using a by (simp add: midnight_of_def daylight_saving_adjust_def set_hours_def)
  finally show ?thesis .
qed

text \<open>\<open>n\<close> cells from day \<open>p\<close> on.\<close>

lemma draw_cells_eq:
  assumes "sane_clock (w_midnight w)"
  shows "draw_cells w opt i dm sel n dow (midnight_of w p) =
    (map (\<lambda>k. draw_cell w opt i dm sel (dow + int k) (midnight_of w (p + int k))) [0..<n], midnight_of w (p + int n))"
proof (induction n arbitrary: dow p)
  case (Suc n)
  have "[0..<Suc n] = 0 # map Suc [0..<n]" by (simp add: upt_conv_Cons map_Suc_upt del: upt_Suc)
  with Suc show ?case
    by (simp add: next_print_midnight [OF assms] comp_def add.assoc [symmetric] del: upt_Suc)
qed simp

lemma draw_rows_eq:
  assumes "sane_clock (w_midnight w)"
  shows "map r_cells (draw_rows w opt i dm sel n (midnight_of w p)) =
    map (\<lambda>r. map (\<lambda>k. draw_cell w opt i dm sel (int k) (midnight_of w (p + 7 * int r + int k))) [0..<7]) [0..<n]"
proof (induction n arbitrary: p)
  case (Suc n)
  have "[0..<Suc n] = 0 # map Suc [0..<n]" by (simp add: upt_conv_Cons map_Suc_upt del: upt_Suc)
  with Suc show ?case
    by (simp only: draw_rows.simps draw_cells_eq [OF assms] Let_def prod.case list.map week_row.simps map_map comp_def)
      (simp add: algebra_simps del: upt_Suc)
qed simp

lemma draw_cell_date [simp]: "c_date (draw_cell w opt i dm sel dow d) = d"
  by (simp add: draw_cell_def Let_def)

lemma draw_rows_cell:
  assumes "sane_clock (w_midnight w)" and "r \<in> set (draw_rows w opt i dm sel n (midnight_of w p))" and "c \<in> set (r_cells r)"
  shows "\<exists>q dow. c = draw_cell w opt i dm sel dow (midnight_of w q)"
proof -
  have "r_cells r \<in> set (map r_cells (draw_rows w opt i dm sel n (midnight_of w p)))" using assms(2) by simp
  then show ?thesis using assms(3) unfolding draw_rows_eq [OF assms(1)] by (auto simp del: upt_Suc) blast
qed

lemma map_flat_weeks: "concat (map (\<lambda>r. map (\<lambda>k. f (p + 7 * int r + int k)) [0..<7]) [0..<n]) = map f (map (\<lambda>j. p + int j) [0..<7 * n])"
proof (induction n)
  case (Suc n)
  have "[0..<7 * Suc n] = [0..<7 * n] @ map (\<lambda>k. 7 * n + k) [0..<7]"
    using upt_add_eq_append [of 0 "7 * n" 7] map_add_upt [of "7 * n" 7] by (simp add: add.commute del: upt_Suc)
  moreover have "[0..<Suc n] = [0..<n] @ [n]" by simp
  ultimately show ?case using Suc by (simp add: comp_def add.assoc del: upt_Suc mult_Suc_right)
qed simp

lemma draw_rows_dates:
  assumes "sane_clock (w_midnight w)"
  shows "concat (map (\<lambda>r. map c_date (r_cells r)) (draw_rows w opt i dm sel n (midnight_of w p))) =
    map (\<lambda>j. midnight_of w (p + int j)) [0..<7 * n]"
proof -
  have "concat (map (\<lambda>r. map c_date (r_cells r)) (draw_rows w opt i dm sel n (midnight_of w p))) =
      concat (map (map c_date) (map r_cells (draw_rows w opt i dm sel n (midnight_of w p))))" by (simp add: comp_def)
  also have "\<dots> = concat (map (\<lambda>r. map (\<lambda>k. midnight_of w (p + 7 * int r + int k)) [0..<7]) [0..<n])"
    unfolding draw_rows_eq [OF assms] by (simp add: comp_def del: upt_Suc)
  finally show ?thesis using map_flat_weeks [of "midnight_of w" p n] by (simp add: comp_def del: upt_Suc)
qed

lemma week_day_shift: "week_day (n - js_rem (week_day n - f + 7) 7) = f mod 7" if "0 \<le> f" "f < 7"
proof -
  have r: "0 \<le> week_day n" "week_day n < 7" by (simp_all add: week_day_def)
  with that have "js_rem (week_day n - f + 7) 7 = (n + 4 - f) mod 7" by (simp add: js_rem_def week_day_def mod_simps)
  then have "week_day (n - js_rem (week_day n - f + 7) 7) = (n + 4 - (n + 4 - f) mod 7) mod 7"
    by (simp add: week_day_def algebra_simps)
  also have "\<dots> = (n + 4 - (n + 4 - f)) mod 7" by (simp only: mod_diff_right_eq)
  finally show ?thesis by simp
qed

lemma lead_days_eq:
  assumes "sane_clock (w_midnight w)" and "0 \<le> v_first_day (o_view opt)" and "v_first_day (o_view opt) < 7"
    and "w_midnight w (make_day (full_year dy) dm 1) = \<lparr>jd_day = make_day (full_year dy) dm 1, jd_hour = h\<rparr>"
  shows "week_day (make_day (full_year dy) dm 1 - lead_days w opt dy dm) = v_first_day (o_view opt)"
    and "0 \<le> lead_days w opt dy dm" and "lead_days w opt dy dm < 7"
proof -
  have "get_first_day_of_month (w_midnight w) dy dm = week_day (make_day (full_year dy) dm 1)"
    using assms(4) by (simp add: get_first_day_of_month_def new_date_def get_day_def)
  then have l: "lead_days w opt dy dm = js_rem (week_day (make_day (full_year dy) dm 1) - v_first_day (o_view opt) + 7) 7"
    by (simp add: lead_days_def)
  show "week_day (make_day (full_year dy) dm 1 - lead_days w opt dy dm) = v_first_day (o_view opt)"
    using week_day_shift [OF assms(2,3), of "make_day (full_year dy) dm 1"] assms(2,3) unfolding l by simp
  have "0 \<le> week_day (make_day (full_year dy) dm 1)" by (simp add: week_day_def)
  then show "0 \<le> lead_days w opt dy dm" "lead_days w opt dy dm < 7" using assms(3) unfolding l by (simp_all add: js_rem_def)
qed

lemma row_count_bounds:
  fixes x :: int
  shows "x \<le> 7 * (- ((- x) div 7))" and "7 * (- ((- x) div 7)) < x + 7"
  using div_bounds [of 7 "- x"] by simp_all

section \<open>What can be clicked\<close>

text \<open>
  A cell that can be clicked names its own date, which is within the limits, in its target and its content.
\<close>

definition cell_ok :: "dp_world \<Rightarrow> dp_options \<Rightarrow> day_cell \<Rightarrow> bool" where
  "cell_ok w opt c \<longleftrightarrow>
     (case c_target c of
        None \<Rightarrow> True
      | Some (m, y) \<Rightarrow> m = get_month (c_date c) \<and> y = get_full_year (c_date c) \<and> day_allowed w opt (jd_day (c_date c)) \<and>
          (case c_body c of Link_Body cl d \<Rightarrow> d = get_date (c_date c) | _ \<Rightarrow> False))"

definition html_ok :: "dp_world \<Rightarrow> dp_options \<Rightarrow> dp_html \<Rightarrow> bool" where
  "html_ok w opt h \<longleftrightarrow> (\<forall>t \<in> set (h_tables h). \<forall>r \<in> set (t_rows t). \<forall>c \<in> set (r_cells r). cell_ok w opt c)"

text \<open>Days of other months are shown where they can be selected.\<close>

definition shows_selectable :: "dp_options \<Rightarrow> bool" where
  "shows_selectable opt \<longleftrightarrow> (v_select_other (o_view opt) \<longrightarrow> v_show_other (o_view opt))"

lemma selectable_allowed:
  assumes "sane_clock (w_midnight w)" and "absolute_limits opt" and "\<not> unselectable w opt i dm (midnight_of w n)"
  shows "day_allowed w opt n"
  using assms limit_date [of "o_min opt" w opt i] limit_date [of "o_max opt" w opt i]
  by (auto simp: unselectable_def day_allowed_def in_bounds_def absolute_limits_def min_date_def max_date_def
      split: option.splits)

lemma draw_cell_ok:
  assumes "sane_clock (w_midnight w)" and "absolute_limits opt" and "shows_selectable opt"
  shows "cell_ok w opt (draw_cell w opt i dm sel dow (midnight_of w q))"
proof (cases "unselectable w opt i dm (midnight_of w q)")
  case False
  then have "get_month (midnight_of w q) = dm \<or> v_select_other (o_view opt)" by (auto simp: unselectable_def)
  with assms(3) have "\<not> (get_month (midnight_of w q) \<noteq> dm \<and> \<not> v_show_other (o_view opt))"
    by (auto simp: shows_selectable_def)
  then have "cell_content w opt i dm (midnight_of w q) =
      Link_Body (''ui-state-default'' #
        (if midnight_of w q = today_date w then [''ui-state-highlight''] else []) @
        (if midnight_of w q = current_date w i then [''ui-state-active''] else []) @
        (if get_month (midnight_of w q) \<noteq> dm then [''ui-priority-secondary''] else [])) (get_date (midnight_of w q))"
    using False unfolding cell_content_def Let_def by (simp only: if_False)
  with False selectable_allowed [OF assms(1,2) False] assms(1) show ?thesis
    by (simp add: cell_ok_def draw_cell_def Let_def)
qed (simp add: cell_ok_def draw_cell_def Let_def)

lemma draw_month_ok:
  assumes "sane_clock (w_midnight w)" and "absolute_limits opt" and "shows_selectable opt"
    and "draw_month w opt prev next row col dy dm max_rows i = (t, rest)"
  shows "\<forall>r \<in> set (t_rows t). \<forall>c \<in> set (r_cells r). cell_ok w opt c"
proof -
  from assms(4) obtain i' sel n p where "t_rows t = draw_rows w opt i' dm sel n (midnight_of w p)"
    by (auto simp: draw_month_def Let_def midnight_date_eq split: prod.splits)
  then show ?thesis using draw_rows_cell [OF assms(1)] draw_cell_ok [OF assms(1-3)] by (metis (no_types, lifting))
qed

lemma draw_columns_ok:
  assumes "sane_clock (w_midnight w)" and "absolute_limits opt" and "shows_selectable opt"
  shows "t \<in> set (fst (draw_columns w opt prev next row n col dy dm mr i)) \<Longrightarrow>
    \<forall>r \<in> set (t_rows t). \<forall>c \<in> set (r_cells r). cell_ok w opt c"
proof (induction n arbitrary: col dy dm mr i)
  case (Suc n)
  obtain t' i' rows where t': "draw_month w opt prev next row col dy dm mr i = (t', i', rows)" by (metis prod.exhaust)
  obtain dy' dm' where m: "next_month dy dm = (dy', dm')" by fastforce
  have "t = t' \<or> t \<in> set (fst (draw_columns w opt prev next row n (col + 1) dy' dm' rows i'))"
    using Suc.prems by (simp add: t' m split: prod.splits)
  then show ?case using Suc.IH draw_month_ok [OF assms t'] by blast
qed simp

lemma draw_month_rows_ok:
  assumes "sane_clock (w_midnight w)" and "absolute_limits opt" and "shows_selectable opt"
  shows "t \<in> set (fst (draw_month_rows w opt prev next n row dy dm i)) \<Longrightarrow>
    \<forall>r \<in> set (t_rows t). \<forall>c \<in> set (r_cells r). cell_ok w opt c"
proof (induction n arbitrary: row dy dm i)
  case (Suc n)
  let ?cols = "draw_columns w opt prev next row (nat (snd (number_of_months opt))) 0 dy dm 4 i"
  obtain ts i' dy' dm' where c: "?cols = (ts, i', dy', dm')" by (metis prod.exhaust)
  have "t \<in> set (fst ?cols) \<or> t \<in> set (fst (draw_month_rows w opt prev next n (row + 1) dy' dm' i'))"
    using Suc.prems c by (auto split: prod.splits)
  then show ?case using Suc.IH draw_columns_ok [OF assms] by blast
qed simp

text \<open>Drawing changes the selected day at most to the length of the selected month.\<close>

definition clipped :: "dp_inst \<Rightarrow> dp_inst \<Rightarrow> bool" where
  "clipped i j \<longleftrightarrow> i_sel_month j = i_sel_month i \<and> i_sel_year j = i_sel_year i \<and> i_disabled j = i_disabled i \<and>
     (i_sel_day j = i_sel_day i \<or>
      i_sel_day j < i_sel_day i \<and> 28 \<le> i_sel_day j \<and> i_sel_day j = month_length (full_year (i_sel_year i)) (i_sel_month i))"

lemma clipped_refl [simp]: "clipped i i" by (simp add: clipped_def)

lemma clipped_trans: "clipped i j \<Longrightarrow> clipped j k \<Longrightarrow> clipped i k"
  by (auto simp: clipped_def)

lemma clip_clipped:
  assumes "sane_clock (w_midnight w)" and "0 \<le> i_sel_month i" and "i_sel_month i < 12"
  shows "clipped i (clip_selected_day dy dm (get_days_in_month (w_midnight w) dy dm) i)"
proof (cases "dm = i_sel_month i")
  case True
  with assms have "get_days_in_month (w_midnight w) dy dm = month_length (full_year dy) dm"
    using days_in_month_eq [of "w_midnight w" dy dm] by (simp add: sane_clock_def)
  then show ?thesis
    using month_length_bounds(1) [of "full_year dy" dm] by (auto simp: clipped_def clip_selected_day_def min_def)
qed (simp add: clip_selected_day_def)

lemma draw_columns_clipped:
  assumes "sane_clock (w_midnight w)"
  shows "0 \<le> i_sel_month i \<Longrightarrow> i_sel_month i < 12 \<Longrightarrow>
    clipped i (fst (snd (draw_columns w opt prev next row n col dy dm mr i)))"
proof (induction n arbitrary: col dy dm mr i)
  case (Suc n)
  obtain t' i' rows where t': "draw_month w opt prev next row col dy dm mr i = (t', i', rows)" by (metis prod.exhaust)
  then have "i' = clip_selected_day dy dm (get_days_in_month (w_midnight w) dy dm) i"
    by (auto simp: draw_month_def Let_def split: prod.splits)
  with clip_clipped [OF assms Suc.prems] have c: "clipped i i'" by simp
  then have "0 \<le> i_sel_month i'" "i_sel_month i' < 12" using Suc.prems by (simp_all add: clipped_def)
  obtain dy' dm' where m: "next_month dy dm = (dy', dm')" by fastforce
  obtain ts rest where cs: "draw_columns w opt prev next row n (col + 1) dy' dm' rows i' = (ts, rest)"
    by (metis prod.exhaust)
  with clipped_trans [OF c Suc.IH [OF \<open>0 \<le> i_sel_month i'\<close> \<open>i_sel_month i' < 12\<close>, of "col + 1" dy' dm' rows]]
  show ?case by (simp add: t' m)
qed simp

lemma draw_month_rows_clipped:
  assumes "sane_clock (w_midnight w)"
  shows "0 \<le> i_sel_month i \<Longrightarrow> i_sel_month i < 12 \<Longrightarrow> clipped i (snd (draw_month_rows w opt prev next n row dy dm i))"
proof (induction n arbitrary: row dy dm i)
  case (Suc n)
  let ?cols = "draw_columns w opt prev next row (nat (snd (number_of_months opt))) 0 dy dm 4 i"
  obtain ts i' dy' dm' where c: "?cols = (ts, i', dy', dm')" by (metis prod.exhaust)
  with draw_columns_clipped [OF assms Suc.prems, of opt prev "next" row "nat (snd (number_of_months opt))" 0 dy dm 4]
  have i': "clipped i i'" by simp
  then have "0 \<le> i_sel_month i'" "i_sel_month i' < 12" using Suc.prems by (simp_all add: clipped_def)
  from clipped_trans [OF i' Suc.IH [OF this, of "row + 1" dy' dm']] c show ?case by (auto split: prod.splits)
qed simp

text \<open>With a year range that has both ends, drawing never throws.\<close>

definition year_range_ok :: "dp_options \<Rightarrow> bool" where
  "year_range_ok opt \<longleftrightarrow> o_year_range opt = [] \<or> 1 < length (split_on (CHR '':'') (o_year_range opt))"

lemma is_in_range_total: "year_range_ok opt \<Longrightarrow> \<exists>b. is_in_range w opt i d = Inr b"
  by (auto simp: is_in_range_def year_range_ok_def split: list.splits)

lemma clipped_key [simp]: "clipped i (j\<lparr>i_key_event := b\<rparr>) = clipped i j"
  "clipped (i\<lparr>i_draw_month := dm, i_draw_year := dy\<rparr>) j = clipped i j"
  by (simp_all add: clipped_def)

text \<open>Drawing ends, does not throw, offers only allowed dates, and clips the selection at most.\<close>

lemma generate_html_ok:
  assumes "sane_clock (w_midnight w)" and "absolute_limits opt" and "shows_selectable opt" and "year_range_ok opt"
    and "0 \<le> i_sel_month i" and "i_sel_month i < 12"
  shows "\<exists>h j. generate_html w opt i = Some (Inr (h, j)) \<and> html_ok w opt h \<and> clipped i j"
proof -
  obtain dy dm where s: "start_month w opt i = Some (dy, dm)" using start_month_returns [OF assms(1)] by blast
  let ?i = "i\<lparr>i_draw_month := dm, i_draw_year := dy\<rparr>"
  have "\<exists>b. can_adjust_month w opt ?i k dy dm = Inr b" for k
    using is_in_range_total [OF assms(4)] by (simp add: can_adjust_month_def Let_def split: prod.splits)
  then obtain cp cn where c: "can_adjust_month w opt ?i (- 1) dy dm = Inr cp" "can_adjust_month w opt ?i 1 dy dm = Inr cn"
    by metis
  have "\<exists>p. button_panel w opt ?i = Inr p"
    using is_in_range_total [OF assms(4), of w ?i "goto_date w opt ?i"] by (auto simp: button_panel_def)
  then obtain p where p: "button_panel w opt ?i = Inr p" by blast
  let ?prev = "nav_link_for opt cp (nav_text w opt (v_prev_text (o_view opt)) (midnight_date w dy (dm - o_step_months opt) 1))"
  let ?next = "nav_link_for opt cn (nav_text w opt (v_next_text (o_view opt)) (midnight_date w dy (dm + o_step_months opt) 1))"
  let ?rows = "draw_month_rows w opt ?prev ?next (nat (fst (number_of_months opt))) 0 dy dm ?i"
  obtain ts j where r: "?rows = (ts, j)" by fastforce
  have "generate_html w opt i = Some (Inr (\<lparr>h_tables = ts, h_panel = p\<rparr>, j\<lparr>i_key_event := False\<rparr>))"
    using s c p r by (simp add: generate_html_def draw_from_def Let_def)
  moreover have "html_ok w opt \<lparr>h_tables = ts, h_panel = p\<rparr>"
    using draw_month_rows_ok [OF assms(1-3), of _ ?prev ?next "nat (fst (number_of_months opt))" 0 dy dm ?i] r
    by (simp add: html_ok_def)
  moreover have "clipped i j"
    using draw_month_rows_clipped [OF assms(1), of ?i opt ?prev ?next "nat (fst (number_of_months opt))" 0 dy dm] assms(5,6) r
    by simp
  then have "clipped i (j\<lparr>i_key_event := False\<rparr>)" by simp
  ultimately show ?thesis by blast
qed

section \<open>Properties\<close>

text \<open>C15. The table of a month shows consecutive days in whole weeks: the weeks start on the configured day,
  the first of the month is in the first week and the last day in the last, so every day of the month is
  shown exactly once; provided the first midnight of the month exists.\<close>

theorem month_table_shows_month:
  assumes "sane_clock (w_midnight w)" and "0 \<le> v_first_day (o_view opt)" and "v_first_day (o_view opt) < 7"
    and "100 \<le> dy" and "0 \<le> dm" and "dm < 12" and "\<not> multi_month opt"
    and "w_midnight w (make_day dy dm 1) = \<lparr>jd_day = make_day dy dm 1, jd_hour = h\<rparr>"
  shows "\<exists>p n. concat (map (\<lambda>r. map c_date (r_cells r)) (t_rows (fst (draw_month w opt prev next row col dy dm mr i)))) =
      map (\<lambda>j. midnight_of w (p + int j)) [0..<7 * n] \<and>
    week_day p = v_first_day (o_view opt) \<and> p \<le> make_day dy dm 1 \<and> make_day dy dm 1 < p + 7 \<and>
    make_day dy dm (month_length dy dm) < p + 7 * int n \<and> p + 7 * int n \<le> make_day dy dm (month_length dy dm) + 7"
proof -
  have y: "full_year dy = dy" using assms(4) by (simp add: full_year_def)
  have dim: "get_days_in_month (w_midnight w) dy dm = month_length dy dm"
    using assms(1,5,6) days_in_month_eq [of "w_midnight w" dy dm] y by (simp add: sane_clock_def)
  let ?lead = "lead_days w opt dy dm"
  note lead = lead_days_eq [OF assms(1-3), of dy dm h, unfolded y, OF assms(8)]
  let ?p = "make_day dy dm 1 - ?lead" and ?n = "nat (row_count w opt dy dm)"
  have rc: "?lead + month_length dy dm \<le> 7 * row_count w opt dy dm"
    "7 * row_count w opt dy dm < ?lead + month_length dy dm + 7"
    using row_count_bounds [of "?lead + month_length dy dm"] unfolding row_count_def dim by simp_all
  then have n: "int ?n = row_count w opt dy dm" using lead(2) month_length_bounds(1) [of dy dm] by simp
  have "midnight_date w dy dm (1 - ?lead) = midnight_of w ?p"
  proof -
    have "make_day dy dm (1 - ?lead) = ?p" by (simp add: make_day_def)
    then show ?thesis by (simp add: midnight_date_eq y)
  qed
  then have "\<exists>i' sel. t_rows (fst (draw_month w opt prev next row col dy dm mr i)) = draw_rows w opt i' dm sel ?n (midnight_of w ?p)"
    using assms(7) by (auto simp: draw_month_def Let_def split: prod.splits)
  then have "concat (map (\<lambda>r. map c_date (r_cells r)) (t_rows (fst (draw_month w opt prev next row col dy dm mr i)))) =
      map (\<lambda>j. midnight_of w (?p + int j)) [0..<7 * ?n]"
    using draw_rows_dates [OF assms(1)] by metis
  moreover have "make_day dy dm (month_length dy dm) = make_day dy dm 1 + month_length dy dm - 1" by (simp add: make_day_def)
  ultimately show ?thesis using lead rc n by (intro exI [of _ ?p] exI [of _ ?n]) simp
qed

theorem month_table_shows_month_witness:
  "\<exists>p n. concat (map (\<lambda>r. map c_date (r_cells r))
        (t_rows (fst (draw_month example_now default_options Nav_Hidden Nav_Hidden 0 0 2015 1 4 (new_inst False []))))) =
      map (\<lambda>j. midnight_of example_now (p + int j)) [0..<7 * n] \<and>
    week_day p = 0 \<and> p \<le> make_day 2015 1 1 \<and> make_day 2015 1 1 < p + 7 \<and>
    make_day 2015 1 28 < p + 7 * int n \<and> p + 7 * int n \<le> make_day 2015 1 28 + 7"
proof -
  have c: "sane_clock (w_midnight example_now)" by (simp add: example_clock_sane)
  have v: "v_first_day (o_view default_options) = 0" by (simp add: default_options_def default_view_def)
  have m: "\<not> multi_month default_options" by (simp add: multi_month_def number_of_months_def default_options_def)
  have d: "w_midnight example_now (make_day 2015 1 1) = \<lparr>jd_day = make_day 2015 1 1, jd_hour = 0\<rparr>" by code_simp
  have "month_length 2015 1 = 28" by code_simp
  with month_table_shows_month [OF c _ _ _ _ _ m d, of Nav_Hidden Nav_Hidden 0 0 4 "new_inst False []"] v
  show ?thesis by simp
qed

end
