(* ===== verification/Datepicker_Events.thy ===== *)
theory Datepicker_Events
  imports Datepicker_Grid
begin

text \<open>
  What a user does to a date picker of the deployed bundle: the links and selections of the drawn picker, the
  keys, typing into the field, opening and closing. A picker is its instance, the markup last drawn (a
  click lands in it) and whether it is open. A handler may throw, or not end in the loop that looks
  for the first month; the result says so. The lemmas show that no sequence of events throws or hangs, and
  that the selection stays a genuine date within the limits.
\<close>

section \<open>Pickers and results\<close>

record picker =
  p_inst :: dp_inst
  p_html :: "dp_html option"
  p_showing :: bool
  p_last_input :: bool

type_synonym outcome = "(js_error + picker) option"

definition and_then :: "outcome \<Rightarrow> (picker \<Rightarrow> outcome) \<Rightarrow> outcome" where
  "and_then r f = (case r of Some (Inr p) \<Rightarrow> f p | _ \<Rightarrow> r)"

definition done_with :: "picker \<Rightarrow> outcome" where
  "done_with p = Some (Inr p)"

definition on_inst :: "(dp_inst \<Rightarrow> dp_inst) \<Rightarrow> picker \<Rightarrow> picker" where
  "on_inst f p = p\<lparr>p_inst := f (p_inst p)\<rparr>"

section \<open>Operations of the picker\<close>

definition update_picker :: "dp_world \<Rightarrow> dp_options \<Rightarrow> picker \<Rightarrow> outcome" where
  "update_picker w opt p =
     map_option (map_result (\<lambda>(h, i). p\<lparr>p_inst := i, p_html := Some h\<rparr>)) (generate_html w opt (p_inst p))"

definition adjust_date :: "dp_world \<Rightarrow> dp_options \<Rightarrow> int \<Rightarrow> period \<Rightarrow> picker \<Rightarrow> outcome" where
  "adjust_date w opt offset per p =
     (if i_disabled (p_inst p) then done_with p
      else update_picker w opt
        (on_inst (adjust_inst_date w opt (offset + (if per = Period_Month then o_show_current_at opt else 0)) per) p))"

definition hide_picker :: "picker \<Rightarrow> picker" where
  "hide_picker p =
     (if p_showing p
      then (on_inst (\<lambda>i. i\<lparr>i_log := i_log i @ [Hide_Picker]\<rparr>) p)\<lparr>p_showing := False, p_last_input := False\<rparr>
      else p)"

definition goto_today :: "dp_world \<Rightarrow> dp_options \<Rightarrow> picker \<Rightarrow> outcome" where
  "goto_today w opt p =
     (let i = p_inst p;
          i' = (if o_goto_current opt \<and> i_cur_day i \<noteq> 0
                then i\<lparr>i_sel_day := i_cur_day i, i_draw_month := i_cur_month i, i_sel_month := i_cur_month i,
                       i_draw_year := i_cur_year i, i_sel_year := i_cur_year i\<rparr>
                else select_fields (w_now w) i)
      in adjust_date w opt 0 Period_None (p\<lparr>p_inst := notify_change i'\<rparr>))"

definition select_month_year :: "dp_world \<Rightarrow> dp_options \<Rightarrow> period \<Rightarrow> int \<Rightarrow> picker \<Rightarrow> outcome" where
  "select_month_year w opt per v p =
     (let i = p_inst p;
          i' = (if per = Period_Month then i\<lparr>i_sel_month := v, i_draw_month := v\<rparr>
                else i\<lparr>i_sel_year := v, i_draw_year := v\<rparr>)
      in adjust_date w opt 0 Period_None (p\<lparr>p_inst := notify_change i'\<rparr>))"

definition select_date :: "dp_world \<Rightarrow> dp_options \<Rightarrow> string \<Rightarrow> picker \<Rightarrow> outcome" where
  "select_date w opt s p =
     (let i1 = update_alternate w opt ((p_inst p)\<lparr>i_input := s\<rparr>);
          i2 = i1\<lparr>i_log := i_log i1 @ [if o_on_select opt then On_Select s else Input_Change]\<rparr>;
          p' = p\<lparr>p_inst := i2\<rparr>
      in if i_inline i2 then update_picker w opt p'
         else done_with ((hide_picker p')\<lparr>p_last_input := False\<rparr>))"

definition clear_date :: "dp_world \<Rightarrow> dp_options \<Rightarrow> picker \<Rightarrow> outcome" where
  "clear_date w opt p = select_date w opt [] p"

text \<open>
  A day is read from the text of the link in the cell. A cell that is selectable but blank (days of other
  months selectable, but not shown) has no link: the day is \<open>undefined\<close> there, which the model answers with
  an error although the code goes on with an invalid date.
\<close>

definition select_day :: "dp_world \<Rightarrow> dp_options \<Rightarrow> int \<Rightarrow> int \<Rightarrow> day_cell \<Rightarrow> picker \<Rightarrow> outcome" where
  "select_day w opt month year cell p =
     (if ''ui-datepicker-unselectable'' \<in> set (c_classes cell) \<or> i_disabled (p_inst p) then done_with p
      else case c_body cell of
        Link_Body cl day \<Rightarrow>
          let i = (p_inst p)\<lparr>i_sel_day := day, i_cur_day := day, i_sel_month := month, i_cur_month := month,
                             i_sel_year := year, i_cur_year := year\<rparr>
          in select_date w opt (format_current w opt i) (p\<lparr>p_inst := i\<rparr>)
      | _ \<Rightarrow> Some (Inl Type_Error))"

definition show_picker :: "dp_world \<Rightarrow> dp_options \<Rightarrow> picker \<Rightarrow> outcome" where
  "show_picker w opt p =
     (if i_disabled (p_inst p) \<or> p_last_input p then done_with p
      else
        and_then
          (update_picker w opt
            (on_inst (\<lambda>i. set_date_from_field w opt False (i\<lparr>i_last_val := None\<rparr>)) (p\<lparr>p_last_input := True\<rparr>)))
          (\<lambda>p'. done_with ((on_inst (\<lambda>i. i\<lparr>i_log := i_log i @ [Show_Picker]\<rparr>) p')\<lparr>p_showing := True\<rparr>)))"

text \<open>The date picker that stays in the page shows its default date from the start.\<close>

definition inline_picker :: "dp_world \<Rightarrow> dp_options \<Rightarrow> picker \<Rightarrow> outcome" where
  "inline_picker w opt p =
     and_then
       (update_picker w opt (on_inst (\<lambda>i. set_date w opt (Date_Value (default_date w opt i)) True i) p))
       (\<lambda>p'. done_with (on_inst (update_alternate w opt) p'))"

definition set_date_picker :: "dp_world \<Rightarrow> dp_options \<Rightarrow> date_spec \<Rightarrow> picker \<Rightarrow> outcome" where
  "set_date_picker w opt spec p =
     and_then (update_picker w opt (on_inst (set_date w opt spec False) p))
       (\<lambda>p'. done_with (on_inst (update_alternate w opt) p'))"

section \<open>Keys\<close>

record key_event =
  k_code :: nat
  k_ctrl :: bool
  k_meta :: bool
  k_alt :: bool

text \<open>The highlighted cell that is not the current one: the first in the markup.\<close>

definition over_cell :: "picker \<Rightarrow> day_cell option" where
  "over_cell p =
     (case p_html p of
        None \<Rightarrow> None
      | Some h \<Rightarrow> find (\<lambda>c. ''ui-datepicker-days-cell-over'' \<in> set (c_classes c) \<and>
            ''ui-datepicker-current-day'' \<notin> set (c_classes c))
          (concat (map (\<lambda>t. concat (map r_cells (t_rows t))) (h_tables h))))"

definition enter_key :: "dp_world \<Rightarrow> dp_options \<Rightarrow> picker \<Rightarrow> outcome" where
  "enter_key w opt p =
     and_then
       (case over_cell p of
          Some c \<Rightarrow> select_day w opt (i_sel_month (p_inst p)) (i_sel_year (p_inst p)) c p
        | None \<Rightarrow> done_with p)
       (\<lambda>p'. if o_on_select opt
             then let i = make_current (p_inst p');
                      s = format_current w opt i
                  in done_with (p'\<lparr>p_inst := i\<lparr>i_log := i_log i @ [On_Select s]\<rparr>\<rparr>)
             else done_with (hide_picker p'))"

definition month_step :: "dp_options \<Rightarrow> key_event \<Rightarrow> int" where
  "month_step opt k = (if k_ctrl k then o_step_big_months opt else o_step_months opt)"

definition ctrl_key :: "key_event \<Rightarrow> bool" where
  "ctrl_key k \<longleftrightarrow> k_ctrl k \<or> k_meta k"

definition arrow_key :: "dp_world \<Rightarrow> dp_options \<Rightarrow> key_event \<Rightarrow> int \<Rightarrow> int \<Rightarrow> picker \<Rightarrow> outcome" where
  "arrow_key w opt k days months p =
     and_then (if ctrl_key k then adjust_date w opt days Period_Day p else done_with p)
       (\<lambda>p'. if k_alt k then adjust_date w opt months Period_Month p' else done_with p')"

text \<open>The state after a key, and whether the event counts as handled (it is stopped then).\<close>

definition do_key_down :: "dp_world \<Rightarrow> dp_options \<Rightarrow> key_event \<Rightarrow> picker \<Rightarrow> outcome \<times> bool" where
  "do_key_down w opt k q =
     (let p = on_inst (\<lambda>i. i\<lparr>i_key_event := True\<rparr>) q; c = k_code k in
        if p_showing p then
          if c = 9 then (done_with (hide_picker p), False)
          else if c = 13 then (enter_key w opt p, True)
          else if c = 27 then (done_with (hide_picker p), True)
          else if c = 33 then (adjust_date w opt (- month_step opt k) Period_Month p, True)
          else if c = 34 then (adjust_date w opt (month_step opt k) Period_Month p, True)
          else if c = 35 then (if ctrl_key k then clear_date w opt p else done_with p, ctrl_key k)
          else if c = 36 then (if ctrl_key k then goto_today w opt p else done_with p, ctrl_key k)
          else if c = 37 then
            (arrow_key w opt k (if o_rtl opt then 1 else - 1) (- month_step opt k) p, ctrl_key k)
          else if c = 38 then (if ctrl_key k then adjust_date w opt (- 7) Period_Day p else done_with p, ctrl_key k)
          else if c = 39 then
            (arrow_key w opt k (if o_rtl opt then - 1 else 1) (month_step opt k) p, ctrl_key k)
          else if c = 40 then (if ctrl_key k then adjust_date w opt 7 Period_Day p else done_with p, ctrl_key k)
          else (done_with p, False)
        else if c = 36 \<and> k_ctrl k then (show_picker w opt p, True)
        else (done_with p, False))"

text \<open>Whether a typed character is let through.\<close>

definition do_key_press :: "dp_options \<Rightarrow> key_event \<Rightarrow> char \<Rightarrow> bool" where
  "do_key_press opt k chr \<longleftrightarrow>
     (o_constrain opt \<longrightarrow>
        ctrl_key k \<or> (of_char chr :: nat) < 32 \<or>
        (case possible_chars False (o_format opt) of None \<Rightarrow> True | Some cs \<Rightarrow> cs = [] \<or> chr \<in> set cs))"

definition do_key_up :: "dp_world \<Rightarrow> dp_options \<Rightarrow> picker \<Rightarrow> outcome" where
  "do_key_up w opt p =
     (let i = p_inst p in
        if i_last_val i = Some (i_input i) then done_with p
        else case parse_date (date_world.truncate w) (get_format_config w opt) (Some (o_format opt)) (Some (i_input i)) of
          Inr (Some d) \<Rightarrow>
            update_picker w opt (on_inst (\<lambda>i. update_alternate w opt (set_date_from_field w opt False i)) p)
        | _ \<Rightarrow> done_with p)"

section \<open>Events\<close>

text \<open>
  The handlers of \<open>_attachHandlers\<close> by the element clicked, the keys, and a change of the field's text. A
  click on a cell names the cell by its position in the markup.
\<close>

datatype dp_event =
    Click_Prev
  | Click_Next
  | Click_Close
  | Click_Today
  | Click_Cell nat nat nat
  | Change_Month int
  | Change_Year int
  | Key_Down key_event
  | Key_Up
  | Type_Text string
  | Open_Picker
  | Set_Date date_spec

definition cell_at :: "picker \<Rightarrow> nat \<Rightarrow> nat \<Rightarrow> nat \<Rightarrow> day_cell option" where
  "cell_at p t r c =
     (case p_html p of
        None \<Rightarrow> None
      | Some h \<Rightarrow>
          if t < length (h_tables h) \<and> r < length (t_rows (h_tables h ! t)) \<and>
             c < length (r_cells (t_rows (h_tables h ! t) ! r))
          then Some (r_cells (t_rows (h_tables h ! t) ! r) ! c) else None)"

fun dp_step :: "dp_world \<Rightarrow> dp_options \<Rightarrow> dp_event \<Rightarrow> picker \<Rightarrow> outcome" where
  "dp_step w opt Click_Prev p = adjust_date w opt (- o_step_months opt) Period_Month p"
| "dp_step w opt Click_Next p = adjust_date w opt (o_step_months opt) Period_Month p"
| "dp_step w opt Click_Close p = done_with (hide_picker p)"
| "dp_step w opt Click_Today p = goto_today w opt p"
| "dp_step w opt (Click_Cell t r c) p =
     (case cell_at p t r c of
        None \<Rightarrow> done_with p
      | Some cell \<Rightarrow> (case c_target cell of
          None \<Rightarrow> done_with p
        | Some (m, y) \<Rightarrow> select_day w opt m y cell p))"
| "dp_step w opt (Change_Month m) p = select_month_year w opt Period_Month m p"
| "dp_step w opt (Change_Year y) p = select_month_year w opt Period_Year y p"
| "dp_step w opt (Key_Down k) p = fst (do_key_down w opt k p)"
| "dp_step w opt Key_Up p = do_key_up w opt p"
| "dp_step w opt (Type_Text s) p = done_with (on_inst (\<lambda>i. i\<lparr>i_input := s\<rparr>) p)"
| "dp_step w opt Open_Picker p = show_picker w opt p"
| "dp_step w opt (Set_Date spec) p = set_date_picker w opt spec p"

primrec dp_run :: "dp_world \<Rightarrow> dp_options \<Rightarrow> dp_event list \<Rightarrow> picker \<Rightarrow> outcome" where
  "dp_run w opt [] p = done_with p"
| "dp_run w opt (e # es) p = and_then (dp_step w opt e p) (dp_run w opt es)"

section \<open>Nothing throws, nothing hangs, the selection stays allowed\<close>

text \<open>What the options and the clock must satisfy; the lower limit does not lie before the year 100.\<close>

definition modern_limit :: "dp_world \<Rightarrow> dp_options \<Rightarrow> bool" where
  "modern_limit w opt \<longleftrightarrow> (case limit_day w opt (o_min opt) of Some l \<Rightarrow> day_from_year 100 \<le> l | None \<Rightarrow> True)"

definition usable_options :: "dp_world \<Rightarrow> dp_options \<Rightarrow> bool" where
  "usable_options w opt \<longleftrightarrow>
     sane_clock (w_midnight w) \<and> absolute_limits opt \<and> limits_fit w opt \<and> modern_limit w opt \<and>
     shows_selectable opt \<and> year_range_ok opt"

lemma usableD:
  assumes "usable_options w opt"
  shows "sane_clock (w_midnight w)" "absolute_limits opt" "limits_fit w opt" "modern_limit w opt" "shows_selectable opt"
    "year_range_ok opt"
  using assms by (simp_all add: usable_options_def)

definition picker_ok :: "dp_world \<Rightarrow> dp_options \<Rightarrow> picker \<Rightarrow> bool" where
  "picker_ok w opt p \<longleftrightarrow> selection_ok w opt (p_inst p) \<and> \<not> i_disabled (p_inst p) \<and>
     (case p_html p of Some h \<Rightarrow> html_ok w opt h | None \<Rightarrow> True)"

definition ends_ok :: "dp_world \<Rightarrow> dp_options \<Rightarrow> outcome \<Rightarrow> bool" where
  "ends_ok w opt r \<longleftrightarrow> (case r of Some (Inr p) \<Rightarrow> picker_ok w opt p | _ \<Rightarrow> False)"

lemma ends_ok_done [simp]: "ends_ok w opt (done_with p) \<longleftrightarrow> picker_ok w opt p"
  by (simp add: ends_ok_def done_with_def)

lemma ends_ok_then: "ends_ok w opt r \<Longrightarrow> (\<And>p. picker_ok w opt p \<Longrightarrow> ends_ok w opt (f p)) \<Longrightarrow> ends_ok w opt (and_then r f)"
proof (cases r)
  case (Some x)
  assume "ends_ok w opt r" and f: "\<And>p. picker_ok w opt p \<Longrightarrow> ends_ok w opt (f p)"
  with Some show ?thesis by (cases x) (simp_all add: ends_ok_def [of w opt "Some _"] and_then_def)
qed (simp add: ends_ok_def)

text \<open>Changes that do not touch the selection.\<close>

lemma picker_ok_cong:
  "i_sel_day i = i_sel_day (p_inst p) \<Longrightarrow> i_sel_month i = i_sel_month (p_inst p) \<Longrightarrow> i_sel_year i = i_sel_year (p_inst p) \<Longrightarrow>
    i_disabled i = i_disabled (p_inst p) \<Longrightarrow> picker_ok w opt (p\<lparr>p_inst := i\<rparr>) = picker_ok w opt p"
  using selection_ok_cong [of i "p_inst p"] by (simp add: picker_ok_def)

lemma picker_ok_flags [simp]:
  "picker_ok w opt (p\<lparr>p_showing := b\<rparr>) = picker_ok w opt p" "picker_ok w opt (p\<lparr>p_last_input := b\<rparr>) = picker_ok w opt p"
  by (simp_all add: picker_ok_def)

lemma hide_picker_ok [simp]: "picker_ok w opt (hide_picker p) = picker_ok w opt p"
  using picker_ok_cong [of "(p_inst p)\<lparr>i_log := i_log (p_inst p) @ [Hide_Picker]\<rparr>" p] by (simp add: hide_picker_def on_inst_def)

lemma update_alternate_frame [dp_frame]:
  "i_sel_day (update_alternate w opt i) = i_sel_day i" "i_sel_month (update_alternate w opt i) = i_sel_month i"
  "i_sel_year (update_alternate w opt i) = i_sel_year i" "i_disabled (update_alternate w opt i) = i_disabled i"
  "i_inline (update_alternate w opt i) = i_inline i"
  by (simp_all add: update_alternate_def)

lemma disabled_frame [dp_frame]:
  "i_disabled (notify_change i) = i_disabled i" "i_disabled (make_current i) = i_disabled i"
  "i_disabled (select_fields d i) = i_disabled i" "i_disabled (adjust_inst_date w opt k per i) = i_disabled i"
  "i_disabled (set_date_selected w opt spec nc i) = i_disabled i"
  by (simp_all add: notify_change_def make_current_def select_fields_def adjust_inst_date_def set_date_selected_def Let_def)

lemma set_date_disabled [dp_frame]: "i_disabled (set_date w opt spec nc i) = i_disabled i"
  by (simp add: set_date_def Let_def dp_frame)

lemma set_from_field_disabled [dp_frame]: "i_disabled (set_date_from_field w opt nd i) = i_disabled i"
  by (cases "field_date w opt i nd (i_input i)") (simp add: set_date_from_field_def Let_def dp_frame)

lemma clipped_ok:
  assumes "modern_limit w opt" and "clipped i j" and "selection_ok w opt i"
  shows "selection_ok w opt j"
proof (cases "i_sel_day j = i_sel_day i")
  case True
  then have "selection_ok w opt j = selection_ok w opt i" using assms(2) by (intro selection_ok_cong) (simp_all add: clipped_def)
  with assms(3) show ?thesis by simp
next
  case False
  let ?y = "i_sel_year i" and ?m = "i_sel_month i"
  from False assms(2) have j: "i_sel_day j < i_sel_day i" "28 \<le> i_sel_day j" "i_sel_day j = month_length (full_year ?y) ?m"
    "i_sel_month j = ?m" "i_sel_year j = ?y" by (auto simp: clipped_def)
  from assms(3) have v: "valid_date ?y ?m (i_sel_day i)" and a: "day_allowed w opt (selected_day i)"
    by (simp_all add: selection_ok_def)
  have "full_year ?y \<noteq> ?y" using j v by (auto simp: valid_date_def)
  then have "?y < 100" by (auto simp: full_year_def split: if_splits)
  then have "selected_day i < day_from_year 100"
    using of_make_day(1) [OF v] year_from_day_iff [of "selected_day i" ?y] day_from_year_mono [of "?y + 1" 100]
    by (simp add: selected_day_def)
  with a assms(1) have "limit_day w opt (o_min opt) = None"
    by (auto simp: day_allowed_def in_bounds_def modern_limit_def split: option.splits)
  moreover have "selected_day j \<le> selected_day i" using j by (simp add: selected_day_def make_day_def)
  ultimately have "day_allowed w opt (selected_day j)" using a by (auto simp: day_allowed_def in_bounds_def split: option.splits)
  moreover have "valid_date (i_sel_year j) (i_sel_month j) (i_sel_day j)" using v j by (simp add: valid_date_def)
  ultimately show ?thesis by (simp add: selection_ok_def)
qed

lemma update_picker_ok:
  assumes "usable_options w opt" and "selection_ok w opt (p_inst p)" and "\<not> i_disabled (p_inst p)"
  shows "ends_ok w opt (update_picker w opt p)"
proof -
  note u = usableD [OF assms(1)]
  have "0 \<le> i_sel_month (p_inst p)" "i_sel_month (p_inst p) < 12"
    using assms(2) by (simp_all add: selection_ok_def valid_date_def)
  from generate_html_ok [OF u(1,2,5,6) this] obtain h j where
    g: "generate_html w opt (p_inst p) = Some (Inr (h, j))" "html_ok w opt h" "clipped (p_inst p) j" by blast
  moreover have "selection_ok w opt j" by (rule clipped_ok [OF u(4) g(3) assms(2)])
  moreover have "\<not> i_disabled j" using g(3) assms(3) by (simp add: clipped_def)
  ultimately show ?thesis by (simp add: update_picker_def ends_ok_def picker_ok_def map_result_def)
qed

lemma adjust_date_ok:
  assumes "usable_options w opt" and "\<not> i_disabled (p_inst p)"
  shows "ends_ok w opt (adjust_date w opt k per p)"
proof -
  note u = usableD [OF assms(1)]
  show ?thesis
    using assms(2) update_picker_ok [OF assms(1)] adjust_inst_date_ok [OF u(1-3)]
    by (simp add: adjust_date_def on_inst_def dp_frame)
qed

lemma goto_today_ok: "usable_options w opt \<Longrightarrow> \<not> i_disabled (p_inst p) \<Longrightarrow> ends_ok w opt (goto_today w opt p)"
  by (auto simp: goto_today_def Let_def dp_frame intro!: adjust_date_ok)

lemma select_month_year_ok:
  "usable_options w opt \<Longrightarrow> \<not> i_disabled (p_inst p) \<Longrightarrow> ends_ok w opt (select_month_year w opt per v p)"
  by (auto simp: select_month_year_def Let_def dp_frame intro!: adjust_date_ok)

lemma select_date_ok:
  assumes "usable_options w opt" and "picker_ok w opt p"
  shows "ends_ok w opt (select_date w opt s p)"
proof -
  define i2 where "i2 = (let i1 = update_alternate w opt ((p_inst p)\<lparr>i_input := s\<rparr>) in
    i1\<lparr>i_log := i_log i1 @ [if o_on_select opt then On_Select s else Input_Change]\<rparr>)"
  have "picker_ok w opt (p\<lparr>p_inst := i2\<rparr>) = picker_ok w opt p"
    by (rule picker_ok_cong) (simp_all add: i2_def Let_def dp_frame)
  with assms(2) have ok: "picker_ok w opt (p\<lparr>p_inst := i2\<rparr>)" by simp
  then have "ends_ok w opt (update_picker w opt (p\<lparr>p_inst := i2\<rparr>))"
    using update_picker_ok [OF assms(1)] by (simp add: picker_ok_def)
  with ok show ?thesis by (simp add: select_date_def Let_def i2_def)
qed

lemma select_day_ok:
  assumes "usable_options w opt" and "picker_ok w opt p" and "cell_ok w opt cell" and "c_target cell = Some (m, y)"
  shows "ends_ok w opt (select_day w opt m y cell p)"
proof (cases "''ui-datepicker-unselectable'' \<in> set (c_classes cell)")
  case False
  from assms(3,4) obtain cl where c: "m = get_month (c_date cell)" "y = get_full_year (c_date cell)"
    "day_allowed w opt (jd_day (c_date cell))" "c_body cell = Link_Body cl (get_date (c_date cell))"
    by (auto simp: cell_ok_def split: cell_body.splits)
  define i where "i = (p_inst p)\<lparr>i_sel_day := get_date (c_date cell), i_cur_day := get_date (c_date cell),
    i_sel_month := m, i_cur_month := m, i_sel_year := y, i_cur_year := y\<rparr>"
  have "selected_day i = jd_day (c_date cell)" "valid_date (i_sel_year i) (i_sel_month i) (i_sel_day i)"
    using make_of_day by (simp_all add: selected_day_def i_def c(1,2) get_month_def get_full_year_def get_date_def)
  with c(3) have "selection_ok w opt i" by (simp add: selection_ok_def)
  then have "picker_ok w opt (p\<lparr>p_inst := i\<rparr>)" using assms(2) by (simp add: picker_ok_def i_def)
  with select_date_ok [OF assms(1)] False c(4) assms(2) show ?thesis
    by (simp add: select_day_def Let_def i_def picker_ok_def)
qed (use assms(2) in \<open>simp add: select_day_def\<close>)

lemma show_picker_ok:
  assumes "usable_options w opt" and "\<not> i_disabled (p_inst p)" and "p_last_input p \<Longrightarrow> picker_ok w opt p"
  shows "ends_ok w opt (show_picker w opt p)"
proof (cases "p_last_input p")
  case False
  note u = usableD [OF assms(1)]
  let ?p = "on_inst (\<lambda>i. set_date_from_field w opt False (i\<lparr>i_last_val := None\<rparr>)) (p\<lparr>p_last_input := True\<rparr>)"
  have "ends_ok w opt (update_picker w opt ?p)"
    using assms(2) set_date_from_field_ok [OF u(1-3), of "(p_inst p)\<lparr>i_last_val := None\<rparr>" False]
    by (intro update_picker_ok [OF assms(1)]) (simp_all add: on_inst_def dp_frame)
  moreover have "picker_ok w opt (on_inst (\<lambda>i. i\<lparr>i_log := i_log i @ [Show_Picker]\<rparr>) p') = picker_ok w opt p'" for p'
    unfolding on_inst_def by (rule picker_ok_cong) simp_all
  ultimately show ?thesis using False assms(2) by (auto simp: show_picker_def intro: ends_ok_then)
qed (use assms(3) in \<open>simp add: show_picker_def\<close>)

lemma set_date_picker_ok:
  assumes "usable_options w opt" and "\<not> i_disabled (p_inst p)"
  shows "ends_ok w opt (set_date_picker w opt spec p)"
proof -
  note u = usableD [OF assms(1)]
  have "ends_ok w opt (update_picker w opt (on_inst (set_date w opt spec False) p))"
    using assms set_date_ok [OF u(1-3)] by (intro update_picker_ok) (simp_all add: on_inst_def dp_frame)
  moreover have "picker_ok w opt (on_inst (update_alternate w opt) p') = picker_ok w opt p'" for p'
    unfolding on_inst_def by (rule picker_ok_cong) (simp_all add: dp_frame)
  ultimately show ?thesis by (auto simp: set_date_picker_def intro: ends_ok_then)
qed

lemma do_key_up_ok:
  assumes "usable_options w opt" and "picker_ok w opt p"
  shows "ends_ok w opt (do_key_up w opt p)"
proof -
  note u = usableD [OF assms(1)]
  have i: "selection_ok w opt (p_inst p)" "\<not> i_disabled (p_inst p)" using assms(2) by (simp_all add: picker_ok_def)
  let ?f = "\<lambda>i. update_alternate w opt (set_date_from_field w opt False i)"
  have "selection_ok w opt (?f (p_inst p)) = selection_ok w opt (set_date_from_field w opt False (p_inst p))"
    by (rule selection_ok_cong) (simp_all add: dp_frame)
  then have "ends_ok w opt (update_picker w opt (on_inst ?f p))"
    using i set_date_from_field_ok [OF u(1-3), of "p_inst p" False]
    by (intro update_picker_ok [OF assms(1)]) (simp_all add: on_inst_def dp_frame)
  with assms(2) show ?thesis by (simp add: do_key_up_def Let_def split: sum.splits option.splits)
qed

text \<open>The Enter key takes the day of the highlighted cell, but the month of the selection, so it is left out.\<close>

fun not_enter :: "dp_event \<Rightarrow> bool" where
  "not_enter (Key_Down k) \<longleftrightarrow> k_code k \<noteq> 13"
| "not_enter _ \<longleftrightarrow> True"

lemma do_key_down_ok:
  assumes "usable_options w opt" and "picker_ok w opt q" and "k_code k \<noteq> 13"
  shows "ends_ok w opt (fst (do_key_down w opt k q))"
proof -
  define p where "p = on_inst (\<lambda>i. i\<lparr>i_key_event := True\<rparr>) q"
  have "picker_ok w opt p = picker_ok w opt q" unfolding p_def on_inst_def by (rule picker_ok_cong) simp_all
  with assms(2) have p: "picker_ok w opt p" by simp
  then have d: "\<not> i_disabled (p_inst p)" by (simp add: picker_ok_def)
  have adj: "ends_ok w opt (adjust_date w opt m per p')" if "picker_ok w opt p'" for m per p'
    using that adjust_date_ok [OF assms(1)] by (simp add: picker_ok_def)
  have arrow: "ends_ok w opt (arrow_key w opt k m n p)" for m n
    unfolding arrow_key_def using p adj by (intro ends_ok_then) simp_all
  note steps = adj [OF p] arrow goto_today_ok [OF assms(1) d] show_picker_ok [OF assms(1) d, OF p]
    select_date_ok [OF assms(1) p]
  show ?thesis
    unfolding do_key_down_def Let_def p_def [symmetric] using assms(3) p steps by (simp add: clear_date_def)
qed

lemma cell_at_ok: "picker_ok w opt p \<Longrightarrow> cell_at p t r c = Some cell \<Longrightarrow> cell_ok w opt cell"
  by (auto simp: picker_ok_def cell_at_def html_ok_def split: option.splits if_splits) (meson nth_mem)

lemma dp_step_ok:
  assumes "usable_options w opt" and "picker_ok w opt p" and "not_enter e"
  shows "ends_ok w opt (dp_step w opt e p)"
proof -
  have d: "\<not> i_disabled (p_inst p)" using assms(2) by (simp add: picker_ok_def)
  show ?thesis
  proof (cases e)
    case (Click_Cell t r c)
    show ?thesis
    proof (cases "cell_at p t r c")
      case (Some cell)
      note c = cell_at_ok [OF assms(2) Some]
      show ?thesis
        using assms(2) select_day_ok [OF assms(1,2) c] Click_Cell Some by (auto split: option.splits)
    qed (use Click_Cell assms(2) in simp)
  next
    case (Key_Down k)
    with assms show ?thesis using do_key_down_ok by simp
  next
    case (Type_Text s)
    have "picker_ok w opt (on_inst (\<lambda>i. i\<lparr>i_input := s\<rparr>) p) = picker_ok w opt p"
      unfolding on_inst_def by (rule picker_ok_cong) simp_all
    with Type_Text assms(2) show ?thesis by simp
  qed (use assms(1,2) d in \<open>simp_all add: adjust_date_ok goto_today_ok select_month_year_ok do_key_up_ok show_picker_ok
      set_date_picker_ok\<close>)
qed

lemma dp_run_ok:
  assumes "usable_options w opt"
  shows "picker_ok w opt p \<Longrightarrow> list_all not_enter es \<Longrightarrow> ends_ok w opt (dp_run w opt es p)"
proof (induction es arbitrary: p)
  case (Cons e es)
  then show ?case using dp_step_ok [OF assms] by (auto intro: ends_ok_then)
qed simp

section \<open>Properties\<close>

text \<open>C14. A picker that is opened on any text and then used in any way, Enter aside, never throws and never
  hangs; its selection is at every moment a genuine date within the limits, and only dates within the
  limits can be clicked.\<close>

theorem picker_stays_in_limits:
  assumes "usable_options w opt" and "list_all not_enter es"
  shows "\<exists>p. dp_run w opt (Open_Picker # es)
      \<lparr>p_inst = new_inst False text, p_html = None, p_showing = False, p_last_input = False\<rparr> = Some (Inr p) \<and>
    selection_ok w opt (p_inst p) \<and> (\<forall>h. p_html p = Some h \<longrightarrow> html_ok w opt h)"
proof -
  let ?p = "\<lparr>p_inst = new_inst False text, p_html = None, p_showing = False, p_last_input = False\<rparr>"
  have "ends_ok w opt (show_picker w opt ?p)"
    by (rule show_picker_ok [OF assms(1)]) (simp_all add: new_inst_def)
  then have "ends_ok w opt (dp_run w opt (Open_Picker # es) ?p)"
    using dp_run_ok [OF assms(1) _ assms(2)] by (auto intro: ends_ok_then)
  then show ?thesis by (auto simp: ends_ok_def picker_ok_def split: option.splits sum.splits)
qed

definition march_options :: dp_options where
  "march_options = default_options\<lparr>o_min := Date_String ''-10'', o_max := Date_Value \<lparr>jd_day = 16520, jd_hour = 9\<rparr>\<rparr>"

theorem picker_stays_in_limits_witness:
  "\<exists>p. dp_run example_now march_options [Open_Picker, Click_Prev, Click_Cell 0 3 2, Key_Up]
      \<lparr>p_inst = new_inst False ''12/25/2030'', p_html = None, p_showing = False, p_last_input = False\<rparr> = Some (Inr p) \<and>
    selection_ok example_now march_options (p_inst p) \<and>
    (\<forall>h. p_html p = Some h \<longrightarrow> html_ok example_now march_options h)"
proof -
  have "sane_clock (w_midnight example_now)" by (simp add: example_clock_sane)
  moreover have "absolute_limits march_options" by code_simp
  moreover have "limits_fit example_now march_options" by code_simp
  moreover have "modern_limit example_now march_options" by code_simp
  moreover have "shows_selectable march_options" by code_simp
  moreover have "year_range_ok march_options" by code_simp
  ultimately have "usable_options example_now march_options" by (simp add: usable_options_def)
  from picker_stays_in_limits [OF this, of "[Click_Prev, Click_Cell 0 3 2, Key_Up]" "''12/25/2030''"]
  show ?thesis by simp
qed

end
