(* ===== verification/Numbers.thy ===== *)
theory Numbers
  imports Complex_Main Prelude
begin

text \<open>
  The arithmetic of the value controls (slider, spinner, progress bar) of the deployed bundle. A JavaScript
  number that may have a fraction is a \<^typ>\<open>rat\<close>: the models compute exactly, without the rounding of
  doubles that \<open>toFixed\<close> in these widgets is there to hide. The locale \<open>bounded_control\<close> is the contract
  the widgets share with the date picker: whatever value is proposed, the one kept is within bounds;
  \<open>stable_control\<close> adds that a kept value is kept when proposed again.
\<close>

section \<open>Remainder, rounding and fixed-point notation\<close>

text \<open>\<open>x % y\<close>: the quotient is cut towards 0, so the result has the sign of \<open>x\<close>.\<close>

definition js_frem :: "rat \<Rightarrow> rat \<Rightarrow> rat" where
  "js_frem x y = (let q = x / y in x - y * of_int (if q < 0 then - \<lfloor>- q\<rfloor> else \<lfloor>q\<rfloor>))"

definition js_round :: "rat \<Rightarrow> int" where
  "js_round x = \<lfloor>x + 1 / 2\<rfloor>"

text \<open>\<open>parseFloat(x.toFixed(d))\<close>.\<close>

definition to_fixed :: "nat \<Rightarrow> rat \<Rightarrow> rat" where
  "to_fixed d x =
     (let n = \<lfloor>\<bar>x\<bar> * 10 ^ d + 1 / 2\<rfloor> in (if x < 0 then - 1 else 1) * of_int n / 10 ^ d)"

definition is_multiple :: "rat \<Rightarrow> rat \<Rightarrow> bool" where
  "is_multiple x y \<longleftrightarrow> of_int \<lfloor>x / y\<rfloor> * y = x"

lemma is_multipleI: "y \<noteq> 0 \<Longrightarrow> x = of_int k * y \<Longrightarrow> is_multiple x y"
  by (simp add: is_multiple_def)

lemma is_multipleE:
  assumes "is_multiple x y"
  obtains k where "x = of_int k * y"
  using assms by (metis is_multiple_def)

text \<open>A number with at most \<open>d\<close> decimals.\<close>

definition has_decimals :: "nat \<Rightarrow> rat \<Rightarrow> bool" where
  "has_decimals d x \<longleftrightarrow> of_int \<lfloor>x * 10 ^ d\<rfloor> = x * 10 ^ d"

lemma has_decimals_iff: "has_decimals d x \<longleftrightarrow> (\<exists>k. x * 10 ^ d = of_int k)"
proof
  assume "\<exists>k. x * 10 ^ d = of_int k"
  then obtain k where "x * 10 ^ d = of_int k" by blast
  then show "has_decimals d x" unfolding has_decimals_def by simp
qed (auto simp: has_decimals_def intro: sym)

lemma has_decimals_add: "has_decimals d x \<Longrightarrow> has_decimals d y \<Longrightarrow> has_decimals d (x + y)"
proof -
  assume "has_decimals d x" "has_decimals d y"
  then obtain k l where "x * 10 ^ d = of_int k" "y * 10 ^ d = of_int l" by (auto simp: has_decimals_iff)
  then have "(x + y) * 10 ^ d = of_int (k + l)" by (simp add: distrib_right)
  then show ?thesis unfolding has_decimals_iff by blast
qed

lemma has_decimals_mult: "has_decimals d x \<Longrightarrow> has_decimals d (of_int k * x)"
proof -
  assume "has_decimals d x"
  then obtain l where "x * 10 ^ d = of_int l" by (auto simp: has_decimals_iff)
  then have "of_int k * x * 10 ^ d = of_int (k * l)" by (simp add: mult.assoc)
  then show ?thesis unfolding has_decimals_iff by blast
qed

lemma has_decimals_uminus: "has_decimals d x \<Longrightarrow> has_decimals d (- x)"
  using has_decimals_mult [of d x "- 1"] by simp

lemma has_decimals_mono:
  assumes "has_decimals d x" and "d \<le> e"
  shows "has_decimals e x"
proof -
  from assms(1) obtain k where "x * 10 ^ d = of_int k" by (auto simp: has_decimals_iff)
  then have "x * 10 ^ e = of_int (k * 10 ^ (e - d))"
    using assms(2) by (simp add: power_add [symmetric] flip: mult.assoc)
      (metis le_add_diff_inverse mult.assoc power_add)
  then show ?thesis unfolding has_decimals_iff by blast
qed

lemma to_fixed_id:
  assumes "has_decimals d x"
  shows "to_fixed d x = x"
proof -
  have "has_decimals d \<bar>x\<bar>" using assms has_decimals_uminus by (simp add: abs_if)
  then obtain k where k: "\<bar>x\<bar> * 10 ^ d = of_int k" by (auto simp: has_decimals_iff)
  have f: "\<lfloor>of_int k + 1 / 2 :: rat\<rfloor> = k" by (simp add: floor_unique)
  have "to_fixed d x = (if x < 0 then - 1 else 1) * (of_int k / 10 ^ d)"
    by (simp add: to_fixed_def k f)
  also have "of_int k / 10 ^ d = \<bar>x\<bar>" using k by (simp add: field_simps)
  finally show ?thesis by (simp add: abs_if split: if_splits)
qed

lemma js_frem_multiple:
  assumes "y \<noteq> 0"
  shows "\<exists>k. x - js_frem x y = of_int k * y"
  by (auto simp: js_frem_def Let_def mult.commute)

lemma js_frem_bounds:
  assumes "0 < y" and "0 \<le> x"
  shows "0 \<le> js_frem x y" and "js_frem x y < y"
proof -
  have q: "\<not> x / y < 0" using assms by (simp add: not_less)
  define k where "k = \<lfloor>x / y\<rfloor>"
  have "of_int k \<le> x / y" "x / y < of_int k + 1" unfolding k_def by linarith+
  then have "of_int k * y \<le> x" "x < (of_int k + 1) * y"
    using assms(1) by (simp_all add: pos_le_divide_eq pos_divide_less_eq)
  then have "of_int \<lfloor>x / y\<rfloor> * y \<le> x" "x < of_int \<lfloor>x / y\<rfloor> * y + y"
    by (simp_all add: k_def distrib_right)
  then show "0 \<le> js_frem x y" "js_frem x y < y"
    using q by (simp_all add: js_frem_def Let_def mult.commute)
qed

lemma js_frem_zero: "y \<noteq> 0 \<Longrightarrow> js_frem (of_int k * y) y = 0"
proof -
  assume "y \<noteq> 0"
  then have "of_int k * y / y = of_int k" by simp
  then show ?thesis by (simp add: js_frem_def Let_def mult.commute)
qed

section \<open>Bounded controls\<close>

text \<open>
  A control with a configuration proposes values and keeps what \<open>settle\<close> makes of them.
\<close>

locale bounded_control =
  fixes ok :: "'c \<Rightarrow> bool" and within_bounds :: "'c \<Rightarrow> 'v \<Rightarrow> bool" and settle :: "'c \<Rightarrow> 'v \<Rightarrow> 'v"
  assumes settle_within: "ok c \<Longrightarrow> within_bounds c (settle c v)"
begin

text \<open>However the next value is proposed from the last, the control stays within its bounds.\<close>

lemma proposals_within:
  "ok c \<Longrightarrow> within_bounds c v \<Longrightarrow> within_bounds c (foldl (\<lambda>v propose. settle c (propose v)) v proposals)"
  by (induction proposals arbitrary: v) (auto intro: settle_within)

end

locale stable_control = bounded_control +
  assumes settle_keeps: "ok c \<Longrightarrow> settle c (settle c v) = settle c v"
begin

lemma settle_fixed: "ok c \<Longrightarrow> v \<in> range (settle c) \<Longrightarrow> settle c v = v"
  by (auto simp: settle_keeps)

end

text \<open>Clamping to limits in order, as the date picker does with days.\<close>

interpretation clamped: stable_control
  "\<lambda>(lo, hi). limits_ordered lo hi" "\<lambda>(lo, hi). in_bounds lo hi" "\<lambda>(lo, hi). clamp lo hi"
  by unfold_locales (auto simp: clamp_within clamp_idem)

end
