(* ===== verification/Slider.thy ===== *)
theory Slider
  imports Numbers
begin

text \<open>
  The slider of the deployed bundle (\<open>$.ui.slider\<close>): one value or a list of them, aligned to a step between
  two ends, moved with the mouse and the keys, shown by handles and a bar. What the client's \<open>start\<close> and
  \<open>slide\<close> callbacks answer is the parameter \<open>allow\<close>; every callback is logged. The layout (sizes, offsets,
  hovering) comes with the mouse events. Steps are not 0 and the element has a size. The lemmas show that
  values stay aligned and between the ends, that two handles of a range never cross, and which handle a
  press takes.
\<close>

section \<open>State\<close>

datatype slider_range = No_Range | Range_True | Range_Min | Range_Max

datatype css_len = Css_Unset | Css_NaN | Css_Percent rat

datatype slide_kind = Slide_Start | Slide_Move | Slide_Stop | Slide_Change

record slide_call =
  sc_kind :: slide_kind
  sc_index :: nat
  sc_value :: rat
  sc_values :: "rat list option"

record slider_bar =
  bar_left :: css_len
  bar_bottom :: css_len
  bar_width :: css_len
  bar_height :: css_len

record slider_handle =
  hd_left :: css_len
  hd_bottom :: css_len
  hd_active :: bool

record slider =
  sl_min :: rat
  sl_max :: rat
  sl_top :: rat
  sl_step :: rat
  sl_value :: rat
  sl_values :: "rat list option"
  sl_range :: slider_range
  sl_vertical :: bool
  sl_disabled :: bool
  sl_key_sliding :: bool
  sl_mouse_sliding :: bool
  sl_handle_index :: "nat option"
  sl_last_changed :: "nat option"
  sl_click_offset :: "(rat \<times> rat) option"
  sl_handles :: "slider_handle list"
  sl_bar :: "slider_bar option"
  sl_log :: "slide_call list"

definition num_pages :: rat where
  "num_pages = 5"

section \<open>Values\<close>

text \<open>The value closest to \<open>v\<close> that is a whole number of steps from the lower end, between the ends.\<close>

definition align_value :: "rat \<Rightarrow> rat \<Rightarrow> rat \<Rightarrow> rat \<Rightarrow> rat" where
  "align_value lo up stp v =
     (if v \<le> lo then lo
      else if v \<ge> up then up
      else
        let step = (if stp > 0 then stp else 1);
            vm = js_frem (v - lo) step;
            aligned = v - vm
        in to_fixed 5 (if \<bar>vm\<bar> * 2 \<ge> step then aligned + (if vm > 0 then step else - step) else aligned))"

definition trim_align_value :: "slider \<Rightarrow> rat \<Rightarrow> rat" where
  "trim_align_value s v = align_value (sl_min s) (sl_top s) (sl_step s) v"

definition calculate_new_max :: "slider \<Rightarrow> slider" where
  "calculate_new_max s = s\<lparr>sl_top := sl_max s - js_frem (sl_max s - sl_min s) (sl_step s)\<rparr>"

text \<open>\<open>this.options.values && this.options.values.length\<close>.\<close>

definition many_values :: "slider \<Rightarrow> rat list option" where
  "many_values s = (case sl_values s of Some (v # vs) \<Rightarrow> Some (v # vs) | _ \<Rightarrow> None)"

definition get_value :: "slider \<Rightarrow> rat" where
  "get_value s = trim_align_value s (sl_value s)"

definition get_values :: "slider \<Rightarrow> rat list" where
  "get_values s = (case many_values s of Some vs \<Rightarrow> map (trim_align_value s) vs | None \<Rightarrow> [])"

text \<open>\<open>values(i)\<close>: the value itself when there is no list.\<close>

definition value_at :: "slider \<Rightarrow> nat \<Rightarrow> rat" where
  "value_at s i = (case many_values s of Some vs \<Rightarrow> trim_align_value s (vs ! i) | None \<Rightarrow> get_value s)"

section \<open>Showing the values\<close>

definition percent_of :: "slider \<Rightarrow> rat \<Rightarrow> css_len" where
  "percent_of s v =
     (if sl_top s = sl_min s then Css_NaN else Css_Percent ((v - sl_min s) / (sl_top s - sl_min s) * 100))"

definition percent_minus :: "css_len \<Rightarrow> css_len \<Rightarrow> css_len" where
  "percent_minus a b = (case (a, b) of (Css_Percent x, Css_Percent y) \<Rightarrow> Css_Percent (x - y) | _ \<Rightarrow> Css_NaN)"

definition place_handle :: "slider \<Rightarrow> css_len \<Rightarrow> slider_handle \<Rightarrow> slider_handle" where
  "place_handle s p h = (if sl_vertical s then h\<lparr>hd_bottom := p\<rparr> else h\<lparr>hd_left := p\<rparr>)"

definition set_bar_start :: "slider \<Rightarrow> css_len \<Rightarrow> slider_bar \<Rightarrow> slider_bar" where
  "set_bar_start s p b = (if sl_vertical s then b\<lparr>bar_bottom := p\<rparr> else b\<lparr>bar_left := p\<rparr>)"

definition set_bar_size :: "slider \<Rightarrow> css_len \<Rightarrow> slider_bar \<Rightarrow> slider_bar" where
  "set_bar_size s p b = (if sl_vertical s then b\<lparr>bar_height := p\<rparr> else b\<lparr>bar_width := p\<rparr>)"

definition place_handles :: "slider \<Rightarrow> slider_handle list \<Rightarrow> slider_handle list" where
  "place_handles s hs = map (\<lambda>i. place_handle s (percent_of s (value_at s i)) (hs ! i)) [0..<length hs]"

text \<open>The bar between two handles: from the first, as long as the second is further.\<close>

definition stretch_bar :: "slider \<Rightarrow> slider_bar \<Rightarrow> slider_bar" where
  "stretch_bar s b =
     (let n = length (sl_handles s);
          b1 = (if 0 < n then set_bar_start s (percent_of s (value_at s 0)) b else b)
      in if 1 < n
         then set_bar_size s (percent_minus (percent_of s (value_at s 1)) (percent_of s (value_at s 0))) b1
         else b1)"

definition single_percent :: "slider \<Rightarrow> rat" where
  "single_percent s =
     (if sl_top s \<noteq> sl_min s then (get_value s - sl_min s) / (sl_top s - sl_min s) * 100 else 0)"

definition refresh_value :: "slider \<Rightarrow> slider" where
  "refresh_value s =
     (if many_values s \<noteq> None
      then s\<lparr>sl_handles := place_handles s (sl_handles s),
             sl_bar := (if sl_range s = Range_True then map_option (stretch_bar s) (sl_bar s) else sl_bar s)\<rparr>
      else
        let p = single_percent s in
          s\<lparr>sl_handles := (case sl_handles s of h # hs \<Rightarrow> place_handle s (Css_Percent p) h # hs | [] \<Rightarrow> []),
            sl_bar := (if sl_range s = Range_Min then map_option (set_bar_size s (Css_Percent p)) (sl_bar s)
                       else if sl_range s = Range_Max then map_option (set_bar_size s (Css_Percent (100 - p))) (sl_bar s)
                       else sl_bar s)\<rparr>)"

section \<open>Callbacks and setters\<close>

definition slide_call_of :: "slide_kind \<Rightarrow> nat \<Rightarrow> slider \<Rightarrow> slide_call" where
  "slide_call_of kind i s =
     \<lparr>sc_kind = kind, sc_index = i, sc_value = value_at s i,
      sc_values = (if many_values s \<noteq> None then Some (get_values s) else None)\<rparr>"

definition trigger :: "slide_call \<Rightarrow> slider \<Rightarrow> slider" where
  "trigger c s = s\<lparr>sl_log := sl_log s @ [c]\<rparr>"

definition slider_change :: "nat \<Rightarrow> slider \<Rightarrow> slider" where
  "slider_change i s =
     (if \<not> sl_key_sliding s \<and> \<not> sl_mouse_sliding s
      then trigger (slide_call_of Slide_Change i s) (s\<lparr>sl_last_changed := Some i\<rparr>)
      else s)"

definition set_value :: "rat \<Rightarrow> slider \<Rightarrow> slider" where
  "set_value v s = slider_change 0 (refresh_value (s\<lparr>sl_value := trim_align_value s v\<rparr>))"

definition set_value_at :: "nat \<Rightarrow> rat \<Rightarrow> slider \<Rightarrow> slider" where
  "set_value_at i v s =
     slider_change i (refresh_value (s\<lparr>sl_values := map_option (\<lambda>vs. vs[i := trim_align_value s v]) (sl_values s)\<rparr>))"

text \<open>\<open>values([...])\<close>: a change is reported for each value as it is set, before the handles move.\<close>

primrec set_values_from :: "nat \<Rightarrow> rat list \<Rightarrow> slider \<Rightarrow> slider" where
  "set_values_from i [] s = s"
| "set_values_from i (v # vs) s =
     set_values_from (Suc i) vs
       (slider_change i (s\<lparr>sl_values := map_option (\<lambda>xs. xs[i := trim_align_value s v]) (sl_values s)\<rparr>))"

definition set_values :: "rat list \<Rightarrow> slider \<Rightarrow> slider" where
  "set_values vs s =
     refresh_value (set_values_from 0 (take (case sl_values s of Some xs \<Rightarrow> length xs | None \<Rightarrow> 0) vs) s)"

definition slider_start :: "(slide_call \<Rightarrow> bool) \<Rightarrow> nat \<Rightarrow> slider \<Rightarrow> slider \<times> bool" where
  "slider_start allow i s = (let c = slide_call_of Slide_Start i s in (trigger c s, allow c))"

definition slider_stop :: "nat \<Rightarrow> slider \<Rightarrow> slider" where
  "slider_stop i s = trigger (slide_call_of Slide_Stop i s) s"

text \<open>In a range of two a handle stops at the other one.\<close>

definition range_pair :: "slider \<Rightarrow> bool" where
  "range_pair s \<longleftrightarrow> (case many_values s of Some vs \<Rightarrow> length vs = 2 | None \<Rightarrow> False) \<and> sl_range s = Range_True"

definition stop_at_other :: "slider \<Rightarrow> nat \<Rightarrow> rat \<Rightarrow> rat" where
  "stop_at_other s i v =
     (let other = value_at s (if i \<noteq> 0 then 0 else 1) in
        if range_pair s \<and> (i = 0 \<and> v > other \<or> i = 1 \<and> v < other)
        then other else v)"

definition slider_slide :: "(slide_call \<Rightarrow> bool) \<Rightarrow> nat \<Rightarrow> rat \<Rightarrow> slider \<Rightarrow> slider" where
  "slider_slide allow i v0 s =
     (if many_values s \<noteq> None then
        let v = stop_at_other s i v0 in
          if v \<noteq> value_at s i then
            let c = \<lparr>sc_kind = Slide_Move, sc_index = i, sc_value = v, sc_values = Some ((get_values s)[i := v])\<rparr>
            in if allow c then set_value_at i v (trigger c s) else trigger c s
          else s
      else if v0 \<noteq> get_value s then
        let c = \<lparr>sc_kind = Slide_Move, sc_index = i, sc_value = v0, sc_values = None\<rparr>
        in if allow c then set_value v0 (trigger c s) else trigger c s
      else s)"

section \<open>Mouse\<close>

record mouse_event =
  m_pos :: "rat \<times> rat"
  m_origin :: "rat \<times> rat"
  m_size :: "rat \<times> rat"
  m_grip :: "rat \<times> rat"
  m_hover :: bool

definition norm_value_from_mouse :: "slider \<Rightarrow> mouse_event \<Rightarrow> rat" where
  "norm_value_from_mouse s e =
     (let off = (case sl_click_offset s of Some p \<Rightarrow> p | None \<Rightarrow> (0, 0));
          pixel_total = (if sl_vertical s then snd (m_size e) else fst (m_size e));
          pixel_mouse = (if sl_vertical s then snd (m_pos e) - snd (m_origin e) - snd off
                         else fst (m_pos e) - fst (m_origin e) - fst off);
          p0 = pixel_mouse / pixel_total;
          p1 = (if p0 > 1 then 1 else p0);
          p2 = (if p1 < 0 then 0 else p1);
          percent = (if sl_vertical s then 1 - p2 else p2)
      in trim_align_value s (sl_min s + percent * (sl_top s - sl_min s)))"

definition closer_handle :: "slider \<Rightarrow> rat \<Rightarrow> rat \<times> nat option \<Rightarrow> nat \<Rightarrow> rat \<times> nat option" where
  "closer_handle s wanted best i =
     (let (distance, index) = best; this = \<bar>wanted - value_at s i\<bar> in
        if distance > this \<or> distance = this \<and> (sl_last_changed s = Some i \<or> value_at s i = sl_min s)
        then (this, Some i) else best)"

definition closest_handle :: "slider \<Rightarrow> rat \<Rightarrow> nat option" where
  "closest_handle s wanted =
     snd (foldl (closer_handle s wanted) (sl_top s - sl_min s + 1, None) [0..<length (sl_handles s)])"

text \<open>The new state and whether the mouse is captured; without a closest handle the code throws.\<close>

definition mouse_capture :: "(slide_call \<Rightarrow> bool) \<Rightarrow> mouse_event \<Rightarrow> slider \<Rightarrow> js_error + (slider \<times> bool)" where
  "mouse_capture allow e s =
     (if sl_disabled s then Inr (s, False)
      else
        let wanted = norm_value_from_mouse s e in
          case closest_handle s wanted of
            None \<Rightarrow> Inl Type_Error
          | Some i \<Rightarrow>
              let (s1, allowed) = slider_start allow i s in
                if \<not> allowed then Inr (s1, False)
                else
                  let s2 = s1\<lparr>sl_mouse_sliding := True, sl_handle_index := Some i,
                              sl_handles := update_nth i (\<lambda>h. h\<lparr>hd_active := True\<rparr>) (sl_handles s1),
                              sl_click_offset := Some (m_grip e)\<rparr>
                  in Inr (if m_hover e then s2 else slider_slide allow i wanted s2, True))"

definition mouse_drag :: "(slide_call \<Rightarrow> bool) \<Rightarrow> mouse_event \<Rightarrow> slider \<Rightarrow> slider" where
  "mouse_drag allow e s =
     (case sl_handle_index s of
        Some i \<Rightarrow> slider_slide allow i (norm_value_from_mouse s e) s
      | None \<Rightarrow> s)"

definition mouse_stop :: "slider \<Rightarrow> slider" where
  "mouse_stop s =
     (case sl_handle_index s of
        Some i \<Rightarrow>
          let s1 = s\<lparr>sl_handles := map (\<lambda>h. h\<lparr>hd_active := False\<rparr>) (sl_handles s), sl_mouse_sliding := False\<rparr>;
              s2 = slider_change i (slider_stop i s1)
          in s2\<lparr>sl_handle_index := None, sl_click_offset := None\<rparr>
      | None \<Rightarrow> s)"

section \<open>Keys\<close>

datatype slider_key = Key_Home | Key_End | Key_Page_Up | Key_Page_Down | Key_More | Key_Less | Key_Other

definition key_target :: "slider \<Rightarrow> slider_key \<Rightarrow> rat \<Rightarrow> rat option" where
  "key_target s k cur =
     (let page = (sl_top s - sl_min s) / num_pages in
        case k of
          Key_Home \<Rightarrow> Some (sl_min s)
        | Key_End \<Rightarrow> Some (sl_top s)
        | Key_Page_Up \<Rightarrow> Some (trim_align_value s (cur + page))
        | Key_Page_Down \<Rightarrow> Some (trim_align_value s (cur - page))
        | Key_More \<Rightarrow> if cur = sl_top s then None else Some (trim_align_value s (cur + sl_step s))
        | Key_Less \<Rightarrow> if cur = sl_min s then None else Some (trim_align_value s (cur - sl_step s))
        | Key_Other \<Rightarrow> Some cur)"

definition key_slide :: "(slide_call \<Rightarrow> bool) \<Rightarrow> nat \<Rightarrow> slider_key \<Rightarrow> slider \<Rightarrow> slider" where
  "key_slide allow i k s =
     (case key_target s k (value_at s i) of None \<Rightarrow> s | Some v \<Rightarrow> slider_slide allow i v s)"

definition key_down :: "(slide_call \<Rightarrow> bool) \<Rightarrow> nat \<Rightarrow> slider_key \<Rightarrow> slider \<Rightarrow> slider" where
  "key_down allow i k s =
     (if k \<noteq> Key_Other \<and> \<not> sl_key_sliding s then
        let (s1, allowed) = slider_start allow i
              (s\<lparr>sl_key_sliding := True, sl_handles := update_nth i (\<lambda>h. h\<lparr>hd_active := True\<rparr>) (sl_handles s)\<rparr>)
        in if allowed then key_slide allow i k s1 else s1
      else key_slide allow i k s)"

definition key_up :: "nat \<Rightarrow> slider \<Rightarrow> slider" where
  "key_up i s =
     (if sl_key_sliding s then
        let s1 = slider_change i (slider_stop i (s\<lparr>sl_key_sliding := False\<rparr>))
        in s1\<lparr>sl_handles := update_nth i (\<lambda>h. h\<lparr>hd_active := False\<rparr>) (sl_handles s1)\<rparr>
      else s)"

section \<open>Alignment\<close>

text \<open>
  The configurations the slider works with after \<open>_calculateNewMax\<close>: a positive step, ends in order and a
  whole number of steps apart, all with at most five decimals.
\<close>

type_synonym slider_ends = "rat \<times> rat \<times> rat"

definition ends_ok :: "slider_ends \<Rightarrow> bool" where
  "ends_ok e \<longleftrightarrow>
     (case e of (lo, up, stp) \<Rightarrow>
        0 < stp \<and> lo \<le> up \<and> is_multiple (up - lo) stp \<and> has_decimals 5 lo \<and> has_decimals 5 stp)"

definition on_scale :: "slider_ends \<Rightarrow> rat \<Rightarrow> bool" where
  "on_scale e v \<longleftrightarrow> (case e of (lo, up, stp) \<Rightarrow> lo \<le> v \<and> v \<le> up \<and> is_multiple (v - lo) stp)"

definition slider_align :: "slider_ends \<Rightarrow> rat \<Rightarrow> rat" where
  "slider_align e v = (case e of (lo, up, stp) \<Rightarrow> align_value lo up stp v)"

text \<open>Between the ends, the aligned value is a multiple of the step and no further off than half of it.\<close>

lemma align_between:
  assumes "ends_ok (lo, up, stp)" and "lo < v" and "v < up"
  shows "on_scale (lo, up, stp) (align_value lo up stp v)" and "2 * \<bar>align_value lo up stp v - v\<bar> \<le> stp"
proof -
  from assms(1) have e: "0 < stp" "is_multiple (up - lo) stp" "has_decimals 5 lo" "has_decimals 5 stp"
    by (simp_all add: ends_ok_def)
  define vm where "vm = js_frem (v - lo) stp"
  have b: "0 \<le> vm" "vm < stp" using js_frem_bounds [OF e(1), of "v - lo"] assms(2) by (simp_all add: vm_def)
  obtain k where k: "v - lo - vm = of_int k * stp"
    using js_frem_multiple [of stp "v - lo"] e(1) by (auto simp: vm_def)
  obtain n where n: "up - lo = of_int n * stp" using e(2) by (rule is_multipleE)
  define j where "j = (if vm * 2 \<ge> stp then k + 1 else k)"
  have j: "lo + of_int j * stp = (if vm * 2 \<ge> stp then v - vm + stp else v - vm)"
    using k by (auto simp: j_def distrib_right)
  have "has_decimals 5 (lo + of_int j * stp)" by (intro has_decimals_add has_decimals_mult e)
  then have f: "to_fixed 5 (lo + of_int j * stp) = lo + of_int j * stp" by (rule to_fixed_id)
  have a: "align_value lo up stp v = lo + of_int j * stp"
  proof -
    have "align_value lo up stp v = to_fixed 5 (if vm * 2 \<ge> stp then v - vm + (if vm > 0 then stp else - stp) else v - vm)"
      using assms(2,3) e(1) b(1) by (simp add: align_value_def vm_def [symmetric] Let_def)
    also have "(if vm * 2 \<ge> stp then v - vm + (if vm > 0 then stp else - stp) else v - vm) = lo + of_int j * stp"
      using b e(1) unfolding j by auto
    finally show ?thesis using f by simp
  qed
  show "2 * \<bar>align_value lo up stp v - v\<bar> \<le> stp" unfolding a j using b by (auto simp: abs_if)
  have "0 \<le> k"
  proof (rule ccontr)
    assume "\<not> 0 \<le> k"
    then have "of_int (k + 1) * stp \<le> 0" using e(1) by (simp add: mult_nonpos_nonneg)
    then show False using k b assms(2) by (simp add: distrib_right)
  qed
  then have "0 \<le> j" by (simp add: j_def)
  moreover have "j \<le> n"
  proof (rule ccontr)
    assume "\<not> j \<le> n"
    then have "n \<le> k" by (simp add: j_def split: if_splits)
    then have "of_int n * stp \<le> of_int k * stp" using e(1) by (simp add: mult_right_mono)
    then show False using k n b assms(3) by linarith
  qed
  ultimately have le: "0 \<le> of_int j * stp" "of_int j * stp \<le> of_int n * stp" using e(1) by (simp_all add: mult_right_mono)
  then have "lo \<le> lo + of_int j * stp" "lo + of_int j * stp \<le> up" using n by linarith+
  then show "on_scale (lo, up, stp) (align_value lo up stp v)"
    unfolding a on_scale_def using e(1) by (auto intro!: is_multipleI)
qed

lemma align_ends: "v \<le> lo \<Longrightarrow> align_value lo up stp v = lo" "lo \<le> up \<Longrightarrow> up \<le> v \<Longrightarrow> align_value lo up stp v = up"
  by (simp_all add: align_value_def)

lemma ends_on_scale: "ends_ok (lo, up, stp) \<Longrightarrow> on_scale (lo, up, stp) lo \<and> on_scale (lo, up, stp) up"
  by (auto simp: ends_ok_def on_scale_def is_multiple_def)

lemma align_on_scale:
  assumes "ends_ok (lo, up, stp)"
  shows "on_scale (lo, up, stp) (align_value lo up stp v)"
proof -
  have "lo \<le> up" using assms by (simp add: ends_ok_def)
  then consider "v \<le> lo" | "up \<le> v" | "lo < v" "v < up" by linarith
  then show ?thesis
    using ends_on_scale [OF assms] align_ends(1) [of v lo up stp] align_ends(2) [of lo up v stp] \<open>lo \<le> up\<close>
      align_between(1) [OF assms] by cases auto
qed

lemma align_fixed:
  assumes "ends_ok (lo, up, stp)" and "on_scale (lo, up, stp) v"
  shows "align_value lo up stp v = v"
proof (cases "lo < v \<and> v < up")
  case True
  from assms obtain k where k: "0 < stp" "v - lo = of_int k * stp" by (auto simp: ends_ok_def on_scale_def elim: is_multipleE)
  have z: "js_frem (v - lo) stp = 0" unfolding k(2) using k(1) by (simp add: js_frem_zero)
  have "has_decimals 5 (lo + of_int k * stp)"
    using assms(1) by (intro has_decimals_add has_decimals_mult) (simp_all add: ends_ok_def)
  then have "to_fixed 5 v = v" using k(2) to_fixed_id by (metis add_diff_cancel_left' diff_add_cancel add.commute)
  with True k(1) z show ?thesis by (simp add: align_value_def Let_def)
next
  case False
  with assms(2) have "v = lo \<or> v = up" "lo \<le> up" by (auto simp: on_scale_def)
  then show ?thesis by (auto simp: align_value_def)
qed

interpretation aligned: stable_control ends_ok on_scale slider_align
proof
  fix e :: slider_ends and v :: rat
  assume e: "ends_ok e"
  obtain lo up stp where "e = (lo, up, stp)" by (cases e)
  with e show "on_scale e (slider_align e v)" "slider_align e (slider_align e v) = slider_align e v"
    by (simp_all add: slider_align_def align_on_scale align_fixed)
qed

lemma calculate_new_max_ends:
  assumes "0 < sl_step s" and "sl_min s \<le> sl_max s" and "has_decimals 5 (sl_min s)" and "has_decimals 5 (sl_step s)"
  shows "ends_ok (sl_min s, sl_top (calculate_new_max s), sl_step s)"
    and "sl_top (calculate_new_max s) \<le> sl_max s" and "sl_max s < sl_top (calculate_new_max s) + sl_step s"
proof -
  let ?x = "sl_max s - sl_min s"
  note b = js_frem_bounds [OF assms(1), of ?x]
  obtain k where "?x - js_frem ?x (sl_step s) = of_int k * sl_step s"
    using js_frem_multiple [of "sl_step s" ?x] assms(1) by auto
  then have k: "sl_top (calculate_new_max s) - sl_min s = of_int k * sl_step s" by (simp add: calculate_new_max_def)
  have "0 \<le> k"
  proof (rule ccontr)
    assume "\<not> 0 \<le> k"
    then have "of_int (k + 1) * sl_step s \<le> 0" using assms(1) by (simp add: mult_nonpos_nonneg)
    then show False using \<open>?x - js_frem ?x (sl_step s) = of_int k * sl_step s\<close> b assms(2) by (simp add: distrib_right)
  qed
  then have "0 \<le> of_int k * sl_step s" using assms(1) by simp
  then have "sl_min s \<le> sl_top (calculate_new_max s)" using k by linarith
  then show "ends_ok (sl_min s, sl_top (calculate_new_max s), sl_step s)"
    using assms is_multipleI [OF _ k] by (simp add: ends_ok_def)
  show "sl_top (calculate_new_max s) \<le> sl_max s" "sl_max s < sl_top (calculate_new_max s) + sl_step s"
    using b assms(2) by (simp_all add: calculate_new_max_def)
qed

section \<open>Creation and options\<close>

definition new_handle :: slider_handle where
  "new_handle = \<lparr>hd_left = Css_Unset, hd_bottom = Css_Unset, hd_active = False\<rparr>"

text \<open>As many handles as values, and one when there is no list; handles that are there are kept.\<close>

definition create_handles :: "slider \<Rightarrow> slider" where
  "create_handles s =
     (let count = (case many_values s of Some vs \<Rightarrow> length vs | None \<Rightarrow> 1);
          kept = take count (sl_handles s)
      in s\<lparr>sl_handles := kept @ replicate (count - length kept) new_handle\<rparr>)"

definition range_values :: "slider \<Rightarrow> rat list option" where
  "range_values s =
     (if sl_range s = Range_True then
        (case sl_values s of
           None \<Rightarrow> Some [sl_min s, sl_min s]
         | Some vs \<Rightarrow> if vs \<noteq> [] \<and> length vs \<noteq> 2 then Some [hd vs, hd vs] else Some vs)
      else sl_values s)"

definition new_bar :: slider_bar where
  "new_bar = \<lparr>bar_left = Css_Unset, bar_bottom = Css_Unset, bar_width = Css_Unset, bar_height = Css_Unset\<rparr>"

definition create_range :: "slider \<Rightarrow> slider" where
  "create_range s =
     (if sl_range s \<noteq> No_Range
      then s\<lparr>sl_values := range_values s,
             sl_bar := Some (case sl_bar s of Some b \<Rightarrow> b\<lparr>bar_left := Css_Unset, bar_bottom := Css_Unset\<rparr> | None \<Rightarrow> new_bar)\<rparr>
      else s\<lparr>sl_bar := None\<rparr>)"

definition slider_refresh :: "slider \<Rightarrow> slider" where
  "slider_refresh s = refresh_value (create_handles (create_range s))"

definition slider_create :: "slider \<Rightarrow> slider" where
  "slider_create s =
     slider_refresh (calculate_new_max
       (s\<lparr>sl_key_sliding := False, sl_mouse_sliding := False, sl_handle_index := None\<rparr>))"

datatype slider_option =
    Opt_Value rat
  | Opt_Values "rat list"
  | Opt_Min rat
  | Opt_Max rat
  | Opt_Step rat
  | Opt_Range slider_range
  | Opt_Vertical bool
  | Opt_Disabled bool

text \<open>Leaving a range of two for a bar on one side keeps the value at that side.\<close>

definition leave_range :: "slider_range \<Rightarrow> slider \<Rightarrow> slider" where
  "leave_range r s =
     (case sl_values s of
        Some vs \<Rightarrow>
          if sl_range s = Range_True \<and> r = Range_Min
          then s\<lparr>sl_value := trim_align_value s (vs ! 0), sl_values := None\<rparr>
          else if sl_range s = Range_True \<and> r = Range_Max
          then s\<lparr>sl_value := trim_align_value s (vs ! (length vs - 1)), sl_values := None\<rparr>
          else s
      | None \<Rightarrow> s)"

fun set_slider_option :: "slider_option \<Rightarrow> slider \<Rightarrow> slider" where
  "set_slider_option (Opt_Value v) s = slider_change 0 (refresh_value (s\<lparr>sl_value := v\<rparr>))"
| "set_slider_option (Opt_Values vs) s =
     foldl (\<lambda>t i. slider_change i t) (refresh_value (s\<lparr>sl_values := Some vs\<rparr>))
       [0..<(case sl_values s of Some xs \<Rightarrow> length xs | None \<Rightarrow> 0)]"
| "set_slider_option (Opt_Min v) s = refresh_value (calculate_new_max (s\<lparr>sl_min := v\<rparr>))"
| "set_slider_option (Opt_Max v) s = refresh_value (calculate_new_max (s\<lparr>sl_max := v\<rparr>))"
| "set_slider_option (Opt_Step v) s = refresh_value (calculate_new_max (s\<lparr>sl_step := v\<rparr>))"
| "set_slider_option (Opt_Range r) s = slider_refresh ((leave_range r s)\<lparr>sl_range := r\<rparr>)"
| "set_slider_option (Opt_Vertical b) s =
     (let t = refresh_value (s\<lparr>sl_vertical := b\<rparr>) in
        t\<lparr>sl_handles := map (\<lambda>h. if b then h\<lparr>hd_left := Css_Unset\<rparr> else h\<lparr>hd_bottom := Css_Unset\<rparr>) (sl_handles t)\<rparr>)"
| "set_slider_option (Opt_Disabled b) s = s\<lparr>sl_disabled := b\<rparr>"

section \<open>User events\<close>

datatype slider_event =
    Mouse_Down mouse_event
  | Mouse_Move mouse_event
  | Mouse_Up
  | Key_Pressed nat slider_key
  | Key_Released nat

fun slider_step :: "(slide_call \<Rightarrow> bool) \<Rightarrow> slider_event \<Rightarrow> slider \<Rightarrow> js_error + slider" where
  "slider_step allow (Mouse_Down e) s =
     (case mouse_capture allow e s of Inl err \<Rightarrow> Inl err | Inr (t, captured) \<Rightarrow> Inr t)"
| "slider_step allow (Mouse_Move e) s = Inr (mouse_drag allow e s)"
| "slider_step allow Mouse_Up s = Inr (mouse_stop s)"
| "slider_step allow (Key_Pressed i k) s = Inr (key_down allow i k s)"
| "slider_step allow (Key_Released i) s = Inr (key_up i s)"

text \<open>The client may answer differently at each event.\<close>

fun slider_run :: "((slide_call \<Rightarrow> bool) \<times> slider_event) list \<Rightarrow> slider \<Rightarrow> js_error + slider" where
  "slider_run [] s = Inr s"
| "slider_run ((allow, e) # es) s =
     (case slider_step allow e s of Inl err \<Rightarrow> Inl err | Inr t \<Rightarrow> slider_run es t)"

section \<open>What events change\<close>

text \<open>What the values of a slider depend on.\<close>

definition core :: "slider \<Rightarrow> slider_ends \<times> rat \<times> rat list option \<times> slider_range \<times> nat" where
  "core s = ((sl_min s, sl_top s, sl_step s), sl_value s, sl_values s, sl_range s, length (sl_handles s))"

named_theorems sl_frame \<open>operations of the slider that leave the values alone\<close>

lemma core_trigger [sl_frame]: "core (trigger c s) = core s"
  by (simp add: core_def trigger_def)

lemma core_change [sl_frame]: "core (slider_change i s) = core s"
  by (simp add: slider_change_def core_trigger) (simp add: core_def)

lemma core_refresh [sl_frame]: "core (refresh_value s) = core s"
  by (simp add: core_def refresh_value_def place_handles_def Let_def split: list.splits)

lemma core_start [sl_frame]: "core (fst (slider_start allow i s)) = core s"
  by (simp add: slider_start_def Let_def sl_frame)

lemma core_stop [sl_frame]: "core (slider_stop i s) = core s"
  by (simp add: slider_stop_def sl_frame)

lemma core_eqD:
  assumes "core s = core t"
  shows "many_values s = many_values t" "value_at s = value_at t" "trim_align_value s = trim_align_value t"
    "get_value s = get_value t" "sl_range s = sl_range t" "length (sl_handles s) = length (sl_handles t)"
    "sl_min s = sl_min t" "sl_top s = sl_top t" "sl_step s = sl_step t"
proof -
  from assms have f: "sl_min s = sl_min t" "sl_top s = sl_top t" "sl_step s = sl_step t" "sl_value s = sl_value t"
    "sl_values s = sl_values t" "sl_range s = sl_range t" "length (sl_handles s) = length (sl_handles t)"
    by (simp_all add: core_def)
  then show t: "trim_align_value s = trim_align_value t" by (simp add: trim_align_value_def fun_eq_iff)
  show m: "many_values s = many_values t" using f by (simp add: many_values_def)
  show g: "get_value s = get_value t" using f t by (simp add: get_value_def)
  show "value_at s = value_at t" using m t g by (simp add: value_at_def fun_eq_iff split: option.splits)
  show "sl_range s = sl_range t" "length (sl_handles s) = length (sl_handles t)"
    "sl_min s = sl_min t" "sl_top s = sl_top t" "sl_step s = sl_step t" using f by simp_all
qed

definition slider_ends_of :: "slider \<Rightarrow> slider_ends" where
  "slider_ends_of s = (sl_min s, sl_top s, sl_step s)"

definition value_count :: "slider \<Rightarrow> nat" where
  "value_count s = (case many_values s of Some vs \<Rightarrow> length vs | None \<Rightarrow> 1)"

text \<open>The ends are usable, each value has a handle, and the values of a range of two are in order.\<close>

definition slider_ok :: "slider \<Rightarrow> bool" where
  "slider_ok s \<longleftrightarrow> ends_ok (slider_ends_of s) \<and> length (sl_handles s) = value_count s \<and>
     (range_pair s \<longrightarrow> value_at s 0 \<le> value_at s 1)"

lemma slider_ok_core:
  assumes "core s = core t"
  shows "slider_ok s = slider_ok t"
  using core_eqD [OF assms] by (simp add: slider_ok_def slider_ends_of_def value_count_def range_pair_def)

lemma value_count_pos: "0 < value_count s"
  by (auto simp: value_count_def many_values_def split: option.splits list.splits)

lemma value_on_scale: "ends_ok (slider_ends_of s) \<Longrightarrow> on_scale (slider_ends_of s) (value_at s i)"
  by (simp add: value_at_def get_value_def trim_align_value_def slider_ends_of_def align_on_scale split: option.splits)

lemma trim_on_scale: "ends_ok (slider_ends_of s) \<Longrightarrow> on_scale (slider_ends_of s) (trim_align_value s v)"
  by (simp add: trim_align_value_def slider_ends_of_def align_on_scale)

lemma trim_fixed: "ends_ok (slider_ends_of s) \<Longrightarrow> on_scale (slider_ends_of s) v \<Longrightarrow> trim_align_value s v = v"
  by (simp add: trim_align_value_def slider_ends_of_def align_fixed)

lemma many_values_put:
  "many_values (s\<lparr>sl_values := map_option (\<lambda>vs. vs[i := v]) (sl_values s)\<rparr>) = map_option (\<lambda>vs. vs[i := v]) (many_values s)"
  by (auto simp: many_values_def split: option.splits list.splits nat.splits)

lemma trim_put [simp]: "trim_align_value (s\<lparr>sl_values := x\<rparr>) = trim_align_value s" "trim_align_value (s\<lparr>sl_value := v\<rparr>) = trim_align_value s"
  by (simp_all add: trim_align_value_def fun_eq_iff)

lemma value_at_put:
  assumes "many_values s = Some vs" and "i < length vs"
  shows "value_at (s\<lparr>sl_values := map_option (\<lambda>vs. vs[i := v]) (sl_values s)\<rparr>) j =
    (if j = i then trim_align_value s v else value_at s j)"
  unfolding value_at_def many_values_put using assms by auto

lemma core_set_value: "core (set_value v s) = core (s\<lparr>sl_value := trim_align_value s v\<rparr>)"
  by (simp add: set_value_def sl_frame)

lemma core_set_value_at:
  "core (set_value_at i v s) = core (s\<lparr>sl_values := map_option (\<lambda>vs. vs[i := trim_align_value s v]) (sl_values s)\<rparr>)"
  by (simp add: set_value_at_def sl_frame)

lemma ends_of_core: "core s = core t \<Longrightarrow> slider_ends_of s = slider_ends_of t"
  by (simp add: core_def slider_ends_of_def)

lemma stop_at_other_on_scale:
  "ends_ok (slider_ends_of s) \<Longrightarrow> on_scale (slider_ends_of s) v \<Longrightarrow> on_scale (slider_ends_of s) (stop_at_other s i v)"
  by (simp add: stop_at_other_def Let_def value_on_scale)

text \<open>Setting one value of the list to what a handle may reach keeps a range of two in order.\<close>

lemma slider_ok_set_value_at:
  assumes ok: "slider_ok s" and v: "on_scale (slider_ends_of s) v" and i: "i < value_count s" and m: "many_values s \<noteq> None"
  shows "slider_ok (set_value_at i (stop_at_other s i v) s)"
proof -
  from m obtain vs where vs: "many_values s = Some vs" by blast
  define w where "w = stop_at_other s i v"
  define t where "t = s\<lparr>sl_values := map_option (\<lambda>vs. vs[i := trim_align_value s w]) (sl_values s)\<rparr>"
  have e: "ends_ok (slider_ends_of s)" using ok by (simp add: slider_ok_def)
  have iv: "i < length vs" using i vs by (simp add: value_count_def)
  have w: "trim_align_value s w = w" using stop_at_other_on_scale [OF e v] e by (simp add: w_def trim_fixed)
  have at: "value_at t j = (if j = i then w else value_at s j)" for j
    using value_at_put [OF vs iv, of "trim_align_value s w" j] by (simp add: t_def w)
  have mt: "many_values t = Some (vs[i := w])" using vs by (simp add: t_def many_values_put w)
  have r: "range_pair t = range_pair s" by (simp add: range_pair_def mt vs) (simp add: t_def)
  have "value_at t 0 \<le> value_at t 1" if "range_pair t"
  proof -
    have p: "range_pair s" using that r by simp
    then have "length vs = 2" by (simp add: range_pair_def vs)
    then have "i = 0 \<or> i = 1" using iv by auto
    then show ?thesis using at [of 0] at [of 1] p by (auto simp: w_def stop_at_other_def Let_def)
  qed
  moreover have "slider_ends_of t = slider_ends_of s" "sl_handles t = sl_handles s" by (simp_all add: t_def slider_ends_of_def)
  moreover have "value_count t = value_count s" by (simp add: value_count_def mt vs)
  ultimately have "slider_ok t" using ok by (simp add: slider_ok_def)
  then show ?thesis using slider_ok_core [OF core_set_value_at] by (simp add: t_def w_def)
qed

lemma slider_ok_set_value: "slider_ok s \<Longrightarrow> many_values s = None \<Longrightarrow> slider_ok (set_value v s)"
  unfolding slider_ok_core [OF core_set_value]
  by (simp add: slider_ok_def slider_ends_of_def value_count_def range_pair_def many_values_def)

lemma slide_cases:
  obtains (still) "core (slider_slide allow i v s) = core s"
  | (pair) t where "many_values s \<noteq> None" and "core t = core s"
      and "slider_slide allow i v s = set_value_at i (stop_at_other s i v) t"
  | (one) t where "many_values s = None" and "core t = core s" and "slider_slide allow i v s = set_value v t"
proof -
  have "core (slider_slide allow i v s) = core s \<or>
    (\<exists>c. many_values s \<noteq> None \<and> slider_slide allow i v s = set_value_at i (stop_at_other s i v) (trigger c s)) \<or>
    (\<exists>c. many_values s = None \<and> slider_slide allow i v s = set_value v (trigger c s))"
  proof (cases "many_values s = None")
    case True
    then show ?thesis by (cases "v = get_value s") (auto simp: slider_slide_def Let_def core_trigger)
  next
    case False
    then show ?thesis
      by (cases "stop_at_other s i v = value_at s i") (auto simp: slider_slide_def Let_def core_trigger)
  qed
  then show thesis using still pair one core_trigger by metis
qed

lemma stop_at_other_core: "core s = core t \<Longrightarrow> stop_at_other s = stop_at_other t"
  using core_eqD [of s t] by (simp add: stop_at_other_def range_pair_def fun_eq_iff)

lemma slider_slide_ok:
  assumes ok: "slider_ok s" and v: "on_scale (slider_ends_of s) v" and i: "i < value_count s"
  shows "slider_ok (slider_slide allow i v s)"
proof (cases rule: slide_cases [of allow i v s])
  case still
  then show ?thesis using slider_ok_core ok by blast
next
  case (pair t)
  note c = pair(2) and d = core_eqD [OF pair(2)]
  have "slider_ok t" using slider_ok_core [OF c] ok by simp
  moreover have "on_scale (slider_ends_of t) v" using ends_of_core [OF c] v by simp
  moreover have "i < value_count t" "many_values t \<noteq> None" using i pair(1) d(1) by (simp_all add: value_count_def)
  ultimately show ?thesis unfolding pair(3) stop_at_other_core [OF c, symmetric] by (rule slider_ok_set_value_at)
next
  case (one t)
  then show ?thesis using slider_ok_core [of t s] core_eqD(1) [of t s] ok slider_ok_set_value by metis
qed

lemma ends_set_value [sl_frame]: "slider_ends_of (set_value v s) = slider_ends_of s"
  using ends_of_core [OF core_set_value [of v s]] by (simp add: slider_ends_of_def)

lemma ends_set_value_at [sl_frame]: "slider_ends_of (set_value_at i v s) = slider_ends_of s"
  using ends_of_core [OF core_set_value_at [of i v s]] by (simp add: slider_ends_of_def)

lemma count_set_value [sl_frame]: "length (sl_handles (set_value v s)) = length (sl_handles s)"
  using core_set_value [of v s] by (simp add: core_def)

lemma count_set_value_at [sl_frame]: "length (sl_handles (set_value_at i v s)) = length (sl_handles s)"
  using core_set_value_at [of i v s] by (simp add: core_def)

lemma slide_frame [sl_frame]:
  "slider_ends_of (slider_slide allow i v s) = slider_ends_of s \<and>
   length (sl_handles (slider_slide allow i v s)) = length (sl_handles s)"
proof (cases rule: slide_cases [of allow i v s])
  case still
  then show ?thesis by (simp add: ends_of_core [OF still] core_eqD(6) [OF still])
next
  case (pair t)
  then show ?thesis using ends_of_core [of t s] core_eqD(6) [of t s] by (simp add: sl_frame)
next
  case (one t)
  then show ?thesis using ends_of_core [of t s] core_eqD(6) [of t s] by (simp add: sl_frame)
qed

lemma handle_index_frame [sl_frame]:
  "sl_handle_index (refresh_value s) = sl_handle_index s" "sl_handle_index (slider_change k s) = sl_handle_index s"
  "sl_handle_index (slider_stop k s) = sl_handle_index s" "sl_handle_index (fst (slider_start allow k s)) = sl_handle_index s"
  by (simp_all add: refresh_value_def slider_change_def slider_stop_def slider_start_def trigger_def Let_def)

lemma handle_index_slide [sl_frame]: "sl_handle_index (slider_slide allow i v s) = sl_handle_index s"
  by (simp add: slider_slide_def set_value_def set_value_at_def sl_frame Let_def trigger_def)

section \<open>Which handle a press takes\<close>

lemma closest_fold:
  assumes "\<And>j. j < n \<Longrightarrow> \<bar>wanted - value_at s j\<bar> < far" and "foldl (closer_handle s wanted) (far, None) [0..<n] = (d, found)"
  shows "\<forall>j<n. d \<le> \<bar>wanted - value_at s j\<bar>"
    and "case found of None \<Rightarrow> n = 0 \<and> d = far | Some i \<Rightarrow> i < n \<and> d = \<bar>wanted - value_at s i\<bar>"
proof -
  have "(\<forall>j<n. d \<le> \<bar>wanted - value_at s j\<bar>) \<and>
    (case found of None \<Rightarrow> n = 0 \<and> d = far | Some i \<Rightarrow> i < n \<and> d = \<bar>wanted - value_at s i\<bar>)"
    using assms
  proof (induction n arbitrary: d found)
    case (Suc n)
    obtain e best where r: "foldl (closer_handle s wanted) (far, None) [0..<n] = (e, best)" by (metis prod.exhaust)
    have ih: "\<forall>j<n. e \<le> \<bar>wanted - value_at s j\<bar>"
      "case best of None \<Rightarrow> n = 0 \<and> e = far | Some i \<Rightarrow> i < n \<and> e = \<bar>wanted - value_at s i\<bar>"
      using Suc.IH [OF _ r] Suc.prems(1) by auto
    have f: "\<bar>wanted - value_at s n\<bar> < far" using Suc.prems(1) by simp
    have step: "closer_handle s wanted (e, best) n = (d, found)" using Suc.prems(2) r by simp
    show ?case
    proof (cases "found = Some n \<and> d = \<bar>wanted - value_at s n\<bar> \<and> d \<le> e")
      case True
      then show ?thesis using ih(1) by (auto simp: less_Suc_eq)
    next
      case False
      then have "d = e" "found = best" "e \<le> \<bar>wanted - value_at s n\<bar>"
        using step by (auto simp: closer_handle_def Let_def split: if_splits)
      then show ?thesis using ih f by (auto simp: less_Suc_eq split: option.splits)
    qed
  qed simp
  then show "\<forall>j<n. d \<le> \<bar>wanted - value_at s j\<bar>"
    "case found of None \<Rightarrow> n = 0 \<and> d = far | Some i \<Rightarrow> i < n \<and> d = \<bar>wanted - value_at s i\<bar>" by blast+
qed

lemma norm_on_scale: "ends_ok (slider_ends_of s) \<Longrightarrow> on_scale (slider_ends_of s) (norm_value_from_mouse s e)"
  by (simp add: norm_value_from_mouse_def Let_def trim_on_scale)

lemma closest_handle_nearest:
  assumes ok: "slider_ok s" and w: "on_scale (slider_ends_of s) wanted"
  obtains i where "closest_handle s wanted = Some i" and "i < value_count s"
    and "\<forall>j < value_count s. \<bar>wanted - value_at s i\<bar> \<le> \<bar>wanted - value_at s j\<bar>"
proof -
  have e: "ends_ok (slider_ends_of s)" and n: "length (sl_handles s) = value_count s" using ok by (simp_all add: slider_ok_def)
  have far: "\<bar>wanted - value_at s j\<bar> < sl_top s - sl_min s + 1" for j
    using w value_on_scale [OF e, of j] by (auto simp: on_scale_def slider_ends_of_def abs_if)
  obtain d found where r: "foldl (closer_handle s wanted) (sl_top s - sl_min s + 1, None) [0..<value_count s] = (d, found)"
    by (metis prod.exhaust)
  note c = closest_fold [OF far r]
  obtain i where "found = Some i" using c(2) value_count_pos [of s] by (auto split: option.splits)
  then show thesis using c r n that [of i] by (simp add: closest_handle_def)
qed

section \<open>Every event keeps the slider in order\<close>

text \<open>The handle being dragged is one of the handles.\<close>

fun index_below :: "nat \<Rightarrow> nat option \<Rightarrow> bool" where
  "index_below n (Some i) \<longleftrightarrow> i < n"
| "index_below n None \<longleftrightarrow> True"

definition slider_inv :: "slider \<Rightarrow> bool" where
  "slider_inv s \<longleftrightarrow> slider_ok s \<and> index_below (length (sl_handles s)) (sl_handle_index s)"

text \<open>The key events come from one of the handles.\<close>

fun event_for :: "nat \<Rightarrow> slider_event \<Rightarrow> bool" where
  "event_for n (Key_Pressed i k) = (i < n)"
| "event_for n (Key_Released i) = (i < n)"
| "event_for n _ = True"

text \<open>What an event may change: not the ends, not the number of handles.\<close>

definition slider_kept :: "slider \<Rightarrow> slider \<Rightarrow> bool" where
  "slider_kept s t \<longleftrightarrow> slider_inv t \<and> slider_ends_of t = slider_ends_of s \<and> length (sl_handles t) = length (sl_handles s)"

lemma slider_kept_core:
  assumes "slider_ok s" and "core t = core s" and "index_below (length (sl_handles s)) (sl_handle_index t)"
  shows "slider_kept s t"
  using assms slider_ok_core [OF assms(2)] ends_of_core [OF assms(2)] core_eqD(6) [OF assms(2)]
  by (simp add: slider_kept_def slider_inv_def)

lemma slider_kept_slide:
  assumes "slider_inv s" and "on_scale (slider_ends_of s) v" and "i < length (sl_handles s)"
  shows "slider_kept s (slider_slide allow i v s)"
proof -
  from assms(1) have ok: "slider_ok s" by (simp add: slider_inv_def)
  then have "slider_ok (slider_slide allow i v s)" using assms slider_slide_ok by (simp add: slider_ok_def)
  then show ?thesis using assms(1) slide_frame [of allow i v s] by (simp add: slider_kept_def slider_inv_def handle_index_slide)
qed

lemma slider_kept_trans: "slider_kept s t \<Longrightarrow> slider_kept t u \<Longrightarrow> slider_kept s u"
  by (simp add: slider_kept_def)

lemma slider_kept_inv: "slider_kept s t \<Longrightarrow> slider_inv t"
  by (simp add: slider_kept_def)

lemma slider_inv_ok: "slider_inv s \<Longrightarrow> slider_ok s"
  by (simp add: slider_inv_def)

lemma slider_ok_ends: "slider_ok s \<Longrightarrow> ends_ok (slider_ends_of s)"
  by (simp add: slider_ok_def)

lemma core_update [simp]:
  "core (s\<lparr>sl_key_sliding := b\<rparr>) = core s" "core (s\<lparr>sl_mouse_sliding := b\<rparr>) = core s"
  "core (s\<lparr>sl_handle_index := x\<rparr>) = core s" "core (s\<lparr>sl_click_offset := p\<rparr>) = core s"
  "core (s\<lparr>sl_last_changed := x\<rparr>) = core s"
  "core (s\<lparr>sl_handles := hs\<rparr>) = core s \<longleftrightarrow> length hs = length (sl_handles s)"
  "core (s\<lparr>sl_handles := update_nth i f (sl_handles s)\<rparr>) = core s"
  by (simp_all add: core_def)

lemma mouse_capture_kept:
  assumes "slider_inv s"
  obtains t b where "mouse_capture allow e s = Inr (t, b)" and "slider_kept s t"
proof (cases "sl_disabled s")
  case True
  then show ?thesis using that [of s False] assms by (simp add: mouse_capture_def slider_kept_def)
next
  case False
  let ?w = "norm_value_from_mouse s e"
  have ok: "slider_ok s" using assms by (rule slider_inv_ok)
  have w: "on_scale (slider_ends_of s) ?w" using ok by (intro norm_on_scale slider_ok_ends)
  obtain i where i: "closest_handle s ?w = Some i" "i < value_count s" using closest_handle_nearest [OF ok w] by blast
  obtain s1 ans where s1: "slider_start allow i s = (s1, ans)" by (metis prod.exhaust)
  have c1: "core s1 = core s" "sl_handle_index s1 = sl_handle_index s"
    using core_start [of allow i s] handle_index_frame(4) [of allow i s] by (simp_all add: s1)
  define s2 where "s2 = s1\<lparr>sl_mouse_sliding := True, sl_handle_index := Some i,
    sl_handles := update_nth i (\<lambda>h. h\<lparr>hd_active := True\<rparr>) (sl_handles s1), sl_click_offset := Some (m_grip e)\<rparr>"
  have n: "length (sl_handles s) = value_count s" "i < length (sl_handles s)" using ok i(2) by (simp_all add: slider_ok_def)
  have "core s2 = core s" using c1(1) by (simp add: s2_def core_def)
  then have k2: "slider_kept s s2" by (rule slider_kept_core [OF ok]) (simp add: s2_def n(2))
  have "on_scale (slider_ends_of s2) ?w" "i < length (sl_handles s2)" using k2 w n by (simp_all add: slider_kept_def)
  then have "slider_kept s (slider_slide allow i ?w s2)"
    using slider_kept_trans [OF k2 slider_kept_slide [OF slider_kept_inv [OF k2]]] by blast
  moreover have "slider_kept s s1" using c1 assms by (intro slider_kept_core [OF ok]) (simp_all add: slider_inv_def)
  moreover have "mouse_capture allow e s =
    Inr (if \<not> ans then (s1, False) else (if m_hover e then s2 else slider_slide allow i ?w s2, True))"
    using False i(1) s1 by (simp add: mouse_capture_def Let_def s2_def)
  ultimately show ?thesis using that k2 by (cases ans; cases "m_hover e") auto
qed

lemma key_target_on_scale:
  "ends_ok (slider_ends_of s) \<Longrightarrow> key_target s k (value_at s i) = Some v \<Longrightarrow> on_scale (slider_ends_of s) v"
  using ends_on_scale [of "sl_min s" "sl_top s" "sl_step s"] value_on_scale [of s i]
  by (auto simp: key_target_def Let_def trim_on_scale slider_ends_of_def [symmetric] split: slider_key.splits if_splits)

lemma key_slide_kept: "slider_inv s \<Longrightarrow> i < length (sl_handles s) \<Longrightarrow> slider_kept s (key_slide allow i k s)"
  using key_target_on_scale [of s k i] slider_ok_ends [OF slider_inv_ok, of s] slider_kept_slide [of s _ i allow]
  by (simp add: key_slide_def split: option.split) (simp add: slider_kept_def)

lemma key_down_kept:
  assumes "slider_inv s" and "i < length (sl_handles s)"
  shows "slider_kept s (key_down allow i k s)"
proof (cases "k \<noteq> Key_Other \<and> \<not> sl_key_sliding s")
  case True
  let ?s0 = "s\<lparr>sl_key_sliding := True, sl_handles := update_nth i (\<lambda>h. h\<lparr>hd_active := True\<rparr>) (sl_handles s)\<rparr>"
  obtain t ans where t: "slider_start allow i ?s0 = (t, ans)" by (metis prod.exhaust)
  have "core t = core ?s0" "sl_handle_index t = sl_handle_index s"
    using core_start [of allow i ?s0] handle_index_frame(4) [of allow i ?s0] by (simp_all add: t)
  moreover have "core ?s0 = core s" by (simp add: core_def)
  ultimately have k1: "slider_kept s t" using assms(1) slider_kept_core [of s t] by (simp add: slider_inv_def)
  then have "slider_kept t (key_slide allow i k t)" using assms(2) by (intro key_slide_kept) (simp_all add: slider_kept_def)
  with k1 show ?thesis using slider_kept_trans True by (auto simp: key_down_def t)
next
  case False
  then show ?thesis using key_slide_kept [OF assms] by (auto simp: key_down_def)
qed

lemma key_up_kept: "slider_inv s \<Longrightarrow> slider_kept s (key_up i s)"
proof -
  assume inv: "slider_inv s"
  have "core (key_up i s) = core s" by (simp add: key_up_def Let_def sl_frame)
  moreover have "sl_handle_index (key_up i s) = sl_handle_index s" by (simp add: key_up_def Let_def sl_frame)
  ultimately show ?thesis using inv slider_kept_core [of s] by (simp add: slider_inv_def)
qed

lemma mouse_drag_kept: "slider_inv s \<Longrightarrow> slider_kept s (mouse_drag allow e s)"
proof (cases "sl_handle_index s")
  case (Some i)
  assume inv: "slider_inv s"
  then have "i < length (sl_handles s)" using Some by (simp add: slider_inv_def)
  then show ?thesis using slider_kept_slide [OF inv norm_on_scale] inv Some
    by (simp add: mouse_drag_def slider_ok_ends slider_inv_ok)
qed (simp add: mouse_drag_def slider_kept_def)

lemma mouse_stop_kept: "slider_inv s \<Longrightarrow> slider_kept s (mouse_stop s)"
proof -
  assume inv: "slider_inv s"
  have "core (mouse_stop s) = core s"
    by (cases "sl_handle_index s") (simp_all add: mouse_stop_def Let_def sl_frame)
  moreover have "sl_handle_index (mouse_stop s) = None" by (simp add: mouse_stop_def Let_def split: option.split)
  ultimately show ?thesis using inv slider_kept_core [of s] by (simp add: slider_inv_def)
qed

lemma slider_step_kept:
  assumes "slider_inv s" and "event_for (length (sl_handles s)) ev"
  obtains t where "slider_step allow ev s = Inr t" and "slider_kept s t"
proof (cases ev)
  case (Mouse_Down e)
  obtain t b where "mouse_capture allow e s = Inr (t, b)" "slider_kept s t"
    using mouse_capture_kept [OF assms(1)] by metis
  then show ?thesis using that Mouse_Down by simp
qed (use assms that mouse_drag_kept mouse_stop_kept key_down_kept key_up_kept in auto)

lemma slider_run_kept:
  assumes "slider_inv s" and "list_all (\<lambda>(allow, ev). event_for (length (sl_handles s)) ev) es"
  obtains t where "slider_run es s = Inr t" and "slider_kept s t"
  using assms
proof (induction es arbitrary: s thesis)
  case Nil
  then show ?case by (simp add: slider_kept_def)
next
  case (Cons e es)
  obtain allow ev where e: "e = (allow, ev)" by (metis prod.exhaust)
  obtain t where t: "slider_step allow ev s = Inr t" "slider_kept s t"
    using slider_step_kept [OF Cons.prems(2), of ev allow] Cons.prems(3) by (auto simp: e)
  then have "list_all (\<lambda>(allow, ev). event_for (length (sl_handles t)) ev) es" using Cons.prems(3) by (simp add: slider_kept_def)
  then obtain u where "slider_run es t = Inr u" "slider_kept t u"
    using Cons.IH [of t] slider_kept_inv [OF t(2)] by blast
  then show ?case using Cons.prems(1) [of u] t slider_kept_trans by (simp add: e)
qed

section \<open>The scale\<close>

lemma on_scale_apart:
  assumes "ends_ok (lo, up, stp)" and "on_scale (lo, up, stp) a" and "on_scale (lo, up, stp) b" and "a < b"
  shows "a + stp \<le> b"
proof -
  from assms(2,3) obtain k j where k: "a - lo = of_int k * stp" and j: "b - lo = of_int j * stp"
    by (auto simp: on_scale_def elim!: is_multipleE)
  have p: "0 < stp" using assms(1) by (simp add: ends_ok_def)
  have "of_int k * stp < of_int j * stp" using k j assms(4) by linarith
  then have "k + 1 \<le> j" using p by simp
  then have "of_int (k + 1) * stp \<le> of_int j * stp" using p by (simp only: of_int_le_iff mult_le_cancel_right_pos)
  then show ?thesis using k j by (simp add: distrib_right)
qed

lemma align_nearest:
  assumes e: "ends_ok (lo, up, stp)" and w: "on_scale (lo, up, stp) w"
  shows "\<bar>align_value lo up stp v - v\<bar> \<le> \<bar>w - v\<bar>"
proof -
  have w': "lo \<le> w" "w \<le> up" using w by (simp_all add: on_scale_def)
  consider "v \<le> lo" | "up \<le> v" | "lo < v" "v < up" by linarith
  then show ?thesis
  proof cases
    case 3
    let ?a = "align_value lo up stp v"
    have a: "on_scale (lo, up, stp) ?a" "2 * \<bar>?a - v\<bar> \<le> stp" using align_between [OF e 3] by blast+
    consider "w = ?a" | "w + stp \<le> ?a" | "?a + stp \<le> w"
      using on_scale_apart [OF e w a(1)] on_scale_apart [OF e a(1) w] by linarith
    then show ?thesis using a(2) by cases (auto simp: abs_if split: if_splits)
  qed (use w' align_ends [of v lo up stp] align_ends(2) [of lo up v stp] in auto)
qed

lemma align_mono:
  assumes e: "ends_ok (lo, up, stp)" and "v \<le> w"
  shows "align_value lo up stp v \<le> align_value lo up stp w"
proof (rule ccontr)
  let ?a = "align_value lo up stp v" and ?b = "align_value lo up stp w"
  assume "\<not> ?a \<le> ?b"
  then have lt: "?b < ?a" by simp
  have "?b + stp \<le> ?a" using on_scale_apart [OF e align_on_scale [OF e] align_on_scale [OF e] lt] .
  moreover have "\<bar>?a - v\<bar> \<le> \<bar>?b - v\<bar>" "\<bar>?b - w\<bar> \<le> \<bar>?a - w\<bar>" using align_nearest [OF e align_on_scale [OF e]] by blast+
  moreover have "0 < stp" using e by (simp add: ends_ok_def)
  ultimately have "v = w" using assms(2) lt by (auto simp: abs_if split: if_splits)
  then show False using lt by simp
qed

text \<open>Options a slider can be made of.\<close>

definition valid_options :: "slider \<Rightarrow> bool" where
  "valid_options s \<longleftrightarrow>
     0 < sl_step s \<and> sl_min s \<le> sl_max s \<and> has_decimals 5 (sl_min s) \<and> has_decimals 5 (sl_step s) \<and>
     (case sl_values s of Some [a, b] \<Rightarrow> a \<le> b | _ \<Rightarrow> True)"

lemma core_slider_refresh:
  "core (slider_refresh s) = core (create_handles (create_range s))"
  by (simp add: slider_refresh_def sl_frame)

lemma create_range_frame:
  "slider_ends_of (create_range s) = slider_ends_of s" "sl_values (create_range s) = range_values s"
  "sl_range (create_range s) = sl_range s" "sl_handle_index (create_range s) = sl_handle_index s"
  by (auto simp: create_range_def slider_ends_of_def range_values_def)

lemma create_handles_frame:
  "slider_ends_of (create_handles s) = slider_ends_of s" "sl_values (create_handles s) = sl_values s"
  "sl_range (create_handles s) = sl_range s" "sl_handle_index (create_handles s) = sl_handle_index s"
  "length (sl_handles (create_handles s)) = value_count s"
  by (auto simp: create_handles_def slider_ends_of_def value_count_def Let_def split: option.split)

lemma range_values_pair:
  assumes "case sl_values s of Some [a, b] \<Rightarrow> a \<le> b | _ \<Rightarrow> True" and "sl_range s = Range_True"
    and "range_values s = Some vs" and "length vs = 2"
  shows "vs ! 0 \<le> vs ! 1"
  using assms by (auto simp: range_values_def length_Suc_conv numeral_2_eq_2 split: option.splits if_splits)

lemma slider_create_inv:
  assumes "valid_options s"
  shows "slider_inv (slider_create s)"
proof -
  define t where "t = calculate_new_max (s\<lparr>sl_key_sliding := False, sl_mouse_sliding := False, sl_handle_index := None\<rparr>)"
  define u where "u = create_handles (create_range t)"
  have e: "ends_ok (slider_ends_of t)"
    using calculate_new_max_ends(1) [of "s\<lparr>sl_key_sliding := False, sl_mouse_sliding := False, sl_handle_index := None\<rparr>"] assms
    by (simp add: valid_options_def t_def slider_ends_of_def calculate_new_max_def)
  have f: "slider_ends_of u = slider_ends_of t" "sl_values u = range_values t" "sl_range u = sl_range t"
    by (simp_all add: u_def create_handles_frame create_range_frame)
  have n: "length (sl_handles u) = value_count u"
    unfolding u_def create_handles_frame(5) by (simp add: value_count_def many_values_def create_handles_frame)
  have "value_at u 0 \<le> value_at u 1" if p: "range_pair u"
  proof -
    from p obtain vs where vs: "many_values u = Some vs" "length vs = 2" "sl_range u = Range_True"
      by (auto simp: range_pair_def split: option.splits)
    then have "range_values t = Some vs" using f(2) by (auto simp: many_values_def split: option.splits list.splits)
    moreover have "case sl_values t of Some [a, b] \<Rightarrow> a \<le> b | _ \<Rightarrow> True"
      using assms by (simp add: valid_options_def t_def calculate_new_max_def)
    ultimately have "vs ! 0 \<le> vs ! 1" using range_values_pair [of t vs] vs f(3) by simp
    then show ?thesis
      using align_mono e vs(1) f(1) by (simp add: value_at_def trim_align_value_def slider_ends_of_def)
  qed
  then have "slider_ok u" using e f(1) n by (simp add: slider_ok_def)
  moreover have "slider_create s = slider_refresh t" by (simp add: slider_create_def t_def)
  moreover have "core (slider_refresh t) = core u" by (simp add: core_slider_refresh u_def)
  moreover have "sl_handle_index (slider_refresh t) = None"
    by (simp add: slider_refresh_def handle_index_frame create_handles_frame create_range_frame)
      (simp add: t_def calculate_new_max_def)
  ultimately show ?thesis using slider_ok_core [of "slider_refresh t" u] by (simp add: slider_inv_def)
qed

section \<open>Properties\<close>


text \<open>A press on an enabled slider never throws and asks the client to start with a handle that no other is
  closer than to the value under the mouse; a refused start changes no value.\<close>

theorem slider_press_takes_nearest:
  assumes "slider_inv s" and "\<not> sl_disabled s"
  shows "\<exists>t i b. mouse_capture allow e s = Inr (t, b) \<and> i < length (sl_handles s) \<and>
    (\<forall>j < length (sl_handles s). \<bar>norm_value_from_mouse s e - value_at s i\<bar> \<le> \<bar>norm_value_from_mouse s e - value_at s j\<bar>) \<and>
    (if allow (slide_call_of Slide_Start i s) then b \<and> sl_handle_index t = Some i else \<not> b \<and> core t = core s)"
proof -
  let ?w = "norm_value_from_mouse s e"
  have ok: "slider_ok s" using assms(1) by (rule slider_inv_ok)
  have n: "length (sl_handles s) = value_count s" using ok by (simp add: slider_ok_def)
  have "on_scale (slider_ends_of s) ?w" using ok by (intro norm_on_scale slider_ok_ends)
  then obtain i where i: "closest_handle s ?w = Some i" "i < value_count s"
    "\<forall>j < value_count s. \<bar>?w - value_at s i\<bar> \<le> \<bar>?w - value_at s j\<bar>" using closest_handle_nearest [OF ok] by metis
  have "\<exists>t b. mouse_capture allow e s = Inr (t, b) \<and>
    (if allow (slide_call_of Slide_Start i s) then b \<and> sl_handle_index t = Some i else \<not> b \<and> core t = core s)"
    using assms(2) i(1) by (auto simp: mouse_capture_def slider_start_def Let_def sl_frame)
  then show ?thesis using i(2,3) unfolding n by metis
qed

lemma key_target_core: "core s = core t \<Longrightarrow> key_target s = key_target t"
  unfolding key_target_def fun_eq_iff core_eqD [of s t] by simp

lemma core_get_values: "core s = core t \<Longrightarrow> get_values s = get_values t"
  unfolding get_values_def core_eqD(1) [of s t] core_eqD(3) [of s t] by (rule refl)

lemma core_slide_cong:
  assumes "core s = core t"
  shows "core (slider_slide allow i v s) = core (slider_slide allow i v t)"
proof -
  note c = core_eqD [OF assms]
  have v: "core (set_value x (trigger c s)) = core (set_value x (trigger c t))" for x c
    unfolding core_set_value using assms c(3) by (simp add: core_def trigger_def trim_align_value_def)
  have w: "core (set_value_at i x (trigger c s)) = core (set_value_at i x (trigger c t))" for x c
    unfolding core_set_value_at using assms c(3) by (simp add: core_def trigger_def trim_align_value_def)
  note g = core_get_values [OF assms]
  show ?thesis
    unfolding slider_slide_def Let_def c g stop_at_other_core [OF assms] by (simp add: v w core_trigger assms)
qed

text \<open>A key whose start the client refuses changes no value, but the refusal is forgotten: the same key
  repeated before it is released slides the handle without asking again.\<close>

theorem refused_key_start_forgotten:
  assumes "k \<noteq> Key_Other" and "\<not> sl_key_sliding s" and "\<not> allow (slide_call_of Slide_Start i s)"
  shows "core (key_down allow i k s) = core s \<and>
    core (key_down allow i k (key_down allow i k s)) = core (key_slide allow i k s)"
proof -
  let ?s0 = "s\<lparr>sl_key_sliding := True, sl_handles := update_nth i (\<lambda>h. h\<lparr>hd_active := True\<rparr>) (sl_handles s)\<rparr>"
  have z: "core ?s0 = core s" by (simp add: core_def)
  have c: "slide_call_of Slide_Start i ?s0 = slide_call_of Slide_Start i s"
    using core_eqD [OF z] core_get_values [OF z] by (simp add: slide_call_of_def)
  have d: "key_down allow i k s = trigger (slide_call_of Slide_Start i s) ?s0"
    using assms c by (simp add: key_down_def slider_start_def Let_def)
  then have e: "core (key_down allow i k s) = core s" using z by (simp add: core_trigger)
  have "sl_key_sliding (key_down allow i k s)" by (simp add: d trigger_def)
  then have "key_down allow i k (key_down allow i k s) = key_slide allow i k (key_down allow i k s)" by (simp add: key_down_def)
  moreover have "core (key_slide allow i k (key_down allow i k s)) = core (key_slide allow i k s)"
    unfolding key_slide_def key_target_core [OF e] core_eqD(2) [OF e] using e core_slide_cong [OF e]
    by (simp split: option.split)
  ultimately show ?thesis using e by simp
qed

text \<open>\<open>_trimAlignValue\<close> returns the value closest to its argument that is a whole number of steps from the
  lower end and between the ends, and respects the order of its arguments.\<close>

theorem slider_align_nearest:
  assumes "0 < sl_step s" and "sl_min s \<le> sl_max s" and "has_decimals 5 (sl_min s)" and "has_decimals 5 (sl_step s)"
    and "t = calculate_new_max s"
  shows "on_scale (slider_ends_of t) (trim_align_value t v) \<and>
    (\<forall>w. on_scale (slider_ends_of t) w \<longrightarrow> \<bar>trim_align_value t v - v\<bar> \<le> \<bar>w - v\<bar>) \<and>
    (\<forall>v'. v \<le> v' \<longrightarrow> trim_align_value t v \<le> trim_align_value t v')"
proof -
  have e: "ends_ok (sl_min t, sl_top t, sl_step t)"
    using calculate_new_max_ends(1) [OF assms(1-4)] by (simp add: assms(5) calculate_new_max_def)
  show ?thesis
    using align_on_scale [OF e, of v] align_nearest [OF e, of _ v] align_mono [OF e, of v]
    by (simp add: trim_align_value_def slider_ends_of_def)
qed

text \<open>A slider from 0 to 100 in steps of 10 with a range between 20 and 80.\<close>

definition sample_slider :: slider where
  "sample_slider =
     \<lparr>sl_min = 0, sl_max = 100, sl_top = 100, sl_step = 10, sl_value = 0, sl_values = Some [20, 80],
      sl_range = Range_True, sl_vertical = False, sl_disabled = False, sl_key_sliding = False,
      sl_mouse_sliding = False, sl_handle_index = None, sl_last_changed = None, sl_click_offset = None,
      sl_handles = [], sl_bar = None, sl_log = []\<rparr>"

lemma sample_valid: "valid_options sample_slider"
  by (simp add: valid_options_def sample_slider_def has_decimals_def)

lemma sample_handles: "length (sl_handles (slider_create sample_slider)) = 2"
  by (simp add: slider_create_def slider_refresh_def refresh_value_def place_handles_def create_handles_def create_range_def
      range_values_def calculate_new_max_def many_values_def sample_slider_def)

lemma sample_run:
  "map_sum id (\<lambda>t. (sl_values t, length (sl_log t))) (slider_run [(\<lambda>c. True, Key_Pressed 0 Key_End)] (slider_create sample_slider)) = Inr (Some [80, 80], 2)"
  by code_simp


theorem slider_press_takes_nearest_witness:
  "\<exists>t i b. mouse_capture (\<lambda>c. True) \<lparr>m_pos = (70, 5), m_origin = (0, 0), m_size = (100, 10), m_grip = (0, 0), m_hover = False\<rparr>
    (slider_create sample_slider) = Inr (t, b) \<and> i < 2 \<and> sl_handle_index t = Some i"
proof -
  have "\<not> sl_disabled (slider_create sample_slider)"
    by (simp add: slider_create_def slider_refresh_def refresh_value_def create_handles_def create_range_def calculate_new_max_def
        many_values_def range_values_def sample_slider_def)
  from slider_press_takes_nearest [OF slider_create_inv [OF sample_valid] this, where allow = "\<lambda>c. True"]
  show ?thesis by (simp add: sample_handles) blast
qed

theorem slider_align_nearest_witness:
  "on_scale (slider_ends_of (calculate_new_max sample_slider)) (trim_align_value (calculate_new_max sample_slider) 34) \<and>
   \<bar>trim_align_value (calculate_new_max sample_slider) 34 - 34\<bar> \<le> \<bar>30 - (34 :: rat)\<bar>"
proof -
  have "on_scale (slider_ends_of (calculate_new_max sample_slider)) 30"
    by (simp add: on_scale_def slider_ends_of_def calculate_new_max_def sample_slider_def is_multiple_def js_frem_def)
  moreover have "0 < sl_step sample_slider" "sl_min sample_slider \<le> sl_max sample_slider" "has_decimals 5 (sl_min sample_slider)"
    "has_decimals 5 (sl_step sample_slider)" using sample_valid by (simp_all add: valid_options_def)
  ultimately show ?thesis using slider_align_nearest [OF _ _ _ _ refl] by blast
qed

theorem refused_key_start_forgotten_witness:
  "core (key_down (\<lambda>c. sc_kind c \<noteq> Slide_Start) 0 Key_End sample_slider) = core sample_slider \<and>
   sl_values (key_down (\<lambda>c. sc_kind c \<noteq> Slide_Start) 0 Key_End
     (key_down (\<lambda>c. sc_kind c \<noteq> Slide_Start) 0 Key_End sample_slider)) = Some [80, 80]"
proof -
  have "\<not> sl_key_sliding sample_slider" by (simp add: sample_slider_def)
  moreover have "sl_values (key_slide (\<lambda>c. sc_kind c \<noteq> Slide_Start) 0 Key_End sample_slider) = Some [80, 80]" by code_simp
  ultimately show ?thesis
    using refused_key_start_forgotten [of Key_End sample_slider "\<lambda>c. sc_kind c \<noteq> Slide_Start" 0]
    by (simp add: slide_call_of_def core_def)
qed

end
