(* ===== verification/Spinner.thy ===== *)
theory Spinner
  imports Numbers
begin

text \<open>
  The spinner of the deployed bundle (\<open>$.ui.spinner\<close>): a text field whose number is stepped with keys, wheel
  and buttons, repeatedly while they are held. What the client's \<open>start\<close> and \<open>spin\<close> callbacks answer is the
  parameter \<open>allow\<close>; every callback is logged with its answer. Timers are fields of the state and fire as
  events. The step is not 0, and the numbers of the options have at most 20 decimals and are written without
  an exponent; \<open>Globalize\<close> is not loaded. The lemmas show that values stay between the ends, that starts and
  stops alternate, that a held key reaches the end, and what an end off the scale does.
\<close>

section \<open>State\<close>

text \<open>
  The text of the field: none, a number as JavaScript writes it, or any other text with the number \<open>+val\<close>
  makes of it (none for \<open>NaN\<close>).
\<close>

datatype spin_text = Blank | Written rat | Typed string "rat option"

datatype incremental = Incremental bool | Incremental_By "nat \<Rightarrow> rat"

datatype spin_call = Spin_Start | Spin_Spin rat | Spin_Stop | Spin_Change

record spinner =
  sn_min :: "rat option"
  sn_max :: "rat option"
  sn_step :: rat
  sn_page :: rat
  sn_incremental :: incremental
  sn_text :: spin_text
  sn_previous :: spin_text
  sn_spinning :: bool
  sn_counter :: nat
  sn_timer :: "(nat \<times> rat) option"
  sn_wheel :: bool
  sn_cancel_blur :: bool
  sn_focused :: bool
  sn_check :: "spin_text option"
  sn_aria :: "rat option \<times> rat option \<times> rat option"
  sn_log :: "(spin_call \<times> bool) list"

section \<open>Values\<close>

fun text_num :: "spin_text \<Rightarrow> rat option" where
  "text_num Blank = None"
| "text_num (Written v) = Some v"
| "text_num (Typed t n) = n"

definition spin_value :: "spinner \<Rightarrow> rat option" where
  "spin_value s = text_num (sn_text s)"

fun spin_increment :: "incremental \<Rightarrow> nat \<Rightarrow> rat" where
  "spin_increment (Incremental_By f) i = f i"
| "spin_increment (Incremental b) i =
     (let x = (of_nat i :: rat) in
        if b then of_int \<lfloor>x * x * x / 50000 - x * x / 500 + 17 * x / 200 + 1\<rfloor> else 1)"

text \<open>The number of characters after the decimal point.\<close>

definition precision_of :: "rat \<Rightarrow> nat" where
  "precision_of x = (case find (\<lambda>d. has_decimals d x) [0..<20] of Some d \<Rightarrow> d | None \<Rightarrow> 20)"

definition spin_precision :: "spinner \<Rightarrow> nat" where
  "spin_precision s =
     (case sn_min s of Some m \<Rightarrow> max (precision_of (sn_step s)) (precision_of m) | None \<Rightarrow> precision_of (sn_step s))"

definition spin_base :: "spinner \<Rightarrow> rat" where
  "spin_base s = (case sn_min s of Some m \<Rightarrow> m | None \<Rightarrow> 0)"

definition spin_limit :: "spinner \<Rightarrow> rat \<Rightarrow> rat" where
  "spin_limit s v =
     (case sn_max s of
        Some m \<Rightarrow> if v > m then m else (case sn_min s of Some l \<Rightarrow> if v < l then l else v | None \<Rightarrow> v)
      | None \<Rightarrow> (case sn_min s of Some l \<Rightarrow> if v < l then l else v | None \<Rightarrow> v))"

definition adjust_value :: "spinner \<Rightarrow> rat \<Rightarrow> rat" where
  "adjust_value s v =
     (let base = spin_base s; above = of_int (js_round ((v - base) / sn_step s)) * sn_step s in
        spin_limit s (to_fixed (spin_precision s) (base + above)))"

definition spin_valid :: "spinner \<Rightarrow> bool" where
  "spin_valid s \<longleftrightarrow> (case spin_value s of Some v \<Rightarrow> v = adjust_value s v | None \<Rightarrow> False)"

section \<open>Starting, spinning and stopping\<close>

definition spin_refresh :: "spinner \<Rightarrow> spinner" where
  "spin_refresh s = s\<lparr>sn_aria := (sn_min s, sn_max s, spin_value s)\<rparr>"

text \<open>\<open>_value(text, allowAny)\<close>.\<close>

definition put_text :: "bool \<Rightarrow> spin_text \<Rightarrow> spinner \<Rightarrow> spinner" where
  "put_text any t s =
     spin_refresh (s\<lparr>sn_text :=
       (case text_num t of Some v \<Rightarrow> Written (if any then v else adjust_value s v) | None \<Rightarrow> t)\<rparr>)"

definition spin_trigger :: "spin_call \<Rightarrow> bool \<Rightarrow> spinner \<Rightarrow> spinner" where
  "spin_trigger c answer s = s\<lparr>sn_log := sn_log s @ [(c, answer)]\<rparr>"

definition spin_begin :: "(spin_call \<Rightarrow> bool) \<Rightarrow> spinner \<Rightarrow> spinner \<times> bool" where
  "spin_begin allow s =
     (let s1 = (if sn_spinning s then s else spin_trigger Spin_Start (allow Spin_Start) s) in
        if \<not> sn_spinning s \<and> \<not> allow Spin_Start then (s1, False)
        else (s1\<lparr>sn_counter := (if sn_counter s1 = 0 then 1 else sn_counter s1), sn_spinning := True\<rparr>, True))"

definition next_value :: "spinner \<Rightarrow> rat \<Rightarrow> rat" where
  "next_value s step =
     adjust_value s ((case spin_value s of Some v \<Rightarrow> v | None \<Rightarrow> 0) + step * spin_increment (sn_incremental s) (sn_counter s))"

definition spin_by :: "(spin_call \<Rightarrow> bool) \<Rightarrow> rat \<Rightarrow> spinner \<Rightarrow> spinner" where
  "spin_by allow step s =
     (let s1 = s\<lparr>sn_counter := (if sn_counter s = 0 then 1 else sn_counter s)\<rparr>;
          v = next_value s1 step;
          s2 = (if sn_spinning s1 then spin_trigger (Spin_Spin v) (allow (Spin_Spin v)) s1 else s1)
      in if \<not> sn_spinning s1 \<or> allow (Spin_Spin v)
         then (put_text False (Written v) s2)\<lparr>sn_counter := sn_counter s1 + 1\<rparr>
         else s2)"

definition spin_repeat :: "(spin_call \<Rightarrow> bool) \<Rightarrow> nat \<Rightarrow> rat \<Rightarrow> spinner \<Rightarrow> spinner" where
  "spin_repeat allow delay steps s = spin_by allow (steps * sn_step s) (s\<lparr>sn_timer := Some (delay, steps)\<rparr>)"

definition spin_end :: "spinner \<Rightarrow> spinner" where
  "spin_end s =
     (if sn_spinning s
      then spin_trigger Spin_Stop True (s\<lparr>sn_timer := None, sn_wheel := False, sn_counter := 0, sn_spinning := False\<rparr>)
      else s)"

text \<open>\<open>spinner_modifier\<close>: a change is reported when the text is another one afterwards.\<close>

definition spinner_modifier :: "(spinner \<Rightarrow> spinner) \<Rightarrow> spinner \<Rightarrow> spinner" where
  "spinner_modifier f s =
     (let t = spin_refresh (f s) in if sn_text s \<noteq> sn_text t then spin_trigger Spin_Change True t else t)"

definition step_up_by :: "(spin_call \<Rightarrow> bool) \<Rightarrow> rat \<Rightarrow> spinner \<Rightarrow> spinner" where
  "step_up_by allow steps s =
     (let (t, started) = spin_begin allow s in
        if started then spin_end (spin_by allow ((if steps = 0 then 1 else steps) * sn_step t) t) else t)"

definition step_down_by :: "(spin_call \<Rightarrow> bool) \<Rightarrow> rat \<Rightarrow> spinner \<Rightarrow> spinner" where
  "step_down_by allow steps s =
     (let (t, started) = spin_begin allow s in
        if started then spin_end (spin_by allow ((if steps = 0 then 1 else steps) * - sn_step t) t) else t)"

definition step_up :: "(spin_call \<Rightarrow> bool) \<Rightarrow> rat \<Rightarrow> spinner \<Rightarrow> spinner" where
  "step_up allow steps = spinner_modifier (step_up_by allow steps)"

definition step_down :: "(spin_call \<Rightarrow> bool) \<Rightarrow> rat \<Rightarrow> spinner \<Rightarrow> spinner" where
  "step_down allow steps = spinner_modifier (step_down_by allow steps)"

definition page_up :: "(spin_call \<Rightarrow> bool) \<Rightarrow> rat \<Rightarrow> spinner \<Rightarrow> spinner" where
  "page_up allow pages s = spinner_modifier (step_up_by allow ((if pages = 0 then 1 else pages) * sn_page s)) s"

definition page_down :: "(spin_call \<Rightarrow> bool) \<Rightarrow> rat \<Rightarrow> spinner \<Rightarrow> spinner" where
  "page_down allow pages s = spinner_modifier (step_down_by allow ((if pages = 0 then 1 else pages) * sn_page s)) s"

definition set_spin_value :: "spin_text \<Rightarrow> spinner \<Rightarrow> spinner" where
  "set_spin_value t = spinner_modifier (put_text False t)"

section \<open>Creation and options\<close>

text \<open>A limit that is a text is read as a number, or as no limit.\<close>

datatype spin_option =
    Opt_Min spin_text
  | Opt_Max spin_text
  | Opt_Step rat
  | Opt_Page rat
  | Opt_Incremental incremental

fun set_spin_option :: "spin_option \<Rightarrow> spinner \<Rightarrow> spinner" where
  "set_spin_option (Opt_Min t) s = s\<lparr>sn_min := text_num t\<rparr>"
| "set_spin_option (Opt_Max t) s = s\<lparr>sn_max := text_num t\<rparr>"
| "set_spin_option (Opt_Step v) s = s\<lparr>sn_step := v\<rparr>"
| "set_spin_option (Opt_Page v) s = s\<lparr>sn_page := v\<rparr>"
| "set_spin_option (Opt_Incremental b) s = s\<lparr>sn_incremental := b\<rparr>"

definition set_spin_options :: "spin_option list \<Rightarrow> spinner \<Rightarrow> spinner" where
  "set_spin_options opts = spinner_modifier (fold set_spin_option opts)"

text \<open>At creation the value is formatted, not adjusted.\<close>

definition spin_create :: "spin_text \<Rightarrow> spin_text \<Rightarrow> rat \<Rightarrow> spinner \<Rightarrow> spinner" where
  "spin_create max_opt min_opt step s =
     (let t = fold set_spin_option [Opt_Max max_opt, Opt_Min min_opt, Opt_Step step] s in
        spin_refresh (put_text True (sn_text t) t))"

section \<open>Events\<close>

datatype spin_key = Spin_Up | Spin_Down | Spin_Page_Up | Spin_Page_Down | Spin_Other

definition key_steps :: "spinner \<Rightarrow> spin_key \<Rightarrow> rat option" where
  "key_steps s k =
     (case k of Spin_Up \<Rightarrow> Some 1 | Spin_Down \<Rightarrow> Some (- 1) | Spin_Page_Up \<Rightarrow> Some (sn_page s)
      | Spin_Page_Down \<Rightarrow> Some (- sn_page s) | Spin_Other \<Rightarrow> None)"

text \<open>The new state and whether the default action of the key is prevented.\<close>

definition spin_keydown :: "(spin_call \<Rightarrow> bool) \<Rightarrow> spin_key \<Rightarrow> spinner \<Rightarrow> spinner \<times> bool" where
  "spin_keydown allow k s =
     (let (t, started) = spin_begin allow s in
        if started
        then (case key_steps t k of Some n \<Rightarrow> (spin_repeat allow 500 n t, True) | None \<Rightarrow> (t, False))
        else (t, False))"

definition spin_focus :: "spinner \<Rightarrow> spinner" where
  "spin_focus s = s\<lparr>sn_focused := True, sn_previous := sn_text s\<rparr>"

definition spin_blur :: "spinner \<Rightarrow> spinner" where
  "spin_blur s =
     (if sn_cancel_blur s then s\<lparr>sn_focused := False, sn_cancel_blur := False\<rparr>
      else
        let t = spin_refresh (spin_end (s\<lparr>sn_focused := False\<rparr>)) in
          if sn_previous t \<noteq> sn_text t then spin_trigger Spin_Change True t else t)"

definition spin_wheel :: "(spin_call \<Rightarrow> bool) \<Rightarrow> rat \<Rightarrow> spinner \<Rightarrow> spinner" where
  "spin_wheel allow delta s =
     (if delta = 0 then s
      else
        let (t, started) = (if sn_spinning s then (s, True) else spin_begin allow s) in
          if started then (spin_by allow ((if delta > 0 then 1 else - 1) * sn_step t) t)\<lparr>sn_wheel := True\<rparr> else t)"

text \<open>The field is focused with the text it had before the press, unless it is focused already.\<close>

definition check_focus :: "spin_text \<Rightarrow> spinner \<Rightarrow> spinner" where
  "check_focus previous s = (if sn_focused s then s else s\<lparr>sn_focused := True, sn_previous := previous\<rparr>)"

definition button_hold :: "(spin_call \<Rightarrow> bool) \<Rightarrow> bool \<Rightarrow> spinner \<Rightarrow> spinner" where
  "button_hold allow up s =
     (let (t, started) = spin_begin allow s in
        if started then spin_repeat allow 500 (if up then 1 else - 1) t else t)"

definition button_down :: "(spin_call \<Rightarrow> bool) \<Rightarrow> bool \<Rightarrow> spinner \<Rightarrow> spinner" where
  "button_down allow up s =
     (let previous = (if sn_focused s then sn_previous s else sn_text s) in
        button_hold allow up ((check_focus previous s)\<lparr>sn_cancel_blur := True, sn_check := Some previous\<rparr>))"

definition button_enter :: "(spin_call \<Rightarrow> bool) \<Rightarrow> bool \<Rightarrow> bool \<Rightarrow> spinner \<Rightarrow> spinner" where
  "button_enter allow active up s = (if active then button_hold allow up s else s)"

definition repeat_timer :: "(spin_call \<Rightarrow> bool) \<Rightarrow> spinner \<Rightarrow> spinner" where
  "repeat_timer allow s = (case sn_timer s of Some (delay, n) \<Rightarrow> spin_repeat allow 40 n s | None \<Rightarrow> s)"

definition wheel_timer :: "spinner \<Rightarrow> spinner" where
  "wheel_timer s = (if sn_wheel s then spin_end (s\<lparr>sn_wheel := False\<rparr>) else s)"

definition check_timer :: "spinner \<Rightarrow> spinner" where
  "check_timer s =
     (case sn_check s of
        Some previous \<Rightarrow> check_focus previous (s\<lparr>sn_cancel_blur := False, sn_check := None\<rparr>)
      | None \<Rightarrow> s)"

datatype spin_event =
    Key_Down spin_key
  | Key_Up
  | Field_Focus
  | Field_Blur
  | Wheel rat
  | Button_Down bool
  | Button_Enter bool bool
  | Button_Released
  | Repeat_Timer
  | Wheel_Timer
  | Check_Timer
  | User_Types spin_text
  | Call_Step_Up rat
  | Call_Step_Down rat
  | Call_Page_Up rat
  | Call_Page_Down rat
  | Call_Value spin_text

fun spin_step :: "(spin_call \<Rightarrow> bool) \<Rightarrow> spin_event \<Rightarrow> spinner \<Rightarrow> spinner" where
  "spin_step allow (Key_Down k) s = fst (spin_keydown allow k s)"
| "spin_step allow Key_Up s = spin_end s"
| "spin_step allow Field_Focus s = spin_focus s"
| "spin_step allow Field_Blur s = spin_blur s"
| "spin_step allow (Wheel d) s = spin_wheel allow d s"
| "spin_step allow (Button_Down up) s = button_down allow up s"
| "spin_step allow (Button_Enter active up) s = button_enter allow active up s"
| "spin_step allow Button_Released s = spin_end s"
| "spin_step allow Repeat_Timer s = repeat_timer allow s"
| "spin_step allow Wheel_Timer s = wheel_timer s"
| "spin_step allow Check_Timer s = check_timer s"
| "spin_step allow (User_Types t) s = s\<lparr>sn_text := t\<rparr>"
| "spin_step allow (Call_Step_Up n) s = step_up allow n s"
| "spin_step allow (Call_Step_Down n) s = step_down allow n s"
| "spin_step allow (Call_Page_Up n) s = page_up allow n s"
| "spin_step allow (Call_Page_Down n) s = page_down allow n s"
| "spin_step allow (Call_Value t) s = set_spin_value t s"

fun spin_run :: "((spin_call \<Rightarrow> bool) \<times> spin_event) list \<Rightarrow> spinner \<Rightarrow> spinner" where
  "spin_run [] s = s"
| "spin_run ((allow, e) # es) s = spin_run es (spin_step allow e s)"

section \<open>Values stay between the ends\<close>

abbreviation within_ends :: "spinner \<Rightarrow> rat \<Rightarrow> bool" where
  "within_ends s \<equiv> in_bounds (sn_min s) (sn_max s)"

interpretation spun: bounded_control "\<lambda>s. limits_ordered (sn_min s) (sn_max s)" within_ends adjust_value
  by unfold_locales
    (auto simp: adjust_value_def spin_limit_def in_bounds_def limits_ordered_def Let_def split: option.splits)

text \<open>The options, which no event changes.\<close>

definition spin_options_of :: "spinner \<Rightarrow> rat option \<times> rat option \<times> rat \<times> rat \<times> incremental" where
  "spin_options_of s = (sn_min s, sn_max s, sn_step s, sn_page s, sn_incremental s)"

text \<open>The client's view of the log: \<open>start\<close> only when at rest, \<open>spin\<close> and \<open>stop\<close> only while spinning.\<close>

fun spin_phase :: "bool \<Rightarrow> (spin_call \<times> bool) list \<Rightarrow> bool option" where
  "spin_phase b [] = Some b"
| "spin_phase b ((Spin_Start, answer) # l) = (if b then None else spin_phase answer l)"
| "spin_phase b ((Spin_Spin v, answer) # l) = (if b then spin_phase True l else None)"
| "spin_phase b ((Spin_Stop, answer) # l) = (if b then spin_phase False l else None)"
| "spin_phase b ((Spin_Change, answer) # l) = spin_phase b l"

lemma spin_phase_append: "spin_phase b (l @ k) = (case spin_phase b l of Some c \<Rightarrow> spin_phase c k | None \<Rightarrow> None)"
  by (induction b l rule: spin_phase.induct) simp_all

text \<open>The log is in order, and timers run and the counter counts only while the spinner spins.\<close>

definition spin_inv :: "spinner \<Rightarrow> bool" where
  "spin_inv s \<longleftrightarrow> spin_phase False (sn_log s) = Some (sn_spinning s) \<and> (sn_timer s \<noteq> None \<longrightarrow> sn_spinning s) \<and>
     (sn_wheel s \<longrightarrow> sn_spinning s) \<and> (sn_spinning s \<longleftrightarrow> sn_counter s \<noteq> 0)"

text \<open>What the steps from \<open>s\<close> to \<open>t\<close> may do: the text is the old one or a number between the ends.\<close>

definition spin_kept :: "spinner \<Rightarrow> spinner \<Rightarrow> bool" where
  "spin_kept s t \<longleftrightarrow> spin_inv t \<and> spin_options_of t = spin_options_of s \<and>
     (sn_text t = sn_text s \<or> (\<exists>v. sn_text t = Written v \<and> within_ends s v))"

lemma within_options: "spin_options_of t = spin_options_of s \<Longrightarrow> within_ends t = within_ends s"
  by (simp add: spin_options_of_def)

lemma spin_kept_refl: "spin_inv s \<Longrightarrow> spin_kept s s"
  by (simp add: spin_kept_def)

lemma spin_kept_trans:
  assumes "spin_kept s t" and "spin_kept t u"
  shows "spin_kept s u"
proof -
  have w: "within_ends t = within_ends s" by (rule within_options) (use assms(1) in \<open>simp only: spin_kept_def\<close>)
  have "sn_text u = sn_text s \<or> (\<exists>v. sn_text u = Written v \<and> within_ends s v)"
  proof (cases "sn_text u = sn_text t")
    case True
    with assms(1) show ?thesis by (simp only: spin_kept_def)
  next
    case False
    with assms(2) show ?thesis by (simp only: spin_kept_def w) blast
  qed
  moreover have "spin_options_of u = spin_options_of s" "spin_inv u" using assms by (simp_all only: spin_kept_def)
  ultimately show ?thesis by (simp only: spin_kept_def)
qed

lemma spin_kept_inv: "spin_kept s t \<Longrightarrow> spin_inv t"
  by (simp add: spin_kept_def)

lemma spin_begin_kept:
  assumes "spin_inv s" and "spin_begin allow s = (t, started)"
  shows "spin_kept s t \<and> (started \<longrightarrow> sn_spinning t) \<and> sn_text t = sn_text s"
proof (cases "sn_spinning s")
  case True
  with assms have "t = s\<lparr>sn_counter := sn_counter s, sn_spinning := True\<rparr>"
    by (auto simp: spin_begin_def spin_inv_def)
  with assms(1) True show ?thesis by (auto simp: spin_kept_def spin_inv_def spin_options_of_def)
next
  case False
  let ?s = "spin_trigger Spin_Start (allow Spin_Start) s"
  have i: "spin_phase False (sn_log ?s) = Some (allow Spin_Start)" "sn_timer s = None" "\<not> sn_wheel s" "sn_counter s = 0"
    using assms(1) False by (cases "sn_timer s"; simp add: spin_inv_def spin_trigger_def spin_phase_append)+
  show ?thesis
  proof (cases "allow Spin_Start")
    case True
    then have "t = ?s\<lparr>sn_counter := 1, sn_spinning := True\<rparr>"
      using assms(2) False i(4) by (auto simp: spin_begin_def Let_def spin_trigger_def)
    then show ?thesis using i True by (simp add: spin_kept_def spin_inv_def spin_options_of_def) (simp add: spin_trigger_def)
  next
    case refused: False
    then have "t = ?s" "\<not> started" using assms(2) False by (simp_all add: spin_begin_def)
    then show ?thesis
      using i refused False by (simp add: spin_kept_def spin_inv_def spin_options_of_def) (simp add: spin_trigger_def)
  qed
qed

lemma spin_end_kept: "spin_inv s \<Longrightarrow> spin_kept s (spin_end s)"
  by (auto simp: spin_end_def spin_kept_def spin_inv_def spin_options_of_def spin_trigger_def spin_phase_append)

lemma adjust_value_options:
  assumes "spin_options_of t = spin_options_of s"
  shows "adjust_value t = adjust_value s"
proof -
  from assms have f: "sn_min t = sn_min s" "sn_max t = sn_max s" "sn_step t = sn_step s" by (simp_all add: spin_options_of_def)
  show ?thesis unfolding adjust_value_def spin_limit_def spin_base_def spin_precision_def f by (rule refl)
qed

lemma next_value_within: "limits_ordered (sn_min s) (sn_max s) \<Longrightarrow> within_ends s (next_value s step)"
  unfolding next_value_def by (rule spun.settle_within)

lemma put_text_kept:
  assumes "spin_inv s" and "limits_ordered (sn_min s) (sn_max s)"
  shows "spin_kept s (put_text False (Written v) s)"
  using assms spun.settle_within [of s v] by (auto simp: put_text_def spin_refresh_def spin_kept_def spin_inv_def spin_options_of_def)

lemma put_text_fields [simp]:
  "sn_log (put_text a t s) = sn_log s" "sn_timer (put_text a t s) = sn_timer s" "sn_wheel (put_text a t s) = sn_wheel s"
  "sn_spinning (put_text a t s) = sn_spinning s" "sn_counter (put_text a t s) = sn_counter s"
  "sn_min (put_text a t s) = sn_min s" "sn_max (put_text a t s) = sn_max s" "sn_step (put_text a t s) = sn_step s"
  "sn_page (put_text a t s) = sn_page s" "sn_incremental (put_text a t s) = sn_incremental s"
  "sn_text (put_text a t s) = (case text_num t of Some v \<Rightarrow> Written (if a then v else adjust_value s v) | None \<Rightarrow> t)"
  by (simp_all add: put_text_def spin_refresh_def)

lemma spin_by_kept:
  assumes inv: "spin_inv s" and lim: "limits_ordered (sn_min s) (sn_max s)" and sp: "sn_spinning s"
  shows "spin_kept s (spin_by allow step s)" and "sn_spinning (spin_by allow step s)"
proof -
  define v where "v = next_value s step"
  have c: "s\<lparr>sn_counter := if sn_counter s = 0 then 1 else sn_counter s\<rparr> = s"
    using inv sp by (simp add: spin_inv_def)
  define t where "t = spin_trigger (Spin_Spin v) (allow (Spin_Spin v)) s"
  have e: "spin_by allow step s = (if allow (Spin_Spin v) then (put_text False (Written v) t)\<lparr>sn_counter := sn_counter s + 1\<rparr> else t)"
    unfolding spin_by_def Let_def c using sp by (simp add: v_def t_def)
  have o: "spin_options_of t = spin_options_of s" by (simp add: t_def spin_trigger_def spin_options_of_def)
  have ti: "spin_inv t" using inv sp by (simp add: t_def spin_trigger_def spin_inv_def spin_phase_append)
  have "adjust_value t v = adjust_value s v" using adjust_value_options [OF o] by simp
  moreover have "within_ends s (adjust_value s v)" by (rule spun.settle_within [OF lim])
  moreover have "sn_spinning t" "sn_text t = sn_text s" "sn_log t = sn_log t" using sp by (simp_all add: t_def spin_trigger_def)
  ultimately show "spin_kept s (spin_by allow step s)" "sn_spinning (spin_by allow step s)"
    using ti o unfolding e by (auto simp: spin_kept_def spin_inv_def spin_options_of_def)
qed

lemma spin_kept_limits: "spin_kept s t \<Longrightarrow> limits_ordered (sn_min t) (sn_max t) = limits_ordered (sn_min s) (sn_max s)"
  by (simp add: spin_kept_def spin_options_of_def)

text \<open>A change of fields that neither the log nor the text depends on.\<close>

lemma spin_kept_fields:
  assumes "spin_inv s" and "sn_text t = sn_text s" and "sn_log t = sn_log s" and "spin_options_of t = spin_options_of s"
    and "sn_spinning t = sn_spinning s" and "sn_counter t = sn_counter s"
    and "sn_timer t \<noteq> None \<longrightarrow> sn_spinning s" and "sn_wheel t \<longrightarrow> sn_spinning s"
  shows "spin_kept s t"
  using assms by (simp add: spin_kept_def spin_inv_def)

lemma spin_repeat_kept:
  assumes "spin_inv s" and "limits_ordered (sn_min s) (sn_max s)" and "sn_spinning s"
  shows "spin_kept s (spin_repeat allow delay n s)"
proof -
  let ?t = "s\<lparr>sn_timer := Some (delay, n)\<rparr>"
  have k: "spin_kept s ?t" using assms by (intro spin_kept_fields) (simp_all add: spin_options_of_def spin_inv_def)
  have "spin_kept ?t (spin_by allow (n * sn_step s) ?t)"
    using spin_kept_inv [OF k] assms by (intro spin_by_kept) simp_all
  then show ?thesis using spin_kept_trans [OF k] by (simp add: spin_repeat_def)
qed

lemma spin_change_kept: "spin_kept s t \<Longrightarrow> spin_kept s (spin_trigger Spin_Change True t)"
  by (auto simp: spin_kept_def spin_inv_def spin_trigger_def spin_phase_append spin_options_of_def)

lemma spin_refresh_kept: "spin_kept s t \<Longrightarrow> spin_kept s (spin_refresh t)"
  by (auto simp: spin_kept_def spin_inv_def spin_refresh_def spin_options_of_def)

lemma spinner_modifier_kept: "spin_kept s (f s) \<Longrightarrow> spin_kept s (spinner_modifier f s)"
  by (simp add: spinner_modifier_def Let_def spin_change_kept spin_refresh_kept)

lemma step_by_kept:
  assumes "spin_inv s" and "limits_ordered (sn_min s) (sn_max s)"
  shows "spin_kept s (step_up_by allow n s)" and "spin_kept s (step_down_by allow n s)"
proof -
  obtain t started where t: "spin_begin allow s = (t, started)" by (metis prod.exhaust)
  note b = spin_begin_kept [OF assms(1) t]
  have "spin_kept s (spin_end (spin_by allow x t))" if started for x
  proof -
    have k: "spin_kept t (spin_by allow x t)"
      using b that assms spin_kept_inv spin_kept_limits [of s t] by (intro spin_by_kept) auto
    show ?thesis using spin_kept_trans [OF k spin_end_kept [OF spin_kept_inv [OF k]]] b spin_kept_trans by blast
  qed
  then show "spin_kept s (step_up_by allow n s)" "spin_kept s (step_down_by allow n s)"
    using b by (simp_all add: step_up_by_def step_down_by_def t)
qed

lemma button_hold_kept:
  assumes "spin_inv s" and "limits_ordered (sn_min s) (sn_max s)"
  shows "spin_kept s (button_hold allow up s)"
proof -
  obtain t started where t: "spin_begin allow s = (t, started)" by (metis prod.exhaust)
  note b = spin_begin_kept [OF assms(1) t]
  have "spin_kept s (spin_repeat allow d x t)" if started for d x
  proof -
    have "spin_kept t (spin_repeat allow d x t)"
      using b that assms spin_kept_inv spin_kept_limits [of s t] by (intro spin_repeat_kept) auto
    then show ?thesis using b spin_kept_trans by blast
  qed
  then show ?thesis using b by (simp add: button_hold_def t)
qed

lemma spin_keydown_kept:
  assumes "spin_inv s" and "limits_ordered (sn_min s) (sn_max s)"
  shows "spin_kept s (fst (spin_keydown allow k s))"
proof -
  obtain t started where t: "spin_begin allow s = (t, started)" by (metis prod.exhaust)
  note b = spin_begin_kept [OF assms(1) t]
  have "spin_kept s (spin_repeat allow d x t)" if started for d x
  proof -
    have "spin_kept t (spin_repeat allow d x t)"
      using b that assms spin_kept_inv spin_kept_limits [of s t] by (intro spin_repeat_kept) auto
    then show ?thesis using b spin_kept_trans by blast
  qed
  then show ?thesis using b by (simp add: spin_keydown_def t split: option.split)
qed

lemma spin_wheel_kept:
  assumes "spin_inv s" and "limits_ordered (sn_min s) (sn_max s)"
  shows "spin_kept s (spin_wheel allow d s)"
proof -
  obtain t started where t: "(if sn_spinning s then (s, True) else spin_begin allow s) = (t, started)" by (metis prod.exhaust)
  have b: "spin_kept s t \<and> (started \<longrightarrow> sn_spinning t)"
    using spin_begin_kept [OF assms(1), of allow t started] t spin_kept_refl [OF assms(1)] by (auto split: if_splits)
  have "spin_kept s ((spin_by allow x t)\<lparr>sn_wheel := True\<rparr>)" if started for x
  proof -
    have k: "spin_kept t (spin_by allow x t)" "sn_spinning (spin_by allow x t)"
      using b that assms spin_kept_inv spin_kept_limits [of s t] spin_by_kept [of t allow x] by auto
    have "spin_kept (spin_by allow x t) ((spin_by allow x t)\<lparr>sn_wheel := True\<rparr>)"
      using spin_kept_inv [OF k(1)] k(2) by (intro spin_kept_fields) (simp_all add: spin_options_of_def)
    then show ?thesis using k(1) b spin_kept_trans by blast
  qed
  then show ?thesis using b spin_kept_refl [OF assms(1)] by (simp add: spin_wheel_def t)
qed

text \<open>The texts an event brings with it.\<close>

fun supplied :: "spin_event \<Rightarrow> spin_text list" where
  "supplied (User_Types t) = [t]"
| "supplied (Call_Value t) = (if text_num t = None then [t] else [])"
| "supplied _ = []"

lemma spin_blur_kept:
  assumes "spin_inv s"
  shows "spin_kept s (spin_blur s)"
proof (cases "sn_cancel_blur s")
  case True
  then show ?thesis using assms by (auto simp: spin_blur_def spin_options_of_def spin_inv_def intro!: spin_kept_fields)
next
  case False
  let ?s = "s\<lparr>sn_focused := False\<rparr>"
  have k: "spin_kept s ?s" using assms by (intro spin_kept_fields) (auto simp: spin_options_of_def spin_inv_def)
  have "spin_kept s (spin_refresh (spin_end ?s))"
    using spin_kept_trans [OF k spin_end_kept [OF spin_kept_inv [OF k]]] by (rule spin_refresh_kept)
  then show ?thesis using False by (simp add: spin_blur_def Let_def spin_change_kept)
qed

lemma check_focus_kept: "spin_inv s \<Longrightarrow> spin_kept s (check_focus p s)"
  by (auto simp: check_focus_def spin_kept_refl intro!: spin_kept_fields)
    (auto simp: spin_options_of_def spin_inv_def)

lemma button_down_kept:
  assumes "spin_inv s" and "limits_ordered (sn_min s) (sn_max s)"
  shows "spin_kept s (button_down allow up s)"
proof -
  define p where "p = (if sn_focused s then sn_previous s else sn_text s)"
  let ?t = "(check_focus p s)\<lparr>sn_cancel_blur := True, sn_check := Some p\<rparr>"
  have c: "spin_kept s (check_focus p s)" using assms(1) by (rule check_focus_kept)
  have "spin_kept (check_focus p s) ?t"
    using spin_kept_inv [OF c] by (intro spin_kept_fields) (auto simp: spin_options_of_def spin_inv_def)
  then have k: "spin_kept s ?t" using c spin_kept_trans by blast
  have h: "spin_kept ?t (button_hold allow up ?t)"
    by (rule button_hold_kept [OF spin_kept_inv [OF k]]) (simp only: spin_kept_limits [OF k] assms(2))
  show ?thesis unfolding button_down_def Let_def p_def [symmetric] by (rule spin_kept_trans [OF k h])
qed

lemma wheel_timer_kept:
  assumes "spin_inv s"
  shows "spin_kept s (wheel_timer s)"
proof -
  have k: "spin_kept s (s\<lparr>sn_wheel := False\<rparr>)" using assms by (intro spin_kept_fields) (auto simp: spin_options_of_def spin_inv_def)
  then show ?thesis
    using spin_kept_trans [OF k spin_end_kept [OF spin_kept_inv [OF k]]] spin_kept_refl [OF assms] by (simp add: wheel_timer_def)
qed

lemma check_timer_kept:
  assumes "spin_inv s"
  shows "spin_kept s (check_timer s)"
proof (cases "sn_check s")
  case (Some p)
  let ?t = "s\<lparr>sn_cancel_blur := False, sn_check := None\<rparr>"
  have k: "spin_kept s ?t" using assms by (intro spin_kept_fields) (auto simp: spin_options_of_def spin_inv_def)
  show ?thesis
    using spin_kept_trans [OF k check_focus_kept [OF spin_kept_inv [OF k]]] Some by (simp add: check_timer_def)
qed (use assms in \<open>simp add: check_timer_def spin_kept_refl\<close>)

lemma spin_step_kept:
  assumes inv: "spin_inv s" and lim: "limits_ordered (sn_min s) (sn_max s)"
  shows "spin_kept s (spin_step allow e s) \<or>
    spin_inv (spin_step allow e s) \<and> spin_options_of (spin_step allow e s) = spin_options_of s \<and>
    sn_text (spin_step allow e s) \<in> set (supplied e)"
proof (cases e)
  case Repeat_Timer
  have "sn_spinning s" if "sn_timer s = Some x" for x using inv that by (simp add: spin_inv_def)
  then show ?thesis using Repeat_Timer spin_repeat_kept [OF inv lim] spin_kept_refl [OF inv]
    by (auto simp: repeat_timer_def split: option.split)
next
  case (User_Types t)
  then show ?thesis using inv by (auto simp: spin_inv_def spin_options_of_def)
next
  case (Call_Value t)
  show ?thesis
  proof (cases "text_num t")
    case None
    have "spin_inv (spinner_modifier (put_text False t) s)"
      using inv by (auto simp: spinner_modifier_def Let_def spin_inv_def spin_trigger_def spin_refresh_def spin_phase_append)
    then show ?thesis using None Call_Value
      by (simp add: set_spin_value_def spinner_modifier_def Let_def spin_trigger_def spin_refresh_def spin_options_of_def)
  next
    case (Some v)
    then have "put_text False t s = put_text False (Written v) s" by (simp add: put_text_def)
    then have "spin_kept s (spinner_modifier (put_text False t) s)"
      using put_text_kept [OF inv lim, of v] spinner_modifier_kept [of s "put_text False t"] by simp
    then show ?thesis using Call_Value by (simp add: set_spin_value_def)
  qed
next
  case (Button_Enter active up)
  then show ?thesis using button_hold_kept [OF inv lim] spin_kept_refl [OF inv] by (simp add: button_enter_def)
next
  case Field_Focus
  then show ?thesis using inv by (auto simp: spin_focus_def spin_kept_def spin_inv_def spin_options_of_def)
qed (use spin_keydown_kept [OF inv lim] spin_end_kept [OF inv] spin_blur_kept [OF inv] spin_wheel_kept [OF inv lim]
    button_down_kept [OF inv lim] wheel_timer_kept [OF inv] check_timer_kept [OF inv] step_by_kept [OF inv lim] in
    \<open>simp_all add: step_up_def step_down_def page_up_def page_down_def spinner_modifier_kept\<close>)

lemma spin_run_kept:
  assumes "spin_inv s" and "limits_ordered (sn_min s) (sn_max s)"
  shows "spin_inv (spin_run es s) \<and> spin_options_of (spin_run es s) = spin_options_of s \<and>
    (sn_text (spin_run es s) = sn_text s \<or> (\<exists>(allow, e) \<in> set es. sn_text (spin_run es s) \<in> set (supplied e)) \<or>
     (\<exists>v. sn_text (spin_run es s) = Written v \<and> within_ends s v))"
  using assms
proof (induction es arbitrary: s)
  case (Cons x es)
  obtain allow e where x: "x = (allow, e)" by (metis prod.exhaust)
  define t where "t = spin_step allow e s"
  have k: "spin_inv t" "spin_options_of t = spin_options_of s"
    "sn_text t = sn_text s \<or> sn_text t \<in> set (supplied e) \<or> (\<exists>v. sn_text t = Written v \<and> within_ends s v)"
    using spin_step_kept [OF Cons.prems, of allow e] by (auto simp: t_def spin_kept_def)
  have lim: "limits_ordered (sn_min t) (sn_max t)" using k(2) Cons.prems(2) by (simp add: spin_options_of_def)
  note ih = Cons.IH [OF k(1) lim] and w = within_options [OF k(2)]
  have r: "spin_run (x # es) s = spin_run es t" by (simp add: x t_def)
  have "sn_text (spin_run es t) = sn_text t \<or> (\<exists>(allow, e) \<in> set (x # es). sn_text (spin_run es t) \<in> set (supplied e)) \<or>
     (\<exists>v. sn_text (spin_run es t) = Written v \<and> within_ends s v)"
    using ih unfolding w by auto
  then have "sn_text (spin_run es t) = sn_text s \<or> (\<exists>(allow, e) \<in> set (x # es). sn_text (spin_run es t) \<in> set (supplied e)) \<or>
     (\<exists>v. sn_text (spin_run es t) = Written v \<and> within_ends s v)"
    using k(3) by (elim disjE) (auto simp: x)
  then show ?case unfolding r using ih k(2) by simp
qed simp

section \<open>The scale of a spinner\<close>

lemma precision_of_decimals:
  assumes "has_decimals 19 x"
  shows "has_decimals (precision_of x) x"
proof (cases "find (\<lambda>d. has_decimals d x) [0..<20]")
  case None
  then show ?thesis using assms by (auto simp: find_None_iff)
next
  case (Some d)
  then have "has_decimals d x" by (auto simp: find_Some_iff)
  with Some show ?thesis by (simp add: precision_of_def)
qed

text \<open>A positive step and a lower end with few enough decimals.\<close>

definition spin_ok :: "spinner \<Rightarrow> bool" where
  "spin_ok s \<longleftrightarrow> 0 < sn_step s \<and> has_decimals 19 (sn_step s) \<and> has_decimals 19 (spin_base s) \<and>
     limits_ordered (sn_min s) (sn_max s)"

lemma has_decimals_0: "has_decimals d 0"
  by (simp add: has_decimals_def)

lemma spin_precision_decimals:
  assumes "spin_ok s"
  shows "has_decimals (spin_precision s) (spin_base s + of_int k * sn_step s)"
proof -
  have s: "has_decimals (precision_of (sn_step s)) (sn_step s)" using assms by (simp add: spin_ok_def precision_of_decimals)
  have "has_decimals (spin_precision s) (sn_step s)" "has_decimals (spin_precision s) (spin_base s)"
    using s assms precision_of_decimals [of "spin_base s"]
    by (auto simp: spin_precision_def spin_base_def spin_ok_def has_decimals_0 intro: has_decimals_mono split: option.splits)
  then show ?thesis by (intro has_decimals_add has_decimals_mult)
qed

lemma js_round_near: "0 \<le> r \<Longrightarrow> 2 * r < stp \<Longrightarrow> js_round ((of_int k * stp + r) / stp) = k"
proof -
  assume r: "0 \<le> r" "2 * r < stp"
  then have p: "0 < stp" by linarith
  have "(of_int k * stp + r) / stp = of_int k + r / stp" using p by (simp add: add_divide_distrib)
  moreover have "0 \<le> r / stp" "r / stp < 1 / 2" using r p by (simp_all add: pos_divide_less_eq)
  ultimately show ?thesis by (simp add: js_round_def floor_unique)
qed

text \<open>Up to half a step above a value of the scale the value is taken, as far as the ends allow.\<close>

lemma adjust_near:
  assumes ok: "spin_ok s" and "0 \<le> r" and "2 * r < sn_step s"
  shows "adjust_value s (spin_base s + of_int k * sn_step s + r) = spin_limit s (spin_base s + of_int k * sn_step s)"
proof -
  have "js_round ((spin_base s + of_int k * sn_step s + r - spin_base s) / sn_step s) = k"
    using js_round_near [OF assms(2,3), of k] by (simp add: algebra_simps)
  then show ?thesis using to_fixed_id [OF spin_precision_decimals [OF ok]] by (simp add: adjust_value_def Let_def)
qed

lemma adjust_aligned:
  "spin_ok s \<Longrightarrow> adjust_value s (spin_base s + of_int k * sn_step s) = spin_limit s (spin_base s + of_int k * sn_step s)"
  using adjust_near [of s 0 k] by (simp add: spin_ok_def)

lemma spin_increment_pos: "\<exists>k \<ge> 1. spin_increment (Incremental b) i = of_int k"
proof (cases b)
  case True
  define x where "x = (of_nat i :: rat)"
  have x: "0 \<le> x" by (simp add: x_def)
  have "0 \<le> x * ((x - 50) * (x - 50) + 1750) / 50000" using x by simp
  also have "\<dots> = x * x * x / 50000 - x * x / 500 + 17 * x / 200" by (simp add: field_simps)
  finally have "1 \<le> \<lfloor>x * x * x / 50000 - x * x / 500 + 17 * x / 200 + 1\<rfloor>" by simp
  moreover have "spin_increment (Incremental b) i = of_int \<lfloor>x * x * x / 50000 - x * x / 500 + 17 * x / 200 + 1\<rfloor>"
    using True by (simp only: spin_increment.simps Let_def x_def if_True)
  ultimately show ?thesis by blast
qed (auto intro: exI [of _ 1])

text \<open>With ends on the scale, an adjusted value stays as it is.\<close>

definition ends_on_spin_scale :: "spinner \<Rightarrow> bool" where
  "ends_on_spin_scale s \<longleftrightarrow> spin_ok s \<and> (case sn_max s of Some m \<Rightarrow> is_multiple (m - spin_base s) (sn_step s) | None \<Rightarrow> True)"

lemma adjust_on_scale:
  assumes "ends_on_spin_scale s"
  shows "\<exists>k. adjust_value s v = spin_base s + of_int k * sn_step s"
proof -
  have ok: "spin_ok s" using assms by (simp add: ends_on_spin_scale_def)
  define k where "k = js_round ((v - spin_base s) / sn_step s)"
  have "adjust_value s v = spin_limit s (spin_base s + of_int k * sn_step s)"
    using to_fixed_id [OF spin_precision_decimals [OF ok]] by (simp add: adjust_value_def Let_def k_def)
  moreover have "\<exists>k. m = spin_base s + of_int k * sn_step s" if "sn_max s = Some m" for m
  proof -
    have "is_multiple (m - spin_base s) (sn_step s)" using assms that by (simp add: ends_on_spin_scale_def)
    then obtain j where "m - spin_base s = of_int j * sn_step s" by (rule is_multipleE)
    then show ?thesis by (auto simp: algebra_simps)
  qed
  moreover have "\<exists>k. l = spin_base s + of_int k * sn_step s" if "sn_min s = Some l" for l
    using that by (auto simp: spin_base_def intro: exI [of _ 0])
  ultimately show ?thesis by (auto simp: spin_limit_def split: option.splits if_splits)
qed

interpretation spun_on_scale: stable_control ends_on_spin_scale within_ends adjust_value
proof
  fix s v
  assume e: "ends_on_spin_scale s"
  then have ok: "spin_ok s" by (simp add: ends_on_spin_scale_def)
  show w: "within_ends s (adjust_value s v)" using ok by (intro spun.settle_within) (simp add: spin_ok_def)
  obtain k where k: "adjust_value s v = spin_base s + of_int k * sn_step s" using adjust_on_scale [OF e] by blast
  have "adjust_value s (adjust_value s v) = spin_limit s (adjust_value s v)" unfolding k by (rule adjust_aligned [OF ok])
  also have "\<dots> = adjust_value s v" using w by (auto simp: spin_limit_def in_bounds_def split: option.splits)
  finally show "adjust_value s (adjust_value s v) = adjust_value s v" .
qed

section \<open>Steps the client allows\<close>

lemma spin_by_allowed:
  assumes "sn_spinning s" and "sn_counter s \<noteq> 0"
  shows "sn_text (spin_by (\<lambda>c. True) x s) = Written (adjust_value s (next_value s x))"
    and "sn_log (spin_by (\<lambda>c. True) x s) = sn_log s @ [(Spin_Spin (next_value s x), True)]"
proof -
  have c: "s\<lparr>sn_counter := if sn_counter s = 0 then 1 else sn_counter s\<rparr> = s" using assms(2) by simp
  define t where "t = spin_trigger (Spin_Spin (next_value s x)) True s"
  have e: "spin_by (\<lambda>c. True) x s = (put_text False (Written (next_value s x)) t)\<lparr>sn_counter := sn_counter s + 1\<rparr>"
    unfolding spin_by_def Let_def c using assms(1) by (simp add: t_def)
  have "spin_options_of t = spin_options_of s" by (simp add: t_def spin_trigger_def spin_options_of_def)
  then have a: "adjust_value t = adjust_value s" by (rule adjust_value_options)
  show "sn_text (spin_by (\<lambda>c. True) x s) = Written (adjust_value s (next_value s x))" unfolding e by (simp add: a)
  show "sn_log (spin_by (\<lambda>c. True) x s) = sn_log s @ [(Spin_Spin (next_value s x), True)]"
    unfolding e by (simp add: t_def spin_trigger_def)
qed

lemma scale_options:
  assumes "spin_options_of t = spin_options_of s"
  shows "spin_base t = spin_base s" and "ends_on_spin_scale t = ends_on_spin_scale s"
proof -
  from assms have f: "sn_min t = sn_min s" "sn_max t = sn_max s" "sn_step t = sn_step s" by (simp_all add: spin_options_of_def)
  show "spin_base t = spin_base s" "ends_on_spin_scale t = ends_on_spin_scale s"
    unfolding ends_on_spin_scale_def spin_ok_def spin_base_def f by (rule refl)+
qed

text \<open>The spinner is spinning at a value of the scale.\<close>

definition held_at :: "rat \<Rightarrow> spinner \<Rightarrow> bool" where
  "held_at v s \<longleftrightarrow> spin_inv s \<and> sn_spinning s \<and> sn_text s = Written v \<and> within_ends s v \<and>
     is_multiple (v - spin_base s) (sn_step s)"

lemma spin_limit_up:
  "within_ends s v \<Longrightarrow> sn_max s = Some m \<Longrightarrow> v \<le> w \<Longrightarrow> spin_limit s w = min m w"
  by (auto simp: spin_limit_def in_bounds_def min_def split: option.splits)

text \<open>One step up from a value of the scale goes at least one step further, or to the upper end.\<close>

lemma next_value_up:
  assumes e: "ends_on_spin_scale s" and m: "sn_max s = Some m" and b: "sn_incremental s = Incremental b"
    and w: "within_ends s v" and v: "is_multiple (v - spin_base s) (sn_step s)" and t: "sn_text s = Written v"
  obtains w where "next_value s (1 * sn_step s) = w" and "adjust_value s w = w" and "min m (v + sn_step s) \<le> w"
    and "w \<le> m" and "is_multiple (w - spin_base s) (sn_step s)"
proof -
  have ok: "spin_ok s" using e by (simp add: ends_on_spin_scale_def)
  then have p: "0 < sn_step s" by (simp add: spin_ok_def)
  obtain k where "v - spin_base s = of_int k * sn_step s" using v by (rule is_multipleE)
  then have k: "v = spin_base s + of_int k * sn_step s" by simp
  obtain i where i: "1 \<le> i" "spin_increment (Incremental b) (sn_counter s) = of_int i" using spin_increment_pos by metis
  have d: "v + sn_step s * of_int i = spin_base s + of_int (k + i) * sn_step s" by (simp add: k algebra_simps)
  have up: "v + sn_step s \<le> v + sn_step s * of_int i" using i(1) p mult_left_mono [of 1 "of_int i" "sn_step s"] by simp
  define u where "u = next_value s (1 * sn_step s)"
  have "u = adjust_value s (v + sn_step s * of_int i)" by (simp only: u_def next_value_def spin_value_def t b i(2) text_num.simps option.case mult_1_left)
  also have "\<dots> = spin_limit s (v + sn_step s * of_int i)" unfolding d by (rule adjust_aligned [OF ok])
  also have "\<dots> = min m (v + sn_step s * of_int i)" using up p by (intro spin_limit_up [OF w m]) simp
  finally have u: "u = min m (v + sn_step s * of_int i)" .
  obtain j where "u = spin_base s + of_int j * sn_step s" using adjust_on_scale [OF e] by (auto simp: u_def next_value_def)
  then have "is_multiple (u - spin_base s) (sn_step s)" using p by (intro is_multipleI) auto
  moreover have "adjust_value s u = u" unfolding u_def next_value_def by (rule spun_on_scale.settle_keeps [OF e])
  ultimately show thesis using u up that [of u] by (simp add: u_def)
qed

lemma held_step:
  assumes e: "ends_on_spin_scale s" and m: "sn_max s = Some m" and b: "sn_incremental s = Incremental b" and h: "held_at v s"
  obtains w where "held_at w (spin_repeat (\<lambda>c. True) delay 1 s)" and "sn_timer (spin_repeat (\<lambda>c. True) delay 1 s) = Some (delay, 1)" and "min m (v + sn_step s) \<le> w" and "w \<le> m"
    and "spin_options_of (spin_repeat (\<lambda>c. True) delay 1 s) = spin_options_of s"
proof -
  from h have inv: "spin_inv s" and sp: "sn_spinning s" and w: "within_ends s v"
    and a: "is_multiple (v - spin_base s) (sn_step s)" and t: "sn_text s = Written v" by (simp_all add: held_at_def)
  let ?s = "s\<lparr>sn_timer := Some (delay, 1)\<rparr>"
  have lim: "limits_ordered (sn_min s) (sn_max s)" using e by (simp add: ends_on_spin_scale_def spin_ok_def)
  have c: "sn_counter s \<noteq> 0" using inv sp by (auto simp: spin_inv_def)
  have r: "spin_repeat (\<lambda>c. True) delay 1 s = spin_by (\<lambda>c. True) (1 * sn_step ?s) ?s" by (simp add: spin_repeat_def)
  have "spin_options_of ?s = spin_options_of s" by (simp add: spin_options_of_def)
  note e' = scale_options [OF this]
  have pre: "ends_on_spin_scale ?s" "sn_max ?s = Some m" "sn_incremental ?s = Incremental b" "within_ends ?s v"
    "is_multiple (v - spin_base ?s) (sn_step ?s)" "sn_text ?s = Written v"
    using e e' m b w a t by simp_all
  obtain u where u: "next_value ?s (1 * sn_step ?s) = u" "adjust_value ?s u = u" "min m (v + sn_step ?s) \<le> u" "u \<le> m"
    "is_multiple (u - spin_base ?s) (sn_step ?s)"
    by (rule next_value_up [OF pre])
  have k: "spin_kept s (spin_repeat (\<lambda>c. True) delay 1 s)"
    by (rule spin_repeat_kept [OF inv lim sp])
  then have o: "spin_options_of (spin_repeat (\<lambda>c. True) delay 1 s) = spin_options_of s" and i: "spin_inv (spin_repeat (\<lambda>c. True) delay 1 s)"
    by (simp_all only: spin_kept_def)
  have x: "sn_text (spin_repeat (\<lambda>c. True) delay 1 s) = Written u"
    unfolding r using spin_by_allowed(1) [of ?s "1 * sn_step ?s"] sp c u(1,2) by simp
  have tm: "sn_timer (spin_repeat (\<lambda>c. True) delay 1 s) = Some (delay, 1)"
    by (simp add: r spin_by_def Let_def spin_trigger_def sp c)
  have "within_ends s u" using spun.settle_within [OF lim, of u] u(2) adjust_value_options [of ?s s]
    by (simp add: spin_options_of_def)
  moreover have "sn_spinning (spin_repeat (\<lambda>c. True) delay 1 s)" using i tm by (auto simp: spin_inv_def)
  ultimately have "held_at u (spin_repeat (\<lambda>c. True) delay 1 s)"
    using i x u(5) o unfolding held_at_def within_options [OF o] by (simp add: spin_options_of_def spin_base_def)
  then show thesis using u(3,4) o tm that by simp
qed

lemma held_run:
  assumes "ends_on_spin_scale s" and "sn_max s = Some m" and "sn_incremental s = Incremental b"
    and "held_at v s" and "sn_timer s = Some (d, 1)" and "v \<le> m"
  shows "\<exists>w. sn_text (spin_run (replicate n (\<lambda>c. True, Repeat_Timer)) s) = Written w \<and> min m (v + of_nat n * sn_step s) \<le> w \<and> w \<le> m"
  using assms
proof (induction n arbitrary: s v d)
  case 0
  then show ?case by (simp add: held_at_def)
next
  case (Suc n)
  let ?t = "spin_repeat (\<lambda>c. True) 40 1 s"
  obtain w where w: "held_at w ?t" "sn_timer ?t = Some (40, 1)" "min m (v + sn_step s) \<le> w" "w \<le> m"
    "spin_options_of ?t = spin_options_of s"
    using held_step [OF Suc.prems(1-4)] by metis
  have o: "sn_max ?t = Some m" "sn_incremental ?t = Incremental b" "sn_step ?t = sn_step s" "ends_on_spin_scale ?t"
    using w(5) scale_options(2) [OF w(5)] Suc.prems(1-3) by (simp_all add: spin_options_of_def)
  obtain u where u: "sn_text (spin_run (replicate n (\<lambda>c. True, Repeat_Timer)) ?t) = Written u"
    "min m (w + of_nat n * sn_step s) \<le> u" "u \<le> m"
    using Suc.IH [OF o(4,1,2) w(1,2,4)] o(3) by auto
  have "0 \<le> of_nat n * sn_step s" using Suc.prems(1) by (simp add: ends_on_spin_scale_def spin_ok_def)
  then have "min m (v + of_nat (Suc n) * sn_step s) \<le> min m (w + of_nat n * sn_step s)"
    using w(3) by (auto simp: min_def distrib_right split: if_splits)
  moreover have "spin_run (replicate (Suc n) (\<lambda>c. True, Repeat_Timer)) s = spin_run (replicate n (\<lambda>c. True, Repeat_Timer)) ?t"
    using Suc.prems(5) by (simp add: repeat_timer_def)
  ultimately show ?case using u by (metis order_trans)
qed

section \<open>Properties\<close>

text \<open>C17. Whatever the user and the timers do, and whatever the client answers: the field holds its first text, a text
  somebody supplied, or a number between the ends. The client sees \<open>start\<close> only at rest, \<open>spin\<close> and \<open>stop\<close> only
  while the spinner spins; no timer is left when it rests; the options stay.\<close>

theorem spinner_session_in_order:
  assumes "spin_inv s" and "limits_ordered (sn_min s) (sn_max s)" and "t = spin_run es s"
  shows "spin_phase False (sn_log t) = Some (sn_spinning t) \<and> (\<not> sn_spinning t \<longrightarrow> sn_timer t = None \<and> \<not> sn_wheel t) \<and>
    spin_options_of t = spin_options_of s \<and>
    (sn_text t = sn_text s \<or> (\<exists>(allow, e) \<in> set es. sn_text t \<in> set (supplied e)) \<or>
     (\<exists>v. sn_text t = Written v \<and> within_ends s v))"
proof -
  note k = spin_run_kept [OF assms(1,2), of es, folded assms(3)]
  then have i: "spin_inv t" by blast
  have "sn_timer t = None \<and> \<not> sn_wheel t" if "\<not> sn_spinning t"
    using i that by (cases "sn_timer t") (auto simp: spin_inv_def)
  moreover have "spin_phase False (sn_log t) = Some (sn_spinning t)" using i by (simp add: spin_inv_def)
  ultimately show ?thesis using k by blast
qed

text \<open>C18. Holding the up key reaches the upper end, when it is on the scale and the client refuses nothing: from a
  value of the scale, after as many repeats as there are steps to the end the field shows the end.\<close>

theorem held_key_reaches_max:
  assumes "spin_inv s" and "\<not> sn_spinning s" and "ends_on_spin_scale s" and "sn_max s = Some m"
    and "sn_incremental s = Incremental b" and "sn_text s = Written v" and "within_ends s v"
    and "is_multiple (v - spin_base s) (sn_step s)" and "m \<le> v + of_nat n * sn_step s"
  shows "sn_text (spin_run ((\<lambda>c. True, Key_Down Spin_Up) # replicate n (\<lambda>c. True, Repeat_Timer)) s) = Written m"
proof -
  obtain t started where t: "spin_begin (\<lambda>c. True) s = (t, started)" by (metis prod.exhaust)
  have st: started using t assms(2) by (auto simp: spin_begin_def Let_def)
  note k = spin_begin_kept [OF assms(1) t]
  then have ko: "spin_options_of t = spin_options_of s" by (simp only: spin_kept_def)
  have ht: "held_at v t"
    using k st assms(6-8) unfolding held_at_def within_options [OF ko]
    by (auto simp: spin_kept_def spin_options_of_def spin_base_def)
  have f: "ends_on_spin_scale t" "sn_max t = Some m" "sn_incremental t = Incremental b" "sn_step t = sn_step s"
    using scale_options(2) [OF ko] ko assms(3-5) by (simp_all add: spin_options_of_def)
  let ?u = "spin_repeat (\<lambda>c. True) 500 1 t"
  obtain w where w: "held_at w ?u" "sn_timer ?u = Some (500, 1)" "min m (v + sn_step t) \<le> w" "w \<le> m"
    "spin_options_of ?u = spin_options_of t"
    using held_step [OF f(1-3) ht] by metis
  have g: "ends_on_spin_scale ?u" "sn_max ?u = Some m" "sn_incremental ?u = Incremental b" "sn_step ?u = sn_step s"
    using scale_options(2) [OF w(5)] w(5) f by (simp_all add: spin_options_of_def)
  obtain x where x: "sn_text (spin_run (replicate n (\<lambda>c. True, Repeat_Timer)) ?u) = Written x"
    "min m (w + of_nat n * sn_step s) \<le> x" "x \<le> m"
    using held_run [OF g(1-3) w(1,2,4), of n] g(4) by auto
  have "v \<le> m" using assms(4,7) by (simp add: in_bounds_def)
  moreover have "0 < sn_step s" using assms(3) by (simp add: ends_on_spin_scale_def spin_ok_def)
  ultimately have "v \<le> w" using w(3) f(4) by (auto simp: min_def split: if_splits)
  then have "x = m" using x(2,3) assms(9) by (auto simp: min_def split: if_splits)
  moreover have "spin_step (\<lambda>c. True) (Key_Down Spin_Up) s = ?u" using st by (simp add: spin_keydown_def t key_steps_def)
  ultimately show ?thesis using x(1) by simp
qed

text \<open>An upper end a little above the scale is never shown: stepping up from the highest value of the scale
  tells the client's \<open>spin\<close> callback the end, but the field keeps the value it had; and the end itself is not
  valid.\<close>

theorem end_off_scale_never_shown:
  assumes "spin_ok s" and "\<not> sn_spinning s" and "sn_counter s = 0" and "sn_incremental s = Incremental b"
    and "v = spin_base s + of_int k * sn_step s" and "sn_max s = Some (v + r)" and "0 < r" and "2 * r < sn_step s"
    and "within_ends s v" and "sn_text s = Written v"
  shows "sn_text (step_up (\<lambda>c. True) 1 s) = Written v \<and>
    sn_log (step_up (\<lambda>c. True) 1 s) = sn_log s @ [(Spin_Start, True), (Spin_Spin (v + r), True), (Spin_Stop, True)] \<and>
    \<not> spin_valid (s\<lparr>sn_text := Written (v + r)\<rparr>)"
proof -
  define t where "t = (spin_trigger Spin_Start True s)\<lparr>sn_counter := 1, sn_spinning := True\<rparr>"
  have t: "spin_begin (\<lambda>c. True) s = (t, True)"
    using assms(2,3) by (simp add: spin_begin_def Let_def t_def spin_trigger_def)
  have o: "spin_options_of t = spin_options_of s" by (simp add: t_def spin_trigger_def spin_options_of_def)
  have p: "0 < sn_step s" using assms(1) by (simp add: spin_ok_def)
  have one: "spin_increment (Incremental b) 1 = 1" by (simp add: floor_unique)
  have lim: "spin_limit s v = v" using assms(9) by (auto simp: spin_limit_def in_bounds_def split: option.splits)
  have near: "adjust_value s (v + r) = v"
    using adjust_near [OF assms(1) less_imp_le [OF assms(7)] assms(8), of k] lim by (simp add: assms(5))
  have "v + sn_step s = spin_base s + of_int (k + 1) * sn_step s" by (simp add: assms(5) distrib_right)
  then have "adjust_value s (v + sn_step s) = spin_limit s (v + sn_step s)" using adjust_aligned [OF assms(1), of "k + 1"] by simp
  also have "\<dots> = min (v + r) (v + sn_step s)" using p by (intro spin_limit_up [OF assms(9,6)]) simp
  also have "\<dots> = v + r" using assms(7,8) by simp
  finally have up: "adjust_value s (v + sn_step s) = v + r" .
  have n: "next_value t (1 * sn_step t) = v + r"
    using up one o assms(4,10) adjust_value_options [OF o]
    by (simp add: next_value_def spin_value_def t_def spin_trigger_def spin_options_of_def del: spin_increment.simps)
  have x: "sn_text (spin_by (\<lambda>c. True) (1 * sn_step t) t) = Written v"
    "sn_log (spin_by (\<lambda>c. True) (1 * sn_step t) t) = sn_log t @ [(Spin_Spin (v + r), True)]"
    "sn_spinning (spin_by (\<lambda>c. True) (1 * sn_step t) t)"
    using spin_by_allowed [of t "1 * sn_step t"] near n adjust_value_options [OF o]
    by (simp_all add: t_def spin_by_def Let_def spin_trigger_def)
  define u where "u = step_up_by (\<lambda>c. True) 1 s"
  have "u = spin_end (spin_by (\<lambda>c. True) (1 * sn_step t) t)" by (simp add: u_def step_up_by_def t)
  then have u: "sn_text u = Written v" "sn_log u = sn_log t @ [(Spin_Spin (v + r), True), (Spin_Stop, True)]"
    using x by (simp_all add: spin_end_def spin_trigger_def)
  have "step_up (\<lambda>c. True) 1 s = spin_refresh u"
    using u(1) assms(10) by (simp add: step_up_def spinner_modifier_def Let_def u_def [symmetric] spin_refresh_def)
  moreover have "\<not> spin_valid (s\<lparr>sn_text := Written (v + r)\<rparr>)"
    using near assms(7) adjust_value_options [of "s\<lparr>sn_text := Written (v + r)\<rparr>" s]
    by (simp add: spin_valid_def spin_value_def spin_options_of_def)
  ultimately show ?thesis using u by (simp add: spin_refresh_def t_def spin_trigger_def)
qed

text \<open>A spinner from 0 in steps of 3 at 9, at rest.\<close>

definition sample_spinner :: "rat \<Rightarrow> spinner" where
  "sample_spinner m =
     \<lparr>sn_min = Some 0, sn_max = Some m, sn_step = 3, sn_page = 10, sn_incremental = Incremental True,
      sn_text = Written 9, sn_previous = Written 9, sn_spinning = False, sn_counter = 0, sn_timer = None,
      sn_wheel = False, sn_cancel_blur = False, sn_focused = True, sn_check = None,
      sn_aria = (Some 0, Some m, Some 9), sn_log = []\<rparr>"

lemma sample_spin_ok: "0 \<le> m \<Longrightarrow> spin_ok (sample_spinner m)" "spin_inv (sample_spinner m)"
  by (simp_all add: spin_ok_def sample_spinner_def has_decimals_def spin_base_def limits_ordered_def spin_inv_def)

theorem spinner_session_in_order_witness:
  "let t = spin_run [(\<lambda>c. True, Key_Down Spin_Page_Down), (\<lambda>c. True, Repeat_Timer), (\<lambda>c. True, Key_Up)] (sample_spinner 30)
   in spin_phase False (sn_log t) = Some (sn_spinning t) \<and> (\<not> sn_spinning t \<longrightarrow> sn_timer t = None \<and> \<not> sn_wheel t)"
proof -
  have "limits_ordered (sn_min (sample_spinner 30)) (sn_max (sample_spinner 30))"
    by (simp add: sample_spinner_def limits_ordered_def)
  from spinner_session_in_order [OF sample_spin_ok(2) this refl] show ?thesis unfolding Let_def by blast
qed

theorem held_key_reaches_max_witness:
  "sn_text (spin_run ((\<lambda>c. True, Key_Down Spin_Up) # replicate 7 (\<lambda>c. True, Repeat_Timer)) (sample_spinner 30)) = Written 30"
proof -
  have "ends_on_spin_scale (sample_spinner 30)" using sample_spin_ok(1) [of 30]
    by (simp add: ends_on_spin_scale_def) (simp add: sample_spinner_def spin_base_def is_multiple_def)
  then show ?thesis
    by (intro held_key_reaches_max [OF sample_spin_ok(2), where v = 9])
      (simp_all add: sample_spinner_def spin_base_def is_multiple_def in_bounds_def)
qed

theorem end_off_scale_never_shown_witness:
  "sn_text (step_up (\<lambda>c. True) 1 (sample_spinner 10)) = Written 9 \<and>
   sn_log (step_up (\<lambda>c. True) 1 (sample_spinner 10)) = [(Spin_Start, True), (Spin_Spin 10, True), (Spin_Stop, True)]"
proof -
  have f: "\<not> sn_spinning (sample_spinner 10)" "sn_counter (sample_spinner 10) = 0"
    "sn_incremental (sample_spinner 10) = Incremental True" "9 = spin_base (sample_spinner 10) + of_int 3 * sn_step (sample_spinner 10)"
    "sn_max (sample_spinner 10) = Some (9 + 1)" "(0 :: rat) < 1" "2 * 1 < sn_step (sample_spinner 10)"
    "within_ends (sample_spinner 10) 9" "sn_text (sample_spinner 10) = Written 9" "sn_log (sample_spinner 10) = []"
    "spin_ok (sample_spinner 10)"
    using sample_spin_ok(1) by (simp_all add: sample_spinner_def spin_base_def in_bounds_def)
  have "(9 :: rat) + 1 = 10" by simp
  with end_off_scale_never_shown [OF f(11,1-9)] f(10) show ?thesis by (simp only: append_Nil)
qed

end
