(* ===== verification/Progressbar.thy ===== *)
theory Progressbar
  imports Numbers
begin

text \<open>
  The progress bar of the deployed bundle (\<open>$.ui.progressbar\<close>): a value between 0 and a maximum, or
  indeterminate, shown as the width of a part of the bar; callbacks are logged. The lemmas show that the value
  shown is between the ends, which callbacks an update makes, and that a full bar is reported again with
  every option.
\<close>

section \<open>State\<close>

text \<open>An option value: \<open>false\<close>, a number, or anything else.\<close>

datatype progress = Indeterminate | Amount rat | Not_A_Number

datatype progress_call = Progress_Change | Progress_Complete

datatype width = Width_NaN | Width_Percent int

record progressbar =
  pb_max :: rat
  pb_value :: progress
  pb_old :: progress
  pb_indeterminate :: bool
  pb_visible :: bool
  pb_corner_right :: bool
  pb_width :: width
  pb_overlay :: bool
  pb_aria :: "(rat \<times> progress) option"
  pb_disabled :: bool
  pb_log :: "progress_call list"

section \<open>Operations\<close>

definition constrained :: "progressbar \<Rightarrow> progress \<Rightarrow> progress" where
  "constrained b v =
     (case v of
        Indeterminate \<Rightarrow> Indeterminate
      | Amount x \<Rightarrow> Amount (min (pb_max b) (max 0 x))
      | Not_A_Number \<Rightarrow> Amount (min (pb_max b) (max 0 0)))"

definition take_value :: "progress \<Rightarrow> progressbar \<Rightarrow> progressbar" where
  "take_value v b = b\<lparr>pb_indeterminate := (v = Indeterminate), pb_value := constrained b v\<rparr>"

definition amount_of :: "progress \<Rightarrow> rat" where
  "amount_of v = (case v of Amount x \<Rightarrow> x | _ \<Rightarrow> 0)"

definition percentage :: "progressbar \<Rightarrow> rat option" where
  "percentage b =
     (if pb_indeterminate b then Some 100
      else if pb_max b = 0 then None
      else Some (100 * (amount_of (pb_value b) - 0) / (pb_max b - 0)))"

text \<open>\<open>percentage.toFixed(0) + "%"\<close>.\<close>

definition percent_width :: "rat option \<Rightarrow> width" where
  "percent_width p = (case p of Some x \<Rightarrow> Width_Percent \<lfloor>to_fixed 0 x\<rfloor> | None \<Rightarrow> Width_NaN)"

definition refresh_bar :: "progressbar \<Rightarrow> progressbar" where
  "refresh_bar b =
     (let shown = b\<lparr>
            pb_visible := (pb_indeterminate b \<or> amount_of (pb_value b) > 0),
            pb_corner_right := (pb_value b = Amount (pb_max b)),
            pb_width := percent_width (percentage b),
            pb_overlay := pb_indeterminate b,
            pb_aria := (if pb_indeterminate b then None else Some (pb_max b, pb_value b))\<rparr>;
          changed = (if pb_old b \<noteq> pb_value b
                     then shown\<lparr>pb_old := pb_value b, pb_log := pb_log shown @ [Progress_Change]\<rparr> else shown)
      in if pb_value b = Amount (pb_max b)
         then changed\<lparr>pb_log := pb_log changed @ [Progress_Complete]\<rparr> else changed)"

definition create_bar :: "progressbar \<Rightarrow> progressbar" where
  "create_bar b = (let t = take_value (pb_value b) b in refresh_bar (t\<lparr>pb_old := pb_value t\<rparr>))"

definition set_progress :: "progress \<Rightarrow> progressbar \<Rightarrow> progressbar" where
  "set_progress v b = refresh_bar (take_value v b)"

datatype bar_option = Bar_Max rat | Bar_Disabled bool | Bar_Value progress

definition set_bar_option :: "bar_option \<Rightarrow> progressbar \<Rightarrow> progressbar" where
  "set_bar_option x b =
     (case x of Bar_Max m \<Rightarrow> b\<lparr>pb_max := max 0 m\<rparr> | Bar_Disabled d \<Rightarrow> b\<lparr>pb_disabled := d\<rparr> | Bar_Value v \<Rightarrow> b)"

text \<open>The value is set after the other options; without one the old value is constrained again.\<close>

definition bar_value_option :: "bar_option list \<Rightarrow> progressbar \<Rightarrow> progress" where
  "bar_value_option xs b = fold (\<lambda>x v. case x of Bar_Value w \<Rightarrow> w | _ \<Rightarrow> v) xs (pb_value b)"

definition set_bar_options :: "bar_option list \<Rightarrow> progressbar \<Rightarrow> progressbar" where
  "set_bar_options xs b = refresh_bar (take_value (bar_value_option xs b) (fold set_bar_option xs b))"

datatype bar_event = Bar_Set progress | Bar_Options "bar_option list"

definition bar_step :: "bar_event \<Rightarrow> progressbar \<Rightarrow> progressbar" where
  "bar_step e b = (case e of Bar_Set v \<Rightarrow> set_progress v b | Bar_Options xs \<Rightarrow> set_bar_options xs b)"

section \<open>Values stay between the ends\<close>

definition progress_within :: "progressbar \<Rightarrow> progress \<Rightarrow> bool" where
  "progress_within b v \<longleftrightarrow> (case v of Indeterminate \<Rightarrow> True | Amount x \<Rightarrow> 0 \<le> x \<and> x \<le> pb_max b | Not_A_Number \<Rightarrow> False)"

interpretation progress_bar: stable_control "\<lambda>b. 0 \<le> pb_max b" progress_within constrained
  by unfold_locales (auto simp: progress_within_def constrained_def split: progress.split)

text \<open>What is shown fits the value.\<close>

definition bar_ok :: "progressbar \<Rightarrow> bool" where
  "bar_ok b \<longleftrightarrow> 0 \<le> pb_max b \<and> progress_within b (pb_value b) \<and> pb_indeterminate b = (pb_value b = Indeterminate) \<and>
     pb_old b = pb_value b \<and> pb_width b = percent_width (percentage b) \<and>
     pb_visible b = (pb_value b = Indeterminate \<or> amount_of (pb_value b) > 0) \<and>
     (pb_max b > 0 \<longrightarrow> (case pb_width b of Width_Percent n \<Rightarrow> 0 \<le> n \<and> n \<le> 100 | Width_NaN \<Rightarrow> False))"

lemma percent_between:
  assumes "0 < m" and "0 \<le> x" and "x \<le> m"
  shows "0 \<le> \<lfloor>to_fixed 0 (100 * x / m)\<rfloor>" and "\<lfloor>to_fixed 0 (100 * x / m)\<rfloor> \<le> 100"
proof -
  have p: "0 \<le> 100 * x / m" "100 * x / m \<le> 100" using assms by (simp_all add: pos_divide_le_eq)
  define q where "q = 100 * x / m"
  have "\<lfloor>to_fixed 0 q\<rfloor> = \<lfloor>q + 1 / 2\<rfloor>" using p by (simp add: to_fixed_def Let_def not_less q_def [symmetric])
  then have "\<lfloor>to_fixed 0 (100 * x / m)\<rfloor> = \<lfloor>100 * x / m + 1 / 2\<rfloor>" by (simp only: q_def)
  then show "0 \<le> \<lfloor>to_fixed 0 (100 * x / m)\<rfloor>" "\<lfloor>to_fixed 0 (100 * x / m)\<rfloor> \<le> 100"
    using p by (simp_all add: le_floor_iff floor_le_iff)
qed

lemma refresh_ok:
  assumes "0 \<le> pb_max b"
  shows "bar_ok (refresh_bar (take_value v b))"
proof -
  define t where "t = take_value v b"
  have t: "pb_max t = pb_max b" "pb_value t = constrained b v" "pb_indeterminate t = (v = Indeterminate)"
    by (simp_all add: t_def take_value_def)
  have i: "(constrained b v = Indeterminate) = (v = Indeterminate)" by (auto simp: constrained_def split: progress.split)
  have w: "progress_within b (constrained b v)" using assms by (rule progress_bar.settle_within)
  have "case percent_width (percentage t) of Width_Percent n \<Rightarrow> 0 \<le> n \<and> n \<le> 100 | Width_NaN \<Rightarrow> False" if m: "pb_max b > 0"
  proof (cases "constrained b v")
    case Indeterminate
    then show ?thesis using i t by (simp add: percentage_def percent_width_def to_fixed_def)
  next
    case (Amount x)
    then have "v \<noteq> Indeterminate" "0 \<le> x" "x \<le> pb_max b" using i w by (auto simp: progress_within_def)
    then show ?thesis using percent_between [OF m] m t Amount by (simp add: percentage_def percent_width_def amount_of_def)
  next
    case Not_A_Number
    then show ?thesis using w by (simp add: progress_within_def)
  qed
  moreover have "pb_max (refresh_bar t) = pb_max t" "pb_value (refresh_bar t) = pb_value t" "pb_old (refresh_bar t) = pb_value t"
    "pb_indeterminate (refresh_bar t) = pb_indeterminate t" "pb_width (refresh_bar t) = percent_width (percentage t)"
    "pb_visible (refresh_bar t) = (pb_indeterminate t \<or> amount_of (pb_value t) > 0)"
    by (simp_all add: refresh_bar_def Let_def)
  moreover then have "percentage (refresh_bar t) = percentage t" by (simp add: percentage_def)
  moreover have "progress_within (refresh_bar t) = progress_within b"    using calculation(2) t(1) unfolding progress_within_def by presburger
  ultimately have "bar_ok (refresh_bar t)" using assms t i w by (simp add: bar_ok_def)
  then show ?thesis by (simp only: t_def)
qed

lemma bar_options_max: "0 \<le> pb_max b \<Longrightarrow> 0 \<le> pb_max (fold set_bar_option xs b)"
  by (induction xs arbitrary: b) (auto simp: set_bar_option_def split: bar_option.split)

lemma bar_step_ok: "bar_ok b \<Longrightarrow> bar_ok (bar_step e b)"
  by (auto simp: bar_step_def set_progress_def set_bar_options_def bar_ok_def [of b] bar_options_max
      intro: refresh_ok split: bar_event.split)

section \<open>Properties\<close>

text \<open>From a created bar with a maximum of at least 0 on, after any sequence of updates: the value is a number
  between 0 and the maximum or indeterminate, the value part is visible exactly when there is something to show,
  and its width is the rounded percentage, between 0 and 100 when the maximum is not 0.\<close>

theorem progress_shown_between_ends:
  assumes "0 \<le> pb_max b"
  shows "bar_ok (fold bar_step es (create_bar b))"
proof -
  have "take_value (constrained b (pb_value b)) (b\<lparr>pb_old := constrained b (pb_value b)\<rparr>) =
      (take_value (pb_value b) b)\<lparr>pb_old := pb_value (take_value (pb_value b) b)\<rparr>"
    using assms by (auto simp: take_value_def constrained_def split: progress.split)
  then have "create_bar b = refresh_bar (take_value (constrained b (pb_value b)) (b\<lparr>pb_old := constrained b (pb_value b)\<rparr>))"
    by (simp add: create_bar_def Let_def)
  then have "bar_ok (create_bar b)" using assms refresh_ok [of "b\<lparr>pb_old := constrained b (pb_value b)\<rparr>"] by simp
  then show ?thesis by (induction es arbitrary: b rule: rev_induct) (auto intro: bar_step_ok)
qed

text \<open>Exactly these callbacks follow an update: \<open>change\<close> when the constrained value is another one, then
  \<open>complete\<close> when it is the maximum, even when it was the maximum before and the update is about something
  else.\<close>

theorem progress_calls_exact:
  assumes "bar_ok b"
  shows "pb_log (set_progress v b) = pb_log b @
      (if constrained b v \<noteq> pb_value b then [Progress_Change] else []) @
      (if constrained b v = Amount (pb_max b) then [Progress_Complete] else []) \<and>
    pb_log (set_bar_options [Bar_Disabled d] b) = pb_log b @
      (if pb_value b = Amount (pb_max b) then [Progress_Complete] else [])"
proof -
  have "constrained b (pb_value b) = pb_value b"
    using assms by (auto simp: bar_ok_def progress_within_def constrained_def split: progress.splits)
  moreover have "constrained (b\<lparr>pb_disabled := d\<rparr>) (pb_value b) = constrained b (pb_value b)"
    by (simp add: constrained_def split: progress.split)
  ultimately show ?thesis
    using assms by (simp add: set_progress_def set_bar_options_def bar_value_option_def set_bar_option_def take_value_def
        refresh_bar_def Let_def bar_ok_def)
qed

definition sample_bar :: progressbar where
  "sample_bar =
     \<lparr>pb_max = 80, pb_value = Amount 100, pb_old = Indeterminate, pb_indeterminate = False, pb_visible = False,
      pb_corner_right = False, pb_width = Width_NaN, pb_overlay = False, pb_aria = None, pb_disabled = False,
      pb_log = []\<rparr>"

theorem progress_shown_between_ends_witness:
  "bar_ok (fold bar_step [Bar_Set (Amount 20), Bar_Options [Bar_Max 10]] (create_bar sample_bar))"
  by (rule progress_shown_between_ends) (simp add: sample_bar_def)

lemma sample_bar_ok: "bar_ok (create_bar sample_bar)"
  by code_simp

theorem progress_calls_exact_witness:
  "pb_log (set_bar_options [Bar_Disabled True] (create_bar sample_bar)) = pb_log (create_bar sample_bar) @ [Progress_Complete]"
proof -
  have "pb_value (create_bar sample_bar) = Amount (pb_max (create_bar sample_bar))" by code_simp
  with progress_calls_exact [OF sample_bar_ok] show ?thesis by simp
qed

end
