(* ===== verification/JQuery_Event.thy ===== *)
theory JQuery_Event
  imports Prelude "HOL-Library.AList" "HOL-Library.List_Lexorder" "HOL-Library.Char_ord"
begin

text \<open>
  \<open>jQuery.event\<close> of the deployed bundle: the handlers of an element, kept per event type with the delegated
  ones in front; adding and removing them by type, namespace, handler and selector; and letting an event run
  through the handlers of an element and up the tree. What a handler does is the parameter \<open>run\<close>, which
  elements a selector matches (Sizzle) the parameter \<open>matching\<close>; handlers may add and remove handlers while an
  event runs. Namespaces are plain names without the special characters of regular expressions. The hooks for
  old browsers and the extra test of \<open>mouseenter\<close> and its kin are left out.
\<close>

section \<open>Handlers of an element\<close>

record ('h, 'sel) handle_obj =
  ho_type :: string
  ho_orig_type :: string
  ho_guid :: nat
  ho_handler :: 'h
  ho_selector :: "'sel option"
  ho_namespaces :: "string list"

record ('h, 'sel) handler_list =
  hl_list :: "('h, 'sel) handle_obj list"
  hl_delegates :: nat

type_synonym ('h, 'sel) element_events = "(string \<times> ('h, 'sel) handler_list) list"

text \<open>\<open>jQuery.event.special\<close>: the types under which delegated and direct handlers are kept.\<close>

definition special_delegate :: "string \<Rightarrow> string option" where
  "special_delegate t =
     (if t = ''focus'' then Some ''focusin''
      else if t = ''blur'' then Some ''focusout''
      else if t = ''mouseenter'' then Some ''mouseover''
      else if t = ''mouseleave'' then Some ''mouseout''
      else if t = ''pointerenter'' then Some ''pointerover''
      else if t = ''pointerleave'' then Some ''pointerout''
      else None)"

definition special_bind :: "string \<Rightarrow> string option" where
  "special_bind t = (if t = ''focus'' \<or> t = ''blur'' then None else special_delegate t)"

definition kept_type :: "bool \<Rightarrow> string \<Rightarrow> string" where
  "kept_type delegated t = (case (if delegated then special_delegate t else special_bind t) of Some u \<Rightarrow> u | None \<Rightarrow> t)"

section \<open>Types and namespaces\<close>

fun split_dots :: "string \<Rightarrow> string list" where
  "split_dots [] = [[]]"
| "split_dots (c # cs) =
     (if c = CHR ''.'' then [] # split_dots cs
      else case split_dots cs of w # ws \<Rightarrow> (c # w) # ws | [] \<Rightarrow> [[c]])"

function words :: "string \<Rightarrow> string list" where
  "words s =
     (case dropWhile is_space s of
        [] \<Rightarrow> []
      | c # cs \<Rightarrow> (c # takeWhile (\<lambda>d. \<not> is_space d) cs) # words (dropWhile (\<lambda>d. \<not> is_space d) cs))"
  by pat_completeness auto

termination
proof (relation "measure length")
  fix s c cs
  assume "dropWhile is_space s = c # cs"
  then have "length (c # cs) \<le> length s" by (metis length_dropWhile_le)
  then show "(dropWhile (\<lambda>d. \<not> is_space d) cs, s) \<in> measure length"
    using length_dropWhile_le [of "\<lambda>d. \<not> is_space d" cs] by simp
qed simp

declare words.simps [simp del]

text \<open>\<open>type.namespace.namespace\<close>: the type and its namespaces, sorted; a type that ends in a dot is none.\<close>

definition parse_type :: "string \<Rightarrow> string \<times> string list" where
  "parse_type s =
     (case dropWhile (\<lambda>c. c \<noteq> CHR ''.'') s of
        [] \<Rightarrow> (s, [])
      | [c] \<Rightarrow> ([], [])
      | c # rest \<Rightarrow> (takeWhile (\<lambda>c. c \<noteq> CHR ''.'') s, sort (split_dots rest)))"

text \<open>The regular expression for namespaces: all of them in the order given, others between them.\<close>

fun ns_within :: "string list \<Rightarrow> string list \<Rightarrow> bool" where
  "ns_within [] ys \<longleftrightarrow> True"
| "ns_within (x # xs) [] \<longleftrightarrow> False"
| "ns_within (x # xs) (y # ys) \<longleftrightarrow> (if x = y then ns_within xs ys else ns_within (x # xs) ys)"

section \<open>Adding\<close>

definition no_handlers :: "('h, 'sel) handler_list" where
  "no_handlers = \<lparr>hl_list = [], hl_delegates = 0\<rparr>"

definition handlers_of :: "('h, 'sel) element_events \<Rightarrow> string \<Rightarrow> ('h, 'sel) handler_list" where
  "handlers_of es t = (case map_of es t of Some q \<Rightarrow> q | None \<Rightarrow> no_handlers)"

text \<open>Delegates go after the delegates, others to the end.\<close>

definition insert_handler :: "('h, 'sel) handle_obj \<Rightarrow> ('h, 'sel) handler_list \<Rightarrow> ('h, 'sel) handler_list" where
  "insert_handler h q =
     (if ho_selector h \<noteq> None
      then \<lparr>hl_list = take (hl_delegates q) (hl_list q) @ h # drop (hl_delegates q) (hl_list q),
            hl_delegates = hl_delegates q + 1\<rparr>
      else q\<lparr>hl_list := hl_list q @ [h]\<rparr>)"

definition add_one ::
  "nat \<Rightarrow> 'h \<Rightarrow> 'sel option \<Rightarrow> string \<times> string list \<Rightarrow> ('h, 'sel) element_events \<Rightarrow> ('h, 'sel) element_events" where
  "add_one guid h sel tn es =
     (let (t, nss) = tn; u = kept_type (sel \<noteq> None) t;
          obj = \<lparr>ho_type = u, ho_orig_type = t, ho_guid = guid, ho_handler = h, ho_selector = sel, ho_namespaces = nss\<rparr>
      in if t = [] then es else AList.update u (insert_handler obj (handlers_of es u)) es)"

text \<open>Several types are taken from the last to the first.\<close>

definition event_add ::
  "nat \<Rightarrow> 'h \<Rightarrow> 'sel option \<Rightarrow> string \<Rightarrow> ('h, 'sel) element_events \<Rightarrow> ('h, 'sel) element_events" where
  "event_add guid h sel types es =
     fold (add_one guid h sel) (rev (map parse_type (if words types = [] then [[]] else words types))) es"

section \<open>Removing\<close>

datatype 'sel off_selector = Any_Selector | All_Delegates | Exactly 'sel

fun off_matches :: "'sel off_selector \<Rightarrow> 'sel option \<Rightarrow> bool" where
  "off_matches Any_Selector x \<longleftrightarrow> True"
| "off_matches All_Delegates x \<longleftrightarrow> x \<noteq> None"
| "off_matches (Exactly sel) x \<longleftrightarrow> x = Some sel"

definition doomed ::
  "bool \<Rightarrow> nat option \<Rightarrow> 'sel off_selector \<Rightarrow> string \<Rightarrow> string list \<Rightarrow> ('h, 'sel) handle_obj \<Rightarrow> bool" where
  "doomed mapped guid sel t nss h \<longleftrightarrow>
     (mapped \<or> t = ho_orig_type h) \<and> (case guid of Some g \<Rightarrow> g = ho_guid h | None \<Rightarrow> True) \<and>
     (nss = [] \<or> ns_within nss (ho_namespaces h)) \<and> off_matches sel (ho_selector h)"

definition without :: "(('h, 'sel) handle_obj \<Rightarrow> bool) \<Rightarrow> ('h, 'sel) handler_list \<Rightarrow> ('h, 'sel) handler_list" where
  "without gone q =
     \<lparr>hl_list = filter (\<lambda>h. \<not> gone h) (hl_list q),
      hl_delegates = hl_delegates q - length (filter (\<lambda>h. gone h \<and> ho_selector h \<noteq> None) (hl_list q))\<rparr>"

definition remove_typed ::
  "bool \<Rightarrow> nat option \<Rightarrow> 'sel off_selector \<Rightarrow> string \<times> string list \<Rightarrow> ('h, 'sel) element_events \<Rightarrow>
    ('h, 'sel) element_events" where
  "remove_typed mapped guid sel tn es =
     (let (t, nss) = tn; u = kept_type (sel \<noteq> Any_Selector) t; q = handlers_of es u;
          rest = without (doomed mapped guid sel t nss) q
      in if hl_list q = [] then es
         else if hl_list rest = [] then AList.delete u es else AList.update u rest es)"

text \<open>Without a type, every type there is.\<close>

definition remove_one ::
  "nat option \<Rightarrow> 'sel off_selector \<Rightarrow> string \<times> string list \<Rightarrow> ('h, 'sel) element_events \<Rightarrow> ('h, 'sel) element_events" where
  "remove_one guid sel tn es =
     (let (t, nss) = tn in
        if t = [] then fold (\<lambda>u. remove_typed True guid sel (u, nss)) (map fst es) es
        else remove_typed False guid sel (t, nss) es)"

text \<open>
  A type whose first dot ends it counts as no type, and stays so whatever type of the element is put before it:
  with handlers left, \<open>remove\<close> calls itself without end and throws.
\<close>

definition endless :: "string \<Rightarrow> bool" where
  "endless w \<longleftrightarrow> length (dropWhile (\<lambda>c. c \<noteq> CHR ''.'') w) = 1"

fun remove_words ::
  "nat option \<Rightarrow> 'sel off_selector \<Rightarrow> string list \<Rightarrow> ('h, 'sel) element_events \<Rightarrow> ('h, 'sel) element_events \<times> bool" where
  "remove_words guid sel [] es = (es, True)"
| "remove_words guid sel (w # ws) es =
     (if endless w \<and> es \<noteq> [] then (es, False) else remove_words guid sel ws (remove_one guid sel (parse_type w) es))"

text \<open>What is left, and whether \<open>remove\<close> returned.\<close>

definition event_remove ::
  "nat option \<Rightarrow> 'sel off_selector \<Rightarrow> string \<Rightarrow> ('h, 'sel) element_events \<Rightarrow> ('h, 'sel) element_events \<times> bool" where
  "event_remove guid sel types es = remove_words guid sel (rev (if words types = [] then [[]] else words types)) es"

section \<open>Running an event\<close>

text \<open>\<open>ev_button\<close> is 0 for the left button and for events without one.\<close>

record jq_event =
  ev_type :: string
  ev_namespaces :: "string list"
  ev_button :: nat

text \<open>The state with what handlers have asked of the event so far, and the value the last of them returned.\<close>

datatype returned = Undefined | False_Value | Other_Value

record 's running =
  rn_state :: 's
  rn_prevented :: bool
  rn_stopped :: bool
  rn_immediate :: bool
  rn_result :: returned

text \<open>
  What a handler does: the state it leaves, whether it calls \<open>preventDefault\<close>, \<open>stopPropagation\<close> and
  \<open>stopImmediatePropagation\<close>, and what it returns.
\<close>

record 's handled =
  hd_state :: 's
  hd_prevents :: bool
  hd_stops :: bool
  hd_stops_now :: bool
  hd_returns :: returned

definition start_running :: "'s \<Rightarrow> 's running" where
  "start_running s =
     \<lparr>rn_state = s, rn_prevented = False, rn_stopped = False, rn_immediate = False, rn_result = Undefined\<rparr>"

definition take_handled :: "'s handled \<Rightarrow> 's running \<Rightarrow> 's running" where
  "take_handled x r =
     \<lparr>rn_state = hd_state x,
      rn_prevented = (rn_prevented r \<or> hd_prevents x \<or> hd_returns x = False_Value),
      rn_stopped = (rn_stopped r \<or> hd_stops x \<or> hd_stops_now x \<or> hd_returns x = False_Value),
      rn_immediate = (rn_immediate r \<or> hd_stops_now x),
      rn_result = (if hd_returns x = Undefined then rn_result r else hd_returns x)\<rparr>"

text \<open>The handlers due at an element: delegated ones, by element from the target up, then its own.\<close>

definition matched_by :: "('sel \<Rightarrow> 'n \<Rightarrow> bool) \<Rightarrow> 'n \<Rightarrow> ('h, 'sel) handle_obj \<Rightarrow> bool" where
  "matched_by matching cur h \<longleftrightarrow> (case ho_selector h of Some sel \<Rightarrow> matching sel cur | None \<Rightarrow> False)"

definition delegated_at ::
  "('sel \<Rightarrow> 'n \<Rightarrow> bool) \<Rightarrow> ('h, 'sel) handler_list \<Rightarrow> 'n \<Rightarrow> ('h, 'sel) handle_obj list" where
  "delegated_at matching q cur = filter (matched_by matching cur) (take (hl_delegates q) (hl_list q))"

definition event_handlers ::
  "('sel \<Rightarrow> 'n \<Rightarrow> bool) \<Rightarrow> ('n \<Rightarrow> bool) \<Rightarrow> jq_event \<Rightarrow> ('h, 'sel) handler_list \<Rightarrow> 'n list \<Rightarrow> 'n \<Rightarrow>
    ('n \<times> ('h, 'sel) handle_obj list) list" where
  "event_handlers matching disabled ev q below this =
     (if hl_delegates q \<noteq> 0 \<and> (ev_button ev = 0 \<or> ev_type ev \<noteq> ''click'')
      then filter (\<lambda>(cur, hs). hs \<noteq> [])
        (map (\<lambda>cur. (cur, delegated_at matching q cur)) (filter (\<lambda>cur. \<not> disabled cur \<or> ev_type ev \<noteq> ''click'') below))
      else []) @
     (if hl_delegates q < length (hl_list q) then [(this, drop (hl_delegates q) (hl_list q))] else [])"

text \<open>A triggered event with namespaces only runs handlers that have them.\<close>

fun run_handlers ::
  "('h \<Rightarrow> 'n \<Rightarrow> 's \<Rightarrow> 's handled) \<Rightarrow> jq_event \<Rightarrow> 'n \<Rightarrow> ('h, 'sel) handle_obj list \<Rightarrow> 's running \<Rightarrow> 's running" where
  "run_handlers run ev cur [] r = r"
| "run_handlers run ev cur (h # hs) r =
     (if rn_immediate r then r
      else run_handlers run ev cur hs
        (if ev_namespaces ev = [] \<or> ns_within (ev_namespaces ev) (ho_namespaces h)
         then take_handled (run (ho_handler h) cur (rn_state r)) r else r))"

fun run_queue ::
  "('h \<Rightarrow> 'n \<Rightarrow> 's \<Rightarrow> 's handled) \<Rightarrow> jq_event \<Rightarrow> ('n \<times> ('h, 'sel) handle_obj list) list \<Rightarrow> 's running \<Rightarrow> 's running" where
  "run_queue run ev [] r = r"
| "run_queue run ev ((cur, hs) # q) r = (if rn_stopped r then r else run_queue run ev q (run_handlers run ev cur hs r))"

text \<open>
  What events need to know of the page: the handlers of its elements, which change with the state, what
  selectors match, which elements are disabled, and what handlers do.
\<close>

record ('h, 'sel, 'n, 's) event_page =
  ep_events :: "'s \<Rightarrow> 'n \<Rightarrow> ('h, 'sel) element_events"
  ep_matching :: "'sel \<Rightarrow> 'n \<Rightarrow> bool"
  ep_disabled :: "'n \<Rightarrow> bool"
  ep_run :: "'h \<Rightarrow> 'n \<Rightarrow> 's \<Rightarrow> 's handled"

text \<open>The handlers due are fixed when the event reaches the element.\<close>

definition event_dispatch ::
  "('h, 'sel, 'n, 's) event_page \<Rightarrow> jq_event \<Rightarrow> 'n list \<Rightarrow> 'n \<Rightarrow> 's running \<Rightarrow> 's running" where
  "event_dispatch pg ev below this r =
     run_queue (ep_run pg) ev
       (event_handlers (ep_matching pg) (ep_disabled pg) ev (handlers_of (ep_events pg (rn_state r) this) (ev_type ev)) below this) r"

text \<open>Up the tree, from the target to the document.\<close>

fun propagate ::
  "('h, 'sel, 'n, 's) event_page \<Rightarrow> jq_event \<Rightarrow> 'n list \<Rightarrow> 'n list \<Rightarrow> 's running \<Rightarrow> 's running" where
  "propagate pg ev below [] r = r"
| "propagate pg ev below (n # up) r =
     (if rn_stopped r then r else propagate pg ev (below @ [n]) up (event_dispatch pg ev below n r))"

definition no_bubble :: "string \<Rightarrow> bool" where
  "no_bubble t \<longleftrightarrow> t = ''load''"

text \<open>
  \<open>trigger\<close> and \<open>triggerHandler\<close>: the type may name namespaces. The target's handlers are those kept for the type,
  further up those of its bubbling type; a triggered focus or blur starts again at the target with that. The new
  state and whether the browser's own action follows, which it does not for a click on a link.
\<close>

definition focus_morph :: "string \<Rightarrow> bool" where
  "focus_morph t \<longleftrightarrow> t = ''focus'' \<or> t = ''blur''"

definition trigger_up ::
  "('h, 'sel, 'n, 's) event_page \<Rightarrow> string \<Rightarrow> string list \<Rightarrow> 'n \<Rightarrow> 'n list \<Rightarrow> 's running \<Rightarrow> 's running" where
  "trigger_up pg t nss n up r =
     (let ev = \<lparr>ev_type = kept_type True t, ev_namespaces = nss, ev_button = 0\<rparr> in
        if focus_morph t then propagate pg ev [] (n # up) r else propagate pg ev [n] up r)"

definition event_trigger ::
  "('h, 'sel, 'n, 's) event_page \<Rightarrow> bool \<Rightarrow> ('n \<Rightarrow> bool) \<Rightarrow> string \<Rightarrow> 'n \<Rightarrow> 'n list \<Rightarrow> 's \<Rightarrow> 's running \<times> bool" where
  "event_trigger pg only_handlers is_link types n up s =
     (let (t, nss) = (case split_dots types of t # nss \<Rightarrow> (t, sort nss) | [] \<Rightarrow> ([], []));
          r1 = event_dispatch pg \<lparr>ev_type = kept_type False t, ev_namespaces = nss, ev_button = 0\<rparr> [] n (start_running s);
          r2 = (if only_handlers \<or> no_bubble t then r1 else trigger_up pg t nss n up r1)
      in (r2, \<not> only_handlers \<and> \<not> rn_prevented r2 \<and> \<not> (t = ''click'' \<and> is_link n)))"

section \<open>Delegates stay in front\<close>

definition handlers_ok :: "('h, 'sel) handler_list \<Rightarrow> bool" where
  "handlers_ok q \<longleftrightarrow>
     list_all (\<lambda>h. ho_selector h \<noteq> None) (take (hl_delegates q) (hl_list q)) \<and>
     list_all (\<lambda>h. ho_selector h = None) (drop (hl_delegates q) (hl_list q)) \<and> hl_delegates q \<le> length (hl_list q)"

lemma handlers_ok_iff:
  "handlers_ok q \<longleftrightarrow> (\<exists>ds os. q = \<lparr>hl_list = ds @ os, hl_delegates = length ds\<rparr> \<and>
     list_all (\<lambda>h. ho_selector h \<noteq> None) ds \<and> list_all (\<lambda>h. ho_selector h = None) os)"
proof
  assume "handlers_ok q"
  then show "\<exists>ds os. q = \<lparr>hl_list = ds @ os, hl_delegates = length ds\<rparr> \<and>
     list_all (\<lambda>h. ho_selector h \<noteq> None) ds \<and> list_all (\<lambda>h. ho_selector h = None) os"
    by (intro exI [of _ "take (hl_delegates q) (hl_list q)"] exI [of _ "drop (hl_delegates q) (hl_list q)"])
      (simp add: handlers_ok_def)
qed (auto simp: handlers_ok_def)

lemma handlers_okE:
  assumes "handlers_ok q"
  obtains ds os where "q = \<lparr>hl_list = ds @ os, hl_delegates = length ds\<rparr>"
    and "list_all (\<lambda>h. ho_selector h \<noteq> None) ds" and "list_all (\<lambda>h. ho_selector h = None) os"
  using assms handlers_ok_iff by blast

text \<open>Every list is in order, holds something and is kept under the type of its handlers; no type is there twice.\<close>

definition list_ok :: "string \<Rightarrow> ('h, 'sel) handler_list \<Rightarrow> bool" where
  "list_ok u q \<longleftrightarrow> handlers_ok q \<and> hl_list q \<noteq> [] \<and> list_all (\<lambda>h. ho_type h = u) (hl_list q) \<and> special_bind u = None"

definition events_ok :: "('h, 'sel) element_events \<Rightarrow> bool" where
  "events_ok es \<longleftrightarrow> distinct (map fst es) \<and> list_all (\<lambda>(u, q). list_ok u q) es"

lemma events_ok_iff: "events_ok es \<longleftrightarrow> distinct (map fst es) \<and> (\<forall>u q. map_of es u = Some q \<longrightarrow> list_ok u q)"
proof (cases "distinct (map fst es)")
  case True
  then show ?thesis by (auto simp: events_ok_def list_all_iff)
qed (simp add: events_ok_def)

lemma events_ok_Nil: "events_ok []"
  by (simp add: events_ok_def)

lemma handlers_ok_none [simp]: "handlers_ok no_handlers" "hl_list no_handlers = []"
  by (simp_all add: handlers_ok_def no_handlers_def)

lemma handlers_of_ok:
  "events_ok es \<Longrightarrow> handlers_ok (handlers_of es u) \<and> list_all (\<lambda>h. ho_type h = u) (hl_list (handlers_of es u))"
  by (auto simp: events_ok_iff handlers_of_def list_ok_def split: option.split)

lemma events_ok_update: "events_ok es \<Longrightarrow> list_ok u q \<Longrightarrow> events_ok (AList.update u q es)"
  by (auto simp: events_ok_iff distinct_update update_conv' split: if_splits)

lemma events_ok_delete: "events_ok es \<Longrightarrow> events_ok (AList.delete u es)"
  by (auto simp: events_ok_iff distinct_delete delete_conv' split: if_splits)



lemma insert_handler_ok: "handlers_ok q \<Longrightarrow> handlers_ok (insert_handler h q)"
  by (erule handlers_okE) (auto simp: insert_handler_def handlers_ok_def)

lemma insert_handler_set: "handlers_ok q \<Longrightarrow> set (hl_list (insert_handler h q)) = insert h (set (hl_list q))"
  by (erule handlers_okE) (auto simp: insert_handler_def)

text \<open>A type handlers are kept under is kept under itself.\<close>

lemma special_bind_kept: "special_bind (kept_type b t) = None"
  by (auto simp: kept_type_def special_bind_def special_delegate_def)

lemma add_one_ok: "events_ok es \<Longrightarrow> events_ok (add_one guid h sel tn es)"
  using handlers_of_ok [of es]
  by (auto simp: add_one_def Let_def list_ok_def insert_handler_ok list_all_iff insert_handler_set special_bind_kept
      split: prod.split intro!: events_ok_update) (auto simp: insert_handler_def split: if_splits)

lemma event_add_ok: "events_ok es \<Longrightarrow> events_ok (event_add guid h sel types es)"
proof -
  have "events_ok es \<Longrightarrow> events_ok (fold (add_one guid h sel) tns es)" for tns
    by (induction tns arbitrary: es) (simp_all add: add_one_ok)
  then show "events_ok es \<Longrightarrow> ?thesis" by (simp add: event_add_def)
qed

lemma without_parts:
  assumes "list_all (\<lambda>h. ho_selector h \<noteq> None) ds" and "list_all (\<lambda>h. ho_selector h = None) os"
  shows "without gone \<lparr>hl_list = ds @ os, hl_delegates = length ds\<rparr> =
    \<lparr>hl_list = filter (\<lambda>h. \<not> gone h) ds @ filter (\<lambda>h. \<not> gone h) os, hl_delegates = length (filter (\<lambda>h. \<not> gone h) ds)\<rparr>"
proof -
  have "filter (\<lambda>h. gone h \<and> ho_selector h \<noteq> None) ds = filter gone ds"
    using assms(1) by (intro filter_cong) (auto simp: list_all_iff)
  moreover have "filter (\<lambda>h. gone h \<and> ho_selector h \<noteq> None) os = []"
    using assms(2) by (auto simp: list_all_iff filter_empty_conv)
  moreover have "length ds - length (filter gone ds) = length (filter (\<lambda>h. \<not> gone h) ds)"
    using sum_length_filter_compl [of gone ds] by simp
  ultimately show ?thesis by (simp add: without_def)
qed

lemma without_ok:
  assumes "handlers_ok q"
  shows "handlers_ok (without gone q) \<and> hl_list (without gone q) = filter (\<lambda>h. \<not> gone h) (hl_list q)"
  using assms
proof (cases rule: handlers_okE)
  case (1 ds os)
  then show ?thesis unfolding 1(1) without_parts [OF 1(2,3)] by (auto simp: handlers_ok_def list_all_iff)
qed

lemma remove_typed_ok: "events_ok es \<Longrightarrow> events_ok (remove_typed mapped guid sel tn es)"
proof -
  assume ok: "events_ok es"
  obtain t nss where tn: "tn = (t, nss)" by (metis prod.exhaust)
  define u where "u = kept_type (sel \<noteq> Any_Selector) t"
  define rest where "rest = without (doomed mapped guid sel t nss) (handlers_of es u)"
  have "list_ok u rest" if "hl_list rest \<noteq> []"
    using that handlers_of_ok [OF ok, of u] without_ok [of "handlers_of es u"] special_bind_kept
    by (auto simp: list_ok_def rest_def list_all_iff u_def)
  then show ?thesis using ok
    by (simp add: remove_typed_def tn Let_def u_def [symmetric] rest_def [symmetric] events_ok_delete events_ok_update)
qed

lemma remove_one_ok: "events_ok es \<Longrightarrow> events_ok (remove_one guid sel tn es)"
proof -
  have "events_ok es \<Longrightarrow> events_ok (fold (\<lambda>u. remove_typed True guid sel (u, nss)) us es)" for nss us
    by (induction us arbitrary: es) (simp_all add: remove_typed_ok)
  then show "events_ok es \<Longrightarrow> ?thesis" by (simp add: remove_one_def remove_typed_ok split: prod.split)
qed

lemma event_remove_ok: "events_ok es \<Longrightarrow> events_ok (fst (event_remove guid sel types es))"
proof -
  have "events_ok es \<Longrightarrow> events_ok (fst (remove_words guid sel ws es))" for ws
    by (induction ws arbitrary: es) (simp_all add: remove_one_ok)
  then show "events_ok es \<Longrightarrow> ?thesis" by (simp add: event_remove_def)
qed

section \<open>Which handlers run, and in what order\<close>

text \<open>The handlers bound to an element one after the other, as they are registered.\<close>

type_synonym ('h, 'sel) registration = "nat \<times> 'h \<times> 'sel option \<times> string \<times> string list"

definition bound :: "('h, 'sel) registration list \<Rightarrow> ('h, 'sel) element_events" where
  "bound regs = fold (\<lambda>(g, h, sel, tn). add_one g h sel tn) regs []"

definition registered :: "string \<Rightarrow> ('h, 'sel) registration list \<Rightarrow> ('h, 'sel) handle_obj list" where
  "registered u regs =
     filter (\<lambda>x. ho_type x = u)
       (map (\<lambda>(g, h, sel, t, nss). \<lparr>ho_type = kept_type (sel \<noteq> None) t, ho_orig_type = t, ho_guid = g, ho_handler = h,
          ho_selector = sel, ho_namespaces = nss\<rparr>) (filter (\<lambda>(g, h, sel, t, nss). t \<noteq> []) regs))"

definition delegates :: "('h, 'sel) handle_obj list \<Rightarrow> ('h, 'sel) handle_obj list" where
  "delegates hs = filter (\<lambda>h. ho_selector h \<noteq> None) hs"

definition directs :: "('h, 'sel) handle_obj list \<Rightarrow> ('h, 'sel) handle_obj list" where
  "directs hs = filter (\<lambda>h. ho_selector h = None) hs"

lemma handlers_of_update: "handlers_of (AList.update u q es) v = (if v = u then q else handlers_of es v)"
  by (simp add: handlers_of_def update_conv')

lemma handlers_of_bound:
  "handlers_of (bound regs) u =
     \<lparr>hl_list = delegates (registered u regs) @ directs (registered u regs), hl_delegates = length (delegates (registered u regs))\<rparr>"
proof (induction regs rule: rev_induct)
  case Nil
  then show ?case by (simp add: bound_def registered_def delegates_def directs_def handlers_of_def no_handlers_def)
next
  case (snoc x regs)
  obtain g h sel t nss where x: "x = (g, h, sel, t, nss)" by (metis prod.exhaust)
  let ?o = "\<lparr>ho_type = kept_type (sel \<noteq> None) t, ho_orig_type = t, ho_guid = g, ho_handler = h, ho_selector = sel,
    ho_namespaces = nss\<rparr>"
  have b: "bound (regs @ [x]) = add_one g h sel (t, nss) (bound regs)" by (simp add: bound_def x)
  show ?case
  proof (cases "t = []")
    case True
    then have "bound (regs @ [x]) = bound regs" "registered u (regs @ [x]) = registered u regs"
      using b by (simp_all add: add_one_def registered_def x)
    then show ?thesis using snoc.IH by simp
  next
    case False
    have r: "registered u (regs @ [x]) = (if kept_type (sel \<noteq> None) t = u then registered u regs @ [?o] else registered u regs)"
      using False by (simp add: registered_def x)
    have h: "handlers_of (bound (regs @ [x])) u =
      (if u = kept_type (sel \<noteq> None) t then insert_handler ?o (handlers_of (bound regs) u) else handlers_of (bound regs) u)"
      using False by (simp add: b add_one_def Let_def handlers_of_update)
    show ?thesis unfolding h r snoc.IH by (auto simp: insert_handler_def delegates_def directs_def)
  qed
qed

text \<open>The handlers due with the element each runs at.\<close>

definition due :: "('n \<times> ('h, 'sel) handle_obj list) list \<Rightarrow> ('n \<times> ('h, 'sel) handle_obj) list" where
  "due q = concat (map (\<lambda>(cur, hs). map (Pair cur) hs) q)"

lemma due_filter: "due (filter (\<lambda>(cur, hs). hs \<noteq> []) q) = due q"
  by (induction q) (auto simp: due_def)

definition takes_delegates :: "jq_event \<Rightarrow> bool" where
  "takes_delegates ev \<longleftrightarrow> ev_button ev = 0 \<or> ev_type ev \<noteq> ''click''"

lemma event_handlers_due:
  assumes q: "q = \<lparr>hl_list = ds @ os, hl_delegates = length ds\<rparr>"
  shows "due (event_handlers matching disabled ev q below this) =
    (if takes_delegates ev
     then concat (map (\<lambda>cur. map (Pair cur) (filter (matched_by matching cur) ds))
       (filter (\<lambda>cur. \<not> disabled cur \<or> ev_type ev \<noteq> ''click'') below)) else []) @ map (Pair this) os"
proof -
  have d: "delegated_at matching q cur = filter (matched_by matching cur) ds" for cur
    by (simp add: delegated_at_def q)
  have o: "due (xs @ (if hl_delegates q < length (hl_list q) then [(this, drop (hl_delegates q) (hl_list q))] else [])) =
      due xs @ map (Pair this) os" for xs
    by (auto simp: due_def q)
  have e: "due (map (\<lambda>cur. (cur, delegated_at matching q cur)) xs) =
      concat (map (\<lambda>cur. map (Pair cur) (filter (matched_by matching cur) ds)) xs)" for xs
    by (induction xs) (simp_all add: due_def d)
  show ?thesis
  proof (cases "ds = []")
    case True
    then have "concat (map (\<lambda>cur. map (Pair cur) (filter (matched_by matching cur) ds)) xs) = []" for xs by simp
    then show ?thesis using True by (simp add: event_handlers_def o) (simp add: q due_def)
  next
    case False
    then show ?thesis unfolding event_handlers_def o by (simp add: q [symmetric] due_filter e takes_delegates_def) (simp add: q due_def)
  qed
qed

text \<open>Handlers that stop nothing, those of the last element aside, all run, one after the other.\<close>

definition quiet :: "'s handled \<Rightarrow> bool" where
  "quiet x \<longleftrightarrow> \<not> hd_stops x \<and> \<not> hd_stops_now x \<and> hd_returns x \<noteq> False_Value"

definition run_due :: "('h \<Rightarrow> 'n \<Rightarrow> 's \<Rightarrow> 's handled) \<Rightarrow> 'n \<times> ('h, 'sel) handle_obj \<Rightarrow> 's running \<Rightarrow> 's running" where
  "run_due run x r = take_handled (run (ho_handler (snd x)) (fst x) (rn_state r)) r"

lemma run_handlers_fold:
  assumes "ev_namespaces ev = []" and "\<And>h s. h \<in> set hs \<Longrightarrow> \<not> hd_stops_now (run (ho_handler h) cur s)" and "\<not> rn_immediate r"
  shows "run_handlers run ev cur hs r = fold (run_due run) (map (Pair cur) hs) r \<and>
    \<not> rn_immediate (fold (run_due run) (map (Pair cur) hs) r)"
  using assms
proof (induction hs arbitrary: r)
  case (Cons h hs)
  let ?r = "take_handled (run (ho_handler h) cur (rn_state r)) r"
  have "\<not> rn_immediate ?r" using Cons.prems(2) [of h] Cons.prems(3) by (simp add: take_handled_def)
  then show ?case using Cons.IH [of ?r] Cons.prems by (simp add: run_due_def)
qed simp

lemma quiet_fold_stopped:
  assumes "\<And>h s. h \<in> set hs \<Longrightarrow> quiet (run (ho_handler h) cur s)" and "\<not> rn_stopped r"
  shows "\<not> rn_stopped (fold (run_due run) (map (Pair cur) hs) r)"
  using assms
proof (induction hs arbitrary: r)
  case (Cons h hs)
  have "\<not> rn_stopped (run_due run (cur, h) r)"
    using Cons.prems(1) [of h "rn_state r"] Cons.prems(2) by (simp add: run_due_def take_handled_def quiet_def)
  then show ?case using Cons.IH [of "run_due run (cur, h) r"] Cons.prems(1) by simp
qed simp

lemma run_queue_fold:
  assumes "ev_namespaces ev = []" and "\<And>h n s. \<not> hd_stops_now (run h n s)"
    and "\<And>cur hs h s. (cur, hs) \<in> set (butlast q) \<Longrightarrow> h \<in> set hs \<Longrightarrow> quiet (run (ho_handler h) cur s)"
    and "\<not> rn_stopped r" and "\<not> rn_immediate r"
  shows "run_queue run ev q r = fold (run_due run) (due q) r"
  using assms(3-5)
proof (induction q arbitrary: r)
  case Nil
  then show ?case by (simp add: due_def)
next
  case (Cons x q)
  obtain cur hs where x: "x = (cur, hs)" by (metis prod.exhaust)
  have f: "run_handlers run ev cur hs r = fold (run_due run) (map (Pair cur) hs) r \<and>
    \<not> rn_immediate (fold (run_due run) (map (Pair cur) hs) r)"
    by (rule run_handlers_fold [OF assms(1) _ Cons.prems(3)]) (rule assms(2))
  have d: "due (x # q) = map (Pair cur) hs @ due q" by (simp add: due_def x)
  show ?case
  proof (cases "q = []")
    case True
    then show ?thesis using f Cons.prems(2) by (simp add: x due_def)
  next
    case False
    then have "\<not> rn_stopped (fold (run_due run) (map (Pair cur) hs) r)"
      using quiet_fold_stopped [of hs run cur r] Cons.prems(1) [of cur hs] Cons.prems(2) by (simp add: x)
    moreover have "quiet (run (ho_handler h) c s)" if "(c, gs) \<in> set (butlast q)" and "h \<in> set gs" for c h s gs
      by (rule Cons.prems(1) [OF _ that(2)]) (simp add: that(1) False)
    ultimately show ?thesis unfolding d using Cons.IH f Cons.prems(2) by (simp add: x)
  qed
qed

section \<open>Removing what was added\<close>

lemma remove_namespace_keep:
  assumes "events_ok es" and "u \<in> set (map fst es)" and "\<forall>h \<in> set (hl_list (handlers_of es u)). \<not> ns_within nss (ho_namespaces h)"
    and "nss \<noteq> []"
  shows "remove_typed True None Any_Selector (u, nss) es = es"
proof -
  from assms(1,2) obtain q where q: "map_of es u = Some q" "list_ok u q"
    by (metis events_ok_iff map_of_eq_None_iff not_None_eq set_map)
  have "kept_type False u = u" using q(2) by (simp add: list_ok_def kept_type_def)
  moreover have h: "handlers_of es u = q" using q(1) by (simp add: handlers_of_def)
  moreover have "without (doomed True None Any_Selector u nss) q = q"
  proof -
    have n: "\<forall>h \<in> set (hl_list q). \<not> doomed True None Any_Selector u nss h" using assms(3,4) h by (simp add: doomed_def)
    then have "filter (\<lambda>h. doomed True None Any_Selector u nss h \<and> ho_selector h \<noteq> None) (hl_list q) = []"
      by (auto simp: filter_empty_conv)
    moreover have "filter (\<lambda>h. \<not> doomed True None Any_Selector u nss h) (hl_list q) = hl_list q" using n by (auto simp: filter_id_conv)
    ultimately show ?thesis by (simp add: without_def)
  qed
  moreover have "AList.update u q es = es" using q(1) by (rule update_triv)
  ultimately show ?thesis using q(2) by (simp add: remove_typed_def Let_def list_ok_def)
qed

lemma fold_keep: "\<forall>u \<in> set us. f u es = es \<Longrightarrow> fold f us es = es"
  by (induction us) simp_all

lemma ns_within_refl: "ns_within xs xs"
  by (induction xs) simp_all

lemma bound_ok: "events_ok (bound regs)"
proof -
  have "events_ok es \<Longrightarrow> events_ok (fold (\<lambda>(g, h, sel, tn). add_one g h sel tn) regs es)" for es
    by (induction regs arbitrary: es) (auto simp: add_one_ok)
  then show ?thesis by (simp add: bound_def events_ok_Nil)
qed

text \<open>Taking a just added handler of a fresh namespace out of its list gives the list back.\<close>

lemma without_inserted:
  assumes "handlers_ok q" and "gone h" and "\<forall>x \<in> set (hl_list q). \<not> gone x"
  shows "without gone (insert_handler h q) = q"
  using assms(1)
proof (cases rule: handlers_okE)
  case (1 ds os)
  have "\<forall>x \<in> set ds \<union> set os. \<not> gone x" using assms(3) by (simp add: 1)
  then have "filter (\<lambda>x. \<not> gone x) ds = ds" "filter (\<lambda>x. \<not> gone x) os = os"
    "filter (\<lambda>x. gone x \<and> ho_selector x \<noteq> None) ds = []" "filter (\<lambda>x. gone x \<and> ho_selector x \<noteq> None) os = []"
    by (auto simp: filter_id_conv filter_empty_conv)
  then show ?thesis using assms(2) by (auto simp: insert_handler_def without_def 1(1))
qed

lemma off_fresh_namespace:
  assumes ok: "events_ok es" and t: "t \<noteq> []" and n: "nss \<noteq> []"
    and fresh: "\<And>u h. h \<in> set (hl_list (handlers_of es u)) \<Longrightarrow> \<not> ns_within nss (ho_namespaces h)"
  shows "remove_one None Any_Selector ([], nss) (add_one g h sel (t, nss) es) = es"
proof -
  define u where "u = kept_type (sel \<noteq> None) t"
  define new where "new = \<lparr>ho_type = u, ho_orig_type = t, ho_guid = g, ho_handler = h, ho_selector = sel, ho_namespaces = nss\<rparr>"
  define es1 where "es1 = AList.update u (insert_handler new (handlers_of es u)) es"
  define f where "f = (\<lambda>v. remove_typed True None (Any_Selector :: 'b off_selector) (v, nss) :: ('a, 'b) element_events \<Rightarrow> _)"
  have a: "add_one g h sel (t, nss) es = es1" using t by (simp add: add_one_def Let_def u_def es1_def new_def)
  have ok1: "events_ok es1" using add_one_ok [OF ok, of g h sel "(t, nss)"] a by simp
  have k1: "fst ` set es1 = insert u (fst ` set es)" by (simp add: es1_def dom_update)
  obtain xs ys where ks: "map fst es1 = xs @ u # ys" using k1 by (metis insertI1 set_map split_list)
  have dist: "u \<notin> set xs" "u \<notin> set ys" using ok1 ks by (auto simp: events_ok_def)
  have hs: "handlers_of es1 v = handlers_of es v" if "v \<noteq> u" for v using that by (simp add: es1_def handlers_of_update)
  have keep1: "f v es1 = es1" if "v \<in> set xs" for v
    unfolding f_def
  proof (rule remove_namespace_keep [OF ok1 _ _ n])
    show "v \<in> set (map fst es1)" unfolding ks using that by simp
    have "v \<noteq> u" using that dist by blast
    then show "\<forall>h \<in> set (hl_list (handlers_of es1 v)). \<not> ns_within nss (ho_namespaces h)" using fresh by (simp add: hs)
  qed
  have here: "f u es1 = es"
  proof -
    have ku: "kept_type False u = u" using special_bind_kept by (simp add: kept_type_def u_def)
    have q1: "handlers_of es1 u = insert_handler new (handlers_of es u)" by (simp add: es1_def handlers_of_update)
    have w: "without (doomed True None Any_Selector u nss) (insert_handler new (handlers_of es u)) = handlers_of es u"
      using handlers_of_ok [OF ok, of u] fresh [of _ u]
      by (intro without_inserted) (auto simp: doomed_def new_def ns_within_refl)
    have ne: "hl_list (insert_handler new (handlers_of es u)) \<noteq> []" by (simp add: insert_handler_def)
    show ?thesis
    proof (cases "map_of es u")
      case None
      then have "handlers_of es u = no_handlers" by (simp add: handlers_of_def)
      moreover from None have "u \<notin> fst ` set es" by (simp add: map_of_eq_None_iff)
      ultimately show ?thesis
        using w ne by (simp add: f_def remove_typed_def Let_def ku q1) (simp add: es1_def delete_update_same)
    next
      case (Some q)
      then have "handlers_of es u = q" "hl_list q \<noteq> []" using ok by (auto simp: handlers_of_def events_ok_iff list_ok_def)
      then show ?thesis
        using w ne Some by (simp add: f_def remove_typed_def Let_def ku q1) (simp add: es1_def update_triv)
    qed
  qed
  have keep2: "f v es = es" if "v \<in> set ys" for v
    unfolding f_def
  proof (rule remove_namespace_keep [OF ok _ _ n])
    have "v \<in> fst ` set es1" using that ks by (metis in_set_conv_decomp_first set_map Un_iff set_append set_ConsD list.set_intros(2))
    then show "v \<in> set (map fst es)" using k1 that dist by auto
    show "\<forall>h \<in> set (hl_list (handlers_of es v)). \<not> ns_within nss (ho_namespaces h)" using fresh by blast
  qed
  have "fold f (map fst es1) es1 = es" unfolding ks using keep1 keep2 here by (simp add: fold_keep)
  then show ?thesis by (simp add: remove_one_def a f_def)
qed

lemma words_single: "s \<noteq> [] \<Longrightarrow> list_all (\<lambda>c. \<not> is_space c) s \<Longrightarrow> words s = [s]"
proof -
  assume s: "s \<noteq> []" "list_all (\<lambda>c. \<not> is_space c) s"
  then obtain c cs where c: "s = c # cs" by (cases s) auto
  have u: "words s = (case dropWhile is_space s of [] \<Rightarrow> []
    | c # cs \<Rightarrow> (c # takeWhile (\<lambda>d. \<not> is_space d) cs) # words (dropWhile (\<lambda>d. \<not> is_space d) cs))" by (rule words.simps)
  have t: "takeWhile (\<lambda>d. \<not> is_space d) cs = cs" "dropWhile (\<lambda>d. \<not> is_space d) cs = []"
    using s(2) by (simp_all add: c list_all_iff)
  have w: "words [] = []" by (simp add: words.simps)
  have e: "dropWhile is_space s = c # cs" using s(2) by (simp add: c)
  show ?thesis unfolding u e by (simp only: list.case t w c)
qed

lemma split_dots_single: "CHR ''.'' \<notin> set s \<Longrightarrow> split_dots s = [s]"
  by (induction s) auto

lemma parse_type_ns:
  assumes "CHR ''.'' \<notin> set t" and "CHR ''.'' \<notin> set n" and "n \<noteq> []"
  shows "parse_type (t @ CHR ''.'' # n) = (t, [n])"
proof -
  have "dropWhile (\<lambda>c. c \<noteq> CHR ''.'') (t @ CHR ''.'' # n) = CHR ''.'' # n" using assms(1) by (induction t) auto
  moreover have "takeWhile (\<lambda>c. c \<noteq> CHR ''.'') (t @ CHR ''.'' # n) = t" using assms(1) by (induction t) auto
  moreover obtain c cs where "n = c # cs" using assms(3) by (cases n) auto
  moreover have "split_dots n = [n]" using assms(2) by (rule split_dots_single)
  ultimately show ?thesis by (simp add: parse_type_def del: split_dots.simps)
qed

lemma dispatch_bound:
  assumes "ep_events pg (rn_state r) this = bound regs" and "hs = registered (ev_type ev) regs"
    and "ev_namespaces ev = []" and "\<not> rn_stopped r" and "\<not> rn_immediate r"
    and "\<And>h n s. \<not> hd_stops_now (ep_run pg h n s)"
    and "\<And>h n s. h \<in> set (delegates hs) \<Longrightarrow> quiet (ep_run pg (ho_handler h) n s)"
  shows "event_dispatch pg ev below this r =
    fold (run_due (ep_run pg))
      ((if takes_delegates ev
        then concat (map (\<lambda>cur. map (Pair cur) (filter (matched_by (ep_matching pg) cur) (delegates hs)))
          (filter (\<lambda>cur. \<not> ep_disabled pg cur \<or> ev_type ev \<noteq> ''click'') below)) else []) @ map (Pair this) (directs hs)) r"
proof -
  let ?q = "handlers_of (bound regs) (ev_type ev)"
  let ?l = "event_handlers (ep_matching pg) (ep_disabled pg) ev ?q below this"
  have q: "?q = \<lparr>hl_list = delegates hs @ directs hs, hl_delegates = length (delegates hs)\<rparr>"
    by (simp add: handlers_of_bound assms(2))
  have "h \<in> set (delegates hs)" if "(cur, gs) \<in> set (butlast ?l)" and "h \<in> set gs" for cur gs h
  proof -
    obtain xs where l: "?l = xs @ (if directs hs = [] then [] else [(this, directs hs)])"
      and xs: "\<And>c gs. (c, gs) \<in> set xs \<Longrightarrow> set gs \<subseteq> set (delegates hs)"
    proof
      show "?l = (if takes_delegates ev \<and> delegates hs \<noteq> [] then filter (\<lambda>(cur, hs). hs \<noteq> [])
          (map (\<lambda>cur. (cur, filter (matched_by (ep_matching pg) cur) (delegates hs)))
            (filter (\<lambda>cur. \<not> ep_disabled pg cur \<or> ev_type ev \<noteq> ''click'') below)) else []) @
          (if directs hs = [] then [] else [(this, directs hs)])"
        by (auto simp: event_handlers_def delegated_at_def q takes_delegates_def)
    qed (auto split: if_splits)
    have "(cur, gs) \<in> set xs"
      using that(1) unfolding l by (auto simp: butlast_append dest: in_set_butlastD split: if_splits)
    then show ?thesis using xs that(2) by blast
  qed
  then have "run_queue (ep_run pg) ev ?l r = fold (run_due (ep_run pg)) (due ?l) r"
    using assms(3-7) by (intro run_queue_fold) blast+
  then show ?thesis unfolding event_dispatch_def assms(1) event_handlers_due [OF q] .
qed

text \<open>What every handler of the page keeps, an event keeps.\<close>

lemma run_handlers_invariant:
  assumes "\<And>h s. h \<in> set hs \<Longrightarrow> I s \<Longrightarrow> I (hd_state (run (ho_handler h) cur s))" and "I (rn_state r)"
  shows "I (rn_state (run_handlers run ev cur hs r))"
  using assms
proof (induction hs arbitrary: r)
  case (Cons h hs)
  have "I (rn_state (take_handled (run (ho_handler h) cur (rn_state r)) r))"
    using Cons.prems by (simp add: take_handled_def)
  then show ?case using Cons by simp
qed simp

lemma run_queue_invariant:
  assumes "\<And>cur hs h s. (cur, hs) \<in> set q \<Longrightarrow> h \<in> set hs \<Longrightarrow> I s \<Longrightarrow> I (hd_state (run (ho_handler h) cur s))" and "I (rn_state r)"
  shows "I (rn_state (run_queue run ev q r))"
  using assms
proof (induction q arbitrary: r)
  case (Cons x q)
  obtain cur hs where x: "x = (cur, hs)" by (metis prod.exhaust)
  have r: "I (rn_state (run_handlers run ev cur hs r))"
  proof (rule run_handlers_invariant)
    show "I (hd_state (run (ho_handler h) cur s))" if "h \<in> set hs" and "I s" for h s
      by (rule Cons.prems(1) [OF _ that]) (simp add: x)
  qed (rule Cons.prems(2))
  have "I (rn_state (run_queue run ev q (run_handlers run ev cur hs r)))"
    by (rule Cons.IH [OF _ r]) (rule Cons.prems(1), auto)
  then show ?case using Cons.prems(2) by (simp add: x)
qed simp

lemma event_handlers_members:
  "(cur, hs) \<in> set (event_handlers matching disabled ev q below this) \<Longrightarrow> h \<in> set hs \<Longrightarrow> h \<in> set (hl_list q)"
  by (auto simp: event_handlers_def delegated_at_def dest: in_set_takeD in_set_dropD split: if_splits)

lemma propagate_invariant:
  assumes "\<And>n u h m s s'. h \<in> set (hl_list (handlers_of (ep_events pg s n) u)) \<Longrightarrow> I s' \<Longrightarrow> I (hd_state (ep_run pg (ho_handler h) m s'))"
    and "I (rn_state r)"
  shows "I (rn_state (propagate pg ev below up r))"
  using assms(2)
proof (induction up arbitrary: below r)
  case (Cons n up)
  have "I (rn_state (event_dispatch pg ev below n r))"
    unfolding event_dispatch_def
  proof (rule run_queue_invariant)
    show "I (hd_state (ep_run pg (ho_handler h) cur s))"
      if "(cur, hs) \<in> set (event_handlers (ep_matching pg) (ep_disabled pg) ev
        (handlers_of (ep_events pg (rn_state r) n) (ev_type ev)) below n)" and "h \<in> set hs" and "I s" for cur hs h s
      by (rule assms(1) [OF event_handlers_members [OF that(1,2)] that(3)])
  qed (rule Cons.prems)
  then have "I (rn_state (propagate pg ev (below @ [n]) up (event_dispatch pg ev below n r)))" by (rule Cons.IH)
  then show ?case using Cons.prems by simp
qed simp

text \<open>The same with what is known of a handler that runs: its selector fits an element of the path, or it is bound there.\<close>

lemma event_handlers_where:
  assumes "(cur, hs) \<in> set (event_handlers matching disabled ev q below this)" and "h \<in> set hs"
  shows "h \<in> set (hl_list q) \<and> (cur \<in> set below \<and> matched_by matching cur h \<or> cur = this)"
  using assms by (auto simp: event_handlers_def delegated_at_def dest: in_set_takeD in_set_dropD split: if_splits)

lemma propagate_keeps:
  assumes "\<And>n u h m s s'. n \<in> set (below @ up) \<Longrightarrow> m \<in> set (below @ up) \<Longrightarrow> h \<in> set (hl_list (handlers_of (ep_events pg s n) u)) \<Longrightarrow>
      matched_by (ep_matching pg) m h \<or> m = n \<Longrightarrow> I s' \<Longrightarrow> I (hd_state (ep_run pg (ho_handler h) m s'))"
    and "I (rn_state r)"
  shows "I (rn_state (propagate pg ev below up r))"
  using assms
proof (induction up arbitrary: below r)
  case (Cons n up)
  have "I (rn_state (event_dispatch pg ev below n r))"
    unfolding event_dispatch_def
  proof (rule run_queue_invariant)
    fix cur hs h s
    assume q: "(cur, hs) \<in> set (event_handlers (ep_matching pg) (ep_disabled pg) ev
        (handlers_of (ep_events pg (rn_state r) n) (ev_type ev)) below n)" "h \<in> set hs" and "I s"
    then show "I (hd_state (ep_run pg (ho_handler h) cur s))"
      using event_handlers_where [OF q] by (intro Cons.prems(1) [of n]) auto
  qed (rule Cons.prems)
  then have "I (rn_state (propagate pg ev (below @ [n]) up (event_dispatch pg ev below n r)))"
    by (intro Cons.IH Cons.prems(1)) auto
  then show ?case using Cons.prems(2) by simp
qed simp

lemma registered_regs:
  "x \<in> set (registered u regs) \<Longrightarrow>
     ho_type x = u \<and> (\<exists>g nss. (g, ho_handler x, ho_selector x, ho_orig_type x, nss) \<in> set regs)"
  by (force simp: registered_def)

lemma hl_list_bound: "x \<in> set (hl_list (handlers_of (bound regs) u)) \<longleftrightarrow> x \<in> set (registered u regs)"
  by (auto simp: handlers_of_bound delegates_def directs_def)

section \<open>Properties\<close>

text \<open>Any calls of \<open>on\<close> and \<open>off\<close> on an element.\<close>

datatype ('h, 'sel) event_op = On nat 'h "'sel option" string | Off "nat option" "'sel off_selector" string

fun on_off :: "('h, 'sel) event_op \<Rightarrow> ('h, 'sel) element_events \<Rightarrow> ('h, 'sel) element_events" where
  "on_off (On g h sel types) es = event_add g h sel types es"
| "on_off (Off g sel types) es = fst (event_remove g sel types es)"

text \<open>After any calls of \<open>on\<close> and \<open>off\<close>, with whatever types, namespaces, selectors and handlers, the delegated
  handlers of each type are exactly the first \<open>delegateCount\<close> of its list, no list is empty or kept twice, and every
  handler is kept under its type.\<close>

theorem delegates_stay_in_front:
  "events_ok (fold on_off ops [])"
proof -
  have "events_ok es \<Longrightarrow> events_ok (fold on_off ops es)" for es
  proof (induction ops arbitrary: es)
    case (Cons x ops)
    then show ?case by (cases x) (simp_all add: event_add_ok event_remove_ok)
  qed simp
  then show ?thesis using events_ok_Nil by blast
qed

text \<open>C19. Dispatching an event runs exactly the handlers bound for its type and in this order: for each element from the
  target up to below this one the delegated handlers whose selector matches it, as bound; then the element's own, as
  bound. Handlers of disabled elements do not see clicks, and a click of another button is not delegated. (No handler
  may stop the event before the element's own are due.)\<close>

theorem handlers_run_as_bound:
  assumes "ep_events pg (rn_state r) this = bound regs" and "hs = registered (ev_type ev) regs"
    and "ev_namespaces ev = []" and "\<not> rn_stopped r" and "\<not> rn_immediate r"
    and "\<And>h n s. \<not> hd_stops_now (ep_run pg h n s)"
    and "\<And>h n s. h \<in> set (delegates hs) \<Longrightarrow> quiet (ep_run pg (ho_handler h) n s)"
  shows "event_dispatch pg ev below this r =
    fold (run_due (ep_run pg))
      ((if takes_delegates ev
        then concat (map (\<lambda>cur. map (Pair cur) (filter (matched_by (ep_matching pg) cur) (delegates hs)))
          (filter (\<lambda>cur. \<not> ep_disabled pg cur \<or> ev_type ev \<noteq> ''click'') below)) else []) @ map (Pair this) (directs hs)) r"
  using assms by (rule dispatch_bound)

text \<open>What \<open>on\<close> adds under a namespace nothing else has, \<open>off\<close> of that namespace takes away again and nothing else:
  the element is left as it was.\<close>

theorem off_undoes_on:
  assumes "events_ok es" and "t \<noteq> []" and "n \<noteq> []"
    and "list_all (\<lambda>c. \<not> is_space c \<and> c \<noteq> CHR ''.'') t" and "list_all (\<lambda>c. \<not> is_space c \<and> c \<noteq> CHR ''.'') n"
    and "\<forall>(u, q) \<in> set es. \<forall>h \<in> set (hl_list q). n \<notin> set (ho_namespaces h)"
  shows "event_remove None Any_Selector (CHR ''.'' # n) (event_add g h sel (t @ CHR ''.'' # n) es) = (es, True)"
proof -
  have "CHR ''.'' \<notin> set t" "CHR ''.'' \<notin> set n" using assms(4,5) by (auto simp: list_all_iff)
  then have p: "parse_type (t @ CHR ''.'' # n) = (t, [n])" "parse_type (CHR ''.'' # n) = ([], [n])"
    using parse_type_ns [of t n] parse_type_ns [of "[]" n] assms(3) by simp_all
  have "\<not> is_space CHR ''.''" by (simp add: is_space_def)
  then have "list_all (\<lambda>c. \<not> is_space c) (t @ CHR ''.'' # n)" "list_all (\<lambda>c. \<not> is_space c) (CHR ''.'' # n)"
    using assms(4,5) by (auto simp: list_all_iff)
  then have w: "words (t @ CHR ''.'' # n) = [t @ CHR ''.'' # n]" "words (CHR ''.'' # n) = [CHR ''.'' # n]"
    using words_single by blast+
  have fresh: "\<not> ns_within [n] (ho_namespaces x)" if x: "x \<in> set (hl_list (handlers_of es u))" for u x
  proof -
    obtain q where "map_of es u = Some q" "x \<in> set (hl_list q)"
      using x by (cases "map_of es u") (simp_all add: handlers_of_def)
    then have "n \<notin> set (ho_namespaces x)" using assms(6) by (auto dest!: map_of_SomeD)
    then show ?thesis
    proof (induction "ho_namespaces x" arbitrary: x)
      case (Cons y ys)
      have "n \<notin> set ys" "n \<noteq> y" using Cons.hyps(2) Cons.prems by (metis list.set_intros)+
      moreover have "n \<notin> set ys \<Longrightarrow> \<not> ns_within [n] ys" for ys by (induction ys) simp_all
      ultimately show ?case using Cons.hyps(2) by (metis ns_within.simps(3))
    qed simp
  qed
  have "remove_one None Any_Selector ([], [n]) (add_one g h sel (t, [n]) es) = es"
    by (rule off_fresh_namespace [OF assms(1,2) _ fresh]) simp_all
  moreover have "\<not> endless (CHR ''.'' # n)" using assms(3) by (simp add: endless_def)
  ultimately show ?thesis by (simp add: event_add_def event_remove_def p w)
qed

text \<open>A page with one list element: a delegated handler for rows and one of its own that stops the event.\<close>

definition sample_regs :: "(nat, nat) registration list" where
  "sample_regs = [(1, 10, None, ''click'', []), (2, 20, Some 0, ''click'', [])]"

definition sample_event_page :: "(nat, nat, nat, nat list) event_page" where
  "sample_event_page =
     \<lparr>ep_events = (\<lambda>s n. bound sample_regs), ep_matching = (\<lambda>sel n. n = 5), ep_disabled = (\<lambda>n. False),
      ep_run = (\<lambda>h n s. \<lparr>hd_state = s @ [h], hd_prevents = False, hd_stops = False, hd_stops_now = False,
        hd_returns = (if h = 10 then False_Value else Other_Value)\<rparr>)\<rparr>"

theorem handlers_run_as_bound_witness:
  "rn_state (event_dispatch sample_event_page \<lparr>ev_type = ''click'', ev_namespaces = [], ev_button = 0\<rparr> [5, 6] 7 (start_running []))
     = [20, 10]"
proof -
  let ?ev = "\<lparr>ev_type = ''click'', ev_namespaces = [], ev_button = 0\<rparr>"
  have r: "registered ''click'' sample_regs =
      [\<lparr>ho_type = ''click'', ho_orig_type = ''click'', ho_guid = 1, ho_handler = 10, ho_selector = None, ho_namespaces = []\<rparr>,
       \<lparr>ho_type = ''click'', ho_orig_type = ''click'', ho_guid = 2, ho_handler = 20, ho_selector = Some 0, ho_namespaces = []\<rparr>]"
    by (simp add: registered_def sample_regs_def kept_type_def special_bind_def special_delegate_def)
  have "event_dispatch sample_event_page ?ev [5, 6] 7 (start_running []) =
    fold (run_due (ep_run sample_event_page))
      ((if takes_delegates ?ev
        then concat (map (\<lambda>cur. map (Pair cur) (filter (matched_by (ep_matching sample_event_page) cur)
            (delegates (registered (ev_type ?ev) sample_regs))))
          (filter (\<lambda>cur. \<not> ep_disabled sample_event_page cur \<or> ev_type ?ev \<noteq> ''click'') [5, 6])) else []) @
       map (Pair 7) (directs (registered (ev_type ?ev) sample_regs))) (start_running [])"
    by (rule handlers_run_as_bound [OF _ refl])
      (auto simp: sample_event_page_def start_running_def r delegates_def quiet_def)
  then show ?thesis
    by (simp add: r sample_event_page_def takes_delegates_def delegates_def directs_def matched_by_def run_due_def
        take_handled_def start_running_def)
qed

theorem off_undoes_on_witness:
  "event_remove None Any_Selector ''.menu'' (event_add 3 30 (Some 1) ''focus.menu'' (bound sample_regs)) = (bound sample_regs, True)"
proof -
  have "\<forall>(u, q) \<in> set (bound sample_regs). \<forall>h \<in> set (hl_list q). ''menu'' \<notin> set (ho_namespaces h)" by code_simp
  then show ?thesis
    using off_undoes_on [OF bound_ok, of "''focus''" "''menu''" sample_regs 3 30 "Some 1"] by (simp add: is_space_def)
qed

end
