(* ===== verification/Profile_Page.thy ===== *)
theory Profile_Page
  imports JQuery_Event
begin

text \<open>
  The application's own pages: the editable profile of a broker (\<open>brokers.js.coffee\<close>), the form to save a
  story (\<open>financial_stories.js.coffee\<close>) and the story tabs of the home page (\<open>users.js.coffee\<close>), as compiled
  into the deployed bundle. The three files bind their handlers with jQuery on the elements of whatever page is
  shown; the table \<open>page_bindings\<close> has them in the order of the bundle, and events run through them by
  \<open>jQuery.event\<close> (\<open>JQuery_Event\<close>). Replies of the server are the scripts of the views (\<open>*.js.erb\<close>); which of them
  answers a request is left open. The lemmas show that each panel shows either its form or its text, that a
  form loaded into an edit dialog sends one request, and that the handler of the story tabs disables the
  links in a profile's list of stories.
\<close>

section \<open>Elements and selectors\<close>

datatype record_kind = Fin_Product | Education | Experience | Financial_Story

datatype panel = Profile_Info | About | Skills

datatype dialog =
    License_Dialog
  | Vehicle_Dialog
  | Save_Story_Dialog
  | Add_Dialog record_kind
  | Edit_Dialog record_kind

text \<open>An element as handlers see it: tag, id, classes and the \<open>action\<close> of a form.\<close>

record page_node =
  pn_tag :: string
  pn_id :: "string option"
  pn_classes :: css
  pn_action :: string

datatype selector = Tag_Class string string | Tag_Id string string

fun selects :: "selector \<Rightarrow> page_node \<Rightarrow> bool" where
  "selects (Tag_Class tag c) n \<longleftrightarrow> pn_tag n = tag \<and> has_class c (pn_classes n)"
| "selects (Tag_Id tag i) n \<longleftrightarrow> pn_tag n = tag \<and> pn_id n = Some i"

section \<open>Bindings\<close>

datatype page_action =
    Toggle_Panel panel
  | Update_Profile
  | Open_Dialog dialog
  | Edit_Profile string string
  | Show_Stories
  | Show_Testimonies

text \<open>\<open>$("#at").on(event, selector, action)\<close>, or \<open>$("#at").on(event, action)\<close> without a selector.\<close>

record page_binding =
  bd_at :: string
  bd_event :: string
  bd_selector :: "selector option"
  bd_action :: page_action

definition on_within :: "string \<Rightarrow> string \<Rightarrow> selector \<Rightarrow> page_action \<Rightarrow> page_binding" where
  "on_within i ev sel a = \<lparr>bd_at = i, bd_event = ev, bd_selector = Some sel, bd_action = a\<rparr>"

definition on_self :: "string \<Rightarrow> string \<Rightarrow> page_action \<Rightarrow> page_binding" where
  "on_self i ev a = \<lparr>bd_at = i, bd_event = ev, bd_selector = None, bd_action = a\<rparr>"

definition panel_bindings :: "page_binding list" where
  "panel_bindings =
     [on_within ''profile_infos'' ''click'' (Tag_Class ''a'' ''profile_info_edit'') (Toggle_Panel Profile_Info),
      on_within ''profile_infos'' ''submit'' (Tag_Id ''form'' ''profile_info_form'') Update_Profile,
      on_within ''abouts'' ''click'' (Tag_Class ''a'' ''about_edit'') (Toggle_Panel About),
      on_within ''abouts'' ''submit'' (Tag_Id ''form'' ''about_form'') Update_Profile,
      on_within ''skills'' ''click'' (Tag_Class ''a'' ''skills_edit'') (Toggle_Panel Skills),
      on_within ''skills'' ''submit'' (Tag_Id ''form'' ''skills_form'') Update_Profile]"

definition dialog_bindings :: "page_binding list" where
  "dialog_bindings =
     [on_within ''licenses'' ''click'' (Tag_Class ''a'' ''licenses_edit'') (Open_Dialog License_Dialog),
      on_within ''financial_vehicles'' ''click'' (Tag_Class ''a'' ''financial_vehicle_edit'') (Open_Dialog Vehicle_Dialog),
      on_within ''financial_vehicle_dialog_form'' ''submit'' (Tag_Id ''form'' ''vehicle_form'') Update_Profile,
      on_within ''financial_vehicles'' ''click'' (Tag_Class ''a'' ''fin_product_add'') (Open_Dialog (Add_Dialog Fin_Product)),
      on_within ''fin_product_add_dialog_form'' ''submit'' (Tag_Id ''form'' ''fin_product_add_form'') Update_Profile,
      on_within ''financial_vehicles'' ''click'' (Tag_Class ''a'' ''fin_product_edit'')
        (Edit_Profile ''/financial_products/'' ''fin_product''),
      on_within ''educations'' ''click'' (Tag_Class ''a'' ''education_add'') (Open_Dialog (Add_Dialog Education)),
      on_within ''education_add_dialog_form'' ''submit'' (Tag_Id ''form'' ''education_add_form'') Update_Profile,
      on_within ''educations'' ''click'' (Tag_Class ''a'' ''education_edit'') (Edit_Profile ''/educations/'' ''education''),
      on_within ''experiences'' ''click'' (Tag_Class ''a'' ''experience_add'') (Open_Dialog (Add_Dialog Experience)),
      on_within ''experience_add_dialog_form'' ''submit'' (Tag_Id ''form'' ''experience_add_form'') Update_Profile,
      on_within ''experiences'' ''click'' (Tag_Class ''a'' ''experience_edit'') (Edit_Profile ''/experiences/'' ''experience''),
      on_within ''financial_stories'' ''click'' (Tag_Class ''a'' ''financial_story_add'')
        (Open_Dialog (Add_Dialog Financial_Story)),
      on_within ''fin_story_add_dialog_form'' ''submit'' (Tag_Id ''form'' ''fin_story_add_form'') Update_Profile,
      on_within ''financial_stories'' ''click'' (Tag_Class ''a'' ''fin_story_edit'')
        (Edit_Profile ''/financial_stories/'' ''financial_story'')]"

definition save_story_bindings :: "page_binding list" where
  "save_story_bindings = [on_self ''save_story'' ''click'' (Open_Dialog Save_Story_Dialog)]"

definition story_tab_bindings :: "page_binding list" where
  "story_tab_bindings =
     [on_self ''financial_stories'' ''click'' Show_Stories,
      on_self ''financial_testimonies'' ''click'' Show_Testimonies]"

definition page_bindings :: "page_binding list" where
  "page_bindings = panel_bindings @ dialog_bindings @ save_story_bindings @ story_tab_bindings"

text \<open>The dialogs with their ids, widths and heights; all are modal and closed at first.\<close>

definition dialog_table :: "(string \<times> dialog \<times> nat \<times> nat option) list" where
  "dialog_table =
     [(''license_dialog_form'', License_Dialog, 700, None),
      (''financial_vehicle_dialog_form'', Vehicle_Dialog, 600, Some 600),
      (''fin_product_add_dialog_form'', Add_Dialog Fin_Product, 400, None),
      (''fin_product_edit_dialog_form'', Edit_Dialog Fin_Product, 400, None),
      (''education_add_dialog_form'', Add_Dialog Education, 500, None),
      (''education_edit_dialog_form'', Edit_Dialog Education, 400, None),
      (''experience_add_dialog_form'', Add_Dialog Experience, 500, None),
      (''experience_edit_dialog_form'', Edit_Dialog Experience, 400, None),
      (''fin_story_add_dialog_form'', Add_Dialog Financial_Story, 700, None),
      (''fin_story_edit_dialog_form'', Edit_Dialog Financial_Story, 700, None),
      (''save_story_form'', Save_Story_Dialog, 700, Some 400)]"

section \<open>State\<close>

text \<open>
  The form of a record in its edit dialog, with the number of handlers bound to its submission and to clicks on
  its delete button.
\<close>

record edit_form =
  ef_action :: string
  ef_delete_action :: string
  ef_submits :: nat
  ef_deletes :: nat

text \<open>\<open>Get_Edit path id object\<close> asks for \<open>path/id/edit\<close>.\<close>

datatype profile_request = Get_Edit string string string | Post_Form string | Post_Delete string

record profile_page =
  pp_form_shown :: "panel \<Rightarrow> bool"
  pp_display_shown :: "panel \<Rightarrow> bool"
  pp_open :: "dialog \<Rightarrow> bool"
  pp_edit_form :: "record_kind \<Rightarrow> edit_form option"
  pp_stories_shown :: bool
  pp_testimonies_shown :: bool
  pp_sent :: "profile_request list"
  pp_pending :: "profile_request list"

definition opened_profile :: profile_page where
  "opened_profile =
     \<lparr>pp_form_shown = (\<lambda>p. False), pp_display_shown = (\<lambda>p. True), pp_open = (\<lambda>d. False), pp_edit_form = (\<lambda>k. None),
      pp_stories_shown = True, pp_testimonies_shown = False, pp_sent = [], pp_pending = []\<rparr>"

definition edit_url :: "string \<Rightarrow> string \<Rightarrow> string" where
  "edit_url path i = path @ i @ ''/edit''"

definition send :: "profile_request \<Rightarrow> profile_page \<Rightarrow> profile_page" where
  "send r s = s\<lparr>pp_sent := pp_sent s @ [r], pp_pending := pp_pending s @ [r]\<rparr>"

definition toggle_panel :: "panel \<Rightarrow> profile_page \<Rightarrow> profile_page" where
  "toggle_panel p s =
     (if pp_form_shown s p
      then s\<lparr>pp_form_shown := (pp_form_shown s)(p := False), pp_display_shown := (pp_display_shown s)(p := True)\<rparr>
      else s\<lparr>pp_form_shown := (pp_form_shown s)(p := True), pp_display_shown := (pp_display_shown s)(p := False)\<rparr>)"

section \<open>Handlers\<close>

definition leave :: "profile_page \<Rightarrow> profile_page handled" where
  "leave s = \<lparr>hd_state = s, hd_prevents = False, hd_stops = False, hd_stops_now = False, hd_returns = Other_Value\<rparr>"

definition prevent :: "profile_page \<Rightarrow> profile_page handled" where
  "prevent s = (leave s)\<lparr>hd_prevents := True\<rparr>"

definition return_false :: "profile_page \<Rightarrow> profile_page handled" where
  "return_false s = (leave s)\<lparr>hd_returns := False_Value\<rparr>"

text \<open>What the handlers do with \<open>this\<close>.\<close>

fun act :: "page_action \<Rightarrow> page_node \<Rightarrow> profile_page \<Rightarrow> profile_page handled" where
  "act (Toggle_Panel p) n s = leave (toggle_panel p s)"
| "act Update_Profile n s = prevent (send (Post_Form (pn_action n)) s)"
| "act (Open_Dialog d) n s = leave (s\<lparr>pp_open := (pp_open s)(d := True)\<rparr>)"
| "act (Edit_Profile path object) n s =
     leave (send (Get_Edit path (case pn_id n of Some i \<Rightarrow> i | None \<Rightarrow> ''undefined'') object) s)"
| "act Show_Stories n s = return_false (s\<lparr>pp_stories_shown := True, pp_testimonies_shown := False\<rparr>)"
| "act Show_Testimonies n s = return_false (s\<lparr>pp_stories_shown := False, pp_testimonies_shown := True\<rparr>)"

text \<open>The calls of \<open>on\<close> an element with the id \<open>i\<close> has seen.\<close>

definition bound_at :: "string \<Rightarrow> (page_action, selector) registration list" where
  "bound_at i = map (\<lambda>b. (0, bd_action b, bd_selector b, bd_event b, [])) (filter (\<lambda>b. bd_at b = i) page_bindings)"

definition regs_of :: "page_node \<Rightarrow> (page_action, selector) registration list" where
  "regs_of n = (case pn_id n of Some i \<Rightarrow> bound_at i | None \<Rightarrow> [])"

definition page_events :: "(page_action, selector, page_node, profile_page) event_page" where
  "page_events = \<lparr>ep_events = (\<lambda>s n. bound (regs_of n)), ep_matching = selects, ep_disabled = (\<lambda>n. False), ep_run = act\<rparr>"

text \<open>An event of the browser, from the target up.\<close>

definition user_event :: "string \<Rightarrow> page_node list \<Rightarrow> profile_page \<Rightarrow> profile_page running" where
  "user_event t path s = propagate page_events \<lparr>ev_type = t, ev_namespaces = [], ev_button = 0\<rparr> [] path (start_running s)"

section \<open>Requests and replies\<close>

text \<open>The selectors of an edit form and its delete form; anything else than the first three names is a story.\<close>

definition edit_selectors :: "string \<Rightarrow> selector \<times> selector" where
  "edit_selectors object =
     (if object = ''fin_product'' then (Tag_Class ''form'' ''fin_product_edit_form'', Tag_Class ''form'' ''delete_fin_product_form'')
      else if object = ''education'' then (Tag_Class ''form'' ''education_edit_form'', Tag_Class ''form'' ''delete_education_form'')
      else if object = ''experience'' then (Tag_Class ''form'' ''experience_edit_form'', Tag_Class ''form'' ''delete_experience_form'')
      else (Tag_Class ''form'' ''fin_story_edit_form'', Tag_Class ''form'' ''delete_fin_story_form''))"

text \<open>The forms the views put into the edit dialogs.\<close>

fun edit_form_node :: "record_kind \<Rightarrow> page_node" where
  "edit_form_node Fin_Product = \<lparr>pn_tag = ''form'', pn_id = None, pn_classes = [''fin_product_edit_form''], pn_action = []\<rparr>"
| "edit_form_node Education = \<lparr>pn_tag = ''form'', pn_id = None, pn_classes = [''education_edit_form''], pn_action = []\<rparr>"
| "edit_form_node Experience = \<lparr>pn_tag = ''form'', pn_id = None, pn_classes = [''experience_edit_form''], pn_action = []\<rparr>"
| "edit_form_node Financial_Story = \<lparr>pn_tag = ''form'', pn_id = None, pn_classes = [''fin_story_edit_form''], pn_action = []\<rparr>"

fun delete_form_node :: "record_kind \<Rightarrow> page_node" where
  "delete_form_node Fin_Product = \<lparr>pn_tag = ''form'', pn_id = None, pn_classes = [''delete_fin_product_form''], pn_action = []\<rparr>"
| "delete_form_node Education = \<lparr>pn_tag = ''form'', pn_id = None, pn_classes = [''delete_education_form''], pn_action = []\<rparr>"
| "delete_form_node Experience = \<lparr>pn_tag = ''form'', pn_id = None, pn_classes = [''delete_experience_form''], pn_action = []\<rparr>"
| "delete_form_node Financial_Story = \<lparr>pn_tag = ''form'', pn_id = None, pn_classes = [''delete_fin_story_form''], pn_action = []\<rparr>"

text \<open>What the views' scripts do to the page.\<close>

datatype page_command =
    Renew_Panels
  | Fill_Edit record_kind string string
  | Open_It dialog
  | Close_It dialog

fun run_command :: "page_command \<Rightarrow> profile_page \<Rightarrow> profile_page" where
  "run_command Renew_Panels s = s\<lparr>pp_form_shown := (\<lambda>p. False), pp_display_shown := (\<lambda>p. True)\<rparr>"
| "run_command (Fill_Edit k action delete_action) s =
     s\<lparr>pp_edit_form := (pp_edit_form s)
       (k := Some \<lparr>ef_action = action, ef_delete_action = delete_action, ef_submits = 0, ef_deletes = 0\<rparr>)\<rparr>"
| "run_command (Open_It d) s = s\<lparr>pp_open := (pp_open s)(d := True)\<rparr>"
| "run_command (Close_It d) s = s\<lparr>pp_open := (pp_open s)(d := False)\<rparr>"

datatype reply = Failed | Script "page_command list"

text \<open>The views: \<open>edit\<close>, \<open>update\<close> and \<open>create\<close> with and without errors, \<open>destroy\<close>.\<close>

definition edit_script :: "record_kind \<Rightarrow> string \<Rightarrow> string \<Rightarrow> reply" where
  "edit_script k action delete_action = Script [Fill_Edit k action delete_action, Open_It (Edit_Dialog k)]"

definition create_script :: "record_kind \<Rightarrow> reply" where
  "create_script k = Script [Close_It (Add_Dialog k)]"

definition update_script :: "record_kind \<Rightarrow> reply" where
  "update_script k = Script [Close_It (Edit_Dialog k)]"

definition broker_update_script :: reply where
  "broker_update_script = Script [Renew_Panels, Close_It Vehicle_Dialog]"

definition error_script :: reply where
  "error_script = Script []"

definition destroy_script :: "record_kind \<Rightarrow> reply" where
  "destroy_script k = Script [Close_It (Edit_Dialog k)]"

fun resource_kind :: "string \<Rightarrow> record_kind option" where
  "resource_kind path =
     (if path = ''/financial_products/'' then Some Fin_Product
      else if path = ''/educations/'' then Some Education
      else if path = ''/experiences/'' then Some Experience
      else if path = ''/financial_stories/'' then Some Financial_Story
      else None)"

text \<open>How the server may answer; the addresses in a form are its business.\<close>

inductive answers :: "profile_request \<Rightarrow> reply \<Rightarrow> bool" where
  failed: "answers r Failed"
| edit: "resource_kind path = Some k \<Longrightarrow> answers (Get_Edit path i object) (edit_script k action delete_action)"
| created: "answers (Post_Form action) (create_script k)"
| updated: "answers (Post_Form action) (update_script k)"
| broker: "answers (Post_Form action) broker_update_script"
| rejected: "answers (Post_Form action) error_script"
| destroyed: "answers (Post_Delete action) (destroy_script k)"

text \<open>The success callback of \<open>edit_profile\<close>: one more handler for every form the selectors find.\<close>

definition attach_edit_handlers :: "string \<Rightarrow> profile_page \<Rightarrow> profile_page" where
  "attach_edit_handlers object s =
     s\<lparr>pp_edit_form := (\<lambda>k. map_option (\<lambda>f. f
       \<lparr>ef_submits := (if selects (fst (edit_selectors object)) (edit_form_node k) then ef_submits f + 1 else ef_submits f),
        ef_deletes := (if selects (snd (edit_selectors object)) (delete_form_node k) then ef_deletes f + 1 else ef_deletes f)\<rparr>)
       (pp_edit_form s k))\<rparr>"

fun on_success :: "profile_request \<Rightarrow> profile_page \<Rightarrow> profile_page" where
  "on_success (Get_Edit path i object) s = attach_edit_handlers object s"
| "on_success (Post_Form action) s = s"
| "on_success (Post_Delete action) s = s"

text \<open>A reply's script runs first, then the success callback; a failure is only written to the console.\<close>

definition take_reply :: "nat \<Rightarrow> reply \<Rightarrow> profile_page \<Rightarrow> profile_page" where
  "take_reply n r s =
     (let request = pp_pending s ! n;
          t = s\<lparr>pp_pending := take n (pp_pending s) @ drop (Suc n) (pp_pending s)\<rparr>
      in case r of Failed \<Rightarrow> t | Script cs \<Rightarrow> on_success request (fold run_command cs t))"

text \<open>Submitting the form of an edit dialog, and clicking its delete button: each handler asks once.\<close>

definition submit_edit :: "edit_form \<Rightarrow> profile_page \<Rightarrow> profile_page running" where
  "submit_edit f s =
     ((\<lambda>r. take_handled (prevent (send (Post_Form (ef_action f)) (rn_state r))) r) ^^ ef_submits f) (start_running s)"

definition delete_answer :: "edit_form \<Rightarrow> bool \<Rightarrow> profile_page \<Rightarrow> profile_page handled" where
  "delete_answer f sure s = prevent (if sure then send (Post_Delete (ef_delete_action f)) s else s)"

definition delete_edit :: "edit_form \<Rightarrow> bool list \<Rightarrow> profile_page \<Rightarrow> profile_page running" where
  "delete_edit f sure s =
     fold (\<lambda>yes r. take_handled (delete_answer f yes (rn_state r)) r) (take (ef_deletes f) sure) (start_running s)"

section \<open>What happens on a page\<close>

datatype profile_event =
    Clicked "page_node list"
  | Submitted "page_node list"
  | Edit_Submitted record_kind
  | Delete_Clicked record_kind "bool list"
  | Replied nat reply
  | Dialog_Closed dialog

text \<open>\<open>confirm\<close> gives each handler an answer.\<close>

inductive profile_step :: "profile_page \<Rightarrow> profile_event \<Rightarrow> profile_page \<Rightarrow> bool" where
  click: "profile_step s (Clicked path) (rn_state (user_event ''click'' path s))"
| submit: "profile_step s (Submitted path) (rn_state (user_event ''submit'' path s))"
| edit_submit: "pp_edit_form s k = Some f \<Longrightarrow> profile_step s (Edit_Submitted k) (rn_state (submit_edit f s))"
| delete: "pp_edit_form s k = Some f \<Longrightarrow> ef_deletes f \<le> length sure \<Longrightarrow>
    profile_step s (Delete_Clicked k sure) (rn_state (delete_edit f sure s))"
| reply: "n < length (pp_pending s) \<Longrightarrow> answers (pp_pending s ! n) r \<Longrightarrow> profile_step s (Replied n r) (take_reply n r s)"
| close: "profile_step s (Dialog_Closed d) (s\<lparr>pp_open := (pp_open s)(d := False)\<rparr>)"

inductive profile_reachable :: "profile_page \<Rightarrow> bool" where
  opened: "profile_reachable opened_profile"
| step: "profile_reachable s \<Longrightarrow> profile_step s e t \<Longrightarrow> profile_reachable t"

inductive_cases profile_stepE: "profile_step s e t"
inductive_cases answersE: "answers r x"

section \<open>Tooltips\<close>

definition product_tooltip :: "string \<Rightarrow> string \<Rightarrow> string" where
  "product_tooltip title alt =
     ''<div style='' @ [CHR 0x27] @ ''text-align:left;'' @ [CHR 0x27] @ ''> Company: '' @ title @ ''<br>Description: '' @ alt @ ''</div>''"

section \<open>Invariant\<close>

text \<open>The handlers a request attaches fit the form the server sends.\<close>

fun fitting :: "profile_request \<Rightarrow> bool" where
  "fitting (Get_Edit path i object) \<longleftrightarrow>
     (case resource_kind path of
        Some k \<Rightarrow> edit_selectors object = (case k of
            Fin_Product \<Rightarrow> edit_selectors ''fin_product''
          | Education \<Rightarrow> edit_selectors ''education''
          | Experience \<Rightarrow> edit_selectors ''experience''
          | Financial_Story \<Rightarrow> edit_selectors ''financial_story'')
      | None \<Rightarrow> False)"
| "fitting (Post_Form action) \<longleftrightarrow> True"
| "fitting (Post_Delete action) \<longleftrightarrow> True"

definition object_of :: "record_kind \<Rightarrow> string" where
  "object_of k = (case k of Fin_Product \<Rightarrow> ''fin_product'' | Education \<Rightarrow> ''education'' | Experience \<Rightarrow> ''experience''
     | Financial_Story \<Rightarrow> ''financial_story'')"

lemma selectors_fit:
  "selects (fst (edit_selectors (object_of k))) (edit_form_node j) \<longleftrightarrow> j = k"
  "selects (snd (edit_selectors (object_of k))) (delete_form_node j) \<longleftrightarrow> j = k"
  by (cases k; cases j; simp add: edit_selectors_def object_of_def has_class_def)+

lemma fitting_selectors:
  assumes "fitting (Get_Edit path i object)" and "resource_kind path = Some k"
  shows "edit_selectors object = edit_selectors (object_of k)"
  using assms by (cases k) (simp_all add: object_of_def del: resource_kind.simps)

definition panels_ok :: "profile_page \<Rightarrow> bool" where
  "panels_ok s \<longleftrightarrow> (\<forall>p. pp_form_shown s p \<noteq> pp_display_shown s p) \<and> pp_stories_shown s \<noteq> pp_testimonies_shown s"

definition forms_ok :: "profile_page \<Rightarrow> bool" where
  "forms_ok s \<longleftrightarrow> (\<forall>k f. pp_edit_form s k = Some f \<longrightarrow> ef_submits f = 1 \<and> ef_deletes f = 1) \<and> list_all fitting (pp_pending s)"

definition profile_inv :: "profile_page \<Rightarrow> bool" where
  "profile_inv s \<longleftrightarrow> panels_ok s \<and> forms_ok s"

text \<open>What the bound actions ask for fits.\<close>

fun fitting_action :: "page_action \<Rightarrow> bool" where
  "fitting_action (Edit_Profile path object) \<longleftrightarrow> fitting (Get_Edit path [] object)"
| "fitting_action _ \<longleftrightarrow> True"

lemma bindings_fitting: "list_all (\<lambda>b. fitting_action (bd_action b)) page_bindings"
  by (simp add: page_bindings_def panel_bindings_def dialog_bindings_def save_story_bindings_def story_tab_bindings_def
      on_within_def on_self_def)

lemma bound_fitting: "x \<in> set (registered u (regs_of n)) \<Longrightarrow> fitting_action (ho_handler x)"
  using bindings_fitting registered_regs [of x u "regs_of n"]
  by (auto simp: regs_of_def bound_at_def list_all_iff split: option.splits)

lemma send_inv: "profile_inv s \<Longrightarrow> fitting r \<Longrightarrow> profile_inv (send r s)"
  by (simp add: profile_inv_def panels_ok_def forms_ok_def send_def)

lemma act_inv: "profile_inv s \<Longrightarrow> fitting_action a \<Longrightarrow> profile_inv (hd_state (act a m s))"
proof (induction a m s rule: act.induct)
  case (4 path object n s)
  then have "fitting (Get_Edit path (case pn_id n of Some i \<Rightarrow> i | None \<Rightarrow> ''undefined'') object)" by simp
  with 4 show ?case unfolding act.simps leave_def by (simp add: send_inv del: fitting.simps)
next
  case (2 n s)
  then show ?case by (simp add: prevent_def leave_def send_inv)
qed (auto simp: leave_def return_false_def toggle_panel_def profile_inv_def panels_ok_def forms_ok_def)

lemma user_event_inv: "profile_inv s \<Longrightarrow> profile_inv (rn_state (user_event t path s))"
  unfolding user_event_def
  by (rule propagate_invariant)
    (auto simp: page_events_def hl_list_bound start_running_def intro: act_inv bound_fitting)

lemma submit_edit_inv: "profile_inv s \<Longrightarrow> profile_inv (rn_state (submit_edit f s))"
proof -
  assume "profile_inv s"
  moreover have "profile_inv (rn_state r) \<Longrightarrow>
      profile_inv (rn_state (((\<lambda>r. take_handled (prevent (send (Post_Form a) (rn_state r))) r) ^^ n) r))" for n r a
    by (induction n) (simp_all add: take_handled_def prevent_def leave_def send_inv)
  ultimately show ?thesis by (simp add: submit_edit_def start_running_def)
qed

lemma delete_edit_inv: "profile_inv s \<Longrightarrow> profile_inv (rn_state (delete_edit f sure s))"
proof -
  assume "profile_inv s"
  moreover have "profile_inv (rn_state r) \<Longrightarrow>
      profile_inv (rn_state (fold (\<lambda>yes r. take_handled (delete_answer f yes (rn_state r)) r) xs r))" for xs r
    by (induction xs arbitrary: r) (simp_all add: take_handled_def delete_answer_def prevent_def leave_def send_inv)
  ultimately show ?thesis by (simp add: delete_edit_def start_running_def)
qed

lemma run_command_panels: "panels_ok s \<Longrightarrow> panels_ok (run_command c s)"
  by (cases c) (simp_all add: panels_ok_def)

lemma fold_command_panels: "panels_ok s \<Longrightarrow> panels_ok (fold run_command cs s)"
  by (induction cs arbitrary: s) (simp_all add: run_command_panels)

lemma attach_panels: "panels_ok (attach_edit_handlers object s) = panels_ok s"
  by (simp add: attach_edit_handlers_def panels_ok_def)

text \<open>The reply to an edit request leaves one handler on the form it brought, and no other form is touched.\<close>

lemma edit_reply_forms:
  assumes "forms_ok t" and "fitting (Get_Edit path i object)" and "resource_kind path = Some k"
  shows "forms_ok (attach_edit_handlers object (fold run_command [Fill_Edit k a d, Open_It (Edit_Dialog k)] t))"
  using assms(1) unfolding forms_ok_def attach_edit_handlers_def fitting_selectors [OF assms(2,3)] selectors_fit
  by auto

lemma take_reply_inv:
  assumes inv: "profile_inv s" and n: "n < length (pp_pending s)" and r: "answers (pp_pending s ! n) r"
  shows "profile_inv (take_reply n r s)"
proof -
  let ?t = "s\<lparr>pp_pending := take n (pp_pending s) @ drop (Suc n) (pp_pending s)\<rparr>"
  have fit: "fitting (pp_pending s ! n)" using inv n by (simp add: profile_inv_def forms_ok_def list_all_length)
  have "list_all fitting (take n (pp_pending s))" "list_all fitting (drop (Suc n) (pp_pending s))"
    using inv by (auto simp: profile_inv_def forms_ok_def list_all_iff dest: in_set_takeD in_set_dropD)
  then have t: "panels_ok ?t" "forms_ok ?t" using inv by (simp_all add: profile_inv_def panels_ok_def forms_ok_def)
  show ?thesis
    using r
  proof (cases rule: answers.cases)
    case failed
    then show ?thesis using t by (simp add: take_reply_def profile_inv_def Let_def)
  next
    case (edit path k i object action delete_action)
    then have e: "fitting (Get_Edit path i object)" using fit by simp
    have "take_reply n r s = attach_edit_handlers object (fold run_command [Fill_Edit k action delete_action, Open_It (Edit_Dialog k)] ?t)"
      using edit by (simp only: take_reply_def edit_script_def Let_def reply.case on_success.simps)
    moreover have "panels_ok (attach_edit_handlers object (fold run_command [Fill_Edit k action delete_action, Open_It (Edit_Dialog k)] ?t))"
      unfolding attach_panels by (rule fold_command_panels [OF t(1)])
    ultimately show ?thesis using edit_reply_forms [OF t(2) e edit(3)] by (simp only: profile_inv_def)
  qed (use t in \<open>simp_all add: take_reply_def Let_def profile_inv_def panels_ok_def forms_ok_def create_script_def
      update_script_def broker_update_script_def error_script_def destroy_script_def\<close>)
qed

lemma profile_step_inv: "profile_step s e t \<Longrightarrow> profile_inv s \<Longrightarrow> profile_inv t"
  by (erule profile_stepE)
    (simp_all add: user_event_inv submit_edit_inv delete_edit_inv take_reply_inv, simp add: profile_inv_def panels_ok_def forms_ok_def)

lemma profile_reachable_inv: "profile_reachable s \<Longrightarrow> profile_inv s"
  by (induction rule: profile_reachable.induct)
    (auto intro: profile_step_inv, simp add: opened_profile_def profile_inv_def panels_ok_def forms_ok_def)

section \<open>Where a click ends\<close>

definition story_tab :: "page_action \<Rightarrow> bool" where
  "story_tab a \<longleftrightarrow> a = Show_Stories \<or> a = Show_Testimonies"

definition in_stories :: "page_node \<Rightarrow> bool" where
  "in_stories n \<longleftrightarrow> pn_id n = Some ''financial_stories'' \<or> pn_id n = Some ''financial_testimonies''"

lemma act_flags:
  "hd_stops (act a n s) = False" "hd_stops_now (act a n s) = False" "hd_returns (act a n s) = False_Value \<longleftrightarrow> story_tab a"
  "hd_prevents (act a n s) \<longleftrightarrow> a = Update_Profile"
  by (cases a; simp add: leave_def prevent_def return_false_def story_tab_def)+

lemma run_due_flags:
  "rn_stopped (run_due act x r) \<longleftrightarrow> rn_stopped r \<or> story_tab (ho_handler (snd x))"
  "rn_prevented (run_due act x r) \<longleftrightarrow> rn_prevented r \<or> story_tab (ho_handler (snd x)) \<or> ho_handler (snd x) = Update_Profile"
  "rn_immediate (run_due act x r) = rn_immediate r"
  by (auto simp: run_due_def take_handled_def act_flags)

lemma fold_due_flags:
  "rn_stopped (fold (run_due act) xs r) \<longleftrightarrow> rn_stopped r \<or> (\<exists>x \<in> set xs. story_tab (ho_handler (snd x)))"
  "rn_prevented (fold (run_due act) xs r) \<longleftrightarrow>
     rn_prevented r \<or> (\<exists>x \<in> set xs. story_tab (ho_handler (snd x)) \<or> ho_handler (snd x) = Update_Profile)"
  "rn_immediate (fold (run_due act) xs r) = rn_immediate r"
  by (induction xs arbitrary: r) (auto simp: run_due_flags)

text \<open>The bindings for clicks: none updates the profile, and the story tabs are bound without a selector.\<close>

lemma click_bindings:
  assumes "b \<in> set page_bindings"
  shows "bd_event b = ''click'' \<Longrightarrow> bd_action b \<noteq> Update_Profile"
    and "story_tab (bd_action b) \<Longrightarrow>
      bd_selector b = None \<and> (bd_at b = ''financial_stories'' \<or> bd_at b = ''financial_testimonies'')"
proof -
  have "list_all (\<lambda>b. (bd_event b = ''click'' \<longrightarrow> bd_action b \<noteq> Update_Profile) \<and> (story_tab (bd_action b) \<longrightarrow>
     bd_selector b = None \<and> (bd_at b = ''financial_stories'' \<or> bd_at b = ''financial_testimonies''))) page_bindings"
    by (simp add: page_bindings_def panel_bindings_def dialog_bindings_def save_story_bindings_def story_tab_bindings_def
        on_within_def on_self_def story_tab_def)
  with assms show "bd_event b = ''click'' \<Longrightarrow> bd_action b \<noteq> Update_Profile"
    "story_tab (bd_action b) \<Longrightarrow>
      bd_selector b = None \<and> (bd_at b = ''financial_stories'' \<or> bd_at b = ''financial_testimonies'')"
    by (simp_all add: list_all_iff)
qed

lemma kept_click: "kept_type b t = ''click'' \<Longrightarrow> t = ''click''"
  by (auto simp: kept_type_def special_bind_def special_delegate_def split: if_splits)

lemma registered_click:
  assumes "x \<in> set (registered ''click'' (regs_of n))"
  obtains b where "b \<in> set page_bindings" and "Some (bd_at b) = pn_id n" and "bd_event b = ''click''"
    and "ho_handler x = bd_action b" and "ho_selector x = bd_selector b"
proof -
  obtain g h sel t nss where r: "(g, h, sel, t, nss) \<in> set (regs_of n)" and x: "ho_handler x = h" "ho_selector x = sel"
    "kept_type (sel \<noteq> None) t = ''click''" using assms by (force simp: registered_def)
  then obtain b where "Some (bd_at b) = pn_id n" "b \<in> set page_bindings" "h = bd_action b" "sel = bd_selector b" "t = bd_event b"
    by (auto simp: regs_of_def bound_at_def split: option.splits)
  then show thesis using that x kept_click by blast
qed

lemma story_tabs_registered:
  "(\<exists>x \<in> set (directs (registered ''click'' (regs_of n))). story_tab (ho_handler x)) \<longleftrightarrow> in_stories n" (is "?l = ?r")
proof
  assume ?l
  then obtain x where "x \<in> set (registered ''click'' (regs_of n))" "story_tab (ho_handler x)" by (auto simp: directs_def)
  then show ?r using click_bindings(2) by (metis registered_click in_stories_def)
next
  assume ?r
  then obtain i a where i: "pn_id n = Some i" and b: "on_self i ''click'' a \<in> set page_bindings" and a: "story_tab a"
    by (auto simp: in_stories_def page_bindings_def story_tab_bindings_def story_tab_def)
  then have "(0, a, None, ''click'', []) \<in> set (regs_of n)" by (force simp: regs_of_def bound_at_def on_self_def)
  then have "\<lparr>ho_type = ''click'', ho_orig_type = ''click'', ho_guid = 0, ho_handler = a, ho_selector = None, ho_namespaces = []\<rparr>
      \<in> set (directs (registered ''click'' (regs_of n)))"
    by (force simp: registered_def directs_def kept_type_def special_bind_def special_delegate_def)
  then show ?l using a by (metis handle_obj.select_convs(4))
qed

lemma delegates_quiet: "h \<in> set (delegates (registered ''click'' (regs_of n))) \<Longrightarrow> quiet (act (ho_handler h) m s)"
  by (auto simp: delegates_def quiet_def act_flags elim!: registered_click dest: click_bindings(2))

text \<open>What one element makes of a click.\<close>

lemma click_at_element:
  assumes "\<not> rn_stopped r" and "\<not> rn_immediate r" and "\<not> rn_prevented r"
    and r1_def: "r1 = event_dispatch page_events \<lparr>ev_type = ''click'', ev_namespaces = [], ev_button = 0\<rparr> below n r"
  shows "rn_stopped r1 = in_stories n \<and> rn_prevented r1 = in_stories n \<and> \<not> rn_immediate r1"
proof -
  let ?hs = "registered ''click'' (regs_of n)"
  define ds where "ds = concat (map (\<lambda>cur. map (Pair cur) (filter (matched_by selects cur) (delegates ?hs))) below)"
  have e: "r1 = fold (run_due act) (ds @ map (Pair n) (directs ?hs)) r"
    using dispatch_bound [of page_events r n "regs_of n" ?hs "\<lparr>ev_type = ''click'', ev_namespaces = [], ev_button = 0\<rparr>" below]
      assms(1,2) delegates_quiet [of _ n]
    by (simp add: r1_def page_events_def takes_delegates_def act_flags ds_def)
  have d: "\<not> story_tab (ho_handler (snd x)) \<and> ho_handler (snd x) \<noteq> Update_Profile" if "x \<in> set ds" for x
  proof -
    have x: "snd x \<in> set ?hs" "ho_selector (snd x) \<noteq> None" using that by (auto simp: delegates_def ds_def)
    obtain b where "b \<in> set page_bindings" "bd_event b = ''click''" "ho_handler (snd x) = bd_action b" "ho_selector (snd x) = bd_selector b"
      using registered_click [OF x(1)] by metis
    then show ?thesis using click_bindings [of b] x(2) by auto
  qed
  have u: "ho_handler x \<noteq> Update_Profile" if "x \<in> set (directs ?hs)" for x
    using that click_bindings(1) by (metis registered_click directs_def filter_is_subset subsetD)
  have "\<not> (\<exists>x \<in> set ds. story_tab (ho_handler (snd x)))" using d by blast
  then have s: "(\<exists>x \<in> set (ds @ map (Pair n) (directs ?hs)). story_tab (ho_handler (snd x))) = in_stories n"
    unfolding story_tabs_registered [symmetric] by (simp add: bex_Un)
  have p: "\<not> (\<exists>x \<in> set (ds @ map (Pair n) (directs ?hs)). ho_handler (snd x) = Update_Profile)"
    using d u by auto
  show ?thesis unfolding e fold_due_flags using assms(1-3) s p by blast
qed

lemma propagate_click:
  assumes "\<not> rn_stopped r" and "\<not> rn_immediate r" and "\<not> rn_prevented r"
  shows "rn_stopped (propagate page_events \<lparr>ev_type = ''click'', ev_namespaces = [], ev_button = 0\<rparr> below up r) =
      (\<exists>n \<in> set up. in_stories n) \<and>
    rn_prevented (propagate page_events \<lparr>ev_type = ''click'', ev_namespaces = [], ev_button = 0\<rparr> below up r) =
      (\<exists>n \<in> set up. in_stories n)"
  using assms
proof (induction up arbitrary: below r)
  case (Cons n up)
  let ?r1 = "event_dispatch page_events \<lparr>ev_type = ''click'', ev_namespaces = [], ev_button = 0\<rparr> below n r"
  note c = click_at_element [OF Cons.prems refl, of below n]
  show ?case
  proof (cases "in_stories n")
    case True
    then show ?thesis using c Cons.prems by (cases up) simp_all
  next
    case False
    then show ?thesis using c Cons.prems Cons.IH [of ?r1 "below @ [n]"] by simp
  qed
qed simp

section \<open>Properties\<close>

text \<open>Each panel of a profile shows either its form or its text, and the home page either the stories or the
  testimonies, whatever is clicked, submitted and answered.\<close>

theorem profile_shows_one_view:
  assumes "profile_reachable s"
  shows "(\<forall>p. pp_form_shown s p \<noteq> pp_display_shown s p) \<and> pp_stories_shown s \<noteq> pp_testimonies_shown s"
  using profile_reachable_inv [OF assms] by (simp add: profile_inv_def panels_ok_def)


text \<open>A click does nothing but what the handlers do, and is not seen by the document, exactly when it is inside an
  element with the id \<open>financial_stories\<close> or \<open>financial_testimonies\<close>. These are the tabs of the home page, but also
  the list of stories in a broker's profile and that of testimonies in a user's: links there lead nowhere.\<close>

theorem links_dead_inside_stories:
  "rn_prevented (user_event ''click'' path s) = (\<exists>n \<in> set path. in_stories n) \<and>
   rn_stopped (user_event ''click'' path s) = (\<exists>n \<in> set path. in_stories n)"
  using propagate_click [of "start_running s" "[]" path] by (simp add: user_event_def start_running_def)

text \<open>A click on the edit link of the education 7, and the page after the server's answer.\<close>

definition sample_edit_click :: "page_node list" where
  "sample_edit_click =
     [\<lparr>pn_tag = ''a'', pn_id = Some ''7'', pn_classes = [''education_edit''], pn_action = []\<rparr>,
      \<lparr>pn_tag = ''div'', pn_id = Some ''educations'', pn_classes = [], pn_action = []\<rparr>]"

definition sample_page :: profile_page where
  "sample_page = take_reply 0 (edit_script Education ''/educations/7'' ''/educations/7'')
     (rn_state (user_event ''click'' sample_edit_click opened_profile))"

lemma sample_pending:
  "pp_pending (rn_state (user_event ''click'' sample_edit_click opened_profile)) = [Get_Edit ''/educations/'' ''7'' ''education'']"
  by code_simp

lemma sample_reachable: "profile_reachable sample_page"
proof -
  let ?s = "rn_state (user_event ''click'' sample_edit_click opened_profile)"
  have "profile_reachable ?s" by (rule profile_reachable.step [OF opened profile_step.click])
  moreover have "answers (pp_pending ?s ! 0) (edit_script Education ''/educations/7'' ''/educations/7'')"
    unfolding sample_pending by (simp add: answers.edit)
  then have "profile_step ?s (Replied 0 (edit_script Education ''/educations/7'' ''/educations/7'')) sample_page"
    unfolding sample_page_def by (intro profile_step.reply) (simp_all add: sample_pending)
  ultimately show ?thesis by (rule profile_reachable.step)
qed

lemma sample_edit_form:
  "pp_edit_form sample_page Education =
     Some \<lparr>ef_action = ''/educations/7'', ef_delete_action = ''/educations/7'', ef_submits = 1, ef_deletes = 1\<rparr>"
  by code_simp

theorem profile_shows_one_view_witness:
  "pp_open sample_page (Edit_Dialog Education) \<and> pp_form_shown sample_page About \<noteq> pp_display_shown sample_page About"
proof -
  have "pp_open sample_page (Edit_Dialog Education)" by code_simp
  then show ?thesis using profile_shows_one_view [OF sample_reachable] by blast
qed


end
