(* ===== verification/Form_Data.thy ===== *)
theory Form_Data
  imports Prelude
begin

text \<open>
  Forms as requests carry them, in jQuery of the deployed bundle: \<open>serializeArray\<close> collects the names and values
  of the fields that count, \<open>jQuery.param\<close> writes them as a query. An element is its tag and attributes, with
  the form it stands in and the one that owns it; what a user or a script changes of it is a separate record.
  Characters are those with a code below 256. The main result reads a query back: no name or value is lost or
  mixed up with another, whatever they contain.
\<close>

section \<open>Elements of forms\<close>

record page_element =
  pe_id :: nat
  pe_tag :: string
  pe_attrs :: "(string \<times> string) list"
  pe_in_form :: "nat option"
  pe_owner :: "nat option"

text \<open>The value of a field: none for a choice with nothing chosen, several for one that allows it.\<close>

datatype field_value = No_Value | Single string | Several "string list"

record element_state =
  es_value :: field_value
  es_html :: string
  es_checked :: bool
  es_disabled :: bool

definition attr :: "page_element \<Rightarrow> string \<Rightarrow> string option" where
  "attr n a = map_of (pe_attrs n) a"

definition has_attr :: "page_element \<Rightarrow> string \<Rightarrow> bool" where
  "has_attr n a \<longleftrightarrow> attr n a \<noteq> None"

text \<open>The property \<open>type\<close>.\<close>

definition element_type :: "page_element \<Rightarrow> string" where
  "element_type n =
     (if pe_tag n = ''textarea'' then ''textarea''
      else if pe_tag n = ''select'' then if has_attr n ''multiple'' then ''select-multiple'' else ''select-one''
      else case attr n ''type'' of
        Some t \<Rightarrow> map lower t
      | None \<Rightarrow> if pe_tag n = ''button'' then ''submit'' else ''text'')"

definition submitter_type :: "string \<Rightarrow> bool" where
  "submitter_type t \<longleftrightarrow> t \<in> {''submit'', ''button'', ''image'', ''reset'', ''file''}"

definition checkable_type :: "string \<Rightarrow> bool" where
  "checkable_type t \<longleftrightarrow> t \<in> {''checkbox'', ''radio''}"

definition submittable :: "string \<Rightarrow> bool" where
  "submittable tag \<longleftrightarrow> tag \<in> {''input'', ''select'', ''textarea'', ''keygen''}"

section \<open>Fields that count\<close>

text \<open>Line ends become carriage return and line feed.\<close>

fun crlf :: "string \<Rightarrow> string" where
  "crlf [] = []"
| "crlf (c # cs) =
     (if c = CHR 0x0D \<and> cs \<noteq> [] \<and> hd cs = CHR 0x0A then CHR 0x0D # CHR 0x0A # crlf (tl cs)
      else if c = CHR 0x0A then CHR 0x0D # CHR 0x0A # crlf cs
      else c # crlf cs)"

definition counts :: "(nat \<Rightarrow> element_state) \<Rightarrow> page_element \<Rightarrow> bool" where
  "counts st n \<longleftrightarrow>
     (case attr n ''name'' of Some nm \<Rightarrow> nm \<noteq> [] | None \<Rightarrow> False) \<and> \<not> es_disabled (st (pe_id n)) \<and>
     submittable (pe_tag n) \<and> \<not> submitter_type (element_type n) \<and>
     (es_checked (st (pe_id n)) \<or> \<not> checkable_type (element_type n))"

definition field_name :: "page_element \<Rightarrow> string" where
  "field_name n = (case attr n ''name'' of Some nm \<Rightarrow> nm | None \<Rightarrow> [])"

definition fields_of :: "(nat \<Rightarrow> element_state) \<Rightarrow> page_element \<Rightarrow> (string \<times> string) list" where
  "fields_of st n =
     (case es_value (st (pe_id n)) of
        No_Value \<Rightarrow> []
      | Several vs \<Rightarrow> map (\<lambda>v. (field_name n, crlf v)) vs
      | Single v \<Rightarrow> [(field_name n, crlf v)])"

text \<open>The elements of a form are those it owns; any other element stands for itself.\<close>

definition form_controls :: "page_element list \<Rightarrow> page_element \<Rightarrow> page_element list" where
  "form_controls doc n = (if pe_tag n = ''form'' then filter (\<lambda>e. pe_owner e = Some (pe_id n)) doc else [n])"

definition serialize_array ::
  "page_element list \<Rightarrow> (nat \<Rightarrow> element_state) \<Rightarrow> page_element \<Rightarrow> (string \<times> string) list" where
  "serialize_array doc st n = concat (map (fields_of st) (filter (counts st) (form_controls doc n)))"

section \<open>Queries\<close>

definition unreserved :: "char \<Rightarrow> bool" where
  "unreserved c \<longleftrightarrow>
     (let k = (of_char c :: nat) in 65 \<le> k \<and> k \<le> 90 \<or> 97 \<le> k \<and> k \<le> 122 \<or> 48 \<le> k \<and> k \<le> 57) \<or>
     c \<in> set ''-_.!~*()'' \<or> c = CHR 0x27"

definition hex_digit :: "nat \<Rightarrow> char" where
  "hex_digit n = (if n < 10 then char_of (48 + n) else char_of (55 + n))"

definition percent_byte :: "nat \<Rightarrow> string" where
  "percent_byte k = [CHR ''%'', hex_digit (k div 16), hex_digit (k mod 16)]"

text \<open>\<open>encodeURIComponent\<close>: the bytes of a character in UTF-8.\<close>

definition encode_char :: "char \<Rightarrow> string" where
  "encode_char c =
     (let k = (of_char c :: nat) in
        if unreserved c then [c]
        else if k < 128 then percent_byte k
        else percent_byte (192 + k div 64) @ percent_byte (128 + k mod 64))"

definition encode_component :: "string \<Rightarrow> string" where
  "encode_component s = concat (map encode_char s)"

text \<open>\<open>replace(/%20/g, "+")\<close>.\<close>

fun plus_spaces :: "string \<Rightarrow> string" where
  "plus_spaces (a # b # c # s) =
     (if a = CHR ''%'' \<and> b = CHR ''2'' \<and> c = CHR ''0'' then CHR ''+'' # plus_spaces s else a # plus_spaces (b # c # s))"
| "plus_spaces s = s"

definition add_field :: "string \<times> string \<Rightarrow> string" where
  "add_field f = encode_component (fst f) @ ''='' @ encode_component (snd f)"

fun join_with :: "string \<Rightarrow> string list \<Rightarrow> string" where
  "join_with sep [] = []"
| "join_with sep [s] = s"
| "join_with sep (s # t # ss) = s @ sep @ join_with sep (t # ss)"

definition param :: "(string \<times> string) list \<Rightarrow> string" where
  "param fs = plus_spaces (join_with ''&'' (map add_field fs))"

definition serialize :: "page_element list \<Rightarrow> (nat \<Rightarrow> element_state) \<Rightarrow> page_element \<Rightarrow> string" where
  "serialize doc st n = param (serialize_array doc st n)"

section \<open>Reading a query\<close>

text \<open>What a reader of queries does: split at \<open>&\<close> and at the first \<open>=\<close>, then decode.\<close>

definition hex_value :: "char \<Rightarrow> nat" where
  "hex_value c = (let k = (of_char c :: nat) in if k < 58 then k - 48 else k - 55)"

fun unpercent :: "string \<Rightarrow> nat list" where
  "unpercent [] = []"
| "unpercent (c # cs) =
     (if c = CHR ''+'' then 32 # unpercent cs
      else if c = CHR ''%''
      then (case cs of a # b # r \<Rightarrow> (16 * hex_value a + hex_value b) # unpercent r | _ \<Rightarrow> [])
      else of_char c # unpercent cs)"

fun utf8 :: "nat list \<Rightarrow> string" where
  "utf8 [] = []"
| "utf8 (k # ks) =
     (if k < 128 then char_of k # utf8 ks
      else case ks of m # r \<Rightarrow> char_of (64 * (k mod 32) + m mod 64) # utf8 r | [] \<Rightarrow> [])"

definition decode_component :: "string \<Rightarrow> string" where
  "decode_component s = utf8 (unpercent s)"

fun split_on :: "char \<Rightarrow> string \<Rightarrow> string list" where
  "split_on x [] = [[]]"
| "split_on x (c # cs) =
     (if c = x then [] # split_on x cs else case split_on x cs of w # ws \<Rightarrow> (c # w) # ws | [] \<Rightarrow> [[c]])"

definition read_field :: "string \<Rightarrow> string \<times> string" where
  "read_field s =
     (decode_component (takeWhile (\<lambda>c. c \<noteq> CHR ''='') s), decode_component (tl (dropWhile (\<lambda>c. c \<noteq> CHR ''='') s)))"

definition read_query :: "string \<Rightarrow> (string \<times> string) list" where
  "read_query s = (if s = [] then [] else map read_field (split_on CHR ''&'' s))"

section \<open>Encoding and decoding\<close>

text \<open>A character with its space already written as a plus, and its bytes.\<close>

definition plus_char :: "char \<Rightarrow> string" where
  "plus_char c = (if c = CHR '' '' then ''+'' else encode_char c)"

definition char_bytes :: "char \<Rightarrow> nat list" where
  "char_bytes c =
     (let k = (of_char c :: nat) in if k < 128 then [k] else [192 + k div 64, 128 + k mod 64])"

lemma hex_value_digit [simp]: "n < 16 \<Longrightarrow> hex_value (hex_digit n) = n"
  by (auto simp: hex_value_def hex_digit_def Let_def)

lemma of_hex_digit: "n < 16 \<Longrightarrow> (of_char (hex_digit n) :: nat) = (if n < 10 then 48 + n else 55 + n)"
  by (simp add: hex_digit_def)

lemma char_eq_code: "c = d \<longleftrightarrow> (of_char c :: nat) = of_char d"
  by (metis char_of_char)

lemma hex_digit_plain: "n < 16 \<Longrightarrow> hex_digit n \<notin> {CHR ''%'', CHR ''+'', CHR ''&'', CHR ''=''}"
  by (auto simp: char_eq_code of_hex_digit)

lemma plus_spaces_other: "a \<noteq> CHR ''%'' \<Longrightarrow> plus_spaces (a # s) = a # plus_spaces s"
  by (cases "(a # s)" rule: plus_spaces.cases) auto

lemma plus_spaces_percent:
  assumes "k < 256"
  shows "plus_spaces (percent_byte k @ s) = (if k = 32 then ''+'' else percent_byte k) @ plus_spaces s"
proof -
  have h: "k div 16 < 16" "k mod 16 < 16" using assms by auto
  have e: "hex_digit (k div 16) = CHR ''2'' \<and> hex_digit (k mod 16) = CHR ''0'' \<longleftrightarrow> k = 32"
    using h by (auto simp: char_eq_code of_hex_digit)
  show ?thesis
    using hex_digit_plain [OF h(1)] hex_digit_plain [OF h(2)] e by (auto simp: percent_byte_def plus_spaces_other)
qed

lemma unreserved_plain: "unreserved c \<Longrightarrow> c \<notin> {CHR ''%'', CHR ''+'', CHR ''&'', CHR ''='', CHR '' ''} \<and> (of_char c :: nat) < 128"
  by (auto simp: unreserved_def Let_def)

lemma two_bytes:
  "192 + (of_char c :: nat) div 64 < 256" "128 + (of_char c :: nat) mod 64 < 256" "192 + (of_char c :: nat) div 64 \<noteq> 32"
  "(192 + (of_char c :: nat) div 64) mod 32 = of_char c div 64" "(128 + (of_char c :: nat) mod 64) mod 64 = of_char c mod 64"
proof -
  have d: "(of_char c :: nat) div 64 < 4" using less_mult_imp_div_less [of "of_char c" 4 64] by simp
  have "192 + (of_char c :: nat) div 64 = of_char c div 64 + 32 * 6" "128 + (of_char c :: nat) mod 64 = of_char c mod 64 + 64 * 2"
    by simp_all
  then have "(192 + (of_char c :: nat) div 64) mod 32 = of_char c div 64 mod 32" "(128 + (of_char c :: nat) mod 64) mod 64 = of_char c mod 64"
    by (simp_all only: mod_mult_self2 mod_mod_trivial)
  moreover have "(of_char c :: nat) div 64 mod 32 = of_char c div 64" using d by simp
  moreover have "(of_char c :: nat) mod 64 < 64" by simp
  ultimately show "192 + (of_char c :: nat) div 64 < 256" "128 + (of_char c :: nat) mod 64 < 256"
    "192 + (of_char c :: nat) div 64 \<noteq> 32" "(192 + (of_char c :: nat) div 64) mod 32 = of_char c div 64"
    "(128 + (of_char c :: nat) mod 64) mod 64 = of_char c mod 64" using d by linarith+
qed

lemma plus_spaces_char: "plus_spaces (encode_char c @ s) = plus_char c @ plus_spaces s"
proof -
  let ?k = "of_char c :: nat"
  have k: "?k < 256" by simp
  have e: "c = CHR '' '' \<longleftrightarrow> ?k = 32" by (simp add: char_eq_code)
  consider "unreserved c" | "\<not> unreserved c" "?k < 128" | "\<not> unreserved c" "\<not> ?k < 128" by blast
  then show ?thesis
  proof cases
    case 1
    then show ?thesis using unreserved_plain [of c] by (simp add: encode_char_def plus_char_def plus_spaces_other del: plus_spaces.simps)
  next
    case 2
    then show ?thesis using e by (simp add: encode_char_def plus_char_def plus_spaces_percent del: plus_spaces.simps)
  next
    case 3
    have "128 + ?k mod 64 \<noteq> 32" by simp
    then show ?thesis using 3 e two_bytes(1-3) [of c]
      by (simp add: encode_char_def plus_char_def Let_def plus_spaces_percent del: plus_spaces.simps)
  qed
qed

lemma plus_spaces_component: "plus_spaces (encode_component s @ r) = concat (map plus_char s) @ plus_spaces r"
  by (induction s) (simp_all add: encode_component_def plus_spaces_char)

definition plus_field :: "string \<times> string \<Rightarrow> string" where
  "plus_field f = concat (map plus_char (fst f)) @ ''='' @ concat (map plus_char (snd f))"

lemma plus_spaces_fields: "plus_spaces (join_with ''&'' (map add_field fs)) = join_with ''&'' (map plus_field fs)"
proof (induction fs rule: induct_list012)
  case (2 f)
  then show ?case using plus_spaces_component [of _ "[]"]
    by (simp add: add_field_def plus_field_def plus_spaces_component plus_spaces_other)
next
  case (3 f g gs)
  then show ?case by (simp add: add_field_def [of f] plus_field_def [of f] plus_spaces_component plus_spaces_other)
qed simp

lemma unpercent_char: "unpercent (plus_char c @ s) = char_bytes c @ unpercent s"
proof -
  let ?k = "of_char c :: nat"
  have k: "?k < 256" by simp
  have b: "unpercent (percent_byte j @ r) = j # unpercent r" if "j < 256" for j r
    using that by (simp add: percent_byte_def)
  show ?thesis
    using unreserved_plain [of c] k b [OF two_bytes(1) [of c]] b [OF two_bytes(2) [of c]]
    by (auto simp: plus_char_def encode_char_def char_bytes_def Let_def b [OF k])
qed

lemma utf8_bytes: "utf8 (char_bytes c @ ks) = c # utf8 ks"
proof -
  let ?k = "of_char c :: nat"
  have "64 * (?k div 64) + ?k mod 64 = ?k" by simp
  then show ?thesis by (simp add: char_bytes_def Let_def two_bytes(4,5))
qed

lemma decode_encode: "decode_component (concat (map plus_char s)) = s"
proof -
  have "unpercent (concat (map plus_char s)) = concat (map char_bytes s)" by (induction s) (simp_all add: unpercent_char)
  moreover have "utf8 (concat (map char_bytes s)) = s" by (induction s) (simp_all add: utf8_bytes)
  ultimately show ?thesis by (simp add: decode_component_def)
qed

lemma plus_char_plain: "x \<in> set (plus_char c) \<Longrightarrow> x \<noteq> CHR ''&'' \<and> x \<noteq> CHR ''=''"
proof -
  let ?k = "of_char c :: nat"
  have k: "?k < 256" by simp
  have b: "x \<in> set (percent_byte j) \<Longrightarrow> x \<noteq> CHR ''&'' \<and> x \<noteq> CHR ''=''" if "j < 256" for j
    using hex_digit_plain [of "j div 16"] hex_digit_plain [of "j mod 16"] less_mult_imp_div_less [of j 16 16] that
    by (auto simp: percent_byte_def)
  show "x \<in> set (plus_char c) \<Longrightarrow> ?thesis"
    using unreserved_plain [of c] b [OF k] b [OF two_bytes(1) [of c]] b [OF two_bytes(2) [of c]]
    by (auto simp: plus_char_def encode_char_def Let_def split: if_splits)
qed

lemma read_plus_field: "read_field (plus_field f) = f"
proof -
  have "\<And>x. x \<in> set (concat (map plus_char (fst f))) \<Longrightarrow> x \<noteq> CHR ''=''" using plus_char_plain by auto
  then have "takeWhile (\<lambda>c. c \<noteq> CHR ''='') (plus_field f) = concat (map plus_char (fst f))"
    "dropWhile (\<lambda>c. c \<noteq> CHR ''='') (plus_field f) = CHR ''='' # concat (map plus_char (snd f))"
    unfolding plus_field_def by (subst takeWhile_append2 dropWhile_append2, blast, simp)+
  then show ?thesis by (simp add: read_field_def decode_encode)
qed

lemma split_on_single: "x \<notin> set s \<Longrightarrow> split_on x s = [s]"
  by (induction s) auto

lemma split_on_append: "x \<notin> set s \<Longrightarrow> split_on x (s @ x # r) = s # split_on x r"
  by (induction s) auto

lemma plus_field_plain: "CHR ''&'' \<notin> set (plus_field f)"
  using plus_char_plain by (auto simp: plus_field_def)

lemma split_fields: "fs \<noteq> [] \<Longrightarrow> split_on CHR ''&'' (join_with ''&'' (map plus_field fs)) = map plus_field fs"
proof (induction fs rule: induct_list012)
  case (2 f)
  then show ?case by (simp add: split_on_single plus_field_plain)
next
  case (3 f g gs)
  then show ?case by (simp add: split_on_append plus_field_plain)
qed simp

lemma join_plus_nonempty: "fs \<noteq> [] \<Longrightarrow> join_with ''&'' (map plus_field fs) \<noteq> []"
  by (cases fs; cases "tl fs") (auto simp: plus_field_def)

section \<open>Line ends\<close>

text \<open>Text in which every line ends with carriage return and line feed.\<close>

fun crlf_lines :: "string \<Rightarrow> bool" where
  "crlf_lines [] \<longleftrightarrow> True"
| "crlf_lines (c # cs) \<longleftrightarrow>
     (if c = CHR 0x0D \<and> cs \<noteq> [] \<and> hd cs = CHR 0x0A then crlf_lines (tl cs) else c \<noteq> CHR 0x0A \<and> crlf_lines cs)"

lemma crlf_starts: "cs \<noteq> [] \<Longrightarrow> hd cs \<noteq> CHR 0x0A \<Longrightarrow> crlf cs \<noteq> [] \<and> hd (crlf cs) \<noteq> CHR 0x0A"
  by (cases cs) auto

lemma crlf_lines_crlf: "crlf_lines (crlf s)"
proof (induction s rule: crlf.induct)
  case (2 c cs)
  then show ?case using crlf_starts [of cs] by (cases "cs = []") auto
qed simp

lemma crlf_fixed: "crlf_lines s \<Longrightarrow> crlf s = s"
proof (induction s rule: crlf_lines.induct)
  case (2 c cs)
  then show ?case by (cases cs) (auto split: if_splits)
qed simp

section \<open>Properties\<close>

lemma read_param: "read_query (param fs) = fs"
proof (cases "fs = []")
  case False
  have "map (read_field \<circ> plus_field) fs = fs" by (simp add: read_plus_field comp_def)
  then show ?thesis
    using False join_plus_nonempty [OF False] split_fields [OF False] by (simp add: read_query_def param_def plus_spaces_fields)
qed (simp add: read_query_def param_def)

lemma serialized_field:
  "f \<in> set (serialize_array doc st n) \<Longrightarrow> fst f \<noteq> [] \<and> crlf_lines (snd f)"
  by (auto simp: serialize_array_def counts_def fields_of_def field_name_def crlf_lines_crlf
      split: option.splits field_value.splits)


text \<open>A comment form whose text has two lines and an ampersand, with a box that is not ticked.\<close>

definition sample_form :: "page_element list" where
  "sample_form =
     [\<lparr>pe_id = 1, pe_tag = ''textarea'', pe_attrs = [(''name'', ''comment[body]'')], pe_in_form = Some 0, pe_owner = Some 0\<rparr>,
      \<lparr>pe_id = 2, pe_tag = ''input'', pe_attrs = [(''name'', ''notify''), (''type'', ''CHECKBOX'')], pe_in_form = Some 0,
       pe_owner = Some 0\<rparr>,
      \<lparr>pe_id = 3, pe_tag = ''input'', pe_attrs = [(''name'', ''commit''), (''type'', ''submit'')], pe_in_form = Some 0,
       pe_owner = Some 0\<rparr>]"

definition sample_values :: "nat \<Rightarrow> element_state" where
  "sample_values i =
     \<lparr>es_value = Single (if i = 1 then ''a & b'' @ [CHR 0x0A] @ ''c'' else ''1''), es_html = [], es_checked = False,
      es_disabled = False\<rparr>"


end
