(* ===== verification/Ajax_Convert.thy ===== *)
theory Ajax_Convert
  imports Form_Data
begin

text \<open>
  What jQuery's \<open>ajax\<close> makes of a response: \<open>ajaxHandleResponses\<close> picks the response to start from and
  \<open>ajaxConvert\<close> chains converters until the data type asked for is reached, through an intermediate type where there
  is no direct converter. Responses are of any type \<open>'r\<close>; a converter may throw. The loop over the data types ends,
  although it can make the list longer, and fails for want of a converter exactly when there is no chain of one or two.
\<close>

section \<open>Converters\<close>

text \<open>\<open>true\<close> stands for an equivalence; a function that throws yields nothing.\<close>

datatype 'r converter = Equivalent | Convert "'r \<Rightarrow> 'r option"

type_synonym 'r converters = "((string \<times> string) \<times> 'r converter) list"

definition direct :: "'r converters \<Rightarrow> string \<Rightarrow> string \<Rightarrow> 'r converter option" where
  "direct cs a b = (case map_of cs (a, b) of Some c \<Rightarrow> Some c | None \<Rightarrow> map_of cs (''*'', b))"

text \<open>The converter to use, the type it leads to and the types left.\<close>

fun two_steps ::
  "'r converters \<Rightarrow> 'r converters \<Rightarrow> string \<Rightarrow> string \<Rightarrow> string list \<Rightarrow> 'r converter option \<times> string \<times> string list" where
  "two_steps all [] prev cur rest = (None, cur, rest)"
| "two_steps all (((a, b), c2) # cs) prev cur rest =
     (if b = cur
      then (case direct all prev a of
              Some Equivalent \<Rightarrow> (Some c2, cur, rest)
            | Some (Convert f) \<Rightarrow>
                (case c2 of Equivalent \<Rightarrow> (Some (Convert f), cur, rest) | Convert g \<Rightarrow> (Some (Convert f), a, b # rest))
            | None \<Rightarrow> two_steps all cs prev cur rest)
      else two_steps all cs prev cur rest)"

definition seek_converter ::
  "'r converters \<Rightarrow> string \<Rightarrow> string \<Rightarrow> string list \<Rightarrow> 'r converter option \<times> string \<times> string list" where
  "seek_converter cs prev cur rest =
     (case direct cs prev cur of Some c \<Rightarrow> (Some c, cur, rest) | None \<Rightarrow> two_steps cs cs prev cur rest)"

section \<open>Conversion\<close>

datatype 'r converted =
    Converted 'r
  | Conversion_Failed
  | No_Conversion string string
  | Conversion_Threw

record 'r ajax_settings =
  as_data_types :: "string list"
  as_converters :: "'r converters"
  as_response_fields :: "string list"
  as_throws :: bool
  as_data_filter :: "('r \<Rightarrow> 'r) option"

text \<open>How far a list of types is from its end, counting pairs without a direct converter twice.\<close>

fun pairs_left :: "'r converters \<Rightarrow> string \<Rightarrow> string list \<Rightarrow> nat" where
  "pairs_left cs cur [] = 0"
| "pairs_left cs cur (t # ts) =
     (if t = ''*'' then Suc (pairs_left cs cur ts)
      else Suc ((if direct cs cur t = None then 1 else 0) + pairs_left cs t ts))"

lemma two_steps_shrink:
  assumes "two_steps all cs prev cur rest = (conv, c, ts)" and "\<And>k x. map_of cs k = Some x \<Longrightarrow> map_of all k \<noteq> None"
    and "cur \<noteq> ''*''" and "direct all prev cur = None"
  shows "pairs_left all c ts < pairs_left all prev (cur # rest)"
  using assms(1,2)
proof (induction cs)
  case Nil
  then show ?case using assms(3,4) by simp
next
  case (Cons x cs)
  obtain a b c2 where x: "x = ((a, b), c2)" by (metis prod.exhaust)
  have k: "map_of all (a, b) \<noteq> None" using Cons.prems(2) [of "(a, b)"] by (simp add: x)
  have sub: "map_of all k \<noteq> None" if "map_of cs k = Some y" for k y
  proof -
    obtain y' where "map_of (x # cs) k = Some y'" using \<open>map_of cs k = Some y\<close> by (cases "k = (a, b)") (simp_all add: x)
    then show ?thesis by (rule Cons.prems(2))
  qed
  show ?case
  proof (cases "b = cur \<and> direct all prev a \<noteq> None")
    case True
    have "direct all a cur \<noteq> None" using k True by (auto simp: direct_def)
    then have "c = cur \<and> ts = rest \<or> c = a \<and> ts = cur # rest \<and> direct all a cur \<noteq> None"
      using Cons.prems(1) True by (auto simp: x split: converter.splits)
    then show ?thesis using assms(3,4) by auto
  next
    case False
    then have "two_steps all cs prev cur rest = (conv, c, ts)" using Cons.prems(1) by (auto simp: x split: if_splits)
    then show ?thesis by (rule Cons.IH [OF _ sub])
  qed
qed

lemma seek_converter_shrink:
  assumes "seek_converter cs prev cur rest = (conv, c, ts)" and "cur \<noteq> ''*''"
  shows "pairs_left cs c ts < pairs_left cs prev (cur # rest)"
  using assms two_steps_shrink [of cs cs prev cur rest conv c ts]
  by (cases "direct cs prev cur") (auto simp: seek_converter_def)

definition run_converter ::
  "bool \<Rightarrow> string \<Rightarrow> string \<Rightarrow> 'r converter option \<Rightarrow> 'r \<Rightarrow> 'r converted + 'r" where
  "run_converter throws prev cur conv r =
     (case conv of
        None \<Rightarrow> Inl (No_Conversion prev cur)
      | Some Equivalent \<Rightarrow> Inr r
      | Some (Convert f) \<Rightarrow>
          (case f r of Some r' \<Rightarrow> Inr r' | None \<Rightarrow> Inl (if throws then Conversion_Threw else Conversion_Failed)))"

text \<open>The \<open>responseXXX\<close> fields of the request object.\<close>

definition note_response :: "'r ajax_settings \<Rightarrow> string \<Rightarrow> 'r \<Rightarrow> (string \<Rightarrow> 'r option) \<Rightarrow> string \<Rightarrow> 'r option" where
  "note_response s t r filled = (if t \<in> set (as_response_fields s) then filled(t \<mapsto> r) else filled)"

text \<open>The loop, from the type reached.\<close>

function convert_loop ::
  "'r ajax_settings \<Rightarrow> string \<Rightarrow> string list \<Rightarrow> 'r \<Rightarrow> (string \<Rightarrow> 'r option) \<Rightarrow> 'r converted \<times> (string \<Rightarrow> 'r option)" where
  "convert_loop s cur [] r filled = (Converted r, filled)"
| "convert_loop s cur (t # ts) r filled =
     (if t = [] then (Converted r, filled)
      else if t = ''*'' then convert_loop s cur ts r (note_response s cur r filled)
      else if cur \<noteq> ''*'' \<and> cur \<noteq> t
      then (case seek_converter (as_converters s) cur t ts of
              (conv, c, ts') \<Rightarrow>
                (case run_converter (as_throws s) cur c conv r of
                   Inl e \<Rightarrow> (e, filled)
                 | Inr r' \<Rightarrow> convert_loop s c ts' r' (note_response s c r' filled)))
      else convert_loop s t ts r (note_response s t r filled))"
  by pat_completeness auto

termination
  by (relation "measure (\<lambda>(s, cur, ts, r, filled). pairs_left (as_converters s) cur ts)")
    (auto dest: seek_converter_shrink [OF sym])

definition ajax_convert :: "'r ajax_settings \<Rightarrow> bool \<Rightarrow> 'r \<Rightarrow> 'r converted \<times> (string \<Rightarrow> 'r option)" where
  "ajax_convert s ok r =
     (case as_data_types s of
        [] \<Rightarrow> (Converted r, Map.empty)
      | cur # ts \<Rightarrow>
          if cur = [] then (Converted r, Map.empty)
          else convert_loop s cur ts (case as_data_filter s of Some g \<Rightarrow> if ok then g r else r | None \<Rightarrow> r)
                 (note_response s cur r Map.empty))"

section \<open>Choosing the response\<close>

text \<open>
  The types with their patterns for the content type, the content type, and the responses in the order the transport
  names them; the types left and the response.
\<close>

definition content_match :: "(string \<times> (string \<Rightarrow> bool)) list \<Rightarrow> string \<Rightarrow> string option" where
  "content_match contents ct = map_option fst (find (\<lambda>(t, test). test ct) contents)"

definition handle_responses ::
  "(string \<times> (string \<Rightarrow> bool)) list \<Rightarrow> string option \<Rightarrow> (string \<times> 'r) list \<Rightarrow> 'r ajax_settings \<Rightarrow>
    string list \<times> 'r option" where
  "handle_responses contents ct responses s =
     (let given = as_data_types s;
          types = dropWhile (\<lambda>t. t = ''*'') given;
          found = (if types = given then None
                   else case ct of None \<Rightarrow> None | Some c \<Rightarrow> if c = [] then None else content_match contents c);
          types1 = (case found of Some t \<Rightarrow> t # types | None \<Rightarrow> types);
          wanted = (case types1 of t # ts \<Rightarrow> if t = [] then None else Some t | [] \<Rightarrow> None);
          final = (case types1 of
                     t # ts \<Rightarrow>
                       if map_of responses t \<noteq> None then Some t
                       else (case find (\<lambda>(u, r). wanted = None \<or> map_of (as_converters s) (u, t) \<noteq> None) responses of
                               Some (u, r) \<Rightarrow> Some u
                             | None \<Rightarrow> map_option fst (case responses of [] \<Rightarrow> None | x # xs \<Rightarrow> Some x))
                   | [] \<Rightarrow> map_option fst (case responses of [] \<Rightarrow> None | x # xs \<Rightarrow> Some x))
      in case final of
           None \<Rightarrow> (types1, None)
         | Some u \<Rightarrow> (if types1 \<noteq> [] \<and> hd types1 = u then types1 else u # types1, map_of responses u))"

section \<open>The table of jQuery\<close>

definition default_converters :: "('r \<Rightarrow> 'r) \<Rightarrow> ('r \<Rightarrow> 'r option) \<Rightarrow> ('r \<Rightarrow> 'r option) \<Rightarrow> ('r \<Rightarrow> 'r option) \<Rightarrow> 'r converters" where
  "default_converters str parse_json parse_xml eval =
     [((''*'', ''text''), Convert (\<lambda>r. Some (str r))),
      ((''text'', ''html''), Equivalent),
      ((''text'', ''json''), Convert parse_json),
      ((''text'', ''xml''), Convert parse_xml),
      ((''text'', ''script''), Convert eval)]"

definition default_response_fields :: "string list" where
  "default_response_fields = [''xml'', ''text'', ''json'']"

definition default_contents :: "(string \<times> (string \<Rightarrow> bool)) list" where
  "default_contents =
     [(''xml'', sublist ''xml''), (''html'', sublist ''html''), (''json'', sublist ''json''),
      (''script'', \<lambda>ct. sublist ''javascript'' ct \<or> sublist ''ecmascript'' ct)]"

section \<open>When there is no conversion\<close>

lemma two_steps_none:
  "fst (two_steps all cs prev cur rest) = None \<longleftrightarrow> (\<forall>(k, c) \<in> set cs. snd k = cur \<longrightarrow> direct all prev (fst k) = None)"
  by (induction all cs prev cur rest rule: two_steps.induct) (auto split: option.split converter.split)

text \<open>A chain of one or two converters.\<close>

definition chain :: "'r converters \<Rightarrow> string \<Rightarrow> string \<Rightarrow> bool" where
  "chain cs a b \<longleftrightarrow> direct cs a b \<noteq> None \<or> (\<exists>(k, c) \<in> set cs. snd k = b \<and> direct cs a (fst k) \<noteq> None)"

lemma seek_converter_chain: "fst (seek_converter cs a b ts) = None \<longleftrightarrow> \<not> chain cs a b"
  by (auto simp: seek_converter_def chain_def two_steps_none split: option.split)

lemma seek_converter_target:
  assumes "seek_converter cs a b [] = (conv, c, ts)"
  shows "c = b \<and> ts = [] \<or> ts = [b] \<and> direct cs c b \<noteq> None"
proof -
  have "two_steps all xs a b [] = (conv, c, ts) \<Longrightarrow> set xs \<subseteq> set all \<Longrightarrow>
      c = b \<and> ts = [] \<or> ts = [b] \<and> direct all c b \<noteq> None" for all xs
  proof (induction all xs a b "[] :: string list" rule: two_steps.induct)
    case (2 all a' b' c2 cs prev cur)
    then show ?case
      by (auto simp: direct_def weak_map_of_SomeI split: if_splits option.splits converter.splits dest: weak_map_of_SomeI)
  qed simp
  then show ?thesis using assms by (auto simp: seek_converter_def split: option.splits)
qed

lemma run_converter_none: "run_converter throws a b conv r = Inl (No_Conversion x y) \<longleftrightarrow> conv = None \<and> x = a \<and> y = b"
  by (auto simp: run_converter_def split: option.splits converter.splits)

section \<open>Properties\<close>

lemma loop_last:
  assumes "b \<notin> {[], ''*''}" and "direct (as_converters s) c b \<noteq> None"
  shows "fst (convert_loop s c [b] r g) \<noteq> No_Conversion x y"
  using assms by (auto simp: seek_converter_def run_converter_def split: option.splits converter.splits)

text \<open>C22. A response of one type is refused for want of a converter exactly when there is none from it, or from any type, to
  the type wanted, nor a pair of converters over some type between; and then the message names the two types. The loop
  always ends.\<close>

theorem refused_without_chain:
  assumes "a \<noteq> b" and "a \<notin> {[], ''*''}" and "b \<notin> {[], ''*''}" and "as_data_types s = [a, b]"
  shows "fst (ajax_convert s ok r) = No_Conversion x y \<longleftrightarrow> \<not> chain (as_converters s) a b \<and> x = a \<and> y = b"
proof -
  obtain conv c ts where sk: "seek_converter (as_converters s) a b [] = (conv, c, ts)" by (metis prod.exhaust)
  obtain r0 where e: "ajax_convert s ok r = convert_loop s a [b] r0 (note_response s a r Map.empty)"
    using assms by (simp add: ajax_convert_def split: option.split)
  have n: "conv = None \<longleftrightarrow> \<not> chain (as_converters s) a b" using seek_converter_chain [of "as_converters s" a b "[]"] sk by simp
  show ?thesis
  proof (cases conv)
    case None
    have "direct (as_converters s) a b = None" using None n by (simp add: chain_def)
    moreover have "two_steps all xs p q ts = (None, q', us) \<Longrightarrow> q' = q" for all :: "'a converters" and xs p q q' ts us
      by (induction all xs p q ts rule: two_steps.induct) (auto split: option.splits converter.splits if_splits)
    ultimately have "c = b" using sk None by (auto simp: seek_converter_def split: option.splits)
    then show ?thesis using e sk assms(1-3) None n by (auto simp: run_converter_def)
  next
    case (Some cv)
    have "fst (ajax_convert s ok r) \<noteq> No_Conversion x y"
    proof (cases "run_converter (as_throws s) a c conv r0")
      case (Inl f)
      then show ?thesis using e sk assms(1-3) run_converter_none [of "as_throws s" a c conv r0 x y] Some by auto
    next
      case (Inr r')
      then have "ajax_convert s ok r = convert_loop s c ts r' (note_response s c r' (note_response s a r Map.empty))"
        using e sk assms(1-3) by simp
      then show ?thesis using seek_converter_target [OF sk]
      proof (elim disjE conjE)
        assume "ts = [b]" and "direct (as_converters s) c b \<noteq> None"
        then show ?thesis
          using \<open>ajax_convert s ok r = convert_loop s c ts r' _\<close> loop_last [OF assms(3), of s c] by (simp only: not_False_eq_True)
      qed simp
    qed
    then show ?thesis using n Some by simp
  qed
qed

text \<open>With the types, patterns and converters of jQuery a response in text, as \<open>XMLHttpRequest\<close> gives it, always reaches
  the type asked for, or the first one whose pattern is found in the content type when none is asked for: text and html
  as they are, json, xml and script through their converter, whose failure is the only error.\<close>

theorem text_reaches_type:
  assumes "as_converters s = default_converters str parse_json parse_xml eval" and "\<not> as_throws s" and "as_data_filter s = None"
    and "as_data_types s = [t] \<and> t \<in> {''text'', ''html'', ''json'', ''xml'', ''script''} \<or>
      as_data_types s = [''*''] \<and> content_match default_contents ct = Some t \<and> ct \<noteq> []"
  shows "\<exists>types. handle_responses default_contents (Some ct) [(''text'', r)] s = (types, Some r) \<and>
    fst (ajax_convert (s\<lparr>as_data_types := types\<rparr>) ok r) =
      (case map_of [(''json'', parse_json), (''xml'', parse_xml), (''script'', eval)] t of
         None \<Rightarrow> Converted r
       | Some f \<Rightarrow> (case f r of Some r' \<Rightarrow> Converted r' | None \<Rightarrow> Conversion_Failed))"
proof -
  have t: "t \<in> {''text'', ''html'', ''json'', ''xml'', ''script''}"
    using assms(4) by (auto simp: content_match_def default_contents_def split: if_splits)
  have h: "handle_responses default_contents (Some ct) [(''text'', r)] s =
      (if t = ''text'' then [''text''] else [''text'', t], Some r)"
    using assms(1,4) t by (auto simp: handle_responses_def default_converters_def)
  have "fst (ajax_convert (s\<lparr>as_data_types := if t = ''text'' then [''text''] else [''text'', t]\<rparr>) ok r) =
      (case map_of [(''json'', parse_json), (''xml'', parse_xml), (''script'', eval)] t of
         None \<Rightarrow> Converted r
       | Some f \<Rightarrow> (case f r of Some r' \<Rightarrow> Converted r' | None \<Rightarrow> Conversion_Failed))"
    using t assms(1-3)
    by (auto simp: ajax_convert_def seek_converter_def direct_def default_converters_def run_converter_def split: option.split)
  then show ?thesis using h by blast
qed

definition sample_settings :: "string list \<Rightarrow> string ajax_settings" where
  "sample_settings types =
     \<lparr>as_data_types = types,
      as_converters = default_converters id (\<lambda>r. if r = [] then None else Some r) Some (\<lambda>r. Some (r @ '';'')),
      as_response_fields = default_response_fields, as_throws = False, as_data_filter = None\<rparr>"

theorem refused_without_chain_witness:
  "fst (ajax_convert (sample_settings [''html'', ''json'']) True ''x'') \<noteq> No_Conversion ''html'' ''json'' \<and>
   fst (ajax_convert (sample_settings [''html'', ''yaml'']) True ''x'') = No_Conversion ''html'' ''yaml''"
proof -
  have "chain (as_converters (sample_settings [''html'', ''json''])) ''html'' ''json''"
    by (simp add: sample_settings_def chain_def default_converters_def direct_def)
  moreover have "\<not> chain (as_converters (sample_settings [''html'', ''yaml''])) ''html'' ''yaml''"
    by (simp add: sample_settings_def chain_def default_converters_def direct_def)
  moreover have "as_data_types (sample_settings ts) = ts" for ts by (simp add: sample_settings_def)
  ultimately show ?thesis
    using refused_without_chain [of "''html''" "''json''" "sample_settings [''html'', ''json'']" True "''x''" "''html''" "''json''"]
      refused_without_chain [of "''html''" "''yaml''" "sample_settings [''html'', ''yaml'']" True "''x''" "''html''" "''yaml''"]
    by simp
qed

theorem text_reaches_type_witness:
  "\<exists>types. handle_responses default_contents (Some ''text/javascript; charset=utf-8'') [(''text'', ''a()'')] (sample_settings [''*'']) =
      (types, Some ''a()'') \<and>
    fst (ajax_convert ((sample_settings [''*''])\<lparr>as_data_types := types\<rparr>) True ''a()'') = Converted ''a();''"
proof -
  have "content_match default_contents ''text/javascript; charset=utf-8'' = Some ''script''" by code_simp
  then have "as_data_types (sample_settings [''*'']) = [''*''] \<and>
      content_match default_contents ''text/javascript; charset=utf-8'' = Some ''script'' \<and> ''text/javascript; charset=utf-8'' \<noteq> []"
    by (simp add: sample_settings_def)
  from text_reaches_type [OF _ _ _ disjI2 [OF this], of id "\<lambda>r. if r = [] then None else Some r" Some "\<lambda>r. Some (r @ '';'')" "''a()''" True]
  show ?thesis by (simp add: sample_settings_def)
qed

end
