(* ===== verification/Ajax.thy ===== *)
theory Ajax
  imports Ajax_Convert
begin

text \<open>
  \<open>jQuery.ajax\<close>: the address and headers a request is sent with, and the life of a request from the call to its
  last event, with the counter of requests under way and the global events. The first part is functions on the
  settings; the second lets any number of requests make their steps in any order, which covers callbacks that start or
  abort others. It is proved that a query reaches the address whole, that each request has the calls and events it
  should and each once, and that \<open>ajaxStart\<close> and \<open>ajaxStop\<close> alternate as long as no callback throws.
\<close>

section \<open>Origins\<close>

record origin =
  og_scheme :: string
  og_host :: "string option"
  og_port :: "string option"

definition scheme_char :: "char \<Rightarrow> bool" where
  "scheme_char c \<longleftrightarrow>
     (let k = (of_char c :: nat) in 65 \<le> k \<and> k \<le> 90 \<or> 97 \<le> k \<and> k \<le> 122 \<or> 48 \<le> k \<and> k \<le> 57) \<or> c \<in> set ''_.+-''"

text \<open>After the last \<open>@\<close> of the characters up to a slash, question mark or hash.\<close>

definition after_user :: "string \<Rightarrow> string" where
  "after_user s =
     (let auth = takeWhile (\<lambda>c. c \<notin> set ''/?#'') s in
        if CHR ''@'' \<in> set auth then drop (length auth - length (takeWhile (\<lambda>c. c \<noteq> CHR ''@'') (rev auth))) s else s)"

text \<open>The regular expression \<open>rurl\<close>.\<close>

definition parse_origin :: "string \<Rightarrow> origin option" where
  "parse_origin s =
     (let sch = takeWhile scheme_char s; r = dropWhile scheme_char s in
        case r of
          c # cs \<Rightarrow>
            if sch = [] \<or> c \<noteq> CHR '':'' then None
            else if take 2 cs \<noteq> ''//'' then Some \<lparr>og_scheme = sch @ '':'', og_host = None, og_port = None\<rparr>
            else
              let a = after_user (drop 2 cs); host = takeWhile (\<lambda>c. c \<notin> set ''/?#:'') a; p = drop (length host) a;
                  digits = takeWhile is_digit (tl p)
              in Some \<lparr>og_scheme = sch @ '':'', og_host = Some host,
                       og_port = (if p \<noteq> [] \<and> hd p = CHR '':'' \<and> digits \<noteq> [] then Some digits else None)\<rparr>
        | [] \<Rightarrow> None)"

definition effective_port :: "origin \<Rightarrow> string" where
  "effective_port g = (case og_port g of Some p \<Rightarrow> p | None \<Rightarrow> if og_scheme g = ''http:'' then ''80'' else ''443'')"

definition same_origin :: "origin \<Rightarrow> origin \<Rightarrow> bool" where
  "same_origin g h \<longleftrightarrow> og_scheme g = og_scheme h \<and> og_host g = og_host h \<and> effective_port g = effective_port h"

text \<open>The page's own address always has an origin.\<close>

definition cross_domain :: "origin \<Rightarrow> string \<Rightarrow> bool" where
  "cross_domain page url =
     (case parse_origin (map lower url) of None \<Rightarrow> False | Some g \<Rightarrow> \<not> same_origin g page)"

section \<open>What a request is sent with\<close>

datatype ajax_data = No_Data | Query_Text string | Data_Fields "(string \<times> string) list"

record ajax_call =
  ac_url :: "string option"
  ac_type :: string
  ac_data :: ajax_data
  ac_data_type :: "string option"
  ac_cross :: "bool option"
  ac_cache :: "bool option"
  ac_global :: bool

record page_origin =
  po_location :: string
  po_origin :: origin

definition upper :: "char \<Rightarrow> char" where
  "upper c = (let n = of_char c :: nat in if 97 \<le> n \<and> n \<le> 122 then char_of (n - 32) else c)"

definition call_url :: "page_origin \<Rightarrow> string option \<Rightarrow> string" where
  "call_url po u =
     (let url = takeWhile (\<lambda>c. c \<noteq> CHR ''#'') (case u of Some (c # cs) \<Rightarrow> c # cs | _ \<Rightarrow> po_location po) in
        if take 2 url = ''//'' then og_scheme (po_origin po) @ url else url)"

definition data_text :: "ajax_data \<Rightarrow> string option" where
  "data_text d = (case d of No_Data \<Rightarrow> None | Query_Text t \<Rightarrow> Some t | Data_Fields fs \<Rightarrow> Some (param fs))"

definition has_content :: "string \<Rightarrow> bool" where
  "has_content t \<longleftrightarrow> t \<noteq> ''GET'' \<and> t \<noteq> ''HEAD''"

definition add_query :: "string \<Rightarrow> string \<Rightarrow> string" where
  "add_query url q = url @ (if CHR ''?'' \<in> set url then ''&'' else ''?'') @ q"

text \<open>A parameter \<open>_\<close> in the address, and its first value replaced.\<close>

fun has_stamp :: "string \<Rightarrow> bool" where
  "has_stamp (a # b # c # s) \<longleftrightarrow> (a = CHR ''?'' \<or> a = CHR ''&'') \<and> b = CHR ''_'' \<and> c = CHR ''='' \<or> has_stamp (b # c # s)"
| "has_stamp s \<longleftrightarrow> False"

fun replace_stamp :: "string \<Rightarrow> string \<Rightarrow> string" where
  "replace_stamp v (a # b # c # s) =
     (if (a = CHR ''?'' \<or> a = CHR ''&'') \<and> b = CHR ''_'' \<and> c = CHR ''=''
      then a # b # c # v @ dropWhile (\<lambda>x. x \<noteq> CHR ''&'') s
      else a # replace_stamp v (b # c # s))"
| "replace_stamp v s = s"

definition stamp_url :: "nat \<Rightarrow> string \<Rightarrow> string" where
  "stamp_url nonce url =
     (if has_stamp url then replace_stamp (nat_to_string nonce) url else add_query url (''_='' @ nat_to_string nonce))"

record prepared =
  pr_url :: string
  pr_type :: string
  pr_cross :: bool
  pr_body :: "string option"
  pr_global :: bool
  pr_nonce :: nat

text \<open>
  The prefilter for scripts runs before the type is put in capitals: scripts are not cached, and those from elsewhere
  are fetched by a tag.
\<close>

definition first_data_type :: "string option \<Rightarrow> string" where
  "first_data_type t = (case t of None \<Rightarrow> ''*'' | Some s \<Rightarrow> takeWhile (\<lambda>c. \<not> is_space c) (dropWhile is_space (map lower s)))"

definition script_prefilter :: "ajax_call \<Rightarrow> bool \<Rightarrow> ajax_call" where
  "script_prefilter c cross =
     (if first_data_type (ac_data_type c) = ''script''
      then c\<lparr>ac_cache := (case ac_cache c of None \<Rightarrow> Some False | Some b \<Rightarrow> Some b),
             ac_type := (if cross then ''GET'' else ac_type c), ac_global := ac_global c \<and> \<not> cross\<rparr>
      else c)"

definition prepare :: "page_origin \<Rightarrow> nat \<Rightarrow> ajax_call \<Rightarrow> prepared" where
  "prepare po nonce c =
     (let url = call_url po (ac_url c);
          cross = (case ac_cross c of Some b \<Rightarrow> b | None \<Rightarrow> cross_domain (po_origin po) url);
          data = (case data_text (ac_data c) of Some (x # xs) \<Rightarrow> Some (x # xs) | _ \<Rightarrow> None);
          c1 = script_prefilter c cross; t = map upper (ac_type c1)
      in if has_content t
         then \<lparr>pr_url = url, pr_type = t, pr_cross = cross, pr_body = data, pr_global = ac_global c1, pr_nonce = nonce\<rparr>
         else
           let url1 = (case data of Some q \<Rightarrow> add_query url q | None \<Rightarrow> url) in
           if ac_cache c1 = Some False
           then \<lparr>pr_url = stamp_url nonce url1, pr_type = t, pr_cross = cross, pr_body = None, pr_global = ac_global c1,
                 pr_nonce = Suc nonce\<rparr>
           else \<lparr>pr_url = url1, pr_type = t, pr_cross = cross, pr_body = None, pr_global = ac_global c1, pr_nonce = nonce\<rparr>)"

section \<open>The life of a request\<close>

text \<open>
  Where a request stands: created, counted (global events are on from here), announced by \<open>ajaxSend\<close>, handed to
  the transport, settled with its success or error callbacks run, announced by \<open>ajaxSuccess\<close> or \<open>ajaxError\<close>, with
  its complete callbacks run, and over. A callback that throws leaves the request where it is for good.
\<close>

datatype call_phase = Created | Counted | Sending | Loading | Settled | Announced | Completed | Over | Broken

record jqxhr =
  jx_phase :: call_phase
  jx_global :: bool
  jx_installed :: bool
  jx_sent :: bool
  jx_ok :: bool
  jx_handing :: bool
  jx_again :: bool

datatype ajax_note =
    Ajax_Start
  | Ajax_Stop
  | Ajax_Send nat
  | Call_Success nat
  | Call_Error nat
  | Ajax_Success nat
  | Ajax_Error nat
  | Call_Complete nat
  | Ajax_Complete nat

record ajax_world =
  aw_calls :: "jqxhr list"
  aw_active :: int
  aw_log :: "ajax_note list"

definition new_world :: ajax_world where
  "new_world = \<lparr>aw_calls = [], aw_active = 0, aw_log = []\<rparr>"

definition new_call :: "bool \<Rightarrow> jqxhr" where
  "new_call g =
     \<lparr>jx_phase = Created, jx_global = g, jx_installed = False, jx_sent = False, jx_ok = False, jx_handing = False,
      jx_again = False\<rparr>"

definition put_call :: "nat \<Rightarrow> jqxhr \<Rightarrow> ajax_note list \<Rightarrow> ajax_world \<Rightarrow> ajax_world" where
  "put_call i x notes w = w\<lparr>aw_calls := (aw_calls w)[i := x], aw_log := aw_log w @ notes\<rparr>"

text \<open>\<open>done\<close>, up to the callbacks for success or error; the others are later steps. It does nothing once settled.\<close>

definition settle_call :: "nat \<Rightarrow> bool \<Rightarrow> jqxhr \<Rightarrow> ajax_world \<Rightarrow> ajax_world" where
  "settle_call i ok x w =
     put_call i (x\<lparr>jx_phase := Settled, jx_ok := ok\<rparr>)
       (if jx_installed x then [if ok then Call_Success i else Call_Error i] else []) w"

datatype ajax_event =
    New_Call bool
  | Prefilter_Aborts nat
  | Count_Call nat
  | Refuse nat
  | Send_Call nat bool
  | Hand_Over nat
  | Done nat bool
  | Abort nat
  | Announce nat
  | Complete nat
  | Finish nat
  | Callback_Throws nat

text \<open>
  A step that a request is not ready for changes nothing. A prefilter that aborts does so before the request is
  counted, so that no global event is due for it; \<open>beforeSend\<close> that refuses comes after. \<open>Send_Call\<close> tells whether a
  transport was found. A handler of \<open>ajaxSend\<close> may abort the request and so finish it; \<open>ajax\<close> then still marks it
  as loading and calls the transport, which is gone, and takes the error for that of a request never settled.
\<close>

fun call_event :: "ajax_event \<Rightarrow> nat \<Rightarrow> jqxhr \<Rightarrow> ajax_world \<Rightarrow> ajax_world" where
  "call_event (New_Call g) i x w = w"
| "call_event (Prefilter_Aborts j) i x w =
     (if jx_phase x = Created then settle_call i False (x\<lparr>jx_global := False\<rparr>) w else w)"
| "call_event (Count_Call j) i x w =
     (if jx_phase x = Created
      then if jx_global x
           then (put_call i (x\<lparr>jx_phase := Counted\<rparr>) (if aw_active w = 0 then [Ajax_Start] else []) w)
                  \<lparr>aw_active := aw_active w + 1\<rparr>
           else put_call i (x\<lparr>jx_phase := Counted\<rparr>) [] w
      else w)"
| "call_event (Refuse j) i x w = (if jx_phase x = Counted then settle_call i False x w else w)"
| "call_event (Send_Call j found) i x w =
     (if jx_phase x = Counted
      then if found
           then put_call i (x\<lparr>jx_phase := Sending, jx_installed := True, jx_sent := True, jx_handing := True\<rparr>)
                  (if jx_global x then [Ajax_Send i] else []) w
           else settle_call i False (x\<lparr>jx_installed := True\<rparr>) w
      else w)"
| "call_event (Hand_Over j) i x w =
     (if jx_phase x = Sending then put_call i (x\<lparr>jx_phase := Loading, jx_handing := False\<rparr>) [] w
      else if jx_phase x = Over \<and> jx_handing x
      then settle_call i False (x\<lparr>jx_handing := False, jx_installed := False, jx_again := True\<rparr>) w
      else w)"
| "call_event (Done j ok) i x w = (if jx_phase x = Loading then settle_call i ok x w else w)"
| "call_event (Abort j) i x w =
     (if jx_phase x = Loading \<or> jx_phase x = Sending \<and> jx_global x then settle_call i False x w else w)"
| "call_event (Announce j) i x w =
     (if jx_phase x = Settled
      then put_call i (x\<lparr>jx_phase := Announced\<rparr>)
             (if jx_global x then [if jx_ok x then Ajax_Success i else Ajax_Error i] else []) w
      else w)"
| "call_event (Complete j) i x w =
     (if jx_phase x = Announced
      then put_call i (x\<lparr>jx_phase := Completed\<rparr>) (if jx_installed x then [Call_Complete i] else []) w
      else w)"
| "call_event (Finish j) i x w =
     (if jx_phase x = Completed
      then if jx_global x
           then (put_call i (x\<lparr>jx_phase := Over\<rparr>) (Ajax_Complete i # (if aw_active w - 1 = 0 then [Ajax_Stop] else [])) w)
                  \<lparr>aw_active := aw_active w - 1\<rparr>
           else put_call i (x\<lparr>jx_phase := Over\<rparr>) [] w
      else w)"
| "call_event (Callback_Throws j) i x w =
     (if jx_phase x \<in> {Settled, Announced, Completed} then put_call i (x\<lparr>jx_phase := Broken\<rparr>) [] w else w)"

fun about :: "ajax_event \<Rightarrow> nat option" where
  "about (New_Call g) = None"
| "about (Prefilter_Aborts i) = Some i"
| "about (Count_Call i) = Some i"
| "about (Refuse i) = Some i"
| "about (Send_Call i found) = Some i"
| "about (Hand_Over i) = Some i"
| "about (Done i ok) = Some i"
| "about (Abort i) = Some i"
| "about (Announce i) = Some i"
| "about (Complete i) = Some i"
| "about (Finish i) = Some i"
| "about (Callback_Throws i) = Some i"

definition ajax_step :: "ajax_event \<Rightarrow> ajax_world \<Rightarrow> ajax_world" where
  "ajax_step e w =
     (case (e, about e) of
        (New_Call g, _) \<Rightarrow> w\<lparr>aw_calls := aw_calls w @ [new_call g]\<rparr>
      | (_, Some i) \<Rightarrow> if i < length (aw_calls w) then call_event e i (aw_calls w ! i) w else w
      | _ \<Rightarrow> w)"

section \<open>Counting\<close>

definition under_way :: "jqxhr \<Rightarrow> bool" where
  "under_way x \<longleftrightarrow> jx_global x \<and> jx_phase x \<notin> {Created, Over}"

fun note_call :: "ajax_note \<Rightarrow> nat option" where
  "note_call Ajax_Start = None"
| "note_call Ajax_Stop = None"
| "note_call (Ajax_Send i) = Some i"
| "note_call (Call_Success i) = Some i"
| "note_call (Call_Error i) = Some i"
| "note_call (Ajax_Success i) = Some i"
| "note_call (Ajax_Error i) = Some i"
| "note_call (Call_Complete i) = Some i"
| "note_call (Ajax_Complete i) = Some i"

text \<open>The calls and events a request should have had, by where it stands.\<close>

definition settled_notes :: "nat \<Rightarrow> jqxhr \<Rightarrow> ajax_note list" where
  "settled_notes i x =
     (if jx_global x \<and> jx_sent x then [Ajax_Send i] else []) @
     (if jx_installed x then [if jx_ok x then Call_Success i else Call_Error i] else [])"

definition announced_notes :: "nat \<Rightarrow> jqxhr \<Rightarrow> ajax_note list" where
  "announced_notes i x = settled_notes i x @ (if jx_global x then [if jx_ok x then Ajax_Success i else Ajax_Error i] else [])"

definition completed_notes :: "nat \<Rightarrow> jqxhr \<Rightarrow> ajax_note list" where
  "completed_notes i x = announced_notes i x @ (if jx_installed x then [Call_Complete i] else [])"

definition over_notes :: "nat \<Rightarrow> jqxhr \<Rightarrow> ajax_note list" where
  "over_notes i x = completed_notes i x @ (if jx_global x then [Ajax_Complete i] else [])"

definition due_notes :: "nat \<Rightarrow> jqxhr \<Rightarrow> ajax_note list \<Rightarrow> bool" where
  "due_notes i x ns \<longleftrightarrow>
     (case jx_phase x of
        Created \<Rightarrow> ns = [] \<and> \<not> jx_installed x \<and> \<not> jx_sent x
      | Counted \<Rightarrow> ns = [] \<and> \<not> jx_installed x \<and> \<not> jx_sent x
      | Sending \<Rightarrow> ns = (if jx_global x then [Ajax_Send i] else []) \<and> jx_installed x \<and> jx_sent x
      | Loading \<Rightarrow> ns = (if jx_global x then [Ajax_Send i] else []) \<and> jx_installed x \<and> jx_sent x
      | Settled \<Rightarrow> ns = settled_notes i x
      | Announced \<Rightarrow> ns = announced_notes i x
      | Completed \<Rightarrow> ns = completed_notes i x
      | Over \<Rightarrow> ns = over_notes i x
      | Broken \<Rightarrow> ns \<in> {settled_notes i x, announced_notes i x, completed_notes i x})"

text \<open>\<open>ajaxStart\<close> and \<open>ajaxStop\<close> take turns; whether a start is the last of them.\<close>

fun start_stop :: "bool \<Rightarrow> ajax_note list \<Rightarrow> bool option" where
  "start_stop on [] = Some on"
| "start_stop on (n # ns) =
     (if n = Ajax_Start then if on then None else start_stop True ns
      else if n = Ajax_Stop then if on then start_stop False ns else None
      else start_stop on ns)"

text \<open>A request settled twice has been taken off the counter twice.\<close>

definition weight :: "jqxhr \<Rightarrow> int" where
  "weight x = (if under_way x then 1 else 0) - (if jx_again x then 1 else 0)"

definition hand_ok :: "jqxhr \<Rightarrow> bool" where
  "hand_ok x \<longleftrightarrow>
     (jx_again x \<longrightarrow> jx_global x \<and> jx_phase x \<notin> {Created, Counted, Sending} \<and> \<not> jx_handing x) \<and>
     (jx_handing x \<and> jx_phase x \<noteq> Sending \<longrightarrow> jx_global x \<and> jx_phase x \<noteq> Created)"

definition ajax_inv :: "ajax_world \<Rightarrow> bool" where
  "ajax_inv w \<longleftrightarrow>
     aw_active w = sum_list (map weight (aw_calls w)) \<and>
     ((\<forall>x \<in> set (aw_calls w). \<not> jx_again x) \<longrightarrow> start_stop False (aw_log w) = Some (0 < aw_active w)) \<and>
     (\<forall>i < length (aw_calls w).
        hand_ok (aw_calls w ! i) \<and>
        (jx_again (aw_calls w ! i) \<or>
           due_notes i (aw_calls w ! i) (filter (\<lambda>n. note_call n = Some i) (aw_log w)))) \<and>
     (\<forall>n \<in> set (aw_log w). \<forall>i. note_call n = Some i \<longrightarrow> i < length (aw_calls w))"

section \<open>Every step keeps the count\<close>

lemma sum_weight_update:
  "i < length xs \<Longrightarrow> sum_list (map weight (xs[i := y])) = sum_list (map weight xs) + weight y - weight (xs ! i)"
  by (induction xs arbitrary: i) (auto split: nat.split)

lemma weight_nonneg: "\<forall>x \<in> set xs. \<not> jx_again x \<Longrightarrow> 0 \<le> sum_list (map weight xs)"
  by (induction xs) (auto simp: weight_def)

lemma under_way_counted:
  "\<forall>x \<in> set xs. \<not> jx_again x \<Longrightarrow> x \<in> set xs \<Longrightarrow> under_way x \<Longrightarrow> 0 < sum_list (map weight xs)"
proof (induction xs)
  case (Cons y ys)
  have "0 \<le> sum_list (map weight ys)" using Cons.prems(1) by (intro weight_nonneg) simp
  moreover have "0 \<le> weight y" using Cons.prems(1) by (simp add: weight_def)
  ultimately show ?case
  proof (cases "x = y")
    case True
    then have "weight y = 1" using Cons.prems by (simp add: weight_def)
    then show ?thesis using \<open>0 \<le> sum_list (map weight ys)\<close> by simp
  next
    case False
    then have "0 < sum_list (map weight ys)" using Cons by simp
    then show ?thesis using \<open>0 \<le> weight y\<close> by simp
  qed
qed simp

lemma start_stop_append: "start_stop on ns = Some b \<Longrightarrow> start_stop on (ns @ ms) = start_stop b ms"
  by (induction on ns rule: start_stop.induct) (auto split: if_splits)

lemma ajax_inv_put:
  assumes inv: "ajax_inv w" and i: "i < length (aw_calls w)"
    and active: "d = weight x' - weight (aw_calls w ! i)"
    and about: "\<And>n. n \<in> set ns \<Longrightarrow> note_call n \<in> {None, Some i}"
    and again: "jx_again (aw_calls w ! i) \<Longrightarrow> jx_again x'" "hand_ok x'"
    and due: "\<And>old. \<not> jx_again x' \<Longrightarrow> due_notes i (aw_calls w ! i) old \<Longrightarrow> due_notes i x' (old @ filter (\<lambda>n. note_call n = Some i) ns)"
    and turns: "\<not> jx_again x' \<Longrightarrow> 0 \<le> aw_active w \<Longrightarrow> (under_way (aw_calls w ! i) \<Longrightarrow> 0 < aw_active w) \<Longrightarrow>
      start_stop (0 < aw_active w) ns = Some (0 < aw_active w + d)"
  shows "ajax_inv ((put_call i x' ns w)\<lparr>aw_active := aw_active w + d\<rparr>)"
proof -
  let ?w = "(put_call i x' ns w)\<lparr>aw_active := aw_active w + d\<rparr>"
  have calls: "aw_calls ?w = (aw_calls w)[i := x']" and log: "aw_log ?w = aw_log w @ ns" by (simp_all add: put_call_def)
  have sum: "aw_active ?w = sum_list (map weight (aw_calls ?w))"
    unfolding calls using inv i active by (simp add: sum_weight_update ajax_inv_def)
  moreover have "start_stop False (aw_log ?w) = Some (0 < aw_active ?w)" if "\<forall>x \<in> set (aw_calls ?w). \<not> jx_again x"
  proof -
    have x': "\<not> jx_again x'" using that i by (auto simp: calls intro: set_update_memI)
    have "\<not> jx_again y" if y: "y \<in> set (aw_calls w)" for y
    proof -
      obtain j where "j < length (aw_calls w)" "y = aw_calls w ! j" using y by (metis in_set_conv_nth)
      then show ?thesis using \<open>\<forall>x \<in> set (aw_calls ?w). \<not> jx_again x\<close> again(1) x'
        by (cases "j = i") (auto simp: calls all_set_conv_all_nth nth_list_update)
    qed
    then have n: "\<forall>y \<in> set (aw_calls w). \<not> jx_again y" by blast
    have "0 \<le> aw_active w" "under_way (aw_calls w ! i) \<Longrightarrow> 0 < aw_active w"
      using inv weight_nonneg [OF n] under_way_counted [OF n nth_mem [OF i]] by (simp_all add: ajax_inv_def)
    then have "start_stop (0 < aw_active w) ns = Some (0 < aw_active w + d)" using turns x' by blast
    moreover have "start_stop False (aw_log w) = Some (0 < aw_active w)" using inv n by (simp add: ajax_inv_def)
    ultimately show ?thesis by (simp add: log start_stop_append)
  qed
  moreover have "hand_ok (aw_calls ?w ! j) \<and> (jx_again (aw_calls ?w ! j) \<or> due_notes j (aw_calls ?w ! j) (filter (\<lambda>n. note_call n = Some j) (aw_log ?w)))"
    if j: "j < length (aw_calls ?w)" for j
  proof (cases "j = i")
    case True
    have "jx_again (aw_calls w ! i) \<or> due_notes i (aw_calls w ! i) (filter (\<lambda>n. note_call n = Some i) (aw_log w))"
      using inv i by (simp add: ajax_inv_def)
    then show ?thesis using again due i True by (auto simp: calls log)
  next
    case False
    have "filter (\<lambda>n. note_call n = Some j) ns = []" using about False by (force simp: filter_empty_conv)
    moreover have "hand_ok (aw_calls w ! j) \<and>
        (jx_again (aw_calls w ! j) \<or> due_notes j (aw_calls w ! j) (filter (\<lambda>n. note_call n = Some j) (aw_log w)))"
      using inv j unfolding calls ajax_inv_def by simp
    ultimately show ?thesis using False unfolding calls log by simp
  qed
  moreover have "\<forall>n \<in> set (aw_log ?w). \<forall>j. note_call n = Some j \<longrightarrow> j < length (aw_calls ?w)"
  proof (intro ballI allI impI)
    fix n j
    assume "n \<in> set (aw_log ?w)" and j: "note_call n = Some j"
    then consider "n \<in> set (aw_log w)" | "n \<in> set ns" unfolding log by auto
    then show "j < length (aw_calls ?w)"
    proof cases
      case 1
      then show ?thesis using inv j unfolding calls ajax_inv_def by simp
    next
      case 2
      then show ?thesis using about [of n] i j unfolding calls by simp
    qed
  qed
  ultimately show ?thesis unfolding ajax_inv_def by blast
qed

text \<open>The same for steps that leave the counter alone.\<close>

lemma ajax_inv_put_same:
  assumes "ajax_inv w" and "i < length (aw_calls w)" and "weight x' = weight (aw_calls w ! i)"
    and "\<And>n. n \<in> set ns \<Longrightarrow> note_call n = Some i"
    and "jx_again (aw_calls w ! i) \<Longrightarrow> jx_again x'" and "hand_ok x'"
    and "\<And>old. \<not> jx_again x' \<Longrightarrow> due_notes i (aw_calls w ! i) old \<Longrightarrow> due_notes i x' (old @ ns)"
  shows "ajax_inv (put_call i x' ns w)"
proof -
  have "start_stop b ns = Some b" for b
    using assms(4) by (induction ns) (force simp: note_call.simps)+
  moreover have "filter (\<lambda>n. note_call n = Some i) ns = ns" using assms(4) by simp
  moreover have "put_call i x' ns w = (put_call i x' ns w)\<lparr>aw_active := aw_active w + 0\<rparr>" by (simp add: put_call_def)
  ultimately show ?thesis
    using assms(3,4,7) by (subst \<open>put_call i x' ns w = _\<close>) (rule ajax_inv_put [OF assms(1,2) _ _ assms(5,6)], auto)
qed

named_theorems phase_notes

lemmas [phase_notes] = due_notes_def settled_notes_def announced_notes_def completed_notes_def over_notes_def weight_def under_way_def
  hand_ok_def

lemma call_event_inv:
  assumes inv: "ajax_inv w" and i: "i < length (aw_calls w)"
  shows "ajax_inv (call_event e i (aw_calls w ! i) w)"
proof -
  let ?x = "aw_calls w ! i"
  have ag: "hand_ok ?x" using inv i by (simp add: ajax_inv_def)
  note same = ajax_inv_put_same [OF inv i]
  show ?thesis
  proof (cases e)
    case (New_Call g)
    then show ?thesis using inv by simp
  next
    case (Prefilter_Aborts j)
    then show ?thesis using ag inv by (auto simp: settle_call_def phase_notes intro!: same)
  next
    case (Count_Call j)
    show ?thesis
    proof (cases "jx_phase ?x = Created \<and> jx_global ?x")
      case True
      have "ajax_inv ((put_call i (?x\<lparr>jx_phase := Counted\<rparr>) (if aw_active w = 0 then [Ajax_Start] else []) w)
          \<lparr>aw_active := aw_active w + 1\<rparr>)"
        by (rule ajax_inv_put [OF inv i]) (use True ag in \<open>auto simp: phase_notes split: if_splits\<close>)
      then show ?thesis using Count_Call True by simp
    next
      case False
      then show ?thesis using Count_Call ag inv by (auto simp: phase_notes intro!: same)
    qed
  next
    case (Refuse j)
    then show ?thesis using ag inv by (auto simp: settle_call_def phase_notes intro!: same)
  next
    case (Send_Call j found)
    then show ?thesis using ag inv by (auto simp: settle_call_def phase_notes intro!: same)
  next
    case (Hand_Over j)
    then show ?thesis using ag inv by (auto simp: settle_call_def phase_notes intro!: same)
  next
    case (Done j ok)
    then show ?thesis using ag inv by (auto simp: settle_call_def phase_notes intro!: same)
  next
    case (Abort j)
    then show ?thesis using ag inv by (auto simp: settle_call_def phase_notes intro!: same)
  next
    case (Announce j)
    then show ?thesis using ag inv by (auto simp: phase_notes intro!: same)
  next
    case (Complete j)
    then show ?thesis using ag inv by (auto simp: phase_notes intro!: same)
  next
    case (Finish j)
    show ?thesis
    proof (cases "jx_phase ?x = Completed \<and> jx_global ?x")
      case True
      have "ajax_inv ((put_call i (?x\<lparr>jx_phase := Over\<rparr>) (Ajax_Complete i # (if aw_active w - 1 = 0 then [Ajax_Stop] else [])) w)
          \<lparr>aw_active := aw_active w + - 1\<rparr>)"
        by (rule ajax_inv_put [OF inv i]) (use True ag in \<open>auto simp: phase_notes split: if_splits\<close>)
      then show ?thesis using Finish True by simp
    next
      case False
      then show ?thesis using Finish ag inv by (auto simp: phase_notes intro!: same)
    qed
  next
    case (Callback_Throws j)
    then show ?thesis using ag inv by (auto simp: phase_notes intro!: same)
  qed
qed

lemma ajax_inv_new: "ajax_inv w \<Longrightarrow> ajax_inv (w\<lparr>aw_calls := aw_calls w @ [new_call g]\<rparr>)"
proof -
  assume inv: "ajax_inv w"
  have "filter (\<lambda>n. note_call n = Some (length (aw_calls w))) (aw_log w) = []"
    using inv by (force simp: ajax_inv_def filter_empty_conv)
  then show ?thesis
    using inv by (auto simp: ajax_inv_def new_call_def phase_notes nth_append less_Suc_eq)
qed

lemma ajax_step_inv: "ajax_inv w \<Longrightarrow> ajax_inv (ajax_step e w)"
  using call_event_inv ajax_inv_new by (cases e) (auto simp: ajax_step_def simp del: call_event.simps)

lemma ajax_run_inv: "ajax_inv w \<Longrightarrow> ajax_inv (fold ajax_step es w)"
  by (induction es arbitrary: w) (simp_all add: ajax_step_inv)

lemma new_world_inv: "ajax_inv new_world"
  by (simp add: ajax_inv_def new_world_def)

section \<open>Stamps\<close>

definition more_fields :: "(string \<times> string) list \<Rightarrow> string" where
  "more_fields fs = concat (map (\<lambda>f. CHR ''&'' # plus_field f) fs)"

lemma join_plus_fields: "join_with ''&'' (map plus_field (f # fs)) = plus_field f @ more_fields fs"
  by (induction fs arbitrary: f) (simp_all add: more_fields_def)

definition query_start :: "char \<Rightarrow> bool" where
  "query_start x \<longleftrightarrow> x = CHR ''?'' \<or> x = CHR ''&''"

lemma has_stamp_skip: "\<not> query_start a \<Longrightarrow> has_stamp (a # s) = has_stamp s"
  by (cases "(a # s)" rule: has_stamp.cases) (auto simp: query_start_def)

lemma has_stamp_plain: "list_all (\<lambda>x. \<not> query_start x) s \<Longrightarrow> has_stamp (s @ r) = has_stamp r"
  by (induction s) (simp_all add: has_stamp_skip)

lemma replace_stamp_skip: "\<not> query_start a \<Longrightarrow> replace_stamp v (a # s) = a # replace_stamp v s"
  by (cases "(v, a # s)" rule: replace_stamp.cases) (auto simp: query_start_def)

lemma replace_stamp_plain: "list_all (\<lambda>x. \<not> query_start x) s \<Longrightarrow> replace_stamp v (s @ r) = s @ replace_stamp v r"
  by (induction s) (simp_all add: replace_stamp_skip)

lemma plus_char_start: "list_all (\<lambda>x. \<not> query_start x) (plus_char c)"
proof -
  have b: "list_all (\<lambda>x. \<not> query_start x) (percent_byte k)" if "k < 256" for k
    using hex_digit_plain [of "k div 16"] hex_digit_plain [of "k mod 16"] less_mult_imp_div_less [of k 16 16] that
    by (auto simp: percent_byte_def query_start_def char_eq_code of_hex_digit split: if_splits)
  have "unreserved c \<Longrightarrow> \<not> query_start c" by (auto simp: unreserved_def query_start_def Let_def)
  moreover have "\<not> query_start CHR ''+''" by (simp add: query_start_def)
  moreover have "(of_char c :: nat) < 256" by simp
  ultimately show ?thesis
    using b [of "of_char c"] b [OF two_bytes(1) [of c]] b [OF two_bytes(2) [of c]]
    by (auto simp: plus_char_def encode_char_def Let_def)
qed

lemma plus_field_start: "list_all (\<lambda>x. \<not> query_start x) (plus_field f)"
  using plus_char_start by (auto simp: plus_field_def list_all_iff query_start_def)

lemma plus_char_hd: "\<exists>a s. plus_char c = a # s \<and> a \<noteq> CHR ''='' \<and> (a = CHR ''_'' \<longleftrightarrow> c = CHR ''_'') \<and> (c = CHR ''_'' \<longrightarrow> s = [])"
proof (cases "unreserved c")
  case True
  then show ?thesis using unreserved_plain [OF True] by (auto simp: plus_char_def encode_char_def)
next
  case False
  have "unreserved CHR ''_''" by (simp add: unreserved_def)
  then have "c \<noteq> CHR ''_''" using False by blast
  then show ?thesis using False by (auto simp: plus_char_def encode_char_def Let_def percent_byte_def)
qed

text \<open>A field whose text starts like a stamp is one with that name.\<close>

lemma plus_field_stamp:
  "(\<exists>s. plus_field f = CHR ''_'' # CHR ''='' # s) \<longleftrightarrow> fst f = ''_''"
proof (cases "fst f")
  case Nil
  then show ?thesis by (simp add: plus_field_def)
next
  case (Cons c cs)
  obtain a s where a: "plus_char c = a # s" "a = CHR ''_'' \<longleftrightarrow> c = CHR ''_''" "c = CHR ''_'' \<longrightarrow> s = []"
    using plus_char_hd [of c] by blast
  show ?thesis
  proof (cases cs)
    case Nil
    then show ?thesis using a Cons by (auto simp: plus_field_def)
  next
    case (Cons d ds)
    obtain b u where "plus_char d = b # u" "b \<noteq> CHR ''=''" using plus_char_hd [of d] by blast
    then show ?thesis using a Cons \<open>fst f = c # cs\<close> by (auto simp: plus_field_def)
  qed
qed

lemma has_stamp_field:
  assumes "query_start x"
  shows "has_stamp (x # plus_field f @ s) \<longleftrightarrow> fst f = ''_'' \<or> has_stamp s"
proof -
  have "has_stamp (x # r) \<longleftrightarrow> (\<exists>t. r = CHR ''_'' # CHR ''='' # t) \<or> has_stamp r" for r
    using assms by (cases "(x # r)" rule: has_stamp.cases) (auto simp: query_start_def)
  moreover have "(\<exists>t. plus_field f @ s = CHR ''_'' # CHR ''='' # t) \<longleftrightarrow> (\<exists>t. plus_field f = CHR ''_'' # CHR ''='' # t)"
  proof -
    have "CHR ''='' \<in> set (plus_field f)" by (simp add: plus_field_def)
    then show ?thesis by (cases "plus_field f"; cases "tl (plus_field f)") auto
  qed
  ultimately show ?thesis by (simp add: plus_field_stamp has_stamp_plain plus_field_start)
qed

lemma has_stamp_more: "has_stamp (more_fields fs) \<longleftrightarrow> ''_'' \<in> fst ` set fs"
  by (induction fs) (auto simp: more_fields_def has_stamp_field query_start_def)

text \<open>What a stamp makes of a list of fields.\<close>

fun overwrite_first :: "string \<Rightarrow> string \<Rightarrow> (string \<times> string) list \<Rightarrow> (string \<times> string) list" where
  "overwrite_first k v [] = []"
| "overwrite_first k v (f # fs) = (if fst f = k then (k, v) # fs else f # overwrite_first k v fs)"

definition stamped :: "string \<Rightarrow> (string \<times> string) list \<Rightarrow> (string \<times> string) list" where
  "stamped v fs = (if ''_'' \<in> fst ` set fs then overwrite_first ''_'' v fs else fs @ [(''_'', v)])"

lemma plus_digits: "list_all is_digit v \<Longrightarrow> concat (map plus_char v) = v"
proof (induction v)
  case (Cons c v)
  have "unreserved c" "c \<noteq> CHR '' ''" using Cons.prems by (auto simp: unreserved_def is_digit_def Let_def)
  then show ?case using Cons by (simp add: plus_char_def encode_char_def)
qed simp

lemma plus_stamp: "list_all is_digit v \<Longrightarrow> plus_field (''_'', v) = CHR ''_'' # CHR ''='' # v"
  by (simp add: plus_field_def plus_digits) (simp add: plus_char_def encode_char_def unreserved_def)

lemma more_fields_start: "dropWhile (\<lambda>x. x \<noteq> CHR ''&'') (more_fields fs) = more_fields fs"
  by (cases fs) (simp_all add: more_fields_def)

lemma replace_stamp_field:
  assumes "query_start x" and "list_all is_digit v"
  shows "replace_stamp v (x # plus_field f @ more_fields fs) =
    (if fst f = ''_'' then x # plus_field (''_'', v) @ more_fields fs else x # plus_field f @ replace_stamp v (more_fields fs))"
proof (cases "fst f = ''_''")
  case True
  then obtain t where t: "plus_field f = CHR ''_'' # CHR ''='' # t" using plus_field_stamp by blast
  have "list_all (\<lambda>x. x \<noteq> CHR ''&'') (plus_field f)" using plus_field_plain [of f] by (auto simp: list_all_iff)
  then have "dropWhile (\<lambda>x. x \<noteq> CHR ''&'') (t @ more_fields fs) = more_fields fs"
    by (simp add: t list_all_iff dropWhile_append2 more_fields_start)
  then show ?thesis using True assms by (simp add: t plus_stamp query_start_def)
next
  case False
  have "replace_stamp v (x # r) = x # replace_stamp v r" if "\<nexists>t. r = CHR ''_'' # CHR ''='' # t" for r
    using that by (cases "(v, x # r)" rule: replace_stamp.cases) auto
  moreover have "\<nexists>t. plus_field f @ more_fields fs = CHR ''_'' # CHR ''='' # t"
  proof -
    have "CHR ''='' \<in> set (plus_field f)" by (simp add: plus_field_def)
    then show ?thesis using plus_field_stamp [of f] False by (cases "plus_field f"; cases "tl (plus_field f)") auto
  qed
  ultimately show ?thesis using False by (simp add: replace_stamp_plain plus_field_start)
qed

lemma replace_stamp_more:
  "list_all is_digit v \<Longrightarrow> ''_'' \<in> fst ` set fs \<Longrightarrow> replace_stamp v (more_fields fs) = more_fields (overwrite_first ''_'' v fs)"
proof (induction fs)
  case (Cons f fs)
  have e: "more_fields (g # fs) = CHR ''&'' # plus_field g @ more_fields fs" for g fs by (simp add: more_fields_def)
  have q: "query_start CHR ''&''" by (simp add: query_start_def)
  show ?case
  proof (cases "fst f = ''_''")
    case True
    then show ?thesis unfolding e replace_stamp_field [OF q Cons.prems(1)] by (simp add: e)
  next
    case False
    then have "''_'' \<in> fst ` set fs" using Cons.prems(2) by auto
    then have "replace_stamp v (more_fields fs) = more_fields (overwrite_first ''_'' v fs)" using Cons by blast
    then show ?thesis using False unfolding e replace_stamp_field [OF q Cons.prems(1)] by (simp add: e)
  qed
qed simp

lemma overwrite_absent: "k \<notin> fst ` set fs \<Longrightarrow> overwrite_first k v fs = fs"
  by (induction fs) auto

lemma stamp_query:
  assumes "list_all (\<lambda>x. \<not> query_start x) url"
  shows "\<exists>gs. stamp_url nonce (if fs = [] then url else add_query url (param fs)) = url @ CHR ''?'' # param gs \<and>
    gs = stamped (nat_to_string nonce) fs"
proof -
  let ?v = "nat_to_string nonce"
  have q: "query_start CHR ''?''" by (simp add: query_start_def)
  have nq: "CHR ''?'' \<notin> set url" using assms by (auto simp: list_all_iff query_start_def)
  have pm: "param (f # gs) = plus_field f @ more_fields gs" for f gs
    by (simp only: param_def plus_spaces_fields join_plus_fields)
  show ?thesis
  proof (cases fs)
    case Nil
    have "\<not> has_stamp url" using has_stamp_plain [OF assms, of "[]"] by simp
    then show ?thesis using Nil nq pm [of "(''_'', ?v)" "[]"]
      by (simp add: stamp_url_def add_query_def stamped_def plus_stamp more_fields_def)
  next
    case (Cons f rest)
    have u: "add_query url (param fs) = url @ CHR ''?'' # plus_field f @ more_fields rest"
      using nq by (simp add: add_query_def Cons pm)
    have h: "has_stamp (url @ CHR ''?'' # plus_field f @ more_fields rest) \<longleftrightarrow> ''_'' \<in> fst ` set fs"
      by (auto simp: has_stamp_plain [OF assms] has_stamp_field [OF q] has_stamp_more Cons)
    show ?thesis
    proof (cases "''_'' \<in> fst ` set fs")
      case True
      have "replace_stamp ?v (url @ CHR ''?'' # plus_field f @ more_fields rest) =
          url @ CHR ''?'' # param (overwrite_first ''_'' ?v fs)"
      proof (cases "fst f = ''_''")
        case True
        then show ?thesis
          by (simp add: replace_stamp_plain [OF assms] replace_stamp_field [OF q] Cons pm del: replace_stamp.simps)
      next
        case False
        then have "''_'' \<in> fst ` set rest" using \<open>''_'' \<in> fst ` set fs\<close> Cons by auto
        then show ?thesis using False
          by (simp add: replace_stamp_plain [OF assms] replace_stamp_field [OF q] Cons pm replace_stamp_more del: replace_stamp.simps)
      qed
      then show ?thesis using True h by (simp add: Cons u [unfolded Cons] stamp_url_def stamped_def del: replace_stamp.simps has_stamp.simps)
    next
      case False
      have "more_fields (rest @ [(''_'', ?v)]) = more_fields rest @ CHR ''&'' # plus_field (''_'', ?v)" by (simp add: more_fields_def)
      then show ?thesis using False h nq
        by (simp add: Cons u [unfolded Cons] stamp_url_def stamped_def pm add_query_def plus_stamp del: replace_stamp.simps has_stamp.simps)
    qed
  qed
qed

lemma read_query_Nil: "read_query [] = []"
  by (simp add: read_query_def)

section \<open>Properties\<close>

text \<open>The address of a request without a body carries its fields whole: what is read after the question mark is the
  list of fields, and with it the stamp where caching is off. The stamp takes the place of the value of a field of
  the caller that is named \<open>_\<close>, which is then lost.\<close>

theorem address_carries_fields:
  assumes "list_all (\<lambda>x. \<not> query_start x) (call_url po (ac_url c))" and "ac_data c = Data_Fields fs"
    and "\<not> has_content (pr_type (prepare po nonce c))"
  shows "read_query (tl (dropWhile (\<lambda>x. x \<noteq> CHR ''?'') (pr_url (prepare po nonce c)))) =
      (if ac_cache c = Some False \<or> ac_cache c = None \<and> first_data_type (ac_data_type c) = ''script''
       then stamped (nat_to_string nonce) fs else fs) \<and>
    pr_body (prepare po nonce c) = None"
proof -
  let ?url = "call_url po (ac_url c)"
  let ?url1 = "if fs = [] then ?url else add_query ?url (param fs)"
  have nq: "CHR ''?'' \<notin> set ?url" using assms(1) by (auto simp: list_all_iff query_start_def)
  have tail: "tl (dropWhile (\<lambda>x. x \<noteq> CHR ''?'') (?url @ CHR ''?'' # q)) = q" for q
    using nq by (subst dropWhile_append2) auto
  have none: "tl (dropWhile (\<lambda>x. x \<noteq> CHR ''?'') ?url) = []"
  proof -
    have "dropWhile (\<lambda>x. x \<noteq> CHR ''?'') ?url = []" unfolding dropWhile_eq_Nil_conv using nq by blast
    then show ?thesis by (simp only: list.sel)
  qed
  have d: "(case data_text (ac_data c) of Some (x # xs) \<Rightarrow> Some (x # xs) | _ \<Rightarrow> None) = (if fs = [] then None else Some (param fs))"
  proof (cases "fs = []")
    case True
    then show ?thesis using assms(2) by (simp add: data_text_def param_def)
  next
    case False
    then have "param fs \<noteq> []" using join_plus_nonempty by (simp add: param_def plus_spaces_fields)
    then obtain a q where "param fs = a # q" by (meson neq_Nil_conv)
    then show ?thesis using False unfolding assms(2) data_text_def by simp
  qed
  have cache: "ac_cache (script_prefilter c b) = Some False \<longleftrightarrow>
      ac_cache c = Some False \<or> ac_cache c = None \<and> first_data_type (ac_data_type c) = ''script''" for b
    by (auto simp: script_prefilter_def split: option.splits)
  define cross where "cross = (case ac_cross c of Some b \<Rightarrow> b | None \<Rightarrow> cross_domain (po_origin po) ?url)"
  define stamping where "stamping \<longleftrightarrow> ac_cache (script_prefilter c cross) = Some False"
  have nc: "\<not> has_content (map upper (ac_type (script_prefilter c cross)))"
    using assms(3) by (simp add: prepare_def Let_def cross_def split: if_splits)
  then have url: "pr_url (prepare po nonce c) = (if stamping then stamp_url nonce ?url1 else ?url1)" "pr_body (prepare po nonce c) = None"
    unfolding prepare_def Let_def d cross_def [symmetric] stamping_def by simp_all
  obtain gs where gs: "stamp_url nonce ?url1 = ?url @ CHR ''?'' # param gs" "gs = stamped (nat_to_string nonce) fs"
    using stamp_query [OF assms(1)] by blast
  have "?url1 = (if fs = [] then ?url else ?url @ CHR ''?'' # param fs)" using nq by (simp add: add_query_def)
  then have "read_query (tl (dropWhile (\<lambda>x. x \<noteq> CHR ''?'') ?url1)) = fs"
    using none read_query_Nil by (cases "fs = []") (simp_all only: tail read_param if_True if_False simp_thms)
  moreover have "read_query (tl (dropWhile (\<lambda>x. x \<noteq> CHR ''?'') (stamp_url nonce ?url1))) = stamped (nat_to_string nonce) fs"
    unfolding gs(1) tail read_param by (rule gs(2))
  ultimately show ?thesis unfolding url cache [of cross, folded stamping_def, symmetric] by simp
qed

text \<open>C23. In whatever order requests make their steps, the counter of requests under way is the number of those counted
  and not over, less those settled twice because a handler of \<open>ajaxSend\<close> aborted them. Where there are none of these,
  \<open>ajaxStart\<close> and \<open>ajaxStop\<close> alternate and the last is a start exactly when a request is under way. Each request
  settled once has had the calls and events of its course, each once and in order.\<close>

theorem requests_counted:
  "aw_active (fold ajax_step es new_world) =
     int (length (filter under_way (aw_calls (fold ajax_step es new_world)))) -
     int (length (filter jx_again (aw_calls (fold ajax_step es new_world)))) \<and>
   ((\<forall>x \<in> set (aw_calls (fold ajax_step es new_world)). \<not> jx_again x) \<longrightarrow>
      start_stop False (aw_log (fold ajax_step es new_world)) = Some (0 < aw_active (fold ajax_step es new_world))) \<and>
   (\<forall>i < length (aw_calls (fold ajax_step es new_world)).
      jx_again (aw_calls (fold ajax_step es new_world) ! i) \<or>
      due_notes i (aw_calls (fold ajax_step es new_world) ! i)
        (filter (\<lambda>n. note_call n = Some i) (aw_log (fold ajax_step es new_world))))"
proof -
  have "sum_list (map weight xs) = int (length (filter under_way xs)) - int (length (filter jx_again xs))" for xs
    by (induction xs) (simp_all add: weight_def)
  then show ?thesis using ajax_run_inv [OF new_world_inv, of es] by (simp add: ajax_inv_def)
qed

theorem requests_counted_witness:
  "aw_active (fold ajax_step [New_Call True, Count_Call 0, New_Call True, Count_Call 1, Send_Call 0 True, Refuse 1] new_world) = 2"
proof -
  let ?es = "[New_Call True, Count_Call 0, New_Call True, Count_Call 1, Send_Call 0 True, Refuse 1]"
  have "map (\<lambda>x. (under_way x, jx_again x)) (aw_calls (fold ajax_step ?es new_world)) = [(True, False), (True, False)]" by code_simp
  then have "length (filter under_way (aw_calls (fold ajax_step ?es new_world))) = 2"
    "length (filter jx_again (aw_calls (fold ajax_step ?es new_world))) = 0"
    by (auto simp: map_eq_Cons_conv)
  then show ?thesis using requests_counted [of ?es] by simp
qed

text \<open>A callback that throws leaves its request counted, so that \<open>ajaxStop\<close> never comes again.\<close>

lemma broken_stays:
  assumes "ajax_inv w" and "x \<in> set (aw_calls w)" and "jx_phase x = Broken" and "jx_global x"
    and "\<forall>y \<in> set (aw_calls (ajax_step e w)). \<not> jx_again y"
  shows "x \<in> set (aw_calls (ajax_step e w)) \<and> (\<exists>ns. aw_log (ajax_step e w) = aw_log w @ ns \<and> Ajax_Stop \<notin> set ns)"
proof -
  obtain i where i: "i < length (aw_calls w)" "aw_calls w ! i = x" using assms(2) by (metis in_set_conv_nth)
  have kept: "x \<in> set (aw_calls (call_event e j (aw_calls w ! j) w))" if "j < length (aw_calls w)" for j
  proof (cases "j = i")
    case True
    then show ?thesis using assms(2,3) i by (cases e) auto
  next
    case False
    have "x \<in> set ((aw_calls w)[j := y])" for y using False i by (metis length_list_update nth_list_update_neq nth_mem)
    then show ?thesis using assms(2) by (cases e) (simp_all add: put_call_def settle_call_def)
  qed
  have x: "x \<in> set (aw_calls (ajax_step e w))"
    using kept assms(2) by (cases e) (auto simp: ajax_step_def simp del: call_event.simps)
  have "0 < aw_active (ajax_step e w)"
    using ajax_step_inv [OF assms(1), of e] under_way_counted [OF assms(5) x] assms(3,4) by (simp add: ajax_inv_def under_way_def)
  then have "\<exists>ns. aw_log (ajax_step e w) = aw_log w @ ns \<and> Ajax_Stop \<notin> set ns"
    by (cases e) (auto simp: ajax_step_def put_call_def settle_call_def split: if_splits)
  then show ?thesis using x by blast
qed

lemma again_stays: "\<exists>y \<in> set (aw_calls w). jx_again y \<Longrightarrow> \<exists>y \<in> set (aw_calls (ajax_step e w)). jx_again y"
proof -
  assume "\<exists>y \<in> set (aw_calls w). jx_again y"
  then obtain j where j: "j < length (aw_calls w)" "jx_again (aw_calls w ! j)" by (metis in_set_conv_nth)
  have put: "\<exists>y \<in> set ((aw_calls w)[i := x]). jx_again y" if "i < length (aw_calls w)" and "jx_again (aw_calls w ! i) \<Longrightarrow> jx_again x" for i x
    using that j by (metis length_list_update nth_list_update nth_mem)
  have "\<exists>y \<in> set (aw_calls (call_event e i (aw_calls w ! i) w)). jx_again y" if "i < length (aw_calls w)" for i
    using put [OF that] \<open>\<exists>y \<in> set (aw_calls w). jx_again y\<close> by (cases e) (simp_all add: put_call_def settle_call_def)
  then show ?thesis using \<open>\<exists>y \<in> set (aw_calls w). jx_again y\<close>
    by (cases e) (auto simp: ajax_step_def simp del: call_event.simps)
qed

lemma again_stays_run: "\<forall>y \<in> set (aw_calls (fold ajax_step es w)). \<not> jx_again y \<Longrightarrow> \<forall>y \<in> set (aw_calls w). \<not> jx_again y"
  using again_stays by (induction es arbitrary: w) (simp, simp, blast)

lemma broken_run:
  assumes "ajax_inv w" and "x \<in> set (aw_calls w)" and "jx_phase x = Broken" and "jx_global x"
    and "\<forall>y \<in> set (aw_calls (fold ajax_step es w)). \<not> jx_again y"
  shows "\<exists>ns. aw_log (fold ajax_step es w) = aw_log w @ ns \<and> Ajax_Stop \<notin> set ns"
  using assms(1,2,5)
proof (induction es arbitrary: w)
  case (Cons e es)
  have n: "\<forall>y \<in> set (aw_calls (ajax_step e w)). \<not> jx_again y" using again_stays_run Cons.prems(3) by simp
  obtain ns where ns: "x \<in> set (aw_calls (ajax_step e w))" "aw_log (ajax_step e w) = aw_log w @ ns" "Ajax_Stop \<notin> set ns"
    using broken_stays [OF Cons.prems(1,2) assms(3,4) n] by blast
  obtain ms where "aw_log (fold ajax_step es (ajax_step e w)) = aw_log (ajax_step e w) @ ms \<and> Ajax_Stop \<notin> set ms"
    using Cons.IH [OF ajax_step_inv [OF Cons.prems(1)] ns(1)] Cons.prems(3) by auto
  then show ?case using ns by simp
qed simp

text \<open>Once a callback of a request with global events has thrown, \<open>ajaxStop\<close> is never triggered again, whatever other
  requests do (none aborted by a handler of \<open>ajaxSend\<close>): the request stays counted for ever.\<close>

theorem throwing_callback_blocks_stop:
  assumes "w = fold ajax_step before new_world" and "x \<in> set (aw_calls w)" and "jx_phase x = Broken" and "jx_global x"
    and "\<forall>y \<in> set (aw_calls (fold ajax_step after w)). \<not> jx_again y"
  shows "\<exists>ns. aw_log (fold ajax_step after w) = aw_log w @ ns \<and> Ajax_Stop \<notin> set ns"
  using broken_run [OF _ assms(2-5)] ajax_run_inv [OF new_world_inv, of before] assms(1) by simp

definition sample_life :: "nat \<Rightarrow> ajax_event list" where
  "sample_life i =
     [New_Call True, Count_Call i, Send_Call i True, Hand_Over i, Done i True, Announce i, Complete i, Finish i]"

theorem throwing_callback_blocks_stop_witness:
  "\<exists>ns. aw_log (fold ajax_step (sample_life 1) (fold ajax_step (take 5 (sample_life 0) @ [Callback_Throws 0]) new_world)) =
      aw_log (fold ajax_step (take 5 (sample_life 0) @ [Callback_Throws 0]) new_world) @ ns \<and> Ajax_Stop \<notin> set ns"
proof -
  let ?w = "fold ajax_step (take 5 (sample_life 0) @ [Callback_Throws 0]) new_world"
  have x: "aw_calls ?w = [\<lparr>jx_phase = Broken, jx_global = True, jx_installed = True, jx_sent = True, jx_ok = True,
      jx_handing = False, jx_again = False\<rparr>]" by code_simp
  have "list_all (\<lambda>y. \<not> jx_again y) (aw_calls (fold ajax_step (sample_life 1) ?w))" by code_simp
  then show ?thesis
    using throwing_callback_blocks_stop [OF refl, of _ "take 5 (sample_life 0) @ [Callback_Throws 0]" "sample_life 1"] x
    by (simp add: list_all_iff)
qed

text \<open>A request aborted by a handler of \<open>ajaxSend\<close> is taken off the counter twice; the next one has no \<open>ajaxStart\<close>.\<close>

lemma abort_in_send_handler_miscounts:
  "let w = fold ajax_step
       ([New_Call True, Count_Call 0, Send_Call 0 True, Abort 0, Announce 0, Complete 0, Finish 0, Hand_Over 0, Announce 0,
         Complete 0, Finish 0]) new_world
   in aw_active w = - 1 \<and>
     aw_log (fold ajax_step (sample_life 1) w) =
       aw_log w @ [Ajax_Send 1, Call_Success 1, Ajax_Success 1, Call_Complete 1, Ajax_Complete 1]"
  by code_simp

definition sample_page_origin :: page_origin where
  "sample_page_origin =
     \<lparr>po_location = ''http://host/users'', po_origin = \<lparr>og_scheme = ''http:'', og_host = Some ''host'', og_port = None\<rparr>\<rparr>"

theorem address_carries_fields_witness:
  "read_query (tl (dropWhile (\<lambda>x. x \<noteq> CHR ''?'') (pr_url (prepare sample_page_origin 7
      \<lparr>ac_url = Some ''/search'', ac_type = ''get'', ac_data = Data_Fields [(''q'', ''a?b&c''), (''_'', ''x'')],
       ac_data_type = Some ''script'', ac_cross = None, ac_cache = None, ac_global = True\<rparr>)))) =
    [(''q'', ''a?b&c''), (''_'', ''7'')]"
proof -
  let ?c = "\<lparr>ac_url = Some ''/search'', ac_type = ''get'', ac_data = Data_Fields [(''q'', ''a?b&c''), (''_'', ''x'')],
       ac_data_type = Some ''script'', ac_cross = None, ac_cache = None, ac_global = True\<rparr>"
  have "list_all (\<lambda>x. \<not> query_start x) (call_url sample_page_origin (ac_url ?c))" by code_simp
  moreover have "\<not> has_content (pr_type (prepare sample_page_origin 7 ?c))" by code_simp
  moreover have "first_data_type (ac_data_type ?c) = ''script''" by code_simp
  moreover have "stamped (nat_to_string 7) [(''q'', ''a?b&c''), (''_'', ''x'')] = [(''q'', ''a?b&c''), (''_'', ''7'')]" by code_simp
  ultimately show ?thesis using address_carries_fields [of sample_page_origin ?c "[(''q'', ''a?b&c''), (''_'', ''x'')]" 7] by simp
qed

end
