(* ===== verification/Rails_Ujs.thy ===== *)
theory Rails_Ujs
  imports JQuery_Event Ajax
begin

text \<open>
  jquery_ujs of the deployed bundle, which makes links, buttons and forms with \<open>data-\<close> attributes ask for
  confirmation, send themselves by \<open>ajax\<close> and lock themselves meanwhile. Its handlers are bound on the document and
  get their events through \<open>jQuery.event\<close>; requests are prepared by \<open>jQuery.ajax\<close>. What the handlers of the
  application answer to the events ujs fires, and the user to a confirmation, is the parameter \<open>rails_client\<close> of each
  step; what becomes of a form with files is the parameter \<open>hook\<close>. The headers for the accepted types are left out,
  and so are the fields a fieldset disables.
\<close>

section \<open>Attributes\<close>

definition data_attr :: "page_element \<Rightarrow> string \<Rightarrow> string option" where
  "data_attr e a = attr e (''data-'' @ a)"

text \<open>jQuery reads some texts as numbers, booleans or \<open>null\<close>; these are false.\<close>

definition falsy_text :: "string \<Rightarrow> bool" where
  "falsy_text s \<longleftrightarrow> s \<in> {'''', ''0'', ''false'', ''null'', ''NaN''}"

definition truthy_data :: "page_element \<Rightarrow> string \<Rightarrow> string option" where
  "truthy_data e a = (case data_attr e a of Some s \<Rightarrow> if falsy_text s then None else Some s | None \<Rightarrow> None)"

definition has_data :: "page_element \<Rightarrow> string \<Rightarrow> bool" where
  "has_data e a \<longleftrightarrow> data_attr e a \<noteq> None"

datatype rails_selector =
    Link_Clicks
  | Button_Clicks
  | Input_Changes
  | Forms
  | Form_Input_Clicks
  | Link_Disables
  | Button_Disables

definition disables :: "page_element \<Rightarrow> bool" where
  "disables e \<longleftrightarrow> has_data e ''disable-with'' \<or> has_data e ''disable''"

definition typed :: "page_element \<Rightarrow> string \<Rightarrow> bool" where
  "typed e t \<longleftrightarrow> attr e ''type'' = Some t"

definition submits :: "page_element \<Rightarrow> bool" where
  "submits e \<longleftrightarrow>
     pe_tag e = ''input'' \<and> (typed e ''submit'' \<or> typed e ''image'') \<or>
     pe_tag e = ''button'' \<and> (typed e ''submit'' \<or> attr e ''type'' = None)"

fun rails_matches :: "rails_selector \<Rightarrow> page_element \<Rightarrow> bool" where
  "rails_matches Link_Clicks e \<longleftrightarrow>
     pe_tag e = ''a'' \<and> (has_data e ''confirm'' \<or> has_data e ''method'' \<or> has_data e ''remote'' \<or> disables e)"
| "rails_matches Button_Clicks e \<longleftrightarrow>
     pe_tag e = ''button'' \<and> (has_data e ''remote'' \<or> has_data e ''confirm'') \<and> pe_in_form e = None"
| "rails_matches Input_Changes e \<longleftrightarrow> pe_tag e \<in> {''select'', ''input'', ''textarea''} \<and> has_data e ''remote''"
| "rails_matches Forms e \<longleftrightarrow> pe_tag e = ''form''"
| "rails_matches Form_Input_Clicks e \<longleftrightarrow> submits e \<and> (pe_in_form e \<noteq> None \<or> has_attr e ''form'')"
| "rails_matches Link_Disables e \<longleftrightarrow> pe_tag e = ''a'' \<and> disables e"
| "rails_matches Button_Disables e \<longleftrightarrow> pe_tag e = ''button'' \<and> has_data e ''remote'' \<and> disables e"

section \<open>The page\<close>

text \<open>What does not change: the elements, their ancestors from the parent up, the address and the tokens.\<close>

record rails_doc =
  rd_elements :: "page_element list"
  rd_above :: "nat \<Rightarrow> page_element list"
  rd_origin :: page_origin
  rd_param :: "string option"
  rd_token :: "string option"

datatype rails_fired =
    Ajax_Before
  | Ajax_Before_Send
  | Ajax_Sent
  | Ajax_Succeeded
  | Ajax_Failed
  | Ajax_Completed
  | Confirm_Asks
  | Confirm_Done bool
  | Aborted_Required "nat list"
  | Aborted_File "nat list"
  | Everything_Stopped
  | Remotipart_Submit

record rails_request =
  rq_call :: prepared
  rq_data :: ajax_data
  rq_token :: "string option"
  rq_credentials :: bool

text \<open>The form \<open>handleMethod\<close> sends: address, method, token with its name, target.\<close>

record method_form =
  mf_action :: "string option"
  mf_method :: string
  mf_token :: "(string \<times> string) option"
  mf_target :: "string option"

datatype rails_note =
    Fired rails_fired nat
  | Asked string bool
  | Requested nat rails_request
  | Sent_Form method_form
  | Browser_Acts string nat
  | Posted nat string "(string \<times> string) list" "nat list"

datatype after_error = Nothing_More | Enable_Link | Enable_Button

text \<open>
  A form sent through a frame by remotipart (\<open>Remote_Upload\<close>): the form it was made from, its address and hidden
  fields, the file inputs it has taken, the types of data expected, and whether the frame is empty, has posted the
  form or is being closed.
\<close>

datatype frame_phase = Frame_Empty | Frame_Posted | Frame_Closing

record upload =
  ul_form :: nat
  ul_url :: string
  ul_fields :: "(string \<times> string) list"
  ul_files :: "nat list"
  ul_types :: "string list"
  ul_phase :: frame_phase

text \<open>The handlers of \<open>ajax:beforeSend\<close> that remotipart binds for one time keep the button of their submission.\<close>

record rails_page =
  rp_elements :: "nat \<Rightarrow> element_state"
  rp_enable_with :: "nat \<Rightarrow> string option"
  rp_blocks :: "nat \<Rightarrow> nat"
  rp_button :: "nat \<Rightarrow> (string \<times> string) option"
  rp_pending :: "(nat \<times> after_error) list"
  rp_timers :: "(bool \<times> nat) list"
  rp_nonce :: nat
  rp_once :: "nat \<Rightarrow> (string \<times> string) option list"
  rp_uploads :: "upload list"
  rp_log :: "rails_note list"

text \<open>
  Whether a handler of the application returns false for an event, or stops it, what the user confirms, and what
  handlers bound to the element itself do before a request is sent.
\<close>

record rails_client =
  rc_false :: "rails_fired \<Rightarrow> nat \<Rightarrow> bool"
  rc_stops :: "rails_fired \<Rightarrow> nat \<Rightarrow> bool"
  rc_yes :: "string \<Rightarrow> bool"
  rc_own :: "page_element \<Rightarrow> rails_request \<Rightarrow> rails_page \<Rightarrow> rails_page \<times> bool"

definition add_note :: "rails_note \<Rightarrow> rails_page \<Rightarrow> rails_page" where
  "add_note x s = s\<lparr>rp_log := rp_log s @ [x]\<rparr>"

definition put_element :: "nat \<Rightarrow> (element_state \<Rightarrow> element_state) \<Rightarrow> rails_page \<Rightarrow> rails_page" where
  "put_element i f s = s\<lparr>rp_elements := (rp_elements s)(i := f (rp_elements s i))\<rparr>"

text \<open>\<open>fire\<close>: the event and whether nothing returned false.\<close>

definition fire_event :: "rails_client \<Rightarrow> rails_fired \<Rightarrow> nat \<Rightarrow> rails_page \<Rightarrow> rails_page \<times> bool" where
  "fire_event c ev i s = (add_note (Fired ev i) s, \<not> rc_false c ev i)"

definition allow_action :: "rails_client \<Rightarrow> page_element \<Rightarrow> rails_page \<Rightarrow> rails_page \<times> bool" where
  "allow_action c e s =
     (case truthy_data e ''confirm'' of
        None \<Rightarrow> (s, True)
      | Some msg \<Rightarrow>
          let (s1, asks) = fire_event c Confirm_Asks (pe_id e) s in
            if asks
            then let answer = rc_yes c msg;
                     (s2, goes_on) = fire_event c (Confirm_Done answer) (pe_id e) (add_note (Asked msg answer) s1)
                 in (s2, answer \<and> goes_on)
            else (s1, False))"

section \<open>Locking\<close>

definition text_of :: "page_element \<Rightarrow> rails_page \<Rightarrow> string" where
  "text_of e s =
     (if pe_tag e = ''button'' \<or> pe_tag e = ''a'' then es_html (rp_elements s (pe_id e))
      else case es_value (rp_elements s (pe_id e)) of Single v \<Rightarrow> v | _ \<Rightarrow> [])"

definition set_text :: "page_element \<Rightarrow> string \<Rightarrow> rails_page \<Rightarrow> rails_page" where
  "set_text e t s =
     put_element (pe_id e)
       (\<lambda>x. if pe_tag e = ''button'' \<or> pe_tag e = ''a'' then x\<lparr>es_html := t\<rparr> else x\<lparr>es_value := Single t\<rparr>) s"

definition keep_text :: "page_element \<Rightarrow> rails_page \<Rightarrow> rails_page" where
  "keep_text e s = s\<lparr>rp_enable_with := (rp_enable_with s)(pe_id e := Some (text_of e s))\<rparr>"

definition replace_text :: "page_element \<Rightarrow> rails_page \<Rightarrow> rails_page" where
  "replace_text e s = (case data_attr e ''disable-with'' of Some t \<Rightarrow> set_text e t s | None \<Rightarrow> s)"

definition disable_element :: "page_element \<Rightarrow> rails_page \<Rightarrow> rails_page" where
  "disable_element e s =
     (let s1 = replace_text e (keep_text e s) in s1\<lparr>rp_blocks := (rp_blocks s1)(pe_id e := Suc (rp_blocks s1 (pe_id e)))\<rparr>)"

definition enable_element :: "page_element \<Rightarrow> rails_page \<Rightarrow> rails_page" where
  "enable_element e s =
     (let s1 = (case rp_enable_with s (pe_id e) of
                  Some t \<Rightarrow> (set_text e t s)\<lparr>rp_enable_with := (rp_enable_with s)(pe_id e := None)\<rparr>
                | None \<Rightarrow> s)
      in s1\<lparr>rp_blocks := (rp_blocks s1)(pe_id e := 0)\<rparr>)"

definition disable_form_element :: "page_element \<Rightarrow> rails_page \<Rightarrow> rails_page" where
  "disable_form_element e s =
     put_element (pe_id e) (\<lambda>x. x\<lparr>es_disabled := True\<rparr>) (replace_text e (keep_text e s))"

definition enable_form_element :: "page_element \<Rightarrow> rails_page \<Rightarrow> rails_page" where
  "enable_form_element e s =
     put_element (pe_id e) (\<lambda>x. x\<lparr>es_disabled := False\<rparr>)
       (case rp_enable_with s (pe_id e) of Some (c # cs) \<Rightarrow> set_text e (c # cs) s | _ \<Rightarrow> s)"

definition lockable :: "page_element \<Rightarrow> bool" where
  "lockable e \<longleftrightarrow> pe_tag e \<in> {''input'', ''button'', ''textarea''} \<and> disables e"

text \<open>The elements to lock or unlock are picked first.\<close>

definition disable_form_elements :: "rails_doc \<Rightarrow> page_element \<Rightarrow> rails_page \<Rightarrow> rails_page" where
  "disable_form_elements d form s =
     fold disable_form_element
       (filter (\<lambda>e. lockable e \<and> \<not> es_disabled (rp_elements s (pe_id e))) (form_controls (rd_elements d) form)) s"

definition enable_form_elements :: "rails_doc \<Rightarrow> page_element \<Rightarrow> rails_page \<Rightarrow> rails_page" where
  "enable_form_elements d form s =
     fold enable_form_element
       (filter (\<lambda>e. lockable e \<and> es_disabled (rp_elements s (pe_id e))) (form_controls (rd_elements d) form)) s"

section \<open>Requests\<close>

definition blank_inputs ::
  "rails_doc \<Rightarrow> page_element \<Rightarrow> (page_element \<Rightarrow> bool) \<Rightarrow> bool \<Rightarrow> rails_page \<Rightarrow> page_element list" where
  "blank_inputs d form sel non_blank s =
     (let inputs = filter (\<lambda>e. pe_in_form e = Some (pe_id form) \<and> sel e) (rd_elements d);
          box = (\<lambda>e. pe_tag e = ''input'' \<and> (typed e ''checkbox'' \<or> typed e ''radio''));
          filled = (\<lambda>e. if box e then es_checked (rp_elements s (pe_id e))
                        else es_value (rp_elements s (pe_id e)) \<notin> {No_Value, Single []});
          radio = (\<lambda>e. pe_tag e = ''input'' \<and> typed e ''radio'');
          chosen = (\<lambda>e. list_ex (\<lambda>g. radio g \<and> es_checked (rp_elements s (pe_id g)) \<and> attr g ''name'' = attr e ''name'') inputs)
      in filter (\<lambda>e. filled e = non_blank \<and> \<not> (radio e \<and> chosen e)) inputs)"

definition required_input :: "rails_page \<Rightarrow> page_element \<Rightarrow> bool" where
  "required_input s e \<longleftrightarrow>
     pe_tag e \<in> {''input'', ''textarea''} \<and> has_attr e ''name'' \<and> has_attr e ''required'' \<and> \<not> es_disabled (rp_elements s (pe_id e))"

definition file_input :: "page_element \<Rightarrow> bool" where
  "file_input e \<longleftrightarrow> pe_tag e = ''input'' \<and> typed e ''file''"

text \<open>The settings \<open>handleRemote\<close> makes, and the page without the submit button it has used.\<close>

definition with_params :: "page_element \<Rightarrow> string \<Rightarrow> string" where
  "with_params e q = (case truthy_data e ''params'' of Some p \<Rightarrow> q @ ''&'' @ p | None \<Rightarrow> q)"

definition remote_data :: "rails_doc \<Rightarrow> page_element \<Rightarrow> rails_page \<Rightarrow> ajax_data" where
  "remote_data d e s =
     (if pe_tag e = ''form''
      then Data_Fields (serialize_array (rd_elements d) (rp_elements s) e @
             (case rp_button s (pe_id e) of Some b \<Rightarrow> [b] | None \<Rightarrow> []))
      else if rails_matches Input_Changes e \<or> rails_matches Button_Clicks e
      then Query_Text (with_params e (serialize (rd_elements d) (rp_elements s) e))
      else (case truthy_data e ''params'' of Some p \<Rightarrow> Query_Text p | None \<Rightarrow> No_Data))"

definition remote_method :: "page_element \<Rightarrow> string" where
  "remote_method e =
     (case (if pe_tag e = ''form'' then attr e ''method'' else truthy_data e ''method'') of
        Some (c # cs) \<Rightarrow> c # cs
      | _ \<Rightarrow> if rails_matches Button_Clicks e \<and> \<not> rails_matches Input_Changes e then ''get'' else ''GET'')"

definition remote_url :: "page_element \<Rightarrow> string option" where
  "remote_url e =
     (if pe_tag e = ''form'' then attr e ''action''
      else if rails_matches Input_Changes e \<or> rails_matches Button_Clicks e then truthy_data e ''url''
      else attr e ''href'')"

definition remote_call :: "rails_doc \<Rightarrow> page_element \<Rightarrow> rails_page \<Rightarrow> ajax_call" where
  "remote_call d e s =
     \<lparr>ac_url = remote_url e, ac_type = remote_method e, ac_data = remote_data d e s,
      ac_data_type = truthy_data e ''type'',
      ac_cross = (case data_attr e ''cross-domain'' of
                    None \<Rightarrow> None
                  | Some v \<Rightarrow> if v = ''null'' then None else Some (\<not> falsy_text v)),
      ac_cache = None, ac_global = True\<rparr>"

text \<open>The prefilter \<open>CSRFProtection\<close>.\<close>

definition csrf_header :: "rails_doc \<Rightarrow> bool \<Rightarrow> string option" where
  "csrf_header d cross = (if cross then None else case rd_token d of Some (c # cs) \<Rightarrow> Some (c # cs) | _ \<Rightarrow> None)"

definition make_request :: "rails_doc \<Rightarrow> page_element \<Rightarrow> rails_page \<Rightarrow> rails_request" where
  "make_request d e s =
     (let pr = prepare (rd_origin d) (rp_nonce s) (remote_call d e s) in
        \<lparr>rq_call = pr, rq_data = remote_data d e s, rq_token = csrf_header d (pr_cross pr),
         rq_credentials = (truthy_data e ''with-credentials'' \<noteq> None)\<rparr>)"

text \<open>
  Where the handlers of the document for the events of a request find their form. The event passes the ancestors
  and reaches the document unless a handler of the application stops it.
\<close>

datatype rails_node = Element page_element | Document_Node

fun node_matches :: "rails_selector \<Rightarrow> rails_node \<Rightarrow> bool" where
  "node_matches sel (Element e) \<longleftrightarrow> rails_matches sel e"
| "node_matches sel Document_Node \<longleftrightarrow> False"

definition node_path :: "rails_doc \<Rightarrow> page_element \<Rightarrow> rails_node list" where
  "node_path d e = Element e # map Element (rd_above d (pe_id e)) @ [Document_Node]"

datatype rails_handler =
    Complete_Link
  | Complete_Button
  | Link_Click
  | Button_Click
  | Input_Change
  | Form_Submit
  | Form_Input_Click
  | Send_Form
  | Complete_Form
  | Link_Locked

definition rails_bindings :: "(rails_handler, rails_selector) registration list" where
  "rails_bindings =
     [(0, Complete_Link, Some Link_Disables, ''ajax:complete'', []),
      (1, Complete_Button, Some Button_Disables, ''ajax:complete'', []),
      (2, Link_Click, Some Link_Clicks, ''click'', [''rails'']),
      (3, Button_Click, Some Button_Clicks, ''click'', [''rails'']),
      (4, Input_Change, Some Input_Changes, ''change'', [''rails'']),
      (5, Form_Submit, Some Forms, ''submit'', [''rails'']),
      (6, Form_Input_Click, Some Form_Input_Clicks, ''click'', [''rails'']),
      (7, Send_Form, Some Forms, ''ajax:send'', [''rails'']),
      (8, Complete_Form, Some Forms, ''ajax:complete'', [''rails''])]"

text \<open>A locked link has as many handlers of its own as it was locked times.\<close>

definition rails_events :: "rails_page \<Rightarrow> rails_node \<Rightarrow> (rails_handler, rails_selector) element_events" where
  "rails_events s n =
     (case n of
        Document_Node \<Rightarrow> bound rails_bindings
      | Element e \<Rightarrow> bound (replicate (rp_blocks s (pe_id e)) (9, Link_Locked, None, ''click'', [''railsDisable''])))"

definition rails_leave :: "rails_page \<Rightarrow> rails_page handled" where
  "rails_leave s = \<lparr>hd_state = s, hd_prevents = False, hd_stops = False, hd_stops_now = False, hd_returns = Undefined\<rparr>"

definition rails_returns :: "bool \<Rightarrow> rails_page \<Rightarrow> rails_page handled" where
  "rails_returns b s = (rails_leave s)\<lparr>hd_returns := (if b then Other_Value else False_Value)\<rparr>"

definition stop_everything :: "nat \<Rightarrow> rails_page \<Rightarrow> rails_page handled" where
  "stop_everything target s =
     (rails_leave (add_note (Fired Everything_Stopped target) s))\<lparr>hd_stops_now := True, hd_returns := False_Value\<rparr>"

text \<open>The handlers for the events of requests; \<open>target\<close> is the element the event was fired on.\<close>

definition answer_ajax ::
  "rails_doc \<Rightarrow> nat \<Rightarrow> rails_handler \<Rightarrow> rails_node \<Rightarrow> rails_page \<Rightarrow> rails_page handled" where
  "answer_ajax d target h n s =
     (case n of
        Document_Node \<Rightarrow> rails_leave s
      | Element e \<Rightarrow>
          rails_leave
            (case h of
               Complete_Link \<Rightarrow> enable_element e s
             | Complete_Button \<Rightarrow> enable_form_element e s
             | Send_Form \<Rightarrow> if pe_id e = target then disable_form_elements d e s else s
             | Complete_Form \<Rightarrow> if pe_id e = target then enable_form_elements d e s else s
             | _ \<Rightarrow> s))"

definition ajax_event_page :: "rails_doc \<Rightarrow> nat \<Rightarrow> (rails_handler, rails_selector, rails_node, rails_page) event_page" where
  "ajax_event_page d target =
     \<lparr>ep_events = rails_events, ep_matching = node_matches, ep_disabled = (\<lambda>n. False), ep_run = answer_ajax d target\<rparr>"

definition fire_through :: "rails_client \<Rightarrow> rails_doc \<Rightarrow> rails_fired \<Rightarrow> string \<Rightarrow> page_element \<Rightarrow> rails_page \<Rightarrow> rails_page" where
  "fire_through c d ev name e s =
     (let (s1, goes_on) = fire_event c ev (pe_id e) s in
        if goes_on \<and> \<not> rc_stops c ev (pe_id e)
        then rn_state (propagate (ajax_event_page d (pe_id e)) \<lparr>ev_type = name, ev_namespaces = [], ev_button = 0\<rparr> []
               (node_path d e) (start_running s1))
        else s1)"

text \<open>\<open>ajax:beforeSend\<close>, and \<open>ajax:send\<close> when nothing refuses.\<close>

definition before_send ::
  "rails_client \<Rightarrow> rails_doc \<Rightarrow> page_element \<Rightarrow> rails_request \<Rightarrow> rails_page \<Rightarrow> rails_page \<times> bool" where
  "before_send c d e r s =
     (let (s1, goes_on) = fire_event c Ajax_Before_Send (pe_id e) s; (s2, own) = rc_own c e r s1 in
        if goes_on \<and> own then (fire_through c d Ajax_Sent ''ajax:send'' e s2, True) else (s2, False))"

datatype remote_result = Not_Sent | Refused | Started

definition handle_remote ::
  "(rails_request \<Rightarrow> rails_page \<Rightarrow> rails_page \<times> bool) \<Rightarrow> rails_client \<Rightarrow> rails_doc \<Rightarrow> page_element \<Rightarrow> rails_page \<Rightarrow> rails_page \<times> remote_result" where
  "handle_remote asked c d e s =
     (let (s1, goes_on) = fire_event c Ajax_Before (pe_id e) s in
        if \<not> goes_on then (s1, Not_Sent)
        else
          let r = make_request d e s1;
              s2 = (if pe_tag e = ''form'' then s1\<lparr>rp_button := (rp_button s1)(pe_id e := None)\<rparr> else s1);
              (s3, sends) = asked r (s2\<lparr>rp_nonce := pr_nonce (rq_call r)\<rparr>)
          in if sends
             then (add_note (Requested (pe_id e) r) (s3\<lparr>rp_pending := rp_pending s3 @ [(pe_id e, Nothing_More)]\<rparr>), Started)
             else (s3, Refused))"

definition handle_method :: "rails_doc \<Rightarrow> page_element \<Rightarrow> rails_page \<Rightarrow> rails_page" where
  "handle_method d e s =
     add_note (Sent_Form
       \<lparr>mf_action = attr e ''href'',
        mf_method = (case data_attr e ''method'' of Some m \<Rightarrow> m | None \<Rightarrow> ''undefined''),
        mf_token = (case (rd_param d, rd_token d) of (Some p, Some t) \<Rightarrow> Some (p, t) | _ \<Rightarrow> None),
        mf_target = (case attr e ''target'' of Some (x # xs) \<Rightarrow> Some (x # xs) | _ \<Rightarrow> None)\<rparr>) s"

section \<open>Handlers\<close>

text \<open>What an event carries: the target and whether a key for a new tab was held.\<close>

record rails_world =
  rw_doc :: rails_doc
  rw_client :: rails_client
  rw_hook :: "page_element \<Rightarrow> rails_page \<Rightarrow> rails_page \<times> bool"
  rw_target :: nat
  rw_meta :: bool

definition set_after :: "after_error \<Rightarrow> rails_page \<Rightarrow> rails_page" where
  "set_after a s =
     s\<lparr>rp_pending := (case rev (rp_pending s) of (i, b) # ps \<Rightarrow> rev ps @ [(i, a)] | [] \<Rightarrow> [])\<rparr>"

text \<open>A request that was not sent, or was refused, unlocks at once.\<close>

definition send_locked ::
  "rails_world \<Rightarrow> page_element \<Rightarrow> after_error \<Rightarrow> (page_element \<Rightarrow> rails_page \<Rightarrow> rails_page) \<Rightarrow> rails_page \<Rightarrow> rails_page" where
  "send_locked w e after unlock s =
     (let (s1, result) = handle_remote (before_send (rw_client w) (rw_doc w) e) (rw_client w) (rw_doc w) e s in
        if result = Started then set_after after s1 else unlock e s1)"

definition link_click :: "rails_world \<Rightarrow> page_element \<Rightarrow> rails_page \<Rightarrow> rails_page handled" where
  "link_click w e s =
     (let (s1, allowed) = allow_action (rw_client w) e s in
        if \<not> allowed then stop_everything (rw_target w) s1
        else
          let s2 = (if \<not> rw_meta w \<and> rails_matches Link_Disables e then disable_element e s1 else s1);
              m = truthy_data e ''method'' in
            if has_data e ''remote''
            then if rw_meta w \<and> (m = None \<or> m = Some ''GET'') \<and> truthy_data e ''params'' = None
                 then rails_returns True s2
                 else rails_returns False (send_locked w e Enable_Link enable_element s2)
            else if m \<noteq> None then rails_returns False (handle_method (rw_doc w) e s2)
            else rails_leave s2)"

definition button_click :: "rails_world \<Rightarrow> page_element \<Rightarrow> rails_page \<Rightarrow> rails_page handled" where
  "button_click w e s =
     (let (s1, allowed) = allow_action (rw_client w) e s in
        if \<not> allowed then stop_everything (rw_target w) s1
        else
          let s2 = (if rails_matches Button_Disables e then disable_form_element e s1 else s1)
          in rails_returns False (send_locked w e Enable_Button enable_form_element s2))"

definition input_change :: "rails_world \<Rightarrow> page_element \<Rightarrow> rails_page \<Rightarrow> rails_page handled" where
  "input_change w e s =
     (let (s1, allowed) = allow_action (rw_client w) e s in
        if \<not> allowed then stop_everything (rw_target w) s1
        else rails_returns False (fst (handle_remote (before_send (rw_client w) (rw_doc w) e) (rw_client w) (rw_doc w) e s1)))"

definition add_timer :: "bool \<Rightarrow> page_element \<Rightarrow> rails_page \<Rightarrow> rails_page" where
  "add_timer locks e s = s\<lparr>rp_timers := rp_timers s @ [(locks, pe_id e)]\<rparr>"

text \<open>Which check stops a form, if any: a missing required input that no handler lets pass.\<close>

definition check_required :: "rails_world \<Rightarrow> page_element \<Rightarrow> rails_page \<Rightarrow> rails_page \<times> bool" where
  "check_required w e s =
     (let blanks = blank_inputs (rw_doc w) e (required_input s) False s in
        if attr e ''novalidate'' = None \<and> blanks \<noteq> []
        then fire_event (rw_client w) (Aborted_Required (map pe_id blanks)) (pe_id e) s
        else (s, False))"

definition form_submit :: "rails_world \<Rightarrow> page_element \<Rightarrow> rails_page \<Rightarrow> rails_page handled" where
  "form_submit w e s =
     (let (s1, allowed) = allow_action (rw_client w) e s in
        if \<not> allowed then stop_everything (rw_target w) s1
        else
          let (s2, stops) = check_required w e s1 in
            if stops then stop_everything (rw_target w) s2
            else if has_data e ''remote''
            then
              let files = blank_inputs (rw_doc w) e file_input True s2 in
                if files \<noteq> []
                then
                  let ev = Aborted_File (map pe_id files);
                      (s3, goes_on) = fire_event (rw_client w) ev (pe_id e) (add_timer True e s2);
                      (s4, hooked) = (if goes_on \<and> \<not> rc_stops (rw_client w) ev (pe_id e) then rw_hook w e s3 else (s3, True))
                  in if goes_on \<and> hooked then rails_returns True s4 else rails_returns False (add_timer False e s4)
                else
                  rails_returns False
                    (fst (handle_remote (before_send (rw_client w) (rw_doc w) e) (rw_client w) (rw_doc w) e s2))
            else rails_leave (add_timer True e s2))"



definition form_input_click :: "rails_world \<Rightarrow> page_element \<Rightarrow> rails_page \<Rightarrow> rails_page handled" where
  "form_input_click w e s =
     (let (s1, allowed) = allow_action (rw_client w) e s in
        if \<not> allowed then stop_everything (rw_target w) s1
        else
          let v = (if pe_tag e = ''button'' then (case attr e ''value'' of Some v \<Rightarrow> v | None \<Rightarrow> []) else text_of e s1);
              data = (case attr e ''name'' of Some (x # xs) \<Rightarrow> Some (x # xs, v) | _ \<Rightarrow> None)
          in rails_leave
               (case pe_in_form e of
                  Some i \<Rightarrow> s1\<lparr>rp_button := (rp_button s1)(i := data)\<rparr>
                | None \<Rightarrow> s1))"

definition run_rails :: "rails_world \<Rightarrow> rails_handler \<Rightarrow> rails_node \<Rightarrow> rails_page \<Rightarrow> rails_page handled" where
  "run_rails w h n s =
     (case n of
        Document_Node \<Rightarrow> rails_leave s
      | Element e \<Rightarrow>
          (case h of
             Link_Click \<Rightarrow> link_click w e s
           | Button_Click \<Rightarrow> button_click w e s
           | Input_Change \<Rightarrow> input_change w e s
           | Form_Submit \<Rightarrow> form_submit w e s
           | Form_Input_Click \<Rightarrow> form_input_click w e s
           | Link_Locked \<Rightarrow> stop_everything (rw_target w) s
           | _ \<Rightarrow> answer_ajax (rw_doc w) (rw_target w) h n s))"

definition disabled_in :: "rails_page \<Rightarrow> rails_node \<Rightarrow> bool" where
  "disabled_in s n = (case n of Element e \<Rightarrow> es_disabled (rp_elements s (pe_id e)) | Document_Node \<Rightarrow> False)"

definition rails_event_page ::
  "rails_world \<Rightarrow> rails_page \<Rightarrow> (rails_handler, rails_selector, rails_node, rails_page) event_page" where
  "rails_event_page w s =
     \<lparr>ep_events = rails_events, ep_matching = node_matches, ep_disabled = disabled_in s, ep_run = run_rails w\<rparr>"

text \<open>
  A click, change or submission at an element; the browser acts when nothing prevents it. Nothing is disabled
  before the event has reached the document.
\<close>

definition rails_event ::
  "rails_world \<Rightarrow> string \<Rightarrow> page_element \<Rightarrow> rails_page \<Rightarrow> rails_page running" where
  "rails_event w name e s =
     propagate (rails_event_page (w\<lparr>rw_target := pe_id e\<rparr>) s) \<lparr>ev_type = name, ev_namespaces = [], ev_button = 0\<rparr> []
       (node_path (rw_doc w) e) (start_running s)"

definition user_does :: "rails_world \<Rightarrow> string \<Rightarrow> page_element \<Rightarrow> rails_page \<Rightarrow> rails_page" where
  "user_does w name e s =
     (let r = rails_event w name e s in
        if rn_prevented r then rn_state r else add_note (Browser_Acts name (pe_id e)) (rn_state r))"

section \<open>Answers and timers\<close>

definition element_of :: "rails_doc \<Rightarrow> nat \<Rightarrow> page_element option" where
  "element_of d i = find (\<lambda>e. pe_id e = i) (rd_elements d)"

definition after_failure :: "after_error \<Rightarrow> page_element \<Rightarrow> rails_page \<Rightarrow> rails_page" where
  "after_failure a e s =
     (case a of Nothing_More \<Rightarrow> s | Enable_Link \<Rightarrow> enable_element e s | Enable_Button \<Rightarrow> enable_form_element e s)"

definition rails_answer :: "rails_world \<Rightarrow> nat \<Rightarrow> bool \<Rightarrow> rails_page \<Rightarrow> rails_page" where
  "rails_answer w k ok s =
     (if k < length (rp_pending s)
      then
        let (i, a) = rp_pending s ! k; s1 = s\<lparr>rp_pending := take k (rp_pending s) @ drop (Suc k) (rp_pending s)\<rparr> in
          (case element_of (rw_doc w) i of
             None \<Rightarrow> s1
           | Some e \<Rightarrow>
               let s2 = (if ok then fst (fire_event (rw_client w) Ajax_Succeeded i s1)
                         else after_failure a e (fst (fire_event (rw_client w) Ajax_Failed i s1)))
               in fire_through (rw_client w) (rw_doc w) Ajax_Completed ''ajax:complete'' e s2)
      else s)"

definition rails_timer :: "rails_world \<Rightarrow> nat \<Rightarrow> rails_page \<Rightarrow> rails_page" where
  "rails_timer w k s =
     (if k < length (rp_timers s)
      then
        let (locks, i) = rp_timers s ! k; s1 = s\<lparr>rp_timers := take k (rp_timers s) @ drop (Suc k) (rp_timers s)\<rparr> in
          (case element_of (rw_doc w) i of
             None \<Rightarrow> s1
           | Some e \<Rightarrow> if locks then disable_form_elements (rw_doc w) e s1 else enable_form_elements (rw_doc w) e s1)
      else s)"

text \<open>A user also enters values.\<close>

datatype rails_step =
    User_Event string page_element
  | Answer nat bool
  | Timer nat
  | Enters nat field_value bool

fun rails_do :: "rails_world \<Rightarrow> rails_step \<Rightarrow> rails_page \<Rightarrow> rails_page" where
  "rails_do w (User_Event name e) s = user_does w name e s"
| "rails_do w (Answer k ok) s = rails_answer w k ok s"
| "rails_do w (Timer k) s = rails_timer w k s"
| "rails_do w (Enters i v b) s = put_element i (\<lambda>x. x\<lparr>es_value := v, es_checked := b\<rparr>) s"

text \<open>When the page is ready, the tokens in its forms are replaced by that of the page; a missing token empties them.\<close>

definition refresh_tokens :: "rails_doc \<Rightarrow> rails_page \<Rightarrow> rails_page" where
  "refresh_tokens d s =
     (let name = (case rd_param d of Some p \<Rightarrow> p | None \<Rightarrow> ''undefined'');
          token = (case rd_token d of Some t \<Rightarrow> t | None \<Rightarrow> [])
      in fold (\<lambda>e. put_element (pe_id e) (\<lambda>x. x\<lparr>es_value := Single token\<rparr>))
           (filter (\<lambda>e. pe_tag e = ''input'' \<and> pe_in_form e \<noteq> None \<and> attr e ''name'' = Some name) (rd_elements d)) s)"

lemma fold_values:
  "rp_elements (fold (\<lambda>e. put_element (pe_id e) (\<lambda>x. x\<lparr>es_value := v\<rparr>)) es s) i =
     (if i \<in> pe_id ` set es then (rp_elements s i)\<lparr>es_value := v\<rparr> else rp_elements s i)"
  by (induction es arbitrary: s) (auto simp: put_element_def)

text \<open>After that a form sends the token of the page under its name, and every other field as it was.\<close>

lemma refreshed_form_sends_token:
  assumes "rd_param d = Some p" and "rd_token d = Some t" and "distinct (map pe_id (rd_elements d))"
    and "\<forall>e \<in> set (rd_elements d). attr e ''name'' = Some p \<longrightarrow> pe_tag e = ''input'' \<and> pe_in_form e \<noteq> None"
    and "(x, v) \<in> set (serialize_array (rd_elements d) (rp_elements (refresh_tokens d s)) form)" and "pe_tag form = ''form''"
  shows "if x = p then v = crlf t else (x, v) \<in> set (serialize_array (rd_elements d) (rp_elements s) form)"
proof -
  let ?st = "rp_elements (refresh_tokens d s)"
  obtain e where e: "e \<in> set (form_controls (rd_elements d) form)" "counts ?st e" "(x, v) \<in> set (fields_of ?st e)"
    using assms(5) by (auto simp: serialize_array_def)
  then have mem: "e \<in> set (rd_elements d)" using assms(6) by (simp add: form_controls_def)
  have nm: "attr e ''name'' = Some x" using e(2,3)
    by (auto simp: counts_def fields_of_def field_name_def split: option.splits field_value.splits)
  have st: "?st (pe_id e) = (if attr e ''name'' = Some p then (rp_elements s (pe_id e))\<lparr>es_value := Single t\<rparr> else rp_elements s (pe_id e))"
  proof (cases "attr e ''name'' = Some p")
    case True
    then show ?thesis using assms(1,2,4) mem by (auto simp: refresh_tokens_def fold_values)
  next
    case False
    have "e' = e" if "e' \<in> set (rd_elements d)" "pe_id e' = pe_id e" for e'
      using that mem assms(3) by (metis distinct_map inj_onD)
    then show ?thesis using assms(1,2) False by (auto simp: refresh_tokens_def fold_values)
  qed
  show ?thesis
  proof (cases "x = p")
    case True
    then show ?thesis using e(3) st nm by (simp add: fields_of_def)
  next
    case False
    then have "?st (pe_id e) = rp_elements s (pe_id e)" using st nm by simp
    then have "counts (rp_elements s) e" "(x, v) \<in> set (fields_of (rp_elements s) e)" using e(2,3) by (simp_all add: counts_def fields_of_def)
    then show ?thesis using e(1) False by (auto simp: serialize_array_def)
  qed
qed

section \<open>Which handlers an event meets\<close>

lemma rails_click:
  "handlers_of (bound rails_bindings) ''click'' =
     \<lparr>hl_list =
        [\<lparr>ho_type = ''click'', ho_orig_type = ''click'', ho_guid = 2, ho_handler = Link_Click, ho_selector = Some Link_Clicks,
          ho_namespaces = [''rails'']\<rparr>,
         \<lparr>ho_type = ''click'', ho_orig_type = ''click'', ho_guid = 3, ho_handler = Button_Click, ho_selector = Some Button_Clicks,
          ho_namespaces = [''rails'']\<rparr>,
         \<lparr>ho_type = ''click'', ho_orig_type = ''click'', ho_guid = 6, ho_handler = Form_Input_Click,
          ho_selector = Some Form_Input_Clicks, ho_namespaces = [''rails'']\<rparr>],
      hl_delegates = 3\<rparr>"
  by code_simp

lemma rails_submit:
  "handlers_of (bound rails_bindings) ''submit'' =
     \<lparr>hl_list =
        [\<lparr>ho_type = ''submit'', ho_orig_type = ''submit'', ho_guid = 5, ho_handler = Form_Submit, ho_selector = Some Forms,
          ho_namespaces = [''rails'']\<rparr>],
      hl_delegates = 1\<rparr>"
  by code_simp

lemma no_own_handlers: "rp_blocks s (pe_id e) = 0 \<Longrightarrow> rails_events s (Element e) = []"
  by (simp add: rails_events_def bound_def)

lemma dispatch_nothing:
  "handlers_of (ep_events pg (rn_state r) n) (ev_type ev) = no_handlers \<Longrightarrow> event_dispatch pg ev below n r = r"
  by (simp add: event_dispatch_def event_handlers_def no_handlers_def)

text \<open>Elements without handlers of their own pass the event on to the document.\<close>

lemma propagate_to_document:
  assumes "\<And>n. n \<in> set ns \<Longrightarrow> handlers_of (ep_events pg (rn_state r) n) (ev_type ev) = no_handlers" and "\<not> rn_stopped r"
  shows "propagate pg ev below (ns @ [m]) r = event_dispatch pg ev (below @ ns) m r"
  using assms(1)
proof (induction ns arbitrary: below)
  case Nil
  then show ?case using assms(2) by simp
next
  case (Cons n ns)
  have "event_dispatch pg ev below n r = r" by (rule dispatch_nothing) (simp add: Cons.prems)
  then show ?case using Cons assms(2) by simp
qed

section \<open>Refusals\<close>

text \<open>Only notes are added.\<close>

definition noted :: "rails_page \<Rightarrow> rails_page \<Rightarrow> bool" where
  "noted s t \<longleftrightarrow> (\<exists>xs. t = s\<lparr>rp_log := rp_log s @ xs\<rparr>)"

lemma noted_refl [simp]: "noted s s"
  by (simp add: noted_def exI [of _ "[]"])

lemma noted_trans: "noted s t \<Longrightarrow> noted t u \<Longrightarrow> noted s u"
  by (auto simp: noted_def)

lemma noted_note [simp]: "noted s t \<Longrightarrow> noted s (add_note x t)"
  by (auto simp: noted_def add_note_def)

lemma noted_fire: "fire_event c ev i s = (t, b) \<Longrightarrow> noted s t"
  by (auto simp: fire_event_def)

lemma noted_allow: "allow_action c e s = (t, b) \<Longrightarrow> noted s t"
  by (auto simp: allow_action_def fire_event_def Let_def split: option.splits if_splits)

definition refuses :: "rails_client \<Rightarrow> page_element \<Rightarrow> bool" where
  "refuses c e \<longleftrightarrow>
     (case truthy_data e ''confirm'' of
        None \<Rightarrow> False
      | Some msg \<Rightarrow>
          rc_false c Confirm_Asks (pe_id e) \<or> \<not> rc_yes c msg \<or> rc_false c (Confirm_Done (rc_yes c msg)) (pe_id e))"

lemma allow_refuses: "snd (allow_action c e s) \<longleftrightarrow> \<not> refuses c e"
  by (auto simp: allow_action_def refuses_def fire_event_def Let_def split: option.split)

lemma refused_handler:
  assumes "refuses (rw_client w) e" and "h \<in> {Link_Click, Button_Click, Input_Change, Form_Submit, Form_Input_Click}"
  shows "\<exists>t. noted s t \<and> run_rails w h (Element e) s = stop_everything (rw_target w) t"
proof -
  obtain t b where a: "allow_action (rw_client w) e s = (t, b)" by (metis prod.exhaust)
  then have "\<not> b" using allow_refuses [of "rw_client w" e s] assms(1) by simp
  then show ?thesis using a assms(2) noted_allow [OF a]
    by (auto simp: run_rails_def link_click_def button_click_def input_change_def form_submit_def form_input_click_def)
qed

lemma run_queue_stops_now:
  assumes "ev_namespaces ev = []" and "\<not> rn_stopped r" and "\<not> rn_immediate r" and "hd_stops_now (run (ho_handler h) cur (rn_state r))"
  shows "run_queue run ev ((cur, h # hs) # q) r = take_handled (run (ho_handler h) cur (rn_state r)) r"
proof -
  let ?r = "take_handled (run (ho_handler h) cur (rn_state r)) r"
  have "rn_immediate ?r" "rn_stopped ?r" using assms(4) by (simp_all add: take_handled_def)
  then have "run_handlers run ev cur hs ?r = ?r" "run_queue run ev q ?r = ?r"
    by (cases hs; simp) (cases q; cases "hd q"; use \<open>rn_stopped ?r\<close> in simp)
  then show ?thesis using assms(1-3) by simp
qed

lemma stop_everything_simps [simp]:
  "hd_stops_now (stop_everything i s)" "hd_state (stop_everything i s) = add_note (Fired Everything_Stopped i) s"
  "hd_returns (stop_everything i s) = False_Value"
  by (simp_all add: stop_everything_def rails_leave_def)

text \<open>What a refused event leaves: notes only, nothing for the browser to do and nothing further up.\<close>

definition halted :: "rails_page \<Rightarrow> rails_page running \<Rightarrow> bool" where
  "halted s r \<longleftrightarrow> noted s (rn_state r) \<and> rn_prevented r \<and> rn_stopped r"

lemma propagate_stopped: "rn_stopped r \<Longrightarrow> propagate pg ev below up r = r"
  by (cases up) simp_all

lemma locked_handlers:
  "0 < rp_blocks s (pe_id e) \<Longrightarrow> \<exists>h hs. ho_handler h = Link_Locked \<and>
     handlers_of (rails_events s (Element e)) ''click'' = \<lparr>hl_list = h # hs, hl_delegates = 0\<rparr>"
proof -
  have b: "handlers_of (bound (replicate n (9, Link_Locked, None, ''click'', [''railsDisable'']))) ''click'' =
      \<lparr>hl_list = replicate n \<lparr>ho_type = ''click'', ho_orig_type = ''click'', ho_guid = 9, ho_handler = Link_Locked,
        ho_selector = None, ho_namespaces = [''railsDisable'']\<rparr>, hl_delegates = 0\<rparr>" for n
    by (simp add: handlers_of_bound registered_def delegates_def directs_def kept_type_def special_bind_def special_delegate_def)
  show "0 < rp_blocks s (pe_id e) \<Longrightarrow> ?thesis" unfolding rails_events_def
    by (simp only: rails_node.case b) (cases "rp_blocks s (pe_id e)"; simp)
qed

lemma locked_dispatch:
  assumes "0 < rp_blocks (rn_state r) (pe_id e)" and "\<not> rn_stopped r" and "\<not> rn_immediate r"
  shows "event_dispatch (rails_event_page w s0) \<lparr>ev_type = ''click'', ev_namespaces = [], ev_button = 0\<rparr> below (Element e) r =
    take_handled (stop_everything (rw_target w) (rn_state r)) r"
proof -
  obtain h hs where h: "ho_handler h = Link_Locked"
    "handlers_of (rails_events (rn_state r) (Element e)) ''click'' = \<lparr>hl_list = h # hs, hl_delegates = 0\<rparr>"
    using locked_handlers [OF assms(1)] by blast
  have "run_rails w Link_Locked (Element e) (rn_state r) = stop_everything (rw_target w) (rn_state r)"
    by (simp add: run_rails_def)
  then show ?thesis
    using run_queue_stops_now [of "\<lparr>ev_type = ''click'', ev_namespaces = [], ev_button = 0\<rparr>" r "run_rails w" h "Element e" hs "[]"]
      assms(2,3) h by (simp add: event_dispatch_def rails_event_page_def event_handlers_def)
qed

lemma dispatch_refused:
  assumes "hl_delegates (handlers_of (bound rails_bindings) name) = length (hl_list (handlers_of (bound rails_bindings) name))"
    and "list_all (\<lambda>h. ho_handler h \<in> {Link_Click, Button_Click, Input_Change, Form_Submit, Form_Input_Click})
      (hl_list (handlers_of (bound rails_bindings) name))"
    and "\<exists>h \<in> set (hl_list (handlers_of (bound rails_bindings) name)). matched_by node_matches (Element e) h"
    and "refuses (rw_client w) e" and "\<not> es_disabled (rp_elements s0 (pe_id e))" and "\<not> rn_stopped r" and "\<not> rn_immediate r"
  shows "\<exists>t. noted (rn_state r) t \<and>
    event_dispatch (rails_event_page w s0) \<lparr>ev_type = name, ev_namespaces = [], ev_button = 0\<rparr> (Element e # ns) Document_Node r =
      take_handled (stop_everything (rw_target w) t) r"
proof -
  let ?q = "handlers_of (bound rails_bindings) name"
  let ?ev = "\<lparr>ev_type = name, ev_namespaces = [], ev_button = 0\<rparr>"
  obtain h hs where hs: "filter (matched_by node_matches (Element e)) (hl_list ?q) = h # hs"
    using assms(3) by (metis (no_types, lifting) filter_empty_conv neq_Nil_conv)
  then have "h \<in> set (hl_list ?q)" by (metis filter_is_subset list.set_intros(1) subsetD)
  then obtain t where t: "noted (rn_state r) t"
    "run_rails w (ho_handler h) (Element e) (rn_state r) = stop_everything (rw_target w) t"
    using refused_handler [OF assms(4), of "ho_handler h"] assms(2) unfolding list_all_iff by blast
  have "hl_delegates ?q \<noteq> 0" using assms(1) \<open>h \<in> set (hl_list ?q)\<close> by auto
  then obtain qs where "event_handlers node_matches (disabled_in s0) ?ev ?q (Element e # ns) Document_Node = (Element e, h # hs) # qs"
    using assms(1,5) hs by (simp add: event_handlers_def delegated_at_def disabled_in_def)
  then show ?thesis
    using t run_queue_stops_now [of ?ev r "run_rails w" h "Element e" hs qs] assms(6,7)
    by (auto simp: event_dispatch_def rails_event_page_def rails_events_def)
qed

text \<open>A click goes up until an element that is locked, or to the document.\<close>

lemma click_path:
  assumes "refuses (rw_client w) e" and "rails_matches Link_Clicks e \<or> rails_matches Button_Clicks e \<or> rails_matches Form_Input_Clicks e"
    and "\<not> es_disabled (rp_elements s0 (pe_id e))" and "\<not> rn_stopped r" and "\<not> rn_immediate r"
  shows "\<exists>t. noted (rn_state r) t \<and>
    propagate (rails_event_page w s0) \<lparr>ev_type = ''click'', ev_namespaces = [], ev_button = 0\<rparr> [] (Element e # map Element es @ [Document_Node]) r =
      take_handled (stop_everything (rw_target w) t) r"
proof -
  let ?pg = "rails_event_page w s0"
  let ?ev = "\<lparr>ev_type = ''click'', ev_namespaces = [], ev_button = 0\<rparr>"
  have stop: "propagate ?pg ?ev below up (take_handled (stop_everything i t) r) = take_handled (stop_everything i t) r" for below up i t
    by (rule propagate_stopped) (simp add: take_handled_def)
  have "\<exists>t. noted (rn_state r) t \<and> propagate ?pg ?ev (Element e # below) (map Element es @ [Document_Node]) r =
      take_handled (stop_everything (rw_target w) t) r" for below
  proof (induction es arbitrary: below)
    case Nil
    have "\<exists>h \<in> set (hl_list (handlers_of (bound rails_bindings) ''click'')). matched_by node_matches (Element e) h"
      using assms(2) by (auto simp: rails_click matched_by_def)
    then show ?case
      using dispatch_refused [OF _ _ _ assms(1,3-5), of "''click''"] stop assms(4) by (auto simp: rails_click)
  next
    case (Cons x es)
    show ?case
    proof (cases "rp_blocks (rn_state r) (pe_id x) = 0")
      case True
      have "event_dispatch ?pg ?ev below (Element x) r = r" for below
        by (rule dispatch_nothing) (simp add: rails_event_page_def no_own_handlers [OF True] handlers_of_def)
      then show ?thesis using Cons assms(4) by simp
    next
      case False
      then show ?thesis using locked_dispatch [OF _ assms(4,5), of x w s0] assms(4) stop by (auto intro: exI [of _ "rn_state r"])
    qed
  qed
  from this [of "[]"] obtain t where t: "noted (rn_state r) t"
    "propagate ?pg ?ev [Element e] (map Element es @ [Document_Node]) r = take_handled (stop_everything (rw_target w) t) r" by blast
  show ?thesis
  proof (cases "rp_blocks (rn_state r) (pe_id e) = 0")
    case True
    have "event_dispatch ?pg ?ev [] (Element e) r = r"
      by (rule dispatch_nothing) (simp add: rails_event_page_def no_own_handlers [OF True] handlers_of_def)
    then show ?thesis using t assms(4) by auto
  next
    case False
    then show ?thesis using locked_dispatch [OF _ assms(4,5), of e w s0] assms(4) stop by (auto intro: exI [of _ "rn_state r"])
  qed
qed


section \<open>Where the token goes\<close>

lemma request_token:
  "rq_token (make_request d e s) =
     csrf_header d
       (case ac_cross (remote_call d e s) of
          Some b \<Rightarrow> b
        | None \<Rightarrow> cross_domain (po_origin (rd_origin d)) (call_url (rd_origin d) (remote_url e)))"
  by (simp add: make_request_def prepare_def Let_def remote_call_def)

lemma lower_space: "lower CHR '' '' = CHR '' ''"
  by (simp add: lower_def)

lemma parse_spaced: "parse_origin (CHR '' '' # s) = None"
  by (simp add: parse_origin_def scheme_char_def)

text \<open>A request without a cross-domain mark carries the token exactly when its address could not be read as one of
  another origin. An address that starts with a space is never read, so that the token goes to whatever server the
  browser then finds in it; and a link sent with another method posts the token to its address wherever that is.\<close>

theorem token_goes_with_unread_address:
  assumes "data_attr e ''cross-domain'' = None" and "rd_token d = Some (x # xs)" and "rd_param d = Some p"
  shows "(rq_token (make_request d e s) = Some (x # xs) \<longleftrightarrow>
      (case parse_origin (map lower (call_url (rd_origin d) (remote_url e))) of
         None \<Rightarrow> True
       | Some g \<Rightarrow> same_origin g (po_origin (rd_origin d)))) \<and>
    (remote_url e = Some (CHR '' '' # u) \<longrightarrow> rq_token (make_request d e s) = Some (x # xs)) \<and>
    (\<exists>f. rp_log (handle_method d e s) = rp_log s @ [Sent_Form f] \<and> mf_action f = attr e ''href'' \<and> mf_token f = Some (p, x # xs))"
proof -
  have "call_url (rd_origin d) (Some (CHR '' '' # u)) = CHR '' '' # takeWhile (\<lambda>c. c \<noteq> CHR ''#'') u"
    by (simp add: call_url_def)
  then have "parse_origin (map lower (call_url (rd_origin d) (Some (CHR '' '' # u)))) = None"
    by (simp add: lower_space parse_spaced)
  then show ?thesis using assms
    by (auto simp: request_token remote_call_def csrf_header_def cross_domain_def handle_method_def add_note_def split: option.split)
qed

section \<open>Locking and unlocking a form\<close>

lemma text_of_put [simp]: "text_of e (set_text e t s) = t"
  by (simp add: text_of_def set_text_def put_element_def)

lemma elements_frame [simp]:
  "rp_elements (keep_text e s) = rp_elements s" "rp_enable_with (put_element i f s) = rp_enable_with s"
  "rp_enable_with (set_text e t s) = rp_enable_with s" "rp_enable_with (replace_text e s) = rp_enable_with s"
  by (simp_all add: keep_text_def put_element_def set_text_def replace_text_def split: option.split)

text \<open>What shows of an element.\<close>

definition shown_as :: "page_element \<Rightarrow> rails_page \<Rightarrow> string \<times> bool" where
  "shown_as e s = (text_of e s, es_disabled (rp_elements s (pe_id e)))"

lemma shown_other:
  assumes "pe_id e \<noteq> pe_id x"
  shows "shown_as e (disable_form_element x s) = shown_as e s" "shown_as e (enable_form_element x s) = shown_as e s"
    "rp_enable_with (disable_form_element x s) (pe_id e) = rp_enable_with s (pe_id e)"
    "rp_enable_with (enable_form_element x s) (pe_id e) = rp_enable_with s (pe_id e)"
    "es_disabled (rp_elements (disable_form_element x s) (pe_id e)) = es_disabled (rp_elements s (pe_id e))"
  using assms
  by (auto simp: shown_as_def text_of_def disable_form_element_def enable_form_element_def keep_text_def replace_text_def
      set_text_def put_element_def split: option.split list.split)

lemma disabled_element:
  "rp_enable_with (disable_form_element e s) (pe_id e) = Some (text_of e s)"
  "es_disabled (rp_elements (disable_form_element e s) (pe_id e))"
  by (simp_all add: disable_form_element_def keep_text_def put_element_def)

lemma enabled_element:
  "rp_enable_with s (pe_id e) = Some t \<Longrightarrow> t \<noteq> [] \<Longrightarrow> shown_as e (enable_form_element e s) = (t, False)"
  by (auto simp: shown_as_def enable_form_element_def text_of_def set_text_def put_element_def neq_Nil_conv)

lemma fold_other:
  assumes "pe_id e \<notin> pe_id ` set xs"
  shows "shown_as e (fold disable_form_element xs s) = shown_as e s" "shown_as e (fold enable_form_element xs s) = shown_as e s"
    "rp_enable_with (fold disable_form_element xs s) (pe_id e) = rp_enable_with s (pe_id e)"
    "es_disabled (rp_elements (fold disable_form_element xs s) (pe_id e)) = es_disabled (rp_elements s (pe_id e))"
  using assms by (induction xs arbitrary: s) (auto simp: shown_other)

lemma fold_disable:
  assumes "e \<in> set xs" and "distinct (map pe_id xs)"
  shows "rp_enable_with (fold disable_form_element xs s) (pe_id e) = Some (text_of e s) \<and>
    es_disabled (rp_elements (fold disable_form_element xs s) (pe_id e))"
proof -
  obtain us vs where xs: "xs = us @ e # vs" using assms(1) by (meson split_list)
  then have n: "pe_id e \<notin> pe_id ` set us" "pe_id e \<notin> pe_id ` set vs" using assms(2) by auto
  have "text_of e (fold disable_form_element us s) = text_of e s" using fold_other(1) [OF n(1), of s] by (simp add: shown_as_def)
  then show ?thesis using fold_other(3,4) [OF n(2)] by (simp add: xs disabled_element)
qed

lemma fold_enable:
  assumes "e \<in> set xs" and "distinct (map pe_id xs)" and "rp_enable_with s (pe_id e) = Some t" and "t \<noteq> []"
  shows "shown_as e (fold enable_form_element xs s) = (t, False)"
proof -
  obtain us vs where xs: "xs = us @ e # vs" using assms(1) by (meson split_list)
  then have n: "pe_id e \<notin> pe_id ` set us" "pe_id e \<notin> pe_id ` set vs" using assms(2) by auto
  have "rp_enable_with (fold enable_form_element us s) (pe_id e) = Some t"
    using n(1) assms(3) by (induction us arbitrary: s) (auto simp: shown_other)
  then show ?thesis using fold_other(2) [OF n(2)] assms(4) by (simp add: xs enabled_element)
qed

text \<open>Unlocking a form after locking it leaves every element of the form with the text it had and enabled again,
  provided that no lockable element of the form was disabled before and none had an empty text.\<close>

lemma unlocking_restores_form:
  assumes "distinct (map pe_id (form_controls (rd_elements d) form))"
    and "\<forall>e \<in> set (form_controls (rd_elements d) form). lockable e \<longrightarrow> \<not> es_disabled (rp_elements s (pe_id e)) \<and> text_of e s \<noteq> []"
    and "e \<in> set (form_controls (rd_elements d) form)"
  shows "shown_as e (enable_form_elements d form (disable_form_elements d form s)) = shown_as e s \<and>
    (lockable e \<longrightarrow> es_disabled (rp_elements (disable_form_elements d form s) (pe_id e)))"
proof -
  let ?cs = "form_controls (rd_elements d) form"
  let ?xs = "filter lockable ?cs"
  let ?t = "fold disable_form_element ?xs s"
  have dx: "distinct (map pe_id ?xs)" using assms(1) by (simp add: distinct_map_filter)
  have x1: "disable_form_elements d form s = ?t"
    using assms(2) by (auto simp: disable_form_elements_def intro!: arg_cong [of _ _ "\<lambda>xs. fold disable_form_element xs s"] filter_cong)
  have "\<forall>x \<in> set ?xs. es_disabled (rp_elements ?t (pe_id x))" using fold_disable [OF _ dx] by blast
  then have x2: "enable_form_elements d form ?t = fold enable_form_element ?xs ?t"
    by (auto simp: enable_form_elements_def intro!: arg_cong [of _ _ "\<lambda>xs. fold enable_form_element xs ?t"] filter_cong)
  show ?thesis
  proof (cases "lockable e")
    case True
    then have e: "e \<in> set ?xs" using assms(3) by simp
    have "shown_as e (fold enable_form_element ?xs ?t) = (text_of e s, False)"
      using fold_enable [OF e dx] fold_disable [OF e dx] assms(2,3) True by blast
    then show ?thesis using assms(2,3) True fold_disable [OF e dx] by (simp add: x1 x2 shown_as_def)
  next
    case False
    have "pe_id e \<notin> pe_id ` set ?xs"
    proof
      assume "pe_id e \<in> pe_id ` set ?xs"
      then obtain x where "x \<in> set ?cs" "lockable x" "pe_id x = pe_id e" by auto
      then have "x = e" using assms(1,3) by (metis inj_on_eq_iff distinct_map)
      then show False using \<open>lockable x\<close> False by simp
    qed
    then show ?thesis using False by (simp add: x1 x2 fold_other)
  qed
qed

section \<open>Events that meet one handler\<close>

lemma rails_send:
  "handlers_of (bound rails_bindings) ''ajax:send'' =
     \<lparr>hl_list =
        [\<lparr>ho_type = ''ajax:send'', ho_orig_type = ''ajax:send'', ho_guid = 7, ho_handler = Send_Form, ho_selector = Some Forms,
          ho_namespaces = [''rails'']\<rparr>],
      hl_delegates = 1\<rparr>"
  by code_simp

lemma rails_complete:
  "handlers_of (bound rails_bindings) ''ajax:complete'' =
     \<lparr>hl_list =
        [\<lparr>ho_type = ''ajax:complete'', ho_orig_type = ''ajax:complete'', ho_guid = 0, ho_handler = Complete_Link,
          ho_selector = Some Link_Disables, ho_namespaces = []\<rparr>,
         \<lparr>ho_type = ''ajax:complete'', ho_orig_type = ''ajax:complete'', ho_guid = 1, ho_handler = Complete_Button,
          ho_selector = Some Button_Disables, ho_namespaces = []\<rparr>,
         \<lparr>ho_type = ''ajax:complete'', ho_orig_type = ''ajax:complete'', ho_guid = 8, ho_handler = Complete_Form,
          ho_selector = Some Forms, ho_namespaces = [''rails'']\<rparr>],
      hl_delegates = 3\<rparr>"
  by code_simp

lemma element_no_handlers:
  "name \<noteq> ''click'' \<or> rp_blocks s (pe_id x) = 0 \<Longrightarrow> handlers_of (rails_events s (Element x)) name = no_handlers"
proof (cases "rp_blocks s (pe_id x) = 0")
  case True
  then show ?thesis by (simp add: no_own_handlers handlers_of_def)
next
  case False
  moreover assume "name \<noteq> ''click'' \<or> rp_blocks s (pe_id x) = 0"
  ultimately show ?thesis
    by (simp add: rails_events_def handlers_of_bound registered_def delegates_def directs_def no_handlers_def kept_type_def
        special_bind_def special_delegate_def)
qed

text \<open>Elements that no handler of the document is for.\<close>

definition plain_above :: "rails_doc \<Rightarrow> page_element \<Rightarrow> bool" where
  "plain_above d e \<longleftrightarrow> list_all (\<lambda>x. \<forall>sel. \<not> rails_matches sel x) (rd_above d (pe_id e))"

lemma one_handler:
  assumes q: "handlers_of (bound rails_bindings) name = \<lparr>hl_list = hs, hl_delegates = length hs\<rparr>"
    and h: "filter (\<lambda>x. matched_by node_matches (Element e) x) hs = [h]"
    and above: "plain_above d e" and pg: "ep_events pg = rails_events" "ep_matching pg = node_matches"
    and off: "\<not> ep_disabled pg (Element e) \<or> name \<noteq> ''click''"
    and path: "name \<noteq> ''click'' \<or> list_all (\<lambda>x. rp_blocks (rn_state r) (pe_id x) = 0) (e # rd_above d (pe_id e))"
    and r: "\<not> rn_stopped r" "\<not> rn_immediate r"
  shows "propagate pg \<lparr>ev_type = name, ev_namespaces = [], ev_button = 0\<rparr> [] (node_path d e) r =
    take_handled (ep_run pg (ho_handler h) (Element e) (rn_state r)) r"
proof -
  let ?ev = "\<lparr>ev_type = name, ev_namespaces = [], ev_button = 0\<rparr>"
  let ?ns = "Element e # map Element (rd_above d (pe_id e))"
  have "handlers_of (ep_events pg (rn_state r) n) (ev_type ?ev) = no_handlers" if "n \<in> set ?ns" for n
    using that path element_no_handlers by (auto simp: pg list_all_iff)
  then have "propagate pg ?ev [] (?ns @ [Document_Node]) r = event_dispatch pg ?ev ([] @ ?ns) Document_Node r"
    by (rule propagate_to_document) (use r in simp_all)
  moreover have "event_dispatch pg ?ev ?ns Document_Node r = take_handled (ep_run pg (ho_handler h) (Element e) (rn_state r)) r"
  proof -
    have none: "filter (matched_by node_matches (Element x)) hs = []" if x: "x \<in> set (rd_above d (pe_id e))" for x
      using above x by (auto simp: plain_above_def list_all_iff filter_empty_conv matched_by_def split: option.splits)
    have "filter (\<lambda>(cur, hs). hs \<noteq> []) (map (\<lambda>cur. (cur, filter (matched_by node_matches cur) hs))
        (filter (\<lambda>cur. \<not> ep_disabled pg cur \<or> name \<noteq> ''click'') (map Element xs))) = []"
      if xs: "set xs \<subseteq> set (rd_above d (pe_id e))" for xs
      using xs none by (induction xs) auto
    then have "filter (\<lambda>(cur, hs). hs \<noteq> []) (map (\<lambda>cur. (cur, filter (matched_by node_matches cur) hs))
        (filter (\<lambda>cur. \<not> ep_disabled pg cur \<or> name \<noteq> ''click'') ?ns)) = [(Element e, [h])]"
      using h off by auto
    moreover have "hs \<noteq> []" using h by auto
    ultimately have "event_handlers node_matches (ep_disabled pg) ?ev \<lparr>hl_list = hs, hl_delegates = length hs\<rparr> ?ns Document_Node =
        [(Element e, [h])]" by (simp add: event_handlers_def delegated_at_def)
    then show ?thesis using r by (simp add: event_dispatch_def pg rails_events_def q)
  qed
  ultimately show ?thesis by (simp add: node_path_def)
qed

definition goes_through :: "rails_client \<Rightarrow> rails_fired \<Rightarrow> nat \<Rightarrow> bool" where
  "goes_through c ev i \<longleftrightarrow> \<not> rc_false c ev i \<and> \<not> rc_stops c ev i"

lemma form_sent:
  assumes "pe_tag e = ''form''" and "plain_above d e" and "goes_through c Ajax_Sent (pe_id e)"
  shows "fire_through c d Ajax_Sent ''ajax:send'' e s = disable_form_elements d e (add_note (Fired Ajax_Sent (pe_id e)) s)"
proof -
  have "propagate (ajax_event_page d (pe_id e)) \<lparr>ev_type = ''ajax:send'', ev_namespaces = [], ev_button = 0\<rparr> [] (node_path d e)
      (start_running t) = take_handled (answer_ajax d (pe_id e) Send_Form (Element e) t) (start_running t)" for t
    using one_handler [OF rails_send [THEN trans], of "_ # []" e _ d "ajax_event_page d (pe_id e)" "start_running t"] assms
    by (simp add: ajax_event_page_def matched_by_def start_running_def)
  then show ?thesis using assms(3)
    by (simp add: fire_through_def fire_event_def goes_through_def answer_ajax_def take_handled_def rails_leave_def)
qed

lemma form_completed:
  assumes "pe_tag e = ''form''" and "plain_above d e" and "goes_through c Ajax_Completed (pe_id e)"
  shows "fire_through c d Ajax_Completed ''ajax:complete'' e s = enable_form_elements d e (add_note (Fired Ajax_Completed (pe_id e)) s)"
proof -
  have "propagate (ajax_event_page d (pe_id e)) \<lparr>ev_type = ''ajax:complete'', ev_namespaces = [], ev_button = 0\<rparr> [] (node_path d e)
      (start_running t) = take_handled (answer_ajax d (pe_id e) Complete_Form (Element e) t) (start_running t)" for t
    using one_handler [OF rails_complete [THEN trans], of "_ # _ # _ # []" e _ d "ajax_event_page d (pe_id e)" "start_running t"] assms
    by (simp add: ajax_event_page_def matched_by_def start_running_def)
  then show ?thesis using assms(3)
    by (simp add: fire_through_def fire_event_def goes_through_def answer_ajax_def take_handled_def rails_leave_def)
qed

section \<open>A remote form\<close>

lemma lock_frame [simp]:
  "rp_pending (disable_form_element x s) = rp_pending s" "rp_pending (enable_form_element x s) = rp_pending s"
  "rp_log (disable_form_element x s) = rp_log s" "rp_log (enable_form_element x s) = rp_log s"
  "rp_button (disable_form_element x s) = rp_button s"
  by (auto simp: disable_form_element_def enable_form_element_def keep_text_def replace_text_def set_text_def put_element_def
      split: option.split list.split)

lemma fold_lock_frame [simp]:
  "rp_pending (fold disable_form_element xs s) = rp_pending s" "rp_pending (fold enable_form_element xs s) = rp_pending s"
  "rp_log (fold disable_form_element xs s) = rp_log s" "rp_log (fold enable_form_element xs s) = rp_log s"
  "rp_button (fold disable_form_element xs s) = rp_button s"
  by (induction xs arbitrary: s) simp_all

text \<open>Locking and unlocking depend on the elements and the texts kept, not on the rest of the page.\<close>

definition same_elements :: "rails_page \<Rightarrow> rails_page \<Rightarrow> bool" where
  "same_elements s t \<longleftrightarrow> rp_elements s = rp_elements t \<and> rp_enable_with s = rp_enable_with t"

lemma same_elements_lock:
  "same_elements s t \<Longrightarrow> same_elements (disable_form_element x s) (disable_form_element x t)"
  "same_elements s t \<Longrightarrow> same_elements (enable_form_element x s) (enable_form_element x t)"
  by (auto simp: same_elements_def disable_form_element_def enable_form_element_def keep_text_def replace_text_def set_text_def
      put_element_def text_of_def split: option.split list.split)

lemma same_elements_fold:
  "same_elements s t \<Longrightarrow> same_elements (fold disable_form_element xs s) (fold disable_form_element xs t)"
  "same_elements s t \<Longrightarrow> same_elements (fold enable_form_element xs s) (fold enable_form_element xs t)"
  by (induction xs arbitrary: s t) (auto simp: same_elements_lock)

lemma same_elements_form:
  assumes "same_elements s t"
  shows "same_elements (disable_form_elements d e s) (disable_form_elements d e t)"
    "same_elements (enable_form_elements d e s) (enable_form_elements d e t)"
proof -
  have "rp_elements s = rp_elements t" using assms by (simp add: same_elements_def)
  then show "same_elements (disable_form_elements d e s) (disable_form_elements d e t)"
    "same_elements (enable_form_elements d e s) (enable_form_elements d e t)"
    using same_elements_fold [OF assms] by (simp_all add: disable_form_elements_def enable_form_elements_def)
qed

lemma same_elements_shown: "same_elements s t \<Longrightarrow> shown_as e s = shown_as e t"
  by (simp add: same_elements_def shown_as_def text_of_def)

lemma noted_same: "noted s t \<Longrightarrow> same_elements s t \<and> rp_pending t = rp_pending s \<and> rp_button t = rp_button s \<and> rp_elements t = rp_elements s"
  by (auto simp: noted_def same_elements_def)

lemma blank_inputs_cong: "rp_elements s = rp_elements t \<Longrightarrow> blank_inputs d e sel b s = blank_inputs d e sel b t"
  by (simp add: blank_inputs_def)

text \<open>A form that is sent: no confirmation refused, nothing required missing, no file chosen, nothing returned false.\<close>

definition form_goes :: "rails_world \<Rightarrow> page_element \<Rightarrow> rails_page \<Rightarrow> bool" where
  "form_goes w e s \<longleftrightarrow>
     \<not> refuses (rw_client w) e \<and>
     (attr e ''novalidate'' \<noteq> None \<or> blank_inputs (rw_doc w) e (required_input s) False s = []) \<and>
     blank_inputs (rw_doc w) e file_input True s = [] \<and>
     \<not> rc_false (rw_client w) Ajax_Before (pe_id e) \<and> \<not> rc_false (rw_client w) Ajax_Before_Send (pe_id e) \<and>
     goes_through (rw_client w) Ajax_Sent (pe_id e)"

lemma form_submit_sends:
  assumes "pe_tag e = ''form''" and "has_data e ''remote''" and "plain_above (rw_doc w) e" and "form_goes w e s"
    and own: "\<And>r v. rp_once v = rp_once s \<Longrightarrow> rc_own (rw_client w) e r v = (v, True)"
  shows "\<exists>r t xs. form_submit w e s = rails_returns False t \<and> rp_log t = rp_log s @ xs @ [Requested (pe_id e) r] \<and>
    rq_data r = remote_data (rw_doc w) e s \<and> rp_pending t = rp_pending s @ [(pe_id e, Nothing_More)] \<and>
    rp_button t (pe_id e) = None \<and> same_elements t (disable_form_elements (rw_doc w) e s)"
proof -
  obtain s1 where a: "allow_action (rw_client w) e s = (s1, True)"
    using allow_refuses [of "rw_client w" e s] assms(4) by (metis form_goes_def prod.collapse)
  note n1 = noted_allow [OF a]
  have el: "rp_elements s1 = rp_elements s" using noted_same [OF n1] by simp
  have "required_input s1 = required_input s" by (rule ext) (simp add: required_input_def el)
  then have chk: "check_required w e s1 = (s1, False)"
    using assms(4) blank_inputs_cong [OF el] by (auto simp: check_required_def form_goes_def Let_def)
  have files: "blank_inputs (rw_doc w) e file_input True s1 = []"
    using assms(4) blank_inputs_cong [OF el] by (simp add: form_goes_def)
  define s2 where "s2 = add_note (Fired Ajax_Before (pe_id e)) s1"
  define r where "r = make_request (rw_doc w) e s2"
  define s3 where "s3 = s2\<lparr>rp_button := (rp_button s2)(pe_id e := None), rp_nonce := pr_nonce (rq_call r)\<rparr>"
  define s4 where "s4 = disable_form_elements (rw_doc w) e
    (add_note (Fired Ajax_Sent (pe_id e)) (add_note (Fired Ajax_Before_Send (pe_id e)) s3))"
  define t where "t = add_note (Requested (pe_id e) r) (s4\<lparr>rp_pending := rp_pending s4 @ [(pe_id e, Nothing_More)]\<rparr>)"
  have "rp_once s3 = rp_once s" using noted_same [OF n1] n1 by (auto simp: s3_def s2_def add_note_def noted_def)
  then have "before_send (rw_client w) (rw_doc w) e r s3 = (s4, True)"
    using assms(1,3,4) by (simp add: own add_note_def before_send_def fire_event_def form_goes_def form_sent s4_def)
  then have hr: "handle_remote (before_send (rw_client w) (rw_doc w) e) (rw_client w) (rw_doc w) e s1 = (t, Started)"
    using assms(1,4) by (simp add: handle_remote_def fire_event_def form_goes_def Let_def s2_def r_def s3_def t_def)
  obtain xs where xs: "s1 = s\<lparr>rp_log := rp_log s @ xs\<rparr>" using n1 by (auto simp: noted_def)
  have s4: "rp_log s4 = rp_log s1 @ [Fired Ajax_Before (pe_id e), Fired Ajax_Before_Send (pe_id e), Fired Ajax_Sent (pe_id e)]"
    "rp_pending s4 = rp_pending s" "rp_button s4 (pe_id e) = None"
    by (simp_all add: s4_def disable_form_elements_def s3_def s2_def add_note_def xs)
  have "same_elements t s4" by (simp add: t_def add_note_def same_elements_def)
  moreover have "same_elements s4 (disable_form_elements (rw_doc w) e s)"
    unfolding s4_def by (rule same_elements_form) (simp add: s3_def s2_def add_note_def same_elements_def xs)
  ultimately have se: "same_elements t (disable_form_elements (rw_doc w) e s)" by (simp add: same_elements_def)
  have fs: "form_submit w e s = rails_returns False t" using assms(2) by (simp add: form_submit_def a chk files hr)
  have rd: "rq_data r = remote_data (rw_doc w) e s" using assms(1) by (simp add: r_def make_request_def s2_def add_note_def xs remote_data_def Let_def)
  have "rp_log t = rp_log s @ (xs @ [Fired Ajax_Before (pe_id e), Fired Ajax_Before_Send (pe_id e), Fired Ajax_Sent (pe_id e)]) @
      [Requested (pe_id e) r]" "rp_pending t = rp_pending s @ [(pe_id e, Nothing_More)]" "rp_button t (pe_id e) = None"
    using s4 by (simp_all add: t_def add_note_def xs)
  then show ?thesis using fs rd se by blast
qed



section \<open>A sample page\<close>

definition deal_form :: page_element where
  "deal_form = \<lparr>pe_id = 1, pe_tag = ''form'', pe_attrs = [(''data-remote'', ''true''), (''action'', ''/deals''), (''method'', ''post'')],
     pe_in_form = None, pe_owner = None\<rparr>"

definition sample_field :: page_element where
  "sample_field = \<lparr>pe_id = 2, pe_tag = ''input'', pe_attrs = [(''type'', ''text''), (''name'', ''amount'')],
     pe_in_form = Some 1, pe_owner = Some 1\<rparr>"

definition sample_send :: page_element where
  "sample_send = \<lparr>pe_id = 3, pe_tag = ''input'', pe_attrs = [(''type'', ''submit''), (''name'', ''commit''), (''data-disable-with'', ''Sending'')],
     pe_in_form = Some 1, pe_owner = Some 1\<rparr>"

definition sample_link :: page_element where
  "sample_link = \<lparr>pe_id = 4, pe_tag = ''a'', pe_attrs = [(''data-confirm'', ''Sure?''), (''data-method'', ''delete''), (''href'', '' //other.example/x'')],
     pe_in_form = None, pe_owner = None\<rparr>"

definition sample_doc :: rails_doc where
  "sample_doc = \<lparr>rd_elements = [deal_form, sample_field, sample_send, sample_link], rd_above = (\<lambda>i. if i \<in> {2, 3} then [deal_form] else []),
     rd_origin = \<lparr>po_location = ''http://shop.example/deals'',
       po_origin = \<lparr>og_scheme = ''http:'', og_host = Some ''shop.example'', og_port = None\<rparr>\<rparr>,
     rd_param = Some ''authenticity_token'', rd_token = Some ''secret''\<rparr>"

definition sample_rails :: rails_world where
  "sample_rails = \<lparr>rw_doc = sample_doc,
     rw_client = \<lparr>rc_false = (\<lambda>ev i. False), rc_stops = (\<lambda>ev i. False), rc_yes = (\<lambda>msg. False),
       rc_own = (\<lambda>e r s. (s, True))\<rparr>,
     rw_hook = (\<lambda>e s. (s, True)), rw_target = 0, rw_meta = False\<rparr>"

definition deal_page :: rails_page where
  "deal_page = \<lparr>rp_elements = (\<lambda>i. \<lparr>es_value = Single (if i = 2 then ''1000'' else ''Send''), es_html = ''x'', es_checked = False, es_disabled = False\<rparr>),
     rp_enable_with = (\<lambda>i. None), rp_blocks = (\<lambda>i. 0), rp_button = (\<lambda>i. if i = 1 then Some (''commit'', ''Send'') else None),
     rp_pending = [], rp_timers = [], rp_nonce = 7, rp_once = (\<lambda>i. []), rp_uploads = [], rp_log = []\<rparr>"


theorem token_goes_with_unread_address_witness:
  "rq_token (make_request sample_doc sample_link deal_page) = Some ''secret''"
proof -
  have "data_attr sample_link ''cross-domain'' = None" "rd_token sample_doc = Some ''secret''"
    "rd_param sample_doc = Some ''authenticity_token''" "remote_url sample_link = Some '' //other.example/x''"
    by code_simp+
  then show ?thesis using token_goes_with_unread_address [of sample_link sample_doc "CHR ''s''" "''ecret''" "''authenticity_token''"] by blast
qed



text \<open>
  The two provisos are needed. A lockable element that was disabled before a submission is enabled after it; and one
  with an empty text keeps the replacement, since the empty text kept for it counts as nothing kept.
\<close>

lemma disabled_field_enabled_by_round:
  assumes "distinct (map pe_id (form_controls (rd_elements d) form))" and "e \<in> set (form_controls (rd_elements d) form)"
    and "lockable e" and "es_disabled (rp_elements s (pe_id e))"
  shows "\<not> es_disabled (rp_elements (enable_form_elements d form (disable_form_elements d form s)) (pe_id e))"
proof -
  let ?xs = "filter (\<lambda>x. lockable x \<and> \<not> es_disabled (rp_elements s (pe_id x))) (form_controls (rd_elements d) form)"
  have one: "es_disabled (rp_elements t (pe_id e)) \<Longrightarrow> es_disabled (rp_elements (disable_form_element x t) (pe_id e))" for x t
    by (cases "pe_id x = pe_id e") (metis disabled_element(2), simp add: shown_other)
  have "es_disabled (rp_elements (fold disable_form_element xs s) (pe_id e))" for xs
    using assms(4) by (induction xs arbitrary: s) (simp_all add: one)
  then have d: "es_disabled (rp_elements (disable_form_elements d form s) (pe_id e))" by (simp add: disable_form_elements_def)
  let ?t = "disable_form_elements d form s"
  let ?ys = "filter (\<lambda>x. lockable x \<and> es_disabled (rp_elements ?t (pe_id x))) (form_controls (rd_elements d) form)"
  have "e \<in> set ?ys" using assms(2,3) d by simp
  then obtain us vs where ys: "?ys = us @ e # vs" by (meson split_list)
  have "distinct (map pe_id ?ys)" using assms(1) by (simp add: distinct_map_filter)
  then have "pe_id e \<notin> pe_id ` set vs" unfolding ys by auto
  then have "shown_as e (fold enable_form_element ?ys ?t) = shown_as e (enable_form_element e (fold enable_form_element us ?t))"
    unfolding ys by (simp add: fold_other)
  then show ?thesis by (simp add: enable_form_elements_def shown_as_def enable_form_element_def put_element_def)
qed

lemma empty_text_stays_replaced:
  "let s = deal_page\<lparr>rp_elements := (\<lambda>i. \<lparr>es_value = Single [], es_html = [], es_checked = False, es_disabled = False\<rparr>)\<rparr>
   in shown_as sample_send (enable_form_elements sample_doc deal_form (disable_form_elements sample_doc deal_form s)) =
        (''Sending'', False)"
  by code_simp

text \<open>With a key for a new tab held, a link with another method sends its form all the same, and is not locked.\<close>

lemma held_key_still_sends:
  assumes "truthy_data e ''confirm'' = None" and "\<not> has_data e ''remote''" and "truthy_data e ''method'' = Some m" and "rw_meta w"
  shows "link_click w e s = rails_returns False (handle_method (rw_doc w) e s)"
  using assms by (simp add: link_click_def allow_action_def)

end
