(* ===== verification/Data_Attributes.thy ===== *)
theory Data_Attributes
  imports Prelude
begin

text \<open>
  What \<open>jQuery.data\<close> makes of a \<open>data-\<close> attribute (\<open>dataAttr\<close>), and the tests and conversions of JavaScript
  its readers apply to the result. A number is kept as its text, which is the text of the attribute, and a value read from
  JSON as what \<open>String\<close> gives for it; which texts are JSON is the argument \<open>json\<close>, the function
  \<open>jQuery.parseJSON\<close> of the browser. Numerals of more than fifteen digits or with an exponent count as texts here, which
  only a comparison of types could tell.
\<close>

datatype data_value =
  Undefined_Value | Null_Value | Bool_Value bool | Number_Value string | Json_Value string | Text_Value string

text \<open>Texts that a number prints as: no needless zeros and no minus before zero.\<close>

definition plain_whole :: "string \<Rightarrow> bool" where
  "plain_whole s \<longleftrightarrow> s \<noteq> [] \<and> list_all is_digit s \<and> (s = ''0'' \<or> hd s \<noteq> CHR ''0'')"

definition plain_fraction :: "string \<Rightarrow> bool" where
  "plain_fraction s \<longleftrightarrow> s \<noteq> [] \<and> list_all is_digit s \<and> last s \<noteq> CHR ''0''"

definition plain_numeral :: "string \<Rightarrow> bool" where
  "plain_numeral s \<longleftrightarrow>
     (let w = takeWhile is_digit s; r = dropWhile is_digit s in
        plain_whole w \<and> length w + length r \<le> 16 \<and>
        (r = [] \<and> length w \<le> 15 \<or>
         r \<noteq> [] \<and> hd r = CHR ''.'' \<and> plain_fraction (tl r) \<and>
           (w = ''0'' \<longrightarrow> length (takeWhile (\<lambda>c. c = CHR ''0'') (tl r)) \<le> 5)))"

definition js_numeral :: "string \<Rightarrow> bool" where
  "js_numeral s \<longleftrightarrow>
     s \<in> {''NaN'', ''Infinity'', ''-Infinity''} \<or> plain_numeral s \<or>
     (s \<noteq> [] \<and> hd s = CHR ''-'' \<and> tl s \<noteq> ''0'' \<and> plain_numeral (tl s))"

text \<open>\<open>rbrace\<close>.\<close>

definition braced :: "string \<Rightarrow> bool" where
  "braced s \<longleftrightarrow> 2 \<le> length s \<and> (hd s = CHR ''{'' \<and> last s = CHR ''}'' \<or> hd s = CHR ''['' \<and> last s = CHR '']'')"

definition data_of :: "(string \<Rightarrow> string option) \<Rightarrow> string option \<Rightarrow> data_value" where
  "data_of json a =
     (case a of
        None \<Rightarrow> Undefined_Value
      | Some s \<Rightarrow>
          if s = ''true'' then Bool_Value True
          else if s = ''false'' then Bool_Value False
          else if s = ''null'' then Null_Value
          else if js_numeral s then Number_Value s
          else if braced s then (case json s of Some t \<Rightarrow> Json_Value t | None \<Rightarrow> Text_Value s)
          else Text_Value s)"

fun truthy :: "data_value \<Rightarrow> bool" where
  "truthy Undefined_Value \<longleftrightarrow> False"
| "truthy Null_Value \<longleftrightarrow> False"
| "truthy (Bool_Value b) \<longleftrightarrow> b"
| "truthy (Number_Value s) \<longleftrightarrow> s \<notin> {''0'', ''NaN''}"
| "truthy (Json_Value s) \<longleftrightarrow> True"
| "truthy (Text_Value s) \<longleftrightarrow> s \<noteq> []"

text \<open>\<open>||\<close>.\<close>

definition or_else :: "data_value \<Rightarrow> data_value \<Rightarrow> data_value" where
  "or_else a b = (if truthy a then a else b)"

text \<open>\<open>String\<close>.\<close>

fun value_text :: "data_value \<Rightarrow> string" where
  "value_text Undefined_Value = ''undefined''"
| "value_text Null_Value = ''null''"
| "value_text (Bool_Value b) = (if b then ''true'' else ''false'')"
| "value_text (Number_Value s) = s"
| "value_text (Json_Value s) = s"
| "value_text (Text_Value s) = s"

text \<open>\<open>== true\<close>, for values that are not texts with an odd spelling of one and not JSON.\<close>

definition equals_true :: "data_value \<Rightarrow> bool" where
  "equals_true v \<longleftrightarrow> v = Bool_Value True \<or> v = Number_Value ''1''"

lemma truthy_or_else [simp]: "truthy (or_else a b) \<longleftrightarrow> truthy a \<or> truthy b"
  by (simp add: or_else_def)

lemma or_else_assoc: "or_else (or_else a b) c = or_else a (or_else b c)"
  by (simp add: or_else_def)

lemma data_of_text: "value_text (data_of json (Some s)) = s" if "\<not> braced s \<or> json s = None"
  using that by (auto simp: data_of_def split: option.split)

lemma data_of_defined: "data_of json (Some s) \<noteq> Undefined_Value"
  by (simp add: data_of_def split: option.split)

end
