(* ===== verification/Dialogs.thy ===== *)
theory Dialogs
  imports Prelude
begin

text \<open>
  The dialogs of the deployed bundle (\<open>$.ui.dialog\<close>): which are open and in what order, their overlays, who has the
  focus, and the handler on the document that keeps the focus in modal dialogs. The list of open dialogs and the
  number of overlays are data of the document, shared by all dialogs. Opening and closing happen at once, without
  effects; size, position, title bar and buttons are not modelled. What is inside a dialog, what can be focused and
  what the client answers is the record \<open>dialog_world\<close>, which may differ at each step.
\<close>

section \<open>The document and its dialogs\<close>

text \<open>Where the focus can be. The content of a dialog is named by the dialog also after it was put back.\<close>

datatype place = In_Content nat nat | Frame nat | In_Picker nat | Elsewhere nat | Nowhere

datatype whereabouts = In_Widget | Put_Back | Gone

record ui_dialog =
  dg_where :: whereabouts
  dg_auto :: bool
  dg_modal :: bool
  dg_escape :: bool
  dg_open :: bool
  dg_z :: int
  dg_overlay :: "int option"
  dg_opener :: place
  dg_focused :: "place option"

text \<open>Handlers of the document for \<open>focusin\<close>: the guard a dialog has bound, with the number of its overlay, or another's.\<close>

datatype focus_handler = Guard nat nat | Foreign

text \<open>What is put off by \<open>_delay\<close>.\<close>

datatype put_off = Opening_Over nat | Focus_Later place | Check_Later nat

datatype dialog_note = Told_Focus nat | Told_Open nat | Asked_Close nat | Told_Close nat

record dialog_page =
  dp_ids :: "nat list"
  dp_dialog :: "nat \<Rightarrow> ui_dialog"
  dp_instances :: "nat list"
  dp_overlays :: "int option"
  dp_made :: nat
  dp_strays :: "int list"
  dp_focusin :: "focus_handler list"
  dp_later :: "put_off list"
  dp_active :: place
  dp_log :: "dialog_note list"
  dp_errors :: nat

text \<open>
  \<open>dw_inside\<close> gives what a dialog finds in itself: elements with \<open>autofocus\<close>, what can be tabbed to in the content, in the
  button pane, and the close button. \<open>dw_focusable\<close> is jQuery UI's test, \<open>dw_takes\<close> what the browser does.
\<close>

record dialog_world =
  dw_inside :: "nat \<Rightarrow> nat list list"
  dw_tabbable :: "nat \<Rightarrow> place list"
  dw_focusable :: "place \<Rightarrow> bool"
  dw_takes :: "place \<Rightarrow> bool"
  dw_fronts :: "int list"
  dw_front_z :: int
  dw_may_close :: "nat \<Rightarrow> bool"

definition put_dialog :: "nat \<Rightarrow> (ui_dialog \<Rightarrow> ui_dialog) \<Rightarrow> dialog_page \<Rightarrow> dialog_page" where
  "put_dialog d f s = s\<lparr>dp_dialog := (dp_dialog s)(d := f (dp_dialog s d))\<rparr>"

definition tell :: "dialog_note \<Rightarrow> dialog_page \<Rightarrow> dialog_page" where
  "tell n s = s\<lparr>dp_log := dp_log s @ [n]\<rparr>"

definition dialog_error :: "dialog_page \<Rightarrow> dialog_page" where
  "dialog_error s = s\<lparr>dp_errors := Suc (dp_errors s)\<rparr>"

definition put_off :: "put_off \<Rightarrow> dialog_page \<Rightarrow> dialog_page" where
  "put_off x s = s\<lparr>dp_later := dp_later s @ [x]\<rparr>"

section \<open>Focus\<close>

text \<open>The dialog whose frame has a place in it.\<close>

definition dialog_around :: "dialog_page \<Rightarrow> place \<Rightarrow> nat option" where
  "dialog_around s x =
     (case x of
        In_Content d k \<Rightarrow> if dg_where (dp_dialog s d) = In_Widget then Some d else None
      | Frame d \<Rightarrow> if dg_where (dp_dialog s d) = In_Widget then Some d else None
      | _ \<Rightarrow> None)"

definition allow_interaction :: "dialog_page \<Rightarrow> place \<Rightarrow> bool" where
  "allow_interaction s x \<longleftrightarrow> dialog_around s x \<noteq> None \<or> (case x of In_Picker k \<Rightarrow> True | _ \<Rightarrow> False)"

definition untrack_instance :: "nat \<Rightarrow> dialog_page \<Rightarrow> dialog_page" where
  "untrack_instance d s = s\<lparr>dp_instances := remove1 d (dp_instances s)\<rparr>"

definition make_focus_target :: "nat \<Rightarrow> dialog_page \<Rightarrow> dialog_page" where
  "make_focus_target d s = (let s1 = untrack_instance d s in s1\<lparr>dp_instances := d # dp_instances s1\<rparr>)"

text \<open>The handler a dialog has on its frame for \<open>focusin\<close>.\<close>

definition track_focus :: "place \<Rightarrow> dialog_page \<Rightarrow> dialog_page" where
  "track_focus x s =
     (case dialog_around s x of
        Some d \<Rightarrow> put_dialog d (\<lambda>g. g\<lparr>dg_focused := Some x\<rparr>) (make_focus_target d s)
      | None \<Rightarrow> s)"

text \<open>Elements that are hidden or were removed do not take the focus, and the focus leaves an element that is hidden.\<close>

definition can_focus :: "dialog_world \<Rightarrow> dialog_page \<Rightarrow> place \<Rightarrow> bool" where
  "can_focus w s x \<longleftrightarrow>
     dw_takes w x \<and>
     (case x of
        In_Content d k \<Rightarrow>
          dg_where (dp_dialog s d) = In_Widget \<and> dg_open (dp_dialog s d) \<or> dg_where (dp_dialog s d) = Put_Back
      | Frame d \<Rightarrow> dg_where (dp_dialog s d) = In_Widget \<and> dg_open (dp_dialog s d)
      | Nowhere \<Rightarrow> False
      | _ \<Rightarrow> True)"

definition move_focus :: "dialog_world \<Rightarrow> place \<Rightarrow> dialog_page \<Rightarrow> dialog_page" where
  "move_focus w x s = (if can_focus w s x \<and> dp_active s \<noteq> x then track_focus x (s\<lparr>dp_active := x\<rparr>) else s)"

fun first_filled :: "nat list list \<Rightarrow> nat option" where
  "first_filled [] = None"
| "first_filled ([] # xss) = first_filled xss"
| "first_filled ((x # xs) # xss) = Some x"

definition focus_target :: "dialog_world \<Rightarrow> nat \<Rightarrow> dialog_page \<Rightarrow> place" where
  "focus_target w d s =
     (case dg_focused (dp_dialog s d) of
        Some x \<Rightarrow> x
      | None \<Rightarrow> (case first_filled (dw_inside w d) of Some k \<Rightarrow> In_Content d k | None \<Rightarrow> Frame d))"

text \<open>
  The guard on the document. When it moves the focus it meets itself, but then either allows the place or finds that the
  focus is already where it wants it.
\<close>

fun run_guard :: "dialog_world \<Rightarrow> place \<Rightarrow> focus_handler \<Rightarrow> dialog_page \<Rightarrow> dialog_page" where
  "run_guard w x (Guard d n) s =
     (if Opening_Over n \<in> set (dp_later s) \<or> allow_interaction s x then s
      else case dp_instances s of [] \<Rightarrow> dialog_error s | i # is \<Rightarrow> move_focus w (focus_target w i s) s)"
| "run_guard w x Foreign s = s"

definition focus_place :: "dialog_world \<Rightarrow> place \<Rightarrow> dialog_page \<Rightarrow> dialog_page" where
  "focus_place w x s =
     (if can_focus w s x \<and> dp_active s \<noteq> x then fold (run_guard w x) (dp_focusin s) (move_focus w x s) else s)"

definition focus_tabbable :: "dialog_world \<Rightarrow> nat \<Rightarrow> dialog_page \<Rightarrow> dialog_page" where
  "focus_tabbable w d s = focus_place w (focus_target w d s) s"

definition check_dialog_focus :: "dialog_world \<Rightarrow> nat \<Rightarrow> dialog_page \<Rightarrow> dialog_page" where
  "check_dialog_focus w d s = (if dialog_around s (dp_active s) = Some d then s else focus_tabbable w d s)"

section \<open>Overlays and order\<close>

definition create_overlay :: "dialog_world \<Rightarrow> nat \<Rightarrow> dialog_page \<Rightarrow> dialog_page" where
  "create_overlay w d s =
     (if \<not> dg_modal (dp_dialog s d) then s
      else
        let n = dp_made s;
            s1 = put_off (Opening_Over n) (s\<lparr>dp_made := Suc n\<rparr>);
            count = (case dp_overlays s of Some k \<Rightarrow> k | None \<Rightarrow> 0);
            s2 = (if count = 0 then s1\<lparr>dp_focusin := dp_focusin s1 @ [Guard d n]\<rparr> else s1);
            s3 = (case dg_overlay (dp_dialog s d) of Some z \<Rightarrow> s2\<lparr>dp_strays := z # dp_strays s2\<rparr> | None \<Rightarrow> s2)
        in (put_dialog d (\<lambda>g. g\<lparr>dg_overlay := Some (dw_front_z w)\<rparr>) s3)\<lparr>dp_overlays := Some (count + 1)\<rparr>)"

definition destroy_overlay :: "nat \<Rightarrow> dialog_page \<Rightarrow> dialog_page" where
  "destroy_overlay d s =
     (if \<not> dg_modal (dp_dialog s d) then s
      else case dg_overlay (dp_dialog s d) of
        None \<Rightarrow> s
      | Some z \<Rightarrow>
          let s1 = (case dp_overlays s of
                      Some k \<Rightarrow> if k - 1 = 0 then s\<lparr>dp_focusin := [], dp_overlays := None\<rparr> else s\<lparr>dp_overlays := Some (k - 1)\<rparr>
                    | None \<Rightarrow> s\<lparr>dp_focusin := [], dp_overlays := None\<rparr>)
          in put_dialog d (\<lambda>g. g\<lparr>dg_overlay := None\<rparr>) s1)"

text \<open>The other visible elements in front: open dialogs, overlays and what else the page shows there.\<close>

definition fronts :: "dialog_world \<Rightarrow> nat \<Rightarrow> dialog_page \<Rightarrow> int list" where
  "fronts w d s =
     map (\<lambda>i. dg_z (dp_dialog s i)) (filter (\<lambda>i. i \<noteq> d \<and> dg_open (dp_dialog s i)) (dp_ids s)) @
     List.map_filter (\<lambda>i. dg_overlay (dp_dialog s i)) (dp_ids s) @ dp_strays s @ dw_fronts w"

definition move_to_top :: "dialog_world \<Rightarrow> nat \<Rightarrow> bool \<Rightarrow> dialog_page \<Rightarrow> dialog_page \<times> bool" where
  "move_to_top w d silent s =
     (let zs = fronts w d s in
        if zs \<noteq> [] \<and> Max (set zs) \<ge> dg_z (dp_dialog s d)
        then let s1 = put_dialog d (\<lambda>g. g\<lparr>dg_z := Max (set zs) + 1\<rparr>) s
             in (if silent then s1 else tell (Told_Focus d) s1, True)
        else (s, False))"

section \<open>Operations\<close>

definition open_dialog :: "dialog_world \<Rightarrow> nat \<Rightarrow> dialog_page \<Rightarrow> dialog_page" where
  "open_dialog w d s =
     (if dg_open (dp_dialog s d)
      then let (s1, moved) = move_to_top w d False s in if moved then focus_tabbable w d s1 else s1
      else
        let s1 = put_dialog d (\<lambda>g. g\<lparr>dg_open := True, dg_opener := dp_active s\<rparr>) s;
            s2 = fst (move_to_top w d True (create_overlay w d s1));
            z = dg_z (dp_dialog s2 d);
            s3 = put_dialog d (\<lambda>g. g\<lparr>dg_overlay := map_option (\<lambda>_. z - 1) (dg_overlay g)\<rparr>) s2;
            s4 = tell (Told_Focus d) (focus_tabbable w d s3)
        in tell (Told_Open d) (make_focus_target d s4))"

text \<open>The focus goes back to what had it when the dialog was opened, or away when that cannot have it.\<close>

definition give_back_focus :: "dialog_world \<Rightarrow> nat \<Rightarrow> dialog_page \<Rightarrow> dialog_page" where
  "give_back_focus w d s =
     (let x = dg_opener (dp_dialog s d) in
        if x \<noteq> Nowhere \<and> dw_focusable w x then focus_place w x s else s\<lparr>dp_active := Nowhere\<rparr>)"

definition hide_dialog :: "nat \<Rightarrow> dialog_page \<Rightarrow> dialog_page" where
  "hide_dialog d s = (if dialog_around s (dp_active s) = Some d then s\<lparr>dp_active := Nowhere\<rparr> else s)"

definition close_dialog :: "dialog_world \<Rightarrow> nat \<Rightarrow> dialog_page \<Rightarrow> dialog_page" where
  "close_dialog w d s =
     (if \<not> dg_open (dp_dialog s d) then s
      else
        let s1 = tell (Asked_Close d) s in
          if \<not> dw_may_close w d then s1
          else
            let s2 = put_dialog d (\<lambda>g. g\<lparr>dg_open := False, dg_focused := None\<rparr>) s1;
                s3 = untrack_instance d (destroy_overlay d s2)
            in tell (Told_Close d) (hide_dialog d (give_back_focus w d s3)))"

definition make_dialog :: "dialog_world \<Rightarrow> nat \<Rightarrow> bool \<Rightarrow> bool \<Rightarrow> bool \<Rightarrow> dialog_page \<Rightarrow> dialog_page" where
  "make_dialog w d auto is_modal escape s =
     (let s1 = s\<lparr>dp_ids := dp_ids s @ [d], dp_dialog := (dp_dialog s)(d :=
          \<lparr>dg_where = In_Widget, dg_auto = auto, dg_modal = is_modal, dg_escape = escape, dg_open = False, dg_z = dw_front_z w,
           dg_overlay = None, dg_opener = Nowhere, dg_focused = None\<rparr>)\<rparr>
      in if auto then open_dialog w d s1 else s1)"

text \<open>\<open>dialog( options )\<close> on an element that is a dialog already sets the options and opens it again when it should.\<close>

definition dialog_init :: "dialog_world \<Rightarrow> nat \<Rightarrow> bool \<Rightarrow> bool \<Rightarrow> dialog_page \<Rightarrow> dialog_page" where
  "dialog_init w d auto is_modal s =
     (if d \<in> set (dp_ids s)
      then let s1 = put_dialog d (\<lambda>g. g\<lparr>dg_auto := auto, dg_modal := is_modal\<rparr>) s in if auto then open_dialog w d s1 else s1
      else make_dialog w d auto is_modal True s)"

definition destroy_dialog :: "nat \<Rightarrow> dialog_page \<Rightarrow> dialog_page" where
  "destroy_dialog d s =
     (let s1 = hide_dialog d (destroy_overlay d s) in
        (put_dialog d (\<lambda>g. g\<lparr>dg_where := Put_Back\<rparr>) s1)
          \<lparr>dp_ids := remove1 d (dp_ids s1),
           dp_focusin := filter (\<lambda>h. case h of Guard i n \<Rightarrow> i \<noteq> d | Foreign \<Rightarrow> True) (dp_focusin s1)\<rparr>)"

text \<open>The Tab key at either end of a dialog goes round.\<close>

definition dialog_tab :: "dialog_world \<Rightarrow> nat \<Rightarrow> bool \<Rightarrow> dialog_page \<Rightarrow> dialog_page" where
  "dialog_tab w d shift s =
     (let ts = dw_tabbable w d; x = dp_active s in
        if (x = Frame d \<or> ts \<noteq> [] \<and> x = last ts) \<and> \<not> shift
        then (if ts = [] then s else put_off (Focus_Later (hd ts)) s)
        else if (x = Frame d \<or> ts \<noteq> [] \<and> x = hd ts) \<and> shift
        then (if ts = [] then s else put_off (Focus_Later (last ts)) s)
        else s)"

definition run_put_off :: "dialog_world \<Rightarrow> put_off \<Rightarrow> dialog_page \<Rightarrow> dialog_page" where
  "run_put_off w x s =
     (case x of
        Opening_Over n \<Rightarrow> s
      | Focus_Later y \<Rightarrow> focus_place w y s
      | Check_Later d \<Rightarrow> check_dialog_focus w d s)"

datatype dialog_event =
    Make nat bool bool bool
  | Open nat
  | Close nat
  | Move_To_Top nat
  | Set_Modal nat bool
  | Destroy nat
  | Mouse_Down nat
  | Overlay_Down nat
  | Escape_Key nat
  | Tab_Key nat bool
  | User_Focus place
  | User_Blur
  | Later nat
  | New_Page

text \<open>A call of a method of a dialog that was not made throws. A new page replaces the body, but the document stays.\<close>

definition called :: "nat \<Rightarrow> (dialog_page \<Rightarrow> dialog_page) \<Rightarrow> dialog_page \<Rightarrow> dialog_page" where
  "called d f s = (if d \<in> set (dp_ids s) then f s else dialog_error s)"

definition shown_dialog :: "nat \<Rightarrow> dialog_page \<Rightarrow> bool" where
  "shown_dialog d s \<longleftrightarrow> d \<in> set (dp_ids s) \<and> dg_open (dp_dialog s d)"

fun dialog_step :: "dialog_world \<Rightarrow> dialog_event \<Rightarrow> dialog_page \<Rightarrow> dialog_page" where
  "dialog_step w (Make d auto m e) s = make_dialog w d auto m e s"
| "dialog_step w (Open d) s = called d (open_dialog w d) s"
| "dialog_step w (Close d) s = called d (close_dialog w d) s"
| "dialog_step w (Move_To_Top d) s = called d (\<lambda>s. fst (move_to_top w d False s)) s"
| "dialog_step w (Set_Modal d b) s = called d (put_dialog d (\<lambda>g. g\<lparr>dg_modal := b\<rparr>)) s"
| "dialog_step w (Destroy d) s = called d (destroy_dialog d) s"
| "dialog_step w (Mouse_Down d) s =
     (if shown_dialog d s
      then let (s1, moved) = move_to_top w d False s in if moved then focus_tabbable w d s1 else s1
      else s)"
| "dialog_step w (Overlay_Down d) s =
     (if shown_dialog d s \<and> dg_overlay (dp_dialog s d) \<noteq> None then put_off (Check_Later d) (check_dialog_focus w d s) else s)"
| "dialog_step w (Escape_Key d) s =
     (if shown_dialog d s \<and> dg_escape (dp_dialog s d) then close_dialog w d s else s)"
| "dialog_step w (Tab_Key d shift) s = (if shown_dialog d s then dialog_tab w d shift s else s)"
| "dialog_step w (User_Focus x) s = focus_place w x s"
| "dialog_step w User_Blur s = s\<lparr>dp_active := Nowhere\<rparr>"
| "dialog_step w (Later k) s =
     (if k < length (dp_later s)
      then run_put_off w (dp_later s ! k) (s\<lparr>dp_later := take k (dp_later s) @ drop (Suc k) (dp_later s)\<rparr>)
      else s)"
| "dialog_step w New_Page s =
     s\<lparr>dp_ids := [], dp_strays := [], dp_active := Nowhere, dp_dialog := (\<lambda>d. (dp_dialog s d)\<lparr>dg_where := Gone\<rparr>)\<rparr>"

text \<open>A page where nothing has happened yet; other widgets have bound handlers on the document.\<close>

definition fresh_page :: "focus_handler list \<Rightarrow> dialog_page" where
  "fresh_page hs =
     \<lparr>dp_ids = [],
      dp_dialog = (\<lambda>d. \<lparr>dg_where = Gone, dg_auto = False, dg_modal = False, dg_escape = False, dg_open = False, dg_z = 0,
        dg_overlay = None, dg_opener = Nowhere, dg_focused = None\<rparr>),
      dp_instances = [], dp_overlays = None, dp_made = 0, dp_strays = [], dp_focusin = hs, dp_later = [],
      dp_active = Nowhere, dp_log = [], dp_errors = 0\<rparr>"

definition dialog_run :: "(dialog_world \<times> dialog_event) list \<Rightarrow> dialog_page \<Rightarrow> dialog_page" where
  "dialog_run es s = fold (\<lambda>(w, e). dialog_step w e) es s"


section \<open>What the operations leave alone\<close>

lemma put_dialog_simps [simp]:
  "dp_dialog (put_dialog d f s) i = (if i = d then f (dp_dialog s d) else dp_dialog s i)"
  "dp_ids (put_dialog d f s) = dp_ids s" "dp_instances (put_dialog d f s) = dp_instances s"
  "dp_overlays (put_dialog d f s) = dp_overlays s" "dp_made (put_dialog d f s) = dp_made s"
  "dp_strays (put_dialog d f s) = dp_strays s" "dp_focusin (put_dialog d f s) = dp_focusin s"
  "dp_later (put_dialog d f s) = dp_later s" "dp_active (put_dialog d f s) = dp_active s"
  "dp_log (put_dialog d f s) = dp_log s" "dp_errors (put_dialog d f s) = dp_errors s"
  by (simp_all add: put_dialog_def)

lemma tell_simps [simp]:
  "dp_dialog (tell n s) = dp_dialog s" "dp_ids (tell n s) = dp_ids s" "dp_instances (tell n s) = dp_instances s"
  "dp_overlays (tell n s) = dp_overlays s" "dp_focusin (tell n s) = dp_focusin s" "dp_later (tell n s) = dp_later s"
  "dp_active (tell n s) = dp_active s" "dp_errors (tell n s) = dp_errors s" "dp_strays (tell n s) = dp_strays s"
  by (simp_all add: tell_def)

lemma put_off_simps [simp]:
  "dp_dialog (put_off x s) = dp_dialog s" "dp_ids (put_off x s) = dp_ids s" "dp_instances (put_off x s) = dp_instances s"
  "dp_overlays (put_off x s) = dp_overlays s" "dp_focusin (put_off x s) = dp_focusin s" "dp_strays (put_off x s) = dp_strays s"
  "dp_active (put_off x s) = dp_active s" "dp_errors (put_off x s) = dp_errors s" "dp_later (put_off x s) = dp_later s @ [x]"
  by (simp_all add: put_off_def)

lemma target_simps [simp]:
  "dp_dialog (make_focus_target d s) = dp_dialog s" "dp_ids (make_focus_target d s) = dp_ids s"
  "dp_instances (make_focus_target d s) = d # remove1 d (dp_instances s)"
  "dp_overlays (make_focus_target d s) = dp_overlays s" "dp_focusin (make_focus_target d s) = dp_focusin s"
  "dp_later (make_focus_target d s) = dp_later s" "dp_active (make_focus_target d s) = dp_active s"
  "dp_errors (make_focus_target d s) = dp_errors s" "dp_strays (make_focus_target d s) = dp_strays s"
  "dp_log (make_focus_target d s) = dp_log s" "dp_made (make_focus_target d s) = dp_made s"
  by (simp_all add: make_focus_target_def untrack_instance_def Let_def)

lemma around_cong: "(\<And>i. dg_where (dp_dialog s i) = dg_where (dp_dialog t i)) \<Longrightarrow> dialog_around s x = dialog_around t x"
  by (simp add: dialog_around_def split: place.split)

lemma around_in_widget: "dialog_around s x = Some d \<Longrightarrow> dg_where (dp_dialog s d) = In_Widget"
  by (auto simp: dialog_around_def split: place.splits if_splits)

lemma move_focus_frame [simp]:
  "dp_ids (move_focus w x s) = dp_ids s" "dp_overlays (move_focus w x s) = dp_overlays s"
  "dp_made (move_focus w x s) = dp_made s" "dp_strays (move_focus w x s) = dp_strays s"
  "dp_focusin (move_focus w x s) = dp_focusin s" "dp_later (move_focus w x s) = dp_later s"
  "dp_log (move_focus w x s) = dp_log s" "dp_errors (move_focus w x s) = dp_errors s"
  "dg_where (dp_dialog (move_focus w x s) i) = dg_where (dp_dialog s i)"
  "dg_auto (dp_dialog (move_focus w x s) i) = dg_auto (dp_dialog s i)"
  "dg_modal (dp_dialog (move_focus w x s) i) = dg_modal (dp_dialog s i)"
  "dg_escape (dp_dialog (move_focus w x s) i) = dg_escape (dp_dialog s i)"
  "dg_open (dp_dialog (move_focus w x s) i) = dg_open (dp_dialog s i)"
  "dg_z (dp_dialog (move_focus w x s) i) = dg_z (dp_dialog s i)"
  "dg_overlay (dp_dialog (move_focus w x s) i) = dg_overlay (dp_dialog s i)"
  "dg_opener (dp_dialog (move_focus w x s) i) = dg_opener (dp_dialog s i)"
  by (auto simp: move_focus_def track_focus_def split: option.split)

lemma around_frames [simp]:
  "dialog_around (move_focus w x s) y = dialog_around s y" "dialog_around (tell n s) y = dialog_around s y"
  "dialog_around (make_focus_target d s) y = dialog_around s y" "dialog_around (put_off q s) y = dialog_around s y"
  "dialog_around (s\<lparr>dp_active := z\<rparr>) y = dialog_around s y"
  by (auto intro: around_cong)

lemma around_put [simp]:
  "(\<And>g. dg_where (f g) = dg_where g) \<Longrightarrow> dialog_around (put_dialog d f s) y = dialog_around s y"
  by (rule around_cong) simp

section \<open>Open dialogs are the ones tracked\<close>

definition open_dialogs :: "dialog_page \<Rightarrow> nat set" where
  "open_dialogs s = {d \<in> set (dp_ids s). dg_open (dp_dialog s d)}"

definition overlaid :: "dialog_page \<Rightarrow> nat set" where
  "overlaid s = {d \<in> set (dp_ids s). dg_overlay (dp_dialog s d) \<noteq> None}"

text \<open>Between opening a dialog and tracking it, it is the exception \<open>X\<close>.\<close>

definition dialogs_inv :: "nat set \<Rightarrow> dialog_page \<Rightarrow> bool" where
  "dialogs_inv X s \<longleftrightarrow>
     distinct (dp_ids s) \<and> (\<forall>d. d \<in> set (dp_ids s) \<longleftrightarrow> dg_where (dp_dialog s d) = In_Widget) \<and>
     distinct (dp_instances s) \<and> set (dp_instances s) \<subseteq> open_dialogs s \<and> open_dialogs s - X \<subseteq> set (dp_instances s) \<and>
     (\<forall>d \<in> set (dp_ids s). dg_overlay (dp_dialog s d) \<noteq> None \<longleftrightarrow> dg_open (dp_dialog s d) \<and> dg_modal (dp_dialog s d)) \<and>
     (\<forall>d \<in> set (dp_ids s). \<forall>x. dg_focused (dp_dialog s d) = Some x \<longrightarrow> dialog_around s x = Some d \<and> dg_open (dp_dialog s d)) \<and>
     (\<forall>d \<in> open_dialogs s. dialog_around s (dg_opener (dp_dialog s d)) \<noteq> Some d) \<and>
     dp_overlays s = (if overlaid s = {} then None else Some (int (card (overlaid s)))) \<and>
     ((\<exists>h \<in> set (dp_focusin s). h \<noteq> Foreign) \<longleftrightarrow> dp_overlays s \<noteq> None)"

definition active_ok :: "dialog_page \<Rightarrow> bool" where
  "active_ok s \<longleftrightarrow>
     (case dp_active s of
        In_Content d k \<Rightarrow> d \<in> open_dialogs s \<or> dg_where (dp_dialog s d) = Put_Back
      | Frame d \<Rightarrow> d \<in> open_dialogs s
      | _ \<Rightarrow> True)"

lemma inv_frame:
  assumes "dialogs_inv X s" and "dp_ids t = dp_ids s" and "dp_instances t = dp_instances s" and "dp_overlays t = dp_overlays s"
    and "dp_focusin t = dp_focusin s"
    and "\<And>i. dg_where (dp_dialog t i) = dg_where (dp_dialog s i)" and "\<And>i. dg_open (dp_dialog t i) = dg_open (dp_dialog s i)"
    and "\<And>i. dg_modal (dp_dialog t i) = dg_modal (dp_dialog s i)"
    and "\<And>i. dg_overlay (dp_dialog t i) = None \<longleftrightarrow> dg_overlay (dp_dialog s i) = None"
    and "\<And>i. dg_focused (dp_dialog t i) = dg_focused (dp_dialog s i)" and "\<And>i. dg_opener (dp_dialog t i) = dg_opener (dp_dialog s i)"
  shows "dialogs_inv X t"
proof -
  have "open_dialogs t = open_dialogs s" "overlaid t = overlaid s" using assms by (simp_all add: open_dialogs_def overlaid_def)
  moreover have "dialog_around t x = dialog_around s x" for x by (rule around_cong) (simp add: assms)
  ultimately show ?thesis using assms(1) by (simp add: dialogs_inv_def assms(2-))
qed

lemma inv_tracks:
  assumes "dialogs_inv X s" and "d \<in> open_dialogs s"
  shows "dialogs_inv (X - {d}) (make_focus_target d s)"
proof -
  have "open_dialogs (make_focus_target d s) = open_dialogs s" "overlaid (make_focus_target d s) = overlaid s"
    by (simp_all add: open_dialogs_def overlaid_def)
  moreover have "set (d # remove1 d (dp_instances s)) = insert d (set (dp_instances s))"
    using assms(1) by (auto simp: dialogs_inv_def set_remove1_eq)
  ultimately show ?thesis using assms by (auto simp: dialogs_inv_def)
qed

lemma inv_mono: "dialogs_inv X s \<Longrightarrow> X \<subseteq> Y \<Longrightarrow> dialogs_inv Y s"
  by (auto simp: dialogs_inv_def)

lemma can_focus_dialog:
  assumes "dialogs_inv X s" and "can_focus w s x" and "dialog_around s x = Some d"
  shows "d \<in> open_dialogs s"
  using assms around_in_widget [OF assms(3)]
  by (auto simp: can_focus_def dialogs_inv_def open_dialogs_def dialog_around_def split: place.splits if_splits)

lemma inv_move:
  assumes "dialogs_inv X s"
  shows "dialogs_inv X (move_focus w x s)"
proof (cases "can_focus w s x \<and> dp_active s \<noteq> x")
  case True
  let ?s = "s\<lparr>dp_active := x\<rparr>"
  have i: "dialogs_inv X ?s" by (rule inv_frame [OF assms]) simp_all
  show ?thesis
  proof (cases "dialog_around s x")
    case None
    then show ?thesis using True i by (simp add: move_focus_def track_focus_def)
  next
    case (Some d)
    have d: "d \<in> open_dialogs s" using can_focus_dialog [OF assms _ Some] True by blast
    then have "dialogs_inv (X - {d}) (make_focus_target d ?s)" by (intro inv_tracks [OF i]) (simp add: open_dialogs_def)
    then have j: "dialogs_inv X (make_focus_target d ?s)" by (rule inv_mono) blast
    let ?t = "put_dialog d (\<lambda>g. g\<lparr>dg_focused := Some x\<rparr>) (make_focus_target d ?s)"
    have "open_dialogs ?t = open_dialogs s" "overlaid ?t = overlaid s" by (auto simp: open_dialogs_def overlaid_def)
    moreover have "open_dialogs (make_focus_target d ?s) = open_dialogs s" "overlaid (make_focus_target d ?s) = overlaid s"
      by (auto simp: open_dialogs_def overlaid_def)
    ultimately have "dialogs_inv X ?t" using j d Some by (auto simp: dialogs_inv_def open_dialogs_def)
    then show ?thesis using True Some by (simp add: move_focus_def track_focus_def)
  qed
next
  case False
  then have "move_focus w x s = s" unfolding move_focus_def by auto
  then show ?thesis using assms by simp
qed

lemma active_move: "dialogs_inv X s \<Longrightarrow> active_ok s \<Longrightarrow> active_ok (move_focus w x s)"
  by (auto simp: active_ok_def move_focus_def track_focus_def can_focus_def dialogs_inv_def open_dialogs_def
      split: option.split place.splits)


lemma tracked_nonempty:
  assumes "dialogs_inv X s" and "h \<in> set (dp_focusin s)" and "h \<noteq> Foreign"
  shows "open_dialogs s \<noteq> {}"
proof -
  have "overlaid s \<noteq> {}" using assms by (auto simp: dialogs_inv_def split: if_splits)
  then show ?thesis using assms(1) by (auto simp: overlaid_def open_dialogs_def dialogs_inv_def)
qed

lemma run_guard_cases:
  assumes "dialogs_inv {} s" and "h \<in> set (dp_focusin s)"
  shows "run_guard w x h s = s \<or> (\<exists>y. run_guard w x h s = move_focus w y s)"
proof (cases h)
  case (Guard d n)
  then have "set (dp_instances s) \<noteq> {}" using tracked_nonempty [OF assms] assms(1) by (auto simp: dialogs_inv_def)
  then show ?thesis using Guard by (cases "dp_instances s") auto
qed simp

lemma inv_guards:
  assumes "dialogs_inv {} s" and "active_ok s" and "set hs \<subseteq> set (dp_focusin s)"
  shows "dialogs_inv {} (fold (run_guard w x) hs s) \<and> active_ok (fold (run_guard w x) hs s) \<and>
    dp_errors (fold (run_guard w x) hs s) = dp_errors s"
  using assms
proof (induction hs arbitrary: s)
  case (Cons h hs)
  have "run_guard w x h s = s \<or> (\<exists>y. run_guard w x h s = move_focus w y s)"
    using run_guard_cases [OF Cons.prems(1)] Cons.prems(3) by simp
  then have r: "dialogs_inv {} (run_guard w x h s)" "active_ok (run_guard w x h s)" "set hs \<subseteq> set (dp_focusin (run_guard w x h s))"
    "dp_errors (run_guard w x h s) = dp_errors s"
    using Cons.prems inv_move active_move by (metis move_focus_frame(5,8) set_subset_Cons subset_trans)+
  then show ?case using Cons.IH [OF r(1,2,3)] by simp
qed simp

lemma inv_focus_place:
  assumes "dialogs_inv {} s"
  shows "dialogs_inv {} (focus_place w x s)" "dp_errors (focus_place w x s) = dp_errors s"
    and "active_ok s \<Longrightarrow> active_ok (focus_place w x s)"
    and "can_focus w s x \<Longrightarrow> dp_active s \<noteq> x \<Longrightarrow> active_ok (focus_place w x s)"
proof -
  have fresh: "active_ok (move_focus w x s)" if "can_focus w s x" "dp_active s \<noteq> x"
    using that assms by (auto simp: active_ok_def move_focus_def track_focus_def can_focus_def dialogs_inv_def open_dialogs_def
        split: option.split place.splits)
  let ?t = "fold (run_guard w x) (dp_focusin s) (move_focus w x s)"
  have g: "dialogs_inv {} ?t \<and> active_ok ?t \<and> dp_errors ?t = dp_errors s" if "can_focus w s x" "dp_active s \<noteq> x"
    using inv_guards [OF inv_move [OF assms] fresh [OF that], of "dp_focusin s" w x] by simp
  show "dialogs_inv {} (focus_place w x s)" "dp_errors (focus_place w x s) = dp_errors s"
    "active_ok s \<Longrightarrow> active_ok (focus_place w x s)"
    "can_focus w s x \<Longrightarrow> dp_active s \<noteq> x \<Longrightarrow> active_ok (focus_place w x s)"
    using g assms by (simp_all add: focus_place_def)
qed

text \<open>A place in a dialog is allowed, so that the guard does nothing.\<close>

lemma guards_allow:
  assumes "allow_interaction s x"
  shows "fold (run_guard w x) hs s = s"
proof (induction hs)
  case (Cons h hs)
  have "run_guard w x h s = s" using assms by (cases h) simp_all
  then show ?case using Cons by simp
qed simp

lemma focus_place_allowed: "dialog_around s x = Some d \<Longrightarrow> focus_place w x s = move_focus w x s"
  by (simp add: focus_place_def guards_allow allow_interaction_def) (simp add: move_focus_def)

lemma target_in_dialog:
  assumes "d \<in> set (dp_ids s)" and "dialogs_inv X s"
  shows "dialog_around s (focus_target w d s) = Some d"
  using assms by (auto simp: focus_target_def dialogs_inv_def dialog_around_def split: option.split)

lemma focus_tabbable_moves:
  assumes "d \<in> set (dp_ids s)" and "dialogs_inv X s"
  shows "focus_tabbable w d s = move_focus w (focus_target w d s) s"
  unfolding focus_tabbable_def by (rule focus_place_allowed [OF target_in_dialog [OF assms]])


section \<open>Each operation keeps the invariant\<close>

lemma move_to_top_frame [simp]:
  "dp_ids (fst (move_to_top w d b s)) = dp_ids s" "dp_instances (fst (move_to_top w d b s)) = dp_instances s"
  "dp_overlays (fst (move_to_top w d b s)) = dp_overlays s" "dp_focusin (fst (move_to_top w d b s)) = dp_focusin s"
  "dp_later (fst (move_to_top w d b s)) = dp_later s" "dp_strays (fst (move_to_top w d b s)) = dp_strays s"
  "dp_active (fst (move_to_top w d b s)) = dp_active s" "dp_errors (fst (move_to_top w d b s)) = dp_errors s"
  "dg_where (dp_dialog (fst (move_to_top w d b s)) i) = dg_where (dp_dialog s i)"
  "dg_open (dp_dialog (fst (move_to_top w d b s)) i) = dg_open (dp_dialog s i)"
  "dg_modal (dp_dialog (fst (move_to_top w d b s)) i) = dg_modal (dp_dialog s i)"
  "dg_overlay (dp_dialog (fst (move_to_top w d b s)) i) = dg_overlay (dp_dialog s i)"
  "dg_focused (dp_dialog (fst (move_to_top w d b s)) i) = dg_focused (dp_dialog s i)"
  "dg_opener (dp_dialog (fst (move_to_top w d b s)) i) = dg_opener (dp_dialog s i)"
  "dialog_around (fst (move_to_top w d b s)) y = dialog_around s y"
  by (auto simp: move_to_top_def Let_def intro: around_cong)

lemma inv_move_to_top: "dialogs_inv X s \<Longrightarrow> dialogs_inv X (fst (move_to_top w d b s))"
  by (rule inv_frame) simp_all

lemma active_cong:
  assumes "active_ok s" and "dp_active t = dp_active s" and "open_dialogs s \<subseteq> open_dialogs t"
    and "\<And>i. dg_where (dp_dialog s i) = Put_Back \<Longrightarrow> dg_where (dp_dialog t i) = Put_Back"
  shows "active_ok t"
  using assms by (auto simp: active_ok_def split: place.splits)

text \<open>What every operation keeps: the invariant, the place of the focus, and the count of errors.\<close>

definition keeps_dialogs :: "dialog_page \<Rightarrow> dialog_page \<Rightarrow> bool" where
  "keeps_dialogs s t \<longleftrightarrow> dialogs_inv {} t \<and> active_ok t \<and> dp_errors t = dp_errors s"

lemma keeps_move_to_top:
  "dialogs_inv {} s \<Longrightarrow> active_ok s \<Longrightarrow> keeps_dialogs s (fst (move_to_top w d b s))"
  by (auto simp: keeps_dialogs_def inv_move_to_top open_dialogs_def intro: active_cong)

lemma keeps_focus:
  "dialogs_inv {} s \<Longrightarrow> active_ok s \<Longrightarrow> keeps_dialogs s (focus_place w x s)"
  by (simp add: keeps_dialogs_def inv_focus_place)

lemma keeps_trans: "keeps_dialogs s t \<Longrightarrow> keeps_dialogs t u \<Longrightarrow> keeps_dialogs s u"
  by (simp add: keeps_dialogs_def)

lemma keepsD: "keeps_dialogs s t \<Longrightarrow> dialogs_inv {} t" "keeps_dialogs s t \<Longrightarrow> active_ok t"
  by (simp_all add: keeps_dialogs_def)

lemma keeps_raise:
  assumes "dialogs_inv {} s" and "active_ok s"
  shows "keeps_dialogs s (let (s1, moved) = move_to_top w d False s in if moved then focus_tabbable w d s1 else s1)"
  using keeps_move_to_top [OF assms, of w d False] keeps_focus keeps_trans keepsD
  by (simp add: focus_tabbable_def split: prod.split) (metis fst_conv)

text \<open>Opening.\<close>

definition overlay_made :: "dialog_world \<Rightarrow> nat \<Rightarrow> dialog_page \<Rightarrow> dialog_page" where
  "overlay_made w d s = create_overlay w d (put_dialog d (\<lambda>g. g\<lparr>dg_open := True, dg_opener := dp_active s\<rparr>) s)"

lemma overlay_made_frame [simp]:
  assumes "dg_overlay (dp_dialog s d) = None"
  shows "dp_ids (overlay_made w d s) = dp_ids s" "dp_instances (overlay_made w d s) = dp_instances s"
    "dp_active (overlay_made w d s) = dp_active s" "dp_errors (overlay_made w d s) = dp_errors s"
    "dg_where (dp_dialog (overlay_made w d s) i) = dg_where (dp_dialog s i)"
    "dg_open (dp_dialog (overlay_made w d s) i) \<longleftrightarrow> i = d \<or> dg_open (dp_dialog s i)"
    "dg_modal (dp_dialog (overlay_made w d s) i) = dg_modal (dp_dialog s i)"
    "dg_focused (dp_dialog (overlay_made w d s) i) = dg_focused (dp_dialog s i)"
    "dg_opener (dp_dialog (overlay_made w d s) i) = (if i = d then dp_active s else dg_opener (dp_dialog s i))"
    "dg_overlay (dp_dialog (overlay_made w d s) i) =
       (if i = d then if dg_modal (dp_dialog s d) then Some (dw_front_z w) else None else dg_overlay (dp_dialog s i))"
    "dialog_around (overlay_made w d s) x = dialog_around s x"
    "dp_strays (overlay_made w d s) = dp_strays s"
    "dg_z (dp_dialog (overlay_made w d s) i) = dg_z (dp_dialog s i)"
  using assms by (auto simp: overlay_made_def create_overlay_def Let_def intro!: around_cong split: option.split)

lemma inv_overlay_made:
  assumes "dialogs_inv {} s" and "active_ok s" and "d \<in> set (dp_ids s)" and "\<not> dg_open (dp_dialog s d)"
  shows "dialogs_inv {d} (overlay_made w d s)"
proof -
  let ?t = "overlay_made w d s"
  have ov: "dg_overlay (dp_dialog s d) = None" and m: "dg_where (dp_dialog s d) = In_Widget" and fn: "dg_focused (dp_dialog s d) = None"
    using assms(1,3,4) by (auto simp: dialogs_inv_def)
  note fr = overlay_made_frame [OF ov]
  have o: "open_dialogs ?t = insert d (open_dialogs s)" using assms(3) by (auto simp: open_dialogs_def fr)
  have od: "overlaid ?t = (if dg_modal (dp_dialog s d) then insert d (overlaid s) else overlaid s)"
    using assms(3) ov by (auto simp: overlaid_def fr)
  have c: "d \<notin> overlaid s" "finite (overlaid s)" using ov by (auto simp: overlaid_def)
  have act: "dialog_around s (dp_active s) \<noteq> Some d"
    using assms(2,4) m by (auto simp: active_ok_def open_dialogs_def dialog_around_def split: place.splits)
  have ovs: "dp_overlays ?t = (if overlaid ?t = {} then None else Some (int (card (overlaid ?t)))) \<and>
    ((\<exists>h \<in> set (dp_focusin ?t). h \<noteq> Foreign) \<longleftrightarrow> dp_overlays ?t \<noteq> None)"
  proof (cases "dg_modal (dp_dialog s d)")
    case True
    have "dp_overlays ?t = Some ((case dp_overlays s of Some k \<Rightarrow> k | None \<Rightarrow> 0) + 1)"
      "dp_focusin ?t = (if (case dp_overlays s of Some k \<Rightarrow> k | None \<Rightarrow> 0) = 0 then dp_focusin s @ [Guard d (dp_made s)] else dp_focusin s)"
      using True ov by (simp_all add: overlay_made_def create_overlay_def Let_def)
    moreover have "dp_overlays s = (if overlaid s = {} then None else Some (int (card (overlaid s))))"
      "(\<exists>h \<in> set (dp_focusin s). h \<noteq> Foreign) \<longleftrightarrow> dp_overlays s \<noteq> None" using assms(1) by (simp_all add: dialogs_inv_def)
    ultimately show ?thesis using True c by (auto simp: od)
  next
    case False
    then have "dp_overlays ?t = dp_overlays s" "dp_focusin ?t = dp_focusin s" by (simp_all add: overlay_made_def create_overlay_def)
    then show ?thesis using assms(1) False by (simp add: dialogs_inv_def od)
  qed
  have rest: "distinct (dp_ids s)" "\<forall>i. i \<in> set (dp_ids s) \<longleftrightarrow> dg_where (dp_dialog s i) = In_Widget" "distinct (dp_instances s)"
    "set (dp_instances s) = open_dialogs s"
    "\<forall>i \<in> set (dp_ids s). dg_overlay (dp_dialog s i) \<noteq> None \<longleftrightarrow> dg_open (dp_dialog s i) \<and> dg_modal (dp_dialog s i)"
    "\<forall>i \<in> set (dp_ids s). \<forall>x. dg_focused (dp_dialog s i) = Some x \<longrightarrow> dialog_around s x = Some i \<and> dg_open (dp_dialog s i)"
    "\<forall>i \<in> open_dialogs s. dialog_around s (dg_opener (dp_dialog s i)) \<noteq> Some i"
    using assms(1) by (auto simp: dialogs_inv_def)
  show ?thesis unfolding dialogs_inv_def using ovs
    by (intro conjI) (use rest assms(3,4) act ov fn in \<open>auto simp: fr o\<close>)
qed

lemma fold_guard_frame [simp]:
  "dp_ids (fold (run_guard w x) hs s) = dp_ids s"
  "dg_open (dp_dialog (fold (run_guard w x) hs s) i) = dg_open (dp_dialog s i)"
  "dg_modal (dp_dialog (fold (run_guard w x) hs s) i) = dg_modal (dp_dialog s i)"
proof (induction hs arbitrary: s)
  case (Cons h hs)
  { case 1 then show ?case using Cons by (cases h) (simp_all add: dialog_error_def split: list.split) }
  { case 2 then show ?case using Cons by (cases h) (simp_all add: dialog_error_def split: list.split) }
  { case 3 then show ?case using Cons by (cases h) (simp_all add: dialog_error_def split: list.split) }
qed simp_all

lemma focus_place_frame [simp]:
  "dp_ids (focus_place w x s) = dp_ids s" "dg_open (dp_dialog (focus_place w x s) i) = dg_open (dp_dialog s i)"
  "dg_modal (dp_dialog (focus_place w x s) i) = dg_modal (dp_dialog s i)"
  by (simp_all add: focus_place_def)

lemma open_opens:
  "dp_ids (open_dialog w d s) = dp_ids s"
  "dg_open (dp_dialog (open_dialog w d s) i) \<longleftrightarrow> i = d \<or> dg_open (dp_dialog s i)"
  "dg_modal (dp_dialog (open_dialog w d s) i) = dg_modal (dp_dialog s i)"
  by (auto simp: open_dialog_def create_overlay_def focus_tabbable_def move_to_top_def Let_def split: option.split)

lemma keeps_open:
  assumes "dialogs_inv {} s" and "active_ok s" and "d \<in> set (dp_ids s)"
  shows "keeps_dialogs s (open_dialog w d s)"
proof (cases "dg_open (dp_dialog s d)")
  case True
  then show ?thesis using keeps_raise [OF assms(1,2)] by (simp add: open_dialog_def)
next
  case False
  let ?m = "overlay_made w d s"
  define s2 where "s2 = fst (move_to_top w d True ?m)"
  define s3 where "s3 = put_dialog d (\<lambda>g. g\<lparr>dg_overlay := map_option (\<lambda>_. dg_z (dp_dialog s2 d) - 1) (dg_overlay g)\<rparr>) s2"
  have ov: "dg_overlay (dp_dialog s d) = None" using assms(1,3) False by (auto simp: dialogs_inv_def)
  note fr = overlay_made_frame [OF ov]
  have i2: "dialogs_inv {d} s2" unfolding s2_def by (rule inv_move_to_top [OF inv_overlay_made [OF assms(1,2,3) False]])
  have i3: "dialogs_inv {d} s3" by (rule inv_frame [OF i2]) (auto simp: s3_def)
  have d3: "d \<in> set (dp_ids s3)" using assms(3) by (simp add: s3_def s2_def fr)
  let ?x = "focus_target w d s3"
  have f: "focus_tabbable w d s3 = move_focus w ?x s3" by (rule focus_tabbable_moves [OF d3 i3])
  have i4: "dialogs_inv {d} (move_focus w ?x s3)" by (rule inv_move [OF i3])
  have eq: "open_dialog w d s = tell (Told_Open d) (make_focus_target d (tell (Told_Focus d) (move_focus w ?x s3)))"
    using False unfolding f [symmetric] by (simp add: open_dialog_def Let_def overlay_made_def s2_def s3_def)
  have "dialogs_inv {d} (tell (Told_Focus d) (move_focus w ?x s3))" by (rule inv_frame [OF i4]) simp_all
  moreover have "d \<in> open_dialogs (tell (Told_Focus d) (move_focus w ?x s3))"
    using d3 by (simp add: open_dialogs_def s3_def s2_def fr)
  ultimately have "dialogs_inv ({d} - {d}) (make_focus_target d (tell (Told_Focus d) (move_focus w ?x s3)))" by (rule inv_tracks)
  then have "dialogs_inv {} (make_focus_target d (tell (Told_Focus d) (move_focus w ?x s3)))" by simp
  from inv_frame [OF this] have "dialogs_inv {} (open_dialog w d s)" unfolding eq by simp
  moreover have "active_ok s3" using assms(2,3) by (rule_tac active_cong [of s]) (auto simp: s3_def s2_def fr open_dialogs_def)
  then have "active_ok (move_focus w ?x s3)" by (rule active_move [OF i3])
  then have "active_ok (open_dialog w d s)" unfolding eq by (rule active_cong) (auto simp: open_dialogs_def)
  moreover have "dp_errors (open_dialog w d s) = dp_errors s" by (simp add: eq s3_def s2_def fr)
  ultimately show ?thesis by (simp add: keeps_dialogs_def)
qed


text \<open>Closing.\<close>

definition put_away :: "nat \<Rightarrow> dialog_page \<Rightarrow> dialog_page" where
  "put_away d s =
     untrack_instance d (destroy_overlay d (put_dialog d (\<lambda>g. g\<lparr>dg_open := False, dg_focused := None\<rparr>) (tell (Asked_Close d) s)))"

lemma put_away_frame [simp]:
  "dp_ids (put_away d s) = dp_ids s" "dp_instances (put_away d s) = remove1 d (dp_instances s)"
  "dp_active (put_away d s) = dp_active s" "dp_errors (put_away d s) = dp_errors s"
  "dg_where (dp_dialog (put_away d s) i) = dg_where (dp_dialog s i)"
  "dg_open (dp_dialog (put_away d s) i) \<longleftrightarrow> i \<noteq> d \<and> dg_open (dp_dialog s i)"
  "dg_modal (dp_dialog (put_away d s) i) = dg_modal (dp_dialog s i)"
  "dg_focused (dp_dialog (put_away d s) i) = (if i = d then None else dg_focused (dp_dialog s i))"
  "dg_opener (dp_dialog (put_away d s) i) = dg_opener (dp_dialog s i)"
  "dg_z (dp_dialog (put_away d s) i) = dg_z (dp_dialog s i)"
  "dg_overlay (dp_dialog (put_away d s) i) =
     (if i = d \<and> dg_modal (dp_dialog s d) then None else dg_overlay (dp_dialog s i))"
  "dialog_around (put_away d s) x = dialog_around s x" "dp_later (put_away d s) = dp_later s"
  by (auto simp: put_away_def destroy_overlay_def untrack_instance_def Let_def intro!: around_cong split: option.split)

lemma inv_put_away:
  assumes "dialogs_inv {} s" and "d \<in> set (dp_ids s)" and "dg_open (dp_dialog s d)"
  shows "dialogs_inv {} (put_away d s)"
proof -
  let ?t = "put_away d s"
  have ov: "dg_overlay (dp_dialog s d) \<noteq> None \<longleftrightarrow> dg_modal (dp_dialog s d)" using assms by (auto simp: dialogs_inv_def)
  have o: "open_dialogs ?t = open_dialogs s - {d}" by (auto simp: open_dialogs_def)
  have od: "overlaid ?t = overlaid s - {d}" using ov by (auto simp: overlaid_def)
  have fin: "finite (overlaid s)" by (auto simp: overlaid_def)
  have ovs: "dp_overlays ?t = (if overlaid ?t = {} then None else Some (int (card (overlaid ?t)))) \<and>
    ((\<exists>h \<in> set (dp_focusin ?t). h \<noteq> Foreign) \<longleftrightarrow> dp_overlays ?t \<noteq> None)"
  proof (cases "dg_modal (dp_dialog s d)")
    case True
    then obtain z where z: "dg_overlay (dp_dialog s d) = Some z" using ov by auto
    then have d: "d \<in> overlaid s" using assms(2) by (simp add: overlaid_def)
    then have k: "dp_overlays s = Some (int (card (overlaid s)))" using assms(1) by (auto simp: dialogs_inv_def)
    have g: "\<exists>h \<in> set (dp_focusin s). h \<noteq> Foreign" using assms(1) k by (simp add: dialogs_inv_def)
    have c: "card (overlaid s) = Suc (card (overlaid s - {d}))" using card_Suc_Diff1 [OF fin d] by simp
    have one: "int (card (overlaid s)) - 1 = 0 \<longleftrightarrow> overlaid s - {d} = {}" unfolding c using fin by auto
    have m1: "int (card (overlaid s)) - 1 = int (card (overlaid s - {d}))" unfolding c by simp
    have "dp_overlays ?t = (if int (card (overlaid s)) - 1 = 0 then None else Some (int (card (overlaid s)) - 1))"
      "dp_focusin ?t = (if int (card (overlaid s)) - 1 = 0 then [] else dp_focusin s)"
      using True z k by (simp_all add: put_away_def destroy_overlay_def untrack_instance_def)
    then show ?thesis unfolding od using one m1 g by auto
  next
    case False
    then have "dp_overlays ?t = dp_overlays s" "dp_focusin ?t = dp_focusin s"
      by (simp_all add: put_away_def destroy_overlay_def untrack_instance_def)
    moreover have "overlaid s - {d} = overlaid s" using False ov by (auto simp: overlaid_def)
    ultimately show ?thesis using assms(1) by (simp add: dialogs_inv_def od)
  qed
  have rest: "distinct (dp_ids s)" "\<forall>i. i \<in> set (dp_ids s) \<longleftrightarrow> dg_where (dp_dialog s i) = In_Widget" "distinct (dp_instances s)"
    "set (dp_instances s) = open_dialogs s"
    "\<forall>i \<in> set (dp_ids s). dg_overlay (dp_dialog s i) \<noteq> None \<longleftrightarrow> dg_open (dp_dialog s i) \<and> dg_modal (dp_dialog s i)"
    "\<forall>i \<in> set (dp_ids s). \<forall>x. dg_focused (dp_dialog s i) = Some x \<longrightarrow> dialog_around s x = Some i \<and> dg_open (dp_dialog s i)"
    "\<forall>i \<in> open_dialogs s. dialog_around s (dg_opener (dp_dialog s i)) \<noteq> Some i"
    using assms(1) by (auto simp: dialogs_inv_def)
  show ?thesis unfolding dialogs_inv_def using ovs
    by (intro conjI) (use rest ov in \<open>auto simp: o set_remove1_eq distinct_remove1\<close>)
qed

lemma keeps_close:
  assumes "dialogs_inv {} s" and "active_ok s" and "d \<in> set (dp_ids s)"
  shows "keeps_dialogs s (close_dialog w d s)"
proof (cases "dg_open (dp_dialog s d) \<and> dw_may_close w d")
  case False
  have "dialogs_inv {} (tell (Asked_Close d) s)" by (rule inv_frame [OF assms(1)]) simp_all
  moreover have "active_ok (tell (Asked_Close d) s)" by (rule active_cong [OF assms(2)]) (auto simp: open_dialogs_def)
  ultimately show ?thesis using False assms by (auto simp: close_dialog_def keeps_dialogs_def Let_def)
next
  case True
  let ?p = "put_away d s"
  let ?g = "give_back_focus w d ?p"
  have p: "dialogs_inv {} ?p" by (rule inv_put_away) (use assms True in auto)
  have wh: "dg_where (dp_dialog s d) = In_Widget" using assms(1,3) by (simp add: dialogs_inv_def)
  have eq: "close_dialog w d s = tell (Told_Close d) (hide_dialog d ?g)"
    using True by (simp add: close_dialog_def put_away_def Let_def)
  have g: "dialogs_inv {} ?g \<and> dp_errors ?g = dp_errors s"
    using inv_focus_place(1,2) [OF p] inv_frame [OF p, of "?p\<lparr>dp_active := Nowhere\<rparr>"] by (simp add: give_back_focus_def Let_def)
  then have h: "dialogs_inv {} (hide_dialog d ?g)" using inv_frame [of "{}" ?g "?g\<lparr>dp_active := Nowhere\<rparr>"] by (simp add: hide_dialog_def)
  have t: "dialogs_inv {} (tell (Told_Close d) (hide_dialog d ?g))" by (rule inv_frame [OF h]) simp_all
  have shut: "active_ok ?g \<or> ?g = ?p"
  proof (cases "dg_opener (dp_dialog ?p d) \<noteq> Nowhere \<and> dw_focusable w (dg_opener (dp_dialog ?p d))")
    case True
    let ?x = "dg_opener (dp_dialog ?p d)"
    have e: "?g = focus_place w ?x ?p" unfolding give_back_focus_def Let_def using True by simp
    show ?thesis
    proof (cases "can_focus w ?p ?x \<and> dp_active ?p \<noteq> ?x")
      case c: True
      then show ?thesis using inv_focus_place(4) [OF p] e by simp
    next
      case False
      then show ?thesis unfolding e focus_place_def by auto
    qed
  next
    case False
    then have "?g = ?p\<lparr>dp_active := Nowhere\<rparr>" unfolding give_back_focus_def Let_def by (rule if_not_P)
    then show ?thesis by (simp add: active_ok_def)
  qed
  have "active_ok (hide_dialog d ?g)"
  proof (cases "active_ok ?g")
    case True
    then show ?thesis by (simp add: hide_dialog_def active_ok_def)
  next
    case False
    then have e: "?g = ?p" using shut by blast
    show ?thesis unfolding e using assms(2) wh
      by (auto simp: hide_dialog_def active_ok_def dialog_around_def open_dialogs_def split: place.splits)
  qed
  then have "active_ok (close_dialog w d s)" unfolding eq by (rule active_cong) (auto simp: open_dialogs_def)
  moreover have "dp_errors (close_dialog w d s) = dp_errors s" using g by (simp add: eq hide_dialog_def)
  ultimately show ?thesis using t by (simp add: keeps_dialogs_def eq)
qed


text \<open>Making and destroying.\<close>

lemma keeps_make:
  assumes "dialogs_inv {} s" and "active_ok s" and "d \<notin> set (dp_ids s)" and "dg_where (dp_dialog s d) = Gone"
  shows "keeps_dialogs s (make_dialog w d auto m e s)"
proof -
  let ?g = "\<lparr>dg_where = In_Widget, dg_auto = auto, dg_modal = m, dg_escape = e, dg_open = False, dg_z = dw_front_z w,
    dg_overlay = None, dg_opener = Nowhere, dg_focused = None\<rparr>"
  define t where "t = s\<lparr>dp_ids := dp_ids s @ [d], dp_dialog := (dp_dialog s)(d := ?g)\<rparr>"
  have o: "open_dialogs t = open_dialogs s" "overlaid t = overlaid s"
    using assms(3) by (auto simp: t_def open_dialogs_def overlaid_def)
  have ar: "dialog_around t x = Some i \<longleftrightarrow> dialog_around s x = Some i" if "i \<noteq> d" for x i
    using that by (auto simp: t_def dialog_around_def split: place.splits)
  have rest: "distinct (dp_ids s)" "\<forall>i. i \<in> set (dp_ids s) \<longleftrightarrow> dg_where (dp_dialog s i) = In_Widget" "distinct (dp_instances s)"
    "set (dp_instances s) = open_dialogs s"
    "\<forall>i \<in> set (dp_ids s). dg_overlay (dp_dialog s i) \<noteq> None \<longleftrightarrow> dg_open (dp_dialog s i) \<and> dg_modal (dp_dialog s i)"
    "\<forall>i \<in> set (dp_ids s). \<forall>x. dg_focused (dp_dialog s i) = Some x \<longrightarrow> dialog_around s x = Some i \<and> dg_open (dp_dialog s i)"
    "\<forall>i \<in> open_dialogs s. dialog_around s (dg_opener (dp_dialog s i)) \<noteq> Some i"
    "dp_overlays s = (if overlaid s = {} then None else Some (int (card (overlaid s)))) \<and>
     ((\<exists>h \<in> set (dp_focusin s). h \<noteq> Foreign) \<longleftrightarrow> dp_overlays s \<noteq> None)"
    using assms(1) by (auto simp: dialogs_inv_def)
  have t: "dp_ids t = dp_ids s @ [d]" "dp_instances t = dp_instances s" "dp_overlays t = dp_overlays s" "dp_focusin t = dp_focusin s"
    "\<And>i. dp_dialog t i = (if i = d then ?g else dp_dialog s i)" by (simp_all add: t_def)
  have ne: "i \<noteq> d" if "i \<in> set (dp_ids s)" for i using that assms(3) by auto
  have "\<forall>i \<in> open_dialogs s. dialog_around t (dg_opener (dp_dialog t i)) \<noteq> Some i"
    using rest(7) ar ne by (auto simp: t(5) open_dialogs_def)
  moreover have "\<forall>i \<in> set (dp_ids t). \<forall>x. dg_focused (dp_dialog t i) = Some x \<longrightarrow> dialog_around t x = Some i \<and> dg_open (dp_dialog t i)"
    using rest(6) ar ne by (auto simp: t(1,5))
  ultimately have "dialogs_inv {} t" unfolding dialogs_inv_def o
    by (intro conjI) (use rest(1-5,8) assms(3) in \<open>auto simp: t\<close>)
  moreover have "active_ok t"
    using assms(2-4) o by (auto simp: active_ok_def t_def split: place.splits)
  ultimately have k: "keeps_dialogs s t" by (simp add: keeps_dialogs_def t_def)
  have "make_dialog w d auto m e s = (if auto then open_dialog w d t else t)" by (simp add: make_dialog_def Let_def t_def)
  moreover have "keeps_dialogs t (open_dialog w d t)" using keepsD [OF k] by (rule keeps_open) (simp add: t_def)
  ultimately show ?thesis using k keeps_trans [OF k] by auto
qed

lemma keeps_destroy:
  assumes "dialogs_inv {} s" and "active_ok s" and "d \<in> set (dp_ids s)" and "\<not> dg_open (dp_dialog s d)" and "dp_overlays s = None"
  shows "keeps_dialogs s (destroy_dialog d s)"
proof -
  have wh: "dg_where (dp_dialog s d) = In_Widget" and ov: "dg_overlay (dp_dialog s d) = None"
    using assms(1,3,4) by (auto simp: dialogs_inv_def)
  have h: "hide_dialog d (destroy_overlay d s) = s"
    using assms(2,4) wh ov
    by (auto simp: hide_dialog_def destroy_overlay_def active_ok_def dialog_around_def open_dialogs_def split: place.splits)
  define t where "t = destroy_dialog d s"
  have t: "dp_ids t = remove1 d (dp_ids s)" "dp_instances t = dp_instances s" "dp_overlays t = dp_overlays s"
    "dp_active t = dp_active s" "dp_errors t = dp_errors s" "set (dp_focusin t) \<subseteq> set (dp_focusin s)"
    "\<And>i. dg_where (dp_dialog t i) = (if i = d then Put_Back else dg_where (dp_dialog s i))"
    "\<And>i. dg_open (dp_dialog t i) = dg_open (dp_dialog s i)" "\<And>i. dg_modal (dp_dialog t i) = dg_modal (dp_dialog s i)"
    "\<And>i. dg_overlay (dp_dialog t i) = dg_overlay (dp_dialog s i)" "\<And>i. dg_focused (dp_dialog t i) = dg_focused (dp_dialog s i)"
    "\<And>i. dg_opener (dp_dialog t i) = dg_opener (dp_dialog s i)"
    by (auto simp: t_def destroy_dialog_def h)
  have ids: "set (dp_ids t) = set (dp_ids s) - {d}" using assms(1) t(1) by (simp add: dialogs_inv_def)
  have o: "open_dialogs t = open_dialogs s" "overlaid t = overlaid s" using assms(4) ov by (auto simp: open_dialogs_def overlaid_def ids t(8,10))
  have ar: "dialog_around t x = (case dialog_around s x of Some i \<Rightarrow> if i = d then None else Some i | None \<Rightarrow> None)" for x
    by (auto simp: dialog_around_def t split: place.split)
  have "dialogs_inv {} t" unfolding dialogs_inv_def o
    by (intro conjI) (use assms(1,5) t(6) ids in \<open>auto simp: t(1-5,7-12) dialogs_inv_def ar open_dialogs_def split: option.splits\<close>)
  moreover have "active_ok t" using assms(2) wh o by (auto simp: active_ok_def t split: place.splits)
  ultimately show ?thesis by (simp add: keeps_dialogs_def t_def [symmetric] t)
qed

text \<open>
  Uses that respect the shared data: methods are called on dialogs that exist, \<open>modal\<close> is set and a dialog destroyed only
  while it is closed (and no modal dialog is open), and the page is left with no dialog open.
\<close>

fun gentle :: "dialog_page \<Rightarrow> dialog_event \<Rightarrow> bool" where
  "gentle s (Make d auto m e) \<longleftrightarrow> d \<notin> set (dp_ids s) \<and> dg_where (dp_dialog s d) = Gone"
| "gentle s (Open d) \<longleftrightarrow> d \<in> set (dp_ids s)"
| "gentle s (Close d) \<longleftrightarrow> d \<in> set (dp_ids s)"
| "gentle s (Move_To_Top d) \<longleftrightarrow> d \<in> set (dp_ids s)"
| "gentle s (Set_Modal d b) \<longleftrightarrow> d \<in> set (dp_ids s) \<and> \<not> dg_open (dp_dialog s d)"
| "gentle s (Destroy d) \<longleftrightarrow> d \<in> set (dp_ids s) \<and> \<not> dg_open (dp_dialog s d) \<and> dp_overlays s = None"
| "gentle s New_Page \<longleftrightarrow> dp_instances s = []"
| "gentle s _ \<longleftrightarrow> True"

fun gentle_run :: "(dialog_world \<times> dialog_event) list \<Rightarrow> dialog_page \<Rightarrow> bool" where
  "gentle_run [] s \<longleftrightarrow> True"
| "gentle_run ((w, e) # es) s \<longleftrightarrow> gentle s e \<and> gentle_run es (dialog_step w e s)"

lemma keeps_check_dialog_focus:
  "dialogs_inv {} s \<Longrightarrow> active_ok s \<Longrightarrow> keeps_dialogs s (check_dialog_focus w d s)"
  by (simp add: check_dialog_focus_def focus_tabbable_def keeps_focus) (simp add: keeps_dialogs_def)

lemma keeps_same:
  assumes "dialogs_inv {} s" and "active_ok s" and "dp_ids t = dp_ids s" and "dp_instances t = dp_instances s"
    and "dp_overlays t = dp_overlays s" and "dp_focusin t = dp_focusin s" and "dp_dialog t = dp_dialog s"
    and "dp_active t = dp_active s" and "dp_errors t = dp_errors s"
  shows "keeps_dialogs s t"
  using inv_frame [OF assms(1), of t] active_cong [OF assms(2), of t] assms(3-) by (simp add: keeps_dialogs_def open_dialogs_def)

lemma keeps_new_page:
  assumes "dialogs_inv {} s" and "dp_instances s = []"
  shows "keeps_dialogs s (dialog_step w New_Page s)"
proof -
  have "open_dialogs s = {}" using assms by (auto simp: dialogs_inv_def)
  then have "overlaid s = {}" using assms(1) by (auto simp: dialogs_inv_def overlaid_def open_dialogs_def)
  then have "dp_overlays s = None" "\<forall>h \<in> set (dp_focusin s). h = Foreign" using assms(1) by (auto simp: dialogs_inv_def)
  then show ?thesis using assms(2)
    by (auto simp: keeps_dialogs_def dialogs_inv_def active_ok_def open_dialogs_def overlaid_def)
qed

lemma keeps_later:
  assumes "dialogs_inv {} s" and "active_ok s"
  shows "keeps_dialogs s (dialog_step w (Later k) s)"
proof -
  let ?s = "s\<lparr>dp_later := take k (dp_later s) @ drop (Suc k) (dp_later s)\<rparr>"
  have k: "keeps_dialogs s ?s" by (rule keeps_same [OF assms]) simp_all
  have "keeps_dialogs ?s (run_put_off w x ?s)" for x
    using keeps_focus [OF keepsD [OF k]] keeps_check_dialog_focus [OF keepsD [OF k]] k
    by (auto simp: run_put_off_def keeps_dialogs_def split: put_off.split)
  then show ?thesis using keeps_trans [OF k] keeps_same [OF assms, of s] by (cases "k < length (dp_later s)") simp_all
qed

lemma keeps_set_modal:
  assumes "dialogs_inv {} s" and "active_ok s" and "\<not> dg_open (dp_dialog s d)" and "d \<in> set (dp_ids s)"
  shows "keeps_dialogs s (put_dialog d (\<lambda>g. g\<lparr>dg_modal := b\<rparr>) s)"
proof -
  let ?t = "put_dialog d (\<lambda>g. g\<lparr>dg_modal := b\<rparr>) s"
  have o: "open_dialogs ?t = open_dialogs s" "overlaid ?t = overlaid s" by (auto simp: open_dialogs_def overlaid_def)
  have "dialogs_inv {} ?t" unfolding dialogs_inv_def o
    by (intro conjI) (use assms in \<open>auto simp: dialogs_inv_def open_dialogs_def\<close>)
  moreover have "active_ok ?t" by (rule active_cong [OF assms(2)]) (auto simp: o)
  ultimately show ?thesis by (simp add: keeps_dialogs_def)
qed

lemma keeps_tab: "dialogs_inv {} s \<Longrightarrow> active_ok s \<Longrightarrow> keeps_dialogs s (dialog_tab w d b s)"
  by (rule keeps_same) (simp_all add: dialog_tab_def Let_def)

lemma keeps_step:
  assumes "dialogs_inv {} s" and "active_ok s" and "gentle s e"
  shows "keeps_dialogs s (dialog_step w e s)"
proof -
  have refl: "keeps_dialogs s s" using assms by (simp add: keeps_dialogs_def)
  show ?thesis
  proof (cases e)
    case (Overlay_Down d)
    have "keeps_dialogs s (put_off (Check_Later d) (check_dialog_focus w d s))"
      using keeps_check_dialog_focus [OF assms(1,2), of w d] keeps_same [of "check_dialog_focus w d s" "put_off (Check_Later d) (check_dialog_focus w d s)"]
      by (auto simp: keeps_dialogs_def)
    then show ?thesis using Overlay_Down refl by simp
  next
    case User_Blur
    have "dialogs_inv {} (s\<lparr>dp_active := Nowhere\<rparr>)" by (rule inv_frame [OF assms(1)]) simp_all
    then show ?thesis using User_Blur by (simp add: keeps_dialogs_def active_ok_def)
  next
    case (Mouse_Down d)
    then show ?thesis using keeps_raise [OF assms(1,2)] refl by simp
  next
    case (Later k)
    then show ?thesis using keeps_later [OF assms(1,2)] by blast
  next
    case New_Page
    then show ?thesis using keeps_new_page [OF assms(1)] assms(3) by simp
  qed (use assms refl keeps_open keeps_close keeps_make keeps_destroy keeps_set_modal keeps_move_to_top keeps_tab keeps_focus
      in \<open>simp_all add: called_def shown_dialog_def\<close>)
qed

lemma keeps_run:
  "dialogs_inv {} s \<Longrightarrow> active_ok s \<Longrightarrow> gentle_run es s \<Longrightarrow> keeps_dialogs s (dialog_run es s)"
proof (induction es arbitrary: s)
  case Nil
  then show ?case by (simp add: dialog_run_def keeps_dialogs_def)
next
  case (Cons we es)
  obtain w e where we: "we = (w, e)" by fastforce
  have k: "keeps_dialogs s (dialog_step w e s)" by (rule keeps_step) (use Cons.prems we in auto)
  have "keeps_dialogs (dialog_step w e s) (dialog_run es (dialog_step w e s))"
    by (rule Cons.IH) (use keepsD [OF k] Cons.prems we in auto)
  then show ?case using keeps_trans [OF k] we by (simp add: dialog_run_def)
qed

lemma fresh_inv: "set hs \<subseteq> {Foreign} \<Longrightarrow> dialogs_inv {} (fresh_page hs) \<and> active_ok (fresh_page hs)"
  by (auto simp: dialogs_inv_def active_ok_def fresh_page_def open_dialogs_def overlaid_def)

text \<open>C26. However dialogs are made, opened, closed, raised and destroyed, and wherever the focus goes, as long as the shared data
  are respected: nothing throws; the dialogs the document tracks are the open ones, each once; it counts as many overlays
  as modal dialogs are open and has a guard on the focus exactly then; and the focus is never in a closed dialog.\<close>

theorem dialogs_stay_tracked:
  assumes "set hs \<subseteq> {Foreign}" and "gentle_run es (fresh_page hs)" and "s = dialog_run es (fresh_page hs)"
  shows "dp_errors s = 0 \<and> distinct (dp_instances s) \<and>
    set (dp_instances s) = {d \<in> set (dp_ids s). dg_open (dp_dialog s d)} \<and>
    (let m = card {d \<in> set (dp_ids s). dg_open (dp_dialog s d) \<and> dg_modal (dp_dialog s d)}
     in dp_overlays s = (if m = 0 then None else Some (int m)) \<and> ((\<exists>d n. Guard d n \<in> set (dp_focusin s)) \<longleftrightarrow> m \<noteq> 0)) \<and>
    (\<forall>d. dialog_around s (dp_active s) = Some d \<longrightarrow> dg_open (dp_dialog s d))"
proof -
  have k: "keeps_dialogs (fresh_page hs) s" unfolding assms(3)
    by (rule keeps_run) (use fresh_inv [OF assms(1)] assms(2) in auto)
  then have i: "dialogs_inv {} s" "active_ok s" "dp_errors s = 0" by (simp_all add: keeps_dialogs_def fresh_page_def)
  have o: "overlaid s = {d \<in> set (dp_ids s). dg_open (dp_dialog s d) \<and> dg_modal (dp_dialog s d)}"
    using i(1) by (auto simp: overlaid_def dialogs_inv_def)
  have z: "card (overlaid s) = 0 \<longleftrightarrow> overlaid s = {}" by (simp add: overlaid_def)
  have g: "(\<exists>h \<in> set (dp_focusin s). h \<noteq> Foreign) \<longleftrightarrow> (\<exists>d n. Guard d n \<in> set (dp_focusin s))"
    by (metis focus_handler.distinct(1) focus_handler.exhaust)
  have a: "\<forall>d. dialog_around s (dp_active s) = Some d \<longrightarrow> dg_open (dp_dialog s d)"
    using i(2) by (auto simp: active_ok_def dialog_around_def open_dialogs_def split: place.splits if_splits)
  have "distinct (dp_instances s)" "set (dp_instances s) = open_dialogs s"
    "dp_overlays s = (if overlaid s = {} then None else Some (int (card (overlaid s))))"
    "(\<exists>h \<in> set (dp_focusin s). h \<noteq> Foreign) \<longleftrightarrow> dp_overlays s \<noteq> None" using i(1) by (auto simp: dialogs_inv_def)
  then show ?thesis using i(3) a unfolding o [symmetric] g Let_def z open_dialogs_def by simp
qed


section \<open>The guard\<close>

lemma guard_again:
  assumes "dp_instances u = i # is" and "dg_focused (dp_dialog u i) = Some (dp_active u)"
  shows "fold (run_guard w x) hs u = u"
proof (induction hs)
  case (Cons h hs)
  have "run_guard w x h u = u" using assms by (cases h) (auto simp: focus_target_def move_focus_def)
  then show ?case using Cons by simp
qed simp

lemma guard_takes_back:
  assumes "dialogs_inv {} s" and "\<not> allow_interaction s x" and "dp_instances s = i # is" and "dw_takes w (focus_target w i s)"
    and "\<exists>h \<in> set hs. h \<noteq> Foreign" and "\<forall>n. Opening_Over n \<notin> set (dp_later s)" and "dp_active s = x"
  shows "dp_active (fold (run_guard w x) hs s) = focus_target w i s"
proof -
  have i: "i \<in> open_dialogs s" using assms(1,3) by (auto simp: dialogs_inv_def)
  then have wi: "i \<in> set (dp_ids s)" "dg_where (dp_dialog s i) = In_Widget" "dg_open (dp_dialog s i)"
    using assms(1) by (auto simp: open_dialogs_def dialogs_inv_def)
  let ?y = "focus_target w i s"
  have y: "dialog_around s ?y = Some i" by (rule target_in_dialog [OF wi(1) assms(1)])
  have c: "can_focus w s ?y" using y wi assms(4) by (auto simp: can_focus_def dialog_around_def split: place.splits if_splits)
  have ne: "dp_active s \<noteq> ?y" using assms(2,7) y by (auto simp: allow_interaction_def)
  let ?u = "move_focus w ?y s"
  have u: "dp_instances ?u = i # remove1 i (dp_instances s)" "dg_focused (dp_dialog ?u i) = Some ?y" "dp_active ?u = ?y"
    using c ne y by (simp_all add: move_focus_def track_focus_def)
  show ?thesis using assms(5)
  proof (induction hs)
    case (Cons h hs)
    show ?case
    proof (cases h)
      case Foreign
      then show ?thesis using Cons by simp
    next
      case (Guard d n)
      have "run_guard w x h s = ?u" using Guard assms(2,3,6) by simp
      moreover have "fold (run_guard w x) hs ?u = ?u" by (rule guard_again [OF u(1)]) (simp add: u)
      ultimately show ?thesis using u(3) by simp
    qed
  qed simp
qed


section \<open>Opening and closing\<close>

definition raised :: "dialog_world \<Rightarrow> nat \<Rightarrow> dialog_page \<Rightarrow> dialog_page" where
  "raised w d s =
     (let s2 = fst (move_to_top w d True (overlay_made w d s))
      in put_dialog d (\<lambda>g. g\<lparr>dg_overlay := map_option (\<lambda>_. dg_z (dp_dialog s2 d) - 1) (dg_overlay g)\<rparr>) s2)"

lemma open_eq:
  "\<not> dg_open (dp_dialog s d) \<Longrightarrow>
     open_dialog w d s = tell (Told_Open d) (make_focus_target d (tell (Told_Focus d) (focus_tabbable w d (raised w d s))))"
  by (simp add: open_dialog_def Let_def overlay_made_def raised_def)

lemma raised_frame [simp]:
  assumes "dg_overlay (dp_dialog s d) = None"
  shows "dp_ids (raised w d s) = dp_ids s" "dp_instances (raised w d s) = dp_instances s" "dp_active (raised w d s) = dp_active s"
    "dp_overlays (raised w d s) = dp_overlays (overlay_made w d s)" "dp_focusin (raised w d s) = dp_focusin (overlay_made w d s)"
    "dg_where (dp_dialog (raised w d s) i) = dg_where (dp_dialog s i)"
    "dg_open (dp_dialog (raised w d s) i) \<longleftrightarrow> i = d \<or> dg_open (dp_dialog s i)"
    "dg_modal (dp_dialog (raised w d s) i) = dg_modal (dp_dialog s i)"
    "dg_focused (dp_dialog (raised w d s) i) = dg_focused (dp_dialog s i)"
    "dg_opener (dp_dialog (raised w d s) i) = (if i = d then dp_active s else dg_opener (dp_dialog s i))"
    "dg_overlay (dp_dialog (raised w d s) i) = None \<longleftrightarrow>
       (if i = d then \<not> dg_modal (dp_dialog s d) else dg_overlay (dp_dialog s i) = None)"
    "dialog_around (raised w d s) x = dialog_around s x"
  using assms by (simp_all add: raised_def Let_def)

lemma inv_raised:
  assumes "dialogs_inv {} s" and "active_ok s" and "d \<in> set (dp_ids s)" and "\<not> dg_open (dp_dialog s d)"
  shows "dialogs_inv {d} (raised w d s)"
proof -
  have "dialogs_inv {d} (fst (move_to_top w d True (overlay_made w d s)))"
    by (rule inv_move_to_top [OF inv_overlay_made [OF assms]])
  then show ?thesis unfolding raised_def Let_def by (rule inv_frame) auto
qed


lemma open_close_shared:
  fixes w :: dialog_world
  assumes "dialogs_inv {} s" and "active_ok s" and "d \<in> set (dp_ids s)" and "\<not> dg_open (dp_dialog s d)"
  defines "p \<equiv> put_away d (open_dialog w d s)"
  shows "dp_overlays p = dp_overlays s"
    and "dp_focusin p = (if dg_modal (dp_dialog s d) \<and> dp_overlays s = None then [] else dp_focusin s)"
    and "dp_active p = dp_active s \<or> dialog_around s (dp_active p) = Some d"
    and "dg_opener (dp_dialog p d) = dp_active s"
proof -
  have ov: "dg_overlay (dp_dialog s d) = None" using assms(1,3,4) by (auto simp: dialogs_inv_def)
  let ?r = "raised w d s" and ?u = "open_dialog w d s"
  have r: "dialogs_inv {d} ?r" by (rule inv_raised [OF assms(1-4)])
  have f: "focus_tabbable w d ?r = move_focus w (focus_target w d ?r) ?r"
    by (rule focus_tabbable_moves [OF _ r]) (simp add: ov assms(3))
  have tgt: "dialog_around s (focus_target w d ?r) = Some d"
    using target_in_dialog [OF _ r, where w = w and d = d] assms(3) by (simp add: ov)
  have u: "dp_overlays ?u = dp_overlays (overlay_made w d s)" "dp_focusin ?u = dp_focusin (overlay_made w d s)"
    "dg_modal (dp_dialog ?u d) = dg_modal (dp_dialog s d)" "dg_opener (dp_dialog ?u d) = dp_active s"
    "dg_overlay (dp_dialog ?u d) = None \<longleftrightarrow> \<not> dg_modal (dp_dialog s d)"
    "dp_active ?u = dp_active s \<or> dp_active ?u = focus_target w d ?r"
    by (auto simp: open_eq [OF assms(4)] f ov) (auto simp: move_focus_def track_focus_def ov split: option.splits if_splits)
  let ?k = "case dp_overlays s of Some k \<Rightarrow> k | None \<Rightarrow> 0"
  have k: "dp_overlays s = (if ?k = 0 then None else Some ?k)"
  proof (cases "overlaid s = {}")
    case True
    then show ?thesis using assms(1) by (simp add: dialogs_inv_def)
  next
    case False
    moreover have "finite (overlaid s)" by (simp add: overlaid_def)
    ultimately show ?thesis using assms(1) by (auto simp: dialogs_inv_def)
  qed
  have o: "dp_overlays ?u = (if dg_modal (dp_dialog s d) then Some (?k + 1) else dp_overlays s)"
    "dp_focusin ?u = (if dg_modal (dp_dialog s d) \<and> ?k = 0 then dp_focusin s @ [Guard d (dp_made s)] else dp_focusin s)"
    unfolding u using ov by (auto simp: overlay_made_def create_overlay_def Let_def)
  show "dp_overlays p = dp_overlays s"
    "dp_focusin p = (if dg_modal (dp_dialog s d) \<and> dp_overlays s = None then [] else dp_focusin s)"
    using o u(3,5) k
    by (auto simp: p_def put_away_def destroy_overlay_def untrack_instance_def split: option.splits if_splits)
  show "dp_active p = dp_active s \<or> dialog_around s (dp_active p) = Some d" using u(6) tgt by (auto simp: p_def)
  show "dg_opener (dp_dialog p d) = dp_active s" by (simp add: p_def u)
qed

lemma guards_foreign: "\<forall>h \<in> set hs. h = Foreign \<Longrightarrow> fold (run_guard w x) hs q = q"
  by (induction hs arbitrary: q) auto

text \<open>C28. A dialog that is opened and closed again leaves the open dialogs, the count of overlays and the focus as they were, the
  focus provided that it can go back and no guard of another dialog objects. But when it was the only modal dialog, every
  handler of the document for \<open>focusin\<close> is gone afterwards, also those of other widgets.\<close>

theorem open_close_restores:
  assumes "set hs \<subseteq> {Foreign}" and "gentle_run es (fresh_page hs)" and "s = dialog_run es (fresh_page hs)"
    and "d \<in> set (dp_ids s)" and "\<not> dg_open (dp_dialog s d)" and "dw_may_close w d"
    and "dp_active s \<noteq> Nowhere \<longrightarrow>
      dw_focusable w (dp_active s) \<and> dw_takes w (dp_active s) \<and> (allow_interaction s (dp_active s) \<or> dp_overlays s = None)"
    and "t = dialog_step w (Close d) (dialog_step w (Open d) s)"
  shows "dp_active t = dp_active s \<and> dp_overlays t = dp_overlays s \<and> set (dp_instances t) = set (dp_instances s) \<and>
    {i \<in> set (dp_ids t). dg_open (dp_dialog t i)} = {i \<in> set (dp_ids s). dg_open (dp_dialog s i)} \<and>
    dp_focusin t = (if dg_modal (dp_dialog s d) \<and> dp_overlays s = None then [] else dp_focusin s)"
proof -
  have k0: "keeps_dialogs (fresh_page hs) s" unfolding assms(3) by (rule keeps_run) (use fresh_inv [OF assms(1)] assms(2) in auto)
  note i = keepsD(1) [OF k0] and a = keepsD(2) [OF k0]
  let ?u = "open_dialog w d s"
  let ?p = "put_away d ?u" and ?x = "dp_active s"
  have ov: "dg_overlay (dp_dialog s d) = None" using i assms(4,5) by (auto simp: dialogs_inv_def)
  note shared = open_close_shared [OF i a assms(4,5), of w]
  have fr: "dp_ids ?u = dp_ids s" "dg_open (dp_dialog ?u j) \<longleftrightarrow> j = d \<or> dg_open (dp_dialog s j)"
    "dg_where (dp_dialog ?u j) = dg_where (dp_dialog s j)" for j
    using focus_tabbable_moves [OF _ inv_raised [OF i a assms(4,5)], of d w w] assms(4) by (simp_all add: open_eq [OF assms(5)] ov)
  have ar: "dialog_around ?p y = dialog_around s y" for y by (rule around_cong) (simp add: fr)
  have op: "dg_open (dp_dialog ?p j) = dg_open (dp_dialog s j)" for j using assms(5) by (auto simp: fr)
  have opu: "dg_opener (dp_dialog ?u d) = ?x" using shared(4) by simp
  have xd: "dialog_around s ?x \<noteq> Some d"
    using a assms(5) by (auto simp: active_ok_def open_dialogs_def dialog_around_def split: place.splits if_splits)
  let ?g = "give_back_focus w d ?p"
  have g: "?g = (if dp_active ?p = ?x then ?p else if ?x = Nowhere then ?p\<lparr>dp_active := Nowhere\<rparr> else move_focus w ?x ?p) \<and>
    (dp_active ?g = ?x)"
  proof (cases "?x = Nowhere")
    case True
    then have e: "?g = ?p\<lparr>dp_active := Nowhere\<rparr>" by (simp add: give_back_focus_def opu)
    have "?p\<lparr>dp_active := dp_active ?p\<rparr> = ?p" by simp
    then show ?thesis using True e by auto
  next
    case False
    then have w: "dw_focusable w ?x" "dw_takes w ?x" "allow_interaction s ?x \<or> dp_overlays s = None" using assms(7) by auto
    have "dg_where (dp_dialog s j) = In_Widget \<and> dg_open (dp_dialog s j)" if "j \<in> open_dialogs s" for j
      using that i by (auto simp: open_dialogs_def dialogs_inv_def)
    then have c: "can_focus w ?p ?x" using a w(2) False unfolding can_focus_def active_ok_def op
      by (auto simp: fr split: place.splits)
    have e: "?g = focus_place w ?x ?p" using w(1) False by (simp add: give_back_focus_def opu)
    have fold: "fold (run_guard w ?x) (dp_focusin ?p) q = q" if "\<And>y. dialog_around q y = dialog_around s y" for q
      using w(3)
    proof
      assume "allow_interaction s ?x"
      then show ?thesis by (intro guards_allow) (simp add: allow_interaction_def that)
    next
      assume n: "dp_overlays s = None"
      then have "\<forall>h \<in> set (dp_focusin s). h = Foreign" using i by (auto simp: dialogs_inv_def)
      then have "\<forall>h \<in> set (dp_focusin ?p). h = Foreign" using shared(2) by simp
      then show ?thesis by (rule guards_foreign)
    qed
    have "?g = (if dp_active ?p = ?x then ?p else move_focus w ?x ?p)"
      using c fold [of "move_focus w ?x ?p"] ar by (simp add: e focus_place_def)
    moreover have "dp_active (move_focus w ?x ?p) = ?x" using c by (auto simp: move_focus_def track_focus_def split: option.split)
    ultimately show ?thesis using False by simp
  qed
  have t: "t = tell (Told_Close d) ?g"
  proof -
    have "dialog_around ?g (dp_active ?g) \<noteq> Some d" using g xd ar by (auto split: if_splits)
    then show ?thesis using assms(4,6) by (simp add: assms(8) called_def fr close_dialog_def put_away_def hide_dialog_def Let_def)
  qed
  have kt: "dialogs_inv {} t" unfolding assms(8)
    using keeps_close [OF keepsD [OF keeps_open [OF i a assms(4)]], of d w w] assms(4) by (simp add: called_def fr keeps_dialogs_def)
  have "dp_overlays ?g = dp_overlays ?p" "dp_focusin ?g = dp_focusin ?p" "dp_ids ?g = dp_ids s" "\<And>j. dg_open (dp_dialog ?g j) = dg_open (dp_dialog s j)"
    using g op by (auto simp: fr split: if_splits)
  then have f: "dp_overlays t = dp_overlays s" "dp_focusin t = dp_focusin ?p" "open_dialogs t = open_dialogs s"
    by (simp_all add: t shared open_dialogs_def)
  moreover have "set (dp_instances t) = set (dp_instances s)" using kt i f(3) by (auto simp: dialogs_inv_def)
  moreover have "dp_active ?g = ?x" using g by (rule conjunct2)
  then have "dp_active t = ?x" unfolding t by simp
  ultimately show ?thesis unfolding open_dialogs_def [symmetric] using shared(2) by simp
qed


text \<open>An opened dialog is in front of everything else that shows, and its overlay covers the rest.\<close>

lemma opened_in_front:
  assumes "dg_overlay (dp_dialog s d) = None" and "d \<in> set (dp_ids s)" and "z \<in> set (fronts w d s)"
  shows "z < dg_z (dp_dialog (raised w d s) d) \<and>
    (\<forall>y. dg_overlay (dp_dialog (raised w d s) d) = Some y \<longrightarrow> z \<le> y)"
proof -
  let ?m = "overlay_made w d s"
  have mf: "set (List.map_filter f xs) = {y. \<exists>x \<in> set xs. f x = Some y}" for f :: "nat \<Rightarrow> int option" and xs
    by (force simp: map_filter_def)
  have "set (fronts w d s) \<subseteq> set (fronts w d ?m)"
  proof
    fix y assume "y \<in> set (fronts w d s)"
    then consider i where "i \<in> set (dp_ids s)" "i \<noteq> d" "dg_open (dp_dialog s i)" "y = dg_z (dp_dialog s i)"
      | i where "i \<in> set (dp_ids s)" "dg_overlay (dp_dialog s i) = Some y" | "y \<in> set (dp_strays s) \<union> set (dw_fronts w)"
      by (auto simp: fronts_def mf)
    then show "y \<in> set (fronts w d ?m)"
    proof cases
      case 2
      then have "i \<noteq> d" using assms(1) by auto
      then have "\<exists>i \<in> set (dp_ids ?m). dg_overlay (dp_dialog ?m i) = Some y" using 2 assms(1) by (intro bexI [of _ i]) simp_all
      then show ?thesis by (simp add: fronts_def mf)
    qed (use assms(1) in \<open>auto simp: fronts_def\<close>)
  qed
  then have z: "z \<in> set (fronts w d ?m)" using assms(3) by blast
  then have "z \<le> Max (set (fronts w d ?m))" "fronts w d ?m \<noteq> []" by auto
  then have lt: "z < dg_z (dp_dialog (fst (move_to_top w d True ?m)) d)"
    by (cases "Max (set (fronts w d ?m)) \<ge> dg_z (dp_dialog ?m d)") (simp_all add: move_to_top_def Let_def)
  then show ?thesis by (auto simp: raised_def Let_def)
qed

section \<open>Uses that do not respect the shared data\<close>

definition plain_world :: dialog_world where
  "plain_world = \<lparr>dw_inside = (\<lambda>d. [[], [1]]), dw_tabbable = (\<lambda>d. [In_Content d 1]), dw_focusable = (\<lambda>x. True), dw_takes = (\<lambda>x. True),
     dw_fronts = [], dw_front_z = 100, dw_may_close = (\<lambda>d. True)\<rparr>"

definition does :: "dialog_event list \<Rightarrow> dialog_page" where
  "does es = dialog_run (map (\<lambda>e. (plain_world, e)) es) (fresh_page [Foreign])"

text \<open>When \<open>modal\<close> is switched off while a dialog is open, its overlay stays when it is closed, and so does the guard, which throws.\<close>

lemma modal_off_while_open:
  "let s = does [Make 1 True True True, Later 0, Set_Modal 1 False, Close 1, User_Focus (Elsewhere 5)] in
     dp_errors s = 1 \<and> dp_instances s = [] \<and> dp_overlays s = Some 1 \<and> dg_overlay (dp_dialog s 1) = Some 100"
  by code_simp

text \<open>A dialog destroyed while it is open stays tracked, so that the guard sends the focus out of the dialog that is left.\<close>

lemma destroyed_while_open:
  "let s = does [Make 1 True True True, Later 0, Make 2 True True True, Destroy 2, User_Focus (Elsewhere 5)] in
     dp_ids s = [1] \<and> dp_instances s = [2, 1] \<and> dp_active s = In_Content 2 1 \<and> dialog_around s (dp_active s) = None"
  by code_simp

text \<open>A page left with a modal dialog open leaves its guard and its count to the next page, where the guard no longer goes.\<close>

lemma left_while_open:
  "let s = does [Make 1 True True True, Later 0, New_Page, Make 2 True True True, Close 2] in
     dp_ids s = [2] \<and> \<not> dg_open (dp_dialog s 2) \<and> dp_overlays s = Some 1 \<and> dp_focusin s = [Foreign, Guard 1 0]"
  by code_simp

theorem dialogs_stay_tracked_witness:
  "let s = does [Make 1 True True True, Make 2 False True True, User_Focus (Elsewhere 3), Open 2] in
     dp_errors s = 0 \<and> set (dp_instances s) = {1, 2}"
proof -
  let ?es = "map (\<lambda>e. (plain_world, e)) [Make 1 True True True, Make 2 False True True, User_Focus (Elsewhere 3), Open 2]"
  have "gentle_run ?es (fresh_page [Foreign])" by code_simp
  moreover have "set [Foreign] \<subseteq> {Foreign}" by simp
  moreover have "filter (\<lambda>d. dg_open (dp_dialog (dialog_run ?es (fresh_page [Foreign])) d)) (dp_ids (dialog_run ?es (fresh_page [Foreign]))) = [1, 2]"
    by code_simp
  then have "{d \<in> set (dp_ids (dialog_run ?es (fresh_page [Foreign]))). dg_open (dp_dialog (dialog_run ?es (fresh_page [Foreign])) d)} = {1, 2}"
    by (metis list.set(1) list.set(2) set_filter)
  ultimately show ?thesis
    using dialogs_stay_tracked [of "[Foreign]" ?es "dialog_run ?es (fresh_page [Foreign])"] by (simp only: does_def Let_def)
qed


theorem open_close_restores_witness:
  "let s = does [Make 1 False True True, User_Focus (Elsewhere 5)]; t = does [Make 1 False True True, User_Focus (Elsewhere 5), Open 1, Close 1] in
     dp_active t = Elsewhere 5 \<and> dp_focusin s = [Foreign] \<and> dp_focusin t = []"
proof -
  let ?es = "map (\<lambda>e. (plain_world, e)) [Make 1 False True True, User_Focus (Elsewhere 5)]"
  let ?s = "dialog_run ?es (fresh_page [Foreign])"
  have "gentle_run ?es (fresh_page [Foreign])" by code_simp
  moreover have "set [Foreign] \<subseteq> {Foreign}" by simp
  moreover have "1 \<in> set (dp_ids ?s)" by code_simp
  moreover have "\<not> dg_open (dp_dialog ?s 1)" by code_simp
  moreover have "dw_may_close plain_world 1" by code_simp
  moreover have a: "dp_active ?s = Elsewhere 5" by code_simp
  moreover have "dp_overlays ?s = None" by code_simp
  moreover have "dw_focusable plain_world (Elsewhere 5) \<and> dw_takes plain_world (Elsewhere 5)" by (simp add: plain_world_def)
  moreover have "dg_modal (dp_dialog ?s 1)" by code_simp
  moreover have "dp_focusin ?s = [Foreign]" by code_simp
  moreover have "does [Make 1 False True True, User_Focus (Elsewhere 5), Open 1, Close 1] =
      dialog_step plain_world (Close 1) (dialog_step plain_world (Open 1) ?s)" by (simp add: does_def dialog_run_def)
  ultimately show ?thesis
    using open_close_restores [of "[Foreign]" ?es ?s 1 plain_world "dialog_step plain_world (Close 1) (dialog_step plain_world (Open 1) ?s)"]
    unfolding Let_def does_def by simp
qed

end
