(* ===== verification/Picture_Crop.thy ===== *)
theory Picture_Crop
  imports Numbers Data_Attributes Dialogs
begin

text \<open>
  The picture of a profile (\<open>personal_profile.js\<close>): the ready callback that makes the dialog to upload or to crop it,
  the buttons that open the dialog, and the callback that shows the selection as a preview of 100 by 100 pixels and
  writes it to the hidden fields of the form. The selection comes from the vendored \<open>Jcrop\<close>, so it is an argument; the
  dialogs are those of the theory \<open>Dialogs\<close>. The variables for the dialogs are global and outlive a page.
\<close>

section \<open>The page\<close>

record crop_preview =
  cv_width :: int
  cv_height :: int
  cv_left :: int
  cv_top :: int

datatype crop_owner = Broker_Crop | User_Crop

record picture_page =
  pp_json :: "string \<Rightarrow> string option"
  pp_name :: "string option"
  pp_crop :: "string option"
  pp_change_form :: "nat option"
  pp_upload_form :: "nat option"
  pp_broker_fields :: bool
  pp_user_fields :: bool
  pp_large_width :: rat
  pp_large_height :: rat
  pp_cropping :: bool
  pp_change_dialog :: "nat option option"
  pp_upload_dialog :: "nat option option"
  pp_preview :: crop_preview
  pp_fields :: "(crop_owner \<times> int \<times> int \<times> int \<times> int) option"
  pp_dialogs :: dialog_page
  pp_throws :: bool

section \<open>The selection\<close>

record coords =
  co_x :: rat
  co_y :: rat
  co_w :: rat
  co_h :: rat

text \<open>\<open>Math.round(rx * n) + 'px'\<close>; a ratio with 0 gives no length, and a second minus sign none either.\<close>

definition scaled_px :: "rat \<Rightarrow> rat \<Rightarrow> int option" where
  "scaled_px side n = (if side = 0 then None else Some (js_round (100 / side * n)))"

definition minus_px :: "rat \<Rightarrow> rat \<Rightarrow> int option" where
  "minus_px side n = (case scaled_px side n of Some k \<Rightarrow> if k < 0 then None else Some (- k) | None \<Rightarrow> None)"

definition css_or :: "int option \<Rightarrow> int \<Rightarrow> int" where
  "css_or v old = (case v of Some k \<Rightarrow> k | None \<Rightarrow> old)"

definition update_crop :: "coords \<Rightarrow> picture_page \<Rightarrow> picture_page" where
  "update_crop c p =
     (let v = pp_preview p;
          v1 = \<lparr>cv_width = css_or (scaled_px (co_w c) (pp_large_width p)) (cv_width v),
                cv_height = css_or (scaled_px (co_h c) (pp_large_height p)) (cv_height v),
                cv_left = css_or (minus_px (co_w c) (co_x c)) (cv_left v),
                cv_top = css_or (minus_px (co_h c) (co_y c)) (cv_top v)\<rparr>;
          rect = (\<lfloor>co_x c\<rfloor>, \<lfloor>co_y c\<rfloor>, \<lfloor>co_w c\<rfloor>, \<lfloor>co_h c\<rfloor>);
          p1 = p\<lparr>pp_preview := v1\<rparr>
      in if pp_broker_fields p then p1\<lparr>pp_fields := Some (Broker_Crop, rect)\<rparr>
         else if pp_user_fields p then p1\<lparr>pp_fields := Some (User_Crop, rect)\<rparr>
         else p1)"

section \<open>The dialogs\<close>

definition init_dialog :: "dialog_world \<Rightarrow> nat option \<Rightarrow> bool \<Rightarrow> dialog_page \<Rightarrow> dialog_page" where
  "init_dialog w form auto s = (case form of Some d \<Rightarrow> dialog_init w d auto True s | None \<Rightarrow> s)"

text \<open>The ready callback; \<open>width\<close> and \<open>height\<close> are those of \<open>#cropbox\<close> at that moment.\<close>

definition picture_ready :: "dialog_world \<Rightarrow> rat \<Rightarrow> rat \<Rightarrow> picture_page \<Rightarrow> picture_page" where
  "picture_ready w width height p =
     (let name = data_of (pp_json p) (pp_name p); crop = data_of (pp_json p) (pp_crop p);
          p1 = (if name \<noteq> Text_Value ''null''
                then p\<lparr>pp_cropping := True, pp_large_width := width, pp_large_height := height\<rparr> else p)
      in if name \<noteq> Undefined_Value \<and> \<not> equals_true crop
         then p1\<lparr>pp_change_dialog := Some (pp_change_form p), pp_dialogs := init_dialog w (pp_change_form p) False (pp_dialogs p)\<rparr>
         else if name \<noteq> Undefined_Value \<and> equals_true crop
         then p1\<lparr>pp_change_dialog := Some (pp_change_form p), pp_dialogs := init_dialog w (pp_change_form p) True (pp_dialogs p)\<rparr>
         else p1\<lparr>pp_upload_dialog := Some (pp_upload_form p), pp_dialogs := init_dialog w (pp_upload_form p) False (pp_dialogs p)\<rparr>)"

definition open_variable :: "dialog_world \<Rightarrow> nat option option \<Rightarrow> picture_page \<Rightarrow> picture_page" where
  "open_variable w v p =
     (case v of
        None \<Rightarrow> p\<lparr>pp_throws := True\<rparr>
      | Some None \<Rightarrow> p
      | Some (Some d) \<Rightarrow> p\<lparr>pp_dialogs := called d (open_dialog w d) (pp_dialogs p)\<rparr>)"

definition click_change :: "dialog_world \<Rightarrow> picture_page \<Rightarrow> picture_page" where
  "click_change w p = open_variable w (pp_change_dialog p) p"

definition click_upload :: "dialog_world \<Rightarrow> picture_page \<Rightarrow> picture_page" where
  "click_upload w p = open_variable w (pp_upload_dialog p) p"

section \<open>The preview shows the selection\<close>

lemma js_round_mono: "x \<le> y \<Longrightarrow> js_round x \<le> js_round y"
  by (simp add: js_round_def floor_mono)

lemma js_round_add: "js_round (x + of_int k) = js_round x + k"
proof -
  have "x + of_int k + 1 / 2 = (x + 1 / 2) + of_int k" by simp
  then show ?thesis unfolding js_round_def by (simp only: floor_add_int)
qed

lemma js_round_nonneg: "0 \<le> x \<Longrightarrow> 0 \<le> js_round x"
  by (simp add: js_round_def)

lemma scaled_covers:
  assumes "0 \<le> x" and "0 < side" and "x + side \<le> n"
  shows "\<exists>k l. minus_px side x = Some (- k) \<and> scaled_px side n = Some l \<and> 0 \<le> k \<and> k + 100 \<le> l"
proof -
  have "100 / side * x + 100 = 100 / side * (x + side)" using assms(2) by (simp add: field_simps)
  also have "\<dots> \<le> 100 / side * n" using assms by (intro mult_left_mono) simp_all
  finally have "js_round (100 / side * x) + 100 \<le> js_round (100 / side * n)"
    using js_round_mono [of "100 / side * x + of_int 100"] js_round_add [of "100 / side * x" 100] by simp
  moreover have "0 \<le> js_round (100 / side * x)" using assms by (intro js_round_nonneg) simp
  ultimately show ?thesis using assms(2) by (auto simp: scaled_px_def minus_px_def)
qed

lemma floor_rectangle: "x + s \<le> of_int n \<Longrightarrow> \<lfloor>x :: rat\<rfloor> + \<lfloor>s\<rfloor> \<le> n"
  by linarith


section \<open>The button of the page opens its dialog\<close>

text \<open>The guard on the name never refuses: an attribute \<open>null\<close> is read as the value, not the text.\<close>

lemma name_guard_never_refuses: "pp_cropping (picture_ready w x y p)"
  by (simp add: picture_ready_def data_of_def Let_def split: option.split)

lemma init_known:
  "d \<in> set (dp_ids (dialog_init w d auto m s))" "auto \<Longrightarrow> dg_open (dp_dialog (dialog_init w d auto m s) d)"
  "i \<in> set (dp_ids s) \<Longrightarrow> i \<in> set (dp_ids (dialog_init w d auto m s))"
  by (simp_all add: dialog_init_def make_dialog_def Let_def open_opens)

definition made_by_view :: "picture_page \<Rightarrow> bool" where
  "made_by_view p \<longleftrightarrow>
     (case pp_name p of
        Some u \<Rightarrow> pp_change_form p \<noteq> None
      | None \<Rightarrow> pp_crop p = None \<and> pp_upload_form p \<noteq> None)"

text \<open>C30. On every page the views make, and however often the callback has run on it and whatever pages came before, the button of the
  page opens its dialog and does not throw: with a picture the dialog to crop it, which is open from the start when the
  picture was just loaded, and otherwise the dialog to upload one.\<close>

theorem picture_button_opens_dialog:
  assumes "made_by_view p" and "\<not> pp_throws p" and "q = (picture_ready w x y ^^ Suc n) p"
  shows "case pp_name p of
      Some u \<Rightarrow> (\<exists>d. pp_change_form p = Some d \<and> dg_open (dp_dialog (pp_dialogs (click_change w q)) d) \<and>
        \<not> pp_throws (click_change w q) \<and> (equals_true (data_of (pp_json p) (pp_crop p)) \<longrightarrow> dg_open (dp_dialog (pp_dialogs q) d)))
    | None \<Rightarrow> (\<exists>d. pp_upload_form p = Some d \<and> dg_open (dp_dialog (pp_dialogs (click_upload w q)) d) \<and>
        \<not> pp_throws (click_upload w q))"
proof -
  define r where "r = (picture_ready w x y ^^ n) p"
  have step: "pp_json (picture_ready w x y t) = pp_json t" "pp_name (picture_ready w x y t) = pp_name t" "pp_crop (picture_ready w x y t) = pp_crop t"
    "pp_change_form (picture_ready w x y t) = pp_change_form t" "pp_upload_form (picture_ready w x y t) = pp_upload_form t"
    "pp_throws (picture_ready w x y t) = pp_throws t" for t by (simp_all add: picture_ready_def Let_def)
  have "pp_json ((picture_ready w x y ^^ m) p) = pp_json p \<and> pp_name ((picture_ready w x y ^^ m) p) = pp_name p \<and> pp_crop ((picture_ready w x y ^^ m) p) = pp_crop p \<and>
      pp_change_form ((picture_ready w x y ^^ m) p) = pp_change_form p \<and>
      pp_upload_form ((picture_ready w x y ^^ m) p) = pp_upload_form p \<and> pp_throws ((picture_ready w x y ^^ m) p) = pp_throws p" for m
    by (induction m) (simp_all add: step)
  then have same: "pp_json r = pp_json p" "pp_name r = pp_name p" "pp_crop r = pp_crop p" "pp_change_form r = pp_change_form p"
    "pp_upload_form r = pp_upload_form p" "\<not> pp_throws r" using assms(2) by (simp_all add: r_def)
  have q: "q = picture_ready w x y r" by (simp add: assms(3) r_def)
  have some: "data_of j (Some u) \<noteq> Undefined_Value" for j u by (rule data_of_defined)
  show ?thesis
  proof (cases "pp_name p")
    case (Some u)
    then obtain d where d: "pp_change_form p = Some d" using assms(1) by (auto simp: made_by_view_def)
    then have "pp_change_dialog q = Some (Some d)" "\<not> pp_throws q"
      "pp_dialogs q = dialog_init w d (equals_true (data_of (pp_json p) (pp_crop p))) True (pp_dialogs r)"
      using Some same some [of _ u] by (simp_all add: q picture_ready_def init_dialog_def Let_def)
    then show ?thesis using Some d init_known(1,2)
      by (simp add: click_change_def open_variable_def called_def open_opens)
  next
    case None
    then obtain d where d: "pp_upload_form p = Some d" using assms(1) by (auto simp: made_by_view_def)
    then have "pp_upload_dialog q = Some (Some d)" "\<not> pp_throws q" "pp_dialogs q = dialog_init w d False True (pp_dialogs r)"
      using None same by (simp_all add: q picture_ready_def init_dialog_def Let_def data_of_def)
    then show ?thesis using None d init_known(1)
      by (simp add: click_upload_def open_variable_def called_def open_opens)
  qed
qed


section \<open>A sample page\<close>

definition crop_page :: picture_page where
  "crop_page = \<lparr>pp_json = (\<lambda>_. None), pp_name = Some ''/pictures/7.png'', pp_crop = None, pp_change_form = Some 1, pp_upload_form = None,
     pp_broker_fields = True, pp_user_fields = False, pp_large_width = 400, pp_large_height = 300, pp_cropping = False,
     pp_change_dialog = None, pp_upload_dialog = None,
     pp_preview = \<lparr>cv_width = 400, cv_height = 300, cv_left = 0, cv_top = 0\<rparr>, pp_fields = None,
     pp_dialogs = fresh_page [Foreign], pp_throws = False\<rparr>"


theorem picture_button_opens_dialog_witness:
  "dg_open (dp_dialog (pp_dialogs (click_change plain_world ((picture_ready plain_world 400 300 ^^ 2) crop_page))) 1)"
proof -
  have "made_by_view crop_page" "\<not> pp_throws crop_page" "pp_name crop_page = Some ''/pictures/7.png''" "pp_change_form crop_page = Some 1"
    by (simp_all add: crop_page_def made_by_view_def)
  then show ?thesis
    using picture_button_opens_dialog [of crop_page "(picture_ready plain_world 400 300 ^^ 2) crop_page" 1 plain_world 400 300]
    by (simp add: numeral_2_eq_2)
qed

end
