(* ===== verification/Dropdown.thy ===== *)
theory Dropdown
  imports JQuery_Event
begin

text \<open>
  The drop-down menus of the deployed bundle (Bootstrap's \<open>dropdown.js\<close>), as the navigation bar of the application
  uses them. Their handlers are bound on the document and get clicks and keys through \<open>jQuery.event\<close>. The page is
  given by \<open>dd_doc\<close>: which elements are toggles, in the order of the document, the parent that carries the class
  \<open>open\<close> for each (\<open>getParent\<close>), the ancestors of each element and the links in each menu. What handlers
  of the application answer to the events of a menu is \<open>dd_client\<close>. The focus goes wherever it is sent.
\<close>

section \<open>The page\<close>

datatype dd_node = Dd_Element nat | Dd_Document

datatype dd_selector = Toggles | Forms_In_Menus | Toggles_And_Menus

record dd_doc =
  dc_toggles :: "nat list"
  dc_parent :: "nat \<Rightarrow> nat"
  dc_off :: "nat \<Rightarrow> bool"
  dc_prop_off :: "nat \<Rightarrow> bool"
  dc_touch :: "nat \<Rightarrow> bool"
  dc_forms :: "nat list"
  dc_menus :: "nat list"
  dc_items :: "nat \<Rightarrow> nat list"
  dc_inner :: "nat \<Rightarrow> nat list"
  dc_above :: "nat \<Rightarrow> nat list"

record dd_client =
  dk_show :: "nat \<Rightarrow> bool"
  dk_hide :: "nat \<Rightarrow> bool"

datatype dd_note = Menu_Show nat | Menu_Shown nat | Menu_Hide nat | Menu_Hidden nat

record dd_page =
  dd_open :: "nat \<Rightarrow> bool"
  dd_backdrops :: nat
  dd_focus :: "nat option"
  dd_log :: "dd_note list"

definition dd_tell :: "dd_note \<Rightarrow> dd_page \<Rightarrow> dd_page" where
  "dd_tell n s = s\<lparr>dd_log := dd_log s @ [n]\<rparr>"

section \<open>Opening and closing\<close>

definition hide_menu :: "dd_client \<Rightarrow> dd_doc \<Rightarrow> nat \<Rightarrow> dd_page \<Rightarrow> dd_page" where
  "hide_menu c d t s =
     (let p = dc_parent d t in
        if \<not> dd_open s p then s
        else
          let s1 = dd_tell (Menu_Hide p) s in
            if dk_hide c p then dd_tell (Menu_Hidden p) (s1\<lparr>dd_open := (dd_open s1)(p := False)\<rparr>) else s1)"

definition clear_menus :: "dd_client \<Rightarrow> dd_doc \<Rightarrow> dd_page \<Rightarrow> dd_page" where
  "clear_menus c d s = fold (hide_menu c d) (dc_toggles d) (s\<lparr>dd_backdrops := 0\<rparr>)"

text \<open>\<open>toggle\<close>: the page, and whether false is returned.\<close>

definition toggle_menu :: "dd_client \<Rightarrow> dd_doc \<Rightarrow> nat \<Rightarrow> dd_page \<Rightarrow> dd_page \<times> bool" where
  "toggle_menu c d t s =
     (if dc_off d t then (s, False)
      else
        let p = dc_parent d t; active = dd_open s p; s1 = clear_menus c d s in
          if active then (s1, True)
          else
            let s2 = (if dc_touch d t then s1\<lparr>dd_backdrops := Suc (dd_backdrops s1)\<rparr> else s1);
                s3 = dd_tell (Menu_Show p) s2
            in if \<not> dk_show c p then (s3, False)
               else (dd_tell (Menu_Shown p)
                       (s3\<lparr>dd_focus := Some t, dd_open := (dd_open s3)(p := \<not> dd_open s3 p)\<rparr>), True))"

section \<open>Clicks\<close>

datatype dd_handler = Clear_Menus | Stop_In_Form | Toggle_Menu | Menu_Key

definition dd_bindings :: "(dd_handler, dd_selector) registration list" where
  "dd_bindings =
     [(0, Clear_Menus, None, ''click'', [''bs'', ''data-api'', ''dropdown'']),
      (1, Stop_In_Form, Some Forms_In_Menus, ''click'', [''bs'', ''data-api'', ''dropdown'']),
      (2, Toggle_Menu, Some Toggles, ''click'', [''bs'', ''data-api'', ''dropdown'']),
      (3, Menu_Key, Some Toggles_And_Menus, ''keydown'', [''bs'', ''data-api'', ''dropdown''])]"

fun dd_matches :: "dd_doc \<Rightarrow> dd_selector \<Rightarrow> dd_node \<Rightarrow> bool" where
  "dd_matches d sel Dd_Document \<longleftrightarrow> False"
| "dd_matches d Toggles (Dd_Element x) \<longleftrightarrow> x \<in> set (dc_toggles d)"
| "dd_matches d Forms_In_Menus (Dd_Element x) \<longleftrightarrow> x \<in> set (dc_forms d)"
| "dd_matches d Toggles_And_Menus (Dd_Element x) \<longleftrightarrow> x \<in> set (dc_toggles d) \<or> x \<in> set (dc_menus d)"

definition dd_events :: "dd_page \<Rightarrow> dd_node \<Rightarrow> (dd_handler, dd_selector) element_events" where
  "dd_events s n = (case n of Dd_Document \<Rightarrow> bound dd_bindings | Dd_Element x \<Rightarrow> [])"

definition dd_leave :: "dd_page \<Rightarrow> dd_page handled" where
  "dd_leave s = \<lparr>hd_state = s, hd_prevents = False, hd_stops = False, hd_stops_now = False, hd_returns = Undefined\<rparr>"

text \<open>A click with the right button does not close menus.\<close>

definition run_click :: "dd_client \<Rightarrow> dd_doc \<Rightarrow> nat \<Rightarrow> dd_handler \<Rightarrow> dd_node \<Rightarrow> dd_page \<Rightarrow> dd_page handled" where
  "run_click c d button h n s =
     (case h of
        Clear_Menus \<Rightarrow> dd_leave (if button = 2 then s else clear_menus c d s)
      | Stop_In_Form \<Rightarrow> (dd_leave s)\<lparr>hd_stops := True\<rparr>
      | Toggle_Menu \<Rightarrow>
          (case n of
             Dd_Element x \<Rightarrow>
               let (s1, stops) = toggle_menu c d x s in (dd_leave s1)\<lparr>hd_returns := if stops then False_Value else Undefined\<rparr>
           | Dd_Document \<Rightarrow> dd_leave s)
      | Menu_Key \<Rightarrow> dd_leave s)"

definition dd_off_node :: "dd_doc \<Rightarrow> dd_node \<Rightarrow> bool" where
  "dd_off_node d n = (case n of Dd_Element x \<Rightarrow> dc_prop_off d x | Dd_Document \<Rightarrow> False)"

definition dd_path :: "dd_doc \<Rightarrow> nat \<Rightarrow> dd_node list" where
  "dd_path d x = map Dd_Element (x # dc_above d x) @ [Dd_Document]"

definition dd_click :: "dd_client \<Rightarrow> dd_doc \<Rightarrow> nat \<Rightarrow> nat \<Rightarrow> dd_page \<Rightarrow> dd_page" where
  "dd_click c d button x s =
     rn_state (propagate
       \<lparr>ep_events = dd_events, ep_matching = dd_matches d, ep_disabled = dd_off_node d, ep_run = run_click c d button\<rparr>
       \<lparr>ev_type = ''click'', ev_namespaces = [], ev_button = button\<rparr> [] (dd_path d x) (start_running s))"

section \<open>Keys\<close>

text \<open>The next index for a key, where nothing in focus is -1.\<close>

definition key_index :: "nat \<Rightarrow> nat \<Rightarrow> int \<Rightarrow> int" where
  "key_index k n i =
     (let i1 = (if k = 38 \<and> i > 0 then i - 1 else i);
          i2 = (if k = 40 \<and> i1 < int n - 1 then i1 + 1 else i1)
      in if i2 = - 1 then 0 else i2)"

text \<open>The test of the key code is a search for one of three numbers anywhere in its decimal digits.\<close>

fun key_hit :: "nat \<Rightarrow> bool" where
  "key_hit k \<longleftrightarrow> (if k mod 100 = 38 \<or> k mod 100 = 40 \<or> k mod 100 = 27 then True else if k < 100 then False else key_hit (k div 10))"

declare key_hit.simps [simp del]

fun index_in :: "nat list \<Rightarrow> nat \<Rightarrow> int" where
  "index_in [] x = - 1"
| "index_in (y # ys) x = (if x = y then 0 else let i = index_in ys x in if i = - 1 then - 1 else i + 1)"

definition menu_key :: "dd_client \<Rightarrow> dd_doc \<Rightarrow> nat \<Rightarrow> nat \<Rightarrow> dd_page \<Rightarrow> dd_page handled" where
  "menu_key c d k x s =
     (if \<not> key_hit k then dd_leave s
      else
        (dd_leave
          (if dc_off d x then s
           else
             let p = dc_parent d x in
               if \<not> dd_open s p \<or> k = 27
               then
                 let s1 = (if k = 27 \<and> dc_inner d p \<noteq> [] then s\<lparr>dd_focus := Some (last (dc_inner d p))\<rparr> else s)
                 in dd_click c d 0 x s1
               else
                 let items = dc_items d p in
                   if items = [] then s
                   else
                     let i = (case dd_focus s of Some y \<Rightarrow> index_in items y | None \<Rightarrow> - 1)
                     in s\<lparr>dd_focus := Some (items ! nat (key_index k (length items) i))\<rparr>))
          \<lparr>hd_prevents := True, hd_stops := True\<rparr>)"

definition run_key :: "dd_client \<Rightarrow> dd_doc \<Rightarrow> nat \<Rightarrow> dd_handler \<Rightarrow> dd_node \<Rightarrow> dd_page \<Rightarrow> dd_page handled" where
  "run_key c d k h n s =
     (case (h, n) of (Menu_Key, Dd_Element x) \<Rightarrow> menu_key c d k x s | _ \<Rightarrow> dd_leave s)"

definition dd_keydown :: "dd_client \<Rightarrow> dd_doc \<Rightarrow> nat \<Rightarrow> nat \<Rightarrow> dd_page \<Rightarrow> dd_page" where
  "dd_keydown c d k x s =
     rn_state (propagate
       \<lparr>ep_events = dd_events, ep_matching = dd_matches d, ep_disabled = dd_off_node d, ep_run = run_key c d k\<rparr>
       \<lparr>ev_type = ''keydown'', ev_namespaces = [], ev_button = 0\<rparr> [] (dd_path d x) (start_running s))"

text \<open>A click on the backdrop of a touch screen closes menus itself and then reaches the document.\<close>

datatype dd_event = Dd_Click nat nat | Dd_Key nat nat | Dd_Backdrop | Dd_Focus nat

fun dd_step :: "dd_doc \<Rightarrow> dd_client \<Rightarrow> dd_event \<Rightarrow> dd_page \<Rightarrow> dd_page" where
  "dd_step d c (Dd_Click button x) s = dd_click c d button x s"
| "dd_step d c (Dd_Key k x) s = dd_keydown c d k x s"
| "dd_step d c Dd_Backdrop s = (if dd_backdrops s = 0 then s else clear_menus c d (clear_menus c d s))"
| "dd_step d c (Dd_Focus x) s = s\<lparr>dd_focus := Some x\<rparr>"

definition dd_run :: "dd_doc \<Rightarrow> (dd_client \<times> dd_event) list \<Rightarrow> dd_page \<Rightarrow> dd_page" where
  "dd_run d es s = fold (\<lambda>(c, e). dd_step d c e) es s"

section \<open>What a click does\<close>

text \<open>Going up from the target: the first form or toggle that stops the click decides.\<close>

fun click_up :: "dd_client \<Rightarrow> dd_doc \<Rightarrow> nat list \<Rightarrow> dd_page \<Rightarrow> dd_page" where
  "click_up c d [] s = clear_menus c d s"
| "click_up c d (x # xs) s =
     (if dc_prop_off d x then click_up c d xs s
      else if x \<in> set (dc_forms d) then s
      else if x \<in> set (dc_toggles d)
      then let (s1, stops) = toggle_menu c d x s in if stops then s1 else click_up c d xs s1
      else click_up c d xs s)"

lemma dd_click_handlers:
  "handlers_of (bound dd_bindings) ''click'' =
     \<lparr>hl_list =
        [\<lparr>ho_type = ''click'', ho_orig_type = ''click'', ho_guid = 1, ho_handler = Stop_In_Form, ho_selector = Some Forms_In_Menus,
          ho_namespaces = [''bs'', ''data-api'', ''dropdown'']\<rparr>,
         \<lparr>ho_type = ''click'', ho_orig_type = ''click'', ho_guid = 2, ho_handler = Toggle_Menu, ho_selector = Some Toggles,
          ho_namespaces = [''bs'', ''data-api'', ''dropdown'']\<rparr>,
         \<lparr>ho_type = ''click'', ho_orig_type = ''click'', ho_guid = 0, ho_handler = Clear_Menus, ho_selector = None,
          ho_namespaces = [''bs'', ''data-api'', ''dropdown'']\<rparr>],
      hl_delegates = 2\<rparr>"
  by code_simp

lemma dispatch_element: "event_dispatch \<lparr>ep_events = dd_events, ep_matching = m, ep_disabled = f, ep_run = g\<rparr> ev below (Dd_Element x) r = r"
  by (simp add: event_dispatch_def dd_events_def handlers_of_def no_handlers_def event_handlers_def)

lemma propagate_elements:
  assumes "\<not> rn_stopped r"
  shows "propagate \<lparr>ep_events = dd_events, ep_matching = m, ep_disabled = f, ep_run = g\<rparr> ev below (map Dd_Element xs @ [Dd_Document]) r =
    event_dispatch \<lparr>ep_events = dd_events, ep_matching = m, ep_disabled = f, ep_run = g\<rparr> ev (below @ map Dd_Element xs) Dd_Document r"
  using assms by (induction xs arbitrary: below) (simp_all add: dispatch_element)

text \<open>No form is a toggle.\<close>

definition dd_plain :: "dd_doc \<Rightarrow> bool" where
  "dd_plain d \<longleftrightarrow> set (dc_forms d) \<inter> set (dc_toggles d) = {}"

definition due_at_click :: "dd_doc \<Rightarrow> nat list \<Rightarrow> (dd_node \<times> (dd_handler, dd_selector) handle_obj list) list" where
  "due_at_click d xs =
     event_handlers (dd_matches d) (dd_off_node d) \<lparr>ev_type = ''click'', ev_namespaces = [], ev_button = 0\<rparr>
       (handlers_of (bound dd_bindings) ''click'') (map Dd_Element xs) Dd_Document"

definition dd_handle :: "nat \<Rightarrow> dd_handler \<Rightarrow> dd_selector option \<Rightarrow> (dd_handler, dd_selector) handle_obj" where
  "dd_handle i h sel =
     \<lparr>ho_type = ''click'', ho_orig_type = ''click'', ho_guid = i, ho_handler = h, ho_selector = sel,
      ho_namespaces = [''bs'', ''data-api'', ''dropdown'']\<rparr>"

lemma due_at_click_Nil: "due_at_click d [] = [(Dd_Document, [dd_handle 0 Clear_Menus None])]"
  by (simp add: due_at_click_def dd_click_handlers event_handlers_def dd_handle_def)

lemma due_at_click_Cons:
  assumes "dd_plain d"
  shows "due_at_click d (y # ys) =
    (if dc_prop_off d y then due_at_click d ys
     else if y \<in> set (dc_forms d) then (Dd_Element y, [dd_handle 1 Stop_In_Form (Some Forms_In_Menus)]) # due_at_click d ys
     else if y \<in> set (dc_toggles d) then (Dd_Element y, [dd_handle 2 Toggle_Menu (Some Toggles)]) # due_at_click d ys
     else due_at_click d ys)"
  using assms
  by (auto simp: due_at_click_def dd_click_handlers event_handlers_def dd_handle_def dd_off_node_def delegated_at_def matched_by_def dd_plain_def)

lemma run_click_simps:
  "run_click c d b Clear_Menus n s = dd_leave (if b = 2 then s else clear_menus c d s)"
  "run_click c d b Stop_In_Form n s = (dd_leave s)\<lparr>hd_stops := True\<rparr>"
  "run_click c d b Toggle_Menu (Dd_Element x) s =
     (let (s1, stops) = toggle_menu c d x s in (dd_leave s1)\<lparr>hd_returns := if stops then False_Value else Undefined\<rparr>)"
  by (simp_all add: run_click_def)

lemma run_due:
  assumes "dd_plain d" and "\<not> rn_stopped r" and "\<not> rn_immediate r"
  shows "rn_state (run_queue (run_click c d 0) \<lparr>ev_type = ''click'', ev_namespaces = [], ev_button = 0\<rparr> (due_at_click d xs) r) =
    click_up c d xs (rn_state r)"
  using assms(2,3)
proof (induction xs arbitrary: r)
  case Nil
  then show ?case by (simp add: due_at_click_Nil dd_handle_def run_click_simps take_handled_def dd_leave_def)
next
  case (Cons y ys)
  have stop: "rn_state (run_queue run ev q (take_handled h r)) = hd_state h"
    if "hd_stops h \<or> hd_returns h = False_Value" for run q h and ev :: jq_event
    using that by (cases q) (auto simp: take_handled_def)
  consider "dc_prop_off d y" | "\<not> dc_prop_off d y" "y \<in> set (dc_forms d)"
    | "\<not> dc_prop_off d y" "y \<notin> set (dc_forms d)" "y \<in> set (dc_toggles d)"
    | "\<not> dc_prop_off d y" "y \<notin> set (dc_forms d)" "y \<notin> set (dc_toggles d)" by blast
  then show ?case
  proof cases
    case 2
    then show ?thesis using Cons.prems by (simp add: due_at_click_Cons [OF assms(1)] dd_handle_def stop run_click_simps dd_leave_def)
  next
    case 3
    obtain t b where t: "toggle_menu c d y (rn_state r) = (t, b)" by fastforce
    show ?thesis
    proof (cases b)
      case True
      then show ?thesis using 3 Cons.prems t
        by (simp add: due_at_click_Cons [OF assms(1)] dd_handle_def stop run_click_simps dd_leave_def)
    next
      case False
      let ?h = "(dd_leave t)\<lparr>hd_returns := Undefined\<rparr>"
      have "rn_state (run_queue (run_click c d 0) \<lparr>ev_type = ''click'', ev_namespaces = [], ev_button = 0\<rparr> (due_at_click d ys)
          (take_handled ?h r)) = click_up c d ys t"
        using Cons.IH [of "take_handled ?h r"] Cons.prems by (simp add: take_handled_def dd_leave_def)
      then show ?thesis using 3 Cons.prems t False by (simp add: due_at_click_Cons [OF assms(1)] dd_handle_def run_click_simps)
    qed
  qed (use Cons in \<open>simp_all add: due_at_click_Cons [OF assms(1)]\<close>)
qed

lemma click_is_up:
  assumes "dd_plain d"
  shows "dd_click c d 0 x s = click_up c d (x # dc_above d x) s"
proof -
  let ?pg = "\<lparr>ep_events = dd_events, ep_matching = dd_matches d, ep_disabled = dd_off_node d, ep_run = run_click c d 0\<rparr>"
  let ?ev = "\<lparr>ev_type = ''click'', ev_namespaces = [], ev_button = 0\<rparr>"
  have "propagate ?pg ?ev [] (map Dd_Element (x # dc_above d x) @ [Dd_Document]) (start_running s) =
    event_dispatch ?pg ?ev ([] @ map Dd_Element (x # dc_above d x)) Dd_Document (start_running s)"
    by (rule propagate_elements) (simp add: start_running_def)
  then have "dd_click c d 0 x s = rn_state (run_queue (run_click c d 0) ?ev (due_at_click d (x # dc_above d x)) (start_running s))"
    unfolding dd_click_def dd_path_def by (simp add: event_dispatch_def dd_events_def due_at_click_def)
  then show ?thesis using run_due [OF assms, of "start_running s"] by (simp add: start_running_def)
qed


lemma other_button:
  assumes "b \<noteq> 0"
  shows "dd_click c d b x s = (if b = 2 then s else clear_menus c d s)"
proof -
  let ?pg = "\<lparr>ep_events = dd_events, ep_matching = dd_matches d, ep_disabled = dd_off_node d, ep_run = run_click c d b\<rparr>"
  let ?ev = "\<lparr>ev_type = ''click'', ev_namespaces = [], ev_button = b\<rparr>"
  have "propagate ?pg ?ev [] (map Dd_Element (x # dc_above d x) @ [Dd_Document]) (start_running s) =
    event_dispatch ?pg ?ev ([] @ map Dd_Element (x # dc_above d x)) Dd_Document (start_running s)"
    by (rule propagate_elements) (simp add: start_running_def)
  then show ?thesis using assms
    by (simp add: dd_click_def dd_path_def event_dispatch_def dd_events_def dd_click_handlers event_handlers_def run_click_simps
        take_handled_def dd_leave_def start_running_def)
qed

section \<open>At most one menu is open\<close>

definition parents :: "dd_doc \<Rightarrow> nat set" where
  "parents d = dc_parent d ` set (dc_toggles d)"

definition one_open :: "dd_doc \<Rightarrow> dd_page \<Rightarrow> bool" where
  "one_open d s \<longleftrightarrow> (\<forall>p. dd_open s p \<longrightarrow> p \<in> parents d) \<and> (\<forall>p q. dd_open s p \<and> dd_open s q \<longrightarrow> p = q)"

lemma hide_menu_open:
  "dd_open (hide_menu c d t s) p \<longleftrightarrow> dd_open s p \<and> \<not> (p = dc_parent d t \<and> dk_hide c p)"
  by (auto simp: hide_menu_def dd_tell_def Let_def)

lemma clear_menus_open:
  "dd_open (clear_menus c d s) p \<longleftrightarrow> dd_open s p \<and> \<not> (p \<in> parents d \<and> dk_hide c p)"
proof -
  have "dd_open (fold (hide_menu c d) ts u) p \<longleftrightarrow> dd_open u p \<and> \<not> (p \<in> dc_parent d ` set ts \<and> dk_hide c p)" for ts u
    by (induction ts arbitrary: u) (auto simp: hide_menu_open)
  then show ?thesis by (simp add: clear_menus_def parents_def)
qed

definition hides :: "dd_client \<Rightarrow> bool" where
  "hides c \<longleftrightarrow> (\<forall>p. dk_hide c p)"

lemma cleared:
  assumes "one_open d s" and "hides c"
  shows "\<not> dd_open (clear_menus c d s) p"
  using assms by (auto simp: clear_menus_open one_open_def hides_def)

lemma one_open_clear: "one_open d s \<Longrightarrow> one_open d (clear_menus c d s)"
  by (auto simp: one_open_def clear_menus_open)

lemma toggle_open:
  assumes "one_open d s" and "hides c" and "\<not> dc_off d t"
  shows "dd_open (fst (toggle_menu c d t s)) p \<longleftrightarrow> p = dc_parent d t \<and> \<not> dd_open s p \<and> dk_show c p"
  using assms cleared [OF assms(1,2)] by (auto simp: toggle_menu_def dd_tell_def Let_def)

lemma one_open_toggle:
  assumes "one_open d s" and "hides c" and "t \<in> set (dc_toggles d)"
  shows "one_open d (fst (toggle_menu c d t s))"
proof (cases "dc_off d t")
  case False
  then show ?thesis using toggle_open [OF assms(1,2) False] assms(3) by (auto simp: one_open_def parents_def)
qed (simp add: toggle_menu_def assms)

lemma one_open_up:
  assumes "hides c"
  shows "one_open d s \<Longrightarrow> one_open d (click_up c d xs s)"
proof (induction xs arbitrary: s)
  case (Cons x xs)
  then show ?case using one_open_toggle [OF Cons.prems assms, of x] by (auto split: prod.split)
qed (simp add: one_open_clear)

lemma one_open_click:
  assumes "dd_plain d" and "hides c" and "one_open d s"
  shows "one_open d (dd_click c d b x s)"
proof (cases "b = 0")
  case True
  show ?thesis unfolding True click_is_up [OF assms(1)] by (rule one_open_up [OF assms(2,3)])
qed (simp add: other_button one_open_clear assms(3))

lemma dd_key_handlers:
  "handlers_of (bound dd_bindings) ''keydown'' =
     \<lparr>hl_list =
        [\<lparr>ho_type = ''keydown'', ho_orig_type = ''keydown'', ho_guid = 3, ho_handler = Menu_Key, ho_selector = Some Toggles_And_Menus,
          ho_namespaces = [''bs'', ''data-api'', ''dropdown'']\<rparr>],
      hl_delegates = 1\<rparr>"
  by code_simp

definition due_at_key :: "dd_doc \<Rightarrow> nat list \<Rightarrow> (dd_node \<times> (dd_handler, dd_selector) handle_obj list) list" where
  "due_at_key d xs =
     event_handlers (dd_matches d) (dd_off_node d) \<lparr>ev_type = ''keydown'', ev_namespaces = [], ev_button = 0\<rparr>
       (handlers_of (bound dd_bindings) ''keydown'') (map Dd_Element xs) Dd_Document"

definition key_handle :: "(dd_handler, dd_selector) handle_obj" where
  "key_handle =
     \<lparr>ho_type = ''keydown'', ho_orig_type = ''keydown'', ho_guid = 3, ho_handler = Menu_Key, ho_selector = Some Toggles_And_Menus,
      ho_namespaces = [''bs'', ''data-api'', ''dropdown'']\<rparr>"

lemma due_at_key_simps:
  "due_at_key d [] = []"
  "due_at_key d (y # ys) =
     (if dd_matches d Toggles_And_Menus (Dd_Element y) then (Dd_Element y, [key_handle]) # due_at_key d ys else due_at_key d ys)"
  by (simp_all add: due_at_key_def key_handle_def dd_key_handlers event_handlers_def delegated_at_def matched_by_def)

text \<open>Only the innermost toggle or menu sees one of the three keys.\<close>

lemma keydown_innermost:
  assumes "key_hit k"
  shows "dd_keydown c d k x s =
    (case find (\<lambda>y. dd_matches d Toggles_And_Menus (Dd_Element y)) (x # dc_above d x) of
       Some y \<Rightarrow> hd_state (menu_key c d k y s)
     | None \<Rightarrow> s)"
proof -
  let ?pg = "\<lparr>ep_events = dd_events, ep_matching = dd_matches d, ep_disabled = dd_off_node d, ep_run = run_key c d k\<rparr>"
  let ?ev = "\<lparr>ev_type = ''keydown'', ev_namespaces = [], ev_button = 0\<rparr>"
  have stops: "hd_stops (menu_key c d k y u)" for y u using assms by (auto simp: menu_key_def)
  have st: "rn_state (run_queue (run_key c d k) ?ev q (take_handled (menu_key c d k y u) r)) = hd_state (menu_key c d k y u)" for q y u r
    using stops [of y u] by (cases q) (auto simp: take_handled_def)
  have key: "run_key c d k Menu_Key (Dd_Element y) u = menu_key c d k y u" for y u by (simp add: run_key_def)
  have run: "rn_state (run_queue (run_key c d k) ?ev (due_at_key d xs) r) =
    (case find (\<lambda>y. dd_matches d Toggles_And_Menus (Dd_Element y)) xs of Some y \<Rightarrow> hd_state (menu_key c d k y (rn_state r)) | None \<Rightarrow> rn_state r)"
    if "\<not> rn_stopped r" "\<not> rn_immediate r" for xs r
    using that by (induction xs arbitrary: r) (simp_all add: due_at_key_simps key_handle_def key st)
  have "propagate ?pg ?ev [] (map Dd_Element (x # dc_above d x) @ [Dd_Document]) (start_running s) =
    event_dispatch ?pg ?ev ([] @ map Dd_Element (x # dc_above d x)) Dd_Document (start_running s)"
    by (rule propagate_elements) (simp add: start_running_def)
  then have "dd_keydown c d k x s = rn_state (run_queue (run_key c d k) ?ev (due_at_key d (x # dc_above d x)) (start_running s))"
    unfolding dd_keydown_def dd_path_def by (simp add: event_dispatch_def dd_events_def due_at_key_def)
  moreover have "rn_state (start_running s) = s" "\<not> rn_stopped (start_running s)" "\<not> rn_immediate (start_running s)"
    by (simp_all add: start_running_def)
  ultimately show ?thesis using run [of "start_running s" "x # dc_above d x"] by (simp only: simp_thms)
qed


lemma other_key: "\<not> key_hit k \<Longrightarrow> dd_keydown c d k x s = s"
  unfolding dd_keydown_def
  by (rule propagate_invariant [where I = "\<lambda>u. u = s"])
    (auto simp: run_key_def menu_key_def dd_leave_def start_running_def split: dd_handler.split dd_node.split)

lemma one_open_cong: "dd_open t = dd_open s \<Longrightarrow> one_open d t \<longleftrightarrow> one_open d s"
  by (simp add: one_open_def)

lemma one_open_menu_key:
  assumes "dd_plain d" and "hides c" and "one_open d s"
  shows "one_open d (hd_state (menu_key c d k y s))"
proof -
  have "one_open d (s\<lparr>dd_focus := f\<rparr>)" for f using assms(3) by (simp add: one_open_def)
  then show ?thesis using assms(3) one_open_click [OF assms(1,2)] by (simp add: menu_key_def dd_leave_def Let_def)
qed

lemma one_open_step:
  assumes "dd_plain d" and "hides c" and "one_open d s"
  shows "one_open d (dd_step d c e s)"
proof (cases e)
  case (Dd_Key k x)
  then show ?thesis using one_open_menu_key [OF assms] assms(3) keydown_innermost [of k c d x s] other_key [of k c d x s]
    by (cases "key_hit k") (auto split: option.split)
qed (use assms in \<open>auto simp: one_open_click one_open_clear one_open_cong [of "s\<lparr>dd_focus := _\<rparr>" s]\<close>)

text \<open>C31. As long as no handler of the application keeps a menu from closing, at most one drop-down menu is open, whatever the user
  clicks and types. A left click then decides by its way up: without a form or toggle on it every menu closes; from a form in a
  menu nothing changes; and on an enabled toggle its menu changes between open and closed and every other one closes.\<close>

theorem one_menu_at_most:
  assumes "set (dc_forms d) \<inter> set (dc_toggles d) = {}" and "\<forall>(c, e) \<in> set es. \<forall>p. dk_hide c p" and "\<forall>p. \<not> dd_open s0 p"
    and "s = dd_run d es s0" and "\<forall>p. dk_hide c p \<and> dk_show c p"
    and "find (\<lambda>y. \<not> dc_prop_off d y \<and> (y \<in> set (dc_forms d) \<or> y \<in> set (dc_toggles d))) (x # dc_above d x) = found"
  shows "(\<forall>p q. dd_open s p \<and> dd_open s q \<longrightarrow> p = q) \<and>
    (case found of
       None \<Rightarrow> \<forall>p. \<not> dd_open (dd_step d c (Dd_Click 0 x) s) p
     | Some t \<Rightarrow>
         if t \<in> set (dc_forms d) then dd_step d c (Dd_Click 0 x) s = s
         else \<not> dc_off d t \<longrightarrow> (\<forall>p. dd_open (dd_step d c (Dd_Click 0 x) s) p \<longleftrightarrow> p = dc_parent d t \<and> \<not> dd_open s p))"
proof -
  have pl: "dd_plain d" using assms(1) by (simp add: dd_plain_def)
  have keep: "one_open d (dd_run d es u)" if "one_open d u" "\<forall>(c, e) \<in> set es. \<forall>p. dk_hide c p" for es u
    using that
  proof (induction es arbitrary: u)
    case (Cons ce es)
    obtain c e where ce: "ce = (c, e)" by fastforce
    have "one_open d (dd_step d c e u)" by (rule one_open_step [OF pl]) (use Cons.prems ce in \<open>auto simp: hides_def\<close>)
    then show ?case using Cons ce by (simp add: dd_run_def)
  qed (simp add: dd_run_def)
  have "one_open d s0" using assms(3) by (simp add: one_open_def)
  then have o: "one_open d s" unfolding assms(4) using assms(2) by (rule keep)
  have h: "hides c" using assms(5) by (simp add: hides_def)
  have up: "case find (\<lambda>y. \<not> dc_prop_off d y \<and> (y \<in> set (dc_forms d) \<or> y \<in> set (dc_toggles d))) xs of
       None \<Rightarrow> \<forall>p. \<not> dd_open (click_up c d xs s) p
     | Some t \<Rightarrow>
         if t \<in> set (dc_forms d) then click_up c d xs s = s
         else \<not> dc_off d t \<longrightarrow> (\<forall>p. dd_open (click_up c d xs s) p \<longleftrightarrow> p = dc_parent d t \<and> \<not> dd_open s p)" for xs
  proof (induction xs)
    case (Cons y ys)
    show ?case
    proof (cases "\<not> dc_prop_off d y \<and> y \<notin> set (dc_forms d) \<and> y \<in> set (dc_toggles d) \<and> \<not> dc_off d y")
      case True
      then have "snd (toggle_menu c d y s)" using assms(5) by (simp add: toggle_menu_def Let_def)
      then obtain u where "toggle_menu c d y s = (u, True)" by (cases "toggle_menu c d y s") simp
      then have "click_up c d (y # ys) s = fst (toggle_menu c d y s)" using True by simp
      then show ?thesis using True toggle_open [OF o h, of y] assms(5) by simp
    next
      case False
      consider "\<not> dc_prop_off d y" "y \<in> set (dc_forms d)" | "\<not> dc_prop_off d y" "y \<notin> set (dc_forms d)" "y \<in> set (dc_toggles d)" "dc_off d y"
        | "dc_prop_off d y \<or> y \<notin> set (dc_forms d) \<and> y \<notin> set (dc_toggles d)" using False by blast
      then show ?thesis
      proof cases
        case 3
        then have "click_up c d (y # ys) s = click_up c d ys s" by auto
        moreover have "find (\<lambda>y. \<not> dc_prop_off d y \<and> (y \<in> set (dc_forms d) \<or> y \<in> set (dc_toggles d))) (y # ys) =
          find (\<lambda>y. \<not> dc_prop_off d y \<and> (y \<in> set (dc_forms d) \<or> y \<in> set (dc_toggles d))) ys" using 3 by auto
        ultimately show ?thesis using Cons by (simp only:)
      qed simp_all
    qed
  qed (use cleared [OF o h] in simp)
  have "\<forall>p q. dd_open s p \<and> dd_open s q \<longrightarrow> p = q" using o by (simp add: one_open_def)
  then show ?thesis using up [of "x # dc_above d x"] unfolding assms(6) dd_step.simps click_is_up [OF pl] by (rule conjI)
qed

section \<open>Arrow keys\<close>

lemma index_in_nth: "distinct xs \<Longrightarrow> i < length xs \<Longrightarrow> index_in xs (xs ! i) = int i"
proof (induction xs arbitrary: i)
  case (Cons y ys)
  then show ?case by (cases i) (auto simp: Let_def nth_mem)
qed simp

text \<open>The position a key moves to from a link of the menu, or from outside.\<close>

fun arrow_to :: "nat \<Rightarrow> nat \<Rightarrow> nat option \<Rightarrow> nat" where
  "arrow_to k n None = 0"
| "arrow_to k n (Some i) = (if k = 38 then i - 1 else min (Suc i) (n - 1))"

lemma key_index_arrow:
  assumes "k \<in> {38, 40}" and "0 < n"
  shows "i < n \<Longrightarrow> nat (key_index k n (int i)) = arrow_to k n (Some i)" "nat (key_index k n (- 1)) = arrow_to k n None"
  using assms by (auto simp: key_index_def Let_def min_def)

text \<open>In an open menu with links the arrow keys keep the focus on its links: from outside to the first, else one up or down without
  going round, so that after any number of them the focus is where the same moves of a position lead.\<close>

theorem arrows_stay_in_menu:
  assumes "dd_open s p" and "dc_items d p = items" and "distinct items" and "items \<noteq> []" and "set ks \<subseteq> {38, 40}"
    and "\<forall>y \<in> set items. find (\<lambda>z. z \<in> set (dc_toggles d) \<or> z \<in> set (dc_menus d)) (y # dc_above d y) = Some m"
    and "dc_parent d m = p" and "\<not> dc_off d m" and "dc_parent d t = p" and "\<not> dc_off d t"
    and "dd_focus s = Some t" and "t \<notin> set items" and "t \<in> set (dc_toggles d)"
  shows "dd_focus (fold (\<lambda>k s. dd_step d c (Dd_Key k (the (dd_focus s))) s) ks s) =
    (case fold (\<lambda>k i. Some (arrow_to k (length items) i)) ks None of None \<Rightarrow> Some t | Some i \<Rightarrow> Some (items ! i)) \<and>
    (\<forall>i. fold (\<lambda>k i. Some (arrow_to k (length items) i)) ks None = Some i \<longrightarrow> i < length items)"
proof -
  let ?at = "\<lambda>i. case i of None \<Rightarrow> Some t | Some j \<Rightarrow> Some (items ! j)"
  let ?go = "\<lambda>k s. dd_step d c (Dd_Key k (the (dd_focus s))) s"
  have ni: "index_in xs t = - 1" if "t \<notin> set xs" for xs using that by (induction xs) auto
  have one: "dd_focus (?go k u) = Some (items ! arrow_to k (length items) i) \<and> dd_open (?go k u) p \<and> arrow_to k (length items) i < length items"
    if "dd_open u p" "dd_focus u = ?at i" "\<forall>j. i = Some j \<longrightarrow> j < length items" "k \<in> {38, 40}" for k u i
  proof -
    have "dd_focus u \<noteq> None" using that(2) by (cases i) auto
    then obtain y where y: "dd_focus u = Some y" by auto
    define z where "z = (if i = None then t else m)"
    have f: "find (\<lambda>z. z \<in> set (dc_toggles d) \<or> z \<in> set (dc_menus d)) (y # dc_above d y) = Some z"
      using that(2,3) y assms(6,13) by (cases i) (auto simp: z_def)
    have zp: "dc_parent d z = p" "\<not> dc_off d z" using assms(7-10) by (simp_all add: z_def)
    have pos: "0 < length items" using assms(4) by simp
    have ix: "nat (key_index k (length items) (index_in items y)) = arrow_to k (length items) i"
    proof (cases i)
      case None
      then have "index_in items y = - 1" using that(2) y ni [OF assms(12)] by simp
      then show ?thesis using key_index_arrow(2) [OF that(4) pos] None by simp
    next
      case (Some j)
      then have "index_in items y = int j" using that(2,3) y index_in_nth [OF assms(3), of j] by simp
      moreover have "j < length items" using Some that(3) by simp
      ultimately show ?thesis unfolding Some using key_index_arrow(1) [OF that(4) pos, of j] by (simp del: arrow_to.simps)
    qed
    have hit: "key_hit k" using that(4) by (auto simp: key_hit.simps [of 38] key_hit.simps [of 40])
    have "?go k u = hd_state (menu_key c d k z u)" using keydown_innermost [OF hit, of c d y u] f y by simp
    moreover have "hd_state (menu_key c d k z u) = u\<lparr>dd_focus := Some (items ! nat (key_index k (length items) (index_in items y)))\<rparr>"
      using that(1,4) zp assms(2,4) y hit by (auto simp: menu_key_def dd_leave_def)
    moreover have "arrow_to k (length items) i < length items"
      using that(3,4) assms(4) by (cases i) auto
    ultimately show ?thesis using that(1) by (simp add: ix)
  qed
  have "dd_focus (fold ?go ks u) = ?at (fold (\<lambda>k i. Some (arrow_to k (length items) i)) ks i) \<and>
      (\<forall>j. fold (\<lambda>k i. Some (arrow_to k (length items) i)) ks i = Some j \<longrightarrow> j < length items)"
    if "dd_open u p" "dd_focus u = ?at i" "\<forall>j. i = Some j \<longrightarrow> j < length items" for u i
    using that assms(5)
  proof (induction ks arbitrary: u i)
    case (Cons k ks)
    have "k \<in> {38, 40}" using Cons.prems(4) by auto
    note st = one [OF Cons.prems(1-3) this]
    show ?case using Cons.IH [of "?go k u" "Some (arrow_to k (length items) i)"] st Cons.prems(4) by simp
  qed simp
  from this [of s None] show ?thesis using assms(1,11) by simp
qed


section \<open>Two menus of a navigation bar\<close>

definition sample_bar :: dd_doc where
  "sample_bar =
     \<lparr>dc_toggles = [1, 5], dc_parent = (\<lambda>x. if x = 1 \<or> x = 2 then 10 else 11), dc_off = (\<lambda>_. False), dc_prop_off = (\<lambda>_. False),
      dc_touch = (\<lambda>_. False), dc_forms = [8], dc_menus = [2, 6], dc_items = (\<lambda>p. if p = 10 then [3, 4] else [7]),
      dc_inner = (\<lambda>p. if p = 10 then [1] else [5]),
      dc_above = (\<lambda>x. if x = 1 then [10] else if x = 3 \<or> x = 4 then [2, 10] else if x = 7 \<or> x = 8 then [6, 11] else [11])\<rparr>"

definition willing_client :: dd_client where
  "willing_client = \<lparr>dk_show = (\<lambda>_. True), dk_hide = (\<lambda>_. True)\<rparr>"

definition closed_page :: dd_page where
  "closed_page = \<lparr>dd_open = (\<lambda>_. False), dd_backdrops = 0, dd_focus = None, dd_log = []\<rparr>"

definition first_open :: dd_page where
  "first_open = dd_run sample_bar [(willing_client, Dd_Click 0 1)] closed_page"

lemma first_open_is: "dd_open first_open 10" "dd_focus first_open = Some 1"
  by code_simp+

theorem one_menu_at_most_witness:
  "dd_open first_open 10 \<and> (\<forall>p. dd_open (dd_step sample_bar willing_client (Dd_Click 0 5) first_open) p \<longleftrightarrow> p = 11)"
proof -
  have f: "find (\<lambda>y. \<not> dc_prop_off sample_bar y \<and> (y \<in> set (dc_forms sample_bar) \<or> y \<in> set (dc_toggles sample_bar)))
    (5 # dc_above sample_bar 5) = Some 5" by (simp add: sample_bar_def)
  have "\<not> dd_open first_open 11" by code_simp
  then show ?thesis
    using one_menu_at_most [of sample_bar "[(willing_client, Dd_Click 0 1)]" closed_page first_open willing_client 5 "Some 5", OF _ _ _ first_open_def _ f]
      first_open_is(1)
    by (auto simp: sample_bar_def willing_client_def closed_page_def)
qed

theorem arrows_stay_in_menu_witness:
  "dd_focus (fold (\<lambda>k s. dd_step sample_bar willing_client (Dd_Key k (the (dd_focus s))) s) [40, 40, 40, 38] first_open) = Some 3"
  using arrows_stay_in_menu [of first_open 10 sample_bar "[3, 4]" "[40, 40, 40, 38]" 2 1 willing_client] first_open_is
  by (simp add: sample_bar_def)

text \<open>A key whose code only contains one of the three numbers, such as 227, is kept from the page as well.\<close>

lemma digits_anywhere: "hd_prevents (menu_key c d 227 x s) \<and> dd_open (hd_state (menu_key c d 40 x s)) = dd_open (hd_state (menu_key c d 140 x s))"
  if "dd_open s (dc_parent d x)"
proof -
  have "key_hit 227" "key_hit 40" "key_hit 140" by code_simp+
  then show ?thesis using that by (simp add: menu_key_def dd_leave_def Let_def)
qed

end
