(* ===== verification/Text_Markup.thy ===== *)
theory Text_Markup
  imports Prelude
begin

text \<open>
  Text as markup: what the browser makes of a text node when its markup is read (\<open>$("<a>").text(t).html()\<close>, or \<open>html()\<close>
  after \<open>text(t)\<close>), and a reader that undoes it.
\<close>

text \<open>The serialisation of a text node.\<close>

definition escape_char :: "char \<Rightarrow> string" where
  "escape_char c =
     (if c = CHR ''&'' then ''&amp;'' else if c = CHR ''<'' then ''&lt;'' else if c = CHR ''>'' then ''&gt;''
      else if c = CHR 0xA0 then ''&nbsp;'' else [c])"

definition escape_text :: "string \<Rightarrow> string" where
  "escape_text s = concat (map escape_char s)"

lemma escape_Nil: "escape_text s = [] \<longleftrightarrow> s = []"
  by (cases s) (simp_all add: escape_text_def escape_char_def)

text \<open>A reader of the four references.\<close>

fun read_markup :: "string \<Rightarrow> string" where
  "read_markup [] = []"
| "read_markup (c # cs) =
     (if take 5 (c # cs) = ''&amp;'' then CHR ''&'' # read_markup (drop 4 cs)
      else if take 4 (c # cs) = ''&lt;'' then CHR ''<'' # read_markup (drop 3 cs)
      else if take 4 (c # cs) = ''&gt;'' then CHR ''>'' # read_markup (drop 3 cs)
      else if take 6 (c # cs) = ''&nbsp;'' then CHR 0xA0 # read_markup (drop 5 cs)
      else c # read_markup cs)"

lemma read_escaped: "read_markup (escape_text t) = t"
proof -
  have "read_markup (escape_char c @ s) = c # read_markup s" for c s by (simp add: escape_char_def)
  then show ?thesis by (induction t) (simp_all add: escape_text_def)
qed

end
