(* ===== verification/In_Place.thy ===== *)
theory In_Place
  imports Data_Attributes Text_Markup Form_Data
begin

text \<open>
  Editing in place, the library \<open>best_in_place\<close> of the deployed bundle, with which users edit their financial goals and the
  summaries of stories: a click turns the text of an element into a form, leaving the form sends what was typed to the
  server, and the answer makes the element clickable again. All four kinds of form are modelled, with the timers that
  forms with buttons set when they lose the focus.

  \<open>bip_browser\<close> holds what the browser knows about markup: what \<open>html()\<close> reads after markup was put into the element,
  its text, the value of the first field in it, what \<open>html()\<close> reads while a form is shown, and what
  \<open>jQuery.parseJSON\<close> finds in an answer. Attributes of the field from \<open>data-bip-html-attrs\<close>, classes and sizes are
  not modelled.
\<close>

section \<open>Options\<close>

datatype bip_type = Input_Form | Select_Form | Checkbox_Form | Textarea_Form

text \<open>The attributes read, as \<open>data\<close> gives them.\<close>

record bip_attributes =
  ba_url :: data_value
  ba_activator :: data_value
  ba_ok :: data_value
  ba_cancel :: data_value
  ba_collection :: "(string \<times> string) list option"
  ba_type :: data_value
  ba_object :: data_value
  ba_attribute :: data_value
  ba_place :: data_value
  ba_original :: data_value
  ba_raw :: data_value
  ba_confirm :: data_value
  ba_value :: data_value

record bip_options =
  bo_type :: bip_type
  bo_url :: data_value
  bo_activator :: "data_value option"
  bo_ok :: data_value
  bo_cancel :: data_value
  bo_values :: "(string \<times> string) list option"
  bo_object :: data_value
  bo_attribute :: data_value
  bo_place :: data_value
  bo_raw :: bool
  bo_confirm :: bool

definition form_type :: "data_value \<Rightarrow> bip_type option" where
  "form_type v =
     (let t = value_text (or_else v (Text_Value ''input'')) in
        if t = ''input'' then Some Input_Form
        else if t = ''select'' then Some Select_Form
        else if t = ''checkbox'' then Some Checkbox_Form
        else if t = ''textarea'' then Some Textarea_Form
        else None)"

text \<open>What the parents supply, the nearest first.\<close>

definition inherited :: "(bip_attributes \<Rightarrow> data_value) \<Rightarrow> bip_attributes list \<Rightarrow> data_value" where
  "inherited f ps = fold (\<lambda>p v. or_else v (f p)) ps Undefined_Value"

text \<open>The activator is the element itself where the answer is \<open>None\<close>. An unknown type throws.\<close>

definition init_options :: "string \<Rightarrow> bip_attributes list \<Rightarrow> bip_attributes \<Rightarrow> js_error + bip_options" where
  "init_options pathname ps a =
     (case form_type (ba_type a) of
        None \<Rightarrow> Inl Type_Error
      | Some t \<Rightarrow>
          Inr \<lparr>bo_type = t,
               bo_url = or_else (ba_url a) (or_else (inherited ba_url ps) (Text_Value pathname)),
               bo_activator = (if truthy (ba_activator a) then Some (ba_activator a) else None),
               bo_ok = or_else (ba_ok a) (inherited ba_ok ps),
               bo_cancel = or_else (ba_cancel a) (inherited ba_cancel ps),
               bo_values = (if t = Select_Form \<or> t = Checkbox_Form then ba_collection a else None),
               bo_object = or_else (ba_object a) Undefined_Value,
               bo_attribute = or_else (ba_attribute a) Undefined_Value,
               bo_place = (if ba_place a \<in> {Undefined_Value, Null_Value} then Text_Value ''-'' else ba_place a),
               bo_raw = truthy (ba_raw a),
               bo_confirm = truthy (ba_confirm a)\<rparr>)"

section \<open>The editor\<close>

datatype bip_json = Bad_Json | Null_Json | Other_Json | Display_As data_value

record bip_browser =
  bb_html :: "string \<Rightarrow> string"
  bb_text :: "string \<Rightarrow> string"
  bb_field :: "string \<Rightarrow> string option"
  bb_form :: "bip_type \<Rightarrow> string"
  bb_form_text :: "string"
  bb_json :: "string \<Rightarrow> bip_json"

datatype bip_content = Markup string | Form "string option"

datatype bip_note =
  Activated | Aborted | Deactivated | Updated | Saved | Refused

record bip =
  bp_content :: bip_content
  bp_bound :: nat
  bp_old :: string
  bp_display :: data_value
  bp_original :: data_value
  bp_value :: data_value
  bp_collection :: data_value
  bp_previous :: data_value
  bp_timer :: "nat option"
  bp_timers :: "nat list"
  bp_next :: nat
  bp_clicked :: bool
  bp_pending :: "nat list"
  bp_sent :: "string list"
  bp_log :: "bip_note list"

definition bip_tell :: "bip_note list \<Rightarrow> bip \<Rightarrow> bip" where
  "bip_tell ns s = s\<lparr>bp_log := bp_log s @ ns\<rparr>"

definition html_of :: "bip_browser \<Rightarrow> bip_options \<Rightarrow> bip \<Rightarrow> string" where
  "html_of b w s = (case bp_content s of Markup m \<Rightarrow> m | Form v \<Rightarrow> bb_form b (bo_type w))"

definition content_text :: "bip_browser \<Rightarrow> bip \<Rightarrow> string" where
  "content_text b s = (case bp_content s of Markup m \<Rightarrow> bb_text b m | Form v \<Rightarrow> bb_form_text b)"

text \<open>\<open>html(v)\<close>: without a value it only reads; numbers and true are put as text.\<close>

definition put_html :: "bip_browser \<Rightarrow> data_value \<Rightarrow> bip \<Rightarrow> bip" where
  "put_html b v s =
     (case v of
        Undefined_Value \<Rightarrow> s
      | Null_Value \<Rightarrow> s\<lparr>bp_content := Markup []\<rparr>
      | Bool_Value c \<Rightarrow> s\<lparr>bp_content := Markup (if c then ''true'' else [])\<rparr>
      | Number_Value n \<Rightarrow> s\<lparr>bp_content := Markup n\<rparr>
      | Json_Value t \<Rightarrow> s\<lparr>bp_content := Markup (escape_text t)\<rparr>
      | Text_Value t \<Rightarrow> s\<lparr>bp_content := Markup (bb_html b t)\<rparr>)"

definition put_plain :: "string \<Rightarrow> bip \<Rightarrow> bip" where
  "put_plain t s = s\<lparr>bp_content := Markup (escape_text t)\<rparr>"

definition is_placeholder :: "bip_browser \<Rightarrow> bip_options \<Rightarrow> bip \<Rightarrow> bool" where
  "is_placeholder b w s \<longleftrightarrow> html_of b w s = [] \<or> Text_Value (html_of b w s) = bo_place w"


section \<open>Values and forms\<close>

text \<open>\<open>replace(/&amp;/gi, '&')\<close>.\<close>

definition amp_at :: "string \<Rightarrow> bool" where
  "amp_at s \<longleftrightarrow> map lower (take 5 s) = ''&amp;''"

fun unescape_amp :: "string \<Rightarrow> string" where
  "unescape_amp [] = []"
| "unescape_amp (c # cs) = (if amp_at (c # cs) then CHR ''&'' # unescape_amp (drop 4 cs) else c # unescape_amp cs)"

text \<open>\<open>arrayToObject\<close>: a later pair replaces an earlier one in its place; keys that are indices come first, in rising order.\<close>

fun put_pair :: "string \<Rightarrow> string \<Rightarrow> (string \<times> string) list \<Rightarrow> (string \<times> string) list" where
  "put_pair k v [] = [(k, v)]"
| "put_pair k v ((l, u) # ps) = (if k = l then (k, v) # ps else (l, u) # put_pair k v ps)"

definition index_key :: "string \<Rightarrow> bool" where
  "index_key k \<longleftrightarrow> k \<noteq> [] \<and> list_all is_digit k \<and> nat_to_string (digits_to_nat k) = k \<and> digits_to_nat k < 2 ^ 32 - 1"

definition array_to_object :: "(string \<times> string) list option \<Rightarrow> (string \<times> string) list" where
  "array_to_object list =
     (let ps = fold (\<lambda>(k, v). put_pair k v) (case list of Some xs \<Rightarrow> xs | None \<Rightarrow> []) []
      in sort_key (\<lambda>(k, v). digits_to_nat k) (filter (\<lambda>(k, v). index_key k) ps) @ filter (\<lambda>(k, v). \<not> index_key k) ps)"

definition named_value :: "bip_options \<Rightarrow> string \<Rightarrow> data_value" where
  "named_value w k = (case map_of (array_to_object (bo_values w)) k of Some v \<Rightarrow> Text_Value v | None \<Rightarrow> Undefined_Value)"

text \<open>A line is kept on one line, a text area writes every line end in one way, and a select takes its first option if no other
  is selected.\<close>

fun newlines :: "string \<Rightarrow> string" where
  "newlines [] = []"
| "newlines (c # cs) =
     (if c = CHR 0x0D then CHR 0x0A # (if cs \<noteq> [] \<and> hd cs = CHR 0x0A then newlines (tl cs) else newlines cs)
      else c # newlines cs)"

definition field_text :: "bip_type \<Rightarrow> string \<Rightarrow> string" where
  "field_text t v =
     (case t of
        Input_Form \<Rightarrow> filter (\<lambda>c. c \<noteq> CHR 0x0A \<and> c \<noteq> CHR 0x0D) v
      | Textarea_Form \<Rightarrow> newlines v
      | _ \<Rightarrow> v)"

text \<open>\<open>jQuery.trim\<close> and \<open>.val\<close> make nothing of undefined and null.\<close>

definition shown_text :: "data_value \<Rightarrow> string" where
  "shown_text v = (if v = Undefined_Value \<or> v = Null_Value then [] else value_text v)"

definition selected_option :: "bip_options \<Rightarrow> data_value \<Rightarrow> string option" where
  "selected_option w v =
     (let ks = map fst (array_to_object (bo_values w)) in
        if value_text v \<in> set ks then Some (value_text v) else case ks of [] \<Rightarrow> None | k # _ \<Rightarrow> Some k)"

definition get_bip_value :: "bip_browser \<Rightarrow> bip_options \<Rightarrow> bip \<Rightarrow> data_value" where
  "get_bip_value b w s =
     (case bo_type w of
        Checkbox_Form \<Rightarrow> bp_collection s
      | _ \<Rightarrow>
          Text_Value (case (case bp_content s of Form v \<Rightarrow> v | Markup m \<Rightarrow> bb_field b m) of
             Some v \<Rightarrow> js_trim v
           | None \<Rightarrow> []))"

section \<open>What a request carries\<close>

record csrf_meta =
  cm_param :: "string option"
  cm_token :: "string option"

definition bip_request :: "csrf_meta \<Rightarrow> bip_browser \<Rightarrow> bip_options \<Rightarrow> bip \<Rightarrow> string" where
  "bip_request m b w s =
     ''_method=put&'' @ value_text (bo_object w) @ ''['' @ value_text (bo_attribute w) @ '']='' @
     encode_component (value_text (get_bip_value b w s)) @
     (case (cm_param m, cm_token m) of
        (Some p, Some t) \<Rightarrow> ''&'' @ p @ ''='' @ encode_component t
      | _ \<Rightarrow> [])"

section \<open>The operations\<close>

definition activate_text :: "bip_browser \<Rightarrow> bip_options \<Rightarrow> string \<Rightarrow> bip \<Rightarrow> bip" where
  "activate_text b w v s =
     (let s1 = put_html b (Text_Value v) s in if is_placeholder b w s1 then put_html b (bo_place w) s1 else s1)"

definition abort_edit :: "bip_browser \<Rightarrow> bip_options \<Rightarrow> bip \<Rightarrow> bip" where
  "abort_edit b w s =
     (let s1 = activate_text b w (bp_old s) s in bip_tell [Aborted, Deactivated] (s1\<lparr>bp_bound := Suc (bp_bound s1)\<rparr>))"

text \<open>\<open>abortIfConfirm\<close>, with what the user answers when asked.\<close>

definition abort_if_confirm :: "bip_browser \<Rightarrow> bip_options \<Rightarrow> bool \<Rightarrow> bip \<Rightarrow> bip" where
  "abort_if_confirm b w yes s = (if \<not> bo_confirm w \<or> yes then abort_edit b w s else s)"

definition show_value :: "bip_browser \<Rightarrow> bip_options \<Rightarrow> data_value \<Rightarrow> bip \<Rightarrow> bip" where
  "show_value b w v s =
     (case bo_type w of
        Select_Form \<Rightarrow> put_html b (named_value w (value_text v)) (s\<lparr>bp_previous := v\<rparr>)
      | Checkbox_Form \<Rightarrow> put_html b (named_value w (value_text v)) s
      | _ \<Rightarrow>
          if value_text v \<noteq> [] then (if bo_raw w then put_html b v s else put_plain (value_text v) s)
          else put_html b (bo_place w) s)"

definition update_edit :: "csrf_meta \<Rightarrow> bip_browser \<Rightarrow> bip_options \<Rightarrow> bip \<Rightarrow> bip" where
  "update_edit m b w s =
     (let v = get_bip_value b w s in
        if (bo_type w = Input_Form \<or> bo_type w = Textarea_Form) \<and> v = Text_Value (bp_old s) then abort_edit b w s
        else
          let s1 = s\<lparr>bp_pending := bp_pending s @ [length (bp_sent s)], bp_sent := bp_sent s @ [bip_request m b w s]\<rparr>;
              s2 = show_value b w v s1
          in bip_tell [Updated] (s2\<lparr>bp_value := v\<rparr>))"

text \<open>\<open>activateForm\<close> of the four kinds.\<close>

definition activate_input :: "bip \<Rightarrow> bip" where
  "activate_input s =
     s\<lparr>bp_content := Form (Some (field_text Input_Form (shown_text (bp_display s)))), bp_timer := None, bp_clicked := False\<rparr>"

definition activate_select :: "bip_options \<Rightarrow> bip \<Rightarrow> bip" where
  "activate_select w s = s\<lparr>bp_content := Form (selected_option w (bp_collection s))\<rparr>"

definition activate_checkbox :: "csrf_meta \<Rightarrow> bip_browser \<Rightarrow> bip_options \<Rightarrow> bip \<Rightarrow> bip" where
  "activate_checkbox m b w s = update_edit m b w (s\<lparr>bp_collection := Bool_Value (\<not> truthy (get_bip_value b w s))\<rparr>)"

definition activate_textarea :: "bip \<Rightarrow> bip" where
  "activate_textarea s =
     s\<lparr>bp_content := Form (Some (field_text Textarea_Form (js_trim (shown_text (bp_display s))))),
       bp_timer := None, bp_clicked := False\<rparr>"

definition activate_form :: "csrf_meta \<Rightarrow> bip_browser \<Rightarrow> bip_options \<Rightarrow> bip \<Rightarrow> bip" where
  "activate_form m b w s =
     (case bo_type w of
        Input_Form \<Rightarrow> activate_input s
      | Select_Form \<Rightarrow> activate_select w s
      | Checkbox_Form \<Rightarrow> activate_checkbox m b w s
      | Textarea_Form \<Rightarrow> activate_textarea s)"

lemmas activate_form_defs = activate_form_def activate_input_def activate_select_def activate_checkbox_def activate_textarea_def

definition to_display :: "bip_browser \<Rightarrow> bip_options \<Rightarrow> bip \<Rightarrow> data_value" where
  "to_display b w s =
     (if is_placeholder b w s then Text_Value []
      else if truthy (bp_original s) then bp_original s
      else
        case bo_type w of
          Select_Form \<Rightarrow> Text_Value (html_of b w s)
        | Checkbox_Form \<Rightarrow> Undefined_Value
        | _ \<Rightarrow>
            if bo_raw w then Text_Value (unescape_amp (html_of b w s))
            else
              case bp_value s of
                Undefined_Value \<Rightarrow> Text_Value []
              | Text_Value t \<Rightarrow> Text_Value (unescape_amp t)
              | v \<Rightarrow> v)"

definition activate_edit :: "csrf_meta \<Rightarrow> bip_browser \<Rightarrow> bip_options \<Rightarrow> bip \<Rightarrow> bip" where
  "activate_edit m b w s =
     (let old = (if is_placeholder b w s then [] else html_of b w s);
          s1 = s\<lparr>bp_old := old, bp_display := to_display b w s, bp_bound := 0\<rparr>
      in bip_tell [Activated] (activate_form m b w s1))"

text \<open>\<open>loadSuccessCallback\<close>: an answer that is no JSON throws halfway.\<close>

definition load_success :: "bip_browser \<Rightarrow> bip_options \<Rightarrow> string \<Rightarrow> bip \<Rightarrow> bip" where
  "load_success b w reply s =
     (let s1 = s\<lparr>bp_original := Text_Value (if bo_raw w then html_of b w s else content_text b s)\<rparr>;
          json = (if js_trim reply = [] then Null_Json else bb_json b (js_trim reply));
          s2 = (case json of Display_As v \<Rightarrow> put_html b v s1 | _ \<Rightarrow> s1)
      in if json = Bad_Json then s1
         else
           let s3 = bip_tell [Saved, Deactivated] (s2\<lparr>bp_bound := Suc (bp_bound s2)\<rparr>)
           in if bo_type w = Select_Form \<and> bp_collection s3 \<noteq> Null_Value
              then s3\<lparr>bp_collection := bp_previous s3, bp_previous := Null_Value\<rparr> else s3)"

definition load_error :: "bip_browser \<Rightarrow> bip_options \<Rightarrow> bip \<Rightarrow> bip" where
  "load_error b w s =
     (let s1 = activate_text b w (bp_old s) s in bip_tell [Refused, Deactivated] (s1\<lparr>bp_bound := Suc (bp_bound s1)\<rparr>))"


section \<open>Events\<close>

datatype bip_reply = Accepts string | Refuses

text \<open>Where the user may be asked whether to discard changes, the event carries the answer.\<close>

datatype bip_event =
  Click_Text
  | Type_In string
  | Pick_Option string
  | Leave_Field
  | Submit_Form
  | Click_Cancel bool
  | Key_Up nat bool
  | Timer_Due nat bool
  | Reply_Comes nat bip_reply

definition live_form :: "bip \<Rightarrow> bool" where
  "live_form s \<longleftrightarrow> (case bp_content s of Form v \<Rightarrow> True | Markup m \<Rightarrow> False)"

definition set_timer :: "bip \<Rightarrow> bip" where
  "set_timer s = s\<lparr>bp_timers := bp_timers s @ [bp_next s], bp_timer := Some (bp_next s), bp_next := Suc (bp_next s)\<rparr>"

text \<open>\<open>userClicked = true\<close> and \<open>clearTimeout\<close>.\<close>

definition note_click :: "bip \<Rightarrow> bip" where
  "note_click s = s\<lparr>bp_clicked := True, bp_timers := filter (\<lambda>i. bp_timer s \<noteq> Some i) (bp_timers s)\<rparr>"

definition blur_input :: "csrf_meta \<Rightarrow> bip_browser \<Rightarrow> bip_options \<Rightarrow> bip \<Rightarrow> bip" where
  "blur_input m b w s =
     (if truthy (bo_ok w) then s else if truthy (bo_cancel w) then set_timer s else update_edit m b w s)"

definition blur_textarea :: "csrf_meta \<Rightarrow> bip_browser \<Rightarrow> bip_options \<Rightarrow> bip \<Rightarrow> bip" where
  "blur_textarea m b w s = (if truthy (bo_ok w) \<or> truthy (bo_cancel w) then set_timer s else update_edit m b w s)"

definition leave_field :: "csrf_meta \<Rightarrow> bip_browser \<Rightarrow> bip_options \<Rightarrow> bip \<Rightarrow> bip" where
  "leave_field m b w s =
     (case bo_type w of
        Input_Form \<Rightarrow> blur_input m b w s
      | Textarea_Form \<Rightarrow> blur_textarea m b w s
      | Select_Form \<Rightarrow> update_edit m b w s
      | Checkbox_Form \<Rightarrow> s)"

lemmas leave_field_defs = leave_field_def blur_input_def blur_textarea_def

definition submit_form :: "csrf_meta \<Rightarrow> bip_browser \<Rightarrow> bip_options \<Rightarrow> bip \<Rightarrow> bip" where
  "submit_form m b w s =
     (if bo_type w = Input_Form \<or> bo_type w = Textarea_Form then update_edit m b w (note_click s) else s)"

definition click_cancel :: "bip_browser \<Rightarrow> bip_options \<Rightarrow> bool \<Rightarrow> bip \<Rightarrow> bip" where
  "click_cancel b w yes s =
     (if \<not> truthy (bo_cancel w) then s
      else case bo_type w of
        Input_Form \<Rightarrow> abort_edit b w (note_click s)
      | Textarea_Form \<Rightarrow> abort_if_confirm b w yes (note_click s)
      | _ \<Rightarrow> s)"

definition bip_key_up :: "bip_browser \<Rightarrow> bip_options \<Rightarrow> nat \<Rightarrow> bool \<Rightarrow> bip \<Rightarrow> bip" where
  "bip_key_up b w k yes s =
     (if k \<noteq> 27 then s
      else case bo_type w of
        Textarea_Form \<Rightarrow> abort_if_confirm b w yes s
      | Checkbox_Form \<Rightarrow> s
      | _ \<Rightarrow> abort_edit b w s)"

definition timer_due :: "csrf_meta \<Rightarrow> bip_browser \<Rightarrow> bip_options \<Rightarrow> nat \<Rightarrow> bool \<Rightarrow> bip \<Rightarrow> bip" where
  "timer_due m b w i yes s =
     (if i \<notin> set (bp_timers s) then s
      else
        let s1 = s\<lparr>bp_timers := remove1 i (bp_timers s)\<rparr> in
          if bp_clicked s1 then s1
          else if truthy (bo_ok w) then abort_if_confirm b w yes s1
          else update_edit m b w s1)"

definition reply_comes :: "bip_browser \<Rightarrow> bip_options \<Rightarrow> nat \<Rightarrow> bip_reply \<Rightarrow> bip \<Rightarrow> bip" where
  "reply_comes b w i r s =
     (if i \<notin> set (bp_pending s) then s
      else
        let s1 = s\<lparr>bp_pending := remove1 i (bp_pending s)\<rparr> in
          case r of Accepts t \<Rightarrow> load_success b w t s1 | Refuses \<Rightarrow> load_error b w s1)"

definition type_in :: "bip_options \<Rightarrow> string \<Rightarrow> bip \<Rightarrow> bip" where
  "type_in w t s =
     (if bo_type w = Input_Form \<or> bo_type w = Textarea_Form then s\<lparr>bp_content := Form (Some (field_text (bo_type w) t))\<rparr> else s)"

text \<open>Choosing another option is a change, which sends it.\<close>

definition pick_option :: "csrf_meta \<Rightarrow> bip_browser \<Rightarrow> bip_options \<Rightarrow> string \<Rightarrow> bip \<Rightarrow> bip" where
  "pick_option m b w k s =
     (if bo_type w = Select_Form \<and> k \<in> fst ` set (array_to_object (bo_values w)) \<and> bp_content s \<noteq> Form (Some k)
      then update_edit m b w (s\<lparr>bp_content := Form (Some k)\<rparr>) else s)"

text \<open>A click runs the handler as often as it is bound when the event comes, even though the first run unbinds it.\<close>

fun bip_step :: "csrf_meta \<Rightarrow> bip_browser \<Rightarrow> bip_options \<Rightarrow> bip_event \<Rightarrow> bip \<Rightarrow> bip" where
  "bip_step m b w Click_Text s = (activate_edit m b w ^^ bp_bound s) s"
| "bip_step m b w (Type_In t) s = (if live_form s then type_in w t s else s)"
| "bip_step m b w (Pick_Option k) s = (if live_form s then pick_option m b w k s else s)"
| "bip_step m b w Leave_Field s = (if live_form s then leave_field m b w s else s)"
| "bip_step m b w Submit_Form s = (if live_form s then submit_form m b w s else s)"
| "bip_step m b w (Click_Cancel yes) s = (if live_form s then click_cancel b w yes s else s)"
| "bip_step m b w (Key_Up k yes) s = (if live_form s then bip_key_up b w k yes s else s)"
| "bip_step m b w (Timer_Due i yes) s = timer_due m b w i yes s"
| "bip_step m b w (Reply_Comes i r) s = reply_comes b w i r s"

definition bip_run :: "csrf_meta \<Rightarrow> bip_browser \<Rightarrow> bip_options \<Rightarrow> bip_event list \<Rightarrow> bip \<Rightarrow> bip" where
  "bip_run m b w es s = fold (bip_step m b w) es s"

text \<open>The constructor, on an element that reads \<open>html\<close>.\<close>

definition new_editor :: "bip_browser \<Rightarrow> bip_options \<Rightarrow> bip_attributes \<Rightarrow> string \<Rightarrow> bip" where
  "new_editor b w a html =
     (let s = \<lparr>bp_content = Markup html, bp_bound = 0, bp_old = [], bp_display = Undefined_Value,
               bp_original = or_else (ba_original a) Undefined_Value, bp_value = ba_value a,
               bp_collection =
                 (if bo_type w = Select_Form \<or> bo_type w = Checkbox_Form then or_else (ba_value a) Undefined_Value else Undefined_Value),
               bp_previous = Undefined_Value, bp_timer = None, bp_timers = [], bp_next = 0, bp_clicked = False,
               bp_pending = [], bp_sent = [], bp_log = []\<rparr>;
          s1 = (if html = [] then put_html b (bo_place w) s else s)
      in s1\<lparr>bp_bound := 1\<rparr>)"

text \<open>\<open>$.fn.best_in_place\<close>: elements of the page get an editor at once, elements that come later at their first click, which is
  then made again.\<close>

definition set_best_in_place ::
  "string \<Rightarrow> bip_browser \<Rightarrow> bip_attributes list \<Rightarrow> bip_attributes \<Rightarrow> string \<Rightarrow> (bip_options \<times> bip) option \<Rightarrow>
    js_error + (bip_options \<times> bip) \<times> bool" where
  "set_best_in_place path b ps a html ed =
     (case ed of
        Some e \<Rightarrow> Inr (e, False)
      | None \<Rightarrow>
          (case init_options path ps a of
             Inl x \<Rightarrow> Inl x
           | Inr w \<Rightarrow> Inr ((w, new_editor b w a html), True)))"

definition delegated_click ::
  "string \<Rightarrow> csrf_meta \<Rightarrow> bip_browser \<Rightarrow> bip_attributes list \<Rightarrow> bip_attributes \<Rightarrow> string \<Rightarrow> (bip_options \<times> bip) option \<Rightarrow>
    js_error + (bip_options \<times> bip)" where
  "delegated_click path m b ps a html ed =
     (case set_best_in_place path b ps a html ed of
        Inl x \<Rightarrow> Inl x
      | Inr ((w, s), made) \<Rightarrow>
          if made \<and> bo_activator w = None then Inr (w, bip_step m b w Click_Text s) else Inr (w, s))"


section \<open>One edit at a time\<close>

lemma put_html_simps [simp]:
  "bp_bound (put_html b v s) = bp_bound s" "bp_old (put_html b v s) = bp_old s" "bp_original (put_html b v s) = bp_original s"
  "bp_value (put_html b v s) = bp_value s" "bp_collection (put_html b v s) = bp_collection s"
  "bp_timers (put_html b v s) = bp_timers s" "bp_pending (put_html b v s) = bp_pending s" "bp_sent (put_html b v s) = bp_sent s"
  "bp_log (put_html b v s) = bp_log s" "bp_previous (put_html b v s) = bp_previous s"
  by (simp_all add: put_html_def split: data_value.split)

lemma put_plain_simps [simp]:
  "bp_bound (put_plain t s) = bp_bound s" "bp_timers (put_plain t s) = bp_timers s" "bp_pending (put_plain t s) = bp_pending s"
  "bp_sent (put_plain t s) = bp_sent s" "bp_log (put_plain t s) = bp_log s" "\<not> live_form (put_plain t s)"
  by (simp_all add: put_plain_def live_form_def)

lemma live_put_html: "live_form (put_html b v s) \<longleftrightarrow> v = Undefined_Value \<and> live_form s"
  by (simp add: put_html_def live_form_def split: data_value.split)

lemma live_updates [simp]:
  "live_form (s\<lparr>bp_bound := xbound\<rparr>) = live_form s" "live_form (s\<lparr>bp_old := xold\<rparr>) = live_form s"
  "live_form (s\<lparr>bp_display := xdisplay\<rparr>) = live_form s" "live_form (s\<lparr>bp_original := xoriginal\<rparr>) = live_form s"
  "live_form (s\<lparr>bp_value := xvalue\<rparr>) = live_form s" "live_form (s\<lparr>bp_collection := xcollection\<rparr>) = live_form s"
  "live_form (s\<lparr>bp_previous := xprevious\<rparr>) = live_form s" "live_form (s\<lparr>bp_timer := xtimer\<rparr>) = live_form s"
  "live_form (s\<lparr>bp_timers := xtimers\<rparr>) = live_form s" "live_form (s\<lparr>bp_next := xnext\<rparr>) = live_form s"
  "live_form (s\<lparr>bp_clicked := xclicked\<rparr>) = live_form s" "live_form (s\<lparr>bp_pending := xpending\<rparr>) = live_form s"
  "live_form (s\<lparr>bp_sent := xsent\<rparr>) = live_form s" "live_form (s\<lparr>bp_log := xlog\<rparr>) = live_form s"
  "live_form (bip_tell ns s) = live_form s"
  by (simp_all add: live_form_def bip_tell_def)

definition option_keys :: "bip_options \<Rightarrow> string set" where
  "option_keys w = set (map fst (array_to_object (bo_values w)))"

text \<open>Options as \<open>init_options\<close> makes them, for a form that sets no timer; a select needs options without white space around their
  keys.\<close>

definition steady :: "bip_options \<Rightarrow> bool" where
  "steady w \<longleftrightarrow>
     bo_place w \<noteq> Undefined_Value \<and>
     (case bo_type w of
        Input_Form \<Rightarrow> truthy (bo_ok w) \<or> \<not> truthy (bo_cancel w)
      | Textarea_Form \<Rightarrow> \<not> truthy (bo_ok w) \<and> \<not> truthy (bo_cancel w)
      | Select_Form \<Rightarrow> option_keys w \<noteq> {} \<and> (\<forall>k \<in> option_keys w. js_trim k = k)
      | Checkbox_Form \<Rightarrow> True)"

definition count_of :: "bip_note \<Rightarrow> bip \<Rightarrow> nat" where
  "count_of n s = count_list (bp_log s) n"

definition turns :: "bip_options \<Rightarrow> bip \<Rightarrow> bool" where
  "turns w s \<longleftrightarrow>
     bp_timers s = [] \<and>
     (if live_form s then bp_bound s = 0 \<and> bp_pending s = []
      else bp_bound s = 1 \<and> bp_pending s = [] \<or> bp_bound s = 0 \<and> length (bp_pending s) = 1) \<and>
     count_of Activated s = count_of Aborted s + length (bp_sent s) + (if live_form s then 1 else 0) \<and>
     count_of Updated s = length (bp_sent s) \<and>
     count_of Saved s + count_of Refused s + length (bp_pending s) = length (bp_sent s) \<and>
     (bo_type w = Select_Form \<longrightarrow> (case bp_content s of Form v \<Rightarrow> v \<in> Some ` option_keys w | Markup _ \<Rightarrow> True)) \<and>
     (bo_type w = Checkbox_Form \<longrightarrow> \<not> live_form s)"

lemma activate_text_simps [simp]:
  "bp_bound (activate_text b w v s) = bp_bound s" "bp_timers (activate_text b w v s) = bp_timers s"
  "bp_pending (activate_text b w v s) = bp_pending s" "bp_sent (activate_text b w v s) = bp_sent s" "bp_log (activate_text b w v s) = bp_log s"
  by (simp_all add: activate_text_def Let_def)

lemma live_activate_text: "steady w \<Longrightarrow> \<not> live_form (activate_text b w v s)"
  by (simp add: activate_text_def Let_def live_put_html steady_def)

lemma content_not_live: "\<not> live_form s \<Longrightarrow> \<exists>m. bp_content s = Markup m"
  by (cases "bp_content s") (simp_all add: live_form_def)

lemma turns_closed:
  assumes "\<not> live_form s"
  shows "turns w s \<longleftrightarrow> bp_timers s = [] \<and> (bp_bound s = 1 \<and> bp_pending s = [] \<or> bp_bound s = 0 \<and> length (bp_pending s) = 1) \<and>
    count_of Activated s = count_of Aborted s + length (bp_sent s) \<and> count_of Updated s = length (bp_sent s) \<and>
    count_of Saved s + count_of Refused s + length (bp_pending s) = length (bp_sent s)"
  using content_not_live [OF assms] assms by (auto simp: turns_def)

lemma turns_abort:
  assumes "steady w" and "turns w s" and "live_form s"
  shows "turns w (abort_edit b w s)"
proof -
  have l: "\<not> live_form (abort_edit b w s)"
    using live_activate_text [OF assms(1)] by (simp add: abort_edit_def bip_tell_def Let_def live_form_def)
  show ?thesis unfolding turns_closed [OF l] using assms(2,3)
    by (auto simp: turns_def abort_edit_def bip_tell_def count_of_def Let_def)
qed

lemma show_value_simps [simp]:
  "bp_bound (show_value b w v s) = bp_bound s" "bp_timers (show_value b w v s) = bp_timers s"
  "bp_pending (show_value b w v s) = bp_pending s" "bp_sent (show_value b w v s) = bp_sent s" "bp_log (show_value b w v s) = bp_log s"
  by (simp_all add: show_value_def split: bip_type.split)

lemma named_key: "k \<in> option_keys w \<Longrightarrow> named_value w k \<noteq> Undefined_Value"
  by (auto simp: named_value_def option_keys_def map_of_eq_None_iff split: option.split)

lemma live_show_value:
  assumes "steady w" and "bo_type w = Select_Form \<longrightarrow> value_text v \<in> option_keys w"
    and "bo_type w = Checkbox_Form \<longrightarrow> \<not> live_form s" and "bo_type w = Input_Form \<or> bo_type w = Textarea_Form \<longrightarrow> v \<noteq> Undefined_Value"
  shows "\<not> live_form (show_value b w v s)"
proof (cases "bo_type w")
  case Select_Form
  then show ?thesis using assms(2) named_key [of "value_text v" w] by (simp add: show_value_def live_put_html)
qed (use assms in \<open>simp_all add: show_value_def live_put_html steady_def\<close>)

lemma turns_update:
  assumes "steady w" and "turns w s" and "live_form s"
  shows "turns w (update_edit m b w s)"
proof -
  let ?v = "get_bip_value b w s"
  show ?thesis
  proof (cases "(bo_type w = Input_Form \<or> bo_type w = Textarea_Form) \<and> ?v = Text_Value (bp_old s)")
    case True
    then show ?thesis using turns_abort [OF assms] by (simp add: update_edit_def)
  next
    case False
    have key: "bo_type w = Select_Form \<longrightarrow> value_text ?v \<in> option_keys w"
    proof
      assume sel: "bo_type w = Select_Form"
      then obtain k where "bp_content s = Form (Some k)" "k \<in> option_keys w"
        using assms(2,3) by (auto simp: turns_def live_form_def split: bip_content.splits)
      then show "value_text ?v \<in> option_keys w" using sel assms(1) by (simp add: steady_def get_bip_value_def)
    qed
    have "bo_type w = Checkbox_Form \<longrightarrow> \<not> live_form t" for t using assms(2,3) by (simp add: turns_def)
    then have l: "\<not> live_form (update_edit m b w s)"
      using False live_show_value [OF assms(1) key]
      by (auto simp: update_edit_def Let_def bip_tell_def live_form_def get_bip_value_def split: bip_type.splits)
    show ?thesis unfolding turns_closed [OF l] using False assms(2,3)
      by (auto simp: turns_def update_edit_def bip_tell_def count_of_def Let_def)
  qed
qed


lemma selected_in_keys: "option_keys w \<noteq> {} \<Longrightarrow> selected_option w v \<in> Some ` option_keys w"
  by (cases "map fst (array_to_object (bo_values w))") (auto simp: selected_option_def option_keys_def Let_def)

lemma turns_activate:
  assumes "steady w" and "turns w s" and "\<not> live_form s" and "bp_bound s = 1"
  shows "turns w (activate_edit m b w s)"
proof (cases "bo_type w = Checkbox_Form")
  case True
  have "\<not> live_form (show_value b w v u)" if "\<not> live_form u" for v u
    using that True by (simp add: show_value_def live_put_html)
  then have l: "\<not> live_form (activate_edit m b w s)"
    using True assms(3) by (simp add: activate_edit_def activate_form_defs update_edit_def Let_def)
  show ?thesis unfolding turns_closed [OF l] using True assms(2-4)
    by (auto simp: turns_def activate_edit_def activate_form_defs update_edit_def bip_tell_def count_of_def Let_def)
next
  case False
  have l: "live_form (activate_edit m b w s)"
    using False by (simp add: activate_edit_def activate_form_defs bip_tell_def live_form_def Let_def split: bip_type.split)
  have "bo_type w = Select_Form \<longrightarrow> bp_content (activate_edit m b w s) = Form (selected_option w (bp_collection s))"
    by (simp add: activate_edit_def activate_form_defs bip_tell_def Let_def)
  moreover have "bo_type w = Select_Form \<longrightarrow> selected_option w (bp_collection s) \<in> Some ` option_keys w"
    using assms(1) selected_in_keys [of w "bp_collection s"] by (auto simp: steady_def)
  moreover have "bp_timers (activate_edit m b w s) = bp_timers s" "bp_bound (activate_edit m b w s) = 0"
    "bp_pending (activate_edit m b w s) = bp_pending s" "bp_sent (activate_edit m b w s) = bp_sent s"
    "bp_log (activate_edit m b w s) = bp_log s @ [Activated]"
    using False by (simp_all add: activate_edit_def activate_form_defs bip_tell_def Let_def split: bip_type.split)
  ultimately show ?thesis using l assms(2-4) False by (auto simp: turns_def count_of_def)
qed

lemma turns_quiet:
  assumes "turns w s" and "live_form s" and "live_form t" and "bp_timers t = []" and "bp_bound t = 0" and "bp_pending t = []"
    and "bp_sent t = bp_sent s" and "bp_log t = bp_log s" and "bo_type w \<noteq> Select_Form \<or> bp_content t \<in> Form ` Some ` option_keys w"
  shows "turns w t"
  using assms by (auto simp: turns_def count_of_def)

definition sound_reply :: "bip_browser \<Rightarrow> bip_event \<Rightarrow> bool" where
  "sound_reply b e \<longleftrightarrow> (case e of Reply_Comes i (Accepts t) \<Rightarrow> bb_json b (js_trim t) \<noteq> Bad_Json | _ \<Rightarrow> True)"

lemma turns_reply:
  assumes "steady w" and "turns w s" and "sound_reply b (Reply_Comes i r)"
  shows "turns w (reply_comes b w i r s)"
proof (cases "i \<in> set (bp_pending s)")
  case True
  then have l: "\<not> live_form s" and p: "bp_pending s = [i]" and z: "bp_bound s = 0"
    using assms(2) by (auto simp: turns_def length_Suc_conv split: if_splits)
  show ?thesis
  proof (cases r)
    case (Accepts t)
    let ?u = "load_success b w t (s\<lparr>bp_pending := remove1 i (bp_pending s)\<rparr>)"
    have "(if js_trim t = [] then Null_Json else bb_json b (js_trim t)) \<noteq> Bad_Json" using assms(3) Accepts by (simp add: sound_reply_def)
    then have u: "bp_bound ?u = 1" "bp_pending ?u = []" "bp_timers ?u = bp_timers s" "bp_sent ?u = bp_sent s"
      "bp_log ?u = bp_log s @ [Saved, Deactivated]"
      using p z by (auto simp: load_success_def bip_tell_def Let_def split: bip_json.split)
    have lu: "\<not> live_form ?u" using l by (simp add: load_success_def Let_def live_put_html split: bip_json.split)
    have "reply_comes b w i r s = ?u" using True Accepts by (simp add: reply_comes_def del: remove1.simps)
    moreover have "turns w ?u" using u assms(2) p unfolding turns_closed [OF lu] turns_closed [OF l] by (simp add: count_of_def)
    ultimately show ?thesis by simp
  next
    case Refuses
    have lu: "\<not> live_form (reply_comes b w i r s)"
      using True Refuses live_activate_text [OF assms(1)] by (simp add: reply_comes_def load_error_def bip_tell_def Let_def live_form_def)
    show ?thesis using True Refuses assms(2) p z unfolding turns_closed [OF lu] turns_closed [OF l]
      by (auto simp: reply_comes_def load_error_def bip_tell_def count_of_def Let_def)
  qed
qed (use assms(2) in \<open>simp add: reply_comes_def\<close>)

lemma turns_step:
  assumes "steady w" and "turns w s" and "sound_reply b e"
  shows "turns w (bip_step m b w e s)"
proof (cases "live_form s")
  case True
  then have z: "bp_bound s = 0" "bp_pending s = []" "bp_timers s = []" "bo_type w \<noteq> Checkbox_Form" using assms(2) by (auto simp: turns_def)
  note up = turns_update [OF assms(1,2) True] and ab = turns_abort [OF assms(1,2) True]
  have clicked: "turns w (note_click s)" "live_form (note_click s)"
    using assms(2) True by (auto simp: note_click_def turns_def count_of_def live_form_def)
  show ?thesis
  proof (cases e)
    case (Type_In t)
    show ?thesis
    proof (cases "bo_type w = Input_Form \<or> bo_type w = Textarea_Form")
      case edit: True
      have "turns w (s\<lparr>bp_content := Form (Some (field_text (bo_type w) t))\<rparr>)"
        by (rule turns_quiet [OF assms(2) True]) (use z edit in \<open>auto simp: live_form_def\<close>)
      then show ?thesis using edit True Type_In by (auto simp: type_in_def)
    qed (use True Type_In assms(2) in \<open>simp add: type_in_def\<close>)
  next
    case (Pick_Option k)
    have "turns w (s\<lparr>bp_content := Form (Some k)\<rparr>)" if "k \<in> option_keys w"
      by (rule turns_quiet [OF assms(2) True]) (use z that in \<open>auto simp: live_form_def\<close>)
    moreover have "live_form (s\<lparr>bp_content := Form (Some k)\<rparr>)" by (simp add: live_form_def)
    ultimately show ?thesis using True Pick_Option assms(2) turns_update [OF assms(1)]
      by (simp add: pick_option_def option_keys_def)
  next
    case Leave_Field
    then show ?thesis using True up assms(1,2) by (auto simp: leave_field_defs steady_def split: bip_type.split)
  next
    case Submit_Form
    then show ?thesis using True assms(2) turns_update [OF assms(1) clicked] by (simp add: submit_form_def)
  next
    case (Click_Cancel yes)
    then show ?thesis using True assms(2) turns_abort [OF assms(1) clicked] clicked(1)
      by (simp add: click_cancel_def abort_if_confirm_def split: bip_type.split)
  next
    case (Key_Up k yes)
    then show ?thesis using True assms(2) ab by (simp add: bip_key_up_def abort_if_confirm_def split: bip_type.split)
  next
    case (Reply_Comes i r)
    then show ?thesis using turns_reply [OF assms(1,2)] assms(3) by simp
  qed (use z assms(2) in \<open>simp_all add: timer_due_def\<close>)
next
  case False
  then have "bp_timers s = []" "bp_bound s = 0 \<or> bp_bound s = 1" using assms(2) by (auto simp: turns_def)
  then show ?thesis using False assms turns_activate [OF assms(1,2) False] turns_reply [OF assms(1,2)]
    by (cases e) (auto simp: timer_due_def)
qed


lemma init_place: "init_options path ps a = Inr w \<Longrightarrow> bo_place w \<noteq> Undefined_Value"
  by (auto simp: init_options_def split: option.splits if_splits)

lemma turns_new:
  assumes "steady w"
  shows "turns w (new_editor b w a html)"
proof -
  have l: "\<not> live_form (new_editor b w a html)"
    using assms by (simp add: new_editor_def Let_def steady_def live_put_html) (simp add: live_form_def)
  show ?thesis unfolding turns_closed [OF l] by (simp add: new_editor_def Let_def count_of_def)
qed

text \<open>C32. As long as the form sets no timers and answers are sound, an element is at every moment in one of three states: waiting for
  a click, with the handler bound once; shown as a form, deaf to clicks and without request; or waiting for the answer to one
  request, deaf to clicks. Every edit ends in exactly one request or one return to the old text, and every request in one answer.\<close>

theorem edits_take_turns:
  assumes "steady w" and "\<forall>e \<in> set es. sound_reply b e" and "s = bip_run m b w es (new_editor b w a html)"
  shows "bp_timers s = [] \<and>
    (if live_form s then bp_bound s = 0 \<and> bp_pending s = []
     else bp_bound s = 1 \<and> bp_pending s = [] \<or> bp_bound s = 0 \<and> length (bp_pending s) = 1) \<and>
    count_list (bp_log s) Activated = count_list (bp_log s) Aborted + length (bp_sent s) + (if live_form s then 1 else 0) \<and>
    count_list (bp_log s) Saved + count_list (bp_log s) Refused + length (bp_pending s) = length (bp_sent s)"
proof -
  have "turns w (bip_run m b w es u)" if "turns w u" "\<forall>e \<in> set es. sound_reply b e" for u
    using that by (induction es arbitrary: u) (simp_all add: bip_run_def turns_step [OF assms(1)])
  then have "turns w s" unfolding assms(3) using turns_new [OF assms(1)] assms(2) by blast
  then show ?thesis unfolding turns_def count_of_def by (elim conjE) (intro conjI)
qed

section \<open>What is sent\<close>

text \<open>Names that stand for themselves in a query.\<close>

definition plain_name :: "string \<Rightarrow> bool" where
  "plain_name s \<longleftrightarrow> list_all (\<lambda>c. (of_char c :: nat) < 128 \<and> c \<notin> set ''%+&='') s"

definition text_field :: "string \<times> string \<Rightarrow> string" where
  "text_field f = fst f @ ''='' @ encode_component (snd f)"

lemma decode_plain: "plain_name s \<Longrightarrow> decode_component s = s"
proof -
  have "unpercent s = map of_char s" "utf8 (map of_char s) = s" if "plain_name s" for s
    using that by (induction s) (simp_all add: plain_name_def)
  then show "plain_name s \<Longrightarrow> decode_component s = s" by (simp add: decode_component_def)
qed

lemma unpercent_encoded: "unpercent (encode_char c @ s) = char_bytes c @ unpercent s"
proof (cases "c = CHR '' ''")
  case True
  have "encode_char (CHR '' '') = ''%20''" by code_simp
  then show ?thesis using True by (simp add: char_bytes_def hex_value_def)
qed (use unpercent_char [of c s] in \<open>simp add: plus_char_def\<close>)

lemma decode_component_encode: "decode_component (encode_component s) = s"
proof -
  have "unpercent (encode_component s) = concat (map char_bytes s)"
    by (induction s) (simp_all add: encode_component_def unpercent_encoded)
  moreover have "utf8 (concat (map char_bytes s)) = s" by (induction s) (simp_all add: utf8_bytes)
  ultimately show ?thesis by (simp add: decode_component_def)
qed

lemma encoded_plain: "x \<in> set (encode_component s) \<Longrightarrow> x \<noteq> CHR ''&''"
proof -
  have "encode_char (CHR '' '') = ''%20''" by code_simp
  then have "x \<noteq> CHR ''&''" if "x \<in> set (encode_char c)" for c
    using that plus_char_plain [of x c] by (cases "c = CHR '' ''") (auto simp: plus_char_def)
  then show "x \<in> set (encode_component s) \<Longrightarrow> x \<noteq> CHR ''&''" by (auto simp: encode_component_def)
qed

lemma read_text_field: "plain_name (fst f) \<Longrightarrow> read_field (text_field f) = f"
proof -
  assume p: "plain_name (fst f)"
  then have "\<And>x. x \<in> set (fst f) \<Longrightarrow> x \<noteq> CHR ''=''" by (auto simp: plain_name_def list_all_iff)
  then have "takeWhile (\<lambda>c. c \<noteq> CHR ''='') (text_field f) = fst f"
    "dropWhile (\<lambda>c. c \<noteq> CHR ''='') (text_field f) = CHR ''='' # encode_component (snd f)"
    unfolding text_field_def by (subst takeWhile_append2 dropWhile_append2, blast, simp)+
  then show ?thesis using p by (simp add: read_field_def decode_plain decode_component_encode)
qed

lemma text_field_plain: "plain_name (fst f) \<Longrightarrow> CHR ''&'' \<notin> set (text_field f)"
  using encoded_plain by (auto simp: text_field_def plain_name_def list_all_iff)

lemma read_text_fields: "\<forall>f \<in> set fs. plain_name (fst f) \<Longrightarrow> fs \<noteq> [] \<Longrightarrow> read_query (join_with ''&'' (map text_field fs)) = fs"
proof -
  assume p: "\<forall>f \<in> set fs. plain_name (fst f)" and n: "fs \<noteq> []"
  have "split_on CHR ''&'' (join_with ''&'' (map text_field fs)) = map text_field fs"
    using p n by (induction fs rule: induct_list012) (simp_all add: split_on_single split_on_append text_field_plain)
  moreover have "map (read_field \<circ> text_field) fs = fs" using p by (simp add: map_idI read_text_field)
  moreover have "join_with ''&'' (map text_field fs) \<noteq> []" using n by (cases fs; cases "tl fs") (auto simp: text_field_def)
  ultimately show ?thesis by (simp add: read_query_def)
qed

lemma bip_request_fields:
  "bip_request m b w s = join_with ''&''
    (map text_field
      ([(''_method'', ''put''), (value_text (bo_object w) @ ''['' @ value_text (bo_attribute w) @ '']'', value_text (get_bip_value b w s))] @
       (case (cm_param m, cm_token m) of (Some p, Some t) \<Rightarrow> [(p, t)] | _ \<Rightarrow> [])))"
proof -
  have "encode_component ''put'' = ''put''" by code_simp
  then show ?thesis by (simp add: bip_request_def text_field_def split: option.split)
qed


lemma newlines_fixed: "CHR 0x0D \<notin> set s \<Longrightarrow> newlines s = s"
  by (induction s) auto

lemma newlines_no_return: "CHR 0x0D \<notin> set (newlines s)"
  by (induction s rule: newlines.induct) auto

lemma set_js_trim: "set (js_trim s) \<subseteq> set s"
  by (auto simp: js_trim_def dest!: set_dropWhileD)

lemma trimmed_field:
  assumes "ty = Input_Form \<or> ty = Textarea_Form"
  shows "field_text ty (js_trim (field_text ty t)) = js_trim (field_text ty t)"
  using assms
proof
  assume ty: "ty = Input_Form"
  let ?P = "\<lambda>c. c \<noteq> CHR 0x0A \<and> c \<noteq> CHR 0x0D"
  have "\<forall>c \<in> set (js_trim (filter ?P t)). ?P c" using set_js_trim [of "filter ?P t"] unfolding set_filter by blast
  then have "filter ?P (js_trim (filter ?P t)) = js_trim (filter ?P t)" by (rule iffD2 [OF filter_id_conv])
  then show ?thesis unfolding ty field_text_def bip_type.case .
next
  assume ty: "ty = Textarea_Form"
  have "CHR 0x0D \<notin> set (js_trim (newlines t))" using set_js_trim [of "newlines t"] newlines_no_return [of t] by blast
  then show ?thesis by (simp add: ty field_text_def newlines_fixed)
qed

text \<open>A form for a text without buttons, as the application uses it, in a browser that reads markup back as it wrote it.\<close>

definition plain_editor :: "bip_browser \<Rightarrow> bip_options \<Rightarrow> string \<Rightarrow> bool" where
  "plain_editor b w p \<longleftrightarrow>
     (bo_type w = Input_Form \<or> bo_type w = Textarea_Form) \<and> \<not> truthy (bo_ok w) \<and> \<not> truthy (bo_cancel w) \<and> \<not> bo_raw w \<and>
     bo_place w = Text_Value p \<and> bb_html b p = p \<and> bb_html b [] = []"

definition old_text :: "string \<Rightarrow> string \<Rightarrow> string" where
  "old_text p h = (if h = p then [] else h)"

lemma plain_activate:
  assumes "plain_editor b w p" and "bp_content s = Markup h"
  shows "bp_content (activate_edit m b w s) = Form (Some (field_text (bo_type w)
      (if bo_type w = Input_Form then shown_text (to_display b w s) else js_trim (shown_text (to_display b w s)))))"
    "bp_old (activate_edit m b w s) = old_text p h" "bp_bound (activate_edit m b w s) = 0"
    "bp_pending (activate_edit m b w s) = bp_pending s" "bp_sent (activate_edit m b w s) = bp_sent s"
    "bp_original (activate_edit m b w s) = bp_original s"
  using assms by (auto simp: activate_edit_def activate_form_defs bip_tell_def plain_editor_def is_placeholder_def html_of_def old_text_def Let_def)

lemma plain_activate_text:
  assumes "plain_editor b w p" and "bb_html b h = h"
  shows "bp_content (activate_text b w (old_text p h) s) = Markup (if old_text p h = [] then p else h)"
  using assms by (auto simp: activate_text_def put_html_def is_placeholder_def html_of_def old_text_def plain_editor_def Let_def)

lemma plain_update:
  assumes "plain_editor b w p" and "bp_content s = Form (Some t)" and "js_trim t \<noteq> bp_old s"
  shows "bp_content (update_edit m b w s) = Markup (if js_trim t = [] then p else escape_text (js_trim t))"
    "bp_old (update_edit m b w s) = bp_old s" "bp_bound (update_edit m b w s) = bp_bound s"
    "bp_pending (update_edit m b w s) = bp_pending s @ [length (bp_sent s)]"
    "bp_sent (update_edit m b w s) = bp_sent s @ [bip_request m b w s]"
proof -
  have v: "get_bip_value b w s = Text_Value (js_trim t)" using assms(1,2) by (auto simp: get_bip_value_def plain_editor_def)
  show "bp_content (update_edit m b w s) = Markup (if js_trim t = [] then p else escape_text (js_trim t))"
    "bp_old (update_edit m b w s) = bp_old s" "bp_bound (update_edit m b w s) = bp_bound s"
    "bp_pending (update_edit m b w s) = bp_pending s @ [length (bp_sent s)]"
    "bp_sent (update_edit m b w s) = bp_sent s @ [bip_request m b w s]"
    using assms by (auto simp: update_edit_def v show_value_def put_html_def put_plain_def plain_editor_def bip_tell_def Let_def)
qed


lemma next_edit:
  assumes "plain_editor b w p" and "bp_content s = Markup (if v = [] then p else escape_text v)" and "v \<noteq> [] \<longrightarrow> bp_original s = Text_Value v"
    and "js_trim v = v" and "field_text (bo_type w) v = v"
  shows "bp_content (activate_edit m b w s) = Form (Some (if escape_text v = p then [] else v))"
proof -
  let ?x = "if escape_text v = p then [] else v"
  have "field_text (bo_type w) [] = []" by (simp add: field_text_def split: bip_type.split)
  moreover have "js_trim [] = []" by (simp add: js_trim_def)
  ultimately have x: "field_text (bo_type w) ?x = ?x" "js_trim ?x = ?x" using assms(4,5) by simp_all
  have conc: "bp_content (activate_edit m b w s) = Form (Some y)"
    if "shown_text (to_display b w s) = y" "field_text (bo_type w) y = y" "js_trim y = y" for y
    unfolding plain_activate(1) [OF assms(1,2)] that(1,3) if_cancel that(2) by (rule refl)
  have "shown_text (to_display b w s) = ?x"
    using assms(1-3) escape_Nil [of v]
    by (cases "v = []") (auto simp: to_display_def is_placeholder_def html_of_def plain_editor_def shown_text_def)
  then show ?thesis using x by (rule conc)
qed

text \<open>C33. Clicking a text, typing and leaving the field sends nothing and brings the old text back when what was typed, without white
  space around it, is the markup shown before. Otherwise one request goes out, in which the server reads the method, the trimmed
  text under the name of the attribute and the token, and the text is shown. If the server agrees, the next click offers that
  text; if not, the old one is back.\<close>

theorem typed_text_is_saved:
  assumes "plain_editor b w p" and "bp_content s = Markup h" and "bb_html b h = h" and "bp_bound s = 1" and "bp_pending s = []"
    and "\<forall>t. bb_text b (escape_text t) = t" and "cm_param m = Some q" and "cm_token m = Some k"
    and "plain_name q" and "plain_name (value_text (bo_object w))" and "plain_name (value_text (bo_attribute w))"
    and "old = (if h = p then [] else h)" and "v = js_trim (field_text (bo_type w) t)"
    and "left = bip_run m b w [Click_Text, Type_In t, Leave_Field] s"
    and "agreed = bip_step m b w (Reply_Comes (length (bp_sent s)) (Accepts [])) left"
    and "refused = bip_step m b w (Reply_Comes (length (bp_sent s)) Refuses) left"
  shows "(v = old \<longrightarrow>
      bp_sent left = bp_sent s \<and> bp_pending left = [] \<and> bp_bound left = 1 \<and> bp_content left = Markup (if old = [] then p else h)) \<and>
    (v \<noteq> old \<longrightarrow>
      (\<exists>body. bp_sent left = bp_sent s @ [body] \<and>
         read_query body =
           [(''_method'', ''put''), (value_text (bo_object w) @ ''['' @ value_text (bo_attribute w) @ '']'', v), (q, k)]) \<and>
      bp_content left = Markup (if v = [] then p else escape_text v) \<and>
      bp_bound agreed = 1 \<and> bp_content agreed = bp_content left \<and>
      bp_content (bip_step m b w Click_Text agreed) = Form (Some (if escape_text v = p then [] else v)) \<and>
      bp_bound refused = 1 \<and> bp_content refused = Markup (if old = [] then p else h))"
proof -
  have ty: "bo_type w = Input_Form \<or> bo_type w = Textarea_Form" using assms(1) by (simp add: plain_editor_def)
  define a where "a = activate_edit m b w s"
  define e where "e = a\<lparr>bp_content := Form (Some (field_text (bo_type w) t))\<rparr>"
  note ac = plain_activate [OF assms(1,2), of m, folded a_def]
  have old: "old = old_text p h" using assms(12) by (simp add: old_text_def)
  have e: "bp_content e = Form (Some (field_text (bo_type w) t))" "bp_old e = old" "bp_bound e = 0" "bp_pending e = []" "bp_sent e = bp_sent s"
    using ac assms(5) by (simp_all add: e_def old)
  have "live_form a" "live_form e" using ac(1) by (simp_all add: live_form_def e_def)
  then have left: "left = update_edit m b w e"
    using ty assms(1,4) by (auto simp: assms(14) bip_run_def a_def [symmetric] type_in_def e_def leave_field_defs plain_editor_def)
  have g: "get_bip_value b w e = Text_Value v" using ty by (auto simp: get_bip_value_def e assms(13))
  show ?thesis
  proof (cases "v = old")
    case True
    then have "left = abort_edit b w e" using ty g e by (simp add: left update_edit_def)
    then show ?thesis using True e plain_activate_text [OF assms(1,3), of e] by (simp add: abort_edit_def bip_tell_def old Let_def)
  next
    case False
    have "js_trim (field_text (bo_type w) t) \<noteq> bp_old e" using False e assms(13) by simp
    note up = plain_update [OF assms(1) e(1) this, of m, folded left assms(13)]
    have c: "bp_content left = Markup (if v = [] then p else escape_text v)" by (rule up(1))
    have "plain_name (value_text (bo_object w) @ ''['' @ value_text (bo_attribute w) @ '']'')" using assms(10,11) by (simp add: plain_name_def)
    moreover have "plain_name ''_method''" by code_simp
    ultimately have body: "read_query (bip_request m b w e) =
      [(''_method'', ''put''), (value_text (bo_object w) @ ''['' @ value_text (bo_attribute w) @ '']'', v), (q, k)]"
      unfolding bip_request_fields using assms(7-9) by (subst read_text_fields) (auto simp: g)
    have ag: "bp_bound agreed = 1" "bp_content agreed = bp_content left" "bp_original agreed = Text_Value (bb_text b (if v = [] then p else escape_text v))"
      using assms(1) ty e up c by (auto simp: assms(15) reply_comes_def load_success_def bip_tell_def content_text_def plain_editor_def js_trim_def Let_def)
    have "bp_content (activate_edit m b w agreed) = Form (Some (if escape_text v = p then [] else v))"
      by (rule next_edit [OF assms(1)])
        (use ag c assms(6) trimmed_field [OF ty, of t, folded assms(13)] in \<open>simp_all add: js_trim_idem assms(13)\<close>)
    then have "bp_content (bip_step m b w Click_Text agreed) = Form (Some (if escape_text v = p then [] else v))" using ag(1) by simp
    moreover have "bp_bound refused = 1" "bp_content refused = Markup (if old = [] then p else h)"
      using e up plain_activate_text [OF assms(1,3)] by (simp_all add: assms(16) reply_comes_def load_error_def bip_tell_def old Let_def)
    ultimately show ?thesis using False up(5) e body ag c by auto
  qed
qed


section \<open>A goal of a user\<close>

definition sample_browser :: bip_browser where
  "sample_browser =
     \<lparr>bb_html = (\<lambda>s. s), bb_text = read_markup, bb_field = (\<lambda>_. None), bb_form = (\<lambda>_. ''<form></form>''), bb_form_text = [],
      bb_json = (\<lambda>s. if s = ''null'' then Null_Json else Bad_Json)\<rparr>"

definition goal_attributes :: "string \<Rightarrow> bip_attributes" where
  "goal_attributes v =
     \<lparr>ba_url = Text_Value ''/goals/3'', ba_activator = Undefined_Value, ba_ok = Undefined_Value, ba_cancel = Undefined_Value,
      ba_collection = None, ba_type = Undefined_Value, ba_object = Text_Value ''goal'', ba_attribute = Text_Value ''description'',
      ba_place = Undefined_Value, ba_original = Undefined_Value, ba_raw = Undefined_Value, ba_confirm = Undefined_Value,
      ba_value = data_of (\<lambda>_. None) (Some v)\<rparr>"

definition goal_options :: "data_value \<Rightarrow> bip_options" where
  "goal_options cancel =
     \<lparr>bo_type = Input_Form, bo_url = Text_Value ''/goals/3'', bo_activator = None, bo_ok = Undefined_Value, bo_cancel = cancel,
      bo_values = None, bo_object = Text_Value ''goal'', bo_attribute = Text_Value ''description'', bo_place = Text_Value ''-'',
      bo_raw = False, bo_confirm = False\<rparr>"

definition sample_meta :: csrf_meta where
  "sample_meta = \<lparr>cm_param = Some ''authenticity_token'', cm_token = Some ''x+y=''\<rparr>"

definition goal_editor :: "string \<Rightarrow> string \<Rightarrow> bip" where
  "goal_editor v html = new_editor sample_browser (goal_options Undefined_Value) (goal_attributes v) html"

lemma goal_options_made: "init_options ''/users/1'' [] (goal_attributes v) = Inr (goal_options Undefined_Value)"
  by (simp add: init_options_def goal_attributes_def goal_options_def form_type_def or_else_def inherited_def)

lemma goal_plain: "plain_editor sample_browser (goal_options Undefined_Value) ''-''"
  by (simp add: plain_editor_def goal_options_def sample_browser_def)

theorem edits_take_turns_witness:
  "let s = bip_run sample_meta sample_browser (goal_options Undefined_Value)
       [Click_Text, Click_Text, Type_In ''Buy a house'', Leave_Field, Submit_Form, Click_Text] (goal_editor ''Travel'' ''Travel'') in
     bp_bound s = 0 \<and> length (bp_pending s) = 1 \<and> length (bp_sent s) = 1"
proof -
  let ?es = "[Click_Text, Click_Text, Type_In ''Buy a house'', Leave_Field, Submit_Form, Click_Text]"
  let ?s = "bip_run sample_meta sample_browser (goal_options Undefined_Value) ?es (goal_editor ''Travel'' ''Travel'')"
  have "\<not> live_form ?s" "bp_bound ?s = 0" "length (bp_sent ?s) = 1" by code_simp+
  moreover have "steady (goal_options Undefined_Value)" by (simp add: steady_def goal_options_def)
  ultimately show ?thesis
    using edits_take_turns [of "goal_options Undefined_Value" ?es sample_browser ?s sample_meta "goal_attributes ''Travel''" "''Travel''"]
    by (simp add: goal_editor_def sound_reply_def Let_def)
qed

theorem typed_text_is_saved_witness:
  "\<exists>body. bp_sent (bip_run sample_meta sample_browser (goal_options Undefined_Value)
       [Click_Text, Type_In '' Fish & chips '', Leave_Field] (goal_editor ''Travel'' ''Travel'')) = [body] \<and>
     read_query body = [(''_method'', ''put''), (''goal[description]'', ''Fish & chips''), (''authenticity_token'', ''x+y='')]"
proof -
  have e: "bp_content (goal_editor ''Travel'' ''Travel'') = Markup ''Travel''" "bp_bound (goal_editor ''Travel'' ''Travel'') = 1"
    "bp_pending (goal_editor ''Travel'' ''Travel'') = []" "bp_sent (goal_editor ''Travel'' ''Travel'') = []"
    by (simp_all add: goal_editor_def new_editor_def)
  have t: "js_trim (field_text Input_Form '' Fish & chips '') = ''Fish & chips''" by code_simp
  have n: "plain_name ''authenticity_token''" "plain_name ''goal''" "plain_name ''description''" by code_simp+
  have g: "bo_type (goal_options Undefined_Value) = Input_Form" "value_text (bo_object (goal_options Undefined_Value)) = ''goal''"
    "value_text (bo_attribute (goal_options Undefined_Value)) = ''description''" by (simp_all add: goal_options_def)
  show ?thesis
    using typed_text_is_saved [OF goal_plain e(1) _ e(2,3), of sample_meta "''authenticity_token''" "''x+y=''" "''Travel''"
        "''Fish & chips''" "'' Fish & chips ''", OF _ _ _ _ _ _ _ _ _ refl refl refl]
    by (simp add: g t n e read_escaped sample_meta_def) (simp add: sample_browser_def read_escaped)
qed

section \<open>What goes wrong\<close>

text \<open>The test for a change compares the text with the markup: a click on a text with an ampersand sends it back unchanged, and
  typing the markup itself is taken for no change. An attribute that shows a reference is even offered without it, so that leaving
  the field saves another text.\<close>

lemma unchanged_text_is_sent:
  "length (bp_sent (bip_run sample_meta sample_browser (goal_options Undefined_Value) [Click_Text, Leave_Field]
     (goal_editor ''a & b'' ''a &amp; b''))) = 1"
  by code_simp

lemma changed_text_is_dropped:
  "bp_sent (bip_run sample_meta sample_browser (goal_options Undefined_Value) [Click_Text, Type_In ''a &amp; b'', Leave_Field]
     (goal_editor ''a & b'' ''a &amp; b'')) = []"
  by code_simp

lemma reference_offered_as_character:
  "bp_content (bip_run sample_meta sample_browser (goal_options Undefined_Value) [Click_Text]
     (goal_editor ''a &amp; b'' ''a &amp;amp; b'')) = Form (Some ''a & b'')"
  by code_simp

text \<open>With a cancel button the timer of a field that was left still runs after Escape. It then reads no field and sends an empty
  text.\<close>

lemma escape_then_timer_empties:
  "let s = bip_run sample_meta sample_browser (goal_options (Text_Value ''Cancel'')) [Click_Text, Leave_Field, Key_Up 27 True, Timer_Due 0 True]
       (new_editor sample_browser (goal_options (Text_Value ''Cancel'')) (goal_attributes ''Travel'') ''Travel'') in
     map read_query (bp_sent s) = [[(''_method'', ''put''), (''goal[description]'', []), (''authenticity_token'', ''x+y='')]] \<and>
     bp_content s = Markup ''-''"
  by code_simp

text \<open>An answer that is no JSON leaves the element deaf for good.\<close>

lemma bad_answer_blocks_clicks:
  "let s = bip_run sample_meta sample_browser (goal_options Undefined_Value)
       [Click_Text, Type_In ''House'', Leave_Field, Reply_Comes 0 (Accepts ''<html>'')] (goal_editor ''Travel'' ''Travel'') in
     bip_step sample_meta sample_browser (goal_options Undefined_Value) Click_Text s = s \<and> bp_pending s = [] \<and> \<not> live_form s"
proof -
  let ?s = "bip_run sample_meta sample_browser (goal_options Undefined_Value)
       [Click_Text, Type_In ''House'', Leave_Field, Reply_Comes 0 (Accepts ''<html>'')] (goal_editor ''Travel'' ''Travel'')"
  have "bp_bound ?s = 0" "bp_pending ?s = []" "\<not> live_form ?s" by code_simp+
  then show ?thesis unfolding Let_def by simp
qed

text \<open>After a refusal the old text is shown, and the refused one is offered at the next click.\<close>

lemma refused_text_offered:
  "let s = bip_run sample_meta sample_browser (goal_options Undefined_Value)
       [Click_Text, Type_In ''House'', Leave_Field, Reply_Comes 0 Refuses] (goal_editor ''Travel'' ''Travel'') in
     bp_content s = Markup ''Travel'' \<and>
     bp_content (bip_step sample_meta sample_browser (goal_options Undefined_Value) Click_Text s) = Form (Some ''House'')"
  by code_simp

text \<open>A check box keeps the refused value as its own, so that the next click sends the value it shows.\<close>

lemma refused_check_box:
  assumes "bo_type w = Checkbox_Form" and "bp_bound s = 1" and "bp_pending s = []" and "bp_collection s = Bool_Value c"
  shows "get_bip_value b w (bip_run m b w [Click_Text, Reply_Comes (length (bp_sent s)) Refuses, Click_Text] s) = Bool_Value c"
  using assms
  by (simp add: bip_run_def get_bip_value_def activate_edit_def activate_form_defs update_edit_def bip_tell_def show_value_def reply_comes_def
      load_error_def activate_text_def Let_def)

text \<open>The activator that a parent supplies is never used.\<close>

lemma parents_activator_ignored:
  "init_options path (p\<lparr>ba_activator := v\<rparr> # ps) a = init_options path (p # ps) a"
proof -
  have "inherited ba_url (p\<lparr>ba_activator := v\<rparr> # ps) = inherited ba_url (p # ps)" "inherited ba_ok (p\<lparr>ba_activator := v\<rparr> # ps) = inherited ba_ok (p # ps)"
    "inherited ba_cancel (p\<lparr>ba_activator := v\<rparr> # ps) = inherited ba_cancel (p # ps)" by (simp_all add: inherited_def)
  then show ?thesis by (simp only: init_options_def)
qed

end
