(* ===== verification/Modals.thy ===== *)
theory Modals
  imports Prelude "HOL-Library.While_Combinator"
begin

text \<open>
  Bootstrap's \<open>modal.js\<close> and \<open>transition.js\<close> of the deployed bundle, for one modal window such as the one with the
  life insurance quote: opening and closing with their transitions, the backdrop, the handlers that close it, the guard on the
  focus, the padding of the body and the buttons that open it. A transition ends when the browser says so or when the timer of
  \<open>emulateTransitionEnd\<close> is due, whichever comes first; both are events here, in any order. \<open>mo_transition\<close> is
  \<open>$.support.transition\<close>. A \<open>remote\<close> address, which no view gives, is not modelled.
\<close>

section \<open>The window and its page\<close>

datatype backdrop_option = No_Backdrop | Static_Backdrop | Click_Backdrop

record modal_options =
  mo_backdrop :: backdrop_option
  mo_keyboard :: bool
  mo_show :: bool
  mo_fade :: bool
  mo_transition :: bool
  mo_overflows :: bool
  mo_bar :: int
  mo_padding :: int
  mo_visible :: "nat \<Rightarrow> bool"

datatype tr_target = Tr_Element | Tr_Dialog | Tr_Backdrop nat

datatype backdrop_after = Rest_Of_Show | Say_Hidden

datatype tr_callback = After backdrop_after | Remove_Then backdrop_after | Say_Shown | Hide_Modal | Mark_Called nat

datatype modal_note = Show_Event | Shown_Event | Hide_Event | Hidden_Event

datatype modal_focus = Focus_Modal | Focus_Button nat | Focus_Elsewhere

record modal =
  md_made :: bool
  md_shown :: bool
  md_backdrop :: "nat option"
  md_backdrops :: "(nat \<times> bool) list"
  md_next :: nat
  md_display :: bool
  md_in :: bool
  md_body_open :: bool
  md_bar :: int
  md_padding :: "int option"
  md_dismiss :: nat
  md_outside :: nat
  md_keys :: nat
  md_guard :: nat
  md_waiting :: "(tr_target \<times> tr_callback) list"
  md_timers :: "(nat \<times> tr_target) list"
  md_called :: "nat list"
  md_on_show :: "nat list"
  md_on_hidden :: "nat list"
  md_focus :: modal_focus
  md_log :: "modal_note list"

definition modal_tell :: "modal_note \<Rightarrow> modal \<Rightarrow> modal" where
  "modal_tell n s = s\<lparr>md_log := md_log s @ [n]\<rparr>"

text \<open>The \<open>show\<close> event: buttons that wait for it then wait for \<open>hidden\<close>, unless it was prevented.\<close>

definition tell_show :: "bool \<Rightarrow> modal \<Rightarrow> modal" where
  "tell_show prevented s =
     (modal_tell Show_Event s)\<lparr>md_on_show := [], md_on_hidden := md_on_hidden s @ (if prevented then [] else md_on_show s)\<rparr>"

definition tell_hidden :: "modal_options \<Rightarrow> modal \<Rightarrow> modal" where
  "tell_hidden w s =
     (modal_tell Hidden_Event s)
       \<lparr>md_on_hidden := [],
        md_focus := fold (\<lambda>t f. if mo_visible w t then Focus_Button t else f) (md_on_hidden s) (md_focus s)\<rparr>"

section \<open>Transitions\<close>

definition wait_for :: "tr_target \<Rightarrow> tr_callback \<Rightarrow> modal \<Rightarrow> modal" where
  "wait_for t cb s = s\<lparr>md_waiting := md_waiting s @ [(t, cb)]\<rparr>"

text \<open>\<open>emulateTransitionEnd\<close>: a handler that notes the end, and a timer.\<close>

definition emulate_end :: "tr_target \<Rightarrow> modal \<Rightarrow> modal" where
  "emulate_end t s =
     (let s1 = wait_for t (Mark_Called (md_next s)) s
      in s1\<lparr>md_timers := md_timers s @ [(md_next s, t)], md_next := Suc (md_next s)\<rparr>)"

section \<open>Opening and closing\<close>

definition check_scrollbar :: "modal_options \<Rightarrow> modal \<Rightarrow> modal" where
  "check_scrollbar w s = (if \<not> mo_overflows w then s else s\<lparr>md_bar := (if md_bar s \<noteq> 0 then md_bar s else mo_bar w)\<rparr>)"

definition set_scrollbar :: "modal_options \<Rightarrow> modal \<Rightarrow> modal" where
  "set_scrollbar w s =
     (let pad = (case md_padding s of Some p \<Rightarrow> p | None \<Rightarrow> mo_padding w)
      in if md_bar s \<noteq> 0 then s\<lparr>md_padding := Some (pad + md_bar s)\<rparr> else s)"

definition reset_scrollbar :: "modal \<Rightarrow> modal" where
  "reset_scrollbar s = s\<lparr>md_padding := None\<rparr>"

definition modal_escape :: "modal_options \<Rightarrow> modal \<Rightarrow> modal" where
  "modal_escape w s =
     (if md_shown s \<and> mo_keyboard w then s\<lparr>md_keys := Suc (md_keys s)\<rparr>
      else if \<not> md_shown s then s\<lparr>md_keys := 0\<rparr>
      else s)"

definition enforce_focus :: "modal \<Rightarrow> modal" where
  "enforce_focus s = s\<lparr>md_guard := 1\<rparr>"

definition say_shown :: "modal \<Rightarrow> modal" where
  "say_shown s = modal_tell Shown_Event (s\<lparr>md_focus := (if md_display s then Focus_Modal else md_focus s)\<rparr>)"

text \<open>The function \<open>show\<close> hands to \<open>backdrop\<close>.\<close>

definition rest_of_show :: "modal_options \<Rightarrow> modal \<Rightarrow> modal" where
  "rest_of_show w s =
     (let s1 = enforce_focus (s\<lparr>md_display := True, md_in := True\<rparr>)
      in if mo_transition w \<and> mo_fade w then emulate_end Tr_Dialog (wait_for Tr_Dialog Say_Shown s1) else say_shown s1)"

definition run_after :: "modal_options \<Rightarrow> backdrop_after \<Rightarrow> modal \<Rightarrow> modal" where
  "run_after w cb s = (case cb of Rest_Of_Show \<Rightarrow> rest_of_show w s | Say_Hidden \<Rightarrow> tell_hidden w s)"

text \<open>Removing an element drops its handlers.\<close>

definition remove_backdrop :: "modal \<Rightarrow> modal" where
  "remove_backdrop s =
     (case md_backdrop s of
        None \<Rightarrow> s
      | Some b \<Rightarrow>
          s\<lparr>md_backdrops := filter (\<lambda>(c, i). c \<noteq> b) (md_backdrops s), md_backdrop := None,
            md_waiting := filter (\<lambda>(t, cb). t \<noteq> Tr_Backdrop b) (md_waiting s)\<rparr>)"

definition modal_backdrop :: "modal_options \<Rightarrow> backdrop_after \<Rightarrow> modal \<Rightarrow> modal" where
  "modal_backdrop w cb s =
     (if md_shown s \<and> mo_backdrop w \<noteq> No_Backdrop
      then
        let b = md_next s;
            s1 = s\<lparr>md_backdrop := Some b, md_backdrops := md_backdrops s @ [(b, True)], md_next := Suc b, md_outside := Suc (md_outside s)\<rparr>
        in if mo_transition w \<and> mo_fade w then emulate_end (Tr_Backdrop b) (wait_for (Tr_Backdrop b) (After cb) s1)
           else run_after w cb s1
      else if \<not> md_shown s \<and> md_backdrop s \<noteq> None
      then
        let b = the (md_backdrop s);
            s1 = s\<lparr>md_backdrops := map (\<lambda>(c, i). if c = b then (c, False) else (c, i)) (md_backdrops s)\<rparr>
        in if mo_transition w \<and> mo_fade w then emulate_end (Tr_Backdrop b) (wait_for (Tr_Backdrop b) (Remove_Then cb) s1)
           else run_after w cb (remove_backdrop s1)
      else run_after w cb s)"

definition hide_modal :: "modal_options \<Rightarrow> modal \<Rightarrow> modal" where
  "hide_modal w s = modal_backdrop w Say_Hidden (s\<lparr>md_display := False\<rparr>)"

definition show_window :: "modal_options \<Rightarrow> bool \<Rightarrow> modal \<Rightarrow> modal" where
  "show_window w prevented s =
     (let s1 = tell_show prevented s in
        if md_shown s1 \<or> prevented then s1
        else
          let s2 = (check_scrollbar w (s1\<lparr>md_shown := True\<rparr>))\<lparr>md_body_open := True\<rparr>;
              s3 = modal_escape w (set_scrollbar w s2)
          in modal_backdrop w Rest_Of_Show (s3\<lparr>md_dismiss := Suc (md_dismiss s3)\<rparr>))"

definition hide_window :: "modal_options \<Rightarrow> bool \<Rightarrow> modal \<Rightarrow> modal" where
  "hide_window w prevented s =
     (let s1 = modal_tell Hide_Event s in
        if \<not> md_shown s1 \<or> prevented then s1
        else
          let s2 = modal_escape w (reset_scrollbar (s1\<lparr>md_shown := False, md_body_open := False\<rparr>));
              s3 = s2\<lparr>md_guard := 0, md_in := False, md_dismiss := 0, md_outside := 0\<rparr>
          in if mo_transition w \<and> mo_fade w then emulate_end Tr_Element (wait_for Tr_Element Hide_Modal s3) else hide_modal w s3)"

definition run_callback :: "modal_options \<Rightarrow> tr_callback \<Rightarrow> modal \<Rightarrow> modal" where
  "run_callback w cb s =
     (case cb of
        After a \<Rightarrow> run_after w a s
      | Remove_Then a \<Rightarrow> run_after w a (remove_backdrop s)
      | Say_Shown \<Rightarrow> say_shown s
      | Hide_Modal \<Rightarrow> hide_modal w s
      | Mark_Called i \<Rightarrow> s\<lparr>md_called := i # md_called s\<rparr>)"

text \<open>The end of a transition runs the handlers that wait for it at its target, each once.\<close>

definition transition_end :: "modal_options \<Rightarrow> tr_target \<Rightarrow> modal \<Rightarrow> modal" where
  "transition_end w t s =
     fold (\<lambda>(u, cb). run_callback w cb) (filter (\<lambda>(u, cb). u = t) (md_waiting s))
       (s\<lparr>md_waiting := filter (\<lambda>(u, cb). u \<noteq> t) (md_waiting s)\<rparr>)"

definition run_timer :: "modal_options \<Rightarrow> nat \<Rightarrow> modal \<Rightarrow> modal" where
  "run_timer w i s =
     (case map_of (md_timers s) i of
        None \<Rightarrow> s
      | Some t \<Rightarrow>
          let s1 = s\<lparr>md_timers := filter (\<lambda>(j, u). j \<noteq> i) (md_timers s)\<rparr>
          in if i \<in> set (md_called s1) then s1 else transition_end w t s1)"

section \<open>What happens to a window\<close>

text \<open>The truth value says whether a handler of the application prevents the event \<open>show\<close> or \<open>hide\<close>.\<close>

datatype modal_event =
  Call_Show bool
  | Call_Hide bool
  | Call_Toggle bool
  | Button_Click nat bool
  | Dismiss_Click bool
  | Outside_Click bool
  | Key_Up nat bool
  | Focus_Outside
  | Transition_Ends tr_target
  | Timer_Due nat

definition toggle_window :: "modal_options \<Rightarrow> bool \<Rightarrow> modal \<Rightarrow> modal" where
  "toggle_window w prevented s = (if md_shown s then hide_window w prevented s else show_window w prevented s)"

text \<open>A button with \<open>data-toggle\<close>: the first click makes the window.\<close>

definition modal_button_click :: "modal_options \<Rightarrow> nat \<Rightarrow> bool \<Rightarrow> modal \<Rightarrow> modal" where
  "modal_button_click w t prevented s =
     (let s1 = s\<lparr>md_on_show := md_on_show s @ [t]\<rparr> in
        if md_made s1 then toggle_window w prevented s1
        else
          let s2 = s1\<lparr>md_made := True\<rparr> in if mo_show w then show_window w prevented s2 else s2)"

fun modal_step :: "modal_options \<Rightarrow> modal_event \<Rightarrow> modal \<Rightarrow> modal" where
  "modal_step w (Call_Show p) s = show_window w p (s\<lparr>md_made := True\<rparr>)"
| "modal_step w (Call_Hide p) s = hide_window w p (s\<lparr>md_made := True\<rparr>)"
| "modal_step w (Call_Toggle p) s = toggle_window w p (s\<lparr>md_made := True\<rparr>)"
| "modal_step w (Button_Click t p) s = modal_button_click w t p s"
| "modal_step w (Dismiss_Click p) s = (hide_window w p ^^ md_dismiss s) s"
| "modal_step w (Outside_Click p) s =
     (if mo_backdrop w = Static_Backdrop then (if md_outside s = 0 then s else s\<lparr>md_focus := Focus_Modal\<rparr>)
      else (hide_window w p ^^ md_outside s) s)"
| "modal_step w (Key_Up k p) s = (if k = 27 then (hide_window w p ^^ md_keys s) s else s)"
| "modal_step w Focus_Outside s =
     s\<lparr>md_focus := (if md_guard s \<noteq> 0 \<and> md_display s then Focus_Modal else Focus_Elsewhere)\<rparr>"
| "modal_step w (Transition_Ends t) s = (if mo_transition w then transition_end w t s else s)"
| "modal_step w (Timer_Due i) s = run_timer w i s"

definition modal_run :: "modal_options \<Rightarrow> modal_event list \<Rightarrow> modal \<Rightarrow> modal" where
  "modal_run w es s = fold (modal_step w) es s"

definition new_modal :: modal where
  "new_modal =
     \<lparr>md_made = False, md_shown = False, md_backdrop = None, md_backdrops = [], md_next = 0, md_display = False, md_in = False,
      md_body_open = False, md_bar = 0, md_padding = None, md_dismiss = 0, md_outside = 0, md_keys = 0, md_guard = 0, md_waiting = [],
      md_timers = [], md_called = [], md_on_show = [], md_on_hidden = [], md_focus = Focus_Elsewhere, md_log = []\<rparr>"


section \<open>The phases of a window\<close>

datatype modal_phase = Closed | Fading_In | Sliding_In | Opened | Sliding_Out | Fading_Out

definition animated :: "modal_options \<Rightarrow> bool" where
  "animated w \<longleftrightarrow> mo_transition w \<and> mo_fade w"

definition one_backdrop :: "modal_options \<Rightarrow> modal \<Rightarrow> bool" where
  "one_backdrop w s \<longleftrightarrow>
     (if mo_backdrop w = No_Backdrop then md_backdrop s = None \<and> md_backdrops s = []
      else md_backdrop s \<noteq> None \<and> md_backdrops s = [(the (md_backdrop s), True)])"

definition modal_up :: "modal_options \<Rightarrow> modal \<Rightarrow> bool" where
  "modal_up w s \<longleftrightarrow>
     md_shown s \<and> md_body_open s \<and> md_dismiss s = 1 \<and> md_outside s = (if mo_backdrop w = No_Backdrop then 0 else 1) \<and>
     md_keys s = (if mo_keyboard w then 1 else 0) \<and> one_backdrop w s"

definition modal_down :: "modal \<Rightarrow> bool" where
  "modal_down s \<longleftrightarrow>
     \<not> md_shown s \<and> \<not> md_body_open s \<and> md_padding s = None \<and> md_dismiss s = 0 \<and> md_outside s = 0 \<and> md_keys s = 0 \<and>
     md_guard s = 0 \<and> \<not> md_in s"

definition awaits :: "tr_target \<Rightarrow> tr_callback \<Rightarrow> modal \<Rightarrow> bool" where
  "awaits t cb s \<longleftrightarrow> (\<exists>i. md_waiting s = [(t, cb), (t, Mark_Called i)] \<and> i \<notin> set (md_called s))"

fun in_phase :: "modal_options \<Rightarrow> modal_phase \<Rightarrow> modal \<Rightarrow> bool" where
  "in_phase w Closed s \<longleftrightarrow> modal_down s \<and> \<not> md_display s \<and> md_backdrop s = None \<and> md_backdrops s = [] \<and> md_waiting s = []"
| "in_phase w Fading_In s \<longleftrightarrow>
     animated w \<and> modal_up w s \<and> \<not> md_display s \<and> \<not> md_in s \<and> md_guard s = 0 \<and>
     (\<exists>b. md_backdrop s = Some b \<and> awaits (Tr_Backdrop b) (After Rest_Of_Show) s)"
| "in_phase w Sliding_In s \<longleftrightarrow>
     animated w \<and> modal_up w s \<and> md_display s \<and> md_in s \<and> md_guard s = 1 \<and> awaits Tr_Dialog Say_Shown s"
| "in_phase w Opened s \<longleftrightarrow> modal_up w s \<and> md_display s \<and> md_in s \<and> md_guard s = 1 \<and> md_waiting s = []"
| "in_phase w Sliding_Out s \<longleftrightarrow> animated w \<and> modal_down s \<and> md_display s \<and> one_backdrop w s \<and> awaits Tr_Element Hide_Modal s"
| "in_phase w Fading_Out s \<longleftrightarrow>
     animated w \<and> modal_down s \<and> \<not> md_display s \<and>
     (\<exists>b. md_backdrop s = Some b \<and> md_backdrops s = [(b, False)] \<and> awaits (Tr_Backdrop b) (Remove_Then Say_Hidden) s)"

text \<open>Every timer has a number of its own and either is over or belongs to what is waited for.\<close>

definition timers_ok :: "modal \<Rightarrow> bool" where
  "timers_ok s \<longleftrightarrow>
     distinct (map fst (md_timers s)) \<and> (\<forall>i \<in> set (md_called s). i < md_next s) \<and>
     (\<forall>(i, t) \<in> set (md_timers s). i < md_next s \<and> (i \<in> set (md_called s) \<or> (t, Mark_Called i) \<in> set (md_waiting s))) \<and>
     (\<forall>t i. (t, Mark_Called i) \<in> set (md_waiting s) \<longrightarrow> (i, t) \<in> set (md_timers s))"

lemmas modal_defs = show_window_def hide_window_def modal_backdrop_def rest_of_show_def hide_modal_def run_after_def emulate_end_def
  wait_for_def check_scrollbar_def set_scrollbar_def reset_scrollbar_def modal_escape_def enforce_focus_def say_shown_def
  remove_backdrop_def modal_tell_def tell_show_def tell_hidden_def Let_def

lemmas phase_defs = modal_up_def modal_down_def one_backdrop_def awaits_def animated_def

lemma timers_updates [simp]:
  "timers_ok (s\<lparr>md_shown := x0\<rparr>) = timers_ok s" "timers_ok (s\<lparr>md_backdrop := x1\<rparr>) = timers_ok s"
  "timers_ok (s\<lparr>md_backdrops := x2\<rparr>) = timers_ok s" "timers_ok (s\<lparr>md_display := x3\<rparr>) = timers_ok s"
  "timers_ok (s\<lparr>md_in := x4\<rparr>) = timers_ok s" "timers_ok (s\<lparr>md_body_open := x5\<rparr>) = timers_ok s"
  "timers_ok (s\<lparr>md_bar := x6\<rparr>) = timers_ok s" "timers_ok (s\<lparr>md_padding := x7\<rparr>) = timers_ok s"
  "timers_ok (s\<lparr>md_dismiss := x8\<rparr>) = timers_ok s" "timers_ok (s\<lparr>md_outside := x9\<rparr>) = timers_ok s"
  "timers_ok (s\<lparr>md_keys := x10\<rparr>) = timers_ok s" "timers_ok (s\<lparr>md_guard := x11\<rparr>) = timers_ok s"
  "timers_ok (s\<lparr>md_focus := x12\<rparr>) = timers_ok s" "timers_ok (s\<lparr>md_made := x13\<rparr>) = timers_ok s"
  "timers_ok (s\<lparr>md_on_show := x14\<rparr>) = timers_ok s" "timers_ok (s\<lparr>md_on_hidden := x15\<rparr>) = timers_ok s"
  "timers_ok (s\<lparr>md_log := x16\<rparr>) = timers_ok s"
  by (simp_all add: timers_ok_def)

lemma timers_quiet [simp]:
  "timers_ok (modal_tell n s) = timers_ok s" "timers_ok (tell_show p s) = timers_ok s" "timers_ok (tell_hidden w s) = timers_ok s"
  "timers_ok (check_scrollbar w s) = timers_ok s" "timers_ok (set_scrollbar w s) = timers_ok s" "timers_ok (reset_scrollbar s) = timers_ok s"
  "timers_ok (modal_escape w s) = timers_ok s" "timers_ok (enforce_focus s) = timers_ok s" "timers_ok (say_shown s) = timers_ok s"
  by (simp_all add: modal_tell_def tell_show_def tell_hidden_def check_scrollbar_def set_scrollbar_def reset_scrollbar_def modal_escape_def
      enforce_focus_def say_shown_def Let_def)

lemma timers_next: "timers_ok s \<Longrightarrow> timers_ok (s\<lparr>md_next := Suc (md_next s)\<rparr>)"
  unfolding timers_ok_def by fastforce

lemma timers_emulate:
  assumes "timers_ok s" and "\<forall>i. cb \<noteq> Mark_Called i"
  shows "timers_ok (emulate_end t (wait_for t cb s))"
proof -
  have "md_next s \<notin> fst ` set (md_timers s)" using assms(1) by (auto simp: timers_ok_def)
  then show ?thesis using assms by (fastforce simp: timers_ok_def emulate_end_def wait_for_def Let_def)
qed

lemma timers_rest: "timers_ok s \<Longrightarrow> timers_ok (rest_of_show w s)"
  by (simp add: rest_of_show_def timers_emulate Let_def)

lemma timers_after: "timers_ok s \<Longrightarrow> timers_ok (run_after w a s)"
  by (simp add: run_after_def timers_rest split: backdrop_after.split)


lemma timers_step: "timers_ok s \<Longrightarrow> n = Suc (md_next s) \<Longrightarrow> timers_ok (s\<lparr>md_next := n\<rparr>)"
  using timers_next by simp

lemma fresh_mark: "timers_ok s \<Longrightarrow> md_next s \<notin> set (md_called s)" "timers_ok s \<Longrightarrow> Suc (md_next s) \<notin> set (md_called s)"
  by (auto simp: timers_ok_def)

lemma timers_remove: "timers_ok s \<Longrightarrow> md_waiting s = [] \<Longrightarrow> timers_ok (remove_backdrop s)"
  by (simp add: remove_backdrop_def timers_ok_def split: option.split)

lemma timers_backdrop:
  assumes "timers_ok s" and "md_waiting s = []"
  shows "timers_ok (modal_backdrop w a s)"
proof -
  have "timers_ok (s\<lparr>md_backdrop := x, md_backdrops := y, md_next := Suc (md_next s), md_outside := z\<rparr>)" for x y z
    by (simp, rule timers_step) (simp_all add: assms(1))
  moreover have "timers_ok (remove_backdrop (s\<lparr>md_backdrops := y\<rparr>))" for y by (rule timers_remove) (simp_all add: assms)
  ultimately show ?thesis using assms(1)
    by (auto simp: modal_backdrop_def Let_def intro!: timers_emulate timers_after)
qed

text \<open>The end of a transition, with the note of its end made first.\<close>

lemma called_apart:
  "(say_shown (s\<lparr>md_called := c\<rparr>)) = (say_shown s)\<lparr>md_called := c\<rparr>" "md_called (say_shown s) = md_called s"
  "(tell_hidden w (s\<lparr>md_called := c\<rparr>)) = (tell_hidden w s)\<lparr>md_called := c\<rparr>" "md_called (tell_hidden w s) = md_called s"
  "(wait_for t cb (s\<lparr>md_called := c\<rparr>)) = (wait_for t cb s)\<lparr>md_called := c\<rparr>" "md_called (wait_for t cb s) = md_called s"
  "(remove_backdrop (s\<lparr>md_called := c\<rparr>)) = (remove_backdrop s)\<lparr>md_called := c\<rparr>" "md_called (remove_backdrop s) = md_called s"
  by (simp_all add: say_shown_def tell_hidden_def modal_tell_def wait_for_def remove_backdrop_def split: option.split)

lemma called_emulate:
  "emulate_end t (s\<lparr>md_called := c\<rparr>) = (emulate_end t s)\<lparr>md_called := c\<rparr>" "md_called (emulate_end t s) = md_called s"
  by (simp_all add: emulate_end_def wait_for_def)

lemma called_rest:
  "rest_of_show w (s\<lparr>md_called := c\<rparr>) = (rest_of_show w s)\<lparr>md_called := c\<rparr>" "md_called (rest_of_show w s) = md_called s"
proof -
  have "enforce_focus (s\<lparr>md_called := c, md_display := True, md_in := True\<rparr>) = (enforce_focus (s\<lparr>md_display := True, md_in := True\<rparr>))\<lparr>md_called := c\<rparr>"
    by (simp add: enforce_focus_def)
  then show "rest_of_show w (s\<lparr>md_called := c\<rparr>) = (rest_of_show w s)\<lparr>md_called := c\<rparr>"
    unfolding rest_of_show_def Let_def by (simp only: called_apart called_emulate if_distrib [of "\<lambda>x. x\<lparr>md_called := c\<rparr>"] cong: if_cong)
  show "md_called (rest_of_show w s) = md_called s"
    by (simp add: rest_of_show_def called_apart called_emulate enforce_focus_def Let_def)
qed

lemma called_after:
  "run_after w a (s\<lparr>md_called := c\<rparr>) = (run_after w a s)\<lparr>md_called := c\<rparr>" "md_called (run_after w a s) = md_called s"
  by (simp_all add: run_after_def called_rest called_apart split: backdrop_after.split)

lemma called_backdrop:
  "modal_backdrop w a (s\<lparr>md_called := c\<rparr>) = (modal_backdrop w a s)\<lparr>md_called := c\<rparr>" "md_called (modal_backdrop w a s) = md_called s"
proof -
  have n: "(s\<lparr>md_called := c, md_backdrop := x, md_backdrops := y, md_next := n, md_outside := z\<rparr>) =
    (s\<lparr>md_backdrop := x, md_backdrops := y, md_next := n, md_outside := z\<rparr>)\<lparr>md_called := c\<rparr>"
    "s\<lparr>md_called := c, md_backdrops := y\<rparr> = (s\<lparr>md_backdrops := y\<rparr>)\<lparr>md_called := c\<rparr>" for x y n z by simp_all
  have f: "md_shown (s\<lparr>md_called := c\<rparr>) = md_shown s" "md_backdrop (s\<lparr>md_called := c\<rparr>) = md_backdrop s"
    "md_backdrops (s\<lparr>md_called := c\<rparr>) = md_backdrops s" "md_next (s\<lparr>md_called := c\<rparr>) = md_next s" "md_outside (s\<lparr>md_called := c\<rparr>) = md_outside s"
    by simp_all
  show "modal_backdrop w a (s\<lparr>md_called := c\<rparr>) = (modal_backdrop w a s)\<lparr>md_called := c\<rparr>"
    unfolding modal_backdrop_def Let_def f n
    by (simp only: called_apart called_emulate called_after if_distrib [of "\<lambda>x. x\<lparr>md_called := c\<rparr>"] cong: if_cong)
  show "md_called (modal_backdrop w a s) = md_called s"
    by (simp add: modal_backdrop_def called_apart called_emulate called_after Let_def)
qed

lemma called_hide:
  "hide_modal w (s\<lparr>md_called := c\<rparr>) = (hide_modal w s)\<lparr>md_called := c\<rparr>" "md_called (hide_modal w s) = md_called s"
proof -
  have "s\<lparr>md_called := c, md_display := False\<rparr> = (s\<lparr>md_display := False\<rparr>)\<lparr>md_called := c\<rparr>" by simp
  then show "hide_modal w (s\<lparr>md_called := c\<rparr>) = (hide_modal w s)\<lparr>md_called := c\<rparr>"
    unfolding hide_modal_def by (simp only: called_backdrop)
  show "md_called (hide_modal w s) = md_called s" by (simp add: hide_modal_def called_backdrop)
qed

lemma mark_first:
  assumes "\<forall>i. cb \<noteq> Mark_Called i"
  shows "run_callback w cb (s\<lparr>md_called := c\<rparr>) = (run_callback w cb s)\<lparr>md_called := c\<rparr>" "md_called (run_callback w cb s) = md_called s"
  using assms by (simp_all add: run_callback_def called_apart called_after called_hide split: tr_callback.split)

lemma end_awaited:
  assumes "awaits t cb s" and "\<forall>i. cb \<noteq> Mark_Called i"
  obtains i where "transition_end w t s = run_callback w cb (s\<lparr>md_waiting := [], md_called := i # md_called s\<rparr>)"
    "md_waiting s = [(t, cb), (t, Mark_Called i)]" "i \<notin> set (md_called s)"
proof -
  obtain i where i: "md_waiting s = [(t, cb), (t, Mark_Called i)]" "i \<notin> set (md_called s)" using assms(1) by (auto simp: awaits_def)
  have "run_callback w (Mark_Called i) u = u\<lparr>md_called := i # md_called u\<rparr>" for u by (simp add: run_callback_def)
  then have "transition_end w t s = run_callback w cb (s\<lparr>md_waiting := [], md_called := i # md_called s\<rparr>)"
    using i mark_first(2) [OF assms(2), of w "s\<lparr>md_waiting := []\<rparr>"] mark_first(1) [OF assms(2), of w "i # md_called s" "s\<lparr>md_waiting := []\<rparr>"]
    by (simp add: transition_end_def)
  then show thesis using that i by blast
qed

lemma timers_cleared:
  assumes "timers_ok s" and "md_waiting s = [(t, cb), (t, Mark_Called i)]" and "\<forall>i. cb \<noteq> Mark_Called i"
  shows "timers_ok (s\<lparr>md_waiting := [], md_called := i # md_called s\<rparr>)"
    "timers_ok (s\<lparr>md_timers := filter P (md_timers s), md_waiting := [], md_called := i # md_called s\<rparr>)"
proof -
  have m: "(i, t) \<in> set (md_timers s)" and n: "\<forall>j \<in> set (md_called s). j < md_next s" and d: "distinct (map fst (md_timers s))"
    using assms(1,2) by (simp_all add: timers_ok_def)
  have c: "j < md_next s \<and> (j = i \<or> j \<in> set (md_called s))" if "(j, u) \<in> set (md_timers s)" for j u
    using assms that by (auto simp: timers_ok_def)
  show "timers_ok (s\<lparr>md_waiting := [], md_called := i # md_called s\<rparr>)" using m n d c by (auto simp: timers_ok_def)
  show "timers_ok (s\<lparr>md_timers := filter P (md_timers s), md_waiting := [], md_called := i # md_called s\<rparr>)"
    using c [OF m] n c distinct_map_filter [OF d] by (auto simp: timers_ok_def)
qed

lemma end_elsewhere: "\<forall>(u, cb) \<in> set (md_waiting s). u \<noteq> t \<Longrightarrow> transition_end w t s = s"
proof -
  assume a: "\<forall>(u, cb) \<in> set (md_waiting s). u \<noteq> t"
  then have "filter (\<lambda>(u, cb). u = t) (md_waiting s) = []" "filter (\<lambda>(u, cb). u \<noteq> t) (md_waiting s) = md_waiting s"
    by (auto simp: filter_empty_conv filter_id_conv)
  then show ?thesis by (simp add: transition_end_def)
qed


lemma up_updates [simp]:
  "modal_up w (s\<lparr>md_waiting := x\<rparr>) = modal_up w s" "modal_up w (s\<lparr>md_called := c\<rparr>) = modal_up w s" "modal_up w (s\<lparr>md_timers := t\<rparr>) = modal_up w s"
  "modal_down (s\<lparr>md_waiting := x\<rparr>) = modal_down s" "modal_down (s\<lparr>md_called := c\<rparr>) = modal_down s" "modal_down (s\<lparr>md_timers := t\<rparr>) = modal_down s"
  "one_backdrop w (s\<lparr>md_waiting := x\<rparr>) = one_backdrop w s" "one_backdrop w (s\<lparr>md_called := c\<rparr>) = one_backdrop w s"
  "one_backdrop w (s\<lparr>md_timers := t\<rparr>) = one_backdrop w s"
  by (simp_all add: modal_up_def modal_down_def one_backdrop_def)

lemma rest_phase:
  assumes "modal_up w u" and "md_waiting u = []" and "timers_ok u"
  shows "in_phase w (if animated w then Sliding_In else Opened) (rest_of_show w u)"
  using assms fresh_mark(1) [OF assms(3)]
  by (simp add: rest_of_show_def emulate_end_def wait_for_def say_shown_def enforce_focus_def modal_tell_def phase_defs Let_def)

lemma shown_phase:
  "modal_up w u \<Longrightarrow> md_waiting u = [] \<Longrightarrow> md_display u \<Longrightarrow> md_in u \<Longrightarrow> md_guard u = 1 \<Longrightarrow> in_phase w Opened (say_shown u)"
  by (simp add: say_shown_def modal_tell_def phase_defs)

lemma removed_phase:
  assumes "modal_down u" and "md_waiting u = []" and "\<not> md_display u" and "md_backdrop u = Some b" and "md_backdrops u = [(b, i)]"
  shows "in_phase w Closed (run_after w Say_Hidden (remove_backdrop u))"
  using assms by (simp add: run_after_def remove_backdrop_def tell_hidden_def modal_tell_def phase_defs)

lemma backdrop_out_phase:
  assumes "modal_down u" and "md_waiting u = []" and "timers_ok u" and "one_backdrop w u"
  shows "in_phase w (if animated w \<and> mo_backdrop w \<noteq> No_Backdrop then Fading_Out else Closed) (hide_modal w u)"
proof (cases "md_backdrop u")
  case None
  then show ?thesis using assms
    by (auto simp: hide_modal_def modal_backdrop_def run_after_def tell_hidden_def modal_tell_def phase_defs split: if_splits)
next
  case (Some b)
  have o: "md_backdrops u = [(b, True)]" "mo_backdrop w \<noteq> No_Backdrop" using assms(4) Some by (auto simp: one_backdrop_def split: if_splits)
  have n: "\<not> md_shown u" using assms(1) by (simp add: modal_down_def)
  show ?thesis
  proof (cases "animated w")
    case True
    then show ?thesis using Some assms(1,2) n o fresh_mark(1) [OF assms(3)]
      by (simp add: hide_modal_def modal_backdrop_def emulate_end_def wait_for_def phase_defs Let_def)
  next
    case False
    have "in_phase w Closed (run_after w Say_Hidden (remove_backdrop (u\<lparr>md_display := False, md_backdrops := [(b, False)]\<rparr>)))"
      by (rule removed_phase [where i = False]) (use assms(1,2) Some in \<open>simp_all add: modal_down_def\<close>)
    moreover have "hide_modal w u = run_after w Say_Hidden (remove_backdrop (u\<lparr>md_display := False, md_backdrops := [(b, False)]\<rparr>))"
      using False Some n o by (auto simp: hide_modal_def modal_backdrop_def animated_def Let_def)
    ultimately show ?thesis using False by (simp del: in_phase.simps)
  qed
qed

lemma show_opens:
  assumes "in_phase w Closed s" and "timers_ok s"
  obtains v where "show_window w False s = modal_backdrop w Rest_Of_Show v" "timers_ok v"
    "md_shown v" "md_body_open v" "md_dismiss v = 1" "md_outside v = 0" "md_keys v = (if mo_keyboard w then 1 else 0)" "md_waiting v = []"
    "md_backdrop v = None" "md_backdrops v = []" "\<not> md_display v" "\<not> md_in v" "md_guard v = 0"
proof -
  let ?u = "modal_escape w (set_scrollbar w ((check_scrollbar w ((tell_show False s)\<lparr>md_shown := True\<rparr>))\<lparr>md_body_open := True\<rparr>))"
  let ?v = "?u\<lparr>md_dismiss := Suc (md_dismiss ?u)\<rparr>"
  have c: "md_waiting s = []" "modal_down s" "md_backdrop s = None" "md_backdrops s = []" "\<not> md_display s" using assms(1) by simp_all
  have "show_window w False s = modal_backdrop w Rest_Of_Show ?v"
    using c(2) by (simp add: show_window_def tell_show_def modal_tell_def modal_down_def Let_def)
  moreover have "timers_ok ?v" using assms(2) by simp
  moreover have "md_shown ?v" "md_body_open ?v" "md_dismiss ?v = 1" "md_outside ?v = 0" "md_keys ?v = (if mo_keyboard w then 1 else 0)"
    "md_waiting ?v = []" "md_backdrop ?v = None" "md_backdrops ?v = []" "\<not> md_display ?v" "\<not> md_in ?v" "md_guard ?v = 0"
    using c by (simp_all add: modal_escape_def set_scrollbar_def check_scrollbar_def tell_show_def modal_tell_def modal_down_def Let_def)
  ultimately show thesis by (rule that)
qed

definition show_leads :: "modal_options \<Rightarrow> modal_phase" where
  "show_leads w = (if \<not> animated w then Opened else if mo_backdrop w = No_Backdrop then Sliding_In else Fading_In)"

lemma show_phase:
  assumes "in_phase w Closed s" and "timers_ok s"
  shows "in_phase w (show_leads w) (show_window w False s)" "timers_ok (show_window w False s)"
proof -
  obtain v where eq: "show_window w False s = modal_backdrop w Rest_Of_Show v" and t: "timers_ok v"
    and v: "md_shown v" "md_body_open v" "md_dismiss v = 1" "md_outside v = 0" "md_keys v = (if mo_keyboard w then 1 else 0)" "md_waiting v = []"
    "md_backdrop v = None" "md_backdrops v = []" "\<not> md_display v" "\<not> md_in v" "md_guard v = 0"
    by (rule show_opens [OF assms])
  show "timers_ok (show_window w False s)" unfolding eq using t v(6) by (rule timers_backdrop)
  show "in_phase w (show_leads w) (show_window w False s)"
  proof (cases "mo_backdrop w = No_Backdrop")
    case True
    then have "modal_up w v" using v by (simp add: modal_up_def one_backdrop_def)
    from rest_phase [OF this v(6) t] show ?thesis unfolding eq using True v(1)
      by (auto simp: modal_backdrop_def run_after_def show_leads_def simp del: in_phase.simps)
  next
    case False
    let ?b = "md_next v"
    define x where "x = v\<lparr>md_backdrop := Some ?b, md_backdrops := [(?b, True)], md_next := Suc ?b, md_outside := 1\<rparr>"
    have m: "modal_backdrop w Rest_Of_Show v =
      (if animated w then emulate_end (Tr_Backdrop ?b) (wait_for (Tr_Backdrop ?b) (After Rest_Of_Show) x) else rest_of_show w x)"
      using v False by (simp add: modal_backdrop_def run_after_def animated_def x_def Let_def)
    have up: "modal_up w x" using v False by (simp add: modal_up_def one_backdrop_def x_def)
    have tx: "timers_ok x" unfolding x_def by (simp, rule timers_step) (use t in simp_all)
    have wx: "md_waiting x = []" "\<not> md_display x" "\<not> md_in x" "md_guard x = 0" "md_backdrop x = Some ?b" using v by (simp_all add: x_def)
    show ?thesis
    proof (cases "animated w")
      case True
      have "in_phase w Fading_In (emulate_end (Tr_Backdrop ?b) (wait_for (Tr_Backdrop ?b) (After Rest_Of_Show) x))"
        using True False up wx fresh_mark(1) [OF tx]
        by (simp add: emulate_end_def wait_for_def awaits_def modal_up_def one_backdrop_def Let_def)
      then show ?thesis unfolding eq m show_leads_def using True False by simp
    next
      case na: False
      from rest_phase [OF up wx(1) tx] show ?thesis unfolding eq m show_leads_def using na by simp
    qed
  qed
qed

lemma prevented_show: "in_phase w ph s \<Longrightarrow> in_phase w ph (tell_show p s)" "in_phase w ph s \<Longrightarrow> in_phase w ph (modal_tell n s)"
  by (cases ph; simp add: tell_show_def modal_tell_def phase_defs)+

definition hide_leads :: "modal_options \<Rightarrow> modal_phase" where
  "hide_leads w = (if animated w then Sliding_Out else Closed)"

lemma hide_phase:
  assumes "in_phase w Opened s" and "timers_ok s"
  shows "in_phase w (hide_leads w) (hide_window w False s)" "timers_ok (hide_window w False s)"
proof -
  define v where "v = (modal_escape w (reset_scrollbar ((modal_tell Hide_Event s)\<lparr>md_shown := False, md_body_open := False\<rparr>)))
    \<lparr>md_guard := 0, md_in := False, md_dismiss := 0, md_outside := 0\<rparr>"
  have c: "md_waiting s = []" "modal_up w s" "md_display s" using assms(1) by simp_all
  have t: "timers_ok v" using assms(2) by (simp add: v_def)
  have v: "modal_down v" "md_waiting v = []" "md_display v" "one_backdrop w v"
    using c by (simp_all add: v_def modal_escape_def reset_scrollbar_def modal_tell_def modal_down_def modal_up_def one_backdrop_def)
  have eq: "hide_window w False s =
    (if animated w then emulate_end Tr_Element (wait_for Tr_Element Hide_Modal v) else hide_modal w v)"
    using c(2) by (simp add: hide_window_def modal_tell_def v_def animated_def modal_up_def Let_def)
  have "timers_ok (hide_modal w v)" unfolding hide_modal_def by (rule timers_backdrop) (use t v in simp_all)
  then show "timers_ok (hide_window w False s)" unfolding eq using timers_emulate [OF t] by simp
  show "in_phase w (hide_leads w) (hide_window w False s)"
  proof (cases "animated w")
    case True
    have "in_phase w Sliding_Out (emulate_end Tr_Element (wait_for Tr_Element Hide_Modal v))"
      using True v fresh_mark(1) [OF t] by (simp add: emulate_end_def wait_for_def awaits_def modal_down_def one_backdrop_def Let_def)
    then show ?thesis unfolding eq hide_leads_def using True by simp
  next
    case False
    from backdrop_out_phase [OF v(1,2) t v(4)] show ?thesis unfolding eq hide_leads_def using False by simp
  qed
qed


text \<open>What a phase waits for and the phase after it.\<close>

fun awaited :: "modal_phase \<Rightarrow> modal \<Rightarrow> (tr_target \<times> tr_callback) option" where
  "awaited Fading_In s = Some (Tr_Backdrop (the (md_backdrop s)), After Rest_Of_Show)"
| "awaited Sliding_In s = Some (Tr_Dialog, Say_Shown)"
| "awaited Sliding_Out s = Some (Tr_Element, Hide_Modal)"
| "awaited Fading_Out s = Some (Tr_Backdrop (the (md_backdrop s)), Remove_Then Say_Hidden)"
| "awaited Closed s = None"
| "awaited Opened s = None"

fun phase_after :: "modal_options \<Rightarrow> modal_phase \<Rightarrow> modal_phase" where
  "phase_after w Fading_In = Sliding_In"
| "phase_after w Sliding_In = Opened"
| "phase_after w Sliding_Out = (if mo_backdrop w = No_Backdrop then Closed else Fading_Out)"
| "phase_after w Fading_Out = Closed"
| "phase_after w ph = ph"

lemma awaited_awaits: "in_phase w ph s \<Longrightarrow> awaited ph s = Some (t, cb) \<Longrightarrow> awaits t cb s \<and> (\<forall>i. cb \<noteq> Mark_Called i)"
  by (cases ph) auto

lemma awaited_None: "in_phase w ph s \<Longrightarrow> awaited ph s = None \<longleftrightarrow> md_waiting s = []"
  by (cases ph) (auto simp: awaits_def)

text \<open>The callback, run when nothing is waited for any more.\<close>

lemma callback_phase:
  assumes "in_phase w ph s" and "awaited ph s = Some (t, cb)" and "u = s\<lparr>md_timers := ts, md_waiting := [], md_called := c\<rparr>" and "timers_ok u"
  shows "in_phase w (phase_after w ph) (run_callback w cb u)" "timers_ok (run_callback w cb u)"
proof -
  have f: "md_waiting u = []" "md_display u = md_display s" "md_in u = md_in s" "md_guard u = md_guard s" "md_backdrop u = md_backdrop s"
    "md_backdrops u = md_backdrops s" "modal_up w u = modal_up w s" "modal_down u = modal_down s" "one_backdrop w u = one_backdrop w s"
    by (simp_all add: assms(3))
  have "in_phase w (phase_after w ph) (run_callback w cb u) \<and> timers_ok (run_callback w cb u)"
  proof (cases ph)
    case Fading_In
    then have a: "animated w" "modal_up w u" "cb = After Rest_Of_Show" using assms(1,2) f by auto
    then show ?thesis using Fading_In rest_phase [OF a(2) f(1) assms(4)] timers_rest [OF assms(4)]
      by (simp add: run_callback_def run_after_def del: in_phase.simps)
  next
    case Sliding_In
    then have a: "modal_up w u" "md_display u" "md_in u" "md_guard u = 1" "cb = Say_Shown" using assms(1,2) f by auto
    then show ?thesis using Sliding_In shown_phase [OF a(1) f(1) a(2-4)] assms(4) by (simp add: run_callback_def del: in_phase.simps)
  next
    case Sliding_Out
    then have a: "animated w" "modal_down u" "one_backdrop w u" "cb = Hide_Modal" using assms(1,2) f by auto
    have "timers_ok (hide_modal w u)" unfolding hide_modal_def by (rule timers_backdrop) (use assms(4) f in simp_all)
    then show ?thesis using Sliding_Out a(1,4) backdrop_out_phase [OF a(2) f(1) assms(4) a(3)]
      by (simp add: run_callback_def del: in_phase.simps split: if_splits)
  next
    case Fading_Out
    then obtain b where a: "modal_down u" "\<not> md_display u" "md_backdrop u = Some b" "md_backdrops u = [(b, False)]" "cb = Remove_Then Say_Hidden"
      using assms(1,2) f by auto
    then show ?thesis using Fading_Out removed_phase [OF a(1) f(1) a(2-4)] timers_after [OF timers_remove [OF assms(4) f(1)]]
      by (simp add: run_callback_def del: in_phase.simps)
  qed (use assms(2) in simp_all)
  then show "in_phase w (phase_after w ph) (run_callback w cb u)" "timers_ok (run_callback w cb u)" by simp_all
qed

lemma end_phase:
  assumes "in_phase w ph s" and "timers_ok s" and "awaited ph s = Some (t, cb)"
  shows "in_phase w (phase_after w ph) (transition_end w t s)" "timers_ok (transition_end w t s)"
proof -
  note a = awaited_awaits [OF assms(1,3)]
  obtain i where e: "transition_end w t s = run_callback w cb (s\<lparr>md_waiting := [], md_called := i # md_called s\<rparr>)"
    and i: "md_waiting s = [(t, cb), (t, Mark_Called i)]"
    using end_awaited a by metis
  have u: "s\<lparr>md_waiting := [], md_called := i # md_called s\<rparr> = s\<lparr>md_timers := md_timers s, md_waiting := [], md_called := i # md_called s\<rparr>" by simp
  show "in_phase w (phase_after w ph) (transition_end w t s)" "timers_ok (transition_end w t s)"
    unfolding e using callback_phase [OF assms(1,3) u timers_cleared(1) [OF assms(2) i]] a by simp_all
qed

lemma timer_runs:
  assumes "in_phase w ph s" and "timers_ok s" and "(i, t) \<in> set (md_timers s)" and "i \<notin> set (md_called s)"
  obtains cb u where "run_timer w i s = run_callback w cb u" "awaited ph s = Some (t, cb)" "timers_ok u"
    "u = s\<lparr>md_timers := filter (\<lambda>(j, u). j \<noteq> i) (md_timers s), md_waiting := [], md_called := i # md_called s\<rparr>"
proof -
  let ?s = "s\<lparr>md_timers := filter (\<lambda>(j, u). j \<noteq> i) (md_timers s)\<rparr>"
  let ?u = "s\<lparr>md_timers := filter (\<lambda>(j, u). j \<noteq> i) (md_timers s), md_waiting := [], md_called := i # md_called s\<rparr>"
  have wt: "(t, Mark_Called i) \<in> set (md_waiting s)" using assms(2-4) by (auto simp: timers_ok_def)
  then have "awaited ph s \<noteq> None" using awaited_None [OF assms(1)] by auto
  then obtain t' cb where a: "awaited ph s = Some (t', cb)" by auto
  note aw = awaited_awaits [OF assms(1) a]
  obtain j where j: "md_waiting s = [(t', cb), (t', Mark_Called j)]" using aw by (auto simp: awaits_def)
  have t: "t' = t" "j = i" using wt aw j by auto
  have "awaits t cb ?s" using aw t by (simp add: awaits_def)
  then obtain k where e: "transition_end w t ?s = run_callback w cb (?s\<lparr>md_waiting := [], md_called := k # md_called ?s\<rparr>)"
    and k: "md_waiting ?s = [(t, cb), (t, Mark_Called k)]" using end_awaited aw by metis
  have "k = i" using k j t by simp
  then have u: "?s\<lparr>md_waiting := [], md_called := k # md_called ?s\<rparr> = ?u" by simp
  have "distinct (map fst (md_timers s))" using assms(2) by (simp add: timers_ok_def)
  then have "run_timer w i s = run_callback w cb ?u" unfolding u [symmetric] e [symmetric] using assms(3,4) by (simp add: run_timer_def)
  moreover have "timers_ok ?u" using timers_cleared(2) [OF assms(2) j [unfolded t]] aw by simp
  ultimately show thesis using that a t by blast
qed

lemma timer_phase:
  assumes "in_phase w ph s" and "timers_ok s"
  shows "\<exists>ph. in_phase w ph (run_timer w i s)" "timers_ok (run_timer w i s)"
proof -
  have "(\<exists>ph. in_phase w ph (run_timer w i s)) \<and> timers_ok (run_timer w i s)"
  proof (cases "map_of (md_timers s) i")
    case (Some t)
    have m: "(i, t) \<in> set (md_timers s)" using Some by (rule map_of_SomeD)
    show ?thesis
    proof (cases "i \<in> set (md_called s)")
      case True
      let ?s = "s\<lparr>md_timers := filter (\<lambda>(j, u). j \<noteq> i) (md_timers s)\<rparr>"
      have "in_phase w ph ?s" using assms(1) by (cases ph) (auto simp: awaits_def)
      moreover have "(u, Mark_Called i) \<notin> set (md_waiting s)" for u using assms(1) True by (cases ph) (auto simp: awaits_def)
      then have "timers_ok ?s"
        using assms(2) True distinct_map_filter [of fst "md_timers s" "\<lambda>(j, u). j \<noteq> i"] by (auto simp: timers_ok_def)
      ultimately show ?thesis using True Some by (auto simp: run_timer_def)
    next
      case False
      obtain cb u where r: "run_timer w i s = run_callback w cb u" and a: "awaited ph s = Some (t, cb)" and o: "timers_ok u"
        and u: "u = s\<lparr>md_timers := filter (\<lambda>(j, u). j \<noteq> i) (md_timers s), md_waiting := [], md_called := i # md_called s\<rparr>"
        using timer_runs [OF assms m False] .
      show ?thesis unfolding r using callback_phase [OF assms(1) a u o] by blast
    qed
  qed (use assms in \<open>auto simp: run_timer_def\<close>)
  then show "\<exists>ph. in_phase w ph (run_timer w i s)" "timers_ok (run_timer w i s)" by simp_all
qed

section \<open>Patient use\<close>

definition uses :: "modal_event \<Rightarrow> bool" where
  "uses e \<longleftrightarrow> (case e of Focus_Outside \<Rightarrow> False | Transition_Ends t \<Rightarrow> False | Timer_Due i \<Rightarrow> False | _ \<Rightarrow> True)"

text \<open>The window is only used while no transition is under way.\<close>

fun patient :: "modal_options \<Rightarrow> modal \<Rightarrow> modal_event list \<Rightarrow> bool" where
  "patient w s [] \<longleftrightarrow> True"
| "patient w s (e # es) \<longleftrightarrow> (uses e \<longrightarrow> md_waiting s = []) \<and> patient w (modal_step w e s) es"

definition modal_inv :: "modal_options \<Rightarrow> modal \<Rightarrow> bool" where
  "modal_inv w s \<longleftrightarrow> timers_ok s \<and> (\<exists>ph. in_phase w ph s)"

lemma phase_updates:
  "in_phase w ph (s\<lparr>md_made := a\<rparr>) = in_phase w ph s" "in_phase w ph (s\<lparr>md_on_show := b\<rparr>) = in_phase w ph s"
  "in_phase w ph (s\<lparr>md_focus := c\<rparr>) = in_phase w ph s"
  by (cases ph; simp add: phase_defs)+

lemma inv_updates [simp]:
  "modal_inv w (s\<lparr>md_made := a\<rparr>) = modal_inv w s" "modal_inv w (s\<lparr>md_on_show := b\<rparr>) = modal_inv w s"
  "modal_inv w (s\<lparr>md_focus := c\<rparr>) = modal_inv w s"
  by (simp_all add: modal_inv_def phase_updates)

lemma settled_phase: "modal_inv w s \<Longrightarrow> md_waiting s = [] \<Longrightarrow> in_phase w (if md_shown s then Opened else Closed) s"
proof -
  assume "modal_inv w s" and w: "md_waiting s = []"
  then obtain ph where ph: "in_phase w ph s" by (auto simp: modal_inv_def)
  then show ?thesis using w by (cases ph) (auto simp: awaits_def modal_up_def modal_down_def)
qed

lemma inv_show:
  assumes "modal_inv w s" and "md_waiting s = []"
  shows "modal_inv w (show_window w p s)"
proof (cases "p \<or> md_shown s")
  case True
  then have "show_window w p s = tell_show p s" by (auto simp: show_window_def tell_show_def modal_tell_def Let_def)
  moreover have "modal_inv w (tell_show p s)" using assms(1) unfolding modal_inv_def by (metis prevented_show(1) timers_quiet(2))
  ultimately show ?thesis by simp
next
  case False
  have t: "timers_ok s" using assms(1) by (simp add: modal_inv_def)
  have "in_phase w Closed s" using False settled_phase [OF assms] by simp
  from show_phase [OF this t] show ?thesis using False unfolding modal_inv_def by auto
qed

lemma inv_hide:
  assumes "modal_inv w s" and "md_waiting s = []"
  shows "modal_inv w (hide_window w p s)"
proof (cases "p \<or> \<not> md_shown s")
  case True
  then have "hide_window w p s = modal_tell Hide_Event s" by (auto simp: hide_window_def modal_tell_def Let_def)
  moreover have "modal_inv w (modal_tell Hide_Event s)" using assms(1) unfolding modal_inv_def by (metis prevented_show(2) timers_quiet(1))
  ultimately show ?thesis by simp
next
  case False
  have t: "timers_ok s" using assms(1) by (simp add: modal_inv_def)
  have "in_phase w Opened s" using False settled_phase [OF assms] by simp
  from hide_phase [OF this t] show ?thesis using False unfolding modal_inv_def by auto
qed

lemma inv_toggle: "modal_inv w s \<Longrightarrow> md_waiting s = [] \<Longrightarrow> modal_inv w (toggle_window w p s)"
  by (simp add: toggle_window_def inv_show inv_hide)

lemma inv_end: "modal_inv w s \<Longrightarrow> modal_inv w (transition_end w t s)"
proof -
  assume "modal_inv w s"
  then obtain ph where ph: "in_phase w ph s" and t: "timers_ok s" by (auto simp: modal_inv_def)
  show ?thesis
  proof (cases "\<exists>cb. awaited ph s = Some (t, cb)")
    case True
    then show ?thesis using end_phase [OF ph t] by (auto simp: modal_inv_def)
  next
    case False
    have "\<forall>(u, cb) \<in> set (md_waiting s). u \<noteq> t"
    proof (cases "awaited ph s")
      case None
      then show ?thesis using awaited_None [OF ph] by simp
    next
      case (Some a)
      then show ?thesis using False awaited_awaits [OF ph, of "fst a" "snd a"] by (cases a) (auto simp: awaits_def)
    qed
    then show ?thesis using end_elsewhere \<open>modal_inv w s\<close> by metis
  qed
qed

lemma inv_step:
  assumes "modal_inv w s" and "uses e \<longrightarrow> md_waiting s = []"
  shows "modal_inv w (modal_step w e s)"
proof (cases "uses e")
  case True
  then have w: "md_waiting s = []" using assms(2) by simp
  have once: "modal_inv w ((hide_window w p ^^ n) s)" if "n \<le> 1" for p n
    using that assms(1) inv_hide [OF assms(1) w] by (cases n) auto
  have "md_dismiss s \<le> 1" "md_outside s \<le> 1" "md_keys s \<le> 1"
    using settled_phase [OF assms(1) w] by (auto simp: modal_up_def modal_down_def split: if_splits)
  then show ?thesis using True assms(1) w once
    by (cases e) (simp_all add: uses_def inv_show inv_hide inv_toggle modal_button_click_def Let_def)
next
  case False
  obtain ph where "in_phase w ph s" "timers_ok s" using assms(1) by (auto simp: modal_inv_def)
  then have "modal_inv w (run_timer w i s)" for i using timer_phase by (auto simp: modal_inv_def)
  then show ?thesis using False assms(1) inv_end by (cases e) (simp_all add: uses_def)
qed

lemma inv_run: "modal_inv w s \<Longrightarrow> patient w s es \<Longrightarrow> modal_inv w (modal_run w es s)"
  by (induction es arbitrary: s) (simp_all add: modal_run_def inv_step)

lemma inv_new: "modal_inv w new_modal"
proof -
  have "in_phase w Closed new_modal" "timers_ok new_modal" by (simp_all add: new_modal_def modal_down_def timers_ok_def)
  then show ?thesis unfolding modal_inv_def by blast
qed



section \<open>Transitions come to an end\<close>

text \<open>All timers run, the oldest first, until none is left.\<close>

definition run_out :: "modal_options \<Rightarrow> modal \<Rightarrow> modal option" where
  "run_out w s = while_option (\<lambda>s. md_timers s \<noteq> []) (\<lambda>s. run_timer w (fst (hd (md_timers s))) s) s"

definition steps_left :: "modal \<Rightarrow> nat" where
  "steps_left s =
     (case md_waiting s of
        [] \<Rightarrow> 0
      | (t, cb) # _ \<Rightarrow> (case cb of After a \<Rightarrow> 2 | Hide_Modal \<Rightarrow> 2 | Mark_Called i \<Rightarrow> 0 | _ \<Rightarrow> 1))"

lemma run_after_still:
  "md_shown (run_after w a s) = md_shown s" "\<not> animated w \<Longrightarrow> length (md_timers (run_after w a s)) \<le> length (md_timers s)"
  "length (md_timers (run_after w a s)) \<le> Suc (length (md_timers s))"
  by (auto simp: run_after_def rest_of_show_def emulate_end_def wait_for_def enforce_focus_def say_shown_def tell_hidden_def modal_tell_def
      animated_def Let_def split: backdrop_after.split)

lemma remove_still: "md_shown (remove_backdrop s) = md_shown s" "md_timers (remove_backdrop s) = md_timers s"
  by (simp_all add: remove_backdrop_def split: option.split)

lemma backdrop_still:
  "md_shown (modal_backdrop w a s) = md_shown s" "length (md_timers (modal_backdrop w a s)) \<le> length (md_timers s) + 1"
proof -
  have e: "md_shown (emulate_end t (wait_for t cb u)) = md_shown u" "length (md_timers (emulate_end t (wait_for t cb u))) = length (md_timers u) + 1"
    for t cb u by (simp_all add: emulate_end_def wait_for_def Let_def)
  show "md_shown (modal_backdrop w a s) = md_shown s"
    by (simp add: modal_backdrop_def e run_after_still remove_still Let_def)
  have "length (md_timers (run_after w a u)) \<le> length (md_timers s) + 1" if "md_timers u = md_timers s" for u
    using run_after_still(3) [of w a u] that by simp
  then show "length (md_timers (modal_backdrop w a s)) \<le> length (md_timers s) + 1"
    by (simp add: modal_backdrop_def e remove_still Let_def)
qed

lemma callback_still: "md_shown (run_callback w cb s) = md_shown s" "length (md_timers (run_callback w cb s)) \<le> length (md_timers s) + 1"
proof -
  show "md_shown (run_callback w cb s) = md_shown s"
    by (simp add: run_callback_def hide_modal_def backdrop_still run_after_still remove_still say_shown_def modal_tell_def split: tr_callback.split)
  show "length (md_timers (run_callback w cb s)) \<le> length (md_timers s) + 1"
    using run_after_still(3) [of w _ s] run_after_still(3) [of w _ "remove_backdrop s"] backdrop_still(2) [of w Say_Hidden "s\<lparr>md_display := False\<rparr>"]
    by (cases cb) (simp_all add: run_callback_def hide_modal_def remove_still say_shown_def modal_tell_def)
qed

lemma steps_in_phase:
  "in_phase w ph s \<Longrightarrow> steps_left s = (case ph of Closed \<Rightarrow> 0 | Opened \<Rightarrow> 0 | Fading_In \<Rightarrow> 2 | Sliding_Out \<Rightarrow> 2 | _ \<Rightarrow> 1)"
  by (cases ph) (auto simp: awaits_def steps_left_def)

lemma timer_progress:
  assumes "modal_inv w s" and "(i, t) \<in> set (md_timers s)"
  shows "2 * steps_left (run_timer w i s) + length (md_timers (run_timer w i s)) < 2 * steps_left s + length (md_timers s)"
    "md_shown (run_timer w i s) = md_shown s" "modal_inv w (run_timer w i s)"
proof -
  obtain ph where ph: "in_phase w ph s" and ok: "timers_ok s" using assms(1) by (auto simp: modal_inv_def)
  show "modal_inv w (run_timer w i s)" using timer_phase [OF ph ok] by (auto simp: modal_inv_def)
  let ?P = "\<lambda>(j, u). j \<noteq> i"
  let ?s = "s\<lparr>md_timers := filter ?P (md_timers s)\<rparr>"
  have "distinct (map fst (md_timers s))" using ok by (simp add: timers_ok_def)
  then have m: "map_of (md_timers s) i = Some t" using assms(2) by simp
  have l: "length (filter ?P (md_timers s)) < length (md_timers s)" by (rule length_filter_less [OF assms(2)]) simp
  have "2 * steps_left (run_timer w i s) + length (md_timers (run_timer w i s)) < 2 * steps_left s + length (md_timers s) \<and>
    md_shown (run_timer w i s) = md_shown s"
  proof (cases "i \<in> set (md_called s)")
    case True
    then have "run_timer w i s = ?s" using m by (simp add: run_timer_def)
    then show ?thesis using l by (simp add: steps_left_def)
  next
    case False
    obtain cb u where r: "run_timer w i s = run_callback w cb u" and a: "awaited ph s = Some (t, cb)" and o: "timers_ok u"
      and u: "u = s\<lparr>md_timers := filter ?P (md_timers s), md_waiting := [], md_called := i # md_called s\<rparr>"
      using timer_runs [OF ph ok assms(2) False] .
    have "length (md_timers (run_timer w i s)) \<le> length (md_timers s)"
      unfolding r using callback_still(2) [of w cb u] l u by simp
    moreover have "in_phase w (phase_after w ph) (run_timer w i s)" unfolding r by (rule callback_phase(1) [OF ph a u o])
    from steps_in_phase [OF this] have "steps_left (run_timer w i s) < steps_left s"
      using steps_in_phase [OF ph] a by (cases ph) auto
    ultimately show ?thesis using callback_still(1) [of w cb u] r u by simp
  qed
  then show "2 * steps_left (run_timer w i s) + length (md_timers (run_timer w i s)) < 2 * steps_left s + length (md_timers s)"
    "md_shown (run_timer w i s) = md_shown s" by simp_all
qed



section \<open>The window of the life insurance quote\<close>

definition quote_window :: modal_options where
  "quote_window =
     \<lparr>mo_backdrop = Click_Backdrop, mo_keyboard = True, mo_show = True, mo_fade = True, mo_transition = True, mo_overflows = True,
      mo_bar = 15, mo_padding = 0, mo_visible = (\<lambda>_. True)\<rparr>"

definition quote_run :: "modal_event list" where
  "quote_run =
     [Button_Click 4 False, Transition_Ends (Tr_Backdrop 0), Timer_Due 1, Timer_Due 2, Key_Up 27 False, Timer_Due 3,
      Transition_Ends (Tr_Backdrop 0)]"

lemma quote_patient: "patient quote_window new_modal quote_run"
  by code_simp



section \<open>What goes wrong\<close>

text \<open>Opened again while it closes, a window is closed nevertheless by the handler that waits for the transition, and two
  backdrops stay in the page of which only one can ever be removed.\<close>

definition reopened :: modal where
  "reopened = modal_run quote_window
     [Call_Show False, Timer_Due 1, Timer_Due 2, Call_Hide False, Call_Show False, Timer_Due 5, Timer_Due 3, Timer_Due 6, Timer_Due 8] new_modal"

lemma reopened_leaks:
  "md_shown reopened" "\<not> md_display reopened" "length (md_backdrops reopened) = 3" "md_waiting reopened = []"
  by code_simp+

lemma leak_stays:
  "length (md_backdrops (modal_run quote_window [Call_Hide False, Timer_Due 9, Timer_Due 10] reopened)) = 2"
  by code_simp

text \<open>Closed while it opens, a window keeps the class \<open>in\<close> and its guard on the focus.\<close>

lemma early_close_keeps_guard:
  "let s = modal_run quote_window [Call_Show False, Call_Hide False, Timer_Due 1, Timer_Due 2, Timer_Due 3, Timer_Due 4] new_modal in
     \<not> md_display s \<and> md_guard s = 1 \<and> md_in s"
  by code_simp

text \<open>A click on the button that closes the window leaves a handler for \<open>show\<close> behind, so that the focus goes to each of the buttons
  clicked in turn when the window is closed at last.\<close>

lemma closing_button_waits:
  "md_on_show (modal_run quote_window
     [Button_Click 4 False, Timer_Due 1, Timer_Due 2, Button_Click 5 False, Timer_Due 3, Timer_Due 4] new_modal) = [5]"
  by code_simp

lemma inline_padding_lost: "md_padding (hide_window w False s) = None" if "md_shown s" "\<not> animated w" "mo_backdrop w = No_Backdrop" "md_backdrop s = None"
  using that by (auto simp: hide_window_def hide_modal_def modal_backdrop_def run_after_def tell_hidden_def modal_tell_def reset_scrollbar_def
      modal_escape_def animated_def Let_def)

end
