(* ===== verification/Tabs.thy ===== *)
theory Tabs
  imports Prelude
begin

text \<open>
  Bootstrap's \<open>tab.js\<close> of the deployed bundle, which shows the lists of brokers to the administrator: a click on a tab moves
  the class \<open>active\<close> to its list item and to its pane, at once or, where the pane shown fades, when the transition ends.
  \<open>tab_doc\<close> holds the elements the script finds by walking the page; classes are kept in the state. The
  \<open>relatedTarget\<close> of events is not modelled.
\<close>

section \<open>The page\<close>

text \<open>\<open>tc_menu\<close> gives the children of the drop-down menus that are children of an element, \<open>tc_dropdown\<close> the closest
  \<open>li.dropdown\<close>.\<close>

record tab_doc =
  tc_item :: "nat \<Rightarrow> nat option"
  tc_parent_item :: "nat \<Rightarrow> nat option"
  tc_list :: "nat \<Rightarrow> nat option"
  tc_target :: "nat \<Rightarrow> nat option"
  tc_parent :: "nat \<Rightarrow> nat option"
  tc_children :: "nat \<Rightarrow> nat list"
  tc_menu :: "nat \<Rightarrow> nat list"
  tc_dropdown :: "nat \<Rightarrow> nat option"
  tc_transition :: bool

datatype tab_note = Tab_Show nat | Tab_Shown nat

text \<open>The closure \<open>next\<close>: the elements active before, the one that becomes active, whether in a transition, the tab to report.\<close>

record tab_next =
  tn_active :: "nat list"
  tn_element :: "nat option"
  tn_moves :: bool
  tn_report :: "nat option"

datatype tab_waiting = Tab_Next tab_next | Tab_Mark nat

record tab_page =
  tb_class :: "nat \<Rightarrow> css"
  tb_waiting :: "(nat \<times> tab_waiting) list"
  tb_timers :: "(nat \<times> nat list) list"
  tb_called :: "nat list"
  tb_next :: nat
  tb_log :: "tab_note list"

definition class_on :: "(css \<Rightarrow> css) \<Rightarrow> nat \<Rightarrow> tab_page \<Rightarrow> tab_page" where
  "class_on f x s = s\<lparr>tb_class := (tb_class s)(x := f (tb_class s x))\<rparr>"

definition tab_tell :: "tab_note \<Rightarrow> tab_page \<Rightarrow> tab_page" where
  "tab_tell n s = s\<lparr>tb_log := tb_log s @ [n]\<rparr>"

section \<open>Activating\<close>

definition active_children :: "tab_doc \<Rightarrow> nat option \<Rightarrow> tab_page \<Rightarrow> nat list" where
  "active_children d c s =
     (case c of None \<Rightarrow> [] | Some x \<Rightarrow> filter (\<lambda>y. has_class ''active'' (tb_class s y)) (tc_children d x))"

definition run_next :: "tab_doc \<Rightarrow> tab_next \<Rightarrow> tab_page \<Rightarrow> tab_page" where
  "run_next d n s =
     (let s1 = fold (class_on (remove_class ''active'')) (tn_active n) s;
          s2 = fold (class_on (remove_class ''active'')) (concat (map (tc_menu d) (tn_active n))) s1;
          s3 = (case tn_element n of
                  None \<Rightarrow> s2
                | Some e \<Rightarrow>
                    let t = class_on (add_class ''active'') e s2;
                        t1 = class_on (if tn_moves n then add_class ''in'' else remove_class ''fade'') e t
                    in case tc_dropdown d e of None \<Rightarrow> t1 | Some l \<Rightarrow> class_on (add_class ''active'') l t1)
      in case tn_report n of None \<Rightarrow> s3 | Some a \<Rightarrow> tab_tell (Tab_Shown a) s3)"

text \<open>Every active element waits with the closure and a note of the end; one timer stands for them all.\<close>

definition tab_activate :: "tab_doc \<Rightarrow> nat option \<Rightarrow> nat option \<Rightarrow> nat option \<Rightarrow> tab_page \<Rightarrow> tab_page" where
  "tab_activate d e c report s =
     (let act = active_children d c s;
          moves = (report \<noteq> None \<and> tc_transition d \<and> (\<exists>x \<in> set act. has_class ''fade'' (tb_class s x)));
          n = \<lparr>tn_active = act, tn_element = e, tn_moves = moves, tn_report = report\<rparr>;
          s1 = (if moves
                then s\<lparr>tb_waiting := tb_waiting s @ map (\<lambda>x. (x, Tab_Next n)) act @ map (\<lambda>x. (x, Tab_Mark (tb_next s))) act,
                       tb_timers := tb_timers s @ [(tb_next s, act)], tb_next := Suc (tb_next s)\<rparr>
                else run_next d n s)
      in fold (class_on (remove_class ''in'')) act s1)"

definition show_tab :: "tab_doc \<Rightarrow> bool \<Rightarrow> nat \<Rightarrow> tab_page \<Rightarrow> tab_page" where
  "show_tab d prevented a s =
     (if (case tc_parent_item d a of None \<Rightarrow> False | Some l \<Rightarrow> has_class ''active'' (tb_class s l)) then s
      else
        let s1 = tab_tell (Tab_Show a) s in
          if prevented then s1
          else
            let t = tc_target d a
            in tab_activate d t (case t of None \<Rightarrow> None | Some x \<Rightarrow> tc_parent d x) (Some a)
                 (tab_activate d (tc_item d a) (tc_list d a) None s1))"

definition run_tab_waiting :: "tab_doc \<Rightarrow> tab_waiting \<Rightarrow> tab_page \<Rightarrow> tab_page" where
  "run_tab_waiting d x s =
     (case x of Tab_Next n \<Rightarrow> run_next d n s | Tab_Mark i \<Rightarrow> s\<lparr>tb_called := i # tb_called s\<rparr>)"

definition tab_end :: "tab_doc \<Rightarrow> nat \<Rightarrow> tab_page \<Rightarrow> tab_page" where
  "tab_end d x s =
     fold (\<lambda>(y, c). run_tab_waiting d c) (filter (\<lambda>(y, c). y = x) (tb_waiting s))
       (s\<lparr>tb_waiting := filter (\<lambda>(y, c). y \<noteq> x) (tb_waiting s)\<rparr>)"

definition tab_timer :: "tab_doc \<Rightarrow> nat \<Rightarrow> tab_page \<Rightarrow> tab_page" where
  "tab_timer d i s =
     (case map_of (tb_timers s) i of
        None \<Rightarrow> s
      | Some xs \<Rightarrow>
          let s1 = s\<lparr>tb_timers := filter (\<lambda>(j, ys). j \<noteq> i) (tb_timers s)\<rparr>
          in if i \<in> set (tb_called s1) then s1 else fold (tab_end d) xs s1)"

text \<open>The truth value says whether a handler of the application prevents \<open>show\<close>.\<close>

datatype tab_event = Tab_Click nat bool | Tab_Transition_Ends nat | Tab_Timer nat

fun tab_step :: "tab_doc \<Rightarrow> tab_event \<Rightarrow> tab_page \<Rightarrow> tab_page" where
  "tab_step d (Tab_Click a p) s = show_tab d p a s"
| "tab_step d (Tab_Transition_Ends x) s = (if tc_transition d then tab_end d x s else s)"
| "tab_step d (Tab_Timer i) s = tab_timer d i s"

definition tab_run :: "tab_doc \<Rightarrow> tab_event list \<Rightarrow> tab_page \<Rightarrow> tab_page" where
  "tab_run d es s = fold (tab_step d) es s"

section \<open>One tab, one pane\<close>

text \<open>A row of tabs and their panes without menus.\<close>

definition tab_row :: "tab_doc \<Rightarrow> nat list \<Rightarrow> nat \<Rightarrow> nat \<Rightarrow> (nat \<Rightarrow> nat) \<Rightarrow> (nat \<Rightarrow> nat) \<Rightarrow> bool" where
  "tab_row d tabs ul box item pane \<longleftrightarrow>
     inj_on item (set tabs) \<and> inj_on pane (set tabs) \<and> item ` set tabs \<inter> pane ` set tabs = {} \<and>
     tc_children d ul = map item tabs \<and> tc_children d box = map pane tabs \<and>
     (\<forall>a \<in> set tabs.
        tc_item d a = Some (item a) \<and> tc_parent_item d a = Some (item a) \<and> tc_list d a = Some ul \<and> tc_target d a = Some (pane a) \<and>
        tc_parent d (pane a) = Some box \<and> tc_dropdown d (item a) = None \<and> tc_dropdown d (pane a) = None \<and>
        tc_menu d (item a) = [] \<and> tc_menu d (pane a) = [])"

definition only_tab :: "nat list \<Rightarrow> (nat \<Rightarrow> nat) \<Rightarrow> (nat \<Rightarrow> nat) \<Rightarrow> nat \<Rightarrow> tab_page \<Rightarrow> bool" where
  "only_tab tabs item pane a s \<longleftrightarrow>
     a \<in> set tabs \<and> tb_waiting s = [] \<and>
     (\<forall>b \<in> set tabs. (has_class ''active'' (tb_class s (item b)) \<longleftrightarrow> b = a) \<and> (has_class ''active'' (tb_class s (pane b)) \<longleftrightarrow> b = a) \<and>
        \<not> has_class ''fade'' (tb_class s (pane b)))"

lemma class_on_simps [simp]:
  "tb_class (class_on f x s) y = (if y = x then f (tb_class s x) else tb_class s y)"
  "tb_waiting (class_on f x s) = tb_waiting s" "tb_class (tab_tell n s) = tb_class s" "tb_waiting (tab_tell n s) = tb_waiting s"
  by (simp_all add: class_on_def tab_tell_def)

lemma fold_remove:
  "tb_waiting (fold (class_on (remove_class c)) xs s) = tb_waiting s"
  "has_class e (tb_class (fold (class_on (remove_class c)) xs s) y) \<longleftrightarrow> has_class e (tb_class s y) \<and> \<not> (y \<in> set xs \<and> e = c)"
  by (induction xs arbitrary: s) (auto simp: css_simps)

lemma one_active:
  assumes "inj_on f (set tabs)" and "a \<in> set tabs" and "\<forall>b \<in> set tabs. P (f b) \<longleftrightarrow> b = a"
  shows "set (filter P (map f tabs)) = {f a}"
  using assms by auto

lemma activate_now:
  assumes "set (active_children d c s) = {x}" and "report = None \<or> \<not> has_class ''fade'' (tb_class s x)" and "tc_dropdown d e = None" and "tc_menu d x = []"
  shows "tb_waiting (tab_activate d (Some e) c report s) = tb_waiting s"
    "has_class k (tb_class (tab_activate d (Some e) c report s) y) \<longleftrightarrow>
       (if k = ''active'' then y = e \<or> has_class k (tb_class s y) \<and> y \<noteq> x
        else if k = ''in'' then has_class k (tb_class s y) \<and> y \<noteq> x
        else if k = ''fade'' then has_class k (tb_class s y) \<and> y \<noteq> e
        else has_class k (tb_class s y))"
proof -
  let ?n = "\<lparr>tn_active = active_children d c s, tn_element = Some e, tn_moves = False, tn_report = report\<rparr>"
  have "\<not> (report \<noteq> None \<and> tc_transition d \<and> (\<exists>y \<in> set (active_children d c s). has_class ''fade'' (tb_class s y)))" using assms(1,2) by auto
  then have eq: "tab_activate d (Some e) c report s = fold (class_on (remove_class ''in'')) (active_children d c s) (run_next d ?n s)"
    by (simp only: tab_activate_def Let_def if_False)
  have m: "concat (map (tc_menu d) (active_children d c s)) = []" using assms(1,4) by auto
  have w: "tb_waiting (run_next d ?n s) = tb_waiting s" using assms(3) m
    by (simp add: run_next_def Let_def fold_remove split: option.split)
  have h: "has_class k (tb_class (run_next d ?n s) y) \<longleftrightarrow>
       (if k = ''active'' then y = e \<or> has_class k (tb_class s y) \<and> y \<noteq> x
        else if k = ''fade'' then has_class k (tb_class s y) \<and> y \<noteq> e
        else has_class k (tb_class s y))" for k y
    using assms(1,3) m by (auto simp: run_next_def Let_def fold_remove css_simps split: option.split)
  show "tb_waiting (tab_activate d (Some e) c report s) = tb_waiting s" unfolding eq by (simp add: fold_remove w)
  show "has_class k (tb_class (tab_activate d (Some e) c report s) y) \<longleftrightarrow>
       (if k = ''active'' then y = e \<or> has_class k (tb_class s y) \<and> y \<noteq> x
        else if k = ''in'' then has_class k (tb_class s y) \<and> y \<noteq> x
        else if k = ''fade'' then has_class k (tb_class s y) \<and> y \<noteq> e
        else has_class k (tb_class s y))"
    unfolding eq by (simp add: fold_remove h assms(1))
qed


lemma active_row:
  assumes "tc_children d c = map f tabs" and "inj_on f (set tabs)" and "a \<in> set tabs"
    and "\<forall>b \<in> set tabs. has_class ''active'' (tb_class s (f b)) \<longleftrightarrow> b = a"
  shows "set (active_children d (Some c) s) = {f a}"
  using one_active [OF assms(2,3), of "\<lambda>y. has_class ''active'' (tb_class s y)"] assms(1,4) by (simp add: active_children_def)

lemma click_moves:
  assumes "tab_row d tabs ul box item pane" and "only_tab tabs item pane a s" and "b \<in> set tabs"
  shows "only_tab tabs item pane (if p then a else b) (show_tab d p b s)"
proof -
  have row: "tc_children d ul = map item tabs" "tc_children d box = map pane tabs" "inj_on item (set tabs)" "inj_on pane (set tabs)"
    "item ` set tabs \<inter> pane ` set tabs = {}"
    using assms(1) unfolding tab_row_def by blast+
  have el: "\<And>x. x \<in> set tabs \<Longrightarrow> tc_item d x = Some (item x) \<and> tc_parent_item d x = Some (item x) \<and> tc_list d x = Some ul \<and>
        tc_target d x = Some (pane x) \<and> tc_parent d (pane x) = Some box \<and> tc_dropdown d (item x) = None \<and> tc_dropdown d (pane x) = None \<and>
        tc_menu d (item x) = [] \<and> tc_menu d (pane x) = []"
    using assms(1) unfolding tab_row_def by blast
  have o: "a \<in> set tabs" "tb_waiting s = []"
    "\<And>x. x \<in> set tabs \<Longrightarrow> has_class ''active'' (tb_class s (item x)) \<longleftrightarrow> x = a"
    "\<And>x. x \<in> set tabs \<Longrightarrow> has_class ''active'' (tb_class s (pane x)) \<longleftrightarrow> x = a"
    "\<And>x. x \<in> set tabs \<Longrightarrow> \<not> has_class ''fade'' (tb_class s (pane x))"
    using assms(2) unfolding only_tab_def by blast+
  show ?thesis
  proof (cases "b = a \<or> p")
    case True
    have "only_tab tabs item pane a (tab_tell n s)" for n using assms(2) by (simp add: only_tab_def)
    moreover have "show_tab d p b s = (if b = a then s else tab_tell (Tab_Show b) s)"
      using True el [OF assms(3)] o(3) [OF assms(3)] by (cases "b = a") (simp_all add: show_tab_def Let_def)
    moreover have "(if p then a else b) = a" using True by auto
    ultimately show ?thesis using assms(2) by (cases "b = a") simp_all
  next
    case False
    let ?s = "tab_tell (Tab_Show b) s"
    define t where "t = tab_activate d (Some (item b)) (Some ul) None ?s"
    have "set (active_children d (Some ul) ?s) = {item a}" by (rule active_row [OF row(1,3) o(1)]) (use o in simp)
    note i = activate_now [OF this, of None "item b", folded t_def]
    have ti: "tb_waiting t = []" "has_class ''active'' (tb_class t (item x)) \<longleftrightarrow> x = b"
      "has_class ''active'' (tb_class t (pane x)) \<longleftrightarrow> x = a" "\<not> has_class ''fade'' (tb_class t (pane x))" if "x \<in> set tabs" for x
    proof -
      have "pane x \<noteq> item y" if "y \<in> set tabs" for y using row(5) \<open>x \<in> set tabs\<close> that by auto
      moreover have "item x = item y \<longleftrightarrow> x = y" if "y \<in> set tabs" for y using row(3) \<open>x \<in> set tabs\<close> that by (auto simp: inj_on_def)
      ultimately show "tb_waiting t = []" "has_class ''active'' (tb_class t (item x)) \<longleftrightarrow> x = b"
        "has_class ''active'' (tb_class t (pane x)) \<longleftrightarrow> x = a" "\<not> has_class ''fade'' (tb_class t (pane x))"
        using i el [OF o(1)] el [OF assms(3)] o that assms(3) by auto
    qed
    have "set (active_children d (Some box) t) = {pane a}" by (rule active_row [OF row(2,4) o(1)]) (use ti in simp)
    note q = activate_now [OF this, of "Some b" "pane b"]
    have "show_tab d p b s = tab_activate d (Some (pane b)) (Some box) (Some b) t"
      using False el [OF assms(3)] o(3) [OF assms(3)] by (simp add: show_tab_def t_def Let_def)
    moreover have "has_class ''active'' (tb_class (tab_activate d (Some (pane b)) (Some box) (Some b) t) (item x)) \<longleftrightarrow> x = b"
      "has_class ''active'' (tb_class (tab_activate d (Some (pane b)) (Some box) (Some b) t) (pane x)) \<longleftrightarrow> x = b"
      "\<not> has_class ''fade'' (tb_class (tab_activate d (Some (pane b)) (Some box) (Some b) t) (pane x))" if "x \<in> set tabs" for x
    proof -
      have "item x \<noteq> pane y" if "y \<in> set tabs" for y using row(5) \<open>x \<in> set tabs\<close> that by auto
      moreover have "pane x = pane y \<longleftrightarrow> x = y" if "y \<in> set tabs" for y using row(4) \<open>x \<in> set tabs\<close> that by (auto simp: inj_on_def)
      ultimately show "has_class ''active'' (tb_class (tab_activate d (Some (pane b)) (Some box) (Some b) t) (item x)) \<longleftrightarrow> x = b"
        "has_class ''active'' (tb_class (tab_activate d (Some (pane b)) (Some box) (Some b) t) (pane x)) \<longleftrightarrow> x = b"
        "\<not> has_class ''fade'' (tb_class (tab_activate d (Some (pane b)) (Some box) (Some b) t) (pane x))"
        using q ti [OF that] ti [OF o(1)] el [OF o(1)] el [OF assms(3)] that assms(3) o(1) by auto
    qed
    moreover have "tb_waiting (tab_activate d (Some (pane b)) (Some box) (Some b) t) = []" using q(1) ti [OF o(1)] el [OF o(1)] el [OF assms(3)] by simp
    ultimately show ?thesis using False assms(3) by (simp add: only_tab_def)
  qed
qed

definition last_shown :: "nat \<Rightarrow> (nat \<times> bool) list \<Rightarrow> nat" where
  "last_shown a cs = fold (\<lambda>(b, p) c. if p then c else b) cs a"

text \<open>In a row of tabs whose panes do not fade, as on the page of the administrator, exactly one tab and its pane are active after
  any clicks: those of the last click no handler prevented.\<close>

theorem one_pane_shown:
  assumes "tab_row d tabs ul box item pane" and "only_tab tabs item pane a s" and "fst ` set cs \<subseteq> set tabs"
    and "t = tab_run d (map (\<lambda>(b, p). Tab_Click b p) cs) s"
  shows "filter (\<lambda>x. has_class ''active'' (tb_class t x)) (tc_children d ul) = [x\<leftarrow>map item tabs. x = item (last_shown a cs)] \<and>
    filter (\<lambda>x. has_class ''active'' (tb_class t x)) (tc_children d box) = [x\<leftarrow>map pane tabs. x = pane (last_shown a cs)] \<and>
    last_shown a cs \<in> set tabs"
proof -
  have o: "only_tab tabs item pane (last_shown a cs) t"
    unfolding assms(4) using assms(2,3)
  proof (induction cs arbitrary: a s)
    case (Cons bp cs)
    obtain b p where bp: "bp = (b, p)" by fastforce
    have "only_tab tabs item pane (if p then a else b) (show_tab d p b s)" by (rule click_moves [OF assms(1) Cons.prems(1)]) (use Cons.prems(2) bp in simp)
    then show ?case using Cons bp by (simp add: tab_run_def last_shown_def)
  qed (simp add: tab_run_def last_shown_def)
  have "filter (\<lambda>x. has_class ''active'' (tb_class t x)) (map f tabs) = filter (\<lambda>x. x = f (last_shown a cs)) (map f tabs)"
    if "inj_on f (set tabs)" "\<And>b. b \<in> set tabs \<Longrightarrow> has_class ''active'' (tb_class t (f b)) \<longleftrightarrow> b = last_shown a cs" for f
    by (rule filter_cong) (use that o in \<open>auto simp: only_tab_def inj_on_def\<close>)
  then show ?thesis using o assms(1) by (simp add: tab_row_def only_tab_def)
qed


section \<open>The tabs of the administrator\<close>

definition admin_tabs :: tab_doc where
  "admin_tabs =
     \<lparr>tc_item = (\<lambda>a. Some (a + 10)), tc_parent_item = (\<lambda>a. Some (a + 10)), tc_list = (\<lambda>_. Some 40), tc_target = (\<lambda>a. Some (a + 20)),
      tc_parent = (\<lambda>_. Some 50), tc_children = (\<lambda>c. if c = 40 then [11, 12, 13] else if c = 50 then [21, 22, 23] else []),
      tc_menu = (\<lambda>_. []), tc_dropdown = (\<lambda>_. None), tc_transition = True\<rparr>"

definition admin_page :: "css \<Rightarrow> tab_page" where
  "admin_page cs =
     \<lparr>tb_class = (\<lambda>x. if x = 11 then [''active''] else if x = 21 then ''active'' # cs else if x = 22 \<or> x = 23 then cs else []),
      tb_waiting = [], tb_timers = [], tb_called = [], tb_next = 0, tb_log = []\<rparr>"

lemma admin_row: "tab_row admin_tabs [1, 2, 3] 40 50 (\<lambda>a. a + 10) (\<lambda>a. a + 20)"
  by (simp add: tab_row_def admin_tabs_def)

theorem one_pane_shown_witness:
  "filter (\<lambda>x. has_class ''active'' (tb_class (tab_run admin_tabs [Tab_Click 2 False, Tab_Click 3 False, Tab_Click 1 True] (admin_page [])) x))
     [21, 22, 23] = [23]"
proof -
  have "only_tab [1, 2, 3] (\<lambda>a. a + 10) (\<lambda>a. a + 20) 1 (admin_page [])" by (simp add: only_tab_def admin_page_def has_class_def)
  then show ?thesis
    using one_pane_shown [OF admin_row, of 1 "admin_page []" "[(2, False), (3, False), (1, True)]"
        "tab_run admin_tabs [Tab_Click 2 False, Tab_Click 3 False, Tab_Click 1 True] (admin_page [])"]
    by (simp add: admin_tabs_def last_shown_def)
qed

text \<open>With panes that fade, a second click while the first pane still fades makes both new panes active at the end.\<close>

lemma two_panes_shown:
  "filter (\<lambda>x. has_class ''active'' (tb_class (tab_run admin_tabs [Tab_Click 2 False, Tab_Click 3 False, Tab_Timer 0] (admin_page [''fade''])) x))
     [21, 22, 23] = [22, 23]"
  by code_simp

end
