(* ===== verification/Tooltips.thy ===== *)
theory Tooltips
  imports Text_Markup
begin

text \<open>
  The tooltip of jQuery UI in the deployed bundle, which the application puts on the whole document (\<open>$(document).tooltip\<close> in
  \<open>users.js.coffee\<close>): what opens and closes tooltips, where the titles of elements go meanwhile, the descriptions for
  readers of the screen, and the handlers bound at the element of a tooltip. \<open>tc_content\<close> is the option \<open>content\<close>, which
  here answers at once. Position, tracking of the mouse, the delay before showing and switching the widget off are not modelled.
\<close>

section \<open>The page\<close>

record tip_config =
  tc_above :: "nat \<Rightarrow> nat list"
  tc_skip :: "nat \<Rightarrow> bool"
  tc_content :: "nat \<Rightarrow> string option \<Rightarrow> string"
  tc_animated :: bool

datatype tip_handler = Close_On_Leave | Close_On_Blur | Close_On_Escape | Drop_On_Removal

record tip_data =
  tp_element :: nat
  tp_closing :: bool

record tip_page =
  tt_title :: "nat \<Rightarrow> string option"
  tt_saved :: "nat \<Rightarrow> string option"
  tt_id :: "nat \<Rightarrow> nat option"
  tt_open :: "nat \<Rightarrow> bool"
  tt_described :: "nat \<Rightarrow> string list"
  tt_bound :: "nat \<Rightarrow> tip_handler list"
  tt_tips :: "(nat \<times> tip_data) list"
  tt_parents :: "(nat \<times> string) list"
  tt_shown :: "(nat \<times> string) list"
  tt_fading :: "nat list"
  tt_live :: "string list"
  tt_next :: nat

definition tip_name :: "nat \<Rightarrow> string" where
  "tip_name n = ''ui-id-'' @ nat_to_string n"

definition has_text :: "string option \<Rightarrow> bool" where
  "has_text a \<longleftrightarrow> (case a of None \<Rightarrow> False | Some t \<Rightarrow> t \<noteq> [])"

definition set_title :: "nat \<Rightarrow> string option \<Rightarrow> tip_page \<Rightarrow> tip_page" where
  "set_title x t s = s\<lparr>tt_title := (tt_title s)(x := t)\<rparr>"

definition add_described_by :: "nat \<Rightarrow> nat \<Rightarrow> tip_page \<Rightarrow> tip_page" where
  "add_described_by x n s =
     s\<lparr>tt_described := (tt_described s)(x := tt_described s x @ [tip_name n]), tt_id := (tt_id s)(x := Some n)\<rparr>"

definition remove_described_by :: "nat \<Rightarrow> tip_page \<Rightarrow> tip_page" where
  "remove_described_by x s =
     s\<lparr>tt_described := (tt_described s)(x := (case tt_id s x of Some n \<Rightarrow> remove1 (tip_name n) (tt_described s x) | None \<Rightarrow> tt_described s x)),
       tt_id := (tt_id s)(x := None)\<rparr>"

definition find_tip :: "nat \<Rightarrow> tip_page \<Rightarrow> (nat \<times> tip_data) option" where
  "find_tip x s =
     (case tt_id s x of
        None \<Rightarrow> None
      | Some n \<Rightarrow> (case map_of (tt_tips s) n of None \<Rightarrow> None | Some t \<Rightarrow> Some (n, t)))"

definition remove_tooltip :: "nat \<Rightarrow> tip_page \<Rightarrow> tip_page" where
  "remove_tooltip n s =
     s\<lparr>tt_shown := filter (\<lambda>(m, c). m \<noteq> n) (tt_shown s), tt_tips := filter (\<lambda>(m, t). m \<noteq> n) (tt_tips s),
       tt_fading := filter (\<lambda>m. m \<noteq> n) (tt_fading s)\<rparr>"

section \<open>Closing\<close>

datatype close_cause = By_Mouse_Leave | By_Blur | By_Key

definition restore_parents :: "tip_page \<Rightarrow> tip_page" where
  "restore_parents s = (fold (\<lambda>(p, t). set_title p (Some t)) (tt_parents s) s)\<lparr>tt_parents := []\<rparr>"

definition close_tip :: "tip_config \<Rightarrow> close_cause \<Rightarrow> nat \<Rightarrow> tip_page \<Rightarrow> tip_page" where
  "close_tip w cause x s =
     (case find_tip x s of
        None \<Rightarrow> s
      | Some (n, t) \<Rightarrow>
          if tp_closing t then s
          else
            let s1 = (if has_text (tt_saved s x) \<and> \<not> has_text (tt_title s x) then set_title x (tt_saved s x) s else s);
                s2 = remove_described_by x s1;
                s3 = (if tc_animated w
                      then s2\<lparr>tt_fading := tt_fading s2 @ [n], tt_tips := map (\<lambda>(m, u). if m = n then (m, u\<lparr>tp_closing := True\<rparr>) else (m, u)) (tt_tips s2)\<rparr>
                      else remove_tooltip n s2);
                s4 = s3\<lparr>tt_open := (tt_open s3)(x := False), tt_bound := (tt_bound s3)(x := [])\<rparr>
            in if cause = By_Mouse_Leave then restore_parents s4 else s4)"

section \<open>Opening\<close>

datatype open_cause = By_Mouse_Over | By_Focus

text \<open>A parent's own tooltip is closed and its title put aside.\<close>

definition quiet_parent :: "tip_config \<Rightarrow> nat \<Rightarrow> tip_page \<Rightarrow> tip_page" where
  "quiet_parent w p s =
     (let s1 = (if tt_open s p then close_tip w By_Blur p s else s)
      in case tt_title s1 p of
           Some t \<Rightarrow> if t = [] then s1 else set_title p (Some []) (s1\<lparr>tt_parents := (p, t) # filter (\<lambda>(q, u). q \<noteq> p) (tt_parents s1)\<rparr>)
         | None \<Rightarrow> s1)"

definition open_content :: "open_cause \<Rightarrow> nat \<Rightarrow> string \<Rightarrow> tip_page \<Rightarrow> tip_page" where
  "open_content cause x content s =
     (if content = [] then s
      else
        case find_tip x s of
          Some (n, t) \<Rightarrow> s\<lparr>tt_shown := map (\<lambda>(m, c). if m = n then (m, content) else (m, c)) (tt_shown s)\<rparr>
        | None \<Rightarrow>
            let s1 = (if tt_title s x = None then s else set_title x (if cause = By_Mouse_Over then Some [] else None) s);
                n = tt_next s1;
                s2 = add_described_by x n
                       (s1\<lparr>tt_tips := (n, \<lparr>tp_element = x, tp_closing = False\<rparr>) # tt_tips s1, tt_shown := tt_shown s1 @ [(n, content)],
                           tt_next := Suc n\<rparr>);
                s3 = s2\<lparr>tt_live := tt_live s2 @ [content]\<rparr>
            in s3\<lparr>tt_bound := (tt_bound s3)
                    (x := tt_bound s3 x @ [Close_On_Escape, Drop_On_Removal] @
                       (if cause = By_Mouse_Over then [Close_On_Leave] else [Close_On_Blur]))\<rparr>)"

definition tip_target :: "tip_config \<Rightarrow> nat \<Rightarrow> tip_page \<Rightarrow> nat option" where
  "tip_target w x s = find (\<lambda>y. tt_title s y \<noteq> None \<and> \<not> tc_skip w y) (x # tc_above w x)"

definition open_tip :: "tip_config \<Rightarrow> open_cause \<Rightarrow> nat \<Rightarrow> tip_page \<Rightarrow> tip_page" where
  "open_tip w cause x s =
     (case tip_target w x s of
        None \<Rightarrow> s
      | Some t \<Rightarrow>
          if tt_id s t \<noteq> None then s
          else
            let s1 = (if has_text (tt_title s t) then s\<lparr>tt_saved := (tt_saved s)(t := tt_title s t)\<rparr> else s);
                s2 = s1\<lparr>tt_open := (tt_open s1)(t := True)\<rparr>;
                s3 = (if cause = By_Mouse_Over then fold (quiet_parent w) (tc_above w t) s2 else s2)
            in open_content cause t (tc_content w t (tt_title s3 t)) s3)"

section \<open>Events\<close>

text \<open>The events that reach an element with a tooltip, the end of a fade and the removal of an element.\<close>

datatype tip_event =
  Mouse_Over nat | Focus_In nat | Mouse_Leaves nat | Focus_Out nat | Key_At nat nat | Fade_Ends nat | Element_Removed nat

definition drop_element :: "nat \<Rightarrow> tip_page \<Rightarrow> tip_page" where
  "drop_element x s =
     (let s1 = (case tt_id s x of
                  Some n \<Rightarrow> if Drop_On_Removal \<in> set (tt_bound s x) then remove_tooltip n s else s
                | None \<Rightarrow> s)
      in s1\<lparr>tt_title := (tt_title s1)(x := None), tt_saved := (tt_saved s1)(x := None), tt_id := (tt_id s1)(x := None),
            tt_open := (tt_open s1)(x := False), tt_bound := (tt_bound s1)(x := [])\<rparr>)"

fun tip_step :: "tip_config \<Rightarrow> tip_event \<Rightarrow> tip_page \<Rightarrow> tip_page" where
  "tip_step w (Mouse_Over x) s = open_tip w By_Mouse_Over x s"
| "tip_step w (Focus_In x) s = open_tip w By_Focus x s"
| "tip_step w (Mouse_Leaves x) s = (if Close_On_Leave \<in> set (tt_bound s x) then close_tip w By_Mouse_Leave x s else s)"
| "tip_step w (Focus_Out x) s = (if Close_On_Blur \<in> set (tt_bound s x) then close_tip w By_Blur x s else s)"
| "tip_step w (Key_At x k) s = (if k = 27 \<and> Close_On_Escape \<in> set (tt_bound s x) then close_tip w By_Key x s else s)"
| "tip_step w (Fade_Ends n) s = (if n \<in> set (tt_fading s) then remove_tooltip n s else s)"
| "tip_step w (Element_Removed x) s = drop_element x s"

definition tip_run :: "tip_config \<Rightarrow> tip_event list \<Rightarrow> tip_page \<Rightarrow> tip_page" where
  "tip_run w es s = fold (tip_step w) es s"

definition fresh_tips :: "(nat \<Rightarrow> string option) \<Rightarrow> tip_page" where
  "fresh_tips titles =
     \<lparr>tt_title = titles, tt_saved = (\<lambda>_. None), tt_id = (\<lambda>_. None), tt_open = (\<lambda>_. False), tt_described = (\<lambda>_. []),
      tt_bound = (\<lambda>_. []), tt_tips = [], tt_parents = [], tt_shown = [], tt_fading = [], tt_live = [], tt_next = 1\<rparr>"

text \<open>The option \<open>content\<close>: the default, and the one of the application.\<close>

definition default_content :: "nat \<Rightarrow> string option \<Rightarrow> string" where
  "default_content x t = escape_text (case t of Some u \<Rightarrow> u | None \<Rightarrow> [])"

definition app_content :: "nat \<Rightarrow> string option \<Rightarrow> string" where
  "app_content x t = (case t of Some u \<Rightarrow> u | None \<Rightarrow> [])"


section \<open>Where the titles are\<close>

text \<open>\<open>T\<close> gives the titles of the page as it came, \<open>K\<close> the elements that stay in it. A title is at its element, with the tooltip
  that is open for it, or put aside for a tooltip further inside.\<close>

definition title_kept :: "(nat \<Rightarrow> string option) \<Rightarrow> tip_page \<Rightarrow> nat \<Rightarrow> bool" where
  "title_kept T s x \<longleftrightarrow>
     (\<forall>t. T x = Some t \<and> t \<noteq> [] \<longrightarrow>
        tt_title s x = Some t \<or> (tt_id s x \<noteq> None \<and> tt_saved s x = Some t) \<or> (x, t) \<in> set (tt_parents s))"

definition ids_ok :: "tip_page \<Rightarrow> bool" where
  "ids_ok s \<longleftrightarrow>
     (\<forall>x n. tt_id s x = Some n \<longrightarrow> (\<exists>d. map_of (tt_tips s) n = Some d \<and> tp_element d = x \<and> \<not> tp_closing d) \<and> n < tt_next s \<and>
        n \<notin> set (tt_fading s))"

definition texts_ok :: "(nat \<Rightarrow> string option) \<Rightarrow> tip_page \<Rightarrow> bool" where
  "texts_ok T s \<longleftrightarrow>
     (\<forall>x t. tt_saved s x = Some t \<longrightarrow> T x = Some t \<and> t \<noteq> []) \<and> (\<forall>(p, t) \<in> set (tt_parents s). T p = Some t) \<and>
     (\<forall>x t. tt_title s x = Some t \<and> t \<noteq> [] \<longrightarrow> T x = Some t) \<and>
     (\<forall>n \<in> set (tt_fading s). n < tt_next s)"

definition tip_inv :: "(nat \<Rightarrow> string option) \<Rightarrow> nat set \<Rightarrow> tip_page \<Rightarrow> bool" where
  "tip_inv T K s \<longleftrightarrow> ids_ok s \<and> texts_ok T s \<and> (\<forall>x \<in> K. title_kept T s x)"

lemma find_open: "ids_ok s \<Longrightarrow> tt_id s x = Some n \<Longrightarrow> \<exists>d. find_tip x s = Some (n, d) \<and> \<not> tp_closing d"
  by (fastforce simp: ids_ok_def find_tip_def)

lemma find_none: "ids_ok s \<Longrightarrow> find_tip x s = None \<longleftrightarrow> tt_id s x = None"
  using find_open [of s x] by (cases "tt_id s x") (auto simp: find_tip_def)

lemma same_id: "ids_ok s \<Longrightarrow> tt_id s x = Some n \<Longrightarrow> tt_id s y = Some n \<Longrightarrow> x = y"
proof -
  assume a: "ids_ok s" "tt_id s x = Some n" "tt_id s y = Some n"
  obtain d e where "map_of (tt_tips s) n = Some d" "tp_element d = x" "map_of (tt_tips s) n = Some e" "tp_element e = y"
    using a unfolding ids_ok_def by meson
  then show "x = y" by simp
qed

lemma map_of_marked:
  "map_of (map (\<lambda>(m, u). if m = n then (m, f u) else (m, u)) ps) k = (if k = n then map_option f (map_of ps k) else map_of ps k)"
  by (induction ps) auto

lemma map_of_others: "k \<noteq> n \<Longrightarrow> map_of (filter (\<lambda>(m, u). m \<noteq> n) ps) k = map_of ps k"
  by (induction ps) auto

lemma set_title_frame [simp]:
  "tt_id (set_title x t s) = tt_id s" "tt_tips (set_title x t s) = tt_tips s" "tt_saved (set_title x t s) = tt_saved s"
  "tt_parents (set_title x t s) = tt_parents s" "tt_fading (set_title x t s) = tt_fading s" "tt_next (set_title x t s) = tt_next s"
  "tt_title (set_title x t s) = (tt_title s)(x := t)" "tt_bound (set_title x t s) = tt_bound s" "tt_open (set_title x t s) = tt_open s"
  by (simp_all add: set_title_def)

lemma restored:
  "tt_id (restore_parents s) = tt_id s" "tt_tips (restore_parents s) = tt_tips s" "tt_saved (restore_parents s) = tt_saved s"
  "tt_parents (restore_parents s) = []" "tt_fading (restore_parents s) = tt_fading s" "tt_next (restore_parents s) = tt_next s"
  "(\<exists>t. (y, t) \<in> set (tt_parents s) \<and> tt_title (restore_parents s) y = Some t) \<or>
     y \<notin> fst ` set (tt_parents s) \<and> tt_title (restore_parents s) y = tt_title s y"
proof -
  have f: "tt_id (fold (\<lambda>(p, t). set_title p (Some t)) ps u) = tt_id u \<and> tt_tips (fold (\<lambda>(p, t). set_title p (Some t)) ps u) = tt_tips u \<and>
    tt_saved (fold (\<lambda>(p, t). set_title p (Some t)) ps u) = tt_saved u \<and> tt_fading (fold (\<lambda>(p, t). set_title p (Some t)) ps u) = tt_fading u \<and>
    tt_next (fold (\<lambda>(p, t). set_title p (Some t)) ps u) = tt_next u" for ps u
    by (induction ps arbitrary: u) auto
  have t: "(\<exists>t. (y, t) \<in> set ps \<and> tt_title (fold (\<lambda>(p, t). set_title p (Some t)) ps u) y = Some t) \<or>
     y \<notin> fst ` set ps \<and> tt_title (fold (\<lambda>(p, t). set_title p (Some t)) ps u) y = tt_title u y" for ps u
  proof (induction ps arbitrary: u)
    case (Cons a ps)
    obtain p t where a: "a = (p, t)" by fastforce
    show ?case using Cons [of "set_title p (Some t) u"] unfolding a by (cases "y = p") auto
  qed simp
  show "tt_id (restore_parents s) = tt_id s" "tt_tips (restore_parents s) = tt_tips s" "tt_saved (restore_parents s) = tt_saved s"
    "tt_parents (restore_parents s) = []" "tt_fading (restore_parents s) = tt_fading s" "tt_next (restore_parents s) = tt_next s"
    using f by (simp_all add: restore_parents_def)
  show "(\<exists>t. (y, t) \<in> set (tt_parents s) \<and> tt_title (restore_parents s) y = Some t) \<or>
     y \<notin> fst ` set (tt_parents s) \<and> tt_title (restore_parents s) y = tt_title s y"
    using t [of "tt_parents s" s] by (simp add: restore_parents_def)
qed

lemma inv_restore: "tip_inv T K s \<Longrightarrow> tip_inv T K (restore_parents s)"
proof -
  assume i: "tip_inv T K s"
  have "ids_ok (restore_parents s)" using i by (simp add: tip_inv_def ids_ok_def restored)
  moreover have "T x = Some t" if "tt_title (restore_parents s) x = Some t" "t \<noteq> []" for x t
  proof -
    have p: "\<And>u. (x, u) \<in> set (tt_parents s) \<Longrightarrow> T x = Some u" and q: "tt_title s x = Some t \<Longrightarrow> T x = Some t"
      using i that(2) unfolding tip_inv_def texts_ok_def by blast+
    show ?thesis using restored(7) [of x s] p q that(1) by auto
  qed
  then have "texts_ok T (restore_parents s)" using i by (auto simp: tip_inv_def texts_ok_def restored)
  moreover have "title_kept T (restore_parents s) x" if "x \<in> K" for x
    unfolding title_kept_def
  proof (intro allI impI)
    fix t assume t: "T x = Some t \<and> t \<noteq> []"
    have p: "\<And>u. (x, u) \<in> set (tt_parents s) \<Longrightarrow> T x = Some u" using i unfolding tip_inv_def texts_ok_def by blast
    have old: "tt_title s x = Some t \<or> (tt_id s x \<noteq> None \<and> tt_saved s x = Some t) \<or> (x, t) \<in> set (tt_parents s)"
      using i that t unfolding tip_inv_def title_kept_def by blast
    consider u where "(x, u) \<in> set (tt_parents s)" "tt_title (restore_parents s) x = Some u"
      | "x \<notin> fst ` set (tt_parents s)" "tt_title (restore_parents s) x = tt_title s x" using restored(7) [of x s] by blast
    then show "tt_title (restore_parents s) x = Some t \<or> (tt_id (restore_parents s) x \<noteq> None \<and> tt_saved (restore_parents s) x = Some t) \<or>
        (x, t) \<in> set (tt_parents (restore_parents s))"
    proof cases
      case 1
      then show ?thesis using p [of u] t by simp
    next
      case 2
      then have "(x, t) \<notin> set (tt_parents s)" by force
      then show ?thesis using old 2(2) by (auto simp: restored(1,3))
    qed
  qed
  ultimately show ?thesis by (simp add: tip_inv_def)
qed

text \<open>Closing, before the parents have their titles back.\<close>

lemma close_tip_eq:
  assumes "ids_ok s" and "tt_id s x = Some n"
  obtains u where "close_tip w c x s = (if c = By_Mouse_Leave then restore_parents u else u)"
    "tt_id u = (tt_id s)(x := None)" "tt_saved u = tt_saved s" "tt_parents u = tt_parents s" "tt_next u = tt_next s"
    "tt_title u = (if has_text (tt_saved s x) \<and> \<not> has_text (tt_title s x) then (tt_title s)(x := tt_saved s x) else tt_title s)"
    "\<forall>k. k \<noteq> n \<longrightarrow> map_of (tt_tips u) k = map_of (tt_tips s) k" "set (tt_fading u) \<subseteq> insert n (set (tt_fading s))"
    "\<forall>y. y \<noteq> x \<longrightarrow> tt_bound u y = tt_bound s y"
proof -
  obtain d where d: "find_tip x s = Some (n, d)" "\<not> tp_closing d" using find_open [OF assms] by blast
  let ?s1 = "if has_text (tt_saved s x) \<and> \<not> has_text (tt_title s x) then set_title x (tt_saved s x) s else s"
  let ?s2 = "remove_described_by x ?s1"
  let ?s3 = "if tc_animated w
    then ?s2\<lparr>tt_fading := tt_fading ?s2 @ [n], tt_tips := map (\<lambda>(m, u). if m = n then (m, u\<lparr>tp_closing := True\<rparr>) else (m, u)) (tt_tips ?s2)\<rparr>
    else remove_tooltip n ?s2"
  let ?u = "?s3\<lparr>tt_open := (tt_open ?s3)(x := False), tt_bound := (tt_bound ?s3)(x := [])\<rparr>"
  have "close_tip w c x s = (if c = By_Mouse_Leave then restore_parents ?u else ?u)" using d by (simp add: close_tip_def Let_def)
  moreover have "tt_id ?u = (tt_id s)(x := None)" "tt_saved ?u = tt_saved s" "tt_parents ?u = tt_parents s" "tt_next ?u = tt_next s"
    "tt_title ?u = (if has_text (tt_saved s x) \<and> \<not> has_text (tt_title s x) then (tt_title s)(x := tt_saved s x) else tt_title s)"
    by (simp_all add: remove_described_by_def remove_tooltip_def)
  moreover have "\<forall>k. k \<noteq> n \<longrightarrow> map_of (tt_tips ?u) k = map_of (tt_tips s) k"
    by (simp add: remove_described_by_def remove_tooltip_def map_of_marked map_of_others)
  moreover have "set (tt_fading ?u) \<subseteq> insert n (set (tt_fading s))" by (auto simp: remove_described_by_def remove_tooltip_def)
  moreover have "\<forall>y. y \<noteq> x \<longrightarrow> tt_bound ?u y = tt_bound s y" by (simp add: remove_described_by_def remove_tooltip_def)
  ultimately show thesis by (rule that)
qed


lemma inv_close:
  assumes "tip_inv T K s"
  shows "tip_inv T K (close_tip w c x s)"
proof (cases "tt_id s x")
  case None
  then show ?thesis using assms find_none [of s x] by (simp add: close_tip_def tip_inv_def)
next
  case (Some n)
  have ids: "ids_ok s" and tx: "texts_ok T s" and kept: "\<And>y. y \<in> K \<Longrightarrow> title_kept T s y" using assms by (simp_all add: tip_inv_def)
  obtain u where u: "close_tip w c x s = (if c = By_Mouse_Leave then restore_parents u else u)"
    "tt_id u = (tt_id s)(x := None)" "tt_saved u = tt_saved s" "tt_parents u = tt_parents s" "tt_next u = tt_next s"
    "tt_title u = (if has_text (tt_saved s x) \<and> \<not> has_text (tt_title s x) then (tt_title s)(x := tt_saved s x) else tt_title s)"
    "\<forall>k. k \<noteq> n \<longrightarrow> map_of (tt_tips u) k = map_of (tt_tips s) k" "set (tt_fading u) \<subseteq> insert n (set (tt_fading s))"
    "\<forall>y. y \<noteq> x \<longrightarrow> tt_bound u y = tt_bound s y"
    by (rule close_tip_eq [OF ids Some, of w c]) blast
  have n: "n < tt_next s" using ids Some by (auto simp: ids_ok_def)
  have other: "k \<noteq> n" if "tt_id u y = Some k" for y k using same_id [OF ids Some, of y] that u(2) by (auto split: if_splits)
  have "ids_ok u" unfolding ids_ok_def
  proof (intro allI impI)
    fix y k assume y: "tt_id u y = Some k"
    then have "tt_id s y = Some k" "k \<noteq> n" using u(2) other by (auto split: if_splits)
    then show "(\<exists>d. map_of (tt_tips u) k = Some d \<and> tp_element d = y \<and> \<not> tp_closing d) \<and> k < tt_next u \<and> k \<notin> set (tt_fading u)"
      using ids u(5,7,8) unfolding ids_ok_def by (metis insert_iff subsetD)
  qed
  moreover have "texts_ok T u"
  proof -
    have sv: "\<And>y t. tt_saved s y = Some t \<Longrightarrow> T y = Some t" and ti: "\<And>y t. tt_title s y = Some t \<Longrightarrow> t \<noteq> [] \<Longrightarrow> T y = Some t"
      using tx unfolding texts_ok_def by blast+
    have "T y = Some t" if "tt_title u y = Some t" "t \<noteq> []" for y t
      using that sv [of y t] ti [of y t] u(6) by (auto split: if_splits)
    moreover have "\<forall>k \<in> set (tt_fading u). k < tt_next u" using tx n u(5,8) by (auto simp: texts_ok_def)
    ultimately show ?thesis using tx u(3,4) by (auto simp: texts_ok_def)
  qed
  moreover have "title_kept T u y" if "y \<in> K" for y
  proof (cases "y = x")
    case True
    have "tt_title u x = Some t" if "tt_saved s x = Some t" "t \<noteq> []" "T x = Some t" for t
    proof (cases "has_text (tt_title s x)")
      case True
      then obtain r where r: "tt_title s x = Some r" "r \<noteq> []" by (auto simp: has_text_def split: option.splits)
      then have "T x = Some r" using tx unfolding texts_ok_def by blast
      then show ?thesis using r that(3) True u(6) by simp
    qed (use that u(6) in \<open>simp add: has_text_def\<close>)
    moreover have "tt_title u x = Some t" if "tt_title s x = Some t" "t \<noteq> []" for t using that u(6) by (simp add: has_text_def)
    ultimately show ?thesis using kept [OF \<open>y \<in> K\<close>] u(4) unfolding True title_kept_def by metis
  next
    case False
    then show ?thesis using kept [OF that] u(2,3,4,6) by (auto simp: title_kept_def)
  qed
  ultimately have "tip_inv T K u" by (simp add: tip_inv_def)
  then show ?thesis using inv_restore u(1) by simp
qed

lemma tips_inv_frame:
  assumes "tt_title t = tt_title s" and "tt_saved t = tt_saved s" and "tt_id t = tt_id s" and "tt_tips t = tt_tips s"
    and "tt_parents t = tt_parents s" and "tt_fading t = tt_fading s" and "tt_next t = tt_next s"
  shows "tip_inv T K t = tip_inv T K s"
  using assms by (simp add: tip_inv_def ids_ok_def texts_ok_def title_kept_def)

lemma inv_quiet:
  assumes "tip_inv T K s"
  shows "tip_inv T K (quiet_parent w p s)"
proof -
  define s1 where "s1 = (if tt_open s p then close_tip w By_Blur p s else s)"
  have i: "tip_inv T K s1" using inv_close [OF assms] assms by (simp add: s1_def)
  show ?thesis
  proof (cases "has_text (tt_title s1 p)")
    case True
    then obtain t where t: "tt_title s1 p = Some t" "t \<noteq> []" by (auto simp: has_text_def split: option.splits)
    let ?u = "set_title p (Some []) (s1\<lparr>tt_parents := (p, t) # filter (\<lambda>(q, u). q \<noteq> p) (tt_parents s1)\<rparr>)"
    have tp: "T p = Some t" using i t by (simp add: tip_inv_def texts_ok_def)
    have "title_kept T ?u y" if "y \<in> K" for y
      using i that tp by (cases "y = p") (auto simp: tip_inv_def title_kept_def)
    moreover have "texts_ok T ?u" using i tp by (auto simp: tip_inv_def texts_ok_def)
    moreover have "ids_ok ?u" using i by (simp add: tip_inv_def ids_ok_def)
    ultimately have "tip_inv T K ?u" by (simp add: tip_inv_def)
    moreover have "quiet_parent w p s = ?u" using t by (simp add: quiet_parent_def s1_def [symmetric])
    ultimately show ?thesis by simp
  next
    case False
    then have "quiet_parent w p s = s1" by (auto simp: quiet_parent_def s1_def [symmetric] has_text_def split: option.split)
    then show ?thesis using i by simp
  qed
qed

lemma inv_open_content:
  assumes "tip_inv T K s" and "has_text (tt_title s x) \<longrightarrow> tt_saved s x = tt_title s x"
  shows "tip_inv T K (open_content c x content s)"
proof (cases "content = [] \<or> find_tip x s \<noteq> None")
  case True
  have "tip_inv T K (s\<lparr>tt_shown := ps\<rparr>)" for ps using assms(1) by (simp add: tips_inv_frame [of "s\<lparr>tt_shown := ps\<rparr>" s])
  then show ?thesis using True assms(1) by (auto simp: open_content_def)
next
  case False
  have ids: "ids_ok s" and tx: "texts_ok T s" and kept: "\<And>y. y \<in> K \<Longrightarrow> title_kept T s y" using assms(1) by (simp_all add: tip_inv_def)
  let ?n = "tt_next s"
  define u where "u = open_content c x content s"
  have none: "find_tip x s = None" "content \<noteq> []" using False by blast+
  have f: "tt_id u = (tt_id s)(x := Some ?n)" "tt_saved u = tt_saved s" "tt_parents u = tt_parents s" "tt_next u = Suc ?n"
    "tt_tips u = (?n, \<lparr>tp_element = x, tp_closing = False\<rparr>) # tt_tips s" "tt_fading u = tt_fading s"
    "tt_title u = (if tt_title s x = None then tt_title s else (tt_title s)(x := (if c = By_Mouse_Over then Some [] else None)))"
    using none by (simp_all add: u_def open_content_def add_described_by_def Let_def)
  have "ids_ok u" unfolding ids_ok_def
  proof (intro allI impI)
    fix y k assume y: "tt_id u y = Some k"
    show "(\<exists>d. map_of (tt_tips u) k = Some d \<and> tp_element d = y \<and> \<not> tp_closing d) \<and> k < tt_next u \<and> k \<notin> set (tt_fading u)"
    proof (cases "y = x")
      case True
      then show ?thesis using y f tx by (auto simp: texts_ok_def)
    next
      case False
      then have "tt_id s y = Some k" using y f(1) by simp
      then show ?thesis using ids f unfolding ids_ok_def by (metis less_Suc_eq less_irrefl map_of_Cons_code(2))
    qed
  qed
  moreover have "texts_ok T u" using tx f by (auto simp: texts_ok_def less_Suc_eq split: if_splits)
  moreover have "title_kept T u y" if "y \<in> K" for y
  proof (cases "y = x")
    case True
    then show ?thesis using kept [OF that] assms(2) f by (auto simp: title_kept_def has_text_def)
  next
    case False
    then show ?thesis using kept [OF that] f by (auto simp: title_kept_def)
  qed
  ultimately show ?thesis by (simp add: tip_inv_def u_def [symmetric])
qed


lemma has_text_simps [simp]: "has_text None \<longleftrightarrow> False" "has_text (Some t) \<longleftrightarrow> t \<noteq> []"
  by (simp_all add: has_text_def)

text \<open>An element whose title was noted keeps the note.\<close>

definition is_noted :: "nat \<Rightarrow> tip_page \<Rightarrow> bool" where
  "is_noted t s \<longleftrightarrow> (has_text (tt_title s t) \<longrightarrow> tt_saved s t \<noteq> None)"

lemma noted_close: "tip_inv T K s \<Longrightarrow> is_noted t s \<Longrightarrow> is_noted t (close_tip w By_Blur x s)"
proof (cases "tt_id s x")
  case None
  assume "tip_inv T K s" "is_noted t s"
  then show ?thesis using None find_none [of s x] by (simp add: close_tip_def tip_inv_def)
next
  case (Some n)
  assume i: "tip_inv T K s" and d: "is_noted t s"
  then have ids: "ids_ok s" by (simp add: tip_inv_def)
  obtain u where "close_tip w By_Blur x s = u" "tt_saved u = tt_saved s"
    "tt_title u = (if has_text (tt_saved s x) \<and> \<not> has_text (tt_title s x) then (tt_title s)(x := tt_saved s x) else tt_title s)"
    by (rule close_tip_eq [OF ids Some, of w By_Blur]) simp
  then show ?thesis using d by (cases "tt_saved s t"; cases "t = x") (auto simp: is_noted_def)
qed

lemma noted_quiet: "tip_inv T K s \<Longrightarrow> is_noted t s \<Longrightarrow> is_noted t (quiet_parent w p s)"
proof -
  assume i: "tip_inv T K s" and d: "is_noted t s"
  define s1 where "s1 = (if tt_open s p then close_tip w By_Blur p s else s)"
  have "is_noted t s1" using noted_close [OF i d] d by (simp add: s1_def)
  then show ?thesis by (auto simp: quiet_parent_def s1_def [symmetric] is_noted_def has_text_def split: option.split)
qed

lemma inv_fold_quiet: "tip_inv T K s \<Longrightarrow> is_noted t s \<Longrightarrow> tip_inv T K (fold (quiet_parent w) ps s) \<and> is_noted t (fold (quiet_parent w) ps s)"
  by (induction ps arbitrary: s) (simp_all add: inv_quiet noted_quiet)

lemma inv_open:
  assumes "tip_inv T K s"
  shows "tip_inv T K (open_tip w c x s)"
proof (cases "tip_target w x s")
  case (Some t)
  show ?thesis
  proof (cases "tt_id s t")
    case None
    define s1 where "s1 = (if has_text (tt_title s t) then s\<lparr>tt_saved := (tt_saved s)(t := tt_title s t)\<rparr> else s)"
    define s2 where "s2 = s1\<lparr>tt_open := (tt_open s1)(t := True)\<rparr>"
    define s3 where "s3 = (if c = By_Mouse_Over then fold (quiet_parent w) (tc_above w t) s2 else s2)"
    have "tip_inv T K s1"
    proof (cases "has_text (tt_title s t)")
      case True
      then obtain r where r: "tt_title s t = Some r" "r \<noteq> []" by (auto simp: has_text_def split: option.splits)
      then have "T t = Some r" using assms unfolding tip_inv_def texts_ok_def by blast
      then have "texts_ok T s1" using assms r by (auto simp: s1_def tip_inv_def texts_ok_def)
      moreover have "ids_ok s1" using assms by (simp add: s1_def tip_inv_def ids_ok_def)
      moreover have "title_kept T s1 y" if "y \<in> K" for y
        using assms that None by (auto simp: s1_def tip_inv_def title_kept_def)
      ultimately show ?thesis by (simp add: tip_inv_def)
    qed (simp add: s1_def assms)
    then have i2: "tip_inv T K s2" by (simp add: s2_def tips_inv_frame [of "s1\<lparr>tt_open := (tt_open s1)(t := True)\<rparr>" s1])
    have "is_noted t s2" by (cases "tt_title s t") (simp_all add: s2_def s1_def is_noted_def)
    then have i3: "tip_inv T K s3" and n3: "is_noted t s3" using inv_fold_quiet [OF i2] i2 by (simp_all add: s3_def)
    have "tt_saved s3 t = tt_title s3 t" if h: "has_text (tt_title s3 t)"
    proof -
      obtain r where r: "tt_title s3 t = Some r" "r \<noteq> []" using h by (cases "tt_title s3 t") auto
      obtain u where u: "tt_saved s3 t = Some u" using n3 h by (auto simp: is_noted_def)
      have "T t = Some r" "T t = Some u" using i3 r u unfolding tip_inv_def texts_ok_def by blast+
      then show ?thesis using r u by simp
    qed
    then have "tip_inv T K (open_content c t (tc_content w t (tt_title s3 t)) s3)" using inv_open_content [OF i3] by blast
    moreover have "open_tip w c x s = open_content c t (tc_content w t (tt_title s3 t)) s3"
      using Some None by (simp add: open_tip_def s3_def s2_def s1_def Let_def)
    ultimately show ?thesis by simp
  qed (use Some assms in \<open>simp add: open_tip_def\<close>)
qed (use assms in \<open>simp add: open_tip_def\<close>)

lemma inv_remove_tooltip:
  assumes "tip_inv T K s" and "\<forall>x. tt_id s x \<noteq> Some n"
  shows "tip_inv T K (remove_tooltip n s)"
proof -
  have "ids_ok (remove_tooltip n s)" unfolding ids_ok_def
  proof (intro allI impI)
    fix y k assume "tt_id (remove_tooltip n s) y = Some k"
    then have y: "tt_id s y = Some k" "k \<noteq> n" using assms(2) by (auto simp: remove_tooltip_def)
    then have "map_of (tt_tips (remove_tooltip n s)) k = map_of (tt_tips s) k" by (simp add: remove_tooltip_def map_of_others)
    moreover have "(\<exists>d. map_of (tt_tips s) k = Some d \<and> tp_element d = y \<and> \<not> tp_closing d) \<and> k < tt_next s \<and> k \<notin> set (tt_fading s)"
      using assms(1) y(1) unfolding tip_inv_def ids_ok_def by blast
    ultimately show "(\<exists>d. map_of (tt_tips (remove_tooltip n s)) k = Some d \<and> tp_element d = y \<and> \<not> tp_closing d) \<and>
        k < tt_next (remove_tooltip n s) \<and> k \<notin> set (tt_fading (remove_tooltip n s))"
      by (simp add: remove_tooltip_def)
  qed
  then show ?thesis using assms(1) by (auto simp: tip_inv_def texts_ok_def title_kept_def remove_tooltip_def)
qed

lemma inv_drop:
  assumes "tip_inv T K s" and "x \<notin> K"
  shows "tip_inv T K (drop_element x s)"
proof -
  define s1 where "s1 = (case tt_id s x of
                  Some n \<Rightarrow> if Drop_On_Removal \<in> set (tt_bound s x) then remove_tooltip n s else s
                | None \<Rightarrow> s)"
  define u where "u = drop_element x s"
  have f: "tt_title u = (tt_title s)(x := None)" "tt_saved u = (tt_saved s)(x := None)" "tt_id u = (tt_id s)(x := None)"
    "tt_parents u = tt_parents s" "tt_next u = tt_next s" "set (tt_fading u) \<subseteq> set (tt_fading s)"
    by (auto simp: u_def drop_element_def remove_tooltip_def Let_def split: option.split)
  have m: "map_of (tt_tips u) k = map_of (tt_tips s) k" if "tt_id s x \<noteq> Some k" for k
    using that by (auto simp: u_def drop_element_def remove_tooltip_def map_of_others Let_def split: option.split)
  have "ids_ok u" unfolding ids_ok_def
  proof (intro allI impI)
    fix y k assume "tt_id u y = Some k"
    then have y: "tt_id s y = Some k" "y \<noteq> x" using f(3) by (auto split: if_splits)
    then have "tt_id s x \<noteq> Some k" using same_id [of s x k y] assms(1) by (auto simp: tip_inv_def)
    then show "(\<exists>d. map_of (tt_tips u) k = Some d \<and> tp_element d = y \<and> \<not> tp_closing d) \<and> k < tt_next u \<and> k \<notin> set (tt_fading u)"
      using assms(1) y f(5,6) m [of k] unfolding tip_inv_def ids_ok_def by auto
  qed
  moreover have "texts_ok T u" using assms(1) f by (auto simp: tip_inv_def texts_ok_def)
  moreover have "title_kept T u y" if "y \<in> K" for y using assms that f by (auto simp: tip_inv_def title_kept_def)
  ultimately show ?thesis by (simp add: tip_inv_def u_def [symmetric])
qed

lemma inv_tip_step:
  assumes "tip_inv T K s" and "\<forall>x. e = Element_Removed x \<longrightarrow> x \<notin> K"
  shows "tip_inv T K (tip_step w e s)"
proof (cases e)
  case (Fade_Ends n)
  have "n \<in> set (tt_fading s) \<Longrightarrow> \<forall>x. tt_id s x \<noteq> Some n" using assms(1) by (auto simp: tip_inv_def ids_ok_def)
  then show ?thesis using Fade_Ends assms(1) inv_remove_tooltip by simp
qed (use assms in \<open>simp_all add: inv_open inv_close inv_drop\<close>)

lemma inv_tip_run: "tip_inv T K s \<Longrightarrow> \<forall>x \<in> K. Element_Removed x \<notin> set es \<Longrightarrow> tip_inv T K (tip_run w es s)"
proof (induction es arbitrary: s)
  case (Cons e es)
  have "tip_inv T K (tip_step w e s)" by (rule inv_tip_step [OF Cons.prems(1)]) (use Cons.prems(2) in auto)
  then show ?case using Cons by (simp add: tip_run_def)
qed (simp add: tip_run_def)

lemma inv_fresh: "tip_inv T K (fresh_tips T)"
  by (simp add: tip_inv_def ids_ok_def texts_ok_def title_kept_def fresh_tips_def)


text \<open>C36. Whatever the mouse, the focus and the keys do, no title of an element that stays in the page is lost: it is at the element,
  or with the tooltip that is open for the element, or put aside for a tooltip of an element inside. When the mouse leaves an
  element whose tooltip it opened, the element and all elements around it have their titles back.\<close>

theorem titles_never_lost:
  assumes "s = tip_run w es (fresh_tips T)" and "T x = Some t" and "t \<noteq> []" and "Element_Removed x \<notin> set es"
  shows "(tt_title s x = Some t \<or> (tt_id s x \<noteq> None \<and> tt_saved s x = Some t) \<or> (x, t) \<in> set (tt_parents s)) \<and>
    (\<forall>y. Close_On_Leave \<in> set (tt_bound s y) \<and> tt_id s y \<noteq> None \<and> (x = y \<or> tt_id s x = None) \<longrightarrow>
       tt_title (tip_step w (Mouse_Leaves y) s) x = Some t)"
proof -
  have i: "tip_inv T {x} s" unfolding assms(1) by (rule inv_tip_run [OF inv_fresh]) (use assms(4) in simp)
  have "tt_title (tip_step w (Mouse_Leaves y) s) x = Some t"
    if y: "Close_On_Leave \<in> set (tt_bound s y)" "tt_id s y \<noteq> None" "x = y \<or> tt_id s x = None" for y
  proof -
    let ?r = "close_tip w By_Mouse_Leave y s"
    have step: "tip_step w (Mouse_Leaves y) s = ?r" using y(1) by simp
    have ir: "tip_inv T {x} ?r" by (rule inv_close [OF i])
    obtain n where n: "tt_id s y = Some n" using y(2) by auto
    have ids: "ids_ok s" using i by (simp add: tip_inv_def)
    obtain u where u: "?r = restore_parents u" "tt_id u = (tt_id s)(y := None)"
      by (rule close_tip_eq [OF ids n, of w By_Mouse_Leave]) simp
    have "tt_parents ?r = []" "tt_id ?r x = None" using u y(3) by (auto simp: restored)
    moreover have "title_kept T ?r x" using ir by (simp add: tip_inv_def)
    ultimately show ?thesis unfolding step using assms(2,3) by (simp add: title_kept_def)
  qed
  moreover have "tt_title s x = Some t \<or> (tt_id s x \<noteq> None \<and> tt_saved s x = Some t) \<or> (x, t) \<in> set (tt_parents s)"
    using i assms(2,3) unfolding tip_inv_def title_kept_def by blast
  ultimately show ?thesis by blast
qed

section \<open>A page with tooltips\<close>

text \<open>A link (1) with a title in a box (2) with a title.\<close>

definition sample_tips :: tip_config where
  "sample_tips =
     \<lparr>tc_above = (\<lambda>x. if x = 1 then [2, 3] else if x = 2 then [3] else []), tc_skip = (\<lambda>_. False), tc_content = app_content, tc_animated = True\<rparr>"

definition sample_titles :: "nat \<Rightarrow> string option" where
  "sample_titles x = (if x = 1 then Some ''Read <b>more</b>'' else if x = 2 then Some ''Stories'' else None)"

theorem titles_never_lost_witness:
  "(let s = tip_run sample_tips [Mouse_Over 2, Mouse_Over 1] (fresh_tips sample_titles) in
     tt_title s 2 = Some [] \<and> (2, ''Stories'') \<in> set (tt_parents s)) \<and>
   tt_title (tip_run sample_tips [Mouse_Over 2, Mouse_Over 1, Mouse_Leaves 1] (fresh_tips sample_titles)) 2 = Some ''Stories''"
proof -
  let ?s = "tip_run sample_tips [Mouse_Over 2, Mouse_Over 1] (fresh_tips sample_titles)"
  have s: "tt_title ?s 2 = Some []" "tt_id ?s 2 = None" "tt_id ?s 1 \<noteq> None" "Close_On_Leave \<in> set (tt_bound ?s 1)" by code_simp+
  have "sample_titles 2 = Some ''Stories''" by (simp add: sample_titles_def)
  note t = titles_never_lost [of ?s sample_tips "[Mouse_Over 2, Mouse_Over 1]" sample_titles 2 "''Stories''", OF refl this]
  have "tip_run sample_tips [Mouse_Over 2, Mouse_Over 1, Mouse_Leaves 1] (fresh_tips sample_titles) = tip_step sample_tips (Mouse_Leaves 1) ?s"
    by (simp only: tip_run_def fold_simps)
  then show ?thesis using s t by simp
qed

section \<open>What goes wrong\<close>

text \<open>The default content shows a title as it is. The application's puts it into the tooltip as markup.\<close>

lemma default_shows_title: "read_markup (default_content x (Some t)) = t"
  by (simp add: default_content_def read_escaped)

lemma title_becomes_markup:
  "tt_shown (tip_run sample_tips [Mouse_Over 1] (fresh_tips sample_titles)) = [(1, ''Read <b>more</b>'')] \<and>
   default_content 1 (sample_titles 1) = ''Read &lt;b&gt;more&lt;/b&gt;''"
  by code_simp

text \<open>When an element with an open tooltip is removed, or its tooltip closed with Escape, the titles around it stay put aside.\<close>

lemma titles_stay_aside:
  "tt_title (tip_run sample_tips [Mouse_Over 1, Element_Removed 1, Mouse_Over 2] (fresh_tips sample_titles)) 2 = Some []"
  "tt_title (tip_run sample_tips [Mouse_Over 1, Key_At 1 27] (fresh_tips sample_titles)) 2 = Some []"
  by code_simp+

text \<open>While the tooltip of a focused element is open the element has no title, so that the mouse over it opens the tooltip of an element
  around it as well.\<close>

lemma focus_then_mouse_opens_two:
  "let s = tip_run sample_tips [Focus_In 1, Mouse_Over 1] (fresh_tips sample_titles) in tt_id s 1 \<noteq> None \<and> tt_id s 2 \<noteq> None"
  by code_simp

end
