(* ===== verification/Remote_Upload.thy ===== *)
theory Remote_Upload
  imports Rails_Ujs Ajax_Convert JQuery_Event
begin

text \<open>
  Files in remote forms: jquery.remotipart and the transport that sends a form through a frame. \<open>Rails_Ujs\<close> leaves
  two places for it, what handlers of \<open>ajax:aborted:file\<close> do (\<open>rw_hook\<close>) and what handlers bound to the form do
  before a request is sent (\<open>rc_own\<close>); \<open>uploading\<close> fills both. An upload replaces each file input of the page by a
  disabled copy and takes the input into a hidden form. The element's number stands for whichever of the two is in
  the page, so that taking an input disables the element of that number. A copy is taken to keep the value; the names
  of frames are taken to differ. The response is text; the readers of JSON and XML and the evaluation of scripts are
  arguments.
\<close>

section \<open>What is sent\<close>

definition file_boxes :: "rails_doc \<Rightarrow> page_element \<Rightarrow> page_element list" where
  "file_boxes d e = filter (\<lambda>x. pe_in_form x = Some (pe_id e) \<and> file_input x) (rd_elements d)"

definition enabled_boxes :: "rails_doc \<Rightarrow> page_element \<Rightarrow> rails_page \<Rightarrow> page_element list" where
  "enabled_boxes d e s = filter (\<lambda>x. \<not> es_disabled (rp_elements s (pe_id x))) (file_boxes d e)"

text \<open>The token, unless the form has a field of its name, whatever that holds.\<close>

definition csrf_field :: "rails_doc \<Rightarrow> page_element \<Rightarrow> (string \<times> string) list" where
  "csrf_field d e =
     (case (rd_param d, rd_token d) of
        (Some (p # ps), Some (t # ts)) \<Rightarrow>
          if list_ex (\<lambda>x. pe_tag x = ''input'' \<and> pe_in_form x = Some (pe_id e) \<and> attr x ''name'' = Some (p # ps)) (rd_elements d)
          then [] else [(p # ps, t # ts)]
      | _ \<Rightarrow> [])"

definition upload_data ::
  "rails_doc \<Rightarrow> page_element \<Rightarrow> (string \<times> string) option \<Rightarrow> rails_page \<Rightarrow> (string \<times> string) list" where
  "upload_data d e button s =
     filter (\<lambda>f. fst f \<notin> field_name ` set (file_boxes d e))
       (serialize_array (rd_elements d) (rp_elements s) e @ (case button of Some b \<Rightarrow> [b] | None \<Rightarrow> [])) @
     [(''remotipart_submitted'', ''true'')] @ csrf_field d e"

definition upload_type :: "page_element \<Rightarrow> string" where
  "upload_type e = (case truthy_data e ''type'' of Some t \<Rightarrow> t | None \<Rightarrow> ''script *'')"

definition data_types :: "string \<Rightarrow> string list" where
  "data_types t = (case words (map lower t) of [] \<Rightarrow> [[]] | ts \<Rightarrow> ts)"

definition accepted_types :: "(string \<times> string) list" where
  "accepted_types =
     [(''*'', ''*/*''), (''text'', ''text/plain''), (''html'', ''text/html''), (''xml'', ''application/xml, text/xml''),
      (''json'', ''application/json, text/javascript''),
      (''script'', ''text/javascript, application/javascript, application/ecmascript, application/x-ecmascript'')]"

definition accept_header :: "string list \<Rightarrow> string" where
  "accept_header ts =
     (case ts of
        [] \<Rightarrow> ''*/*''
      | t # _ \<Rightarrow>
          (case map_of accepted_types t of
             None \<Rightarrow> ''*/*''
           | Some a \<Rightarrow> if t = ''*'' then a else a @ '', */*; q=0.01''))"

text \<open>A list of fields where a text is expected.\<close>

definition array_text :: "(string \<times> string) list \<Rightarrow> string" where
  "array_text fs = join_with '','' (map (\<lambda>f. ''[object Object]'') fs)"

text \<open>The second call of \<open>ajax\<close>, with the settings of the first as the handler has changed them.\<close>

definition second_call :: "rails_request \<Rightarrow> page_element \<Rightarrow> (string \<times> string) list \<Rightarrow> ajax_call" where
  "second_call r e fs =
     \<lparr>ac_url = Some (pr_url (rq_call r)), ac_type = pr_type (rq_call r), ac_data = Query_Text (array_text fs),
      ac_data_type = Some (upload_type e), ac_cross = Some (pr_cross (rq_call r)), ac_cache = None,
      ac_global = pr_global (rq_call r)\<rparr>"

definition take_box :: "page_element \<Rightarrow> rails_page \<Rightarrow> rails_page" where
  "take_box x s = put_element (pe_id x) (\<lambda>y. y\<lparr>es_disabled := True\<rparr>) s"

text \<open>
  The transport sends nothing itself when no file input is enabled; the request then goes the usual way, with the
  list of fields as its data.
\<close>

definition send_upload ::
  "rails_doc \<Rightarrow> page_element \<Rightarrow> rails_request \<Rightarrow> (string \<times> string) list \<Rightarrow> rails_page \<Rightarrow> rails_page" where
  "send_upload d e r fs s =
     (let pr = prepare (rd_origin d) (rp_nonce s) (second_call r e fs);
          s1 = s\<lparr>rp_nonce := pr_nonce pr, rp_pending := rp_pending s @ [(pe_id e, Nothing_More)]\<rparr>;
          boxes = enabled_boxes d e s; types = data_types (upload_type e)
      in if boxes = []
         then add_note (Requested (pe_id e)
                \<lparr>rq_call = pr, rq_data = (case pr_body pr of Some t \<Rightarrow> Query_Text t | None \<Rightarrow> No_Data),
                 rq_token = csrf_header d (pr_cross pr), rq_credentials = rq_credentials r\<rparr>) s1
         else (fold take_box boxes s1)\<lparr>rp_uploads := rp_uploads s @
                [\<lparr>ul_form = pe_id e, ul_url = pr_url pr,
                  ul_fields = (if has_content (pr_type pr) then fs else []) @
                    [(''X-Requested-With'', ''IFrame''), (''X-Http-Accept'', accept_header types)],
                  ul_files = map pe_id boxes, ul_types = types, ul_phase = Frame_Empty\<rparr>]\<rparr>)"

section \<open>Remotipart\<close>

text \<open>
  The handler \<open>setup\<close> binds: it sends the upload, unless that is refused, and removes all handlers of its kind from
  the form. The request it was called for is cancelled.
\<close>

definition once_handler ::
  "rails_client \<Rightarrow> rails_doc \<Rightarrow> page_element \<Rightarrow> rails_request \<Rightarrow> (string \<times> string) option \<Rightarrow> rails_page \<Rightarrow> rails_page" where
  "once_handler c d e r button s =
     (let fs = upload_data d e button s;
          (s1, goes_on) = fire_event c Remotipart_Submit (pe_id e) s;
          s2 = (if goes_on then add_timer True e (send_upload d e r fs s1) else s1)
      in s2\<lparr>rp_once := (rp_once s2)(pe_id e := [])\<rparr>)"

definition own_handlers ::
  "rails_client \<Rightarrow> rails_doc \<Rightarrow> page_element \<Rightarrow> rails_request \<Rightarrow> rails_page \<Rightarrow> rails_page \<times> bool" where
  "own_handlers c d e r s =
     (if rp_once s (pe_id e) = [] then (s, True) else (fold (once_handler c d e r) (rp_once s (pe_id e)) s, False))"

definition with_remotipart :: "rails_client \<Rightarrow> rails_doc \<Rightarrow> rails_client" where
  "with_remotipart c d = c\<lparr>rc_own := own_handlers c d\<rparr>"

definition setup_upload :: "page_element \<Rightarrow> rails_page \<Rightarrow> rails_page" where
  "setup_upload e s = s\<lparr>rp_once := (rp_once s)(pe_id e := rp_once s (pe_id e) @ [rp_button s (pe_id e)])\<rparr>"

definition file_hook :: "rails_client \<Rightarrow> rails_doc \<Rightarrow> page_element \<Rightarrow> rails_page \<Rightarrow> rails_page \<times> bool" where
  "file_hook c d e s = (fst (handle_remote (before_send c d e) c d e (setup_upload e s)), False)"

definition uploading :: "rails_world \<Rightarrow> rails_world" where
  "uploading w =
     (let c = with_remotipart (rw_client w) (rw_doc w) in w\<lparr>rw_client := c, rw_hook := file_hook c (rw_doc w)\<rparr>)"

section \<open>The frame\<close>

text \<open>What the frame shows: its first text area, with type, status and value, its markup and its text.\<close>

record upload_reply =
  re_area :: "(string option \<times> string option \<times> string) option"
  re_html :: string
  re_text :: string

record upload_readers =
  ue_json :: "string \<Rightarrow> string option"
  ue_xml :: "string \<Rightarrow> string option"
  ue_eval :: "string \<Rightarrow> string option"

definition reply_type :: "upload_reply \<Rightarrow> string option" where
  "reply_type a = (case re_area a of Some (Some (c # cs), _, _) \<Rightarrow> Some (c # cs) | _ \<Rightarrow> None)"

definition reply_text :: "upload_reply \<Rightarrow> string" where
  "reply_text a = (case re_area a of Some (Some (c # cs), _, v) \<Rightarrow> v | _ \<Rightarrow> re_text a)"

text \<open>A status that is no number counts as none; one that is missing is 200.\<close>

definition reply_status :: "upload_reply \<Rightarrow> nat option" where
  "reply_status a =
     (case re_area a of
        Some (_, Some (c # cs), _) \<Rightarrow> if list_all is_digit (c # cs) then Some (digits_to_nat (c # cs)) else None
      | _ \<Rightarrow> Some 200)"

definition header_value :: "string \<Rightarrow> string" where
  "header_value t =
     takeWhile (\<lambda>c. c \<noteq> CHR 0x0A \<and> c \<noteq> CHR 0x0D) (dropWhile (\<lambda>c. c = CHR '' '' \<or> c = CHR 0x09) t)"

definition upload_settings :: "upload_readers \<Rightarrow> string list \<Rightarrow> string ajax_settings" where
  "upload_settings v ts =
     \<lparr>as_data_types = ts, as_converters = default_converters id (ue_json v) (ue_xml v) (ue_eval v),
      as_response_fields = default_response_fields, as_throws = False, as_data_filter = None\<rparr>"

definition upload_result :: "upload_readers \<Rightarrow> string list \<Rightarrow> upload_reply \<Rightarrow> string converted" where
  "upload_result v ts a =
     (let (types, r) = handle_responses default_contents (map_option header_value (reply_type a))
            [(''html'', re_html a), (''text'', reply_text a)] (upload_settings v ts)
      in fst (ajax_convert (upload_settings v types) True (case r of Some x \<Rightarrow> x | None \<Rightarrow> [])))"

definition upload_ok :: "upload_readers \<Rightarrow> string list \<Rightarrow> upload_reply \<Rightarrow> bool" where
  "upload_ok v ts a \<longleftrightarrow>
     (case reply_status a of Some n \<Rightarrow> 200 \<le> n \<and> n < 300 | None \<Rightarrow> False) \<and>
     (case upload_result v ts a of Converted r \<Rightarrow> True | _ \<Rightarrow> False)"

definition release_box :: "nat \<Rightarrow> rails_page \<Rightarrow> rails_page" where
  "release_box i s = put_element i (\<lambda>y. y\<lparr>es_disabled := False\<rparr>) s"

definition set_phase :: "nat \<Rightarrow> frame_phase \<Rightarrow> rails_page \<Rightarrow> rails_page" where
  "set_phase k ph s = s\<lparr>rp_uploads := (rp_uploads s)[k := (rp_uploads s ! k)\<lparr>ul_phase := ph\<rparr>]\<rparr>"

text \<open>\<open>cleanUp\<close>: the copies of the file inputs are enabled and stay; the frame goes when it has loaded once more.\<close>

definition clean_up :: "nat \<Rightarrow> rails_page \<Rightarrow> rails_page" where
  "clean_up k s = set_phase k Frame_Closing (fold release_box (ul_files (rp_uploads s ! k)) s)"

text \<open>The request of an upload among those pending; all of one form are alike.\<close>

definition pending_of :: "nat \<Rightarrow> rails_page \<Rightarrow> nat" where
  "pending_of i s = length (takeWhile (\<lambda>p. p \<noteq> (i, Nothing_More)) (rp_pending s))"

definition frame_loads :: "upload_readers \<Rightarrow> rails_world \<Rightarrow> nat \<Rightarrow> upload_reply \<Rightarrow> rails_page \<Rightarrow> rails_page" where
  "frame_loads v w k a s =
     (if k < length (rp_uploads s)
      then
        let u = rp_uploads s ! k in
          if ul_phase u = Frame_Empty
          then add_note (Posted (ul_form u) (ul_url u) (ul_fields u) (ul_files u)) (set_phase k Frame_Posted s)
          else if ul_phase u = Frame_Posted
          then let s1 = clean_up k s in rails_answer w (pending_of (ul_form u) s1) (upload_ok v (ul_types u) a) s1
          else s\<lparr>rp_uploads := take k (rp_uploads s) @ drop (Suc k) (rp_uploads s)\<rparr>
      else s)"

definition abort_upload :: "rails_world \<Rightarrow> nat \<Rightarrow> rails_page \<Rightarrow> rails_page" where
  "abort_upload w k s =
     (if k < length (rp_uploads s) \<and> ul_phase (rp_uploads s ! k) \<noteq> Frame_Closing
      then let s1 = clean_up k s in rails_answer w (pending_of (ul_form (rp_uploads s ! k)) s1) False s1
      else s)"

datatype upload_step =
    Rails_Step rails_step
  | Frame_Loads nat upload_reply
  | Upload_Aborted nat

fun upload_do :: "upload_readers \<Rightarrow> rails_world \<Rightarrow> upload_step \<Rightarrow> rails_page \<Rightarrow> rails_page" where
  "upload_do v w (Rails_Step x) s = rails_do (uploading w) x s"
| "upload_do v w (Frame_Loads k a) s = frame_loads v (uploading w) k a s"
| "upload_do v w (Upload_Aborted k) s = abort_upload (uploading w) k s"


section \<open>Where the file inputs are\<close>

text \<open>The inputs that uploads under way have taken.\<close>

definition taken :: "upload \<Rightarrow> nat list" where
  "taken u = (if ul_phase u = Frame_Closing then [] else ul_files u)"

definition taken_now :: "rails_page \<Rightarrow> nat list" where
  "taken_now s = concat (map taken (rp_uploads s))"

definition no_file :: "rails_doc \<Rightarrow> nat \<Rightarrow> bool" where
  "no_file d i \<longleftrightarrow> list_all (\<lambda>x. file_input x \<longrightarrow> pe_id x \<noteq> i) (rd_elements d)"

text \<open>Numbers are unique, ancestors are elements, and no file input is disabled by ujs.\<close>

definition upload_doc :: "rails_doc \<Rightarrow> bool" where
  "upload_doc d \<longleftrightarrow>
     distinct (map pe_id (rd_elements d)) \<and> (\<forall>i. set (rd_above d i) \<subseteq> set (rd_elements d)) \<and>
     list_all (\<lambda>x. file_input x \<longrightarrow> \<not> disables x) (rd_elements d)"

text \<open>A file input is out of use exactly if an upload has taken it, and no two uploads have the same.\<close>

definition files_kept :: "rails_doc \<Rightarrow> rails_page \<Rightarrow> bool" where
  "files_kept d s \<longleftrightarrow>
     distinct (taken_now s) \<and>
     list_all (\<lambda>x. file_input x \<longrightarrow> (es_disabled (rp_elements s (pe_id x)) \<longleftrightarrow> pe_id x \<in> set (taken_now s))) (rd_elements d) \<and>
     list_all (\<lambda>p. snd p = Enable_Button \<longrightarrow> no_file d (fst p)) (rp_pending s)"

lemma elsewhere:
  assumes "upload_doc d" and "e \<in> set (rd_elements d)" and "\<not> file_input e"
  shows "no_file d (pe_id e)"
  unfolding no_file_def list_all_iff
proof (intro ballI impI notI)
  fix x assume "x \<in> set (rd_elements d)" and "file_input x" and "pe_id x = pe_id e"
  then have "x = e" using assms(1,2) by (auto simp: upload_doc_def distinct_map inj_on_def)
  then show False using \<open>file_input x\<close> assms(3) by simp
qed

lemma lockable_elsewhere: "upload_doc d \<Longrightarrow> e \<in> set (rd_elements d) \<Longrightarrow> lockable e \<Longrightarrow> no_file d (pe_id e)"
  by (rule elsewhere) (auto simp: upload_doc_def lockable_def list_all_iff)

lemma button_elsewhere: "upload_doc d \<Longrightarrow> e \<in> set (rd_elements d) \<Longrightarrow> pe_tag e = ''button'' \<Longrightarrow> no_file d (pe_id e)"
  by (rule elsewhere) (auto simp: file_input_def)

lemma kept_note [simp]: "files_kept d (add_note n s) = files_kept d s"
  by (simp add: files_kept_def taken_now_def add_note_def)

lemma kept_fields [simp]:
  "files_kept d (s\<lparr>rp_enable_with := a\<rparr>) = files_kept d s" "files_kept d (s\<lparr>rp_blocks := b\<rparr>) = files_kept d s"
  "files_kept d (s\<lparr>rp_button := c\<rparr>) = files_kept d s" "files_kept d (s\<lparr>rp_timers := m\<rparr>) = files_kept d s"
  "files_kept d (s\<lparr>rp_nonce := n\<rparr>) = files_kept d s" "files_kept d (s\<lparr>rp_once := q\<rparr>) = files_kept d s"
  by (simp_all add: files_kept_def taken_now_def)

lemma kept_put:
  assumes "files_kept d s" and "no_file d i \<or> (\<forall>y. es_disabled (f y) = es_disabled y)"
  shows "files_kept d (put_element i f s)"
  using assms by (auto simp: files_kept_def taken_now_def put_element_def no_file_def list_all_iff)

lemma kept_set_text [simp]: "files_kept d s \<Longrightarrow> files_kept d (set_text e t s)"
  unfolding set_text_def by (rule kept_put) simp_all

lemma kept_keep_text [simp]: "files_kept d s \<Longrightarrow> files_kept d (keep_text e s)"
  by (simp add: keep_text_def)

lemma kept_replace_text [simp]: "files_kept d s \<Longrightarrow> files_kept d (replace_text e s)"
  by (simp add: replace_text_def split: option.split)

lemma kept_disable_element [simp]: "files_kept d s \<Longrightarrow> files_kept d (disable_element e s)"
  by (simp add: disable_element_def Let_def)

lemma kept_enable_element [simp]: "files_kept d s \<Longrightarrow> files_kept d (enable_element e s)"
  by (simp add: enable_element_def Let_def split: option.split)

lemma kept_form_element [simp]:
  assumes "files_kept d s" and "no_file d (pe_id e)"
  shows "files_kept d (disable_form_element e s)" "files_kept d (enable_form_element e s)"
  using assms by (auto simp: disable_form_element_def enable_form_element_def intro!: kept_put split: option.split list.split)

lemma kept_fold:
  assumes "files_kept d s" and "\<forall>x \<in> set xs. no_file d (pe_id x)"
  shows "files_kept d (fold disable_form_element xs s)" "files_kept d (fold enable_form_element xs s)"
  using assms by (induction xs arbitrary: s) simp_all

lemma controls_within: "e \<in> set (rd_elements d) \<Longrightarrow> set (form_controls (rd_elements d) e) \<subseteq> set (rd_elements d)"
  by (auto simp: form_controls_def)

lemma kept_form [simp]:
  assumes "upload_doc d" and "e \<in> set (rd_elements d)" and "files_kept d s"
  shows "files_kept d (disable_form_elements d e s)" "files_kept d (enable_form_elements d e s)"
  unfolding disable_form_elements_def enable_form_elements_def
  by (rule kept_fold [OF assms(3)]; use assms(1,2) controls_within in \<open>auto intro: lockable_elsewhere\<close>)+

lemma kept_fire [simp]: "files_kept d (fst (fire_event c ev i s)) = files_kept d s"
  by (simp add: fire_event_def)

lemma kept_allow: "allow_action c e s = (t, b) \<Longrightarrow> files_kept d s \<Longrightarrow> files_kept d t"
  by (auto simp: allow_action_def fire_event_def Let_def split: option.splits if_splits prod.splits)

lemma kept_pending:
  "files_kept d s \<Longrightarrow> (snd p = Enable_Button \<longrightarrow> no_file d (fst p)) \<Longrightarrow> files_kept d (s\<lparr>rp_pending := rp_pending s @ [p]\<rparr>)"
  "files_kept d s \<Longrightarrow> set ps \<subseteq> set (rp_pending s) \<Longrightarrow> files_kept d (s\<lparr>rp_pending := ps\<rparr>)"
  by (auto simp: files_kept_def taken_now_def list_all_iff)

section \<open>Taking and releasing\<close>

lemma fold_take:
  "rp_elements (fold take_box xs s) i =
     (if i \<in> pe_id ` set xs then (rp_elements s i)\<lparr>es_disabled := True\<rparr> else rp_elements s i)"
  "rp_uploads (fold take_box xs s) = rp_uploads s" "rp_pending (fold take_box xs s) = rp_pending s"
  by (induction xs arbitrary: s) (auto simp: take_box_def put_element_def)

lemma fold_release:
  "rp_elements (fold release_box is s) i = (if i \<in> set is then (rp_elements s i)\<lparr>es_disabled := False\<rparr> else rp_elements s i)"
  "rp_uploads (fold release_box is s) = rp_uploads s" "rp_pending (fold release_box is s) = rp_pending s"
  by (induction "is" arbitrary: s) (auto simp: release_box_def put_element_def)

lemma kept_send:
  assumes "upload_doc d" and "files_kept d s"
  shows "files_kept d (send_upload d e r fs s)"
proof -
  let ?b = "enabled_boxes d e s"
  have d: "distinct (map pe_id ?b)"
    using assms(1) by (auto simp: upload_doc_def enabled_boxes_def file_boxes_def distinct_map intro: inj_on_subset)
  have b: "\<forall>x \<in> set ?b. x \<in> set (rd_elements d) \<and> file_input x \<and> \<not> es_disabled (rp_elements s (pe_id x))"
    by (auto simp: enabled_boxes_def file_boxes_def)
  define pr where "pr = prepare (rd_origin d) (rp_nonce s) (second_call r e fs)"
  define s1 where "s1 = s\<lparr>rp_nonce := pr_nonce pr, rp_pending := rp_pending s @ [(pe_id e, Nothing_More)]\<rparr>"
  have "s1 = (s\<lparr>rp_pending := rp_pending s @ [(pe_id e, Nothing_More)]\<rparr>)\<lparr>rp_nonce := pr_nonce pr\<rparr>" by (simp add: s1_def)
  then have k: "files_kept d s1" using kept_pending(1) [OF assms(2)] by simp
  show ?thesis
  proof (cases "?b = []")
    case True
    then show ?thesis using k by (simp add: send_upload_def Let_def flip: pr_def s1_def)
  next
    case False
    then obtain u where u: "send_upload d e r fs s = (fold take_box ?b s1)\<lparr>rp_uploads := rp_uploads s @ [u]\<rparr>"
      and f: "ul_files u = map pe_id ?b" "ul_phase u = Frame_Empty"
      by (simp add: send_upload_def Let_def flip: pr_def s1_def)
    have now: "taken_now (send_upload d e r fs s) = taken_now s @ map pe_id ?b"
      by (simp add: u taken_now_def taken_def f)
    have "x \<in> set (rd_elements d) \<Longrightarrow> file_input x \<Longrightarrow> pe_id x \<in> pe_id ` set ?b \<Longrightarrow> pe_id x \<notin> set (taken_now s)" for x
      using assms(2) b by (auto simp: files_kept_def list_all_iff)
    then show ?thesis using k d b unfolding files_kept_def now
      by (auto simp: u fold_take list_all_iff s1_def taken_now_def)
  qed
qed

lemma taken_update:
  "k < length us \<Longrightarrow> map taken (us[k := u]) = (map taken us)[k := taken u]"
  by (simp add: map_update)

lemma concat_update:
  "k < length xs \<Longrightarrow> concat (xs[k := y]) = concat (take k xs) @ y @ concat (drop (Suc k) xs)"
  by (simp add: upd_conv_take_nth_drop)

lemma concat_at:
  "k < length xs \<Longrightarrow> concat xs = concat (take k xs) @ xs ! k @ concat (drop (Suc k) xs)"
  by (metis concat.simps(2) concat_append id_take_nth_drop)

lemma kept_clean:
  assumes "k < length (rp_uploads s)" and "ul_phase (rp_uploads s ! k) \<noteq> Frame_Closing" and "files_kept d s"
  shows "files_kept d (clean_up k s)"
proof -
  let ?us = "rp_uploads s"
  let ?l = "concat (take k (map taken ?us))" and ?r = "concat (drop (Suc k) (map taken ?us))"
  have now: "taken_now s = ?l @ ul_files (?us ! k) @ ?r"
    unfolding taken_now_def using concat_at [of k "map taken ?us"] assms(1,2) by (simp add: taken_def)
  have after: "taken_now (clean_up k s) = ?l @ ?r"
    unfolding taken_now_def
    using assms(1) by (simp add: clean_up_def set_phase_def fold_release taken_update concat_update) (simp add: taken_def)
  show ?thesis using assms(3)
    unfolding files_kept_def after unfolding now
    by (auto simp: clean_up_def set_phase_def fold_release list_all_iff)
qed

section \<open>Handlers\<close>

lemma kept_once: "upload_doc d \<Longrightarrow> files_kept d s \<Longrightarrow> files_kept d (once_handler c d e r b s)"
  by (auto simp: once_handler_def fire_event_def Let_def add_timer_def kept_send)

lemma kept_own: "upload_doc d \<Longrightarrow> files_kept d s \<Longrightarrow> files_kept d (fst (own_handlers c d e r s))"
proof -
  have "files_kept d (fold (once_handler c d e r) bs s)" if "upload_doc d" "files_kept d s" for bs
    using that by (induction bs arbitrary: s) (simp_all add: kept_once)
  then show "upload_doc d \<Longrightarrow> files_kept d s \<Longrightarrow> files_kept d (fst (own_handlers c d e r s))"
    by (simp add: own_handlers_def)
qed

lemma ajax_handler_fits:
  assumes "h \<in> set (hl_list (handlers_of (rails_events s n) u))"
  shows "(case n of Element e \<Rightarrow> ho_handler h = Link_Locked
          | Document_Node \<Rightarrow> \<exists>g t nss. (g, ho_handler h, ho_selector h, t, nss) \<in> set rails_bindings)"
  using assms registered_regs [of h u]
  by (auto simp: rails_events_def hl_list_bound split: rails_node.splits dest!: registered_regs)

lemma button_handlers:
  assumes "(g, h, sel, t, nss) \<in> set rails_bindings" and "h = Complete_Button \<or> h = Button_Click"
    and "\<exists>x. sel = Some x \<and> rails_matches x e"
  shows "pe_tag e = ''button''"
  using assms by (auto simp: rails_bindings_def)

text \<open>What a handler of the path may be taken to be, given where it was found.\<close>

lemma path_handler:
  assumes "n \<in> set (node_path d e)" and "m \<in> set (node_path d e)" and "upload_doc d" and "e \<in> set (rd_elements d)"
    and "h \<in> set (hl_list (handlers_of (rails_events s n) u))" and "matched_by node_matches m h \<or> m = n" and "m = Element x"
  shows "x \<in> set (rd_elements d) \<and> (ho_handler h \<in> {Complete_Button, Button_Click} \<longrightarrow> pe_tag x = ''button'')"
proof
  show "x \<in> set (rd_elements d)" using assms(2,3,4,7) by (auto simp: node_path_def upload_doc_def)
  show "ho_handler h \<in> {Complete_Button, Button_Click} \<longrightarrow> pe_tag x = ''button''"
  proof
    assume h: "ho_handler h \<in> {Complete_Button, Button_Click}"
    then obtain g t nss where b: "(g, ho_handler h, ho_selector h, t, nss) \<in> set rails_bindings" and "n = Document_Node"
      using ajax_handler_fits [OF assms(5)] by (cases n) auto
    then have "\<exists>y. ho_selector h = Some y \<and> rails_matches y x"
      using assms(6,7) by (auto simp: matched_by_def split: option.splits)
    then show "pe_tag x = ''button''" using button_handlers [OF b] h by blast
  qed
qed

lemma kept_answer_ajax:
  assumes "upload_doc d" and "files_kept d s"
    and "\<And>x. m = Element x \<Longrightarrow> x \<in> set (rd_elements d) \<and> (h \<in> {Complete_Button, Button_Click} \<longrightarrow> pe_tag x = ''button'')"
  shows "files_kept d (hd_state (answer_ajax d i h m s))"
proof (cases m)
  case (Element x)
  have x: "x \<in> set (rd_elements d)" "h = Complete_Button \<longrightarrow> no_file d (pe_id x)"
    using assms(3) [OF Element] button_elsewhere [OF assms(1)] by auto
  then show ?thesis using assms(1,2) by (cases h) (simp_all add: Element answer_ajax_def rails_leave_def)
qed (simp add: answer_ajax_def rails_leave_def assms(2))

lemma kept_through:
  assumes "upload_doc d" and "e \<in> set (rd_elements d)" and "files_kept d s"
  shows "files_kept d (fire_through c d ev name e s)"
proof -
  have k: "files_kept d (fst (fire_event c ev (pe_id e) s))" using assms(3) by simp
  have "files_kept d (rn_state (propagate (ajax_event_page d (pe_id e)) v [] (node_path d e)
      (start_running (fst (fire_event c ev (pe_id e) s)))))" for v
  proof (rule propagate_keeps)
    fix n u h m s s'
    assume "n \<in> set ([] @ node_path d e)" "m \<in> set ([] @ node_path d e)"
      "h \<in> set (hl_list (handlers_of (ep_events (ajax_event_page d (pe_id e)) s n) u))"
      "matched_by (ep_matching (ajax_event_page d (pe_id e))) m h \<or> m = n" "files_kept d s'"
    then have *: "n \<in> set (node_path d e)" "m \<in> set (node_path d e)" "h \<in> set (hl_list (handlers_of (rails_events s n) u))"
      "matched_by node_matches m h \<or> m = n" "files_kept d s'" by (simp_all add: ajax_event_page_def)
    show "files_kept d (hd_state (ep_run (ajax_event_page d (pe_id e)) (ho_handler h) m s'))"
      unfolding ajax_event_page_def event_page.simps
      by (rule kept_answer_ajax [OF assms(1) *(5)]) (rule path_handler [OF *(1,2) assms(1,2) *(3,4)])
  qed (use k in \<open>simp add: start_running_def\<close>)
  then show ?thesis using k by (simp add: fire_through_def case_prod_unfold Let_def)
qed

lemma kept_before:
  assumes "upload_doc d" and "e \<in> set (rd_elements d)" and "files_kept d s"
  shows "files_kept d (fst (before_send (with_remotipart c d) d e r s))"
proof -
  obtain s1 b where 1: "fire_event (with_remotipart c d) Ajax_Before_Send (pe_id e) s = (s1, b)" by fastforce
  obtain s2 b2 where 2: "own_handlers c d e r s1 = (s2, b2)" by fastforce
  have "files_kept d s1" using kept_fire [of d "with_remotipart c d" Ajax_Before_Send "pe_id e" s] assms(3) 1 by simp
  then have "files_kept d s2" using kept_own [OF assms(1), of s1 c e r] 2 by simp
  then show ?thesis using 1 2 kept_through [OF assms(1,2)] by (simp add: before_send_def with_remotipart_def)
qed

lemma kept_remote:
  assumes "\<And>r s. files_kept d s \<Longrightarrow> files_kept d (fst (asked r s))" and "files_kept d s"
  shows "files_kept d (fst (handle_remote asked c d e s))"
proof -
  define s1 where "s1 = add_note (Fired Ajax_Before (pe_id e)) s"
  define s2 where "s2 = (if pe_tag e = ''form'' then s1\<lparr>rp_button := (rp_button s1)(pe_id e := None)\<rparr> else s1)"
  define r where "r = make_request d e s1"
  obtain s3 b where a: "asked r (s2\<lparr>rp_nonce := pr_nonce (rq_call r)\<rparr>) = (s3, b)" by fastforce
  have k: "files_kept d s1" "files_kept d s2" using assms(2) by (simp_all add: s1_def s2_def)
  then have "files_kept d s3" using assms(1) [of "s2\<lparr>rp_nonce := pr_nonce (rq_call r)\<rparr>" r] by (simp add: a)
  then have "files_kept d (s3\<lparr>rp_pending := rp_pending s3 @ [(pe_id e, Nothing_More)]\<rparr>)" by (rule kept_pending(1)) simp
  then show ?thesis using k \<open>files_kept d s3\<close> a
    by (simp add: handle_remote_def fire_event_def Let_def flip: s1_def r_def s2_def)
qed

lemma started_last:
  assumes "handle_remote asked c d e s = (t, Started)"
  shows "\<exists>ps. rp_pending t = ps @ [(pe_id e, Nothing_More)]"
  using assms by (auto simp: handle_remote_def fire_event_def Let_def add_note_def split: prod.splits if_splits)

definition with_uploads :: "rails_doc \<Rightarrow> rails_world \<Rightarrow> bool" where
  "with_uploads d w \<longleftrightarrow>
     rw_doc w = d \<and> (\<exists>c. rw_client w = with_remotipart c d) \<and> rw_hook w = file_hook (rw_client w) d"

lemma with_uploads_uploading: "with_uploads (rw_doc w) (uploading w)"
  by (auto simp: with_uploads_def uploading_def Let_def)

lemma kept_call:
  assumes "with_uploads d w" and "upload_doc d" and "e \<in> set (rd_elements d)" and "files_kept d s"
  shows "files_kept d (fst (handle_remote (before_send (rw_client w) (rw_doc w) e) (rw_client w) (rw_doc w) e s))"
  using assms by (auto simp: with_uploads_def intro!: kept_remote kept_before)


lemma kept_set_after:
  assumes "files_kept d s" and "rp_pending s = ps @ [(i, Nothing_More)]" and "a = Enable_Button \<longrightarrow> no_file d i"
  shows "files_kept d (set_after a s)"
proof -
  have "files_kept d ((s\<lparr>rp_pending := ps\<rparr>)\<lparr>rp_pending := rp_pending (s\<lparr>rp_pending := ps\<rparr>) @ [(i, a)]\<rparr>)"
    by (rule kept_pending(1)) (use assms(2,3) kept_pending(2) [OF assms(1), of ps] in auto)
  then show ?thesis by (simp add: set_after_def assms(2))
qed

lemma kept_send_locked:
  assumes "with_uploads d w" and "upload_doc d" and "e \<in> set (rd_elements d)" and "files_kept d s"
    and "after = Enable_Button \<longrightarrow> no_file d (pe_id e)" and "\<And>s. files_kept d s \<Longrightarrow> files_kept d (unlock e s)"
  shows "files_kept d (send_locked w e after unlock s)"
proof -
  obtain t x where r: "handle_remote (before_send (rw_client w) (rw_doc w) e) (rw_client w) (rw_doc w) e s = (t, x)" by fastforce
  have k: "files_kept d t" using kept_call [OF assms(1-4)] r by simp
  show ?thesis
  proof (cases "x = Started")
    case True
    then obtain ps where "rp_pending t = ps @ [(pe_id e, Nothing_More)]" using started_last [of _ _ _ e] r by blast
    then have "files_kept d (set_after after t)" by (rule kept_set_after [OF k]) (rule assms(5))
    then show ?thesis by (simp add: send_locked_def r True)
  qed (simp add: send_locked_def r assms(6) k)
qed

lemma kept_stop [simp]: "files_kept d (hd_state (stop_everything i s)) = files_kept d s"
  by (simp add: stop_everything_def rails_leave_def)

lemma hd_state_simps [simp]: "hd_state (rails_returns b s) = s" "hd_state (rails_leave s) = s"
  by (simp_all add: rails_returns_def rails_leave_def)

lemma kept_method [simp]: "files_kept d (handle_method g e s) = files_kept d s"
  by (simp add: handle_method_def)

lemma kept_timer [simp]: "files_kept d (add_timer b e s) = files_kept d s"
  by (simp add: add_timer_def)

lemma kept_link:
  assumes "with_uploads d w" and "upload_doc d" and "e \<in> set (rd_elements d)" and "files_kept d s"
  shows "files_kept d (hd_state (link_click w e s))"
proof -
  obtain s1 b where a: "allow_action (rw_client w) e s = (s1, b)" by fastforce
  note k = kept_allow [OF a assms(4)]
  have "files_kept d v \<Longrightarrow> files_kept d (send_locked w e Enable_Link enable_element v)" for v
    by (rule kept_send_locked [OF assms(1-3)]) simp_all
  then show ?thesis using k by (simp add: link_click_def a Let_def)
qed

lemma kept_button:
  assumes "with_uploads d w" and "upload_doc d" and "e \<in> set (rd_elements d)" and "files_kept d s" and "pe_tag e = ''button''"
  shows "files_kept d (hd_state (button_click w e s))"
proof -
  obtain s1 b where a: "allow_action (rw_client w) e s = (s1, b)" by fastforce
  note k = kept_allow [OF a assms(4)] and n = button_elsewhere [OF assms(2,3,5)]
  have "files_kept d v \<Longrightarrow> files_kept d (send_locked w e Enable_Button enable_form_element v)" for v
    by (rule kept_send_locked [OF assms(1-3)]) (simp_all add: n)
  then show ?thesis using k n by (simp add: button_click_def a Let_def)
qed

lemma kept_change:
  assumes "with_uploads d w" and "upload_doc d" and "e \<in> set (rd_elements d)" and "files_kept d s"
  shows "files_kept d (hd_state (input_change w e s))"
proof -
  obtain s1 b where a: "allow_action (rw_client w) e s = (s1, b)" by fastforce
  note k = kept_allow [OF a assms(4)]
  show ?thesis using k kept_call [OF assms(1-3) k] by (simp add: input_change_def a)
qed

lemma kept_file_hook:
  assumes "with_uploads d w" and "upload_doc d" and "e \<in> set (rd_elements d)" and "files_kept d s" and "rw_hook w e s = (t, b)"
  shows "files_kept d t"
proof -
  have "files_kept d (setup_upload e s)" using assms(4) by (simp add: setup_upload_def)
  then have "files_kept d (fst (rw_hook w e s))"
    using assms(1) kept_call [OF assms(1-3)] by (auto simp: with_uploads_def file_hook_def)
  then show ?thesis using assms(5) by simp
qed

lemma kept_submit:
  assumes "with_uploads d w" and "upload_doc d" and "e \<in> set (rd_elements d)" and "files_kept d s"
  shows "files_kept d (hd_state (form_submit w e s))"
proof -
  obtain s1 b where a: "allow_action (rw_client w) e s = (s1, b)" by fastforce
  obtain s2 m where c: "check_required w e s1 = (s2, m)" by fastforce
  have k: "files_kept d s2" using kept_allow [OF a assms(4)] c by (auto simp: check_required_def fire_event_def Let_def split: if_splits)
  define ev where "ev = Aborted_File (map pe_id (blank_inputs (rw_doc w) e file_input True s2))"
  obtain s3 g where f: "fire_event (rw_client w) ev (pe_id e) (add_timer True e s2) = (s3, g)" by fastforce
  have k3: "files_kept d s3" using kept_fire [of d "rw_client w" ev "pe_id e" "add_timer True e s2"] k by (simp add: f)
  obtain s4 h where q: "(if g \<and> \<not> rc_stops (rw_client w) ev (pe_id e) then rw_hook w e s3 else (s3, True)) = (s4, h)"
    by fastforce
  have k4: "files_kept d s4" using q k3 kept_file_hook [OF assms(1-3) k3] by (auto split: if_splits)
  show ?thesis
    using kept_allow [OF a assms(4)] k k4 kept_call [OF assms(1-3) k]
    by (simp add: form_submit_def a c Let_def flip: ev_def) (simp add: f q)
qed

lemma kept_press:
  assumes "files_kept d s"
  shows "files_kept d (hd_state (form_input_click w e s))"
proof -
  obtain s1 b where a: "allow_action (rw_client w) e s = (s1, b)" by fastforce
  show ?thesis using kept_allow [OF a assms] by (simp add: form_input_click_def a Let_def split: option.split)
qed

lemma kept_run:
  assumes "with_uploads d w" and "upload_doc d" and "files_kept d s"
    and "\<And>x. m = Element x \<Longrightarrow> x \<in> set (rd_elements d) \<and> (h \<in> {Complete_Button, Button_Click} \<longrightarrow> pe_tag x = ''button'')"
  shows "files_kept d (hd_state (run_rails w h m s))"
proof (cases m)
  case (Element x)
  have x: "x \<in> set (rd_elements d)" "h = Button_Click \<Longrightarrow> pe_tag x = ''button''" using assms(4) [OF Element] by auto
  have "files_kept d (hd_state (answer_ajax (rw_doc w) (rw_target w) h m s))"
    using kept_answer_ajax [OF assms(2,3,4)] assms(1) by (simp add: with_uploads_def)
  then show ?thesis
    using kept_link [OF assms(1,2) x(1) assms(3)] kept_button [OF assms(1,2) x(1) assms(3)] kept_change [OF assms(1,2) x(1) assms(3)]
      kept_submit [OF assms(1,2) x(1) assms(3)] kept_press [OF assms(3), of w x] x(2) assms(3)
    by (cases h) (simp_all add: Element run_rails_def)
qed (simp add: run_rails_def assms(3))

lemma kept_user:
  assumes "with_uploads d w" and "upload_doc d" and "e \<in> set (rd_elements d)" and "files_kept d s"
  shows "files_kept d (user_does w name e s)"
proof -
  let ?w = "w\<lparr>rw_target := pe_id e\<rparr>"
  have w: "with_uploads d ?w" "rw_doc w = d" using assms(1) by (simp_all add: with_uploads_def)
  have "files_kept d (rn_state (rails_event w name e s))"
    unfolding rails_event_def
  proof (rule propagate_keeps)
    fix n u h m v s'
    assume "n \<in> set ([] @ node_path (rw_doc w) e)" "m \<in> set ([] @ node_path (rw_doc w) e)"
      "h \<in> set (hl_list (handlers_of (ep_events (rails_event_page ?w s) v n) u))"
      "matched_by (ep_matching (rails_event_page ?w s)) m h \<or> m = n" "files_kept d s'"
    then have *: "n \<in> set (node_path d e)" "m \<in> set (node_path d e)" "h \<in> set (hl_list (handlers_of (rails_events v n) u))"
      "matched_by node_matches m h \<or> m = n" "files_kept d s'" by (simp_all add: rails_event_page_def w(2))
    show "files_kept d (hd_state (ep_run (rails_event_page ?w s) (ho_handler h) m s'))"
      unfolding rails_event_page_def event_page.simps
      by (rule kept_run [OF w(1) assms(2) *(5)]) (rule path_handler [OF *(1,2) assms(2,3) *(3,4)])
  qed (simp add: start_running_def assms(4))
  then show ?thesis by (simp add: user_does_def Let_def)
qed

section \<open>Steps\<close>

lemma element_of_in: "element_of d i = Some e \<Longrightarrow> e \<in> set (rd_elements d) \<and> pe_id e = i"
  by (auto simp: element_of_def find_Some_iff)

lemma kept_answer:
  assumes "with_uploads d w" and "upload_doc d" and "files_kept d s"
  shows "files_kept d (rails_answer w k ok s)"
proof (cases "k < length (rp_pending s)")
  case True
  obtain i a where p: "rp_pending s ! k = (i, a)" by fastforce
  define s1 where "s1 = s\<lparr>rp_pending := take k (rp_pending s) @ drop (Suc k) (rp_pending s)\<rparr>"
  have k1: "files_kept d s1" unfolding s1_def
    by (rule kept_pending(2) [OF assms(3)]) (auto dest: in_set_takeD in_set_dropD)
  have "(i, a) \<in> set (rp_pending s)" using True p by (metis nth_mem)
  then have a: "a = Enable_Button \<Longrightarrow> no_file d i" using assms(3) by (auto simp: files_kept_def list_all_iff)
  show ?thesis
  proof (cases "element_of d i")
    case None
    then show ?thesis using assms(1) k1 True p by (simp add: rails_answer_def with_uploads_def flip: s1_def)
  next
    case (Some e)
    define s2 where "s2 = (if ok then fst (fire_event (rw_client w) Ajax_Succeeded i s1)
      else after_failure a e (fst (fire_event (rw_client w) Ajax_Failed i s1)))"
    have "files_kept d s2" using k1 a element_of_in [OF Some] by (cases a) (simp_all add: s2_def after_failure_def)
    then have "files_kept d (fire_through (rw_client w) d Ajax_Completed ''ajax:complete'' e s2)"
      using kept_through [OF assms(2)] element_of_in [OF Some] by blast
    then show ?thesis using assms(1) True p Some by (simp add: rails_answer_def with_uploads_def flip: s1_def s2_def)
  qed
qed (simp add: rails_answer_def assms(3))

lemma kept_timers:
  assumes "with_uploads d w" and "upload_doc d" and "files_kept d s"
  shows "files_kept d (rails_timer w k s)"
proof (cases "k < length (rp_timers s)")
  case True
  obtain b i where p: "rp_timers s ! k = (b, i)" by fastforce
  show ?thesis using assms True p element_of_in [of d i]
    by (auto simp: rails_timer_def with_uploads_def Let_def split: option.split)
qed (simp add: rails_timer_def assms(3))

lemma kept_frame:
  assumes "with_uploads d w" and "upload_doc d" and "files_kept d s"
  shows "files_kept d (frame_loads v w k a s)" "files_kept d (abort_upload w k s)"
proof -
  have 1: "files_kept d (set_phase k Frame_Posted s)"
    if "k < length (rp_uploads s)" "ul_phase (rp_uploads s ! k) = Frame_Empty"
  proof -
    have "(map taken (rp_uploads s))[k := taken (rp_uploads s ! k)] = map taken (rp_uploads s)"
      using that(1) by (metis list_update_id nth_map)
    then have "taken_now (set_phase k Frame_Posted s) = taken_now s"
      using that by (simp add: taken_now_def set_phase_def taken_update taken_def)
    then show ?thesis using assms(3) by (simp add: files_kept_def) (simp add: set_phase_def)
  qed
  have 2: "files_kept d (s\<lparr>rp_uploads := take k (rp_uploads s) @ drop (Suc k) (rp_uploads s)\<rparr>)"
    if "k < length (rp_uploads s)" "ul_phase (rp_uploads s ! k) = Frame_Closing"
  proof -
    have "taken_now s = concat (take k (map taken (rp_uploads s))) @ [] @ concat (drop (Suc k) (map taken (rp_uploads s)))"
      unfolding taken_now_def using concat_at [of k "map taken (rp_uploads s)"] that by (simp add: taken_def)
    then show ?thesis using assms(3) by (auto simp: files_kept_def taken_now_def take_map drop_map list_all_iff)
  qed
  have 3: "files_kept d (rails_answer w n ok (clean_up k s))"
    if "k < length (rp_uploads s)" "ul_phase (rp_uploads s ! k) \<noteq> Frame_Closing" for n ok
    by (rule kept_answer [OF assms(1,2) kept_clean [OF that assms(3)]])
  show "files_kept d (frame_loads v w k a s)"
    using 1 2 3 assms(3) by (cases "ul_phase (rp_uploads s ! k)") (simp_all add: frame_loads_def Let_def)
  show "files_kept d (abort_upload w k s)" using 3 assms(3) by (simp add: abort_upload_def Let_def)
qed

text \<open>Users act on elements of the page.\<close>

fun in_page :: "rails_doc \<Rightarrow> upload_step \<Rightarrow> bool" where
  "in_page d (Rails_Step (User_Event name e)) \<longleftrightarrow> e \<in> set (rd_elements d)"
| "in_page d _ \<longleftrightarrow> True"

lemma kept_step:
  assumes "upload_doc (rw_doc w)" and "in_page (rw_doc w) x" and "files_kept (rw_doc w) s"
  shows "files_kept (rw_doc w) (upload_do v w x s)"
proof (cases x)
  case (Rails_Step y)
  note u = with_uploads_uploading [of w]
  show ?thesis
  proof (cases y)
    case (Enters i b c)
    then show ?thesis using assms(3) by (simp add: Rails_Step kept_put)
  qed (use assms in \<open>simp_all add: Rails_Step kept_user [OF u] kept_answer [OF u] kept_timers [OF u]\<close>)
qed (use assms in \<open>simp_all add: kept_frame [OF with_uploads_uploading]\<close>)

lemma kept_run_steps:
  "upload_doc (rw_doc w) \<Longrightarrow> list_all (in_page (rw_doc w)) xs \<Longrightarrow> files_kept (rw_doc w) s \<Longrightarrow>
    files_kept (rw_doc w) (fold (upload_do v w) xs s)"
  by (induction xs arbitrary: s) (simp_all add: kept_step)


section \<open>The round of an upload\<close>

lemma put_twist: "i \<noteq> j \<Longrightarrow> put_element i f (put_element j g s) = put_element j g (put_element i f s)"
  by (simp add: put_element_def fun_upd_twist)

lemma put_fields [simp]:
  "rp_enable_with (put_element i f s) = rp_enable_with s" "rp_once (put_element i f s) = rp_once s"
  "rp_uploads (put_element i f s) = rp_uploads s" "rp_pending (put_element i f s) = rp_pending s"
  "rp_timers (put_element i f s) = rp_timers s" "rp_log (put_element i f s) = rp_log s"
  "rp_button (put_element i f s) = rp_button s" "rp_nonce (put_element i f s) = rp_nonce s"
  by (simp_all add: put_element_def)

lemma put_enable_with: "put_element i f (s\<lparr>rp_enable_with := g\<rparr>) = (put_element i f s)\<lparr>rp_enable_with := g\<rparr>"
  by (simp add: put_element_def)

lemma text_of_elsewhere: "pe_id x \<noteq> i \<Longrightarrow> text_of x (put_element i f s) = text_of x s"
  by (simp add: text_of_def put_element_def)

lemma set_text_elsewhere: "pe_id x \<noteq> i \<Longrightarrow> set_text x t (put_element i f s) = put_element i f (set_text x t s)"
  unfolding set_text_def by (rule put_twist)

lemma lock_elsewhere:
  assumes "pe_id x \<noteq> i"
  shows "disable_form_element x (put_element i f s) = put_element i f (disable_form_element x s)"
    "enable_form_element x (put_element i f s) = put_element i f (enable_form_element x s)"
proof -
  have k: "keep_text x (put_element i f s) = put_element i f (keep_text x s)"
    by (simp add: keep_text_def text_of_elsewhere [OF assms] put_enable_with)
  have "replace_text x (put_element i f v) = put_element i f (replace_text x v)" for v
    by (simp add: replace_text_def set_text_elsewhere [OF assms] split: option.split)
  then show "disable_form_element x (put_element i f s) = put_element i f (disable_form_element x s)"
    by (simp add: disable_form_element_def k put_twist [OF assms])
  show "enable_form_element x (put_element i f s) = put_element i f (enable_form_element x s)"
    by (simp add: enable_form_element_def set_text_elsewhere [OF assms] put_twist [OF assms] split: option.split list.split)
qed

lemma fold_lock_elsewhere:
  assumes "\<forall>x \<in> set xs. pe_id x \<noteq> i"
  shows "fold disable_form_element xs (put_element i f s) = put_element i f (fold disable_form_element xs s)"
    "fold enable_form_element xs (put_element i f s) = put_element i f (fold enable_form_element xs s)"
  using assms by (induction xs arbitrary: s) (simp_all add: lock_elsewhere)

lemma form_elsewhere:
  assumes "\<forall>x \<in> set (form_controls (rd_elements d) e). lockable x \<longrightarrow> pe_id x \<noteq> i"
  shows "disable_form_elements d e (put_element i f s) = put_element i f (disable_form_elements d e s)"
    "enable_form_elements d e (put_element i f s) = put_element i f (enable_form_elements d e s)"
proof -
  have "filter (\<lambda>x. lockable x \<and> P (es_disabled (rp_elements (put_element i f s) (pe_id x)))) (form_controls (rd_elements d) e) =
      filter (\<lambda>x. lockable x \<and> P (es_disabled (rp_elements s (pe_id x)))) (form_controls (rd_elements d) e)" for P
    using assms by (intro filter_cong) (auto simp: put_element_def)
  from this [of Not] this [of "\<lambda>b. b"]
  show "disable_form_elements d e (put_element i f s) = put_element i f (disable_form_elements d e s)"
    "enable_form_elements d e (put_element i f s) = put_element i f (enable_form_elements d e s)"
    unfolding disable_form_elements_def enable_form_elements_def
    using assms by (simp_all add: fold_lock_elsewhere)
qed

lemma release_form:
  assumes "\<forall>x \<in> set (form_controls (rd_elements d) e). lockable x \<longrightarrow> pe_id x \<notin> set is"
  shows "fold release_box is (disable_form_elements d e s) = disable_form_elements d e (fold release_box is s)"
    "fold release_box is (enable_form_elements d e s) = enable_form_elements d e (fold release_box is s)"
  using assms
proof (induction "is" arbitrary: s)
  case (Cons i "is")
  case 1
  then have "\<forall>x \<in> set (form_controls (rd_elements d) e). lockable x \<longrightarrow> pe_id x \<noteq> i" by auto
  from form_elsewhere [OF this, symmetric] 1 Cons.IH(1) show ?case by (simp add: release_box_def)
  case 2
  then have "\<forall>x \<in> set (form_controls (rd_elements d) e). lockable x \<longrightarrow> pe_id x \<noteq> i" by auto
  from form_elsewhere [OF this, symmetric] 2 Cons.IH(2) show ?case by (simp add: release_box_def)
qed simp_all

lemma release_same: "same_elements s t \<Longrightarrow> same_elements (fold release_box is s) (fold release_box is t)"
  by (induction "is" arbitrary: s t) (simp_all add: release_box_def same_elements_def put_element_def)

lemma release_taken:
  assumes "\<forall>x \<in> set xs. \<not> es_disabled (rp_elements s (pe_id x))"
  shows "same_elements (fold release_box (map pe_id xs) (fold take_box xs s)) s"
proof -
  have "rp_enable_with (fold release_box is v) = rp_enable_with v" for "is" v
    by (induction "is" arbitrary: v) (simp_all add: release_box_def)
  moreover have "rp_enable_with (fold take_box xs v) = rp_enable_with v" for v
    by (induction xs arbitrary: v) (simp_all add: take_box_def)
  moreover have "rp_elements (fold release_box (map pe_id xs) (fold take_box xs s)) i = rp_elements s i" for i
    using assms by (auto simp: fold_release fold_take)
  ultimately show ?thesis by (auto simp: same_elements_def)
qed

text \<open>Two rounds of locking and unlocking leave the form as it was.\<close>

lemma locked_twice:
  assumes "distinct (map pe_id (form_controls (rd_elements d) e))"
    and "\<forall>x \<in> set (form_controls (rd_elements d) e). lockable x \<longrightarrow> \<not> es_disabled (rp_elements s (pe_id x)) \<and> text_of x s \<noteq> []"
    and "x \<in> set (form_controls (rd_elements d) e)"
  shows "shown_as x (enable_form_elements d e (disable_form_elements d e (enable_form_elements d e (disable_form_elements d e s)))) =
    shown_as x s"
proof -
  let ?t = "enable_form_elements d e (disable_form_elements d e s)"
  have 1: "shown_as y ?t = shown_as y s" if "y \<in> set (form_controls (rd_elements d) e)" for y
    using unlocking_restores_form [OF assms(1,2)] that by blast
  have "\<forall>y \<in> set (form_controls (rd_elements d) e). lockable y \<longrightarrow> \<not> es_disabled (rp_elements ?t (pe_id y)) \<and> text_of y ?t \<noteq> []"
    using 1 assms(2) by (auto simp: shown_as_def)
  from unlocking_restores_form [OF assms(1) this] show ?thesis using 1 assms(3) by auto
qed


lemma fold_take_fields [simp]:
  "rp_timers (fold take_box xs s) = rp_timers s" "rp_log (fold take_box xs s) = rp_log s"
  "rp_once (fold take_box xs s) = rp_once s" "rp_button (fold take_box xs s) = rp_button s"
  "rp_enable_with (fold take_box xs s) = rp_enable_with s"
  by (induction xs arbitrary: s) (simp_all add: take_box_def)

lemma send_upload_some:
  assumes "enabled_boxes d e s \<noteq> []"
  shows "\<exists>u n. send_upload d e r fs s =
      (fold take_box (enabled_boxes d e s) (s\<lparr>rp_nonce := n, rp_pending := rp_pending s @ [(pe_id e, Nothing_More)]\<rparr>))
        \<lparr>rp_uploads := rp_uploads s @ [u]\<rparr> \<and>
    ul_form u = pe_id e \<and> ul_files u = map pe_id (enabled_boxes d e s) \<and> ul_phase u = Frame_Empty \<and>
    (has_content (map upper (pr_type (rq_call r))) \<longrightarrow> \<not> pr_cross (rq_call r) \<longrightarrow> take (length fs) (ul_fields u) = fs)"
proof -
  define pr where "pr = prepare (rd_origin d) (rp_nonce s) (second_call r e fs)"
  have t: "pr_type pr = map upper (pr_type (rq_call r))" if "\<not> pr_cross (rq_call r)"
    using that by (simp add: pr_def prepare_def second_call_def script_prefilter_def Let_def)
  obtain u where "send_upload d e r fs s =
      (fold take_box (enabled_boxes d e s) (s\<lparr>rp_nonce := pr_nonce pr, rp_pending := rp_pending s @ [(pe_id e, Nothing_More)]\<rparr>))
        \<lparr>rp_uploads := rp_uploads s @ [u]\<rparr>" "ul_form u = pe_id e" "ul_files u = map pe_id (enabled_boxes d e s)"
    "ul_phase u = Frame_Empty" "has_content (pr_type pr) \<longrightarrow> take (length fs) (ul_fields u) = fs"
    using assms by (simp add: send_upload_def Let_def flip: pr_def)
  then show ?thesis using t by (intro exI [of _ u] exI [of _ "pr_nonce pr"]) simp
qed

definition upload_goes :: "rails_world \<Rightarrow> page_element \<Rightarrow> rails_page \<Rightarrow> bool" where
  "upload_goes w e s \<longleftrightarrow>
     pe_tag e = ''form'' \<and> has_data e ''remote'' \<and> \<not> refuses (rw_client w) e \<and>
     (attr e ''novalidate'' \<noteq> None \<or> blank_inputs (rw_doc w) e (required_input s) False s = []) \<and>
     blank_inputs (rw_doc w) e file_input True s \<noteq> [] \<and> enabled_boxes (rw_doc w) e s \<noteq> [] \<and> rp_once s (pe_id e) = [] \<and>
     goes_through (rw_client w) (Aborted_File (map pe_id (blank_inputs (rw_doc w) e file_input True s))) (pe_id e) \<and>
     \<not> rc_false (rw_client w) Ajax_Before (pe_id e) \<and> \<not> rc_false (rw_client w) Remotipart_Submit (pe_id e) \<and>
     has_content (map upper (remote_method e)) \<and> \<not> pr_cross (rq_call (make_request (rw_doc w) e s))"

lemma upper_idem: "map upper (map upper s) = map upper s"
proof -
  have "of_char (upper c) < (97 :: nat) \<or> 122 < (of_char (upper c) :: nat)" for c
    by (auto simp: upper_def Let_def)
  then have "upper (upper c) = upper c" for c by (subst upper_def) (metis not_le)
  then show ?thesis by simp
qed

lemma request_of_form:
  assumes "pe_tag e = ''form''" and "\<not> pr_cross (rq_call (make_request d e s))"
  shows "\<not> pr_cross (rq_call (make_request d e t))" "pr_type (rq_call (make_request d e t)) = map upper (remote_method e)"
  using assms by (auto simp: make_request_def prepare_def remote_call_def script_prefilter_def Let_def split: option.splits if_splits)

lemma boxes_cong: "rp_elements s = rp_elements t \<Longrightarrow> enabled_boxes d e s = enabled_boxes d e t"
  by (simp add: enabled_boxes_def)

lemma form_submit_uploads:
  fixes w e s
  defines "d \<equiv> rw_doc w" and "i \<equiv> pe_id e"
  assumes g: "upload_goes w e s" and w': "w' = uploading w\<lparr>rw_target := i\<rparr>"
  shows "\<exists>t u ns. form_submit w' e s = rails_returns False t \<and> rp_uploads t = rp_uploads s @ [u] \<and>
    rp_pending t = rp_pending s @ [(i, Nothing_More)] \<and> rp_timers t = rp_timers s @ [(True, i), (True, i), (False, i)] \<and>
    rp_once t i = [] \<and> rp_button t i = None \<and> rp_log t = rp_log s @ ns \<and>
    same_elements t (fold take_box (enabled_boxes d e s) s) \<and> ul_form u = i \<and> ul_files u = map pe_id (enabled_boxes d e s) \<and>
    ul_phase u = Frame_Empty \<and>
    take (length (upload_data d e (rp_button s i) s)) (ul_fields u) = upload_data d e (rp_button s i) s"
proof -
  let ?c = "rw_client w" and ?w = "w'"
  let ?C = "with_remotipart ?c d"
  have c [simp]: "rc_false ?C = rc_false ?c" "rc_stops ?C = rc_stops ?c" "rc_own ?C = own_handlers ?c d" "rc_yes ?C = rc_yes ?c"
    by (simp_all add: with_remotipart_def)
  have w [simp]: "rw_doc w' = d" "rw_client w' = ?C" "rw_hook w' = file_hook ?C d"
    by (simp_all add: w' uploading_def Let_def d_def)
  have ref: "\<not> refuses ?C e" using g by (auto simp: upload_goes_def refuses_def split: option.splits)
  obtain s1 where a: "allow_action ?C e s = (s1, True)"
    using allow_refuses [of ?C e s] ref by (metis prod.collapse)
  obtain xs where s1: "s1 = s\<lparr>rp_log := rp_log s @ xs\<rparr>" using noted_allow [OF a] by (auto simp: noted_def)
  have "required_input s1 = required_input s" by (rule ext) (simp add: required_input_def s1)
  then have chk: "check_required w' e s1 = (s1, False)"
    using g blank_inputs_cong [of s1 s] by (auto simp: check_required_def upload_goes_def Let_def s1 d_def)
  define fs where "fs = blank_inputs d e file_input True s"
  have files: "blank_inputs d e file_input True s1 = fs" using blank_inputs_cong [of s1 s] by (simp add: fs_def s1)
  define ev where "ev = Aborted_File (map pe_id fs)"
  have goes: "\<not> rc_false ?c ev i" "\<not> rc_stops ?c ev i" "fs \<noteq> []" "rp_once s i = []" "enabled_boxes d e s \<noteq> []" "pe_tag e = ''form''"
    "has_data e ''remote''" "\<not> rc_false ?c Ajax_Before i" "\<not> rc_false ?c Remotipart_Submit i"
    using g by (simp_all add: upload_goes_def goes_through_def ev_def fs_def d_def i_def)
  define q0 where "q0 = setup_upload e (add_note (Fired ev i) (add_timer True e s1))"
  define q1 where "q1 = add_note (Fired Ajax_Before i) q0"
  define r where "r = make_request d e q1"
  define q3 where "q3 = add_note (Fired Ajax_Before_Send i) (q1\<lparr>rp_button := (rp_button q1)(i := None), rp_nonce := pr_nonce (rq_call r)\<rparr>)"
  define b where "b = rp_button s i"
  define q4 where "q4 = once_handler ?c d e r b q3"
  have once: "rp_once q3 i = [b]" and el: "rp_elements q3 = rp_elements s"
    using goes(4) by (simp_all add: q3_def q1_def q0_def setup_upload_def add_note_def add_timer_def s1 b_def i_def)
  then have own: "own_handlers ?c d e r q3 = (q4, False)" by (simp add: own_handlers_def i_def q4_def)
  have hook: "file_hook ?C d e (add_note (Fired ev i) (add_timer True e s1)) = (q4, False)"
    using goes(6,8) own
    by (simp add: file_hook_def handle_remote_def before_send_def fire_event_def Let_def flip: q0_def i_def)
      (simp flip: q1_def r_def q3_def)
  have fd: "upload_data d e b q3 = upload_data d e b s" by (simp add: upload_data_def el)
  have type: "\<not> pr_cross (rq_call r)" "has_content (map upper (pr_type (rq_call r)))"
    using g request_of_form [of e d s q1] by (simp_all add: upload_goes_def r_def d_def upper_idem del: map_map)
  define q5 where "q5 = add_note (Fired Remotipart_Submit i) q3"
  have b5: "enabled_boxes d e q5 = enabled_boxes d e s" by (rule boxes_cong) (simp add: q5_def add_note_def el)
  obtain u n where u: "send_upload d e r (upload_data d e b s) q5 =
      (fold take_box (enabled_boxes d e s) (q5\<lparr>rp_nonce := n, rp_pending := rp_pending q5 @ [(i, Nothing_More)]\<rparr>))
        \<lparr>rp_uploads := rp_uploads q5 @ [u]\<rparr>" "ul_form u = i" "ul_files u = map pe_id (enabled_boxes d e s)" "ul_phase u = Frame_Empty"
    "take (length (upload_data d e b s)) (ul_fields u) = upload_data d e b s"
    using send_upload_some [of d e q5 r "upload_data d e b s"] goes(5) type unfolding b5 i_def by blast
  have q4: "q4 = (add_timer True e (send_upload d e r (upload_data d e b s) q5))\<lparr>rp_once := (rp_once q3)(i := [])\<rparr>"
    using goes(9) u(1) by (simp add: q4_def once_handler_def fire_event_def Let_def fd i_def [symmetric] q5_def [symmetric])
      (simp add: add_timer_def q5_def add_note_def)
  define t where "t = add_timer False e q4"
  have fire: "fire_event ?C ev i (add_timer True e s1) = (add_note (Fired ev i) (add_timer True e s1), True)"
    using goes(1) by (simp add: fire_event_def)
  have "form_submit w' e s = rails_returns False t"
    using goes(2,3,7) hook by (simp add: form_submit_def a chk files fire t_def Let_def flip: ev_def i_def)
  moreover have q5: "rp_uploads q5 = rp_uploads s" "rp_pending q5 = rp_pending s" "rp_button q5 i = None" "\<exists>ns. rp_log q5 = rp_log s @ ns"
    "rp_timers q5 = rp_timers s @ [(True, i)]"
    by (simp_all add: add_timer_def q5_def q3_def q1_def q0_def setup_upload_def add_note_def s1 i_def)
  moreover have "rp_uploads t = rp_uploads s @ [u]" "rp_pending t = rp_pending s @ [(i, Nothing_More)]" "rp_once t i = []"
    "rp_button t i = None" "\<exists>ns. rp_log t = rp_log s @ ns" "rp_timers t = rp_timers s @ [(True, i), (True, i), (False, i)]"
    using q5 by (simp_all add: t_def q4 u(1) add_timer_def fold_take i_def)
  moreover have "same_elements t (fold take_box (enabled_boxes d e s) s)"
  proof -
    have "same_elements (fold take_box xs v) (fold take_box xs v')" if "same_elements v v'" for xs v v'
      using that by (induction xs arbitrary: v v') (simp_all add: take_box_def same_elements_def put_element_def)
    moreover have "same_elements (q5\<lparr>rp_nonce := n, rp_pending := rp_pending q5 @ [(i, Nothing_More)]\<rparr>) s"
      by (simp add: same_elements_def q5_def q3_def q1_def q0_def setup_upload_def add_note_def s1 add_timer_def)
    ultimately have "same_elements (fold take_box (enabled_boxes d e s) (q5\<lparr>rp_nonce := n, rp_pending := rp_pending q5 @ [(i, Nothing_More)]\<rparr>))
      (fold take_box (enabled_boxes d e s) s)" by blast
    then show ?thesis by (simp add: same_elements_def t_def q4 u(1) add_timer_def)
  qed
  ultimately show ?thesis using u(2-5) unfolding b_def by blast
qed


lemma lock_more_fields [simp]:
  "rp_timers (disable_form_element x s) = rp_timers s" "rp_timers (enable_form_element x s) = rp_timers s"
  "rp_uploads (disable_form_element x s) = rp_uploads s" "rp_uploads (enable_form_element x s) = rp_uploads s"
  by (auto simp: disable_form_element_def enable_form_element_def keep_text_def replace_text_def set_text_def put_element_def
      split: option.split list.split)

lemma fold_lock_fields [simp]:
  "rp_timers (fold disable_form_element xs s) = rp_timers s" "rp_timers (fold enable_form_element xs s) = rp_timers s"
  "rp_uploads (fold disable_form_element xs s) = rp_uploads s" "rp_uploads (fold enable_form_element xs s) = rp_uploads s"
  by (induction xs arbitrary: s) simp_all

lemma form_fields [simp]:
  "rp_timers (disable_form_elements d e s) = rp_timers s" "rp_timers (enable_form_elements d e s) = rp_timers s"
  "rp_uploads (disable_form_elements d e s) = rp_uploads s" "rp_uploads (enable_form_elements d e s) = rp_uploads s"
  "rp_pending (disable_form_elements d e s) = rp_pending s" "rp_pending (enable_form_elements d e s) = rp_pending s"
  "rp_log (disable_form_elements d e s) = rp_log s" "rp_log (enable_form_elements d e s) = rp_log s"
  by (simp_all add: disable_form_elements_def enable_form_elements_def)

lemma upload_started:
  assumes "upload_goes w e s" and "plain_above (rw_doc w) e"
  shows "\<exists>t u ns. user_does (uploading w) ''submit'' e s = t \<and> rp_uploads t = rp_uploads s @ [u] \<and>
    rp_pending t = rp_pending s @ [(pe_id e, Nothing_More)] \<and>
    rp_timers t = rp_timers s @ [(True, pe_id e), (True, pe_id e), (False, pe_id e)] \<and>
    rp_log t = rp_log s @ ns \<and> same_elements t (fold take_box (enabled_boxes (rw_doc w) e s) s) \<and>
    ul_form u = pe_id e \<and> ul_files u = map pe_id (enabled_boxes (rw_doc w) e s) \<and> ul_phase u = Frame_Empty \<and>
    take (length (upload_data (rw_doc w) e (rp_button s (pe_id e)) s)) (ul_fields u) =
      upload_data (rw_doc w) e (rp_button s (pe_id e)) s"
proof -
  let ?w = "uploading w\<lparr>rw_target := pe_id e\<rparr>"
  obtain t u ns where t: "form_submit ?w e s = rails_returns False t" "rp_uploads t = rp_uploads s @ [u]"
    "rp_pending t = rp_pending s @ [(pe_id e, Nothing_More)]"
    "rp_timers t = rp_timers s @ [(True, pe_id e), (True, pe_id e), (False, pe_id e)]" "rp_log t = rp_log s @ ns"
    "same_elements t (fold take_box (enabled_boxes (rw_doc w) e s) s)" "ul_form u = pe_id e"
    "ul_files u = map pe_id (enabled_boxes (rw_doc w) e s)" "ul_phase u = Frame_Empty"
    "take (length (upload_data (rw_doc w) e (rp_button s (pe_id e)) s)) (ul_fields u) = upload_data (rw_doc w) e (rp_button s (pe_id e)) s"
    using form_submit_uploads [OF assms(1) refl] by blast
  have d: "rw_doc (uploading w) = rw_doc w" by (simp add: uploading_def Let_def)
  have "rails_event (uploading w) ''submit'' e s = take_handled (run_rails ?w Form_Submit (Element e) s) (start_running s)"
    using one_handler [OF rails_submit [THEN trans], of "_ # []" e _ "rw_doc w" "rails_event_page ?w s" "start_running s"] assms
    by (simp add: rails_event_def rails_event_page_def matched_by_def start_running_def d upload_goes_def)
  then have "user_does (uploading w) ''submit'' e s = t"
    using t(1) by (simp add: user_does_def run_rails_def take_handled_def rails_returns_def rails_leave_def)
  then show ?thesis using t(2-10) by blast
qed

text \<open>Timers and frames of an upload that is the only one.\<close>

lemma timer_step:
  assumes "element_of (rw_doc w) i = Some e" and "k < length (rp_timers s)" and "rp_timers s ! k = (b, i)"
  shows "rails_timer (uploading w) k s =
    (if b then disable_form_elements (rw_doc w) e else enable_form_elements (rw_doc w) e)
      (s\<lparr>rp_timers := take k (rp_timers s) @ drop (Suc k) (rp_timers s)\<rparr>)"
  using assms by (simp add: rails_timer_def uploading_def Let_def)

lemma frame_posts:
  assumes "rp_uploads s = [u]" and "ul_phase u = Frame_Empty"
  shows "frame_loads v w 0 a s =
    add_note (Posted (ul_form u) (ul_url u) (ul_fields u) (ul_files u)) (s\<lparr>rp_uploads := [u\<lparr>ul_phase := Frame_Posted\<rparr>]\<rparr>)"
  using assms by (simp add: frame_loads_def set_phase_def)

lemma frame_answers:
  assumes "rp_uploads s = [u]" and "ul_phase u = Frame_Posted" and "rp_pending s = [(ul_form u, Nothing_More)]"
    and "element_of (rw_doc w) (ul_form u) = Some e" and "pe_tag e = ''form''" and "plain_above (rw_doc w) e"
    and "goes_through (rw_client w) Ajax_Completed (pe_id e)" and "pe_id e = ul_form u"
  shows "\<exists>y ns. frame_loads v (uploading w) 0 a s = enable_form_elements (rw_doc w) e y \<and>
    rp_uploads y = [u\<lparr>ul_phase := Frame_Closing\<rparr>] \<and> rp_pending y = [] \<and> rp_timers y = rp_timers s \<and> rp_log y = rp_log s @ ns \<and>
    same_elements y (fold release_box (ul_files u) s)"
proof -
  define c where "c = with_remotipart (rw_client w) (rw_doc w)"
  define ok where "ok = upload_ok v (ul_types u) a"
  define s1 where "s1 = clean_up 0 s"
  have fr: "rp_timers (fold release_box is x) = rp_timers x" "rp_log (fold release_box is x) = rp_log x" for "is" x
    by (induction "is" arbitrary: x) (simp_all add: release_box_def)
  have s1: "rp_uploads s1 = [u\<lparr>ul_phase := Frame_Closing\<rparr>]" "rp_pending s1 = [(ul_form u, Nothing_More)]" "rp_timers s1 = rp_timers s"
    "rp_log s1 = rp_log s" "same_elements s1 (fold release_box (ul_files u) s)"
    using assms(1,3) by (simp_all add: s1_def clean_up_def set_phase_def fold_release fr same_elements_def)
  define s2 where "s2 = fst (fire_event c (if ok then Ajax_Succeeded else Ajax_Failed) (pe_id e) (s1\<lparr>rp_pending := []\<rparr>))"
  have "frame_loads v (uploading w) 0 a s = rails_answer (uploading w) 0 ok s1"
    using assms(1,2) s1(2) by (simp add: frame_loads_def pending_of_def Let_def ok_def flip: s1_def)
  also have "\<dots> = fire_through c (rw_doc w) Ajax_Completed ''ajax:complete'' e s2"
    using assms(4,8) s1(2) by (simp add: rails_answer_def uploading_def Let_def after_failure_def s2_def flip: c_def)
  also have "\<dots> = enable_form_elements (rw_doc w) e (add_note (Fired Ajax_Completed (pe_id e)) s2)"
    by (rule form_completed [OF assms(5,6)]) (use assms(7) in \<open>simp add: goes_through_def c_def with_remotipart_def\<close>)
  finally show ?thesis
    using s1 by (intro exI conjI) (assumption | simp add: s2_def fire_event_def add_note_def same_elements_def)+
qed


section \<open>Properties\<close>

text \<open>C37. Whatever users do, in whatever order requests are answered, timers run out, frames load and uploads are
  aborted: a file input is out of use exactly while an upload has taken it, no two uploads have taken the same, and when
  none is under way all can be used.\<close>

theorem file_inputs_come_back:
  assumes "upload_doc (rw_doc w)" and "list_all (in_page (rw_doc w)) xs" and "rp_uploads s = []" and "rp_pending s = []"
    and "\<forall>x \<in> set (rd_elements (rw_doc w)). file_input x \<longrightarrow> \<not> es_disabled (rp_elements s (pe_id x))"
    and "t = fold (upload_do v w) xs s" and "x \<in> set (rd_elements (rw_doc w))" and "file_input x"
  shows "distinct (taken_now t) \<and>
    (es_disabled (rp_elements t (pe_id x)) \<longleftrightarrow> (\<exists>u \<in> set (rp_uploads t). ul_phase u \<noteq> Frame_Closing \<and> pe_id x \<in> set (ul_files u)))"
proof -
  have "files_kept (rw_doc w) s" using assms(3-5) by (auto simp: files_kept_def taken_now_def list_all_iff)
  then have k: "files_kept (rw_doc w) t" unfolding assms(6) by (rule kept_run_steps [OF assms(1,2)])
  then show ?thesis using assms(7,8) by (auto simp: files_kept_def taken_now_def taken_def list_all_iff)
qed

text \<open>What happens after a submission, in the order of the delays: the form is locked, unlocked and locked again, the
  frame loads empty, with the reply, and once more.\<close>

definition upload_course :: "upload_reply \<Rightarrow> upload_step list" where
  "upload_course a =
     [Rails_Step (Timer 0), Rails_Step (Timer 1), Rails_Step (Timer 0), Frame_Loads 0 a, Frame_Loads 0 a, Frame_Loads 0 a]"

lemma upload_course_run:
  fixes a v
  assumes "rp_uploads t = [u]" and "ul_phase u = Frame_Empty" and "ul_form u = pe_id e" and "rp_pending t = [(pe_id e, Nothing_More)]"
    and "rp_timers t = [(True, pe_id e), (True, pe_id e), (False, pe_id e)]"
    and "element_of (rw_doc w) (pe_id e) = Some e" and "pe_tag e = ''form''" and "plain_above (rw_doc w) e"
    and "goes_through (rw_client w) Ajax_Completed (pe_id e)"
  defines "z \<equiv> fold (upload_do v w) (upload_course a) t"
    and "D \<equiv> disable_form_elements (rw_doc w) e" and "E \<equiv> enable_form_elements (rw_doc w) e"
  shows "rp_uploads z = []" "rp_pending z = []" "rp_timers z = []" "Posted (pe_id e) (ul_url u) (ul_fields u) (ul_files u) \<in> set (rp_log z)"
    "same_elements z (E (fold release_box (ul_files u) (D (E (D t)))))"
proof -
  let ?u = "u\<lparr>ul_phase := Frame_Posted\<rparr>"
  define v1 where "v1 = D (t\<lparr>rp_timers := [(True, pe_id e), (False, pe_id e)]\<rparr>)"
  define v2 where "v2 = E (v1\<lparr>rp_timers := [(True, pe_id e)]\<rparr>)"
  define v3 where "v3 = D (v2\<lparr>rp_timers := []\<rparr>)"
  define v4 where "v4 = add_note (Posted (pe_id e) (ul_url u) (ul_fields u) (ul_files u)) (v3\<lparr>rp_uploads := [?u]\<rparr>)"
  have up: "rp_uploads v3 = [u]" "rp_uploads v4 = [?u]" "rp_pending v4 = [(pe_id e, Nothing_More)]"
    "rp_timers v1 = [(True, pe_id e), (False, pe_id e)]" "rp_timers v2 = [(True, pe_id e)]" "rp_timers v4 = []"
    "Posted (pe_id e) (ul_url u) (ul_fields u) (ul_files u) \<in> set (rp_log v4)"
    by (simp_all add: v4_def v3_def v2_def v1_def add_note_def assms(1-5) D_def E_def)
  have "rails_timer (uploading w) 0 t = v1"
    by (rule timer_step [OF assms(6), of 0 t True, THEN trans]) (simp_all add: assms(5) v1_def D_def)
  moreover have "rails_timer (uploading w) 1 v1 = v2"
    by (rule timer_step [OF assms(6), of 1 v1 False, THEN trans]) (simp_all add: up(4) v2_def E_def)
  moreover have "rails_timer (uploading w) 0 v2 = v3"
    by (rule timer_step [OF assms(6), of 0 v2 True, THEN trans]) (simp_all add: up(5) v3_def D_def)
  moreover have "frame_loads v (uploading w) 0 a v3 = v4" using frame_posts [OF up(1) assms(2)] by (simp add: v4_def assms(3))
  ultimately have v4: "z = fold (upload_do v w) [Frame_Loads 0 a, Frame_Loads 0 a] v4" by (simp add: z_def upload_course_def)
  have p: "ul_phase ?u = Frame_Posted" "rp_pending v4 = [(ul_form ?u, Nothing_More)]" "element_of (rw_doc w) (ul_form ?u) = Some e"
    "pe_id e = ul_form ?u" by (simp_all add: up assms(3,6))
  obtain y ms where y: "frame_loads v (uploading w) 0 a v4 = E y" "rp_uploads y = [?u\<lparr>ul_phase := Frame_Closing\<rparr>]"
    "rp_pending y = []" "rp_timers y = rp_timers v4" "rp_log y = rp_log v4 @ ms" "same_elements y (fold release_box (ul_files ?u) v4)"
    using frame_answers [OF up(2) p(1-3) assms(7-9) p(4), of v a] unfolding E_def by blast
  have z: "z = (E y)\<lparr>rp_uploads := []\<rparr>" unfolding v4 by (simp add: y(1)) (simp add: frame_loads_def y(2) E_def)
  then show "rp_uploads z = []" "rp_pending z = []" "rp_timers z = []" "Posted (pe_id e) (ul_url u) (ul_fields u) (ul_files u) \<in> set (rp_log z)"
    using y(3-5) up(6,7) by (simp_all add: E_def)
  note f = same_elements_form [of _ _ "rw_doc w" e, folded D_def E_def]
  have "same_elements v1 (D t)" unfolding v1_def by (rule f) (simp add: same_elements_def)
  then have "same_elements v2 (E (D t))" unfolding v2_def by (intro f) (simp add: same_elements_def)
  then have "same_elements v3 (D (E (D t)))" unfolding v3_def by (intro f) (simp add: same_elements_def)
  then have "same_elements v4 (D (E (D t)))" by (simp add: v4_def add_note_def same_elements_def)
  then have "same_elements (fold release_box (ul_files u) v4) (fold release_box (ul_files u) (D (E (D t))))" by (rule release_same)
  then have "same_elements y (fold release_box (ul_files u) (D (E (D t))))" using y(6) by (simp add: same_elements_def)
  then have "same_elements (E y) (E (fold release_box (ul_files u) (D (E (D t)))))" by (rule f)
  then show "same_elements z (E (fold release_box (ul_files u) (D (E (D t)))))" by (simp add: z same_elements_def)
qed



section \<open>Replies\<close>

text \<open>A form without a type of data expects a script: the text of whatever page the frame shows is run as one.\<close>

lemma reply_is_run:
  "upload_result v [''script'', ''*''] a =
     (case ue_eval v (reply_text a) of Some r \<Rightarrow> Converted r | None \<Rightarrow> Conversion_Failed)"
proof -
  have h: "handle_responses default_contents ct [(''html'', h), (''text'', x)] (upload_settings v [''script'', ''*'']) =
      ([''text'', ''script'', ''*''], Some x)" for ct h x
    by (simp add: handle_responses_def upload_settings_def default_converters_def)
  show ?thesis
    by (simp add: upload_result_def h ajax_convert_def)
      (simp add: upload_settings_def note_response_def seek_converter_def direct_def default_converters_def run_converter_def
        split: option.split)
qed

text \<open>A status that is given is a text: 304 is no success, though it would be as a number.\<close>

lemma given_304_fails: "reply_status a = Some 304 \<Longrightarrow> \<not> upload_ok v ts a"
  by (simp add: upload_ok_def)

section \<open>A sample page\<close>

definition claim_form :: page_element where
  "claim_form = \<lparr>pe_id = 1, pe_tag = ''form'', pe_attrs = [(''data-remote'', ''true''), (''action'', ''/claims''), (''method'', ''post'')],
     pe_in_form = None, pe_owner = None\<rparr>"

definition claim_field :: page_element where
  "claim_field = \<lparr>pe_id = 2, pe_tag = ''input'', pe_attrs = [(''type'', ''text''), (''name'', ''title'')],
     pe_in_form = Some 1, pe_owner = Some 1\<rparr>"

definition claim_file :: page_element where
  "claim_file = \<lparr>pe_id = 3, pe_tag = ''input'', pe_attrs = [(''type'', ''file''), (''name'', ''scan'')],
     pe_in_form = Some 1, pe_owner = Some 1\<rparr>"

definition claim_send :: page_element where
  "claim_send = \<lparr>pe_id = 4, pe_tag = ''input'', pe_attrs = [(''type'', ''submit''), (''name'', ''commit''), (''data-disable-with'', ''Sending'')],
     pe_in_form = Some 1, pe_owner = Some 1\<rparr>"

definition claim_doc :: rails_doc where
  "claim_doc = sample_doc\<lparr>rd_elements := [claim_form, claim_field, claim_file, claim_send], rd_above := (\<lambda>i. if i \<in> {2, 3, 4} then [claim_form] else [])\<rparr>"

definition claim_world :: rails_world where
  "claim_world = sample_rails\<lparr>rw_doc := claim_doc\<rparr>"

definition claim_page :: rails_page where
  "claim_page = deal_page\<lparr>rp_elements := (\<lambda>i. \<lparr>es_value = Single (if i = 2 then ''Fire'' else if i = 3 then ''scan.png'' else ''Send''),
     es_html = ''x'', es_checked = False, es_disabled = False\<rparr>)\<rparr>"

definition plain_readers :: upload_readers where
  "plain_readers = \<lparr>ue_json = Some, ue_xml = Some, ue_eval = (\<lambda>t. if t = [] then None else Some t)\<rparr>"

definition script_reply :: upload_reply where
  "script_reply = \<lparr>re_area = Some (Some ''text/javascript'', Some ''200'', ''alert(1)''), re_html = ''<textarea>'', re_text = ''''\<rparr>"


definition submit_claim :: upload_step where
  "submit_claim = Rails_Step (User_Event ''submit'' claim_form)"

lemma claim_doc_ok: "upload_doc claim_doc"
  by (auto simp: upload_doc_def claim_doc_def claim_form_def claim_field_def claim_file_def claim_send_def file_input_def typed_def
      attr_def disables_def has_data_def data_attr_def)

theorem file_inputs_come_back_witness:
  "let t = fold (upload_do plain_readers claim_world) [submit_claim, submit_claim, Frame_Loads 0 script_reply] claim_page in
     distinct (taken_now t) \<and>
     (es_disabled (rp_elements t 3) \<longleftrightarrow> (\<exists>u \<in> set (rp_uploads t). ul_phase u \<noteq> Frame_Closing \<and> 3 \<in> set (ul_files u)))"
proof -
  have d: "rw_doc claim_world = claim_doc" "pe_id claim_file = 3" by (simp_all add: claim_world_def claim_file_def)
  have "list_all (in_page claim_doc) [submit_claim, submit_claim, Frame_Loads 0 script_reply]"
    "rp_uploads claim_page = []" "rp_pending claim_page = []" "claim_file \<in> set (rd_elements claim_doc)" "file_input claim_file"
    by (simp_all add: submit_claim_def claim_doc_def claim_page_def deal_page_def claim_file_def file_input_def typed_def attr_def)
  moreover have "\<forall>x \<in> set (rd_elements claim_doc). file_input x \<longrightarrow> \<not> es_disabled (rp_elements claim_page (pe_id x))"
    by (simp add: claim_page_def deal_page_def)
  ultimately show ?thesis
    unfolding Let_def by (intro file_inputs_come_back [of claim_world _ claim_page _ plain_readers claim_file, unfolded d, OF claim_doc_ok _ _ _ _ refl])
qed


section \<open>What goes wrong\<close>

text \<open>
  A second submission while the first is under way finds only disabled file inputs: it is sent without them, and what it
  sends is no data of the form at all.
\<close>

lemma second_submission_sends_nothing:
  "let s = fold (upload_do plain_readers claim_world) [submit_claim, submit_claim] claim_page in
     length (rp_uploads s) = 1 \<and>
     (case last (rp_log s) of Requested i r \<Rightarrow> rq_data r = Query_Text ''[object Object],[object Object],[object Object]'' | _ \<Rightarrow> False)"
  by code_simp

text \<open>A reply that is there before the second lock leaves the form locked for good.\<close>

lemma early_reply_leaves_locked:
  "let s = fold (upload_do plain_readers claim_world)
       [submit_claim, Rails_Step (Timer 0), Rails_Step (Timer 1), Frame_Loads 0 script_reply, Frame_Loads 0 script_reply,
        Rails_Step (Timer 0)] claim_page in
     rp_pending s = [] \<and> rp_timers s = [] \<and> shown_as claim_send s = (''Sending'', True)"
  by code_simp

text \<open>
  A submission a handler of \<open>ajax:before\<close> has stopped leaves its handler behind; the next one sends the form twice,
  the second time without its data.
\<close>

definition stopping_world :: rails_world where
  "stopping_world = claim_world\<lparr>rw_client := (rw_client claim_world)\<lparr>rc_false := (\<lambda>ev i. ev = Ajax_Before)\<rparr>\<rparr>"

lemma stopped_submission_doubles_next:
  "let s = upload_do plain_readers claim_world submit_claim (upload_do plain_readers stopping_world submit_claim claim_page) in
     length (rp_uploads s) = 1 \<and> length (rp_pending s) = 2 \<and> (case last (rp_log s) of Requested i r \<Rightarrow> True | _ \<Rightarrow> False)"
  by code_simp

text \<open>A handler bound to the form that refuses the request before it is sent does not stop the upload.\<close>

definition refusing_world :: rails_world where
  "refusing_world = claim_world\<lparr>rw_client := (rw_client claim_world)\<lparr>rc_false := (\<lambda>ev i. ev = Ajax_Before_Send)\<rparr>\<rparr>"

lemma refused_upload_goes:
  "length (rp_uploads (upload_do plain_readers refusing_world submit_claim claim_page)) = 1"
  by code_simp

text \<open>To another host the expected script turns the request into a GET, and the fields are dropped from the form that is posted.\<close>

definition foreign_form :: page_element where
  "foreign_form = claim_form\<lparr>pe_attrs := [(''data-remote'', ''true''), (''action'', ''http://other.example/claims''), (''method'', ''post'')]\<rparr>"

definition foreign_world :: rails_world where
  "foreign_world = claim_world\<lparr>rw_doc := claim_doc\<lparr>rd_elements := [foreign_form, claim_field, claim_file, claim_send]\<rparr>\<rparr>"

lemma foreign_upload_drops_fields:
  "map (map fst \<circ> ul_fields) (rp_uploads (upload_do plain_readers foreign_world (Rails_Step (User_Event ''submit'' foreign_form)) claim_page)) =
    [[''X-Requested-With'', ''X-Http-Accept'']]"
  by code_simp

end
