(* ===== verification/Animations.thy ===== *)
theory Animations
  imports Complex_Main Prelude
begin

text \<open>
  Queues and animations of jQuery: \<open>queue\<close>, \<open>dequeue\<close>, \<open>delay\<close>, \<open>promise\<close>, \<open>animate\<close> with numbers and with show, hide
  and toggle, \<open>stop\<close>, \<open>finish\<close> and the timer that drives them. Values are rational numbers in one unit; the easing
  functions and what the style sheets give a property are arguments (\<open>fx_env\<close>). Callbacks of the application are
  noted and do not call back. The time is read once for each step. A zero duration ends an animation within the call
  that starts it, and so the rest of its queue may run in one call: \<open>run_entries\<close> is that chain, with the entries left as
  its measure.
\<close>

section \<open>State\<close>

datatype fx_value = Aim rat | Move rat | Fx_Show | Fx_Hide | Fx_Toggle

record animate_spec =
  am_props :: "(string \<times> fx_value) list"
  am_duration :: int
  am_easing :: string
  am_done :: nat

datatype fx_entry = In_Progress | Animate animate_spec | Pause int | Custom nat

text \<open>The hooks of a queue: the timer of a delay that runs, and the promises that wait for the queue to be empty.\<close>

record fx_hooks =
  hk_stop :: "nat option"
  hk_waiting :: "nat list"

text \<open>What an unfinished show or hide has put aside: the values of its properties, and where a toggle started.\<close>

record show_data =
  sd_hidden :: "bool option"
  sd_values :: "string \<Rightarrow> rat option"

record fx_element =
  fe_style :: "string \<Rightarrow> rat option"
  fe_hidden :: bool
  fe_show :: "show_data option"
  fe_queue :: "string \<Rightarrow> fx_entry list option"
  fe_hooks :: "string \<Rightarrow> fx_hooks option"

record tween =
  tw_prop :: string
  tw_start :: rat
  tw_end :: rat

text \<open>An animation: what it restores and whether it hides at its end, whether it was stopped, and its outcome.\<close>

record animation =
  an_elem :: nat
  an_queue :: string
  an_spec :: animate_spec
  an_start :: int
  an_tweens :: "tween list"
  an_hides :: bool
  an_restore :: "(string \<times> rat option) list"
  an_stopped :: bool
  an_settled :: "bool option"

datatype fx_note = Fx_Done nat nat | Fx_Called nat nat | Promise_Kept nat

record fx_world =
  fx_now :: int
  fx_elements :: "nat \<Rightarrow> fx_element"
  fx_anims :: "animation list"
  fx_timers :: "nat list"
  fx_delays :: "(nat \<times> nat \<times> string) list"
  fx_next :: nat
  fx_running :: bool
  fx_log :: "fx_note list"

record fx_env =
  en_ease :: "string \<Rightarrow> rat \<Rightarrow> rat"
  en_base :: "nat \<Rightarrow> string \<Rightarrow> rat"

definition put_fx :: "nat \<Rightarrow> (fx_element \<Rightarrow> fx_element) \<Rightarrow> fx_world \<Rightarrow> fx_world" where
  "put_fx e f w = w\<lparr>fx_elements := (fx_elements w)(e := f (fx_elements w e))\<rparr>"

definition put_anim :: "nat \<Rightarrow> (animation \<Rightarrow> animation) \<Rightarrow> fx_world \<Rightarrow> fx_world" where
  "put_anim i f w = w\<lparr>fx_anims := (fx_anims w)[i := f (fx_anims w ! i)]\<rparr>"

definition fx_say :: "fx_note \<Rightarrow> fx_world \<Rightarrow> fx_world" where
  "fx_say n w = w\<lparr>fx_log := fx_log w @ [n]\<rparr>"

definition set_queue :: "nat \<Rightarrow> string \<Rightarrow> fx_entry list option \<Rightarrow> fx_world \<Rightarrow> fx_world" where
  "set_queue e ty q = put_fx e (\<lambda>x. x\<lparr>fe_queue := (fe_queue x)(ty := q)\<rparr>)"

definition set_hooks :: "nat \<Rightarrow> string \<Rightarrow> fx_hooks option \<Rightarrow> fx_world \<Rightarrow> fx_world" where
  "set_hooks e ty h = put_fx e (\<lambda>x. x\<lparr>fe_hooks := (fe_hooks x)(ty := h)\<rparr>)"

definition queue_of :: "fx_world \<Rightarrow> nat \<Rightarrow> string \<Rightarrow> fx_entry list" where
  "queue_of w e ty = (case fe_queue (fx_elements w e) ty of Some q \<Rightarrow> q | None \<Rightarrow> [])"

definition hooks_of :: "fx_world \<Rightarrow> nat \<Rightarrow> string \<Rightarrow> fx_hooks" where
  "hooks_of w e ty = (case fe_hooks (fx_elements w e) ty of Some h \<Rightarrow> h | None \<Rightarrow> \<lparr>hk_stop = None, hk_waiting = []\<rparr>)"

text \<open>\<open>cur\<close>: the inline style, else what the style sheets say.\<close>

definition fx_current :: "fx_env \<Rightarrow> fx_world \<Rightarrow> nat \<Rightarrow> string \<Rightarrow> rat" where
  "fx_current v w e p = (case fe_style (fx_elements w e) p of Some x \<Rightarrow> x | None \<Rightarrow> en_base v e p)"

section \<open>An animation\<close>

text \<open>
  The pass over show, hide and toggle: whether the element counts as hidden, whether something toggles, and the
  properties that take part with the values to restore.
\<close>

fun show_pass ::
  "show_data option \<Rightarrow> (string \<Rightarrow> rat option) \<Rightarrow> (string \<times> fx_value) list \<Rightarrow> bool \<Rightarrow>
    bool \<times> bool \<times> (string \<times> rat option) list" where
  "show_pass sd st [] hidden = (hidden, False, [])"
| "show_pass sd st ((p, x) # ps) hidden =
     (let kept = (case sd of Some d \<Rightarrow> sd_values d p | None \<Rightarrow> None);
          old = (case kept of Some y \<Rightarrow> if y = 0 then st p else Some y | None \<Rightarrow> st p)
      in if x = Fx_Show \<or> x = Fx_Hide \<or> x = Fx_Toggle
         then if x = (if hidden then Fx_Hide else Fx_Show)
              then if x = Fx_Show \<and> kept \<noteq> None
                   then let (h, t, orig) = show_pass sd st ps True in (h, t, (p, old) # orig)
                   else show_pass sd st ps hidden
              else let (h, t, orig) = show_pass sd st ps hidden in (h, t \<or> x = Fx_Toggle, (p, old) # orig)
         else show_pass sd st ps hidden)"

fun show_tweens :: "(string \<Rightarrow> rat) \<Rightarrow> bool \<Rightarrow> (string \<times> rat option) list \<Rightarrow> show_data \<Rightarrow> tween list \<times> show_data" where
  "show_tweens cur hidden [] sd = ([], sd)"
| "show_tweens cur hidden ((p, old) # orig) sd =
     (let tw = (if \<not> hidden then \<lparr>tw_prop = p, tw_start = cur p, tw_end = 0\<rparr>
                else case sd_values sd p of
                  Some x \<Rightarrow> \<lparr>tw_prop = p, tw_start = cur p, tw_end = x\<rparr>
                | None \<Rightarrow> \<lparr>tw_prop = p, tw_start = (if p = ''width'' \<or> p = ''height'' then 1 else 0), tw_end = cur p\<rparr>);
          sd1 = (if sd_values sd p = None then sd\<lparr>sd_values := (sd_values sd)(p \<mapsto> cur p)\<rparr> else sd);
          (tws, sd2) = show_tweens cur hidden orig sd1
      in (tw # tws, sd2))"

text \<open>The tweens of an animation; the value of a toggle that the pass left out makes none.\<close>

fun plain_tweens :: "(string \<Rightarrow> rat) \<Rightarrow> (string \<times> fx_value) list \<Rightarrow> tween list" where
  "plain_tweens cur [] = []"
| "plain_tweens cur ((p, x) # ps) =
     (case x of
        Aim y \<Rightarrow> \<lparr>tw_prop = p, tw_start = cur p, tw_end = y\<rparr> # plain_tweens cur ps
      | Move y \<Rightarrow> \<lparr>tw_prop = p, tw_start = cur p, tw_end = cur p + y\<rparr> # plain_tweens cur ps
      | _ \<Rightarrow> plain_tweens cur ps)"

definition prefilter ::
  "fx_env \<Rightarrow> nat \<Rightarrow> (string \<times> fx_value) list \<Rightarrow> fx_world \<Rightarrow> tween list \<times> bool \<times> (string \<times> rat option) list \<times> fx_world" where
  "prefilter v e props w =
     (let x = fx_elements w e; cur = fx_current v w e;
          (hidden, toggles, orig) = show_pass (fe_show x) (fe_style x) props (fe_hidden x)
      in if orig = [] then (plain_tweens cur props, False, [], w)
         else
           let was = (case fe_show x of Some d \<Rightarrow> (case sd_hidden d of Some h \<Rightarrow> h | None \<Rightarrow> hidden) | None \<Rightarrow> hidden);
               sd = (case fe_show x of Some d \<Rightarrow> d | None \<Rightarrow> \<lparr>sd_hidden = None, sd_values = Map.empty\<rparr>);
               sd1 = (if toggles then sd\<lparr>sd_hidden := Some (\<not> was)\<rparr> else sd);
               (tws, sd2) = show_tweens cur was orig sd1
           in (tws @ plain_tweens cur props, \<not> was, orig,
               put_fx e (\<lambda>y. y\<lparr>fe_show := Some sd2, fe_hidden := (if was then False else fe_hidden y)\<rparr>) w))"

definition run_tween :: "fx_env \<Rightarrow> animation \<Rightarrow> rat \<Rightarrow> tween \<Rightarrow> fx_world \<Rightarrow> fx_world" where
  "run_tween v a percent tw w =
     (let eased = (if am_duration (an_spec a) \<noteq> 0 then en_ease v (am_easing (an_spec a)) percent else percent)
      in put_fx (an_elem a) (\<lambda>x. x\<lparr>fe_style := (fe_style x)(tw_prop tw \<mapsto> (tw_end tw - tw_start tw) * eased + tw_start tw)\<rparr>) w)"

definition run_tweens :: "fx_env \<Rightarrow> animation \<Rightarrow> rat \<Rightarrow> fx_world \<Rightarrow> fx_world" where
  "run_tweens v a percent w = fold (run_tween v a percent) (an_tweens a) w"

definition fx_percent :: "animation \<Rightarrow> int \<Rightarrow> rat" where
  "fx_percent a now =
     (let remaining = max 0 (an_start a + am_duration (an_spec a) - now)
      in 1 - (if am_duration (an_spec a) = 0 then 0 else of_int remaining / of_int (am_duration (an_spec a))))"

definition fx_over :: "animation \<Rightarrow> int \<Rightarrow> bool" where
  "fx_over a now \<longleftrightarrow> \<not> (fx_percent a now < 1 \<and> an_tweens a \<noteq> [])"

text \<open>What the prefilter does when the animation is done, before the callbacks of the application.\<close>

definition restore_style :: "nat \<Rightarrow> string \<times> rat option \<Rightarrow> fx_world \<Rightarrow> fx_world" where
  "restore_style e po = put_fx e (\<lambda>x. x\<lparr>fe_style := (fe_style x)(fst po := snd po)\<rparr>)"

definition anim_done :: "nat \<Rightarrow> fx_world \<Rightarrow> fx_world" where
  "anim_done i w =
     (let a = fx_anims w ! i; e = an_elem a; w1 = put_anim i (\<lambda>a. a\<lparr>an_settled := Some True\<rparr>) w;
          w2 = (if an_hides a then put_fx e (\<lambda>x. x\<lparr>fe_hidden := True\<rparr>) w1 else w1)
      in if an_restore a = [] then w2 else fold (restore_style e) (an_restore a) (put_fx e (\<lambda>x. x\<lparr>fe_show := None\<rparr>) w2))"

text \<open>
  \<open>Animation\<close> up to its timer, with the first run of it: the new animation's number and whether it is over already.
\<close>

definition play :: "fx_env \<Rightarrow> nat \<Rightarrow> string \<Rightarrow> animate_spec \<Rightarrow> fx_world \<Rightarrow> fx_world \<times> nat \<times> bool" where
  "play v e ty spec w =
     (let (tws, hides, orig, w1) = prefilter v e (am_props spec) w; i = length (fx_anims w);
          a = \<lparr>an_elem = e, an_queue = ty, an_spec = spec, an_start = fx_now w, an_tweens = tws, an_hides = hides,
               an_restore = orig, an_stopped = False, an_settled = None\<rparr>;
          w2 = run_tweens v a (fx_percent a (fx_now w)) (w1\<lparr>fx_anims := fx_anims w1 @ [a]\<rparr>)
      in if fx_over a (fx_now w) then (anim_done i w2, i, True)
         else (w2\<lparr>fx_timers := fx_timers w2 @ [i], fx_running := True\<rparr>, i, False))"

section \<open>Queues\<close>

text \<open>The promises that wait are kept, the data of the queue and its hooks are removed.\<close>

definition fire_empty :: "nat \<Rightarrow> string \<Rightarrow> fx_world \<Rightarrow> fx_world" where
  "fire_empty e ty w =
     set_hooks e ty None (set_queue e ty None (fold (\<lambda>p. fx_say (Promise_Kept p)) (hk_waiting (hooks_of w e ty)) w))"

text \<open>
  \<open>dequeue\<close> with the entries left once the mark of a running entry is removed. An animation that is over at once
  calls its complete callback, which calls \<open>dequeue\<close> again.
\<close>

fun run_entries :: "fx_env \<Rightarrow> nat \<Rightarrow> string \<Rightarrow> fx_entry list \<Rightarrow> fx_world \<Rightarrow> fx_world" where
  "run_entries v e ty [] w = fire_empty e ty w"
| "run_entries v e ty (x # rest) w =
     (let w1 = set_hooks e ty (Some ((hooks_of w e ty)\<lparr>hk_stop := None\<rparr>))
                 (set_queue e ty (Some (if ty = ''fx'' then In_Progress # rest else rest)) w)
      in case x of
           In_Progress \<Rightarrow> w1
         | Custom n \<Rightarrow> fx_say (Fx_Called e n) w1
         | Pause ms \<Rightarrow>
             set_hooks e ty (Some ((hooks_of w1 e ty)\<lparr>hk_stop := Some (fx_next w1)\<rparr>))
               (w1\<lparr>fx_delays := fx_delays w1 @ [(fx_next w1, e, ty)], fx_next := Suc (fx_next w1)\<rparr>)
         | Animate spec \<Rightarrow>
             (let (w2, i, over) = play v e ty spec w1
              in if over then run_entries v e ty rest (fx_say (Fx_Done e (am_done spec)) w2) else w2))"

definition unmarked :: "fx_entry list \<Rightarrow> fx_entry list" where
  "unmarked q = (case q of In_Progress # r \<Rightarrow> r | _ \<Rightarrow> q)"

definition dequeue :: "fx_env \<Rightarrow> nat \<Rightarrow> string \<Rightarrow> fx_world \<Rightarrow> fx_world" where
  "dequeue v e ty w = run_entries v e ty (unmarked (queue_of w e ty)) w"

definition settle_queue :: "fx_env \<Rightarrow> nat \<Rightarrow> string \<Rightarrow> fx_world \<Rightarrow> fx_world" where
  "settle_queue v e ty w =
     (let w1 = set_hooks e ty (Some (hooks_of w e ty)) w
      in if ty = ''fx'' \<and> (case queue_of w1 e ty of In_Progress # r \<Rightarrow> False | _ \<Rightarrow> True) then dequeue v e ty w1 else w1)"

definition enqueue :: "fx_env \<Rightarrow> nat \<Rightarrow> string \<Rightarrow> fx_entry \<Rightarrow> fx_world \<Rightarrow> fx_world" where
  "enqueue v e ty x w = settle_queue v e ty (set_queue e ty (Some (queue_of w e ty @ [x])) w)"

definition clear_queue :: "fx_env \<Rightarrow> nat \<Rightarrow> string \<Rightarrow> fx_world \<Rightarrow> fx_world" where
  "clear_queue v e ty w = settle_queue v e ty (set_queue e ty (Some []) w)"

definition promise_of :: "nat \<Rightarrow> string \<Rightarrow> nat \<Rightarrow> fx_world \<Rightarrow> fx_world" where
  "promise_of e ty p w =
     (case fe_hooks (fx_elements w e) ty of
        Some h \<Rightarrow> set_hooks e ty (Some (h\<lparr>hk_waiting := hk_waiting h @ [p]\<rparr>)) w
      | None \<Rightarrow> fx_say (Promise_Kept p) w)"

section \<open>Ending animations\<close>

text \<open>The complete callback, which goes on with the queue.\<close>

definition complete :: "fx_env \<Rightarrow> nat \<Rightarrow> fx_world \<Rightarrow> fx_world" where
  "complete v i w =
     (let a = fx_anims w ! i in dequeue v (an_elem a) (an_queue a) (fx_say (Fx_Done (an_elem a) (am_done (an_spec a))) w))"

definition stop_anim :: "fx_env \<Rightarrow> bool \<Rightarrow> nat \<Rightarrow> fx_world \<Rightarrow> fx_world" where
  "stop_anim v to_end i w =
     (let a = fx_anims w ! i in
        if an_stopped a then w
        else
          let w1 = put_anim i (\<lambda>a. a\<lparr>an_stopped := True\<rparr>) w in
            if to_end
            then let w2 = run_tweens v a 1 w1 in if an_settled a = None then complete v i (anim_done i w2) else w2
            else if an_settled a = None then put_anim i (\<lambda>a. a\<lparr>an_settled := Some False\<rparr>) w1 else w1)"

definition drop_timer :: "nat \<Rightarrow> fx_world \<Rightarrow> fx_world" where
  "drop_timer i w = w\<lparr>fx_timers := remove1 i (fx_timers w)\<rparr>"

definition timers_of :: "nat \<Rightarrow> string option \<Rightarrow> fx_world \<Rightarrow> nat list" where
  "timers_of e ty w =
     filter (\<lambda>i. let a = fx_anims w ! i in
       an_elem a = e \<and> an_settled a = None \<and> (case ty of Some t \<Rightarrow> an_queue a = t | None \<Rightarrow> True)) (fx_timers w)"

definition stop_delays :: "nat \<Rightarrow> string option \<Rightarrow> fx_world \<Rightarrow> fx_world" where
  "stop_delays e ty w =
     (let mine = (\<lambda>t. case ty of Some u \<Rightarrow> t = u | None \<Rightarrow> True);
          w1 = w\<lparr>fx_delays := filter (\<lambda>(n, x, t). \<not> (x = e \<and> mine t \<and> hk_stop (hooks_of w e t) = Some n)) (fx_delays w)\<rparr>
      in put_fx e (\<lambda>x. x\<lparr>fe_hooks := (\<lambda>t. if mine t then map_option (\<lambda>h. h\<lparr>hk_stop := None\<rparr>) (fe_hooks x t) else fe_hooks x t)\<rparr>) w1)"

definition queue_name :: "string option \<Rightarrow> string" where
  "queue_name ty = (case ty of Some t \<Rightarrow> t | None \<Rightarrow> ''fx'')"

definition stop_fx :: "fx_env \<Rightarrow> nat \<Rightarrow> string option \<Rightarrow> bool \<Rightarrow> bool \<Rightarrow> fx_world \<Rightarrow> fx_world" where
  "stop_fx v e ty clear to_end w =
     (let w1 = (if clear then clear_queue v e (queue_name ty) w else w);
          w2 = stop_delays e ty w1;
          mine = rev (timers_of e ty w2);
          w3 = fold (\<lambda>i w. drop_timer i (stop_anim v to_end i w)) mine w2
      in if mine = [] \<or> \<not> to_end then dequeue v e (queue_name ty) w3 else w3)"

definition finish_entry :: "fx_env \<Rightarrow> nat \<Rightarrow> string \<Rightarrow> fx_entry \<Rightarrow> fx_world \<Rightarrow> fx_world" where
  "finish_entry v e ty x w =
     (case x of
        Animate spec \<Rightarrow>
          (let (w1, i, over) = play v e ty spec w in stop_anim v True i (if over then complete v i w1 else w1))
      | _ \<Rightarrow> w)"

text \<open>
  The entries of the old queue are run to their end one after the other. The timers they leave are removed the next
  time the timers run.
\<close>

definition finish_fx :: "fx_env \<Rightarrow> nat \<Rightarrow> string \<Rightarrow> fx_world \<Rightarrow> fx_world" where
  "finish_fx v e ty w =
     (let old = queue_of w e ty;
          w1 = set_queue e ty (Some []) w;
          w2 = (case fe_hooks (fx_elements w e) ty of
                  Some h \<Rightarrow> (case hk_stop h of
                      Some n \<Rightarrow> w1\<lparr>fx_delays := filter (\<lambda>d. fst d \<noteq> n) (fx_delays w1)\<rparr> | None \<Rightarrow> w1)
                | None \<Rightarrow> w1);
          w3 = fold (\<lambda>i w. drop_timer i (stop_anim v True i w)) (rev (timers_of e (Some ty) w2)) w2
      in fold (finish_entry v e ty) old w3)"


section \<open>The timer\<close>

definition tick_one :: "fx_env \<Rightarrow> nat \<Rightarrow> fx_world \<Rightarrow> fx_world" where
  "tick_one v i w =
     (let a = fx_anims w ! i in
        if an_stopped a then drop_timer i w
        else
          let w1 = run_tweens v a (fx_percent a (fx_now w)) w in
            if fx_over a (fx_now w)
            then drop_timer i (if an_settled a = None then complete v i (anim_done i w1) else w1)
            else w1)"

text \<open>
  The loop reaches the timers that are added while it runs after all the others. An animation that was started in this
  run of the timer is not over in it, since it would have been over when it was started.
\<close>

definition fx_tick :: "fx_env \<Rightarrow> fx_world \<Rightarrow> fx_world" where
  "fx_tick v w =
     (let old = fx_timers w; w1 = fold (tick_one v) old w;
          w2 = fold (tick_one v) (filter (\<lambda>i. i \<notin> set old) (fx_timers w1)) w1
      in w2\<lparr>fx_running := (fx_timers w2 \<noteq> [])\<rparr>)"

section \<open>Steps\<close>

text \<open>An animation of nothing is not queued; its complete callback goes on with the queue all the same.\<close>

definition animate_fx :: "fx_env \<Rightarrow> nat \<Rightarrow> string \<Rightarrow> animate_spec \<Rightarrow> fx_world \<Rightarrow> fx_world" where
  "animate_fx v e ty spec w =
     (if am_props spec = []
      then let (w1, i, over) = play v e ty spec w in stop_anim v True i (if over then complete v i w1 else w1)
      else enqueue v e ty (Animate spec) w)"

datatype fx_step =
    Fx_Animate nat string animate_spec
  | Fx_Queue nat string nat
  | Fx_Delay nat string int
  | Fx_Dequeue nat string
  | Fx_Clear nat string
  | Fx_Stop nat "string option" bool bool
  | Fx_Finish nat string
  | Fx_Promise nat string nat
  | Fx_Wait nat
  | Fx_Tick
  | Fx_Timeout nat

fun fx_do :: "fx_env \<Rightarrow> fx_step \<Rightarrow> fx_world \<Rightarrow> fx_world" where
  "fx_do v (Fx_Animate e ty spec) w = animate_fx v e ty spec w"
| "fx_do v (Fx_Queue e ty n) w = enqueue v e ty (Custom n) w"
| "fx_do v (Fx_Delay e ty ms) w = enqueue v e ty (Pause ms) w"
| "fx_do v (Fx_Dequeue e ty) w = dequeue v e ty w"
| "fx_do v (Fx_Clear e ty) w = clear_queue v e ty w"
| "fx_do v (Fx_Stop e ty clear to_end) w = stop_fx v e ty clear to_end w"
| "fx_do v (Fx_Finish e ty) w = finish_fx v e ty w"
| "fx_do v (Fx_Promise e ty p) w = promise_of e ty p w"
| "fx_do v (Fx_Wait n) w = w\<lparr>fx_now := fx_now w + int n\<rparr>"
| "fx_do v Fx_Tick w = (if fx_running w then fx_tick v w else w)"
| "fx_do v (Fx_Timeout n) w =
     (case find (\<lambda>d. fst d = n) (fx_delays w) of
        Some (m, e, ty) \<Rightarrow> dequeue v e ty (w\<lparr>fx_delays := filter (\<lambda>d. fst d \<noteq> n) (fx_delays w)\<rparr>)
      | None \<Rightarrow> w)"

text \<open>\<open>fadeIn\<close>, \<open>fadeOut\<close>, \<open>fadeToggle\<close> and the durations \<open>speed\<close> knows by name.\<close>

definition fx_speed :: "bool \<Rightarrow> int option \<Rightarrow> string \<Rightarrow> int" where
  "fx_speed off ms name = (if off then 0 else case ms of Some d \<Rightarrow> d | None \<Rightarrow> if name = ''slow'' then 600 else if name = ''fast'' then 200 else 400)"

definition fade :: "fx_value \<Rightarrow> int \<Rightarrow> nat \<Rightarrow> animate_spec" where
  "fade x ms n = \<lparr>am_props = [(''opacity'', x)], am_duration = ms, am_easing = ''linear'', am_done = n\<rparr>"

section \<open>What operations leave alone\<close>

lemma put_fx_frame [simp]:
  "fx_now (put_fx e f w) = fx_now w" "fx_anims (put_fx e f w) = fx_anims w" "fx_timers (put_fx e f w) = fx_timers w"
  "fx_delays (put_fx e f w) = fx_delays w" "fx_next (put_fx e f w) = fx_next w" "fx_running (put_fx e f w) = fx_running w"
  "fx_log (put_fx e f w) = fx_log w"
  by (simp_all add: put_fx_def)

lemma put_anim_frame [simp]:
  "fx_now (put_anim i f w) = fx_now w" "fx_timers (put_anim i f w) = fx_timers w" "fx_delays (put_anim i f w) = fx_delays w"
  "fx_elements (put_anim i f w) = fx_elements w" "fx_log (put_anim i f w) = fx_log w" "length (fx_anims (put_anim i f w)) = length (fx_anims w)"
  "fx_running (put_anim i f w) = fx_running w"
  by (simp_all add: put_anim_def)

lemma put_anim_nth: "i < length (fx_anims w) \<Longrightarrow> fx_anims (put_anim i f w) ! j = (if j = i then f (fx_anims w ! i) else fx_anims w ! j)"
  by (cases "j = i") (simp_all add: put_anim_def)

text \<open>The same but for styles and what a show or hide puts aside.\<close>

definition same_queues :: "fx_world \<Rightarrow> fx_world \<Rightarrow> bool" where
  "same_queues w w' \<longleftrightarrow>
     fx_now w' = fx_now w \<and> fx_timers w' = fx_timers w \<and> fx_delays w' = fx_delays w \<and> fx_log w' = fx_log w \<and>
     fx_running w' = fx_running w \<and>
     (\<forall>e. fe_queue (fx_elements w' e) = fe_queue (fx_elements w e) \<and> fe_hooks (fx_elements w' e) = fe_hooks (fx_elements w e))"

lemma same_queues_refl [simp]: "same_queues w w"
  by (simp add: same_queues_def)

lemma same_queues_trans: "same_queues u v \<Longrightarrow> same_queues v w \<Longrightarrow> same_queues u w"
  by (simp add: same_queues_def)

lemma same_queues_put:
  "(\<And>x. fe_queue (f x) = fe_queue x \<and> fe_hooks (f x) = fe_hooks x) \<Longrightarrow> same_queues w (put_fx e f w)"
  by (simp add: same_queues_def put_fx_def)

lemma same_queues_of: "same_queues w w' \<Longrightarrow> queue_of w' = queue_of w"
  by (simp add: same_queues_def queue_of_def fun_eq_iff)

lemma same_queues_anim: "same_queues w (put_anim i f w)"
  by (simp add: same_queues_def)

lemma run_tween_frame: "same_queues w (run_tween v a p tw w) \<and> fx_anims (run_tween v a p tw w) = fx_anims w"
  by (simp add: run_tween_def Let_def same_queues_put)

lemma run_tweens_frame: "same_queues w (run_tweens v a p w)" "fx_anims (run_tweens v a p w) = fx_anims w"
proof -
  have "same_queues w (fold (run_tween v a p) ts w) \<and> fx_anims (fold (run_tween v a p) ts w) = fx_anims w" for ts
    by (induction ts arbitrary: w) (simp, metis fold_simps(2) run_tween_frame same_queues_trans)
  then show "same_queues w (run_tweens v a p w)" "fx_anims (run_tweens v a p w) = fx_anims w" by (simp_all add: run_tweens_def)
qed

lemma prefilter_frame:
  assumes "prefilter v e ps w = (tws, hides, orig, w')"
  shows "same_queues w w'" "fx_anims w' = fx_anims w"
proof -
  have "same_queues w w' \<and> fx_anims w' = fx_anims w"
    using assms by (auto simp: prefilter_def Let_def same_queues_put split: prod.splits if_splits)
  then show "same_queues w w'" "fx_anims w' = fx_anims w" by simp_all
qed

lemma restore_frame: "same_queues w (fold (restore_style e) ps w) \<and> fx_anims (fold (restore_style e) ps w) = fx_anims w"
proof (induction ps arbitrary: w)
  case (Cons x ps)
  have "same_queues w (restore_style e x w)" "fx_anims (restore_style e x w) = fx_anims w"
    by (simp_all add: restore_style_def same_queues_put)
  then show ?case using Cons.IH [of "restore_style e x w"] same_queues_trans by auto
qed simp

lemma anim_done_frame:
  "same_queues w (anim_done i w)" "fx_anims (anim_done i w) = (fx_anims w)[i := (fx_anims w ! i)\<lparr>an_settled := Some True\<rparr>]"
proof -
  define a where "a = fx_anims w ! i"
  define w1 where "w1 = put_anim i (\<lambda>a. a\<lparr>an_settled := Some True\<rparr>) w"
  define w2 where "w2 = (if an_hides a then put_fx (an_elem a) (\<lambda>x. x\<lparr>fe_hidden := True\<rparr>) w1 else w1)"
  have 1: "same_queues w w1" "fx_anims w1 = (fx_anims w)[i := a\<lparr>an_settled := Some True\<rparr>]"
    unfolding w1_def by (rule same_queues_anim) (simp add: put_anim_def a_def)
  have "same_queues w1 w2 \<and> fx_anims w2 = fx_anims w1" by (simp add: w2_def same_queues_put)
  then have 2: "same_queues w w2" "fx_anims w2 = fx_anims w1" using 1 same_queues_trans by auto
  define w3 where "w3 = put_fx (an_elem a) (\<lambda>x. x\<lparr>fe_show := None\<rparr>) w2"
  have 3: "same_queues w w3" "fx_anims w3 = fx_anims w1"
    using 2 same_queues_trans same_queues_put [of "\<lambda>x. x\<lparr>fe_show := None\<rparr>" w2 "an_elem a"] by (simp_all add: w3_def)
  have "anim_done i w = (if an_restore a = [] then w2 else fold (restore_style (an_elem a)) (an_restore a) w3)"
    by (simp add: anim_done_def Let_def a_def [symmetric] w1_def [symmetric] w2_def [symmetric] w3_def [symmetric])
  then have "same_queues w (anim_done i w) \<and> fx_anims (anim_done i w) = fx_anims w1"
    using 2 3 restore_frame [of w3 "an_elem a" "an_restore a"] same_queues_trans by auto
  then show "same_queues w (anim_done i w)" "fx_anims (anim_done i w) = (fx_anims w)[i := (fx_anims w ! i)\<lparr>an_settled := Some True\<rparr>]"
    using 1(2) by (simp_all add: a_def)
qed

lemma fx_percent_fields [simp]:
  "fx_percent (a\<lparr>an_settled := x\<rparr>) n = fx_percent a n" "fx_percent (a\<lparr>an_stopped := b\<rparr>) n = fx_percent a n"
  by (simp_all add: fx_percent_def)

lemma fx_over_fields [simp]:
  "fx_over (a\<lparr>an_settled := x\<rparr>) n = fx_over a n" "fx_over (a\<lparr>an_stopped := b\<rparr>) n = fx_over a n"
  by (simp_all add: fx_over_def)

text \<open>What a new animation is.\<close>

lemma play_result:
  assumes "play v e ty spec w = (w', i, over)"
  shows "i = length (fx_anims w) \<and> queue_of w' = queue_of w \<and> fx_delays w' = fx_delays w \<and> fx_log w' = fx_log w \<and> fx_now w' = fx_now w \<and>
    (\<exists>a. fx_anims w' = fx_anims w @ [a] \<and> an_elem a = e \<and> an_queue a = ty \<and> an_spec a = spec \<and> an_start a = fx_now w \<and> \<not> an_stopped a \<and>
       over = fx_over a (fx_now w) \<and> an_settled a = (if over then Some True else None)) \<and>
    fx_timers w' = fx_timers w @ (if over then [] else [i]) \<and> fx_running w' = (fx_running w \<or> \<not> over) \<and>
    (\<forall>e'. fe_hooks (fx_elements w' e') = fe_hooks (fx_elements w e'))"
proof -
  obtain tws hides orig w1 where p: "prefilter v e (am_props spec) w = (tws, hides, orig, w1)" by (metis prod_cases4)
  note pf = prefilter_frame [OF p]
  define a where "a = \<lparr>an_elem = e, an_queue = ty, an_spec = spec, an_start = fx_now w, an_tweens = tws, an_hides = hides,
    an_restore = orig, an_stopped = False, an_settled = None\<rparr>"
  define w2 where "w2 = run_tweens v a (fx_percent a (fx_now w)) (w1\<lparr>fx_anims := fx_anims w1 @ [a]\<rparr>)"
  have w2: "same_queues w w2" "fx_anims w2 = fx_anims w @ [a]"
    using run_tweens_frame [where w = "w1\<lparr>fx_anims := fx_anims w1 @ [a]\<rparr>" and a = a and p = "fx_percent a (fx_now w)" and v = v] pf
    by (simp_all add: w2_def same_queues_def)
  have res: "play v e ty spec w = (if fx_over a (fx_now w) then (anim_done (length (fx_anims w)) w2, length (fx_anims w), True)
      else (w2\<lparr>fx_timers := fx_timers w2 @ [length (fx_anims w)], fx_running := True\<rparr>, length (fx_anims w), False))"
    by (simp add: play_def p Let_def a_def [symmetric] w2_def [symmetric])
  show ?thesis
  proof (cases "fx_over a (fx_now w)")
    case True
    then have w': "w' = anim_done (length (fx_anims w)) w2" "i = length (fx_anims w)" "over" using res assms by simp_all
    have "same_queues w w'" using w2(1) anim_done_frame(1) same_queues_trans unfolding w' by blast
    moreover have "fx_anims w' = fx_anims w @ [a\<lparr>an_settled := Some True\<rparr>]" by (simp add: w' anim_done_frame(2) w2(2))
    moreover have "fx_over (a\<lparr>an_settled := Some True\<rparr>) (fx_now w)" using True by simp
    ultimately show ?thesis using w'(2,3) same_queues_of [of w w'] by (auto simp: same_queues_def a_def)
  next
    case False
    then have w': "w' = w2\<lparr>fx_timers := fx_timers w2 @ [i], fx_running := True\<rparr>" "i = length (fx_anims w)" "\<not> over" using res assms by auto
    have "queue_of w' = queue_of w" using same_queues_of [OF w2(1)] by (simp add: w' queue_of_def fun_eq_iff)
    then show ?thesis using w2 w' False by (auto simp: same_queues_def a_def)
  qed
qed


section \<open>Running entries\<close>

lemma queue_of_set: "queue_of (set_queue e ty q w) e' ty' =
    (if e' = e \<and> ty' = ty then (case q of Some l \<Rightarrow> l | None \<Rightarrow> []) else queue_of w e' ty')"
  by (simp add: set_queue_def queue_of_def put_fx_def)

lemma queue_of_hooks [simp]: "queue_of (set_hooks e ty h w) = queue_of w"
  by (simp add: set_hooks_def queue_of_def put_fx_def fun_eq_iff)

lemma queue_of_fields [simp]:
  "queue_of (w\<lparr>fx_delays := ds\<rparr>) = queue_of w" "queue_of (w\<lparr>fx_next := n\<rparr>) = queue_of w"
  "queue_of (w\<lparr>fx_timers := ts\<rparr>) = queue_of w" "queue_of (w\<lparr>fx_now := m\<rparr>) = queue_of w" "queue_of (w\<lparr>fx_running := b\<rparr>) = queue_of w"
  by (simp_all add: queue_of_def fun_eq_iff)

lemma set_frame [simp]:
  "fx_anims (set_queue e ty q w) = fx_anims w" "fx_timers (set_queue e ty q w) = fx_timers w" "fx_delays (set_queue e ty q w) = fx_delays w"
  "fx_now (set_queue e ty q w) = fx_now w" "fx_log (set_queue e ty q w) = fx_log w" "fx_running (set_queue e ty q w) = fx_running w"
  "fx_anims (set_hooks e ty h w) = fx_anims w" "fx_timers (set_hooks e ty h w) = fx_timers w" "fx_delays (set_hooks e ty h w) = fx_delays w"
  "fx_now (set_hooks e ty h w) = fx_now w" "fx_log (set_hooks e ty h w) = fx_log w" "fx_running (set_hooks e ty h w) = fx_running w"
  by (simp_all add: set_queue_def set_hooks_def)

lemma say_frame [simp]:
  "fx_anims (fx_say n w) = fx_anims w" "fx_timers (fx_say n w) = fx_timers w" "fx_delays (fx_say n w) = fx_delays w"
  "fx_now (fx_say n w) = fx_now w" "fx_running (fx_say n w) = fx_running w" "queue_of (fx_say n w) = queue_of w"
  "fx_log (fx_say n w) = fx_log w @ [n]" "fx_elements (fx_say n w) = fx_elements w"
  by (simp_all add: fx_say_def queue_of_def fun_eq_iff)

lemma fold_say [simp]:
  "fx_anims (fold (\<lambda>p. fx_say (f p)) ps w) = fx_anims w" "fx_timers (fold (\<lambda>p. fx_say (f p)) ps w) = fx_timers w"
  "fx_delays (fold (\<lambda>p. fx_say (f p)) ps w) = fx_delays w" "fx_now (fold (\<lambda>p. fx_say (f p)) ps w) = fx_now w"
  "fx_running (fold (\<lambda>p. fx_say (f p)) ps w) = fx_running w" "queue_of (fold (\<lambda>p. fx_say (f p)) ps w) = queue_of w"
  "fx_log (fold (\<lambda>p. fx_say (f p)) ps w) = fx_log w @ map f ps" "fx_elements (fold (\<lambda>p. fx_say (f p)) ps w) = fx_elements w"
  by (induction ps arbitrary: w) simp_all

lemma fire_empty_result:
  "fx_anims (fire_empty e ty w) = fx_anims w" "fx_timers (fire_empty e ty w) = fx_timers w" "fx_delays (fire_empty e ty w) = fx_delays w"
  "fx_now (fire_empty e ty w) = fx_now w" "fx_running (fire_empty e ty w) = fx_running w"
  "queue_of (fire_empty e ty w) e' ty' = (if e' = e \<and> ty' = ty then [] else queue_of w e' ty')"
  by (simp_all add: fire_empty_def queue_of_set)

text \<open>
  What running entries does: it adds animations of this queue, at most the last of them keeps a timer or a delay is
  started instead, and the queue is empty or what follows the entry that runs.
\<close>

definition entries_run :: "nat \<Rightarrow> string \<Rightarrow> fx_entry list \<Rightarrow> fx_world \<Rightarrow> fx_world \<Rightarrow> bool" where
  "entries_run e ty q w w' \<longleftrightarrow>
     (\<exists>more new late.
        fx_anims w' = fx_anims w @ more \<and> (\<forall>a \<in> set more. an_elem a = e \<and> an_queue a = ty) \<and>
        fx_timers w' = fx_timers w @ new \<and> set new \<subseteq> {length (fx_anims w)..<length (fx_anims w')} \<and>
        fx_delays w' = fx_delays w @ late \<and> (\<forall>(n, x, t) \<in> set late. x = e \<and> t = ty) \<and> length new + length late \<le> 1 \<and>
        (\<forall>i \<in> set new. an_settled (fx_anims w' ! i) = None \<and> \<not> an_stopped (fx_anims w' ! i)) \<and>
        fx_now w' = fx_now w \<and> (fx_running w \<longrightarrow> fx_running w') \<and> (new \<noteq> [] \<longrightarrow> fx_running w') \<and>
        (\<forall>e' ty'. e' \<noteq> e \<or> ty' \<noteq> ty \<longrightarrow> queue_of w' e' ty' = queue_of w e' ty') \<and>
        (if queue_of w' e ty = [] then ty = ''fx'' \<longrightarrow> new = [] \<and> late = []
         else \<exists>k < length q. queue_of w' e ty = (if ty = ''fx'' then In_Progress # drop (Suc k) q else drop (Suc k) q)))"

lemma run_entries_result: "entries_run e ty q w (run_entries v e ty q w)"
proof (induction v e ty q w rule: run_entries.induct)
  case (1 v e ty w)
  show ?case unfolding entries_run_def
    by (rule exI [of _ "[]"], rule exI [of _ "[]"], rule exI [of _ "[]"]) (simp add: fire_empty_result)
next
  case (2 v e ty x rest w)
  define w1 where "w1 = set_hooks e ty (Some ((hooks_of w e ty)\<lparr>hk_stop := None\<rparr>))
    (set_queue e ty (Some (if ty = ''fx'' then In_Progress # rest else rest)) w)"
  have w1: "fx_anims w1 = fx_anims w" "fx_timers w1 = fx_timers w" "fx_delays w1 = fx_delays w" "fx_now w1 = fx_now w"
    "fx_running w1 = fx_running w" "queue_of w1 e' ty' = (if e' = e \<and> ty' = ty then if ty = ''fx'' then In_Progress # rest else rest else queue_of w e' ty')"
    for e' ty' by (simp_all add: w1_def queue_of_set)
  show ?case
  proof (cases x)
    case (Animate spec)
    obtain w2 i over where p: "play v e ty spec w1 = (w2, i, over)" by (metis prod_cases3)
    note r = play_result [OF p]
    obtain a where a: "fx_anims w2 = fx_anims w @ [a]" "an_elem a = e" "an_queue a = ty" "\<not> an_stopped a" "an_settled a = (if over then Some True else None)"
      using r w1(1) by auto
    show ?thesis
    proof (cases over)
      case True
      define w3 where "w3 = fx_say (Fx_Done e (am_done spec)) w2"
      have "entries_run e ty rest w3 (run_entries v e ty rest w3)"
        unfolding w3_def by (rule 2 [OF w1_def Animate p [symmetric] refl refl True])
      then obtain more new late where m: "fx_anims (run_entries v e ty rest w3) = fx_anims w3 @ more"
        "\<forall>a \<in> set more. an_elem a = e \<and> an_queue a = ty" "fx_timers (run_entries v e ty rest w3) = fx_timers w3 @ new"
        "set new \<subseteq> {length (fx_anims w3)..<length (fx_anims (run_entries v e ty rest w3))}"
        "fx_delays (run_entries v e ty rest w3) = fx_delays w3 @ late" "\<forall>(n, x, t) \<in> set late. x = e \<and> t = ty" "length new + length late \<le> 1"
        "\<forall>i \<in> set new. an_settled (fx_anims (run_entries v e ty rest w3) ! i) = None \<and> \<not> an_stopped (fx_anims (run_entries v e ty rest w3) ! i)"
        "fx_now (run_entries v e ty rest w3) = fx_now w3" "fx_running w3 \<longrightarrow> fx_running (run_entries v e ty rest w3)"
        "new \<noteq> [] \<longrightarrow> fx_running (run_entries v e ty rest w3)"
        "\<forall>e' ty'. e' \<noteq> e \<or> ty' \<noteq> ty \<longrightarrow> queue_of (run_entries v e ty rest w3) e' ty' = queue_of w3 e' ty'"
        "if queue_of (run_entries v e ty rest w3) e ty = [] then ty = ''fx'' \<longrightarrow> new = [] \<and> late = []
         else \<exists>k < length rest. queue_of (run_entries v e ty rest w3) e ty = (if ty = ''fx'' then In_Progress # drop (Suc k) rest else drop (Suc k) rest)"
        unfolding entries_run_def by (elim exE conjE) (rule that, assumption+)
      have w3: "fx_anims w3 = fx_anims w @ [a]" "fx_timers w3 = fx_timers w" "fx_delays w3 = fx_delays w" "fx_now w3 = fx_now w"
        "fx_running w3 = fx_running w" "queue_of w3 = queue_of w1"
        using r a(1) w1 True by (simp_all add: w3_def)
      have res: "run_entries v e ty (x # rest) w = run_entries v e ty rest w3"
        using p True by (simp add: Animate w3_def flip: w1_def)
      show ?thesis
        unfolding res entries_run_def
      proof (intro exI conjI)
        let ?w = "run_entries v e ty rest w3"
        show "fx_anims ?w = fx_anims w @ (a # more)" using m(1) w3(1) by simp
        show "\<forall>a \<in> set (a # more). an_elem a = e \<and> an_queue a = ty" using a m(2) by simp
        show "fx_timers ?w = fx_timers w @ new" using m(3) w3(2) by simp
        show "set new \<subseteq> {length (fx_anims w)..<length (fx_anims ?w)}" using m(4) w3(1) by auto
        show "fx_delays ?w = fx_delays w @ late" using m(5) w3(3) by simp
        show "if queue_of ?w e ty = [] then ty = ''fx'' \<longrightarrow> new = [] \<and> late = []
          else \<exists>k < length (x # rest). queue_of ?w e ty = (if ty = ''fx'' then In_Progress # drop (Suc k) (x # rest) else drop (Suc k) (x # rest))"
        proof (cases "queue_of ?w e ty = []")
          case False
          then obtain k where "k < length rest" "queue_of ?w e ty = (if ty = ''fx'' then In_Progress # drop (Suc k) rest else drop (Suc k) rest)"
            using m(13) by auto
          then have "Suc k < length (x # rest) \<and> queue_of ?w e ty =
              (if ty = ''fx'' then In_Progress # drop (Suc (Suc k)) (x # rest) else drop (Suc (Suc k)) (x # rest))" by simp
          then show ?thesis using False by auto
        qed (use m(13) in simp)
      qed (use m(6-12) w3 w1(6) in auto)
    next
      case False
      have res: "run_entries v e ty (x # rest) w = w2" using p False by (simp add: Animate flip: w1_def)
      show ?thesis
        unfolding res entries_run_def
        by (rule exI [of _ "[a]"], rule exI [of _ "[i]"], rule exI [of _ "[]"]) (use r a w1 False in \<open>auto simp: nth_append\<close>)
    qed
  next
    case (Pause ms)
    show ?thesis
      unfolding entries_run_def
      by (rule exI [of _ "[]"], rule exI [of _ "[]"], rule exI [of _ "[(fx_next w1, e, ty)]"])
        (use w1 in \<open>auto simp: Pause w1_def [symmetric]\<close>)
  next
    case In_Progress
    show ?thesis unfolding entries_run_def
      by (rule exI [of _ "[]"], rule exI [of _ "[]"], rule exI [of _ "[]"]) (use w1 in \<open>auto simp: In_Progress w1_def [symmetric]\<close>)
  next
    case (Custom n)
    show ?thesis unfolding entries_run_def
      by (rule exI [of _ "[]"], rule exI [of _ "[]"], rule exI [of _ "[]"]) (use w1 in \<open>auto simp: Custom w1_def [symmetric]\<close>)
  qed
qed


section \<open>One animation at a time\<close>

definition alive :: "animation \<Rightarrow> nat \<Rightarrow> bool" where
  "alive a e \<longleftrightarrow> an_elem a = e \<and> an_queue a = ''fx'' \<and> an_settled a = None \<and> \<not> an_stopped a"

text \<open>The timers of animations of an element's own queue that run.\<close>

definition playing :: "fx_world \<Rightarrow> nat \<Rightarrow> nat list" where
  "playing w e = filter (\<lambda>i. alive (fx_anims w ! i) e) (fx_timers w)"

fun pauses :: "fx_entry \<Rightarrow> bool" where
  "pauses (Pause ms) \<longleftrightarrow> True"
| "pauses _ \<longleftrightarrow> False"

definition plain_entries :: "fx_entry list \<Rightarrow> bool" where
  "plain_entries q \<longleftrightarrow> list_all (\<lambda>x. x \<noteq> In_Progress \<and> \<not> pauses x) q"

definition fx_marked :: "fx_world \<Rightarrow> nat \<Rightarrow> bool" where
  "fx_marked w e \<longleftrightarrow> (case queue_of w e ''fx'' of In_Progress # r \<Rightarrow> True | _ \<Rightarrow> False)"

definition fx_weak :: "fx_world \<Rightarrow> nat \<Rightarrow> bool" where
  "fx_weak w e \<longleftrightarrow>
     length (playing w e) \<le> 1 \<and> plain_entries (unmarked (queue_of w e ''fx'')) \<and> (\<not> fx_marked w e \<longrightarrow> queue_of w e ''fx'' = [])"

definition fx_ok :: "fx_world \<Rightarrow> nat \<Rightarrow> bool" where
  "fx_ok w e \<longleftrightarrow> fx_weak w e \<and> (\<not> fx_marked w e \<longrightarrow> playing w e = [])"

definition fx_wf :: "fx_world \<Rightarrow> bool" where
  "fx_wf w \<longleftrightarrow>
     distinct (fx_timers w) \<and> (\<forall>i \<in> set (fx_timers w). i < length (fx_anims w)) \<and>
     (\<forall>(n, e, ty) \<in> set (fx_delays w). ty \<noteq> ''fx'') \<and> (\<forall>e. fx_weak w e)"

lemma run_entries_delays: "list_all (\<lambda>x. \<not> pauses x) q \<Longrightarrow> fx_delays (run_entries v e ty q w) = fx_delays w"
proof (induction v e ty q w rule: run_entries.induct)
  case (2 v e ty x rest w)
  show ?case
  proof (cases x)
    case (Animate spec)
    define w1 where "w1 = set_hooks e ty (Some ((hooks_of w e ty)\<lparr>hk_stop := None\<rparr>))
      (set_queue e ty (Some (if ty = ''fx'' then In_Progress # rest else rest)) w)"
    obtain w2 i over where p: "play v e ty spec w1 = (w2, i, over)" by (metis prod_cases3)
    have "fx_delays w2 = fx_delays w" using play_result [OF p] by (simp add: w1_def)
    then show ?thesis
      using 2(1) [OF w1_def Animate p [symmetric] refl refl] 2(2) p by (cases over) (simp_all add: Animate flip: w1_def)
  qed (use 2(2) in simp_all)
qed (simp add: fire_empty_result)

text \<open>Running the entries of one queue leaves what plays elsewhere alone.\<close>

lemma entries_playing:
  assumes "entries_run e ty q w w'" and "\<forall>i \<in> set (fx_timers w). i < length (fx_anims w)"
  shows "e' \<noteq> e \<or> ty \<noteq> ''fx'' \<Longrightarrow> playing w' e' = playing w e'"
    "playing w e = [] \<Longrightarrow> ty = ''fx'' \<Longrightarrow> length (playing w' e) \<le> 1 \<and> (queue_of w' e ''fx'' = [] \<longrightarrow> playing w' e = [])"
proof -
  obtain more new late where m: "fx_anims w' = fx_anims w @ more" "\<forall>a \<in> set more. an_elem a = e \<and> an_queue a = ty"
    "fx_timers w' = fx_timers w @ new" "set new \<subseteq> {length (fx_anims w)..<length (fx_anims w')}" "fx_delays w' = fx_delays w @ late"
    "length new + length late \<le> 1"
    "if queue_of w' e ty = [] then ty = ''fx'' \<longrightarrow> new = [] \<and> late = []
     else \<exists>k < length q. queue_of w' e ty = (if ty = ''fx'' then In_Progress # drop (Suc k) q else drop (Suc k) q)"
    using assms(1) unfolding entries_run_def by (elim exE conjE) (rule that, assumption+)
  have old: "filter (\<lambda>i. alive (fx_anims w' ! i) x) (fx_timers w) = playing w x" for x
    unfolding playing_def by (rule filter_cong) (use assms(2) m(1) in \<open>auto simp: nth_append\<close>)
  have new: "an_elem (fx_anims w' ! i) = e \<and> an_queue (fx_anims w' ! i) = ty" if "i \<in> set new" for i
  proof -
    have "length (fx_anims w) \<le> i" "i < length (fx_anims w')" using m(4) that by auto
    then have "fx_anims w' ! i \<in> set more" using m(1) by (simp add: nth_append)
    then show ?thesis using m(2) by blast
  qed
  show "playing w' e' = playing w e'" if "e' \<noteq> e \<or> ty \<noteq> ''fx''"
  proof -
    have "filter (\<lambda>i. alive (fx_anims w' ! i) e') new = []" using new that by (auto simp: filter_empty_conv alive_def)
    then show ?thesis using old [of e'] by (simp add: playing_def m(3))
  qed
  show "length (playing w' e) \<le> 1 \<and> (queue_of w' e ''fx'' = [] \<longrightarrow> playing w' e = [])" if "playing w e = []" "ty = ''fx''"
  proof -
    have p: "playing w' e = filter (\<lambda>i. alive (fx_anims w' ! i) e) new" using old [of e] that(1) by (simp add: playing_def m(3))
    have "length (playing w' e) \<le> length new" unfolding p by (rule length_filter_le)
    then have "length (playing w' e) \<le> 1" using m(6) by linarith
    moreover have "queue_of w' e ''fx'' = [] \<longrightarrow> playing w' e = []" using m(7) that(2) p by auto
    ultimately show ?thesis by blast
  qed
qed

lemma marked_cong: "queue_of w' e ''fx'' = queue_of w e ''fx'' \<Longrightarrow> fx_marked w' e = fx_marked w e"
  by (simp add: fx_marked_def)

lemma weak_cong: "playing w' e = playing w e \<Longrightarrow> queue_of w' e ''fx'' = queue_of w e ''fx'' \<Longrightarrow> fx_weak w' e = fx_weak w e \<and> fx_ok w' e = fx_ok w e"
  by (simp add: fx_weak_def fx_ok_def fx_marked_def)

lemma plain_unmarked: "plain_entries q \<Longrightarrow> unmarked q = q"
  by (cases q) (auto simp: unmarked_def plain_entries_def split: fx_entry.splits)

text \<open>
  Running plain entries keeps the invariant if nothing of the element plays; the element then is in order, and the
  others are as they were.
\<close>

lemma run_entries_wf:
  assumes wf: "fx_wf w" and q: "ty = ''fx'' \<Longrightarrow> plain_entries q \<and> playing w e = []"
  shows "fx_wf (run_entries v e ty q w)" "ty = ''fx'' \<Longrightarrow> fx_ok (run_entries v e ty q w) e"
    "e' \<noteq> e \<or> ty \<noteq> ''fx'' \<Longrightarrow> playing (run_entries v e ty q w) e' = playing w e' \<and>
      queue_of (run_entries v e ty q w) e' ''fx'' = queue_of w e' ''fx''"
proof -
  define w' where "w' = run_entries v e ty q w"
  have r: "entries_run e ty q w w'" unfolding w'_def by (rule run_entries_result)
  have lt: "\<forall>i \<in> set (fx_timers w). i < length (fx_anims w)" using wf by (simp add: fx_wf_def)
  obtain more new late where m: "fx_anims w' = fx_anims w @ more" "fx_timers w' = fx_timers w @ new"
    "set new \<subseteq> {length (fx_anims w)..<length (fx_anims w')}" "fx_delays w' = fx_delays w @ late" "\<forall>(n, x, t) \<in> set late. x = e \<and> t = ty"
    "length new + length late \<le> 1" "\<forall>e' ty'. e' \<noteq> e \<or> ty' \<noteq> ty \<longrightarrow> queue_of w' e' ty' = queue_of w e' ty'"
    "if queue_of w' e ty = [] then ty = ''fx'' \<longrightarrow> new = [] \<and> late = []
     else \<exists>k < length q. queue_of w' e ty = (if ty = ''fx'' then In_Progress # drop (Suc k) q else drop (Suc k) q)"
    using r unfolding entries_run_def by (elim exE conjE) (rule that, assumption+)
  have other: "playing w' e' = playing w e' \<and> queue_of w' e' ''fx'' = queue_of w e' ''fx''" if "e' \<noteq> e \<or> ty \<noteq> ''fx''" for e'
    using entries_playing(1) [OF r lt that] m(7) that by auto
  then show "e' \<noteq> e \<or> ty \<noteq> ''fx'' \<Longrightarrow> playing w' e' = playing w e' \<and> queue_of w' e' ''fx'' = queue_of w e' ''fx''" .
  have ok: "fx_ok w' e" if "ty = ''fx''"
  proof -
    note fx = that
    have p: "length (playing w' e) \<le> 1 \<and> (queue_of w' e ''fx'' = [] \<longrightarrow> playing w' e = [])"
      using entries_playing(2) [OF r lt] q [OF that] that by blast
    show ?thesis
    proof (cases "queue_of w' e ''fx'' = []")
      case True
      then show ?thesis using p by (simp add: fx_ok_def fx_weak_def plain_entries_def unmarked_def)
    next
      case False
      then obtain k where "queue_of w' e ''fx'' = In_Progress # drop (Suc k) q" using m(8) unfolding fx by auto
      moreover have "plain_entries (drop (Suc k) q)" using q [OF that] by (auto simp: plain_entries_def list_all_iff dest: in_set_dropD)
      ultimately show ?thesis using p by (simp add: fx_ok_def fx_weak_def fx_marked_def unmarked_def)
    qed
  qed
  then show "ty = ''fx'' \<Longrightarrow> fx_ok w' e" .
  have "fx_weak w' x" for x
  proof (cases "x = e \<and> ty = ''fx''")
    case True
    then show ?thesis using ok by (simp add: fx_ok_def)
  next
    case False
    then show ?thesis using other [of x] weak_cong [of w' x w] wf by (auto simp: fx_wf_def)
  qed
  moreover have "distinct (fx_timers w')"
  proof -
    have "distinct new" using m(6) by (cases new rule: remdups_adj.cases) auto
    moreover have "set new \<inter> set (fx_timers w) = {}" using m(3) lt by fastforce
    ultimately show ?thesis using wf by (auto simp: fx_wf_def m(2))
  qed
  moreover have "\<forall>i \<in> set (fx_timers w'). i < length (fx_anims w')" using lt m(1,2,3) by auto
  moreover have "\<forall>(n, x, t) \<in> set (fx_delays w'). t \<noteq> ''fx''"
  proof (cases "ty = ''fx''")
    case True
    then have "fx_delays w' = fx_delays w"
      unfolding w'_def by (intro run_entries_delays) (use q in \<open>auto simp: plain_entries_def list_all_iff\<close>)
    then show ?thesis using wf by (simp add: fx_wf_def)
  next
    case False
    then show ?thesis using wf m(4,5) by (auto simp: fx_wf_def)
  qed
  ultimately show "fx_wf w'" by (simp add: fx_wf_def)
qed


text \<open>
  What an operation on the queue \<open>ty\<close> of \<open>e\<close> may do: other elements, and this one when it is another queue, keep what
  plays and what waits.
\<close>

definition elsewhere_kept :: "nat \<Rightarrow> string \<Rightarrow> fx_world \<Rightarrow> fx_world \<Rightarrow> bool" where
  "elsewhere_kept e ty w w' \<longleftrightarrow>
     (\<forall>e'. e' \<noteq> e \<or> ty \<noteq> ''fx'' \<longrightarrow> playing w' e' = playing w e' \<and> queue_of w' e' ''fx'' = queue_of w e' ''fx'')"

lemma elsewhere_refl [simp]: "elsewhere_kept e ty w w"
  by (simp add: elsewhere_kept_def)

lemma elsewhere_trans: "elsewhere_kept e ty u v \<Longrightarrow> elsewhere_kept e ty v w \<Longrightarrow> elsewhere_kept e ty u w"
  by (simp add: elsewhere_kept_def)

lemma elsewhere_ok: "elsewhere_kept e ty w w' \<Longrightarrow> e' \<noteq> e \<or> ty \<noteq> ''fx'' \<Longrightarrow> fx_ok w' e' = fx_ok w e'"
  using weak_cong [of w' e' w] by (auto simp: elsewhere_kept_def)

lemma dequeue_wf:
  assumes "fx_wf w" and "ty = ''fx'' \<Longrightarrow> playing w e = []"
  shows "fx_wf (dequeue v e ty w)" "ty = ''fx'' \<Longrightarrow> fx_ok (dequeue v e ty w) e" "elsewhere_kept e ty w (dequeue v e ty w)"
proof -
  have q: "ty = ''fx'' \<Longrightarrow> plain_entries (unmarked (queue_of w e ty)) \<and> playing w e = []"
    using assms by (auto simp: fx_wf_def fx_weak_def)
  show "fx_wf (dequeue v e ty w)" unfolding dequeue_def by (rule run_entries_wf(1) [OF assms(1) q])
  show "ty = ''fx'' \<Longrightarrow> fx_ok (dequeue v e ty w) e" unfolding dequeue_def by (rule run_entries_wf(2) [OF assms(1) q])
  show "elsewhere_kept e ty w (dequeue v e ty w)"
    unfolding dequeue_def elsewhere_kept_def by (intro allI impI) (rule run_entries_wf(3) [OF assms(1) q])
qed

lemma same_playing: "fx_timers w' = fx_timers w \<Longrightarrow> fx_anims w' = fx_anims w \<Longrightarrow> playing w' = playing w"
  by (simp add: playing_def fun_eq_iff)

lemma frame_wf:
  assumes "fx_timers w' = fx_timers w" and "fx_anims w' = fx_anims w" and "queue_of w' = queue_of w"
    and "\<forall>(n, e, ty) \<in> set (fx_delays w'). ty \<noteq> ''fx''"
  shows "fx_wf w \<Longrightarrow> fx_wf w'" "fx_ok w' = fx_ok w" "elsewhere_kept e ty w w'"
proof -
  note p = same_playing [OF assms(1,2)]
  have "fx_weak w' x = fx_weak w x \<and> fx_ok w' x = fx_ok w x" for x by (rule weak_cong) (simp_all add: p assms(3))
  then have o: "fx_weak w' = fx_weak w" "fx_ok w' = fx_ok w" by (simp_all add: fun_eq_iff)
  then show "fx_wf w \<Longrightarrow> fx_wf w'" "fx_ok w' = fx_ok w" by (simp_all add: fx_wf_def assms)
  show "elsewhere_kept e ty w w'" by (simp add: elsewhere_kept_def p assms(3))
qed

lemma say_wf: "fx_wf w \<Longrightarrow> fx_wf (fx_say n w)" "fx_ok (fx_say n w) = fx_ok w" "playing (fx_say n w) = playing w"
proof -
  show "fx_wf w \<Longrightarrow> fx_wf (fx_say n w)" by (rule frame_wf(1)) (simp_all add: fx_wf_def)
  show "playing (fx_say n w) = playing w" by (rule same_playing) simp_all
  then have "fx_weak (fx_say n w) x = fx_weak w x \<and> fx_ok (fx_say n w) x = fx_ok w x" for x by (intro weak_cong) simp_all
  then show "fx_ok (fx_say n w) = fx_ok w" by (simp add: fun_eq_iff)
qed

text \<open>An animation that no longer runs stops counting.\<close>

lemma settled_wf:
  assumes "fx_wf w" and "fx_anims w' = (fx_anims w)[i := a]" and "\<forall>e. \<not> alive a e" and "fx_timers w' = fx_timers w"
    and "fx_delays w' = fx_delays w" and "queue_of w' = queue_of w" and "i < length (fx_anims w)"
  shows "fx_wf w'" "playing w' e = filter (\<lambda>j. j \<noteq> i) (playing w e)" "fx_ok w e \<Longrightarrow> fx_ok w' e"
proof -
  have p: "playing w' e = filter (\<lambda>j. j \<noteq> i) (playing w e)" for e
    unfolding playing_def filter_filter assms(4)
    by (rule filter_cong) (use assms(2,3,7) in \<open>auto simp: nth_list_update\<close>)
  then show "playing w' e = filter (\<lambda>j. j \<noteq> i) (playing w e)" .
  have "length (filter (\<lambda>j. j \<noteq> i) (playing w e)) \<le> length (playing w e)" for e by (rule length_filter_le)
  then have weak: "fx_weak w e \<Longrightarrow> fx_weak w' e" for e
    unfolding fx_weak_def p fx_marked_def assms(6) using order_trans by blast
  then show "fx_wf w'" using assms(1,2,4,5) by (auto simp: fx_wf_def)
  show "fx_ok w e \<Longrightarrow> fx_ok w' e" using weak [of e] by (auto simp: fx_ok_def p fx_marked_def assms(6))
qed

lemma only_playing:
  assumes "fx_wf w" and "i \<in> set (playing w e)"
  shows "playing w e = [i]"
proof -
  have "length (playing w e) \<le> 1" using assms(1) by (simp add: fx_wf_def fx_weak_def)
  then show ?thesis using assms(2) by (cases "playing w e") auto
qed

lemma playing_iff: "i \<in> set (playing w e) \<longleftrightarrow> i \<in> set (fx_timers w) \<and> alive (fx_anims w ! i) e"
  by (auto simp: playing_def)

text \<open>The end of an animation that runs, by time or by force.\<close>

lemma complete_wf:
  assumes "fx_wf w" and "fx_anims w' = (fx_anims w)[i := a]" and "an_settled a = Some b" and "same_queues w w'"
    and "i \<in> set (fx_timers w)" and "an_elem a = an_elem (fx_anims w ! i)" and "an_queue a = an_queue (fx_anims w ! i)"
    and "alive (fx_anims w ! i) (an_elem a) \<or> an_queue a \<noteq> ''fx'' \<or> playing w (an_elem a) = []"
  shows "fx_wf (complete v i w')" "an_queue a = ''fx'' \<Longrightarrow> fx_ok (complete v i w') (an_elem a)"
    "elsewhere_kept (an_elem a) (an_queue a) w (complete v i w')"
proof -
  have lt: "i < length (fx_anims w)" using assms(1,5) by (simp add: fx_wf_def)
  have dead: "\<forall>e. \<not> alive a e" using assms(3) by (simp add: alive_def)
  have same: "fx_timers w' = fx_timers w" "fx_delays w' = fx_delays w" "queue_of w' = queue_of w"
    using assms(4) same_queues_of by (simp_all add: same_queues_def)
  note s = settled_wf [OF assms(1,2) dead same lt]
  let ?w = "fx_say (Fx_Done (an_elem a) (am_done (an_spec a))) w'"
  have c: "complete v i w' = dequeue v (an_elem a) (an_queue a) ?w" using lt assms(2) by (simp add: complete_def Let_def)
  have "playing ?w (an_elem a) = []" if "an_queue a = ''fx''"
  proof (cases "alive (fx_anims w ! i) (an_elem a)")
    case True
    then have "playing w (an_elem a) = [i]" by (intro only_playing [OF assms(1)]) (simp add: playing_iff assms(5))
    then show ?thesis by (simp add: say_wf s(2))
  qed (use assms(8) that in \<open>simp add: say_wf s(2)\<close>)
  note d = dequeue_wf [OF say_wf(1) [OF s(1)] this, where v = v]
  show "fx_wf (complete v i w')" "an_queue a = ''fx'' \<Longrightarrow> fx_ok (complete v i w') (an_elem a)" unfolding c using d(1,2) by auto
  have "playing w' e' = playing w e'" if "e' \<noteq> an_elem a \<or> an_queue a \<noteq> ''fx''" for e'
  proof -
    have "\<not> alive (fx_anims w ! i) e'" using that assms(6,7) by (auto simp: alive_def)
    then show ?thesis by (simp add: s(2) filter_id_conv playing_iff) (auto simp: playing_iff)
  qed
  then have "elsewhere_kept (an_elem a) (an_queue a) w ?w" by (simp add: elsewhere_kept_def say_wf same)
  then show "elsewhere_kept (an_elem a) (an_queue a) w (complete v i w')" unfolding c using d(3) by (rule elsewhere_trans)
qed


lemma dequeue_grows:
  "\<exists>more. fx_anims (dequeue v e ty w) = fx_anims w @ more" "\<exists>new. fx_timers (dequeue v e ty w) = fx_timers w @ new"
  "fx_now (dequeue v e ty w) = fx_now w" "fx_running w \<Longrightarrow> fx_running (dequeue v e ty w)"
proof -
  define w' where "w' = dequeue v e ty w"
  have r: "entries_run e ty (unmarked (queue_of w e ty)) w w'" unfolding w'_def dequeue_def by (rule run_entries_result)
  obtain more new where m: "fx_anims w' = fx_anims w @ more" "fx_timers w' = fx_timers w @ new" "fx_now w' = fx_now w"
    "fx_running w \<longrightarrow> fx_running w'"
    using r unfolding entries_run_def by (elim exE conjE) (rule that, assumption+)
  then show "\<exists>more. fx_anims (dequeue v e ty w) = fx_anims w @ more" "\<exists>new. fx_timers (dequeue v e ty w) = fx_timers w @ new"
    "fx_now (dequeue v e ty w) = fx_now w" "fx_running w \<Longrightarrow> fx_running (dequeue v e ty w)"
    by (simp_all add: w'_def)
qed

lemma complete_grows:
  "\<exists>more. fx_anims (complete v i w) = fx_anims w @ more" "\<exists>new. fx_timers (complete v i w) = fx_timers w @ new"
  "fx_now (complete v i w) = fx_now w" "fx_running w \<Longrightarrow> fx_running (complete v i w)"
  using dequeue_grows [where w = "fx_say n w" for n] by (simp_all add: complete_def Let_def)

text \<open>Stopping one animation.\<close>

definition stop_effect :: "nat \<Rightarrow> bool \<Rightarrow> fx_world \<Rightarrow> fx_world \<Rightarrow> bool" where
  "stop_effect i to_end w w' \<longleftrightarrow>
     fx_wf w' \<and> (\<exists>new. fx_timers w' = fx_timers w @ new) \<and> (\<forall>e. \<not> alive (fx_anims w' ! i) e) \<and>
     (\<forall>e. fx_ok w e \<longrightarrow> fx_ok w' e) \<and>
     (\<forall>e. \<not> alive (fx_anims w ! i) e \<longrightarrow> playing w' e = playing w e \<and> queue_of w' e ''fx'' = queue_of w e ''fx'') \<and>
     (\<forall>e. alive (fx_anims w ! i) e \<longrightarrow>
       (if to_end then fx_ok w' e else playing w' e = [] \<and> queue_of w' e ''fx'' = queue_of w e ''fx''))"

lemma stop_quiet:
  assumes "fx_wf w" and "i \<in> set (fx_timers w)" and "fx_anims w' = (fx_anims w)[i := a]" and "\<forall>e. \<not> alive a e" and "same_queues w w'"
    and "to_end \<Longrightarrow> \<forall>e. \<not> alive (fx_anims w ! i) e"
  shows "stop_effect i to_end w w'"
proof -
  have lt: "i < length (fx_anims w)" using assms(1,2) by (simp add: fx_wf_def)
  have same: "fx_timers w' = fx_timers w" "fx_delays w' = fx_delays w" "queue_of w' = queue_of w"
    using assms(5) same_queues_of by (simp_all add: same_queues_def)
  note s = settled_wf [OF assms(1,3,4) same lt]
  have "playing w' e = playing w e" if "\<not> alive (fx_anims w ! i) e" for e
    using that by (simp add: s(2) filter_id_conv) (auto simp: playing_iff)
  moreover have "playing w' e = []" if "alive (fx_anims w ! i) e" for e
  proof -
    have "playing w e = [i]" by (rule only_playing [OF assms(1)]) (simp add: playing_iff assms(2) that)
    then show ?thesis by (simp add: s(2))
  qed
  moreover have "\<forall>e. \<not> alive (fx_anims w' ! i) e" using assms(3,4) lt by simp
  ultimately show ?thesis using s(1,3) same(1,3) assms(6) by (auto simp: stop_effect_def)
qed

lemma stop_completes:
  assumes "fx_wf w" and "i \<in> set (fx_timers w)" and "fx_anims w' = (fx_anims w)[i := a]" and "an_settled a = Some b" and "same_queues w w'"
    and "an_elem a = an_elem (fx_anims w ! i)" and "an_queue a = an_queue (fx_anims w ! i)"
    and "an_settled (fx_anims w ! i) = None" and "\<not> an_stopped (fx_anims w ! i)"
  shows "stop_effect i True w (complete v i w')"
proof -
  let ?a = "fx_anims w ! i" and ?w = "complete v i w'"
  have lt: "i < length (fx_anims w)" using assms(1,2) by (simp add: fx_wf_def)
  have al: "alive ?a (an_elem a) \<or> an_queue a \<noteq> ''fx'' \<or> playing w (an_elem a) = []"
    using assms(6-9) by (simp add: alive_def)
  note c = complete_wf [OF assms(1,3,4,5,2,6,7) al, where v = v]
  have alive: "alive ?a e \<longleftrightarrow> e = an_elem a \<and> an_queue a = ''fx''" for e using assms(6-9) by (auto simp: alive_def)
  obtain more where m: "fx_anims ?w = fx_anims w' @ more" using complete_grows(1) by blast
  obtain new where n: "fx_timers ?w = fx_timers w' @ new" using complete_grows(2) by blast
  have t: "fx_timers w' = fx_timers w" using assms(5) by (simp add: same_queues_def)
  have "\<not> alive (fx_anims ?w ! i) e" for e using m assms(3,4) lt by (simp add: nth_append alive_def)
  moreover have "fx_ok w e \<Longrightarrow> fx_ok ?w e" for e
    using c(2) elsewhere_ok [OF c(3), of e] by (cases "e = an_elem a \<and> an_queue a = ''fx''") auto
  moreover have "playing ?w e = playing w e \<and> queue_of ?w e ''fx'' = queue_of w e ''fx''" if "\<not> alive ?a e" for e
    using c(3) that alive by (auto simp: elsewhere_kept_def)
  ultimately show ?thesis using c(1,2) n t alive by (simp add: stop_effect_def)
qed

lemma stop_anim_effect:
  assumes "fx_wf w" and "i \<in> set (fx_timers w)"
  shows "stop_effect i to_end w (stop_anim v to_end i w)"
proof -
  have lt: "i < length (fx_anims w)" using assms by (simp add: fx_wf_def)
  define a where "a = fx_anims w ! i"
  show ?thesis
  proof (cases "an_stopped a")
    case True
    then show ?thesis
      using stop_quiet [OF assms, of w a to_end] by (simp add: stop_anim_def a_def alive_def)
  next
    case False
    define w1 where "w1 = put_anim i (\<lambda>a. a\<lparr>an_stopped := True\<rparr>) w"
    have w1: "fx_anims w1 = (fx_anims w)[i := a\<lparr>an_stopped := True\<rparr>]" "same_queues w w1"
      unfolding w1_def by (simp add: put_anim_def a_def) (rule same_queues_anim)
    define w2 where "w2 = run_tweens v a 1 w1"
    have w2: "fx_anims w2 = (fx_anims w)[i := a\<lparr>an_stopped := True\<rparr>]" "same_queues w w2"
      using run_tweens_frame [where w = w1 and a = a and p = 1 and v = v] w1 same_queues_trans by (auto simp: w2_def)
    have res: "stop_anim v to_end i w = (if to_end then if an_settled a = None then complete v i (anim_done i w2) else w2
        else if an_settled a = None then put_anim i (\<lambda>a. a\<lparr>an_settled := Some False\<rparr>) w1 else w1)"
      using False by (simp add: stop_anim_def Let_def a_def [symmetric] w1_def [symmetric] w2_def [symmetric])
    show ?thesis
    proof (cases "to_end \<and> an_settled a = None")
      case True
      have f: "fx_anims (anim_done i w2) = (fx_anims w)[i := a\<lparr>an_stopped := True, an_settled := Some True\<rparr>]"
        using lt by (simp add: anim_done_frame(2) w2(1))
      have q: "same_queues w (anim_done i w2)" using w2(2) anim_done_frame(1) by (rule same_queues_trans)
      have "stop_effect i True w (complete v i (anim_done i w2))"
        by (rule stop_completes [OF assms f _ q]) (use True False in \<open>simp_all add: a_def\<close>)
      then show ?thesis using True res by simp
    next
      case False
      define w3 where "w3 = put_anim i (\<lambda>a. a\<lparr>an_settled := Some False\<rparr>) w1"
      have w3: "fx_anims w3 = (fx_anims w)[i := a\<lparr>an_stopped := True, an_settled := Some False\<rparr>]"
        using lt by (simp add: w3_def put_anim_def w1(1))
      have q3: "same_queues w w3" unfolding w3_def using w1(2) same_queues_anim by (rule same_queues_trans)
      have "stop_effect i to_end w w3" if "\<not> to_end"
        by (rule stop_quiet [OF assms w3 _ q3]) (use that in \<open>simp_all add: alive_def\<close>)
      moreover have "stop_effect i to_end w w1" by (rule stop_quiet [OF assms w1(1) _ w1(2)]) (use False in \<open>auto simp: alive_def a_def\<close>)
      moreover have "stop_effect i to_end w w2" by (rule stop_quiet [OF assms w2(1) _ w2(2)]) (use False in \<open>auto simp: alive_def a_def\<close>)
      ultimately show ?thesis using False by (auto simp: res w3_def)
    qed
  qed
qed

lemma drop_frame [simp]:
  "fx_anims (drop_timer i w) = fx_anims w" "fx_delays (drop_timer i w) = fx_delays w" "queue_of (drop_timer i w) = queue_of w"
  "fx_now (drop_timer i w) = fx_now w" "fx_running (drop_timer i w) = fx_running w" "fx_elements (drop_timer i w) = fx_elements w"
  "fx_log (drop_timer i w) = fx_log w"
  by (simp_all add: drop_timer_def)

lemma drop_dead:
  assumes "\<forall>e. \<not> alive (fx_anims w ! i) e"
  shows "playing (drop_timer i w) = playing w" "fx_ok (drop_timer i w) = fx_ok w" "fx_wf w \<Longrightarrow> fx_wf (drop_timer i w)"
proof -
  have "filter (\<lambda>j. alive (fx_anims w ! j) e) (remove1 i ts) = filter (\<lambda>j. alive (fx_anims w ! j) e) ts" for e ts
    using assms by (induction ts) auto
  then show p: "playing (drop_timer i w) = playing w" by (simp add: playing_def drop_timer_def fun_eq_iff)
  have "fx_weak (drop_timer i w) x = fx_weak w x \<and> fx_ok (drop_timer i w) x = fx_ok w x" for x by (rule weak_cong) (simp_all add: p)
  then show "fx_ok (drop_timer i w) = fx_ok w" "fx_wf w \<Longrightarrow> fx_wf (drop_timer i w)"
    by (auto simp: fun_eq_iff fx_wf_def drop_timer_def dest: notin_set_remove1)
qed

section \<open>A sample page\<close>

definition linear_env :: fx_env where
  "linear_env = \<lparr>en_ease = (\<lambda>name p. p), en_base = (\<lambda>e p. 1)\<rparr>"

definition still_page :: fx_world where
  "still_page = \<lparr>fx_now = 0, fx_elements = (\<lambda>e. \<lparr>fe_style = Map.empty, fe_hidden = False, fe_show = None, fe_queue = Map.empty, fe_hooks = Map.empty\<rparr>),
     fx_anims = [], fx_timers = [], fx_delays = [], fx_next = 0, fx_running = False, fx_log = []\<rparr>"

end
