(* ===== verification/One_Animation.thy ===== *)
theory One_Animation
  imports Animations
begin

text \<open>
  An element runs one animation of its own queue at a time: which steps keep it so, the invariant that shows it for any
  sequence of them, and what the other steps do instead.
\<close>

section \<open>Orderly steps\<close>

text \<open>Every element in order.\<close>

definition fx_orderly :: "fx_world \<Rightarrow> bool" where
  "fx_orderly w \<longleftrightarrow> fx_wf w \<and> (\<forall>e. fx_ok w e)"

text \<open>
  The steps after which elements stay in order: the queue of animations takes no delay and no animation of nothing, and
  it is cleared or moved on from outside only while no animation of the element runs.
\<close>

fun orderly_step :: "fx_world \<Rightarrow> fx_step \<Rightarrow> bool" where
  "orderly_step w (Fx_Animate e ty spec) \<longleftrightarrow> am_props spec \<noteq> []"
| "orderly_step w (Fx_Delay e ty ms) \<longleftrightarrow> ty \<noteq> ''fx''"
| "orderly_step w (Fx_Dequeue e ty) \<longleftrightarrow> ty \<noteq> ''fx'' \<or> playing w e = []"
| "orderly_step w (Fx_Clear e ty) \<longleftrightarrow> ty \<noteq> ''fx'' \<or> playing w e = []"
| "orderly_step w _ \<longleftrightarrow> True"

fun orderly_steps :: "fx_env \<Rightarrow> fx_world \<Rightarrow> fx_step list \<Rightarrow> bool" where
  "orderly_steps v w [] \<longleftrightarrow> True"
| "orderly_steps v w (s # ss) \<longleftrightarrow> orderly_step w s \<and> orderly_steps v (fx_do v s w) ss"

lemma orderly_frame:
  assumes "fx_orderly w" and "fx_timers w' = fx_timers w" and "fx_anims w' = fx_anims w" and "queue_of w' = queue_of w"
    and "set (fx_delays w') \<subseteq> set (fx_delays w)"
  shows "fx_orderly w'"
proof -
  have "\<forall>(n, e, ty) \<in> set (fx_delays w'). ty \<noteq> ''fx''" using assms(1,5) by (fastforce simp: fx_orderly_def fx_wf_def)
  then show ?thesis using assms(1) frame_wf(1,2) [OF assms(2-4)] by (simp add: fx_orderly_def)
qed

text \<open>A result in order at \<open>e\<close> that keeps everything elsewhere is in order.\<close>

lemma orderly_elsewhere:
  assumes "fx_orderly w" and "fx_wf w'" and "elsewhere_kept e ty w w'" and "ty = ''fx'' \<Longrightarrow> fx_ok w' e"
  shows "fx_orderly w'"
proof -
  have "fx_ok w' x" for x
    using elsewhere_ok [OF assms(3), of x] assms(1,4) by (cases "x \<noteq> e \<or> ty \<noteq> ''fx''") (auto simp: fx_orderly_def)
  then show ?thesis using assms(2) by (simp add: fx_orderly_def)
qed

lemma orderly_dequeue:
  assumes "fx_orderly w" and "ty = ''fx'' \<Longrightarrow> playing w e = []"
  shows "fx_orderly (dequeue v e ty w)"
proof -
  have wf: "fx_wf w" using assms(1) by (simp add: fx_orderly_def)
  show ?thesis by (rule orderly_elsewhere [OF assms(1) dequeue_wf(1,3) [OF wf assms(2)] dequeue_wf(2) [OF wf assms(2)]])
qed

lemma orderly_fold:
  assumes "\<And>i w. P w \<Longrightarrow> i \<in> set (fx_timers w) \<Longrightarrow> P (g i w) \<and> set (fx_timers w) - {i} \<subseteq> set (fx_timers (g i w))"
    and "P w" and "distinct is" and "set is \<subseteq> set (fx_timers w)"
  shows "P (fold g is w)"
  using assms(2-4)
proof (induction "is" arbitrary: w)
  case (Cons i js)
  have "P (g i w)" "set (fx_timers w) - {i} \<subseteq> set (fx_timers (g i w))" using assms(1) [of w i] Cons.prems by auto
  then show ?case using Cons.IH [of "g i w"] Cons.prems(2,3) by auto
qed simp

section \<open>Stopping and finishing\<close>

lemma clear_wf:
  assumes "fx_wf w"
  shows "fx_wf (clear_queue v e ty w)" "playing (clear_queue v e ty w) = playing w" "elsewhere_kept e ty w (clear_queue v e ty w)"
    "ty = ''fx'' \<Longrightarrow> queue_of (clear_queue v e ty w) e ''fx'' = []"
proof -
  define w' where "w' = clear_queue v e ty w"
  have q: "queue_of w' e' t = (if e' = e \<and> t = ty then [] else queue_of w e' t)" for e' t
    by (simp add: w'_def clear_queue_def settle_queue_def Let_def queue_of_set dequeue_def unmarked_def fire_empty_result)
  have f: "fx_timers w' = fx_timers w" "fx_anims w' = fx_anims w" "fx_delays w' = fx_delays w"
    by (simp_all add: w'_def clear_queue_def settle_queue_def Let_def queue_of_set dequeue_def unmarked_def fire_empty_result)
  show p: "playing w' = playing w" by (rule same_playing [OF f(1,2)])
  show "elsewhere_kept e ty w w'" by (auto simp: elsewhere_kept_def p q)
  show "ty = ''fx'' \<Longrightarrow> queue_of w' e ''fx'' = []" by (simp add: q)
  have "fx_weak w' x" for x
  proof (cases "x = e \<and> ty = ''fx''")
    case True
    then have "queue_of w' x ''fx'' = []" by (simp add: q)
    then show ?thesis using assms by (simp add: fx_weak_def p fx_wf_def plain_entries_def unmarked_def)
  next
    case False
    then show ?thesis using weak_cong [of w' x w] assms by (auto simp: p q fx_wf_def)
  qed
  then show "fx_wf w'" using assms by (simp add: fx_wf_def f)
qed

lemma delays_frame:
  "fx_timers (stop_delays e ty w) = fx_timers w" "fx_anims (stop_delays e ty w) = fx_anims w" "queue_of (stop_delays e ty w) = queue_of w"
  "set (fx_delays (stop_delays e ty w)) \<subseteq> set (fx_delays w)"
  by (auto simp: stop_delays_def Let_def put_fx_def queue_of_def fun_eq_iff)

lemma drop_others: "ts \<subseteq> set (fx_timers w) \<Longrightarrow> ts - {i} \<subseteq> set (fx_timers (drop_timer i w))"
proof
  fix x
  assume "ts \<subseteq> set (fx_timers w)" "x \<in> ts - {i}"
  then show "x \<in> set (fx_timers (drop_timer i w))" by (auto simp: drop_timer_def in_set_remove1)
qed

definition stop_one :: "fx_env \<Rightarrow> bool \<Rightarrow> nat \<Rightarrow> fx_world \<Rightarrow> fx_world" where
  "stop_one v to_end i w = drop_timer i (stop_anim v to_end i w)"

lemma stop_one_abs: "(\<lambda>i w. drop_timer i (stop_anim v to_end i w)) = stop_one v to_end"
  by (intro ext) (simp add: stop_one_def)

lemma stop_one_effect:
  assumes "fx_wf w" and "i \<in> set (fx_timers w)"
  shows "fx_wf (stop_one v to_end i w)" "fx_ok w e \<Longrightarrow> fx_ok (stop_one v to_end i w) e"
    "set (fx_timers w) - {i} \<subseteq> set (fx_timers (stop_one v to_end i w))"
    "i \<notin> set (playing w e) \<Longrightarrow> playing (stop_one v to_end i w) e = playing w e \<and> queue_of (stop_one v to_end i w) e ''fx'' = queue_of w e ''fx''"
    "i \<in> set (playing w e) \<Longrightarrow> (if to_end then fx_ok (stop_one v to_end i w) e
       else playing (stop_one v to_end i w) e = [] \<and> queue_of (stop_one v to_end i w) e ''fx'' = queue_of w e ''fx'')"
proof -
  define w' where "w' = stop_anim v to_end i w"
  note s = stop_anim_effect [OF assms, where to_end = to_end and v = v, folded w'_def, unfolded stop_effect_def]
  have dead: "\<forall>e. \<not> alive (fx_anims w' ! i) e" using s by blast
  note d = drop_dead [OF dead]
  have o: "stop_one v to_end i w = drop_timer i w'" by (simp add: stop_one_def w'_def)
  show "fx_wf (stop_one v to_end i w)" "fx_ok w e \<Longrightarrow> fx_ok (stop_one v to_end i w) e"
    unfolding o using s d by auto
  show "set (fx_timers w) - {i} \<subseteq> set (fx_timers (stop_one v to_end i w))"
  proof -
    obtain new where "fx_timers w' = fx_timers w @ new" using s by blast
    then show ?thesis unfolding o by (intro drop_others) simp
  qed
  have al: "i \<in> set (playing w e) \<longleftrightarrow> alive (fx_anims w ! i) e" using assms(2) by (simp add: playing_iff)
  show "i \<notin> set (playing w e) \<Longrightarrow> playing (stop_one v to_end i w) e = playing w e \<and> queue_of (stop_one v to_end i w) e ''fx'' = queue_of w e ''fx''"
    unfolding o al using s d(1) by simp
  show "i \<in> set (playing w e) \<Longrightarrow> (if to_end then fx_ok (stop_one v to_end i w) e
       else playing (stop_one v to_end i w) e = [] \<and> queue_of (stop_one v to_end i w) e ''fx'' = queue_of w e ''fx'')"
    unfolding o al using s d(1,2) by simp
qed

lemma stop_all:
  assumes "fx_wf w" and "distinct is" and "set is \<subseteq> set (fx_timers w)"
  shows "fx_wf (fold (stop_one v to_end) is w)" "fx_ok w e \<Longrightarrow> fx_ok (fold (stop_one v to_end) is w) e"
    "to_end \<Longrightarrow> set is \<inter> set (playing w e) \<noteq> {} \<Longrightarrow> fx_ok (fold (stop_one v to_end) is w) e"
    "\<not> to_end \<Longrightarrow> set (playing w e) \<subseteq> set is \<Longrightarrow> playing (fold (stop_one v to_end) is w) e = []"
proof -
  let ?g = "stop_one v to_end"
  have all: "fx_wf (fold ?g is w) \<and> (fx_ok w e \<longrightarrow> fx_ok (fold ?g is w) e) \<and>
    (to_end \<longrightarrow> set is \<inter> set (playing w e) \<noteq> {} \<longrightarrow> fx_ok (fold ?g is w) e) \<and>
    (\<not> to_end \<longrightarrow> set (playing w e) \<subseteq> set is \<longrightarrow> playing (fold ?g is w) e = [])"
    using assms
  proof (induction "is" arbitrary: w)
    case (Cons i js)
    have i: "i \<in> set (fx_timers w)" using Cons.prems(3) by simp
    note o = stop_one_effect [OF Cons.prems(1) i, where v = v and to_end = to_end]
    have "set js \<subseteq> set (fx_timers (?g i w))" using o(3) Cons.prems(2,3) by auto
    note IH = Cons.IH [OF o(1) _ this]
    show ?case
    proof (cases "i \<in> set (playing w e)")
      case True
      then show ?thesis using IH o(2,5) [of e] Cons.prems(2) by (cases to_end) auto
    next
      case False
      then show ?thesis using IH o(2,4) [of e] Cons.prems(2) by auto
    qed
  qed simp
  from all show "fx_wf (fold ?g is w)" "fx_ok w e \<Longrightarrow> fx_ok (fold ?g is w) e"
    "to_end \<Longrightarrow> set is \<inter> set (playing w e) \<noteq> {} \<Longrightarrow> fx_ok (fold ?g is w) e"
    "\<not> to_end \<Longrightarrow> set (playing w e) \<subseteq> set is \<Longrightarrow> playing (fold ?g is w) e = []" by simp_all
qed

lemma timers_playing:
  "ty = None \<or> ty = Some ''fx'' \<Longrightarrow> set (playing w e) \<subseteq> set (timers_of e ty w)" "set (timers_of e ty w) \<subseteq> set (fx_timers w)"
  by (auto simp: playing_def timers_of_def alive_def)

lemma timers_distinct: "fx_wf w \<Longrightarrow> distinct (rev (timers_of e ty w))"
  by (simp add: timers_of_def fx_wf_def)

lemma orderly_stop:
  assumes "fx_orderly w"
  shows "fx_orderly (stop_fx v e ty clear to_end w)"
proof -
  define n where "n = queue_name ty"
  define w1 where "w1 = (if clear then clear_queue v e n w else w)"
  define w2 where "w2 = stop_delays e ty w1"
  define mine where "mine = rev (timers_of e ty w2)"
  define w3 where "w3 = fold (stop_one v to_end) mine w2"
  have res: "stop_fx v e ty clear to_end w = (if mine = [] \<or> \<not> to_end then dequeue v e n w3 else w3)"
    unfolding stop_fx_def Let_def stop_one_abs n_def [symmetric] w1_def [symmetric] w2_def [symmetric] mine_def [symmetric] w3_def [symmetric] ..
  have wf: "fx_wf w" and ok: "fx_ok w x" for x using assms by (simp_all add: fx_orderly_def)
  have w1: "fx_wf w1" "playing w1 = playing w" "elsewhere_kept e n w w1"
    "clear \<Longrightarrow> n = ''fx'' \<Longrightarrow> queue_of w1 e ''fx'' = []" "\<not> clear \<Longrightarrow> w1 = w"
    using wf clear_wf [OF wf, where v = v and e = e and ty = n] by (auto simp: w1_def)
  have d: "\<forall>(k, x, t) \<in> set (fx_delays w2). t \<noteq> ''fx''"
    using w1(1) delays_frame(4) [of e ty w1] unfolding w2_def fx_wf_def by fastforce
  have w2: "fx_wf w2" "fx_ok w2 = fx_ok w1" "playing w2 = playing w1"
    unfolding w2_def using frame_wf(1,2) [OF delays_frame(1-3) d [unfolded w2_def]] w1(1) same_playing [OF delays_frame(1,2)] by auto
  have sub: "set mine \<subseteq> set (fx_timers w2)" using timers_playing(2) by (simp add: mine_def)
  note all = stop_all [OF w2(1) timers_distinct [OF w2(1), of e ty, folded mine_def] sub, where v = v and to_end = to_end, folded w3_def]
  have mine: "set (playing w2 e) \<subseteq> set mine" if "n = ''fx''"
    using timers_playing(1) [of ty w2 e] that by (auto simp: mine_def n_def queue_name_def split: option.splits)
  have ok1: "fx_ok w1 x" if "x \<noteq> e \<or> n \<noteq> ''fx'' \<or> \<not> clear \<or> playing w e = []" for x
  proof (cases "x \<noteq> e \<or> n \<noteq> ''fx'' \<or> \<not> clear")
    case True
    then show ?thesis using elsewhere_ok [OF w1(3), of x] ok [of x] w1(5) by auto
  next
    case False
    then have "playing w1 x = []" "fx_weak w1 x" using that w1(1,2) by (auto simp: fx_wf_def)
    then show ?thesis by (simp add: fx_ok_def)
  qed
  show ?thesis
  proof (cases "mine = [] \<or> \<not> to_end")
    case True
    have p: "playing w3 e = []" if "n = ''fx''"
      using True mine [OF that] all(4) [of e] by (cases "mine = []") (auto simp: w3_def)
    note q = dequeue_wf [OF all(1) p, where ty = n and v = v]
    have "fx_ok (dequeue v e n w3) x" for x
      using q(2) elsewhere_ok [OF q(3), of x] all(2) [of x] ok1 [of x] w2(2) by (cases "x = e \<and> n = ''fx''") auto
    then show ?thesis using True q(1) by (simp add: res fx_orderly_def)
  next
    case False
    have "fx_ok w3 x" for x
    proof (cases "x \<noteq> e \<or> n \<noteq> ''fx'' \<or> \<not> clear \<or> playing w e = []")
      case True
      then show ?thesis using all(2) [of x] ok1 [of x] w2(2) by simp
    next
      case no: False
      then have "set mine \<inter> set (playing w2 x) \<noteq> {}" using mine w1(2) w2(3) by (cases "playing w e") auto
      then show ?thesis using False all(3) [of x] by simp
    qed
    then have "fx_orderly w3" using all(1) by (simp add: fx_orderly_def)
    moreover have "stop_fx v e ty clear to_end w = w3" unfolding res using False by (simp only: if_False)
    ultimately show ?thesis by simp
  qed
qed

text \<open>Adding to a queue starts it when nothing runs.\<close>

lemma run_set:
  "run_entries v e ty (x # r) (set_hooks e ty (Some (hooks_of w e ty)) (set_queue e ty q w)) = run_entries v e ty (x # r) w"
proof -
  have "set_hooks e ty (Some ((hooks_of (set_hooks e ty (Some (hooks_of w e ty)) (set_queue e ty q w)) e ty)\<lparr>hk_stop := None\<rparr>))
      (set_queue e ty p (set_hooks e ty (Some (hooks_of w e ty)) (set_queue e ty q w))) =
    set_hooks e ty (Some ((hooks_of w e ty)\<lparr>hk_stop := None\<rparr>)) (set_queue e ty p w)" for p
    by (simp add: set_hooks_def set_queue_def put_fx_def hooks_of_def)
  then show ?thesis by (simp only: run_entries.simps)
qed

lemma hooks_of_queue [simp]: "hooks_of (set_queue e' ty' q w) = hooks_of w"
  by (simp add: hooks_of_def set_queue_def put_fx_def fun_eq_iff)

lemma hooks_of_fields [simp]:
  "hooks_of (w\<lparr>fx_timers := ts\<rparr>) = hooks_of w" "hooks_of (w\<lparr>fx_now := m\<rparr>) = hooks_of w" "hooks_of (w\<lparr>fx_running := b\<rparr>) = hooks_of w"
  by (simp_all add: hooks_of_def fun_eq_iff)

lemma enqueue_eq:
  assumes "u = set_hooks e ty (Some (hooks_of w e ty)) (set_queue e ty (Some q) w)" and "q = queue_of w e ty @ [x]"
  shows "enqueue v e ty x w = (if ty = ''fx'' \<and> (case q of In_Progress # r \<Rightarrow> False | _ \<Rightarrow> True) then run_entries v e ty (unmarked q) u else u)"
proof -
  have "queue_of u e ty = q" by (simp add: assms(1) queue_of_set)
  then show ?thesis
    unfolding enqueue_def settle_queue_def Let_def assms(2) [symmetric] hooks_of_queue assms(1) [symmetric] dequeue_def by (simp only:)
qed

lemma enqueue_idle:
  assumes "queue_of w e ''fx'' = []" and "x \<noteq> In_Progress"
  shows "enqueue v e ''fx'' x w = run_entries v e ''fx'' [x] w"
proof -
  have c: "(case [x] of In_Progress # r \<Rightarrow> False | _ \<Rightarrow> True)" "unmarked [x] = [x]" using assms(2) by (cases x; simp add: unmarked_def)+
  have q: "[x] = queue_of w e ''fx'' @ [x]" by (simp add: assms(1))
  show ?thesis unfolding enqueue_eq [OF refl q, of v] c(2) run_set using c(1) by simp
qed

lemma enqueue_later:
  assumes "ty = ''fx'' \<longrightarrow> queue_of w e ''fx'' = In_Progress # r"
  shows "enqueue v e ty x w = set_hooks e ty (Some (hooks_of w e ty)) (set_queue e ty (Some (queue_of w e ty @ [x])) w)"
  unfolding enqueue_eq [OF refl refl, of v e ty x w] using assms by (auto simp del: run_entries.simps)

lemma orderly_enqueue:
  assumes "fx_orderly w" and "ty = ''fx'' \<Longrightarrow> x \<noteq> In_Progress \<and> \<not> pauses x"
  shows "fx_orderly (enqueue v e ty x w)"
proof -
  have wf: "fx_wf w" and ok: "fx_ok w y" for y using assms(1) by (simp_all add: fx_orderly_def)
  show ?thesis
  proof (cases "ty = ''fx'' \<and> \<not> fx_marked w e")
    case True
    then have idle: "queue_of w e ''fx'' = []" "playing w e = []" using ok [of e] by (simp_all add: fx_ok_def fx_weak_def)
    have d: "enqueue v e ty x w = run_entries v e ty [x] w" using enqueue_idle [OF idle(1)] assms(2) True by simp
    have c: "ty = ''fx'' \<Longrightarrow> plain_entries [x] \<and> playing w e = []" using assms(2) True idle(2) by (simp add: plain_entries_def)
    note r = run_entries_wf [OF wf c, where v = v]
    have k: "elsewhere_kept e ty w (run_entries v e ty [x] w)" using r(3) by (simp add: elsewhere_kept_def)
    show ?thesis unfolding d by (rule orderly_elsewhere [OF assms(1) r(1) k r(2)])
  next
    case False
    then obtain r where r: "ty = ''fx'' \<longrightarrow> queue_of w e ''fx'' = In_Progress # r"
      by (auto simp: fx_marked_def split: list.splits fx_entry.splits)
    define w2 where "w2 = set_hooks e ty (Some (hooks_of w e ty)) (set_queue e ty (Some (queue_of w e ty @ [x])) w)"
    have w2: "queue_of w2 e' t = (if e' = e \<and> t = ty then queue_of w e ty @ [x] else queue_of w e' t)" "fx_timers w2 = fx_timers w"
      "fx_anims w2 = fx_anims w" "fx_delays w2 = fx_delays w" for e' t by (simp_all add: w2_def queue_of_set)
    note p = same_playing [OF w2(2,3)]
    have "fx_weak w2 y \<and> fx_ok w2 y" for y
    proof (cases "y = e \<and> ty = ''fx''")
      case True
      then show ?thesis
        using ok [of e] assms(2) r by (auto simp: fx_ok_def fx_weak_def fx_marked_def p w2(1) unmarked_def plain_entries_def)
    next
      case False
      then show ?thesis using weak_cong [of w2 y w] ok [of y] by (auto simp: p w2(1) fx_ok_def)
    qed
    then show ?thesis using wf by (simp add: enqueue_later [OF r] fx_orderly_def fx_wf_def w2 flip: w2_def)
  qed
qed

text \<open>A new animation.\<close>

lemma play_wf:
  assumes "fx_wf w" and "play v e ty spec w = (w', i, over)" and "ty = ''fx'' \<longrightarrow> playing w e = []"
  shows "fx_wf w'" "elsewhere_kept e ty w w'" "queue_of w' = queue_of w" "\<not> over \<Longrightarrow> i \<in> set (fx_timers w')" "i < length (fx_anims w')"
    "an_elem (fx_anims w' ! i) = e" "an_queue (fx_anims w' ! i) = ty" "\<not> an_stopped (fx_anims w' ! i)"
    "over \<Longrightarrow> playing w' = playing w" "an_settled (fx_anims w' ! i) = (if over then Some True else None)"
proof -
  note r = play_result [OF assms(2)]
  obtain a where a: "fx_anims w' = fx_anims w @ [a]" "an_elem a = e" "an_queue a = ty" "\<not> an_stopped a"
    "an_settled a = (if over then Some True else None)" using r by auto
  have i: "i = length (fx_anims w)" and t: "fx_timers w' = fx_timers w @ (if over then [] else [i])" and q: "queue_of w' = queue_of w"
    and d: "fx_delays w' = fx_delays w" using r by simp_all
  have lt: "\<forall>j \<in> set (fx_timers w). j < length (fx_anims w)" using assms(1) by (simp add: fx_wf_def)
  have nth: "fx_anims w' ! i = a" by (simp add: a(1) i)
  show "queue_of w' = queue_of w" by (rule q)
  show "\<not> over \<Longrightarrow> i \<in> set (fx_timers w')" "i < length (fx_anims w')" "an_elem (fx_anims w' ! i) = e" "an_queue (fx_anims w' ! i) = ty"
    "\<not> an_stopped (fx_anims w' ! i)" "an_settled (fx_anims w' ! i) = (if over then Some True else None)"
    using a i t by (simp_all add: nth)
  have "filter (\<lambda>j. alive (fx_anims w' ! j) x) (fx_timers w) = playing w x" for x
    unfolding playing_def by (rule filter_cong) (use lt a(1) in \<open>auto simp: nth_append\<close>)
  then have p: "playing w' x = playing w x @ (if over \<or> x \<noteq> e \<or> ty \<noteq> ''fx'' then [] else [i])" for x
    using a nth by (auto simp: playing_def t alive_def)
  show "over \<Longrightarrow> playing w' = playing w" by (simp add: p fun_eq_iff)
  show "elsewhere_kept e ty w w'" by (auto simp: elsewhere_kept_def p q)
  have "fx_weak w' x" for x
  proof (cases "over \<or> x \<noteq> e \<or> ty \<noteq> ''fx''")
    case True
    then show ?thesis using weak_cong [of w' x w] assms(1) by (auto simp: p q fx_wf_def)
  next
    case False
    then show ?thesis using assms(1,3) by (auto simp: fx_wf_def fx_weak_def fx_marked_def p q)
  qed
  moreover have "distinct (fx_timers w')" using assms(1) lt i by (auto simp: t fx_wf_def)
  moreover have "\<forall>j \<in> set (fx_timers w'). j < length (fx_anims w')" using lt a(1) i by (auto simp: t)
  ultimately show "fx_wf w'" using assms(1) by (simp add: fx_wf_def d)
qed

lemma dequeue_empty: "queue_of w e ty = [] \<Longrightarrow> queue_of (dequeue v e ty w) = queue_of w"
  by (auto simp: dequeue_def unmarked_def fire_empty_result fun_eq_iff)

lemma stop_empty:
  assumes "queue_of w (an_elem (fx_anims w ! i)) (an_queue (fx_anims w ! i)) = []" and "i < length (fx_anims w)"
  shows "queue_of (stop_anim v to_end i w) = queue_of w"
proof -
  define a where "a = fx_anims w ! i"
  define w1 where "w1 = put_anim i (\<lambda>a. a\<lparr>an_stopped := True\<rparr>) w"
  define w2 where "w2 = run_tweens v a 1 w1"
  have w1: "queue_of w1 = queue_of w" unfolding w1_def by (rule same_queues_of) (rule same_queues_anim)
  have w2: "queue_of w2 = queue_of w" unfolding w2_def w1 [symmetric] by (rule same_queues_of) (rule run_tweens_frame(1))
  have d: "queue_of (anim_done i w2) = queue_of w" unfolding w2 [symmetric] by (rule same_queues_of) (rule anim_done_frame(1))
  have "an_elem (fx_anims (anim_done i w2) ! i) = an_elem a" "an_queue (fx_anims (anim_done i w2) ! i) = an_queue a"
    using assms(2) by (simp_all add: anim_done_frame(2) w2_def run_tweens_frame(2) w1_def put_anim_def a_def)
  then have "queue_of (complete v i (anim_done i w2)) = queue_of w"
    using assms(1) by (simp add: complete_def Let_def dequeue_empty d flip: a_def)
  moreover have "queue_of (put_anim i (\<lambda>a. a\<lparr>an_settled := Some False\<rparr>) w1) = queue_of w"
    unfolding w1 [symmetric] by (rule same_queues_of) (rule same_queues_anim)
  ultimately show ?thesis by (simp add: stop_anim_def Let_def w1 w2 flip: a_def w1_def w2_def)
qed

text \<open>An entry that is run to its end at once.\<close>

definition free_for :: "nat \<Rightarrow> string \<Rightarrow> fx_world \<Rightarrow> bool" where
  "free_for e ty w \<longleftrightarrow> fx_orderly w \<and> queue_of w e ty = []"

lemma finish_entry_free:
  assumes "free_for e ty w"
  shows "free_for e ty (finish_entry v e ty x w)"
proof (cases x)
  case (Animate spec)
  have o: "fx_orderly w" "fx_wf w" and q: "queue_of w e ty = []" and ok: "fx_ok w y" for y
    using assms by (simp_all add: free_for_def fx_orderly_def)
  have idle: "ty = ''fx'' \<longrightarrow> playing w e = []" using ok [of e] q by (auto simp: fx_ok_def fx_marked_def)
  obtain w1 i over where p: "play v e ty spec w = (w1, i, over)" by (metis prod_cases3)
  note w1 = play_wf [OF o(2) p idle]
  show ?thesis
  proof (cases over)
    case False
    note s = stop_anim_effect [OF w1(1) w1(4) [OF False], where to_end = True and v = v, unfolded stop_effect_def]
    have al: "alive (fx_anims w1 ! i) y \<longleftrightarrow> y = e \<and> ty = ''fx''" for y using w1(6-8,10) False by (auto simp: alive_def)
    have "fx_ok (stop_anim v True i w1) y" for y
      using s al [of y] elsewhere_ok [OF w1(2), of y] ok [of y] by (cases "y = e \<and> ty = ''fx''") auto
    then have "fx_orderly (stop_anim v True i w1)" using s by (simp add: fx_orderly_def)
    moreover have "queue_of (stop_anim v True i w1) = queue_of w1" by (rule stop_empty) (simp_all add: w1 q)
    ultimately show ?thesis using False p w1(3) q by (simp add: Animate finish_entry_def free_for_def)
  next
    case True
    define w2 where "w2 = complete v i w1"
    define w3 where "w3 = fx_say (Fx_Done e (am_done (an_spec (fx_anims w1 ! i)))) w1"
    have w2: "w2 = dequeue v e ty w3" by (simp add: w2_def w3_def complete_def Let_def w1(6,7))
    have "fx_ok w1 y" for y using weak_cong [of w1 y w] ok [of y] w1(3,9) True by simp
    then have "fx_orderly w3" using w1(1) by (simp add: fx_orderly_def w3_def say_wf)
    then have o2: "fx_orderly w2" unfolding w2 by (rule orderly_dequeue) (use idle w1(9) True in \<open>simp add: w3_def say_wf\<close>)
    have q2: "queue_of w2 = queue_of w" unfolding w2 using q w1(3) by (simp add: dequeue_empty w3_def)
    obtain more where "fx_anims w2 = fx_anims w1 @ more" unfolding w2_def using complete_grows(1) by blast
    then have a: "fx_anims w2 ! i = fx_anims w1 ! i" "i < length (fx_anims w2)" using w1(5) by (simp_all add: nth_append)
    define w4 where "w4 = stop_anim v True i w2"
    define b where "b = fx_anims w1 ! i"
    have b: "an_settled b = Some True" "\<not> an_stopped b" using w1(8,10) True by (simp_all add: b_def)
    have w4: "w4 = run_tweens v b 1 (put_anim i (\<lambda>a. a\<lparr>an_stopped := True\<rparr>) w2)"
      using b by (simp add: w4_def stop_anim_def Let_def a(1) b_def)
    have s: "same_queues w2 w4" unfolding w4 using same_queues_anim run_tweens_frame(1) by (rule same_queues_trans)
    have f: "fx_anims w4 = (fx_anims w2)[i := b\<lparr>an_stopped := True\<rparr>]"
      by (simp add: w4 run_tweens_frame(2) put_anim_def a(1) b_def)
    have "fx_wf w2" using o2 by (simp add: fx_orderly_def)
    note t = settled_wf [OF this f _ _ _ same_queues_of [OF s] a(2)]
    have "fx_wf w4" "fx_ok w4 y" for y using t(1,3) s b o2 by (simp_all add: alive_def same_queues_def fx_orderly_def)
    then have "free_for e ty w4" using q2 q same_queues_of [OF s] by (simp add: free_for_def fx_orderly_def)
    then show ?thesis using True p by (simp add: Animate finish_entry_def w4_def w2_def)
  qed
qed (use assms in \<open>simp_all add: finish_entry_def\<close>)

text \<open>Finishing and the timer.\<close>

lemma stop_anim_static:
  assumes "j < length (fx_anims w)"
  shows "j < length (fx_anims (stop_anim v to_end i w))" "an_elem (fx_anims (stop_anim v to_end i w) ! j) = an_elem (fx_anims w ! j)"
    "an_queue (fx_anims (stop_anim v to_end i w) ! j) = an_queue (fx_anims w ! j)"
proof -
  let ?same = "\<lambda>as. j < length as \<and> an_elem (as ! j) = an_elem (fx_anims w ! j) \<and> an_queue (as ! j) = an_queue (fx_anims w ! j)"
  have up: "?same (as[i := (as ! i)\<lparr>an_stopped := b\<rparr>]) \<and> ?same (as[i := (as ! i)\<lparr>an_settled := c\<rparr>])" if "?same as" for as b c
    using that by (cases "j = i") simp_all
  have grow: "?same (fx_anims (complete v i u))" if "?same (fx_anims u)" for u
    using complete_grows(1) [of v i u] that by (auto simp: nth_append)
  define w1 where "w1 = put_anim i (\<lambda>a. a\<lparr>an_stopped := True\<rparr>) w"
  define w2 where "w2 = run_tweens v (fx_anims w ! i) 1 w1"
  have 1: "?same (fx_anims w1)" unfolding w1_def put_anim_def using up [of "fx_anims w" True] assms by simp
  then have 2: "?same (fx_anims w2)" by (simp add: w2_def run_tweens_frame(2))
  have 3: "?same (fx_anims (anim_done i w2))" unfolding anim_done_frame(2) using up [OF 2] by blast
  have 4: "?same (fx_anims (put_anim i (\<lambda>a. a\<lparr>an_settled := Some False\<rparr>) w1))" unfolding put_anim_def using up [OF 1] by simp
  have "?same (fx_anims (stop_anim v to_end i w))"
    unfolding stop_anim_def Let_def w1_def [symmetric] w2_def [symmetric] using assms 1 2 grow [OF 3] 4 by simp
  then show "j < length (fx_anims (stop_anim v to_end i w))" "an_elem (fx_anims (stop_anim v to_end i w) ! j) = an_elem (fx_anims w ! j)"
    "an_queue (fx_anims (stop_anim v to_end i w) ! j) = an_queue (fx_anims w ! j)" by simp_all
qed

lemma stop_all_empty:
  assumes "queue_of w e ty = []" and "\<forall>i \<in> set is. i < length (fx_anims w) \<and> an_elem (fx_anims w ! i) = e \<and> an_queue (fx_anims w ! i) = ty"
  shows "queue_of (fold (stop_one v to_end) is w) e ty = []"
  using assms
proof (induction "is" arbitrary: w)
  case (Cons i js)
  have "queue_of (stop_anim v to_end i w) = queue_of w" by (rule stop_empty) (use Cons.prems in simp_all)
  then have "queue_of (stop_one v to_end i w) e ty = []" using Cons.prems(1) by (simp add: stop_one_def)
  moreover have "\<forall>j \<in> set js. j < length (fx_anims (stop_one v to_end i w)) \<and> an_elem (fx_anims (stop_one v to_end i w) ! j) = e \<and>
      an_queue (fx_anims (stop_one v to_end i w) ! j) = ty"
    using Cons.prems(2) stop_anim_static by (simp add: stop_one_def)
  ultimately show ?case by (simp add: Cons.IH)
qed simp

lemma orderly_finish:
  assumes "fx_orderly w"
  shows "fx_orderly (finish_fx v e ty w)"
proof -
  define w1 where "w1 = set_queue e ty (Some []) w"
  define w2 where "w2 = (case fe_hooks (fx_elements w e) ty of
      Some h \<Rightarrow> (case hk_stop h of Some n \<Rightarrow> w1\<lparr>fx_delays := filter (\<lambda>d. fst d \<noteq> n) (fx_delays w1)\<rparr> | None \<Rightarrow> w1)
    | None \<Rightarrow> w1)"
  define mine where "mine = rev (timers_of e (Some ty) w2)"
  define w3 where "w3 = fold (stop_one v True) mine w2"
  have res: "finish_fx v e ty w = fold (finish_entry v e ty) (queue_of w e ty) w3"
    unfolding finish_fx_def Let_def stop_one_abs w1_def [symmetric] w2_def [symmetric] mine_def [symmetric] w3_def [symmetric] ..
  have wf: "fx_wf w" and ok: "fx_ok w x" for x using assms by (simp_all add: fx_orderly_def)
  have w2: "fx_timers w2 = fx_timers w" "fx_anims w2 = fx_anims w" "set (fx_delays w2) \<subseteq> set (fx_delays w)"
    "queue_of w2 e' t = (if e' = e \<and> t = ty then [] else queue_of w e' t)" for e' t
    by (auto simp: w2_def w1_def queue_of_set split: option.splits)
  note p = same_playing [OF w2(1,2)]
  have weak: "fx_weak w2 x" for x
  proof (cases "x = e \<and> ty = ''fx''")
    case True
    then have "queue_of w2 x ''fx'' = []" by (simp add: w2(4))
    then show ?thesis using wf by (simp add: fx_weak_def p fx_wf_def plain_entries_def unmarked_def)
  next
    case False
    then show ?thesis using weak_cong [of w2 x w] wf by (auto simp: p w2(4) fx_wf_def)
  qed
  have "\<forall>(n, x, t) \<in> set (fx_delays w2). t \<noteq> ''fx''" using wf w2(3) by (fastforce simp: fx_wf_def)
  then have wf2: "fx_wf w2" using wf weak by (simp add: fx_wf_def w2(1,2))
  have sub: "set mine \<subseteq> set (fx_timers w2)" using timers_playing(2) by (simp add: mine_def)
  note all = stop_all [OF wf2 timers_distinct [OF wf2, of e "Some ty", folded mine_def] sub, where v = v and to_end = True, folded w3_def]
  have "fx_ok w3 x" for x
  proof (cases "x = e \<and> ty = ''fx'' \<and> playing w e \<noteq> []")
    case True
    then have "set mine \<inter> set (playing w2 x) \<noteq> {}"
      using timers_playing(1) [of "Some ty" w2 e] p by (cases "playing w e") (auto simp: mine_def)
    then show ?thesis using all(3) [of x] by simp
  next
    case False
    have "fx_ok w2 x"
    proof (cases "x = e \<and> ty = ''fx''")
      case True
      then show ?thesis using False weak [of x] by (simp add: fx_ok_def p)
    next
      case other: False
      then show ?thesis using weak_cong [of w2 x w] ok [of x] by (auto simp: p w2(4))
    qed
    then show ?thesis by (rule all(2))
  qed
  then have o3: "fx_orderly w3" using all(1) by (simp add: fx_orderly_def)
  have "\<forall>i \<in> set mine. i < length (fx_anims w2) \<and> an_elem (fx_anims w2 ! i) = e \<and> an_queue (fx_anims w2 ! i) = ty"
    using wf2 by (auto simp: mine_def timers_of_def Let_def fx_wf_def)
  then have "queue_of w3 e ty = []" unfolding w3_def by (intro stop_all_empty) (simp_all add: w2(4))
  then have "free_for e ty w3" using o3 by (simp add: free_for_def)
  then have "free_for e ty (fold (finish_entry v e ty) q w3)" for q
    by (induction q arbitrary: w3) (simp_all add: finish_entry_free)
  then show ?thesis by (simp add: res free_for_def)
qed

lemma tick_one_orderly:
  assumes "fx_orderly w" and "i \<in> set (fx_timers w)"
  shows "fx_orderly (tick_one v i w) \<and> set (fx_timers w) - {i} \<subseteq> set (fx_timers (tick_one v i w))"
proof -
  have wf: "fx_wf w" and ok: "fx_ok w e" for e using assms(1) by (simp_all add: fx_orderly_def)
  have lt: "i < length (fx_anims w)" using wf assms(2) by (simp add: fx_wf_def)
  define a where "a = fx_anims w ! i"
  define w1 where "w1 = run_tweens v a (fx_percent a (fx_now w)) w"
  have w1: "same_queues w w1" "fx_anims w1 = fx_anims w" by (simp_all add: w1_def run_tweens_frame)
  have o1: "fx_orderly w1" by (rule orderly_frame [OF assms(1)]) (use w1 same_queues_of in \<open>simp_all add: same_queues_def\<close>)
  have drop: "fx_orderly (drop_timer i u) \<and> set (fx_timers w) - {i} \<subseteq> set (fx_timers (drop_timer i u))"
    if "fx_orderly u" "\<forall>e. \<not> alive (fx_anims u ! i) e" "set (fx_timers w) \<subseteq> set (fx_timers u)" for u
    using that(1) drop_dead [OF that(2)] drop_others [OF that(3)] by (simp add: fx_orderly_def)
  show ?thesis
  proof (cases "an_stopped a \<or> \<not> fx_over a (fx_now w)")
    case True
    then show ?thesis
      using drop [of w] assms(1) o1 w1(1) by (auto simp: tick_one_def Let_def w1_def a_def alive_def same_queues_def)
  next
    case go: False
    show ?thesis
    proof (cases "an_settled a")
      case None
      define u where "u = complete v i (anim_done i w1)"
      have f: "fx_anims (anim_done i w1) = (fx_anims w)[i := a\<lparr>an_settled := Some True\<rparr>]"
        by (simp add: anim_done_frame(2) w1(2) a_def)
      have q: "same_queues w (anim_done i w1)" using w1(1) anim_done_frame(1) by (rule same_queues_trans)
      have "stop_effect i True w u" unfolding u_def
        by (rule stop_completes [OF wf assms(2) f _ q]) (use go None in \<open>simp_all add: a_def\<close>)
      then have "fx_orderly u" "\<forall>e. \<not> alive (fx_anims u ! i) e" "set (fx_timers w) \<subseteq> set (fx_timers u)"
        using ok by (auto simp: stop_effect_def fx_orderly_def)
      then show ?thesis using drop [of u] go None by (simp add: tick_one_def Let_def u_def w1_def flip: a_def)
    next
      case (Some b)
      then have "\<forall>e. \<not> alive (fx_anims w1 ! i) e" by (simp add: w1(2) alive_def a_def)
      then show ?thesis using drop [of w1] o1 w1(1) go Some by (simp add: tick_one_def Let_def same_queues_def flip: a_def w1_def)
    qed
  qed
qed

lemma orderly_tick:
  assumes "fx_orderly w"
  shows "fx_orderly (fx_tick v w)"
proof -
  have dist: "distinct (fx_timers u)" if "fx_orderly u" for u using that by (simp add: fx_orderly_def fx_wf_def)
  define w1 where "w1 = fold (tick_one v) (fx_timers w) w"
  define w2 where "w2 = fold (tick_one v) (filter (\<lambda>i. i \<notin> set (fx_timers w)) (fx_timers w1)) w1"
  have 1: "fx_orderly w1" unfolding w1_def
    by (rule orderly_fold [where P = fx_orderly]) (use assms dist tick_one_orderly in blast)+
  have 2: "fx_orderly w2" unfolding w2_def
    by (rule orderly_fold [where P = fx_orderly, OF tick_one_orderly 1]) (use dist [OF 1] in auto)
  show ?thesis unfolding fx_tick_def Let_def w1_def [symmetric] w2_def [symmetric] by (rule orderly_frame [OF 2]) simp_all
qed

lemma orderly_do:
  assumes "fx_orderly w" and "orderly_step w s"
  shows "fx_orderly (fx_do v s w)"
proof (cases s)
  case (Fx_Clear e ty)
  have wf: "fx_wf w" using assms(1) by (simp add: fx_orderly_def)
  note c = clear_wf [OF wf, where v = v and e = e and ty = ty]
  have "fx_ok (clear_queue v e ty w) e" if "ty = ''fx''"
    using c(1,2) assms(2) that by (simp add: Fx_Clear fx_wf_def fx_ok_def)
  then show ?thesis using orderly_elsewhere [OF assms(1) c(1,3)] by (simp add: Fx_Clear)
next
  case (Fx_Promise e ty p)
  have "queue_of (promise_of e ty p w) = queue_of w" "fx_timers (promise_of e ty p w) = fx_timers w"
    "fx_anims (promise_of e ty p w) = fx_anims w" "fx_delays (promise_of e ty p w) = fx_delays w"
    by (simp_all add: promise_of_def split: option.splits)
  then show ?thesis using orderly_frame [OF assms(1), of "promise_of e ty p w"] by (simp add: Fx_Promise)
next
  case (Fx_Timeout n)
  show ?thesis
  proof (cases "find (\<lambda>d. fst d = n) (fx_delays w)")
    case (Some d)
    obtain m e ty where d: "d = (m, e, ty)" by (metis prod_cases3)
    have "d \<in> set (fx_delays w)" using Some by (metis find_Some_iff nth_mem)
    then have ty: "ty \<noteq> ''fx''" using assms(1) d by (auto simp: fx_orderly_def fx_wf_def)
    have "fx_orderly (w\<lparr>fx_delays := filter (\<lambda>d. fst d \<noteq> n) (fx_delays w)\<rparr>)" by (rule orderly_frame [OF assms(1)]) auto
    then show ?thesis using ty Some d by (simp add: Fx_Timeout orderly_dequeue)
  qed (simp add: Fx_Timeout assms(1))
next
  case (Fx_Wait n)
  show ?thesis unfolding Fx_Wait fx_do.simps by (rule orderly_frame [OF assms(1)]) simp_all
qed (use assms in \<open>auto simp: animate_fx_def orderly_enqueue orderly_stop orderly_finish orderly_tick intro: orderly_dequeue\<close>)

text \<open>A page whose scripts have started nothing yet.\<close>

definition fx_fresh :: "fx_world \<Rightarrow> bool" where
  "fx_fresh w \<longleftrightarrow> fx_timers w = [] \<and> fx_delays w = [] \<and> (\<forall>e. queue_of w e ''fx'' = [])"

lemma orderly_run: "fx_orderly w \<Longrightarrow> orderly_steps v w ss \<Longrightarrow> fx_orderly (fold (fx_do v) ss w)"
  by (induction ss arbitrary: w) (simp_all add: orderly_do)

lemma orderly_fresh: "fx_fresh w \<Longrightarrow> fx_orderly w"
  by (simp add: fx_fresh_def fx_orderly_def fx_wf_def fx_ok_def fx_weak_def playing_def plain_entries_def unmarked_def)

section \<open>The queue runs out\<close>

text \<open>Nothing of the element runs or waits; or its animation \<open>s\<close> runs, the only one of the page, and \<open>rest\<close> waits.\<close>

definition fx_idle :: "nat \<Rightarrow> fx_world \<Rightarrow> bool" where
  "fx_idle e w \<longleftrightarrow> fx_timers w = [] \<and> queue_of w e ''fx'' = [] \<and> hk_waiting (hooks_of w e ''fx'') = []"

definition fx_busy :: "nat \<Rightarrow> animate_spec \<Rightarrow> animate_spec list \<Rightarrow> fx_world \<Rightarrow> bool" where
  "fx_busy e s rest w \<longleftrightarrow>
     fx_running w \<and> queue_of w e ''fx'' = In_Progress # map Animate rest \<and> hk_waiting (hooks_of w e ''fx'') = [] \<and>
     (\<exists>i a. fx_timers w = [i] \<and> i < length (fx_anims w) \<and> fx_anims w ! i = a \<and> an_elem a = e \<and> an_queue a = ''fx'' \<and> an_spec a = s \<and>
        \<not> an_stopped a \<and> an_settled a = None \<and> an_start a \<le> fx_now w)"

text \<open>The first \<open>k\<close> animations have ended, in their order, and the next one runs.\<close>

definition fx_at :: "nat \<Rightarrow> fx_note list \<Rightarrow> animate_spec list \<Rightarrow> nat \<Rightarrow> fx_world \<Rightarrow> bool" where
  "fx_at e l ss k w \<longleftrightarrow>
     k \<le> length ss \<and> fx_log w = l @ map (\<lambda>s. Fx_Done e (am_done s)) (take k ss) \<and>
     (if k = length ss then fx_idle e w else fx_busy e (ss ! k) (drop (Suc k) ss) w)"

lemma hooks_of_set: "hooks_of (set_hooks e ty (Some h) w) e ty = h" "hooks_of (fx_say n w) = hooks_of w"
  by (simp_all add: hooks_of_def set_hooks_def set_queue_def put_fx_def fun_eq_iff)

lemma fire_empty_quiet:
  "hk_waiting (hooks_of w e ty) = [] \<Longrightarrow> fx_log (fire_empty e ty w) = fx_log w"
  "hk_waiting (hooks_of (fire_empty e ty w) e ty) = []"
  by (simp_all add: fire_empty_def) (simp add: hooks_of_def set_hooks_def put_fx_def)

text \<open>What running the animations that wait does: those that are over at once end in their order.\<close>

definition fx_ran :: "nat \<Rightarrow> animate_spec list \<Rightarrow> fx_world \<Rightarrow> fx_world \<Rightarrow> bool" where
  "fx_ran e ss w w' \<longleftrightarrow>
     (\<exists>k more. k \<le> length ss \<and> fx_log w' = fx_log w @ map (\<lambda>s. Fx_Done e (am_done s)) (take k ss) \<and> fx_now w' = fx_now w \<and>
       fx_anims w' = fx_anims w @ more \<and> hk_waiting (hooks_of w' e ''fx'') = [] \<and>
       (if k = length ss then fx_timers w' = fx_timers w \<and> queue_of w' e ''fx'' = []
        else queue_of w' e ''fx'' = In_Progress # map Animate (drop (Suc k) ss) \<and> fx_running w' \<and>
          (\<exists>i a. length (fx_anims w) \<le> i \<and> i < length (fx_anims w') \<and> fx_timers w' = fx_timers w @ [i] \<and> fx_anims w' ! i = a \<and>
            an_elem a = e \<and> an_queue a = ''fx'' \<and> an_spec a = ss ! k \<and> \<not> an_stopped a \<and> an_settled a = None \<and> an_start a = fx_now w \<and>
            \<not> fx_over a (fx_now w))))"

lemma run_animations:
  assumes "hk_waiting (hooks_of w e ''fx'') = []"
  shows "fx_ran e ss w (run_entries v e ''fx'' (map Animate ss) w)"
  using assms
proof (induction ss arbitrary: w)
  case Nil
  then show ?case by (simp add: fx_ran_def fire_empty_quiet fire_empty_result)
next
  case (Cons s ss)
  define w1 where "w1 = set_hooks e ''fx'' (Some ((hooks_of w e ''fx'')\<lparr>hk_stop := None\<rparr>)) (set_queue e ''fx'' (Some (In_Progress # map Animate ss)) w)"
  have w1: "fx_log w1 = fx_log w" "fx_now w1 = fx_now w" "fx_anims w1 = fx_anims w" "fx_timers w1 = fx_timers w"
    "hk_waiting (hooks_of w1 e ''fx'') = []" "queue_of w1 e ''fx'' = In_Progress # map Animate ss"
    using Cons.prems by (simp_all add: w1_def hooks_of_set queue_of_set)
  obtain w2 i over where p: "play v e ''fx'' s w1 = (w2, i, over)" by (metis prod_cases3)
  obtain a where a: "fx_anims w2 = fx_anims w @ [a]" "an_elem a = e" "an_queue a = ''fx''" "an_spec a = s" "an_start a = fx_now w" "\<not> an_stopped a"
    "over = fx_over a (fx_now w)" "an_settled a = (if over then Some True else None)"
    and w2: "i = length (fx_anims w)" "fx_log w2 = fx_log w" "fx_now w2 = fx_now w" "queue_of w2 = queue_of w1"
      "fx_timers w2 = fx_timers w @ (if over then [] else [i])" "fx_running w2 = (fx_running w1 \<or> \<not> over)" "hooks_of w2 = hooks_of w1"
    using play_result [OF p] by (auto simp: w1 hooks_of_def fun_eq_iff)
  have run: "run_entries v e ''fx'' (map Animate (s # ss)) w =
      (if over then run_entries v e ''fx'' (map Animate ss) (fx_say (Fx_Done e (am_done s)) w2) else w2)"
    by (simp add: Let_def p flip: w1_def)
  show ?case
  proof (cases over)
    case False
    then show ?thesis
      unfolding run fx_ran_def by (intro exI [of _ 0] exI [of _ "[a]"]) (use a w1 w2 in \<open>simp add: nth_append\<close>)
  next
    case True
    define w3 where "w3 = fx_say (Fx_Done e (am_done s)) w2"
    have w3: "hk_waiting (hooks_of w3 e ''fx'') = []" "fx_log w3 = fx_log w @ [Fx_Done e (am_done s)]" "fx_now w3 = fx_now w"
      "fx_timers w3 = fx_timers w" "fx_anims w3 = fx_anims w @ [a]" using w1 w2 a True by (simp_all add: w3_def hooks_of_set)
    define w' where "w' = run_entries v e ''fx'' (map Animate ss) w3"
    obtain k more where k: "k \<le> length ss" "fx_log w' = fx_log w3 @ map (\<lambda>s. Fx_Done e (am_done s)) (take k ss)" "fx_now w' = fx_now w3"
      "fx_anims w' = fx_anims w3 @ more" "hk_waiting (hooks_of w' e ''fx'') = []"
      "if k = length ss then fx_timers w' = fx_timers w3 \<and> queue_of w' e ''fx'' = []
       else queue_of w' e ''fx'' = In_Progress # map Animate (drop (Suc k) ss) \<and> fx_running w' \<and>
       (\<exists>i a. length (fx_anims w3) \<le> i \<and> i < length (fx_anims w') \<and> fx_timers w' = fx_timers w3 @ [i] \<and> fx_anims w' ! i = a \<and>
         an_elem a = e \<and> an_queue a = ''fx'' \<and> an_spec a = ss ! k \<and> \<not> an_stopped a \<and> an_settled a = None \<and> an_start a = fx_now w3 \<and>
         \<not> fx_over a (fx_now w3))"
      using Cons.IH [OF w3(1)] unfolding fx_ran_def w'_def [symmetric] by (elim exE conjE) (rule that, assumption+)
    have r: "run_entries v e ''fx'' (map Animate (s # ss)) w = w'" using True by (simp only: run w'_def w3_def if_True)
    show ?thesis
      unfolding r fx_ran_def by (intro exI [of _ "Suc k"] exI [of _ "a # more"]) (use k w3 in \<open>auto split: if_splits\<close>)
  qed
qed

text \<open>The same as a stage of the queue, in a state in which the timers of before are gone.\<close>

lemma at_ran:
  assumes "fx_ran e rest w w'" and "fx_log w = l @ map (\<lambda>s. Fx_Done e (am_done s)) ss"
    and "u = w'\<lparr>fx_timers := drop (length (fx_timers w)) (fx_timers w')\<rparr>"
  shows "\<exists>k \<ge> length ss. fx_at e l (ss @ rest) k u"
    "j \<in> set (fx_timers u) \<Longrightarrow> length (fx_anims w) \<le> j \<and> \<not> fx_over (fx_anims u ! j) (fx_now u) \<and> \<not> an_stopped (fx_anims u ! j)"
    "fx_timers w' = fx_timers w @ fx_timers u"
proof -
  obtain k more where k: "k \<le> length rest" "fx_log w' = fx_log w @ map (\<lambda>s. Fx_Done e (am_done s)) (take k rest)" "fx_now w' = fx_now w"
    "fx_anims w' = fx_anims w @ more" "hk_waiting (hooks_of w' e ''fx'') = []"
    "if k = length rest then fx_timers w' = fx_timers w \<and> queue_of w' e ''fx'' = []
     else queue_of w' e ''fx'' = In_Progress # map Animate (drop (Suc k) rest) \<and> fx_running w' \<and>
     (\<exists>i a. length (fx_anims w) \<le> i \<and> i < length (fx_anims w') \<and> fx_timers w' = fx_timers w @ [i] \<and> fx_anims w' ! i = a \<and>
       an_elem a = e \<and> an_queue a = ''fx'' \<and> an_spec a = rest ! k \<and> \<not> an_stopped a \<and> an_settled a = None \<and> an_start a = fx_now w \<and>
       \<not> fx_over a (fx_now w))"
    using assms(1) unfolding fx_ran_def by (elim exE conjE) (rule that, assumption+)
  have same: "queue_of u = queue_of w'" "hooks_of u = hooks_of w'" by (simp_all add: assms(3))
  have log: "fx_log u = l @ map (\<lambda>s. Fx_Done e (am_done s)) (take (length ss + k) (ss @ rest))" by (simp add: assms(2,3) k(2))
  have "fx_at e l (ss @ rest) (length ss + k) u \<and> fx_timers w' = fx_timers w @ fx_timers u \<and>
    (\<forall>j \<in> set (fx_timers u). length (fx_anims w) \<le> j \<and> \<not> fx_over (fx_anims u ! j) (fx_now u) \<and> \<not> an_stopped (fx_anims u ! j))"
  proof (cases "k = length rest")
    case True
    then show ?thesis using k(5,6) log by (simp add: fx_at_def fx_idle_def assms(3) same [unfolded assms(3)])
  next
    case False
    then obtain i a where a: "length (fx_anims w) \<le> i" "i < length (fx_anims w')" "fx_timers w' = fx_timers w @ [i]" "fx_anims w' ! i = a"
      "an_elem a = e" "an_queue a = ''fx''" "an_spec a = rest ! k" "\<not> an_stopped a" "an_settled a = None" "an_start a = fx_now w"
      "queue_of w' e ''fx'' = In_Progress # map Animate (drop (Suc k) rest)" "fx_running w'" "\<not> fx_over a (fx_now w)"
      using k(6) by auto
    have t: "fx_timers u = [i]" "fx_anims u = fx_anims w'" "fx_now u = fx_now w" "fx_running u = fx_running w'" by (simp_all add: assms(3) a(3) k(3))
    have "fx_busy e (rest ! k) (drop (Suc k) rest) u" unfolding fx_busy_def same t using a k(5) by simp
    moreover have "(ss @ rest) ! (length ss + k) = rest ! k" "drop (Suc (length ss + k)) (ss @ rest) = drop (Suc k) rest" by simp_all
    ultimately show ?thesis using False k(1) log a by (simp add: fx_at_def t)
  qed
  then show "\<exists>k \<ge> length ss. fx_at e l (ss @ rest) k u" "fx_timers w' = fx_timers w @ fx_timers u"
    "j \<in> set (fx_timers u) \<Longrightarrow> length (fx_anims w) \<le> j \<and> \<not> fx_over (fx_anims u ! j) (fx_now u) \<and> \<not> an_stopped (fx_anims u ! j)"
    by (blast intro: le_add1)+
qed

lemma at_animate:
  assumes "fx_at e l ss k w" and "am_props s \<noteq> []"
  shows "\<exists>k'. fx_at e l (ss @ [s]) k' (fx_do v (Fx_Animate e ''fx'' s) w)"
proof (cases "k = length ss")
  case True
  then have i: "fx_idle e w" "fx_log w = l @ map (\<lambda>s. Fx_Done e (am_done s)) ss" using assms(1) by (simp_all add: fx_at_def)
  then have "fx_do v (Fx_Animate e ''fx'' s) w = run_entries v e ''fx'' (map Animate [s]) w"
    using assms(2) enqueue_idle [of w e "Animate s" v] by (simp add: animate_fx_def fx_idle_def del: run_entries.simps)
  moreover have "fx_ran e [s] w (run_entries v e ''fx'' (map Animate [s]) w)" using i(1) by (intro run_animations) (simp add: fx_idle_def)
  moreover have "fx_timers w = []" using i(1) by (simp add: fx_idle_def)
  ultimately show ?thesis using at_ran(1) [OF _ i(2) refl, of "[s]"] by (auto simp del: run_entries.simps list.map)
next
  case False
  then have b: "fx_busy e (ss ! k) (drop (Suc k) ss) w" "k < length ss" "fx_log w = l @ map (\<lambda>s. Fx_Done e (am_done s)) (take k ss)"
    using assms(1) by (simp_all add: fx_at_def)
  then have q: "queue_of w e ''fx'' = In_Progress # map Animate (drop (Suc k) ss)" by (simp add: fx_busy_def)
  have "fx_do v (Fx_Animate e ''fx'' s) w = set_hooks e ''fx'' (Some (hooks_of w e ''fx''))
      (set_queue e ''fx'' (Some (In_Progress # map Animate (drop (Suc k) ss @ [s]))) w)"
    using assms(2) enqueue_later [of "''fx''" w e] q by (simp add: animate_fx_def)
  then have "fx_at e l (ss @ [s]) k (fx_do v (Fx_Animate e ''fx'' s) w)"
    using b by (simp add: fx_at_def fx_busy_def hooks_of_set queue_of_set nth_append)
  then show ?thesis ..
qed

lemma at_animates:
  assumes "fx_at e l ss k w" and "\<forall>s \<in> set new. am_props s \<noteq> []"
  shows "\<exists>k'. fx_at e l (ss @ new) k' (fold (fx_do v) (map (Fx_Animate e ''fx'') new) w)"
  using assms
proof (induction new arbitrary: ss k w)
  case Nil
  then show ?case by auto
next
  case (Cons s new)
  obtain k' where "fx_at e l (ss @ [s]) k' (fx_do v (Fx_Animate e ''fx'' s) w)" using at_animate [OF Cons.prems(1), of s v] Cons.prems(2) by auto
  then show ?case using Cons.IH [of "ss @ [s]" k' "fx_do v (Fx_Animate e ''fx'' s) w"] Cons.prems(2) by simp
qed

lemma over_late: "an_start a + am_duration (an_spec a) \<le> n \<Longrightarrow> fx_over a n"
  by (simp add: fx_over_def fx_percent_def)

lemma same_queues_hooks: "same_queues w w' \<Longrightarrow> hooks_of w' = hooks_of w"
  by (simp add: same_queues_def hooks_of_def fun_eq_iff)

lemma at_cong: "same_queues w w' \<Longrightarrow> fx_anims w' = fx_anims w \<Longrightarrow> fx_at e l ss k w' = fx_at e l ss k w"
  using same_queues_hooks [of w w'] same_queues_of [of w w'] by (simp add: fx_at_def fx_idle_def fx_busy_def same_queues_def)

lemma tick_early:
  assumes "\<forall>j \<in> set js. \<not> fx_over (fx_anims w ! j) (fx_now w) \<and> \<not> an_stopped (fx_anims w ! j)"
  shows "same_queues w (fold (tick_one v) js w) \<and> fx_anims (fold (tick_one v) js w) = fx_anims w"
  using assms
proof (induction js arbitrary: w)
  case (Cons j js)
  have t: "same_queues w (tick_one v j w)" "fx_anims (tick_one v j w) = fx_anims w"
    using Cons.prems run_tweens_frame by (simp_all add: tick_one_def Let_def)
  then show ?case using Cons.IH [of "tick_one v j w"] Cons.prems same_queues_trans by (auto simp: same_queues_def)
qed simp

text \<open>A tick after a time no shorter than the duration of any animation ends the one that runs.\<close>

lemma at_round:
  assumes "fx_at e l ss k w" and "\<forall>s \<in> set ss. am_duration s \<le> int n"
  shows "\<exists>k' \<ge> min (Suc k) (length ss). fx_at e l ss k' (fx_do v Fx_Tick (fx_do v (Fx_Wait n) w))"
proof -
  define w1 where "w1 = w\<lparr>fx_now := fx_now w + int n\<rparr>"
  have w1: "fx_timers w1 = fx_timers w" "fx_anims w1 = fx_anims w" "queue_of w1 = queue_of w" "hooks_of w1 = hooks_of w"
    "fx_log w1 = fx_log w" "fx_running w1 = fx_running w" by (simp_all add: w1_def)
  have res: "fx_do v Fx_Tick (fx_do v (Fx_Wait n) w) = (if fx_running w then fx_tick v w1 else w1)" by (simp add: w1_def)
  have le: "k \<le> length ss" using assms(1) by (simp add: fx_at_def)
  show ?thesis
  proof (cases "k = length ss")
    case True
    then have t: "fx_timers w = []" using assms(1) by (simp add: fx_at_def fx_idle_def)
    have "fx_at e l ss k (if fx_running w then fx_tick v w1 else w1)"
      using assms(1) True by (simp add: fx_at_def fx_idle_def fx_tick_def Let_def t w1)
    then show ?thesis unfolding res using True by auto
  next
    case False
    then have b: "fx_busy e (ss ! k) (drop (Suc k) ss) w" and log: "fx_log w = l @ map (\<lambda>s. Fx_Done e (am_done s)) (take k ss)" and k: "k < length ss"
      using assms(1) by (simp_all add: fx_at_def)
    obtain i a where a: "fx_timers w = [i]" "i < length (fx_anims w)" "fx_anims w ! i = a" "an_elem a = e" "an_queue a = ''fx''" "an_spec a = ss ! k"
      "\<not> an_stopped a" "an_settled a = None" "an_start a \<le> fx_now w"
      and q: "queue_of w e ''fx'' = In_Progress # map Animate (drop (Suc k) ss)" "hk_waiting (hooks_of w e ''fx'') = []" "fx_running w"
      using b by (auto simp: fx_busy_def)
    have dur: "am_duration (ss ! k) \<le> int n" using assms(2) k by simp
    have over: "fx_over a (fx_now w1)" by (rule over_late) (use a(6,9) dur in \<open>simp add: w1_def\<close>)
    define w2 where "w2 = anim_done i (run_tweens v a (fx_percent a (fx_now w1)) w1)"
    have w2: "same_queues w1 w2" "fx_anims w2 = (fx_anims w)[i := a\<lparr>an_settled := Some True\<rparr>]"
      unfolding w2_def using run_tweens_frame(1) anim_done_frame(1) same_queues_trans
      by (blast, simp add: anim_done_frame(2) run_tweens_frame(2) w1 a(3))
    define w3 where "w3 = fx_say (Fx_Done e (am_done (ss ! k))) w2"
    have w3: "fx_log w3 = l @ map (\<lambda>s. Fx_Done e (am_done s)) (take (Suc k) ss)" "fx_timers w3 = [i]" "length (fx_anims w3) = length (fx_anims w)"
      "queue_of w3 e ''fx'' = In_Progress # map Animate (drop (Suc k) ss)" "hk_waiting (hooks_of w3 e ''fx'') = []"
      using w2 same_queues_of [OF w2(1)] same_queues_hooks [OF w2(1)] a(1) log q k
      by (simp_all add: w3_def same_queues_def w1 hooks_of_set take_Suc_conv_app_nth)
    define w4 where "w4 = run_entries v e ''fx'' (map Animate (drop (Suc k) ss)) w3"
    have ran: "fx_ran e (drop (Suc k) ss) w3 w4" unfolding w4_def by (rule run_animations [OF w3(5)])
    define u where "u = w4\<lparr>fx_timers := drop (length (fx_timers w3)) (fx_timers w4)\<rparr>"
    note r = at_ran [OF ran w3(1) u_def]
    have "fx_anims w2 ! i = a\<lparr>an_settled := Some True\<rparr>" using a(2) w2(2) by simp
    then have "complete v i w2 = dequeue v e ''fx'' w3" using a(4-6) by (simp add: complete_def Let_def w3_def)
    then have c: "complete v i w2 = w4" by (simp add: dequeue_def w3(4) unmarked_def w4_def)
    have "tick_one v i w1 = drop_timer i w4"
      using a(3,7,8) over w1(2) c by (simp add: tick_one_def Let_def flip: w2_def)
    also have "\<dots> = w4\<lparr>fx_timers := fx_timers u\<rparr>" using r(3) w3(2) by (simp add: drop_timer_def)
    also have "\<dots> = u" by (simp add: u_def)
    finally have t1: "fold (tick_one v) (fx_timers w1) w1 = u" by (simp add: w1(1) a(1))
    have other: "filter (\<lambda>j. j \<notin> set (fx_timers w1)) (fx_timers u) = fx_timers u"
      using r(2) a(2) w3(3) by (fastforce simp: filter_id_conv w1(1) a(1))
    obtain k' where k': "k' \<ge> Suc k" "fx_at e l ss k' u" using r(1) k by auto
    define w5 where "w5 = fold (tick_one v) (fx_timers u) u"
    have "same_queues u w5 \<and> fx_anims w5 = fx_anims u" unfolding w5_def by (rule tick_early) (use r(2) in blast)
    then have "fx_at e l ss k' w5" using at_cong k'(2) by blast
    moreover have "fx_tick v w1 = w5\<lparr>fx_running := (fx_timers w5 \<noteq> [])\<rparr>" by (simp only: fx_tick_def Let_def t1 other w5_def)
    ultimately have "fx_at e l ss k' (fx_tick v w1)" by (auto simp: fx_at_def fx_idle_def fx_busy_def)
    then show ?thesis unfolding res using q(3) k'(1) by (intro exI [of _ k']) simp
  qed
qed

definition late_ticks :: "nat \<Rightarrow> nat \<Rightarrow> fx_step list" where
  "late_ticks n m = concat (replicate m [Fx_Wait n, Fx_Tick])"

lemma at_late_ticks:
  assumes "fx_at e l ss k w" and "\<forall>s \<in> set ss. am_duration s \<le> int n"
  shows "\<exists>k' \<ge> min (k + m) (length ss). fx_at e l ss k' (fold (fx_do v) (late_ticks n m) w)"
  using assms(1)
proof (induction m arbitrary: k w)
  case 0
  then show ?case by (intro exI [of _ k]) (simp add: late_ticks_def)
next
  case (Suc m)
  obtain k1 where k1: "k1 \<ge> min (Suc k) (length ss)" "fx_at e l ss k1 (fx_do v Fx_Tick (fx_do v (Fx_Wait n) w))"
    using at_round [OF Suc.prems assms(2), of v] by blast
  obtain k' where "k' \<ge> min (k1 + m) (length ss)"
    "fx_at e l ss k' (fold (fx_do v) (late_ticks n m) (fx_do v Fx_Tick (fx_do v (Fx_Wait n) w)))" using Suc.IH [OF k1(2)] by blast
  then show ?case using k1(1) by (intro exI [of _ k']) (simp add: late_ticks_def)
qed

section \<open>Properties\<close>

text \<open>C39. While only orderly steps are taken, whatever is animated, stopped, finished or timed out: an element runs at most
  one animation of its own queue, none when that queue is empty, and a queue that is not empty is marked as running.
\<close>

theorem one_animation_at_a_time:
  assumes "fx_fresh w" and "orderly_steps v w ss"
  shows "let w' = fold (fx_do v) ss w in
    length (playing w' e) \<le> 1 \<and> (queue_of w' e ''fx'' = [] \<longrightarrow> playing w' e = []) \<and> (queue_of w' e ''fx'' \<noteq> [] \<longrightarrow> fx_marked w' e)"
proof -
  have "fx_orderly (fold (fx_do v) ss w)" by (rule orderly_run [OF orderly_fresh [OF assms(1)] assms(2)])
  then have "fx_ok (fold (fx_do v) ss w) e" by (simp add: fx_orderly_def)
  then show ?thesis by (auto simp: Let_def fx_ok_def fx_weak_def fx_marked_def)
qed

text \<open>C40. Animations that are queued on an idle element all end, in the order they were queued, each complete callback once:
  as many ticks as there are animations are enough, if the time between two ticks is no shorter than any duration.
\<close>

theorem queued_animations_run_out:
  assumes "fx_idle e w" and "\<forall>s \<in> set ss. am_props s \<noteq> [] \<and> am_duration s \<le> int n"
  shows "let w' = fold (fx_do v) (map (Fx_Animate e ''fx'') ss @ late_ticks n (length ss)) w in
    fx_log w' = fx_log w @ map (\<lambda>s. Fx_Done e (am_done s)) ss \<and> fx_timers w' = [] \<and> queue_of w' e ''fx'' = []"
proof -
  have "fx_at e (fx_log w) [] 0 w" using assms(1) by (simp add: fx_at_def)
  then obtain k where "fx_at e (fx_log w) ss k (fold (fx_do v) (map (Fx_Animate e ''fx'') ss) w)"
    using at_animates [of e "fx_log w" "[]" 0 w ss v] assms(2) by auto
  then obtain k' where k: "k' \<ge> min (k + length ss) (length ss)"
    "fx_at e (fx_log w) ss k' (fold (fx_do v) (late_ticks n (length ss)) (fold (fx_do v) (map (Fx_Animate e ''fx'') ss) w))"
    using at_late_ticks [where m = "length ss"] assms(2) by blast
  then have "k' = length ss" by (simp add: fx_at_def)
  then show ?thesis using k(2) by (simp add: Let_def fx_at_def fx_idle_def)
qed

section \<open>Samples\<close>

definition slide :: "rat \<Rightarrow> int \<Rightarrow> nat \<Rightarrow> animate_spec" where
  "slide x ms n = \<lparr>am_props = [(''left'', Aim x)], am_duration = ms, am_easing = ''linear'', am_done = n\<rparr>"

lemmas fx_compute = slide_def fade_def animate_fx_def enqueue_def settle_queue_def clear_queue_def dequeue_def play_def prefilter_def
  run_tweens_def run_tween_def fx_percent_def fx_over_def anim_done_def restore_style_def fire_empty_def unmarked_def complete_def
  stop_anim_def drop_timer_def timers_of_def stop_delays_def queue_name_def stop_fx_def finish_entry_def finish_fx_def tick_one_def
  fx_tick_def set_queue_def set_hooks_def queue_of_def hooks_of_def put_fx_def put_anim_def fx_say_def fx_current_def still_page_def
  linear_env_def playing_def alive_def Let_def

definition sample_steps :: "fx_step list" where
  "sample_steps = [Fx_Animate 1 ''fx'' (slide 10 400 1), Fx_Animate 1 ''fx'' (fade Fx_Hide 200 2), Fx_Queue 1 ''fx'' 3, Fx_Wait 500, Fx_Tick,
     Fx_Stop 1 None False True, Fx_Animate 1 ''fx'' (slide 20 400 4), Fx_Dequeue 1 ''fx'', Fx_Delay 1 ''other'' 50, Fx_Wait 10, Fx_Tick]"

theorem one_animation_at_a_time_witness:
  "orderly_steps linear_env still_page sample_steps \<and>
   (let w' = fold (fx_do linear_env) sample_steps still_page in
    length (playing w' 1) \<le> 1 \<and> (queue_of w' 1 ''fx'' = [] \<longrightarrow> playing w' 1 = []) \<and> (queue_of w' 1 ''fx'' \<noteq> [] \<longrightarrow> fx_marked w' 1)) \<and>
   playing (fold (fx_do linear_env) sample_steps still_page) 1 = [2]"
proof -
  have f: "fx_fresh still_page" by (simp add: fx_fresh_def still_page_def queue_of_def)
  have o: "orderly_steps linear_env still_page sample_steps" by (simp add: sample_steps_def fx_compute)
  have "playing (fold (fx_do linear_env) sample_steps still_page) 1 = [2]" by (simp add: sample_steps_def fx_compute)
  then show ?thesis using o one_animation_at_a_time [OF f o, of 1] by blast
qed

theorem queued_animations_run_out_witness:
  "let w' = fold (fx_do linear_env) (map (Fx_Animate 1 ''fx'') [slide 10 400 1, fade Fx_Hide 0 2, slide 30 200 3] @ late_ticks 400 3) still_page in
    fx_log w' = [Fx_Done 1 1, Fx_Done 1 2, Fx_Done 1 3] \<and> fx_timers w' = [] \<and> queue_of w' 1 ''fx'' = []"
proof -
  have i: "fx_idle 1 still_page" by (simp add: fx_idle_def still_page_def queue_of_def hooks_of_def)
  have "\<forall>s \<in> set [slide 10 400 1, fade Fx_Hide 0 2, slide 30 200 3]. am_props s \<noteq> [] \<and> am_duration s \<le> int 400"
    by (simp add: slide_def fade_def)
  from queued_animations_run_out [OF i this, of linear_env] show ?thesis by (simp add: slide_def fade_def still_page_def Let_def numeral_3_eq_3)
qed

text \<open>What the other steps do. An animation of nothing goes on with the queue though another animation runs.\<close>

lemma empty_animation_overlaps:
  "playing (fold (fx_do linear_env) [Fx_Animate 1 ''fx'' (slide 10 400 1), Fx_Animate 1 ''fx'' (slide 20 400 2),
     Fx_Animate 1 ''fx'' \<lparr>am_props = [], am_duration = 400, am_easing = ''linear'', am_done = 3\<rparr>] still_page) 1 = [0, 2]"
  by (simp add: fx_compute)

text \<open>\<open>stop(true)\<close> does not cancel a delay, since clearing the queue removes the hook that would; the timer then starts
  a second animation.\<close>

lemma delay_outlives_stop:
  "playing (fold (fx_do linear_env) [Fx_Delay 1 ''fx'' 1000, Fx_Stop 1 None True False, Fx_Animate 1 ''fx'' (slide 10 400 1),
     Fx_Animate 1 ''fx'' (slide 20 400 2), Fx_Timeout 0] still_page) 1 = [0, 1]"
  by (simp add: fx_compute)

text \<open>\<open>clearQueue\<close> removes the mark of the animation that runs, and the next one starts beside it.\<close>

lemma clear_forgets_running:
  "playing (fold (fx_do linear_env) [Fx_Animate 1 ''fx'' (slide 10 400 1), Fx_Clear 1 ''fx'', Fx_Animate 1 ''fx'' (slide 20 400 2)] still_page) 1 = [0, 1]"
  by (simp add: fx_compute)

text \<open>\<open>finish\<close> runs the tweens of an animation without duration again after it was over, which undoes what it restored.\<close>

lemma finish_leaves_transparent:
  "let w = fold (fx_do linear_env) [Fx_Animate 1 ''fx'' (slide 10 400 1), Fx_Animate 1 ''fx'' (fade Fx_Hide 0 2), Fx_Finish 1 ''fx''] still_page
   in fe_hidden (fx_elements w 1) \<and> fe_style (fx_elements w 1) ''opacity'' = Some 0"
  "let w = fold (fx_do linear_env) [Fx_Animate 1 ''fx'' (slide 10 400 1), Fx_Animate 1 ''fx'' (fade Fx_Hide 100 2), Fx_Wait 500, Fx_Tick, Fx_Wait 500, Fx_Tick] still_page
   in fe_hidden (fx_elements w 1) \<and> fe_style (fx_elements w 1) ''opacity'' = None"
  by (simp_all add: fx_compute)

end
