(* ===== verification/Spec2Isabelle.thy ===== *)
theory Spec2Isabelle
  imports Browsing_Session Turbo_Ready Deferreds Datepicker_Events Slider Spinner Progressbar Profile_Page Rails_Ujs Picture_Crop Dropdown In_Place Modals Tabs Tooltips Remote_Upload One_Animation
begin

text \<open>
  Verification of the JavaScript of webfinance, a Rails application for people looking for life insurance and for the
  brokers who advise them. The browser runs one script bundle, \<open>src/public/assets/application-8c8c95...js\<close>, compiled
  from the scripts of the application under \<open>src/app/assets/javascripts\<close> and from the libraries it uses (jQuery
  1.11.1, jquery\_ujs, Turbolinks, jquery.turbolinks, Bootstrap, jQuery UI 1.11.2). Everything modelled here is in that
  bundle; line numbers of the map refer to it, or to the script of the application it was compiled from.

  \<^bold>\<open>The scripts of the application.\<close>
    \<^item> \<open>Protection_Plans\<close>: \<open>protection_plans.js\<close>. The seven answers, the table of plans with their counters, the loop
      that scores them and the sentence with the recommended plans. The record of counters is updated in the order of
      the conditions of the source. Lemmas: the counters equal the number of answers that meet the key of each plan,
      and the sentence names the best plans.
    \<^item> \<open>Associations\<close>: \<open>add_association.js\<close>, \<open>remove_association.js\<close>, \<open>pagination.js\<close> and \<open>add_education.js\<close>. A page is
      its list of numbered rows. Lemma: removing a row keeps the visible rows numbered.
    \<^item> \<open>Profile_Page\<close>: \<open>brokers.js.coffee\<close>, \<open>financial_stories.js.coffee\<close>, the tabs of \<open>users.js.coffee\<close>, and the scripts the
      server answers with (\<open>src/app/views/*/*.js.erb\<close>). The events of the page are dispatched by the model of
      \<open>jQuery.event\<close>; \<open>profile_step\<close> is the step relation of user, server and page.
    \<^item> \<open>Picture_Crop\<close>: \<open>personal_profile.js\<close>, the dialog to upload or crop a picture, over the dialogs of \<open>Dialogs\<close>.
      Lemmas: the button shows its dialog, and the numbers written to the form.

  \<^bold>\<open>Navigation.\<close>
    \<^item> \<open>Page_Cache\<close>, \<open>Component_Url\<close>, \<open>Turbolinks\<close>: the cache of pages with its limit, the addresses and clicks taken over,
      and the operations that fetch, change and restore pages, one definition for each function of the source. The state is the
      record \<open>tl_state\<close>; what the server, the browser and the user supply is the record \<open>env\<close>.
    \<^item> \<open>Browsing_Session\<close>: a session as an inductive step relation over these operations, with the invariant from which
      it follows that no handler throws and that a step back restores the page that was left.
    \<^item> \<open>Turbo_Ready\<close>: \<open>jquery.turbolinks\<close>, which runs the ready callbacks of the scripts again for each page shown. It
      composes with the scripts above: the numbers of handlers and requests after n pages.

  \<^bold>\<open>jQuery.\<close>
    \<^item> \<open>Callbacks\<close> and \<open>Deferreds\<close>: \<open>jQuery.Callbacks\<close> with all its flags, its reentrant firing as a
      \<open>partial_function\<close>, and the deferreds built from three such lists; refinement to an abstract promise.
    \<^item> \<open>JQuery_Event\<close>: \<open>jQuery.event\<close> (\<open>add\<close>, \<open>remove\<close>, \<open>trigger\<close>, \<open>dispatch\<close>, \<open>handlers\<close>) for any page, as functions of
      a record \<open>event_page\<close>. \<open>Profile_Page\<close> and \<open>Rails_Ujs\<close> instantiate it.
    \<^item> \<open>Form_Data\<close>, \<open>Ajax_Convert\<close>, \<open>Ajax\<close>: how forms become queries, how a request gets its address, token and
      stamp, what order its callbacks and global events have, and how a response is converted.
    \<^item> \<open>Rails_Ujs\<close>: jquery\_ujs. Its handlers get their events from \<open>JQuery_Event\<close>, its requests are prepared by \<open>Ajax\<close>,
      its forms serialized by \<open>Form_Data\<close>. Lemmas: refused confirmations, locking and unlocking, where the token goes.
    \<^item> \<open>Remote_Upload\<close>: files in remote forms, that is \<open>jquery.remotipart\<close> and the transport through a frame. It fills the
      places \<open>Rails_Ujs\<close> leaves for handlers of the form. Lemmas: each file input is back in the page, enabled, when its
      upload has ended, and the form is submitted once with what was asked for.
    \<^item> \<open>Animations\<close> and \<open>One_Animation\<close>: queues and animations, \<open>fx_world\<close> holding the queue of each element and the list
      of timers; \<open>fx_do\<close> is one step of the page, its clock or its timers. Lemmas: an operation on one element leaves the queues
      of the others, orderly steps keep one animation for each element, and queued animations end in their order.

  \<^bold>\<open>Widgets of jQuery UI.\<close>
    \<^item> \<open>Calendar\<close>, \<open>Datepicker_Format\<close>, \<open>Datepicker_State\<close>, \<open>Datepicker_Grid\<close>, \<open>Datepicker_Events\<close>: the date picker, from the
      arithmetic of \<open>Date\<close> (with days that have no midnight) to what any sequence of user events does.
    \<^item> \<open>Numbers\<close>, \<open>Slider\<close>, \<open>Spinner\<close>, \<open>Progressbar\<close>: the controls with a value. \<open>Numbers\<close> holds their exact arithmetic and the
      locales \<open>bounded_control\<close> and \<open>stable_control\<close>, each control an interpretation.
    \<^item> \<open>Dialogs\<close>: the dialogs, whose list and overlays are shared by the page (\<open>dialog_page\<close>). Lemmas: overlays count the modal
      dialogs that are open, and the focus stays in them.
    \<^item> \<open>Tooltips\<close>: the tooltip on the whole document. Lemma: no sequence of events loses the title of an element.

  \<^bold>\<open>Bootstrap and editing in place.\<close>
    \<^item> \<open>Dropdown\<close>: the menus of the navigation bar, whose handlers get their events from \<open>JQuery_Event\<close>. Lemma: at most one
      menu is open, whatever is clicked or typed.
    \<^item> \<open>Modals\<close>: modal windows with their transitions, which end by an event or by a timer, in any order. Lemmas: the flags, the
      backdrop and the handlers agree at each step, and a closed window leaves nothing behind. The transitions that are
      under way end: \<open>run_out\<close> iterates by \<open>while_option\<close> with a measure.
    \<^item> \<open>Tabs\<close>: the lists of brokers. Lemma: one pane is shown once the transition has ended.
    \<^item> \<open>In_Place\<close>: \<open>best_in_place\<close>, a state machine of clicks, timers and answers for one element, over \<open>Data_Attributes\<close>
      (what \<open>jQuery.data\<close> makes of an attribute) and \<open>Text_Markup\<close> (text as markup). Lemma: editing and clickable take turns.

  \<^bold>\<open>Conventions.\<close> A record for the state of each component, a datatype with the constructors of the source for its
  events; handlers take and return the state; a handler that may throw returns a sum or an option. Numbers with a
  fraction are rational numbers, computed exactly, integers are \<open>int\<close>; no program part relies on wrap-around. What an
  application's callback or the user answers is an argument of each step, so that theorems hold for any answers. The
  logs in the states record calls in their order.

  \<^bold>\<open>Loops.\<close> Loops over lists are structural. \<open>convert_loop\<close>, \<open>format_chars\<close>, \<open>parse_chars\<close>, \<open>possible_chars\<close>, \<open>month_of_doy\<close>,
  \<open>words\<close> and \<open>cut_noscript\<close> have termination proofs by a measure. \<open>fire_loop\<close> and \<open>back_to\<close> are partial functions, since
  callbacks may add to the list for ever and the first month of a picker may never be found; that they return is proved
  where it is claimed. \<open>remove_words\<close> and the steps of the \<open>when\<close> model use the structure of their input; no fuel is used.

  \<^bold>\<open>Not modelled.\<close> The server (Ruby), the markup and the style sheets; the rendering of a page beyond the texts, classes
  and attributes the scripts read. Of jQuery: Sizzle, the DOM functions and CSS, data caches, XML and JSON parsing, the
  transport by \<open>XMLHttpRequest\<close>. Of jQuery UI: accordion, autocomplete, button, draggable, droppable, effects, menu, mouse,
  position, resizable, selectable, selectmenu, sortable, tabs. Autosize, purr, Jcrop and validate. Of Bootstrap: affix, alert,
  button, carousel, collapse, scrollspy, tooltip and popover. These either compute with the layout of the page, which
  the sources do not hold, or are not used by the views of the application. The older bundles under
  \<open>src/public/assets\<close> are earlier compilations of the same scripts.
\<close>

end
